(* ===== verification/Prelude.thy ===== *)
theory Prelude
  imports Main "HOL-Library.Word"
begin

text \<open>
  Shared ground of the development: the types every component uses, the checked and wrapping
  arithmetic of \<^verbatim>\<open>size_t\<close>, the byte-addressed memory with its reads and writes, and the
  generic facts about them.

  A \<^verbatim>\<open>proven_size_t\<close> and an address (\<^verbatim>\<open>proven_uintptr_t\<close>) are 64 bits wide, as on every
  64-bit target of the library. They are natural numbers here, and every place where the C
  arithmetic can leave the width is written out: the checked operations
  \<^verbatim>\<open>PROVEN_CKD_ADD\<close>, \<^verbatim>\<open>PROVEN_CKD_SUB\<close> and \<^verbatim>\<open>PROVEN_CKD_MUL\<close> answer \<open>None\<close> on overflow, and an
  unchecked addition or multiplication that is not bounded by a test just before it goes
  through \<open>wrap\<close>. Values that are bit patterns (bytes, code points, hashes) are words.
  Address 0 is the null pointer.
\<close>

unbundle bit_operations_syntax

named_theorems ckd_simps
named_theorems mem_simps

type_synonym byte = "8 word"
type_synonym addr = nat
type_synonym mem = "addr \<Rightarrow> byte"

section \<open>Arithmetic of the machine's sizes\<close>

definition SIZE_MAX :: nat where
  "SIZE_MAX = 2 ^ 64 - 1"

definition wrap :: "nat \<Rightarrow> nat" where
  "wrap n = n mod 2 ^ 64"

definition ckd_add :: "nat \<Rightarrow> nat \<Rightarrow> nat option" where
  "ckd_add a b = (if a + b \<le> SIZE_MAX then Some (a + b) else None)"

definition ckd_sub :: "nat \<Rightarrow> nat \<Rightarrow> nat option" where
  "ckd_sub a b = (if b \<le> a then Some (a - b) else None)"

definition ckd_mul :: "nat \<Rightarrow> nat \<Rightarrow> nat option" where
  "ckd_mul a b = (if a * b \<le> SIZE_MAX then Some (a * b) else None)"

lemma SIZE_MAX_eval: "SIZE_MAX = 18446744073709551615"
  by (simp add: SIZE_MAX_def)

lemma wrap_id [simp]: "n \<le> SIZE_MAX \<Longrightarrow> wrap n = n"
  by (simp add: wrap_def SIZE_MAX_eval)

lemma wrap_le [simp]: "wrap n \<le> SIZE_MAX"
proof -
  have "n mod 2 ^ 64 < (2 ^ 64 :: nat)" by simp
  then show ?thesis unfolding wrap_def SIZE_MAX_def by linarith
qed

lemma ckd_add_Some [ckd_simps]: "ckd_add a b = Some c \<longleftrightarrow> c = a + b \<and> a + b \<le> SIZE_MAX"
  by (auto simp: ckd_add_def)

lemma ckd_add_None [ckd_simps]: "ckd_add a b = None \<longleftrightarrow> SIZE_MAX < a + b"
  by (auto simp: ckd_add_def)

lemma ckd_sub_Some [ckd_simps]: "ckd_sub a b = Some c \<longleftrightarrow> b \<le> a \<and> c = a - b"
  by (auto simp: ckd_sub_def)

lemma ckd_sub_None [ckd_simps]: "ckd_sub a b = None \<longleftrightarrow> a < b"
  by (auto simp: ckd_sub_def)

lemma ckd_mul_Some [ckd_simps]: "ckd_mul a b = Some c \<longleftrightarrow> c = a * b \<and> a * b \<le> SIZE_MAX"
  by (auto simp: ckd_mul_def)

lemma ckd_mul_None [ckd_simps]: "ckd_mul a b = None \<longleftrightarrow> SIZE_MAX < a * b"
  by (auto simp: ckd_mul_def)

section \<open>Memory\<close>

definition mem_read :: "mem \<Rightarrow> addr \<Rightarrow> nat \<Rightarrow> byte list" where
  "mem_read h p n = map h [p..<p + n]"

definition mem_write :: "mem \<Rightarrow> addr \<Rightarrow> byte list \<Rightarrow> mem" where
  "mem_write h p bs = (\<lambda>a. if p \<le> a \<and> a < p + length bs then bs ! (a - p) else h a)"

text \<open>The addresses of a block, and of a set of blocks.\<close>

definition span :: "addr \<times> nat \<Rightarrow> addr set" where
  "span b = {fst b..<fst b + snd b}"

definition spans :: "(addr \<times> nat) set \<Rightarrow> addr set" where
  "spans B = (\<Union>b\<in>B. span b)"

lemma in_span [simp]: "a \<in> span (p, n) \<longleftrightarrow> p \<le> a \<and> a < p + n"
  by (simp add: span_def)

lemma spans_insert [simp]: "spans (insert b B) = span b \<union> spans B"
  by (simp add: spans_def)

lemma spans_empty [simp]: "spans {} = {}"
  by (simp add: spans_def)

lemma spans_mono: "B \<subseteq> C \<Longrightarrow> spans B \<subseteq> spans C"
  by (auto simp: spans_def)

lemma span_subset_spans: "b \<in> B \<Longrightarrow> span b \<subseteq> spans B"
  by (auto simp: spans_def)

lemma length_mem_read [simp]: "length (mem_read h p n) = n"
  by (simp add: mem_read_def)

lemma mem_read_0 [simp]: "mem_read h p 0 = []"
  by (simp add: mem_read_def)

lemma nth_mem_read [simp]: "i < n \<Longrightarrow> mem_read h p n ! i = h (p + i)"
  by (simp add: mem_read_def)

lemma mem_read_cong: "(\<And>i. i < n \<Longrightarrow> h (p + i) = h' (q + i)) \<Longrightarrow> mem_read h p n = mem_read h' q n"
  by (rule nth_equalityI) auto

lemma mem_read_eqI: "length bs = n \<Longrightarrow> (\<And>i. i < n \<Longrightarrow> h (p + i) = bs ! i) \<Longrightarrow> mem_read h p n = bs"
  by (rule nth_equalityI) auto

lemma mem_write_Nil [simp]: "mem_write h p [] = h"
  by (rule ext) (auto simp: mem_write_def)

lemma mem_write_in [mem_simps]: "i < length bs \<Longrightarrow> mem_write h p bs (p + i) = bs ! i"
  by (simp add: mem_write_def)

lemma mem_write_out [mem_simps]: "a \<notin> span (p, length bs) \<Longrightarrow> mem_write h p bs a = h a"
  by (auto simp: mem_write_def)

lemma mem_read_write_same [simp]: "length bs = n \<Longrightarrow> mem_read (mem_write h p bs) p n = bs"
  by (rule mem_read_eqI) (auto simp: mem_write_in)

lemma mem_read_write_disjoint:
  "q + n \<le> p \<or> p + length bs \<le> q \<Longrightarrow> mem_read (mem_write h p bs) q n = mem_read h q n"
  by (rule mem_read_cong) (auto simp: mem_write_def)

lemma mem_read_frame:
  "(\<And>a. a \<in> span (p, n) \<Longrightarrow> h' a = h a) \<Longrightarrow> mem_read h' p n = mem_read h p n"
  by (rule mem_read_cong) auto

lemma mem_read_append: "mem_read h p (m + n) = mem_read h p m @ mem_read h (p + m) n"
  by (rule mem_read_eqI) (auto simp: nth_append)

lemma mem_read_Suc: "mem_read h p (Suc n) = h p # mem_read h (Suc p) n"
  by (simp add: mem_read_def upt_conv_Cons del: upt_Suc)

lemma mem_read_numeral: "mem_read h p (numeral k) = h p # mem_read h (Suc p) (pred_numeral k)"
  by (simp add: numeral_eq_Suc mem_read_Suc)

lemma mem_read_sub: "i + n \<le> m \<Longrightarrow> mem_read h (p + i) n = take n (drop i (mem_read h p m))"
  by (rule mem_read_eqI) (auto simp: min_def add.assoc)

lemma mem_write_write_same:
  "length bs = length cs \<Longrightarrow> mem_write (mem_write h p bs) p cs = mem_write h p cs"
  by (rule ext) (auto simp: mem_write_def)

text \<open>The byte loop \<^verbatim>\<open>for (i = 0; i < n; ++i) dst[i] = src[i]\<close>.\<close>

fun copy_loop :: "mem \<Rightarrow> addr \<Rightarrow> addr \<Rightarrow> nat \<Rightarrow> mem" where
  "copy_loop h dst src 0 = h"
| "copy_loop h dst src (Suc n) = copy_loop (h(dst := h src)) (Suc dst) (Suc src) n"

lemma copy_loop_disjoint:
  "src + n \<le> dst \<or> dst + n \<le> src \<Longrightarrow> copy_loop h dst src n = mem_write h dst (mem_read h src n)"
proof (induction n arbitrary: h dst src)
  case 0
  then show ?case by simp
next
  case (Suc n)
  let ?h = "h(dst := h src)"
  from Suc.prems have "Suc src + n \<le> Suc dst \<or> Suc dst + n \<le> Suc src" by auto
  then have "copy_loop ?h (Suc dst) (Suc src) n = mem_write ?h (Suc dst) (mem_read ?h (Suc src) n)"
    by (rule Suc.IH)
  moreover have "mem_read ?h (Suc src) n = mem_read h (Suc src) n"
    using Suc.prems by (intro mem_read_cong) auto
  ultimately show ?case
    by (auto simp: mem_read_Suc mem_write_def fun_eq_iff nth_Cons' Suc_diff_Suc)
qed

section \<open>Lists\<close>

lemma concat_replicate_length: "length (concat (replicate n xs)) = n * length xs"
  by (induction n) auto

lemma nth_take_drop: "i < n \<Longrightarrow> k + i < length xs \<Longrightarrow> take n (drop k xs) ! i = xs ! (k + i)"
  by simp

lemma map_upt_Suc_snoc: "map f [0..<Suc n] = map f [0..<n] @ [f n]"
  by simp

lemma map_upt_Cons: "0 < n \<Longrightarrow> map f [0..<n] = f 0 # map (\<lambda>i. f (Suc i)) [0..<n - 1]"
  by (cases n) (simp_all add: map_upt_Suc del: upt_Suc)

text \<open>Slots of equal size do not overlap.\<close>

lemma slot_disjoint: "i \<noteq> j \<Longrightarrow> i * s + s \<le> j * s \<or> j * s + s \<le> (i :: nat) * s"
proof (cases "i < j")
  case True
  then have "Suc i * s \<le> j * s" by (intro mult_le_mono1) simp
  then show ?thesis by simp
next
  case False
  assume "i \<noteq> j"
  with False have "Suc j * s \<le> i * s" by (intro mult_le_mono1) simp
  then show ?thesis by simp
qed

lemma slot_bound: "i < (n :: nat) \<Longrightarrow> i * s + s \<le> n * s"
proof -
  assume "i < n"
  then have "Suc i * s \<le> n * s" by (intro mult_le_mono1) simp
  then show ?thesis by simp
qed

lemma slot_le: "i < (n :: nat) \<Longrightarrow> n * s \<le> m \<Longrightarrow> i * s \<le> m \<and> i * s + s \<le> m"
  using slot_bound [of i n s] by linarith

lemma slot_mono: "i \<le> (n :: nat) \<Longrightarrow> i * s \<le> n * s"
  by (rule mult_le_mono1)

end
