(* ===== verification/Base.thy ===== *)
theory Base
  imports Prelude
begin

text \<open>
  The foundation headers: the error codes (\<^verbatim>\<open>include/proven/types.h\<close>) and the alignment
  arithmetic (\<^verbatim>\<open>include/proven/align.h\<close>). A mask \<^verbatim>\<open>res & ~mask\<close> is computed on 64-bit words,
  as in C; the lemmas turn it into arithmetic on sizes: the answer is the least multiple of the
  alignment at or above the address, and 0 exactly when that would leave the address space.
\<close>

section \<open>types.h: error codes\<close>

datatype proven_err =
    PROVEN_OK
  | PROVEN_ERR_NOMEM
  | PROVEN_ERR_OUT_OF_BOUNDS
  | PROVEN_ERR_INVALID_ENCODING
  | PROVEN_ERR_INVALID_ARG
  | PROVEN_ERR_IO
  | PROVEN_ERR_NOT_FOUND
  | PROVEN_ERR_INVALID_STATE
  | PROVEN_ERR_NEED_MORE
  | PROVEN_ERR_OVERFLOW
  | PROVEN_ERR_UNSUPPORTED
  | PROVEN_ERR_AGAIN
  | PROVEN_ERR_EOF
  | PROVEN_ERR_BUSY
  | PROVEN_ERR_PERMISSION
  | PROVEN_ERR_INVALID_FORMAT
  | PROVEN_ERR_EXISTS
  | PROVEN_ERR_TIMEOUT
  | PROVEN_ERR_REFUSED
  | PROVEN_ERR_RESET
  | PROVEN_ERR_UNREACHABLE
  | PROVEN_ERR_UNTRUSTED
  | PROVEN_ERR_EXPIRED
  | PROVEN_ERR_NOT_YET_VALID
  | PROVEN_ERR_NAME_MISMATCH
  | PROVEN_ERR_PROTOCOL
  | PROVEN_ERR_CANCELLED

section \<open>align.h\<close>

definition proven_is_pow2 :: "nat \<Rightarrow> bool" where
  "proven_is_pow2 x \<longleftrightarrow> x \<noteq> 0 \<and> x AND (x - 1) = 0"

definition mask_off :: "nat \<Rightarrow> nat \<Rightarrow> nat" where
  "mask_off res msk = unat ((of_nat res :: 64 word) AND NOT (of_nat msk))"

definition proven_mem_align_up :: "nat \<Rightarrow> nat \<Rightarrow> nat" where
  "proven_mem_align_up addr align =
    (if \<not> proven_is_pow2 align then 0
     else let msk = align - 1
          in case ckd_add addr msk of None \<Rightarrow> 0 | Some res \<Rightarrow> mask_off res msk)"

definition proven_uintptr_align_up :: "addr \<Rightarrow> nat \<Rightarrow> addr" where
  "proven_uintptr_align_up addr align =
    (if \<not> proven_is_pow2 align then 0
     else let msk = align - 1
          in case ckd_add addr msk of None \<Rightarrow> 0 | Some res \<Rightarrow> mask_off res msk)"

lemma pow2_and: "(2 ^ k :: nat) AND (2 ^ k - 1) = 0"
proof -
  have "(2 ^ k :: nat) AND mask k = take_bit k (2 ^ k)" by (simp add: take_bit_eq_mask)
  then show ?thesis by (simp add: mask_eq_exp_minus_1)
qed

lemma and_pred_0_pow2: "x \<noteq> 0 \<Longrightarrow> x AND (x - 1) = 0 \<Longrightarrow> \<exists>k. x = (2 ^ k :: nat)"
proof (induction x rule: less_induct)
  case (less x)
  show ?case
  proof (cases "even x")
    case True
    with less.prems(1) obtain m where m: "x = 2 * m" "m \<noteq> 0" by (auto elim: evenE)
    have e: "x - 1 = 1 + 2 * (m - 1)" using m by simp
    have d: "(2 * m - Suc 0) div 2 = m - Suc 0" using m(2) by (cases m) auto
    have "x AND (x - 1) = 2 * (m AND (m - 1))"
      unfolding e m(1) by (subst and_rec) (simp add: d)
    with less.prems(2) have "m AND (m - 1) = 0" by simp
    with less.IH [of m] m obtain k where "m = 2 ^ k" by auto
    with m(1) have "x = 2 ^ Suc k" by simp
    then show ?thesis by blast
  next
    case False
    then obtain m where m: "x = 2 * m + 1" by (auto elim: oddE)
    have "x AND (x - 1) = 2 * m"
      unfolding m by (subst and_rec) simp
    with less.prems(2) m have "x = 2 ^ 0" by simp
    then show ?thesis by blast
  qed
qed

lemma proven_is_pow2_iff: "proven_is_pow2 x \<longleftrightarrow> (\<exists>k. x = 2 ^ k)"
  by (metis and_pred_0_pow2 pow2_and power_not_zero proven_is_pow2_def zero_neq_numeral)

lemma proven_is_pow2_pos: "proven_is_pow2 x \<Longrightarrow> 0 < x"
  by (simp add: proven_is_pow2_def)

lemma word_split_mask: "(w AND NOT (mask k)) + (w AND mask k) = (w :: 'a::len word)"
proof -
  have "(w AND NOT (mask k)) AND (w AND mask k) = 0"
    by (rule bit_eqI) (auto simp: bit_simps)
  moreover have "(w AND NOT (mask k)) OR (w AND mask k) = w"
    by (rule bit_eqI) (auto simp: bit_simps)
  ultimately show ?thesis
    using word_plus_and_or [of "w AND NOT (mask k)" "w AND mask k"] by simp
qed

lemma mask_off_pow2:
  assumes "r \<le> SIZE_MAX" "k < 64"
  shows "mask_off r (2 ^ k - 1) = r - r mod 2 ^ k"
proof -
  let ?w = "of_nat r :: 64 word"
  have m: "(of_nat (2 ^ k - 1) :: 64 word) = mask k"
    by (simp add: mask_eq_exp_minus_1)
  have "?w AND NOT (mask k) = ?w - take_bit k ?w"
    using word_split_mask [of ?w k]
    by (simp add: take_bit_eq_mask algebra_simps)
  moreover have r: "unat ?w = r" using assms by (simp add: unat_of_nat SIZE_MAX_eval)
  moreover have "unat (take_bit k ?w) = r mod 2 ^ k"
    by (simp add: unsigned_take_bit_eq r) (simp add: take_bit_eq_mod)
  ultimately show ?thesis unfolding m mask_off_def
    by (simp add: unat_sub_if')
qed

lemma pow2_size_exponent:
  assumes "proven_is_pow2 align" "align \<le> SIZE_MAX"
  obtains k where "align = 2 ^ k" "k < 64"
proof -
  obtain k where k: "align = 2 ^ k" using assms(1) proven_is_pow2_iff by blast
  have "k < 64"
  proof (rule ccontr)
    assume "\<not> k < 64"
    then have "(2 :: nat) ^ 64 \<le> 2 ^ k" by (intro power_increasing) auto
    with k assms(2) show False by (simp add: SIZE_MAX_eval)
  qed
  with k that show thesis by blast
qed

text \<open>What rounding up means: the least multiple of the alignment not below the address.\<close>

lemma align_up_value:
  assumes "proven_is_pow2 align" "addr + (align - 1) \<le> SIZE_MAX"
  shows "proven_mem_align_up addr align = (addr + (align - 1)) div align * align"
    and "proven_uintptr_align_up addr align = (addr + (align - 1)) div align * align"
proof -
  have p: "0 < align" using assms(1) by (rule proven_is_pow2_pos)
  with assms(2) have "align \<le> SIZE_MAX \<or> align = SIZE_MAX + 1" by linarith
  then obtain k where k: "align = 2 ^ k" "k \<le> 64"
  proof
    assume "align \<le> SIZE_MAX"
    with assms(1) that show thesis by (metis pow2_size_exponent less_imp_le)
  next
    assume "align = SIZE_MAX + 1"
    then have "align = 2 ^ 64" by (simp add: SIZE_MAX_def)
    with that [of 64] show thesis by simp
  qed
  have "mask_off (addr + (align - 1)) (align - 1) = (addr + (align - 1)) div align * align"
  proof (cases "k = 64")
    case False
    with k have "mask_off (addr + (align - 1)) (align - 1)
        = addr + (align - 1) - (addr + (align - 1)) mod align"
      using assms(2) mask_off_pow2 [of "addr + (align - 1)" k] by simp
    then show ?thesis by (simp add: minus_mod_eq_div_mult)
  next
    case True
    with k assms(2) have a: "align = 2 ^ 64" "addr = 0" by (auto simp: SIZE_MAX_eval)
    then show ?thesis by (simp add: mask_off_def)
  qed
  with assms show "proven_mem_align_up addr align = (addr + (align - 1)) div align * align"
    and "proven_uintptr_align_up addr align = (addr + (align - 1)) div align * align"
    by (simp_all add: proven_mem_align_up_def proven_uintptr_align_up_def Let_def ckd_add_def)
qed

lemma align_up_overflow:
  "SIZE_MAX < addr + (align - 1) \<Longrightarrow> proven_uintptr_align_up addr align = 0"
  "SIZE_MAX < addr + (align - 1) \<Longrightarrow> proven_mem_align_up addr align = 0"
  by (auto simp: proven_uintptr_align_up_def proven_mem_align_up_def Let_def ckd_add_def)

lemma round_up_bounds:
  assumes "0 < (a :: nat)"
  shows "x \<le> (x + (a - 1)) div a * a" "(x + (a - 1)) div a * a < x + a"
    "(x + (a - 1)) div a * a mod a = 0"
proof -
  have "(x + (a - 1)) div a * a + (x + (a - 1)) mod a = x + (a - 1)" by simp
  moreover have "(x + (a - 1)) mod a < a" using assms by simp
  ultimately show "x \<le> (x + (a - 1)) div a * a" "(x + (a - 1)) div a * a < x + a"
    using assms by linarith+
qed simp

text \<open>Where the addition overflows, the round-up would leave the address space as well.\<close>

lemma align_up_past:
  assumes p: "proven_is_pow2 align" and x: "0 < x" and over: "SIZE_MAX < x + (align - 1)"
  shows "SIZE_MAX < (x + (align - 1)) div align * align"
proof -
  obtain k where k: "align = 2 ^ k" using p proven_is_pow2_iff by blast
  have pos: "0 < align" using k by simp
  show ?thesis
  proof (cases "k \<le> 64")
    case True
    define m where "m = (2 :: nat) ^ (64 - k)"
    have m: "m * align = 2 ^ 64" using True by (simp add: m_def k power_add [symmetric])
    then have "m * align \<le> x + (align - 1)" using over by (simp add: SIZE_MAX_def)
    then have "m \<le> (x + (align - 1)) div align" using pos by (simp add: less_eq_div_iff_mult_less_eq)
    then have "m * align \<le> (x + (align - 1)) div align * align" by (rule mult_le_mono1)
    then show ?thesis using m by (simp add: SIZE_MAX_def)
  next
    case False
    then have "(2 :: nat) ^ 64 \<le> align" unfolding k by (intro power_increasing) simp_all
    moreover have "1 \<le> (x + (align - 1)) div align"
      using x pos by (simp add: less_eq_div_iff_mult_less_eq)
    then have "1 * align \<le> (x + (align - 1)) div align * align" by (rule mult_le_mono1)
    then have "align \<le> (x + (align - 1)) div align * align" by (simp only: mult_1)
    ultimately have "(2 :: nat) ^ 64 \<le> (x + (align - 1)) div align * align" by (rule order_trans)
    then show ?thesis by (simp add: SIZE_MAX_def)
  qed
qed

section \<open>Properties\<close>

text \<open>rounding an address up to a power of two gives the least multiple at or above it, and 0
  exactly when no such address exists below \<open>2 ^ 64\<close>.\<close>

theorem align_up_least:
  assumes "proven_is_pow2 align" "0 < addr" "addr \<le> SIZE_MAX"
  shows "(if \<exists>m \<le> SIZE_MAX. align dvd m \<and> addr \<le> m
     then align dvd proven_mem_align_up addr align \<and> addr \<le> proven_mem_align_up addr align \<and>
       (\<forall>m. align dvd m \<and> addr \<le> m \<longrightarrow> proven_mem_align_up addr align \<le> m)
     else proven_mem_align_up addr align = 0) \<and>
    proven_uintptr_align_up addr align = proven_mem_align_up addr align"
proof -
  define up where "up = (addr + (align - 1)) div align * align"
  have pos: "0 < align" by (rule proven_is_pow2_pos [OF assms(1)])
  have least: "up \<le> m" if "align dvd m" "addr \<le> m" for m
  proof -
    from that(1) obtain k where "m = align * k" ..
    then have k: "m = k * align" by (simp only: mult.commute)
    have "addr + (align - 1) < Suc k * align" using that(2) pos by (simp add: k)
    then have "(addr + (align - 1)) div align < Suc k" by (rule less_mult_imp_div_less)
    then have "(addr + (align - 1)) div align \<le> k" by simp
    then show ?thesis unfolding k up_def by (rule mult_le_mono1)
  qed
  have same: "proven_uintptr_align_up addr align = proven_mem_align_up addr align"
    by (simp add: proven_uintptr_align_up_def proven_mem_align_up_def)
  have b: "addr \<le> up" "align dvd up"
    using round_up_bounds(1) [OF pos, of addr] by (simp_all only: up_def dvd_triv_right)
  show ?thesis
  proof (cases "addr + (align - 1) \<le> SIZE_MAX")
    case True
    have "up \<le> addr + (align - 1)" unfolding up_def by (rule div_times_less_eq_dividend)
    then have "up \<le> SIZE_MAX" using True by simp
    then have "\<exists>m \<le> SIZE_MAX. align dvd m \<and> addr \<le> m" using b by blast
    moreover have "proven_mem_align_up addr align = up"
      unfolding up_def by (rule align_up_value(1) [OF assms(1) True])
    ultimately show ?thesis using least b same by simp
  next
    case False
    then have "SIZE_MAX < up" using align_up_past [OF assms(1,2)] by (simp add: up_def)
    then have "\<not> (\<exists>m \<le> SIZE_MAX. align dvd m \<and> addr \<le> m)" using least by (meson leD le_trans)
    then show ?thesis using same align_up_overflow(2) [of addr align] False by auto
  qed
qed

theorem align_up_least_witness: "proven_is_pow2 16 \<and> 16 dvd proven_mem_align_up 4099 16"
proof -
  have "\<exists>m \<le> SIZE_MAX. 16 dvd m \<and> 4099 \<le> m" by (rule exI [of _ 4112]) (simp add: SIZE_MAX_eval)
  then show ?thesis
    using align_up_least [of 16 4099] by (simp add: proven_is_pow2_def SIZE_MAX_eval)
qed

end
