(* ===== verification/Memory.thy ===== *)
theory Memory
  imports Base
begin

text \<open>
  Memory slices and the operations on them: \<^verbatim>\<open>include/proven/memory.h\<close>, \<^verbatim>\<open>src/proven/memory.c\<close>,
  the range checks of \<^verbatim>\<open>src/proven/proven_internal_memrange.h\<close> and the guarded copy, fill and
  compare of \<^verbatim>\<open>platform/proven_sys_mem.c\<close>. The three slice structs of the header have the same
  two fields, and one record stands for them. A slice with a null pointer has address 0.

  The lemmas say when a checked slice lies in its parent, that a captured reference rebased onto
  a moved buffer names the same bytes, that the overlap test is exactly the sharing of an
  address, and that the constant-time comparison is equality.
\<close>

section \<open>Slices\<close>

record proven_mem =
  ptr :: addr
  msize :: nat

record proven_result_mem =
  rerr :: proven_err
  rval :: proven_mem

definition null_mem :: proven_mem where
  "null_mem = \<lparr>ptr = 0, msize = 0\<rparr>"

definition mem_error :: "proven_err \<Rightarrow> proven_result_mem" where
  "mem_error e = \<lparr>rerr = e, rval = null_mem\<rparr>"

definition mem_ok :: "addr \<Rightarrow> nat \<Rightarrow> proven_result_mem" where
  "mem_ok p n = \<lparr>rerr = PROVEN_OK, rval = \<lparr>ptr = p, msize = n\<rparr>\<rparr>"

lemma mem_error_simps [simp]:
  "rerr (mem_error e) = e" "rval (mem_error e) = null_mem"
  by (simp_all add: mem_error_def)

lemma mem_ok_simps [simp]:
  "rerr (mem_ok p n) = PROVEN_OK" "ptr (rval (mem_ok p n)) = p" "msize (rval (mem_ok p n)) = n"
  by (simp_all add: mem_ok_def)

definition proven_mem_view_slice_checked :: "proven_mem \<Rightarrow> nat \<Rightarrow> nat \<Rightarrow> proven_result_mem" where
  "proven_mem_view_slice_checked view offset sz =
    (if msize view > 0 \<and> ptr view = 0 then mem_error PROVEN_ERR_INVALID_ARG
     else if offset > msize view \<or> sz > msize view - offset then mem_error PROVEN_ERR_OUT_OF_BOUNDS
     else if sz = 0 then mem_ok 0 0
     else mem_ok (ptr view + offset) sz)"

definition proven_mem_mut_slice_checked :: "proven_mem \<Rightarrow> nat \<Rightarrow> nat \<Rightarrow> proven_result_mem" where
  "proven_mem_mut_slice_checked mut offset sz =
    (if msize mut > 0 \<and> ptr mut = 0 then mem_error PROVEN_ERR_INVALID_ARG
     else if offset > msize mut \<or> sz > msize mut - offset then mem_error PROVEN_ERR_OUT_OF_BOUNDS
     else if sz = 0 then mem_ok 0 0
     else mem_ok (ptr mut + offset) sz)"

text \<open>The Boolean answer and the optional out-offset of the C function are one option.\<close>

definition proven_range_contains_ptr :: "addr \<Rightarrow> nat \<Rightarrow> addr \<Rightarrow> nat \<Rightarrow> nat option" where
  "proven_range_contains_ptr base cap p sz =
    (if base = 0 \<or> p = 0 then None
     else case ckd_add base cap of None \<Rightarrow> None
     | Some e \<Rightarrow>
         if p < base \<or> p > e then None
         else case ckd_add p sz of None \<Rightarrow> None
         | Some p_end \<Rightarrow> if p_end > e then None else Some (p - base))"

section \<open>proven_internal_memrange.h\<close>

record proven_bufref =
  ref_valid :: bool
  ref_offset :: nat
  ref_size :: nat

definition proven_bufref_capture :: "addr \<Rightarrow> nat \<Rightarrow> addr \<Rightarrow> nat \<Rightarrow> proven_bufref" where
  "proven_bufref_capture base cap p sz =
    (case proven_range_contains_ptr base cap p sz of
       None \<Rightarrow> \<lparr>ref_valid = False, ref_offset = 0, ref_size = sz\<rparr>
     | Some off \<Rightarrow> \<lparr>ref_valid = True, ref_offset = off, ref_size = sz\<rparr>)"

definition proven_bufref_rebase_const :: "proven_bufref \<Rightarrow> addr \<Rightarrow> addr" where
  "proven_bufref_rebase_const ref new_base =
    (if \<not> ref_valid ref \<or> new_base = 0 then 0 else new_base + ref_offset ref)"

definition proven_range_overlaps :: "addr \<Rightarrow> nat \<Rightarrow> addr \<Rightarrow> nat \<Rightarrow> bool" where
  "proven_range_overlaps base cap p sz =
    (if base = 0 \<or> p = 0 \<or> cap = 0 \<or> sz = 0 then False
     else let b_end = (case ckd_add base cap of None \<Rightarrow> SIZE_MAX | Some e \<Rightarrow> e);
              p_end = (case ckd_add p sz of None \<Rightarrow> SIZE_MAX | Some e \<Rightarrow> e)
          in p < b_end \<and> base < p_end)"

section \<open>The platform's copy, fill and compare\<close>

definition proven_sys_mem_copy :: "mem \<Rightarrow> addr \<Rightarrow> addr \<Rightarrow> nat \<Rightarrow> mem" where
  "proven_sys_mem_copy h dst src n =
    (if n > 0 \<and> dst \<noteq> 0 \<and> src \<noteq> 0 then mem_write h dst (mem_read h src n) else h)"

definition proven_sys_mem_move :: "mem \<Rightarrow> addr \<Rightarrow> addr \<Rightarrow> nat \<Rightarrow> mem" where
  "proven_sys_mem_move h dst src n =
    (if n > 0 \<and> dst \<noteq> 0 \<and> src \<noteq> 0 then mem_write h dst (mem_read h src n) else h)"

definition proven_sys_mem_set :: "mem \<Rightarrow> addr \<Rightarrow> byte \<Rightarrow> nat \<Rightarrow> mem" where
  "proven_sys_mem_set h dst v n =
    (if n > 0 \<and> dst \<noteq> 0 then mem_write h dst (replicate n v) else h)"

definition proven_sys_mem_zero :: "mem \<Rightarrow> addr \<Rightarrow> nat \<Rightarrow> mem" where
  "proven_sys_mem_zero h dst n =
    (if n > 0 \<and> dst \<noteq> 0 then mem_write h dst (replicate n 0) else h)"

section \<open>memory.c\<close>

definition proven_mem_copy :: "mem \<Rightarrow> addr \<Rightarrow> nat \<Rightarrow> proven_mem \<Rightarrow> proven_err \<times> mem" where
  "proven_mem_copy h dst dst_cap src =
    (if msize src = 0 then (PROVEN_OK, h)
     else if dst = 0 \<or> ptr src = 0 then (PROVEN_ERR_INVALID_ARG, h)
     else if msize src > dst_cap then (PROVEN_ERR_OUT_OF_BOUNDS, h)
     else (PROVEN_OK, proven_sys_mem_copy h dst (ptr src) (msize src)))"

definition proven_mem_move :: "mem \<Rightarrow> addr \<Rightarrow> nat \<Rightarrow> proven_mem \<Rightarrow> proven_err \<times> mem" where
  "proven_mem_move h dst dst_cap src =
    (if msize src = 0 then (PROVEN_OK, h)
     else if dst = 0 \<or> ptr src = 0 then (PROVEN_ERR_INVALID_ARG, h)
     else if msize src > dst_cap then (PROVEN_ERR_OUT_OF_BOUNDS, h)
     else (PROVEN_OK, proven_sys_mem_move h dst (ptr src) (msize src)))"

text \<open>The loop of the constant-time comparison: every byte is folded into the accumulator.\<close>

fun ct_fold :: "mem \<Rightarrow> addr \<Rightarrow> addr \<Rightarrow> nat \<Rightarrow> byte \<Rightarrow> byte" where
  "ct_fold h p q 0 diff = diff"
| "ct_fold h p q (Suc n) diff = ct_fold h (Suc p) (Suc q) n (diff OR (h p XOR h q))"

definition proven_mem_equal_ct :: "mem \<Rightarrow> proven_mem \<Rightarrow> proven_mem \<Rightarrow> bool" where
  "proven_mem_equal_ct h a b =
    (if msize a \<noteq> msize b then False
     else if msize a = 0 then True
     else if ptr a = 0 \<or> ptr b = 0 then False
     else ct_fold h (ptr a) (ptr b) (msize a) 0 = 0)"

definition proven_mem_wipe :: "mem \<Rightarrow> proven_mem \<Rightarrow> mem" where
  "proven_mem_wipe h m = (if ptr m = 0 then h else proven_sys_mem_zero h (ptr m) (msize m))"

section \<open>Properties\<close>

lemma slice_checked_agree: "proven_mem_mut_slice_checked = proven_mem_view_slice_checked"
  by (intro ext) (simp add: proven_mem_mut_slice_checked_def proven_mem_view_slice_checked_def)

lemma slice_checked_inside:
  assumes "rerr (proven_mem_view_slice_checked v off n) = PROVEN_OK" "0 < n"
  shows "span (ptr (rval (proven_mem_view_slice_checked v off n)), n) \<subseteq> span (ptr v, msize v)"
    and "ptr (rval (proven_mem_view_slice_checked v off n)) = ptr v + off"
  using assms by (auto simp: proven_mem_view_slice_checked_def split: if_splits)

lemma contains_ptr_Some:
  "proven_range_contains_ptr base cap p sz = Some off \<longleftrightarrow>
     base \<noteq> 0 \<and> p \<noteq> 0 \<and> base + cap \<le> SIZE_MAX \<and> base \<le> p \<and> p + sz \<le> base + cap \<and> off = p - base"
  by (auto simp: proven_range_contains_ptr_def ckd_simps ckd_add_def split: option.splits)

lemma contains_ptr_None:
  "proven_range_contains_ptr base cap p sz = None \<longleftrightarrow>
     \<not> (base \<noteq> 0 \<and> p \<noteq> 0 \<and> base + cap \<le> SIZE_MAX \<and> base \<le> p \<and> p + sz \<le> base + cap)"
  using contains_ptr_Some [of base cap p sz "p - base"]
  by (cases "proven_range_contains_ptr base cap p sz") (auto simp: contains_ptr_Some)

lemma capture_valid:
  "ref_valid (proven_bufref_capture base cap p sz) \<longleftrightarrow>
     base \<noteq> 0 \<and> p \<noteq> 0 \<and> base + cap \<le> SIZE_MAX \<and> base \<le> p \<and> p + sz \<le> base + cap"
proof (cases "proven_range_contains_ptr base cap p sz")
  case None
  then have "\<not> ref_valid (proven_bufref_capture base cap p sz)" by (simp add: proven_bufref_capture_def)
  with None show ?thesis unfolding contains_ptr_None by blast
next
  case (Some off)
  then have "ref_valid (proven_bufref_capture base cap p sz)" by (simp add: proven_bufref_capture_def)
  with Some show ?thesis unfolding contains_ptr_Some by blast
qed

lemma capture_offset:
  "ref_valid (proven_bufref_capture base cap p sz) \<Longrightarrow>
     ref_offset (proven_bufref_capture base cap p sz) = p - base"
  unfolding capture_valid
  by (simp add: proven_bufref_capture_def iffD2 [OF contains_ptr_Some, of base p cap sz "p - base"])

text \<open>With both ranges in the address space the overlap test is exactly the sharing of a byte.\<close>

lemma overlaps_iff:
  assumes "base + cap \<le> SIZE_MAX" "p + sz \<le> SIZE_MAX" "base \<noteq> 0" "p \<noteq> 0"
  shows "proven_range_overlaps base cap p sz \<longleftrightarrow> span (base, cap) \<inter> span (p, sz) \<noteq> {}"
proof -
  have "(\<exists>a. a \<in> span (base, cap) \<and> a \<in> span (p, sz)) \<longleftrightarrow>
      cap \<noteq> 0 \<and> sz \<noteq> 0 \<and> p < base + cap \<and> base < p + sz"
  proof
    assume "cap \<noteq> 0 \<and> sz \<noteq> 0 \<and> p < base + cap \<and> base < p + sz"
    then have "max base p \<in> span (base, cap) \<and> max base p \<in> span (p, sz)" by auto
    then show "\<exists>a. a \<in> span (base, cap) \<and> a \<in> span (p, sz)" by blast
  qed auto
  then show ?thesis using assms by (auto simp: proven_range_overlaps_def ckd_add_def Let_def)
qed

lemma sys_mem_copy_move: "proven_sys_mem_copy = proven_sys_mem_move"
  by (intro ext) (simp add: proven_sys_mem_copy_def proven_sys_mem_move_def)

lemma sys_mem_move_nonnull [simp]:
  "dst \<noteq> 0 \<Longrightarrow> src \<noteq> 0 \<Longrightarrow> proven_sys_mem_move h dst src n = mem_write h dst (mem_read h src n)"
  "dst \<noteq> 0 \<Longrightarrow> src \<noteq> 0 \<Longrightarrow> proven_sys_mem_copy h dst src n = mem_write h dst (mem_read h src n)"
  by (auto simp: proven_sys_mem_move_def proven_sys_mem_copy_def)

lemma xor_word_0: "x XOR y = 0 \<longleftrightarrow> x = (y :: 'a::len word)"
  by (auto simp: bit_eq_iff bit_simps)

lemma ct_fold_zero:
  "ct_fold h p q n diff = 0 \<longleftrightarrow> diff = 0 \<and> mem_read h p n = mem_read h q n"
proof (induction n arbitrary: p q diff)
  case 0
  then show ?case by simp
next
  case (Suc n)
  have "(diff OR (h p XOR h q) = 0) \<longleftrightarrow> diff = 0 \<and> h p = h q"
    by (simp add: or_eq_0_iff xor_word_0)
  then show ?case using Suc.IH by (auto simp: mem_read_Suc)
qed

section \<open>Main properties\<close>

text \<open>the constant-time comparison answers true exactly for slices of the same size and the
  same bytes (an empty pair is equal whatever its pointers, a null pointer with a size is not).\<close>

theorem mem_equal_ct_iff:
  "proven_mem_equal_ct h a b =
    (msize a = msize b \<and> mem_read h (ptr a) (msize a) = mem_read h (ptr b) (msize b) \<and>
     (if msize a = 0 then True else ptr a \<noteq> 0 \<and> ptr b \<noteq> 0))"
  by (auto simp: proven_mem_equal_ct_def ct_fold_zero)

text \<open>a reference captured into a buffer, rebased onto the place the buffer's bytes were moved
  to, reads the bytes it named before.\<close>

theorem bufref_rebase_reads:
  assumes "ref_valid (proven_bufref_capture base cap p sz)" "new_base \<noteq> 0"
    "\<forall>i < cap. h' (new_base + i) = h (base + i)"
  shows "mem_read h' (proven_bufref_rebase_const (proven_bufref_capture base cap p sz) new_base) sz =
    mem_read h p sz"
proof (rule mem_read_cong)
  fix i assume i: "i < sz"
  have b: "base \<le> p" "p + sz \<le> base + cap" using assms(1) by (auto simp: capture_valid)
  then have "p - base + i < cap" using i by linarith
  then have "h' (new_base + (p - base + i)) = h (base + (p - base + i))" using assms(3) by blast
  then show "h' (proven_bufref_rebase_const (proven_bufref_capture base cap p sz) new_base + i) = h (p + i)"
    using assms(1,2) b capture_offset [OF assms(1)]
    by (simp add: proven_bufref_rebase_const_def add.assoc)
qed

theorem bufref_rebase_reads_witness:
  "mem_read (\<lambda>a. of_nat (a - 4096)) (proven_bufref_rebase_const (proven_bufref_capture 0x100 16 0x104 2) 0x1100) 2 =
   mem_read of_nat 0x104 2"
proof (rule bufref_rebase_reads)
  show "ref_valid (proven_bufref_capture 0x100 16 0x104 2)" by (simp add: capture_valid SIZE_MAX_eval)
qed simp_all

text \<open>a checked slice never leaves its parent: when it succeeds its bytes are bytes of the parent
  at the offset asked for, and it fails exactly when the range does not fit or the parent is a null
  pointer with a size.\<close>

theorem slice_checked_sound:
  "(case rerr (proven_mem_view_slice_checked v off n) of
      PROVEN_OK \<Rightarrow> off + n \<le> msize v \<and>
        msize (rval (proven_mem_view_slice_checked v off n)) = n \<and>
        span (ptr (rval (proven_mem_view_slice_checked v off n)), n) \<subseteq> span (ptr v, msize v) \<and>
        (if 0 < n then ptr (rval (proven_mem_view_slice_checked v off n)) = ptr v + off else True)
    | PROVEN_ERR_INVALID_ARG \<Rightarrow> 0 < msize v \<and> ptr v = 0
    | e \<Rightarrow> e = PROVEN_ERR_OUT_OF_BOUNDS \<and> msize v < off + n) \<and>
   proven_mem_mut_slice_checked v off n = proven_mem_view_slice_checked v off n"
  by (auto simp: proven_mem_view_slice_checked_def slice_checked_agree span_def)

end
