(* ===== verification/Allocator.thy ===== *)
theory Allocator
  imports Memory
begin

text \<open>
  The allocator trait of \<^verbatim>\<open>include/proven/allocator.h\<close>. The C struct holds a context pointer and
  three function pointers; here each function pointer is an option (\<open>None\<close> is the null pointer)
  holding a function on the world, which is the memory together with the allocator's own state
  (what the context pointer leads to).

  The locale \<open>allocator_laws\<close> is the contract of the trait as the header states it: which blocks
  are handed out, that they are disjoint, non-null and inside the memory the allocator manages,
  that growing keeps the contents, that a failure leaves the old block valid and unmodified, and
  that neither success nor failure touches a byte of another live block. \<open>inv w B\<close> reads "the
  allocator is consistent and its clients own the blocks \<open>B\<close>". Containers are verified inside
  the locale; the arena and the pool interpret it.
\<close>

record 'c world =
  heap :: mem
  actx :: 'c

record 'c proven_allocator =
  alloc_fn :: "('c world \<Rightarrow> nat \<Rightarrow> nat \<Rightarrow> proven_result_mem \<times> 'c world) option"
  realloc_fn :: "('c world \<Rightarrow> addr \<Rightarrow> nat \<Rightarrow> nat \<Rightarrow> nat \<Rightarrow> proven_result_mem \<times> 'c world) option"
  free_fn :: "('c world \<Rightarrow> addr \<Rightarrow> 'c world) option"

definition null_allocator :: "'c proven_allocator" where
  "null_allocator = \<lparr>alloc_fn = None, realloc_fn = None, free_fn = None\<rparr>"

definition proven_alloc_is_valid :: "'c proven_allocator \<Rightarrow> bool" where
  "proven_alloc_is_valid alloc \<longleftrightarrow>
    alloc_fn alloc \<noteq> None \<and> realloc_fn alloc \<noteq> None \<and> free_fn alloc \<noteq> None"

text \<open>A call through a function pointer of the struct.\<close>

abbreviation alloc_call :: "'c proven_allocator \<Rightarrow> 'c world \<Rightarrow> nat \<Rightarrow> nat \<Rightarrow> proven_result_mem \<times> 'c world" where
  "alloc_call al \<equiv> the (alloc_fn al)"

abbreviation realloc_call ::
  "'c proven_allocator \<Rightarrow> 'c world \<Rightarrow> addr \<Rightarrow> nat \<Rightarrow> nat \<Rightarrow> nat \<Rightarrow> proven_result_mem \<times> 'c world" where
  "realloc_call al \<equiv> the (realloc_fn al)"

abbreviation free_call :: "'c proven_allocator \<Rightarrow> 'c world \<Rightarrow> addr \<Rightarrow> 'c world" where
  "free_call al \<equiv> the (free_fn al)"

locale allocator_laws =
  fixes al :: "'c proven_allocator"
    and inv :: "'c world \<Rightarrow> (addr \<times> nat) set \<Rightarrow> bool"
    and managed :: "'c world \<Rightarrow> addr set"
  assumes al_valid: "proven_alloc_is_valid al"
    and inv_block: "inv w B \<Longrightarrow> (p, n) \<in> B \<Longrightarrow>
      p \<noteq> 0 \<and> 0 < n \<and> p + n \<le> SIZE_MAX \<and> span (p, n) \<subseteq> managed w"
    and inv_disjoint: "inv w B \<Longrightarrow> b \<in> B \<Longrightarrow> b' \<in> B \<Longrightarrow> b \<noteq> b' \<Longrightarrow> span b \<inter> span b' = {}"
    and inv_heap: "inv w B \<Longrightarrow> (\<And>a. a \<in> managed w \<Longrightarrow> a \<notin> spans B \<Longrightarrow> h a = heap w a) \<Longrightarrow>
      inv (w\<lparr>heap := h\<rparr>) B"
    and managed_heap: "managed (w\<lparr>heap := h\<rparr>) = managed w"
    and alloc_ok: "inv w B \<Longrightarrow> alloc_call al w n a = (r, w') \<Longrightarrow> rerr r = PROVEN_OK \<Longrightarrow>
      ptr (rval r) \<noteq> 0 \<and> msize (rval r) = n \<and> (ptr (rval r), n) \<notin> B \<and>
      inv w' (insert (ptr (rval r), n) B) \<and> managed w' = managed w"
    and alloc_err: "inv w B \<Longrightarrow> alloc_call al w n a = (r, w') \<Longrightarrow> rerr r \<noteq> PROVEN_OK \<Longrightarrow>
      inv w' B \<and> managed w' = managed w"
    and alloc_frame: "inv w B \<Longrightarrow> alloc_call al w n a = (r, w') \<Longrightarrow>
      x \<in> spans B \<or> x \<notin> managed w \<Longrightarrow> heap w' x = heap w x"
    and realloc_null: "0 < n \<Longrightarrow> realloc_call al w 0 m n a = alloc_call al w n a"
    and realloc_ok: "inv w B \<Longrightarrow> (p, m) \<in> B \<Longrightarrow> 0 < n \<Longrightarrow>
      realloc_call al w p m n a = (r, w') \<Longrightarrow> rerr r = PROVEN_OK \<Longrightarrow>
      ptr (rval r) \<noteq> 0 \<and> msize (rval r) = n \<and> (ptr (rval r), n) \<notin> B - {(p, m)} \<and>
      inv w' (insert (ptr (rval r), n) (B - {(p, m)})) \<and> managed w' = managed w \<and>
      (\<forall>i < min m n. heap w' (ptr (rval r) + i) = heap w (p + i))"
    and realloc_err: "inv w B \<Longrightarrow> (p, m) \<in> B \<Longrightarrow> 0 < n \<Longrightarrow>
      realloc_call al w p m n a = (r, w') \<Longrightarrow> rerr r \<noteq> PROVEN_OK \<Longrightarrow>
      inv w' B \<and> managed w' = managed w \<and> (\<forall>x \<in> span (p, m). heap w' x = heap w x)"
    and realloc_frame: "inv w B \<Longrightarrow> (p, m) \<in> B \<Longrightarrow> 0 < n \<Longrightarrow>
      realloc_call al w p m n a = (r, w') \<Longrightarrow>
      x \<in> spans (B - {(p, m)}) \<or> x \<notin> managed w \<Longrightarrow> heap w' x = heap w x"
    and free_ok: "inv w B \<Longrightarrow> (p, m) \<in> B \<Longrightarrow>
      inv (free_call al w p) (B - {(p, m)}) \<and> managed (free_call al w p) = managed w"
    and free_frame: "inv w B \<Longrightarrow> (p, m) \<in> B \<Longrightarrow> x \<in> spans (B - {(p, m)}) \<or> x \<notin> managed w \<Longrightarrow>
      heap (free_call al w p) x = heap w x"
begin

text \<open>Two live blocks that share a byte are the same block.\<close>

lemma block_unique: "inv w B \<Longrightarrow> (p, n) \<in> B \<Longrightarrow> (q, m) \<in> B \<Longrightarrow> a \<in> span (p, n) \<Longrightarrow> a \<in> span (q, m) \<Longrightarrow>
    p = q \<and> n = m"
  using inv_disjoint [of w B "(p, n)" "(q, m)"] by blast

lemma block_start: "inv w B \<Longrightarrow> (p, n) \<in> B \<Longrightarrow> (p, m) \<in> B \<Longrightarrow> n = m"
  using block_unique [of w B p n p m p] inv_block [of w B p n] inv_block [of w B p m] by simp

text \<open>A block that was handed out shares no byte with the ones already there.\<close>

lemma alloc_fresh:
  assumes "inv w B" "alloc_call al w n a = (r, w')" "rerr r = PROVEN_OK"
  shows "span (ptr (rval r), n) \<inter> spans B = {}" "span (ptr (rval r), n) \<subseteq> managed w" "0 < n"
    "ptr (rval r) + n \<le> SIZE_MAX"
proof -
  let ?b = "(ptr (rval r), n)"
  note k = alloc_ok [OF assms]
  have "span ?b \<inter> span b = {}" if "b \<in> B" for b
    using k that by (intro inv_disjoint [of w' "insert ?b B"]) auto
  then show "span ?b \<inter> spans B = {}" by (auto simp: spans_def)
  show "span ?b \<subseteq> managed w" "0 < n" "ptr (rval r) + n \<le> SIZE_MAX"
    using k inv_block [of w' "insert ?b B" "ptr (rval r)" n] by auto
qed

lemma realloc_fresh:
  assumes "inv w B" "(p, m) \<in> B" "0 < n" "realloc_call al w p m n a = (r, w')" "rerr r = PROVEN_OK"
  shows "span (ptr (rval r), n) \<inter> spans (B - {(p, m)}) = {}" "span (ptr (rval r), n) \<subseteq> managed w"
    "ptr (rval r) + n \<le> SIZE_MAX"
proof -
  let ?b = "(ptr (rval r), n)"
  note k = realloc_ok [OF assms]
  have "span ?b \<inter> span b = {}" if "b \<in> B - {(p, m)}" for b
    using k that by (intro inv_disjoint [of w' "insert ?b (B - {(p, m)})"]) auto
  then show "span ?b \<inter> spans (B - {(p, m)}) = {}" by (auto simp: spans_def)
  show "span ?b \<subseteq> managed w" "ptr (rval r) + n \<le> SIZE_MAX"
    using k inv_block [of w' "insert ?b (B - {(p, m)})" "ptr (rval r)" n] by auto
qed

text \<open>A client writes into its own blocks, or outside the managed memory.\<close>

lemma inv_write:
  assumes "inv w B" "span (q, length bs) \<subseteq> spans B \<or> span (q, length bs) \<inter> managed w = {}"
  shows "inv (w\<lparr>heap := mem_write (heap w) q bs\<rparr>) B"
proof (rule inv_heap [OF assms(1)])
  fix a
  assume "a \<in> managed w" "a \<notin> spans B"
  with assms(2) have "a \<notin> span (q, length bs)" by blast
  then show "mem_write (heap w) q bs a = heap w a" by (rule mem_write_out)
qed

end

end
