(* ===== verification/Arena.thy ===== *)
theory Arena
  imports Allocator
begin

text \<open>
  The bump allocator: \<^verbatim>\<open>include/proven/arena.h\<close> and \<^verbatim>\<open>src/proven/arena.c\<close>. The struct is its backing
  slice and an offset. A pointer argument that the code tests for null is an option. Allocation
  pads the current address up to the alignment, checks every sum, and advances the offset;
  reallocation resizes the last block in place, shrinks any block where it stands, and otherwise
  allocates and copies byte by byte.

  \<open>arena_inv\<close> is the invariant with the set of live blocks; the interpretation at the end shows
  that the arena keeps the allocator contract.
\<close>

record proven_arena =
  backing :: proven_mem
  arena_offset :: nat

definition proven_arena_create :: "proven_mem \<Rightarrow> proven_arena" where
  "proven_arena_create m = \<lparr>backing = m, arena_offset = 0\<rparr>"

definition proven_arena_reset :: "proven_arena \<Rightarrow> proven_arena" where
  "proven_arena_reset a = a\<lparr>arena_offset := 0\<rparr>"

definition proven_arena_alloc_aligned ::
  "proven_arena option \<Rightarrow> nat \<Rightarrow> nat \<Rightarrow> proven_result_mem \<times> proven_arena option" where
  "proven_arena_alloc_aligned arena sz align = (case arena of
     None \<Rightarrow> (mem_error PROVEN_ERR_INVALID_ARG, None)
   | Some a \<Rightarrow>
      if ptr (backing a) = 0 then (mem_error PROVEN_ERR_INVALID_ARG, Some a)
      else if \<not> proven_is_pow2 align then (mem_error PROVEN_ERR_INVALID_ARG, Some a)
      else if sz = 0 then (mem_error PROVEN_ERR_INVALID_ARG, Some a)
      else if arena_offset a > msize (backing a) then (mem_error PROVEN_ERR_INVALID_ARG, Some a)
      else let base_addr = ptr (backing a) in
      case ckd_add base_addr (arena_offset a) of
        None \<Rightarrow> (mem_error PROVEN_ERR_OVERFLOW, Some a)
      | Some current_addr \<Rightarrow>
        let aligned_addr = proven_uintptr_align_up current_addr align in
        if aligned_addr < base_addr then (mem_error PROVEN_ERR_OVERFLOW, Some a)
        else let padding = aligned_addr - current_addr in
        case ckd_add (arena_offset a) padding of
          None \<Rightarrow> (mem_error PROVEN_ERR_OVERFLOW, Some a)
        | Some padded \<Rightarrow>
          (case ckd_add padded sz of
             None \<Rightarrow> (mem_error PROVEN_ERR_OVERFLOW, Some a)
           | Some required \<Rightarrow>
             if required > msize (backing a) then (mem_error PROVEN_ERR_NOMEM, Some a)
             else (mem_ok (ptr (backing a) + required - sz) sz, Some (a\<lparr>arena_offset := required\<rparr>))))"

text \<open>The in-place resize of the last block: the new offset, or the error the code reports.\<close>

definition arena_tail_offset :: "proven_arena \<Rightarrow> nat \<Rightarrow> nat \<Rightarrow> proven_err + nat" where
  "arena_tail_offset a old_size new_size =
    (if new_size \<ge> old_size
     then (case ckd_add (arena_offset a) (new_size - old_size) of
             None \<Rightarrow> Inl PROVEN_ERR_OVERFLOW | Some new_offset \<Rightarrow> Inr new_offset)
     else if old_size - new_size > arena_offset a then Inl PROVEN_ERR_NOMEM
     else Inr (arena_offset a - (old_size - new_size)))"

definition proven_arena_realloc_aligned ::
  "mem \<Rightarrow> proven_arena option \<Rightarrow> addr \<Rightarrow> nat \<Rightarrow> nat \<Rightarrow> nat \<Rightarrow>
    proven_result_mem \<times> mem \<times> proven_arena option" where
  "proven_arena_realloc_aligned h arena old_ptr old_size new_size align = (case arena of
     None \<Rightarrow> (mem_error PROVEN_ERR_INVALID_ARG, h, None)
   | Some a \<Rightarrow>
      if ptr (backing a) = 0 then (mem_error PROVEN_ERR_INVALID_ARG, h, Some a)
      else if \<not> proven_is_pow2 align then (mem_error PROVEN_ERR_INVALID_ARG, h, Some a)
      else if new_size = 0 then (mem_ok 0 0, h, Some a)
      else if old_ptr = 0 then
        (case proven_arena_alloc_aligned (Some a) new_size align of (r, a') \<Rightarrow> (r, h, a'))
      else case ckd_sub old_ptr (ptr (backing a)) of
        None \<Rightarrow> (mem_error PROVEN_ERR_INVALID_ARG, h, Some a)
      | Some old_offset \<Rightarrow>
        if old_offset > arena_offset a then (mem_error PROVEN_ERR_INVALID_ARG, h, Some a)
        else case ckd_add old_offset old_size of
          None \<Rightarrow> (mem_error PROVEN_ERR_INVALID_ARG, h, Some a)
        | Some old_offset_end \<Rightarrow>
          if old_offset_end > arena_offset a then (mem_error PROVEN_ERR_INVALID_ARG, h, Some a)
          else if old_offset_end = arena_offset a then
            (case arena_tail_offset a old_size new_size of
               Inl e \<Rightarrow> (mem_error e, h, Some a)
             | Inr new_offset \<Rightarrow>
                 if new_offset > msize (backing a) then (mem_error PROVEN_ERR_NOMEM, h, Some a)
                 else (mem_ok (ptr (backing a) + old_offset) new_size, h,
                       Some (a\<lparr>arena_offset := new_offset\<rparr>)))
          else if new_size \<le> old_size then
            (mem_ok (ptr (backing a) + old_offset) new_size, h, Some a)
          else
            (case proven_arena_alloc_aligned (Some a) new_size align of
               (new_alloc, a') \<Rightarrow>
                 if rerr new_alloc = PROVEN_OK
                 then (new_alloc,
                       copy_loop h (ptr (rval new_alloc)) (ptr (backing a) + old_offset)
                         (if old_size < new_size then old_size else new_size), a')
                 else (new_alloc, h, a')))"

section \<open>The trait\<close>

type_synonym arena_world = "proven_arena world"

definition proven_arena_alloc_trait :: "arena_world \<Rightarrow> nat \<Rightarrow> nat \<Rightarrow> proven_result_mem \<times> arena_world" where
  "proven_arena_alloc_trait w sz align =
    (case proven_arena_alloc_aligned (Some (actx w)) sz align of
       (r, Some a) \<Rightarrow> (r, w\<lparr>actx := a\<rparr>) | (r, None) \<Rightarrow> (r, w))"

definition proven_arena_realloc_trait ::
  "arena_world \<Rightarrow> addr \<Rightarrow> nat \<Rightarrow> nat \<Rightarrow> nat \<Rightarrow> proven_result_mem \<times> arena_world" where
  "proven_arena_realloc_trait w old_ptr old_size new_size align =
    (case proven_arena_realloc_aligned (heap w) (Some (actx w)) old_ptr old_size new_size align of
       (r, h, Some a) \<Rightarrow> (r, w\<lparr>heap := h, actx := a\<rparr>) | (r, h, None) \<Rightarrow> (r, w\<lparr>heap := h\<rparr>))"

definition proven_arena_free_trait :: "arena_world \<Rightarrow> addr \<Rightarrow> arena_world" where
  "proven_arena_free_trait w p = w"

text \<open>The argument says whether the arena pointer is not null.\<close>

definition proven_arena_as_allocator :: "bool \<Rightarrow> proven_arena proven_allocator" where
  "proven_arena_as_allocator arena_given =
    (if \<not> arena_given then null_allocator
     else \<lparr>alloc_fn = Some proven_arena_alloc_trait, realloc_fn = Some proven_arena_realloc_trait,
           free_fn = Some proven_arena_free_trait\<rparr>)"

section \<open>The invariant\<close>

definition arena_ok :: "proven_arena \<Rightarrow> bool" where
  "arena_ok a \<longleftrightarrow> ptr (backing a) \<noteq> 0 \<and> ptr (backing a) + msize (backing a) \<le> SIZE_MAX \<and>
     arena_offset a \<le> msize (backing a)"

definition blocks_in :: "addr \<Rightarrow> addr \<Rightarrow> (addr \<times> nat) set \<Rightarrow> bool" where
  "blocks_in lo hi B \<longleftrightarrow> (\<forall>(p, n) \<in> B. 0 < n \<and> lo \<le> p \<and> p + n \<le> hi) \<and>
     (\<forall>b \<in> B. \<forall>b' \<in> B. b \<noteq> b' \<longrightarrow> span b \<inter> span b' = {})"

definition arena_inv :: "arena_world \<Rightarrow> (addr \<times> nat) set \<Rightarrow> bool" where
  "arena_inv w B \<longleftrightarrow> arena_ok (actx w) \<and>
     blocks_in (ptr (backing (actx w))) (ptr (backing (actx w)) + arena_offset (actx w)) B"

definition arena_managed :: "arena_world \<Rightarrow> addr set" where
  "arena_managed w = span (ptr (backing (actx w)), msize (backing (actx w)))"

section \<open>What an allocation does\<close>

lemma arena_alloc_ok:
  assumes "arena_ok a" "proven_arena_alloc_aligned (Some a) n al = (r, a')" "rerr r = PROVEN_OK"
  defines "base \<equiv> ptr (backing a)"
  shows "0 < n" and "proven_is_pow2 al" and "msize (rval r) = n"
    and "base + arena_offset a \<le> ptr (rval r)" and "ptr (rval r) < base + arena_offset a + al"
    and "ptr (rval r) mod al = 0"
    and "a' = Some (a\<lparr>arena_offset := ptr (rval r) - base + n\<rparr>)"
    and "ptr (rval r) + n \<le> base + msize (backing a)"
proof -
  let ?cur = "base + arena_offset a"
  let ?al = "proven_uintptr_align_up ?cur al"
  have ok: "base \<noteq> 0" "base + msize (backing a) \<le> SIZE_MAX" "arena_offset a \<le> msize (backing a)"
    using assms(1) by (auto simp: arena_ok_def base_def)
  have cur: "?cur \<le> SIZE_MAX" using ok by linarith
  show p2: "proven_is_pow2 al" and n: "0 < n"
    using assms(2,3) by (auto simp: proven_arena_alloc_aligned_def split: if_splits)
  have ge: "base \<le> ?al"
  proof (rule ccontr)
    assume "\<not> base \<le> ?al"
    with assms(2,3) cur show False
      by (auto simp: proven_arena_alloc_aligned_def Let_def base_def ckd_add_def split: if_splits)
  qed
  with ok(1) have nov: "?cur + (al - 1) \<le> SIZE_MAX"
    using align_up_overflow(1) [of ?cur al] by (cases "SIZE_MAX < ?cur + (al - 1)") auto
  have v: "?al = (?cur + (al - 1)) div al * al"
    using align_up_value(2) [OF p2 nov] .
  note b = round_up_bounds [OF proven_is_pow2_pos [OF p2], of ?cur, folded v]
  have r: "rval r = \<lparr>ptr = ?al, msize = n\<rparr>"
    "a' = Some (a\<lparr>arena_offset := arena_offset a + (?al - ?cur) + n\<rparr>)"
    "arena_offset a + (?al - ?cur) + n \<le> msize (backing a)"
    using assms(2,3) ge b(1) cur
    by (auto simp: proven_arena_alloc_aligned_def Let_def base_def ckd_simps ckd_add_def mem_ok_def
        split: if_splits option.splits)
  show "msize (rval r) = n" "base + arena_offset a \<le> ptr (rval r)"
    "ptr (rval r) < base + arena_offset a + al" "ptr (rval r) mod al = 0"
    using b by (simp_all add: r(1))
  show "a' = Some (a\<lparr>arena_offset := ptr (rval r) - base + n\<rparr>)"
    "ptr (rval r) + n \<le> base + msize (backing a)"
    using r b(1) by (simp_all add: r(1))
qed

lemma arena_alloc_err:
  "proven_arena_alloc_aligned (Some a) n al = (r, a') \<Longrightarrow> rerr r \<noteq> PROVEN_OK \<Longrightarrow>
    a' = Some a \<and> rval r = null_mem"
  by (auto simp: proven_arena_alloc_aligned_def Let_def split: if_splits option.splits)

section \<open>Sets of blocks\<close>

lemma blocks_in_empty [simp]: "blocks_in lo hi {}"
  by (simp add: blocks_in_def)

lemma blocks_in_D: "blocks_in lo hi B \<Longrightarrow> (p, n) \<in> B \<Longrightarrow> 0 < n \<and> lo \<le> p \<and> p + n \<le> hi"
  by (auto simp: blocks_in_def)

lemma blocks_in_disjoint:
  "blocks_in lo hi B \<Longrightarrow> b \<in> B \<Longrightarrow> b' \<in> B \<Longrightarrow> b \<noteq> b' \<Longrightarrow> span b \<inter> span b' = {}"
  by (auto simp: blocks_in_def)

lemma blocks_in_subset: "blocks_in lo hi B \<Longrightarrow> C \<subseteq> B \<Longrightarrow> blocks_in lo hi C"
  unfolding blocks_in_def by blast

lemma blocks_in_insert:
  assumes "blocks_in lo hi B" "0 < n" "lo \<le> p" "p + n \<le> hi'" "hi \<le> hi'"
    "\<And>b. b \<in> B \<Longrightarrow> span (p, n) \<inter> span b = {}"
  shows "blocks_in lo hi' (insert (p, n) B)"
  using assms unfolding blocks_in_def by (auto intro: le_trans)

lemma blocks_in_bump:
  assumes "blocks_in lo hi B" "0 < n" "lo \<le> hi" "hi \<le> p" "p + n = hi'"
  shows "blocks_in lo hi' (insert (p, n) B)"
proof (rule blocks_in_insert [OF assms(1,2)])
  fix b assume "b \<in> B"
  then show "span (p, n) \<inter> span b = {}"
    using blocks_in_D [OF assms(1), of "fst b" "snd b"] assms(4) by (auto simp: span_def)
qed (use assms in auto)

text \<open>The last block may grow or shrink; any block may shrink where it stands.\<close>

lemma blocks_in_tail:
  assumes "blocks_in lo hi B" "(p, m) \<in> B" "p + m = hi" "0 < n"
  shows "blocks_in lo (p + n) (insert (p, n) (B - {(p, m)}))"
proof -
  have others: "0 < k \<and> lo \<le> q \<and> q + k \<le> p" if "(q, k) \<in> B - {(p, m)}" for q k
  proof -
    have "span (p, m) \<inter> span (q, k) = {}"
      using blocks_in_disjoint [OF assms(1,2)] that by blast
    moreover have "0 < k \<and> lo \<le> q \<and> q + k \<le> hi" "0 < m"
      using blocks_in_D [OF assms(1)] that assms(2) by auto
    ultimately show ?thesis using assms(3)
      by (cases "q + k \<le> p") (auto simp: disjoint_iff dest: spec [of _ "q + k - 1"])
  qed
  then have "blocks_in lo p (B - {(p, m)})"
    using blocks_in_subset [OF assms(1), of "B - {(p, m)}"] unfolding blocks_in_def by auto
  then show ?thesis
    using assms blocks_in_D [OF assms(1,2)] by (intro blocks_in_bump [of lo p]) auto
qed

lemma blocks_in_shrink:
  assumes "blocks_in lo hi B" "(p, m) \<in> B" "0 < n" "n \<le> m"
  shows "blocks_in lo hi (insert (p, n) (B - {(p, m)}))"
proof (rule blocks_in_insert)
  show "blocks_in lo hi (B - {(p, m)})" by (rule blocks_in_subset [OF assms(1)]) auto
  fix b assume "b \<in> B - {(p, m)}"
  then have "span (p, m) \<inter> span b = {}"
    using blocks_in_disjoint [OF assms(1,2), of b] by blast
  then show "span (p, n) \<inter> span b = {}" using assms(4) by (auto simp: span_def)
qed (use assms blocks_in_D [OF assms(1,2)] in auto)

lemma blocks_in_D': "blocks_in lo hi B \<Longrightarrow> b \<in> B \<Longrightarrow> 0 < snd b \<and> lo \<le> fst b \<and> fst b + snd b \<le> hi"
  by (cases b) (simp add: blocks_in_D)

lemma blocks_in_spans: "blocks_in lo hi B \<Longrightarrow> spans B \<subseteq> {lo..<hi}"
  using blocks_in_D' unfolding spans_def span_def by fastforce

section \<open>What a reallocation does\<close>

lemma arena_tail_offset_error: "arena_tail_offset a m n \<noteq> Inl PROVEN_OK"
  by (auto simp: arena_tail_offset_def split: option.splits)

lemma arena_realloc_cases:
  assumes "arena_ok a" "ptr (backing a) \<le> p" "p + m \<le> ptr (backing a) + arena_offset a" "0 < n"
    "proven_arena_realloc_aligned h (Some a) p m n al = (r, h', a')" "rerr r = PROVEN_OK"
  shows "r = mem_ok p n \<and> h' = h \<and> p + m = ptr (backing a) + arena_offset a \<and>
      p + n \<le> ptr (backing a) + msize (backing a) \<and>
      a' = Some (a\<lparr>arena_offset := p + n - ptr (backing a)\<rparr>)
    \<or> r = mem_ok p n \<and> h' = h \<and> n \<le> m \<and> a' = Some a
    \<or> m < n \<and> p + m \<noteq> ptr (backing a) + arena_offset a \<and>
      proven_arena_alloc_aligned (Some a) n al = (r, a') \<and> h' = copy_loop h (ptr (rval r)) p m"
proof -
  let ?base = "ptr (backing a)"
  have ok: "?base \<noteq> 0" "?base + msize (backing a) \<le> SIZE_MAX" "arena_offset a \<le> msize (backing a)"
    using assms(1) by (auto simp: arena_ok_def)
  have p: "p \<noteq> 0" "ckd_sub p ?base = Some (p - ?base)" "p - ?base \<le> arena_offset a"
    "ckd_add (p - ?base) m = Some (p - ?base + m)" "p - ?base + m \<le> arena_offset a"
    using assms(2,3) ok by (auto simp: ckd_simps ckd_add_def ckd_sub_def)
  have p2: "proven_is_pow2 al"
    using assms(5,6) ok by (auto simp: proven_arena_realloc_aligned_def split: if_splits)
  show ?thesis
  proof (cases "p - ?base + m = arena_offset a")
    case True
    then have t: "p + m = ?base + arena_offset a" using assms(2) by simp
    have "\<exists>off. arena_tail_offset a m n = Inr off \<and> off \<le> msize (backing a) \<and> r = mem_ok p n \<and> h' = h \<and>
        a' = Some (a\<lparr>arena_offset := off\<rparr>)"
      using assms(2,4,5,6) ok p p2 True arena_tail_offset_error [of a m n]
      by (auto simp: proven_arena_realloc_aligned_def split: sum.splits if_splits)
    then obtain off where o: "arena_tail_offset a m n = Inr off" "off \<le> msize (backing a)"
      "r = mem_ok p n" "h' = h" "a' = Some (a\<lparr>arena_offset := off\<rparr>)" by blast
    have "off = p + n - ?base"
      using o(1) t assms(2)
      by (auto simp: arena_tail_offset_def ckd_simps ckd_add_def split: if_splits option.splits)
    with o t assms(2) show ?thesis by auto
  next
    case False
    then show ?thesis
      using assms(2,4,5,6) ok p p2
      by (auto simp: proven_arena_realloc_aligned_def split: sum.splits if_splits prod.splits)
  qed
qed

lemma arena_realloc_err:
  assumes "proven_arena_realloc_aligned h (Some a) p m n al = (r, h', a')" "rerr r \<noteq> PROVEN_OK"
  shows "h' = h \<and> a' = Some a"
  using assms arena_alloc_err [of a n al]
  by (auto simp: proven_arena_realloc_aligned_def split: if_splits option.splits sum.splits prod.splits)

section \<open>The arena keeps the allocator contract\<close>

lemma arena_allocator_calls [simp]:
  "alloc_call (proven_arena_as_allocator True) = proven_arena_alloc_trait"
  "realloc_call (proven_arena_as_allocator True) = proven_arena_realloc_trait"
  "free_call (proven_arena_as_allocator True) = proven_arena_free_trait"
  by (simp_all add: proven_arena_as_allocator_def)

lemma arena_trait_alloc:
  assumes "proven_arena_alloc_trait w n al = (r, w')"
  shows "\<exists>a'. proven_arena_alloc_aligned (Some (actx w)) n al = (r, Some a') \<and> w' = w\<lparr>actx := a'\<rparr>"
proof -
  obtain r' a where e: "proven_arena_alloc_aligned (Some (actx w)) n al = (r', a)" by fastforce
  have "\<exists>a'. a = Some a'"
    using arena_alloc_err [OF e] e
    by (cases "rerr r' = PROVEN_OK")
      (auto simp: proven_arena_alloc_aligned_def Let_def split: if_splits option.splits)
  with e assms show ?thesis by (auto simp: proven_arena_alloc_trait_def)
qed

lemma arena_trait_realloc:
  assumes "proven_arena_realloc_trait w p m n al = (r, w')"
  shows "\<exists>h a'. proven_arena_realloc_aligned (heap w) (Some (actx w)) p m n al = (r, h, a') \<and>
    (case a' of Some a \<Rightarrow> w' = w\<lparr>heap := h, actx := a\<rparr> | None \<Rightarrow> w' = w\<lparr>heap := h\<rparr>)"
  using assms by (auto simp: proven_arena_realloc_trait_def split: prod.splits option.splits)

lemma arena_alloc_law:
  assumes "arena_inv w B" "proven_arena_alloc_trait w n al = (r, w')" "rerr r = PROVEN_OK"
  shows "ptr (rval r) \<noteq> 0 \<and> msize (rval r) = n \<and> (ptr (rval r), n) \<notin> B \<and>
    arena_inv w' (insert (ptr (rval r), n) B) \<and> arena_managed w' = arena_managed w"
proof -
  let ?a = "actx w" and ?p = "ptr (rval r)"
  let ?base = "ptr (backing ?a)"
  obtain a' where e: "proven_arena_alloc_aligned (Some ?a) n al = (r, Some a')" "w' = w\<lparr>actx := a'\<rparr>"
    using arena_trait_alloc [OF assms(2)] by blast
  have i: "arena_ok ?a" "blocks_in ?base (?base + arena_offset ?a) B"
    using assms(1) by (auto simp: arena_inv_def)
  note k = arena_alloc_ok [OF i(1) e(1) assms(3)]
  have a': "a' = ?a\<lparr>arena_offset := ?p - ?base + n\<rparr>" using k(7) by simp
  have "(?p, n) \<notin> B" using blocks_in_D [OF i(2), of ?p n] k(1,4) by auto
  moreover have "blocks_in ?base (?p + n) (insert (?p, n) B)"
    by (rule blocks_in_bump [OF i(2)]) (use k in auto)
  ultimately show ?thesis
    using k i by (auto simp: e(2) a' arena_inv_def arena_ok_def arena_managed_def)
qed

lemma arena_alloc_heap: "proven_arena_alloc_trait w n al = (r, w') \<Longrightarrow> heap w' = heap w"
  by (drule arena_trait_alloc) auto

lemma arena_realloc_law:
  assumes "arena_inv w B" "(p, m) \<in> B" "0 < n"
    "proven_arena_realloc_trait w p m n al = (r, w')" "rerr r = PROVEN_OK"
  shows "ptr (rval r) \<noteq> 0 \<and> msize (rval r) = n \<and> (ptr (rval r), n) \<notin> B - {(p, m)} \<and>
      arena_inv w' (insert (ptr (rval r), n) (B - {(p, m)})) \<and> arena_managed w' = arena_managed w \<and>
      (\<forall>i < min m n. heap w' (ptr (rval r) + i) = heap w (p + i))"
    and "x \<in> spans (B - {(p, m)}) \<or> x \<notin> arena_managed w \<Longrightarrow> heap w' x = heap w x"
proof -
  let ?a = "actx w"
  let ?base = "ptr (backing ?a)"
  obtain h a' where e: "proven_arena_realloc_aligned (heap w) (Some ?a) p m n al = (r, h, a')"
    "case a' of Some a \<Rightarrow> w' = w\<lparr>heap := h, actx := a\<rparr> | None \<Rightarrow> w' = w\<lparr>heap := h\<rparr>"
    using arena_trait_realloc [OF assms(4)] by blast
  have i: "arena_ok ?a" "blocks_in ?base (?base + arena_offset ?a) B"
    using assms(1) by (auto simp: arena_inv_def)
  note b = blocks_in_D [OF i(2) assms(2)]
  have fresh: "(p, n) \<notin> B - {(p, m)}"
  proof
    assume "(p, n) \<in> B - {(p, m)}"
    then have "span (p, m) \<inter> span (p, n) = {}"
      using blocks_in_disjoint [OF i(2) assms(2), of "(p, n)"] by blast
    moreover have "p \<in> span (p, m)" "p \<in> span (p, n)" using b assms(3) by auto
    ultimately show False by blast
  qed
  consider
    (tail) "r = mem_ok p n" "h = heap w" "p + m = ?base + arena_offset ?a"
      "p + n \<le> ?base + msize (backing ?a)" "a' = Some (?a\<lparr>arena_offset := p + n - ?base\<rparr>)"
    | (keep) "r = mem_ok p n" "h = heap w" "n \<le> m" "a' = Some ?a"
    | (move) "m < n" "proven_arena_alloc_aligned (Some ?a) n al = (r, a')"
      "h = copy_loop (heap w) (ptr (rval r)) p m"
    using arena_realloc_cases [OF i(1) _ _ assms(3) e(1) assms(5)] b by blast
  then have "(ptr (rval r) \<noteq> 0 \<and> msize (rval r) = n \<and> (ptr (rval r), n) \<notin> B - {(p, m)} \<and>
      arena_inv w' (insert (ptr (rval r), n) (B - {(p, m)})) \<and> arena_managed w' = arena_managed w \<and>
      (\<forall>i < min m n. heap w' (ptr (rval r) + i) = heap w (p + i))) \<and>
      (x \<in> spans (B - {(p, m)}) \<or> x \<notin> arena_managed w \<longrightarrow> heap w' x = heap w x)"
  proof cases
    case tail
    have "blocks_in ?base (p + n) (insert (p, n) (B - {(p, m)}))"
      by (rule blocks_in_tail [OF i(2) assms(2) tail(3) assms(3)])
    with tail e(2) i(1) b fresh show ?thesis
      by (auto simp: arena_inv_def arena_ok_def arena_managed_def)
  next
    case keep
    have "blocks_in ?base (?base + arena_offset ?a) (insert (p, n) (B - {(p, m)}))"
      by (rule blocks_in_shrink [OF i(2) assms(2,3) keep(3)])
    with keep e(2) i(1) b fresh show ?thesis
      by (auto simp: arena_inv_def arena_ok_def arena_managed_def)
  next
    case move
    let ?q = "ptr (rval r)"
    note k = arena_alloc_ok [OF i(1) move(2) assms(5)]
    have i': "blocks_in ?base (?base + arena_offset ?a) (B - {(p, m)})"
      by (rule blocks_in_subset [OF i(2)]) auto
    have w': "w' = w\<lparr>heap := h, actx := ?a\<lparr>arena_offset := ?q - ?base + n\<rparr>\<rparr>"
      using e(2) k(7) by simp
    have h: "h = mem_write (heap w) ?q (mem_read (heap w) p m)"
      using copy_loop_disjoint [of p m ?q] b k(4) move(3) by auto
    have "blocks_in ?base (?q + n) (insert (?q, n) (B - {(p, m)}))"
      by (rule blocks_in_bump [OF i']) (use k in auto)
    moreover have "(?q, n) \<notin> B - {(p, m)}"
      using blocks_in_D [OF i', of ?q n] k(1,4) by auto
    moreover have "heap w' x = heap w x" if "x \<in> spans (B - {(p, m)}) \<or> x \<notin> arena_managed w"
    proof -
      have "x \<notin> span (?q, m)"
        using that blocks_in_spans [OF i'] k(4,8) move(1)
        by (auto simp: arena_managed_def span_def)
      then show ?thesis by (auto simp: w' h mem_write_out)
    qed
    ultimately show ?thesis
      using k i(1) by (auto simp: w' h arena_inv_def arena_ok_def arena_managed_def mem_write_in)
  qed
  then show "ptr (rval r) \<noteq> 0 \<and> msize (rval r) = n \<and> (ptr (rval r), n) \<notin> B - {(p, m)} \<and>
      arena_inv w' (insert (ptr (rval r), n) (B - {(p, m)})) \<and> arena_managed w' = arena_managed w \<and>
      (\<forall>i < min m n. heap w' (ptr (rval r) + i) = heap w (p + i))"
    and "x \<in> spans (B - {(p, m)}) \<or> x \<notin> arena_managed w \<Longrightarrow> heap w' x = heap w x"
    by blast+
qed

lemma arena_realloc_unchanged:
  assumes "proven_arena_realloc_trait w p m n al = (r, w')" "rerr r \<noteq> PROVEN_OK"
  shows "w' = w"
proof -
  obtain h a' where e: "proven_arena_realloc_aligned (heap w) (Some (actx w)) p m n al = (r, h, a')"
    "case a' of Some a \<Rightarrow> w' = w\<lparr>heap := h, actx := a\<rparr> | None \<Rightarrow> w' = w\<lparr>heap := h\<rparr>"
    using arena_trait_realloc [OF assms(1)] by blast
  with arena_realloc_err [OF e(1) assms(2)] show ?thesis by simp
qed

lemma arena_alloc_unchanged:
  assumes "proven_arena_alloc_trait w n al = (r, w')" "rerr r \<noteq> PROVEN_OK"
  shows "w' = w"
  using arena_trait_alloc [OF assms(1)] arena_alloc_err assms(2) by fastforce

lemma arena_realloc_from_null:
  assumes "0 < n"
  shows "proven_arena_realloc_trait w 0 m n al = proven_arena_alloc_trait w n al"
  using assms
  by (auto simp: proven_arena_realloc_trait_def proven_arena_alloc_trait_def
      proven_arena_realloc_aligned_def proven_arena_alloc_aligned_def split: option.splits prod.splits)

lemma arena_inv_remove: "arena_inv w B \<Longrightarrow> arena_inv w (B - C)"
  by (auto simp: arena_inv_def intro: blocks_in_subset)

lemma arena_inv_block:
  assumes "arena_inv w B" "(p, n) \<in> B"
  shows "p \<noteq> 0 \<and> 0 < n \<and> p + n \<le> SIZE_MAX \<and> span (p, n) \<subseteq> arena_managed w"
  using assms blocks_in_D [of _ _ B p n]
  by (fastforce simp: arena_inv_def arena_ok_def arena_managed_def)

interpretation arena: allocator_laws "proven_arena_as_allocator True" arena_inv arena_managed
proof (unfold_locales, unfold arena_allocator_calls, goal_cases)
  case 1
  show ?case by (simp add: proven_alloc_is_valid_def proven_arena_as_allocator_def)
next
  case (2 w B p n)
  then show ?case by (rule arena_inv_block)
next
  case (3 w B b b')
  then show ?case unfolding arena_inv_def using blocks_in_disjoint by blast
next
  case (4 w B h)
  then show ?case by (simp add: arena_inv_def)
next
  case (5 w h)
  show ?case by (simp add: arena_managed_def)
next
  case (6 w B n a r w')
  then show ?case by (rule arena_alloc_law)
next
  case (7 w B n a r w')
  then show ?case using arena_alloc_unchanged by blast
next
  case (8 w B n a r w' x)
  then show ?case by (simp add: arena_alloc_heap)
next
  case (9 n w m a)
  then show ?case by (rule arena_realloc_from_null)
next
  case (10 w B p m n a r w')
  then show ?case by (rule arena_realloc_law)
next
  case (11 w B p m n a r w')
  then show ?case using arena_realloc_unchanged by blast
next
  case (12 w B p m n a r w' x)
  then show ?case
    by (cases "rerr r = PROVEN_OK") (use arena_realloc_law(2) arena_realloc_unchanged in blast)+
next
  case (13 w B p m)
  then show ?case by (simp add: proven_arena_free_trait_def arena_inv_remove)
next
  case (14 w B p m x)
  then show ?case by (simp add: proven_arena_free_trait_def)
qed

abbreviation arena_al :: "proven_arena proven_allocator" where
  "arena_al \<equiv> proven_arena_as_allocator True"

text \<open>A concrete world: 1 KiB of backing memory at address 4096, and memory that reads its address.\<close>

definition demo_world :: arena_world where
  "demo_world = \<lparr>heap = (\<lambda>a. of_nat a), actx = proven_arena_create \<lparr>ptr = 4096, msize = 1024\<rparr>\<rparr>"

definition demo_used :: arena_world where
  "demo_used = demo_world\<lparr>actx := (actx demo_world)\<lparr>arena_offset := 24\<rparr>\<rparr>"

lemmas arena_eval = demo_world_def proven_is_pow2_def proven_arena_as_allocator_def
  proven_alloc_is_valid_def ckd_mul_def ckd_add_def ckd_sub_def SIZE_MAX_eval
  proven_arena_alloc_trait_def proven_arena_realloc_trait_def proven_arena_realloc_aligned_def
  proven_arena_create_def proven_arena_alloc_aligned_def arena_tail_offset_def
  proven_uintptr_align_up_def mask_off_def Let_def mem_ok_def wrap_def

lemma demo_world_inv: "arena_inv demo_world {}"
  by (simp add: arena_inv_def arena_ok_def demo_world_def proven_arena_create_def SIZE_MAX_eval)

lemma demo_used_inv: "arena_inv demo_used {(4096, 16), (4112, 8)}"
  by (simp add: arena_inv_def arena_ok_def demo_used_def demo_world_def proven_arena_create_def
      SIZE_MAX_eval blocks_in_def span_def)

lemma demo_world_managed: "arena_managed demo_world = {4096..<5120}"
  by (simp add: arena_managed_def demo_world_def proven_arena_create_def span_def)

section \<open>Properties\<close>



text \<open>C2: a reallocation through the trait of the arena, of a live block. On success the block has
  the new size, keeps its contents up to the smaller size, stays in the backing memory apart from
  every other live block, and no byte of another block or outside the arena changes; the last block
  is resized in place and a block that shrinks keeps its address. On failure nothing changes.\<close>

theorem arena_realloc_correct:
  assumes "arena_inv w B" "(p, m) \<in> B" "0 < n" "proven_arena_realloc_trait w p m n al = (r, w')"
  shows "if rerr r = PROVEN_OK
     then msize (rval r) = n \<and> mem_read (heap w') (ptr (rval r)) (min m n) = mem_read (heap w) p (min m n) \<and>
       arena_inv w' (insert (ptr (rval r), n) (B - {(p, m)})) \<and>
       span (ptr (rval r), n) \<subseteq> arena_managed w - spans (B - {(p, m)}) \<and>
       (\<forall>x. x \<in> spans (B - {(p, m)}) \<or> x \<notin> arena_managed w \<longrightarrow> heap w' x = heap w x) \<and>
       (n \<le> m \<or> p + m = ptr (backing (actx w)) + arena_offset (actx w) \<longrightarrow>
         ptr (rval r) = p \<and> heap w' = heap w)
     else w' = w"
proof (cases "rerr r = PROVEN_OK")
  case True
  have call: "realloc_call arena_al w p m n al = (r, w')" using assms(4) by simp
  note k = arena.realloc_ok [OF assms(1-3) call True] arena.realloc_fresh [OF assms(1-3) call True]
    arena.realloc_frame [OF assms(1-3) call]
  have read: "mem_read (heap w') (ptr (rval r)) (min m n) = mem_read (heap w) p (min m n)"
    using k(1) by (intro mem_read_cong) simp
  have pos: "ptr (backing (actx w)) \<le> p" "p + m \<le> ptr (backing (actx w)) + arena_offset (actx w)"
    and ok: "arena_ok (actx w)"
    using assms(1,2) blocks_in_D [of _ _ B p m] by (auto simp: arena_inv_def)
  obtain h a' where c: "proven_arena_realloc_aligned (heap w) (Some (actx w)) p m n al = (r, h, a')"
    and "case a' of Some a \<Rightarrow> w' = w\<lparr>heap := h, actx := a\<rparr> | None \<Rightarrow> w' = w\<lparr>heap := h\<rparr>"
    using arena_trait_realloc [OF assms(4)] by blast
  then have h: "heap w' = h" by (cases a') auto
  have tail: "ptr (rval r) = p \<and> heap w' = heap w"
    if "n \<le> m \<or> p + m = ptr (backing (actx w)) + arena_offset (actx w)"
    using arena_realloc_cases [OF ok pos assms(3) c True] that h by auto
  show ?thesis unfolding if_P [OF True] using k read tail by blast
qed (use arena_realloc_unchanged [OF assms(4)] in simp)

theorem arena_realloc_correct_witness:
  "\<exists>r w'. proven_arena_realloc_trait demo_used 4096 16 32 8 = (r, w') \<and> rerr r = PROVEN_OK \<and>
    ptr (rval r) = 4120 \<and> mem_read (heap w') (ptr (rval r)) 16 = mem_read (heap demo_used) 4096 16 \<and>
    arena_inv w' (insert (4120, 32) ({(4096, 16), (4112, 8)} - {(4096, 16)}))"
proof -
  obtain r w' where c: "proven_arena_realloc_trait demo_used 4096 16 32 8 = (r, w')"
    by (cases "proven_arena_realloc_trait demo_used 4096 16 32 8")
  then have "rerr r = PROVEN_OK" "ptr (rval r) = 4120" by (auto simp: demo_used_def arena_eval)
  with arena_realloc_correct [OF demo_used_inv _ _ c] c show ?thesis by (auto simp: min_def)
qed

text \<open>Resetting an arena forgets every allocation: the whole backing memory can be handed out
  again, no byte is changed, and the arena stays consistent.\<close>

theorem arena_reset_forgets:
  assumes "arena_inv w B"
  shows "arena_inv (w\<lparr>actx := proven_arena_reset (actx w)\<rparr>) {} \<and>
    arena_offset (proven_arena_reset (actx w)) = 0 \<and>
    arena_managed (w\<lparr>actx := proven_arena_reset (actx w)\<rparr>) = arena_managed w"
  using assms by (simp add: arena_inv_def arena_ok_def proven_arena_reset_def arena_managed_def)

theorem arena_reset_forgets_witness:
  "arena_inv (demo_used\<lparr>actx := proven_arena_reset (actx demo_used)\<rparr>) {}"
  using arena_reset_forgets [OF demo_used_inv] by blast

end
