(* ===== verification/Ring.thy ===== *)
theory Ring
  imports Arena
begin

text \<open>
  The fixed-capacity circular buffer: \<^verbatim>\<open>include/proven/ring.h\<close> and \<^verbatim>\<open>src/proven/ring.c\<close>. Elements
  are byte ranges of one allocated block; \<open>ring_list\<close> reads the queue a ring stands for, oldest
  element first. The lemmas say that a push appends, that a pop takes the first element and
  hands its bytes out, that both keep the structural validity the code itself checks, and that
  neither touches any other live block. Ring pointers that the code tests for null are options;
  so is the output pointer of a pop (address 0).
\<close>

record 'c proven_ring =
  ring_alloc :: "'c proven_allocator"
  internal :: proven_mem
  head :: nat
  tail :: nat
  rlen :: nat
  rcap :: nat
  relem_size :: nat
  ralign :: nat

definition proven_ring_create ::
  "'c world \<Rightarrow> 'c proven_allocator \<Rightarrow> nat \<Rightarrow> nat \<Rightarrow> nat \<Rightarrow> (proven_err + 'c proven_ring) \<times> 'c world" where
  "proven_ring_create w al cap elem_size align =
    (if cap = 0 \<or> elem_size = 0 \<or> \<not> proven_alloc_is_valid al \<or> \<not> proven_is_pow2 align
     then (Inl PROVEN_ERR_INVALID_ARG, w)
     else case ckd_mul cap elem_size of
       None \<Rightarrow> (Inl PROVEN_ERR_OUT_OF_BOUNDS, w)
     | Some bytes_needed \<Rightarrow>
        (case alloc_call al w bytes_needed align of (alloc_res, w') \<Rightarrow>
           if rerr alloc_res \<noteq> PROVEN_OK then (Inl (rerr alloc_res), w')
           else (Inr \<lparr>ring_alloc = al, internal = rval alloc_res, head = 0, tail = 0, rlen = 0,
                      rcap = cap, relem_size = elem_size, ralign = align\<rparr>, w')))"

definition proven_ring_is_valid :: "'c proven_ring option \<Rightarrow> bool" where
  "proven_ring_is_valid ring = (case ring of
     None \<Rightarrow> False
   | Some r \<Rightarrow>
      if relem_size r = 0 \<or> \<not> proven_is_pow2 (ralign r) then False
      else if rcap r = 0 then False
      else if rlen r > rcap r then False
      else if head r \<ge> rcap r \<or> tail r \<ge> rcap r then False
      else if wrap (head r + rlen r) mod rcap r \<noteq> tail r then False
      else if ptr (internal r) = 0 then False
      else case ckd_mul (rcap r) (relem_size r) of
        None \<Rightarrow> False
      | Some bytes_needed \<Rightarrow>
          if msize (internal r) < bytes_needed then False
          else proven_alloc_is_valid (ring_alloc r))"

text \<open>The offset of a slot, or \<open>None\<close> where the code answers out of bounds.\<close>

definition ring_slot :: "'c proven_ring \<Rightarrow> nat \<Rightarrow> nat option" where
  "ring_slot r i = (case ckd_mul i (relem_size r) of
     None \<Rightarrow> None
   | Some off \<Rightarrow> (case ckd_add off (relem_size r) of
       None \<Rightarrow> None
     | Some required_bytes \<Rightarrow> if msize (internal r) < required_bytes then None else Some off))"

definition proven_ring_push ::
  "mem \<Rightarrow> 'c proven_ring option \<Rightarrow> addr \<Rightarrow> proven_err \<times> mem \<times> 'c proven_ring option" where
  "proven_ring_push h ring element = (case ring of
     None \<Rightarrow> (PROVEN_ERR_INVALID_ARG, h, None)
   | Some r \<Rightarrow>
      if element = 0 then (PROVEN_ERR_INVALID_ARG, h, Some r)
      else if rlen r \<ge> rcap r then (PROVEN_ERR_OUT_OF_BOUNDS, h, Some r)
      else case ring_slot r (tail r) of
        None \<Rightarrow> (PROVEN_ERR_OUT_OF_BOUNDS, h, Some r)
      | Some dst_offset \<Rightarrow>
          (PROVEN_OK, proven_sys_mem_copy h (ptr (internal r) + dst_offset) element (relem_size r),
           Some (r\<lparr>tail := wrap (tail r + 1) mod rcap r, rlen := wrap (rlen r + 1)\<rparr>)))"

definition proven_ring_pop ::
  "mem \<Rightarrow> 'c proven_ring option \<Rightarrow> addr \<Rightarrow> proven_err \<times> mem \<times> 'c proven_ring option" where
  "proven_ring_pop h ring out_element = (case ring of
     None \<Rightarrow> (PROVEN_ERR_OUT_OF_BOUNDS, h, None)
   | Some r \<Rightarrow>
      if rlen r = 0 then (PROVEN_ERR_OUT_OF_BOUNDS, h, Some r)
      else let advanced = r\<lparr>head := wrap (head r + 1) mod rcap r, rlen := rlen r - 1\<rparr> in
      if out_element \<noteq> 0 then
        (case ring_slot r (head r) of
           None \<Rightarrow> (PROVEN_ERR_OUT_OF_BOUNDS, h, Some r)
         | Some src_offset \<Rightarrow>
             (PROVEN_OK,
              proven_sys_mem_copy h out_element (ptr (internal r) + src_offset) (relem_size r),
              Some advanced))
      else (PROVEN_OK, h, Some advanced))"

definition proven_ring_destroy :: "'c world \<Rightarrow> 'c proven_ring option \<Rightarrow> 'c world \<times> 'c proven_ring option" where
  "proven_ring_destroy w ring = (case ring of
     None \<Rightarrow> (w, None)
   | Some r \<Rightarrow>
      ((if ptr (internal r) \<noteq> 0 then free_call (ring_alloc r) w (ptr (internal r)) else w),
       Some (r\<lparr>internal := null_mem, head := 0, tail := 0, rlen := 0, rcap := 0\<rparr>)))"

section \<open>The queue a ring stands for\<close>

definition ring_elem :: "mem \<Rightarrow> 'c proven_ring \<Rightarrow> nat \<Rightarrow> byte list" where
  "ring_elem h r i = mem_read h (ptr (internal r) + i * relem_size r) (relem_size r)"

definition ring_list :: "mem \<Rightarrow> 'c proven_ring \<Rightarrow> byte list list" where
  "ring_list h r = map (\<lambda>i. ring_elem h r ((head r + i) mod rcap r)) [0..<rlen r]"

text \<open>The structural check of the code, on a ring whose size cannot make a sum wrap.\<close>

definition ring_ok :: "'c proven_ring \<Rightarrow> bool" where
  "ring_ok r \<longleftrightarrow> proven_ring_is_valid (Some r) \<and> 2 * rcap r \<le> SIZE_MAX"

lemma ring_ok_iff:
  "ring_ok r \<longleftrightarrow> 0 < relem_size r \<and> proven_is_pow2 (ralign r) \<and> 0 < rcap r \<and> rlen r \<le> rcap r \<and>
    head r < rcap r \<and> tail r = (head r + rlen r) mod rcap r \<and> ptr (internal r) \<noteq> 0 \<and>
    rcap r * relem_size r \<le> SIZE_MAX \<and> rcap r * relem_size r \<le> msize (internal r) \<and>
    proven_alloc_is_valid (ring_alloc r) \<and> 2 * rcap r \<le> SIZE_MAX"
  (is "?L \<longleftrightarrow> ?R")
proof
  assume ?L
  then have c: "2 * rcap r \<le> SIZE_MAX" "rlen r \<le> rcap r" "head r < rcap r"
    by (auto simp: ring_ok_def proven_ring_is_valid_def split: if_splits option.splits)
  then have "head r + rlen r \<le> SIZE_MAX" by linarith
  with \<open>?L\<close> c show ?R
    by (auto simp: ring_ok_def proven_ring_is_valid_def ckd_simps split: if_splits option.splits)
next
  assume r: ?R
  then have "head r + rlen r \<le> SIZE_MAX" by linarith
  moreover have "0 < n \<Longrightarrow> \<not> n \<le> m mod n" for m n :: nat
    by (simp add: not_le)
  ultimately show ?L using r
    by (auto simp: ring_ok_def proven_ring_is_valid_def ckd_mul_def)
qed

lemma ring_slot_ok:
  assumes "ring_ok r" "i < rcap r"
  shows "ring_slot r i = Some (i * relem_size r)"
proof -
  have "i * relem_size r + relem_size r \<le> rcap r * relem_size r"
    by (rule slot_bound [OF assms(2)])
  with assms(1) show ?thesis
    by (auto simp: ring_slot_def ckd_mul_def ckd_add_def ring_ok_iff)
qed

lemma ring_list_length [simp]: "length (ring_list h r) = rlen r"
  by (simp add: ring_list_def)

lemma ring_slots_distinct:
  assumes "i < rlen r" "rlen r < rcap r" "head r < rcap r"
  shows "(head r + i) mod rcap r \<noteq> (head r + rlen r) mod rcap r"
proof
  let ?c = "rcap r"
  assume "(head r + i) mod ?c = (head r + rlen r) mod ?c"
  then have "?c dvd (head r + rlen r) - (head r + i)"
    using assms(1) by (metis mod_eq_dvd_iff_nat nat_add_left_cancel_le less_imp_le)
  then have "?c dvd rlen r - i" using assms(1) by simp
  then show False using assms(1,2) by (auto dest: dvd_imp_le)
qed

lemma ring_push_step:
  assumes "ring_ok r" "rlen r < rcap r" "element \<noteq> 0"
  shows "proven_ring_push h (Some r) element =
    (PROVEN_OK,
     mem_write h (ptr (internal r) + tail r * relem_size r) (mem_read h element (relem_size r)),
     Some (r\<lparr>tail := (tail r + 1) mod rcap r, rlen := rlen r + 1\<rparr>))"
proof -
  have t: "tail r < rcap r" "2 * rcap r \<le> SIZE_MAX" "ptr (internal r) \<noteq> 0"
    using assms(1) by (auto simp: ring_ok_iff)
  with assms(2) have "tail r + 1 \<le> SIZE_MAX" "rlen r + 1 \<le> SIZE_MAX" by linarith+
  with assms t show ?thesis
    by (simp add: proven_ring_push_def ring_slot_ok)
qed

lemma ring_push_list:
  assumes "ring_ok r" "rlen r < rcap r" "element \<noteq> 0"
    "proven_ring_push h (Some r) element = (e, h', Some r')"
  shows "e = PROVEN_OK" and "ring_ok r'"
    and "ring_list h' r' = ring_list h r @ [mem_read h element (relem_size r)]"
    and "a \<notin> span (ptr (internal r), rcap r * relem_size r) \<Longrightarrow> h' a = h a"
proof -
  let ?s = "relem_size r" and ?p = "ptr (internal r)"
  let ?x = "mem_read h element ?s"
  have ok: "rlen r \<le> rcap r" "0 < rcap r" "head r < rcap r" "tail r = (head r + rlen r) mod rcap r"
    "tail r < rcap r"
    using assms(1) by (auto simp: ring_ok_iff)
  note st = ring_push_step [OF assms(1,2,3), of h]
  from st assms(4) have h': "h' = mem_write h (?p + tail r * ?s) ?x"
    and r': "r' = r\<lparr>tail := (tail r + 1) mod rcap r, rlen := rlen r + 1\<rparr>" and e: "e = PROVEN_OK"
    by auto
  show "e = PROVEN_OK" by (rule e)
  have "(head r + (rlen r + 1)) mod rcap r = (tail r + 1) mod rcap r"
    unfolding ok(4) by (simp add: mod_simps add.assoc)
  with assms(1,2) show "ring_ok r'" by (auto simp: ring_ok_iff r')
  have other: "ring_elem h' r' ((head r + i) mod rcap r) = ring_elem h r ((head r + i) mod rcap r)"
    if "i < rlen r" for i
  proof -
    have "(head r + i) mod rcap r \<noteq> tail r"
      using ring_slots_distinct [OF that assms(2) ok(3)] ok(4) by simp
    then show ?thesis
      unfolding ring_elem_def h' r'
      using slot_disjoint [of "(head r + i) mod rcap r" "tail r" ?s]
      by (auto intro!: mem_read_write_disjoint)
  qed
  have new: "ring_elem h' r' (tail r) = ?x"
    by (simp add: ring_elem_def h' r')
  have "ring_list h' r' = map (\<lambda>i. ring_elem h' r' ((head r + i) mod rcap r)) [0..<rlen r]
      @ [ring_elem h' r' ((head r + rlen r) mod rcap r)]"
    by (simp add: ring_list_def r')
  also have "\<dots> = ring_list h r @ [?x]"
    using other new ok(4) by (simp add: ring_list_def)
  finally show "ring_list h' r' = ring_list h r @ [?x]" .
  show "h' a = h a" if "a \<notin> span (?p, rcap r * ?s)"
  proof -
    have "a \<notin> span (?p + tail r * ?s, length ?x)"
      using that slot_bound [OF ok(5), of ?s] by auto
    then show ?thesis unfolding h' by (rule mem_write_out)
  qed
qed

lemma ring_push_full:
  "rcap r \<le> rlen r \<Longrightarrow> element \<noteq> 0 \<Longrightarrow>
    proven_ring_push h (Some r) element = (PROVEN_ERR_OUT_OF_BOUNDS, h, Some r)"
  by (simp add: proven_ring_push_def)

lemma ring_pop_step:
  assumes "ring_ok r" "0 < rlen r"
  shows "proven_ring_pop h (Some r) out =
    (PROVEN_OK,
     (if out = 0 then h else mem_write h out (ring_elem h r (head r))),
     Some (r\<lparr>head := (head r + 1) mod rcap r, rlen := rlen r - 1\<rparr>))"
proof -
  have t: "head r < rcap r" "2 * rcap r \<le> SIZE_MAX" "ptr (internal r) \<noteq> 0"
    using assms(1) by (auto simp: ring_ok_iff)
  then have "head r + 1 \<le> SIZE_MAX" by linarith
  with assms t show ?thesis
    by (simp add: proven_ring_pop_def ring_slot_ok ring_elem_def Let_def)
qed

lemma ring_pop_list:
  assumes "ring_ok r" "0 < rlen r" "proven_ring_pop h (Some r) out = (e, h', Some r')"
    "out \<noteq> 0 \<Longrightarrow> span (out, relem_size r) \<inter> span (ptr (internal r), rcap r * relem_size r) = {}"
  shows "e = PROVEN_OK" and "ring_ok r'" and "rcap r' = rcap r" and "relem_size r' = relem_size r"
    and "ring_list h r = ring_elem h r (head r) # ring_list h' r'"
    and "out \<noteq> 0 \<Longrightarrow> mem_read h' out (relem_size r) = ring_elem h r (head r)"
    and "a \<notin> span (out, relem_size r) \<Longrightarrow> h' a = h a"
proof -
  have ok: "rlen r \<le> rcap r" "0 < rcap r" "head r < rcap r" "tail r = (head r + rlen r) mod rcap r"
    using assms(1) by (auto simp: ring_ok_iff)
  from ring_pop_step [OF assms(1,2), of h out] assms(3)
  have h': "h' = (if out = 0 then h else mem_write h out (ring_elem h r (head r)))"
    and r': "r' = r\<lparr>head := (head r + 1) mod rcap r, rlen := rlen r - 1\<rparr>" and e: "e = PROVEN_OK"
    by auto
  show "e = PROVEN_OK" "rcap r' = rcap r" "relem_size r' = relem_size r" by (simp_all add: e r')
  have "((head r + 1) mod rcap r + (rlen r - 1)) mod rcap r = (head r + rlen r) mod rcap r"
    using assms(2) by (cases "rlen r") (simp_all add: mod_simps)
  with assms(1,2) show "ring_ok r'" by (auto simp: ring_ok_iff r')
  have keep: "ring_elem h' r' j = ring_elem h r j" if "j < rcap r" for j
  proof (cases "out = 0")
    case False
    have "a \<notin> span (out, relem_size r)" if "a \<in> span (ptr (internal r) + j * relem_size r, relem_size r)" for a
      using assms(4) [OF False] that slot_bound [OF \<open>j < rcap r\<close>, of "relem_size r"] by fastforce
    then show ?thesis
      unfolding ring_elem_def h' r'
      by (auto simp: False mem_write_out ring_elem_def intro!: mem_read_frame)
  qed (simp add: h' r' ring_elem_def)
  have "ring_list h r = ring_elem h r (head r)
      # map (\<lambda>i. ring_elem h r ((head r + Suc i) mod rcap r)) [0..<rlen r - 1]"
    using assms(2) ok(3) by (simp add: ring_list_def map_upt_Cons)
  also have "map (\<lambda>i. ring_elem h r ((head r + Suc i) mod rcap r)) [0..<rlen r - 1] = ring_list h' r'"
    using keep ok(2) by (simp add: ring_list_def r' mod_simps)
  finally show "ring_list h r = ring_elem h r (head r) # ring_list h' r'" .
  show "out \<noteq> 0 \<Longrightarrow> mem_read h' out (relem_size r) = ring_elem h r (head r)"
    by (simp add: h' ring_elem_def)
  show "a \<notin> span (out, relem_size r) \<Longrightarrow> h' a = h a"
    by (auto simp: h' ring_elem_def mem_write_out)
qed

lemma ring_pop_empty:
  "rlen r = 0 \<Longrightarrow> proven_ring_pop h (Some r) out = (PROVEN_ERR_OUT_OF_BOUNDS, h, Some r)"
  by (simp add: proven_ring_pop_def)

section \<open>The bounded queue, and the refinement\<close>

text \<open>The abstract queue of bounded capacity.\<close>

definition queue_push :: "nat \<Rightarrow> 'a list \<Rightarrow> 'a \<Rightarrow> proven_err \<times> 'a list" where
  "queue_push cap q x =
    (if length q < cap then (PROVEN_OK, q @ [x]) else (PROVEN_ERR_OUT_OF_BOUNDS, q))"

definition queue_pop :: "'a list \<Rightarrow> proven_err \<times> 'a list" where
  "queue_pop q = (case q of [] \<Rightarrow> (PROVEN_ERR_OUT_OF_BOUNDS, []) | x # xs \<Rightarrow> (PROVEN_OK, xs))"

lemma ring_push_queue:
  assumes "ring_ok r" "element \<noteq> 0" "proven_ring_push h (Some r) element = (e, h', Some r')"
  shows "(e, ring_list h' r') =
      queue_push (rcap r) (ring_list h r) (mem_read h element (relem_size r)) \<and>
    ring_ok r' \<and> rcap r' = rcap r \<and> relem_size r' = relem_size r"
proof (cases "rlen r < rcap r")
  case True
  note k = ring_push_list [OF assms(1) True assms(2,3)]
  have "rcap r' = rcap r" "relem_size r' = relem_size r"
    using ring_push_step [OF assms(1) True assms(2)] assms(3) by auto
  with k True show ?thesis by (simp add: queue_push_def)
next
  case False
  with assms(1) ring_push_full [of r element h] assms(2,3) show ?thesis
    by (auto simp: queue_push_def)
qed

section \<open>Creation and destruction under the allocator contract\<close>

context allocator_laws
begin

lemma ring_create_ok:
  assumes "inv w B" "proven_ring_create w al cap elem_size align = (Inr r, w')"
    "2 * cap \<le> SIZE_MAX"
  shows "ring_ok r" "ring_list (heap w') r = []" "rcap r = cap" "relem_size r = elem_size"
    "inv w' (insert (ptr (internal r), cap * elem_size) B)"
    "a \<in> spans B \<or> a \<notin> managed w \<Longrightarrow> heap w' a = heap w a"
proof -
  obtain res where c: "cap \<noteq> 0" "elem_size \<noteq> 0" "proven_is_pow2 align" "cap * elem_size \<le> SIZE_MAX"
    "alloc_call al w (cap * elem_size) align = (res, w')" "rerr res = PROVEN_OK"
    "r = \<lparr>ring_alloc = al, internal = rval res, head = 0, tail = 0, rlen = 0,
          rcap = cap, relem_size = elem_size, ralign = align\<rparr>"
    using assms(2) by (auto simp: proven_ring_create_def ckd_simps split: if_splits option.splits prod.splits)
  note k = alloc_ok [OF assms(1) c(5,6)]
  show "ring_ok r" "ring_list (heap w') r = []" "rcap r = cap" "relem_size r = elem_size"
    "inv w' (insert (ptr (internal r), cap * elem_size) B)"
    using c k assms(3) al_valid by (auto simp: ring_ok_iff ring_list_def)
  show "heap w' a = heap w a" if "a \<in> spans B \<or> a \<notin> managed w"
    by (rule alloc_frame [OF assms(1) c(5) that])
qed

lemma ring_destroy_releases:
  assumes "inv w B" "ring_ok r" "ring_alloc r = al" "(ptr (internal r), n) \<in> B"
    "proven_ring_destroy w (Some r) = (w', r')"
  shows "inv w' (B - {(ptr (internal r), n)})" "\<not> proven_ring_is_valid r'"
    "a \<in> spans (B - {(ptr (internal r), n)}) \<or> a \<notin> managed w \<Longrightarrow> heap w' a = heap w a"
  using assms free_ok [OF assms(1,4)] free_frame [OF assms(1,4)]
  by (auto simp: proven_ring_destroy_def ring_ok_iff proven_ring_is_valid_def)

end

section \<open>Properties\<close>

definition demo_ring :: "proven_arena proven_ring" where
  "demo_ring = \<lparr>ring_alloc = arena_al, internal = \<lparr>ptr = 4096, msize = 8\<rparr>, head = 3, tail = 1,
    rlen = 2, rcap = 4, relem_size = 2, ralign = 2\<rparr>"

lemma demo_ring_ok: "ring_ok demo_ring"
  by (simp add: ring_ok_iff demo_ring_def arena_eval)

lemma demo_ring_list: "ring_list of_nat demo_ring = [[6, 7], [0, 1]]"
proof -
  have "[0..<2] = [0, Suc 0]" by (simp add: numeral_2_eq_2)
  then show ?thesis by (simp add: ring_list_def ring_elem_def demo_ring_def mem_read_numeral mem_read_Suc)
qed

lemmas ring_eval = demo_ring_def ring_slot_def proven_ring_push_def proven_ring_pop_def
  proven_sys_mem_copy_def ckd_mul_def ckd_add_def SIZE_MAX_eval wrap_def



text \<open>C12: a pop from a structurally valid ring is the pop of the queue: it hands out the bytes of the
  oldest element and drops it, or fails and changes nothing when the ring is empty; the ring stays
  valid and only the output location is written.\<close>

theorem ring_pop_refines:
  assumes "ring_ok r" "proven_ring_pop h (Some r) out = (e, h', Some r')"
    "out \<noteq> 0 \<longrightarrow> span (out, relem_size r) \<inter> span (ptr (internal r), rcap r * relem_size r) = {}"
  shows "(e, ring_list h' r') = queue_pop (ring_list h r) \<and> ring_ok r' \<and> rcap r' = rcap r \<and>
    (e = PROVEN_OK \<and> out \<noteq> 0 \<longrightarrow> mem_read h' out (relem_size r) = hd (ring_list h r)) \<and>
    (\<forall>a. a \<notin> span (out, relem_size r) \<longrightarrow> h' a = h a)"
proof (cases "rlen r = 0")
  case True
  then have "ring_list h r = []" using ring_list_length [of h r] by (simp del: ring_list_length)
  with True ring_pop_empty [OF True, of h out] assms(1,2) show ?thesis by (simp add: queue_pop_def)
next
  case False
  then have ne: "0 < rlen r" by simp
  have o: "out \<noteq> 0 \<Longrightarrow> span (out, relem_size r) \<inter> span (ptr (internal r), rcap r * relem_size r) = {}"
    using assms(3) by blast
  note k = ring_pop_list [OF assms(1) ne assms(2) o]
  show ?thesis using k by (auto simp: queue_pop_def)
qed

theorem ring_pop_refines_witness:
  "\<exists>h' r'. proven_ring_pop of_nat (Some demo_ring) 16 = (PROVEN_OK, h', Some r') \<and>
    ring_list h' r' = [[0, 1]] \<and> mem_read h' 16 2 = [6, 7]"
proof -
  obtain h' r' where c: "proven_ring_pop of_nat (Some demo_ring) 16 = (PROVEN_OK, h', Some r')"
    by (simp add: ring_eval)
  have l: "ring_list of_nat demo_ring = [[6, 7], [0, 1]]"
    by (rule demo_ring_list)
  have "span (16, relem_size demo_ring) \<inter> span (ptr (internal demo_ring), rcap demo_ring * relem_size demo_ring) = {}"
    "relem_size demo_ring = 2"
    by (auto simp: demo_ring_def)
  with ring_pop_refines [OF demo_ring_ok c] c l show ?thesis by (auto simp: queue_pop_def)
qed

text \<open>creating a ring over the arena yields an empty, structurally valid ring of the capacity
  asked for, in a block of its own; destroying it gives the block back and leaves a struct that no
  operation accepts as valid.\<close>

theorem ring_lifecycle:
  assumes "arena_inv w B" "proven_ring_create w arena_al cap elem_size align = (Inr r, w')"
    "2 * cap \<le> SIZE_MAX" "proven_ring_destroy w' (Some r) = (w'', r'')"
  shows "ring_ok r \<and> ring_list (heap w') r = [] \<and> rcap r = cap \<and> relem_size r = elem_size \<and>
    arena_inv w' (insert (ptr (internal r), cap * elem_size) B) \<and>
    (\<forall>a. a \<in> spans B \<or> a \<notin> arena_managed w \<longrightarrow> heap w'' a = heap w a) \<and>
    \<not> proven_ring_is_valid r''"
proof -
  note k = arena.ring_create_ok [OF assms(1-3)]
  have "ring_alloc r = arena_al"
    using assms(2) by (auto simp: proven_ring_create_def split: if_splits option.splits prod.splits)
  then have "w'' = w'" using assms(4) k(1)
    by (auto simp: proven_ring_destroy_def ring_ok_iff proven_arena_as_allocator_def proven_arena_free_trait_def)
  then show ?thesis using k assms(4)
    by (auto simp: proven_ring_destroy_def ring_ok_iff proven_ring_is_valid_def split: if_splits)
qed

theorem ring_lifecycle_witness:
  "\<exists>r w' w'' r''. proven_ring_create demo_world arena_al 4 2 2 = (Inr r, w') \<and>
    proven_ring_destroy w' (Some r) = (w'', r'') \<and> ring_ok r \<and> rcap r = 4 \<and> \<not> proven_ring_is_valid r''"
proof -
  have "\<exists>r w'. proven_ring_create demo_world arena_al 4 2 2 = (Inr r, w')"
    by (simp add: proven_ring_create_def arena_eval)
  then obtain r w' where c: "proven_ring_create demo_world arena_al 4 2 2 = (Inr r, w')" by blast
  obtain w'' r'' where d: "proven_ring_destroy w' (Some r) = (w'', r'')"
    by (cases "proven_ring_destroy w' (Some r)")
  show ?thesis
    using ring_lifecycle [OF demo_world_inv c _ d] c d by (simp add: SIZE_MAX_eval)
qed

end
