(* ===== verification/Slots.thy ===== *)
theory Slots
  imports Prelude
begin

text \<open>
  A run of equally sized elements in memory, as every container of the library lays it out:
  \<open>slots h d s n\<close> reads \<open>n\<close> elements of \<open>s\<close> bytes from address \<open>d\<close>. The lemmas turn the block
  moves of the containers (write one element, open a gap, close a gap, append a run, swap) into
  list operations.
\<close>

definition slots :: "mem \<Rightarrow> addr \<Rightarrow> nat \<Rightarrow> nat \<Rightarrow> byte list list" where
  "slots h d s n = map (\<lambda>i. mem_read h (d + i * s) s) [0..<n]"

lemma length_slots [simp]: "length (slots h d s n) = n"
  by (simp add: slots_def)

lemma slots_nth [simp]: "i < n \<Longrightarrow> slots h d s n ! i = mem_read h (d + i * s) s"
  by (simp add: slots_def)

lemma slots_0 [simp]: "slots h d s 0 = []"
  by (simp add: slots_def)

lemma slots_eqI:
  "length xs = n \<Longrightarrow> (\<And>i. i < n \<Longrightarrow> mem_read h (d + i * s) s = xs ! i) \<Longrightarrow> slots h d s n = xs"
  by (rule nth_equalityI) auto

lemma slots_Suc: "slots h d s (Suc n) = slots h d s n @ [mem_read h (d + n * s) s]"
  by (simp add: slots_def)

lemma slots_numeral:
  "slots h d s (numeral k) = slots h d s (pred_numeral k) @ [mem_read h (d + pred_numeral k * s) s]"
  by (simp add: numeral_eq_Suc slots_Suc)

lemma slots_take: "m \<le> n \<Longrightarrow> take m (slots h d s n) = slots h d s m"
  by (rule nth_equalityI) auto

lemma slots_cong:
  assumes "\<And>i. i < n * s \<Longrightarrow> h' (d' + i) = h (d + i)"
  shows "slots h' d' s n = slots h d s n"
proof (rule slots_eqI)
  fix i assume i: "i < n"
  have "mem_read h' (d' + i * s) s = mem_read h (d + i * s) s"
  proof (rule mem_read_cong)
    fix k assume "k < s"
    then have "i * s + k < n * s" using slot_bound [OF i, of s] by linarith
    from assms [OF this] show "h' (d' + i * s + k) = h (d + i * s + k)" by (simp add: add.assoc)
  qed
  with i show "mem_read h' (d' + i * s) s = slots h d s n ! i" by simp
qed simp

lemma slots_frame:
  assumes "\<And>a. a \<in> span (d, n * s) \<Longrightarrow> h' a = h a"
  shows "slots h' d s n = slots h d s n"
  by (rule slots_cong) (simp add: assms)

lemma slots_write_outside:
  "span (p, length bs) \<inter> span (d, n * s) = {} \<Longrightarrow> slots (mem_write h p bs) d s n = slots h d s n"
  by (rule slots_frame) (auto intro!: mem_write_out)

lemma mem_read_write_inside:
  "k + m \<le> length bs \<Longrightarrow> mem_read (mem_write h p bs) (p + k) m = take m (drop k bs)"
  by (rule mem_read_eqI) (auto simp: mem_write_def)

lemma slots_write_one:
  assumes "i < n" "length x = s"
  shows "slots (mem_write h (d + i * s) x) d s n = (slots h d s n)[i := x]"
proof (rule slots_eqI)
  fix j assume j: "j < n"
  show "mem_read (mem_write h (d + i * s) x) (d + j * s) s = (slots h d s n)[i := x] ! j"
  proof (cases "j = i")
    case False
    then have "mem_read (mem_write h (d + i * s) x) (d + j * s) s = mem_read h (d + j * s) s"
      using slot_disjoint [of j i s] assms(2) by (intro mem_read_write_disjoint) auto
    with False j show ?thesis by simp
  qed (use assms in simp)
qed simp

lemma slots_append:
  assumes "bs = concat xs" "\<And>x. x \<in> set xs \<Longrightarrow> length x = s"
  shows "slots (mem_write h (d + n * s) bs) d s (n + length xs) = slots h d s n @ xs"
proof (rule slots_eqI)
  have len: "length (concat ys) = length ys * s" if "set ys \<subseteq> set xs" for ys
    using that assms(2) by (induction ys) auto
  fix j assume j: "j < n + length xs"
  let ?h = "mem_write h (d + n * s) bs"
  show "mem_read ?h (d + j * s) s = (slots h d s n @ xs) ! j"
  proof (cases "j < n")
    case True
    have "j * s + s \<le> n * s" by (rule slot_bound [OF True])
    then have "mem_read ?h (d + j * s) s = mem_read h (d + j * s) s"
      by (intro mem_read_write_disjoint) auto
    with True show ?thesis by (simp add: nth_append)
  next
    case False
    define k where "k = j - n"
    then have k: "j = n + k" "k < length xs" using False j by auto
    have split: "concat xs = concat (take k xs) @ xs ! k @ concat (drop (Suc k) xs)"
      using k(2) by (metis append_take_drop_id Cons_nth_drop_Suc concat.simps(2) concat_append)
    have l: "length (concat (take k xs)) = k * s" "length (xs ! k) = s"
      using len [of "take k xs"] set_take_subset [of k xs] k(2) assms(2) by auto
    have "k * s + s \<le> length bs"
      using len [of xs] slot_bound [OF k(2), of s] assms(1) by simp
    then have "mem_read ?h (d + n * s + k * s) s = take s (drop (k * s) bs)"
      by (rule mem_read_write_inside)
    also have "\<dots> = xs ! k" unfolding assms(1) split using l by simp
    finally show ?thesis using k by (simp add: nth_append algebra_simps)
  qed
qed simp

lemma concat_slots: "concat (slots h d s n) = mem_read h d (n * s)"
  by (induction n) (simp_all add: slots_Suc mem_read_append [symmetric] add.commute)

lemma slots_elem_length: "x \<in> set (slots h d s n) \<Longrightarrow> length x = s"
  by (auto simp: slots_def)

lemma slots_append_run:
  "bs = mem_read h' p (m * s) \<Longrightarrow>
    slots (mem_write h (d + n * s) bs) d s (n + m) = slots h d s n @ slots h' p s m"
  using slots_append [of bs "slots h' p s m" s h d n] by (auto simp: concat_slots slots_elem_length)

text \<open>Opening a gap at \<open>k\<close> and filling it.\<close>

lemma slots_insert:
  fixes h :: mem and d :: addr
  assumes "k \<le> n" "length x = s"
  defines "h1 \<equiv> mem_write h (d + k * s + s) (mem_read h (d + k * s) ((n - k) * s))"
  shows "slots (mem_write h1 (d + k * s) x) d s (Suc n)
    = take k (slots h d s n) @ x # drop k (slots h d s n)"
proof (rule slots_eqI)
  fix i assume i: "i < Suc n"
  let ?h = "mem_write h1 (d + k * s) x"
  consider "i < k" | "i = k" | "k < i" by linarith
  then show "mem_read ?h (d + i * s) s = (take k (slots h d s n) @ x # drop k (slots h d s n)) ! i"
  proof cases
    case 1
    have "i * s + s \<le> k * s" by (rule slot_bound [OF 1])
    then have "mem_read ?h (d + i * s) s = mem_read h (d + i * s) s"
      unfolding h1_def using assms(2) 1
      by (subst mem_read_write_disjoint, simp, subst mem_read_write_disjoint) auto
    with 1 assms(1) show ?thesis by (simp add: nth_append)
  next
    case 2
    with assms(1,2) show ?thesis by (simp add: nth_append min_def)
  next
    case 3
    define j where "j = i - Suc k"
    then have j: "i = Suc k + j" "j < n - k" using 3 i by auto
    have b: "j * s + s \<le> (n - k) * s" by (rule slot_bound [OF j(2)])
    have "mem_read ?h (d + i * s) s = mem_read h1 (d + k * s + s + j * s) s"
      using assms(2) j by (subst mem_read_write_disjoint) (auto simp: algebra_simps)
    also have "\<dots> = take s (drop (j * s) (mem_read h (d + k * s) ((n - k) * s)))"
      unfolding h1_def by (rule mem_read_write_inside) (use b in simp)
    also have "\<dots> = mem_read h (d + k * s + j * s) s"
      by (rule mem_read_sub [symmetric]) (rule b)
    also have "\<dots> = slots h d s n ! (k + j)"
      using j by (simp add: algebra_simps)
    finally show ?thesis using j assms(1) by (simp add: nth_append)
  qed
qed (use assms in simp)

text \<open>Closing the gap of the element at \<open>k\<close>.\<close>

lemma slots_remove:
  assumes "k < n"
  shows "slots (mem_write h (d + k * s) (mem_read h (d + k * s + s) ((n - k - 1) * s))) d s (n - 1)
    = take k (slots h d s n) @ drop (Suc k) (slots h d s n)"
proof (rule slots_eqI)
  let ?bs = "mem_read h (d + k * s + s) ((n - k - 1) * s)"
  let ?h = "mem_write h (d + k * s) ?bs"
  fix i assume i: "i < n - 1"
  show "mem_read ?h (d + i * s) s = (take k (slots h d s n) @ drop (Suc k) (slots h d s n)) ! i"
  proof (cases "i < k")
    case True
    have "i * s + s \<le> k * s" by (rule slot_bound [OF True])
    then have "mem_read ?h (d + i * s) s = mem_read h (d + i * s) s"
      by (intro mem_read_write_disjoint) auto
    with True assms show ?thesis by (simp add: nth_append)
  next
    case False
    define j where "j = i - k"
    then have j: "i = k + j" "j < n - k - 1" using False i by auto
    have b: "j * s + s \<le> (n - k - 1) * s" by (rule slot_bound [OF j(2)])
    have "mem_read ?h (d + k * s + j * s) s = take s (drop (j * s) ?bs)"
      by (rule mem_read_write_inside) (use b in simp)
    also have "\<dots> = mem_read h (d + k * s + s + j * s) s"
      by (rule mem_read_sub [symmetric]) (rule b)
    also have "\<dots> = slots h d s n ! (Suc k + j)"
      using j by (simp add: algebra_simps)
    finally show ?thesis using j assms by (simp add: nth_append algebra_simps)
  qed
qed (use assms in simp)

end
