(* ===== verification/Array.thy ===== *)
theory Array
  imports Arena Slots
begin

text \<open>
  The dynamic array: \<^verbatim>\<open>include/proven/array.h\<close> and \<^verbatim>\<open>src/proven/array.c\<close>. Elements are byte ranges
  of one block obtained through the allocator trait; \<open>array_list\<close> reads the elements a struct
  stands for. Every operation takes the world (memory and allocator state) and the array and
  returns its error code with both updated. An array pointer is an option, an element or output
  pointer an address with 0 for null.

  An element pointer may lead into the array itself, so growing must rebase it and an insertion
  that moves it must follow it: the lemmas of the locale state what each operation does to the
  list of elements for such pointers too, that a failure changes nothing, and that no other live
  block is touched.
\<close>

record 'c proven_array =
  aalloc :: "'c proven_allocator"
  adata :: addr
  alen :: nat
  acap :: nat
  aelem_size :: nat
  aalign :: nat

definition proven_array_create ::
  "'c world \<Rightarrow> 'c proven_allocator \<Rightarrow> nat \<Rightarrow> nat \<Rightarrow> nat \<Rightarrow> (proven_err + 'c proven_array) \<times> 'c world" where
  "proven_array_create w al init_cap elem_size align =
    (if elem_size = 0 \<or> \<not> proven_alloc_is_valid al \<or> \<not> proven_is_pow2 align
     then (Inl PROVEN_ERR_INVALID_ARG, w)
     else let mk = (\<lambda>data. \<lparr>aalloc = al, adata = data, alen = 0, acap = init_cap,
                           aelem_size = elem_size, aalign = align\<rparr>) in
     if init_cap > 0 then
       (case ckd_mul init_cap elem_size of
          None \<Rightarrow> (Inl PROVEN_ERR_NOMEM, w)
        | Some bytes_needed \<Rightarrow>
           (case alloc_call al w bytes_needed align of (alloc_res, w') \<Rightarrow>
              if rerr alloc_res \<noteq> PROVEN_OK then (Inl (rerr alloc_res), w')
              else (Inr (mk (ptr (rval alloc_res))), w')))
     else (Inr (mk 0), w))"

definition proven_array_is_valid :: "'c proven_array option \<Rightarrow> bool" where
  "proven_array_is_valid arr = (case arr of
     None \<Rightarrow> False
   | Some a \<Rightarrow>
      if aelem_size a = 0 \<or> \<not> proven_is_pow2 (aalign a) then False
      else if alen a > acap a then False
      else if acap a > 0 \<and> adata a = 0 then False
      else if alen a > 0 \<and> adata a = 0 then False
      else case ckd_mul (acap a) (aelem_size a) of
        None \<Rightarrow> False
      | Some bytes_needed \<Rightarrow> proven_alloc_is_valid (aalloc a))"

definition proven_array_reserve ::
  "'c world \<Rightarrow> 'c proven_array option \<Rightarrow> nat \<Rightarrow> proven_err \<times> 'c proven_array option \<times> 'c world" where
  "proven_array_reserve w arr new_cap =
    (if \<not> proven_array_is_valid arr then (PROVEN_ERR_INVALID_ARG, arr, w)
     else let a = the arr in
     if new_cap \<le> acap a then (PROVEN_OK, arr, w)
     else case ckd_mul new_cap (aelem_size a) of
       None \<Rightarrow> (PROVEN_ERR_OUT_OF_BOUNDS, arr, w)
     | Some new_bytes \<Rightarrow>
       (case ckd_mul (acap a) (aelem_size a) of
          None \<Rightarrow> (PROVEN_ERR_OUT_OF_BOUNDS, arr, w)
        | Some old_bytes \<Rightarrow>
          (case realloc_call (aalloc a) w (adata a) old_bytes new_bytes (aalign a) of
             (res, w') \<Rightarrow>
               if rerr res \<noteq> PROVEN_OK then (rerr res, arr, w')
               else (PROVEN_OK, Some (a\<lparr>adata := ptr (rval res), acap := new_cap\<rparr>), w'))))"

text \<open>
  The growth step of a push: the error that stops it, or the array with room and the element
  pointer, rebased when it led into the old storage.
\<close>

definition array_push_grow ::
  "'c world \<Rightarrow> 'c proven_array \<Rightarrow> addr \<Rightarrow> (proven_err + 'c proven_array \<times> addr) \<times> 'c world" where
  "array_push_grow w a element =
    (case (if acap a = 0 then Some 8 else ckd_mul (acap a) 2) of
       None \<Rightarrow> (Inl PROVEN_ERR_OUT_OF_BOUNDS, w)
     | Some new_cap \<Rightarrow>
       (case ckd_mul new_cap (aelem_size a) of
          None \<Rightarrow> (Inl PROVEN_ERR_OUT_OF_BOUNDS, w)
        | Some new_bytes \<Rightarrow>
          (case ckd_mul (acap a) (aelem_size a) of
             None \<Rightarrow> (Inl PROVEN_ERR_OUT_OF_BOUNDS, w)
           | Some old_bytes \<Rightarrow>
             let alias_ref = proven_bufref_capture (adata a) old_bytes element (aelem_size a) in
             if ref_valid alias_ref \<and> aelem_size a > old_bytes - ref_offset alias_ref
             then (Inl PROVEN_ERR_INVALID_ARG, w)
             else
               (case realloc_call (aalloc a) w (adata a) old_bytes new_bytes (aalign a) of
                  (res, w') \<Rightarrow>
                    if rerr res \<noteq> PROVEN_OK then (Inl (rerr res), w')
                    else (Inr (a\<lparr>adata := ptr (rval res), acap := new_cap\<rparr>,
                               if ref_valid alias_ref
                               then proven_bufref_rebase_const alias_ref (ptr (rval res))
                               else element), w')))))"

definition proven_array_push ::
  "'c world \<Rightarrow> 'c proven_array option \<Rightarrow> addr \<Rightarrow> proven_err \<times> 'c proven_array option \<times> 'c world" where
  "proven_array_push w arr element =
    (if \<not> proven_array_is_valid arr \<or> element = 0 then (PROVEN_ERR_INVALID_ARG, arr, w)
     else let a = the arr in
     case (if alen a \<ge> acap a then array_push_grow w a element else (Inr (a, element), w)) of
       (Inl e, w') \<Rightarrow> (e, arr, w')
     | (Inr (a', element'), w') \<Rightarrow>
         (case ckd_mul (alen a') (aelem_size a') of
            None \<Rightarrow> (PROVEN_ERR_OUT_OF_BOUNDS, Some a', w')
          | Some offset \<Rightarrow>
              (PROVEN_OK, Some (a'\<lparr>alen := wrap (alen a' + 1)\<rparr>),
               w'\<lparr>heap := proven_sys_mem_copy (heap w') (adata a' + offset) element'
                           (aelem_size a')\<rparr>)))"

definition proven_array_pop ::
  "mem \<Rightarrow> 'c proven_array option \<Rightarrow> addr \<Rightarrow> proven_err \<times> 'c proven_array option \<times> mem" where
  "proven_array_pop h arr out_element =
    (if \<not> proven_array_is_valid arr then (PROVEN_ERR_INVALID_ARG, arr, h)
     else let a = the arr in
     if alen a = 0 then (PROVEN_ERR_OUT_OF_BOUNDS, arr, h)
     else let a' = a\<lparr>alen := alen a - 1\<rparr> in
     if out_element \<noteq> 0 then
       (case ckd_mul (alen a') (aelem_size a) of
          None \<Rightarrow> (PROVEN_ERR_OUT_OF_BOUNDS, Some a', h)
        | Some offset \<Rightarrow>
            (PROVEN_OK, Some a',
             proven_sys_mem_copy h out_element (adata a + offset) (aelem_size a)))
     else (PROVEN_OK, Some a', h))"

definition proven_array_get_mut :: "'c proven_array option \<Rightarrow> nat \<Rightarrow> addr" where
  "proven_array_get_mut arr index =
    (if \<not> proven_array_is_valid arr \<or> index \<ge> alen (the arr) then 0
     else case ckd_mul index (aelem_size (the arr)) of
       None \<Rightarrow> 0 | Some offset \<Rightarrow> adata (the arr) + offset)"

definition proven_array_get :: "'c proven_array option \<Rightarrow> nat \<Rightarrow> addr" where
  "proven_array_get arr index =
    (if \<not> proven_array_is_valid arr \<or> index \<ge> alen (the arr) then 0
     else case ckd_mul index (aelem_size (the arr)) of
       None \<Rightarrow> 0 | Some offset \<Rightarrow> adata (the arr) + offset)"

text \<open>
  The doubling loop of \<^verbatim>\<open>array_make_room\<close>. It is entered with a capacity above 0, which the guard
  records; a doubling that overflows ends it at the need itself.
\<close>

function array_grow_cap :: "nat \<Rightarrow> nat \<Rightarrow> nat" where
  "array_grow_cap new_cap need =
    (if 0 < new_cap \<and> new_cap < need
     then (case ckd_mul new_cap 2 of None \<Rightarrow> need | Some c \<Rightarrow> array_grow_cap c need)
     else new_cap)"
  by pat_completeness auto
termination
  by (relation "measure (\<lambda>(c, need). need - c)") (auto simp: ckd_simps)

declare array_grow_cap.simps [simp del]

text \<open>The result holds the source pointer as the call leaves it (\<^verbatim>\<open>*src\<close>).\<close>

definition array_make_room ::
  "'c world \<Rightarrow> 'c proven_array \<Rightarrow> nat \<Rightarrow> addr \<Rightarrow> nat \<Rightarrow>
    proven_err \<times> addr \<times> 'c proven_array \<times> 'c world" where
  "array_make_room w a extra src src_bytes =
    (case ckd_add (alen a) extra of
       None \<Rightarrow> (PROVEN_ERR_OUT_OF_BOUNDS, src, a, w)
     | Some need \<Rightarrow>
       (case ckd_mul (acap a) (aelem_size a) of
          None \<Rightarrow> (PROVEN_ERR_OUT_OF_BOUNDS, src, a, w)
        | Some old_bytes \<Rightarrow>
          let given = src \<noteq> 0 \<and> src_bytes > 0;
              ref = (if given then proven_bufref_capture (adata a) old_bytes src src_bytes
                     else \<lparr>ref_valid = False, ref_offset = 0, ref_size = 0\<rparr>) in
          if given \<and> \<not> ref_valid ref \<and> proven_range_overlaps (adata a) old_bytes src src_bytes
          then (PROVEN_ERR_INVALID_ARG, src, a, w)
          else if need \<le> acap a then (PROVEN_OK, src, a, w)
          else let new_cap = array_grow_cap (if acap a = 0 then 8 else acap a) need in
          (case ckd_mul new_cap (aelem_size a) of
             None \<Rightarrow> (PROVEN_ERR_OUT_OF_BOUNDS, src, a, w)
           | Some new_bytes \<Rightarrow>
             (case realloc_call (aalloc a) w (adata a) old_bytes new_bytes (aalign a) of
                (r, w') \<Rightarrow>
                  if rerr r \<noteq> PROVEN_OK then (rerr r, src, a, w')
                  else (PROVEN_OK,
                        if ref_valid ref then proven_bufref_rebase_const ref (ptr (rval r)) else src,
                        a\<lparr>adata := ptr (rval r), acap := new_cap\<rparr>, w')))))"

definition proven_array_clear :: "'c proven_array option \<Rightarrow> 'c proven_array option" where
  "proven_array_clear arr =
    (if proven_array_is_valid arr then Some ((the arr)\<lparr>alen := 0\<rparr>) else arr)"

definition proven_array_truncate ::
  "'c proven_array option \<Rightarrow> nat \<Rightarrow> proven_err \<times> 'c proven_array option" where
  "proven_array_truncate arr new_len =
    (if \<not> proven_array_is_valid arr then (PROVEN_ERR_INVALID_ARG, arr)
     else if new_len > alen (the arr) then (PROVEN_ERR_OUT_OF_BOUNDS, arr)
     else (PROVEN_OK, Some ((the arr)\<lparr>alen := new_len\<rparr>)))"

definition proven_array_insert ::
  "'c world \<Rightarrow> 'c proven_array option \<Rightarrow> nat \<Rightarrow> addr \<Rightarrow> proven_err \<times> 'c proven_array option \<times> 'c world" where
  "proven_array_insert w arr index element =
    (if \<not> proven_array_is_valid arr \<or> element = 0 then (PROVEN_ERR_INVALID_ARG, arr, w)
     else if index > alen (the arr) then (PROVEN_ERR_OUT_OF_BOUNDS, arr, w)
     else case array_make_room w (the arr) 1 element (aelem_size (the arr)) of
       (e, ep, a, w') \<Rightarrow>
         if e \<noteq> PROVEN_OK then (e, Some a, w')
         else let ap = adata a + wrap (index * aelem_size a);
                  tail_bytes = wrap ((alen a - index) * aelem_size a);
                  el = (if ep \<ge> ap \<and> ep < wrap (ap + tail_bytes)
                        then ap + (ep - ap) + aelem_size a else ep);
                  h1 = proven_sys_mem_move (heap w') (ap + aelem_size a) ap tail_bytes;
                  h2 = proven_sys_mem_copy h1 ap el (aelem_size a)
              in (PROVEN_OK, Some (a\<lparr>alen := wrap (alen a + 1)\<rparr>), w'\<lparr>heap := h2\<rparr>))"

definition proven_array_remove_at ::
  "mem \<Rightarrow> 'c proven_array option \<Rightarrow> nat \<Rightarrow> addr \<Rightarrow> proven_err \<times> 'c proven_array option \<times> mem" where
  "proven_array_remove_at h arr index out_element =
    (if \<not> proven_array_is_valid arr then (PROVEN_ERR_INVALID_ARG, arr, h)
     else let a = the arr in
     if index \<ge> alen a then (PROVEN_ERR_OUT_OF_BOUNDS, arr, h)
     else let at = adata a + wrap (index * aelem_size a);
              h1 = (if out_element \<noteq> 0 then proven_sys_mem_copy h out_element at (aelem_size a) else h);
              h2 = proven_sys_mem_move h1 at (at + aelem_size a)
                     (wrap ((alen a - index - 1) * aelem_size a))
          in (PROVEN_OK, Some (a\<lparr>alen := alen a - 1\<rparr>), h2))"

definition proven_array_swap_remove ::
  "mem \<Rightarrow> 'c proven_array option \<Rightarrow> nat \<Rightarrow> addr \<Rightarrow> proven_err \<times> 'c proven_array option \<times> mem" where
  "proven_array_swap_remove h arr index out_element =
    (if \<not> proven_array_is_valid arr then (PROVEN_ERR_INVALID_ARG, arr, h)
     else let a = the arr in
     if index \<ge> alen a then (PROVEN_ERR_OUT_OF_BOUNDS, arr, h)
     else let at = adata a + wrap (index * aelem_size a);
              h1 = (if out_element \<noteq> 0 then proven_sys_mem_copy h out_element at (aelem_size a) else h);
              last = alen a - 1;
              h2 = (if index \<noteq> last
                    then proven_sys_mem_copy h1 at (adata a + wrap (last * aelem_size a)) (aelem_size a)
                    else h1)
          in (PROVEN_OK, Some (a\<lparr>alen := last\<rparr>), h2))"

definition proven_array_extend ::
  "'c world \<Rightarrow> 'c proven_array option \<Rightarrow> addr \<Rightarrow> nat \<Rightarrow> proven_err \<times> 'c proven_array option \<times> 'c world" where
  "proven_array_extend w arr elements count =
    (if \<not> proven_array_is_valid arr \<or> (count > 0 \<and> elements = 0) then (PROVEN_ERR_INVALID_ARG, arr, w)
     else if count = 0 then (PROVEN_OK, arr, w)
     else case ckd_mul count (aelem_size (the arr)) of
       None \<Rightarrow> (PROVEN_ERR_OUT_OF_BOUNDS, arr, w)
     | Some bytes \<Rightarrow>
       (case array_make_room w (the arr) count elements bytes of
          (e, src, a, w') \<Rightarrow>
            if e \<noteq> PROVEN_OK then (e, Some a, w')
            else (PROVEN_OK, Some (a\<lparr>alen := wrap (alen a + count)\<rparr>),
                  w'\<lparr>heap := proven_sys_mem_move (heap w')
                       (adata a + wrap (alen a * aelem_size a)) src bytes\<rparr>)))"

definition proven_array_destroy :: "'c world \<Rightarrow> 'c proven_array option \<Rightarrow> 'c proven_array option \<times> 'c world" where
  "proven_array_destroy w arr = (case arr of
     None \<Rightarrow> (None, w)
   | Some a \<Rightarrow>
      (Some (a\<lparr>adata := 0, alen := 0, acap := 0, aelem_size := 0, aalign := 0\<rparr>),
       if adata a \<noteq> 0 \<and> proven_alloc_is_valid (aalloc a) \<and> free_fn (aalloc a) \<noteq> None
       then free_call (aalloc a) w (adata a) else w))"

section \<open>What a struct stands for\<close>

definition array_list :: "mem \<Rightarrow> 'c proven_array \<Rightarrow> byte list list" where
  "array_list h a = slots h (adata a) (aelem_size a) (alen a)"

definition array_blocks :: "'c proven_array \<Rightarrow> (addr \<times> nat) set" where
  "array_blocks a = (if acap a = 0 then {} else {(adata a, acap a * aelem_size a)})"

definition array_wf ::
  "('c world \<Rightarrow> (addr \<times> nat) set \<Rightarrow> bool) \<Rightarrow> 'c proven_allocator \<Rightarrow> 'c world \<Rightarrow> (addr \<times> nat) set \<Rightarrow>
    'c proven_array \<Rightarrow> bool" where
  "array_wf iv al w B a \<longleftrightarrow> iv w B \<and> proven_array_is_valid (Some a) \<and> aalloc a = al \<and>
    array_blocks a \<subseteq> B \<and> (acap a = 0 \<longrightarrow> adata a = 0)"

text \<open>
  A source range a caller may pass: inside the elements of the array, inside another live block,
  or in memory the allocator does not manage (the stack, a global).
\<close>

definition array_source ::
  "('c world \<Rightarrow> addr set) \<Rightarrow> 'c world \<Rightarrow> (addr \<times> nat) set \<Rightarrow> 'c proven_array \<Rightarrow> addr \<Rightarrow> nat \<Rightarrow> bool" where
  "array_source managed w B a src n \<longleftrightarrow> src \<noteq> 0 \<and> src + n \<le> SIZE_MAX \<and>
    (span (src, n) \<subseteq> span (adata a, alen a * aelem_size a) \<or>
     span (src, n) \<subseteq> spans (B - array_blocks a) \<or> span (src, n) \<inter> managed w = {})"

text \<open>An output location a caller may pass: null, another live block, or unmanaged memory.\<close>

definition array_target ::
  "('c world \<Rightarrow> addr set) \<Rightarrow> 'c world \<Rightarrow> (addr \<times> nat) set \<Rightarrow> 'c proven_array \<Rightarrow> addr \<Rightarrow> nat \<Rightarrow> bool" where
  "array_target managed w B a out n \<longleftrightarrow> out = 0 \<or> span (out, n) \<subseteq> spans (B - array_blocks a) \<or>
    span (out, n) \<inter> managed w = {}"

text \<open>What an operation may do to everything but the array's elements.\<close>

definition array_step ::
  "('c world \<Rightarrow> (addr \<times> nat) set \<Rightarrow> bool) \<Rightarrow> ('c world \<Rightarrow> addr set) \<Rightarrow> 'c proven_allocator \<Rightarrow>
    'c world \<Rightarrow> (addr \<times> nat) set \<Rightarrow> 'c proven_array \<Rightarrow> 'c world \<Rightarrow> 'c proven_array \<Rightarrow> bool" where
  "array_step iv managed al w B a w' a' \<longleftrightarrow>
    array_wf iv al w' (B - array_blocks a \<union> array_blocks a') a' \<and> managed w' = managed w \<and>
    aelem_size a' = aelem_size a \<and> array_blocks a' \<inter> (B - array_blocks a) = {} \<and>
    (\<forall>x. x \<in> spans (B - array_blocks a) \<or> x \<notin> managed w \<longrightarrow> heap w' x = heap w x)"

lemma array_valid_iff:
  "proven_array_is_valid (Some a) \<longleftrightarrow> 0 < aelem_size a \<and> proven_is_pow2 (aalign a) \<and>
    alen a \<le> acap a \<and> (0 < acap a \<longrightarrow> adata a \<noteq> 0) \<and> acap a * aelem_size a \<le> SIZE_MAX \<and>
    proven_alloc_is_valid (aalloc a)"
  by (auto simp: proven_array_is_valid_def ckd_mul_def split: if_splits)

lemma length_array_list [simp]: "length (array_list h a) = alen a"
  by (simp add: array_list_def)

lemma array_slot_bounds:
  assumes "proven_array_is_valid (Some a)" "i < acap a"
  shows "i * aelem_size a + aelem_size a \<le> acap a * aelem_size a"
    "i * aelem_size a + aelem_size a \<le> SIZE_MAX"
  using slot_bound [OF assms(2), of "aelem_size a"] assms(1) by (auto simp: array_valid_iff)

lemma array_len_bytes: "proven_array_is_valid (Some a) \<Longrightarrow> alen a * aelem_size a \<le> acap a * aelem_size a"
  by (auto simp: array_valid_iff intro: mult_le_mono1)

lemma array_len_byte:
  "proven_array_is_valid (Some a) \<Longrightarrow> i < alen a * aelem_size a \<Longrightarrow> i < acap a * aelem_size a"
  by (rule less_le_trans [OF _ array_len_bytes])

lemma array_list_cong:
  "alen a' = alen a \<Longrightarrow> aelem_size a' = aelem_size a \<Longrightarrow>
    (\<And>i. i < alen a * aelem_size a \<Longrightarrow> h' (adata a' + i) = h (adata a + i)) \<Longrightarrow>
    array_list h' a' = array_list h a"
  unfolding array_list_def by (simp, rule slots_cong, blast)

lemma array_grow_cap_ge: "0 < c \<Longrightarrow> need \<le> array_grow_cap c need \<and> c \<le> array_grow_cap c need"
proof (induction c need rule: array_grow_cap.induct)
  case (1 c need)
  show ?case
  proof (cases "c < need")
    case True
    show ?thesis
    proof (cases "ckd_mul c 2")
      case None
      with 1 True show ?thesis by (simp add: array_grow_cap.simps [of c need])
    next
      case (Some m)
      then have "m = c * 2" by (simp add: ckd_simps)
      with 1 True Some show ?thesis by (auto simp: array_grow_cap.simps [of c need])
    qed
  next
    case False
    with 1 show ?thesis by (simp add: array_grow_cap.simps [of c need])
  qed
qed

context allocator_laws
begin

lemma array_block:
  assumes "array_wf inv al w B a" "0 < acap a"
  shows "(adata a, acap a * aelem_size a) \<in> B" "adata a \<noteq> 0"
    "adata a + acap a * aelem_size a \<le> SIZE_MAX"
    "span (adata a, acap a * aelem_size a) \<subseteq> managed w"
  using assms inv_block [of w B "adata a" "acap a * aelem_size a"]
  by (auto simp: array_wf_def array_blocks_def)

lemma array_block_apart:
  assumes "array_wf inv al w B a"
  shows "span (adata a, acap a * aelem_size a) \<inter> spans (B - array_blocks a) = {}"
proof (cases "acap a = 0")
  case False
  then have "(adata a, acap a * aelem_size a) \<in> B" using array_block(1) [OF assms] by simp
  then show ?thesis
    using assms inv_disjoint [of w B "(adata a, acap a * aelem_size a)"] False
    by (fastforce simp: array_wf_def array_blocks_def spans_def)
qed (auto simp: span_def)

text \<open>The reallocation every growing operation makes.\<close>

lemma array_realloc:
  assumes wf: "array_wf inv al w B a" and cap: "acap a < new_cap" "new_cap * aelem_size a \<le> SIZE_MAX"
    and call: "realloc_call al w (adata a) (acap a * aelem_size a) (new_cap * aelem_size a) k = (r, w')"
    and ok: "rerr r = PROVEN_OK"
  defines "a' \<equiv> a\<lparr>adata := ptr (rval r), acap := new_cap\<rparr>"
  shows "array_step inv managed al w B a w' a'"
    and "i < acap a * aelem_size a \<Longrightarrow> heap w' (adata a' + i) = heap w (adata a + i)"
    and "array_list (heap w') a' = array_list (heap w) a"
proof -
  let ?es = "aelem_size a"
  have inv: "inv w B" and v: "proven_array_is_valid (Some a)" and al: "aalloc a = al"
    using wf by (auto simp: array_wf_def)
  have es: "0 < ?es" using v by (simp add: array_valid_iff)
  then have n: "0 < new_cap * ?es" using cap by simp
  have b': "array_blocks a' = {(ptr (rval r), new_cap * ?es)}"
    using cap by (simp add: array_blocks_def a'_def)
  have "ptr (rval r) \<noteq> 0 \<and> inv w' (insert (ptr (rval r), new_cap * ?es) (B - array_blocks a)) \<and>
      managed w' = managed w \<and> (ptr (rval r), new_cap * ?es) \<notin> B - array_blocks a \<and>
      (\<forall>x. x \<in> spans (B - array_blocks a) \<or> x \<notin> managed w \<longrightarrow> heap w' x = heap w x) \<and>
      (\<forall>i < acap a * ?es. heap w' (ptr (rval r) + i) = heap w (adata a + i))"
  proof (cases "acap a = 0")
    case True
    then have "alloc_call al w (new_cap * ?es) k = (r, w')"
      using call wf realloc_null [OF n, of w] by (auto simp: array_wf_def)
    then show ?thesis
      using alloc_ok [OF inv _ ok] alloc_frame [OF inv] True by (auto simp: array_blocks_def)
  next
    case False
    then have b: "(adata a, acap a * ?es) \<in> B" using array_block(1) [OF wf] by simp
    show ?thesis
      using realloc_ok [OF inv b n call ok] realloc_frame [OF inv b n call] False
        mult_le_mono1 [of "acap a" new_cap ?es] cap
      by (auto simp: array_blocks_def min_def)
  qed
  note k = this
  show "array_step inv managed al w B a w' a'"
    using k v al cap es b' by (auto simp: array_step_def array_wf_def array_valid_iff a'_def)
  show keep: "heap w' (adata a' + i) = heap w (adata a + i)" if "i < acap a * ?es" for i
    using k that by (simp add: a'_def)
  show "array_list (heap w') a' = array_list (heap w) a"
    using keep array_len_byte [OF v] by (intro array_list_cong) (auto simp: a'_def)
qed

lemma array_realloc_fail:
  assumes wf: "array_wf inv al w B a" and n: "0 < n"
    and call: "realloc_call al w (adata a) (acap a * aelem_size a) n k = (r, w')"
    and bad: "rerr r \<noteq> PROVEN_OK"
  shows "array_step inv managed al w B a w' a" "array_list (heap w') a = array_list (heap w) a"
proof -
  have inv: "inv w B" and v: "proven_array_is_valid (Some a)"
    using wf by (auto simp: array_wf_def)
  have k: "inv w' B \<and> managed w' = managed w \<and>
      (\<forall>x. x \<in> spans B \<or> x \<notin> managed w \<longrightarrow> heap w' x = heap w x)"
  proof (cases "acap a = 0")
    case True
    then have "alloc_call al w n k = (r, w')"
      using call wf realloc_null [OF n, of w] by (auto simp: array_wf_def)
    then show ?thesis using alloc_err [OF inv _ bad] alloc_frame [OF inv] by blast
  next
    case False
    then have b: "(adata a, acap a * aelem_size a) \<in> B" using array_block(1) [OF wf] by simp
    have "x \<in> spans B \<Longrightarrow> x \<in> span (adata a, acap a * aelem_size a) \<or>
        x \<in> spans (B - {(adata a, acap a * aelem_size a)})" for x
      using b by (auto simp: spans_def)
    then show ?thesis
      using realloc_err [OF inv b n call bad] realloc_frame [OF inv b n call] by blast
  qed
  moreover have "B - array_blocks a \<union> array_blocks a = B" using wf by (auto simp: array_wf_def)
  ultimately show "array_step inv managed al w B a w' a"
    using wf spans_mono [of "B - array_blocks a" B] by (auto simp: array_step_def array_wf_def)
  have "adata a + i \<in> spans B" if "i < alen a * aelem_size a" for i
  proof -
    have i: "i < acap a * aelem_size a" by (rule array_len_byte [OF v that])
    then have "0 < acap a" by (cases "acap a") auto
    with i show ?thesis
      using span_subset_spans [OF array_block(1) [OF wf]] by (auto simp: span_def subset_iff)
  qed
  with k show "array_list (heap w') a = array_list (heap w) a"
    by (intro array_list_cong) auto
qed

text \<open>A source range is captured exactly when it lies in the array's own elements.\<close>

lemma array_source_inside:
  assumes "array_wf inv al w B a" "array_source managed w B a src n" "0 < n"
  defines "ref \<equiv> proven_bufref_capture (adata a) (acap a * aelem_size a) src n"
  shows "ref_valid ref \<longleftrightarrow> span (src, n) \<subseteq> span (adata a, alen a * aelem_size a)"
    and "ref_valid ref \<Longrightarrow> ref_offset ref = src - adata a \<and> adata a \<le> src \<and>
      src - adata a + n \<le> alen a * aelem_size a \<and> 0 < acap a"
    and "\<not> ref_valid ref \<Longrightarrow> \<not> proven_range_overlaps (adata a) (acap a * aelem_size a) src n"
    and "\<not> ref_valid ref \<Longrightarrow> x \<in> span (src, n) \<Longrightarrow> x \<in> spans (B - array_blocks a) \<or> x \<notin> managed w"
    and "\<not> ref_valid ref \<Longrightarrow> span (src, n) \<inter> span (adata a, acap a * aelem_size a) = {}"
proof -
  let ?cb = "acap a * aelem_size a" and ?lb = "alen a * aelem_size a"
  have v: "proven_array_is_valid (Some a)" using assms(1) by (simp add: array_wf_def)
  have le: "?lb \<le> ?cb" by (rule array_len_bytes [OF v])
  have s: "src \<noteq> 0" "src + n \<le> SIZE_MAX" using assms(2) by (auto simp: array_source_def)
  have ends: "src \<in> span (src, n)" "src + n - 1 \<in> span (src, n)" using assms(3) by auto
  have apart: "span (src, n) \<inter> span (adata a, ?cb) = {}"
    if "\<not> span (src, n) \<subseteq> span (adata a, ?lb)"
  proof (cases "acap a = 0")
    case False
    with assms(2) that array_block(4) [OF assms(1)] array_block_apart [OF assms(1)]
    show ?thesis by (auto simp: array_source_def)
  qed (auto simp: span_def)
  have inside: "adata a \<noteq> 0 \<and> adata a + ?cb \<le> SIZE_MAX \<and> adata a \<le> src \<and> src + n \<le> adata a + ?lb \<and> 0 < acap a"
    if "span (src, n) \<subseteq> span (adata a, ?lb)"
  proof -
    have b: "adata a \<le> src" "src + n - 1 < adata a + ?lb" using ends that by (auto simp: subset_iff)
    then have "0 < ?lb" using assms(3) by linarith
    then have "0 < acap a" using le by (cases "acap a") auto
    then show ?thesis using b assms(3) array_block(2,3) [OF assms(1)] by auto
  qed
  show valid: "ref_valid ref \<longleftrightarrow> span (src, n) \<subseteq> span (adata a, ?lb)"
  proof
    assume "ref_valid ref"
    then have "adata a \<le> src \<and> src + n \<le> adata a + ?cb"
      by (simp add: ref_def capture_valid)
    then have "src \<in> span (adata a, ?cb)" using assms(3) by auto
    then show "span (src, n) \<subseteq> span (adata a, ?lb)" using apart ends by blast
  next
    assume "span (src, n) \<subseteq> span (adata a, ?lb)"
    then show "ref_valid ref" using inside s le unfolding ref_def capture_valid by linarith
  qed
  show "ref_valid ref \<Longrightarrow> ref_offset ref = src - adata a \<and> adata a \<le> src \<and>
      src - adata a + n \<le> ?lb \<and> 0 < acap a"
    using inside valid capture_offset [of "adata a" ?cb src n] by (auto simp: ref_def)
  show disj: "span (src, n) \<inter> span (adata a, ?cb) = {}" if "\<not> ref_valid ref"
    using that valid apart by blast
  show "\<not> proven_range_overlaps (adata a) ?cb src n" if "\<not> ref_valid ref"
  proof (cases "acap a = 0")
    case False
    then show ?thesis
      using disj [OF that] overlaps_iff [of "adata a" ?cb src n] array_block(2,3) [OF assms(1)] s
      by blast
  qed (simp add: proven_range_overlaps_def)
  show "x \<in> spans (B - array_blocks a) \<or> x \<notin> managed w" if "\<not> ref_valid ref" "x \<in> span (src, n)"
    using that valid assms(2) unfolding array_source_def by blast
qed

text \<open>Reallocating, and rebasing a source pointer that led into the old storage.\<close>

lemma array_realloc_source:
  assumes wf: "array_wf inv al w B a" and src: "array_source managed w B a src n" and n: "0 < n"
    and cap: "acap a < c" "c * aelem_size a \<le> SIZE_MAX"
    and call: "realloc_call al w (adata a) (acap a * aelem_size a) (c * aelem_size a) k = (r, w')"
    and ok: "rerr r = PROVEN_OK"
  defines "ref \<equiv> proven_bufref_capture (adata a) (acap a * aelem_size a) src n"
    and "a' \<equiv> a\<lparr>adata := ptr (rval r), acap := c\<rparr>"
  defines "src' \<equiv> (if ref_valid ref then proven_bufref_rebase_const ref (ptr (rval r)) else src)"
  shows "array_source managed w' (B - array_blocks a \<union> array_blocks a') a' src' n"
    and "mem_read (heap w') src' n = mem_read (heap w) src n"
    and "if span (src, n) \<subseteq> span (adata a, alen a * aelem_size a)
         then src' = adata a' + (src - adata a) \<and> adata a \<le> src else src' = src"
proof -
  let ?cb = "acap a * aelem_size a" and ?lb = "alen a * aelem_size a"
  have v: "proven_array_is_valid (Some a)" using wf by (auto simp: array_wf_def)
  have s: "src \<noteq> 0" "src + n \<le> SIZE_MAX" using src by (auto simp: array_source_def)
  note si = array_source_inside [OF wf src n, folded ref_def]
  note r = array_realloc [OF wf cap call ok, folded a'_def]
  have st: "managed w' = managed w"
    "x \<in> spans (B - array_blocks a) \<or> x \<notin> managed w \<Longrightarrow> heap w' x = heap w x" for x
    using r(1) by (auto simp: array_step_def)
  have wf': "array_wf inv al w' (B - array_blocks a \<union> array_blocks a') a'"
    using r(1) by (simp add: array_step_def)
  have "array_source managed w' (B - array_blocks a \<union> array_blocks a') a' src' n \<and>
    mem_read (heap w') src' n = mem_read (heap w) src n \<and>
    (if span (src, n) \<subseteq> span (adata a, ?lb) then src' = adata a' + (src - adata a) \<and> adata a \<le> src
     else src' = src)"
  proof (cases "ref_valid ref")
    case True
    note off = si(2) [OF True]
    have p: "0 < acap a'" using cap by (simp add: a'_def)
    have d': "adata a' \<noteq> 0" "adata a' + acap a' * aelem_size a' \<le> SIZE_MAX"
      using array_block(2,3) [OF wf' p] by auto
    have src': "src' = adata a' + (src - adata a)"
      using True off d' by (simp add: proven_bufref_rebase_const_def src'_def a'_def)
    have in': "src - adata a + n \<le> alen a' * aelem_size a'"
      using conjunct1 [OF conjunct2 [OF conjunct2 [OF off]]] by (simp add: a'_def)
    have "alen a' * aelem_size a' \<le> acap a' * aelem_size a'"
      using array_len_bytes [of a'] wf' by (simp only: array_wf_def)
    with in' d' src' have "src' + n \<le> SIZE_MAX" by linarith
    moreover have "span (src', n) \<subseteq> span (adata a', alen a' * aelem_size a')"
      using in' src' by (auto simp: span_def)
    ultimately have "array_source managed w' (B - array_blocks a \<union> array_blocks a') a' src' n"
      using d' src' by (auto simp: array_source_def)
    moreover have "mem_read (heap w') src' n = mem_read (heap w) src n"
    proof (rule mem_read_cong)
      fix i assume "i < n"
      then have "src - adata a + i < ?cb" using off array_len_bytes [OF v] by linarith
      from r(2) [OF this] show "heap w' (src' + i) = heap w (src + i)"
        using off src' by (simp add: add.assoc [symmetric])
    qed
    ultimately show ?thesis using si(1) True src' off by auto
  next
    case False
    have "mem_read (heap w') src n = mem_read (heap w) src n"
      by (rule mem_read_frame) (use st si(4) [OF False] in blast)
    moreover have "array_source managed w' (B - array_blocks a \<union> array_blocks a') a' src n"
    proof -
      have "spans (B - array_blocks a) \<subseteq> spans (B - array_blocks a \<union> array_blocks a' - array_blocks a')"
      proof (rule spans_mono)
        have "array_blocks a' \<inter> (B - array_blocks a) = {}"
          using r(1) by (simp add: array_step_def)
        then show "B - array_blocks a \<subseteq> B - array_blocks a \<union> array_blocks a' - array_blocks a'" by blast
      qed
      then show ?thesis using src s si(1) False st(1) by (auto simp: array_source_def)
    qed
    ultimately show ?thesis using si(1) False by (auto simp: src'_def)
  qed
  then show "array_source managed w' (B - array_blocks a \<union> array_blocks a') a' src' n"
    "mem_read (heap w') src' n = mem_read (heap w) src n"
    "if span (src, n) \<subseteq> span (adata a, ?lb) then src' = adata a' + (src - adata a) \<and> adata a \<le> src
     else src' = src"
    by blast+
qed

text \<open>
  Making room: the array keeps its elements, has the room asked for, and the source pointer the
  call leaves behind reads the same bytes as before.
\<close>

lemma array_make_room_ok:
  assumes wf: "array_wf inv al w B a" and src: "array_source managed w B a src n" and n: "0 < n"
    and call: "array_make_room w a extra src n = (PROVEN_OK, src', a', w')"
  shows "array_step inv managed al w B a w' a'" "array_list (heap w') a' = array_list (heap w) a"
    "alen a' = alen a" "alen a + extra \<le> acap a'"
    "array_source managed w' (B - array_blocks a \<union> array_blocks a') a' src' n"
    "mem_read (heap w') src' n = mem_read (heap w) src n"
    "span (src, n) \<subseteq> span (adata a, alen a * aelem_size a) \<Longrightarrow> src' = adata a' + (src - adata a) \<and> adata a \<le> src"
    "\<not> span (src, n) \<subseteq> span (adata a, alen a * aelem_size a) \<Longrightarrow> src' = src"
proof -
  let ?cb = "acap a * aelem_size a" and ?lb = "alen a * aelem_size a"
  let ?ref = "proven_bufref_capture (adata a) ?cb src n"
  have v: "proven_array_is_valid (Some a)" and al: "aalloc a = al" and inv: "inv w B"
    and sub: "array_blocks a \<subseteq> B"
    using wf by (auto simp: array_wf_def)
  have s: "src \<noteq> 0" "src + n \<le> SIZE_MAX" using src by (auto simp: array_source_def)
  note si = array_source_inside [OF wf src n]
  have cb: "ckd_mul (acap a) (aelem_size a) = Some ?cb" using v by (simp add: array_valid_iff ckd_mul_def)
  have need: "ckd_add (alen a) extra = Some (alen a + extra)"
    using call by (auto simp: array_make_room_def ckd_simps split: option.splits)
  consider (fits) "alen a + extra \<le> acap a" "src' = src" "a' = a" "w' = w"
    | (grow) r c where "acap a < c" "alen a + extra \<le> c" "c * aelem_size a \<le> SIZE_MAX"
      "realloc_call al w (adata a) ?cb (c * aelem_size a) (aalign a) = (r, w')" "rerr r = PROVEN_OK"
      "src' = (if ref_valid ?ref then proven_bufref_rebase_const ?ref (ptr (rval r)) else src)"
      "a' = a\<lparr>adata := ptr (rval r), acap := c\<rparr>"
  proof (cases "alen a + extra \<le> acap a")
    case True
    with call cb need s n fits show thesis
      by (auto simp: array_make_room_def Let_def split: if_splits)
  next
    case False
    let ?c = "array_grow_cap (if acap a = 0 then 8 else acap a) (alen a + extra)"
    have c: "alen a + extra \<le> ?c" using array_grow_cap_ge by simp
    with False have "acap a < ?c" by linarith
    with call cb need s n False grow c show thesis
      by (auto simp: array_make_room_def Let_def al ckd_simps split: if_splits option.splits prod.splits)
  qed
  then have "array_step inv managed al w B a w' a' \<and> array_list (heap w') a' = array_list (heap w) a \<and>
    alen a' = alen a \<and> alen a + extra \<le> acap a' \<and>
    array_source managed w' (B - array_blocks a \<union> array_blocks a') a' src' n \<and>
    mem_read (heap w') src' n = mem_read (heap w) src n \<and>
    (if span (src, n) \<subseteq> span (adata a, ?lb) then src' = adata a' + (src - adata a) \<and> adata a \<le> src
     else src' = src)"
  proof cases
    case fits
    have B: "B - array_blocks a \<union> array_blocks a = B" "B \<union> array_blocks a = B" using sub by blast+
    have "span (src, n) \<subseteq> span (adata a, ?lb) \<Longrightarrow> src = adata a + (src - adata a) \<and> adata a \<le> src"
      using n by (force simp: span_def)
    moreover have "array_step inv managed al w B a w a"
      using wf unfolding array_step_def B by blast
    ultimately show ?thesis using fits src by (auto simp: B)
  next
    case grow
    note r = array_realloc [OF wf grow(1,3,4,5), folded grow(7)]
    note q = array_realloc_source [OF wf src n grow(1,3,4,5), folded grow(6,7)]
    show ?thesis using r(1,3) q grow(2) by (simp add: grow(7))
  qed
  then show "array_step inv managed al w B a w' a'" "array_list (heap w') a' = array_list (heap w) a"
    "alen a' = alen a" "alen a + extra \<le> acap a'"
    "array_source managed w' (B - array_blocks a \<union> array_blocks a') a' src' n"
    "mem_read (heap w') src' n = mem_read (heap w) src n"
    "span (src, n) \<subseteq> span (adata a, ?lb) \<Longrightarrow> src' = adata a' + (src - adata a) \<and> adata a \<le> src"
    "\<not> span (src, n) \<subseteq> span (adata a, ?lb) \<Longrightarrow> src' = src"
    by (auto split: if_splits)
qed

text \<open>Writing into the array's own block, and setting its length.\<close>

lemma array_step_refl:
  assumes "array_wf inv al w B a"
  shows "array_step inv managed al w B a w a"
proof -
  have "B - array_blocks a \<union> array_blocks a = B" using assms by (auto simp: array_wf_def)
  with assms show ?thesis unfolding array_step_def by auto
qed

lemma array_step_write:
  assumes st: "array_step inv managed al w B a w' a'"
    and bs: "span (q, length bs) \<subseteq> span (adata a', acap a' * aelem_size a')" and m: "m \<le> acap a'"
  shows "array_step inv managed al w B a (w'\<lparr>heap := mem_write (heap w') q bs\<rparr>) (a'\<lparr>alen := m\<rparr>)"
proof -
  let ?B = "B - array_blocks a \<union> array_blocks a'"
  let ?a = "a'\<lparr>alen := m\<rparr>" and ?w = "w'\<lparr>heap := mem_write (heap w') q bs\<rparr>"
  have wf: "array_wf inv al w' ?B a'" and fresh: "array_blocks a' \<inter> (B - array_blocks a) = {}"
    using st by (auto simp: array_step_def)
  have bl: "array_blocks ?a = array_blocks a'" by (simp add: array_blocks_def)
  have sp: "span (q, length bs) \<subseteq> spans (array_blocks a')"
  proof (cases "acap a' = 0")
    case False
    with bs show ?thesis by (simp add: array_blocks_def)
  qed (use bs in \<open>simp add: span_def\<close>)
  have "span (q, length bs) \<subseteq> spans ?B" using sp spans_mono [of "array_blocks a'" ?B] by blast
  then have "inv ?w ?B" using wf by (intro inv_write) (auto simp: array_wf_def)
  then have wf': "array_wf inv al ?w (B - array_blocks a \<union> array_blocks ?a) ?a"
    using wf m by (auto simp: array_wf_def array_valid_iff bl)
  have "?B - array_blocks a' = B - array_blocks a" using fresh by blast
  then have "span (q, length bs) \<inter> spans (B - array_blocks a) = {}"
    using array_block_apart [OF wf] bs by auto
  moreover have "span (q, length bs) \<subseteq> managed w"
  proof (cases "acap a' = 0")
    case False
    then show ?thesis using array_block(4) [OF wf] bs st by (auto simp: array_step_def)
  qed (use bs in \<open>simp add: span_def\<close>)
  ultimately have out: "x \<notin> span (q, length bs)" if "x \<in> spans (B - array_blocks a) \<or> x \<notin> managed w" for x
    using that by blast
  then have "heap ?w x = heap w x" if "x \<in> spans (B - array_blocks a) \<or> x \<notin> managed w" for x
  proof -
    have "heap w' x = heap w x" using st that unfolding array_step_def by blast
    with mem_write_out [OF out [OF that], of "heap w'"] show ?thesis by simp
  qed
  with wf' show ?thesis
    using st bl by (simp add: array_step_def managed_heap)
qed

lemma array_step_len:
  "array_step inv managed al w B a w' a' \<Longrightarrow> m \<le> acap a' \<Longrightarrow>
    array_step inv managed al w B a w' (a'\<lparr>alen := m\<rparr>)"
  using array_step_write [of w B a w' a' q "[]" m for q] by (simp add: span_def)

lemma array_step_wf:
  "array_step inv managed al w B a w' a' \<Longrightarrow> array_wf inv al w' (B - array_blocks a \<union> array_blocks a') a'"
  by (simp add: array_step_def)

end

end
