(* ===== verification/Array_Ops.thy ===== *)
theory Array_Ops
  imports Array
begin

text \<open>
  What the operations of the dynamic array (\<^verbatim>\<open>src/proven/array.c\<close>) do to the list of elements, over
  any allocator that keeps the contract of the trait. Each lemma states the success and the failure
  side of one operation; the element pointers may lead into the array itself.
\<close>

context allocator_laws
begin

section \<open>Push\<close>

lemma array_push_grow_ok:
  assumes wf: "array_wf inv al w B a" and src: "array_source managed w B a element (aelem_size a)"
    and full: "alen a = acap a" and call: "array_push_grow w a element = (Inr (a', el), w')"
  shows "array_step inv managed al w B a w' a'" "array_list (heap w') a' = array_list (heap w) a"
    "alen a' = alen a" "alen a < acap a'" "el \<noteq> 0"
    "mem_read (heap w') el (aelem_size a) = mem_read (heap w) element (aelem_size a)"
proof -
  let ?cb = "acap a * aelem_size a" and ?n = "aelem_size a"
  let ?ref = "proven_bufref_capture (adata a) ?cb element ?n"
  have v: "proven_array_is_valid (Some a)" and al: "aalloc a = al" using wf by (auto simp: array_wf_def)
  then have n: "0 < ?n" and cb: "ckd_mul (acap a) ?n = Some ?cb"
    by (auto simp: array_valid_iff ckd_mul_def)
  obtain c r where c: "(if acap a = 0 then Some 8 else ckd_mul (acap a) 2) = Some c"
    "c * ?n \<le> SIZE_MAX" "realloc_call al w (adata a) ?cb (c * ?n) (aalign a) = (r, w')"
    "rerr r = PROVEN_OK" "a' = a\<lparr>adata := ptr (rval r), acap := c\<rparr>"
    "el = (if ref_valid ?ref then proven_bufref_rebase_const ?ref (ptr (rval r)) else element)"
    using call cb unfolding array_push_grow_def Let_def al
    by (auto simp: ckd_simps split: if_splits option.splits prod.splits)
  have cc: "acap a < c" using c(1) by (auto simp: ckd_simps split: if_splits)
  note r = array_realloc [OF wf cc c(2,3,4), folded c(5)]
  note q = array_realloc_source [OF wf src n cc c(2,3,4), folded c(5,6)]
  show "array_step inv managed al w B a w' a'" "array_list (heap w') a' = array_list (heap w) a"
    by (rule r)+
  show "alen a' = alen a" "alen a < acap a'" using c(5) cc full by simp_all
  show "el \<noteq> 0" using q(1) by (simp add: array_source_def)
  show "mem_read (heap w') el ?n = mem_read (heap w) element ?n" by (rule q(2))
qed

lemma array_push_grow_fail:
  assumes wf: "array_wf inv al w B a" and call: "array_push_grow w a element = (Inl e, w')"
  shows "e \<noteq> PROVEN_OK" "array_step inv managed al w B a w' a"
    "array_list (heap w') a = array_list (heap w) a"
proof -
  have v: "proven_array_is_valid (Some a)" and al: "aalloc a = al" using wf by (auto simp: array_wf_def)
  then have n: "0 < aelem_size a" and cb: "ckd_mul (acap a) (aelem_size a) = Some (acap a * aelem_size a)"
    by (auto simp: array_valid_iff ckd_mul_def)
  let ?nc = "if acap a = 0 then Some 8 else ckd_mul (acap a) 2"
  have "e \<noteq> PROVEN_OK \<and> (w' = w \<or> (\<exists>m r. 0 < m \<and> rerr r \<noteq> PROVEN_OK \<and>
      realloc_call al w (adata a) (acap a * aelem_size a) m (aalign a) = (r, w')))"
  proof (cases ?nc)
    case None
    with call show ?thesis by (auto simp: array_push_grow_def)
  next
    case (Some c)
    then have c: "0 < c" by (auto simp: ckd_simps split: if_splits)
    show ?thesis
    proof (cases "ckd_mul c (aelem_size a)")
      case None
      with call Some show ?thesis by (simp add: array_push_grow_def)
    next
      case (Some m)
      with c n have m: "0 < m" by (auto simp: ckd_simps)
      obtain r w1 where r: "realloc_call al w (adata a) (acap a * aelem_size a) m (aalign a) = (r, w1)"
        by (cases "realloc_call al w (adata a) (acap a * aelem_size a) m (aalign a)")
      from call have "e \<noteq> PROVEN_OK \<and> (w' = w \<or> rerr r \<noteq> PROVEN_OK \<and> w1 = w')"
        by (auto simp: array_push_grow_def Let_def al cb \<open>?nc = Some c\<close> Some r split: if_splits)
      with m r show ?thesis by blast
    qed
  qed
  then show "e \<noteq> PROVEN_OK" "array_step inv managed al w B a w' a"
    "array_list (heap w') a = array_list (heap w) a"
    using array_realloc_fail [OF wf] array_step_refl [OF wf] by blast+
qed

lemma array_push_ok:
  assumes wf: "array_wf inv al w B a" and src: "array_source managed w B a element (aelem_size a)"
    and call: "proven_array_push w (Some a) element = (PROVEN_OK, a', w')"
  shows "\<exists>b. a' = Some b \<and> array_step inv managed al w B a w' b \<and>
    array_list (heap w') b = array_list (heap w) a @ [mem_read (heap w) element (aelem_size a)]"
proof -
  let ?x = "mem_read (heap w) element (aelem_size a)"
  have v: "proven_array_is_valid (Some a)" using wf by (simp add: array_wf_def)
  obtain c el w1 where g: "(if alen a \<ge> acap a then array_push_grow w a element else (Inr (a, element), w))
      = (Inr (c, el), w1)"
    and w': "a' = Some (c\<lparr>alen := wrap (alen c + 1)\<rparr>)"
    "w' = w1\<lparr>heap := proven_sys_mem_copy (heap w1) (adata c + alen c * aelem_size c) el (aelem_size c)\<rparr>"
    using call by (auto simp: proven_array_push_def Let_def ckd_simps array_push_grow_fail [OF wf]
        split: if_splits option.splits prod.splits sum.splits)
  have st: "array_step inv managed al w B a w1 c" "array_list (heap w1) c = array_list (heap w) a"
    "alen c = alen a" "alen a < acap c" "el \<noteq> 0" "mem_read (heap w1) el (aelem_size a) = ?x"
  proof -
    have "array_step inv managed al w B a w1 c \<and> array_list (heap w1) c = array_list (heap w) a \<and>
      alen c = alen a \<and> alen a < acap c \<and> el \<noteq> 0 \<and> mem_read (heap w1) el (aelem_size a) = ?x"
    proof (cases "alen a \<ge> acap a")
      case True
      then have "alen a = acap a" using v by (simp add: array_valid_iff)
      with g True show ?thesis using array_push_grow_ok [OF wf src] by simp
    next
      case False
      with g array_step_refl [OF wf] src show ?thesis by (auto simp: array_source_def)
    qed
    then show "array_step inv managed al w B a w1 c" "array_list (heap w1) c = array_list (heap w) a"
      "alen c = alen a" "alen a < acap c" "el \<noteq> 0" "mem_read (heap w1) el (aelem_size a) = ?x" by auto
  qed
  let ?q = "adata c + alen c * aelem_size c"
  have wc: "array_wf inv al w1 (B - array_blocks a \<union> array_blocks c) c" and es: "aelem_size c = aelem_size a"
    using st(1) by (auto simp: array_step_def)
  then have vc: "proven_array_is_valid (Some c)" and cap: "0 < acap c" using st(4) by (auto simp: array_wf_def)
  have dat: "adata c \<noteq> 0" using array_block(2) [OF wc cap] .
  have w'': "w' = w1\<lparr>heap := mem_write (heap w1) ?q ?x\<rparr>" using w'(2) dat st(5,6) es by simp
  have len: "wrap (alen c + 1) = alen c + 1"
  proof -
    have "acap c \<le> acap c * aelem_size c" using vc by (simp add: array_valid_iff)
    then have "alen c + 1 \<le> SIZE_MAX" using vc st(3,4) unfolding array_valid_iff by linarith
    then show ?thesis by (rule wrap_id)
  qed
  have sl: "alen c * aelem_size c + aelem_size c \<le> acap c * aelem_size c"
    using array_slot_bounds(1) [OF vc] st(3,4) by simp
  have "array_step inv managed al w B a w' (c\<lparr>alen := alen c + 1\<rparr>)"
    unfolding w'' by (rule array_step_write [OF st(1)]) (use sl st(3,4) es in auto)
  moreover have "array_list (heap w') (c\<lparr>alen := alen c + 1\<rparr>) = array_list (heap w) a @ [?x]"
  proof -
    have "slots (heap w') (adata c) (aelem_size c) (alen c) = array_list (heap w1) c"
      unfolding w'' array_list_def using es
      by (auto intro!: slots_write_outside simp: span_def)
    then show ?thesis using st(2) es by (simp add: array_list_def slots_Suc w'')
  qed
  ultimately show ?thesis using w'(1) len by auto
qed

lemma array_push_fail:
  assumes wf: "array_wf inv al w B a" and src: "array_source managed w B a element (aelem_size a)"
    and call: "proven_array_push w (Some a) element = (e, a', w')" and bad: "e \<noteq> PROVEN_OK"
  shows "a' = Some a \<and> array_step inv managed al w B a w' a \<and>
    array_list (heap w') a = array_list (heap w) a \<and> acap a \<le> alen a"
proof -
  have v: "proven_array_is_valid (Some a)" and el: "element \<noteq> 0"
    using wf src by (auto simp: array_wf_def array_source_def)
  have "alen a \<ge> acap a \<and> a' = Some a \<and> array_push_grow w a element = (Inl e, w')"
  proof (cases "alen a \<ge> acap a")
    case True
    show ?thesis
    proof (cases "array_push_grow w a element")
      case (Pair x w1)
      show ?thesis
      proof (cases x)
        case (Inr y)
        obtain c k where y: "y = (c, k)" by fastforce
        have full: "alen a = acap a" using True v by (simp add: array_valid_iff)
        note g = array_push_grow_ok [OF wf src full Pair [unfolded Inr y]]
        have vc: "proven_array_is_valid (Some c)" using g(1) by (auto simp: array_step_def array_wf_def)
        have "alen c * aelem_size c + aelem_size c \<le> SIZE_MAX"
          by (rule array_slot_bounds(2) [OF vc]) (use g(3,4) in simp)
        then have "ckd_mul (alen c) (aelem_size c) \<noteq> None" by (simp add: ckd_mul_def)
        then show ?thesis using call bad v el True
          by (auto simp: proven_array_push_def Pair Inr y split: option.splits)
      qed (use call v el True Pair in \<open>auto simp: proven_array_push_def\<close>)
    qed
  next
    case False
    then have "alen a * aelem_size a + aelem_size a \<le> SIZE_MAX" using array_slot_bounds(2) [OF v] by simp
    then have "ckd_mul (alen a) (aelem_size a) \<noteq> None" by (simp add: ckd_mul_def)
    with False call bad v el show ?thesis by (auto simp: proven_array_push_def split: option.splits)
  qed
  then show ?thesis using array_push_grow_fail [OF wf] by blast
qed

section \<open>Insertion\<close>

text \<open>Opening the gap keeps the source readable: at its old place, or one element further.\<close>

lemma gap_source:
  fixes d :: addr
  assumes k: "k \<le> n" and s: "0 < s"
    and src: "span (src, s) \<subseteq> span (d, n * s) \<or> span (src, s) \<inter> span (d, n * s + s) = {}"
  defines "ap \<equiv> d + k * s"
  defines "el \<equiv> (if ap \<le> src \<and> src < ap + (n - k) * s then ap + (src - ap) + s else src)"
  shows "mem_read (mem_write h (ap + s) (mem_read h ap ((n - k) * s))) el s = mem_read h src s"
proof -
  let ?t = "(n - k) * s"
  let ?h = "mem_write h (ap + s) (mem_read h ap ?t)"
  have t: "k * s + ?t = n * s" using k by (simp add: add_mult_distrib [symmetric])
  have ends: "src \<in> span (src, s)" "src + s - 1 \<in> span (src, s)" using s by auto
  show ?thesis
  proof (cases "ap \<le> src \<and> src < ap + ?t")
    case True
    then have "src \<in> span (d, n * s + s)" using t by (auto simp: ap_def)
    then have "span (src, s) \<subseteq> span (d, n * s)" using src ends by blast
    then have "src + s \<le> d + n * s" using ends s by (auto simp: subset_iff)
    then have "mem_read ?h (ap + s + (src - ap)) s = take s (drop (src - ap) (mem_read h ap ?t))"
      using True t by (intro mem_read_write_inside) (simp add: ap_def)
    also have "\<dots> = mem_read h (ap + (src - ap)) s"
      using True t \<open>src + s \<le> d + n * s\<close> by (intro mem_read_sub [symmetric]) (simp add: ap_def)
    finally show ?thesis using True by (simp add: el_def add.commute add.left_commute)
  next
    case False
    have "src + s \<le> ap + s \<or> ap + s + ?t \<le> src"
    proof (cases "src < ap")
      case False
      with \<open>\<not> (ap \<le> src \<and> src < ap + ?t)\<close> have "ap + ?t \<le> src" by simp
      then have "\<not> span (src, s) \<subseteq> span (d, n * s)" using t ends by (auto simp: ap_def subset_iff)
      with src have "src \<notin> span (d, n * s + s)" using ends by blast
      with False t show ?thesis by (simp add: ap_def)
    qed simp
    moreover have "el = src" unfolding el_def by (rule if_not_P [OF False])
    ultimately show ?thesis by (simp add: mem_read_write_disjoint)
  qed
qed

lemma array_insert_ok:
  assumes wf: "array_wf inv al w B a" and src: "array_source managed w B a element (aelem_size a)"
    and call: "proven_array_insert w (Some a) index element = (PROVEN_OK, a', w')"
  shows "\<exists>b. a' = Some b \<and> array_step inv managed al w B a w' b \<and>
    array_list (heap w') b = take index (array_list (heap w) a)
      @ mem_read (heap w) element (aelem_size a) # drop index (array_list (heap w) a)"
proof -
  let ?s = "aelem_size a" and ?x = "mem_read (heap w) element (aelem_size a)"
  have v: "proven_array_is_valid (Some a)" and s: "0 < ?s" and el0: "element \<noteq> 0"
    using wf src by (auto simp: array_wf_def array_valid_iff array_source_def)
  obtain ep c w1 where room: "array_make_room w a 1 element ?s = (PROVEN_OK, ep, c, w1)"
    and k: "index \<le> alen a"
    using call by (auto simp: proven_array_insert_def Let_def split: if_splits prod.splits)
  note r = array_make_room_ok [OF wf src s room]
  have wc: "array_wf inv al w1 (B - array_blocks a \<union> array_blocks c) c" and es: "aelem_size c = ?s"
    using r(1) by (auto simp: array_step_def)
  have vc: "proven_array_is_valid (Some c)" and cap: "0 < acap c" using wc r(3,4) by (auto simp: array_wf_def)
  have dat: "adata c \<noteq> 0" "adata c + acap c * ?s \<le> SIZE_MAX"
    using array_block(2,3) [OF wc cap] es by auto
  have sl: "alen a * ?s + ?s \<le> acap c * ?s"
    using array_slot_bounds(1) [OF vc, of "alen c"] r(3,4) es by simp
  have ks: "index * ?s \<le> alen a * ?s" by (rule slot_mono [OF k])
  have ts: "index * ?s + (alen a - index) * ?s = alen a * ?s"
    using k by (simp add: add_mult_distrib [symmetric])
  define ap where "ap = adata c + index * ?s"
  define tb where "tb = (alen a - index) * ?s"
  define el where "el = (if ap \<le> ep \<and> ep < ap + tb then ap + (ep - ap) + ?s else ep)"
  define h1 where "h1 = mem_write (heap w1) (ap + ?s) (mem_read (heap w1) ap tb)"
  have wr: "wrap (index * ?s) = index * ?s" "wrap tb = tb" "wrap (ap + tb) = ap + tb"
    using dat sl ks ts unfolding ap_def tb_def by (intro wrap_id; linarith)+
  have len: "wrap (alen c + 1) = alen c + 1"
  proof -
    have "acap c \<le> acap c * ?s" using s by simp
    then show ?thesis using dat(2) r(3,4) by (intro wrap_id) linarith
  qed
  have ep0: "ep \<noteq> 0" and apart: "span (ep, ?s) \<subseteq> span (adata c, alen a * ?s) \<or>
      span (ep, ?s) \<inter> span (adata c, alen a * ?s + ?s) = {}"
  proof -
    have sc: "array_source managed w1 (B - array_blocks a \<union> array_blocks c) c ep ?s" by (rule r(5))
    then show "ep \<noteq> 0" by (simp add: array_source_def)
    have "span (adata c, alen a * ?s + ?s) \<subseteq> span (adata c, acap c * ?s)" using sl by (auto simp: span_def)
    then show "span (ep, ?s) \<subseteq> span (adata c, alen a * ?s) \<or>
      span (ep, ?s) \<inter> span (adata c, alen a * ?s + ?s) = {}"
      using array_source_inside(1,5) [OF wc sc s] r(3) es by auto
  qed
  have el: "el \<noteq> 0" using ep0 by (simp add: el_def)
  have x: "mem_read h1 el ?s = ?x"
    using gap_source [OF k s apart, of "heap w1"] r(6) unfolding h1_def el_def ap_def tb_def by simp
  have "proven_array_insert w (Some a) index element =
    (let p = adata c + wrap (index * ?s); t = wrap ((alen a - index) * ?s);
         e = (if p \<le> ep \<and> ep < wrap (p + t) then p + (ep - p) + ?s else ep)
     in (PROVEN_OK, Some (c\<lparr>alen := wrap (alen c + 1)\<rparr>),
         w1\<lparr>heap := proven_sys_mem_copy (proven_sys_mem_move (heap w1) (p + ?s) p t) p e ?s\<rparr>))"
    using v el0 k by (simp add: proven_array_insert_def Let_def room [unfolded One_nat_def] es r(3) not_less)
  also have "\<dots> = (PROVEN_OK, Some (c\<lparr>alen := alen c + 1\<rparr>),
      w1\<lparr>heap := proven_sys_mem_copy (proven_sys_mem_move (heap w1) (ap + ?s) ap tb) ap el ?s\<rparr>)"
    unfolding Let_def wr(1) ap_def [symmetric] tb_def [symmetric] wr(2,3) el_def [symmetric] len ..
  also have "proven_sys_mem_copy (proven_sys_mem_move (heap w1) (ap + ?s) ap tb) ap el ?s
      = mem_write h1 ap ?x"
    using dat(1) el x by (simp add: ap_def h1_def)
  finally have fin: "a' = Some (c\<lparr>alen := alen c + 1\<rparr>)" "w' = w1\<lparr>heap := mem_write h1 ap ?x\<rparr>"
    using call by auto
  let ?w1 = "w1\<lparr>heap := h1\<rparr>"
  have lc: "alen c + 1 \<le> acap c" using r(3,4) by simp
  have below: "index * ?s + ?s \<le> acap c * ?s" using sl ks by linarith
  have "array_step inv managed al w B a ?w1 (c\<lparr>alen := alen c\<rparr>)"
    unfolding h1_def
    by (rule array_step_write [OF r(1)]) (use sl ks ts lc in \<open>auto simp: ap_def tb_def es\<close>)
  then have "array_step inv managed al w B a ?w1 c" by simp
  then have "array_step inv managed al w B a (?w1\<lparr>heap := mem_write (heap ?w1) ap ?x\<rparr>) (c\<lparr>alen := alen c + 1\<rparr>)"
    by (rule array_step_write) (use below lc in \<open>auto simp: ap_def es\<close>)
  moreover have "array_list (heap w') (c\<lparr>alen := alen c + 1\<rparr>) =
      take index (array_list (heap w1) c) @ ?x # drop index (array_list (heap w1) c)"
    using slots_insert [OF k, of ?x ?s "heap w1" "adata c"]
    by (simp add: fin(2) array_list_def es r(3) h1_def ap_def tb_def)
  ultimately show ?thesis using fin r(2) by simp
qed

lemma array_make_room_fail:
  assumes wf: "array_wf inv al w B a" and n: "0 < extra"
    and call: "array_make_room w a extra src n = (e, src', a', w')" and bad: "e \<noteq> PROVEN_OK"
  shows "a' = a" "array_step inv managed al w B a w' a" "array_list (heap w') a = array_list (heap w) a"
proof -
  let ?cb = "acap a * aelem_size a" and ?need = "alen a + extra"
  have v: "proven_array_is_valid (Some a)" and al: "aalloc a = al" using wf by (auto simp: array_wf_def)
  then have s: "0 < aelem_size a" and cb: "ckd_mul (acap a) (aelem_size a) = Some ?cb"
    by (auto simp: array_valid_iff ckd_mul_def)
  let ?c = "array_grow_cap (if acap a = 0 then 8 else acap a) ?need"
  have "a' = a \<and> (w' = w \<or> (\<exists>m r. 0 < m \<and> rerr r \<noteq> PROVEN_OK \<and>
      realloc_call al w (adata a) ?cb m (aalign a) = (r, w')))"
  proof (cases "ckd_mul ?c (aelem_size a)")
    case None
    with call bad show ?thesis
      by (auto simp: array_make_room_def Let_def cb ckd_add_def split: if_splits)
  next
    case (Some m)
    have "0 < (if acap a = 0 then 8 else acap a)" by simp
    from array_grow_cap_ge [OF this, of ?need] n have "0 < ?c" by linarith
    with Some s have m: "0 < m" by (auto simp: ckd_simps)
    obtain r w1 where r: "realloc_call al w (adata a) ?cb m (aalign a) = (r, w1)"
      by (cases "realloc_call al w (adata a) ?cb m (aalign a)")
    from call bad have "a' = a \<and> (w' = w \<or> rerr r \<noteq> PROVEN_OK \<and> w1 = w')"
      by (auto simp: array_make_room_def Let_def al cb Some r ckd_add_def split: if_splits)
    with m r show ?thesis by blast
  qed
  then show "a' = a" "array_step inv managed al w B a w' a"
    "array_list (heap w') a = array_list (heap w) a"
    using array_realloc_fail [OF wf] array_step_refl [OF wf] by blast+
qed

lemma array_insert_fail:
  assumes wf: "array_wf inv al w B a"
    and call: "proven_array_insert w (Some a) index element = (e, a', w')" and bad: "e \<noteq> PROVEN_OK"
  shows "a' = Some a \<and> array_step inv managed al w B a w' a \<and>
    array_list (heap w') a = array_list (heap w) a"
proof (cases "array_make_room w a 1 element (aelem_size a)")
  case (fields f ep c w1)
  note room = fields [unfolded One_nat_def]
  have "(a' = Some a \<and> w' = w) \<or> (f \<noteq> PROVEN_OK \<and> a' = Some c \<and> w' = w1)"
    using call bad by (auto simp: proven_array_insert_def Let_def room split: if_splits)
  then show ?thesis
    using array_make_room_fail [OF wf _ fields] array_step_refl [OF wf] by auto
qed

section \<open>Appending a run\<close>

lemma array_extend_ok:
  assumes wf: "array_wf inv al w B a" and src: "array_source managed w B a elements (count * aelem_size a)"
    and call: "proven_array_extend w (Some a) elements count = (PROVEN_OK, a', w')"
  shows "\<exists>b. a' = Some b \<and> array_step inv managed al w B a w' b \<and>
    array_list (heap w') b = array_list (heap w) a @ slots (heap w) elements (aelem_size a) count"
proof (cases "count = 0")
  case True
  with call array_step_refl [OF wf] show ?thesis by (auto simp: proven_array_extend_def split: if_splits)
next
  case False
  let ?s = "aelem_size a"
  have v: "proven_array_is_valid (Some a)" and s: "0 < ?s" and el0: "elements \<noteq> 0"
    using wf src by (auto simp: array_wf_def array_valid_iff array_source_def)
  have n: "0 < count * ?s" using False s by simp
  obtain ep c w1 where room: "array_make_room w a count elements (count * ?s) = (PROVEN_OK, ep, c, w1)"
    and fin: "a' = Some (c\<lparr>alen := wrap (alen c + count)\<rparr>)"
    "w' = w1\<lparr>heap := proven_sys_mem_move (heap w1) (adata c + wrap (alen c * aelem_size c)) ep (count * ?s)\<rparr>"
    using call False by (auto simp: proven_array_extend_def ckd_simps split: if_splits option.splits prod.splits)
  note r = array_make_room_ok [OF wf src n room]
  have wc: "array_wf inv al w1 (B - array_blocks a \<union> array_blocks c) c" and es: "aelem_size c = ?s"
    using r(1) by (auto simp: array_step_def)
  have vc: "proven_array_is_valid (Some c)" and cap: "0 < acap c" and ep: "ep \<noteq> 0"
    using wc r(3,4,5) False by (auto simp: array_wf_def array_source_def)
  have dat: "adata c \<noteq> 0" "adata c + acap c * ?s \<le> SIZE_MAX"
    using array_block(2,3) [OF wc cap] es by auto
  have sl: "(alen c + count) * ?s \<le> acap c * ?s" using r(3,4) by (intro slot_mono) simp
  then have sl': "alen c * ?s + count * ?s \<le> acap c * ?s" by (simp only: add_mult_distrib)
  have wr: "wrap (alen c * ?s) = alen c * ?s" using dat sl' by (intro wrap_id) linarith
  have len: "wrap (alen c + count) = alen c + count"
  proof -
    have "acap c \<le> acap c * ?s" using s by simp
    then show ?thesis using dat(2) r(3,4) by (intro wrap_id) linarith
  qed
  let ?bs = "mem_read (heap w1) ep (count * ?s)"
  have w': "w' = w1\<lparr>heap := mem_write (heap w1) (adata c + alen c * ?s) ?bs\<rparr>"
    using fin(2) dat(1) ep by (simp add: es wr)
  have "array_step inv managed al w B a w' (c\<lparr>alen := alen c + count\<rparr>)"
    unfolding w' by (rule array_step_write [OF r(1)]) (use sl' r(3,4) es in auto)
  moreover have "slots (heap w1) ep ?s count = slots (heap w) elements ?s count"
  proof (rule slots_cong)
    fix i assume "i < count * ?s"
    then show "heap w1 (ep + i) = heap w (elements + i)"
      using r(6) by (metis nth_mem_read)
  qed
  then have "array_list (heap w') (c\<lparr>alen := alen c + count\<rparr>) =
      array_list (heap w) a @ slots (heap w) elements ?s count"
    using r(2) slots_append_run [of ?bs "heap w1" ep count ?s "heap w1" "adata c" "alen c"]
    by (simp add: array_list_def w' es)
  ultimately show ?thesis using fin(1) len by auto
qed

lemma array_extend_fail:
  assumes wf: "array_wf inv al w B a"
    and call: "proven_array_extend w (Some a) elements count = (e, a', w')" and bad: "e \<noteq> PROVEN_OK"
  shows "a' = Some a \<and> array_step inv managed al w B a w' a \<and>
    array_list (heap w') a = array_list (heap w) a"
proof (cases "array_make_room w a count elements (count * aelem_size a)")
  case (fields f ep c w1)
  have "(a' = Some a \<and> w' = w) \<or> (0 < count \<and> f \<noteq> PROVEN_OK \<and> a' = Some c \<and> w' = w1)"
    using call bad
    by (auto simp: proven_array_extend_def ckd_simps fields split: if_splits option.splits)
  then show ?thesis
    using array_make_room_fail [OF wf _ fields] array_step_refl [OF wf] by auto
qed

section \<open>Removal\<close>

lemma array_out_write:
  assumes wf: "array_wf inv al w B a"
    and out: "array_target managed w B a out (length x)"
  defines "h1 \<equiv> (if out \<noteq> 0 then mem_write (heap w) out x else heap w)"
  shows "array_wf inv al (w\<lparr>heap := h1\<rparr>) B a" "array_list h1 a = array_list (heap w) a"
    "managed (w\<lparr>heap := h1\<rparr>) = managed w"
    "z \<notin> span (out, length x) \<Longrightarrow> h1 z = heap w z"
    "out \<noteq> 0 \<Longrightarrow> span (out, length x) \<inter> span (adata a, acap a * aelem_size a) = {}"
proof -
  show "managed (w\<lparr>heap := h1\<rparr>) = managed w" by (rule managed_heap)
  show apart: "span (out, length x) \<inter> span (adata a, acap a * aelem_size a) = {}" if "out \<noteq> 0"
  proof (cases "acap a = 0")
    case False
    with out that array_block(4) [OF wf] array_block_apart [OF wf] show ?thesis
      unfolding array_target_def by blast
  qed (simp add: span_def)
  have sub: "span (out, length x) \<subseteq> spans B \<or> span (out, length x) \<inter> managed w = {}" if "out \<noteq> 0"
    using out that spans_mono [of "B - array_blocks a" B] unfolding array_target_def by blast
  have "inv (w\<lparr>heap := h1\<rparr>) B"
    using wf inv_write [OF _ sub] unfolding h1_def array_wf_def by (cases "out = 0") auto
  then show "array_wf inv al (w\<lparr>heap := h1\<rparr>) B a" using wf by (simp add: array_wf_def)
  show "z \<notin> span (out, length x) \<Longrightarrow> h1 z = heap w z" by (simp add: h1_def mem_write_out)
  have v: "proven_array_is_valid (Some a)" using wf by (simp add: array_wf_def)
  show "array_list h1 a = array_list (heap w) a"
  proof (rule array_list_cong)
    fix i assume "i < alen a * aelem_size a"
    then have "adata a + i \<in> span (adata a, acap a * aelem_size a)"
      using array_len_byte [OF v] by simp
    then have "out \<noteq> 0 \<Longrightarrow> adata a + i \<notin> span (out, length x)" using apart by blast
    then show "h1 (adata a + i) = heap w (adata a + i)"
      unfolding h1_def using mem_write_out [of "adata a + i" out x "heap w"] by presburger
  qed simp_all
qed

lemma array_remove_at_ok:
  assumes wf: "array_wf inv al w B a" and k: "index < alen a"
    and out: "array_target managed w B a out (aelem_size a)"
    and call: "proven_array_remove_at (heap w) (Some a) index out = (e, a', h')"
  shows "e = PROVEN_OK" "a' = Some (a\<lparr>alen := alen a - 1\<rparr>)"
    "array_wf inv al (w\<lparr>heap := h'\<rparr>) B (a\<lparr>alen := alen a - 1\<rparr>)"
    "array_list h' (a\<lparr>alen := alen a - 1\<rparr>) =
      take index (array_list (heap w) a) @ drop (Suc index) (array_list (heap w) a)"
    "out \<noteq> 0 \<Longrightarrow> mem_read h' out (aelem_size a) = array_list (heap w) a ! index"
proof -
  let ?s = "aelem_size a" and ?a = "a\<lparr>alen := alen a - 1\<rparr>"
  define x where "x = mem_read (heap w) (adata a + index * ?s) ?s"
  define h1 where "h1 = (if out \<noteq> 0 then mem_write (heap w) out x else heap w)"
  define q where "q = adata a + index * ?s"
  define bs where "bs = mem_read h1 (q + ?s) ((alen a - index - 1) * ?s)"
  have v: "proven_array_is_valid (Some a)" and cap: "0 < acap a"
    using wf k by (auto simp: array_wf_def array_valid_iff)
  have d: "adata a \<noteq> 0" "adata a + acap a * ?s \<le> SIZE_MAX" by (rule array_block [OF wf cap])+
  have ls: "alen a * ?s \<le> acap a * ?s" by (rule array_len_bytes [OF v])
  have ks: "index * ?s + ?s \<le> alen a * ?s" by (rule slot_bound [OF k])
  have "index * ?s + ((alen a - index - 1) * ?s + ?s) = alen a * ?s"
  proof -
    have "alen a = index + Suc (alen a - index - 1)" using k by simp
    then have "alen a * ?s = (index + Suc (alen a - index - 1)) * ?s" by simp
    then show ?thesis by (simp only: add_mult_distrib mult_Suc add.commute)
  qed
  then have ts: "index * ?s + (alen a - index - 1) * ?s + ?s = alen a * ?s" by simp
  have wr: "wrap (index * ?s) = index * ?s" "wrap ((alen a - index - 1) * ?s) = (alen a - index - 1) * ?s"
    using d ls ks ts by (intro wrap_id; linarith)+
  have lx: "length x = ?s" by (simp add: x_def)
  note o = array_out_write [OF wf, of out x, unfolded lx, OF out, folded h1_def]
  have "proven_array_remove_at (heap w) (Some a) index out =
      (PROVEN_OK, Some ?a, mem_write h1 q bs)"
    using v k d by (simp add: proven_array_remove_at_def Let_def wr(1) wr(2) [simplified] h1_def bs_def q_def x_def)
  with call have fin: "e = PROVEN_OK" "a' = Some ?a" "h' = mem_write h1 q bs" by auto
  then show "e = PROVEN_OK" "a' = Some ?a" by auto
  have "index * ?s + (alen a - index - 1) * ?s \<le> acap a * ?s" using ls ts by linarith
  then have inside: "span (q, length bs) \<subseteq> span (adata a, acap a * ?s)"
    by (auto simp: q_def bs_def)
  have st: "array_step inv managed al (w\<lparr>heap := h1\<rparr>) B a (w\<lparr>heap := h1\<rparr>\<lparr>heap := mem_write h1 q bs\<rparr>) ?a"
    using array_step_write [OF array_step_refl [OF o(1)], of q bs "alen a - 1"] inside v
    by (simp add: array_valid_iff le_diff_conv)
  moreover have "B - array_blocks a \<union> array_blocks ?a = B"
    using wf by (auto simp: array_wf_def array_blocks_def)
  ultimately show "array_wf inv al (w\<lparr>heap := h'\<rparr>) B ?a"
    using array_step_wf [OF st] by (simp add: fin)
  show "array_list h' ?a = take index (array_list (heap w) a) @ drop (Suc index) (array_list (heap w) a)"
  proof -
    have "array_list h' ?a = slots (mem_write h1 q bs) (adata a) ?s (alen a - 1)"
      unfolding fin(3) array_list_def by simp
    also have "\<dots> = take index (array_list h1 a) @ drop (Suc index) (array_list h1 a)"
      unfolding q_def bs_def array_list_def by (rule slots_remove [OF k])
    finally show ?thesis by (simp only: o(2))
  qed
  show "mem_read h' out ?s = array_list (heap w) a ! index" if "out \<noteq> 0"
  proof -
    have "mem_read h' out ?s = mem_read h1 out ?s"
    proof (rule mem_read_frame)
      fix z assume "z \<in> span (out, ?s)"
      then have "z \<notin> span (q, length bs)" using o(5) [OF that] inside by blast
      then show "h' z = h1 z" unfolding fin(3) by (rule mem_write_out)
    qed
    then show ?thesis using that k by (simp add: h1_def lx array_list_def x_def)
  qed
qed

lemma array_swap_remove_ok:
  assumes wf: "array_wf inv al w B a" and k: "index < alen a"
    and out: "array_target managed w B a out (aelem_size a)"
    and call: "proven_array_swap_remove (heap w) (Some a) index out = (e, a', h')"
  shows "e = PROVEN_OK" "a' = Some (a\<lparr>alen := alen a - 1\<rparr>)"
    "array_wf inv al (w\<lparr>heap := h'\<rparr>) B (a\<lparr>alen := alen a - 1\<rparr>)"
    "array_list h' (a\<lparr>alen := alen a - 1\<rparr>) =
      butlast ((array_list (heap w) a)[index := last (array_list (heap w) a)])"
    "out \<noteq> 0 \<Longrightarrow> mem_read h' out (aelem_size a) = array_list (heap w) a ! index"
proof -
  let ?s = "aelem_size a" and ?l = "alen a - 1"
  let ?a = "a\<lparr>alen := ?l\<rparr>"
  define x where "x = mem_read (heap w) (adata a + index * ?s) ?s"
  define h1 where "h1 = (if out \<noteq> 0 then mem_write (heap w) out x else heap w)"
  define q where "q = adata a + index * ?s"
  define bs where "bs = (if index \<noteq> ?l then mem_read h1 (adata a + ?l * ?s) ?s else [])"
  have v: "proven_array_is_valid (Some a)" and cap: "0 < acap a"
    using wf k by (auto simp: array_wf_def array_valid_iff)
  have d: "adata a \<noteq> 0" "adata a + acap a * ?s \<le> SIZE_MAX" by (rule array_block [OF wf cap])+
  have ls: "alen a * ?s \<le> acap a * ?s" by (rule array_len_bytes [OF v])
  have ks: "index * ?s + ?s \<le> alen a * ?s" by (rule slot_bound [OF k])
  have ll: "?l * ?s + ?s \<le> alen a * ?s" using k by (intro slot_bound) simp
  have wr: "wrap (index * ?s) = index * ?s" "wrap (?l * ?s) = ?l * ?s"
    using d ls ks ll by (intro wrap_id; linarith)+
  have lx: "length x = ?s" by (simp add: x_def)
  note o = array_out_write [OF wf, of out x, unfolded lx, OF out, folded h1_def]
  have "proven_array_swap_remove (heap w) (Some a) index out =
      (PROVEN_OK, Some ?a, mem_write h1 q bs)"
    using v k d
    by (simp add: proven_array_swap_remove_def Let_def wr(1) wr(2) [simplified] h1_def bs_def q_def x_def)
  with call have fin: "e = PROVEN_OK" "a' = Some ?a" "h' = mem_write h1 q bs" by auto
  then show "e = PROVEN_OK" "a' = Some ?a" by auto
  have "index * ?s + ?s \<le> acap a * ?s" using ls ks by linarith
  then have inside: "span (q, length bs) \<subseteq> span (adata a, acap a * ?s)"
    by (auto simp: q_def bs_def)
  have st: "array_step inv managed al (w\<lparr>heap := h1\<rparr>) B a (w\<lparr>heap := h1\<rparr>\<lparr>heap := mem_write h1 q bs\<rparr>) ?a"
    using array_step_write [OF array_step_refl [OF o(1)], of q bs ?l] inside v
    by (simp add: array_valid_iff le_diff_conv)
  moreover have "B - array_blocks a \<union> array_blocks ?a = B"
    using wf by (auto simp: array_wf_def array_blocks_def)
  ultimately show "array_wf inv al (w\<lparr>heap := h'\<rparr>) B ?a"
    using array_step_wf [OF st] by (simp add: fin)
  define xs where "xs = array_list (heap w) a"
  have xs: "length xs = alen a" "xs = slots h1 (adata a) ?s (alen a)"
    using o(2) by (auto simp: xs_def array_list_def)
  have ne: "xs \<noteq> []" using xs(1) k by auto
  have "slots h' (adata a) ?s (alen a) = xs[index := last xs]"
  proof (cases "index = ?l")
    case True
    then have "xs[index := last xs] = xs" using xs(1) ne k by (simp add: last_conv_nth)
    with True show ?thesis by (simp add: fin(3) bs_def xs(2))
  next
    case False
    then have "bs = last xs"
      using last_conv_nth [OF ne] slots_nth [of ?l "alen a" h1 "adata a" ?s] xs k by (simp add: bs_def)
    moreover have "length bs = ?s" using False by (simp add: bs_def)
    ultimately show ?thesis
      using slots_write_one [OF k, of bs ?s h1 "adata a"] xs(2) by (simp add: fin(3) q_def)
  qed
  then show "array_list h' ?a = butlast (xs[index := last xs])"
    using slots_take [of ?l "alen a" h' "adata a" ?s] xs(1)
    by (simp add: array_list_def butlast_conv_take)
  show "mem_read h' out ?s = xs ! index" if "out \<noteq> 0"
  proof -
    have "mem_read h' out ?s = mem_read h1 out ?s"
    proof (rule mem_read_frame)
      fix z assume "z \<in> span (out, ?s)"
      then have "z \<notin> span (q, length bs)" using o(5) [OF that] inside by blast
      then show "h' z = h1 z" unfolding fin(3) by (rule mem_write_out)
    qed
    then show ?thesis using that k by (simp add: h1_def lx array_list_def x_def xs_def)
  qed
qed

section \<open>Shrinking, looking up, releasing\<close>

lemma array_shorten:
  assumes "array_wf inv al w B a" "n \<le> alen a"
  shows "array_wf inv al w B (a\<lparr>alen := n\<rparr>)" "array_list h (a\<lparr>alen := n\<rparr>) = take n (array_list h a)"
  using assms by (auto simp: array_wf_def array_valid_iff array_blocks_def array_list_def slots_take)

lemma array_pop_ok:
  assumes wf: "array_wf inv al w B a" and k: "0 < alen a"
    and out: "array_target managed w B a out (aelem_size a)"
    and call: "proven_array_pop (heap w) (Some a) out = (e, a', h')"
  shows "e = PROVEN_OK" "a' = Some (a\<lparr>alen := alen a - 1\<rparr>)"
    "array_wf inv al (w\<lparr>heap := h'\<rparr>) B (a\<lparr>alen := alen a - 1\<rparr>)"
    "array_list h' (a\<lparr>alen := alen a - 1\<rparr>) = butlast (array_list (heap w) a)"
    "out \<noteq> 0 \<Longrightarrow> mem_read h' out (aelem_size a) = last (array_list (heap w) a)"
proof -
  let ?s = "aelem_size a" and ?l = "alen a - 1"
  define x where "x = mem_read (heap w) (adata a + ?l * ?s) ?s"
  define h1 where "h1 = (if out \<noteq> 0 then mem_write (heap w) out x else heap w)"
  have v: "proven_array_is_valid (Some a)" and cap: "0 < acap a"
    using wf k by (auto simp: array_wf_def array_valid_iff)
  have d: "adata a \<noteq> 0" "adata a + acap a * ?s \<le> SIZE_MAX" by (rule array_block [OF wf cap])+
  have ll: "?l * ?s + ?s \<le> alen a * ?s" using k by (intro slot_bound) simp
  have "?l * ?s \<le> SIZE_MAX" using ll d array_len_bytes [OF v] by linarith
  then have ck: "ckd_mul ?l ?s = Some (?l * ?s)" by (simp add: ckd_mul_def)
  have lx: "length x = ?s" by (simp add: x_def)
  note o = array_out_write [OF wf, of out x, unfolded lx, OF out, folded h1_def]
  have "proven_array_pop (heap w) (Some a) out = (PROVEN_OK, Some (a\<lparr>alen := ?l\<rparr>), h1)"
    using v k d ck by (simp add: proven_array_pop_def Let_def h1_def x_def)
  with call have fin: "e = PROVEN_OK" "a' = Some (a\<lparr>alen := ?l\<rparr>)" "h' = h1" by auto
  then show "e = PROVEN_OK" "a' = Some (a\<lparr>alen := alen a - 1\<rparr>)" by auto
  show "array_wf inv al (w\<lparr>heap := h'\<rparr>) B (a\<lparr>alen := alen a - 1\<rparr>)"
    using array_shorten(1) [OF o(1), of ?l] by (simp add: fin)
  show "array_list h' (a\<lparr>alen := alen a - 1\<rparr>) = butlast (array_list (heap w) a)"
    using array_shorten(2) [OF o(1), of ?l h1] o(2) by (simp add: fin butlast_conv_take)
  show "mem_read h' out ?s = last (array_list (heap w) a)" if "out \<noteq> 0"
    using that k by (simp add: fin h1_def lx x_def last_conv_nth array_list_def length_greater_0_conv [symmetric]
        del: length_greater_0_conv)
qed

lemma array_truncate_ok:
  assumes wf: "array_wf inv al w B a" and call: "proven_array_truncate (Some a) n = (e, Some a')"
  shows "e = (if n \<le> alen a then PROVEN_OK else PROVEN_ERR_OUT_OF_BOUNDS)" "array_wf inv al w B a'"
    "array_list h a' = (if n \<le> alen a then take n (array_list h a) else array_list h a)"
  using array_shorten(1) [OF wf, of n] array_shorten(2) [OF wf, of n h] wf call
  by (auto simp: proven_array_truncate_def array_wf_def split: if_splits)

lemma array_get_ok:
  assumes wf: "array_wf inv al w B a"
  shows "proven_array_get (Some a) i \<noteq> 0 \<longleftrightarrow> i < alen a"
    "i < alen a \<Longrightarrow> mem_read h (proven_array_get (Some a) i) (aelem_size a) = array_list h a ! i"
    "proven_array_get_mut (Some a) i = proven_array_get (Some a) i"
proof -
  have v: "proven_array_is_valid (Some a)" using wf by (simp add: array_wf_def)
  have "ckd_mul i (aelem_size a) = Some (i * aelem_size a) \<and> adata a \<noteq> 0" if "i < alen a"
  proof -
    have "i < acap a" "0 < acap a" using that v by (auto simp: array_valid_iff)
    then show ?thesis using array_slot_bounds(2) [OF v, of i] array_block(2) [OF wf] by (simp add: ckd_mul_def)
  qed
  then show "proven_array_get (Some a) i \<noteq> 0 \<longleftrightarrow> i < alen a"
    "i < alen a \<Longrightarrow> mem_read h (proven_array_get (Some a) i) (aelem_size a) = array_list h a ! i"
    using v by (auto simp: proven_array_get_def array_list_def)
  show "proven_array_get_mut (Some a) i = proven_array_get (Some a) i"
    by (simp add: proven_array_get_def proven_array_get_mut_def)
qed

lemma array_create_ok:
  assumes "inv w B" "proven_array_create w al cap es align = (Inr a, w')"
  shows "array_wf inv al w' (B \<union> array_blocks a) a" "array_list (heap w') a = []"
    "acap a = cap" "aelem_size a = es" "managed w' = managed w"
    "x \<in> spans B \<or> x \<notin> managed w \<Longrightarrow> heap w' x = heap w x"
proof -
  have g: "es \<noteq> 0" "proven_is_pow2 align" using assms(2) by (auto simp: proven_array_create_def split: if_splits)
  have "array_wf inv al w' (B \<union> array_blocks a) a \<and> array_list (heap w') a = [] \<and> acap a = cap \<and>
    aelem_size a = es \<and> managed w' = managed w \<and> (x \<in> spans B \<or> x \<notin> managed w \<longrightarrow> heap w' x = heap w x)"
  proof (cases "cap = 0")
    case True
    with assms g al_valid show ?thesis
      by (auto simp: proven_array_create_def array_wf_def array_valid_iff array_blocks_def array_list_def)
  next
    case False
    then obtain r where c: "cap * es \<le> SIZE_MAX" "alloc_call al w (cap * es) align = (r, w')"
      "rerr r = PROVEN_OK" "a = \<lparr>aalloc = al, adata = ptr (rval r), alen = 0, acap = cap,
                                 aelem_size = es, aalign = align\<rparr>"
      using assms(2) by (auto simp: proven_array_create_def ckd_simps split: if_splits option.splits prod.splits)
    show ?thesis
      using alloc_ok [OF assms(1) c(2,3)] alloc_frame [OF assms(1) c(2)] c g False al_valid
      by (auto simp: array_wf_def array_valid_iff array_blocks_def array_list_def)
  qed
  then show "array_wf inv al w' (B \<union> array_blocks a) a" "array_list (heap w') a = []"
    "acap a = cap" "aelem_size a = es" "managed w' = managed w"
    "x \<in> spans B \<or> x \<notin> managed w \<Longrightarrow> heap w' x = heap w x" by blast+
qed

lemma array_reserve_ok:
  assumes wf: "array_wf inv al w B a" and call: "proven_array_reserve w (Some a) n = (e, a', w')"
  shows "\<exists>b. a' = Some b \<and> array_step inv managed al w B a w' b \<and>
    array_list (heap w') b = array_list (heap w) a \<and>
    (if e = PROVEN_OK then n \<le> acap b else b = a)"
proof (cases "acap a < n \<and> n * aelem_size a \<le> SIZE_MAX")
  case False
  with array_step_refl [OF wf] call wf show ?thesis
    by (auto simp: proven_array_reserve_def array_wf_def ckd_mul_def Let_def split: if_splits)
next
  case True
  let ?call = "realloc_call al w (adata a) (acap a * aelem_size a) (n * aelem_size a) (aalign a)"
  have v: "proven_array_is_valid (Some a)" and al: "aalloc a = al" using wf by (auto simp: array_wf_def)
  then have pos: "0 < n * aelem_size a" "acap a * aelem_size a \<le> SIZE_MAX"
    using True by (auto simp: array_valid_iff)
  obtain r w1 where r: "?call = (r, w1)" by (cases ?call)
  with call v al True pos have fin: "e = rerr r" "w' = w1"
    "a' = Some (if rerr r = PROVEN_OK then a\<lparr>adata := ptr (rval r), acap := n\<rparr> else a)"
    by (auto simp: proven_array_reserve_def Let_def ckd_mul_def split: if_splits)
  show ?thesis
    using array_realloc(1,3) [OF wf _ _ r] array_realloc_fail [OF wf pos(1) r] True fin by auto
qed

lemma array_destroy_ok:
  assumes wf: "array_wf inv al w B a" and call: "proven_array_destroy w (Some a) = (a', w')"
  shows "inv w' (B - array_blocks a)" "\<not> proven_array_is_valid a'" "managed w' = managed w"
    "x \<in> spans (B - array_blocks a) \<or> x \<notin> managed w \<Longrightarrow> heap w' x = heap w x"
proof -
  have al: "aalloc a = al" "proven_alloc_is_valid al" "inv w B" using wf al_valid by (auto simp: array_wf_def)
  have "inv w' (B - array_blocks a) \<and> \<not> proven_array_is_valid a' \<and> managed w' = managed w \<and>
    (x \<in> spans (B - array_blocks a) \<or> x \<notin> managed w \<longrightarrow> heap w' x = heap w x)"
  proof (cases "acap a = 0")
    case True
    with wf call al show ?thesis
      by (auto simp: proven_array_destroy_def array_wf_def array_blocks_def proven_array_is_valid_def)
  next
    case False
    then have b: "(adata a, acap a * aelem_size a) \<in> B" "adata a \<noteq> 0" using array_block [OF wf] by auto
    show ?thesis
      using call al b False free_ok [OF al(3) b(1)] free_frame [OF al(3) b(1), of x]
      by (auto simp: proven_array_destroy_def array_blocks_def proven_array_is_valid_def
          proven_alloc_is_valid_def)
  qed
  then show "inv w' (B - array_blocks a)" "\<not> proven_array_is_valid a'" "managed w' = managed w"
    "x \<in> spans (B - array_blocks a) \<or> x \<notin> managed w \<Longrightarrow> heap w' x = heap w x" by blast+
qed

text \<open>With room for the elements, the growing operations cannot fail.\<close>

lemma array_make_room_fits:
  assumes wf: "array_wf inv al w B a" and src: "array_source managed w B a src n" and n: "0 < n"
    and room: "alen a + extra \<le> acap a"
  shows "array_make_room w a extra src n = (PROVEN_OK, src, a, w)"
proof -
  have v: "proven_array_is_valid (Some a)" using wf by (simp add: array_wf_def)
  then have cap: "acap a \<le> SIZE_MAX" "acap a * aelem_size a \<le> SIZE_MAX"
    using le_trans [of "acap a" "acap a * aelem_size a" SIZE_MAX] by (auto simp: array_valid_iff)
  note si = array_source_inside(3) [OF wf src n]
  have "src \<noteq> 0" using src by (simp add: array_source_def)
  with si room cap n show ?thesis
    by (auto simp: array_make_room_def ckd_add_def ckd_mul_def Let_def)
qed

lemma array_insert_fits:
  assumes wf: "array_wf inv al w B a" and src: "array_source managed w B a element (aelem_size a)"
    and room: "alen a < acap a" "index \<le> alen a"
  shows "fst (proven_array_insert w (Some a) index element) = PROVEN_OK"
proof -
  have v: "proven_array_is_valid (Some a)" and n: "0 < aelem_size a" and e: "element \<noteq> 0"
    using wf src by (auto simp: array_wf_def array_valid_iff array_source_def)
  have "alen a + 1 \<le> acap a" using room by simp
  from array_make_room_fits [OF wf src n this] v e room(2) show ?thesis
    by (simp add: proven_array_insert_def Let_def)
qed

lemma array_extend_fits:
  assumes wf: "array_wf inv al w B a" and src: "array_source managed w B a elements (count * aelem_size a)"
    and room: "alen a + count \<le> acap a"
  shows "fst (proven_array_extend w (Some a) elements count) = PROVEN_OK"
proof (cases "count = 0")
  case True
  with wf show ?thesis by (simp add: proven_array_extend_def array_wf_def)
next
  case False
  have v: "proven_array_is_valid (Some a)" and s: "0 < aelem_size a" and e: "elements \<noteq> 0"
    using wf src by (auto simp: array_wf_def array_valid_iff array_source_def)
  have "count * aelem_size a \<le> acap a * aelem_size a" using room by (intro slot_mono) simp
  then have "count * aelem_size a \<le> SIZE_MAX" using v unfolding array_valid_iff by linarith
  then have "ckd_mul count (aelem_size a) = Some (count * aelem_size a)" by (simp add: ckd_mul_def)
  with array_make_room_fits [OF wf src _ room] s v e False show ?thesis
    by (simp add: proven_array_extend_def)
qed

end

section \<open>Properties, over the arena\<close>

text \<open>A three-element array of two-byte elements, in the first block of the demonstration arena.\<close>

definition demo_array :: "proven_arena proven_array" where
  "demo_array = \<lparr>aalloc = arena_al, adata = 4096, alen = 3, acap = 8, aelem_size = 2, aalign = 2\<rparr>"

lemma demo_array_wf: "array_wf arena_inv arena_al demo_used {(4096, 16), (4112, 8)} demo_array"
  using demo_used_inv
  by (simp add: array_wf_def array_valid_iff array_blocks_def demo_array_def arena_eval)

lemma demo_used_managed: "arena_managed demo_used = {4096..<5120}"
  by (simp add: arena_managed_def demo_used_def demo_world_def proven_arena_create_def span_def)

text \<open>The second element of the array itself, and a location on the stack.\<close>

lemma demo_array_source: "array_source arena_managed demo_used {(4096, 16), (4112, 8)} demo_array 4098 2"
  by (auto simp: array_source_def demo_array_def SIZE_MAX_eval)

lemma demo_array_target: "array_target arena_managed demo_used {(4096, 16), (4112, 8)} demo_array 16 2"
  by (auto simp: array_target_def demo_used_managed)

lemma demo_array_list: "array_list (heap demo_used) demo_array = [[0, 1], [2, 3], [4, 5]]"
proof -
  have "slots (heap demo_used) 4096 2 3 = [[0, 1], [2, 3], [4, 5]]"
    by (simp add: slots_numeral slots_Suc mem_read_numeral mem_read_Suc demo_used_def demo_world_def)
  then show ?thesis by (simp add: array_list_def demo_array_def)
qed

lemma demo_array_fields: "alen demo_array = 3" "acap demo_array = 8" "aelem_size demo_array = 2"
  by (simp_all add: demo_array_def)

text \<open>pushing an element. On success the list of elements grows by the bytes the element
  pointer led to before the call, even when it led into the array's own storage and growing moved
  that storage; on failure the array is the same and its elements are kept, and failure needs a
  full array. In both cases the invariant holds and no other block and no byte outside the
  allocator's memory changes.\<close>

theorem array_push_refines:
  assumes "array_wf arena_inv arena_al w B a" "array_source arena_managed w B a element (aelem_size a)"
    "proven_array_push w (Some a) element = (e, a', w')"
  shows "\<exists>b. a' = Some b \<and> array_step arena_inv arena_managed arena_al w B a w' b \<and>
    (if e = PROVEN_OK
     then array_list (heap w') b = array_list (heap w) a @ [mem_read (heap w) element (aelem_size a)]
     else b = a \<and> array_list (heap w') a = array_list (heap w) a \<and> acap a \<le> alen a)"
  using arena.array_push_ok [OF assms(1,2)] arena.array_push_fail [OF assms] assms(3)
  by (cases "e = PROVEN_OK") auto

theorem array_push_refines_witness:
  "\<exists>b w'. proven_array_push demo_used (Some demo_array) 4098 = (PROVEN_OK, Some b, w') \<and>
    array_list (heap w') b = [[0, 1], [2, 3], [4, 5], [2, 3]]"
proof -
  obtain e a' w' where c: "proven_array_push demo_used (Some demo_array) 4098 = (e, a', w')"
    by (cases "proven_array_push demo_used (Some demo_array) 4098")
  have "mem_read (heap demo_used) 4098 2 = [2, 3]"
    by (simp add: mem_read_numeral mem_read_Suc demo_used_def demo_world_def)
  with array_push_refines [OF demo_array_wf _ c] demo_array_source demo_array_list c show ?thesis
    by (auto simp: demo_array_fields split: if_splits)
qed



text \<open>appending a run of elements. On success the list grows by the elements read from the
  source before the call, also when the source is a run of the array's own elements; a failure
  keeps the array and its elements, and with room it succeeds.\<close>

theorem array_extend_refines:
  assumes "array_wf arena_inv arena_al w B a"
    "array_source arena_managed w B a elements (count * aelem_size a)"
    "proven_array_extend w (Some a) elements count = (e, a', w')"
  shows "\<exists>b. a' = Some b \<and> array_step arena_inv arena_managed arena_al w B a w' b \<and>
    (if e = PROVEN_OK
     then array_list (heap w') b = array_list (heap w) a @ slots (heap w) elements (aelem_size a) count
     else b = a \<and> array_list (heap w') a = array_list (heap w) a \<and> acap a < alen a + count)"
  using arena.array_extend_ok [OF assms(1,2)] arena.array_extend_fail [OF assms(1,3)]
    arena.array_extend_fits [OF assms(1,2)] assms(3)
  by (cases "e = PROVEN_OK") (auto simp: not_le [symmetric])

theorem array_extend_refines_witness:
  "\<exists>b w'. proven_array_extend demo_used (Some demo_array) 4098 1 = (PROVEN_OK, Some b, w') \<and>
    array_list (heap w') b = [[0, 1], [2, 3], [4, 5], [2, 3]]"
proof -
  obtain e a' w' where c: "proven_array_extend demo_used (Some demo_array) 4098 1 = (e, a', w')"
    by (cases "proven_array_extend demo_used (Some demo_array) 4098 1")
  have "slots (heap demo_used) 4098 2 (Suc 0) = [[2, 3]]"
    by (simp add: slots_Suc mem_read_numeral mem_read_Suc demo_used_def demo_world_def)
  with array_extend_refines [OF demo_array_wf _ c] demo_array_source demo_array_list c show ?thesis
    by (auto simp: demo_array_fields split: if_splits)
qed

text \<open>removing the element at an index, keeping the order of the others. In range it succeeds,
  closes the gap, and hands the removed bytes out; out of range nothing changes.\<close>

theorem array_remove_at_refines:
  assumes "array_wf arena_inv arena_al w B a" "array_target arena_managed w B a out (aelem_size a)"
    "proven_array_remove_at (heap w) (Some a) index out = (e, a', h')"
  shows "\<exists>b. a' = Some b \<and> array_wf arena_inv arena_al (w\<lparr>heap := h'\<rparr>) B b \<and>
    (if index < alen a
     then e = PROVEN_OK \<and>
       array_list h' b = take index (array_list (heap w) a) @ drop (Suc index) (array_list (heap w) a) \<and>
       (out \<noteq> 0 \<longrightarrow> mem_read h' out (aelem_size a) = array_list (heap w) a ! index)
     else e = PROVEN_ERR_OUT_OF_BOUNDS \<and> b = a \<and> h' = heap w)"
proof (cases "index < alen a")
  case True
  from arena.array_remove_at_ok [OF assms(1) True assms(2,3)] True show ?thesis by auto
next
  case False
  with assms show ?thesis by (auto simp: proven_array_remove_at_def array_wf_def)
qed

theorem array_remove_at_refines_witness:
  "\<exists>b h'. proven_array_remove_at (heap demo_used) (Some demo_array) 1 16 = (PROVEN_OK, Some b, h') \<and>
    array_list h' b = [[0, 1], [4, 5]] \<and> mem_read h' 16 2 = [2, 3]"
proof -
  obtain e a' h' where c: "proven_array_remove_at (heap demo_used) (Some demo_array) 1 16 = (e, a', h')"
    by (cases "proven_array_remove_at (heap demo_used) (Some demo_array) 1 16")
  with array_remove_at_refines [OF demo_array_wf _ c] demo_array_target demo_array_list show ?thesis
    by (auto simp: demo_array_fields)
qed

text \<open>removing an element by moving the last one into its place. In range the list is the old
  one with the last element at the index and its end dropped, and the removed bytes are handed out;
  out of range nothing changes.\<close>

theorem array_swap_remove_refines:
  assumes "array_wf arena_inv arena_al w B a" "array_target arena_managed w B a out (aelem_size a)"
    "proven_array_swap_remove (heap w) (Some a) index out = (e, a', h')"
  shows "\<exists>b. a' = Some b \<and> array_wf arena_inv arena_al (w\<lparr>heap := h'\<rparr>) B b \<and>
    (if index < alen a
     then e = PROVEN_OK \<and>
       array_list h' b = butlast ((array_list (heap w) a)[index := last (array_list (heap w) a)]) \<and>
       (out \<noteq> 0 \<longrightarrow> mem_read h' out (aelem_size a) = array_list (heap w) a ! index)
     else e = PROVEN_ERR_OUT_OF_BOUNDS \<and> b = a \<and> h' = heap w)"
proof (cases "index < alen a")
  case True
  from arena.array_swap_remove_ok [OF assms(1) True assms(2,3)] True show ?thesis by auto
next
  case False
  with assms show ?thesis by (auto simp: proven_array_swap_remove_def array_wf_def)
qed

theorem array_swap_remove_refines_witness:
  "\<exists>b h'. proven_array_swap_remove (heap demo_used) (Some demo_array) 0 16 = (PROVEN_OK, Some b, h') \<and>
    array_list h' b = [[4, 5], [2, 3]] \<and> mem_read h' 16 2 = [0, 1]"
proof -
  obtain e a' h' where c: "proven_array_swap_remove (heap demo_used) (Some demo_array) 0 16 = (e, a', h')"
    by (cases "proven_array_swap_remove (heap demo_used) (Some demo_array) 0 16")
  with array_swap_remove_refines [OF demo_array_wf _ c] demo_array_target demo_array_list show ?thesis
    by (auto simp: demo_array_fields)
qed

end
