(* ===== verification/Views.thy ===== *)
theory Views
  imports Base
begin

text \<open>
  Views and output buffers of the codecs (\<^verbatim>\<open>encode.h\<close>, \<^verbatim>\<open>utf.h\<close>, \<^verbatim>\<open>url.h\<close> and the protocol
  parsers). A view is a pointer and a number of elements: either a null pointer with some size, or
  the elements themselves. An output buffer is the same, its size being the capacity. The codecs
  read their input and write a prefix of the output; input and output do not overlap.
\<close>

datatype 'e view =
    Null nat
  | At "'e list"

fun view_size :: "'e view \<Rightarrow> nat" where
  "view_size (Null n) = n"
| "view_size (At xs) = length xs"

fun view_null :: "'e view \<Rightarrow> bool" where
  "view_null (Null n) = True"
| "view_null (At xs) = False"

fun view_data :: "'e view \<Rightarrow> 'e list" where
  "view_data (Null n) = []"
| "view_data (At xs) = xs"

text \<open>Storing a run at the front of a buffer. Every caller has compared its length first.\<close>

fun store :: "'e list \<Rightarrow> 'e view \<Rightarrow> 'e view" where
  "store bs (Null n) = Null n"
| "store bs (At xs) = At (bs @ drop (length bs) xs)"

abbreviation asc :: "char \<Rightarrow> byte" where
  "asc c \<equiv> of_char c"

definition ascii :: "string \<Rightarrow> byte list" where
  "ascii s = map of_char s"

lemma view_size_store [simp]: "length bs \<le> view_size out \<Longrightarrow> view_size (store bs out) = view_size out"
  by (cases out) auto

lemma view_data_store [simp]: "\<not> view_null out \<Longrightarrow> view_data (store bs out) = bs @ drop (length bs) (view_data out)"
  by (cases out) auto

lemma view_null_store [simp]: "view_null (store bs out) = view_null out"
  by (cases out) auto

lemma take_view_data_store: "\<not> view_null out \<Longrightarrow> take (length bs) (view_data (store bs out)) = bs"
  by (cases out) auto

lemma view_null_data [simp]: "view_null v \<Longrightarrow> view_data v = []"
  by (cases v) auto

lemma view_size_data: "\<not> view_null v \<Longrightarrow> view_size v = length (view_data v)"
  by (cases v) auto

end
