(* ===== verification/Encode.thy ===== *)
theory Encode
  imports Views
begin

text \<open>
  Hex and Base64 of \<^verbatim>\<open>src/proven/encode.c\<close>. A decoder's value table answers \<open>None\<close> where the C
  function answers -1. Each function returns its error, the count written through
  \<^verbatim>\<open>written_out\<close> and the output buffer after the call.
\<close>

type_synonym codec = "proven_err \<times> nat \<times> byte view"

section \<open>Hex\<close>

definition HEX_DIGITS :: "byte list" where
  "HEX_DIGITS = ascii ''0123456789abcdef''"

definition hex_value :: "byte \<Rightarrow> byte option" where
  "hex_value c =
    (if asc CHR ''0'' \<le> c \<and> c \<le> asc CHR ''9'' then Some (c - asc CHR ''0'')
     else if asc CHR ''a'' \<le> c \<and> c \<le> asc CHR ''f'' then Some (c - asc CHR ''a'' + 10)
     else if asc CHR ''A'' \<le> c \<and> c \<le> asc CHR ''F'' then Some (c - asc CHR ''A'' + 10)
     else None)"

definition hex_exact_size :: "nat \<Rightarrow> nat option" where
  "hex_exact_size n = ckd_mul n 2"

definition proven_hex_encoded_size :: "nat \<Rightarrow> nat" where
  "proven_hex_encoded_size n = (case hex_exact_size n of Some need \<Rightarrow> need | None \<Rightarrow> SIZE_MAX)"

definition proven_hex_decoded_size :: "nat \<Rightarrow> nat" where
  "proven_hex_decoded_size n = n div 2"

fun hex_out :: "byte list \<Rightarrow> byte list" where
  "hex_out [] = []"
| "hex_out (b # bs) =
    HEX_DIGITS ! unat (drop_bit 4 b) # HEX_DIGITS ! unat (b AND 0x0F) # hex_out bs"

definition proven_hex_encode :: "byte view \<Rightarrow> byte view \<Rightarrow> codec" where
  "proven_hex_encode data out =
    (if view_size data > 0 \<and> view_null data then (PROVEN_ERR_INVALID_ARG, 0, out)
     else if view_size out > 0 \<and> view_null out then (PROVEN_ERR_INVALID_ARG, 0, out)
     else case hex_exact_size (view_size data) of
       None \<Rightarrow> (PROVEN_ERR_OVERFLOW, 0, out)
     | Some need \<Rightarrow>
         if need > view_size out then (PROVEN_ERR_OUT_OF_BOUNDS, 0, out)
         else (PROVEN_OK, need, store (hex_out (view_data data)) out))"

fun hex_in :: "byte list \<Rightarrow> byte list" where
  "hex_in (a # b # cs) = (push_bit 4 (the (hex_value a)) OR the (hex_value b)) # hex_in cs"
| "hex_in _ = []"

definition proven_hex_decode :: "byte view \<Rightarrow> byte view \<Rightarrow> codec" where
  "proven_hex_decode text out =
    (if view_size text > 0 \<and> view_null text then (PROVEN_ERR_INVALID_ARG, 0, out)
     else if view_size out > 0 \<and> view_null out then (PROVEN_ERR_INVALID_ARG, 0, out)
     else if view_size text mod 2 \<noteq> 0 then (PROVEN_ERR_INVALID_ENCODING, 0, out)
     else let need = view_size text div 2 in
     if need > view_size out then (PROVEN_ERR_OUT_OF_BOUNDS, 0, out)
     else if \<exists>c \<in> set (view_data text). hex_value c = None then (PROVEN_ERR_INVALID_ENCODING, 0, out)
     else (PROVEN_OK, need, store (hex_in (view_data text)) out))"

section \<open>Base64\<close>

definition B64_STD :: "byte list" where
  "B64_STD = ascii ''ABCDEFGHIJKLMNOPQRSTUVWXYZabcdefghijklmnopqrstuvwxyz0123456789+/''"

definition B64_URL :: "byte list" where
  "B64_URL = ascii ''ABCDEFGHIJKLMNOPQRSTUVWXYZabcdefghijklmnopqrstuvwxyz0123456789-_''"

definition b64_value :: "byte \<Rightarrow> 32 word option" where
  "b64_value c =
    (if asc CHR ''A'' \<le> c \<and> c \<le> asc CHR ''Z'' then Some (ucast (c - asc CHR ''A''))
     else if asc CHR ''a'' \<le> c \<and> c \<le> asc CHR ''z'' then Some (ucast (c - asc CHR ''a'') + 26)
     else if asc CHR ''0'' \<le> c \<and> c \<le> asc CHR ''9'' then Some (ucast (c - asc CHR ''0'') + 52)
     else if c = asc CHR ''+'' \<or> c = asc CHR ''-'' then Some 62
     else if c = asc CHR ''/'' \<or> c = asc CHR ''_'' then Some 63
     else None)"

definition base64_exact_size :: "nat \<Rightarrow> bool \<Rightarrow> nat option" where
  "base64_exact_size n pad =
    (let full = n div 3; rem = n mod 3 in
     case ckd_mul full 4 of None \<Rightarrow> None
     | Some need \<Rightarrow>
         ckd_add need (if rem = 1 then (if pad then 4 else 2)
                       else if rem = 2 then (if pad then 4 else 3) else 0))"

definition proven_base64_encoded_size :: "nat \<Rightarrow> nat" where
  "proven_base64_encoded_size n = (case base64_exact_size n True of Some need \<Rightarrow> need | None \<Rightarrow> SIZE_MAX)"

definition proven_base64_decoded_size :: "nat \<Rightarrow> nat" where
  "proven_base64_decoded_size n = (n div 4) * 3 + (if n mod 4 \<noteq> 0 then 3 else 0)"

definition b64_char :: "byte list \<Rightarrow> 32 word \<Rightarrow> nat \<Rightarrow> byte" where
  "b64_char alphabet v k = alphabet ! unat (drop_bit k v AND 0x3F)"

text \<open>The whole groups, then the tail of one or two bytes.\<close>

fun b64_out :: "byte list \<Rightarrow> bool \<Rightarrow> byte list \<Rightarrow> byte list" where
  "b64_out al pad (a # b # c # rest) =
    (let v = push_bit 16 (ucast a) OR push_bit 8 (ucast b) OR ucast c :: 32 word
     in [b64_char al v 18, b64_char al v 12, b64_char al v 6, b64_char al v 0] @ b64_out al pad rest)"
| "b64_out al pad [a, b] =
    (let v = push_bit 16 (ucast a) OR push_bit 8 (ucast b) :: 32 word
     in [b64_char al v 18, b64_char al v 12, b64_char al v 6] @ (if pad then [asc CHR ''=''] else []))"
| "b64_out al pad [a] =
    (let v = push_bit 16 (ucast a) :: 32 word
     in [b64_char al v 18, b64_char al v 12] @ (if pad then [asc CHR ''='', asc CHR ''=''] else []))"
| "b64_out al pad [] = []"

definition base64_encode_impl :: "byte list \<Rightarrow> bool \<Rightarrow> byte view \<Rightarrow> byte view \<Rightarrow> codec" where
  "base64_encode_impl alphabet pad data out =
    (if view_size data > 0 \<and> view_null data then (PROVEN_ERR_INVALID_ARG, 0, out)
     else if view_size out > 0 \<and> view_null out then (PROVEN_ERR_INVALID_ARG, 0, out)
     else case base64_exact_size (view_size data) pad of
       None \<Rightarrow> (PROVEN_ERR_OVERFLOW, 0, out)
     | Some need \<Rightarrow>
         if need > view_size out then (PROVEN_ERR_OUT_OF_BOUNDS, 0, out)
         else let text = b64_out alphabet pad (view_data data)
              in (PROVEN_OK, length text, store text out))"

definition proven_base64_encode :: "byte view \<Rightarrow> byte view \<Rightarrow> codec" where
  "proven_base64_encode = base64_encode_impl B64_STD True"

definition proven_base64url_encode :: "byte view \<Rightarrow> byte view \<Rightarrow> codec" where
  "proven_base64url_encode = base64_encode_impl B64_URL False"

abbreviation b64_val :: "byte \<Rightarrow> 32 word" where
  "b64_val c \<equiv> the (b64_value c)"

fun b64_in :: "byte list \<Rightarrow> byte list" where
  "b64_in (c0 # c1 # c2 # c3 # rest) =
    (let v = push_bit 18 (b64_val c0) OR push_bit 12 (b64_val c1) OR push_bit 6 (b64_val c2) OR b64_val c3
     in [ucast (drop_bit 16 v), ucast (drop_bit 8 v), ucast v] @ b64_in rest)"
| "b64_in [c0, c1, c2] =
    (let v = push_bit 18 (b64_val c0) OR push_bit 12 (b64_val c1) OR push_bit 6 (b64_val c2)
     in [ucast (drop_bit 16 v), ucast (drop_bit 8 v)])"
| "b64_in [c0, c1] =
    (let v = push_bit 18 (b64_val c0) OR push_bit 12 (b64_val c1) in [ucast (drop_bit 16 v)])"
| "b64_in _ = []"

definition base64_out_len :: "nat \<Rightarrow> nat" where
  "base64_out_len n = (n div 4) * 3 + (if n mod 4 = 2 then 1 else if n mod 4 = 3 then 2 else 0)"

definition proven_base64_decode :: "byte view \<Rightarrow> byte view \<Rightarrow> codec" where
  "proven_base64_decode text out =
    (if view_size text > 0 \<and> view_null text then (PROVEN_ERR_INVALID_ARG, 0, out)
     else if view_size out > 0 \<and> view_null out then (PROVEN_ERR_INVALID_ARG, 0, out)
     else let pad = length (takeWhile (\<lambda>c. c = asc CHR ''='') (rev (view_data text)));
              n = view_size text - pad;
              body = take n (view_data text);
              rem = n mod 4;
              out_len = base64_out_len n in
     if pad > 2 then (PROVEN_ERR_INVALID_ENCODING, 0, out)
     else if pad > 0 \<and> view_size text mod 4 \<noteq> 0 then (PROVEN_ERR_INVALID_ENCODING, 0, out)
     else if \<exists>c \<in> set body. b64_value c = None then (PROVEN_ERR_INVALID_ENCODING, 0, out)
     else if rem = 1 then (PROVEN_ERR_INVALID_ENCODING, 0, out)
     else if out_len > view_size out then (PROVEN_ERR_OUT_OF_BOUNDS, 0, out)
     else let bytes = b64_in body in (PROVEN_OK, length bytes, store bytes out))"

section \<open>Hex round trip\<close>

lemma hex_digit_value:
  assumes "k < 16"
  shows "hex_value (HEX_DIGITS ! k) = Some (of_nat k)"
proof -
  have "map hex_value HEX_DIGITS = map (\<lambda>k. Some (of_nat k)) [0..<16]" by code_simp
  then have "map hex_value HEX_DIGITS ! k = Some (of_nat k)" "length HEX_DIGITS = 16"
    using assms by (simp, metis length_map length_upt diff_zero)
  then show ?thesis using assms by simp
qed

lemma mask_nibble: "(0x0F :: byte) = mask 4" "(0x3F :: 32 word) = mask 6"
  by (simp_all add: mask_eq_exp_minus_1)

lemma unat_and_mask: "unat (w AND mask k :: 'a::len word) < 2 ^ k"
proof -
  have "w AND mask k = take_bit k w" by (simp add: take_bit_eq_mask)
  then show ?thesis by (simp add: unsigned_take_bit_eq)
qed

lemma nibble_bounds: "unat (drop_bit 4 (b :: byte)) < 16" "unat (b AND 0x0F) < 16"
proof -
  show "unat (b AND 0x0F) < 16" using unat_and_mask [of b 4] by (simp add: mask_nibble)
  have "unat b < 256" using unsigned_less [of b, where ?'a = nat] by simp
  then have "drop_bit 4 (unat b) < 16" by (simp add: drop_bit_eq_div)
  then show "unat (drop_bit 4 (b :: byte)) < 16" by (simp only: unat_drop_bit_eq)
qed

lemma nibble_join: "push_bit 4 (drop_bit 4 b) OR (b AND 0x0F) = (b :: byte)"
  unfolding mask_nibble by (rule bit_eqI) (auto simp: bit_simps)

lemma length_hex_out [simp]: "length (hex_out bs) = 2 * length bs"
  by (induction bs) auto

lemma hex_in_out: "hex_in (hex_out bs) = bs"
  by (induction bs) (simp_all add: hex_digit_value nibble_bounds nibble_join)

lemma hex_out_values: "c \<in> set (hex_out bs) \<Longrightarrow> hex_value c \<noteq> None"
  by (induction bs) (auto simp: hex_digit_value nibble_bounds)

lemma hex_encode_ok:
  assumes "\<not> view_null data" "\<not> view_null out" "proven_hex_encoded_size (view_size data) \<le> view_size out"
    "2 * view_size data \<le> SIZE_MAX"
  shows "proven_hex_encode data out =
    (PROVEN_OK, 2 * view_size data, store (hex_out (view_data data)) out)"
  using assms
  by (simp add: proven_hex_encode_def proven_hex_encoded_size_def hex_exact_size_def ckd_mul_def mult.commute)

section \<open>Base64 round trip\<close>

lemma induct_list_by_3 [case_names 1 2 3 4]:
  assumes "\<And>a b c rest. P rest \<Longrightarrow> P (a # b # c # rest)" "\<And>a b. P [a, b]" "\<And>a. P [a]" "P []"
  shows "P (xs :: 'a list)"
proof (induction xs rule: length_induct)
  case (1 xs)
  then show ?case
    using assms by (cases xs; cases "tl xs"; cases "tl (tl xs)") auto
qed


lemma b64_values:
  "map b64_value B64_STD = map (\<lambda>k. Some (of_nat k)) [0..<64]"
  "map b64_value B64_URL = map (\<lambda>k. Some (of_nat k)) [0..<64]"
  by code_simp+

lemma b64_char_value:
  assumes "al = B64_STD \<or> al = B64_URL" "k < 64"
  shows "b64_value (al ! k) = Some (of_nat k)" "al ! k \<noteq> asc CHR ''=''"
proof -
  have m: "map b64_value al = map (\<lambda>k. Some (of_nat k)) [0..<64]" using assms(1) b64_values by auto
  then have "length al = 64" by (metis length_map length_upt diff_zero)
  then have "b64_value (al ! k) = map b64_value al ! k" using assms(2) by simp
  then show v: "b64_value (al ! k) = Some (of_nat k)" unfolding m using assms(2) by simp
  have "b64_value (asc CHR ''='') = None" by code_simp
  with v show "al ! k \<noteq> asc CHR ''=''" by auto
qed

lemma b64_char_back:
  assumes "al = B64_STD \<or> al = B64_URL"
  shows "b64_value (b64_char al v k) = Some (drop_bit k v AND mask 6)"
    "b64_char al v k \<noteq> asc CHR ''=''"
  using b64_char_value [OF assms, of "unat (drop_bit k v AND mask 6)"] unat_and_mask [of "drop_bit k v" 6]
  by (simp_all add: b64_char_def mask_nibble)

lemma sextets:
  fixes v :: "32 word"
  shows "(ucast (drop_bit 16 (push_bit 18 (drop_bit 18 v AND mask 6) OR push_bit 12 (drop_bit 12 v AND mask 6))) :: byte)
      = ucast (drop_bit 16 v)"
    "(ucast (drop_bit 16 (push_bit 18 (drop_bit 18 v AND mask 6) OR push_bit 12 (drop_bit 12 v AND mask 6) OR
      push_bit 6 (drop_bit 6 v AND mask 6))) :: byte) = ucast (drop_bit 16 v)"
    "(ucast (drop_bit 8 (push_bit 18 (drop_bit 18 v AND mask 6) OR push_bit 12 (drop_bit 12 v AND mask 6) OR
      push_bit 6 (drop_bit 6 v AND mask 6))) :: byte) = ucast (drop_bit 8 v)"
    "(push_bit 18 (drop_bit 18 v AND mask 6) OR push_bit 12 (drop_bit 12 v AND mask 6) OR
      push_bit 6 (drop_bit 6 v AND mask 6) OR (drop_bit 0 v AND mask 6)) = v AND mask 24"
  subgoal by (rule bit_eqI) (auto simp: bit_simps)
  subgoal by (rule bit_eqI) (auto simp: bit_simps)
  subgoal by (rule bit_eqI) (auto simp: bit_simps)
  subgoal
  proof (rule bit_eqI)
    fix n
    show "bit (push_bit 18 (drop_bit 18 v AND mask 6) OR push_bit 12 (drop_bit 12 v AND mask 6) OR
      push_bit 6 (drop_bit 6 v AND mask 6) OR (drop_bit 0 v AND mask 6)) n = bit (v AND mask 24) n"
      by (cases "n < 6"; cases "n < 12"; cases "n < 18"; cases "n < 24") (auto simp: bit_simps)
  qed
  done

lemma octets:
  fixes a b c :: byte
  defines "v \<equiv> push_bit 16 (ucast a) OR push_bit 8 (ucast b) OR ucast c :: 32 word"
  shows "(ucast (drop_bit 16 v) :: byte) = a" "(ucast (drop_bit 8 v) :: byte) = b" "(ucast v :: byte) = c"
    "v AND mask 24 = v"
  unfolding v_def
  subgoal by (rule bit_eqI) (auto simp: bit_simps dest: bit_imp_le_length)
  subgoal by (rule bit_eqI) (auto simp: bit_simps dest: bit_imp_le_length)
  subgoal by (rule bit_eqI) (auto simp: bit_simps dest: bit_imp_le_length)
  subgoal by (rule bit_eqI) (auto simp: bit_simps dest: bit_imp_le_length)
  done

lemma octets_tail:
  fixes a b :: byte
  shows "(ucast (drop_bit 16 (push_bit 16 (ucast a) OR push_bit 8 (ucast b) :: 32 word)) :: byte) = a"
    "(ucast (drop_bit 8 (push_bit 16 (ucast a) OR push_bit 8 (ucast b) :: 32 word)) :: byte) = b"
    "(ucast (drop_bit 16 (push_bit 16 (ucast a) :: 32 word)) :: byte) = a"
  using octets [of a b 0] octets [of a 0 0] by simp_all

text \<open>Decoding what one group of the encoder emits.\<close>

lemma b64_in_chars:
  assumes al: "al = B64_STD \<or> al = B64_URL"
  shows "v AND mask 24 = v \<Longrightarrow>
      b64_in (b64_char al v 18 # b64_char al v 12 # b64_char al v 6 # b64_char al v 0 # rest) =
        ucast (drop_bit 16 v) # ucast (drop_bit 8 v) # ucast v # b64_in rest"
    "b64_in [b64_char al v 18, b64_char al v 12, b64_char al v 6] = [ucast (drop_bit 16 v), ucast (drop_bit 8 v)]"
    "b64_in [b64_char al v 18, b64_char al v 12] = [ucast (drop_bit 16 v)]"
  by (simp_all only: b64_in.simps Let_def b64_char_back(1) [OF al] option.sel sextets append.simps)

lemma b64_in_out:
  assumes al: "al = B64_STD \<or> al = B64_URL"
  shows "b64_in (b64_out al False bs) = bs"
proof (induction bs rule: induct_list_by_3)
  case (1 a b c rest)
  then show ?case
    by (simp only: b64_out.simps Let_def append.simps b64_in_chars(1) [OF al octets(4)] octets)
next
  case (2 a b)
  show ?case by (simp only: b64_out.simps Let_def append.simps if_False append_Nil2 b64_in_chars(2) [OF al] octets_tail)
next
  case (3 a)
  show ?case by (simp only: b64_out.simps Let_def append.simps if_False append_Nil2 b64_in_chars(3) [OF al] octets_tail)
next
  case 4
  show ?case by simp
qed

lemma b64_out_pad:
  "b64_out al pad bs = b64_out al False bs @
    (if pad then replicate ((3 - length bs mod 3) mod 3) (asc CHR ''='') else [])"
  by (induction bs rule: induct_list_by_3) (simp_all add: Let_def numeral_2_eq_2)

lemma length_b64_core:
  "length (b64_out al False bs) = 4 * (length bs div 3) + (if length bs mod 3 = 0 then 0 else length bs mod 3 + 1)"
proof (induction bs rule: induct_list_by_3)
  case (1 a b c rest)
  have "Suc (Suc (Suc n)) mod 3 = n mod 3" "Suc (Suc (Suc n)) div 3 = Suc (n div 3)" for n :: nat
    by presburger+
  with 1 show ?case by (simp add: Let_def)
qed (simp_all add: Let_def)

lemma b64_out_chars:
  assumes al: "al = B64_STD \<or> al = B64_URL" and "c \<in> set (b64_out al False bs)"
  shows "b64_value c \<noteq> None" "c \<noteq> asc CHR ''=''"
proof -
  have "\<forall>c \<in> set (b64_out al False bs). b64_value c \<noteq> None \<and> c \<noteq> asc CHR ''=''"
    by (induction bs rule: induct_list_by_3) (use b64_char_back [OF al] in \<open>auto simp: Let_def\<close>)
  with assms show "b64_value c \<noteq> None" "c \<noteq> asc CHR ''=''" by blast+
qed

lemma takeWhile_replicate_append: "P x \<Longrightarrow> takeWhile P (replicate k x @ ys) = replicate k x @ takeWhile P ys"
  by (induction k) auto

lemma b64_text_pad:
  assumes al: "al = B64_STD \<or> al = B64_URL"
  shows "takeWhile (\<lambda>c. c = asc CHR ''='') (rev (b64_out al False bs @ replicate k (asc CHR ''=''))) =
    replicate k (asc CHR ''='')"
proof -
  have "takeWhile (\<lambda>c. c = asc CHR ''='') (rev (b64_out al False bs)) = []"
    unfolding takeWhile_eq_Nil_iff
    using b64_out_chars(2) [OF al, of "hd (rev (b64_out al False bs))" bs]
    by (metis hd_in_set set_rev)
  then show ?thesis by (simp add: takeWhile_replicate_append)
qed

lemma base64_decode_text:
  assumes al: "al = B64_STD \<or> al = B64_URL" and out: "\<not> view_null out" "length bs \<le> view_size out"
  shows "proven_base64_decode (At (b64_out al pad bs)) out = (PROVEN_OK, length bs, store bs out)"
proof -
  let ?core = "b64_out al False bs" and ?m = "length bs mod 3"
  define k where "k = (if pad then (3 - ?m) mod 3 else 0)"
  have t: "b64_out al pad bs = ?core @ replicate k (asc CHR ''='')"
    by (simp add: b64_out_pad [of al pad] k_def)
  have m: "?m < 3" by simp
  have n: "length bs = 3 * (length bs div 3) + ?m" by simp
  have len: "length ?core = 4 * (length bs div 3) + (if ?m = 0 then 0 else ?m + 1)" by (rule length_b64_core)
  define c where "c = (if ?m = 0 then 0 else ?m + 1)"
  have lc: "length ?core = 4 * (length bs div 3) + c" using len by (simp only: c_def)
  have c: "c < 4" "c \<noteq> 1" using m by (auto simp: c_def)
  have "(if c = 2 then 1 else if c = 3 then 2 else 0) = ?m" using m by (auto simp: c_def)
  with n have nc: "3 * (length bs div 3) + (if c = 2 then 1 else if c = 3 then 2 else 0) = length bs"
    by (simp only:)
  have mods: "length ?core mod 4 = c" "length ?core div 4 = length bs div 3" using c(1) by (simp_all add: lc)
  have rem: "length ?core mod 4 \<noteq> 1" using mods c by simp
  have size: "base64_out_len (length ?core) = length bs"
    unfolding base64_out_len_def mods using nc by (simp only: mult.commute)
  have k: "k \<le> 2" and ck: "0 < k \<longrightarrow> c + k = 4" using m by (auto simp: k_def c_def)
  have total: "0 < k \<longrightarrow> (length ?core + k) mod 4 = 0"
    using ck by (simp add: lc add.assoc)
  have tw: "length (takeWhile (\<lambda>c. c = asc CHR ''='') (rev (b64_out al pad bs))) = k"
    unfolding t b64_text_pad [OF al] by simp
  have valid: "\<not> (\<exists>c \<in> set ?core. b64_value c = None)" using b64_out_chars(1) [OF al] by blast
  have lt: "length (b64_out al pad bs) = length ?core + k" by (simp add: t)
  have body: "take (length ?core) (b64_out al pad bs) = ?core" by (simp add: t)
  have "proven_base64_decode (At (b64_out al pad bs)) out =
      (PROVEN_OK, length (b64_in ?core), store (b64_in ?core) out)"
    unfolding proven_base64_decode_def Let_def view_data.simps view_size.simps tw lt
      add_diff_cancel_right' body size
    using out k total rem valid by auto
  then show ?thesis by (simp only: b64_in_out [OF al])
qed

lemma length_b64_in: "length (b64_in cs) = base64_out_len (length cs)"
proof (induction cs rule: b64_in.induct)
  case (1 a b c d rest)
  have "Suc (Suc (Suc (Suc n))) mod 4 = n mod 4" "Suc (Suc (Suc (Suc n))) div 4 = Suc (n div 4)" for n :: nat
    by presburger+
  with 1 show ?case by (simp add: Let_def base64_out_len_def)
qed (simp_all add: Let_def base64_out_len_def)

section \<open>Properties\<close>

text \<open>hex encoding and then decoding what was written gives the bytes back, into buffers of the
  sizes the size functions promise; the encoder writes exactly twice as many characters.\<close>

theorem hex_roundtrip:
  assumes "\<not> view_null out" "proven_hex_encoded_size (length bs) \<le> view_size out"
    "2 * length bs \<le> SIZE_MAX"
    "\<not> view_null out2" "proven_hex_decoded_size (2 * length bs) \<le> view_size out2"
  shows "\<exists>out'. proven_hex_encode (At bs) out = (PROVEN_OK, 2 * length bs, out') \<and>
    view_size out' = view_size out \<and>
    proven_hex_decode (At (take (2 * length bs) (view_data out'))) out2 =
      (PROVEN_OK, length bs, store bs out2)"
proof -
  have "2 * length bs \<le> view_size out"
    using assms(2,3) by (simp add: proven_hex_encoded_size_def hex_exact_size_def ckd_mul_def mult.commute)
  then have size: "view_size (store (hex_out bs) out) = view_size out" by simp
  have t: "take (2 * length bs) (view_data (store (hex_out bs) out)) = hex_out bs"
    using take_view_data_store [OF assms(1), of "hex_out bs"] by simp
  have "\<not> (\<exists>c \<in> set (hex_out bs). hex_value c = None)" using hex_out_values by blast
  then have "proven_hex_decode (At (hex_out bs)) out2 = (PROVEN_OK, length bs, store bs out2)"
    using assms(4,5) by (auto simp: proven_hex_decode_def proven_hex_decoded_size_def hex_in_out)
  then show ?thesis
    using hex_encode_ok [of "At bs" out] assms t size by simp
qed

theorem hex_roundtrip_witness:
  "\<exists>out'. proven_hex_encode (At [0xDE, 0x07]) (At [0, 0, 0, 0, 0]) = (PROVEN_OK, 4, out') \<and>
    proven_hex_decode (At (take 4 (view_data out'))) (At [9, 9, 9]) = (PROVEN_OK, 2, At [0xDE, 0x07, 9])"
proof -
  have "length [0xDE, 0x07 :: byte] = 2" "(2 :: nat) * 2 = 4" by simp_all
  moreover have "proven_hex_encoded_size 2 = 4" "proven_hex_decoded_size 4 = 2"
    by (simp_all add: proven_hex_encoded_size_def hex_exact_size_def ckd_mul_def SIZE_MAX_eval
        proven_hex_decoded_size_def)
  ultimately show ?thesis
    using hex_roundtrip [of "At [0, 0, 0, 0, 0]" "[0xDE, 0x07]" "At [9, 9, 9]"]
    by (simp only:) (auto simp: SIZE_MAX_eval)
qed

text \<open>the hex decoder is strict. It accepts exactly the texts of even length made of hex digits of
  either case that fit the output, and a text it rejects leaves the output untouched.\<close>

theorem hex_decode_strict:
  assumes "proven_hex_decode text out = (e, n, out')"
  shows "(e = PROVEN_OK) =
    ((if view_null text then view_size text = 0 else True) \<and> (if view_null out then view_size out = 0 else True) \<and>
     even (view_size text) \<and> view_size text div 2 \<le> view_size out \<and>
     (\<forall>c \<in> set (view_data text). hex_value c \<noteq> None)) \<and>
    (if e = PROVEN_OK then n = view_size text div 2 else n = 0 \<and> out' = out)"
  using assms by (auto simp: proven_hex_decode_def Let_def even_iff_mod_2_eq_zero split: if_splits)

theorem hex_decode_strict_witness:
  "proven_hex_decode (At (ascii ''1g'')) (At [7]) = (PROVEN_ERR_INVALID_ENCODING, 0, At [7]) \<and>
   hex_value (asc CHR ''g'') = None"
proof -
  have v: "hex_value (asc CHR ''g'') = None" by code_simp
  obtain e n out' where c: "proven_hex_decode (At (ascii ''1g'')) (At [7]) = (e, n, out')"
    by (cases "proven_hex_decode (At (ascii ''1g'')) (At [7])")
  have "e \<noteq> PROVEN_OK" "n = 0 \<and> out' = At [7]"
    using hex_decode_strict [OF c] v by (auto simp: ascii_def)
  moreover have "e = PROVEN_ERR_INVALID_ENCODING"
    using c v by (auto simp: proven_hex_decode_def ascii_def)
  ultimately show ?thesis using c v by simp
qed

text \<open>C37: Base64 round trip, for the padded standard alphabet and for the unpadded URL alphabet: what
  the encoder wrote decodes to the bytes it was given, in an output buffer of the promised size.\<close>

theorem base64_roundtrip:
  assumes "enc = proven_base64_encode \<or> enc = proven_base64url_encode"
    "\<not> view_null out" "proven_base64_encoded_size (length bs) \<le> view_size out"
    "length bs \<le> 2 ^ 62" "\<not> view_null out2" "length bs \<le> view_size out2"
  shows "\<exists>n out'. enc (At bs) out = (PROVEN_OK, n, out') \<and> n \<le> proven_base64_encoded_size (length bs) \<and>
    proven_base64_decode (At (take n (view_data out'))) out2 = (PROVEN_OK, length bs, store bs out2)"
proof -
  obtain al pad where e: "enc = base64_encode_impl al pad" "al = B64_STD \<or> al = B64_URL"
    using assms(1) by (auto simp: proven_base64_encode_def proven_base64url_encode_def)
  let ?m = "length bs mod 3"
  have m: "?m < 3" by simp
  have fits: "length bs div 3 * 4 + 4 \<le> SIZE_MAX" using assms(4) unfolding SIZE_MAX_eval by simp
  let ?n = "length (b64_out al pad bs)"
  consider "?m = 0" | "?m = 1" | "?m = 2" using m by linarith
  then have need: "base64_exact_size (length bs) pad = Some ?n" "?n \<le> proven_base64_encoded_size (length bs)"
    using fits b64_out_pad [of al pad bs] length_b64_core [of al bs]
    by (cases; simp add: base64_exact_size_def proven_base64_encoded_size_def ckd_mul_def ckd_add_def)+
  have "enc (At bs) out = (PROVEN_OK, ?n, store (b64_out al pad bs) out)"
    using need assms(2,3) by (simp add: e(1) base64_encode_impl_def Let_def)
  moreover have "take ?n (view_data (store (b64_out al pad bs) out)) = b64_out al pad bs"
    by (rule take_view_data_store [OF assms(2)])
  ultimately show ?thesis using base64_decode_text [OF e(2) assms(5,6), of pad] need(2) by simp
qed

theorem base64_roundtrip_witness:
  "\<exists>n out'. proven_base64_encode (At [1, 2, 3, 4]) (At (replicate 8 0)) = (PROVEN_OK, n, out') \<and>
    proven_base64_decode (At (take n (view_data out'))) (At [0, 0, 0, 0]) = (PROVEN_OK, 4, At [1, 2, 3, 4])"
proof -
  have "proven_base64_encoded_size 4 = 8" by (simp add: proven_base64_encoded_size_def
      base64_exact_size_def ckd_mul_def ckd_add_def SIZE_MAX_eval)
  moreover have "length [1, 2, 3, 4 :: byte] = 4" by simp
  ultimately show ?thesis
    using base64_roundtrip [of proven_base64_encode "At (replicate 8 0)" "[1, 2, 3, 4]" "At [0, 0, 0, 0]"]
    by (simp only:) auto
qed

text \<open>the Base64 decoder never writes past its output or past the promised bound, and a text it
  rejects leaves the output untouched.\<close>

theorem base64_decode_bounds:
  assumes "proven_base64_decode text out = (e, n, out')"
  shows "n \<le> proven_base64_decoded_size (view_size text) \<and> n \<le> view_size out \<and>
    view_size out' = view_size out \<and> drop n (view_data out') = drop n (view_data out) \<and>
    (if e = PROVEN_OK then True else n = 0 \<and> out' = out)"
proof -
  define pad where "pad = length (takeWhile (\<lambda>c. c = asc CHR ''='') (rev (view_data text)))"
  define body where "body = take (view_size text - pad) (view_data text)"
  have mono: "base64_out_len k \<le> proven_base64_decoded_size (view_size text)" if "k \<le> view_size text" for k
  proof -
    have "base64_out_len k \<le> k div 4 * 3 + (if k mod 4 \<noteq> 0 then 3 else 0)" by (simp add: base64_out_len_def)
    also have "\<dots> \<le> proven_base64_decoded_size (view_size text)"
    proof (cases "k div 4 = view_size text div 4")
      case True
      then have "k mod 4 \<le> view_size text mod 4"
        using that div_mult_mod_eq [of k 4] div_mult_mod_eq [of "view_size text" 4] by linarith
      with True show ?thesis by (simp add: proven_base64_decoded_size_def)
    next
      case False
      then have "Suc (k div 4) \<le> view_size text div 4" using div_le_mono [OF that, of 4] by linarith
      then show ?thesis by (simp add: proven_base64_decoded_size_def)
    qed
    finally show ?thesis .
  qed
  show ?thesis
  proof (cases "e = PROVEN_OK")
    case False
    then have "n = 0 \<and> out' = out"
      using assms unfolding proven_base64_decode_def Let_def pad_def [symmetric] body_def [symmetric]
      by (simp split: if_splits)
    with False show ?thesis by simp
  next
    case True
    then have k: "n = length (b64_in body)" "out' = store (b64_in body) out"
      "base64_out_len (view_size text - pad) \<le> view_size out"
      "view_null text \<longrightarrow> view_size text = 0" "view_null out \<longrightarrow> view_size out = 0"
      using assms True
      unfolding proven_base64_decode_def Let_def pad_def [symmetric] body_def [symmetric]
      by (simp_all split: if_splits) blast+
    have "length (view_data text) = view_size text" using k(4) by (cases "text") auto
    then have n: "n = base64_out_len (view_size text - pad)"
      unfolding k(1) length_b64_in body_def by simp
    have "n \<le> proven_base64_decoded_size (view_size text)" unfolding n by (rule mono) simp
    moreover have "length (view_data out) = view_size out" using k(5) by (cases out) auto
    then have "drop n (view_data out') = drop n (view_data out)"
      using k(1,2) by (cases out) simp_all
    ultimately show ?thesis using True n k(1,2,3) by simp
  qed
qed

theorem base64_decode_bounds_witness:
  "\<exists>e n out'. proven_base64_decode (At (ascii ''AQI='')) (At [9, 9, 9]) = (e, n, out') \<and> n \<le> 3"
proof -
  obtain e n out' where c: "proven_base64_decode (At (ascii ''AQI='')) (At [9, 9, 9]) = (e, n, out')"
    by (cases "proven_base64_decode (At (ascii ''AQI='')) (At [9, 9, 9])")
  with base64_decode_bounds [OF c] show ?thesis by simp
qed

end
