(* ===== verification/Utf.thy ===== *)
theory Utf
  imports Views Word_Nat
begin

text \<open>
  UTF-8 and UTF-16 conversion of \<^verbatim>\<open>src/proven/utf.c\<close>: the strict decoders with their three
  answers, the encoders, and the partial, measuring, atomic and lossy conversions. A decoder reads
  the list of the units from the current position to the end of the view; code points are 32-bit
  words, bytes and UTF-16 units are 8- and 16-bit words.

  \<open>scalar\<close> is the set of Unicode scalar values; the lemmas say that the encoders and the decoders
  are inverse on it, that the decoders accept nothing else, and that the conversions relate two
  encodings of the same list of scalar values.
\<close>

type_synonym unit16 = "16 word"
type_synonym codepoint = "32 word"

text \<open>The three answers of a decoder: a character of some length, a cut-off one, a malformed one with
  the length of its maximal subpart.\<close>

datatype utf_result =
    Decoded codepoint nat
  | Cut_off
  | Malformed nat

section \<open>The decoders\<close>

text \<open>The loop over the continuation bytes, from index \<open>i\<close>.\<close>

function utf8_tail :: "byte list \<Rightarrow> nat \<Rightarrow> nat \<Rightarrow> byte \<Rightarrow> byte \<Rightarrow> codepoint \<Rightarrow> utf_result" where
  "utf8_tail s i len lo hi cp =
    (if i < len then
       if i \<ge> length s then Cut_off
       else let b = s ! i; min = (if i = 1 then lo else 0x80); max = (if i = 1 then hi else 0xBF) in
         if b < min \<or> b > max then Malformed i
         else utf8_tail s (i + 1) len lo hi (push_bit 6 cp OR ucast (b AND 0x3F))
     else Decoded cp len)"
  by pat_completeness auto
termination by (relation "measure (\<lambda>(s, i, len, _). len - i)") auto

declare utf8_tail.simps [simp del]

definition utf8_decode_span :: "byte list \<Rightarrow> utf_result" where
  "utf8_decode_span s =
    (let b0 = s ! 0 in
     if b0 < 0x80 then Decoded (ucast b0) 1
     else if b0 < 0xC2 then Malformed 1
     else if b0 < 0xE0 then utf8_tail s 1 2 0x80 0xBF (ucast (b0 AND 0x1F))
     else if b0 < 0xF0 then
       utf8_tail s 1 3 (if b0 = 0xE0 then 0xA0 else 0x80) (if b0 = 0xED then 0x9F else 0xBF)
         (ucast (b0 AND 0x0F))
     else if b0 < 0xF5 then
       utf8_tail s 1 4 (if b0 = 0xF0 then 0x90 else 0x80) (if b0 = 0xF4 then 0x8F else 0xBF)
         (ucast (b0 AND 0x07))
     else Malformed 1)"

record proven_utf8_char =
  cerr :: proven_err
  ccp :: codepoint
  clen :: nat

definition proven_utf8_decode_next :: "byte view \<Rightarrow> nat \<Rightarrow> proven_utf8_char" where
  "proven_utf8_decode_next s pos =
    (if view_size s > 0 \<and> view_null s then \<lparr>cerr = PROVEN_ERR_INVALID_ARG, ccp = 0, clen = 0\<rparr>
     else if pos > view_size s then \<lparr>cerr = PROVEN_ERR_OUT_OF_BOUNDS, ccp = 0, clen = 0\<rparr>
     else if pos = view_size s then \<lparr>cerr = PROVEN_ERR_EOF, ccp = 0, clen = 0\<rparr>
     else case utf8_decode_span (drop pos (view_data s)) of
       Decoded cp r \<Rightarrow> \<lparr>cerr = PROVEN_OK, ccp = cp, clen = r\<rparr>
     | Cut_off \<Rightarrow> \<lparr>cerr = PROVEN_ERR_NEED_MORE, ccp = 0, clen = view_size s - pos\<rparr>
     | Malformed bad \<Rightarrow> \<lparr>cerr = PROVEN_ERR_INVALID_ENCODING, ccp = 0, clen = bad\<rparr>)"

definition utf16_decode :: "unit16 list \<Rightarrow> utf_result" where
  "utf16_decode s =
    (let u = ucast (s ! 0) :: codepoint in
     if u < 0xD800 \<or> u > 0xDFFF then Decoded u 1
     else if u \<ge> 0xDC00 then Malformed 1
     else if length s < 2 then Cut_off
     else let v = ucast (s ! 1) :: codepoint in
       if v < 0xDC00 \<or> v > 0xDFFF then Malformed 1
       else Decoded (0x10000 + push_bit 10 (u - 0xD800) + (v - 0xDC00)) 2)"

section \<open>The encoders\<close>

definition proven_utf8_encode_one :: "codepoint \<Rightarrow> byte list" where
  "proven_utf8_encode_one cp =
    (if cp < 0x80 then [ucast cp]
     else if cp < 0x800 then [ucast (0xC0 OR drop_bit 6 cp), ucast (0x80 OR (cp AND 0x3F))]
     else if cp \<ge> 0xD800 \<and> cp \<le> 0xDFFF then []
     else if cp < 0x10000 then
       [ucast (0xE0 OR drop_bit 12 cp), ucast (0x80 OR (drop_bit 6 cp AND 0x3F)), ucast (0x80 OR (cp AND 0x3F))]
     else if cp > 0x10FFFF then []
     else [ucast (0xF0 OR drop_bit 18 cp), ucast (0x80 OR (drop_bit 12 cp AND 0x3F)),
           ucast (0x80 OR (drop_bit 6 cp AND 0x3F)), ucast (0x80 OR (cp AND 0x3F))])"

definition utf8_width :: "codepoint \<Rightarrow> nat" where
  "utf8_width cp = (if cp < 0x80 then 1 else if cp < 0x800 then 2 else if cp < 0x10000 then 3 else 4)"

definition utf8_put :: "codepoint \<Rightarrow> nat \<Rightarrow> byte list" where
  "utf8_put cp width =
    (if width = 1 then [ucast cp]
     else if width = 2 then [ucast (0xC0 OR drop_bit 6 cp), ucast (0x80 OR (cp AND 0x3F))]
     else if width = 3 then
       [ucast (0xE0 OR drop_bit 12 cp), ucast (0x80 OR (drop_bit 6 cp AND 0x3F)), ucast (0x80 OR (cp AND 0x3F))]
     else [ucast (0xF0 OR drop_bit 18 cp), ucast (0x80 OR (drop_bit 12 cp AND 0x3F)),
           ucast (0x80 OR (drop_bit 6 cp AND 0x3F)), ucast (0x80 OR (cp AND 0x3F))])"

text \<open>The units the conversions to UTF-16 store for one code point.\<close>

definition utf16_put :: "codepoint \<Rightarrow> unit16 list" where
  "utf16_put cp =
    (if cp \<ge> 0x10000
     then [ucast (0xD800 + drop_bit 10 (cp - 0x10000)), ucast (0xDC00 + ((cp - 0x10000) AND 0x3FF))]
     else [ucast cp])"

section \<open>Sizes, for the words the formats use\<close>

definition scalar :: "codepoint \<Rightarrow> bool" where
  "scalar cp \<longleftrightarrow> cp \<le> 0x10FFFF \<and> \<not> (0xD800 \<le> cp \<and> cp \<le> 0xDFFF)"

lemma mask_words:
  "(0x3F :: 'a::len word) = mask 6" "(0x1F :: 'a word) = mask 5" "(0x0F :: 'a word) = mask 4"
  "(0x07 :: 'a word) = mask 3" "(0x3FF :: 'a word) = mask 10"
  by (simp_all add: mask_eq_exp_minus_1)

lemma unat_join:
  assumes "unat x < 2 ^ 26" "unat y < 64"
  shows "unat (push_bit 6 x OR y :: 32 word) = 64 * unat x + unat y"
proof -
  have "unat (push_bit 6 x) = take_bit 32 (push_bit 6 (unat x))" by (simp add: unsigned_push_bit_eq)
  also have "\<dots> = 2 ^ 6 * unat x" using assms(1) by (simp add: take_bit_eq_mod push_bit_eq_mult)
  finally have "unat (push_bit 6 x OR y) = (2 ^ 6 * unat x) OR unat y" by (simp only: unsigned_or_eq)
  then show ?thesis using nat_or_high [of "unat y" 6 "unat x"] assms(2) by simp
qed

text \<open>A byte put together from a fixed head and the low bits.\<close>

lemma unat_head:
  assumes "unat c = 2 ^ k * h" "unat x < 2 ^ k" "2 ^ k * h + unat x < 256"
  shows "unat (ucast (c OR x :: 32 word) :: byte) = 2 ^ k * h + unat x"
proof -
  have "unat (c OR x) = 2 ^ k * h + unat x"
    using nat_or_high [OF assms(2)] by (simp only: unsigned_or_eq assms(1))
  then show ?thesis using assms(3) by (simp add: unsigned_ucast_eq take_bit_eq_mod)
qed

section \<open>The encoding in numbers\<close>

definition utf8_nat :: "nat \<Rightarrow> nat list" where
  "utf8_nat n =
    (if n < 0x80 then [n]
     else if n < 0x800 then [0xC0 + n div 64, 0x80 + n mod 64]
     else if n < 0x10000 then [0xE0 + n div 4096, 0x80 + n div 64 mod 64, 0x80 + n mod 64]
     else [0xF0 + n div 262144, 0x80 + n div 4096 mod 64, 0x80 + n div 64 mod 64, 0x80 + n mod 64])"

definition utf8_enc :: "codepoint \<Rightarrow> byte list" where
  "utf8_enc cp = utf8_put cp (utf8_width cp)"

lemma utf8_encode_one_scalar: "scalar cp \<Longrightarrow> proven_utf8_encode_one cp = utf8_enc cp"
  by (auto simp: proven_utf8_encode_one_def utf8_enc_def utf8_put_def utf8_width_def scalar_def)

lemma utf8_encode_one_other: "\<not> scalar cp \<Longrightarrow> proven_utf8_encode_one cp = []"
  by (auto simp: proven_utf8_encode_one_def scalar_def word_less_nat_alt word_le_nat_alt not_less not_le)

lemma unat_drop_bit_div: "unat (drop_bit k w :: 'a::len word) = unat w div 2 ^ k"
  by (subst unat_drop_bit_eq) (rule drop_bit_eq_div)

lemma unat_cont: "unat (ucast (0x80 OR (w AND 0x3F) :: 32 word) :: byte) = 0x80 + unat w mod 64"
proof -
  have "unat (w AND mask 6) < 2 ^ 6" by (simp only: unat_and_mask_mod) simp
  then show ?thesis
    using unat_head [of "0x80" 6 2 "w AND mask 6"] by (simp add: mask_words unat_and_mask_mod)
qed

lemma utf8_enc_nat:
  assumes "cp \<le> 0x10FFFF"
  shows "map unat (utf8_enc cp) = utf8_nat (unat cp)"
proof -
  have n: "unat cp \<le> 0x10FFFF" using assms by (simp add: word_le_nat_alt)
  have ascii: "unat (ucast cp :: byte) = unat cp" if "unat cp < 128"
    using that by (simp add: unsigned_ucast_eq take_bit_eq_mod)
  have h2: "unat (ucast (0xC0 OR drop_bit 6 cp) :: byte) = 0xC0 + unat cp div 64" if "unat cp < 0x800"
    using unat_head [of "0xC0" 5 6 "drop_bit 6 cp"] that by (simp add: unat_drop_bit_div)
  have h3: "unat (ucast (0xE0 OR drop_bit 12 cp) :: byte) = 0xE0 + unat cp div 4096" if "unat cp < 0x10000"
    using unat_head [of "0xE0" 4 14 "drop_bit 12 cp"] that by (simp add: unat_drop_bit_div)
  have h4: "unat (ucast (0xF0 OR drop_bit 18 cp) :: byte) = 0xF0 + unat cp div 262144"
    using unat_head [of "0xF0" 3 30 "drop_bit 18 cp"] n by (simp add: unat_drop_bit_div)
  show ?thesis
    by (simp add: utf8_enc_def utf8_put_def utf8_width_def utf8_nat_def word_less_nat_alt unat_cont unat_drop_bit_div
        ascii h2 h3 h4)
qed

section \<open>The decoder in numbers\<close>

definition join :: "codepoint \<Rightarrow> byte \<Rightarrow> codepoint" where
  "join cp b = push_bit 6 cp OR ucast (b AND 0x3F)"

lemma unat_join_byte: "unat cp < 2 ^ 26 \<Longrightarrow> unat (join cp b) = 64 * unat cp + unat b mod 64"
proof -
  assume cp: "unat cp < 2 ^ 26"
  have "unat (b AND mask 6) = unat b mod 64" by (simp only: unat_and_mask_mod) simp
  then have b: "unat (ucast (b AND 0x3F) :: 32 word) = unat b mod 64"
    by (simp add: mask_words unsigned_ucast_eq take_bit_eq_mod)
  then show ?thesis unfolding join_def using unat_join [OF cp, of "ucast (b AND 0x3F)"] by simp
qed

lemma unat_lead:
  "unat (ucast (b AND 0x1F) :: 32 word) = unat b mod 32"
  "unat (ucast (b AND 0x0F) :: 32 word) = unat b mod 16"
  "unat (ucast (b AND 0x07) :: 32 word) = unat b mod 8" for b :: byte
  using unat_and_mask_mod [of b 5] unat_and_mask_mod [of b 4] unat_and_mask_mod [of b 3]
  by (simp_all add: mask_words unsigned_ucast_eq take_bit_eq_mod)

definition in_range :: "byte list \<Rightarrow> nat \<Rightarrow> byte \<Rightarrow> byte \<Rightarrow> utf_result \<Rightarrow> utf_result" where
  "in_range s i lo hi r =
    (if length s \<le> i then Cut_off else if s ! i < lo \<or> s ! i > hi then Malformed i else r)"

lemma utf8_tail_step:
  "utf8_tail s i len lo hi cp =
    (if i < len then in_range s i (if i = 1 then lo else 0x80) (if i = 1 then hi else 0xBF)
       (utf8_tail s (i + 1) len lo hi (join cp (s ! i)))
     else Decoded cp len)"
  by (subst utf8_tail.simps) (simp add: in_range_def join_def Let_def)

lemma small_nats:
  "(1 :: nat) + 1 = 2" "(2 :: nat) + 1 = 3" "(3 :: nat) + 1 = 4"
  "((1 :: nat) < 2) = True" "((1 :: nat) < 3) = True" "((1 :: nat) < 4) = True" "((2 :: nat) < 2) = False"
  "((2 :: nat) < 3) = True" "((2 :: nat) < 4) = True" "((3 :: nat) < 3) = False" "((3 :: nat) < 4) = True"
  "((4 :: nat) < 4) = False" "((2 :: nat) = 1) = False" "((3 :: nat) = 1) = False" "((1 :: nat) = 1) = True"
  by simp_all

lemma utf8_tail_unroll:
  "utf8_tail s 1 2 lo hi cp = in_range s 1 lo hi (Decoded (join cp (s ! 1)) 2)"
  "utf8_tail s 1 3 lo hi cp = in_range s 1 lo hi (in_range s 2 0x80 0xBF (Decoded (join (join cp (s ! 1)) (s ! 2)) 3))"
  "utf8_tail s 1 4 lo hi cp = in_range s 1 lo hi (in_range s 2 0x80 0xBF (in_range s 3 0x80 0xBF
     (Decoded (join (join (join cp (s ! 1)) (s ! 2)) (s ! 3)) 4)))"
  by (simp_all only: utf8_tail_step [of s 1] utf8_tail_step [of s 2] utf8_tail_step [of s 3]
      utf8_tail_step [of s 4] small_nats if_True if_False)

lemma in_range_Decoded:
  "in_range s i lo hi r = Decoded cp n \<longleftrightarrow> i < length s \<and> lo \<le> s ! i \<and> s ! i \<le> hi \<and> r = Decoded cp n"
  by (auto simp: in_range_def not_less not_le)

lemma take_by_nth:
  "0 < length s \<Longrightarrow> take 1 s = [s ! 0]"
  "1 < length s \<Longrightarrow> take 2 s = [s ! 0, s ! 1]"
  "2 < length s \<Longrightarrow> take 3 s = [s ! 0, s ! 1, s ! 2]"
  "3 < length s \<Longrightarrow> take 4 s = [s ! 0, s ! 1, s ! 2, s ! 3]"
  by (cases s; cases "tl s"; cases "tl (tl s)"; cases "tl (tl (tl s))"; simp add: numeral_eq_Suc)+

lemma mod_above: "c \<le> n \<Longrightarrow> n < c + m \<Longrightarrow> m dvd c \<Longrightarrow> n mod m = n - (c :: nat)"
proof -
  assume n: "c \<le> n" "n < c + m" and "m dvd c"
  then obtain q where c: "c = m * q" by blast
  have "n = (n - c) + m * q" using n(1) by (simp add: c)
  then have "n mod m = (n - c) mod m" by (metis mod_mult_self2)
  then show ?thesis using n by simp
qed

lemma digits:
  fixes a b c d :: nat
  assumes "b < 64" "c < 64" "d < 64"
  shows "(64 * a + b) div 64 = a" "(64 * a + b) mod 64 = b"
    "(64 * (64 * a + b) + c) div 4096 = a" "(64 * (64 * a + b) + c) div 64 mod 64 = b"
    "(64 * (64 * (64 * a + b) + c) + d) div 262144 = a"
    "(64 * (64 * (64 * a + b) + c) + d) div 4096 mod 64 = b"
    "(64 * (64 * (64 * a + b) + c) + d) div 64 mod 64 = c"
proof -
  have q: "(64 * x + y) div 64 = x" "(64 * x + y) mod 64 = y" if "y < 64" for x y :: nat
    using that by simp_all
  have d: "n div 4096 = n div 64 div 64" "n div 262144 = n div 64 div 64 div 64" for n :: nat
    by (simp_all add: div_mult2_eq [symmetric])
  show "(64 * a + b) div 64 = a" "(64 * a + b) mod 64 = b"
    "(64 * (64 * a + b) + c) div 4096 = a" "(64 * (64 * a + b) + c) div 64 mod 64 = b"
    "(64 * (64 * (64 * a + b) + c) + d) div 262144 = a"
    "(64 * (64 * (64 * a + b) + c) + d) div 4096 mod 64 = b"
    "(64 * (64 * (64 * a + b) + c) + d) div 64 mod 64 = c"
    by (simp_all only: d q assms)
qed

lemma utf8_enc_by_nat:
  assumes "unat cp = n" "utf8_nat n = map unat bs" "n \<le> 0x10FFFF" "\<not> (0xD800 \<le> n \<and> n \<le> 0xDFFF)" "length bs = k"
  shows "scalar cp \<and> utf8_width cp = k \<and> utf8_enc cp = bs"
proof -
  have le: "cp \<le> 0x10FFFF" using assms(1,3) by (simp add: word_le_nat_alt)
  have "map unat (utf8_enc cp) = map unat bs" using utf8_enc_nat [OF le] assms(1,2) by simp
  then have e: "utf8_enc cp = bs"
    by (rule map_injective) (auto intro!: injI unsigned_word_eqI)
  have "length (utf8_enc cp) = utf8_width cp" by (simp add: utf8_enc_def utf8_put_def utf8_width_def)
  then show ?thesis using e le assms(1,4,5) by (simp add: scalar_def word_le_nat_alt)
qed

lemma utf8_two:
  fixes b0 b1 :: byte
  assumes "0xC2 \<le> unat b0" "unat b0 < 0xE0" "0x80 \<le> unat b1" "unat b1 \<le> 0xBF"
  defines "cp \<equiv> join (ucast (b0 AND 0x1F)) b1"
  shows "scalar cp \<and> utf8_width cp = 2 \<and> utf8_enc cp = [b0, b1]"
proof -
  define x y where "x = unat b0 - 192" and "y = unat b1 - 128"
  have m: "unat b0 mod 32 = x" "unat b1 mod 64 = y" unfolding x_def y_def
    by (rule mod_above; use assms in simp)+
  have b: "unat b0 = 192 + x" "unat b1 = 128 + y" "2 \<le> x" "x < 32" "y < 64" using assms by (auto simp: x_def y_def)
  have "unat (ucast (b0 AND 0x1F) :: codepoint) = x" by (simp only: unat_lead m)
  then have n: "unat cp = 64 * x + y"
    using b(4) unat_join_byte [of "ucast (b0 AND 0x1F)" b1] by (simp add: cp_def m)
  have "utf8_nat (64 * x + y) = [192 + x, 128 + y]"
    using b digits(1,2) [of y x] by (simp add: utf8_nat_def)
  then show ?thesis by (intro utf8_enc_by_nat [OF n]) (use b in simp_all)
qed

lemma utf8_three:
  fixes b0 b1 b2 :: byte
  assumes "0xE0 \<le> unat b0" "unat b0 < 0xF0" "0x80 \<le> unat b1" "unat b1 \<le> 0xBF"
    "0x80 \<le> unat b2" "unat b2 \<le> 0xBF" "unat b0 = 0xE0 \<longrightarrow> 0xA0 \<le> unat b1" "unat b0 = 0xED \<longrightarrow> unat b1 \<le> 0x9F"
  defines "cp \<equiv> join (join (ucast (b0 AND 0x0F)) b1) b2"
  shows "scalar cp \<and> utf8_width cp = 3 \<and> utf8_enc cp = [b0, b1, b2]"
proof -
  define x y z where "x = unat b0 - 224" and "y = unat b1 - 128" and "z = unat b2 - 128"
  have m: "unat b0 mod 16 = x" "unat b1 mod 64 = y" "unat b2 mod 64 = z" unfolding x_def y_def z_def
    by (rule mod_above; use assms in simp)+
  have b: "unat b0 = 224 + x" "unat b1 = 128 + y" "unat b2 = 128 + z" "x < 16" "y < 64" "z < 64"
    "x = 0 \<longrightarrow> 32 \<le> y" "x = 13 \<longrightarrow> y < 32"
    using assms by (auto simp: x_def y_def z_def)
  have "unat (ucast (b0 AND 0x0F) :: codepoint) = x" by (simp only: unat_lead m)
  then have "unat (join (ucast (b0 AND 0x0F)) b1) = 64 * x + y"
    using b(4) unat_join_byte [of "ucast (b0 AND 0x0F)" b1] by (simp add: m)
  then have n: "unat cp = 64 * (64 * x + y) + z"
    using b(4,5) unat_join_byte [of "join (ucast (b0 AND 0x0F)) b1" b2] by (simp add: cp_def m)
  have r: "0x800 \<le> 64 * (64 * x + y) + z" "64 * (64 * x + y) + z < 0x10000"
    "\<not> (0xD800 \<le> 64 * (64 * x + y) + z \<and> 64 * (64 * x + y) + z \<le> 0xDFFF)"
  proof -
    have "1 \<le> x \<or> 32 \<le> y" using b(7) by (cases "x = 0") auto
    then show "0x800 \<le> 64 * (64 * x + y) + z" by (auto simp: distrib_left)
    show "64 * (64 * x + y) + z < 0x10000" using b(4-6) by (simp add: distrib_left)
    consider "x < 13" | "x = 13" "y < 32" | "13 < x" using b(8) by (meson linorder_neqE_nat)
    then show "\<not> (0xD800 \<le> 64 * (64 * x + y) + z \<and> 64 * (64 * x + y) + z \<le> 0xDFFF)"
      using b(5,6) by cases (simp_all add: distrib_left)
  qed
  define N where "N = 64 * (64 * x + y) + z"
  have d: "N div 4096 = x" "N div 64 mod 64 = y" "N mod 64 = z" "0x800 \<le> N" "N < 0x10000"
    using digits(3,4) [OF b(5,6) b(5), of x] digits(2) [OF b(6) b(6) b(6), of "64 * x + y"] r(1,2)
    by (simp_all only: N_def)
  have "utf8_nat N = [224 + x, 128 + y, 128 + z]" using d by (simp add: utf8_nat_def)
  then show ?thesis
    by (intro utf8_enc_by_nat [OF n [folded N_def]]) (use b d(5) r(3) [folded N_def] in simp_all)
qed

lemma utf8_four:
  fixes b0 b1 b2 b3 :: byte
  assumes "0xF0 \<le> unat b0" "unat b0 < 0xF5" "0x80 \<le> unat b1" "unat b1 \<le> 0xBF"
    "0x80 \<le> unat b2" "unat b2 \<le> 0xBF" "0x80 \<le> unat b3" "unat b3 \<le> 0xBF"
    "unat b0 = 0xF0 \<longrightarrow> 0x90 \<le> unat b1" "unat b0 = 0xF4 \<longrightarrow> unat b1 \<le> 0x8F"
  defines "cp \<equiv> join (join (join (ucast (b0 AND 0x07)) b1) b2) b3"
  shows "scalar cp \<and> utf8_width cp = 4 \<and> utf8_enc cp = [b0, b1, b2, b3]"
proof -
  define x y z u where "x = unat b0 - 240" and "y = unat b1 - 128" and "z = unat b2 - 128" and "u = unat b3 - 128"
  have m: "unat b0 mod 8 = x" "unat b1 mod 64 = y" "unat b2 mod 64 = z" "unat b3 mod 64 = u"
    unfolding x_def y_def z_def u_def by (rule mod_above; use assms in simp)+
  have b: "unat b0 = 240 + x" "unat b1 = 128 + y" "unat b2 = 128 + z" "unat b3 = 128 + u"
    "x \<le> 4" "y < 64" "z < 64" "u < 64" "x = 0 \<longrightarrow> 16 \<le> y" "x = 4 \<longrightarrow> y < 16"
    using assms by (auto simp: x_def y_def z_def u_def)
  let ?n = "64 * (64 * (64 * x + y) + z) + u"
  have "unat (ucast (b0 AND 0x07) :: codepoint) = x" by (simp only: unat_lead m)
  then have "unat (join (ucast (b0 AND 0x07)) b1) = 64 * x + y"
    using b(5) unat_join_byte [of "ucast (b0 AND 0x07)" b1] by (simp add: m)
  then have "unat (join (join (ucast (b0 AND 0x07)) b1) b2) = 64 * (64 * x + y) + z"
    using b(5,6) unat_join_byte [of "join (ucast (b0 AND 0x07)) b1" b2] by (simp add: m)
  then have n: "unat cp = ?n"
    using b(5,6,7) unat_join_byte [of "join (join (ucast (b0 AND 0x07)) b1) b2" b3] by (simp add: cp_def m)
  have r: "0x10000 \<le> ?n" "?n \<le> 0x10FFFF"
  proof -
    have "1 \<le> x \<or> 16 \<le> y" "x < 4 \<or> x = 4 \<and> y < 16" using b(5,9,10) by (cases "x = 0"; cases "x = 4"; auto)+
    then show "0x10000 \<le> ?n" "?n \<le> 0x10FFFF" using b(6-8) by (auto simp: distrib_left)
  qed
  define N where "N = ?n"
  have d: "N div 262144 = x" "N div 4096 mod 64 = y" "N div 64 mod 64 = z" "N mod 64 = u" "0x10000 \<le> N"
    using digits(5-7) [OF b(6,7,8), of x] digits(2) [OF b(8) b(8) b(8), of "64 * (64 * x + y) + z"] r(1)
    by (simp_all only: N_def)
  have "utf8_nat N = [240 + x, 128 + y, 128 + z, 128 + u]" using d by (simp add: utf8_nat_def)
  then show ?thesis
    by (intro utf8_enc_by_nat [OF n [folded N_def]]) (use b(1-4) d(5) r(2) [folded N_def] in simp_all)
qed

lemma utf8_one:
  fixes b0 :: byte
  assumes "unat b0 < 0x80"
  shows "scalar (ucast b0) \<and> utf8_width (ucast b0) = 1 \<and> utf8_enc (ucast b0) = [b0]"
proof -
  have "unat (ucast b0 :: codepoint) = unat b0" using assms by (simp add: unsigned_ucast_eq take_bit_eq_mod)
  then show ?thesis by (rule utf8_enc_by_nat) (use assms in \<open>simp_all add: utf8_nat_def\<close>)
qed

lemma utf8_decode_inverse:
  assumes "utf8_decode_span s = Decoded cp n" "s \<noteq> []"
  shows "scalar cp \<and> n = utf8_width cp \<and> n \<le> length s \<and> take n s = utf8_enc cp"
proof -
  let ?b0 = "s ! 0"
  have l: "0 < length s" using assms(2) by simp
  consider "unat ?b0 < 0x80" | "0xC2 \<le> unat ?b0" "unat ?b0 < 0xE0" | "0xE0 \<le> unat ?b0" "unat ?b0 < 0xF0"
    | "0xF0 \<le> unat ?b0" "unat ?b0 < 0xF5"
    using assms(1) by (auto simp: utf8_decode_span_def Let_def word_less_nat_alt not_less split: if_splits)
  then show ?thesis
  proof cases
    case 1
    then have "cp = ucast ?b0" "n = 1"
      using assms(1) by (auto simp: utf8_decode_span_def Let_def word_less_nat_alt)
    then show ?thesis using utf8_one [OF 1] take_by_nth(1) [OF l] l by (simp add: Suc_le_eq)
  next
    case 2
    then have "1 < length s" "0x80 \<le> unat (s ! 1)" "unat (s ! 1) \<le> 0xBF"
      "cp = join (ucast (?b0 AND 0x1F)) (s ! 1)" "n = 2"
      using assms(1)
      by (auto simp: utf8_decode_span_def Let_def word_less_nat_alt word_le_nat_alt utf8_tail_unroll [unfolded One_nat_def]
          in_range_Decoded)
    then show ?thesis using utf8_two [OF 2, of "s ! 1"] take_by_nth(2) by simp
  next
    case 3
    then have "2 < length s" "0x80 \<le> unat (s ! 1)" "unat (s ! 1) \<le> 0xBF" "0x80 \<le> unat (s ! 2)" "unat (s ! 2) \<le> 0xBF"
      "unat ?b0 = 0xE0 \<longrightarrow> 0xA0 \<le> unat (s ! 1)" "unat ?b0 = 0xED \<longrightarrow> unat (s ! 1) \<le> 0x9F"
      "cp = join (join (ucast (?b0 AND 0x0F)) (s ! 1)) (s ! 2)" "n = 3"
      using assms(1)
      by (auto simp: utf8_decode_span_def Let_def word_less_nat_alt word_le_nat_alt utf8_tail_unroll [unfolded One_nat_def]
          in_range_Decoded word_unat_eq_iff split: if_splits)
    then show ?thesis using utf8_three [OF 3, of "s ! 1" "s ! 2"] take_by_nth(3) by simp
  next
    case 4
    then have "3 < length s" "0x80 \<le> unat (s ! 1)" "unat (s ! 1) \<le> 0xBF" "0x80 \<le> unat (s ! 2)" "unat (s ! 2) \<le> 0xBF"
      "0x80 \<le> unat (s ! 3)" "unat (s ! 3) \<le> 0xBF"
      "unat ?b0 = 0xF0 \<longrightarrow> 0x90 \<le> unat (s ! 1)" "unat ?b0 = 0xF4 \<longrightarrow> unat (s ! 1) \<le> 0x8F"
      "cp = join (join (join (ucast (?b0 AND 0x07)) (s ! 1)) (s ! 2)) (s ! 3)" "n = 4"
      using assms(1)
      by (auto simp: utf8_decode_span_def Let_def word_less_nat_alt word_le_nat_alt utf8_tail_unroll [unfolded One_nat_def]
          in_range_Decoded word_unat_eq_iff split: if_splits)
    then show ?thesis using utf8_four [OF 4, of "s ! 1" "s ! 2" "s ! 3"] take_by_nth(4) by simp
  qed
qed

section \<open>The encoder is accepted\<close>

fun utf8_value :: "nat list \<Rightarrow> nat" where
  "utf8_value [a] = a"
| "utf8_value [a, b] = 64 * (a - 192) + (b - 128)"
| "utf8_value [a, b, c] = 64 * (64 * (a - 224) + (b - 128)) + (c - 128)"
| "utf8_value [a, b, c, d] = 64 * (64 * (64 * (a - 240) + (b - 128)) + (c - 128)) + (d - 128)"
| "utf8_value _ = 0"

lemma div_64: "n div 4096 = n div 64 div 64" "n div 262144 = n div 64 div 64 div 64" for n :: nat
  by (simp_all add: div_mult2_eq [symmetric])

lemma utf8_value_nat: "utf8_value (utf8_nat n) = n"
  by (simp add: utf8_nat_def div_64)

lemma utf8_enc_inj:
  assumes "scalar a" "scalar b" "utf8_enc a = utf8_enc b"
  shows "a = b"
proof -
  have "utf8_nat (unat a) = utf8_nat (unat b)"
    using assms utf8_enc_nat [of a] utf8_enc_nat [of b] by (simp add: scalar_def)
  then have "unat a = unat b" by (metis utf8_value_nat)
  then show ?thesis by (simp add: word_unat_eq_iff)
qed

lemma utf8_accepts:
  "unat b0 < 0x80 \<Longrightarrow> \<exists>cp. utf8_decode_span (b0 # rest) = Decoded cp 1"
  "0xC2 \<le> unat b0 \<Longrightarrow> unat b0 < 0xE0 \<Longrightarrow> 0x80 \<le> unat b1 \<Longrightarrow> unat b1 \<le> 0xBF \<Longrightarrow>
    \<exists>cp. utf8_decode_span (b0 # b1 # rest) = Decoded cp 2"
  "0xE0 \<le> unat b0 \<Longrightarrow> unat b0 < 0xF0 \<Longrightarrow> 0x80 \<le> unat b1 \<Longrightarrow> unat b1 \<le> 0xBF \<Longrightarrow>
    0x80 \<le> unat b2 \<Longrightarrow> unat b2 \<le> 0xBF \<Longrightarrow> unat b0 = 0xE0 \<longrightarrow> 0xA0 \<le> unat b1 \<Longrightarrow>
    unat b0 = 0xED \<longrightarrow> unat b1 \<le> 0x9F \<Longrightarrow>
    \<exists>cp. utf8_decode_span (b0 # b1 # b2 # rest) = Decoded cp 3"
  "0xF0 \<le> unat b0 \<Longrightarrow> unat b0 < 0xF5 \<Longrightarrow> 0x80 \<le> unat b1 \<Longrightarrow> unat b1 \<le> 0xBF \<Longrightarrow>
    0x80 \<le> unat b2 \<Longrightarrow> unat b2 \<le> 0xBF \<Longrightarrow> 0x80 \<le> unat b3 \<Longrightarrow> unat b3 \<le> 0xBF \<Longrightarrow>
    unat b0 = 0xF0 \<longrightarrow> 0x90 \<le> unat b1 \<Longrightarrow> unat b0 = 0xF4 \<longrightarrow> unat b1 \<le> 0x8F \<Longrightarrow>
    \<exists>cp. utf8_decode_span (b0 # b1 # b2 # b3 # rest) = Decoded cp 4"
  by (auto simp: utf8_decode_span_def Let_def word_less_nat_alt word_unat_eq_iff
      utf8_tail_unroll [unfolded One_nat_def] in_range_def)

lemma split_64:
  "n = 4096 * (n div 4096) + 64 * (n div 64 mod 64) + n mod 64"
  "n = 262144 * (n div 262144) + 4096 * (n div 4096 mod 64) + 64 * (n div 64 mod 64) + n mod 64" for n :: nat
proof -
  have d: "k = 64 * (k div 64) + k mod 64" for k :: nat by simp
  show "n = 4096 * (n div 4096) + 64 * (n div 64 mod 64) + n mod 64"
    unfolding div_64 using d [of n] d [of "n div 64"] by linarith
  show "n = 262144 * (n div 262144) + 4096 * (n div 4096 mod 64) + 64 * (n div 64 mod 64) + n mod 64"
    unfolding div_64 using d [of n] d [of "n div 64"] d [of "n div 64 div 64"] by linarith
qed

lemma utf8_decode_enc:
  assumes "scalar cp"
  shows "utf8_decode_span (utf8_enc cp @ rest) = Decoded cp (utf8_width cp)"
proof -
  define n where "n = unat cp"
  have n: "n \<le> 0x10FFFF" "\<not> (0xD800 \<le> n \<and> n \<le> 0xDFFF)"
    using assms by (auto simp: scalar_def n_def word_le_nat_alt)
  have m: "map unat (utf8_enc cp) = utf8_nat n"
    using assms utf8_enc_nat [of cp] by (simp add: scalar_def n_def)
  have len: "length (utf8_enc cp) = utf8_width cp" by (simp add: utf8_enc_def utf8_put_def utf8_width_def)
  have "\<exists>cp'. utf8_decode_span (utf8_enc cp @ rest) = Decoded cp' (utf8_width cp)"
  proof -
    consider (1) "n < 0x80" | (2) "0x80 \<le> n" "n < 0x800" | (3) "0x800 \<le> n" "n < 0x10000" | (4) "0x10000 \<le> n"
      by linarith
    then show ?thesis
    proof cases
      case 1
      then obtain b0 where "utf8_enc cp = [b0]" "unat b0 = n" using m by (auto simp: utf8_nat_def)
      with 1 len utf8_accepts(1) [of b0 rest] show ?thesis by simp
    next
      case 2
      then obtain b0 b1 where b: "utf8_enc cp = [b0, b1]" "unat b0 = 192 + n div 64" "unat b1 = 128 + n mod 64"
        using m by (auto simp: utf8_nat_def)
      have w: "utf8_width cp = 2" using 2 by (simp add: utf8_width_def word_less_nat_alt n_def)
      have "2 \<le> n div 64" "n div 64 < 32" "n mod 64 < 64" using 2 by simp_all
      then show ?thesis unfolding b(1) w append.simps by (intro utf8_accepts(2)) (simp_all add: b)
    next
      case 3
      then obtain b0 b1 b2 where b: "utf8_enc cp = [b0, b1, b2]" "unat b0 = 224 + n div 4096"
        "unat b1 = 128 + n div 64 mod 64" "unat b2 = 128 + n mod 64"
        using m by (auto simp: utf8_nat_def)
      define x y z where "x = n div 4096" and "y = n div 64 mod 64" and "z = n mod 64"
      have e: "n = 4096 * x + 64 * y + z" "y < 64" "z < 64"
        unfolding x_def y_def z_def by (rule split_64) simp_all
      have w: "utf8_width cp = 3" using 3 by (simp add: utf8_width_def word_less_nat_alt n_def)
      have "x < 16" "x = 0 \<longrightarrow> 32 \<le> y" "x = 13 \<longrightarrow> y < 32" using e 3 n(2) by auto
      then show ?thesis unfolding b(1) w append.simps
        using e by (intro utf8_accepts(3)) (auto simp: b [folded x_def y_def z_def])
    next
      case 4
      then obtain b0 b1 b2 b3 where b: "utf8_enc cp = [b0, b1, b2, b3]" "unat b0 = 240 + n div 262144"
        "unat b1 = 128 + n div 4096 mod 64" "unat b2 = 128 + n div 64 mod 64" "unat b3 = 128 + n mod 64"
        using m by (auto simp: utf8_nat_def)
      define x y z u where "x = n div 262144" and "y = n div 4096 mod 64" and "z = n div 64 mod 64" and "u = n mod 64"
      have e: "n = 262144 * x + 4096 * y + 64 * z + u" "y < 64" "z < 64" "u < 64"
        unfolding x_def y_def z_def u_def by (rule split_64) simp_all
      have w: "utf8_width cp = 4" using 4 by (simp add: utf8_width_def word_less_nat_alt n_def)
      have "x \<le> 4" "x = 0 \<longrightarrow> 16 \<le> y" "x = 4 \<longrightarrow> y < 16" using e 4 n(1) by auto
      then show ?thesis unfolding b(1) w append.simps
        using e by (intro utf8_accepts(4)) (auto simp: b [folded x_def y_def z_def u_def])
    qed
  qed
  then obtain cp' where d: "utf8_decode_span (utf8_enc cp @ rest) = Decoded cp' (utf8_width cp)" by blast
  have ne: "utf8_enc cp @ rest \<noteq> []" using len by (auto simp: utf8_width_def split: if_splits)
  have "scalar cp'" "utf8_enc cp' = utf8_enc cp"
    using utf8_decode_inverse [OF d ne] len by auto
  with utf8_enc_inj [OF _ assms] d show ?thesis by simp
qed

end
