(* ===== verification/Utf_Convert.thy ===== *)
theory Utf_Convert
  imports Utf
begin

text \<open>
  The conversions between UTF-8 and UTF-16 of \<^verbatim>\<open>src/proven/utf.c\<close>, over the decoders and encoders of
  \<open>Utf\<close>: partial, measuring, atomic into a fixed buffer, validating and lossy. A loop returns its
  error, the units it consumed and the units it stores. The lemmas relate each to the list of scalar
  values its input encodes.
\<close>

section \<open>UTF-16 in numbers\<close>

lemma unat_wide: "unat (ucast w :: codepoint) = unat w" for w :: unit16
  using unsigned_less [of w, where ?'a = nat] by (simp add: unsigned_ucast_eq take_bit_eq_mod)

lemma unat_narrow: "unat w < 0x10000 \<Longrightarrow> unat (ucast w :: unit16) = unat w" for w :: codepoint
  by (simp add: unsigned_ucast_eq take_bit_eq_mod)

lemma unat_high: "unat x < 1024 \<Longrightarrow> unat (push_bit 10 x :: codepoint) = 1024 * unat x"
  by (subst unsigned_push_bit_eq) (simp add: take_bit_eq_mod push_bit_eq_mult)

lemma unat_pair:
  assumes "unat x = h" "unat y = l" "h < 1024" "l < 1024"
  shows "unat (0x10000 + push_bit 10 x + y :: codepoint) = 0x10000 + 1024 * h + l"
  using assms unat_high [of x] by (simp add: unat_word_ariths)

lemma utf16_put_nat:
  assumes "cp \<le> 0x10FFFF"
  shows "map unat (utf16_put cp) =
    (if 0x10000 \<le> unat cp
     then [0xD800 + (unat cp - 0x10000) div 1024, 0xDC00 + (unat cp - 0x10000) mod 1024] else [unat cp])"
proof (cases "0x10000 \<le> unat cp")
  case True
  define v where "v = cp - 0x10000"
  have v: "unat v = unat cp - 0x10000" using True by (simp add: v_def unat_sub word_le_nat_alt)
  then have lt: "unat v < 0x100000" using assms by (simp add: word_le_nat_alt)
  have m: "unat (v AND 0x3FF) = unat v mod 1024" unfolding mask_words by (simp add: unat_and_mask_mod)
  have d: "unat (drop_bit 10 v) = unat v div 1024" using unat_drop_bit_div [of 10 v] by simp
  have a: "unat (0xD800 + drop_bit 10 v) = 0xD800 + unat v div 1024"
    using lt d by (simp add: unat_word_ariths)
  have b: "unat (0xDC00 + (v AND 0x3FF)) = 0xDC00 + unat v mod 1024"
    using lt m by (simp add: unat_word_ariths)
  have "unat v mod 1024 < 1024" "unat v div 1024 < 1024" using lt by simp_all
  then show ?thesis
    using True a b v by (simp add: utf16_put_def word_le_nat_alt unat_narrow v_def [symmetric])
next
  case False
  then show ?thesis by (simp add: utf16_put_def word_le_nat_alt unat_narrow)
qed

lemma utf16_decode_inverse:
  assumes "utf16_decode s = Decoded cp n" "s \<noteq> []"
  shows "scalar cp \<and> n = length (utf16_put cp) \<and> n \<le> length s \<and> take n s = utf16_put cp"
proof -
  have l: "0 < length s" using assms(2) by simp
  define u where "u = unat (s ! 0)"
  have lt: "u < 0x10000" unfolding u_def using unsigned_less [of "s ! 0", where ?'a = nat] by simp
  have inj: "map unat xs = map unat ys \<Longrightarrow> xs = ys" for xs ys :: "unit16 list"
    by (rule map_injective) (auto intro!: injI unsigned_word_eqI)
  show ?thesis
  proof (cases "u < 0xD800 \<or> 0xDFFF < u")
    case True
    then have cp: "cp = ucast (s ! 0)" "n = 1"
      using assms(1) by (auto simp: utf16_decode_def Let_def word_less_nat_alt unat_wide u_def)
    have n: "unat cp = u" using cp by (simp add: u_def unat_wide)
    have "cp \<le> 0x10FFFF" using n lt by (simp add: word_le_nat_alt)
    then have "utf16_put cp = [s ! 0]"
      using lt n by (intro inj) (simp add: utf16_put_nat u_def)
    moreover have "scalar cp" using True lt n by (auto simp: scalar_def word_le_nat_alt)
    ultimately show ?thesis using take_by_nth(1) [OF l] cp l by (simp add: Suc_le_eq)
  next
    case False
    define v where "v = unat (s ! 1)"
    have k: "0xD800 \<le> u" "u < 0xDC00" "1 < length s" "0xDC00 \<le> v" "v \<le> 0xDFFF" "n = 2"
      "cp = 0x10000 + push_bit 10 (ucast (s ! 0) - 0xD800) + (ucast (s ! 1) - 0xDC00)"
      using False assms(1)
      by (auto simp: utf16_decode_def Let_def word_less_nat_alt word_le_nat_alt unat_wide u_def v_def split: if_splits)
    have a: "unat (ucast (s ! 0) - 0xD800 :: codepoint) = u - 0xD800"
      "unat (ucast (s ! 1) - 0xDC00 :: codepoint) = v - 0xDC00"
      using k by (simp_all add: unat_sub word_le_nat_alt unat_wide u_def v_def)
    define x y where "x = u - 0xD800" and "y = v - 0xDC00"
    have xy: "u = 0xD800 + x" "v = 0xDC00 + y" "x < 1024" "y < 1024" using k by (auto simp: x_def y_def)
    have n: "unat cp = 0x10000 + 1024 * x + y"
      unfolding k(7) by (rule unat_pair [OF a [folded x_def y_def] xy(3,4)])
    then have le: "cp \<le> 0x10FFFF" using xy(3,4) by (simp add: word_le_nat_alt)
    have "map unat (utf16_put cp) = map unat [s ! 0, s ! 1]"
      using xy unfolding utf16_put_nat [OF le] n by (simp add: u_def [symmetric] v_def [unfolded One_nat_def, symmetric])
    then have "utf16_put cp = [s ! 0, s ! 1]" by (rule inj)
    moreover have "scalar cp" using n le by (simp add: scalar_def word_le_nat_alt)
    ultimately show ?thesis using take_by_nth(2) k by simp
  qed
qed

lemma utf16_decode_put:
  assumes "scalar cp"
  shows "utf16_decode (utf16_put cp @ rest) = Decoded cp (length (utf16_put cp))"
proof -
  have le: "cp \<le> 0x10FFFF" and n: "\<not> (0xD800 \<le> unat cp \<and> unat cp \<le> 0xDFFF)" "unat cp \<le> 0x10FFFF"
    using assms by (auto simp: scalar_def word_le_nat_alt)
  show ?thesis
  proof (cases "0x10000 \<le> unat cp")
    case False
    then have "utf16_put cp = [ucast cp]" by (simp add: utf16_put_def word_le_nat_alt)
    moreover have "ucast (ucast cp :: unit16) = cp"
      using False by (simp add: word_unat_eq_iff unat_wide unat_narrow)
    ultimately show ?thesis using n(1) by (auto simp: utf16_decode_def word_less_nat_alt not_le)
  next
    case True
    define h where "h = (unat cp - 0x10000) div 1024"
    define l where "l = (unat cp - 0x10000) mod 1024"
    have hl: "h < 1024" "l < 1024" "unat cp = 0x10000 + 1024 * h + l"
      using True n(2) by (simp_all add: h_def l_def)
    obtain a b where ab: "utf16_put cp = [a, b]" "unat a = 0xD800 + h" "unat b = 0xDC00 + l"
      using utf16_put_nat [OF le] True by (auto simp: h_def l_def)
    have s: "unat (ucast a - 0xD800 :: codepoint) = h" "unat (ucast b - 0xDC00 :: codepoint) = l"
      using hl ab by (simp_all add: unat_sub word_le_nat_alt unat_wide)
    have "unat (0x10000 + push_bit 10 (ucast a - 0xD800) + (ucast b - 0xDC00) :: codepoint) = unat cp"
      unfolding hl(3) by (rule unat_pair [OF s hl(1,2)])
    then have "0x10000 + push_bit 10 (ucast a - 0xD800) + (ucast b - 0xDC00) = cp"
      by (simp only: word_unat_eq_iff)
    then show ?thesis
      using ab hl by (auto simp: utf16_decode_def Let_def word_less_nat_alt word_le_nat_alt unat_wide)
  qed
qed

section \<open>The conversions\<close>

definition utf16_units :: "codepoint \<Rightarrow> nat" where
  "utf16_units cp = (if cp \<ge> 0x10000 then 2 else 1)"

lemma length_utf16_put [simp]: "length (utf16_put cp) = utf16_units cp"
  by (simp add: utf16_put_def utf16_units_def)

lemma utf16_units_pos [simp]: "0 < utf16_units cp"
  by (simp add: utf16_units_def)

record proven_utf_step =
  serr :: proven_err
  consumed :: nat
  written :: nat

lemma utf8_progress: "utf8_decode_span s = Decoded cp n \<Longrightarrow> s \<noteq> [] \<Longrightarrow> 0 < n \<and> n \<le> length s"
  using utf8_decode_inverse [of s cp n] by (auto simp: utf8_width_def)

lemma utf16_progress: "utf16_decode s = Decoded cp n \<Longrightarrow> s \<noteq> [] \<Longrightarrow> 0 < n \<and> n \<le> length s"
  using utf16_decode_inverse [of s cp n] by (auto simp: utf16_put_def)

function utf8_to_utf16_loop :: "byte list \<Rightarrow> nat \<Rightarrow> proven_err \<times> nat \<times> unit16 list" where
  "utf8_to_utf16_loop s room =
    (if s = [] then (PROVEN_OK, 0, [])
     else case utf8_decode_span s of
       Malformed _ \<Rightarrow> (PROVEN_ERR_INVALID_ENCODING, 0, [])
     | Cut_off \<Rightarrow> (PROVEN_ERR_NEED_MORE, 0, [])
     | Decoded cp len \<Rightarrow>
         let units = utf16_units cp in
         if room < units then (PROVEN_ERR_OUT_OF_BOUNDS, 0, [])
         else case utf8_to_utf16_loop (drop len s) (room - units) of
           (e, c, us) \<Rightarrow> (e, len + c, utf16_put cp @ us))"
  by pat_completeness auto
termination
  by (relation "measure (\<lambda>(s, room). length s)") (auto dest: utf8_progress)

definition proven_utf8_to_utf16_partial :: "byte view \<Rightarrow> unit16 view \<Rightarrow> proven_utf_step \<times> unit16 view" where
  "proven_utf8_to_utf16_partial src out =
    (if (view_size src > 0 \<and> view_null src) \<or> (view_size out > 0 \<and> view_null out)
     then (\<lparr>serr = PROVEN_ERR_INVALID_ARG, consumed = 0, written = 0\<rparr>, out)
     else case utf8_to_utf16_loop (view_data src) (view_size out) of
       (e, c, us) \<Rightarrow> (\<lparr>serr = e, consumed = c, written = length us\<rparr>, store us out))"

function utf16_to_utf8_loop :: "unit16 list \<Rightarrow> nat \<Rightarrow> proven_err \<times> nat \<times> byte list" where
  "utf16_to_utf8_loop s room =
    (if s = [] then (PROVEN_OK, 0, [])
     else case utf16_decode s of
       Malformed _ \<Rightarrow> (PROVEN_ERR_INVALID_ENCODING, 0, [])
     | Cut_off \<Rightarrow> (PROVEN_ERR_NEED_MORE, 0, [])
     | Decoded cp len \<Rightarrow>
         let width = utf8_width cp in
         if room < width then (PROVEN_ERR_OUT_OF_BOUNDS, 0, [])
         else case utf16_to_utf8_loop (drop len s) (room - width) of
           (e, c, bs) \<Rightarrow> (e, len + c, utf8_put cp width @ bs))"
  by pat_completeness auto
termination
  by (relation "measure (\<lambda>(s, room). length s)") (auto dest: utf16_progress)

definition proven_utf16_to_utf8_partial :: "unit16 view \<Rightarrow> byte view \<Rightarrow> proven_utf_step \<times> byte view" where
  "proven_utf16_to_utf8_partial src out =
    (if (view_size src > 0 \<and> view_null src) \<or> (view_size out > 0 \<and> view_null out)
     then (\<lparr>serr = PROVEN_ERR_INVALID_ARG, consumed = 0, written = 0\<rparr>, out)
     else case utf16_to_utf8_loop (view_data src) (view_size out) of
       (e, c, bs) \<Rightarrow> (\<lparr>serr = e, consumed = c, written = length bs\<rparr>, store bs out))"

text \<open>A measured size, or the error that stopped the measuring.\<close>

function utf8_to_utf16_measure :: "byte list \<Rightarrow> nat \<Rightarrow> proven_err + nat" where
  "utf8_to_utf16_measure s acc =
    (if s = [] then Inr acc
     else case utf8_decode_span s of
       Decoded cp len \<Rightarrow> utf8_to_utf16_measure (drop len s) (wrap (acc + utf16_units cp))
     | _ \<Rightarrow> Inl PROVEN_ERR_INVALID_ENCODING)"
  by pat_completeness auto
termination
  by (relation "measure (\<lambda>(s, acc). length s)") (auto dest: utf8_progress)

definition proven_utf8_to_utf16_size :: "byte view \<Rightarrow> proven_err + nat" where
  "proven_utf8_to_utf16_size src =
    (if view_size src > 0 \<and> view_null src then Inl PROVEN_ERR_INVALID_ARG
     else utf8_to_utf16_measure (view_data src) 0)"

function utf16_to_utf8_measure :: "unit16 list \<Rightarrow> nat \<Rightarrow> proven_err + nat" where
  "utf16_to_utf8_measure s acc =
    (if s = [] then Inr acc
     else case utf16_decode s of
       Decoded cp len \<Rightarrow>
         (case ckd_add acc (utf8_width cp) of
            None \<Rightarrow> Inl PROVEN_ERR_OVERFLOW
          | Some acc' \<Rightarrow> utf16_to_utf8_measure (drop len s) acc')
     | _ \<Rightarrow> Inl PROVEN_ERR_INVALID_ENCODING)"
  by pat_completeness auto
termination
  by (relation "measure (\<lambda>(s, acc). length s)") (auto dest: utf16_progress)

definition proven_utf16_to_utf8_size :: "unit16 view \<Rightarrow> proven_err + nat" where
  "proven_utf16_to_utf8_size src =
    (if view_size src > 0 \<and> view_null src then Inl PROVEN_ERR_INVALID_ARG
     else utf16_to_utf8_measure (view_data src) 0)"

definition proven_utf8_to_utf16 :: "byte view \<Rightarrow> unit16 view \<Rightarrow> proven_err \<times> nat \<times> unit16 view" where
  "proven_utf8_to_utf16 src out =
    (if view_size out > 0 \<and> view_null out then (PROVEN_ERR_INVALID_ARG, 0, out)
     else case proven_utf8_to_utf16_size src of
       Inl e \<Rightarrow> (e, 0, out)
     | Inr need \<Rightarrow>
         if need > view_size out then (PROVEN_ERR_OUT_OF_BOUNDS, 0, out)
         else (case proven_utf8_to_utf16_partial src out of
                 (st, out') \<Rightarrow> if serr st \<noteq> PROVEN_OK then (serr st, 0, out') else (PROVEN_OK, written st, out')))"

definition proven_utf16_to_utf8 :: "unit16 view \<Rightarrow> byte view \<Rightarrow> proven_err \<times> nat \<times> byte view" where
  "proven_utf16_to_utf8 src out =
    (if view_size out > 0 \<and> view_null out then (PROVEN_ERR_INVALID_ARG, 0, out)
     else case proven_utf16_to_utf8_size src of
       Inl e \<Rightarrow> (e, 0, out)
     | Inr need \<Rightarrow>
         if need > view_size out then (PROVEN_ERR_OUT_OF_BOUNDS, 0, out)
         else (case proven_utf16_to_utf8_partial src out of
                 (st, out') \<Rightarrow> if serr st \<noteq> PROVEN_OK then (serr st, 0, out') else (PROVEN_OK, written st, out')))"

text \<open>Validation, over the public decoder: the position of the first bad character, or \<open>None\<close>.\<close>

function utf8_validate_loop :: "byte view \<Rightarrow> nat \<Rightarrow> nat option" where
  "utf8_validate_loop s pos =
    (if pos < view_size s then
       let c = proven_utf8_decode_next s pos in
       if cerr c \<noteq> PROVEN_OK then Some pos else utf8_validate_loop s (pos + clen c)
     else None)"
  by pat_completeness auto
termination
proof (relation "measure (\<lambda>(s, pos). view_size s - pos)", simp)
  fix s :: "byte view" and pos c
  assume p: "pos < view_size s" "c = proven_utf8_decode_next s pos" "\<not> cerr c \<noteq> PROVEN_OK"
  then obtain cp n where "utf8_decode_span (drop pos (view_data s)) = Decoded cp n" "clen c = n" "\<not> view_null s"
    by (auto simp: proven_utf8_decode_next_def split: if_splits utf_result.splits)
  moreover from this p(1) have "drop pos (view_data s) \<noteq> []" by (simp add: view_size_data)
  ultimately have "0 < clen c" using utf8_progress by blast
  with p(1) show "((s, pos + clen c), (s, pos)) \<in> measure (\<lambda>(s, pos). view_size s - pos)" by simp
qed

definition proven_utf8_validate :: "byte view \<Rightarrow> proven_err \<times> nat option" where
  "proven_utf8_validate s =
    (if view_size s > 0 \<and> view_null s then (PROVEN_ERR_INVALID_ARG, None)
     else case utf8_validate_loop s 0 of
       Some bad_at \<Rightarrow> (PROVEN_ERR_INVALID_ENCODING, Some bad_at) | None \<Rightarrow> (PROVEN_OK, None))"

section \<open>Lossy conversion\<close>

text \<open>One pass with the count so far: the final count or the overflow, and the units to store.\<close>

definition lossy8_step :: "byte list \<Rightarrow> codepoint \<times> nat" where
  "lossy8_step s = (case utf8_decode_span s of
     Decoded cp r \<Rightarrow> (cp, r) | Cut_off \<Rightarrow> (0xFFFD, length s) | Malformed bad \<Rightarrow> (0xFFFD, bad))"

definition lossy16_step :: "unit16 list \<Rightarrow> codepoint \<times> nat" where
  "lossy16_step s = (case utf16_decode s of Decoded cp r \<Rightarrow> (cp, r) | _ \<Rightarrow> (0xFFFD, 1))"

lemma utf8_malformed_pos:
  assumes "utf8_decode_span s = Malformed k"
  shows "0 < k"
  using assms
  by (auto simp: utf8_decode_span_def Let_def utf8_tail_unroll [unfolded One_nat_def] in_range_def split: if_splits)

lemma lossy8_progress: "s \<noteq> [] \<Longrightarrow> 0 < snd (lossy8_step s)"
  by (auto simp: lossy8_step_def utf8_malformed_pos split: utf_result.splits dest: utf8_progress)

lemma lossy16_progress: "s \<noteq> [] \<Longrightarrow> 0 < snd (lossy16_step s)"
  by (auto simp: lossy16_step_def split: utf_result.splits dest: utf16_progress)

function utf8_to_utf16_lossy_loop :: "byte list \<Rightarrow> nat \<Rightarrow> proven_err \<times> nat \<times> unit16 list" where
  "utf8_to_utf16_lossy_loop s w =
    (if s = [] then (PROVEN_OK, w, [])
     else let (cp, step) = lossy8_step s in
       case ckd_add w (utf16_units cp) of
         None \<Rightarrow> (PROVEN_ERR_OVERFLOW, 0, utf16_put cp)
       | Some w' \<Rightarrow>
           (case utf8_to_utf16_lossy_loop (drop step s) w' of (e, c, us) \<Rightarrow> (e, c, utf16_put cp @ us)))"
  by pat_completeness auto
termination
proof (relation "measure (\<lambda>(s, w). length s)", simp)
  fix s :: "byte list" and w x cp step w'
  assume "s \<noteq> []" "x = lossy8_step s" "(cp, step) = x"
  with lossy8_progress [of s] show "((drop step s, w'), (s, w)) \<in> measure (\<lambda>(s, w). length s)"
    by (cases "lossy8_step s") auto
qed

function utf16_to_utf8_lossy_loop :: "unit16 list \<Rightarrow> nat \<Rightarrow> proven_err \<times> nat \<times> byte list" where
  "utf16_to_utf8_lossy_loop s w =
    (if s = [] then (PROVEN_OK, w, [])
     else let (cp, step) = lossy16_step s; width = utf8_width cp in
       case ckd_add w width of
         None \<Rightarrow> (PROVEN_ERR_OVERFLOW, 0, utf8_put cp width)
       | Some w' \<Rightarrow>
           (case utf16_to_utf8_lossy_loop (drop step s) w' of (e, c, us) \<Rightarrow> (e, c, utf8_put cp width @ us)))"
  by pat_completeness auto
termination
proof (relation "measure (\<lambda>(s, w). length s)", simp)
  fix s :: "unit16 list" and w x cp step wd w'
  assume "s \<noteq> []" "x = lossy16_step s" "(cp, step) = x"
  with lossy16_progress [of s] show "((drop step s, w'), (s, w)) \<in> measure (\<lambda>(s, w). length s)"
    by (cases "lossy16_step s") auto
qed

definition utf8_to_utf16_lossy_run ::
  "byte view \<Rightarrow> unit16 view option \<Rightarrow> proven_err \<times> nat \<times> unit16 view option" where
  "utf8_to_utf16_lossy_run src out =
    (if view_size src > 0 \<and> view_null src then (PROVEN_ERR_INVALID_ARG, 0, out)
     else case utf8_to_utf16_lossy_loop (view_data src) 0 of
       (e, c, us) \<Rightarrow> (e, c, map_option (store us) out))"

definition utf16_to_utf8_lossy_run ::
  "unit16 view \<Rightarrow> byte view option \<Rightarrow> proven_err \<times> nat \<times> byte view option" where
  "utf16_to_utf8_lossy_run src out =
    (if view_size src > 0 \<and> view_null src then (PROVEN_ERR_INVALID_ARG, 0, out)
     else case utf16_to_utf8_lossy_loop (view_data src) 0 of
       (e, c, us) \<Rightarrow> (e, c, map_option (store us) out))"

definition proven_utf8_to_utf16_lossy_size :: "byte view \<Rightarrow> proven_err \<times> nat" where
  "proven_utf8_to_utf16_lossy_size src =
    (case utf8_to_utf16_lossy_run src None of (e, c, _) \<Rightarrow> if e \<noteq> PROVEN_OK then (e, 0) else (e, c))"

definition proven_utf16_to_utf8_lossy_size :: "unit16 view \<Rightarrow> proven_err \<times> nat" where
  "proven_utf16_to_utf8_lossy_size src =
    (case utf16_to_utf8_lossy_run src None of (e, c, _) \<Rightarrow> if e \<noteq> PROVEN_OK then (e, 0) else (e, c))"

definition proven_utf8_to_utf16_lossy :: "byte view \<Rightarrow> unit16 view \<Rightarrow> proven_err \<times> nat \<times> unit16 view" where
  "proven_utf8_to_utf16_lossy src out =
    (if view_size out > 0 \<and> view_null out then (PROVEN_ERR_INVALID_ARG, 0, out)
     else case proven_utf8_to_utf16_lossy_size src of (err, need) \<Rightarrow>
       if err \<noteq> PROVEN_OK then (err, 0, out)
       else if need > view_size out then (PROVEN_ERR_OUT_OF_BOUNDS, 0, out)
       else if need = 0 then (PROVEN_OK, 0, out)
       else case utf8_to_utf16_lossy_run src (Some out) of
         (e, n, out') \<Rightarrow> (e, if e = PROVEN_OK then n else 0, the out'))"

definition proven_utf16_to_utf8_lossy :: "unit16 view \<Rightarrow> byte view \<Rightarrow> proven_err \<times> nat \<times> byte view" where
  "proven_utf16_to_utf8_lossy src out =
    (if view_size out > 0 \<and> view_null out then (PROVEN_ERR_INVALID_ARG, 0, out)
     else case proven_utf16_to_utf8_lossy_size src of (err, need) \<Rightarrow>
       if err \<noteq> PROVEN_OK then (err, 0, out)
       else if need > view_size out then (PROVEN_ERR_OUT_OF_BOUNDS, 0, out)
       else if need = 0 then (PROVEN_OK, 0, out)
       else case utf16_to_utf8_lossy_run src (Some out) of
         (e, n, out') \<Rightarrow> (e, if e = PROVEN_OK then n else 0, the out'))"

declare utf8_to_utf16_loop.simps [simp del] utf16_to_utf8_loop.simps [simp del]
  utf8_to_utf16_measure.simps [simp del] utf16_to_utf8_measure.simps [simp del]
  utf8_validate_loop.simps [simp del] utf8_to_utf16_lossy_loop.simps [simp del]
  utf16_to_utf8_lossy_loop.simps [simp del]

section \<open>Texts of scalar values\<close>

definition utf8_text :: "codepoint list \<Rightarrow> byte list" where
  "utf8_text cps = concat (map utf8_enc cps)"

definition utf16_text :: "codepoint list \<Rightarrow> unit16 list" where
  "utf16_text cps = concat (map utf16_put cps)"

lemma text_simps [simp]:
  "utf8_text [] = []" "utf8_text (c # cs) = utf8_enc c @ utf8_text cs"
  "utf16_text [] = []" "utf16_text (c # cs) = utf16_put c @ utf16_text cs"
  by (simp_all add: utf8_text_def utf16_text_def)

lemma enc_lengths [simp]:
  "length (utf8_enc cp) = utf8_width cp"
  "utf8_enc cp \<noteq> []" "utf16_put cp \<noteq> []" "0 < utf8_width cp"
  by (auto simp: utf8_enc_def utf8_put_def utf8_width_def utf16_put_def)

text \<open>The loop of the conversion to UTF-16, on the text of a list of scalar values, and in general.\<close>

lemma utf8_loop_text:
  "\<forall>c \<in> set cps. scalar c \<Longrightarrow> length (utf16_text cps) \<le> room \<Longrightarrow>
    utf8_to_utf16_loop (utf8_text cps) room = (PROVEN_OK, length (utf8_text cps), utf16_text cps)"
proof (induction cps arbitrary: room)
  case Nil
  show ?case by (simp add: utf8_to_utf16_loop.simps)
next
  case (Cons c cps)
  then show ?case
    by (subst utf8_to_utf16_loop.simps) (auto simp: utf8_decode_enc Let_def)
qed

lemma utf16_loop_text:
  "\<forall>c \<in> set cps. scalar c \<Longrightarrow> length (utf8_text cps) \<le> room \<Longrightarrow>
    utf16_to_utf8_loop (utf16_text cps) room = (PROVEN_OK, length (utf16_text cps), utf8_text cps)"
proof (induction cps arbitrary: room)
  case Nil
  show ?case by (simp add: utf16_to_utf8_loop.simps)
next
  case (Cons c cps)
  then show ?case
    by (subst utf16_to_utf8_loop.simps) (auto simp: utf16_decode_put Let_def utf8_enc_def [symmetric] split del: if_split)
qed

lemma utf8_loop_inverse:
  "utf8_to_utf16_loop s room = (e, c, us) \<Longrightarrow>
    \<exists>cps. (\<forall>c \<in> set cps. scalar c) \<and> c \<le> length s \<and> take c s = utf8_text cps \<and> us = utf16_text cps \<and>
      length us \<le> room \<and> (e = PROVEN_OK \<longrightarrow> c = length s)"
proof (induction s room arbitrary: e c us rule: utf8_to_utf16_loop.induct)
  case (1 s room)
  show ?case
  proof (cases "e = PROVEN_OK \<and> s = [] \<or> us = [] \<and> c = 0 \<and> e \<noteq> PROVEN_OK")
    case True
    with 1(2) show ?thesis by (intro exI [of _ "[]"]) (auto simp: utf8_to_utf16_loop.simps [of s])
  next
    case False
    then obtain cp len c' us' where d: "s \<noteq> []" "utf8_decode_span s = Decoded cp len"
      "length (utf16_put cp) \<le> room" "c = len + c'" "us = utf16_put cp @ us'"
      "utf8_to_utf16_loop (drop len s) (room - length (utf16_put cp)) = (e, c', us')"
      using 1(2) unfolding utf8_to_utf16_loop.simps [of s] Let_def
      by (auto simp: not_less split: if_splits utf_result.splits prod.splits)
    note inv = utf8_decode_inverse [OF d(2,1)]
    have "\<exists>cps. (\<forall>c \<in> set cps. scalar c) \<and> c' \<le> length (drop len s) \<and> take c' (drop len s) = utf8_text cps \<and>
        us' = utf16_text cps \<and> length us' \<le> room - length (utf16_put cp) \<and> (e = PROVEN_OK \<longrightarrow> c' = length (drop len s))"
      using 1(1) [OF d(1,2) _ _ , of _ e c' us'] d(3,6) by (auto split: if_splits)
    then obtain cps where cps: "\<forall>c \<in> set cps. scalar c" "c' \<le> length s - len" "take c' (drop len s) = utf8_text cps"
      "us' = utf16_text cps" "length us' \<le> room - length (utf16_put cp)" "e = PROVEN_OK \<longrightarrow> c' = length s - len"
      by auto
    show ?thesis
      using inv cps d(3-5) by (intro exI [of _ "cp # cps"]) (auto simp: take_add)
  qed
qed

lemma utf16_loop_inverse:
  "utf16_to_utf8_loop s room = (e, c, us) \<Longrightarrow>
    \<exists>cps. (\<forall>c \<in> set cps. scalar c) \<and> c \<le> length s \<and> take c s = utf16_text cps \<and> us = utf8_text cps \<and>
      length us \<le> room \<and> (e = PROVEN_OK \<longrightarrow> c = length s)"
proof (induction s room arbitrary: e c us rule: utf16_to_utf8_loop.induct)
  case (1 s room)
  show ?case
  proof (cases "e = PROVEN_OK \<and> s = [] \<or> us = [] \<and> c = 0 \<and> e \<noteq> PROVEN_OK")
    case True
    with 1(2) show ?thesis by (intro exI [of _ "[]"]) (auto simp: utf16_to_utf8_loop.simps [of s])
  next
    case False
    then obtain cp len c' us' where d: "s \<noteq> []" "utf16_decode s = Decoded cp len"
      "utf8_width cp \<le> room" "c = len + c'" "us = utf8_enc cp @ us'"
      "utf16_to_utf8_loop (drop len s) (room - utf8_width cp) = (e, c', us')"
      using 1(2) unfolding utf16_to_utf8_loop.simps [of s] Let_def utf8_enc_def [symmetric]
      by (auto simp: not_less split: if_splits utf_result.splits prod.splits)
    note inv = utf16_decode_inverse [OF d(2,1)]
    have "\<exists>cps. (\<forall>c \<in> set cps. scalar c) \<and> c' \<le> length (drop len s) \<and> take c' (drop len s) = utf16_text cps \<and>
        us' = utf8_text cps \<and> length us' \<le> room - utf8_width cp \<and> (e = PROVEN_OK \<longrightarrow> c' = length (drop len s))"
      using 1(1) [OF d(1,2) _ _ , of _ e c' us'] d(3,6) by (auto split: if_splits)
    then obtain cps where cps: "\<forall>c \<in> set cps. scalar c" "c' \<le> length s - len" "take c' (drop len s) = utf16_text cps"
      "us' = utf8_text cps" "length us' \<le> room - utf8_width cp" "e = PROVEN_OK \<longrightarrow> c' = length s - len"
      by auto
    show ?thesis
      using inv cps d(3-5) by (intro exI [of _ "cp # cps"]) (auto simp: take_add)
  qed
qed

text \<open>Measuring.\<close>

lemma utf8_measure_text:
  "\<forall>c \<in> set cps. scalar c \<Longrightarrow> acc + length (utf16_text cps) \<le> SIZE_MAX \<Longrightarrow>
    utf8_to_utf16_measure (utf8_text cps) acc = Inr (acc + length (utf16_text cps))"
proof (induction cps arbitrary: acc)
  case Nil
  show ?case by (simp add: utf8_to_utf16_measure.simps)
next
  case (Cons c cps)
  then show ?case
    by (subst utf8_to_utf16_measure.simps) (auto simp: utf8_decode_enc utf16_units_def [symmetric])
qed

lemma utf16_measure_text:
  "\<forall>c \<in> set cps. scalar c \<Longrightarrow> acc + length (utf8_text cps) \<le> SIZE_MAX \<Longrightarrow>
    utf16_to_utf8_measure (utf16_text cps) acc = Inr (acc + length (utf8_text cps))"
proof (induction cps arbitrary: acc)
  case Nil
  show ?case by (simp add: utf16_to_utf8_measure.simps)
next
  case (Cons c cps)
  then show ?case
    by (subst utf16_to_utf8_measure.simps) (auto simp: utf16_decode_put ckd_add_def)
qed

lemma utf8_measure_inverse:
  "utf8_to_utf16_measure s acc = Inr n \<Longrightarrow> \<exists>cps. (\<forall>c \<in> set cps. scalar c) \<and> s = utf8_text cps"
proof (induction s acc arbitrary: n rule: utf8_to_utf16_measure.induct)
  case (1 s acc)
  show ?case
  proof (cases "s = []")
    case False
    then obtain cp len where d: "utf8_decode_span s = Decoded cp len"
      "utf8_to_utf16_measure (drop len s) (wrap (acc + utf16_units cp)) = Inr n"
      using 1(2) by (auto simp: utf8_to_utf16_measure.simps [of s] split: utf_result.splits)
    obtain cps where "\<forall>c \<in> set cps. scalar c" "drop len s = utf8_text cps"
      using 1(1) [OF False d] by blast
    then show ?thesis using utf8_decode_inverse [OF d(1) False]
      by (intro exI [of _ "cp # cps"]) (metis append_take_drop_id set_ConsD text_simps(2))
  qed (rule exI [of _ "[]"], simp)
qed

lemma utf16_measure_inverse:
  "utf16_to_utf8_measure s acc = Inr n \<Longrightarrow> \<exists>cps. (\<forall>c \<in> set cps. scalar c) \<and> s = utf16_text cps"
proof (induction s acc arbitrary: n rule: utf16_to_utf8_measure.induct)
  case (1 s acc)
  show ?case
  proof (cases "s = []")
    case False
    then obtain cp len acc' where d: "utf16_decode s = Decoded cp len" "ckd_add acc (utf8_width cp) = Some acc'"
      "utf16_to_utf8_measure (drop len s) acc' = Inr n"
      using 1(2) by (auto simp: utf16_to_utf8_measure.simps [of s] split: utf_result.splits option.splits)
    obtain cps where "\<forall>c \<in> set cps. scalar c" "drop len s = utf16_text cps"
      using 1(1) [OF False d] by blast
    then show ?thesis using utf16_decode_inverse [OF d(1) False]
      by (intro exI [of _ "cp # cps"]) (metis append_take_drop_id set_ConsD text_simps(4))
  qed (rule exI [of _ "[]"], simp)
qed

end
