(* ===== verification/Utf_Props.thy ===== *)
theory Utf_Props
  imports Utf_Convert
begin

text \<open>What the conversions of \<^verbatim>\<open>src/proven/utf.c\<close> promise, stated on texts of scalar values.\<close>

lemma utf16_shorter: "length (utf16_text cps) \<le> length (utf8_text cps)"
proof (induction cps)
  case (Cons c cps)
  have "utf16_units c \<le> utf8_width c"
    by (auto simp: utf16_units_def utf8_width_def word_less_nat_alt word_le_nat_alt)
  with Cons show ?case by simp
qed simp

lemma utf8_at_most_triple: "length (utf8_text cps) \<le> 3 * length (utf16_text cps)"
proof (induction cps)
  case (Cons c cps)
  have "utf8_width c \<le> 3 * utf16_units c"
    by (auto simp: utf16_units_def utf8_width_def)
  with Cons show ?case by simp
qed simp

lemma utf8_text_inj:
  "\<forall>c \<in> set cs. scalar c \<Longrightarrow> \<forall>c \<in> set ds. scalar c \<Longrightarrow> utf8_text cs = utf8_text ds \<Longrightarrow> cs = ds"
proof (induction cs arbitrary: ds)
  case Nil
  then show ?case by (cases ds) auto
next
  case (Cons c cs)
  then obtain d ds' where d: "ds = d # ds'" by (cases ds) auto
  have e: "utf8_enc c @ utf8_text cs = utf8_enc d @ utf8_text ds'" using Cons.prems(3) d by simp
  have "utf8_decode_span (utf8_enc c @ utf8_text cs) = Decoded c (utf8_width c)"
    by (rule utf8_decode_enc) (use Cons.prems(1) in simp)
  moreover have "utf8_decode_span (utf8_enc d @ utf8_text ds') = Decoded d (utf8_width d)"
    by (rule utf8_decode_enc) (use Cons.prems(2) d in simp)
  ultimately have "c = d" using e by (metis utf_result.inject(1))
  moreover from this e have "utf8_text cs = utf8_text ds'" by simp
  then have "cs = ds'" using Cons.IH Cons.prems(1,2) d by (metis list.set_intros(2))
  ultimately show ?case using d by simp
qed

lemma utf16_text_inj:
  "\<forall>c \<in> set cs. scalar c \<Longrightarrow> \<forall>c \<in> set ds. scalar c \<Longrightarrow> utf16_text cs = utf16_text ds \<Longrightarrow> cs = ds"
proof (induction cs arbitrary: ds)
  case Nil
  then show ?case by (cases ds) auto
next
  case (Cons c cs)
  then obtain d ds' where d: "ds = d # ds'" by (cases ds) auto
  have e: "utf16_put c @ utf16_text cs = utf16_put d @ utf16_text ds'" using Cons.prems(3) d by simp
  have "utf16_decode (utf16_put c @ utf16_text cs) = Decoded c (length (utf16_put c))"
    by (rule utf16_decode_put) (use Cons.prems(1) in simp)
  moreover have "utf16_decode (utf16_put d @ utf16_text ds') = Decoded d (length (utf16_put d))"
    by (rule utf16_decode_put) (use Cons.prems(2) d in simp)
  ultimately have "c = d" using e by (metis utf_result.inject(1))
  moreover from this e have "utf16_text cs = utf16_text ds'" by simp
  then have "cs = ds'" using Cons.IH Cons.prems(1,2) d by (metis list.set_intros(2))
  ultimately show ?case using d by simp
qed

lemma utf8_to_utf16_on_text:
  assumes "\<forall>c \<in> set cps. scalar c" "length (utf16_text cps) \<le> view_size out" "length (utf8_text cps) \<le> SIZE_MAX"
    "\<not> view_null out"
  shows "proven_utf8_to_utf16 (At (utf8_text cps)) out =
    (PROVEN_OK, length (utf16_text cps), store (utf16_text cps) out)"
  using assms utf8_measure_text [OF assms(1), of 0] utf8_loop_text [OF assms(1,2)] utf16_shorter [of cps]
  by (simp add: proven_utf8_to_utf16_def proven_utf8_to_utf16_size_def proven_utf8_to_utf16_partial_def)

lemma utf16_to_utf8_on_text:
  assumes "\<forall>c \<in> set cps. scalar c" "length (utf8_text cps) \<le> view_size out" "length (utf8_text cps) \<le> SIZE_MAX"
    "\<not> view_null out"
  shows "proven_utf16_to_utf8 (At (utf16_text cps)) out =
    (PROVEN_OK, length (utf8_text cps), store (utf8_text cps) out)"
  using assms utf16_measure_text [OF assms(1), of 0] utf16_loop_text [OF assms(1,2)]
  by (simp add: proven_utf16_to_utf8_def proven_utf16_to_utf8_size_def proven_utf16_to_utf8_partial_def)

text \<open>A text is encoded in units when it is the encoding of some list of scalar values.\<close>

definition utf8_valid :: "byte list \<Rightarrow> bool" where
  "utf8_valid s \<longleftrightarrow> (\<exists>cps. (\<forall>c \<in> set cps. scalar c) \<and> s = utf8_text cps)"

definition utf16_valid :: "unit16 list \<Rightarrow> bool" where
  "utf16_valid s \<longleftrightarrow> (\<exists>cps. (\<forall>c \<in> set cps. scalar c) \<and> s = utf16_text cps)"

lemma utf8_measure_error: "utf8_to_utf16_measure s acc = Inl e \<Longrightarrow> e = PROVEN_ERR_INVALID_ENCODING"
  by (induction s acc rule: utf8_to_utf16_measure.induct)
    (subst (asm) (2) utf8_to_utf16_measure.simps, auto split: if_splits utf_result.splits)

lemma utf16_measure_error: "utf16_to_utf8_measure s acc = Inl e \<Longrightarrow> e \<noteq> PROVEN_OK"
  by (induction s acc rule: utf16_to_utf8_measure.induct)
    (subst (asm) (2) utf16_to_utf8_measure.simps, auto split: if_splits utf_result.splits option.splits)


lemma utf16_measure_plain:
  "utf16_to_utf8_measure s acc = Inl e \<Longrightarrow> acc + 3 * length s \<le> SIZE_MAX \<Longrightarrow> e = PROVEN_ERR_INVALID_ENCODING"
proof (induction s acc arbitrary: e rule: utf16_to_utf8_measure.induct)
  case (1 s acc)
  show ?case
  proof (cases "e = PROVEN_ERR_INVALID_ENCODING")
    case False
    then obtain cp len where d: "s \<noteq> []" "utf16_decode s = Decoded cp len"
      using 1(2) by (auto simp: utf16_to_utf8_measure.simps [of s] split: utf_result.splits if_splits)
    have inv: "scalar cp" "len = utf16_units cp" "len \<le> length s"
      using utf16_decode_inverse [OF d(2,1)] by auto
    then have "utf8_width cp \<le> 3 * len"
      by (auto simp: utf8_width_def utf16_units_def)
    then have room: "acc + utf8_width cp + 3 * (length s - len) \<le> SIZE_MAX"
      using 1(3) inv(3) by linarith
    then have c: "ckd_add acc (utf8_width cp) = Some (acc + utf8_width cp)" by (simp add: ckd_add_def)
    have "utf16_to_utf8_measure (drop len s) (acc + utf8_width cp) = Inl e"
      using 1(2) d c by (simp add: utf16_to_utf8_measure.simps [of s])
    with 1(1) [OF d c] room show ?thesis by simp
  qed
qed

section \<open>The conversions\<close>

text \<open>C33: The UTF-8 decoder accepts exactly the encodings that the encoder writes: reading at a
  position succeeds with a code point and a length if and only if the code point is a Unicode scalar
  value and the bytes from that position on start with its encoding. In particular no overlong form,
  no surrogate and no value above U+10FFFF is ever accepted.\<close>

theorem utf8_decode_next_strict:
  "proven_utf8_decode_next (At s) pos = \<lparr>cerr = PROVEN_OK, ccp = cp, clen = n\<rparr> \<longleftrightarrow>
    scalar cp \<and> pos < length s \<and> n = length (proven_utf8_encode_one cp) \<and>
    take n (drop pos s) = proven_utf8_encode_one cp" (is "?l = ?r")
proof
  assume l: ?l
  then have p: "pos < length s" and d: "utf8_decode_span (drop pos s) = Decoded cp n"
    by (auto simp: proven_utf8_decode_next_def split: if_splits utf_result.splits)
  then have "drop pos s \<noteq> []" by simp
  from utf8_decode_inverse [OF d this] p show ?r by (auto simp: utf8_encode_one_scalar)
next
  assume r: ?r
  then have "drop pos s = utf8_enc cp @ drop (length (utf8_enc cp)) (drop pos s)"
    by (metis append_take_drop_id utf8_encode_one_scalar)
  with r utf8_decode_enc show ?l
    by (auto simp: proven_utf8_decode_next_def utf8_encode_one_scalar)
qed

text \<open>C34: Converting UTF-8 to UTF-16 into a fixed buffer is exact and atomic. If the input is the UTF-8
  text of a list of scalar values, the result is the UTF-16 text of the same list when that fits and
  OUT_OF_BOUNDS otherwise; every other input, a cut-off last character included, is
  INVALID_ENCODING; and after a failure nothing was written and the count is 0.\<close>

theorem utf8_to_utf16_exact:
  assumes "length s \<le> SIZE_MAX"
  shows "(\<forall>cps. (\<forall>c \<in> set cps. scalar c) \<longrightarrow> s = utf8_text cps \<longrightarrow>
      proven_utf8_to_utf16 (At s) (At out) =
        (if length (utf16_text cps) \<le> length out
         then (PROVEN_OK, length (utf16_text cps), At (utf16_text cps @ drop (length (utf16_text cps)) out))
         else (PROVEN_ERR_OUT_OF_BOUNDS, 0, At out))) \<and>
    (\<not> utf8_valid s \<longrightarrow> proven_utf8_to_utf16 (At s) (At out) = (PROVEN_ERR_INVALID_ENCODING, 0, At out))"
proof (intro conjI allI impI)
  fix cps assume c: "\<forall>c \<in> set cps. scalar c" "s = utf8_text cps"
  have "length (utf16_text cps) \<le> SIZE_MAX" using utf16_shorter [of cps] assms c(2) by simp
  then have m: "utf8_to_utf16_measure (utf8_text cps) 0 = Inr (length (utf16_text cps))"
    using utf8_measure_text [OF c(1), of 0] by simp
  show "proven_utf8_to_utf16 (At s) (At out) = (if length (utf16_text cps) \<le> length out
      then (PROVEN_OK, length (utf16_text cps), At (utf16_text cps @ drop (length (utf16_text cps)) out))
      else (PROVEN_ERR_OUT_OF_BOUNDS, 0, At out))"
    using utf8_to_utf16_on_text [OF c(1), of "At out"] assms c(2) m
    by (auto simp: proven_utf8_to_utf16_def proven_utf8_to_utf16_size_def)
next
  assume "\<not> utf8_valid s"
  then have "\<nexists>k. utf8_to_utf16_measure s 0 = Inr k"
    using utf8_measure_inverse [of s 0] unfolding utf8_valid_def by blast
  then have "utf8_to_utf16_measure s 0 = Inl PROVEN_ERR_INVALID_ENCODING"
    using utf8_measure_error by (metis sum.exhaust)
  then show "proven_utf8_to_utf16 (At s) (At out) = (PROVEN_ERR_INVALID_ENCODING, 0, At out)"
    by (simp add: proven_utf8_to_utf16_def proven_utf8_to_utf16_size_def)
qed

text \<open>Converting UTF-16 to UTF-8 is exact and atomic in the same way: well-formed units give
  the UTF-8 text of the same scalar values or OUT_OF_BOUNDS, an unpaired surrogate anywhere gives
  INVALID_ENCODING, and a failure writes nothing.\<close>

theorem utf16_to_utf8_exact:
  assumes "3 * length s \<le> SIZE_MAX"
  shows "(\<forall>cps. (\<forall>c \<in> set cps. scalar c) \<longrightarrow> s = utf16_text cps \<longrightarrow>
      proven_utf16_to_utf8 (At s) (At out) =
        (if length (utf8_text cps) \<le> length out
         then (PROVEN_OK, length (utf8_text cps), At (utf8_text cps @ drop (length (utf8_text cps)) out))
         else (PROVEN_ERR_OUT_OF_BOUNDS, 0, At out))) \<and>
    (\<not> utf16_valid s \<longrightarrow> proven_utf16_to_utf8 (At s) (At out) = (PROVEN_ERR_INVALID_ENCODING, 0, At out))"
proof (intro conjI allI impI)
  fix cps assume c: "\<forall>c \<in> set cps. scalar c" "s = utf16_text cps"
  have w: "length (utf8_text cps) \<le> SIZE_MAX" using utf8_at_most_triple [of cps] assms c(2) by simp
  then have m: "utf16_to_utf8_measure (utf16_text cps) 0 = Inr (length (utf8_text cps))"
    using utf16_measure_text [OF c(1), of 0] by simp
  show "proven_utf16_to_utf8 (At s) (At out) = (if length (utf8_text cps) \<le> length out
      then (PROVEN_OK, length (utf8_text cps), At (utf8_text cps @ drop (length (utf8_text cps)) out))
      else (PROVEN_ERR_OUT_OF_BOUNDS, 0, At out))"
    using utf16_to_utf8_on_text [OF c(1), of "At out"] w c(2) m
    by (auto simp: proven_utf16_to_utf8_def proven_utf16_to_utf8_size_def)
next
  assume "\<not> utf16_valid s"
  then have "\<nexists>k. utf16_to_utf8_measure s 0 = Inr k"
    using utf16_measure_inverse [of s 0] unfolding utf16_valid_def by blast
  moreover have "e = PROVEN_ERR_INVALID_ENCODING" if "utf16_to_utf8_measure s 0 = Inl e" for e
    using utf16_measure_plain [OF that] assms by simp
  ultimately have "utf16_to_utf8_measure s 0 = Inl PROVEN_ERR_INVALID_ENCODING" by (metis sum.exhaust)
  then show "proven_utf16_to_utf8 (At s) (At out) = (PROVEN_ERR_INVALID_ENCODING, 0, At out)"
    by (simp add: proven_utf16_to_utf8_def proven_utf16_to_utf8_size_def)
qed


lemma utf8_to_utf16_OK:
  assumes "length s \<le> SIZE_MAX" "proven_utf8_to_utf16 (At s) (At out) = (PROVEN_OK, n, At u)"
  shows "\<exists>cps. (\<forall>c \<in> set cps. scalar c) \<and> s = utf8_text cps \<and> n = length (utf16_text cps) \<and>
    n \<le> length out \<and> u = utf16_text cps @ drop n out"
proof -
  have "utf8_to_utf16_measure s 0 = Inl e \<Longrightarrow> e \<noteq> PROVEN_OK" for e
    using utf8_measure_error by force
  with assms(2) have "\<exists>k. utf8_to_utf16_measure s 0 = Inr k"
    by (auto simp: proven_utf8_to_utf16_def proven_utf8_to_utf16_size_def split: sum.splits)
  then obtain cps where c: "\<forall>c \<in> set cps. scalar c" "s = utf8_text cps"
    using utf8_measure_inverse by blast
  have "length (utf16_text cps) \<le> SIZE_MAX" using utf16_shorter [of cps] assms(1) c(2) by simp
  then have m: "utf8_to_utf16_measure (utf8_text cps) 0 = Inr (length (utf16_text cps))"
    using utf8_measure_text [OF c(1), of 0] by simp
  have "length (utf16_text cps) \<le> length out"
    using assms(2) c(2) m
    by (auto simp: proven_utf8_to_utf16_def proven_utf8_to_utf16_size_def split: if_splits)
  with utf8_to_utf16_on_text [OF c(1), of "At out"] assms c(2) show ?thesis by (intro exI [of _ cps]) (use c in auto)
qed

section \<open>Validation\<close>

lemma utf8_text_append_inv:
  "\<forall>c \<in> set cs. scalar c \<Longrightarrow> \<forall>c \<in> set ds. scalar c \<Longrightarrow> utf8_text ds = utf8_text cs @ x \<Longrightarrow>
    \<exists>es. (\<forall>c \<in> set es. scalar c) \<and> x = utf8_text es"
proof (induction cs arbitrary: ds)
  case Nil
  then show ?case by (intro exI [of _ ds]) simp
next
  case (Cons c cs)
  then have "utf8_text ds \<noteq> []" by simp
  then obtain d ds' where d: "ds = d # ds'" by (cases ds) auto
  have e: "utf8_enc c @ (utf8_text cs @ x) = utf8_enc d @ utf8_text ds'" using Cons.prems(3) d by simp
  have "utf8_decode_span (utf8_enc c @ (utf8_text cs @ x)) = Decoded c (utf8_width c)"
    by (rule utf8_decode_enc) (use Cons.prems(1) in simp)
  moreover have "utf8_decode_span (utf8_enc d @ utf8_text ds') = Decoded d (utf8_width d)"
    by (rule utf8_decode_enc) (use Cons.prems(2) d in simp)
  ultimately have "c = d" using e by (metis utf_result.inject(1))
  with e have "utf8_text ds' = utf8_text cs @ x" by simp
  with Cons.IH [of ds'] Cons.prems(1,2) d show ?case by auto
qed

lemma utf8_valid_decode:
  assumes "utf8_decode_span s = Decoded cp n" "s \<noteq> []" "utf8_valid (drop n s)"
  shows "utf8_valid s"
proof -
  obtain cps where cps: "\<forall>c \<in> set cps. scalar c" "drop n s = utf8_text cps"
    using assms(3) by (auto simp: utf8_valid_def)
  have "scalar cp" "take n s = utf8_enc cp" using utf8_decode_inverse [OF assms(1,2)] by blast+
  moreover from this cps(2) have "s = utf8_enc cp @ utf8_text cps" by (metis append_take_drop_id)
  ultimately show ?thesis using cps(1) unfolding utf8_valid_def by (intro exI [of _ "cp # cps"]) simp
qed

lemma utf8_validate_loop_result:
  "pos \<le> length s \<Longrightarrow>
    (case utf8_validate_loop (At s) pos of
       None \<Rightarrow> utf8_valid (drop pos s)
     | Some p \<Rightarrow> pos \<le> p \<and> p < length s \<and> utf8_valid (take (p - pos) (drop pos s)) \<and>
         (\<forall>cp n. utf8_decode_span (drop p s) \<noteq> Decoded cp n))"
proof (induction "At s" pos rule: utf8_validate_loop.induct)
  case (1 pos)
  have nil: "utf8_valid []" unfolding utf8_valid_def by (intro exI [of _ "[]"]) simp
  show ?case
  proof (cases "pos < length s \<and> cerr (proven_utf8_decode_next (At s) pos) = PROVEN_OK")
    case False
    with 1(2) nil show ?thesis
      by (auto simp: utf8_validate_loop.simps [of "At s"] proven_utf8_decode_next_def split: if_splits)
  next
    case True
    then obtain cp n where d: "utf8_decode_span (drop pos s) = Decoded cp n"
      and n: "clen (proven_utf8_decode_next (At s) pos) = n" "drop pos s \<noteq> []"
      by (auto simp: proven_utf8_decode_next_def split: utf_result.splits)
    have le: "pos + n \<le> length s" using utf8_progress [OF d n(2)] True by auto
    have step: "utf8_validate_loop (At s) pos = utf8_validate_loop (At s) (pos + n)"
      using True n by (subst utf8_validate_loop.simps) simp
    note ih = 1(1) [of "proven_utf8_decode_next (At s) pos", unfolded n(1), OF _ refl _ le]
    show ?thesis
    proof (cases "utf8_validate_loop (At s) (pos + n)")
      case None
      with ih True utf8_valid_decode [OF d n(2)] show ?thesis by (simp add: step add.commute)
    next
      case (Some p)
      with ih True have p: "pos + n \<le> p" "p < length s" "utf8_valid (take (p - (pos + n)) (drop (pos + n) s))"
        "\<forall>cp n. utf8_decode_span (drop p s) \<noteq> Decoded cp n" by simp_all
      obtain cps where cps: "\<forall>c \<in> set cps. scalar c" "take (p - (pos + n)) (drop (pos + n) s) = utf8_text cps"
        using p(3) by (auto simp: utf8_valid_def)
      have "take (p - pos) (drop pos s) = take n (drop pos s) @ take (p - (pos + n)) (drop (pos + n) s)"
        using p(1) take_add [of n "p - (pos + n)" "drop pos s"] by (simp add: add.commute)
      moreover have inv: "scalar cp" "take n (drop pos s) = utf8_enc cp"
        using utf8_decode_inverse [OF d n(2)] by blast+
      ultimately have "take (p - pos) (drop pos s) = utf8_text (cp # cps)" by (simp only: cps(2) text_simps)
      then have "utf8_valid (take (p - pos) (drop pos s))"
        using cps inv(1) unfolding utf8_valid_def by (intro exI [of _ "cp # cps"]) simp
      with p show ?thesis by (simp add: step Some)
    qed
  qed
qed

text \<open>Validation accepts exactly the UTF-8 texts, and on any other input the position it reports is
  the end of the longest well-formed prefix.\<close>

theorem utf8_validate_exact:
  "if utf8_valid s then proven_utf8_validate (At s) = (PROVEN_OK, None)
   else \<exists>p < length s. proven_utf8_validate (At s) = (PROVEN_ERR_INVALID_ENCODING, Some p) \<and>
     utf8_valid (take p s) \<and> (\<forall>q. utf8_valid (take q s) \<longrightarrow> length (take q s) \<le> p)"
proof -
  have longest: "length (take q s) \<le> p"
    if p: "p < length s" "utf8_valid (take p s)" "\<forall>cp n. utf8_decode_span (drop p s) \<noteq> Decoded cp n"
      and q: "utf8_valid (take q s)" for p q
  proof (rule ccontr)
    assume "\<not> length (take q s) \<le> p"
    then have pq: "p < q" by simp
    obtain cs ds where c: "\<forall>c \<in> set cs. scalar c" "take p s = utf8_text cs"
      and d: "\<forall>c \<in> set ds. scalar c" "take q s = utf8_text ds" using p(2) q by (auto simp: utf8_valid_def)
    have "take q s = take p s @ take (q - p) (drop p s)" using pq take_add [of p "q - p" s] by simp
    then obtain es where e: "\<forall>c \<in> set es. scalar c" "take (q - p) (drop p s) = utf8_text es"
      using utf8_text_append_inv [OF c(1) d(1)] c d by metis
    then obtain a es' where a: "es = a # es'" using pq p(1) by (cases es) auto
    with e(2) have "drop p s = (utf8_enc a @ utf8_text es') @ drop (q - p) (drop p s)"
      by (metis append_take_drop_id text_simps(2))
    then have "drop p s = utf8_enc a @ (utf8_text es' @ drop (q - p) (drop p s))" by (simp only: append_assoc)
    moreover have "scalar a" using e(1) a by simp
    ultimately show False using utf8_decode_enc p(3) by metis
  qed
  show ?thesis
  proof (cases "utf8_validate_loop (At s) 0")
    case None
    then show ?thesis using utf8_validate_loop_result [of 0 s] by (simp add: proven_utf8_validate_def)
  next
    case (Some p)
    then have p: "p < length s" "utf8_valid (take p s)" "\<forall>cp n. utf8_decode_span (drop p s) \<noteq> Decoded cp n"
      using utf8_validate_loop_result [of 0 s] by simp_all
    have "\<not> utf8_valid s" using longest [OF p, of "length s"] p(1) by auto
    with Some p longest [OF p] show ?thesis by (auto simp: proven_utf8_validate_def)
  qed
qed


section \<open>Lossy conversion\<close>

text \<open>The code points a lossy conversion reads: each is a scalar value, so its output is well formed,
  and it takes at least as many bytes as it stores units.\<close>

lemma lossy8_step_scalar:
  assumes "s \<noteq> []" "lossy8_step s = (cp, step)"
  shows "scalar cp \<and> utf16_units cp \<le> step \<and> utf16_units cp \<le> length s"
proof -
  have "utf16_units c \<le> utf8_width c" for c
    by (auto simp: utf16_units_def utf8_width_def word_less_nat_alt word_le_nat_alt)
  moreover have "1 \<le> length s" using assms(1) by (cases s) auto
  moreover have "scalar 0xFFFD" "utf16_units 0xFFFD = 1" by (simp_all add: scalar_def utf16_units_def)
  ultimately show ?thesis
    using assms utf8_decode_inverse [OF _ assms(1)] utf8_malformed_pos [of s] order_trans
    by (fastforce simp: lossy8_step_def Suc_le_eq split: utf_result.splits)
qed

lemma utf8_lossy_loop_total:
  "w + length s \<le> SIZE_MAX \<Longrightarrow>
    \<exists>cps. (\<forall>c \<in> set cps. scalar c) \<and> length (utf16_text cps) \<le> length s \<and>
      utf8_to_utf16_lossy_loop s w = (PROVEN_OK, w + length (utf16_text cps), utf16_text cps) \<and>
      (\<forall>ds. (\<forall>c \<in> set ds. scalar c) \<longrightarrow> s = utf8_text ds \<longrightarrow> cps = ds)"
proof (induction s w rule: utf8_to_utf16_lossy_loop.induct)
  case (1 s w)
  show ?case
  proof (cases "s = []")
    case True
    have "ds = []" if "[] = utf8_text ds" for ds using that by (cases ds) auto
    with True show ?thesis by (intro exI [of _ "[]"]) (auto simp: utf8_to_utf16_lossy_loop.simps [of "[]"])
  next
    case False
    obtain cp step where st: "lossy8_step s = (cp, step)" by (cases "lossy8_step s")
    note sc = lossy8_step_scalar [OF False st]
    have c: "ckd_add w (utf16_units cp) = Some (w + utf16_units cp)"
      using sc 1(2) by (simp add: ckd_add_def)
    have "utf16_units cp \<le> step" "utf16_units cp \<le> length s" using sc by blast+
    then have le: "w + utf16_units cp + length (drop step s) \<le> SIZE_MAX"
      using 1(2) unfolding length_drop by linarith
    obtain cps where cps: "\<forall>c \<in> set cps. scalar c" "length (utf16_text cps) \<le> length (drop step s)"
      "utf8_to_utf16_lossy_loop (drop step s) (w + utf16_units cp) =
        (PROVEN_OK, w + utf16_units cp + length (utf16_text cps), utf16_text cps)"
      "\<forall>ds. (\<forall>c \<in> set ds. scalar c) \<longrightarrow> drop step s = utf8_text ds \<longrightarrow> cps = ds"
      using 1(1) [OF False refl _ c le] st by metis
    have same: "cp # cps = ds" if ds: "\<forall>c \<in> set ds. scalar c" "s = utf8_text ds" for ds
    proof -
      obtain d ds' where d: "ds = d # ds'" using False ds(2) by (cases ds) auto
      have e: "s = utf8_enc d @ utf8_text ds'" using ds(2) d by simp
      have "utf8_decode_span s = Decoded d (utf8_width d)"
        unfolding e by (rule utf8_decode_enc) (use ds(1) d in simp)
      then have "cp = d" "step = utf8_width d" using st by (auto simp: lossy8_step_def)
      then have "drop step s = utf8_text ds'" "cp = d" using e by simp_all
      then show ?thesis using cps(4) ds(1) d by auto
    qed
    have "utf8_to_utf16_lossy_loop s w =
        (PROVEN_OK, w + length (utf16_text (cp # cps)), utf16_text (cp # cps))"
      using False st c cps(3) by (simp add: utf8_to_utf16_lossy_loop.simps [of s])
    moreover have "length (utf16_text (cp # cps)) \<le> length s"
      using \<open>utf16_units cp \<le> step\<close> \<open>utf16_units cp \<le> length s\<close> cps(2)
      unfolding length_drop text_simps length_append length_utf16_put by linarith
    ultimately show ?thesis using sc cps(1) same by (intro exI [of _ "cp # cps"]) simp
  qed
qed

lemma utf8_to_utf16_lossy_eq:
  assumes "utf8_to_utf16_lossy_loop s 0 = (PROVEN_OK, length us, us)"
  shows "proven_utf8_to_utf16_lossy (At s) (At out) =
    (if length us \<le> length out then (PROVEN_OK, length us, At (us @ drop (length us) out))
     else (PROVEN_ERR_OUT_OF_BOUNDS, 0, At out))"
  using assms
  by (cases us)
    (simp_all add: proven_utf8_to_utf16_lossy_def proven_utf8_to_utf16_lossy_size_def utf8_to_utf16_lossy_run_def)

text \<open>C35: Lossy conversion never fails on content: whatever the input bytes, there is a list of
  scalar values (the input's own when it is well formed) whose UTF-16 text is what is
  stored, and the only error left is a buffer too small for it, which writes nothing.\<close>

theorem utf8_lossy_well_formed:
  assumes "length s \<le> SIZE_MAX"
  shows "\<exists>cps. (\<forall>c \<in> set cps. scalar c) \<and> (\<forall>ds. (\<forall>c \<in> set ds. scalar c) \<longrightarrow> s = utf8_text ds \<longrightarrow> cps = ds) \<and>
    proven_utf8_to_utf16_lossy (At s) (At out) =
      (if length (utf16_text cps) \<le> length out
       then (PROVEN_OK, length (utf16_text cps), At (utf16_text cps @ drop (length (utf16_text cps)) out))
       else (PROVEN_ERR_OUT_OF_BOUNDS, 0, At out))"
proof -
  obtain cps where cps: "\<forall>c \<in> set cps. scalar c"
    "utf8_to_utf16_lossy_loop s 0 = (PROVEN_OK, length (utf16_text cps), utf16_text cps)"
    "\<forall>ds. (\<forall>c \<in> set ds. scalar c) \<longrightarrow> s = utf8_text ds \<longrightarrow> cps = ds"
    using utf8_lossy_loop_total [of 0 s, unfolded add_0, OF assms] by blast
  show ?thesis
    by (rule exI [of _ cps], intro conjI, rule cps(1), rule cps(3), rule utf8_to_utf16_lossy_eq, rule cps(2))
qed

section \<open>Round trip\<close>

text \<open>C36: Text converted to UTF-16 and back is the text it was: if the first conversion succeeds and
  the second buffer holds the text, the second conversion of what the first one wrote gives every byte
  back.\<close>

theorem utf_roundtrip:
  assumes "proven_utf8_to_utf16 (At s) (At out) = (PROVEN_OK, n, At u)"
    "length s \<le> length back_out" "length s \<le> SIZE_MAX"
  shows "proven_utf16_to_utf8 (At (take n u)) (At back_out) =
    (PROVEN_OK, length s, At (s @ drop (length s) back_out))"
proof -
  obtain cps where c: "\<forall>c \<in> set cps. scalar c" "s = utf8_text cps" "n = length (utf16_text cps)"
    "n \<le> length out" "u = utf16_text cps @ drop n out"
    using utf8_to_utf16_OK [OF assms(3,1)] by blast
  then have "take n u = utf16_text cps" by simp
  with utf16_to_utf8_on_text [OF c(1), of "At back_out"] assms(2,3) c(2) show ?thesis by simp
qed


section \<open>Witnesses\<close>

text \<open>U+00E9, U+1F600 and the letter A in both encodings.\<close>

definition demo_text :: "codepoint list" where
  "demo_text = [0xE9, 0x1F600, 0x41]"

lemma demo_text_eval:
  "utf8_text demo_text = [0xC3, 0xA9, 0xF0, 0x9F, 0x98, 0x80, 0x41]"
  "utf16_text demo_text = [0x00E9, 0xD83D, 0xDE00, 0x41]"
  "\<forall>c \<in> set demo_text. scalar c"
  by (simp_all add: demo_text_def utf8_enc_def utf8_put_def utf8_width_def utf16_put_def scalar_def)


theorem utf8_decode_next_strict_witness: "proven_utf8_decode_next (At (utf8_text demo_text)) 2 =
    \<lparr>cerr = PROVEN_OK, ccp = 0x1F600, clen = 4\<rparr>"
  unfolding demo_text_eval
  by (subst utf8_decode_next_strict) (simp add: scalar_def proven_utf8_encode_one_def)

theorem utf8_to_utf16_exact_witness:
  "proven_utf8_to_utf16 (At [0xC3, 0xA9, 0xF0, 0x9F, 0x98, 0x80, 0x41]) (At [0, 0, 0, 0, 7]) =
    (PROVEN_OK, 4, At [0x00E9, 0xD83D, 0xDE00, 0x41, 7]) \<and>
   proven_utf8_to_utf16 (At [0xC3, 0xA9, 0xF0, 0x9F, 0x98, 0x80, 0x41]) (At [1, 2, 3]) =
    (PROVEN_ERR_OUT_OF_BOUNDS, 0, At [1, 2, 3])"
proof -
  have l: "length [0xC3, 0xA9, 0xF0, 0x9F, 0x98, 0x80, 0x41 :: byte] \<le> SIZE_MAX" by (simp add: SIZE_MAX_eval)
  show ?thesis
    using utf8_to_utf16_exact [OF l, THEN conjunct1, rule_format, of demo_text "[0, 0, 0, 0, 7]"]
      utf8_to_utf16_exact [OF l, THEN conjunct1, rule_format, of demo_text "[1, 2, 3]"] demo_text_eval
    by simp
qed

theorem utf16_to_utf8_exact_witness:
  "proven_utf16_to_utf8 (At [0x00E9, 0xD83D, 0xDE00, 0x41]) (At [0, 0, 0, 0, 0, 0, 0, 9]) =
    (PROVEN_OK, 7, At [0xC3, 0xA9, 0xF0, 0x9F, 0x98, 0x80, 0x41, 9])"
proof -
  have l: "3 * length [0x00E9, 0xD83D, 0xDE00, 0x41 :: unit16] \<le> SIZE_MAX" by (simp add: SIZE_MAX_eval)
  show ?thesis
    using utf16_to_utf8_exact [OF l, THEN conjunct1, rule_format, of demo_text "[0, 0, 0, 0, 0, 0, 0, 9]"] demo_text_eval
    by simp
qed

theorem utf8_lossy_well_formed_witness:
  "proven_utf8_to_utf16_lossy (At [0x41]) (At [7, 8]) = (PROVEN_OK, 1, At [0x41, 8])"
proof -
  have l: "length [0x41 :: byte] \<le> SIZE_MAX" by (simp add: SIZE_MAX_eval)
  have t: "[0x41] = utf8_text [0x41]" "utf16_text [0x41] = [0x41]" "\<forall>c \<in> set [0x41]. scalar c"
    by (simp_all add: utf8_enc_def utf8_put_def utf8_width_def utf16_put_def scalar_def)
  obtain cps where "[0x41] = utf8_text [0x41] \<longrightarrow> cps = [0x41]"
    "proven_utf8_to_utf16_lossy (At [0x41]) (At [7, 8]) =
      (if length (utf16_text cps) \<le> length [7, 8 :: unit16]
       then (PROVEN_OK, length (utf16_text cps), At (utf16_text cps @ drop (length (utf16_text cps)) [7, 8]))
       else (PROVEN_ERR_OUT_OF_BOUNDS, 0, At [7, 8]))"
    using utf8_lossy_well_formed [OF l, of "[7, 8]"] t(3) by blast
  with t show ?thesis by simp
qed

theorem utf_roundtrip_witness:
  "proven_utf16_to_utf8 (At [0x00E9, 0xD83D, 0xDE00, 0x41]) (At (replicate 8 5)) =
    (PROVEN_OK, 7, At [0xC3, 0xA9, 0xF0, 0x9F, 0x98, 0x80, 0x41, 5])"
proof -
  have l: "length (utf8_text demo_text) \<le> SIZE_MAX" by (simp add: SIZE_MAX_eval demo_text_eval)
  have "proven_utf8_to_utf16 (At (utf8_text demo_text)) (At (replicate 4 0)) =
      (PROVEN_OK, 4, At [0x00E9, 0xD83D, 0xDE00, 0x41])"
    using utf8_to_utf16_on_text [OF demo_text_eval(3), of "At (replicate 4 0)"] l demo_text_eval by simp
  from utf_roundtrip [OF this _ l, of "replicate 8 5"] demo_text_eval show ?thesis
    by (simp add: numeral_eq_Suc)
qed

theorem utf8_validate_exact_witness:
  "proven_utf8_validate (At [0xC3, 0xA9, 0xF0, 0x9F, 0x98, 0x80, 0x41]) = (PROVEN_OK, None)"
proof -
  have "utf8_valid (utf8_text demo_text)" unfolding utf8_valid_def using demo_text_eval(3) by blast
  with utf8_validate_exact [of "utf8_text demo_text"] show ?thesis by (simp add: demo_text_eval)
qed

end
