(* ===== verification/Block_Hash.thy ===== *)
theory Block_Hash
  imports Views
begin

text \<open>
  The buffering that every digest of the library shares (\<^verbatim>\<open>legacy_update\<close> of \<^verbatim>\<open>hash_legacy.c\<close>, the
  same shape in \<^verbatim>\<open>proven_sha256_update\<close> and \<^verbatim>\<open>proven_sha512_update\<close>): a context holds the chaining
  value, the number of bytes fed, a block and how much of it is filled. \<open>absorbed\<close> reads "the context
  stands for the message fed so far"; feeding appends to that message, however the input is cut.
  \<open>md_pad\<close> is the padding of the standards, as one list.

  The locale \<open>streaming\<close> is the contract of an incremental digest; every digest interprets it.
\<close>

unbundle bit_operations_syntax

text \<open>The context structs of the four digests have these fields; they differ in the word size, the
  number of words of the state and the block size.\<close>

record 'w hash_ctx =
  hstate :: "'w list"
  hlength :: "64 word"
  hblock :: "byte list"
  hblock_len :: nat

text \<open>Bytes stored in a block from an offset on.\<close>

definition put_bytes :: "byte list \<Rightarrow> nat \<Rightarrow> byte list \<Rightarrow> byte list" where
  "put_bytes block off bs = take off block @ bs @ drop (off + length bs) block"

text \<open>Compressing whole blocks straight from the input: the new chaining value and the tail.\<close>

function hash_blocks :: "('s \<Rightarrow> byte list \<Rightarrow> 's) \<Rightarrow> nat \<Rightarrow> 's \<Rightarrow> byte list \<Rightarrow> 's \<times> byte list" where
  "hash_blocks compress B st p =
    (if 0 < B \<and> B \<le> length p then hash_blocks compress B (compress st (take B p)) (drop B p) else (st, p))"
  by pat_completeness auto
termination by (relation "measure (\<lambda>(c, B, st, p). length p)") auto

declare hash_blocks.simps [simp del]

definition hash_tail :: "('w list \<Rightarrow> byte list \<Rightarrow> 'w list) \<Rightarrow> nat \<Rightarrow> 'w hash_ctx \<Rightarrow> byte list \<Rightarrow> 'w hash_ctx" where
  "hash_tail compress B ctx p =
    (case hash_blocks compress B (hstate ctx) p of
       (st, t) \<Rightarrow> ctx\<lparr>hstate := st, hblock := put_bytes (hblock ctx) 0 t, hblock_len := length t\<rparr>)"

text \<open>Top up a partly filled block first, compress it when full, then the whole blocks and the tail.\<close>

definition hash_feed :: "('w list \<Rightarrow> byte list \<Rightarrow> 'w list) \<Rightarrow> nat \<Rightarrow> 'w hash_ctx \<Rightarrow> byte list \<Rightarrow> 'w hash_ctx" where
  "hash_feed compress B ctx p =
    (let ctx1 = ctx\<lparr>hlength := hlength ctx + of_nat (length p)\<rparr> in
     if hblock_len ctx > 0 then
       (let n = min (B - hblock_len ctx) (length p);
            block = put_bytes (hblock ctx) (hblock_len ctx) (take n p);
            filled = hblock_len ctx + n in
        if filled < B then ctx1\<lparr>hblock := block, hblock_len := filled\<rparr>
        else hash_tail compress B
               (ctx1\<lparr>hblock := block, hstate := compress (hstate ctx) block, hblock_len := 0\<rparr>) (drop n p))
     else hash_tail compress B ctx1 p)"

text \<open>The eight bytes of a 64-bit count, most significant first or last.\<close>

definition be64 :: "64 word \<Rightarrow> byte list" where
  "be64 v = map (\<lambda>i. ucast (drop_bit (56 - 8 * i) v)) [0..<8]"

definition le64 :: "64 word \<Rightarrow> byte list" where
  "le64 v = map (\<lambda>i. ucast (drop_bit (8 * i) v)) [0..<8]"

lemma length_be64 [simp]: "length (be64 v) = 8" "length (le64 v) = 8"
  by (simp_all add: be64_def le64_def)

lemma length_put_bytes [simp]: "off + length bs \<le> length block \<Longrightarrow> length (put_bytes block off bs) = length block"
  by (simp add: put_bytes_def)

lemma take_put_bytes: "off \<le> length block \<Longrightarrow> take (off + length bs) (put_bytes block off bs) = take off block @ bs"
  by (simp add: put_bytes_def)

lemma put_bytes_whole: "off + length bs = length block \<Longrightarrow> put_bytes block off bs = take off block @ bs"
  by (simp add: put_bytes_def)

section \<open>Blocks\<close>

lemma hash_blocks_short: "length p < B \<Longrightarrow> hash_blocks c B st p = (st, p)"
  by (simp add: hash_blocks.simps)

lemma hash_blocks_full: "length b = B \<Longrightarrow> 0 < B \<Longrightarrow> hash_blocks c B st (b @ p) = hash_blocks c B (c st b) p"
  by (subst hash_blocks.simps) simp

lemma hash_blocks_tail: "0 < B \<Longrightarrow> hash_blocks c B st p = (st', t) \<Longrightarrow> length t < B \<and> length t = length p mod B"
proof (induction c B st p rule: hash_blocks.induct)
  case (1 c B st p)
  show ?case
  proof (cases "B \<le> length p")
    case True
    with 1 have "length t < B \<and> length t = length (drop B p) mod B"
      by (simp add: hash_blocks.simps [of c B st p])
    with True show ?thesis by (simp add: le_mod_geq)
  next
    case False
    with 1 show ?thesis by (simp add: hash_blocks_short)
  qed
qed

lemma hash_blocks_append:
  "hash_blocks c B st m = (st', t) \<Longrightarrow> hash_blocks c B st (m @ d) = hash_blocks c B st' (t @ d)"
proof (induction c B st m rule: hash_blocks.induct)
  case (1 c B st p)
  show ?case
  proof (cases "0 < B \<and> B \<le> length p")
    case True
    with 1(2) have s: "hash_blocks c B (c st (take B p)) (drop B p) = (st', t)"
      by (simp add: hash_blocks.simps [of c B st p])
    have "hash_blocks c B st (p @ d) = hash_blocks c B (c st (take B p)) (drop B p @ d)"
      using True by (subst hash_blocks.simps) simp
    with 1(1) [OF True s] show ?thesis by simp
  next
    case False
    with 1(2) show ?thesis by (auto simp: hash_blocks.simps [of c B st p])
  qed
qed

section \<open>What a context stands for\<close>

definition absorbed ::
  "('w list \<Rightarrow> byte list \<Rightarrow> 'w list) \<Rightarrow> nat \<Rightarrow> 'w list \<Rightarrow> 'w hash_ctx \<Rightarrow> byte list \<Rightarrow> bool" where
  "absorbed compress B init ctx m \<longleftrightarrow>
    hash_blocks compress B init m = (hstate ctx, take (hblock_len ctx) (hblock ctx)) \<and>
    length (hblock ctx) = B \<and> hblock_len ctx < B \<and> hlength ctx = of_nat (length m)"

lemma absorbed_len: "absorbed c B init ctx m \<Longrightarrow> hblock_len ctx = length m mod B"
  using hash_blocks_tail [of B c init m] by (auto simp: absorbed_def)

lemma absorbed_init:
  "length (hblock ctx) = B \<Longrightarrow> 0 < B \<Longrightarrow> absorbed c B init (ctx\<lparr>hstate := init, hlength := 0, hblock_len := 0\<rparr>) []"
  by (simp add: absorbed_def hash_blocks_short)

lemma hash_tail_absorbs:
  assumes "hash_blocks c B init m = (hstate ctx, [])" "length (hblock ctx) = B" "0 < B"
    "hlength ctx = of_nat (length m + length p)"
  shows "absorbed c B init (hash_tail c B ctx p) (m @ p)"
proof -
  obtain st t where b: "hash_blocks c B (hstate ctx) p = (st, t)" by (cases "hash_blocks c B (hstate ctx) p")
  have "length t < B" using hash_blocks_tail [OF assms(3) b] by blast
  moreover have "hash_blocks c B init (m @ p) = (st, t)" using hash_blocks_append [OF assms(1)] b by simp
  moreover have "take (length t) (put_bytes (hblock ctx) 0 t) = t" by (simp add: put_bytes_def)
  ultimately show ?thesis using assms(2,4) b by (simp add: absorbed_def hash_tail_def)
qed

lemma hash_feed_absorbs:
  assumes "absorbed c B init ctx m"
  shows "absorbed c B init (hash_feed c B ctx p) (m @ p)"
proof -
  define b where "b = take (hblock_len ctx) (hblock ctx)"
  have h: "hash_blocks c B init m = (hstate ctx, b)" "length (hblock ctx) = B" "hblock_len ctx < B"
    "hlength ctx = of_nat (length m)" "length b = hblock_len ctx" "0 < B"
    using assms by (auto simp: absorbed_def b_def)
  have len: "hlength ctx + of_nat (length p) = of_nat (length m + length p)" using h(4) by simp
  show ?thesis
  proof (cases "0 < hblock_len ctx")
    case False
    then show ?thesis
      using h hash_tail_absorbs [of c B init m "ctx\<lparr>hlength := hlength ctx + of_nat (length p)\<rparr>" p] len
      by (simp add: hash_feed_def b_def)
  next
    case True
    define n where "n = min (B - hblock_len ctx) (length p)"
    define block where "block = put_bytes (hblock ctx) (hblock_len ctx) (take n p)"
    have n: "n \<le> length p" "hblock_len ctx + n \<le> B" using h(3) by (auto simp: n_def)
    have bl: "length block = B" using n h by (simp add: block_def)
    show ?thesis
    proof (cases "hblock_len ctx + n < B")
      case small: True
      then have p: "take n p = p" "n = length p" by (auto simp: n_def)
      have "take (hblock_len ctx + n) block = b @ p"
        using take_put_bytes [of "hblock_len ctx" "hblock ctx" "take n p"] p h(2,3) by (simp add: block_def b_def)
      moreover have "hash_blocks c B init (m @ p) = (hstate ctx, b @ p)"
        using hash_blocks_append [OF h(1)] small p h(5) by (simp add: hash_blocks_short)
      ultimately show ?thesis
        using True small bl len
        by (simp add: hash_feed_def absorbed_def Let_def n_def [symmetric] block_def [symmetric])
    next
      case full: False
      then have blk: "block = b @ take n p"
        using n h put_bytes_whole [of "hblock_len ctx" "take n p" "hblock ctx"] by (simp add: block_def b_def)
      have "hash_blocks c B init (m @ take n p) = hash_blocks c B (hstate ctx) (block @ [])"
        using hash_blocks_append [OF h(1), of "take n p"] blk by simp
      also have "\<dots> = (c (hstate ctx) block, [])"
        unfolding hash_blocks_full [OF bl h(6)] using h(6) by (simp add: hash_blocks_short)
      finally have "absorbed c B init
          (hash_tail c B (ctx\<lparr>hlength := hlength ctx + of_nat (length p), hblock := block,
             hstate := c (hstate ctx) block, hblock_len := 0\<rparr>) (drop n p)) ((m @ take n p) @ drop n p)"
        using bl h(6) len n(1) by (intro hash_tail_absorbs) simp_all
      then show ?thesis
        using True full by (simp add: hash_feed_def Let_def n_def [symmetric] block_def [symmetric])
    qed
  qed
qed

section \<open>Padding\<close>

text \<open>The message, a one bit, zeros, and the length field, filling whole blocks.\<close>

definition md_pad :: "nat \<Rightarrow> byte list \<Rightarrow> byte list \<Rightarrow> byte list" where
  "md_pad B len_bytes m =
    m @ [0x80] @ replicate ((2 * B - 1 - length len_bytes - length m mod B) mod B) 0 @ len_bytes"

definition md_hash :: "('s \<Rightarrow> byte list \<Rightarrow> 's) \<Rightarrow> nat \<Rightarrow> 's \<Rightarrow> byte list \<Rightarrow> byte list \<Rightarrow> 's" where
  "md_hash compress B init len_bytes m = fst (hash_blocks compress B init (md_pad B len_bytes m))"

text \<open>Padding a block in place, as \<^verbatim>\<open>legacy_pad\<close> and \<^verbatim>\<open>sha512_finish\<close> do: the one bit, zeros to the end of
  the block when the length does not fit, zeros up to the length, the length.\<close>

definition hash_pad :: "('w list \<Rightarrow> byte list \<Rightarrow> 'w list) \<Rightarrow> nat \<Rightarrow> byte list \<Rightarrow> 'w hash_ctx \<Rightarrow> 'w hash_ctx" where
  "hash_pad compress B len_bytes ctx =
    (let n = hblock_len ctx + 1;
         block = put_bytes (hblock ctx) (hblock_len ctx) [0x80];
         room = B - length len_bytes in
     case (if n > room
           then (let block = put_bytes block n (replicate (B - n) 0)
                 in (compress (hstate ctx) block, block, 0)) else (hstate ctx, block, n)) of
       (st, block, n) \<Rightarrow>
         (let block = put_bytes (put_bytes block n (replicate (room - n) 0)) room len_bytes
          in ctx\<lparr>hstate := compress st block, hblock := block, hblock_len := 0\<rparr>))"

lemma hash_pad_md:
  assumes "absorbed c B init ctx m" "length l < B"
  shows "hstate (hash_pad c B l ctx) = md_hash c B init l m"
proof -
  define b where "b = take (hblock_len ctx) (hblock ctx)"
  define bl where "bl = hblock_len ctx"
  define room where "room = B - length l"
  have h: "hash_blocks c B init m = (hstate ctx, b)" "length (hblock ctx) = B" "bl < B"
    "length b = bl" "0 < B"
    using assms by (auto simp: absorbed_def b_def bl_def)
  have m: "length m mod B = bl" using absorbed_len [OF assms(1)] by (simp add: bl_def)
  have room: "0 < room" "room + length l = B" using assms(2) by (auto simp: room_def)
  define block where "block = put_bytes (hblock ctx) bl [0x80]"
  have block: "length block = B" "take (bl + 1) block = b @ [0x80]"
    using h take_put_bytes [of bl "hblock ctx" "[0x80]"] by (simp_all add: block_def b_def bl_def)
  have fin: "hash_blocks c B st (x @ l) = (c st (x @ l), [])" if "length x = room" for st x
    using hash_blocks_full [of "x @ l" B c st "[]"] that room h(5) by (simp add: hash_blocks_short)
  have md: "hash_blocks c B init (md_pad B l m) =
      hash_blocks c B (hstate ctx) (b @ [0x80] @ replicate ((2 * B - 1 - length l - bl) mod B) 0 @ l)"
    using hash_blocks_append [OF h(1)] by (simp add: md_pad_def m)
  have last: "put_bytes (put_bytes blk n (replicate (room - n) 0)) room l = take n blk @ replicate (room - n) 0 @ l"
    if "length blk = B" "n \<le> room" for blk n
    using that room by (simp add: put_bytes_def)
  show ?thesis
  proof (cases "bl + 1 > room")
    case False
    then have z: "(2 * B - 1 - length l - bl) mod B = room - (bl + 1)"
    proof -
      have "2 * B - 1 - length l - bl = B + (room - (bl + 1))" using False room h(3) by linarith
      moreover have "room - (bl + 1) < B" using room by linarith
      ultimately show ?thesis by simp
    qed
    have "hstate (hash_pad c B l ctx) = c (hstate ctx) (b @ [0x80] @ replicate (room - (bl + 1)) 0 @ l)"
      using False last [OF block(1), of "bl + 1"] block(2)
      by (simp add: hash_pad_def Let_def bl_def [symmetric] room_def [symmetric] block_def [symmetric])
    moreover have "hash_blocks c B init (md_pad B l m) =
        (c (hstate ctx) ((b @ [0x80] @ replicate (room - (bl + 1)) 0) @ l), [])"
      unfolding md z using fin [of "b @ [0x80] @ replicate (room - (bl + 1)) 0"] False h(4) by simp
    ultimately show ?thesis by (simp add: md_hash_def)
  next
    case True
    have z: "(2 * B - 1 - length l - bl) mod B = (B - (bl + 1)) + room"
    proof -
      have "2 * B - 1 - length l - bl = (B - (bl + 1)) + room" using room h(3) by linarith
      moreover have "(B - (bl + 1)) + room < B" using True h(3) by linarith
      ultimately show ?thesis by simp
    qed
    define full where "full = put_bytes block (bl + 1) (replicate (B - (bl + 1)) 0)"
    have full: "full = b @ [0x80] @ replicate (B - (bl + 1)) 0" "length full = B"
      using block h(3,4) by (simp_all add: full_def put_bytes_def)
    have "hstate (hash_pad c B l ctx) = c (c (hstate ctx) full) (replicate room 0 @ l)"
      using True last [OF full(2), of 0]
      by (simp add: hash_pad_def Let_def bl_def [symmetric] room_def [symmetric] block_def [symmetric]
          full_def [unfolded add_Suc_right add_0_right One_nat_def, symmetric])
    moreover have "hash_blocks c B init (md_pad B l m) =
        hash_blocks c B (hstate ctx) (full @ (replicate room 0 @ l))"
      unfolding md z replicate_add full(1) by simp
    moreover have "\<dots> = (c (c (hstate ctx) full) (replicate room 0 @ l), [])"
      unfolding hash_blocks_full [OF full(2) h(5), of c "hstate ctx"] using fin [of "replicate room 0"] by simp
    ultimately show ?thesis by (simp add: md_hash_def)
  qed
qed

section \<open>The contract of an incremental digest\<close>

locale streaming =
  fixes update :: "'ctx \<Rightarrow> byte list \<Rightarrow> 'ctx"
    and stands :: "'ctx \<Rightarrow> byte list \<Rightarrow> bool"
  assumes absorb: "stands ctx m \<Longrightarrow> stands (update ctx d) (m @ d)"
begin

lemma chunks: "stands ctx m \<Longrightarrow> stands (foldl update ctx ds) (m @ concat ds)"
proof (induction ds arbitrary: ctx m)
  case (Cons d ds)
  from Cons.IH [OF absorb [OF Cons.prems, of d]] show ?case by simp
qed simp

end

end
