(* ===== verification/Sha2.thy ===== *)
theory Sha2
  imports Block_Hash
begin

text \<open>
  SHA-256, SHA-384 and SHA-512 of \<^verbatim>\<open>src/proven/hash.c\<close>: the compression functions over 32- and
  64-bit words, and the incremental interface. The specification of a digest is the standard's: pad the
  whole message (\<open>md_pad\<close>) and fold the compression function over its blocks (\<open>md_hash\<close>). The lemmas
  show that a context fed in any pieces finishes with that digest. A null context or output, which
  every function answers by doing nothing, is left out.
\<close>

section \<open>SHA-256\<close>

definition sha256_k :: "32 word list" where
  "sha256_k =
   [0x428A2F98, 0x71374491, 0xB5C0FBCF, 0xE9B5DBA5, 0x3956C25B, 0x59F111F1, 0x923F82A4, 0xAB1C5ED5,
    0xD807AA98, 0x12835B01, 0x243185BE, 0x550C7DC3, 0x72BE5D74, 0x80DEB1FE, 0x9BDC06A7, 0xC19BF174,
    0xE49B69C1, 0xEFBE4786, 0xFC19DC6, 0x240CA1CC, 0x2DE92C6F, 0x4A7484AA, 0x5CB0A9DC, 0x76F988DA,
    0x983E5152, 0xA831C66D, 0xB00327C8, 0xBF597FC7, 0xC6E00BF3, 0xD5A79147, 0x6CA6351, 0x14292967,
    0x27B70A85, 0x2E1B2138, 0x4D2C6DFC, 0x53380D13, 0x650A7354, 0x766A0ABB, 0x81C2C92E, 0x92722C85,
    0xA2BFE8A1, 0xA81A664B, 0xC24B8B70, 0xC76C51A3, 0xD192E819, 0xD6990624, 0xF40E3585, 0x106AA070,
    0x19A4C116, 0x1E376C08, 0x2748774C, 0x34B0BCB5, 0x391C0CB3, 0x4ED8AA4A, 0x5B9CCA4F, 0x682E6FF3,
    0x748F82EE, 0x78A5636F, 0x84C87814, 0x8CC70208, 0x90BEFFFA, 0xA4506CEB, 0xBEF9A3F7, 0xC67178F2]"

definition sha_rotr :: "32 word \<Rightarrow> nat \<Rightarrow> 32 word" where
  "sha_rotr x n = drop_bit n x OR push_bit (32 - n) x"

definition sha_word :: "byte list \<Rightarrow> nat \<Rightarrow> 32 word" where
  "sha_word block i = push_bit 24 (ucast (block ! (i * 4))) OR push_bit 16 (ucast (block ! (i * 4 + 1))) OR
    push_bit 8 (ucast (block ! (i * 4 + 2))) OR ucast (block ! (i * 4 + 3))"

text \<open>The loop that extends the schedule, one word at a time.\<close>

definition sha256_next :: "32 word list \<Rightarrow> 32 word list" where
  "sha256_next w =
    (let i = length w;
         s0 = sha_rotr (w ! (i - 15)) 7 XOR sha_rotr (w ! (i - 15)) 18 XOR drop_bit 3 (w ! (i - 15));
         s1 = sha_rotr (w ! (i - 2)) 17 XOR sha_rotr (w ! (i - 2)) 19 XOR drop_bit 10 (w ! (i - 2))
     in w @ [w ! (i - 16) + s0 + w ! (i - 7) + s1])"

definition sha256_schedule :: "byte list \<Rightarrow> 32 word list" where
  "sha256_schedule block = (sha256_next ^^ 48) (map (sha_word block) [0..<16])"

fun sha256_round :: "32 word list \<Rightarrow> 32 word list \<Rightarrow> nat \<Rightarrow> 32 word list" where
  "sha256_round w [a, b, c, d, e, f, g, h] i =
    (let S1 = sha_rotr e 6 XOR sha_rotr e 11 XOR sha_rotr e 25;
         ch = (e AND f) XOR (NOT e AND g);
         t1 = h + S1 + ch + sha256_k ! i + w ! i;
         S0 = sha_rotr a 2 XOR sha_rotr a 13 XOR sha_rotr a 22;
         maj = (a AND b) XOR (a AND c) XOR (b AND c);
         t2 = S0 + maj
     in [t1 + t2, a, b, c, d + t1, e, f, g])"
| "sha256_round w st i = st"

definition sha256_compress :: "32 word list \<Rightarrow> byte list \<Rightarrow> 32 word list" where
  "sha256_compress state block =
    map2 (+) state (foldl (sha256_round (sha256_schedule block)) state [0..<64])"

definition sha256_iv :: "32 word list" where
  "sha256_iv = [0x6A09E667, 0xBB67AE85, 0x3C6EF372, 0xA54FF53A, 0x510E527F, 0x9B05688C, 0x1F83D9AB, 0x5BE0CD19]"

definition proven_sha256_init :: "32 word hash_ctx \<Rightarrow> 32 word hash_ctx" where
  "proven_sha256_init ctx = ctx\<lparr>hstate := sha256_iv, hlength := 0, hblock_len := 0\<rparr>"

definition proven_sha256_update :: "32 word hash_ctx \<Rightarrow> byte view \<Rightarrow> 32 word hash_ctx" where
  "proven_sha256_update ctx data =
    (if view_size data = 0 \<or> view_null data then ctx else hash_feed sha256_compress 64 ctx (view_data data))"

text \<open>The loop of zero bytes; a context's block is never full, which the guard records.\<close>

lemma sha256_update_byte:
  "hblock_len ctx < 64 \<Longrightarrow>
    hblock_len (proven_sha256_update ctx (At [b])) = (if hblock_len ctx = 63 then 0 else hblock_len ctx + 1)"
  by (auto simp: proven_sha256_update_def hash_feed_def hash_tail_def Let_def hash_blocks_short)

function sha256_zeros :: "32 word hash_ctx \<Rightarrow> 32 word hash_ctx" where
  "sha256_zeros ctx =
    (if hblock_len ctx \<noteq> 56 \<and> hblock_len ctx < 64 then sha256_zeros (proven_sha256_update ctx (At [0])) else ctx)"
  by pat_completeness auto
termination
proof (relation "measure (\<lambda>ctx. if hblock_len ctx < 57 then 56 - hblock_len ctx else 120 - hblock_len ctx)", simp)
  fix ctx :: "32 word hash_ctx"
  assume "hblock_len ctx \<noteq> 56 \<and> hblock_len ctx < 64"
  then show "(proven_sha256_update ctx (At [0]), ctx)
      \<in> measure (\<lambda>ctx. if hblock_len ctx < 57 then 56 - hblock_len ctx else 120 - hblock_len ctx)"
    using sha256_update_byte [of ctx 0] by auto
qed

declare sha256_zeros.simps [simp del]

definition sha_digest :: "32 word list \<Rightarrow> byte list" where
  "sha_digest state =
    concat (map (\<lambda>w. [ucast (drop_bit 24 w), ucast (drop_bit 16 w), ucast (drop_bit 8 w), ucast w]) state)"

text \<open>The digest written and the context left behind.\<close>

definition proven_sha256_final :: "32 word hash_ctx \<Rightarrow> byte list \<times> 32 word hash_ctx" where
  "proven_sha256_final ctx =
    (let bits = hlength ctx * 8;
         ctx = sha256_zeros (proven_sha256_update ctx (At [0x80]));
         ctx = proven_sha256_update ctx (At (be64 bits))
     in (sha_digest (hstate ctx), ctx))"

text \<open>A context on the stack: its fields hold anything before the initialisation.\<close>

definition proven_sha256 :: "32 word hash_ctx \<Rightarrow> byte view \<Rightarrow> byte list" where
  "proven_sha256 ctx data = fst (proven_sha256_final (proven_sha256_update (proven_sha256_init ctx) data))"

text \<open>The terminating NUL that the C function stores after the digits is part of the result.\<close>

definition proven_sha256_to_hex :: "byte list \<Rightarrow> byte list" where
  "proven_sha256_to_hex digest =
    (let d = ascii ''0123456789abcdef''
     in concat (map (\<lambda>b. [d ! unat (drop_bit 4 b), d ! unat (b AND 0xF)]) digest) @ [0])"

section \<open>SHA-512 and SHA-384\<close>

definition sha512_k :: "64 word list" where
  "sha512_k =
   [0x428A2F98D728AE22, 0x7137449123EF65CD, 0xB5C0FBCFEC4D3B2F, 0xE9B5DBA58189DBBC,
    0x3956C25BF348B538, 0x59F111F1B605D019, 0x923F82A4AF194F9B, 0xAB1C5ED5DA6D8118,
    0xD807AA98A3030242, 0x12835B0145706FBE, 0x243185BE4EE4B28C, 0x550C7DC3D5FFB4E2,
    0x72BE5D74F27B896F, 0x80DEB1FE3B1696B1, 0x9BDC06A725C71235, 0xC19BF174CF692694,
    0xE49B69C19EF14AD2, 0xEFBE4786384F25E3, 0xFC19DC68B8CD5B5, 0x240CA1CC77AC9C65,
    0x2DE92C6F592B0275, 0x4A7484AA6EA6E483, 0x5CB0A9DCBD41FBD4, 0x76F988DA831153B5,
    0x983E5152EE66DFAB, 0xA831C66D2DB43210, 0xB00327C898FB213F, 0xBF597FC7BEEF0EE4,
    0xC6E00BF33DA88FC2, 0xD5A79147930AA725, 0x6CA6351E003826F, 0x142929670A0E6E70,
    0x27B70A8546D22FFC, 0x2E1B21385C26C926, 0x4D2C6DFC5AC42AED, 0x53380D139D95B3DF,
    0x650A73548BAF63DE, 0x766A0ABB3C77B2A8, 0x81C2C92E47EDAEE6, 0x92722C851482353B,
    0xA2BFE8A14CF10364, 0xA81A664BBC423001, 0xC24B8B70D0F89791, 0xC76C51A30654BE30,
    0xD192E819D6EF5218, 0xD69906245565A910, 0xF40E35855771202A, 0x106AA07032BBD1B8,
    0x19A4C116B8D2D0C8, 0x1E376C085141AB53, 0x2748774CDF8EEB99, 0x34B0BCB5E19B48A8,
    0x391C0CB3C5C95A63, 0x4ED8AA4AE3418ACB, 0x5B9CCA4F7763E373, 0x682E6FF3D6B2B8A3,
    0x748F82EE5DEFB2FC, 0x78A5636F43172F60, 0x84C87814A1F0AB72, 0x8CC702081A6439EC,
    0x90BEFFFA23631E28, 0xA4506CEBDE82BDE9, 0xBEF9A3F7B2C67915, 0xC67178F2E372532B,
    0xCA273ECEEA26619C, 0xD186B8C721C0C207, 0xEADA7DD6CDE0EB1E, 0xF57D4F7FEE6ED178,
    0x6F067AA72176FBA, 0xA637DC5A2C898A6, 0x113F9804BEF90DAE, 0x1B710B35131C471B,
    0x28DB77F523047D84, 0x32CAAB7B40C72493, 0x3C9EBE0A15C9BEBC, 0x431D67C49C100D4C,
    0x4CC5D4BECB3E42B6, 0x597F299CFC657E2A, 0x5FCB6FAB3AD6FAEC, 0x6C44198C4A475817]"

definition sha512_rotr :: "64 word \<Rightarrow> nat \<Rightarrow> 64 word" where
  "sha512_rotr x n = drop_bit n x OR push_bit (64 - n) x"

definition sha512_word :: "byte list \<Rightarrow> nat \<Rightarrow> 64 word" where
  "sha512_word block i = foldl (\<lambda>v k. push_bit 8 v OR ucast (block ! (i * 8 + k))) 0 [0..<8]"

definition sha512_next :: "64 word list \<Rightarrow> 64 word list" where
  "sha512_next w =
    (let i = length w;
         s0 = sha512_rotr (w ! (i - 15)) 1 XOR sha512_rotr (w ! (i - 15)) 8 XOR drop_bit 7 (w ! (i - 15));
         s1 = sha512_rotr (w ! (i - 2)) 19 XOR sha512_rotr (w ! (i - 2)) 61 XOR drop_bit 6 (w ! (i - 2))
     in w @ [w ! (i - 16) + s0 + w ! (i - 7) + s1])"

definition sha512_schedule :: "byte list \<Rightarrow> 64 word list" where
  "sha512_schedule block = (sha512_next ^^ 64) (map (sha512_word block) [0..<16])"

fun sha512_round :: "64 word list \<Rightarrow> 64 word list \<Rightarrow> nat \<Rightarrow> 64 word list" where
  "sha512_round w [a, b, c, d, e, f, g, h] i =
    (let S1 = sha512_rotr e 14 XOR sha512_rotr e 18 XOR sha512_rotr e 41;
         ch = (e AND f) XOR (NOT e AND g);
         t1 = h + S1 + ch + sha512_k ! i + w ! i;
         S0 = sha512_rotr a 28 XOR sha512_rotr a 34 XOR sha512_rotr a 39;
         maj = (a AND b) XOR (a AND c) XOR (b AND c);
         t2 = S0 + maj
     in [t1 + t2, a, b, c, d + t1, e, f, g])"
| "sha512_round w st i = st"

definition sha512_compress :: "64 word list \<Rightarrow> byte list \<Rightarrow> 64 word list" where
  "sha512_compress state block =
    map2 (+) state (foldl (sha512_round (sha512_schedule block)) state [0..<80])"

definition sha512_iv :: "64 word list" where
  "sha512_iv = [0x6A09E667F3BCC908, 0xBB67AE8584CAA73B, 0x3C6EF372FE94F82B, 0xA54FF53A5F1D36F1,
    0x510E527FADE682D1, 0x9B05688C2B3E6C1F, 0x1F83D9ABFB41BD6B, 0x5BE0CD19137E2179]"

definition sha384_iv :: "64 word list" where
  "sha384_iv = [0xCBBB9D5DC1059ED8, 0x629A292A367CD507, 0x9159015A3070DD17, 0x152FECD8F70E5939,
    0x67332667FFC00B31, 0x8EB44A8768581511, 0xDB0C2E0D64F98FA7, 0x47B5481DBEFA4FA4]"

definition proven_sha512_init :: "64 word hash_ctx \<Rightarrow> 64 word hash_ctx" where
  "proven_sha512_init ctx = ctx\<lparr>hstate := sha512_iv, hlength := 0, hblock_len := 0\<rparr>"

definition proven_sha384_init :: "64 word hash_ctx \<Rightarrow> 64 word hash_ctx" where
  "proven_sha384_init ctx = ctx\<lparr>hstate := sha384_iv, hlength := 0, hblock_len := 0\<rparr>"

definition proven_sha512_update :: "64 word hash_ctx \<Rightarrow> byte view \<Rightarrow> 64 word hash_ctx" where
  "proven_sha512_update ctx data =
    (if view_null data \<or> view_size data = 0 then ctx else hash_feed sha512_compress 128 ctx (view_data data))"

definition proven_sha384_update :: "64 word hash_ctx \<Rightarrow> byte view \<Rightarrow> 64 word hash_ctx" where
  "proven_sha384_update ctx data = proven_sha512_update ctx data"

definition sha512_finish :: "64 word hash_ctx \<Rightarrow> nat \<Rightarrow> byte list \<times> 64 word hash_ctx" where
  "sha512_finish ctx out_len =
    (let bits_hi = drop_bit 61 (hlength ctx); bits_lo = push_bit 3 (hlength ctx);
         ctx = hash_pad sha512_compress 128 (be64 bits_hi @ be64 bits_lo) ctx
     in (map (\<lambda>i. ucast (drop_bit (56 - 8 * (i mod 8)) (hstate ctx ! (i div 8)))) [0..<out_len], ctx))"

definition proven_sha512_final :: "64 word hash_ctx \<Rightarrow> byte list \<times> 64 word hash_ctx" where
  "proven_sha512_final ctx = sha512_finish ctx 64"

definition proven_sha384_final :: "64 word hash_ctx \<Rightarrow> byte list \<times> 64 word hash_ctx" where
  "proven_sha384_final ctx = sha512_finish ctx 48"

definition proven_sha512 :: "64 word hash_ctx \<Rightarrow> byte view \<Rightarrow> byte list" where
  "proven_sha512 ctx data = fst (proven_sha512_final (proven_sha512_update (proven_sha512_init ctx) data))"

definition proven_sha384 :: "64 word hash_ctx \<Rightarrow> byte view \<Rightarrow> byte list" where
  "proven_sha384 ctx data = fst (proven_sha384_final (proven_sha384_update (proven_sha384_init ctx) data))"

section \<open>The digests of a message\<close>

definition sha256_spec :: "byte list \<Rightarrow> byte list" where
  "sha256_spec m = sha_digest (md_hash sha256_compress 64 sha256_iv (be64 (8 * of_nat (length m))) m)"

text \<open>The 128-bit count of bits of the message, as the standard has it.\<close>

definition bits128 :: "nat \<Rightarrow> byte list" where
  "bits128 n = be64 (drop_bit 61 (of_nat n)) @ be64 (push_bit 3 (of_nat n))"

definition words_bytes :: "64 word list \<Rightarrow> byte list" where
  "words_bytes ws = concat (map be64 ws)"

definition sha512_spec :: "byte list \<Rightarrow> byte list" where
  "sha512_spec m = words_bytes (md_hash sha512_compress 128 sha512_iv (bits128 (length m)) m)"

definition sha384_spec :: "byte list \<Rightarrow> byte list" where
  "sha384_spec m = take 48 (words_bytes (md_hash sha512_compress 128 sha384_iv (bits128 (length m)) m))"

section \<open>Contexts\<close>

text \<open>What a context stands for, and the contract of an incremental digest.\<close>

definition sha256_stands :: "32 word hash_ctx \<Rightarrow> byte list \<Rightarrow> bool" where
  "sha256_stands = absorbed sha256_compress 64 sha256_iv"

definition sha512_stands :: "64 word list \<Rightarrow> 64 word hash_ctx \<Rightarrow> byte list \<Rightarrow> bool" where
  "sha512_stands iv = absorbed sha512_compress 128 iv"

lemma sha256_update_stands:
  "sha256_stands ctx m \<Longrightarrow> sha256_stands (proven_sha256_update ctx (At d)) (m @ d)"
  using hash_feed_absorbs [of sha256_compress 64 sha256_iv ctx m d]
  by (auto simp: proven_sha256_update_def sha256_stands_def)

lemma sha512_update_stands:
  "sha512_stands iv ctx m \<Longrightarrow> sha512_stands iv (proven_sha512_update ctx (At d)) (m @ d)"
  using hash_feed_absorbs [of sha512_compress 128 iv ctx m d]
  by (auto simp: proven_sha512_update_def sha512_stands_def)

interpretation sha256: streaming "\<lambda>ctx d. proven_sha256_update ctx (At d)" sha256_stands
  by unfold_locales (rule sha256_update_stands)

interpretation sha512: streaming "\<lambda>ctx d. proven_sha512_update ctx (At d)" "sha512_stands iv"
  by unfold_locales (rule sha512_update_stands)

lemma sha256_init_stands: "length (hblock ctx) = 64 \<Longrightarrow> sha256_stands (proven_sha256_init ctx) []"
  by (simp add: sha256_stands_def proven_sha256_init_def absorbed_init)

lemma sha512_init_stands:
  "length (hblock ctx) = 128 \<Longrightarrow> sha512_stands sha512_iv (proven_sha512_init ctx) []"
  "length (hblock ctx) = 128 \<Longrightarrow> sha512_stands sha384_iv (proven_sha384_init ctx) []"
  by (simp_all add: sha512_stands_def proven_sha512_init_def proven_sha384_init_def absorbed_init)

text \<open>The zero bytes of the padding.\<close>

lemma pad_count:
  fixes n :: nat
  shows "(120 - Suc n mod 64) mod 64 = (119 - n mod 64) mod 64"
    and "n mod 64 \<noteq> 56 \<Longrightarrow> (120 - n mod 64) mod 64 = Suc ((120 - Suc n mod 64) mod 64)"
proof -
  define r where "r = n mod 64"
  have r: "r < 64" "Suc n mod 64 = (if r = 63 then 0 else Suc r)" by (simp_all add: r_def mod_Suc)
  show "(120 - Suc n mod 64) mod 64 = (119 - n mod 64) mod 64"
    unfolding r(2) r_def [symmetric] by simp
  have m: "k mod 64 = (if k < 64 then k else k - 64)" if "k < 128" for k :: nat
    using that by (simp add: mod_if)
  assume "n mod 64 \<noteq> 56"
  then have "r \<noteq> 56" by (simp add: r_def)
  with r(1) show "(120 - n mod 64) mod 64 = Suc ((120 - Suc n mod 64) mod 64)"
    unfolding r(2) r_def [symmetric] by (simp add: m) arith
qed

lemma sha256_zeros_stands:
  "sha256_stands ctx m \<Longrightarrow>
    sha256_stands (sha256_zeros ctx) (m @ replicate ((120 - length m mod 64) mod 64) 0)"
proof (induction ctx arbitrary: m rule: sha256_zeros.induct)
  case (1 ctx)
  have bl: "hblock_len ctx = length m mod 64" "hblock_len ctx < 64"
    using absorbed_len [OF 1(2) [unfolded sha256_stands_def]] 1(2) [unfolded sha256_stands_def absorbed_def] by blast+
  show ?case
  proof (cases "hblock_len ctx = 56")
    case True
    then have "(120 - length m mod 64) mod 64 = 0" using bl by simp
    with 1(2) True show ?thesis by (simp add: sha256_zeros.simps [of ctx])
  next
    case False
    have "(120 - length m mod 64) mod 64 = Suc ((120 - Suc (length m) mod 64) mod 64)"
      using bl False by (intro pad_count(2)) simp
    moreover have "sha256_stands (sha256_zeros (proven_sha256_update ctx (At [0])))
        ((m @ [0]) @ replicate ((120 - length (m @ [0]) mod 64) mod 64) 0)"
      using 1(1) [OF _ sha256_update_stands [OF 1(2)]] bl False by simp
    ultimately show ?thesis using bl False by (simp add: sha256_zeros.simps [of ctx])
  qed
qed

lemma sha256_final_spec:
  assumes "sha256_stands ctx m"
  shows "fst (proven_sha256_final ctx) = sha256_spec m"
proof -
  define ctx1 where "ctx1 = proven_sha256_update ctx (At [0x80])"
  define l where "l = be64 (hlength ctx * 8)"
  have "sha256_stands ctx1 (m @ [0x80])" unfolding ctx1_def by (rule sha256_update_stands [OF assms])
  then have "sha256_stands (proven_sha256_update (sha256_zeros ctx1) (At l))
      (((m @ [0x80]) @ replicate ((120 - length (m @ [0x80]) mod 64) mod 64) 0) @ l)"
    by (intro sha256_update_stands sha256_zeros_stands)
  moreover have "(120 - length (m @ [0x80]) mod 64) mod 64 = (2 * 64 - 1 - 8 - length m mod 64) mod 64"
    using pad_count(1) [of "length m"] by simp
  ultimately have "sha256_stands (proven_sha256_update (sha256_zeros ctx1) (At l)) (md_pad 64 l m)"
    by (simp add: md_pad_def l_def)
  then have "hstate (proven_sha256_update (sha256_zeros ctx1) (At l)) = md_hash sha256_compress 64 sha256_iv l m"
    by (simp add: sha256_stands_def absorbed_def md_hash_def)
  moreover have "hlength ctx * 8 = 8 * of_nat (length m)" using assms by (simp add: sha256_stands_def absorbed_def)
  ultimately show ?thesis
    by (simp add: proven_sha256_final_def Let_def ctx1_def l_def sha256_spec_def)
qed

text \<open>A state keeps its eight words.\<close>

lemma sha512_round_length [simp]: "length (sha512_round w st i) = length st"
  by (induction w st i rule: sha512_round.induct) (simp_all add: Let_def)

lemma sha512_compress_length [simp]: "length (sha512_compress st block) = length st"
proof -
  have "length (foldl (sha512_round w) st is) = length st" for w "is"
    by (induction "is" arbitrary: st) simp_all
  then show ?thesis by (simp add: sha512_compress_def)
qed

lemma hash_blocks_length:
  "(\<And>st b. length (c st b) = length st) \<Longrightarrow> length (fst (hash_blocks c B st p)) = length st"
proof (induction c B st p rule: hash_blocks.induct)
  case (1 c B st p)
  then show ?case by (simp add: hash_blocks.simps [of c B st p])
qed

lemma words_bytes_nth:
  "i < 8 * length ws \<Longrightarrow> words_bytes ws ! i = ucast (drop_bit (56 - 8 * (i mod 8)) (ws ! (i div 8)))"
proof (induction ws arbitrary: i)
  case (Cons w ws)
  show ?case
  proof (cases "i < 8")
    case True
    then show ?thesis by (simp add: words_bytes_def nth_append) (simp add: be64_def)
  next
    case False
    then obtain j where j: "i = 8 + j" by (metis le_Suc_ex not_le)
    have "(8 + j) div 8 = Suc (j div 8)" "(8 + j) mod 8 = j mod 8" by simp_all
    with Cons j show ?thesis by (simp add: words_bytes_def nth_append)
  qed
qed simp

lemma length_words_bytes [simp]: "length (words_bytes ws) = 8 * length ws"
  by (induction ws) (simp_all add: words_bytes_def)

lemma sha512_finish_spec:
  assumes "sha512_stands iv ctx m" "length iv = 8" "n \<le> 64"
  shows "fst (sha512_finish ctx n) = take n (words_bytes (md_hash sha512_compress 128 iv (bits128 (length m)) m))"
proof -
  define l where "l = be64 (drop_bit 61 (hlength ctx)) @ be64 (push_bit 3 (hlength ctx))"
  have l: "l = bits128 (length m)" "length l < 128"
    using assms(1) by (simp_all add: l_def bits128_def sha512_stands_def absorbed_def)
  have h: "hstate (hash_pad sha512_compress 128 l ctx) = md_hash sha512_compress 128 iv l m"
    using assms(1) l(2) by (intro hash_pad_md) (simp_all add: sha512_stands_def)
  have "length (md_hash sha512_compress 128 iv l m) = 8"
    using assms(2) by (simp add: md_hash_def hash_blocks_length)
  then show ?thesis
    using assms(3) h l(1) words_bytes_nth
    by (intro nth_equalityI) (simp_all add: sha512_finish_def Let_def l_def [symmetric] min_def)
qed

lemma sha512_final_spec:
  "sha512_stands sha512_iv ctx m \<Longrightarrow> fst (proven_sha512_final ctx) = sha512_spec m"
  "sha512_stands sha384_iv ctx m \<Longrightarrow> fst (proven_sha384_final ctx) = sha384_spec m"
proof -
  have "length (md_hash sha512_compress 128 sha512_iv l m) = 8" for l m
    by (simp add: md_hash_def hash_blocks_length sha512_iv_def)
  then show "sha512_stands sha512_iv ctx m \<Longrightarrow> fst (proven_sha512_final ctx) = sha512_spec m"
    using sha512_finish_spec [of sha512_iv ctx m 64]
    by (simp add: proven_sha512_final_def sha512_spec_def sha512_iv_def)
  show "sha512_stands sha384_iv ctx m \<Longrightarrow> fst (proven_sha384_final ctx) = sha384_spec m"
    using sha512_finish_spec [of sha384_iv ctx m 48]
    by (simp add: proven_sha384_final_def sha384_spec_def sha384_iv_def)
qed

section \<open>The incremental digests\<close>


text \<open>The same for SHA-512 and SHA-384, which share the context, the update and the finishing and
  differ in the initial value and the length kept.\<close>

theorem sha512_streaming:
  assumes "length (hblock ctx) = 128"
  shows "fst (proven_sha512_final (foldl (\<lambda>c d. proven_sha512_update c (At d)) (proven_sha512_init ctx) ds)) =
      words_bytes (md_hash sha512_compress 128 sha512_iv (bits128 (length (concat ds))) (concat ds)) \<and>
    fst (proven_sha384_final (foldl (\<lambda>c d. proven_sha384_update c (At d)) (proven_sha384_init ctx) ds)) =
      take 48 (words_bytes (md_hash sha512_compress 128 sha384_iv (bits128 (length (concat ds))) (concat ds)))"
  using sha512_final_spec(1) [OF sha512.chunks [OF sha512_init_stands(1) [OF assms]], of ds]
    sha512_final_spec(2) [OF sha512.chunks [OF sha512_init_stands(2) [OF assms]], of ds]
  by (simp add: sha512_spec_def sha384_spec_def proven_sha384_update_def)

text \<open>One stack context, two cuts of the same message.\<close>

definition demo_ctx :: "nat \<Rightarrow> 'w hash_ctx" where
  "demo_ctx n = \<lparr>hstate = [], hlength = 7, hblock = replicate n 0xCC, hblock_len = 3\<rparr>"


theorem sha512_streaming_witness:
  "fst (proven_sha512_final (proven_sha512_update (proven_sha512_init (demo_ctx 128)) (At (ascii ''abc'')))) =
   words_bytes (md_hash sha512_compress 128 sha512_iv (be64 0 @ be64 24) (ascii ''abc''))"
proof -
  have l: "length (hblock (demo_ctx 128 :: 64 word hash_ctx)) = 128" by (simp add: demo_ctx_def)
  show ?thesis
    using sha512_streaming [OF l, of "[ascii ''abc'']"] by (simp add: bits128_def ascii_def)
qed

end
