(* ===== verification/Hash_Legacy.thy ===== *)
theory Hash_Legacy
  imports Sha2
begin

text \<open>
  SHA-1 and MD5 of \<^verbatim>\<open>src/proven/hash_legacy.c\<close>, kept for formats that name them. The block buffer is
  written once in C and takes the compression function; here it is \<open>hash_feed\<close> and \<open>hash_pad\<close> of
  \<open>Block_Hash\<close>. The two digests differ in the compression function and in the byte order of the words
  and of the length.
\<close>

definition legacy_rotl :: "32 word \<Rightarrow> nat \<Rightarrow> 32 word" where
  "legacy_rotl x n = push_bit n x OR drop_bit (32 - n) x"

definition legacy_update ::
  "(32 word list \<Rightarrow> byte list \<Rightarrow> 32 word list) \<Rightarrow> 32 word hash_ctx \<Rightarrow> byte view \<Rightarrow> 32 word hash_ctx" where
  "legacy_update compress ctx data =
    (if view_size data = 0 then ctx else hash_feed compress 64 ctx (view_data data))"

definition legacy_pad ::
  "(32 word list \<Rightarrow> byte list \<Rightarrow> 32 word list) \<Rightarrow> bool \<Rightarrow> 32 word hash_ctx \<Rightarrow> 32 word hash_ctx" where
  "legacy_pad compress big_endian ctx =
    (let bits = hlength ctx * 8
     in hash_pad compress 64 (if big_endian then be64 bits else le64 bits) ctx)"

definition legacy_to_hex :: "byte list \<Rightarrow> byte list" where
  "legacy_to_hex digest =
    (let d = ascii ''0123456789abcdef''
     in concat (map (\<lambda>b. [d ! unat (drop_bit 4 b), d ! unat (b AND 0xF)]) digest) @ [0])"

section \<open>SHA-1\<close>

definition sha1_next :: "32 word list \<Rightarrow> 32 word list" where
  "sha1_next w =
    (let i = length w
     in w @ [legacy_rotl (w ! (i - 3) XOR w ! (i - 8) XOR w ! (i - 14) XOR w ! (i - 16)) 1])"

definition sha1_schedule :: "byte list \<Rightarrow> 32 word list" where
  "sha1_schedule block = (sha1_next ^^ 64) (map (sha_word block) [0..<16])"

fun sha1_round :: "32 word list \<Rightarrow> 32 word list \<Rightarrow> nat \<Rightarrow> 32 word list" where
  "sha1_round w [a, b, c, d, e] i =
    (let (f, k) =
        (if i < 20 then ((b AND c) OR (NOT b AND d), 0x5A827999)
         else if i < 40 then (b XOR c XOR d, 0x6ED9EBA1)
         else if i < 60 then ((b AND c) OR (b AND d) OR (c AND d), 0x8F1BBCDC)
         else (b XOR c XOR d, 0xCA62C1D6));
       t = legacy_rotl a 5 + f + e + k + w ! i
     in [t, a, legacy_rotl b 30, c, d])"
| "sha1_round w st i = st"

definition sha1_compress :: "32 word list \<Rightarrow> byte list \<Rightarrow> 32 word list" where
  "sha1_compress state block =
    map2 (+) state (foldl (sha1_round (sha1_schedule block)) state [0..<80])"

definition sha1_iv :: "32 word list" where
  "sha1_iv = [0x67452301, 0xEFCDAB89, 0x98BADCFE, 0x10325476, 0xC3D2E1F0]"

definition proven_sha1_init :: "32 word hash_ctx \<Rightarrow> 32 word hash_ctx" where
  "proven_sha1_init ctx = ctx\<lparr>hstate := sha1_iv, hlength := 0, hblock_len := 0\<rparr>"

definition proven_sha1_update :: "32 word hash_ctx \<Rightarrow> byte view \<Rightarrow> 32 word hash_ctx" where
  "proven_sha1_update ctx data =
    (if view_size data > 0 \<and> view_null data then ctx else legacy_update sha1_compress ctx data)"

definition proven_sha1_final :: "32 word hash_ctx \<Rightarrow> byte list \<times> 32 word hash_ctx" where
  "proven_sha1_final ctx =
    (let ctx = legacy_pad sha1_compress True ctx in (sha_digest (hstate ctx), ctx))"

definition proven_sha1 :: "32 word hash_ctx \<Rightarrow> byte view \<Rightarrow> byte list" where
  "proven_sha1 ctx data = fst (proven_sha1_final (proven_sha1_update (proven_sha1_init ctx) data))"

definition proven_sha1_to_hex :: "byte list \<Rightarrow> byte list" where
  "proven_sha1_to_hex digest = legacy_to_hex digest"

section \<open>MD5\<close>

definition md5_t :: "32 word list" where
  "md5_t =
   [0xD76AA478, 0xE8C7B756, 0x242070DB, 0xC1BDCEEE, 0xF57C0FAF, 0x4787C62A, 0xA8304613, 0xFD469501,
    0x698098D8, 0x8B44F7AF, 0xFFFF5BB1, 0x895CD7BE, 0x6B901122, 0xFD987193, 0xA679438E, 0x49B40821,
    0xF61E2562, 0xC040B340, 0x265E5A51, 0xE9B6C7AA, 0xD62F105D, 0x2441453, 0xD8A1E681, 0xE7D3FBC8,
    0x21E1CDE6, 0xC33707D6, 0xF4D50D87, 0x455A14ED, 0xA9E3E905, 0xFCEFA3F8, 0x676F02D9, 0x8D2A4C8A,
    0xFFFA3942, 0x8771F681, 0x6D9D6122, 0xFDE5380C, 0xA4BEEA44, 0x4BDECFA9, 0xF6BB4B60, 0xBEBFBC70,
    0x289B7EC6, 0xEAA127FA, 0xD4EF3085, 0x4881D05, 0xD9D4D039, 0xE6DB99E5, 0x1FA27CF8, 0xC4AC5665,
    0xF4292244, 0x432AFF97, 0xAB9423A7, 0xFC93A039, 0x655B59C3, 0x8F0CCC92, 0xFFEFF47D, 0x85845DD1,
    0x6FA87E4F, 0xFE2CE6E0, 0xA3014314, 0x4E0811A1, 0xF7537E82, 0xBD3AF235, 0x2AD7D2BB, 0xEB86D391]"

definition md5_s :: "nat list" where
  "md5_s =
   [7, 12, 17, 22, 7, 12, 17, 22, 7, 12, 17, 22, 7, 12, 17, 22,
    5, 9, 14, 20, 5, 9, 14, 20, 5, 9, 14, 20, 5, 9, 14, 20,
    4, 11, 16, 23, 4, 11, 16, 23, 4, 11, 16, 23, 4, 11, 16, 23,
    6, 10, 15, 21, 6, 10, 15, 21, 6, 10, 15, 21, 6, 10, 15, 21]"

definition md5_word :: "byte list \<Rightarrow> nat \<Rightarrow> 32 word" where
  "md5_word block i = ucast (block ! (i * 4)) OR push_bit 8 (ucast (block ! (i * 4 + 1))) OR
    push_bit 16 (ucast (block ! (i * 4 + 2))) OR push_bit 24 (ucast (block ! (i * 4 + 3)))"

fun md5_round :: "32 word list \<Rightarrow> 32 word list \<Rightarrow> nat \<Rightarrow> 32 word list" where
  "md5_round x [a, b, c, d] i =
    (let (f, g) =
        (if i < 16 then ((b AND c) OR (NOT b AND d), i)
         else if i < 32 then ((d AND b) OR (NOT d AND c), (5 * i + 1) mod 16)
         else if i < 48 then (b XOR c XOR d, (3 * i + 5) mod 16)
         else (c XOR (b OR NOT d), (7 * i) mod 16));
       t = a + f + md5_t ! i + x ! g
     in [d, b + legacy_rotl t (md5_s ! i), b, c])"
| "md5_round x st i = st"

definition md5_compress :: "32 word list \<Rightarrow> byte list \<Rightarrow> 32 word list" where
  "md5_compress state block =
    map2 (+) state (foldl (md5_round (map (md5_word block) [0..<16])) state [0..<64])"

definition md5_iv :: "32 word list" where
  "md5_iv = [0x67452301, 0xEFCDAB89, 0x98BADCFE, 0x10325476]"

definition proven_md5_init :: "32 word hash_ctx \<Rightarrow> 32 word hash_ctx" where
  "proven_md5_init ctx = ctx\<lparr>hstate := md5_iv, hlength := 0, hblock_len := 0\<rparr>"

definition proven_md5_update :: "32 word hash_ctx \<Rightarrow> byte view \<Rightarrow> 32 word hash_ctx" where
  "proven_md5_update ctx data =
    (if view_size data > 0 \<and> view_null data then ctx else legacy_update md5_compress ctx data)"

definition md5_digest :: "32 word list \<Rightarrow> byte list" where
  "md5_digest state =
    concat (map (\<lambda>w. [ucast w, ucast (drop_bit 8 w), ucast (drop_bit 16 w), ucast (drop_bit 24 w)]) state)"

definition proven_md5_final :: "32 word hash_ctx \<Rightarrow> byte list \<times> 32 word hash_ctx" where
  "proven_md5_final ctx =
    (let ctx = legacy_pad md5_compress False ctx in (md5_digest (hstate ctx), ctx))"

definition proven_md5 :: "32 word hash_ctx \<Rightarrow> byte view \<Rightarrow> byte list" where
  "proven_md5 ctx data = fst (proven_md5_final (proven_md5_update (proven_md5_init ctx) data))"

definition proven_md5_to_hex :: "byte list \<Rightarrow> byte list" where
  "proven_md5_to_hex digest = legacy_to_hex digest"

section \<open>The digests of a message\<close>

definition sha1_spec :: "byte list \<Rightarrow> byte list" where
  "sha1_spec m = sha_digest (md_hash sha1_compress 64 sha1_iv (be64 (8 * of_nat (length m))) m)"

definition md5_spec :: "byte list \<Rightarrow> byte list" where
  "md5_spec m = md5_digest (md_hash md5_compress 64 md5_iv (le64 (8 * of_nat (length m))) m)"

definition sha1_stands :: "32 word hash_ctx \<Rightarrow> byte list \<Rightarrow> bool" where
  "sha1_stands = absorbed sha1_compress 64 sha1_iv"

definition md5_stands :: "32 word hash_ctx \<Rightarrow> byte list \<Rightarrow> bool" where
  "md5_stands = absorbed md5_compress 64 md5_iv"

lemma legacy_update_absorbs:
  "absorbed c 64 iv ctx m \<Longrightarrow> absorbed c 64 iv (legacy_update c ctx (At d)) (m @ d)"
  using hash_feed_absorbs [of c 64 iv ctx m d] by (auto simp: legacy_update_def)

interpretation sha1: streaming "\<lambda>ctx d. proven_sha1_update ctx (At d)" sha1_stands
  by unfold_locales (simp add: proven_sha1_update_def sha1_stands_def legacy_update_absorbs)

interpretation md5: streaming "\<lambda>ctx d. proven_md5_update ctx (At d)" md5_stands
  by unfold_locales (simp add: proven_md5_update_def md5_stands_def legacy_update_absorbs)

lemma legacy_init_stands:
  "length (hblock ctx) = 64 \<Longrightarrow> sha1_stands (proven_sha1_init ctx) []"
  "length (hblock ctx) = 64 \<Longrightarrow> md5_stands (proven_md5_init ctx) []"
  by (simp_all add: sha1_stands_def md5_stands_def proven_sha1_init_def proven_md5_init_def absorbed_init)

lemma legacy_pad_md:
  assumes "absorbed c 64 iv ctx m"
  shows "hstate (legacy_pad c be ctx) =
    md_hash c 64 iv ((if be then be64 else le64) (8 * of_nat (length m))) m"
proof -
  have "hlength ctx * 8 = 8 * of_nat (length m)" using assms by (simp add: absorbed_def)
  then show ?thesis
    using hash_pad_md [OF assms, of "(if be then be64 else le64) (8 * of_nat (length m))"]
    by (cases be) (auto simp: legacy_pad_def)
qed

lemma legacy_final_spec:
  "sha1_stands ctx m \<Longrightarrow> fst (proven_sha1_final ctx) = sha1_spec m"
  "md5_stands ctx m \<Longrightarrow> fst (proven_md5_final ctx) = md5_spec m"
  by (simp_all add: proven_sha1_final_def proven_md5_final_def sha1_spec_def md5_spec_def sha1_stands_def
      md5_stands_def legacy_pad_md)

text \<open>SHA-1 and MD5 depend only on the concatenation of what was fed, and finish with the digest of
  the whole padded message: the length field most significant byte first for SHA-1 and last for
  MD5.\<close>

theorem legacy_streaming:
  assumes "length (hblock ctx) = 64"
  shows "fst (proven_sha1_final (foldl (\<lambda>c d. proven_sha1_update c (At d)) (proven_sha1_init ctx) ds)) =
      sha_digest (md_hash sha1_compress 64 sha1_iv (be64 (8 * of_nat (length (concat ds)))) (concat ds)) \<and>
    fst (proven_md5_final (foldl (\<lambda>c d. proven_md5_update c (At d)) (proven_md5_init ctx) ds)) =
      md5_digest (md_hash md5_compress 64 md5_iv (le64 (8 * of_nat (length (concat ds)))) (concat ds))"
  using legacy_final_spec(1) [OF sha1.chunks [OF legacy_init_stands(1) [OF assms]], of ds]
    legacy_final_spec(2) [OF md5.chunks [OF legacy_init_stands(2) [OF assms]], of ds]
  by (simp add: sha1_spec_def md5_spec_def)

theorem legacy_streaming_witness:
  "fst (proven_sha1_final (proven_sha1_update (proven_sha1_init (demo_ctx 64)) (At (ascii ''abc'')))) =
   sha_digest (md_hash sha1_compress 64 sha1_iv (be64 24) (ascii ''abc''))"
proof -
  have l: "length (hblock (demo_ctx 64 :: 32 word hash_ctx)) = 64" by (simp add: demo_ctx_def)
  show ?thesis
    using legacy_streaming [OF l, of "[ascii ''abc'']"] by (simp add: ascii_def)
qed

end
