(* ===== verification/Hmac.thy ===== *)
theory Hmac
  imports Hash_Legacy
begin

text \<open>
  HMAC, HKDF and PBKDF2 of \<^verbatim>\<open>src/proven/hmac.c\<close> over the digests of \<open>Sha2\<close> and \<open>Hash_Legacy\<close>. The
  specifications are those of RFC 2104, RFC 5869 and RFC 8018, over the digest of a whole message; the
  code keeps a running inner digest, the outer key and, for PBKDF2, one keyed state that it copies.
  A context on the stack (\<open>h0\<close>) holds anything before its initialisation; wiping local buffers has no
  effect on a result and is left out, wiping the context is not.
\<close>

text \<open>The enumeration, and any other value of its C type.\<close>

datatype proven_hmac_hash =
    PROVEN_HMAC_SHA256
  | PROVEN_HMAC_SHA384
  | PROVEN_HMAC_SHA512
  | PROVEN_HMAC_SHA1
  | PROVEN_HMAC_other

text \<open>The three members of the union are fields of their own: a context reads the one its hash names.\<close>

record proven_hmac =
  hm_hash :: proven_hmac_hash
  hm_s256 :: "32 word hash_ctx"
  hm_s512 :: "64 word hash_ctx"
  hm_s1 :: "32 word hash_ctx"
  hm_outer :: "byte list"
  hm_ready :: bool

definition proven_hmac_size :: "proven_hmac_hash \<Rightarrow> nat" where
  "proven_hmac_size hash = (case hash of
     PROVEN_HMAC_SHA256 \<Rightarrow> 32 | PROVEN_HMAC_SHA384 \<Rightarrow> 48 | PROVEN_HMAC_SHA512 \<Rightarrow> 64
   | PROVEN_HMAC_SHA1 \<Rightarrow> 20 | PROVEN_HMAC_other \<Rightarrow> 0)"

definition hmac_block_size :: "proven_hmac_hash \<Rightarrow> nat" where
  "hmac_block_size hash = (if hash = PROVEN_HMAC_SHA256 \<or> hash = PROVEN_HMAC_SHA1 then 64 else 128)"

definition hmac_hash_init :: "proven_hmac \<Rightarrow> proven_hmac" where
  "hmac_hash_init h =
    (if hm_hash h = PROVEN_HMAC_SHA256 then h\<lparr>hm_s256 := proven_sha256_init (hm_s256 h)\<rparr>
     else if hm_hash h = PROVEN_HMAC_SHA1 then h\<lparr>hm_s1 := proven_sha1_init (hm_s1 h)\<rparr>
     else if hm_hash h = PROVEN_HMAC_SHA384 then h\<lparr>hm_s512 := proven_sha384_init (hm_s512 h)\<rparr>
     else h\<lparr>hm_s512 := proven_sha512_init (hm_s512 h)\<rparr>)"

definition hmac_hash_update :: "proven_hmac \<Rightarrow> byte view \<Rightarrow> proven_hmac" where
  "hmac_hash_update h data =
    (if hm_hash h = PROVEN_HMAC_SHA256 then h\<lparr>hm_s256 := proven_sha256_update (hm_s256 h) data\<rparr>
     else if hm_hash h = PROVEN_HMAC_SHA1 then h\<lparr>hm_s1 := proven_sha1_update (hm_s1 h) data\<rparr>
     else h\<lparr>hm_s512 := proven_sha512_update (hm_s512 h) data\<rparr>)"

definition hmac_hash_final :: "proven_hmac \<Rightarrow> byte list \<times> proven_hmac" where
  "hmac_hash_final h =
    (if hm_hash h = PROVEN_HMAC_SHA256
     then (case proven_sha256_final (hm_s256 h) of (out, c) \<Rightarrow> (out, h\<lparr>hm_s256 := c\<rparr>))
     else if hm_hash h = PROVEN_HMAC_SHA1
     then (case proven_sha1_final (hm_s1 h) of (out, c) \<Rightarrow> (out, h\<lparr>hm_s1 := c\<rparr>))
     else if hm_hash h = PROVEN_HMAC_SHA384
     then (case proven_sha384_final (hm_s512 h) of (out, c) \<Rightarrow> (out, h\<lparr>hm_s512 := c\<rparr>))
     else (case proven_sha512_final (hm_s512 h) of (out, c) \<Rightarrow> (out, h\<lparr>hm_s512 := c\<rparr>)))"

definition proven_hmac_init :: "proven_hmac \<Rightarrow> proven_hmac_hash \<Rightarrow> byte view \<Rightarrow> proven_err \<times> proven_hmac" where
  "proven_hmac_init hmac hash key =
    (let hmac = hmac\<lparr>hm_ready := False\<rparr> in
     if proven_hmac_size hash = 0 \<or> (view_size key > 0 \<and> view_null key) then (PROVEN_ERR_INVALID_ARG, hmac)
     else
       let block = hmac_block_size hash;
           hmac = hmac\<lparr>hm_hash := hash\<rparr>;
           (material, hmac) =
             (if view_size key > block
              then (case hmac_hash_final (hmac_hash_update (hmac_hash_init hmac) key) of
                      (digest, h) \<Rightarrow> (take (proven_hmac_size hash) digest, h))
              else (view_data key, hmac));
           k = take block (put_bytes (replicate 128 0) 0 material);
           hmac = hmac\<lparr>hm_outer := put_bytes (hm_outer hmac) 0 (map (\<lambda>b. b XOR 0x5C) k)\<rparr>;
           hmac = hmac_hash_update (hmac_hash_init hmac) (At (map (\<lambda>b. b XOR 0x36) k))
       in (PROVEN_OK, hmac\<lparr>hm_ready := True\<rparr>))"

definition proven_hmac_update :: "proven_hmac \<Rightarrow> byte view \<Rightarrow> proven_hmac" where
  "proven_hmac_update hmac data = (if \<not> hm_ready hmac then hmac else hmac_hash_update hmac data)"

definition zero_ctx :: "nat \<Rightarrow> nat \<Rightarrow> ('w::zero) hash_ctx" where
  "zero_ctx words block =
    \<lparr>hstate = replicate words 0, hlength = 0, hblock = replicate block 0, hblock_len = 0\<rparr>"

definition hmac_wiped :: proven_hmac where
  "hmac_wiped = \<lparr>hm_hash = PROVEN_HMAC_SHA256, hm_s256 = zero_ctx 8 64, hm_s512 = zero_ctx 8 128,
     hm_s1 = zero_ctx 5 64, hm_outer = replicate 128 0, hm_ready = False\<rparr>"

text \<open>The bytes written to the output, none when the context is not ready.\<close>

definition proven_hmac_final :: "proven_hmac \<Rightarrow> byte list \<times> proven_hmac" where
  "proven_hmac_final hmac =
    (if \<not> hm_ready hmac then ([], hmac)
     else let n = proven_hmac_size (hm_hash hmac);
              (inner, hmac) = hmac_hash_final hmac;
              hmac = hmac_hash_init hmac;
              hmac = hmac_hash_update hmac (At (take (hmac_block_size (hm_hash hmac)) (hm_outer hmac)));
              hmac = hmac_hash_update hmac (At (take n inner))
          in (take n (fst (hmac_hash_final hmac)), hmac_wiped))"

definition proven_hmac_once ::
  "proven_hmac \<Rightarrow> proven_hmac_hash \<Rightarrow> byte view \<Rightarrow> byte view \<Rightarrow> proven_err \<times> byte list" where
  "proven_hmac_once h0 hash key data =
    (if view_size data > 0 \<and> view_null data then (PROVEN_ERR_INVALID_ARG, [])
     else case proven_hmac_init h0 hash key of (e, h) \<Rightarrow>
       if e \<noteq> PROVEN_OK then (e, []) else (PROVEN_OK, fst (proven_hmac_final (proven_hmac_update h data))))"

section \<open>HKDF\<close>

definition proven_hkdf_extract ::
  "proven_hmac \<Rightarrow> proven_hmac_hash \<Rightarrow> byte view \<Rightarrow> byte view \<Rightarrow> proven_err \<times> byte list" where
  "proven_hkdf_extract h0 hash salt ikm =
    (if (view_size ikm > 0 \<and> view_null ikm) \<or> (view_size salt > 0 \<and> view_null salt)
     then (PROVEN_ERR_INVALID_ARG, []) else proven_hmac_once h0 hash salt ikm)"

text \<open>The loop, over the bytes still to write. The digest size is not 0, which the caller has checked
  and the guard records.\<close>

function hkdf_loop ::
  "proven_hmac \<Rightarrow> proven_hmac_hash \<Rightarrow> byte view \<Rightarrow> byte view \<Rightarrow> byte list \<Rightarrow> byte \<Rightarrow> nat \<Rightarrow>
    proven_err \<times> byte list" where
  "hkdf_loop h0 hash prk info t counter left =
    (if left = 0 \<or> proven_hmac_size hash = 0 then (PROVEN_OK, [])
     else case proven_hmac_init h0 hash prk of (e, h) \<Rightarrow>
       if e \<noteq> PROVEN_OK then (e, [])
       else
         let n = proven_hmac_size hash;
             h = (if counter > 0 then proven_hmac_update h (At (take n t)) else h);
             h = proven_hmac_update h info;
             h = proven_hmac_update h (At [counter + 1]);
             t = fst (proven_hmac_final h)
         in (case hkdf_loop h0 hash prk info t (counter + 1) (left - min left n) of
               (e, bs) \<Rightarrow> (e, take (min left n) t @ bs)))"
  by pat_completeness auto
termination
  by (relation "measure (\<lambda>(h0, hash, prk, info, t, counter, left). left)") auto

declare hkdf_loop.simps [simp del]

definition proven_hkdf_expand ::
  "proven_hmac \<Rightarrow> proven_hmac_hash \<Rightarrow> byte view \<Rightarrow> byte view \<Rightarrow> byte view \<Rightarrow> proven_err \<times> byte view" where
  "proven_hkdf_expand h0 hash prk info out =
    (let n = proven_hmac_size hash in
     if n = 0 \<or> view_null prk \<or> view_size prk < n \<or> (view_size info > 0 \<and> view_null info) \<or>
        (view_size out > 0 \<and> view_null out)
     then (PROVEN_ERR_INVALID_ARG, out)
     else if view_size out > 255 * n then (PROVEN_ERR_OUT_OF_BOUNDS, out)
     else case hkdf_loop h0 hash prk info [] 0 (view_size out) of (e, bs) \<Rightarrow> (e, store bs out))"

definition proven_hkdf ::
  "proven_hmac \<Rightarrow> proven_hmac_hash \<Rightarrow> byte view \<Rightarrow> byte view \<Rightarrow> byte view \<Rightarrow> byte view \<Rightarrow>
    proven_err \<times> byte view" where
  "proven_hkdf h0 hash salt ikm info out =
    (let n = proven_hmac_size hash in
     if n = 0 then (PROVEN_ERR_INVALID_ARG, out)
     else if view_size out > 255 * n then (PROVEN_ERR_OUT_OF_BOUNDS, out)
     else case proven_hkdf_extract h0 hash salt ikm of (e, prk) \<Rightarrow>
       if e \<noteq> PROVEN_OK then (e, out) else proven_hkdf_expand h0 hash (At (take n prk)) info out)"

section \<open>PBKDF2\<close>

text \<open>The iterations after the first of one block, each from a copy of the keyed state.\<close>

fun pbkdf2_iterate :: "proven_hmac \<Rightarrow> nat \<Rightarrow> byte list \<Rightarrow> byte list \<Rightarrow> byte list" where
  "pbkdf2_iterate keyed 0 u t = t"
| "pbkdf2_iterate keyed (Suc k) u t =
    (let u' = fst (proven_hmac_final (proven_hmac_update keyed (At u)))
     in pbkdf2_iterate keyed k u' (map2 (\<lambda>a b. a XOR b) t u'))"

definition pbkdf2_index :: "nat \<Rightarrow> byte list" where
  "pbkdf2_index b = [of_nat (b div 2 ^ 24), of_nat (b div 2 ^ 16), of_nat (b div 2 ^ 8), of_nat b]"

definition pbkdf2_block :: "proven_hmac \<Rightarrow> byte view \<Rightarrow> 32 word \<Rightarrow> nat \<Rightarrow> byte list" where
  "pbkdf2_block keyed salt iterations b =
    (let u = fst (proven_hmac_final (proven_hmac_update (proven_hmac_update keyed salt) (At (pbkdf2_index b))))
     in pbkdf2_iterate keyed (unat iterations - 1) u u)"

function pbkdf2_loop :: "proven_hmac \<Rightarrow> byte view \<Rightarrow> 32 word \<Rightarrow> nat \<Rightarrow> nat \<Rightarrow> nat \<Rightarrow> nat \<Rightarrow> byte list" where
  "pbkdf2_loop keyed salt iterations hlen blocks b left =
    (if b \<le> blocks then
       let take_n = min left hlen
       in take take_n (pbkdf2_block keyed salt iterations b) @
          pbkdf2_loop keyed salt iterations hlen blocks (b + 1) (left - take_n)
     else [])"
  by pat_completeness auto
termination
  by (relation "measure (\<lambda>(keyed, salt, iterations, hlen, blocks, b, left). Suc blocks - b)") auto

declare pbkdf2_loop.simps [simp del]

definition proven_pbkdf2 ::
  "proven_hmac \<Rightarrow> proven_hmac_hash \<Rightarrow> byte view \<Rightarrow> byte view \<Rightarrow> 32 word \<Rightarrow> byte view \<Rightarrow> proven_err \<times> byte view" where
  "proven_pbkdf2 h0 hash password salt iterations out =
    (let hlen = proven_hmac_size hash in
     if hlen = 0 \<or> iterations = 0 \<or> view_size out = 0 \<or> view_null out \<or>
        (view_size password > 0 \<and> view_null password) \<or> (view_size salt > 0 \<and> view_null salt)
     then (PROVEN_ERR_INVALID_ARG, out)
     else let blocks = view_size out div hlen + (if view_size out mod hlen \<noteq> 0 then 1 else 0) in
     if blocks > 0xFFFFFFFF then (PROVEN_ERR_OUT_OF_BOUNDS, out)
     else case proven_hmac_init h0 hash password of (e, keyed) \<Rightarrow>
       if e \<noteq> PROVEN_OK then (e, out)
       else (PROVEN_OK, store (pbkdf2_loop keyed salt iterations hlen blocks 1 (view_size out)) out))"

section \<open>The specifications\<close>

definition digest :: "proven_hmac_hash \<Rightarrow> byte list \<Rightarrow> byte list" where
  "digest hash m = (case hash of
     PROVEN_HMAC_SHA256 \<Rightarrow> sha256_spec m | PROVEN_HMAC_SHA384 \<Rightarrow> sha384_spec m
   | PROVEN_HMAC_SHA1 \<Rightarrow> sha1_spec m | _ \<Rightarrow> sha512_spec m)"

text \<open>RFC 2104: the key, hashed when it is longer than a block, filled with zeros to a block.\<close>

definition hmac_key :: "proven_hmac_hash \<Rightarrow> byte list \<Rightarrow> byte list" where
  "hmac_key hash key =
    (let k = (if length key > hmac_block_size hash then digest hash key else key)
     in k @ replicate (hmac_block_size hash - length k) 0)"

definition hmac_spec :: "proven_hmac_hash \<Rightarrow> byte list \<Rightarrow> byte list \<Rightarrow> byte list" where
  "hmac_spec hash key m =
    digest hash (map (\<lambda>b. b XOR 0x5C) (hmac_key hash key) @
      digest hash (map (\<lambda>b. b XOR 0x36) (hmac_key hash key) @ m))"

text \<open>RFC 5869: the blocks of the expansion.\<close>

fun hkdf_block :: "proven_hmac_hash \<Rightarrow> byte list \<Rightarrow> byte list \<Rightarrow> nat \<Rightarrow> byte list" where
  "hkdf_block hash prk info 0 = []"
| "hkdf_block hash prk info (Suc i) =
    hmac_spec hash prk (hkdf_block hash prk info i @ info @ [of_nat (Suc i)])"

text \<open>RFC 8018: the iterates of one block and their exclusive or.\<close>

fun pbkdf2_U :: "proven_hmac_hash \<Rightarrow> byte list \<Rightarrow> byte list \<Rightarrow> nat \<Rightarrow> nat \<Rightarrow> byte list" where
  "pbkdf2_U hash password salt b 0 = hmac_spec hash password (salt @ pbkdf2_index b)"
| "pbkdf2_U hash password salt b (Suc j) = hmac_spec hash password (pbkdf2_U hash password salt b j)"

fun pbkdf2_T :: "proven_hmac_hash \<Rightarrow> byte list \<Rightarrow> byte list \<Rightarrow> nat \<Rightarrow> nat \<Rightarrow> byte list" where
  "pbkdf2_T hash password salt b 0 = pbkdf2_U hash password salt b 0"
| "pbkdf2_T hash password salt b (Suc j) =
    map2 (\<lambda>x y. x XOR y) (pbkdf2_T hash password salt b j) (pbkdf2_U hash password salt b (Suc j))"

end
