(* ===== verification/Hmac_Props.thy ===== *)
theory Hmac_Props
  imports Hmac
begin

text \<open>HMAC, HKDF and PBKDF2 compute what their documents define, for every digest, key and cut.\<close>

section \<open>The inner digest\<close>

definition hmac_storage :: "proven_hmac \<Rightarrow> bool" where
  "hmac_storage h \<longleftrightarrow> length (hblock (hm_s256 h)) = 64 \<and> length (hblock (hm_s1 h)) = 64 \<and>
    length (hblock (hm_s512 h)) = 128 \<and> length (hm_outer h) = 128"

definition inner_stands :: "proven_hmac \<Rightarrow> byte list \<Rightarrow> bool" where
  "inner_stands h m = (case hm_hash h of
     PROVEN_HMAC_SHA256 \<Rightarrow> sha256_stands (hm_s256 h) m
   | PROVEN_HMAC_SHA1 \<Rightarrow> sha1_stands (hm_s1 h) m
   | PROVEN_HMAC_SHA384 \<Rightarrow> sha512_stands sha384_iv (hm_s512 h) m
   | _ \<Rightarrow> sha512_stands sha512_iv (hm_s512 h) m)"

lemma inner_init: "hmac_storage h \<Longrightarrow> inner_stands (hmac_hash_init h) []"
  by (cases "hm_hash h")
    (simp_all add: inner_stands_def hmac_hash_init_def hmac_storage_def sha256_init_stands sha512_init_stands
      legacy_init_stands)

lemma inner_update: "inner_stands h m \<Longrightarrow> inner_stands (hmac_hash_update h (At d)) (m @ d)"
  by (cases "hm_hash h")
    (simp_all add: inner_stands_def hmac_hash_update_def sha256.absorb sha512.absorb sha1.absorb)

interpretation inner: streaming "\<lambda>h d. hmac_hash_update h (At d)" inner_stands
  by unfold_locales (rule inner_update)

lemma inner_final: "inner_stands h m \<Longrightarrow> fst (hmac_hash_final h) = digest (hm_hash h) m"
  by (cases "hm_hash h")
    (auto simp: inner_stands_def hmac_hash_final_def digest_def sha256_final_spec sha512_final_spec
      legacy_final_spec split_beta)

text \<open>What the digest operations leave alone.\<close>

lemma inner_fields [simp]:
  "hm_hash (hmac_hash_init h) = hm_hash h" "hm_outer (hmac_hash_init h) = hm_outer h"
  "hm_ready (hmac_hash_init h) = hm_ready h"
  "hm_hash (hmac_hash_update h d) = hm_hash h" "hm_outer (hmac_hash_update h d) = hm_outer h"
  "hm_ready (hmac_hash_update h d) = hm_ready h"
  "hm_hash (snd (hmac_hash_final h)) = hm_hash h" "hm_outer (snd (hmac_hash_final h)) = hm_outer h"
  "hm_ready (snd (hmac_hash_final h)) = hm_ready h"
  by (auto simp: hmac_hash_init_def hmac_hash_update_def hmac_hash_final_def split_beta)

lemma storage_init: "hmac_storage h \<Longrightarrow> hmac_storage (hmac_hash_init h)"
  by (auto simp: hmac_storage_def hmac_hash_init_def proven_sha256_init_def proven_sha1_init_def
      proven_sha384_init_def proven_sha512_init_def)

lemma absorbed_block: "absorbed c B iv ctx m \<Longrightarrow> length (hblock ctx) = B"
  by (simp add: absorbed_def)

lemma storage_update: "inner_stands h m \<Longrightarrow> hmac_storage h \<Longrightarrow> hmac_storage (hmac_hash_update h (At d))"
  using inner_update [of h m d]
  by (cases "hm_hash h")
    (auto simp: hmac_storage_def inner_stands_def hmac_hash_update_def sha256_stands_def sha1_stands_def
      sha512_stands_def dest: absorbed_block)

lemma hash_pad_block:
  "absorbed c B iv ctx m \<Longrightarrow> length l < B \<Longrightarrow> length (hblock (hash_pad c B l ctx)) = B"
  by (auto simp: absorbed_def hash_pad_def Let_def)

lemma sha256_final_block: "sha256_stands ctx m \<Longrightarrow> length (hblock (snd (proven_sha256_final ctx))) = 64"
proof -
  assume s: "sha256_stands ctx m"
  have "\<exists>m'. sha256_stands (snd (proven_sha256_final ctx)) m'"
    unfolding proven_sha256_final_def Let_def snd_conv
    by (rule exI, rule sha256_update_stands, rule sha256_zeros_stands, rule sha256_update_stands, rule s)
  then show ?thesis by (auto simp: sha256_stands_def dest: absorbed_block)
qed

lemma storage_final:
  assumes "inner_stands h m" "hmac_storage h"
  shows "hmac_storage (snd (hmac_hash_final h))"
proof (cases "hm_hash h = PROVEN_HMAC_SHA256")
  case True
  then show ?thesis
    using assms sha256_final_block [of "hm_s256 h" m]
    by (simp add: hmac_storage_def inner_stands_def hmac_hash_final_def split_beta)
next
  case False
  then show ?thesis
    using assms
    by (cases "hm_hash h")
      (simp_all add: hmac_storage_def inner_stands_def hmac_hash_final_def split_beta proven_sha1_final_def
        proven_sha384_final_def proven_sha512_final_def sha512_finish_def legacy_pad_def Let_def sha1_stands_def
        sha512_stands_def hash_pad_block)
qed

text \<open>Digest sizes.\<close>

lemma length_sha_digest [simp]: "length (sha_digest ws) = 4 * length ws" "length (md5_digest ws) = 4 * length ws"
  by (induction ws) (simp_all add: sha_digest_def md5_digest_def)

lemma sha256_round_length [simp]: "length (sha256_round w st i) = length st"
  by (induction w st i rule: sha256_round.induct) (simp_all add: Let_def)

lemma sha1_round_length [simp]: "length (sha1_round w st i) = length st"
  by (induction w st i rule: sha1_round.induct) (simp_all add: Let_def)

lemma fold_length: "(\<And>st i. length (f st i) = length st) \<Longrightarrow> length (foldl f st is) = length st"
  by (induction "is" arbitrary: st) simp_all

lemma compress_length [simp]:
  "length (sha256_compress st block) = length st" "length (sha1_compress st block) = length st"
  by (simp_all add: sha256_compress_def sha1_compress_def fold_length)

lemma length_digest: "hash \<noteq> PROVEN_HMAC_other \<Longrightarrow> length (digest hash m) = proven_hmac_size hash"
  by (cases hash)
    (simp_all add: digest_def sha256_spec_def sha1_spec_def sha384_spec_def sha512_spec_def md_hash_def
      hash_blocks_length sha256_iv_def sha1_iv_def sha384_iv_def sha512_iv_def proven_hmac_size_def)

section \<open>HMAC\<close>

text \<open>A context with this key that has been fed this message.\<close>

definition hmac_stands :: "proven_hmac_hash \<Rightarrow> byte list \<Rightarrow> proven_hmac \<Rightarrow> byte list \<Rightarrow> bool" where
  "hmac_stands hash key h m \<longleftrightarrow> hm_ready h \<and> hm_hash h = hash \<and> hash \<noteq> PROVEN_HMAC_other \<and> hmac_storage h \<and>
    take (hmac_block_size hash) (hm_outer h) = map (\<lambda>b. b XOR 0x5C) (hmac_key hash key) \<and>
    inner_stands h (map (\<lambda>b. b XOR 0x36) (hmac_key hash key) @ m)"

lemma size_block: "proven_hmac_size hash \<le> hmac_block_size hash" "hmac_block_size hash \<le> 128" "0 < hmac_block_size hash"
  by (cases hash; simp add: proven_hmac_size_def hmac_block_size_def)+

lemma size_0 [simp]: "proven_hmac_size hash = 0 \<longleftrightarrow> hash = PROVEN_HMAC_other"
  by (cases hash) (simp_all add: proven_hmac_size_def)

lemma size_pos: "hash \<noteq> PROVEN_HMAC_other \<Longrightarrow> 0 < proven_hmac_size hash"
  by (cases hash) (simp_all add: proven_hmac_size_def)

lemma length_hmac_key [simp]: "hash \<noteq> PROVEN_HMAC_other \<Longrightarrow> length (hmac_key hash key) = hmac_block_size hash"
  using size_block [of hash] by (simp add: hmac_key_def Let_def length_digest)

lemma storage_pad: "hmac_storage h \<Longrightarrow> length p \<le> 128 \<Longrightarrow> hmac_storage (h\<lparr>hm_outer := put_bytes (hm_outer h) 0 p\<rparr>)"
  by (simp add: hmac_storage_def)

lemma hmac_init_stands:
  assumes "hmac_storage h" "hash \<noteq> PROVEN_HMAC_other"
  shows "\<exists>h'. proven_hmac_init h hash (At key) = (PROVEN_OK, h') \<and> hmac_stands hash key h' []"
proof -
  define B where "B = hmac_block_size hash"
  define h1 where "h1 = h\<lparr>hm_ready := False, hm_hash := hash\<rparr>"
  have s1: "hmac_storage h1" "hm_hash h1 = hash" using assms by (simp_all add: h1_def hmac_storage_def)
  define long where "long = (length key > B)"
  define f where "f = hmac_hash_final (hmac_hash_update (hmac_hash_init h1) (At key))"
  define material where "material = (if long then take (proven_hmac_size hash) (fst f) else key)"
  define h2 where "h2 = (if long then snd f else h1)"
  have i: "inner_stands (hmac_hash_update (hmac_hash_init h1) (At key)) key"
    using inner_update [OF inner_init [OF s1(1)], of key] by simp
  have "hmac_storage (hmac_hash_update (hmac_hash_init h1) (At key))"
    by (rule storage_update [OF inner_init [OF s1(1)] storage_init [OF s1(1)]])
  then have s2: "hmac_storage h2" "hm_hash h2 = hash"
    using storage_final [OF i] s1 by (simp_all add: h2_def f_def)
  have "fst f = digest hash key" using inner_final [OF i] s1(2) by (simp add: f_def)
  then have mat: "material = (if length key > B then digest hash key else key)"
    using length_digest [OF assms(2), of key] by (simp add: material_def long_def)
  have ml: "length material \<le> B"
    using mat length_digest [OF assms(2), of key] size_block [of hash] by (simp add: B_def)
  have B: "B \<le> 128" using size_block by (simp add: B_def)
  have k: "take B (put_bytes (replicate 128 0) 0 material) = hmac_key hash key"
    using mat ml B by (auto simp: put_bytes_def hmac_key_def B_def [symmetric] min_def Let_def)
  define ipad opad where "ipad = map (\<lambda>b. b XOR 0x36) (hmac_key hash key)"
    and "opad = map (\<lambda>b. b XOR 0x5C) (hmac_key hash key)"
  define h3 where "h3 = h2\<lparr>hm_outer := put_bytes (hm_outer h2) 0 opad\<rparr>"
  have ol: "length opad = B" using assms(2) by (simp add: opad_def B_def)
  then have s3: "hmac_storage h3" "hm_hash h3 = hash" "take B (hm_outer h3) = opad"
    using storage_pad [OF s2(1), of opad] s2(2) B by (simp_all add: h3_def put_bytes_def)
  define h4 where "h4 = hmac_hash_update (hmac_hash_init h3) (At ipad)"
  have i4: "inner_stands h4 ipad" "hmac_storage h4"
    using inner_update [OF inner_init [OF s3(1)], of ipad]
      storage_update [OF inner_init [OF s3(1)] storage_init [OF s3(1)], of ipad] by (simp_all add: h4_def)
  have e: "proven_hmac_init h hash (At key) = (PROVEN_OK, h4\<lparr>hm_ready := True\<rparr>)"
    using assms(2) k
    by (auto simp: proven_hmac_init_def Let_def B_def [symmetric] h1_def [symmetric] f_def [symmetric] split_beta
        long_def [symmetric] material_def h2_def h3_def h4_def ipad_def opad_def)
  have "hmac_stands hash key (h4\<lparr>hm_ready := True\<rparr>) []"
    using i4 s3 assms(2)
    by (auto simp: hmac_stands_def inner_stands_def hmac_storage_def h4_def B_def opad_def ipad_def
        split: proven_hmac_hash.splits)
  with e show ?thesis by blast
qed

lemma hmac_update_stands:
  "hmac_stands hash key h m \<Longrightarrow> hmac_stands hash key (proven_hmac_update h (At d)) (m @ d)"
  using inner_update [of h "map (\<lambda>b. b XOR 0x36) (hmac_key hash key) @ m" d]
    storage_update [of h "map (\<lambda>b. b XOR 0x36) (hmac_key hash key) @ m" d]
  by (auto simp: hmac_stands_def proven_hmac_update_def)

interpretation hmac: streaming "\<lambda>h d. proven_hmac_update h (At d)" "hmac_stands hash key"
  by unfold_locales (rule hmac_update_stands)

lemma hmac_final_spec:
  assumes "hmac_stands hash key h m"
  shows "fst (proven_hmac_final h) = hmac_spec hash key m"
proof -
  define n where "n = proven_hmac_size hash"
  define inner where "inner = digest hash (map (\<lambda>b. b XOR 0x36) (hmac_key hash key) @ m)"
  have k: "hm_ready h" "hm_hash h = hash" "hash \<noteq> PROVEN_HMAC_other" "hmac_storage h"
    "inner_stands h (map (\<lambda>b. b XOR 0x36) (hmac_key hash key) @ m)"
    "take (hmac_block_size hash) (hm_outer h) = map (\<lambda>b. b XOR 0x5C) (hmac_key hash key)"
    using assms by (simp_all add: hmac_stands_def)
  have f: "fst (hmac_hash_final h) = inner" using inner_final [OF k(5)] k(2) by (simp add: inner_def)
  have tn: "take n (digest hash x) = digest hash x" for x
    using length_digest [OF k(3), of x] by (simp add: n_def)
  define h1 where "h1 = hmac_hash_init (snd (hmac_hash_final h))"
  have h1: "inner_stands h1 []" "hm_hash h1 = hash" "hm_outer h1 = hm_outer h"
    using inner_init [OF storage_final [OF k(5,4)]] k(2) by (simp_all add: h1_def)
  define h2 where "h2 = hmac_hash_update (hmac_hash_update h1 (At (map (\<lambda>b. b XOR 0x5C) (hmac_key hash key)))) (At inner)"
  have "inner_stands h2 (map (\<lambda>b. b XOR 0x5C) (hmac_key hash key) @ inner)"
    using inner_update [OF inner_update [OF h1(1)]] by (simp add: h2_def)
  from inner_final [OF this] h1(2)
  have "fst (hmac_hash_final h2) = hmac_spec hash key m" by (simp add: h2_def hmac_spec_def inner_def)
  then show ?thesis
    using k(1,2,6) f h1 tn tn [of "map (\<lambda>b. b XOR 0x36) (hmac_key hash key) @ m", folded inner_def]
    by (simp add: proven_hmac_final_def Let_def split_beta n_def h1_def [symmetric] h2_def [symmetric] hmac_spec_def)
qed


lemma length_hmac_spec [simp]: "hash \<noteq> PROVEN_HMAC_other \<Longrightarrow> length (hmac_spec hash key m) = proven_hmac_size hash"
  by (simp add: hmac_spec_def length_digest)

text \<open>C38: A running HMAC finishes with the code RFC 2104 defines, for each of the four digests, for a key
  shorter than, equal to or longer than a block, and however the message is cut: initialising succeeds
  and finishing gives H(K xor opad, H(K xor ipad, message)), the key hashed first when it is longer than
  a block. Afterwards the context is wiped and no longer ready.\<close>

theorem hmac_rfc2104:
  assumes "hmac_storage h0" "hash \<noteq> PROVEN_HMAC_other"
  shows "\<exists>h. proven_hmac_init h0 hash (At key) = (PROVEN_OK, h) \<and>
    proven_hmac_final (foldl (\<lambda>h d. proven_hmac_update h (At d)) h ds) = (hmac_spec hash key (concat ds), hmac_wiped)"
proof -
  obtain h where h: "proven_hmac_init h0 hash (At key) = (PROVEN_OK, h)" "hmac_stands hash key h []"
    using hmac_init_stands [OF assms] by blast
  have s: "hmac_stands hash key (foldl (\<lambda>h d. proven_hmac_update h (At d)) h ds) (concat ds)"
    using hmac.chunks [OF h(2), of ds] by simp
  then have "snd (proven_hmac_final (foldl (\<lambda>h d. proven_hmac_update h (At d)) h ds)) = hmac_wiped"
    by (simp add: proven_hmac_final_def hmac_stands_def Let_def split_beta)
  with h(1) hmac_final_spec [OF s] show ?thesis by (metis prod.collapse)
qed

lemma hmac_once_spec:
  "hmac_storage h0 \<Longrightarrow> hash \<noteq> PROVEN_HMAC_other \<Longrightarrow>
    proven_hmac_once h0 hash (At key) (At m) = (PROVEN_OK, hmac_spec hash key m)"
  using hmac_init_stands [of h0 hash key] hmac_final_spec [OF hmac_update_stands]
  by (fastforce simp: proven_hmac_once_def)

section \<open>HKDF\<close>

lemma hkdf_loop_spec:
  assumes "hmac_storage h0" "hash \<noteq> PROVEN_HMAC_other" "i \<le> k" "k \<le> 255" "left \<le> (k - i) * proven_hmac_size hash"
    "0 < i \<longrightarrow> t = hkdf_block hash prk info i"
  shows "hkdf_loop h0 hash (At prk) (At info) t (of_nat i) left =
    (PROVEN_OK, take left (concat (map (hkdf_block hash prk info) [Suc i..<Suc k])))"
  using assms(3-)
proof (induction left arbitrary: i t rule: less_induct)
  case (less left)
  define n where "n = proven_hmac_size hash"
  have n: "0 < n" using size_pos [OF assms(2)] by (simp add: n_def)
  show ?case
  proof (cases "left = 0")
    case True
    then show ?thesis by (simp add: hkdf_loop.simps)
  next
    case False
    have ik: "i < k" using less.prems False by (cases "i = k") auto
    obtain h where h: "proven_hmac_init h0 hash (At prk) = (PROVEN_OK, h)" "hmac_stands hash prk h []"
      using hmac_init_stands [OF assms(1,2)] by blast
    have pos: "(0 < (of_nat i :: byte)) = (0 < i)"
    proof -
      have "unat (of_nat i :: byte) = i" using ik less.prems(2) by (simp add: unat_of_nat)
      then show ?thesis by (simp add: word_less_nat_alt)
    qed
    define h1 where "h1 = (if 0 < i then proven_hmac_update h (At (take n t)) else h)"
    have "take n t = hkdf_block hash prk info i" if "0 < i"
      using that less.prems(4) assms(2) by (cases i) (simp_all add: n_def)
    then have "hmac_stands hash prk h1 (hkdf_block hash prk info i)"
      using hmac_update_stands [OF h(2), of "take n t"] h(2) by (cases i) (auto simp: h1_def)
    then have "hmac_stands hash prk
        (proven_hmac_update (proven_hmac_update h1 (At info)) (At [of_nat i + 1]))
        ((hkdf_block hash prk info i @ info) @ [of_nat i + 1])"
      by (intro hmac_update_stands)
    from hmac_final_spec [OF this]
    have t': "fst (proven_hmac_final (proven_hmac_update (proven_hmac_update h1 (At info)) (At [of_nat i + 1]))) =
        hkdf_block hash prk info (Suc i)"
      by (simp add: add.commute)
    have lt: "left - min left n < left" using False n by simp
    have room: "left - min left n \<le> (k - Suc i) * n"
    proof (cases "left \<le> n")
      case False
      have "(k - i) * n = n + (k - Suc i) * n" using ik by (metis Suc_diff_Suc mult_Suc)
      with less.prems(3) False show ?thesis by (simp add: n_def)
    qed simp
    have ih: "hkdf_loop h0 hash (At prk) (At info) (hkdf_block hash prk info (Suc i)) (of_nat (Suc i)) (left - min left n) =
        (PROVEN_OK, take (left - min left n) (concat (map (hkdf_block hash prk info) [Suc (Suc i)..<Suc k])))"
      by (rule less.IH [OF lt]) (use ik less.prems(2) room in \<open>simp_all add: n_def\<close>)
    have "hkdf_loop h0 hash (At prk) (At info) t (of_nat i) left =
        (PROVEN_OK, take (min left n) (hkdf_block hash prk info (Suc i)) @
           take (left - min left n) (concat (map (hkdf_block hash prk info) [Suc (Suc i)..<Suc k])))"
      using False assms(2) h(1) pos ih t' n
      by (subst hkdf_loop.simps) (simp add: Let_def n_def [symmetric] h1_def [symmetric] add.commute)
    also have "\<dots> = (PROVEN_OK, take left (concat (map (hkdf_block hash prk info) [Suc i..<Suc k])))"
    proof -
      have "[Suc i..<Suc k] = Suc i # [Suc (Suc i)..<Suc k]" using ik by (simp add: upt_conv_Cons)
      moreover have "length (hkdf_block hash prk info (Suc i)) = n" using assms(2) by (simp add: n_def)
      ultimately show ?thesis by (simp add: min_def)
    qed
    finally show ?thesis .
  qed
qed

text \<open>Expanding follows RFC 5869: for a key of at least a digest and at most 255 digests of output, the
  output is the front of T(1), T(2), ..., where T(i) is the HMAC of T(i - 1), the label and the byte i;
  a longer output is refused and nothing is written.\<close>

theorem hkdf_rfc5869:
  assumes "hmac_storage h0" "hash \<noteq> PROVEN_HMAC_other" "proven_hmac_size hash \<le> length prk"
  shows "proven_hkdf_expand h0 hash (At prk) (At info) (At out) =
    (if length out > 255 * proven_hmac_size hash then (PROVEN_ERR_OUT_OF_BOUNDS, At out)
     else (PROVEN_OK, At (take (length out) (concat (map (hkdf_block hash prk info) [1..<256])))))"
proof (cases "length out > 255 * proven_hmac_size hash")
  case True
  with assms(2,3) show ?thesis by (simp add: proven_hkdf_expand_def)
next
  case False
  have l: "hkdf_loop h0 hash (At prk) (At info) [] 0 (length out) =
      (PROVEN_OK, take (length out) (concat (map (hkdf_block hash prk info) [1..<256])))"
    using hkdf_loop_spec [OF assms(1,2), of 0 255 "length out" "[]" prk info] False by simp
  have "length (concat (map (hkdf_block hash prk info) [Suc 0..<Suc j])) = j * proven_hmac_size hash" for j
    using assms(2) by (induction j) simp_all
  from this [of 255] have "length (concat (map (hkdf_block hash prk info) [1..<256])) = 255 * proven_hmac_size hash"
    by simp
  with l False assms(2,3) show ?thesis by (simp add: proven_hkdf_expand_def)
qed

section \<open>PBKDF2\<close>

lemma pbkdf2_iterate_spec:
  assumes "hmac_stands hash password keyed []"
  shows "pbkdf2_iterate keyed k (pbkdf2_U hash password salt b j) (pbkdf2_T hash password salt b j) =
    pbkdf2_T hash password salt b (j + k)"
proof (induction k arbitrary: j)
  case (Suc k)
  have "fst (proven_hmac_final (proven_hmac_update keyed (At (pbkdf2_U hash password salt b j)))) =
      pbkdf2_U hash password salt b (Suc j)"
    using hmac_final_spec [OF hmac_update_stands [OF assms]] by simp
  with Suc.IH [of "Suc j"] show ?case by (simp add: Let_def)
qed simp

lemma pbkdf2_block_spec:
  assumes "hmac_stands hash password keyed []"
  shows "pbkdf2_block keyed (At salt) iterations b = pbkdf2_T hash password salt b (unat iterations - 1)"
proof -
  have "fst (proven_hmac_final (proven_hmac_update (proven_hmac_update keyed (At salt)) (At (pbkdf2_index b)))) =
      pbkdf2_U hash password salt b 0"
    using hmac_final_spec [OF hmac_update_stands [OF hmac_update_stands [OF assms]]] by simp
  then show ?thesis
    using pbkdf2_iterate_spec [OF assms, of "unat iterations - 1" salt b 0] by (simp add: pbkdf2_block_def Let_def)
qed

lemma length_pbkdf2:
  "hash \<noteq> PROVEN_HMAC_other \<Longrightarrow> length (pbkdf2_U hash password salt b j) = proven_hmac_size hash"
  "hash \<noteq> PROVEN_HMAC_other \<Longrightarrow> length (pbkdf2_T hash password salt b j) = proven_hmac_size hash"
proof -
  show u: "hash \<noteq> PROVEN_HMAC_other \<Longrightarrow> length (pbkdf2_U hash password salt b j) = proven_hmac_size hash" for j
    by (cases j) simp_all
  show "hash \<noteq> PROVEN_HMAC_other \<Longrightarrow> length (pbkdf2_T hash password salt b j) = proven_hmac_size hash"
    by (induction j) (simp_all add: u del: pbkdf2_U.simps)
qed

lemma pbkdf2_loop_spec:
  assumes "hmac_stands hash password keyed []" "hash \<noteq> PROVEN_HMAC_other"
  shows "pbkdf2_loop keyed (At salt) iterations (proven_hmac_size hash) blocks b left =
    take left (concat (map (\<lambda>b. pbkdf2_T hash password salt b (unat iterations - 1)) [b..<Suc blocks]))"
proof (induction "Suc blocks - b" arbitrary: b left)
  case 0
  then show ?case by (simp add: pbkdf2_loop.simps)
next
  case (Suc d)
  then have b: "b \<le> blocks" "d = Suc blocks - Suc b" by simp_all
  then have "[b..<Suc blocks] = b # [Suc b..<Suc blocks]" by (simp add: upt_conv_Cons)
  with b Suc(1) [OF b(2)] pbkdf2_block_spec [OF assms(1)] length_pbkdf2(2) [OF assms(2)] show ?case
    by (subst pbkdf2_loop.simps) (simp add: Let_def min_def)
qed

text \<open>C39: Stretching a password follows RFC 8018: for at least one iteration and a non-empty output of
  fewer than 2 ^ 32 blocks, the output is the front of T(1), T(2), ..., where T(b) is the exclusive or of
  the iterates U(1) = HMAC(password, salt, b) and U(j + 1) = HMAC(password, U(j)). The keyed state made
  once and copied for every call changes nothing.\<close>

theorem pbkdf2_rfc8018:
  assumes "hmac_storage h0" "hash \<noteq> PROVEN_HMAC_other" "iterations \<noteq> 0" "out \<noteq> []"
    "blocks = length out div proven_hmac_size hash + (if length out mod proven_hmac_size hash \<noteq> 0 then 1 else 0)"
  shows "proven_pbkdf2 h0 hash (At password) (At salt) iterations (At out) =
    (if blocks > 0xFFFFFFFF then (PROVEN_ERR_OUT_OF_BOUNDS, At out)
     else (PROVEN_OK, At (take (length out)
       (concat (map (\<lambda>b. pbkdf2_T hash password salt b (unat iterations - 1)) [1..<Suc blocks])))))"
proof -
  define hlen where "hlen = proven_hmac_size hash"
  have hl: "0 < hlen" using size_pos [OF assms(2)] by (simp add: hlen_def)
  obtain keyed where k: "proven_hmac_init h0 hash (At password) = (PROVEN_OK, keyed)" "hmac_stands hash password keyed []"
    using hmac_init_stands [OF assms(1,2)] by blast
  let ?bs = "concat (map (\<lambda>b. pbkdf2_T hash password salt b (unat iterations - 1)) [1..<Suc blocks])"
  have "length (concat (map (\<lambda>b. pbkdf2_T hash password salt b j) [Suc 0..<Suc n])) = n * hlen" for j n
    using length_pbkdf2(2) [OF assms(2)] by (induction n) (simp_all add: hlen_def)
  then have "length ?bs = blocks * hlen" by simp
  moreover have "length out \<le> blocks * hlen"
  proof -
    define q r where "q = length out div hlen" and "r = length out mod hlen"
    have "length out = q * hlen + r" unfolding q_def r_def by (rule div_mult_mod_eq [symmetric])
    moreover have "r < hlen" using hl by (simp add: r_def)
    moreover have "blocks * hlen = q * hlen + (if r \<noteq> 0 then hlen else 0)"
      unfolding assms(5) hlen_def [symmetric] q_def [symmetric] r_def [symmetric] by (simp add: distrib_right)
    ultimately show ?thesis by (simp split: if_splits)
  qed
  ultimately have len: "length (take (length out) ?bs) = length out" by simp
  have "proven_pbkdf2 h0 hash (At password) (At salt) iterations (At out) =
    (if blocks > 0xFFFFFFFF then (PROVEN_ERR_OUT_OF_BOUNDS, At out)
     else (PROVEN_OK, store (take (length out) ?bs) (At out)))"
    using assms(2-4) k(1) pbkdf2_loop_spec [OF k(2) assms(2), of salt iterations blocks 1 "length out"]
    by (simp add: proven_pbkdf2_def Let_def hlen_def assms(5))
  then show ?thesis using len by (simp del: length_take)
qed

section \<open>Witnesses\<close>

lemma hmac_wiped_storage: "hmac_storage hmac_wiped"
  by (simp add: hmac_storage_def hmac_wiped_def zero_ctx_def)

theorem hmac_rfc2104_witness:
  "\<exists>h. proven_hmac_init hmac_wiped PROVEN_HMAC_SHA256 (At (ascii ''key'')) = (PROVEN_OK, h) \<and>
    fst (proven_hmac_final (proven_hmac_update (proven_hmac_update h (At (ascii ''ab''))) (At (ascii ''c'')))) =
      hmac_spec PROVEN_HMAC_SHA256 (ascii ''key'') (ascii ''abc'')"
proof -
  obtain h where "proven_hmac_init hmac_wiped PROVEN_HMAC_SHA256 (At (ascii ''key'')) = (PROVEN_OK, h)"
    "proven_hmac_final (foldl (\<lambda>h d. proven_hmac_update h (At d)) h [ascii ''ab'', ascii ''c'']) =
      (hmac_spec PROVEN_HMAC_SHA256 (ascii ''key'') (concat [ascii ''ab'', ascii ''c'']), hmac_wiped)"
    using hmac_rfc2104 [OF hmac_wiped_storage, of PROVEN_HMAC_SHA256 "ascii ''key''" "[ascii ''ab'', ascii ''c'']"]
    by blast
  then show ?thesis by (intro exI [of _ h]) (simp add: ascii_def)
qed

theorem hkdf_rfc5869_witness:
  "\<exists>out. proven_hkdf_expand hmac_wiped PROVEN_HMAC_SHA256 (At (replicate 32 1)) (At [7]) (At (replicate 33 0)) =
      (PROVEN_OK, At out) \<and>
    take 32 out = hmac_spec PROVEN_HMAC_SHA256 (replicate 32 1) [7, 1]"
proof -
  have sz: "proven_hmac_size PROVEN_HMAC_SHA256 = 32" by (simp add: proven_hmac_size_def)
  obtain xs where xs: "[1..<256] = 1 # xs" by (rule that) (rule upt_conv_Cons, simp)
  have len: "length (hkdf_block PROVEN_HMAC_SHA256 p i (Suc 0)) = 32" for p i using sz by simp
  have "take 32 (take 33 (concat (map (hkdf_block PROVEN_HMAC_SHA256 (replicate 32 1) [7]) [1..<256]))) =
      hkdf_block PROVEN_HMAC_SHA256 (replicate 32 1) [7] (Suc 0)"
    unfolding xs using len by (simp add: min_def del: hkdf_block.simps)
  then show ?thesis
    using hkdf_rfc5869 [OF hmac_wiped_storage, of PROVEN_HMAC_SHA256 "replicate 32 1" "[7]" "replicate 33 0"] sz
    by (simp del: upt_Suc upt_rec_numeral)
qed

theorem pbkdf2_rfc8018_witness:
  "proven_pbkdf2 hmac_wiped PROVEN_HMAC_SHA1 (At (ascii ''password'')) (At (ascii ''salt'')) 2 (At (replicate 20 0)) =
    (PROVEN_OK, At (map2 (\<lambda>x y. x XOR y)
      (hmac_spec PROVEN_HMAC_SHA1 (ascii ''password'') (ascii ''salt'' @ [0, 0, 0, 1]))
      (hmac_spec PROVEN_HMAC_SHA1 (ascii ''password'')
        (hmac_spec PROVEN_HMAC_SHA1 (ascii ''password'') (ascii ''salt'' @ [0, 0, 0, 1])))))"
proof -
  have sz: "proven_hmac_size PROVEN_HMAC_SHA1 = 20" by (simp add: proven_hmac_size_def)
  have out: "replicate 20 0 \<noteq> ([] :: byte list)" by (simp add: numeral_eq_Suc)
  have one: "1 = length (replicate 20 (0 :: byte)) div proven_hmac_size PROVEN_HMAC_SHA1 +
      (if length (replicate 20 (0 :: byte)) mod proven_hmac_size PROVEN_HMAC_SHA1 \<noteq> 0 then 1 else 0)"
    by (simp add: sz)
  have idx: "pbkdf2_index 1 = [0, 0, 0, 1]" by (simp add: pbkdf2_index_def)
  have two: "unat (2 :: 32 word) - 1 = Suc 0" by simp
  have len: "length (pbkdf2_T PROVEN_HMAC_SHA1 p s 1 (Suc 0)) = 20" for p s
    using length_pbkdf2(2) [of PROVEN_HMAC_SHA1 p s 1 "Suc 0"] sz by simp
  show ?thesis
    using pbkdf2_rfc8018 [OF hmac_wiped_storage, of PROVEN_HMAC_SHA1 2 "replicate 20 0", OF _ _ out one,
        of "ascii ''password''" "ascii ''salt''"] len [of "ascii ''password''" "ascii ''salt''"]
    unfolding two by (simp add: idx [unfolded One_nat_def] sz)
qed

end
