(* ===== verification/Table_Hash.thy ===== *)
theory Table_Hash
  imports Views
begin

text \<open>
  The hash functions of the hash table: FNV-1a and SipHash-2-4 of \<^verbatim>\<open>src/proven/hash.c\<close>, and the integer
  mixers of \<^verbatim>\<open>src/proven/map.c\<close>, SplitMix64's finaliser and SipHash-1-3 of one word. The secret of the
  process is a list of 16 bytes, an argument of the model: the operating system draws it once. What the
  table needs of them is that equal keys hash alike, whatever the address a view has.
\<close>

unbundle bit_operations_syntax

definition proven_hash_bytes :: "byte view \<Rightarrow> 64 word" where
  "proven_hash_bytes data =
    (if view_size data > 0 \<and> view_null data then 0xCBF29CE484222325
     else foldl (\<lambda>h b. (h XOR ucast b) * 0x100000001B3) 0xCBF29CE484222325 (view_data data))"

definition sip_rotl :: "64 word \<Rightarrow> nat \<Rightarrow> 64 word" where
  "sip_rotl x b = push_bit b x OR drop_bit (64 - b) x"

definition sip_read_le64 :: "byte list \<Rightarrow> 64 word" where
  "sip_read_le64 p = foldl (\<lambda>v i. v OR push_bit (8 * i) (ucast (p ! i))) 0 [0..<8]"

type_synonym sip = "64 word \<times> 64 word \<times> 64 word \<times> 64 word"

fun sip_round :: "sip \<Rightarrow> sip" where
  "sip_round (a, b, c, d) =
    (let a = a + b; b = sip_rotl b 13; b = b XOR a; a = sip_rotl a 32;
         c = c + d; d = sip_rotl d 16; d = d XOR c;
         a = a + d; d = sip_rotl d 21; d = d XOR a;
         c = c + b; b = sip_rotl b 17; b = b XOR c; c = sip_rotl c 32
     in (a, b, c, d))"

text \<open>Absorbing one word with a number of compression rounds.\<close>

fun sip_absorb :: "nat \<Rightarrow> sip \<Rightarrow> 64 word \<Rightarrow> sip" where
  "sip_absorb rounds (v0, v1, v2, v3) m =
    (case (sip_round ^^ rounds) (v0, v1, v2, v3 XOR m) of (v0, v1, v2, v3) \<Rightarrow> (v0 XOR m, v1, v2, v3))"

fun sip_finish :: "nat \<Rightarrow> sip \<Rightarrow> 64 word" where
  "sip_finish rounds (v0, v1, v2, v3) =
    (case (sip_round ^^ rounds) (v0, v1, v2 XOR 0xFF, v3) of (v0, v1, v2, v3) \<Rightarrow> v0 XOR v1 XOR v2 XOR v3)"

text \<open>The loop over whole words: the state and the bytes left.\<close>

function sip_words :: "sip \<Rightarrow> byte list \<Rightarrow> sip \<times> byte list" where
  "sip_words v p =
    (if 8 \<le> length p then sip_words (sip_absorb 2 v (sip_read_le64 (take 8 p))) (drop 8 p) else (v, p))"
  by pat_completeness auto
termination by (relation "measure (\<lambda>(v, p). length p)") auto

declare sip_words.simps [simp del]

definition sip_last :: "nat \<Rightarrow> byte list \<Rightarrow> 64 word" where
  "sip_last len rest =
    foldl (\<lambda>b i. b OR push_bit (8 * i) (ucast (rest ! i))) (push_bit 56 (of_nat (len mod 256))) [0..<length rest]"

definition proven_hash_keyed :: "byte view \<Rightarrow> byte list \<Rightarrow> 64 word" where
  "proven_hash_keyed data key =
    (let k0 = sip_read_le64 (take 8 key); k1 = sip_read_le64 (drop 8 key);
         v = (0x736F6D6570736575 XOR k0, 0x646F72616E646F6D XOR k1,
              0x6C7967656E657261 XOR k0, 0x7465646279746573 XOR k1);
         p = (if view_size data > 0 \<and> view_null data then [] else view_data data)
     in case sip_words v p of (v, rest) \<Rightarrow> sip_finish 4 (sip_absorb 2 v (sip_last (length p) rest)))"

section \<open>Integer keys\<close>

definition hash_int :: "64 word \<Rightarrow> 64 word" where
  "hash_int key =
    (let z = (key XOR drop_bit 30 key) * 0xBF58476D1CE4E5B9;
         z = (z XOR drop_bit 27 z) * 0x94D049BB133111EB
     in z XOR drop_bit 31 z)"

definition load_le64 :: "byte list \<Rightarrow> 64 word" where
  "load_le64 p = foldl (\<lambda>v i. push_bit 8 v OR ucast (p ! i)) 0 (rev [0..<8])"

text \<open>The initial state derived from the secret, and the hash of one word under it.\<close>

definition map_key_derive_sip_init :: "byte list \<Rightarrow> sip" where
  "map_key_derive_sip_init key =
    (let k0 = load_le64 (take 8 key); k1 = load_le64 (drop 8 key)
     in (k0 XOR 0x736F6D6570736575, k1 XOR 0x646F72616E646F6D,
         k0 XOR 0x6C7967656E657261, k1 XOR 0x7465646279746573))"

definition hash_int_keyed :: "byte list \<Rightarrow> 64 word \<Rightarrow> 64 word" where
  "hash_int_keyed key m =
    sip_finish 3 (sip_absorb 1 (sip_absorb 1 (map_key_derive_sip_init key) m) (push_bit 56 8))"

lemma proven_hash_data:
  "\<not> (view_size v > 0 \<and> view_null v) \<Longrightarrow> proven_hash_bytes v = proven_hash_bytes (At (view_data v))"
  "\<not> (view_size v > 0 \<and> view_null v) \<Longrightarrow> proven_hash_keyed v key = proven_hash_keyed (At (view_data v)) key"
  by (auto simp: proven_hash_bytes_def proven_hash_keyed_def)

end
