(* ===== verification/Probe.thy ===== *)
theory Probe
  imports Base "HOL-Library.Multiset"
begin

text \<open>
  Open addressing with linear probing, on a list of slots: the mathematics under the hash table of
  \<^verbatim>\<open>src/proven/map.c\<close>. A slot is free, a grave (a removed entry, which still lets a probe pass) or an
  entry. The locale \<open>home_index\<close> is what the table needs of its hash: a home index inside any table
  whose size is a power of two. \<open>table_ok\<close> says that every entry is reachable from its home without
  meeting a free slot and that no key occurs twice; the lemmas of the locale say what the two probes
  find in such a table and that the updates of the map keep it. \<open>table_map\<close> is the finite map the
  table stands for.
\<close>

datatype 'e slot = Free | Grave | Entry 'e

type_synonym ('k, 'v) table = "('k \<times> 'v) slot list"

fun slot_entries :: "'e slot list \<Rightarrow> 'e list" where
  "slot_entries [] = []"
| "slot_entries (Entry e # t) = e # slot_entries t"
| "slot_entries (_ # t) = slot_entries t"

definition table_map :: "('k, 'v) table \<Rightarrow> 'k \<rightharpoonup> 'v" where
  "table_map t = map_of (slot_entries t)"

definition slots_used :: "'e slot list \<Rightarrow> nat" where
  "slots_used t = length (filter (\<lambda>s. s \<noteq> Free) t)"

text \<open>The slot met after a number of steps from an index.\<close>

abbreviation step_index :: "'e slot list \<Rightarrow> nat \<Rightarrow> nat \<Rightarrow> nat" where
  "step_index t i j \<equiv> (i + j) mod length t"

definition table_ok :: "('k \<Rightarrow> nat \<Rightarrow> nat) \<Rightarrow> ('k, 'v) table \<Rightarrow> bool" where
  "table_ok home t \<longleftrightarrow>
    distinct (map fst (slot_entries t)) \<and>
    (\<forall>i < length t. \<forall>k v. t ! i = Entry (k, v) \<longrightarrow>
      (\<exists>d < length t. i = step_index t (home k (length t)) d \<and>
        (\<forall>j < d. t ! step_index t (home k (length t)) j \<noteq> Free)))"

text \<open>The probe that looks a key up, and the probe that looks for the place of a key.\<close>

fun probe_find :: "('k, 'v) table \<Rightarrow> 'k \<Rightarrow> nat \<Rightarrow> nat \<Rightarrow> nat option" where
  "probe_find t k 0 i = None"
| "probe_find t k (Suc n) i =
    (case t ! i of
       Free \<Rightarrow> None
     | Entry e \<Rightarrow> if fst e = k then Some i else probe_find t k n (step_index t i 1)
     | Grave \<Rightarrow> probe_find t k n (step_index t i 1))"

datatype place =
    Old_entry nat
  | New_entry nat bool
  | No_room

fun probe_place :: "('k, 'v) table \<Rightarrow> 'k \<Rightarrow> nat \<Rightarrow> nat \<Rightarrow> nat option \<Rightarrow> place" where
  "probe_place t k 0 i tomb = (case tomb of None \<Rightarrow> No_room | Some r \<Rightarrow> New_entry r True)"
| "probe_place t k (Suc n) i tomb =
    (case t ! i of
       Free \<Rightarrow> (case tomb of None \<Rightarrow> New_entry i False | Some r \<Rightarrow> New_entry r True)
     | Entry e \<Rightarrow> if fst e = k then Old_entry i else probe_place t k n (step_index t i 1) tomb
     | Grave \<Rightarrow> probe_place t k n (step_index t i 1) (case tomb of None \<Rightarrow> Some i | Some r \<Rightarrow> Some r))"

section \<open>Entries\<close>

lemma slot_entries_append [simp]: "slot_entries (t @ u) = slot_entries t @ slot_entries u"
  by (induction t rule: slot_entries.induct) auto

lemma set_slot_entries: "e \<in> set (slot_entries t) \<longleftrightarrow> Entry e \<in> set t"
  by (induction t rule: slot_entries.induct) auto

lemma slot_entries_replicate_Free [simp]: "slot_entries (replicate n Free) = []"
  by (induction n) auto

lemma slots_used_replicate_Free [simp]: "slots_used (replicate n Free) = 0"
  by (simp add: slots_used_def)

lemma entries_le_used: "length (slot_entries t) \<le> slots_used t"
  by (induction t rule: slot_entries.induct) (auto simp: slots_used_def)

lemma used_le_length: "slots_used t \<le> length t"
  by (simp add: slots_used_def)

lemma used_full: "slots_used t < length t \<Longrightarrow> \<exists>i < length t. t ! i = Free"
proof (rule ccontr)
  assume u: "slots_used t < length t" and "\<not> (\<exists>i < length t. t ! i = Free)"
  then have "filter (\<lambda>s. s \<noteq> Free) t = t" by (auto simp: filter_id_conv in_set_conv_nth)
  with u show False by (simp add: slots_used_def)
qed

lemma all_entries_length:
  "(\<And>i. i < length t \<Longrightarrow> \<exists>e. t ! i = Entry e) \<Longrightarrow> length (slot_entries t) = length t"
proof (induction t)
  case Nil
  then show ?case by simp
next
  case (Cons s t)
  then have "length (slot_entries t) = length t" by force
  moreover obtain e where "s = Entry e" using Cons.prems [of 0] by auto
  ultimately show ?case by simp
qed

lemma slot_entries_split:
  "i < length t \<Longrightarrow> slot_entries t = slot_entries (take i t) @ slot_entries [t ! i] @ slot_entries (drop (Suc i) t)"
  by (metis id_take_nth_drop slot_entries_append append_Cons append_Nil)

lemma slot_entries_update:
  "i < length t \<Longrightarrow>
    slot_entries (t[i := s]) = slot_entries (take i t) @ slot_entries [s] @ slot_entries (drop (Suc i) t)"
  by (metis upd_conv_take_nth_drop slot_entries_append append_Cons append_Nil)

lemma slots_used_split:
  "i < length t \<Longrightarrow> slots_used t = slots_used (take i t) + slots_used [t ! i] + slots_used (drop (Suc i) t)"
  unfolding slots_used_def by (subst id_take_nth_drop [of i t]) simp_all

lemma slots_used_update:
  "i < length t \<Longrightarrow>
    slots_used (t[i := s]) = slots_used (take i t) + slots_used [s] + slots_used (drop (Suc i) t)"
  unfolding slots_used_def by (simp add: upd_conv_take_nth_drop)

text \<open>What the updates of the map do to the entries and the counts.\<close>

lemma update_new:
  assumes "i < length t" "\<forall>e. t ! i \<noteq> Entry e"
  shows "length (slot_entries (t[i := Entry e])) = Suc (length (slot_entries t))"
    and "slots_used (t[i := Entry e]) = (if t ! i = Free then Suc (slots_used t) else slots_used t)"
    and "set (slot_entries (t[i := Entry e])) = insert e (set (slot_entries t))"
  using slot_entries_split [OF assms(1)] slot_entries_update [OF assms(1), of "Entry e"]
    slots_used_split [OF assms(1)] slots_used_update [OF assms(1), of "Entry e"] assms(2)
  by (cases "t ! i"; auto simp: slots_used_def)+

lemma update_old:
  assumes "i < length t" "t ! i = Entry (k, v)"
  shows "map fst (slot_entries (t[i := Entry (k, v')])) = map fst (slot_entries t)"
    and "slots_used (t[i := Entry (k, v')]) = slots_used t"
    and "length (slot_entries (t[i := Grave])) = length (slot_entries t) - 1"
    and "slots_used (t[i := Grave]) = slots_used t"
    and "0 < length (slot_entries t)"
  using slot_entries_split [OF assms(1)] slot_entries_update [OF assms(1)]
    slots_used_split [OF assms(1)] slots_used_update [OF assms(1)] assms(2)
  by (auto simp: slots_used_def)

lemma mset_entries:
  assumes "i < length t"
  shows "\<forall>e. t ! i \<noteq> Entry e \<Longrightarrow>
      mset (slot_entries (t[i := Entry e])) = add_mset e (mset (slot_entries t))"
    and "t ! i = Entry e \<Longrightarrow>
      mset (slot_entries t) = add_mset e (mset (slot_entries (t[i := Grave])))"
    and "\<forall>e. t ! i \<noteq> Entry e \<Longrightarrow> slot_entries (t[i := Grave]) = slot_entries t"
    and "\<forall>e. t ! i \<noteq> Entry e \<Longrightarrow> slot_entries (t[i := Free]) = slot_entries t"
  using slot_entries_split [OF assms] slot_entries_update [OF assms]
  by (cases "t ! i"; simp)+

lemma entry_index: "e \<in> set (slot_entries t) \<longleftrightarrow> (\<exists>i < length t. t ! i = Entry e)"
  by (subst set_slot_entries, subst in_set_conv_nth, blast)

lemma table_map_Some:
  "distinct (map fst (slot_entries t)) \<Longrightarrow>
    table_map t k = Some v \<longleftrightarrow> (\<exists>i < length t. t ! i = Entry (k, v))"
  unfolding table_map_def by (simp only: map_of_eq_Some_iff entry_index)

lemma table_map_None: "table_map t k = None \<longleftrightarrow> (\<forall>i < length t. \<forall>v. t ! i \<noteq> Entry (k, v))"
proof -
  have "table_map t k = None \<longleftrightarrow> (\<forall>v. (k, v) \<notin> set (slot_entries t))"
    by (force simp: table_map_def map_of_eq_None_iff)
  then show ?thesis unfolding entry_index by blast
qed

lemma entry_unique:
  assumes "distinct (map fst (slot_entries t))" "i < length t" "j < length t"
    "t ! i = Entry (k, v)" "t ! j = Entry (k, v')"
  shows "i = j"
proof (rule ccontr)
  assume "i \<noteq> j"
  then have "(k, v') \<in> set (slot_entries (take i t)) \<or> (k, v') \<in> set (slot_entries (drop (Suc i) t))"
  proof (cases "j < i")
    case True
    then have "take i t ! j = Entry (k, v')" "j < length (take i t)" using assms by auto
    then show ?thesis by (metis set_slot_entries nth_mem)
  next
    case False
    with \<open>i \<noteq> j\<close> have "drop (Suc i) t ! (j - Suc i) = Entry (k, v')" "j - Suc i < length (drop (Suc i) t)"
      using assms by auto
    then show ?thesis by (metis set_slot_entries nth_mem)
  qed
  then show False
    using assms(1) slot_entries_split [OF assms(2)] assms(4) by force
qed

text \<open>Changing the value of an entry, making it a grave, and adding an entry, as updates of the map.\<close>

lemma distinct_new:
  assumes "distinct (map fst (slot_entries t))" "i < length t" "\<forall>e. t ! i \<noteq> Entry e"
    "table_map t k = None"
  shows "distinct (map fst (slot_entries (t[i := Entry (k, v)])))"
proof -
  have "slot_entries [t ! i] = []" using assms(3) by (cases "t ! i") auto
  then have t: "slot_entries t = slot_entries (take i t) @ slot_entries (drop (Suc i) t)"
    using slot_entries_split [OF assms(2)] by simp
  have "k \<notin> fst ` set (slot_entries t)"
    using assms(4) by (simp add: table_map_def map_of_eq_None_iff)
  then show ?thesis
    using assms(1) unfolding slot_entries_update [OF assms(2)] t by auto
qed

lemma table_map_eqI:
  assumes "distinct (map fst (slot_entries t))"
    "\<And>k v. (\<exists>i < length t. t ! i = Entry (k, v)) \<longleftrightarrow> m k = Some v"
  shows "table_map t = m"
proof
  fix k
  show "table_map t k = m k"
    using table_map_Some [OF assms(1), of k] assms(2) [of k] by (metis option.exhaust)
qed

lemma table_map_new:
  assumes "distinct (map fst (slot_entries t))" "i < length t" "\<forall>e. t ! i \<noteq> Entry e"
    "table_map t k = None"
  shows "table_map (t[i := Entry (k, v)]) = (table_map t)(k \<mapsto> v)"
proof (rule table_map_eqI [OF distinct_new [OF assms]])
  fix k' v'
  have "(k', v') \<in> set (slot_entries (t[i := Entry (k, v)])) \<longleftrightarrow> (k', v') = (k, v) \<or> table_map t k' = Some v'"
    using update_new(3) [OF assms(2,3)] by (simp add: table_map_def map_of_eq_Some_iff [OF assms(1)])
  then show "(\<exists>j < length (t[i := Entry (k, v)]). t[i := Entry (k, v)] ! j = Entry (k', v')) \<longleftrightarrow>
      ((table_map t)(k \<mapsto> v)) k' = Some v'"
    using assms(4) unfolding entry_index [symmetric] by auto
qed

lemma update_entries:
  assumes "distinct (map fst (slot_entries t))" "i < length t" "t ! i = Entry (k, v)"
    "s = Grave \<or> (\<exists>v'. s = Entry (k, v'))"
  shows "(\<exists>j < length (t[i := s]). t[i := s] ! j = Entry (k', w)) \<longleftrightarrow>
    (if k' = k then s = Entry (k, w) else table_map t k' = Some w)"
proof (cases "k' = k")
  case True
  have "t[i := s] ! j = Entry (k, w) \<longleftrightarrow> j = i \<and> s = Entry (k, w)" if "j < length t" for j
    using entry_unique [OF assms(1,2) that assms(3)] assms(2) that by (cases "j = i") auto
  with True assms(2) show ?thesis by auto
next
  case False
  have "t[i := s] ! j = Entry (k', w) \<longleftrightarrow> t ! j = Entry (k', w)" if "j < length t" for j
    using False assms(2,3,4) that by (cases "j = i") auto
  with False show ?thesis unfolding table_map_Some [OF assms(1)] by auto
qed

lemma table_map_set:
  assumes "distinct (map fst (slot_entries t))" "i < length t" "t ! i = Entry (k, v)"
  shows "table_map (t[i := Entry (k, v')]) = (table_map t)(k \<mapsto> v')"
proof (rule table_map_eqI)
  show "distinct (map fst (slot_entries (t[i := Entry (k, v')])))"
    by (simp only: update_old(1) [OF assms(2,3)] assms(1))
  fix k' w
  show "(\<exists>j < length (t[i := Entry (k, v')]). t[i := Entry (k, v')] ! j = Entry (k', w)) \<longleftrightarrow>
      ((table_map t)(k \<mapsto> v')) k' = Some w"
    using update_entries [OF assms, of "Entry (k, v')" k' w] by auto
qed

lemma table_map_grave:
  assumes "distinct (map fst (slot_entries t))" "i < length t" "t ! i = Entry (k, v)"
  shows "distinct (map fst (slot_entries (t[i := Grave])))"
    and "table_map (t[i := Grave]) = (table_map t)(k := None)"
proof -
  show d: "distinct (map fst (slot_entries (t[i := Grave])))"
    using assms(1) slot_entries_split [OF assms(2)] slot_entries_update [OF assms(2), of Grave]
    by auto
  show "table_map (t[i := Grave]) = (table_map t)(k := None)"
  proof (rule table_map_eqI [OF d])
    fix k' w
    show "(\<exists>j < length (t[i := Grave]). t[i := Grave] ! j = Entry (k', w)) \<longleftrightarrow>
        ((table_map t)(k := None)) k' = Some w"
      using update_entries [OF assms, of Grave k' w] by auto
  qed
qed

section \<open>Probing a consistent table\<close>

lemma step_step: "step_index t (step_index t i j) 1 = step_index t i (Suc j)"
  by (simp add: mod_Suc_eq)

locale home_index =
  fixes home :: "'k \<Rightarrow> nat \<Rightarrow> nat"
  assumes home_less: "proven_is_pow2 n \<Longrightarrow> home k n < n"
begin

text \<open>A key that a scan from its home has not met before a free slot, or in all the slots, is absent.\<close>

lemma absent:
  assumes "table_ok home (t :: ('k, 'v) table)" "e \<le> length t"
    "\<forall>j < e. \<forall>v. t ! step_index t (home k (length t)) j \<noteq> Entry (k, v)"
    "e = length t \<or> t ! step_index t (home k (length t)) e = Free"
  shows "table_map t k = None"
  unfolding table_map_None
proof (intro allI impI)
  fix i v
  assume i: "i < length t"
  show "t ! i \<noteq> Entry (k, v)"
  proof
    assume ti: "t ! i = Entry (k, v)"
    then obtain d where d: "d < length t" "i = step_index t (home k (length t)) d"
        "\<forall>j < d. t ! step_index t (home k (length t)) j \<noteq> Free"
      using assms(1) i unfolding table_ok_def by blast
    have "\<not> d < e" using assms(3) d(2) ti by blast
    then have "e \<noteq> length t" "e \<le> d" using d(1) by auto
    moreover from this have "t ! step_index t (home k (length t)) e = Free" using assms(4) by blast
    ultimately show False using d(2,3) ti by (cases "e = d") auto
  qed
qed

lemma find_scan:
  assumes "n + j = length t" "0 < length t"
    "\<forall>j' < j. \<forall>v. t ! step_index t s j' \<noteq> Entry (k, v)"
  shows "case probe_find t k n (step_index t s j) of
      Some i \<Rightarrow> i < length t \<and> (\<exists>v. t ! i = Entry (k, v))
    | None \<Rightarrow> \<exists>e \<le> length t. (\<forall>j' < e. \<forall>v. t ! step_index t s j' \<noteq> Entry (k, v)) \<and>
        (e = length t \<or> t ! step_index t s e = Free)"
  using assms
proof (induction n arbitrary: j)
  case 0
  then show ?case by auto
next
  case (Suc n)
  note ih = Suc.IH [of "Suc j"]
  have lt: "step_index t s j < length t" using Suc.prems by simp
  have go: ?case if "\<And>v. t ! step_index t s j \<noteq> Entry (k, v)"
    "probe_find t k (Suc n) (step_index t s j) = probe_find t k n (step_index t s (Suc j))"
    unfolding that(2) using Suc.prems that(1) by (intro ih) (auto simp: less_Suc_eq)
  show ?case
  proof (cases "t ! step_index t s j")
    case Free
    then show ?thesis using Suc.prems by (auto intro!: exI [of _ j])
  next
    case Grave
    then show ?thesis by (intro go) (simp_all add: mod_Suc_eq)
  next
    case (Entry e)
    then show ?thesis
    proof (cases "fst e = k")
      case True
      with Entry lt show ?thesis by (cases e) auto
    next
      case False
      with Entry show ?thesis by (intro go) (auto simp: mod_Suc_eq)
    qed
  qed
qed

theorem probe_find_ok:
  assumes "table_ok home (t :: ('k, 'v) table)" "proven_is_pow2 (length t)"
  shows "case probe_find t k (length t) (home k (length t)) of
      Some i \<Rightarrow> i < length t \<and> (\<exists>v. t ! i = Entry (k, v) \<and> table_map t k = Some v)
    | None \<Rightarrow> table_map t k = None"
proof -
  have h: "step_index t (home k (length t)) 0 = home k (length t)"
    using home_less [OF assms(2)] by simp
  have d: "distinct (map fst (slot_entries t))" using assms(1) by (simp add: table_ok_def)
  note f = find_scan [of "length t" 0 t "home k (length t)" k, unfolded h]
  show ?thesis
  proof (cases "probe_find t k (length t) (home k (length t))")
    case None
    with f proven_is_pow2_pos [OF assms(2)] absent [OF assms(1)] show ?thesis by fastforce
  next
    case (Some i)
    with f proven_is_pow2_pos [OF assms(2)] show ?thesis by (auto simp: table_map_Some [OF d])
  qed
qed

text \<open>Where the insertion probe ends.\<close>

lemma place_scan:
  assumes "n + j = length t" "0 < length t"
    "\<forall>j' < j. t ! step_index t s j' \<noteq> Free \<and> (\<forall>v. t ! step_index t s j' \<noteq> Entry (k, v))"
    "case tomb of None \<Rightarrow> \<forall>j' < j. t ! step_index t s j' \<noteq> Grave
     | Some r \<Rightarrow> \<exists>j' < j. r = step_index t s j' \<and> t ! r = Grave"
  shows "case probe_place t k n (step_index t s j) tomb of
      Old_entry i \<Rightarrow> i < length t \<and> (\<exists>v. t ! i = Entry (k, v))
    | New_entry i b \<Rightarrow> t ! i = (if b then Grave else Free) \<and>
        (\<exists>d < length t. i = step_index t s d \<and> (\<forall>j' < d. t ! step_index t s j' \<noteq> Free)) \<and>
        (\<exists>e \<le> length t. (\<forall>j' < e. \<forall>v. t ! step_index t s j' \<noteq> Entry (k, v)) \<and>
          (e = length t \<or> t ! step_index t s e = Free))
    | No_room \<Rightarrow> \<forall>j' < length t. \<exists>e. t ! step_index t s j' = Entry e \<and> fst e \<noteq> k"
  using assms
proof (induction n arbitrary: j tomb)
  case 0
  then have j: "j = length t" by simp
  show ?case
  proof (cases tomb)
    case None
    have "\<exists>e. t ! step_index t s j' = Entry e \<and> fst e \<noteq> k" if "j' < length t" for j'
      using 0 None that j by (cases "t ! step_index t s j'") auto
    with None show ?thesis by simp
  next
    case (Some r)
    then obtain j' where "j' < length t" "r = step_index t s j'" "t ! r = Grave"
      using 0 j by auto
    moreover have "\<forall>i < length t. \<forall>v. t ! step_index t s i \<noteq> Entry (k, v)"
      using 0 j by blast
    moreover have "\<forall>i < j'. t ! step_index t s i \<noteq> Free" using 0 j calculation(1) by auto
    ultimately show ?thesis using Some by auto
  qed
next
  case (Suc n)
  have lt: "step_index t s j < length t" using Suc.prems by simp
  have go: ?case
    if "t ! step_index t s j \<noteq> Free" "\<And>v. t ! step_index t s j \<noteq> Entry (k, v)"
      "probe_place t k (Suc n) (step_index t s j) tomb = probe_place t k n (step_index t s (Suc j)) tomb'"
      "case tomb' of None \<Rightarrow> \<forall>j' < Suc j. t ! step_index t s j' \<noteq> Grave
       | Some r \<Rightarrow> \<exists>j' < Suc j. r = step_index t s j' \<and> t ! r = Grave" for tomb'
    unfolding that(3) using Suc.prems that(1,2,4) by (intro Suc.IH) (auto simp: less_Suc_eq)
  show ?case
  proof (cases "t ! step_index t s j")
    case Free
    have e: "\<exists>e \<le> length t. (\<forall>j' < e. \<forall>v. t ! step_index t s j' \<noteq> Entry (k, v)) \<and>
        (e = length t \<or> t ! step_index t s e = Free)"
      using Free Suc.prems by (intro exI [of _ j]) auto
    show ?thesis
    proof (cases tomb)
      case None
      have "\<exists>d < length t. step_index t s j = step_index t s d \<and> (\<forall>j' < d. t ! step_index t s j' \<noteq> Free)"
        using Suc.prems by (intro exI [of _ j]) auto
      with None Free e show ?thesis by simp
    next
      case (Some r)
      then obtain j' where "j' < j" "r = step_index t s j'" "t ! r = Grave" using Suc.prems by auto
      moreover from this have "\<exists>d < length t. r = step_index t s d \<and> (\<forall>j' < d. t ! step_index t s j' \<noteq> Free)"
        using Suc.prems by (intro exI [of _ j']) auto
      ultimately show ?thesis using Some Free e by simp
    qed
  next
    case Grave
    show ?thesis
    proof (cases tomb)
      case None
      then show ?thesis using Grave by (intro go [of "Some (step_index t s j)"]) (auto simp: mod_Suc_eq)
    next
      case (Some r)
      then show ?thesis using Grave Suc.prems(4)
        by (intro go [of "Some r"]) (auto simp: mod_Suc_eq less_Suc_eq)
    qed
  next
    case (Entry e)
    show ?thesis
    proof (cases "fst e = k")
      case True
      with Entry lt show ?thesis by (cases e) auto
    next
      case False
      with Entry Suc.prems(4) show ?thesis
        by (intro go [of tomb]) (auto simp: mod_Suc_eq less_Suc_eq split: option.splits)
    qed
  qed
qed

lemma table_ok_distinct: "table_ok home t \<Longrightarrow> distinct (map fst (slot_entries t))"
  by (simp add: table_ok_def)

lemma table_ok_empty: "table_ok home (replicate n Free)"
  by (simp add: table_ok_def)

lemma table_ok_paths:
  assumes "table_ok home t" "distinct (map fst (slot_entries (t[i := s])))"
    "\<And>k v. s = Entry (k, v) \<Longrightarrow> \<exists>d < length t. i = step_index t (home k (length t)) d \<and>
        (\<forall>j < d. t ! step_index t (home k (length t)) j \<noteq> Free)"
    "s \<noteq> Free"
  shows "table_ok home (t[i := s])"
  unfolding table_ok_def
proof (intro conjI allI impI)
  fix l k v
  let ?p = "\<lambda>t d. l = step_index t (home k (length t)) d \<and>
    (\<forall>j < d. t ! step_index t (home k (length t)) j \<noteq> Free)"
  assume l: "l < length (t[i := s])" "t[i := s] ! l = Entry (k, v)"
  have "\<exists>d < length t. ?p t d"
  proof (cases "l = i")
    case True
    with l have "s = Entry (k, v)" by simp
    with assms(3) True show ?thesis by blast
  next
    case False
    with l assms(1) show ?thesis unfolding table_ok_def by auto
  qed
  then obtain d where d: "d < length t" "?p t d" by blast
  have "t[i := s] ! j \<noteq> Free" if "t ! j \<noteq> Free" for j
    using assms(4) that by (cases "j = i"; cases "i < length t") (auto simp: list_update_beyond)
  with d show "\<exists>d < length (t[i := s]). ?p (t[i := s]) d" by auto
qed (use assms(2) in blast)

theorem probe_place_ok:
  assumes "table_ok home (t :: ('k, 'v) table)" "proven_is_pow2 (length t)"
  shows "case probe_place t k (length t) (home k (length t)) None of
      Old_entry i \<Rightarrow> i < length t \<and> (\<exists>v. t ! i = Entry (k, v) \<and> table_map t k = Some v)
    | New_entry i b \<Rightarrow> i < length t \<and> t ! i = (if b then Grave else Free) \<and> table_map t k = None \<and>
        (\<forall>v. table_ok home (t[i := Entry (k, v)]))
    | No_room \<Rightarrow> table_map t k = None \<and> length (slot_entries t) = length t"
proof -
  let ?s = "home k (length t)"
  have h: "step_index t ?s 0 = ?s" using home_less [OF assms(2)] by simp
  have pos: "0 < length t" by (rule proven_is_pow2_pos [OF assms(2)])
  note d = table_ok_distinct [OF assms(1)]
  note f = place_scan [of "length t" 0 t ?s k None, unfolded h, simplified, OF proven_is_pow2_pos [OF assms(2), simplified]]
  show ?thesis
  proof (cases "probe_place t k (length t) ?s None")
    case (Old_entry i)
    with f show ?thesis by (auto simp: table_map_Some [OF d])
  next
    case (New_entry i b)
    with f obtain e where "e \<le> length t" "\<forall>j' < e. \<forall>v. t ! step_index t ?s j' \<noteq> Entry (k, v)"
        "e = length t \<or> t ! step_index t ?s e = Free"
      by auto
    then have a: "table_map t k = None" by (rule absent [OF assms(1)])
    from f New_entry have i: "t ! i = (if b then Grave else Free)" and
      p: "\<exists>d < length t. i = step_index t ?s d \<and> (\<forall>j' < d. t ! step_index t ?s j' \<noteq> Free)"
      by auto
    then have lt: "i < length t" using pos by auto
    have ne: "\<forall>e. t ! i \<noteq> Entry e" using i by (simp split: if_splits)
    have "table_ok home (t[i := Entry (k, v)])" for v
      using p by (intro table_ok_paths [OF assms(1) distinct_new [OF d lt ne a]]) auto
    with New_entry lt i a show ?thesis by auto
  next
    case No_room
    with f have all: "\<forall>j < length t. \<exists>e. t ! step_index t ?s j = Entry e \<and> fst e \<noteq> k" by simp
    have "\<exists>e. t ! i = Entry e" if "i < length t" for i
    proof -
      have s: "?s < length t" by (rule home_less [OF assms(2)])
      let ?j = "if ?s \<le> i then i - ?s else length t + i - ?s"
      have "?j < length t" "step_index t ?s ?j = i" using that s by auto
      with all show ?thesis by metis
    qed
    then have "length (slot_entries t) = length t" by (rule all_entries_length)
    moreover have "table_map t k = None"
      using all by (intro absent [OF assms(1), of "length t"]) (simp, fastforce, simp)
    ultimately show ?thesis using No_room by simp
  qed
qed

lemma table_ok_set:
  assumes "table_ok home t" "i < length t" "t ! i = Entry (k, v)"
  shows "table_ok home (t[i := Entry (k, v')])"
proof (rule table_ok_paths [OF assms(1)])
  show "distinct (map fst (slot_entries (t[i := Entry (k, v')])))"
    by (simp only: update_old(1) [OF assms(2,3)] table_ok_distinct [OF assms(1)])
  fix k' w
  assume "Entry (k, v') = Entry (k', w)"
  then show "\<exists>d < length t. i = step_index t (home k' (length t)) d \<and>
        (\<forall>j < d. t ! step_index t (home k' (length t)) j \<noteq> Free)"
    using assms unfolding table_ok_def by simp
qed simp_all

lemma table_ok_grave:
  assumes "table_ok home t" "i < length t" "t ! i = Entry (k, v)"
  shows "table_ok home (t[i := Grave])"
  by (rule table_ok_paths [OF assms(1) table_map_grave(1) [OF table_ok_distinct [OF assms(1)] assms(2,3)]])
    simp_all

end

end
