(* ===== verification/Hash_Map.thy ===== *)
theory Hash_Map
  imports Arena Table_Hash Probe
begin

text \<open>
  The hash map: \<^verbatim>\<open>include/proven/map.h\<close> and \<^verbatim>\<open>src/proven/map.c\<close>, a hosted build without the hardened
  checks. The struct keeps its fields. The block \<^verbatim>\<open>internal\<close> leads to is an array of buckets, each a
  header (state and key) followed by the payload: the headers are the list \<open>headers\<close>, entry \<open>i\<close>
  standing for the header at \<open>i * bucket_stride\<close>, and the payloads are the bytes of the memory at
  \<open>i * bucket_stride + payload_offset\<close>. Key bytes are in memory too: a string key is a pointer and a
  size, and an owned key is a block of its own that the map allocated.

  A key is the C union: \<open>kid\<close> is read by an integer map, \<open>kptr\<close> and \<open>ksize\<close> by a string map. The secret of
  the process, drawn once by \<^verbatim>\<open>map_ensure_key\<close>, is the argument \<open>g\<close>. An element is given by its address,
  or is the 256-byte temporary on the stack of \<^verbatim>\<open>proven_map_set_with_scratch\<close>, which is not
  allocator memory. Loops over buckets carry the number of iterations left.
\<close>

section \<open>map.h\<close>

text \<open>A value of the enum's type that is none of its constants is \<open>Key_type_other\<close>.\<close>

datatype proven_key_type =
    PROVEN_KEY_TYPE_INT
  | PROVEN_KEY_TYPE_U8_BORROWED
  | PROVEN_KEY_TYPE_U8_OWNED
  | Key_type_other nat

record proven_map_key =
  kid :: nat
  kptr :: addr
  ksize :: nat

datatype bucket_state =
    BUCKET_EMPTY
  | BUCKET_OCCUPIED
  | BUCKET_TOMBSTONE

record proven_map_bucket_header =
  hstate :: bucket_state
  hkey :: proven_map_key

record 'c proven_map =
  malloc :: "'c proven_allocator"
  internal :: proven_mem
  headers :: "proven_map_bucket_header list"
  mlen :: nat
  mused :: nat
  mcap :: nat
  melem_size :: nat
  malign :: nat
  bucket_stride :: nat
  payload_offset :: nat
  key_type :: proven_key_type
  trusted_keys :: bool

text \<open>\<^verbatim>\<open>sizeof\<close> and \<^verbatim>\<open>alignof\<close> of the bucket header: a byte, padding, and a union of two words.\<close>

definition header_size :: nat where "header_size = 24"

definition header_align :: nat where "header_align = 8"

definition zero_key :: proven_map_key where
  "zero_key = \<lparr>kid = 0, kptr = 0, ksize = 0\<rparr>"

definition zero_header :: proven_map_bucket_header where
  "zero_header = \<lparr>hstate = BUCKET_EMPTY, hkey = zero_key\<rparr>"

definition zero_map :: "'c proven_map" where
  "zero_map = \<lparr>malloc = null_allocator, internal = null_mem, headers = [], mlen = 0, mused = 0,
    mcap = 0, melem_size = 0, malign = 0, bucket_stride = 0, payload_offset = 0,
    key_type = PROVEN_KEY_TYPE_INT, trusted_keys = False\<rparr>"

text \<open>An element to be stored: at an address, or in the temporary on the stack.\<close>

datatype elem =
    Ptr addr
  | Stack "byte list"

fun read_elem :: "mem \<Rightarrow> elem \<Rightarrow> nat \<Rightarrow> byte list" where
  "read_elem h (Ptr a) n = mem_read h a n"
| "read_elem h (Stack bs) n = take n bs"

fun move_elem :: "mem \<Rightarrow> addr \<Rightarrow> elem \<Rightarrow> nat \<Rightarrow> mem" where
  "move_elem h dst (Ptr a) n = proven_sys_mem_move h dst a n"
| "move_elem h dst (Stack bs) n = mem_write h dst (take n bs)"

section \<open>Keys and their hashes\<close>

definition key_view :: "mem \<Rightarrow> proven_map_key \<Rightarrow> byte view" where
  "key_view h key = (if kptr key = 0 then Null (ksize key) else At (mem_read h (kptr key) (ksize key)))"

definition map_hash64 :: "byte list \<Rightarrow> mem \<Rightarrow> 'c proven_map \<Rightarrow> proven_map_key \<Rightarrow> 64 word" where
  "map_hash64 g h m key =
    (if key_type m = PROVEN_KEY_TYPE_INT
     then (if \<not> trusted_keys m then hash_int_keyed g (of_nat (kid key)) else hash_int (of_nat (kid key)))
     else if \<not> trusted_keys m then proven_hash_keyed (key_view h key) g
     else proven_hash_bytes (key_view h key))"

definition get_hash :: "byte list \<Rightarrow> mem \<Rightarrow> 'c proven_map \<Rightarrow> proven_map_key \<Rightarrow> nat" where
  "get_hash g h m key = unat (map_hash64 g h m key)"

definition proven_u8str_view_eq :: "mem \<Rightarrow> proven_map_key \<Rightarrow> proven_map_key \<Rightarrow> bool" where
  "proven_u8str_view_eq h a b =
    (if ksize a \<noteq> ksize b then False
     else if ksize a = 0 then True
     else if kptr a = 0 \<or> kptr b = 0 then False
     else mem_read h (kptr a) (ksize a) = mem_read h (kptr b) (ksize a))"

definition keys_equal :: "mem \<Rightarrow> proven_key_type \<Rightarrow> proven_map_key \<Rightarrow> proven_map_key \<Rightarrow> bool" where
  "keys_equal h type a b =
    (if type = PROVEN_KEY_TYPE_INT then kid a = kid b else proven_u8str_view_eq h a b)"

definition map_key_type_is_valid :: "proven_key_type \<Rightarrow> bool" where
  "map_key_type_is_valid kt \<longleftrightarrow>
    kt = PROVEN_KEY_TYPE_INT \<or> kt = PROVEN_KEY_TYPE_U8_BORROWED \<or> kt = PROVEN_KEY_TYPE_U8_OWNED"

definition map_key_is_valid :: "proven_key_type \<Rightarrow> proven_map_key \<Rightarrow> bool" where
  "map_key_is_valid type key =
    (if type = PROVEN_KEY_TYPE_INT then True
     else if type = PROVEN_KEY_TYPE_U8_BORROWED \<or> type = PROVEN_KEY_TYPE_U8_OWNED
     then (if ksize key \<noteq> 0 \<and> kptr key = 0 then False else True)
     else False)"

definition map_release_owned_key ::
  "'c world \<Rightarrow> 'c proven_map \<Rightarrow> proven_map_bucket_header \<Rightarrow> proven_map_bucket_header \<times> 'c world" where
  "map_release_owned_key w m hdr =
    (if key_type m \<noteq> PROVEN_KEY_TYPE_U8_OWNED then (hdr, w)
     else (hdr\<lparr>hkey := (hkey hdr)\<lparr>kptr := 0, ksize := 0\<rparr>\<rparr>,
           if hstate hdr = BUCKET_OCCUPIED \<and> kptr (hkey hdr) \<noteq> 0 \<and> free_fn (malloc m) \<noteq> None
           then free_call (malloc m) w (kptr (hkey hdr)) else w))"

definition map_store_key ::
  "'c world \<Rightarrow> 'c proven_map \<Rightarrow> proven_map_bucket_header \<Rightarrow> proven_map_key \<Rightarrow> bool \<Rightarrow>
    proven_err \<times> proven_map_bucket_header \<times> 'c world" where
  "map_store_key w m hdr key duplicate_owned =
    (let hdr = hdr\<lparr>hkey := key\<rparr> in
     if key_type m \<noteq> PROVEN_KEY_TYPE_U8_OWNED \<or> \<not> duplicate_owned then (PROVEN_OK, hdr, w)
     else if ksize key = 0 then (PROVEN_OK, hdr\<lparr>hkey := key\<lparr>kptr := 0\<rparr>\<rparr>, w)
     else case alloc_call (malloc m) w (ksize key) 1 of (key_alloc, w') \<Rightarrow>
       if rerr key_alloc \<noteq> PROVEN_OK
       then (rerr key_alloc, hdr\<lparr>hkey := key\<lparr>kptr := 0, ksize := 0\<rparr>\<rparr>, w')
       else (PROVEN_OK, hdr\<lparr>hkey := key\<lparr>kptr := ptr (rval key_alloc)\<rparr>\<rparr>,
             w'\<lparr>heap := proven_sys_mem_copy (heap w') (ptr (rval key_alloc)) (kptr key) (ksize key)\<rparr>))"

section \<open>Capacity\<close>

text \<open>The bits of \<open>v - 1\<close> smeared downwards give the next power of two, less one.\<close>

definition next_pow2 :: "nat \<Rightarrow> proven_err + nat" where
  "next_pow2 v =
    (if v < 8 then Inr 8
     else if v > 2 ^ 63 then Inl PROVEN_ERR_OVERFLOW
     else let v = (of_nat v :: 64 word) - 1;
              v = v OR drop_bit 1 v;
              v = v OR drop_bit 2 v;
              v = v OR drop_bit 4 v;
              v = v OR drop_bit 8 v;
              v = v OR drop_bit 16 v;
              v = v OR drop_bit 32 v
          in Inr (unat (v + 1)))"

definition bucket_align :: "nat \<Rightarrow> nat" where
  "bucket_align align = (if align > header_align then align else header_align)"

definition alloc_buckets ::
  "'c world \<Rightarrow> 'c proven_allocator \<Rightarrow> nat \<Rightarrow> nat \<Rightarrow> nat \<Rightarrow> proven_result_mem \<times> 'c world" where
  "alloc_buckets w al cap stride align =
    (case ckd_mul cap stride of
       None \<Rightarrow> (mem_error PROVEN_ERR_OVERFLOW, w)
     | Some total_size \<Rightarrow>
        (case alloc_call al w total_size (bucket_align align) of (res, w') \<Rightarrow>
           if rerr res = PROVEN_OK
           then (res, w'\<lparr>heap := proven_sys_mem_zero (heap w') (ptr (rval res)) total_size\<rparr>)
           else (res, w')))"

definition proven_map_create ::
  "'c world \<Rightarrow> 'c proven_allocator \<Rightarrow> nat \<Rightarrow> proven_key_type \<Rightarrow> nat \<Rightarrow> nat \<Rightarrow>
    (proven_err + 'c proven_map) \<times> 'c world" where
  "proven_map_create w al init_cap kt elem_size align =
    (if elem_size = 0 \<or> \<not> proven_alloc_is_valid al \<or> \<not> proven_is_pow2 align \<or> \<not> map_key_type_is_valid kt
     then (Inl PROVEN_ERR_INVALID_ARG, w)
     else case next_pow2 init_cap of
       Inl e \<Rightarrow> (Inl e, w)
     | Inr actual_cap \<Rightarrow>
       let po = proven_mem_align_up header_size (bucket_align align) in
       if po = 0 then (Inl PROVEN_ERR_OVERFLOW, w)
       else case ckd_add po elem_size of
         None \<Rightarrow> (Inl PROVEN_ERR_OVERFLOW, w)
       | Some stride_base \<Rightarrow>
         let stride = proven_mem_align_up stride_base (bucket_align align) in
         if stride = 0 then (Inl PROVEN_ERR_OVERFLOW, w)
         else
         let mk = (\<lambda>block hs. \<lparr>malloc = al, internal = block, headers = hs, mlen = 0, mused = 0,
                    mcap = actual_cap, melem_size = elem_size, malign = align,
                    bucket_stride = stride, payload_offset = po, key_type = kt,
                    trusted_keys = False\<rparr>) in
         if actual_cap > 0
         then (case alloc_buckets w al actual_cap stride align of (am, w') \<Rightarrow>
                 if rerr am \<noteq> PROVEN_OK then (Inl (rerr am), w')
                 else (Inr (mk (rval am) (replicate actual_cap zero_header)), w'))
         else (Inr (mk null_mem []), w))"

definition proven_map_create_trusted ::
  "'c world \<Rightarrow> 'c proven_allocator \<Rightarrow> nat \<Rightarrow> proven_key_type \<Rightarrow> nat \<Rightarrow> nat \<Rightarrow>
    (proven_err + 'c proven_map) \<times> 'c world" where
  "proven_map_create_trusted w al init_cap kt elem_size align =
    (case proven_map_create w al init_cap kt elem_size align of
       (Inl e, w') \<Rightarrow> (Inl e, w')
     | (Inr m, w') \<Rightarrow> (Inr (m\<lparr>trusted_keys := True\<rparr>), w'))"

definition proven_map_hash :: "byte list \<Rightarrow> mem \<Rightarrow> 'c proven_map option \<Rightarrow> proven_map_key \<Rightarrow> 64 word" where
  "proven_map_hash g h mp key = (case mp of None \<Rightarrow> 0 | Some m \<Rightarrow> map_hash64 g h m key)"

definition proven_map_is_valid :: "'c proven_map option \<Rightarrow> bool" where
  "proven_map_is_valid mp = (case mp of
     None \<Rightarrow> False
   | Some m \<Rightarrow>
      if melem_size m = 0 \<or> \<not> proven_is_pow2 (malign m) then False
      else if mlen m > mused m then False
      else if mused m > mcap m then False
      else if mcap m > 0 \<and> \<not> proven_is_pow2 (mcap m) then False
      else if mcap m > 0 \<and> ptr (internal m) = 0 then False
      else if mcap m = 0 \<and> ptr (internal m) \<noteq> 0 then False
      else if mcap m = 0 \<and> msize (internal m) \<noteq> 0 then False
      else if \<not> map_key_type_is_valid (key_type m) then False
      else if \<not> proven_alloc_is_valid (malloc m) then False
      else
      let po = proven_mem_align_up header_size (bucket_align (malign m)) in
      if po = 0 \<or> po \<noteq> payload_offset m then False
      else case ckd_add po (melem_size m) of
        None \<Rightarrow> False
      | Some stride_base \<Rightarrow>
        let stride = proven_mem_align_up stride_base (bucket_align (malign m)) in
        if stride = 0 \<or> stride \<noteq> bucket_stride m then False
        else if mcap m > 0
        then (case ckd_mul (mcap m) (bucket_stride m) of
                None \<Rightarrow> False
              | Some expected_size \<Rightarrow> msize (internal m) = expected_size)
        else True)"

section \<open>Lookup\<close>

text \<open>The index of the next bucket of a probe, and the payload of a bucket.\<close>

definition next_bucket :: "'c proven_map \<Rightarrow> nat \<Rightarrow> nat" where
  "next_bucket m idx = (idx + 1) AND (mcap m - 1)"

fun map_find_loop ::
  "mem \<Rightarrow> 'c proven_map \<Rightarrow> proven_map_key \<Rightarrow> nat \<Rightarrow> nat \<Rightarrow> addr" where
  "map_find_loop h m key 0 idx = 0"
| "map_find_loop h m key (Suc n) idx =
    (case ckd_mul idx (bucket_stride m) of
       None \<Rightarrow> 0
     | Some offset \<Rightarrow>
        let hdr = headers m ! idx in
        if hstate hdr = BUCKET_EMPTY then 0
        else if hstate hdr = BUCKET_OCCUPIED \<and> keys_equal h (key_type m) (hkey hdr) key
        then ptr (internal m) + offset + payload_offset m
        else map_find_loop h m key n (next_bucket m idx))"

definition map_find_payload_mut ::
  "byte list \<Rightarrow> mem \<Rightarrow> 'c proven_map \<Rightarrow> proven_map_key \<Rightarrow> addr" where
  "map_find_payload_mut g h m key =
    (if mcap m = 0 then 0
     else if \<not> map_key_is_valid (key_type m) key then 0
     else map_find_loop h m key (mcap m) (get_hash g h m key AND (mcap m - 1)))"

definition map_find_payload_const ::
  "byte list \<Rightarrow> mem \<Rightarrow> 'c proven_map \<Rightarrow> proven_map_key \<Rightarrow> addr" where
  "map_find_payload_const g h m key =
    (if mcap m = 0 then 0
     else if \<not> map_key_is_valid (key_type m) key then 0
     else map_find_loop h m key (mcap m) (get_hash g h m key AND (mcap m - 1)))"

definition proven_map_get_mut ::
  "byte list \<Rightarrow> mem \<Rightarrow> 'c proven_map option \<Rightarrow> proven_map_key \<Rightarrow> addr" where
  "proven_map_get_mut g h mp key =
    (if \<not> proven_map_is_valid mp then 0 else map_find_payload_mut g h (the mp) key)"

definition proven_map_get ::
  "byte list \<Rightarrow> mem \<Rightarrow> 'c proven_map option \<Rightarrow> proven_map_key \<Rightarrow> addr" where
  "proven_map_get g h mp key =
    (if \<not> proven_map_is_valid mp then 0 else map_find_payload_const g h (the mp) key)"

definition proven_map_len :: "'c proven_map option \<Rightarrow> nat" where
  "proven_map_len mp = (case mp of None \<Rightarrow> 0 | Some m \<Rightarrow> mlen m)"

section \<open>Insertion\<close>

text \<open>Where the probe of an insertion ends: at a bucket to fill (a tombstone it passed, or the empty
  bucket that ended it), at the key itself, on an overflow, or after every bucket.\<close>

datatype insert_at =
    At_new nat bool
  | At_key nat
  | At_overflow
  | At_none

fun map_insert_probe ::
  "mem \<Rightarrow> 'c proven_map \<Rightarrow> proven_map_key \<Rightarrow> nat \<Rightarrow> nat \<Rightarrow> nat option \<Rightarrow> insert_at" where
  "map_insert_probe h m key 0 idx first_tombstone =
    (case first_tombstone of None \<Rightarrow> At_none | Some t \<Rightarrow> At_new t True)"
| "map_insert_probe h m key (Suc n) idx first_tombstone =
    (case ckd_mul idx (bucket_stride m) of
       None \<Rightarrow> At_overflow
     | Some offset \<Rightarrow>
        let hdr = headers m ! idx in
        (case hstate hdr of
           BUCKET_EMPTY \<Rightarrow>
             (case first_tombstone of None \<Rightarrow> At_new idx False | Some t \<Rightarrow> At_new t True)
         | BUCKET_OCCUPIED \<Rightarrow>
             if keys_equal h (key_type m) (hkey hdr) key then At_key idx
             else map_insert_probe h m key n (next_bucket m idx) first_tombstone
         | BUCKET_TOMBSTONE \<Rightarrow>
             map_insert_probe h m key n (next_bucket m idx)
               (case first_tombstone of None \<Rightarrow> Some idx | Some t \<Rightarrow> Some t)))"

definition map_payload :: "'c proven_map \<Rightarrow> nat \<Rightarrow> addr" where
  "map_payload m idx = ptr (internal m) + idx * bucket_stride m + payload_offset m"

text \<open>Filling a bucket; a key that cannot be stored gives the bucket its old state back.\<close>

definition map_fill_bucket ::
  "'c world \<Rightarrow> 'c proven_map \<Rightarrow> nat \<Rightarrow> bool \<Rightarrow> proven_map_key \<Rightarrow> elem \<Rightarrow> bool \<Rightarrow>
    proven_err \<times> 'c proven_map \<times> 'c world" where
  "map_fill_bucket w m idx reused key element duplicate_owned =
    (let hdr = (headers m ! idx)\<lparr>hstate := BUCKET_OCCUPIED\<rparr> in
     case map_store_key w m hdr key duplicate_owned of (key_err, hdr, w') \<Rightarrow>
       if key_err \<noteq> PROVEN_OK
       then (key_err,
             m\<lparr>headers := (headers m)[idx :=
                 hdr\<lparr>hstate := if reused then BUCKET_TOMBSTONE else BUCKET_EMPTY\<rparr>]\<rparr>, w')
       else (PROVEN_OK,
             m\<lparr>headers := (headers m)[idx := hdr], mlen := wrap (mlen m + 1),
               mused := (if reused then mused m else wrap (mused m + 1))\<rparr>,
             w'\<lparr>heap := move_elem (heap w') (map_payload m idx) element (melem_size m)\<rparr>))"

definition map_insert_no_grow ::
  "byte list \<Rightarrow> 'c world \<Rightarrow> 'c proven_map \<Rightarrow> proven_map_key \<Rightarrow> elem \<Rightarrow> bool \<Rightarrow>
    proven_err \<times> 'c proven_map \<times> 'c world" where
  "map_insert_no_grow g w m key element duplicate_owned =
    (if element = Ptr 0 then (PROVEN_ERR_INVALID_ARG, m, w)
     else if \<not> map_key_is_valid (key_type m) key then (PROVEN_ERR_INVALID_ARG, m, w)
     else case map_insert_probe (heap w) m key (mcap m)
                 (get_hash g (heap w) m key AND (mcap m - 1)) None of
       At_overflow \<Rightarrow> (PROVEN_ERR_OVERFLOW, m, w)
     | At_key idx \<Rightarrow>
         (PROVEN_OK, m, w\<lparr>heap := move_elem (heap w) (map_payload m idx) element (melem_size m)\<rparr>)
     | At_new idx reused \<Rightarrow> map_fill_bucket w m idx reused key element duplicate_owned
     | At_none \<Rightarrow> (PROVEN_ERR_OUT_OF_BOUNDS, m, w))"

section \<open>Rehashing\<close>

function pow2_loop :: "nat \<Rightarrow> nat \<Rightarrow> nat option" where
  "pow2_loop p new_cap =
    (if 0 < p \<and> p < new_cap
     then (case ckd_mul p 2 of None \<Rightarrow> None | Some q \<Rightarrow> pow2_loop q new_cap)
     else Some p)"
  by pat_completeness auto
termination
  by (relation "measure (\<lambda>(p, new_cap). new_cap - p)") (auto simp: ckd_simps)

declare pow2_loop.simps [simp del]

text \<open>The loop that moves the occupied buckets from \<open>i\<close> on into the new map.\<close>

fun map_migrate ::
  "byte list \<Rightarrow> 'c proven_map \<Rightarrow> nat \<Rightarrow> nat \<Rightarrow> 'c proven_map \<Rightarrow> 'c world \<Rightarrow>
    proven_err \<times> 'c proven_map \<times> 'c world" where
  "map_migrate g old 0 i new_map w = (PROVEN_OK, new_map, w)"
| "map_migrate g old (Suc n) i new_map w =
    (case ckd_mul i (bucket_stride old) of
       None \<Rightarrow> (PROVEN_ERR_OVERFLOW, new_map, w)
     | Some offset \<Rightarrow>
        let old_hdr = headers old ! i in
        if hstate old_hdr = BUCKET_OCCUPIED
        then (case map_insert_no_grow g w new_map (hkey old_hdr)
                     (Ptr (ptr (internal old) + offset + payload_offset old)) False of
                (err, new_map', w') \<Rightarrow>
                  if err \<noteq> PROVEN_OK then (err, new_map', w')
                  else map_migrate g old n (i + 1) new_map' w')
        else map_migrate g old n (i + 1) new_map w)"

definition map_rehash_target ::
  "byte list \<Rightarrow> 'c world \<Rightarrow> 'c proven_map \<Rightarrow> nat \<Rightarrow> proven_err \<times> 'c proven_map \<times> 'c world" where
  "map_rehash_target g w m target_cap =
    (case (if \<not> proven_is_pow2 target_cap then pow2_loop 1 target_cap else Some target_cap) of
       None \<Rightarrow> (PROVEN_ERR_OVERFLOW, m, w)
     | Some new_cap \<Rightarrow>
        (case alloc_buckets w (malloc m) new_cap (bucket_stride m) (malign m) of
           (new_block_res, w1) \<Rightarrow>
             if rerr new_block_res \<noteq> PROVEN_OK then (rerr new_block_res, m, w1)
             else
             let new_map = m\<lparr>internal := rval new_block_res, headers := replicate new_cap zero_header,
                             mcap := new_cap, mlen := 0, mused := 0\<rparr> in
             (case map_migrate g m (mcap m) 0 new_map w1 of
                (err, new_map', w2) \<Rightarrow>
                  if err \<noteq> PROVEN_OK
                  then (err, m, free_call (malloc m) w2 (ptr (rval new_block_res)))
                  else (PROVEN_OK, new_map',
                        if ptr (internal m) \<noteq> 0 then free_call (malloc m) w2 (ptr (internal m)) else w2))))"

definition map_rehash ::
  "byte list \<Rightarrow> 'c world \<Rightarrow> 'c proven_map \<Rightarrow> proven_err \<times> 'c proven_map \<times> 'c world" where
  "map_rehash g w m =
    (case (if mlen m \<ge> mcap m div 2 then ckd_mul (mcap m) 2 else Some (mcap m)) of
       None \<Rightarrow> (PROVEN_ERR_OVERFLOW, m, w)
     | Some new_cap \<Rightarrow> map_rehash_target g w m new_cap)"

definition proven_map_reserve ::
  "byte list \<Rightarrow> 'c world \<Rightarrow> 'c proven_map option \<Rightarrow> nat \<Rightarrow> proven_err \<times> 'c proven_map option \<times> 'c world" where
  "proven_map_reserve g w mp new_cap =
    (if \<not> proven_map_is_valid mp then (PROVEN_ERR_INVALID_ARG, mp, w)
     else if new_cap \<le> mcap (the mp) then (PROVEN_OK, mp, w)
     else case map_rehash_target g w (the mp) new_cap of (e, m', w') \<Rightarrow> (e, Some m', w'))"

section \<open>Setting\<close>

definition map_threshold :: "nat \<Rightarrow> nat" where
  "map_threshold cap =
    (let threshold = (case ckd_mul cap 3 of None \<Rightarrow> cap | Some t \<Rightarrow> t) div 4
     in if cap > 1 \<and> threshold = 0 then 1 else threshold)"

text \<open>The copy of an element that lies in the table, taken before the table moves: the element to
  insert and the block to free afterwards, 0 when the stack holds it.\<close>

definition map_save_element ::
  "'c world \<Rightarrow> 'c proven_map \<Rightarrow> addr \<Rightarrow> 'c proven_allocator \<Rightarrow>
    (proven_err + elem \<times> addr) \<times> 'c world" where
  "map_save_element w m element scratch =
    (if ref_valid (proven_bufref_capture (ptr (internal m)) (msize (internal m)) element (melem_size m))
     then (if melem_size m \<le> 256
           then (Inr (Stack (mem_read (heap w) element (melem_size m)), 0), w)
           else case alloc_call scratch w (melem_size m) (malign m) of (r, w') \<Rightarrow>
             if rerr r \<noteq> PROVEN_OK then (Inl (rerr r), w')
             else (Inr (Ptr (ptr (rval r)), ptr (rval r)),
                   w'\<lparr>heap := proven_sys_mem_copy (heap w') (ptr (rval r)) element (melem_size m)\<rparr>))
     else (Inr (Ptr element, 0), w))"

definition proven_map_set_with_scratch ::
  "byte list \<Rightarrow> 'c world \<Rightarrow> 'c proven_map option \<Rightarrow> proven_map_key \<Rightarrow> addr \<Rightarrow> 'c proven_allocator \<Rightarrow>
    proven_err \<times> 'c proven_map option \<times> 'c world" where
  "proven_map_set_with_scratch g w mp key element scratch =
    (if \<not> proven_map_is_valid mp \<or> element = 0 \<or> mcap (the mp) = 0
     then (PROVEN_ERR_INVALID_ARG, mp, w)
     else if \<not> map_key_is_valid (key_type (the mp)) key then (PROVEN_ERR_INVALID_ARG, mp, w)
     else
     let m = the mp;
         scratch = (if alloc_fn scratch = None \<or> free_fn scratch = None then malloc m else scratch);
         duplicate = (key_type m = PROVEN_KEY_TYPE_U8_OWNED) in
     if mused m \<ge> map_threshold (mcap m) then
       (let existing = map_find_payload_mut g (heap w) m key in
        if existing \<noteq> 0
        then (PROVEN_OK, mp,
              if existing \<noteq> element
              then w\<lparr>heap := proven_sys_mem_move (heap w) existing element (melem_size m)\<rparr> else w)
        else case map_save_element w m element scratch of
          (Inl e, w1) \<Rightarrow> (e, mp, w1)
        | (Inr (insert_elem, heap_temp), w1) \<Rightarrow>
           let release = (\<lambda>v. if heap_temp \<noteq> 0 then free_call scratch v heap_temp else v) in
           (case map_rehash g w1 m of (grow_err, m2, w2) \<Rightarrow>
              if grow_err \<noteq> PROVEN_OK then (grow_err, Some m2, release w2)
              else (case map_insert_no_grow g w2 m2 key insert_elem duplicate of
                      (res, m3, w3) \<Rightarrow> (res, Some m3, release w3))))
     else (case map_insert_no_grow g w m key (Ptr element) duplicate of
             (res, m', w') \<Rightarrow> (res, Some m', w')))"

definition proven_map_set ::
  "byte list \<Rightarrow> 'c world \<Rightarrow> 'c proven_map option \<Rightarrow> proven_map_key \<Rightarrow> addr \<Rightarrow>
    proven_err \<times> 'c proven_map option \<times> 'c world" where
  "proven_map_set g w mp key element =
    (case mp of
       None \<Rightarrow> (PROVEN_ERR_INVALID_ARG, mp, w)
     | Some m \<Rightarrow> proven_map_set_with_scratch g w mp key element (malloc m))"

definition proven_map_set_u8_owned ::
  "byte list \<Rightarrow> 'c world \<Rightarrow> 'c proven_map option \<Rightarrow> addr \<Rightarrow> nat \<Rightarrow> addr \<Rightarrow>
    proven_err \<times> 'c proven_map option \<times> 'c world" where
  "proven_map_set_u8_owned g w mp key_ptr key_size element =
    (if \<not> proven_map_is_valid mp \<or> key_type (the mp) \<noteq> PROVEN_KEY_TYPE_U8_OWNED
     then (PROVEN_ERR_INVALID_ARG, mp, w)
     else proven_map_set g w mp \<lparr>kid = 0, kptr = key_ptr, ksize = key_size\<rparr> element)"

section \<open>Removal, iteration, destruction\<close>

fun map_remove_loop ::
  "'c world \<Rightarrow> 'c proven_map \<Rightarrow> proven_map_key \<Rightarrow> nat \<Rightarrow> nat \<Rightarrow> proven_err \<times> 'c proven_map \<times> 'c world" where
  "map_remove_loop w m key 0 idx = (PROVEN_ERR_NOT_FOUND, m, w)"
| "map_remove_loop w m key (Suc n) idx =
    (case ckd_mul idx (bucket_stride m) of
       None \<Rightarrow> (PROVEN_ERR_OVERFLOW, m, w)
     | Some offset \<Rightarrow>
        let hdr = headers m ! idx in
        if hstate hdr = BUCKET_EMPTY then (PROVEN_ERR_NOT_FOUND, m, w)
        else if hstate hdr = BUCKET_OCCUPIED \<and> keys_equal (heap w) (key_type m) (hkey hdr) key
        then (case map_release_owned_key w m hdr of (hdr, w') \<Rightarrow>
                (PROVEN_OK,
                 m\<lparr>headers := (headers m)[idx := hdr\<lparr>hstate := BUCKET_TOMBSTONE\<rparr>], mlen := mlen m - 1\<rparr>,
                 w'))
        else map_remove_loop w m key n (next_bucket m idx))"

definition proven_map_remove ::
  "byte list \<Rightarrow> 'c world \<Rightarrow> 'c proven_map option \<Rightarrow> proven_map_key \<Rightarrow>
    proven_err \<times> 'c proven_map option \<times> 'c world" where
  "proven_map_remove g w mp key =
    (if \<not> proven_map_is_valid mp then (PROVEN_ERR_INVALID_ARG, mp, w)
     else let m = the mp in
     if mcap m = 0 then (PROVEN_ERR_NOT_FOUND, mp, w)
     else if \<not> map_key_is_valid (key_type m) key then (PROVEN_ERR_INVALID_ARG, mp, w)
     else case map_remove_loop w m key (mcap m) (get_hash g (heap w) m key AND (mcap m - 1)) of
       (e, m', w') \<Rightarrow> (e, Some m', w'))"

text \<open>An iterator remembers the table it started on. The map its pointer leads to, \<open>None\<close> when that is
  null, is an argument of the step; the answer is the key and the address of the value.\<close>

record proven_map_iter =
  it_next :: nat
  it_storage :: addr
  it_cap :: nat

definition proven_map_iter_init :: "'c proven_map option \<Rightarrow> proven_map_iter" where
  "proven_map_iter_init mp = (case mp of
     None \<Rightarrow> \<lparr>it_next = 0, it_storage = 0, it_cap = 0\<rparr>
   | Some m \<Rightarrow> \<lparr>it_next = 0, it_storage = ptr (internal m), it_cap = mcap m\<rparr>)"

fun map_iter_loop ::
  "'c proven_map \<Rightarrow> proven_map_iter \<Rightarrow> nat \<Rightarrow> proven_err \<times> proven_map_iter \<times> (proven_map_key \<times> addr) option" where
  "map_iter_loop m it 0 = (PROVEN_ERR_EOF, it, None)"
| "map_iter_loop m it (Suc n) =
    (let i = it_next it; it = it\<lparr>it_next := i + 1\<rparr> in
     case ckd_mul i (bucket_stride m) of
       None \<Rightarrow> (PROVEN_ERR_OVERFLOW, it, None)
     | Some offset \<Rightarrow>
        if hstate (headers m ! i) \<noteq> BUCKET_OCCUPIED then map_iter_loop m it n
        else (PROVEN_OK, it,
              Some (hkey (headers m ! i), ptr (internal m) + offset + payload_offset m)))"

definition proven_map_iter_next ::
  "proven_map_iter option \<Rightarrow> 'c proven_map option \<Rightarrow>
    proven_err \<times> proven_map_iter option \<times> (proven_map_key \<times> addr) option" where
  "proven_map_iter_next it mp =
    (case (it, mp) of
       (Some i, Some m) \<Rightarrow>
         if ptr (internal m) \<noteq> it_storage i \<or> mcap m \<noteq> it_cap i
         then (PROVEN_ERR_INVALID_STATE, it, None)
         else if \<not> proven_map_is_valid mp then (PROVEN_ERR_INVALID_ARG, it, None)
         else (case map_iter_loop m i (mcap m - it_next i) of (e, i', out) \<Rightarrow> (e, Some i', out))
     | _ \<Rightarrow> (PROVEN_ERR_INVALID_ARG, it, None))"

fun map_release_loop :: "'c world \<Rightarrow> 'c proven_map \<Rightarrow> nat \<Rightarrow> nat \<Rightarrow> 'c world" where
  "map_release_loop w m 0 i = w"
| "map_release_loop w m (Suc n) i =
    (case ckd_mul i (bucket_stride m) of
       None \<Rightarrow> w
     | Some offset \<Rightarrow>
        map_release_loop
          (if hstate (headers m ! i) = BUCKET_OCCUPIED
           then snd (map_release_owned_key w m (headers m ! i)) else w) m n (i + 1))"

definition proven_map_destroy ::
  "'c world \<Rightarrow> 'c proven_map option \<Rightarrow> 'c proven_map option \<times> 'c world" where
  "proven_map_destroy w mp = (case mp of
     None \<Rightarrow> (None, w)
   | Some m \<Rightarrow>
      (Some zero_map,
       if ptr (internal m) \<noteq> 0 \<and> proven_alloc_is_valid (malloc m) \<and> free_fn (malloc m) \<noteq> None
       then (let w' = (if key_type m = PROVEN_KEY_TYPE_U8_OWNED then map_release_loop w m (mcap m) 0 else w)
             in free_call (malloc m) w' (ptr (internal m)))
       else w))"

end
