(* ===== verification/Map_Table.thy ===== *)
theory Map_Table
  imports Hash_Map
begin

text \<open>
  What a hash map stands for. The contents of a key are an integer or the bytes it points at; equal
  contents hash alike and compare equal whatever their addresses, so the bucket array of a map is a
  table of \<^verbatim>\<open>Probe\<close> over contents (\<open>map_table\<close>), the loops of the code are its probes, and \<open>map_abs\<close>
  is the finite map from contents to values. Writing a header or a payload updates one slot of it.
\<close>

type_synonym content = "nat + byte list"

definition key_content :: "mem \<Rightarrow> proven_key_type \<Rightarrow> proven_map_key \<Rightarrow> content" where
  "key_content h kt k =
    (if kt = PROVEN_KEY_TYPE_INT then Inl (kid k) else Inr (mem_read h (kptr k) (ksize k)))"

definition content_hash :: "byte list \<Rightarrow> bool \<Rightarrow> content \<Rightarrow> 64 word" where
  "content_hash g trusted c = (case c of
     Inl i \<Rightarrow> if trusted then hash_int (of_nat i) else hash_int_keyed g (of_nat i)
   | Inr bs \<Rightarrow> if trusted then proven_hash_bytes (At bs) else proven_hash_keyed (At bs) g)"

definition map_home :: "byte list \<Rightarrow> bool \<Rightarrow> content \<Rightarrow> nat \<Rightarrow> nat" where
  "map_home g trusted c n = unat (content_hash g trusted c) AND (n - 1)"

definition header_slot :: "proven_map_bucket_header \<Rightarrow> proven_map_key slot" where
  "header_slot hdr = (case hstate hdr of
     BUCKET_EMPTY \<Rightarrow> Free | BUCKET_TOMBSTONE \<Rightarrow> Grave | BUCKET_OCCUPIED \<Rightarrow> Entry (hkey hdr))"

text \<open>The keys of the occupied buckets, in bucket order.\<close>

definition live_keys :: "'c proven_map \<Rightarrow> proven_map_key list" where
  "live_keys m = slot_entries (map header_slot (headers m))"

definition slot_value ::
  "mem \<Rightarrow> 'c proven_map \<Rightarrow> nat \<Rightarrow> proven_map_key slot \<Rightarrow> (content \<times> byte list) slot" where
  "slot_value h m i s = (case s of
     Free \<Rightarrow> Free | Grave \<Rightarrow> Grave
   | Entry k \<Rightarrow> Entry (key_content h (key_type m) k, mem_read h (map_payload m i) (melem_size m)))"

definition map_slot :: "mem \<Rightarrow> 'c proven_map \<Rightarrow> nat \<Rightarrow> (content \<times> byte list) slot" where
  "map_slot h m i = slot_value h m i (header_slot (headers m ! i))"

definition map_table :: "mem \<Rightarrow> 'c proven_map \<Rightarrow> (content, byte list) table" where
  "map_table h m = map (map_slot h m) [0..<length (headers m)]"

definition map_abs :: "mem \<Rightarrow> 'c proven_map \<Rightarrow> content \<rightharpoonup> byte list" where
  "map_abs h m = table_map (map_table h m)"

definition map_shape :: "'c proven_map \<Rightarrow> bool" where
  "map_shape m \<longleftrightarrow> proven_map_is_valid (Some m) \<and> 0 < mcap m \<and> length (headers m) = mcap m \<and>
    (\<forall>k \<in> set (live_keys m). map_key_is_valid (key_type m) k)"

text \<open>The invariant on the contents: the counts are those of the table, and the table is consistent.\<close>

definition map_ok :: "byte list \<Rightarrow> mem \<Rightarrow> 'c proven_map \<Rightarrow> bool" where
  "map_ok g h m \<longleftrightarrow> map_shape m \<and> mlen m = length (slot_entries (map_table h m)) \<and>
    mused m = slots_used (map_table h m) \<and> table_ok (map_home g (trusted_keys m)) (map_table h m)"

section \<open>Powers of two\<close>

lemma and_pred_mod: "proven_is_pow2 c \<Longrightarrow> x AND (c - 1) = x mod c"
proof -
  assume "proven_is_pow2 c"
  then obtain k where "c = 2 ^ k" by (auto simp: proven_is_pow2_iff)
  then show ?thesis
    by (simp only: mask_eq_exp_minus_1 [symmetric] take_bit_eq_mask [symmetric] take_bit_eq_mod)
qed

interpretation tab: home_index "map_home g trusted" for g trusted
  by unfold_locales (simp add: map_home_def and_pred_mod proven_is_pow2_pos del: One_nat_def)

section \<open>The fields\<close>

lemma align_up_ge: "proven_mem_align_up a al \<noteq> 0 \<Longrightarrow> a \<le> proven_mem_align_up a al"
proof -
  assume nz: "proven_mem_align_up a al \<noteq> 0"
  then have p: "proven_is_pow2 al" "a + (al - 1) \<le> SIZE_MAX"
    by (auto simp: proven_mem_align_up_def ckd_add_def Let_def split: if_splits)
  have "a \<le> (a + (al - 1)) div al * al"
    by (rule round_up_bounds(1) [OF proven_is_pow2_pos [OF p(1)]])
  then show ?thesis using align_up_value(1) [OF p] by simp
qed

lemma map_valid_facts:
  assumes "proven_map_is_valid (Some m)" "0 < mcap m"
  shows "proven_is_pow2 (mcap m)" "0 < melem_size m" "ptr (internal m) \<noteq> 0"
    "mcap m * bucket_stride m \<le> SIZE_MAX" "msize (internal m) = mcap m * bucket_stride m"
    "payload_offset m + melem_size m \<le> bucket_stride m" "header_size \<le> payload_offset m"
    "proven_alloc_is_valid (malloc m)" "map_key_type_is_valid (key_type m)"
  using assms align_up_ge [of header_size "bucket_align (malign m)"]
    align_up_ge [of "payload_offset m + melem_size m" "bucket_align (malign m)"]
  by (auto simp: proven_map_is_valid_def Let_def ckd_add_def ckd_mul_def split: if_splits)

lemma shape_facts:
  assumes "map_shape m"
  shows "proven_is_pow2 (mcap m)" "0 < melem_size m" "ptr (internal m) \<noteq> 0" "0 < mcap m"
    "mcap m * bucket_stride m \<le> SIZE_MAX" "msize (internal m) = mcap m * bucket_stride m"
    "payload_offset m + melem_size m \<le> bucket_stride m" "0 < bucket_stride m"
    "proven_alloc_is_valid (malloc m)" "map_key_type_is_valid (key_type m)"
    "length (headers m) = mcap m" "proven_map_is_valid (Some m)"
  using assms map_valid_facts [of m] unfolding map_shape_def by (auto simp: header_size_def)

lemma length_map_table [simp]: "length (map_table h m) = length (headers m)"
  by (simp add: map_table_def)

lemma nth_map_table [simp]: "i < length (headers m) \<Longrightarrow> map_table h m ! i = map_slot h m i"
  by (simp add: map_table_def)

lemma offset_Some:
  "map_shape m \<Longrightarrow> idx < mcap m \<Longrightarrow> ckd_mul idx (bucket_stride m) = Some (idx * bucket_stride m)"
  using slot_bound [of idx "mcap m" "bucket_stride m"] shape_facts(5) [of m] by (simp add: ckd_mul_def)

lemma next_bucket_mod: "map_shape m \<Longrightarrow> next_bucket m idx = (idx + 1) mod length (map_table h m)"
  by (simp add: next_bucket_def and_pred_mod shape_facts del: One_nat_def)

lemma live_key:
  "i < length (headers m) \<Longrightarrow> hstate (headers m ! i) = BUCKET_OCCUPIED \<Longrightarrow> hkey (headers m ! i) \<in> set (live_keys m)"
  unfolding live_keys_def entry_index by (force simp: header_slot_def)

section \<open>Hashes and comparisons depend on the contents only\<close>

lemma hash_content:
  assumes "map_key_is_valid (key_type m) k"
  shows "map_hash64 g h m k = content_hash g (trusted_keys m) (key_content h (key_type m) k)"
  using assms
  by (auto simp: map_hash64_def content_hash_def key_content_def key_view_def map_key_is_valid_def
      proven_hash_bytes_def proven_hash_keyed_def split: if_splits)

lemma home_content:
  "map_key_is_valid (key_type m) k \<Longrightarrow> get_hash g h m k AND (mcap m - 1) =
    map_home g (trusted_keys m) (key_content h (key_type m) k) (mcap m)"
  by (simp add: get_hash_def map_home_def hash_content)

lemma keys_equal_content:
  assumes "map_key_is_valid kt a" "map_key_is_valid kt b"
  shows "keys_equal h kt a b \<longleftrightarrow> key_content h kt a = key_content h kt b"
proof -
  have "mem_read h p n = mem_read h q n' \<Longrightarrow> n = n'" for p q n n'
    by (drule arg_cong [of _ _ length]) simp
  moreover have "mem_read h p n = [] \<longleftrightarrow> n = 0" for p n
    by (metis length_mem_read list.size(3) mem_read_0)
  ultimately show ?thesis using assms
    by (auto simp: keys_equal_def key_content_def proven_u8str_view_eq_def map_key_is_valid_def split: if_splits)
qed

section \<open>The loops are the probes of the table\<close>

lemma find_loop_probe:
  assumes "map_shape m" "map_key_is_valid (key_type m) key" "idx < mcap m"
  shows "map_find_loop h m key n idx =
    (case probe_find (map_table h m) (key_content h (key_type m) key) n idx of
       None \<Rightarrow> 0 | Some i \<Rightarrow> map_payload m i)"
  using assms(3)
proof (induction n arbitrary: idx)
  case 0
  then show ?case by simp
next
  case (Suc n)
  have len: "length (headers m) = mcap m" by (rule shape_facts [OF assms(1)])
  have nx: "next_bucket m idx = step_index (map_table h m) idx 1" "next_bucket m idx < mcap m"
    using next_bucket_mod [OF assms(1)] len Suc.prems by (auto simp del: One_nat_def)
  have valid: "map_key_is_valid (key_type m) (hkey (headers m ! idx))"
    if "hstate (headers m ! idx) = BUCKET_OCCUPIED"
    using live_key [OF _ that] Suc.prems len assms(1) by (auto simp: map_shape_def)
  show ?case
    using Suc.prems Suc.IH [OF nx(2)] nx(1) len offset_Some [OF assms(1) Suc.prems] valid
      keys_equal_content [OF _ assms(2)]
    by (cases "hstate (headers m ! idx)")
      (simp_all add: map_slot_def slot_value_def header_slot_def map_payload_def del: One_nat_def)
qed

lemma insert_probe_place:
  assumes "map_shape m" "map_key_is_valid (key_type m) key" "idx < mcap m"
  shows "map_insert_probe h m key n idx tomb =
    (case probe_place (map_table h m) (key_content h (key_type m) key) n idx tomb of
       Old_entry i \<Rightarrow> At_key i | New_entry i b \<Rightarrow> At_new i b | No_room \<Rightarrow> At_none)"
  using assms(3)
proof (induction n arbitrary: idx tomb)
  case 0
  then show ?case by (simp split: option.splits)
next
  case (Suc n)
  have len: "length (headers m) = mcap m" by (rule shape_facts [OF assms(1)])
  have nx: "next_bucket m idx = step_index (map_table h m) idx 1" "next_bucket m idx < mcap m"
    using next_bucket_mod [OF assms(1)] len Suc.prems by (auto simp del: One_nat_def)
  have valid: "map_key_is_valid (key_type m) (hkey (headers m ! idx))"
    if "hstate (headers m ! idx) = BUCKET_OCCUPIED"
    using live_key [OF _ that] Suc.prems len assms(1) by (auto simp: map_shape_def)
  show ?case
    using Suc.prems Suc.IH [OF nx(2)] nx(1) len offset_Some [OF assms(1) Suc.prems] valid
      keys_equal_content [OF _ assms(2)]
    by (cases "hstate (headers m ! idx)")
      (simp_all add: map_slot_def slot_value_def header_slot_def del: One_nat_def split: option.splits)
qed

lemma remove_loop_probe:
  assumes "map_shape m" "map_key_is_valid (key_type m) key" "idx < mcap m"
  shows "map_remove_loop w m key n idx =
    (case probe_find (map_table (heap w) m) (key_content (heap w) (key_type m) key) n idx of
       None \<Rightarrow> (PROVEN_ERR_NOT_FOUND, m, w)
     | Some i \<Rightarrow>
        (case map_release_owned_key w m (headers m ! i) of (hdr, w') \<Rightarrow>
           (PROVEN_OK,
            m\<lparr>headers := (headers m)[i := hdr\<lparr>hstate := BUCKET_TOMBSTONE\<rparr>], mlen := mlen m - 1\<rparr>, w')))"
  using assms(3)
proof (induction n arbitrary: idx)
  case 0
  then show ?case by simp
next
  case (Suc n)
  have len: "length (headers m) = mcap m" by (rule shape_facts [OF assms(1)])
  have nx: "next_bucket m idx = step_index (map_table (heap w) m) idx 1" "next_bucket m idx < mcap m"
    using next_bucket_mod [OF assms(1)] len Suc.prems by (auto simp del: One_nat_def)
  have valid: "map_key_is_valid (key_type m) (hkey (headers m ! idx))"
    if "hstate (headers m ! idx) = BUCKET_OCCUPIED"
    using live_key [OF _ that] Suc.prems len assms(1) by (auto simp: map_shape_def)
  show ?case
    using Suc.prems Suc.IH [OF nx(2)] nx(1) len offset_Some [OF assms(1) Suc.prems] valid
      keys_equal_content [OF _ assms(2)]
    by (cases "hstate (headers m ! idx)")
      (simp_all add: map_slot_def slot_value_def header_slot_def del: One_nat_def)
qed

section \<open>Updates\<close>

lemma counts_irrelevant [simp]:
  "map_payload (m\<lparr>headers := hs\<rparr>) i = map_payload m i"
  "map_payload (m\<lparr>mlen := a\<rparr>) i = map_payload m i"
  "map_payload (m\<lparr>mused := b\<rparr>) i = map_payload m i"
  "map_table h (m\<lparr>mlen := a\<rparr>) = map_table h m"
  "map_table h (m\<lparr>mused := b\<rparr>) = map_table h m"
  "live_keys (m\<lparr>mlen := a\<rparr>) = live_keys m"
  "live_keys (m\<lparr>mused := b\<rparr>) = live_keys m"
  by (simp_all add: map_payload_def map_table_def map_slot_def [abs_def] slot_value_def live_keys_def
      cong: slot.case_cong)

lemma table_header:
  assumes "i < length (headers m)"
  shows "map_table h (m\<lparr>headers := (headers m)[i := hdr]\<rparr>) =
    (map_table h m)[i := slot_value h m i (header_slot hdr)]"
proof (rule nth_equalityI)
  fix j
  assume "j < length (map_table h (m\<lparr>headers := (headers m)[i := hdr]\<rparr>))"
  then show "map_table h (m\<lparr>headers := (headers m)[i := hdr]\<rparr>) ! j =
      (map_table h m)[i := slot_value h m i (header_slot hdr)] ! j"
    using assms by (cases "j = i") (simp_all add: map_slot_def slot_value_def cong: slot.case_cong)
qed simp

lemma slot_value_cong:
  "(\<And>k. s = Entry k \<Longrightarrow> key_content h' (key_type m) k = key_content h (key_type m) k \<and>
      mem_read h' (map_payload m i) (melem_size m) = mem_read h (map_payload m i) (melem_size m)) \<Longrightarrow>
    slot_value h' m i s = slot_value h m i s"
  by (cases s) (auto simp: slot_value_def)

lemma header_slot_live:
  "i < length (headers m) \<Longrightarrow> header_slot (headers m ! i) = Entry k \<Longrightarrow> k \<in> set (live_keys m)"
  unfolding live_keys_def entry_index by force

lemma table_cong:
  assumes "\<And>k. k \<in> set (live_keys m) \<Longrightarrow> key_content h' (key_type m) k = key_content h (key_type m) k"
    "\<And>i. i < length (headers m) \<Longrightarrow>
      mem_read h' (map_payload m i) (melem_size m) = mem_read h (map_payload m i) (melem_size m)"
  shows "map_table h' m = map_table h m"
proof (rule nth_equalityI)
  fix i
  assume "i < length (map_table h' m)"
  then show "map_table h' m ! i = map_table h m ! i"
    using assms header_slot_live [of i m] by (auto simp: map_slot_def intro!: slot_value_cong)
qed simp

text \<open>The payloads lie in the block, apart from one another.\<close>

lemma payload_in_block:
  assumes "map_shape m" "i < mcap m"
  shows "span (map_payload m i, melem_size m) \<subseteq> span (ptr (internal m), msize (internal m))"
    and "map_payload m i \<noteq> 0"
  using slot_bound [OF assms(2), of "bucket_stride m"] shape_facts(3,6,7) [OF assms(1)]
  by (auto simp: map_payload_def)

lemma payloads_apart:
  assumes "map_shape m" "i \<noteq> j"
  shows "map_payload m i + melem_size m \<le> map_payload m j \<or> map_payload m j + melem_size m \<le> map_payload m i"
  using slot_disjoint [OF assms(2), of "bucket_stride m"] shape_facts(7) [OF assms(1)]
  by (auto simp: map_payload_def)

text \<open>Writing a payload.\<close>

lemma table_payload:
  assumes "map_shape m" "i < mcap m" "length v = melem_size m"
    "\<And>k. k \<in> set (live_keys m) \<Longrightarrow> key_content (mem_write h (map_payload m i) v) (key_type m) k = key_content h (key_type m) k"
  shows "map_table (mem_write h (map_payload m i) v) m =
    (case header_slot (headers m ! i) of
       Entry k \<Rightarrow> (map_table h m)[i := Entry (key_content h (key_type m) k, v)]
     | _ \<Rightarrow> map_table h m)"
proof (rule nth_equalityI)
  let ?h = "mem_write h (map_payload m i) v"
  have len: "length (headers m) = mcap m" by (rule shape_facts [OF assms(1)])
  fix j
  assume "j < length (map_table ?h m)"
  then have j: "j < length (headers m)" by simp
  show "map_table ?h m ! j =
    (case header_slot (headers m ! i) of
       Entry k \<Rightarrow> (map_table h m)[i := Entry (key_content h (key_type m) k, v)]
     | _ \<Rightarrow> map_table h m) ! j"
  proof (cases "j = i")
    case True
    then show ?thesis
      using j assms(3,4) header_slot_live [OF j]
      by (cases "header_slot (headers m ! i)") (auto simp: map_slot_def slot_value_def)
  next
    case False
    have "mem_read ?h (map_payload m j) (melem_size m) = mem_read h (map_payload m j) (melem_size m)"
      using payloads_apart [OF assms(1) False] assms(3) by (intro mem_read_write_disjoint) auto
    then have "map_slot ?h m j = map_slot h m j"
      unfolding map_slot_def using assms(4) header_slot_live [OF j] by (intro slot_value_cong) auto
    then show ?thesis using False j by (cases "header_slot (headers m ! i)") auto
  qed
qed (simp split: slot.split)

text \<open>The invariant after a change of headers and counts.\<close>

lemma valid_counts:
  assumes "proven_map_is_valid (Some m)" "a \<le> b" "b \<le> mcap m"
  shows "proven_map_is_valid (Some (m\<lparr>headers := hs, mlen := a, mused := b\<rparr>))"
  using assms
  by (auto simp: proven_map_is_valid_def Let_def ckd_add_def ckd_mul_def split: if_splits)

lemma map_okI:
  assumes "map_shape m" "length hs = mcap m" "a = length (slot_entries (map_table h (m\<lparr>headers := hs\<rparr>)))"
    "b = slots_used (map_table h (m\<lparr>headers := hs\<rparr>))"
    "table_ok (map_home g (trusted_keys m)) (map_table h (m\<lparr>headers := hs\<rparr>))"
    "\<forall>k \<in> set (live_keys (m\<lparr>headers := hs\<rparr>)). map_key_is_valid (key_type m) k"
  shows "map_ok g h (m\<lparr>headers := hs, mlen := a, mused := b\<rparr>)"
proof -
  have "a \<le> b" using assms(3,4) entries_le_used by metis
  moreover have "b \<le> mcap m"
    using assms(2,4) used_le_length [of "map_table h (m\<lparr>headers := hs\<rparr>)"] by simp
  ultimately have "proven_map_is_valid (Some (m\<lparr>headers := hs, mlen := a, mused := b\<rparr>))"
    by (intro valid_counts) (auto simp: shape_facts [OF assms(1)])
  with assms shape_facts(4) [OF assms(1)] show ?thesis by (simp add: map_ok_def map_shape_def)
qed

end
