(* ===== verification/Map_Laws.thy ===== *)
theory Map_Laws
  imports Map_Table
begin

text \<open>
  The hash map on top of the allocator's contract. \<open>map_wf\<close> is the invariant: the contents are those of
  a consistent table (\<open>map_ok\<close>), the bucket array and every owned key are live blocks of the allocator,
  no two owned keys share one, and the bytes of every string key lie in another live block or in
  memory the allocator does not manage. The lemmas follow one insertion: the payload that is
  written, the bucket that is filled, the key that is copied first.
\<close>

definition map_block :: "'c proven_map \<Rightarrow> addr \<times> nat" where
  "map_block m = (ptr (internal m), msize (internal m))"

definition placed :: "('c world \<Rightarrow> addr set) \<Rightarrow> 'c world \<Rightarrow> (addr \<times> nat) set \<Rightarrow> addr \<Rightarrow> nat \<Rightarrow> bool" where
  "placed managed w B p n \<longleftrightarrow> span (p, n) \<subseteq> spans B \<or> span (p, n) \<inter> managed w = {}"

definition keys_owned :: "proven_key_type \<Rightarrow> (addr \<times> nat) set \<Rightarrow> proven_map_key list \<Rightarrow> bool" where
  "keys_owned kt B ks \<longleftrightarrow> (kt = PROVEN_KEY_TYPE_U8_OWNED \<longrightarrow>
    (\<forall>k \<in> set ks. if ksize k = 0 then kptr k = 0 else (kptr k, ksize k) \<in> B) \<and>
    distinct (map kptr (filter (\<lambda>k. ksize k \<noteq> 0) ks)))"

definition keys_placed ::
  "('c world \<Rightarrow> addr set) \<Rightarrow> 'c world \<Rightarrow> proven_key_type \<Rightarrow> (addr \<times> nat) set \<Rightarrow> proven_map_key list \<Rightarrow> bool" where
  "keys_placed managed w kt B ks \<longleftrightarrow> (kt \<noteq> PROVEN_KEY_TYPE_INT \<longrightarrow>
    (\<forall>k \<in> set ks. placed managed w B (kptr k) (ksize k)))"

definition map_wf ::
  "('c world \<Rightarrow> (addr \<times> nat) set \<Rightarrow> bool) \<Rightarrow> ('c world \<Rightarrow> addr set) \<Rightarrow> 'c proven_allocator \<Rightarrow> byte list \<Rightarrow>
    'c world \<Rightarrow> (addr \<times> nat) set \<Rightarrow> 'c proven_map \<Rightarrow> bool" where
  "map_wf iv managed al g w B m \<longleftrightarrow> iv w B \<and> malloc m = al \<and> map_block m \<in> B \<and>
    keys_owned (key_type m) (B - {map_block m}) (live_keys m) \<and>
    keys_placed managed w (key_type m) (B - {map_block m}) (live_keys m) \<and> map_ok g (heap w) m"

text \<open>A key and an element a caller may pass.\<close>

definition key_arg ::
  "('c world \<Rightarrow> addr set) \<Rightarrow> 'c world \<Rightarrow> (addr \<times> nat) set \<Rightarrow> 'c proven_map \<Rightarrow> proven_map_key \<Rightarrow> bool" where
  "key_arg managed w B m k \<longleftrightarrow> map_key_is_valid (key_type m) k \<and>
    (key_type m \<noteq> PROVEN_KEY_TYPE_INT \<longrightarrow> placed managed w (B - {map_block m}) (kptr k) (ksize k))"

fun elem_arg :: "('c world \<Rightarrow> addr set) \<Rightarrow> 'c world \<Rightarrow> (addr \<times> nat) set \<Rightarrow> elem \<Rightarrow> nat \<Rightarrow> bool" where
  "elem_arg managed w B (Ptr a) n = (a \<noteq> 0 \<and> placed managed w B a n)"
| "elem_arg managed w B (Stack bs) n = (length bs = n)"

text \<open>The live blocks of a map: the bucket array and the owned keys.\<close>

definition key_blocks :: "'c proven_map \<Rightarrow> (addr \<times> nat) set" where
  "key_blocks m = (if key_type m = PROVEN_KEY_TYPE_U8_OWNED
     then {(kptr k, ksize k) | k. k \<in> set (live_keys m) \<and> ksize k \<noteq> 0} else {})"

definition map_blocks :: "'c proven_map \<Rightarrow> (addr \<times> nat) set" where
  "map_blocks m = insert (map_block m) (key_blocks m)"

text \<open>What an operation may do to everything but the map.\<close>

definition keeps :: "('c world \<Rightarrow> addr set) \<Rightarrow> 'c world \<Rightarrow> (addr \<times> nat) set \<Rightarrow> 'c world \<Rightarrow> bool" where
  "keeps managed w C w' \<longleftrightarrow> managed w' = managed w \<and>
    (\<forall>x. x \<in> spans C \<or> x \<notin> managed w \<longrightarrow> heap w' x = heap w x)"

definition map_step ::
  "('c world \<Rightarrow> (addr \<times> nat) set \<Rightarrow> bool) \<Rightarrow> ('c world \<Rightarrow> addr set) \<Rightarrow> 'c proven_allocator \<Rightarrow> byte list \<Rightarrow>
    'c world \<Rightarrow> (addr \<times> nat) set \<Rightarrow> 'c proven_map \<Rightarrow> 'c world \<Rightarrow> 'c proven_map \<Rightarrow> bool" where
  "map_step iv managed al g w B m w' m' \<longleftrightarrow>
    map_wf iv managed al g w' (B - map_blocks m \<union> map_blocks m') m' \<and> keeps managed w (B - map_blocks m) w' \<and>
    map_blocks m' \<inter> (B - map_blocks m) = {} \<and>
    key_type m' = key_type m \<and> trusted_keys m' = trusted_keys m \<and> melem_size m' = melem_size m"

section \<open>Placement\<close>

lemma placed_mono: "placed managed w B p n \<Longrightarrow> B \<subseteq> C \<Longrightarrow> placed managed w C p n"
  unfolding placed_def using spans_mono by blast

lemma placed_read:
  "placed managed w B p n \<Longrightarrow> keeps managed w B w' \<Longrightarrow> mem_read (heap w') p n = mem_read (heap w) p n"
  by (rule mem_read_frame) (auto simp: placed_def keeps_def)

lemma placed_keeps [simp]: "keeps managed w C w' \<Longrightarrow> placed managed w' B p n = placed managed w B p n"
  by (simp add: placed_def keeps_def)

lemma keys_placed_keeps: "keeps managed w C w' \<Longrightarrow> keys_placed managed w' kt B ks = keys_placed managed w kt B ks"
  by (simp add: keys_placed_def)

lemma keeps_refl [simp]: "keeps managed w C w"
  by (simp add: keeps_def)

lemma keeps_trans: "keeps managed w C w' \<Longrightarrow> keeps managed w' C w'' \<Longrightarrow> keeps managed w C w''"
  by (simp add: keeps_def)

lemma keeps_mono: "keeps managed w D w' \<Longrightarrow> C \<subseteq> D \<Longrightarrow> keeps managed w C w'"
  unfolding keeps_def using spans_mono by blast

lemma keys_owned_perm: "mset ks = mset ks' \<Longrightarrow> keys_owned kt B ks \<longleftrightarrow> keys_owned kt B ks'"
proof -
  assume m: "mset ks = mset ks'"
  then have "mset (map kptr (filter (\<lambda>k. ksize k \<noteq> 0) ks)) = mset (map kptr (filter (\<lambda>k. ksize k \<noteq> 0) ks'))"
    by simp
  then have "distinct (map kptr (filter (\<lambda>k. ksize k \<noteq> 0) ks)) \<longleftrightarrow> distinct (map kptr (filter (\<lambda>k. ksize k \<noteq> 0) ks'))"
    by (rule mset_eq_imp_distinct_iff)
  with mset_eq_setD [OF m] show ?thesis by (simp add: keys_owned_def)
qed

lemma keys_placed_set: "set ks = set ks' \<Longrightarrow> keys_placed managed w kt B ks \<longleftrightarrow> keys_placed managed w kt B ks'"
  by (simp add: keys_placed_def)

lemma keys_owned_append: "keys_owned kt B (xs @ ys) \<Longrightarrow> keys_owned kt B xs"
  by (auto simp: keys_owned_def)

lemma keys_owned_mono: "keys_owned kt B ks \<Longrightarrow> B \<subseteq> C \<Longrightarrow> keys_owned kt C ks"
  unfolding keys_owned_def by (metis subsetD)

lemma keys_placed_mono: "keys_placed managed w kt B ks \<Longrightarrow> B \<subseteq> C \<Longrightarrow> keys_placed managed w kt C ks"
  unfolding keys_placed_def using placed_mono by blast

lemma move_elem_write:
  "dst \<noteq> 0 \<Longrightarrow> elem_arg managed w B el n \<Longrightarrow> move_elem h dst el n = mem_write h dst (read_elem h el n)"
  by (cases el) auto

lemma length_read_elem: "elem_arg managed w B el n \<Longrightarrow> length (read_elem h el n) = n"
  by (cases el) auto

lemma elem_read_keeps:
  "elem_arg managed w B el n \<Longrightarrow> keeps managed w B w' \<Longrightarrow> read_elem (heap w') el n = read_elem (heap w) el n"
  by (cases el) (auto intro: placed_read)

lemma map_wf_shape: "map_wf iv managed al g w B m \<Longrightarrow> map_shape m"
  by (simp add: map_wf_def map_ok_def)

lemma header_key_slot:
  "header_slot (hdr\<lparr>hstate := BUCKET_OCCUPIED\<rparr>) = Entry (hkey hdr)"
  "header_slot (hdr\<lparr>hstate := BUCKET_TOMBSTONE\<rparr>) = Grave"
  "header_slot (hdr\<lparr>hstate := BUCKET_EMPTY\<rparr>) = Free"
  by (simp_all add: header_slot_def)

text \<open>The live keys after a header has changed.\<close>

lemma live_keys_fill:
  assumes "i < length (headers m)" "\<forall>k. header_slot (headers m ! i) \<noteq> Entry k" "header_slot hdr = Entry k"
  shows "mset (live_keys (m\<lparr>headers := (headers m)[i := hdr]\<rparr>)) = add_mset k (mset (live_keys m))"
  using mset_entries(1) [of i "map header_slot (headers m)" k] assms
  by (simp add: live_keys_def map_update)

lemma live_keys_bury:
  assumes "i < length (headers m)" "header_slot (headers m ! i) = Entry k" "header_slot hdr = Grave"
  shows "mset (live_keys m) = add_mset k (mset (live_keys (m\<lparr>headers := (headers m)[i := hdr]\<rparr>)))"
  using mset_entries(2) [of i "map header_slot (headers m)" k] assms
  by (simp add: live_keys_def map_update)

lemma live_keys_restore:
  assumes "i < length (headers m)" "\<forall>k. header_slot (headers m ! i) \<noteq> Entry k"
    "header_slot hdr = header_slot (headers m ! i)"
  shows "live_keys (m\<lparr>headers := (headers m)[i := hdr]\<rparr>) = live_keys m"
  using mset_entries(3,4) [of i "map header_slot (headers m)"] assms
  by (cases "header_slot (headers m ! i)") (simp_all add: live_keys_def map_update)

lemma map_block_fields [simp]:
  "map_block (m\<lparr>headers := hs\<rparr>) = map_block m" "map_block (m\<lparr>mlen := a\<rparr>) = map_block m"
  "map_block (m\<lparr>mused := b\<rparr>) = map_block m"
  by (simp_all add: map_block_def)

lemma shape_headers:
  assumes "map_shape m" "length hs = length (headers m)"
    "\<forall>k \<in> set (live_keys (m\<lparr>headers := hs\<rparr>)). map_key_is_valid (key_type m) k"
  shows "map_shape (m\<lparr>headers := hs\<rparr>)"
proof -
  have "mlen m \<le> mused m" "mused m \<le> mcap m"
    using shape_facts(12) [OF assms(1)] by (auto simp: proven_map_is_valid_def split: if_splits)
  then have "proven_map_is_valid (Some (m\<lparr>headers := hs, mlen := mlen m, mused := mused m\<rparr>))"
    by (rule valid_counts [OF shape_facts(12) [OF assms(1)]])
  with assms show ?thesis by (simp add: map_shape_def)
qed

context allocator_laws
begin

abbreviation wf :: "byte list \<Rightarrow> 'c world \<Rightarrow> (addr \<times> nat) set \<Rightarrow> 'c proven_map \<Rightarrow> bool" where
  "wf \<equiv> map_wf inv managed al"

lemma placed_apart:
  assumes "inv w B" "b \<in> B" "placed managed w (B - {b}) p n"
  shows "span (p, n) \<inter> span b = {}"
proof -
  have "span b \<inter> span c = {}" if "c \<in> B - {b}" for c
    using inv_disjoint [OF assms(1,2), of c] that by blast
  moreover have "span b \<subseteq> managed w" using inv_block [OF assms(1), of "fst b" "snd b"] assms(2) by simp
  ultimately show ?thesis using assms(3) unfolding placed_def spans_def by blast
qed

lemma write_in_block:
  assumes "inv w B" "b \<in> B" "span (q, length v) \<subseteq> span b"
  shows "keeps managed w (B - {b}) (w\<lparr>heap := mem_write (heap w) q v\<rparr>)"
  unfolding keeps_def
proof (intro conjI allI impI)
  show "managed (w\<lparr>heap := mem_write (heap w) q v\<rparr>) = managed w" by (rule managed_heap)
  fix x
  assume "x \<in> spans (B - {b}) \<or> x \<notin> managed w"
  then have "placed managed w (B - {b}) x 1" by (auto simp: placed_def span_def)
  moreover have "x \<in> span (x, 1)" by simp
  ultimately have "x \<notin> span b" using placed_apart [OF assms(1,2)] by blast
  with assms(3) have "x \<notin> span (q, length v)" by blast
  then show "heap (w\<lparr>heap := mem_write (heap w) q v\<rparr>) x = heap w x" by (simp add: mem_write_out)
qed

lemma key_content_keeps:
  "kt = PROVEN_KEY_TYPE_INT \<or> placed managed w C (kptr k) (ksize k) \<Longrightarrow> keeps managed w C w' \<Longrightarrow>
    key_content (heap w') kt k = key_content (heap w) kt k"
  unfolding key_content_def using placed_read by auto

lemma live_content_keeps:
  assumes "wf g w B m" "keeps managed w (B - {map_block m}) w'" "k \<in> set (live_keys m)"
  shows "key_content (heap w') (key_type m) k = key_content (heap w) (key_type m) k"
  using assms by (intro key_content_keeps [OF _ assms(2)]) (auto simp: map_wf_def keys_placed_def)

text \<open>The table is that of before when the block and the bytes of the keys are.\<close>

lemma table_keeps_in:
  assumes "map_shape m" "map_block m \<in> C" "keys_placed managed w (key_type m) C (live_keys m)"
    "keeps managed w C w'"
  shows "map_table (heap w') m = map_table (heap w) m"
proof (rule table_cong)
  fix k
  assume "k \<in> set (live_keys m)"
  then show "key_content (heap w') (key_type m) k = key_content (heap w) (key_type m) k"
    using assms(3) by (intro key_content_keeps [OF _ assms(4)]) (auto simp: keys_placed_def)
next
  fix i
  assume "i < length (headers m)"
  then have "span (map_payload m i, melem_size m) \<subseteq> span (map_block m)"
    using payload_in_block(1) [OF assms(1)] shape_facts(11) [OF assms(1)] by (simp add: map_block_def)
  also have "\<dots> \<subseteq> spans C" by (rule span_subset_spans [OF assms(2)])
  finally show "mem_read (heap w') (map_payload m i) (melem_size m) = mem_read (heap w) (map_payload m i) (melem_size m)"
    using assms(4) by (intro placed_read) (auto simp: placed_def)
qed

lemma table_keeps:
  assumes "wf g w B m" "keeps managed w B w'"
  shows "map_table (heap w') m = map_table (heap w) m"
  using assms keys_placed_mono [of managed w "key_type m" "B - {map_block m}" "live_keys m" B]
  by (intro table_keeps_in [OF map_wf_shape [OF assms(1)] _ _ assms(2)]) (auto simp: map_wf_def)

lemma wf_keeps:
  assumes "wf g w B m" "keeps managed w B w'" "inv w' C" "B \<subseteq> C"
  shows "wf g w' C m"
proof -
  have s: "B - {map_block m} \<subseteq> C - {map_block m}" using assms(4) by blast
  show ?thesis
    using assms(1,3,4) table_keeps [OF assms(1,2)] keys_owned_mono [OF _ s] keys_placed_mono [OF _ s]
    unfolding map_wf_def map_ok_def keys_placed_keeps [OF assms(2)] by auto
qed

section \<open>Writing a payload\<close>

lemma payload_write:
  assumes "wf g w B m" "i < mcap m" "length v = melem_size m"
  defines "w' \<equiv> w\<lparr>heap := mem_write (heap w) (map_payload m i) v\<rparr>"
  shows "inv w' B" "keeps managed w (B - {map_block m}) w'"
    "map_table (heap w') m =
      (case header_slot (headers m ! i) of
         Entry k \<Rightarrow> (map_table (heap w) m)[i := Entry (key_content (heap w) (key_type m) k, v)]
       | _ \<Rightarrow> map_table (heap w) m)"
proof -
  note sh = map_wf_shape [OF assms(1)]
  have w: "inv w B" "map_block m \<in> B" using assms(1) by (auto simp: map_wf_def)
  have sub: "span (map_payload m i, length v) \<subseteq> span (map_block m)"
    using payload_in_block(1) [OF sh assms(2)] assms(3) by (simp add: map_block_def)
  show k: "keeps managed w (B - {map_block m}) w'"
    unfolding w'_def by (rule write_in_block [OF w sub])
  show "inv w' B"
    unfolding w'_def using sub span_subset_spans [OF w(2)] by (intro inv_write [OF w(1)]) blast
  show "map_table (heap w') m =
      (case header_slot (headers m ! i) of
         Entry k \<Rightarrow> (map_table (heap w) m)[i := Entry (key_content (heap w) (key_type m) k, v)]
       | _ \<Rightarrow> map_table (heap w) m)"
    using table_payload [OF sh assms(2,3), of "heap w"] live_content_keeps [OF assms(1) k]
    by (simp add: w'_def)
qed

text \<open>Overwriting the value of a key.\<close>

lemma overwrite:
  assumes "wf g w B m" "i < mcap m" "map_table (heap w) m ! i = Entry (c, u)" "length v = melem_size m"
  defines "w' \<equiv> w\<lparr>heap := mem_write (heap w) (map_payload m i) v\<rparr>"
  shows "wf g w' B m" "keeps managed w (B - {map_block m}) w'"
    "map_abs (heap w') m = (map_abs (heap w) m)(c \<mapsto> v)"
proof -
  note p = payload_write [OF assms(1,2,4), folded w'_def]
  note sh = map_wf_shape [OF assms(1)]
  have len: "i < length (headers m)" using assms(2) shape_facts(11) [OF sh] by simp
  then obtain k where k: "header_slot (headers m ! i) = Entry k" "c = key_content (heap w) (key_type m) k"
    using assms(3) by (auto simp: map_slot_def slot_value_def split: slot.splits)
  have t: "map_table (heap w') m = (map_table (heap w) m)[i := Entry (c, v)]" using p(3) k by simp
  have ok: "table_ok (map_home g (trusted_keys m)) (map_table (heap w) m)"
    using assms(1) by (simp add: map_wf_def map_ok_def)
  have l: "i < length (map_table (heap w) m)" using len by simp
  show "keeps managed w (B - {map_block m}) w'" by (rule p(2))
  show "map_abs (heap w') m = (map_abs (heap w) m)(c \<mapsto> v)"
    unfolding map_abs_def t by (rule table_map_set [OF tab.table_ok_distinct [OF ok] l assms(3)])
  have e: "length (slot_entries ((map_table (heap w) m)[i := Entry (c, v)])) = length (slot_entries (map_table (heap w) m))"
    using arg_cong [OF update_old(1) [OF l assms(3), of v], of length] by simp
  have "map_ok g (heap w') m"
    using assms(1) tab.table_ok_set [OF ok l assms(3)] e update_old(2) [OF l assms(3), of v]
    unfolding map_wf_def map_ok_def t by simp
  then show "wf g w' B m"
    using assms(1) p(1) keys_placed_keeps [OF p(2)] by (simp add: map_wf_def)
qed

section \<open>Filling a bucket\<close>

lemma fill_table:
  assumes wf: "wf g w B m" and i: "i < mcap m"
    and slot: "header_slot (headers m ! i) = Free \<or> header_slot (headers m ! i) = Grave"
    and key: "key_arg managed w B m key" and v: "length v = melem_size m"
    and hdr: "header_slot hdr = Entry key"
  defines "w' \<equiv> w\<lparr>heap := mem_write (heap w) (map_payload m i) v\<rparr>"
  defines "m' \<equiv> m\<lparr>headers := (headers m)[i := hdr]\<rparr>"
  shows "inv w' B" "keeps managed w (B - {map_block m}) w'" "map_shape m'"
    "map_table (heap w') m' =
      (map_table (heap w) m)[i := Entry (key_content (heap w) (key_type m) key, v)]"
    "mset (live_keys m') = add_mset key (mset (live_keys m))"
proof -
  note sh = map_wf_shape [OF wf]
  note p = payload_write [OF wf i v, folded w'_def]
  show "inv w' B" "keeps managed w (B - {map_block m}) w'" by (rule p)+
  have len: "i < length (headers m)" using i shape_facts(11) [OF sh] by simp
  have ne: "\<forall>k. header_slot (headers m ! i) \<noteq> Entry k" using slot by auto
  show lk: "mset (live_keys m') = add_mset key (mset (live_keys m))"
    unfolding m'_def by (rule live_keys_fill [OF len ne hdr])
  then have set: "set (live_keys m') = insert key (set (live_keys m))"
    by (metis set_mset_add_mset_insert set_mset_mset)
  show sh': "map_shape m'"
    using set key sh unfolding m'_def
    by (intro shape_headers) (auto simp: key_arg_def map_shape_def)
  have c: "key_content (heap w') (key_type m) k = key_content (heap w) (key_type m) k"
    if "k \<in> set (live_keys m')" for k
    using that set live_content_keeps [OF wf p(2)] key key_content_keeps [OF _ p(2), of "key_type m" key]
    by (auto simp: key_arg_def)
  have "map_table (heap w') m' = (case header_slot (headers m' ! i) of
       Entry k \<Rightarrow> (map_table (heap w) m')[i := Entry (key_content (heap w) (key_type m') k, v)]
     | _ \<Rightarrow> map_table (heap w) m')"
    using table_payload [OF sh', of i v "heap w"] i v c by (simp add: w'_def m'_def)
  also have "\<dots> = (map_table (heap w) m)[i := Entry (key_content (heap w) (key_type m) key, v)]"
    using len hdr table_header [OF len, of "heap w" hdr] by (simp add: m'_def)
  finally show "map_table (heap w') m' =
      (map_table (heap w) m)[i := Entry (key_content (heap w) (key_type m) key, v)]" .
qed

lemma fill_bucket:
  assumes wf: "wf g w B m" and i: "i < mcap m"
    and slot: "map_table (heap w) m ! i = (if reused then Grave else Free)"
    and new: "map_abs (heap w) m (key_content (heap w) (key_type m) key) = None"
    and ok: "\<And>v. table_ok (map_home g (trusted_keys m))
        ((map_table (heap w) m)[i := Entry (key_content (heap w) (key_type m) key, v)])"
    and key: "key_arg managed w B m key"
    and own: "keys_owned (key_type m) (B - {map_block m}) (key # live_keys m)"
    and el: "elem_arg managed w B el (melem_size m)"
    and run: "map_fill_bucket w m i reused key el False = (e, m', w')"
  shows "e = PROVEN_OK" "wf g w' B m'" "keeps managed w (B - {map_block m}) w'" "map_block m' = map_block m"
    "map_abs (heap w') m' =
      (map_abs (heap w) m)(key_content (heap w) (key_type m) key \<mapsto> read_elem (heap w) el (melem_size m))"
    "mset (live_keys m') = add_mset key (mset (live_keys m))"
    "map_table (heap w') m' = (map_table (heap w) m)[i :=
      Entry (key_content (heap w) (key_type m) key, read_elem (heap w) el (melem_size m))]"
    "m' = m\<lparr>headers := headers m', mlen := Suc (mlen m), mused := (if reused then mused m else Suc (mused m))\<rparr>"
proof -
  let ?c = "key_content (heap w) (key_type m) key"
  let ?v = "read_elem (heap w) el (melem_size m)"
  let ?t = "map_table (heap w) m"
  define hdr where "hdr = (headers m ! i)\<lparr>hstate := BUCKET_OCCUPIED, hkey := key\<rparr>"
  define m1 where "m1 = m\<lparr>headers := (headers m)[i := hdr]\<rparr>"
  note sh = map_wf_shape [OF wf]
  have wf1: "malloc m = al" "map_block m \<in> B" "map_ok g (heap w) m" using wf by (auto simp: map_wf_def)
  have cnt: "mlen m = length (slot_entries ?t)" "mused m = slots_used ?t" and len: "length (headers m) = mcap m"
    using wf1(3) by (auto simp: map_ok_def shape_facts)
  have lt: "i < length ?t" using i len by simp
  have ne: "\<forall>e. ?t ! i \<noteq> Entry e" using slot by (simp split: if_splits)
  have fs: "header_slot (headers m ! i) = Free \<or> header_slot (headers m ! i) = Grave"
    using slot i len by (auto simp: map_slot_def slot_value_def split: slot.splits if_splits)
  have dst: "map_payload m i \<noteq> 0" by (rule payload_in_block(2) [OF sh i])
  have hdr1: "header_slot hdr = Entry key" by (simp add: hdr_def header_slot_def)
  note f = fill_table [OF wf i fs key length_read_elem [OF el, of "heap w"] hdr1, folded m1_def]
  let ?a = "wrap (mlen m + 1)" and ?b = "if reused then mused m else wrap (mused m + 1)"
  have r: "e = PROVEN_OK" "m' = m1\<lparr>mlen := ?a, mused := ?b\<rparr>"
    "w' = w\<lparr>heap := mem_write (heap w) (map_payload m i) ?v\<rparr>"
    using run dst by (auto simp: map_fill_bucket_def map_store_key_def Let_def hdr_def m1_def move_elem_write [OF _ el])
  note t = f(4) [folded r(3)]
  have n: "length (slot_entries (map_table (heap w') m1)) = Suc (mlen m)"
    "slots_used (map_table (heap w') m1) = (if reused then mused m else Suc (mused m))"
    unfolding t cnt using update_new [OF lt ne, of "(?c, ?v)"] slot by auto
  have "slots_used (map_table (heap w') m1) \<le> mcap m" "length (slot_entries (map_table (heap w') m1)) \<le> mcap m"
    using used_le_length [of "map_table (heap w') m1"] entries_le_used [of "map_table (heap w') m1"] len
    by (auto simp: m1_def)
  moreover have "mcap m \<le> SIZE_MAX"
  proof -
    have "mcap m * 1 \<le> mcap m * bucket_stride m"
      using shape_facts(8) [OF sh] by (intro mult_le_mono2) simp
    then show ?thesis using shape_facts(5) [OF sh] by linarith
  qed
  ultimately have ab: "?a = Suc (mlen m)" "?b = (if reused then mused m else Suc (mused m))"
    using n by (auto simp del: One_nat_def)
  show "e = PROVEN_OK" by (rule r)
  show k: "keeps managed w (B - {map_block m}) w'" using f(2) r(3) by simp
  show blk: "map_block m' = map_block m" by (simp add: r(2) m1_def)
  have tm: "map_table (heap w') m' = map_table (heap w') m1" by (simp add: r(2))
  show "map_table (heap w') m' = ?t[i := Entry (?c, ?v)]" by (simp only: tm t)
  show "map_abs (heap w') m' = (map_abs (heap w) m)(?c \<mapsto> ?v)"
    unfolding map_abs_def tm t
    using new wf1(3) unfolding map_abs_def map_ok_def
    by (intro table_map_new [OF tab.table_ok_distinct lt ne]) auto
  show lk: "mset (live_keys m') = add_mset key (mset (live_keys m))" using f(5) by (simp add: r(2))
  show "m' = m\<lparr>headers := headers m', mlen := Suc (mlen m), mused := (if reused then mused m else Suc (mused m))\<rparr>"
    unfolding r(2) ab by (simp add: m1_def)
  have ok': "map_ok g (heap w') m'"
    unfolding r(2) m1_def
    by (rule map_okI [OF sh])
      (use len n ab t ok f(3) in \<open>auto simp: m1_def map_shape_def\<close>)
  have owned: "keys_owned (key_type m) (B - {map_block m}) (live_keys m')"
    using keys_owned_perm [of "live_keys m'" "key # live_keys m"] lk own by simp
  have set: "set (live_keys m') = set (key # live_keys m)"
    using lk by (metis mset.simps(2) mset_eq_setD)
  have plac: "keys_placed managed w (key_type m) (B - {map_block m}) (live_keys m')"
    unfolding keys_placed_set [OF set] using key wf by (auto simp: keys_placed_def key_arg_def map_wf_def)
  show "wf g w' B m'"
    unfolding map_wf_def blk
    using ok' owned plac f(1) wf1 keys_placed_keeps [OF k] by (simp add: r m1_def)
qed

section \<open>Copying the key\<close>

lemma key_blocks_cong: "key_type m' = key_type m \<Longrightarrow> set (live_keys m') = set (live_keys m) \<Longrightarrow> key_blocks m' = key_blocks m"
  by (simp add: key_blocks_def)

lemma map_blocks_live:
  assumes "wf g w B m"
  shows "map_blocks m \<subseteq> B" "map_block m \<notin> key_blocks m"
proof -
  have "(kptr k, ksize k) \<in> B - {map_block m}"
    if "key_type m = PROVEN_KEY_TYPE_U8_OWNED" "k \<in> set (live_keys m)" "ksize k \<noteq> 0" for k
  proof -
    have "\<forall>k \<in> set (live_keys m). if ksize k = 0 then kptr k = 0 else (kptr k, ksize k) \<in> B - {map_block m}"
      using assms that(1) unfolding map_wf_def keys_owned_def by blast
    from bspec [OF this that(2)] that(3) show ?thesis by presburger
  qed
  then have "key_blocks m \<subseteq> B - {map_block m}" unfolding key_blocks_def by auto
  then show "map_blocks m \<subseteq> B" "map_block m \<notin> key_blocks m"
    using assms unfolding map_blocks_def map_wf_def by blast+
qed

lemma copy_key:
  assumes wf: "wf g w B m" and key: "key_arg managed w B m key"
    and kt: "key_type m = PROVEN_KEY_TYPE_U8_OWNED" and nz: "ksize key \<noteq> 0"
    and run: "alloc_call al w (ksize key) 1 = (r, w1)" and ok: "rerr r = PROVEN_OK"
  defines "p \<equiv> ptr (rval r)"
  defines "w2 \<equiv> w1\<lparr>heap := proven_sys_mem_copy (heap w1) p (kptr key) (ksize key)\<rparr>"
  defines "B2 \<equiv> insert (p, ksize key) B"
  shows "inv w2 B2" "keeps managed w B w2" "wf g w2 B2 m" "(p, ksize key) \<notin> B"
    "key_arg managed w2 B2 m (key\<lparr>kptr := p\<rparr>)"
    "key_content (heap w2) (key_type m) (key\<lparr>kptr := p\<rparr>) = key_content (heap w) (key_type m) key"
    "keys_owned (key_type m) (B2 - {map_block m}) (key\<lparr>kptr := p\<rparr> # live_keys m)"
proof -
  have w: "inv w B" "map_block m \<in> B" using wf by (auto simp: map_wf_def)
  note a = alloc_ok [OF w(1) run ok, folded p_def]
  note fr = alloc_fresh [OF w(1) run ok, folded p_def]
  have k1: "keeps managed w B w1"
    using a alloc_frame [OF w(1) run] by (simp add: keeps_def)
  have kp: "kptr key \<noteq> 0" and pl: "placed managed w B (kptr key) (ksize key)"
    using key kt nz placed_mono [of managed w "B - {map_block m}" _ _ B]
    by (auto simp: key_arg_def map_key_is_valid_def split: if_splits)
  let ?bs = "mem_read (heap w) (kptr key) (ksize key)"
  have w2: "w2 = w1\<lparr>heap := mem_write (heap w1) p ?bs\<rparr>"
    using a kp placed_read [OF pl k1] by (simp add: w2_def)
  show nB: "(p, ksize key) \<notin> B" using a by blast
  have sub: "span (p, length ?bs) \<subseteq> span (p, ksize key)" by simp
  have inv1: "inv w1 B2" using a by (simp add: B2_def)
  have k2: "keeps managed w1 (B2 - {(p, ksize key)}) w2"
    unfolding w2 by (rule write_in_block [OF inv1 _ sub]) (simp add: B2_def)
  show k: "keeps managed w B w2"
    using keeps_trans [OF k1 keeps_mono [OF k2, of B]] nB by (auto simp: B2_def)
  have "span (p, length ?bs) \<subseteq> spans B2" by (simp add: B2_def)
  then show inv2: "inv w2 B2" unfolding w2 by (intro inv_write [OF inv1]) blast
  show "wf g w2 B2 m" by (rule wf_keeps [OF wf k inv2]) (auto simp: B2_def)
  have "(p, ksize key) \<in> B2 - {map_block m}" using nB w(2) by (auto simp: B2_def)
  from span_subset_spans [OF this] show "key_arg managed w2 B2 m (key\<lparr>kptr := p\<rparr>)"
    using kt a by (simp add: key_arg_def map_key_is_valid_def placed_def)
  show "key_content (heap w2) (key_type m) (key\<lparr>kptr := p\<rparr>) = key_content (heap w) (key_type m) key"
    using kt by (simp add: key_content_def w2)
  have live: "keys_owned (key_type m) (B - {map_block m}) (live_keys m)" using wf by (simp add: map_wf_def)
  have "p \<noteq> kptr k" if "k \<in> set (live_keys m)" "ksize k \<noteq> 0" for k
  proof
    assume "p = kptr k"
    then have "(p, ksize k) \<in> B" using live that kt by (auto simp: keys_owned_def)
    moreover from this have "ksize k = ksize key"
      using block_start [OF inv1, of p "ksize k" "ksize key"] by (simp add: B2_def)
    ultimately show False using nB by simp
  qed
  then show "keys_owned (key_type m) (B2 - {map_block m}) (key\<lparr>kptr := p\<rparr> # live_keys m)"
    using live nz \<open>(p, ksize key) \<in> B2 - {map_block m}\<close> by (auto simp: keys_owned_def B2_def split: if_splits)
qed

end

end
