(* ===== verification/Map_Ops.thy ===== *)
theory Map_Ops
  imports Map_Laws
begin

text \<open>
  The operations of the hash map against the finite map they stand for: insertion without growth,
  rehashing, \<^verbatim>\<open>reserve\<close>, \<^verbatim>\<open>set\<close>, \<^verbatim>\<open>get\<close>, \<^verbatim>\<open>remove\<close> and \<^verbatim>\<open>destroy\<close>, for any allocator that keeps the
  contract. \<open>map_step\<close> says what an operation does to the rest of the world: nothing, apart from
  the blocks the map owns before and after.
\<close>

section \<open>Steps\<close>

lemma map_step_trans:
  assumes s: "map_step iv managed al g w B m w1 m1"
    and t: "map_step iv managed al g w1 (B - map_blocks m \<union> map_blocks m1) m1 w2 m2"
  shows "map_step iv managed al g w B m w2 m2"
proof -
  let ?B1 = "B - map_blocks m \<union> map_blocks m1"
  have "map_blocks m1 \<inter> (B - map_blocks m) = {}" using s by (simp add: map_step_def)
  then have b: "?B1 - map_blocks m1 = B - map_blocks m" by blast
  show ?thesis
    using s t keeps_trans [of managed w "B - map_blocks m" w1 w2] unfolding map_step_def b by auto
qed

context allocator_laws
begin

abbreviation step where "step \<equiv> map_step inv managed al"

lemma step_same:
  assumes "wf g w B m" "wf g w' B m'" "map_blocks m' = map_blocks m"
    "keeps managed w (B - map_blocks m) w'"
    "key_type m' = key_type m" "trusted_keys m' = trusted_keys m" "melem_size m' = melem_size m"
  shows "step g w B m w' m'"
proof -
  have "B - map_blocks m \<union> map_blocks m = B" using map_blocks_live(1) [OF assms(1)] by blast
  with assms show ?thesis by (auto simp: map_step_def)
qed

lemma step_refl: "wf g w B m \<Longrightarrow> step g w B m w m"
  by (rule step_same) simp_all

lemma step_wf: "step g w B m w' m' \<Longrightarrow> wf g w' (B - map_blocks m \<union> map_blocks m') m'"
  by (simp add: map_step_def)

section \<open>Filling a bucket with a key of the caller\<close>

lemma key_blocks_fill:
  assumes "key_type m' = key_type m" "mset (live_keys m') = add_mset key (mset (live_keys m))"
  shows "key_blocks m' = key_blocks m \<union>
    (if key_type m = PROVEN_KEY_TYPE_U8_OWNED \<and> ksize key \<noteq> 0 then {(kptr key, ksize key)} else {})"
proof -
  have "set (live_keys m') = insert key (set (live_keys m))"
    using assms(2) by (metis set_mset_add_mset_insert set_mset_mset)
  then show ?thesis unfolding key_blocks_def assms(1) by auto
qed

text \<open>A key whose bytes need no copy.\<close>

lemma fill_plain:
  assumes "wf g w B m" "i < mcap m" "map_table (heap w) m ! i = (if reused then Grave else Free)"
    "map_abs (heap w) m (key_content (heap w) (key_type m) key) = None"
    "\<And>v. table_ok (map_home g (trusted_keys m))
        ((map_table (heap w) m)[i := Entry (key_content (heap w) (key_type m) key, v)])"
    "key_arg managed w B m key" "elem_arg managed w B el (melem_size m)"
    and k: "key_type m = PROVEN_KEY_TYPE_U8_OWNED \<longrightarrow> ksize key = 0 \<and> kptr key = 0"
    and run: "map_fill_bucket w m i reused key el False = (e, m', w')"
  shows "e = PROVEN_OK" "step g w B m w' m'"
    "map_abs (heap w') m' =
      (map_abs (heap w) m)(key_content (heap w) (key_type m) key \<mapsto> read_elem (heap w) el (melem_size m))"
    "set (live_keys m') = insert key (set (live_keys m))"
proof -
  have own: "keys_owned (key_type m) (B - {map_block m}) (key # live_keys m)"
    using assms(1) k by (auto simp: map_wf_def keys_owned_def)
  note f = fill_bucket [OF assms(1-6) own assms(7) run]
  show "e = PROVEN_OK" "map_abs (heap w') m' =
      (map_abs (heap w) m)(key_content (heap w) (key_type m) key \<mapsto> read_elem (heap w) el (melem_size m))"
    by (rule f)+
  show "set (live_keys m') = insert key (set (live_keys m))"
    using f(6) by (metis set_mset_add_mset_insert set_mset_mset)
  have t: "key_type m' = key_type m" "trusted_keys m' = trusted_keys m" "melem_size m' = melem_size m"
    using arg_cong [OF f(8), of key_type] arg_cong [OF f(8), of trusted_keys]
      arg_cong [OF f(8), of melem_size] by simp_all
  have "map_blocks m' = map_blocks m"
    using key_blocks_fill [OF t(1) f(6)] k f(4) by (auto simp: map_blocks_def)
  moreover have "keeps managed w (B - map_blocks m) w'"
    by (rule keeps_mono [OF f(3)]) (auto simp: map_blocks_def)
  ultimately show "step g w B m w' m'"
    using t by (intro step_same [OF assms(1) f(2)])
qed

text \<open>A key that is copied into a block of its own.\<close>

lemma fill_copied:
  assumes wf: "wf g w B m" and i: "i < mcap m"
    and slot: "map_table (heap w) m ! i = (if reused then Grave else Free)"
    and new: "map_abs (heap w) m (key_content (heap w) (key_type m) key) = None"
    and ok: "\<And>v. table_ok (map_home g (trusted_keys m))
        ((map_table (heap w) m)[i := Entry (key_content (heap w) (key_type m) key, v)])"
    and key: "key_arg managed w B m key" and el: "elem_arg managed w B el (melem_size m)"
    and kt: "key_type m = PROVEN_KEY_TYPE_U8_OWNED" and nz: "ksize key \<noteq> 0"
    and al: "alloc_call al w (ksize key) 1 = (r, w1)" and r: "rerr r = PROVEN_OK"
    and run: "map_fill_bucket w m i reused key el True = (e, m', w')"
  shows "e = PROVEN_OK" "step g w B m w' m'"
    "map_abs (heap w') m' =
      (map_abs (heap w) m)(key_content (heap w) (key_type m) key \<mapsto> read_elem (heap w) el (melem_size m))"
proof -
  let ?p = "ptr (rval r)"
  let ?key = "key\<lparr>kptr := ?p\<rparr>"
  define w2 where "w2 = w1\<lparr>heap := proven_sys_mem_copy (heap w1) ?p (kptr key) (ksize key)\<rparr>"
  define B2 where "B2 = insert (?p, ksize key) B"
  note c = copy_key [OF wf key kt nz al r, folded w2_def B2_def]
  have mal: "malloc m = al" using wf by (simp add: map_wf_def)
  have run2: "map_fill_bucket w2 m i reused ?key el False = (e, m', w')"
    using run al r kt nz by (simp add: map_fill_bucket_def map_store_key_def mal Let_def w2_def)
  note t = table_keeps [OF wf c(2)]
  have slot2: "map_table (heap w2) m ! i = (if reused then Grave else Free)" using slot t by simp
  have new2: "map_abs (heap w2) m (key_content (heap w2) (key_type m) ?key) = None"
    using new t c(6) by (simp add: map_abs_def)
  have ok2: "table_ok (map_home g (trusted_keys m))
      ((map_table (heap w2) m)[i := Entry (key_content (heap w2) (key_type m) ?key, v)])" for v
    using ok t c(6) by simp
  have el2: "elem_arg managed w2 B2 el (melem_size m)"
    using el c(2) placed_mono [of managed w B _ _ B2] by (cases el) (auto simp: B2_def)
  note f = fill_bucket [OF c(3) i slot2 new2 ok2 c(5) c(7) el2 run2]
  show "e = PROVEN_OK" by (rule f)
  show "map_abs (heap w') m' =
      (map_abs (heap w) m)(key_content (heap w) (key_type m) key \<mapsto> read_elem (heap w) el (melem_size m))"
    using f(5) c(6) elem_read_keeps [OF el c(2)] t by (simp add: map_abs_def)
  have ty: "key_type m' = key_type m" "trusted_keys m' = trusted_keys m" "melem_size m' = melem_size m"
    using arg_cong [OF f(8), of key_type] arg_cong [OF f(8), of trusted_keys]
      arg_cong [OF f(8), of melem_size] by simp_all
  have bl: "map_blocks m' = insert (?p, ksize key) (map_blocks m)"
    using key_blocks_fill [OF ty(1) f(6)] kt nz f(4) by (auto simp: map_blocks_def)
  have "B - map_blocks m \<union> map_blocks m' = B2"
    using bl map_blocks_live(1) [OF wf] c(4) by (auto simp: B2_def)
  moreover have "map_blocks m' \<inter> (B - map_blocks m) = {}" using bl c(4) by auto
  moreover have "keeps managed w (B - map_blocks m) w'"
    using keeps_trans [OF keeps_mono [OF c(2)] keeps_mono [OF f(3), of "B - map_blocks m"]]
    by (auto simp: B2_def map_blocks_def)
  ultimately show "step g w B m w' m'" using f(2) ty by (simp add: map_step_def)
qed

text \<open>A key whose copy cannot be allocated leaves everything as it was.\<close>

lemma fill_failed:
  assumes wf: "wf g w B m" and i: "i < mcap m"
    and slot: "map_table (heap w) m ! i = (if reused then Grave else Free)"
    and kt: "key_type m = PROVEN_KEY_TYPE_U8_OWNED" and nz: "ksize key \<noteq> 0"
    and al: "alloc_call al w (ksize key) 1 = (r, w1)" and r: "rerr r \<noteq> PROVEN_OK"
    and run: "map_fill_bucket w m i reused key el True = (e, m', w')"
  shows "e = rerr r" "step g w B m w' m'" "map_abs (heap w') m' = map_abs (heap w) m"
    "map_blocks m' = map_blocks m" "mlen m' = mlen m"
proof -
  note sh = map_wf_shape [OF wf]
  have mal: "malloc m = al" "inv w B" using wf by (auto simp: map_wf_def)
  obtain hdr where m': "m' = m\<lparr>headers := (headers m)[i := hdr]\<rparr>" "w' = w1" "e = rerr r"
    and h: "header_slot hdr = (if reused then Grave else Free)"
    using run al r kt nz
    by (auto simp: map_fill_bucket_def map_store_key_def mal Let_def header_slot_def)
  have len: "length (headers m) = mcap m" by (rule shape_facts [OF sh])
  have fs: "header_slot (headers m ! i) = (if reused then Grave else Free)"
    using slot i len by (auto simp: map_slot_def slot_value_def split: slot.splits if_splits)
  have lk: "live_keys m' = live_keys m"
    unfolding m' by (rule live_keys_restore) (use i len fs h in auto)
  have tt: "map_table hp m' = (map_table hp m)[i := map_table hp m ! i]" for hp
    unfolding m' table_header [OF i [folded len]]
    using h fs i len by (simp add: map_slot_def)
  have k: "keeps managed w B w1" "inv w1 B"
    using alloc_frame [OF mal(2) al] alloc_err [OF mal(2) al r] by (auto simp: keeps_def)
  have w1: "wf g w1 B m" by (rule wf_keeps [OF wf k]) simp
  have sh': "map_shape m'"
    using sh lk unfolding m' by (intro shape_headers) (auto simp: map_shape_def)
  have wf': "wf g w' B m'"
    using w1 lk sh' tt unfolding map_wf_def map_ok_def by (simp add: m')
  show "e = rerr r" by (rule m')
  show bl: "map_blocks m' = map_blocks m"
    using lk by (simp add: map_blocks_def key_blocks_def) (simp add: m')
  show "map_abs (heap w') m' = map_abs (heap w) m" "mlen m' = mlen m"
    using tt table_keeps [OF wf k(1)] by (simp_all add: map_abs_def m')
  show "step g w B m w' m'"
    by (rule step_same [OF wf wf' bl]) (use keeps_mono [OF k(1)] in \<open>auto simp: m'\<close>)
qed

section \<open>Insertion without growth\<close>

lemma insert_probe_cases:
  assumes wf: "wf g w B m" and key: "map_key_is_valid (key_type m) key"
  defines "c \<equiv> key_content (heap w) (key_type m) key"
  shows "case map_insert_probe (heap w) m key (mcap m) (get_hash g (heap w) m key AND (mcap m - 1)) None of
      At_overflow \<Rightarrow> False
    | At_none \<Rightarrow> mlen m = mcap m
    | At_key i \<Rightarrow> i < mcap m \<and> (\<exists>v. map_table (heap w) m ! i = Entry (c, v))
    | At_new i b \<Rightarrow> i < mcap m \<and> map_table (heap w) m ! i = (if b then Grave else Free) \<and>
        map_abs (heap w) m c = None \<and>
        (\<forall>v. table_ok (map_home g (trusted_keys m)) ((map_table (heap w) m)[i := Entry (c, v)]))"
proof -
  note sh = map_wf_shape [OF wf]
  have len: "length (map_table (heap w) m) = mcap m" and p2: "proven_is_pow2 (mcap m)"
    using shape_facts [OF sh] by auto
  have ok: "table_ok (map_home g (trusted_keys m)) (map_table (heap w) m)"
    "mlen m = length (slot_entries (map_table (heap w) m))"
    using wf by (auto simp: map_wf_def map_ok_def)
  note h = home_content [OF key, of g "heap w", folded c_def]
  have "map_home g (trusted_keys m) c (mcap m) < mcap m" by (rule tab.home_less [OF p2])
  note r = insert_probe_place [OF sh key this, of "heap w" "mcap m" None, folded c_def]
  have "proven_is_pow2 (length (map_table (heap w) m))" using p2 len by simp
  note q = tab.probe_place_ok [OF ok(1) this, of c, unfolded len]
  show ?thesis
    unfolding h r using q ok(2) len
    by (cases "probe_place (map_table (heap w) m) c (mcap m) (map_home g (trusted_keys m) c (mcap m)) None")
      (auto simp: map_abs_def)
qed

theorem insert_correct:
  assumes wf: "wf g w B m" and key: "key_arg managed w B m key"
    and el: "elem_arg managed w B el (melem_size m)" and room: "mlen m < mcap m"
    and run: "map_insert_no_grow g w m key el (key_type m = PROVEN_KEY_TYPE_U8_OWNED) = (e, m', w')"
  defines "c \<equiv> key_content (heap w) (key_type m) key"
  shows "step g w B m w' m'"
    "if e = PROVEN_OK
     then map_abs (heap w') m' = (map_abs (heap w) m)(c \<mapsto> read_elem (heap w) el (melem_size m))
     else map_abs (heap w') m' = map_abs (heap w) m \<and> map_blocks m' = map_blocks m \<and>
       key_type m = PROVEN_KEY_TYPE_U8_OWNED \<and> c \<notin> dom (map_abs (heap w) m)"
    "key_type m \<noteq> PROVEN_KEY_TYPE_U8_OWNED \<Longrightarrow> set (live_keys m') \<subseteq> insert key (set (live_keys m))"
proof -
  note sh = map_wf_shape [OF wf]
  have valid: "map_key_is_valid (key_type m) key" and el0: "el \<noteq> Ptr 0"
    using key el by (auto simp: key_arg_def)
  have valid': "\<not> \<not> map_key_is_valid (key_type m) key" using valid by blast
  note pc = insert_probe_cases [OF wf valid, folded c_def]
  define r where "r = map_insert_probe (heap w) m key (mcap m) (get_hash g (heap w) m key AND (mcap m - 1)) None"
  note pc = pc [folded r_def]
  note run = run [unfolded map_insert_no_grow_def if_not_P [OF el0] if_not_P [OF valid'] r_def [symmetric]]
  have "step g w B m w' m' \<and> (if e = PROVEN_OK
     then map_abs (heap w') m' = (map_abs (heap w) m)(c \<mapsto> read_elem (heap w) el (melem_size m))
     else map_abs (heap w') m' = map_abs (heap w) m \<and> map_blocks m' = map_blocks m \<and>
       key_type m = PROVEN_KEY_TYPE_U8_OWNED \<and> c \<notin> dom (map_abs (heap w) m)) \<and>
    (key_type m \<noteq> PROVEN_KEY_TYPE_U8_OWNED \<longrightarrow> set (live_keys m') \<subseteq> insert key (set (live_keys m)))"
  proof (cases r)
    case (At_key i)
    with pc obtain v where i: "i < mcap m" "map_table (heap w) m ! i = Entry (c, v)" by auto
    have "length (read_elem (heap w) el (melem_size m)) = melem_size m" by (rule length_read_elem [OF el])
    note o = overwrite [OF wf i this]
    have r: "e = PROVEN_OK" "m' = m"
      "w' = w\<lparr>heap := mem_write (heap w) (map_payload m i) (read_elem (heap w) el (melem_size m))\<rparr>"
      using run At_key move_elem_write [OF payload_in_block(2) [OF sh i(1)] el] by auto
    have "keeps managed w (B - map_blocks m) w'"
      unfolding r(3) by (rule keeps_mono [OF o(2)]) (auto simp: map_blocks_def)
    then have "step g w B m w' m'" using o(1) r by (intro step_same [OF wf]) auto
    then show ?thesis using o(3) r by auto
  next
    case (At_new i b)
    with pc have i: "i < mcap m" "map_table (heap w) m ! i = (if b then Grave else Free)"
      and new: "map_abs (heap w) m c = None"
      and ok: "\<And>v. table_ok (map_home g (trusted_keys m)) ((map_table (heap w) m)[i := Entry (c, v)])"
      by auto
    have fill: "map_fill_bucket w m i b key el (key_type m = PROVEN_KEY_TYPE_U8_OWNED) = (e, m', w')"
      using run At_new by simp
    show ?thesis
    proof (cases "key_type m = PROVEN_KEY_TYPE_U8_OWNED")
      case False
      then show ?thesis
        using fill_plain [OF wf i new [unfolded c_def] ok [unfolded c_def] key el] fill
        by (simp add: c_def)
    next
      case kt: True
      show ?thesis
      proof (cases "ksize key = 0")
        case True
        let ?key = "key\<lparr>kptr := 0\<rparr>"
        have c: "key_content (heap w) (key_type m) ?key = c" using True kt by (simp add: c_def key_content_def)
        have ka: "key_arg managed w B m ?key"
          using True kt by (simp add: key_arg_def map_key_is_valid_def placed_def span_def)
        have "map_fill_bucket w m i b ?key el False = (e, m', w')"
          using fill True kt by (simp add: map_fill_bucket_def map_store_key_def Let_def)
        then show ?thesis
          using fill_plain [OF wf i _ _ ka el] new ok True c kt by simp
      next
        case nz: False
        obtain q w1 where al: "alloc_call al w (ksize key) 1 = (q, w1)" by fastforce
        show ?thesis
        proof (cases "rerr q = PROVEN_OK")
          case True
          show ?thesis
            using fill_copied [OF wf i new [unfolded c_def] ok [unfolded c_def] key el kt nz al True] fill kt
            by (simp add: c_def)
        next
          case False
          then show ?thesis
            using fill_failed [OF wf i kt nz al False] fill kt new by auto
        qed
      qed
    qed
  qed (use pc room in auto)
  then show "step g w B m w' m'"
    "if e = PROVEN_OK
     then map_abs (heap w') m' = (map_abs (heap w) m)(c \<mapsto> read_elem (heap w) el (melem_size m))
     else map_abs (heap w') m' = map_abs (heap w) m \<and> map_blocks m' = map_blocks m \<and>
       key_type m = PROVEN_KEY_TYPE_U8_OWNED \<and> c \<notin> dom (map_abs (heap w) m)"
    "key_type m \<noteq> PROVEN_KEY_TYPE_U8_OWNED \<Longrightarrow> set (live_keys m') \<subseteq> insert key (set (live_keys m))"
    by blast+
qed

end

end
