(* ===== verification/Map_Rehash.thy ===== *)
theory Map_Rehash
  imports Map_Ops
begin

text \<open>
  Rehashing the hash map: the doubling loop ends at the next power of two, the new bucket array starts
  empty, and the loop over the old buckets moves every entry, an entry at a time, with the invariant
  that the new table stands for the entries of the buckets passed. The old array is freed last, so
  the keys and values are the same and no tombstone is left; a failure gives the new array back.
\<close>

section \<open>The doubling loop\<close>

lemma pow2_loop_ok:
  "proven_is_pow2 p \<Longrightarrow> pow2_loop p n = Some q \<Longrightarrow> proven_is_pow2 q \<and> n \<le> q"
proof (induction p n arbitrary: q rule: pow2_loop.induct)
  case (1 p n)
  have "proven_is_pow2 (p * 2)" using 1(2) unfolding proven_is_pow2_iff by (metis power_Suc2)
  moreover have "0 < p" by (rule proven_is_pow2_pos [OF 1(2)])
  ultimately show ?case
    using 1 by (subst (asm) (2) pow2_loop.simps) (auto simp: ckd_mul_def split: if_splits)
qed

lemma pow2_one: "proven_is_pow2 1"
  by (auto simp: proven_is_pow2_iff intro: exI [of _ 0])

section \<open>Prefixes of a table\<close>

lemma slot_entries_take_Suc:
  "i < length t \<Longrightarrow> slot_entries (take (Suc i) t) = slot_entries (take i t) @ slot_entries [t ! i]"
  by (metis take_Suc_conv_app_nth slot_entries_append)

lemma slot_entries_prefix: "\<exists>ys. slot_entries t = slot_entries (take i t) @ ys"
  by (metis append_take_drop_id slot_entries_append)

lemma table_map_take_Suc:
  assumes "distinct (map fst (slot_entries t))" "i < length t" "t ! i = Entry (k, v)"
  shows "table_map (take i t) k = None" "table_map (take (Suc i) t) = (table_map (take i t))(k \<mapsto> v)"
    "length (slot_entries (take i t)) < length (slot_entries t)"
    "length (slot_entries (take (Suc i) t)) = Suc (length (slot_entries (take i t)))"
proof -
  note s = slot_entries_take_Suc [OF assms(2), unfolded assms(3), simplified]
  obtain ys where ys: "slot_entries t = slot_entries (take (Suc i) t) @ ys"
    using slot_entries_prefix by blast
  have "distinct (map fst (slot_entries (take i t) @ [(k, v)]))"
    using assms(1) unfolding ys s by simp
  then have "k \<notin> fst ` set (slot_entries (take i t))" by auto
  then show n: "table_map (take i t) k = None" by (simp add: table_map_def map_of_eq_None_iff)
  show "table_map (take (Suc i) t) = (table_map (take i t))(k \<mapsto> v)"
  proof
    fix x
    show "table_map (take (Suc i) t) x = ((table_map (take i t))(k \<mapsto> v)) x"
      using n unfolding table_map_def s by (cases "x = k") (auto simp: map_add_def split: option.split)
  qed
  show "length (slot_entries (take i t)) < length (slot_entries t)"
    "length (slot_entries (take (Suc i) t)) = Suc (length (slot_entries (take i t)))"
    unfolding ys s by simp_all
qed

lemma slot_entries_take_skip:
  assumes "i < length t" "\<forall>e. t ! i \<noteq> Entry e"
  shows "slot_entries (take (Suc i) t) = slot_entries (take i t)"
  using slot_entries_take_Suc [OF assms(1)] assms(2) by (cases "t ! i") simp_all

section \<open>The new array\<close>

definition fresh_map :: "'c proven_map \<Rightarrow> proven_mem \<Rightarrow> nat \<Rightarrow> 'c proven_map" where
  "fresh_map m block cap = m\<lparr>internal := block, headers := replicate cap zero_header,
     mcap := cap, mlen := 0, mused := 0\<rparr>"

lemma header_slot_zero: "header_slot zero_header = Free"
  by (simp add: header_slot_def zero_header_def)

lemma fresh_map_table:
  "map_table h (fresh_map m block cap) = replicate cap Free" "live_keys (fresh_map m block cap) = []"
  by (auto simp: map_table_def live_keys_def fresh_map_def map_slot_def slot_value_def header_slot_zero
      intro: nth_equalityI)

lemma fresh_map_shape:
  assumes "map_shape m" "proven_is_pow2 cap" "cap * bucket_stride m \<le> SIZE_MAX" "ptr block \<noteq> 0"
    "msize block = cap * bucket_stride m"
  shows "map_shape (fresh_map m block cap)"
proof -
  have "proven_map_is_valid (Some (fresh_map m block cap))"
    using shape_facts(12) [OF assms(1)] assms(2-) proven_is_pow2_pos [OF assms(2)]
    by (auto simp: fresh_map_def proven_map_is_valid_def Let_def ckd_add_def ckd_mul_def split: if_splits)
  then show ?thesis
    using proven_is_pow2_pos [OF assms(2)] fresh_map_table(2) [of m block cap]
    by (simp add: map_shape_def fresh_map_def)
qed

lemma fields_trans:
  "m2 = m1\<lparr>headers := hs, mlen := a, mused := b\<rparr> \<Longrightarrow> m1 = m0\<lparr>headers := hs', mlen := a', mused := b'\<rparr> \<Longrightarrow>
    m2 = m0\<lparr>headers := headers m2, mlen := mlen m2, mused := mused m2\<rparr>"
  by simp

context allocator_laws
begin

lemma alloc_buckets_ok:
  assumes "inv w B" "alloc_buckets w al cap stride align = (r, w1)" "rerr r = PROVEN_OK"
  shows "cap * stride \<le> SIZE_MAX" "ptr (rval r) \<noteq> 0" "msize (rval r) = cap * stride"
    "(ptr (rval r), cap * stride) \<notin> B" "inv w1 (insert (ptr (rval r), cap * stride) B)"
    "keeps managed w B w1"
proof -
  let ?n = "cap * stride"
  have n: "?n \<le> SIZE_MAX" using assms(2,3) by (auto simp: alloc_buckets_def ckd_mul_def split: if_splits)
  obtain w0 where c: "alloc_call al w ?n (bucket_align align) = (r, w0)"
    and w1: "w1 = w0\<lparr>heap := proven_sys_mem_zero (heap w0) (ptr (rval r)) ?n\<rparr>"
    using assms(2,3) n by (auto simp: alloc_buckets_def ckd_mul_def split: prod.splits if_splits)
  let ?B = "insert (ptr (rval r), ?n) B"
  note a = alloc_ok [OF assms(1) c assms(3)]
  have pos: "0 < ?n" by (rule alloc_fresh(3) [OF assms(1) c assms(3)])
  show "?n \<le> SIZE_MAX" by (rule n)
  show "ptr (rval r) \<noteq> 0" "msize (rval r) = ?n" "(ptr (rval r), ?n) \<notin> B" using a by blast+
  have z: "w1 = w0\<lparr>heap := mem_write (heap w0) (ptr (rval r)) (replicate ?n 0)\<rparr>"
    using a pos by (simp add: w1 proven_sys_mem_zero_def)
  have sub: "span (ptr (rval r), length (replicate ?n (0 :: byte))) \<subseteq> span (ptr (rval r), ?n)" by simp
  show "inv w1 ?B" unfolding z using a by (intro inv_write) auto
  have k0: "keeps managed w B w0" using a alloc_frame [OF assms(1) c] by (simp add: keeps_def)
  have "keeps managed w0 (?B - {(ptr (rval r), ?n)}) w1"
    unfolding z using a by (intro write_in_block [OF _ _ sub]) auto
  then show "keeps managed w B w1"
    using a by (intro keeps_trans [OF k0 keeps_mono]) auto
qed

lemma alloc_buckets_err:
  assumes "inv w B" "alloc_buckets w al cap stride align = (r, w1)" "rerr r \<noteq> PROVEN_OK"
  shows "inv w1 B" "keeps managed w B w1"
  using assms alloc_err [OF assms(1)] alloc_frame [OF assms(1)]
  by (auto simp: alloc_buckets_def ckd_mul_def keeps_def split: prod.splits if_splits)

section \<open>Moving the entries\<close>

text \<open>The invariant of the loop, after the buckets below \<open>i\<close>.\<close>

definition migrated :: "byte list \<Rightarrow> 'c world \<Rightarrow> (addr \<times> nat) set \<Rightarrow> 'c proven_map \<Rightarrow> 'c proven_map \<Rightarrow>
    nat \<Rightarrow> 'c world \<Rightarrow> 'c proven_map \<Rightarrow> bool" where
  "migrated g w B m new0 i w' new \<longleftrightarrow>
    wf g w' (insert (map_block new0) B) new \<and> keeps managed w B w' \<and>
    new = new0\<lparr>headers := headers new, mlen := mlen new, mused := mused new\<rparr> \<and>
    mset (live_keys new) = mset (slot_entries (take i (map header_slot (headers m)))) \<and>
    map_abs (heap w') new = table_map (take i (map_table (heap w) m)) \<and>
    mlen new = length (slot_entries (take i (map_table (heap w) m))) \<and> mused new = mlen new"

lemma no_graves:
  assumes "slots_used t = length (slot_entries t)" "i < length t"
  shows "t ! i \<noteq> Grave"
proof
  assume g: "t ! i = Grave"
  have "length (slot_entries (t[i := Free])) = length (slot_entries t)"
    using mset_entries(4) [OF assms(2)] g by simp
  moreover have "slots_used (t[i := Free]) < slots_used t"
    using slots_used_split [OF assms(2)] slots_used_update [OF assms(2), of Free] g
    by (simp add: slots_used_def)
  ultimately show False using entries_le_used [of "t[i := Free]"] assms(1) by simp
qed

lemma migrate_one:
  assumes wf: "wf g w B m" and mig: "migrated g w B m new0 i w1 new" and i: "i < mcap m"
    and occ: "hstate (headers m ! i) = BUCKET_OCCUPIED" and room: "mlen m \<le> mcap new0"
    and same: "key_type new0 = key_type m" "trusted_keys new0 = trusted_keys m" "melem_size new0 = melem_size m"
    and nb: "map_block new0 \<notin> B"
    and run: "map_insert_no_grow g w1 new (hkey (headers m ! i)) (Ptr (map_payload m i)) False = (e, new', w2)"
  shows "e = PROVEN_OK" "migrated g w B m new0 (Suc i) w2 new'"
proof -
  let ?B1 = "insert (map_block new0) B" and ?T = "map_table (heap w) m"
  let ?k = "hkey (headers m ! i)" and ?el = "Ptr (map_payload m i)"
  define c where "c = key_content (heap w) (key_type m) ?k"
  define v where "v = mem_read (heap w) (map_payload m i) (melem_size m)"
  note sh = map_wf_shape [OF wf]
  have new: "wf g w1 ?B1 new" "keeps managed w B w1" and lk: "mset (live_keys new) = mset (slot_entries (take i (map header_slot (headers m))))"
    and ab: "map_abs (heap w1) new = table_map (take i ?T)"
    and cnt: "mlen new = length (slot_entries (take i ?T))" "mused new = mlen new"
    and fld: "new = new0\<lparr>headers := headers new, mlen := mlen new, mused := mused new\<rparr>"
    using mig by (auto simp: migrated_def)
  have f: "key_type new = key_type m" "trusted_keys new = trusted_keys m" "melem_size new = melem_size m"
    "mcap new = mcap new0" "map_block new = map_block new0"
    using same arg_cong [OF fld, of key_type] arg_cong [OF fld, of trusted_keys]
      arg_cong [OF fld, of melem_size] arg_cong [OF fld, of mcap] arg_cong [OF fld, of map_block] by simp_all
  have len: "length (headers m) = mcap m" "length (headers new) = mcap new"
    using shape_facts(11) sh map_wf_shape [OF new(1)] by auto
  have hs: "header_slot (headers m ! i) = Entry ?k" using occ by (simp add: header_slot_def)
  have Ti: "?T ! i = Entry (c, v)" using i len hs by (simp add: map_slot_def slot_value_def c_def v_def)
  have ok: "table_ok (map_home g (trusted_keys m)) ?T" "mlen m = length (slot_entries ?T)"
    using wf by (auto simp: map_wf_def map_ok_def)
  note d = tab.table_ok_distinct [OF ok(1)]
  have lt: "i < length ?T" using i len by simp
  note tk = table_map_take_Suc [OF d lt Ti]
  have kl: "?k \<in> set (live_keys m)" using occ i len by (intro live_key) simp_all
  have own: "keys_owned (key_type m) (B - {map_block m}) (live_keys m)"
    and pla: "keys_placed managed w (key_type m) (B - {map_block m}) (live_keys m)"
    and blk: "map_block m \<in> B" "inv w B" using wf by (auto simp: map_wf_def)
  have placedk: "key_type m \<noteq> PROVEN_KEY_TYPE_INT \<Longrightarrow> placed managed w B (kptr ?k) (ksize ?k)"
    using pla kl placed_mono [of managed w "B - {map_block m}" _ _ B] by (auto simp: keys_placed_def)
  have B1: "?B1 - {map_block new} = B" using nb f(5) by auto
  have key: "key_arg managed w1 ?B1 new ?k"
    unfolding key_arg_def B1 f(1) placed_keeps [OF new(2)] using placedk sh kl by (auto simp: map_shape_def)
  have cc: "key_content (heap w1) (key_type new) ?k = c"
    unfolding c_def f(1) using placedk by (intro key_content_keeps [OF _ new(2)]) blast
  have ppl: "placed managed w B (map_payload m i) (melem_size m)"
    using payload_in_block(1) [OF sh i] span_subset_spans [OF blk(1)] by (auto simp: placed_def map_block_def)
  have el: "elem_arg managed w1 ?B1 ?el (melem_size new)"
    using payload_in_block(2) [OF sh i] f(3) placed_keeps [OF new(2)] placed_mono [OF ppl, of ?B1] by auto
  have rd: "read_elem (heap w1) ?el (melem_size new) = v"
    using placed_read [OF ppl new(2)] f(3) by (simp add: v_def)
  have pre: "slot_entries (take (Suc i) (map header_slot (headers m))) =
      slot_entries (take i (map header_slot (headers m))) @ [?k]"
    using slot_entries_take_Suc [of i "map header_slot (headers m)"] i len hs by simp
  have ownk: "keys_owned (key_type new) (?B1 - {map_block new}) (?k # live_keys new)"
  proof -
    obtain ys where "live_keys m = slot_entries (take (Suc i) (map header_slot (headers m))) @ ys"
      unfolding live_keys_def using slot_entries_prefix by blast
    then have "keys_owned (key_type m) B (slot_entries (take i (map header_slot (headers m))) @ [?k])"
      using keys_owned_append keys_owned_mono [OF own, of B] pre by (metis Diff_subset)
    then show ?thesis
      unfolding B1 f(1)
      by (subst keys_owned_perm [of _ "slot_entries (take i (map header_slot (headers m))) @ [?k]"])
        (simp_all add: lk)
  qed
  have el_ok: "?el \<noteq> Ptr 0" and vk: "\<not> \<not> map_key_is_valid (key_type new) ?k"
    using payload_in_block(2) [OF sh i] key by (auto simp: key_arg_def)
  note pc = insert_probe_cases [OF new(1) vk [simplified], unfolded cc]
  note run = run [unfolded map_insert_no_grow_def if_not_P [OF el_ok] if_not_P [OF vk]]
  have full: "mlen new \<noteq> mcap new" using tk(3) cnt ok(2) room f(4) by simp
  have absent: "map_abs (heap w1) new c = None" using ab tk(1) by simp
  have nk: "\<not> (\<exists>v. map_table (heap w1) new ! j = Entry (c, v))" if "j < mcap new" for j
    using absent that len unfolding map_abs_def table_map_None by simp
  obtain j b where at: "map_insert_probe (heap w1) new ?k (mcap new) (get_hash g (heap w1) new ?k AND (mcap new - 1)) None = At_new j b"
    and j: "j < mcap new" "map_table (heap w1) new ! j = (if b then Grave else Free)"
    and okj: "\<And>v. table_ok (map_home g (trusted_keys new)) ((map_table (heap w1) new)[j := Entry (c, v)])"
    using pc full nk
    by (cases "map_insert_probe (heap w1) new ?k (mcap new) (get_hash g (heap w1) new ?k AND (mcap new - 1)) None") auto
  have "slots_used (map_table (heap w1) new) = length (slot_entries (map_table (heap w1) new))"
    using cnt(2) new(1) by (simp add: map_wf_def map_ok_def)
  from no_graves [OF this, of j] have b: "b = False" using j len by (cases b) auto
  have fill: "map_fill_bucket w1 new j False ?k ?el False = (e, new', w2)" using run at b by simp
  note fb = fill_bucket [OF new(1) j(1) j(2) [unfolded b] absent [folded cc] okj [folded cc] key ownk el fill]
  show "e = PROVEN_OK" by (rule fb)
  have flds: "new' = new0\<lparr>headers := headers new', mlen := mlen new', mused := mused new'\<rparr>"
    by (rule fields_trans [OF fb(8) fld])
  show "migrated g w B m new0 (Suc i) w2 new'"
    unfolding migrated_def
  proof (intro conjI)
    show "wf g w2 ?B1 new'" by (rule fb)
    show "keeps managed w B w2" using keeps_trans [OF new(2) fb(3) [unfolded B1]] .
    show "new' = new0\<lparr>headers := headers new', mlen := mlen new', mused := mused new'\<rparr>" by (rule flds)
    show "mset (live_keys new') = mset (slot_entries (take (Suc i) (map header_slot (headers m))))"
      unfolding pre using fb(6) lk by simp
    show "map_abs (heap w2) new' = table_map (take (Suc i) ?T)"
      unfolding fb(5) cc rd ab tk(2) ..
    have "mlen new' = Suc (mlen new)" "mused new' = Suc (mused new)"
      using arg_cong [OF fb(8), of mlen] arg_cong [OF fb(8), of mused] by simp_all
    then show "mlen new' = length (slot_entries (take (Suc i) ?T))" "mused new' = mlen new'"
      using cnt tk(4) by simp_all
  qed
qed

lemma migrate_ok:
  assumes wf: "wf g w B m" and mig: "migrated g w B m new0 i w1 new" and n: "i + n = mcap m"
    and room: "mlen m \<le> mcap new0"
    and same: "key_type new0 = key_type m" "trusted_keys new0 = trusted_keys m" "melem_size new0 = melem_size m"
    and nb: "map_block new0 \<notin> B"
    and run: "map_migrate g m n i new w1 = (e, new', w2)"
  shows "e = PROVEN_OK \<and> migrated g w B m new0 (mcap m) w2 new'"
  using mig n run
proof (induction n arbitrary: i new w1)
  case 0
  then show ?case by simp
next
  case (Suc n)
  note sh = map_wf_shape [OF wf]
  have i: "i < mcap m" and n: "Suc i + n = mcap m" using Suc.prems(2) by simp_all
  have off: "ckd_mul i (bucket_stride m) = Some (i * bucket_stride m)" by (rule offset_Some [OF sh i])
  show ?case
  proof (cases "hstate (headers m ! i) = BUCKET_OCCUPIED")
    case True
    obtain e1 new1 w1' where c: "map_insert_no_grow g w1 new (hkey (headers m ! i)) (Ptr (map_payload m i)) False = (e1, new1, w1')"
      by (cases "map_insert_no_grow g w1 new (hkey (headers m ! i)) (Ptr (map_payload m i)) False")
    note o = migrate_one [OF wf Suc.prems(1) i True room same nb c]
    have "map_migrate g m n (Suc i) new1 w1' = (e, new', w2)"
      using Suc.prems(3) off True c o(1) by (simp add: map_payload_def)
    then show ?thesis by (rule Suc.IH [OF o(2) n])
  next
    case False
    have len: "length (headers m) = mcap m" by (rule shape_facts [OF sh])
    have ne: "\<forall>k. header_slot (headers m ! i) \<noteq> Entry k"
      using False by (auto simp: header_slot_def split: bucket_state.splits)
    then have "\<forall>x. map_table (heap w) m ! i \<noteq> Entry x"
      using i len by (auto simp: map_slot_def slot_value_def split: slot.splits)
    then have e1: "slot_entries (take (Suc i) (map_table (heap w) m)) = slot_entries (take i (map_table (heap w) m))"
      using i len by (intro slot_entries_take_skip) simp_all
    have e2: "slot_entries (take (Suc i) (map header_slot (headers m))) = slot_entries (take i (map header_slot (headers m)))"
      using i len ne by (intro slot_entries_take_skip) simp_all
    have "migrated g w B m new0 (Suc i) w1 new"
      using Suc.prems(1) unfolding migrated_def table_map_def e1 e2 .
    moreover have "map_migrate g m n (Suc i) new w1 = (e, new', w2)"
      using Suc.prems(3) off False by simp
    ultimately show ?thesis using Suc.IH n by blast
  qed
qed

section \<open>The operation\<close>

theorem rehash_target_correct:
  assumes wf: "wf g w B m" and room: "mlen m \<le> target" and run: "map_rehash_target g w m target = (e, m', w')"
  shows "step g w B m w' m' \<and> map_abs (heap w') m' = map_abs (heap w) m \<and> mlen m' = mlen m \<and>
    set (live_keys m') = set (live_keys m) \<and> keeps managed w (B - {map_block m}) w' \<and>
    (if e = PROVEN_OK
     then mused m' = mlen m' \<and> target \<le> mcap m' \<and> (proven_is_pow2 target \<longrightarrow> mcap m' = target)
     else m' = m)"
proof -
  note sh = map_wf_shape [OF wf]
  have w: "inv w B" "map_block m \<in> B" "malloc m = al"
    and own: "keys_owned (key_type m) (B - {map_block m}) (live_keys m)"
    and pla: "keys_placed managed w (key_type m) (B - {map_block m}) (live_keys m)" 
    and okm: "map_ok g (heap w) m" using wf by (auto simp: map_wf_def)
  define nc where "nc = (if \<not> proven_is_pow2 target then pow2_loop 1 target else Some target)"
  note run = run [unfolded map_rehash_target_def nc_def [symmetric] w(3)]
  have unchanged: ?thesis if "m' = m" "wf g w' B m" "keeps managed w B w'" "e \<noteq> PROVEN_OK"
    using that step_same [OF wf that(2)] keeps_mono [OF that(3)]
      table_keeps [OF wf that(3)] by (auto simp: map_abs_def)
  show ?thesis
  proof (cases nc)
    case None
    with run wf unchanged show ?thesis by (simp split: option.splits)
  next
    case (Some cap)
    have cap: "proven_is_pow2 cap" "target \<le> cap" "proven_is_pow2 target \<longrightarrow> cap = target"
      using Some pow2_loop_ok [OF pow2_one, of target cap] by (auto simp: nc_def split: if_splits)
    obtain r w1 where al: "alloc_buckets w al cap (bucket_stride m) (malign m) = (r, w1)" by fastforce
    show ?thesis
    proof (cases "rerr r = PROVEN_OK")
      case False
      note a = alloc_buckets_err [OF w(1) al False]
      have "m' = m" "w' = w1" "e = rerr r" using run Some al False by auto
      then show ?thesis using unchanged wf_keeps [OF wf a(2,1)] a False by simp
    next
      case True
      note a = alloc_buckets_ok [OF w(1) al True]
      define nb where "nb = (ptr (rval r), cap * bucket_stride m)"
      define new0 where "new0 = fresh_map m (rval r) cap"
      let ?B1 = "insert nb B" and ?T = "map_table (heap w) m"
      have f0: "key_type new0 = key_type m" "trusted_keys new0 = trusted_keys m" "melem_size new0 = melem_size m"
        "mcap new0 = cap" "map_block new0 = nb" "malloc new0 = malloc m" "mlen new0 = 0" "mused new0 = 0"
        using a(3) by (simp_all add: new0_def fresh_map_def map_block_def nb_def)
      have nbB: "nb \<notin> B" using a(4) by (simp add: nb_def)
      have sh0: "map_shape new0" unfolding new0_def by (rule fresh_map_shape [OF sh cap(1) a(1-3)])
      have ok0: "map_ok g (heap w1) new0"
        using sh0 tab.table_ok_empty f0 by (simp add: map_ok_def new0_def fresh_map_table)
      have wf0: "wf g w1 ?B1 new0"
        using a(5) w(3) ok0 f0 by (simp add: map_wf_def nb_def keys_owned_def keys_placed_def new0_def fresh_map_table)
      have mig0: "migrated g w B m new0 0 w1 new0"
        using wf0 a(6) f0
        by (simp add: migrated_def map_abs_def new0_def fresh_map_table table_map_def)
      obtain e2 new w2 where mg: "map_migrate g m (mcap m) 0 new0 w1 = (e2, new, w2)"
        by (cases "map_migrate g m (mcap m) 0 new0 w1")
      have room0: "mlen m \<le> mcap new0" using room cap f0 by simp
      have M: "e2 = PROVEN_OK" "migrated g w B m new0 (mcap m) w2 new"
        using migrate_ok [OF wf mig0 _ room0 f0(1-3) _ mg] nbB f0(5) by auto
      have len: "length (headers m) = mcap m" by (rule shape_facts [OF sh])
      have N: "wf g w2 ?B1 new" "keeps managed w B w2" "mset (live_keys new) = mset (live_keys m)"
        "map_abs (heap w2) new = map_abs (heap w) m" "mlen new = mlen m" "mused new = mlen new"
        and fld: "new = new0\<lparr>headers := headers new, mlen := mlen new, mused := mused new\<rparr>"
        using M(2) len okm f0(5) by (auto simp: migrated_def live_keys_def map_abs_def map_ok_def)
      have f: "key_type new = key_type m" "trusted_keys new = trusted_keys m" "melem_size new = melem_size m"
        "mcap new = cap" "map_block new = nb"
        using f0 arg_cong [OF fld, of key_type] arg_cong [OF fld, of trusted_keys]
          arg_cong [OF fld, of melem_size] arg_cong [OF fld, of mcap] arg_cong [OF fld, of map_block] by simp_all
      have p0: "ptr (internal m) \<noteq> 0" by (rule shape_facts [OF sh])
      have r: "e = PROVEN_OK" "m' = new" "w' = free_call al w2 (ptr (internal m))"
        using run Some al True mg M(1) p0 by (auto simp: new0_def fresh_map_def)
      have inB1: "(ptr (internal m), msize (internal m)) \<in> ?B1" "inv w2 ?B1"
        using w(2) N(1) by (auto simp: map_block_def map_wf_def)
      let ?B' = "?B1 - {map_block m}"
      have fr: "inv w' ?B'" "keeps managed w2 ?B' w'"
        using free_ok [OF inB1(2,1)] free_frame [OF inB1(2,1)]
        unfolding r(3) keeps_def by (auto simp: map_block_def)
      have ne: "nb \<noteq> map_block m" using nbB w(2) by auto
      have setk: "set (live_keys new) = set (live_keys m)" by (rule mset_eq_setD [OF N(3)])
      have sub: "B - {map_block m} \<subseteq> ?B' - {nb}" "B - {map_block m} \<subseteq> ?B'" using nbB by auto
      have own': "keys_owned (key_type new) (?B' - {nb}) (live_keys new)"
        unfolding f(1) keys_owned_perm [OF N(3)] by (rule keys_owned_mono [OF own sub(1)])
      have pl2: "keys_placed managed w2 (key_type new) C (live_keys new)" if "B - {map_block m} \<subseteq> C" for C
        unfolding f(1) keys_placed_set [OF setk] keys_placed_keeps [OF N(2)]
        by (rule keys_placed_mono [OF pla that])
      have tt: "map_table (heap w') new = map_table (heap w2) new"
        by (rule table_keeps_in [OF map_wf_shape [OF N(1)] _ pl2 [OF sub(2)] fr(2)]) (simp add: f(5) ne)
      have wf': "wf g w' ?B' new"
        unfolding map_wf_def f(5) keys_placed_keeps [OF fr(2)]
        using fr(1) N(1) own' pl2 [OF sub(1)] ne tt by (simp add: map_wf_def map_ok_def)
      have kb: "key_blocks new = key_blocks m" by (rule key_blocks_cong [OF f(1) setk])
      have bl: "B - map_blocks m \<union> map_blocks new = ?B'"
        using map_blocks_live [OF wf] kb f(5) nbB ne by (auto simp: map_blocks_def)
      have dis: "map_blocks new \<inter> (B - map_blocks m) = {}"
        using kb f(5) nbB by (auto simp: map_blocks_def)
      have kp: "keeps managed w (B - map_blocks m) w'"
        using keeps_trans [OF keeps_mono [OF N(2)] keeps_mono [OF fr(2)], of "B - map_blocks m"]
        by (auto simp: map_blocks_def)
      have kb: "keeps managed w (B - {map_block m}) w'"
        using keeps_trans [OF keeps_mono [OF N(2)] keeps_mono [OF fr(2)], of "B - {map_block m}"] by auto
      have st: "step g w B m w' m'"
        unfolding map_step_def r(2) bl using wf' kp dis f by simp
      show ?thesis
        using st N(4-6) tt cap f(4) setk kb by (simp add: r map_abs_def)
    qed
  qed
qed

end

end
