(* ===== verification/Map_Refine.thy ===== *)
theory Map_Refine
  imports Map_Rehash
begin

text \<open>
  Looking up, setting and removing: each operation refines that of a finite map from key contents to
  values, keeps the invariant, touches nothing that is not the map's, and frees the blocks it must. An
  element may be a value of the table itself, which a growing table moves: the copy taken before is
  what is stored.
\<close>

text \<open>An element a caller may pass: a value inside the table, or bytes elsewhere that the table's
  allocator keeps.\<close>

definition value_arg ::
  "('c world \<Rightarrow> addr set) \<Rightarrow> 'c world \<Rightarrow> (addr \<times> nat) set \<Rightarrow> 'c proven_map \<Rightarrow> addr \<Rightarrow> bool" where
  "value_arg managed w B m a \<longleftrightarrow> a \<noteq> 0 \<and>
    (span (a, melem_size m) \<subseteq> span (map_block m) \<or> placed managed w (B - {map_block m}) a (melem_size m))"

lemma threshold_le: "0 < cap \<Longrightarrow> map_threshold cap \<le> cap"
  by (auto simp: map_threshold_def ckd_mul_def Let_def)

lemma keys_owned_key:
  assumes "keys_owned kt B ks" "kt = PROVEN_KEY_TYPE_U8_OWNED" "k \<in> set ks"
  shows "ksize k = 0 \<Longrightarrow> kptr k = 0" "ksize k \<noteq> 0 \<Longrightarrow> (kptr k, ksize k) \<in> B"
proof -
  have "if ksize k = 0 then kptr k = 0 else (kptr k, ksize k) \<in> B"
    using assms unfolding keys_owned_def by blast
  then show "ksize k = 0 \<Longrightarrow> kptr k = 0" "ksize k \<noteq> 0 \<Longrightarrow> (kptr k, ksize k) \<in> B"
    by (simp_all split: if_splits)
qed

context allocator_laws
begin

lemma find_cases:
  assumes wf: "wf g w B m" and key: "map_key_is_valid (key_type m) key"
  defines "c \<equiv> key_content (heap w) (key_type m) key"
  shows "case probe_find (map_table (heap w) m) c (mcap m) (map_home g (trusted_keys m) c (mcap m)) of
      None \<Rightarrow> map_abs (heap w) m c = None \<and> map_find_payload_mut g (heap w) m key = 0
    | Some i \<Rightarrow> i < mcap m \<and> map_find_payload_mut g (heap w) m key = map_payload m i \<and>
        map_table (heap w) m ! i = Entry (c, mem_read (heap w) (map_payload m i) (melem_size m)) \<and>
        map_abs (heap w) m c = Some (mem_read (heap w) (map_payload m i) (melem_size m))"
proof -
  note sh = map_wf_shape [OF wf]
  have len: "length (map_table (heap w) m) = mcap m" and p2: "proven_is_pow2 (mcap m)" and pos: "mcap m \<noteq> 0"
    using shape_facts [OF sh] by auto
  have ok: "table_ok (map_home g (trusted_keys m)) (map_table (heap w) m)"
    using wf by (simp add: map_wf_def map_ok_def)
  note h = home_content [OF key, of g "heap w", folded c_def]
  have hl: "map_home g (trusted_keys m) c (mcap m) < mcap m" by (rule tab.home_less [OF p2])
  have "map_find_payload_mut g (heap w) m key = map_find_loop (heap w) m key (mcap m) (map_home g (trusted_keys m) c (mcap m))"
    unfolding map_find_payload_mut_def h using pos key by simp
  note f = this [unfolded find_loop_probe [OF sh key hl, of "heap w" "mcap m", folded c_def]]
  have "proven_is_pow2 (length (map_table (heap w) m))" using p2 len by simp
  note q = tab.probe_find_ok [OF ok this, of c, unfolded len]
  show ?thesis
  proof (cases "probe_find (map_table (heap w) m) c (mcap m) (map_home g (trusted_keys m) c (mcap m))")
    case None
    with q f show ?thesis by (simp add: map_abs_def)
  next
    case (Some i)
    with q obtain v where i: "i < mcap m" "map_table (heap w) m ! i = Entry (c, v)" "map_abs (heap w) m c = Some v"
      by (auto simp: map_abs_def)
    then have "v = mem_read (heap w) (map_payload m i) (melem_size m)"
      using len by (auto simp: map_slot_def slot_value_def split: slot.splits)
    with Some i f show ?thesis by simp
  qed
qed

lemma blocks_split: "wf g w B m \<Longrightarrow> B - {map_block m} = (B - map_blocks m) \<union> key_blocks m"
  using map_blocks_live [of g w B m] by (auto simp: map_blocks_def)

section \<open>Growing, then inserting\<close>

lemma rehash_ok:
  assumes wf: "wf g w B m" and run: "map_rehash g w m = (e, m1, w1)"
  shows "step g w B m w1 m1" "map_abs (heap w1) m1 = map_abs (heap w) m"
    "set (live_keys m1) = set (live_keys m)" "keeps managed w (B - {map_block m}) w1"
    "e = PROVEN_OK \<Longrightarrow> mlen m1 < mcap m1 \<and> mused m1 = mlen m1" "e \<noteq> PROVEN_OK \<Longrightarrow> m1 = m"
proof -
  note sh = map_wf_shape [OF wf]
  have len: "mlen m \<le> mcap m" "0 < mcap m"
    using shape_facts(4,12) [OF sh] by (auto simp: proven_map_is_valid_def split: if_splits)
  define t where "t = (if mlen m \<ge> mcap m div 2 then ckd_mul (mcap m) 2 else Some (mcap m))"
  have "step g w B m w1 m1 \<and> map_abs (heap w1) m1 = map_abs (heap w) m \<and>
    set (live_keys m1) = set (live_keys m) \<and> keeps managed w (B - {map_block m}) w1 \<and>
    (e = PROVEN_OK \<longrightarrow> mlen m1 < mcap m1 \<and> mused m1 = mlen m1) \<and> (e \<noteq> PROVEN_OK \<longrightarrow> m1 = m)"
  proof (cases t)
    case None
    then have "m1 = m" "w1 = w" "e \<noteq> PROVEN_OK"
      using run [unfolded map_rehash_def, folded t_def] by auto
    then show ?thesis using step_refl [OF wf] by simp
  next
    case (Some n)
    have lt: "mlen m < n" "mlen m \<le> n"
      using Some len by (auto simp: t_def ckd_mul_def split: if_splits)
    have "map_rehash_target g w m n = (e, m1, w1)"
      using run [unfolded map_rehash_def, folded t_def] Some by simp
    note r = rehash_target_correct [OF wf lt(2) this]
    show ?thesis using r lt(1) by (cases "e = PROVEN_OK") auto
  qed
  then show "step g w B m w1 m1" "map_abs (heap w1) m1 = map_abs (heap w) m"
    "set (live_keys m1) = set (live_keys m)" "keeps managed w (B - {map_block m}) w1"
    "e = PROVEN_OK \<Longrightarrow> mlen m1 < mcap m1 \<and> mused m1 = mlen m1" "e \<noteq> PROVEN_OK \<Longrightarrow> m1 = m"
    by blast+
qed

lemma grow_insert:
  assumes wf: "wf g w B m" and key: "key_arg managed w B m key"
    and el: "elem_arg managed w (B - {map_block m}) el (melem_size m)"
    and run1: "map_rehash g w m = (PROVEN_OK, m1, w1)"
    and run2: "map_insert_no_grow g w1 m1 key el (key_type m = PROVEN_KEY_TYPE_U8_OWNED) = (e, m2, w2)"
  defines "c \<equiv> key_content (heap w) (key_type m) key"
  shows "step g w B m w2 m2"
    "map_abs (heap w2) m2 = (if e = PROVEN_OK
       then (map_abs (heap w) m)(c \<mapsto> read_elem (heap w) el (melem_size m)) else map_abs (heap w) m)"
    "key_type m \<noteq> PROVEN_KEY_TYPE_U8_OWNED \<Longrightarrow> set (live_keys m2) \<subseteq> insert key (set (live_keys m))"
proof -
  note r = rehash_ok [OF wf run1]
  let ?B1 = "B - map_blocks m \<union> map_blocks m1"
  have f: "key_type m1 = key_type m" "trusted_keys m1 = trusted_keys m" "melem_size m1 = melem_size m"
    and dis: "map_blocks m1 \<inter> (B - map_blocks m) = {}"
    using r(1) by (auto simp: map_step_def)
  have wf1: "wf g w1 ?B1 m1" by (rule step_wf [OF r(1)])
  have kb: "key_blocks m1 = key_blocks m" by (rule key_blocks_cong [OF f(1) r(3)])
  have sub: "B - {map_block m} \<subseteq> ?B1 - {map_block m1}"
    unfolding blocks_split [OF wf] using dis kb map_blocks_live(2) [OF wf1] by (auto simp: map_blocks_def)
  have key1: "key_arg managed w1 ?B1 m1 key"
    using key placed_mono [OF _ sub] placed_keeps [OF r(4)] unfolding key_arg_def f by auto
  have el1: "elem_arg managed w1 ?B1 el (melem_size m1)"
    using el placed_mono [of managed w "B - {map_block m}" _ _ ?B1] sub placed_keeps [OF r(4)] f(3)
    by (cases el) auto
  have cc: "key_content (heap w1) (key_type m1) key = c"
    unfolding c_def f(1) using key by (intro key_content_keeps [OF _ r(4)]) (auto simp: key_arg_def)
  have rd: "read_elem (heap w1) el (melem_size m1) = read_elem (heap w) el (melem_size m)"
    unfolding f(3) by (rule elem_read_keeps [OF el r(4)])
  have room: "mlen m1 < mcap m1" using r(5) by simp
  have run: "map_insert_no_grow g w1 m1 key el (key_type m1 = PROVEN_KEY_TYPE_U8_OWNED) = (e, m2, w2)"
    using run2 f(1) by simp
  note i = insert_correct [OF wf1 key1 el1 room run]
  show "step g w B m w2 m2" by (rule map_step_trans [OF r(1) i(1)])
  show "map_abs (heap w2) m2 = (if e = PROVEN_OK
       then (map_abs (heap w) m)(c \<mapsto> read_elem (heap w) el (melem_size m)) else map_abs (heap w) m)"
    using i(2) r(2) cc rd by simp
  show "key_type m \<noteq> PROVEN_KEY_TYPE_U8_OWNED \<Longrightarrow> set (live_keys m2) \<subseteq> insert key (set (live_keys m))"
    using i(3) f(1) r(3) by simp
qed

section \<open>The temporary copy\<close>

text \<open>Freeing a block in which the map has nothing.\<close>

lemma free_other:
  assumes wf: "wf g w B m" and t: "(p, n) \<in> B" "(p, n) \<notin> map_blocks m"
    and bor: "key_type m \<noteq> PROVEN_KEY_TYPE_U8_OWNED \<Longrightarrow>
      keys_placed managed w (key_type m) (B - {(p, n)} - {map_block m}) (live_keys m)"
  defines "w' \<equiv> free_call al w p"
  shows "wf g w' (B - {(p, n)}) m" "map_abs (heap w') m = map_abs (heap w) m"
    "keeps managed w (B - {(p, n)}) w'"
proof -
  let ?B = "B - {(p, n)}"
  have w: "inv w B" "map_block m \<in> B" "malloc m = al" and own: "keys_owned (key_type m) (B - {map_block m}) (live_keys m)"
    and okm: "map_ok g (heap w) m"
    using wf by (auto simp: map_wf_def)
  note fr = free_ok [OF w(1) t(1), folded w'_def]
  show k: "keeps managed w ?B w'"
    using fr free_frame [OF w(1) t(1)] by (simp add: keeps_def w'_def)
  have mb: "map_block m \<in> ?B" using w(2) t(2) by (auto simp: map_blocks_def)
  have pl: "keys_placed managed w (key_type m) (?B - {map_block m}) (live_keys m)"
  proof (cases "key_type m = PROVEN_KEY_TYPE_U8_OWNED")
    case True
    have "placed managed w (?B - {map_block m}) (kptr k) (ksize k)" if "k \<in> set (live_keys m)" for k
    proof (cases "ksize k = 0")
      case False
      have "(kptr k, ksize k) \<in> key_blocks m" using that True False by (auto simp: key_blocks_def)
      then have "(kptr k, ksize k) \<in> ?B - {map_block m}"
        using map_blocks_live [OF wf] t(2) by (auto simp: map_blocks_def)
      from span_subset_spans [OF this] show ?thesis by (simp add: placed_def)
    qed (simp add: placed_def span_def)
    then show ?thesis by (simp add: keys_placed_def)
  next
    case False
    then show ?thesis by (rule bor)
  qed
  have tt: "map_table (heap w') m = map_table (heap w) m"
    by (rule table_keeps_in [OF map_wf_shape [OF wf] mb keys_placed_mono [OF pl] k]) auto
  then show "map_abs (heap w') m = map_abs (heap w) m" by (simp add: map_abs_def)
  have ow: "keys_owned (key_type m) (?B - {map_block m}) (live_keys m)"
    unfolding keys_owned_def
  proof (intro impI conjI ballI)
    fix k
    assume kt: "key_type m = PROVEN_KEY_TYPE_U8_OWNED" and k: "k \<in> set (live_keys m)"
    have "ksize k \<noteq> 0 \<Longrightarrow> (kptr k, ksize k) \<noteq> (p, n)"
      using t(2) kt k unfolding map_blocks_def key_blocks_def by auto
    then show "if ksize k = 0 then kptr k = 0 else (kptr k, ksize k) \<in> ?B - {map_block m}"
      using keys_owned_key [OF own kt k] by simp
  qed (use own in \<open>simp add: keys_owned_def\<close>)
  show "wf g w' ?B m"
    unfolding map_wf_def keys_placed_keeps [OF k]
    using fr w(3) mb ow pl okm tt by (simp add: map_ok_def)
qed

text \<open>What \<^verbatim>\<open>map_save_element\<close> hands on: the element where it is, in the temporary on the stack, or in a
  block that is freed afterwards.\<close>

lemma save_element:
  assumes wf: "wf g w B m" and el: "value_arg managed w B m a"
    and run: "map_save_element w m a al = (q, w1)"
  shows "case q of
      Inl e \<Rightarrow> e \<noteq> PROVEN_OK \<and> inv w1 B \<and> keeps managed w B w1
    | Inr (el, t) \<Rightarrow> keeps managed w B w1 \<and>
        read_elem (heap w1) el (melem_size m) = mem_read (heap w) a (melem_size m) \<and>
        (if t = 0 then inv w1 B \<and> elem_arg managed w1 (B - {map_block m}) el (melem_size m)
         else (t, melem_size m) \<notin> B \<and> inv w1 (insert (t, melem_size m) B) \<and> el = Ptr t)"
proof -
  let ?n = "melem_size m"
  note sh = map_wf_shape [OF wf]
  have w: "inv w B" "map_block m \<in> B" using wf by (auto simp: map_wf_def)
  have n0: "0 < ?n" by (rule shape_facts [OF sh])
  have a0: "a \<noteq> 0" using el by (simp add: value_arg_def)
  have blk: "ptr (internal m) \<noteq> 0" "ptr (internal m) + msize (internal m) \<le> SIZE_MAX"
    using inv_block [OF w(1), of "ptr (internal m)" "msize (internal m)"] w(2) by (auto simp: map_block_def)
  define ref where "ref = ref_valid (proven_bufref_capture (ptr (internal m)) (msize (internal m)) a ?n)"
  note run = run [unfolded map_save_element_def ref_def [symmetric]]
  show ?thesis
  proof (cases ref)
    case False
    have "\<not> span (a, ?n) \<subseteq> span (map_block m)"
    proof
      assume s: "span (a, ?n) \<subseteq> span (map_block m)"
      have "a \<in> span (a, ?n)" "a + (?n - 1) \<in> span (a, ?n)" using n0 by auto
      then have "a \<in> span (map_block m)" "a + (?n - 1) \<in> span (map_block m)" using s by blast+
      then have "ptr (internal m) \<le> a" "a + (?n - 1) < ptr (internal m) + msize (internal m)"
        by (simp_all only: map_block_def in_span)
      then have "a + ?n \<le> ptr (internal m) + msize (internal m)" using n0 by linarith
      with False \<open>ptr (internal m) \<le> a\<close> blk a0 show False by (simp add: ref_def capture_valid)
    qed
    then have "elem_arg managed w (B - {map_block m}) (Ptr a) ?n" using el by (simp add: value_arg_def)
    then show ?thesis using run False w by auto
  next
    case ref: True
    show ?thesis
    proof (cases "?n \<le> 256")
      case True
      then show ?thesis using run ref w by auto
    next
      case False
      obtain r w0 where c: "alloc_call al w ?n (malign m) = (r, w0)" by fastforce
      show ?thesis
      proof (cases "rerr r = PROVEN_OK")
        case err: False
        have q: "q = Inl (rerr r)" "w1 = w0" using run ref False c err by auto
        show ?thesis unfolding q using err alloc_err [OF w(1) c err] alloc_frame [OF w(1) c] by (simp add: keeps_def)
      next
        case ok: True
        let ?t = "ptr (rval r)"
        note al = alloc_ok [OF w(1) c ok]
        have k0: "keeps managed w B w0" using al alloc_frame [OF w(1) c] by (simp add: keeps_def)
        have "placed managed w B a ?n"
          using el w(2) span_subset_spans [OF w(2)] placed_mono [of managed w "B - {map_block m}" a ?n B]
          by (auto simp: value_arg_def placed_def)
        then have rd: "mem_read (heap w0) a ?n = mem_read (heap w) a ?n" by (rule placed_read [OF _ k0])
        let ?v = "mem_read (heap w) a ?n"
        have q: "q = Inr (Ptr ?t, ?t)" "w1 = w0\<lparr>heap := mem_write (heap w0) ?t ?v\<rparr>"
          using run ref False c ok al a0 rd by auto
        have sub: "span (?t, length ?v) \<subseteq> span (?t, ?n)" by simp
        have k1: "keeps managed w0 (insert (?t, ?n) B - {(?t, ?n)}) w1"
          unfolding q using al by (intro write_in_block [OF _ _ sub]) auto
        have k: "keeps managed w B w1" using al by (intro keeps_trans [OF k0 keeps_mono [OF k1]]) auto
        have "inv w1 (insert (?t, ?n) B)" unfolding q using al by (intro inv_write) auto
        with k al show ?thesis by (simp add: q)
      qed
    qed
  qed
qed

lemma temp_freed:
  assumes wf: "wf g w B m" and key: "key_arg managed w B m key" and k1: "keeps managed w B w1"
    and tB: "(t, n) \<notin> B" and st: "step g w1 (insert (t, n) B) m w3 m3"
    and live: "key_type m \<noteq> PROVEN_KEY_TYPE_U8_OWNED \<Longrightarrow> set (live_keys m3) \<subseteq> insert key (set (live_keys m))"
  defines "w4 \<equiv> free_call al w3 t"
  shows "step g w B m w4 m3" "map_abs (heap w4) m3 = map_abs (heap w3) m3"
proof -
  let ?B1 = "insert (t, n) B"
  let ?B3 = "?B1 - map_blocks m \<union> map_blocks m3"
  have wf3: "wf g w3 ?B3 m3" by (rule step_wf [OF st])
  have dis: "map_blocks m3 \<inter> (?B1 - map_blocks m) = {}" and k3: "keeps managed w1 (?B1 - map_blocks m) w3"
    and f: "key_type m3 = key_type m" "trusted_keys m3 = trusted_keys m" "melem_size m3 = melem_size m"
    using st by (auto simp: map_step_def)
  have sub: "map_blocks m \<subseteq> B" by (rule map_blocks_live [OF wf])
  have t3: "(t, n) \<in> ?B3" "(t, n) \<notin> map_blocks m3" using tB sub dis by auto
  have eqB: "?B3 - {(t, n)} = B - map_blocks m \<union> map_blocks m3" using tB t3(2) by auto
  have bor: "keys_placed managed w3 (key_type m3) (?B3 - {(t, n)} - {map_block m3}) (live_keys m3)"
    if nt: "key_type m3 \<noteq> PROVEN_KEY_TYPE_U8_OWNED"
  proof -
    have bl: "map_blocks m = {map_block m}" "map_blocks m3 = {map_block m3}"
      using nt f(1) by (auto simp: map_blocks_def key_blocks_def)
    have s: "B - {map_block m} \<subseteq> ?B3 - {(t, n)} - {map_block m3}"
      unfolding eqB using dis bl by auto
    have kk: "keeps managed w (B - {map_block m}) w3"
      using keeps_trans [OF keeps_mono [OF k1] keeps_mono [OF k3]] bl by (metis Diff_subset Diff_mono subset_insertI subset_refl)
    have "keys_placed managed w (key_type m) (B - {map_block m}) (live_keys m3)"
      using live nt f(1) key wf by (auto simp: keys_placed_def key_arg_def map_wf_def)
    then show ?thesis unfolding f(1) keys_placed_keeps [OF kk] by (rule keys_placed_mono [OF _ s])
  qed
  note fo = free_other [OF wf3 t3 bor, folded w4_def]
  show "map_abs (heap w4) m3 = map_abs (heap w3) m3" by (rule fo)
  have "keeps managed w (B - map_blocks m) w4"
    by (rule keeps_trans [OF keeps_mono [OF k1] keeps_trans [OF keeps_mono [OF k3] keeps_mono [OF fo(3) [unfolded eqB]]]])
      auto
  then show "step g w B m w4 m3"
    unfolding map_step_def using fo(1) eqB dis f by auto
qed

section \<open>Setting\<close>

theorem set_correct:
  assumes wf: "wf g w B m" and key: "key_arg managed w B m key" and val: "value_arg managed w B m a"
    and scr: "scratch = al \<or> alloc_fn scratch = None \<or> free_fn scratch = None"
    and run: "proven_map_set_with_scratch g w (Some m) key a scratch = (e, mo, w')"
  defines "c \<equiv> key_content (heap w) (key_type m) key"
  shows "\<exists>m'. mo = Some m' \<and> step g w B m w' m' \<and>
    map_abs (heap w') m' = (if e = PROVEN_OK then (map_abs (heap w) m)(c \<mapsto> mem_read (heap w) a (melem_size m))
      else map_abs (heap w) m) \<and>
    (e \<noteq> PROVEN_OK \<longrightarrow> c \<notin> dom (map_abs (heap w) m) \<and>
      (key_type m = PROVEN_KEY_TYPE_U8_OWNED \<or> map_threshold (mcap m) \<le> mused m))"
proof -
  let ?n = "melem_size m" and ?owned = "key_type m = PROVEN_KEY_TYPE_U8_OWNED"
  let ?v = "mem_read (heap w) a (melem_size m)" and ?abs = "map_abs (heap w) m"
  note sh = map_wf_shape [OF wf]
  have w: "inv w B" "map_block m \<in> B" "malloc m = al" using wf by (auto simp: map_wf_def)
  have valid: "proven_map_is_valid (Some m)" "a \<noteq> 0" "mcap m \<noteq> 0" "map_key_is_valid (key_type m) key"
    using sh shape_facts [OF sh] key val by (auto simp: key_arg_def value_arg_def)
  have al2: "alloc_fn al \<noteq> None" "free_fn al \<noteq> None" using al_valid by (auto simp: proven_alloc_is_valid_def)
  have sal: "(if alloc_fn scratch = None \<or> free_fn scratch = None then al else scratch) = al"
    using scr by auto
  have elw: "elem_arg managed w B (Ptr a) ?n"
    using val span_subset_spans [OF w(2)] placed_mono [of managed w "B - {map_block m}" a ?n B]
    by (auto simp: value_arg_def placed_def)
  have absent: "map_find_payload_mut g (heap w) m key = 0 \<Longrightarrow> ?abs c = None"
    using find_cases [OF wf valid(4)] payload_in_block(2) [OF sh]
    by (fastforce simp: c_def split: option.splits)
  show ?thesis
  proof (cases "map_threshold (mcap m) \<le> mused m")
    case False
    then have room: "mlen m < mcap m"
      using threshold_le [of "mcap m"] valid by (auto simp: proven_map_is_valid_def split: if_splits)
    obtain m' where i: "map_insert_no_grow g w m key (Ptr a) ?owned = (e, m', w')" "mo = Some m'"
      using run valid False by (auto simp: proven_map_set_with_scratch_def Let_def split: prod.splits)
    note r = insert_correct [OF wf key elw room i(1)]
    show ?thesis using r(1,2) i(2) by (auto simp: c_def split: if_splits)
  next
    case full: True
    show ?thesis
    proof (cases "map_find_payload_mut g (heap w) m key = 0")
      case False
      then obtain i where i: "i < mcap m" "map_find_payload_mut g (heap w) m key = map_payload m i"
          "map_table (heap w) m ! i = Entry (c, mem_read (heap w) (map_payload m i) ?n)"
          "?abs c = Some (mem_read (heap w) (map_payload m i) ?n)"
        using find_cases [OF wf valid(4)] by (auto simp: c_def split: option.splits)
      show ?thesis
      proof (cases "map_payload m i = a")
        case True
        then have "e = PROVEN_OK" "mo = Some m" "w' = w"
          using run valid full i(2) False by (auto simp: proven_map_set_with_scratch_def Let_def)
        moreover have "?abs = ?abs(c \<mapsto> ?v)" using i(4) True by auto
        ultimately show ?thesis using step_refl [OF wf] by simp
      next
        case ne: False
        let ?w = "w\<lparr>heap := mem_write (heap w) (map_payload m i) ?v\<rparr>"
        have r: "e = PROVEN_OK" "mo = Some m" "w' = ?w"
          using run valid full i(2) False ne by (auto simp: proven_map_set_with_scratch_def Let_def)
        have "length ?v = melem_size m" by simp
        note o = overwrite [OF wf i(1,3) this]
        have "step g w B m ?w m"
          by (rule step_same [OF wf o(1) refl keeps_mono [OF o(2)]]) (auto simp: map_blocks_def)
        then show ?thesis using o(3) r by simp
      qed
    next
      case find0: True
      have none: "?abs c = None" by (rule absent [OF find0])
      obtain q w1 where sv: "map_save_element w m a al = (q, w1)" by fastforce
      note se = save_element [OF wf val sv]
      note run = run [unfolded proven_map_set_with_scratch_def Let_def option.sel w(3) sal]
      show ?thesis
      proof (cases q)
        case (Inl e1)
        then have r: "e = e1" "mo = Some m" "w' = w1"
          using run valid full find0 sv by auto
        have k: "keeps managed w B w1" "inv w1 B" "e1 \<noteq> PROVEN_OK" using se Inl by auto
        have "wf g w1 B m" by (rule wf_keeps [OF wf k(1,2)]) simp
        then have "step g w B m w1 m"
          by (rule step_same [OF wf _ refl keeps_mono [OF k(1)]]) auto
        then show ?thesis using r k none full table_keeps [OF wf k(1)] by (auto simp: map_abs_def)
      next
        case (Inr p)
        obtain el t where p: "p = (el, t)" by fastforce
        define B1 where "B1 = (if t = 0 then B else insert (t, ?n) B)"
        have k: "keeps managed w B w1" and rd: "read_elem (heap w1) el ?n = ?v" and inv1: "inv w1 B1"
          and tB: "t \<noteq> 0 \<Longrightarrow> (t, ?n) \<notin> B" and sub: "B \<subseteq> B1"
          using se Inr p by (auto simp: B1_def split: if_splits)
        have wf1: "wf g w1 B1 m" by (rule wf_keeps [OF wf k inv1 sub])
        have el1: "elem_arg managed w1 (B1 - {map_block m}) el ?n"
        proof (cases "t = 0")
          case True
          then show ?thesis using se Inr p by (simp add: B1_def)
        next
          case False
          then have "(t, ?n) \<in> B1 - {map_block m}" using tB w(2) by (auto simp: B1_def)
          from span_subset_spans [OF this] show ?thesis using False se Inr p by (simp add: placed_def)
        qed
        have key1: "key_arg managed w1 B1 m key"
          using key placed_mono [of managed w "B - {map_block m}" _ _ "B1 - {map_block m}"] sub
            placed_keeps [OF k] unfolding key_arg_def by blast
        have cc: "key_content (heap w1) (key_type m) key = c"
          unfolding c_def using key
          by (intro key_content_keeps [OF _ keeps_mono [OF k, of "B - {map_block m}"]]) (auto simp: key_arg_def)
        have tt: "map_abs (heap w1) m = ?abs" using table_keeps [OF wf k] by (simp add: map_abs_def)
        have finish: ?thesis
          if st: "step g w1 B1 m w3 m3"
            and ab: "map_abs (heap w3) m3 = (if e = PROVEN_OK then ?abs(c \<mapsto> ?v) else ?abs)"
            and lv: "\<not> ?owned \<Longrightarrow> set (live_keys m3) \<subseteq> insert key (set (live_keys m))"
            and res: "mo = Some m3" "w' = (if t \<noteq> 0 then free_call al w3 t else w3)" for m3 w3
        proof (cases "t = 0")
          case True
          have "step g w B m w3 m3"
            using st keeps_trans [OF keeps_mono [OF k, of "B - map_blocks m"], of w3] True
            by (auto simp: map_step_def B1_def)
          then show ?thesis using res True ab none full by auto
        next
          case False
          note tf = temp_freed [OF wf key k tB [OF False] st [unfolded B1_def if_not_P [OF False]] lv]
          show ?thesis using tf res False ab none full by auto
        qed
        obtain e1 m1 w2 where rh: "map_rehash g w1 m = (e1, m1, w2)"
          by (cases "map_rehash g w1 m")
        note r = rehash_ok [OF wf1 rh]
        show ?thesis
        proof (cases "e1 = PROVEN_OK")
          case False
          have "mo = Some m1" "w' = (if t \<noteq> 0 then free_call al w2 t else w2)" "e = e1"
            using run valid full find0 sv Inr p rh False by auto
          then show ?thesis using r(2,3) tt False by (intro finish [OF r(1)]) auto
        next
          case True
          obtain e2 m2 w3 where ins: "map_insert_no_grow g w2 m1 key el ?owned = (e2, m2, w3)"
            by (cases "map_insert_no_grow g w2 m1 key el ?owned")
          have "mo = Some m2" "w' = (if t \<noteq> 0 then free_call al w3 t else w3)" "e = e2"
            using run valid full find0 sv Inr p rh True ins by auto
          moreover note gi = grow_insert [OF wf1 key1 el1 rh [unfolded True] ins]
          ultimately show ?thesis using tt cc rd by (intro finish [OF gi(1)]) auto
        qed
      qed
    qed
  qed
qed

section \<open>Removing\<close>

lemma bury:
  assumes wf: "wf g w B m" and i: "i < mcap m" and ti: "map_table (heap w) m ! i = Entry (c, v)"
    and hdr: "header_slot hdr = Grave" and k: "header_slot (headers m ! i) = Entry k"
  defines "m' \<equiv> m\<lparr>headers := (headers m)[i := hdr], mlen := mlen m - 1\<rparr>"
  shows "wf g w B m'" "map_abs (heap w) m' = (map_abs (heap w) m)(c := None)"
    "mset (live_keys m) = add_mset k (mset (live_keys m'))"
proof -
  note sh = map_wf_shape [OF wf]
  have len: "length (headers m) = mcap m" by (rule shape_facts [OF sh])
  have lt: "i < length (map_table (heap w) m)" "i < length (headers m)" using i len by simp_all
  have okm: "map_ok g (heap w) m" and ok: "table_ok (map_home g (trusted_keys m)) (map_table (heap w) m)"
    and cnt: "mlen m = length (slot_entries (map_table (heap w) m))" "mused m = slots_used (map_table (heap w) m)"
    using wf by (auto simp: map_wf_def map_ok_def)
  let ?m1 = "m\<lparr>headers := (headers m)[i := hdr]\<rparr>"
  have t1: "map_table (heap w) ?m1 = (map_table (heap w) m)[i := Grave]"
    unfolding table_header [OF lt(2)] by (simp add: hdr slot_value_def)
  note u = update_old [OF lt(1) ti]
  have lk: "mset (live_keys m) = add_mset k (mset (live_keys ?m1))"
    by (rule live_keys_bury [OF lt(2) k hdr])
  then show "mset (live_keys m) = add_mset k (mset (live_keys m'))" by (simp add: m'_def)
  have set: "set (live_keys m) = insert k (set (live_keys m'))"
    using lk by (simp add: m'_def) (metis set_mset_add_mset_insert set_mset_mset)
  show "map_abs (heap w) m' = (map_abs (heap w) m)(c := None)"
    unfolding map_abs_def m'_def using table_map_grave(2) [OF tab.table_ok_distinct [OF ok] lt(1) ti] t1 by simp
  have "map_ok g (heap w) (m\<lparr>headers := (headers m)[i := hdr], mlen := mlen m - 1, mused := mused m\<rparr>)"
    by (rule map_okI [OF sh])
      (use len cnt u t1 tab.table_ok_grave [OF ok lt(1) ti] set sh in \<open>auto simp: m'_def map_shape_def\<close>)
  then have ok': "map_ok g (heap w) m'" by (simp add: m'_def)
  have own: "keys_owned (key_type m) (B - {map_block m}) (live_keys m)" using wf by (simp add: map_wf_def)
  have "keys_owned (key_type m) (B - {map_block m}) (live_keys m' @ [k])"
    using own by (subst keys_owned_perm [of _ "live_keys m"]) (simp_all add: lk m'_def)
  then have own': "keys_owned (key_type m) (B - {map_block m}) (live_keys m')" by (rule keys_owned_append)
  show "wf g w B m'"
    using wf own' ok' set by (auto simp: map_wf_def keys_placed_def m'_def)
qed

theorem remove_correct:
  assumes wf: "wf g w B m" and key: "map_key_is_valid (key_type m) key"
    and run: "proven_map_remove g w (Some m) key = (e, mo, w')"
  defines "c \<equiv> key_content (heap w) (key_type m) key"
  shows "\<exists>m'. mo = Some m' \<and> step g w B m w' m' \<and> map_abs (heap w') m' = (map_abs (heap w) m)(c := None) \<and>
    e = (if c \<in> dom (map_abs (heap w) m) then PROVEN_OK else PROVEN_ERR_NOT_FOUND) \<and>
    map_blocks m' \<subseteq> map_blocks m \<and> mused m' = mused m"
proof -
  note sh = map_wf_shape [OF wf]
  have w: "inv w B" "map_block m \<in> B" "malloc m = al" using wf by (auto simp: map_wf_def)
  have own: "keys_owned (key_type m) (B - {map_block m}) (live_keys m)" using wf by (simp add: map_wf_def)
  have len: "length (headers m) = mcap m" "mcap m \<noteq> 0" "proven_map_is_valid (Some m)" "proven_is_pow2 (mcap m)"
    using shape_facts [OF sh] by auto
  have hl: "map_home g (trusted_keys m) c (mcap m) < mcap m" by (rule tab.home_less [OF len(4)])
  note h = home_content [OF key, of g "heap w", folded c_def]
  note fc = find_cases [OF wf key, folded c_def]
  have "\<exists>m'. mo = Some m' \<and> map_remove_loop w m key (mcap m) (map_home g (trusted_keys m) c (mcap m)) = (e, m', w')"
    using run len key by (auto simp: proven_map_remove_def Let_def h [unfolded One_nat_def] split: prod.splits)
  then obtain m' where m': "mo = Some m'"
    and loop: "map_remove_loop w m key (mcap m) (map_home g (trusted_keys m) c (mcap m)) = (e, m', w')" by blast
  note loop = loop [unfolded remove_loop_probe [OF sh key hl], folded c_def]
  show ?thesis
  proof (cases "probe_find (map_table (heap w) m) c (mcap m) (map_home g (trusted_keys m) c (mcap m))")
    case None
    then have "e = PROVEN_ERR_NOT_FOUND" "m' = m" "w' = w" "map_abs (heap w) m c = None"
      using loop fc by auto
    moreover from this have "(map_abs (heap w) m)(c := None) = map_abs (heap w) m" by auto
    ultimately show ?thesis using m' step_refl [OF wf] by (simp add: dom_def)
  next
    case (Some i)
    with fc have i: "i < mcap m" and ti: "map_table (heap w) m ! i = Entry (c, mem_read (heap w) (map_payload m i) (melem_size m))"
      and dom: "c \<in> dom (map_abs (heap w) m)" by auto
    from ti i len obtain k where k: "header_slot (headers m ! i) = Entry k"
      by (auto simp: map_slot_def slot_value_def split: slot.splits)
    then have hk: "hkey (headers m ! i) = k" "hstate (headers m ! i) = BUCKET_OCCUPIED"
      by (auto simp: header_slot_def split: bucket_state.splits)
    obtain hdr w1 where rel: "map_release_owned_key w m (headers m ! i) = (hdr, w1)" by fastforce
    define hdr' where "hdr' = hdr\<lparr>hstate := BUCKET_TOMBSTONE\<rparr>"
    have r: "e = PROVEN_OK" "w' = w1" "m' = m\<lparr>headers := (headers m)[i := hdr'], mlen := mlen m - 1\<rparr>"
      using loop Some rel by (auto simp: hdr'_def)
    have g: "header_slot hdr' = Grave" by (simp add: hdr'_def header_slot_def)
    note b = bury [OF wf i ti g k, folded r(3)]
    have f: "key_type m' = key_type m" "trusted_keys m' = trusted_keys m" "melem_size m' = melem_size m"
      "map_block m' = map_block m" "mused m' = mused m" by (simp_all add: r(3))
    have setk: "set (live_keys m) = insert k (set (live_keys m'))"
      using b(3) by (metis set_mset_add_mset_insert set_mset_mset)
    have bsub: "map_blocks m' \<subseteq> map_blocks m" using setk f by (auto simp: map_blocks_def key_blocks_def)
    have "step g w B m w1 m' \<and> map_abs (heap w1) m' = (map_abs (heap w) m)(c := None)"
    proof (cases "key_type m = PROVEN_KEY_TYPE_U8_OWNED \<and> ksize k \<noteq> 0")
      case False
      have "w1 = w"
      proof (cases "key_type m = PROVEN_KEY_TYPE_U8_OWNED")
        case True
        with False keys_owned_key(1) [OF own] setk have "kptr k = 0" by simp
        then show ?thesis using rel hk True by (auto simp: map_release_owned_key_def)
      qed (use rel in \<open>simp add: map_release_owned_key_def\<close>)
      moreover have "map_blocks m' = map_blocks m" using False setk f by (auto simp: map_blocks_def key_blocks_def)
      ultimately show ?thesis using b(1,2) f step_same [OF wf b(1)] by simp
    next
      case True
      let ?b = "(kptr k, ksize k)"
      have "?b \<in> B - {map_block m}" using keys_owned_key(2) [OF own] True setk by simp
      then have bB: "?b \<in> B" "?b \<noteq> map_block m" by auto
      have "keys_owned (key_type m) (B - {map_block m}) (k # live_keys m')"
        using own by (subst keys_owned_perm [of _ "live_keys m"]) (simp_all add: b(3))
      then have "distinct (map kptr (filter (\<lambda>k. ksize k \<noteq> 0) (k # live_keys m')))"
        using True unfolding keys_owned_def by blast
      then have "\<forall>l \<in> set (live_keys m'). ksize l \<noteq> 0 \<longrightarrow> kptr l \<noteq> kptr k"
        using True by (force simp: image_iff)
      then have nb: "?b \<notin> map_blocks m'" using bB f by (auto simp: map_blocks_def key_blocks_def)
      have "kptr k \<noteq> 0" using inv_block [OF w(1) bB(1)] by simp
      then have w1: "w1 = free_call al w (kptr k)"
        using rel hk True w(3) al_valid by (auto simp: map_release_owned_key_def proven_alloc_is_valid_def)
      note fo = free_other [OF b(1) bB(1) nb, folded w1]
      have bl: "map_blocks m = insert ?b (map_blocks m')"
        using True setk f by (auto simp: map_blocks_def key_blocks_def)
      have "B - map_blocks m \<union> map_blocks m' = B - {?b}"
        using bl nb map_blocks_live(1) [OF b(1)] by auto
      moreover have "keeps managed w (B - map_blocks m) w1"
        using bl by (intro keeps_mono [OF fo(3)]) (auto simp: True f)
      ultimately show ?thesis
        using fo True f b(2) bsub by (auto simp: map_step_def)
    qed
    then show ?thesis using m' r dom bsub f by simp
  qed
qed

end

end
