(* ===== verification/Map_Life.thy ===== *)
theory Map_Life
  imports Map_Refine
begin

text \<open>
  Creating, walking and destroying a hash map. The bit smearing of \<^verbatim>\<open>next_pow2\<close> gives the least power of
  two; a new map is empty and owns its bucket array; an iterator that starts on a map meets every
  entry once, in bucket order; destroying frees the bucket array and every owned key, each once.
\<close>

section \<open>The next power of two\<close>

lemma smear_step:
  assumes "\<And>i. bit a i \<longleftrightarrow> (\<exists>j < n. bit x (i + j))"
  shows "bit (a OR drop_bit n a) i \<longleftrightarrow> (\<exists>j < 2 * n. bit (x :: 64 word) (i + j))"
proof
  assume "bit (a OR drop_bit n a) i"
  then have "bit a i \<or> bit a (n + i)" by (simp add: bit_or_iff bit_drop_bit_eq)
  then show "\<exists>j < 2 * n. bit x (i + j)"
  proof
    assume "bit a i"
    then show ?thesis unfolding assms by (metis less_le_trans mult_2 le_add1)
  next
    assume "bit a (n + i)"
    then obtain j where "j < n" "bit x (n + i + j)" unfolding assms by blast
    then show ?thesis by (intro exI [of _ "n + j"]) (simp add: ac_simps)
  qed
next
  assume "\<exists>j < 2 * n. bit x (i + j)"
  then obtain j where j: "j < 2 * n" "bit x (i + j)" by blast
  have "bit a i \<or> bit a (n + i)"
  proof (cases "j < n")
    case True
    with j show ?thesis unfolding assms by blast
  next
    case False
    with j have "j - n < n" "bit x (n + i + (j - n))" by (simp_all add: ac_simps)
    then show ?thesis unfolding assms by blast
  qed
  then show "bit (a OR drop_bit n a) i" by (simp add: bit_or_iff bit_drop_bit_eq)
qed

definition smear :: "64 word \<Rightarrow> 64 word" where
  "smear v =
    (let v = v OR drop_bit 1 v; v = v OR drop_bit 2 v; v = v OR drop_bit 4 v;
         v = v OR drop_bit 8 v; v = v OR drop_bit 16 v in v OR drop_bit 32 v)"

lemma bit_smear: "bit (smear x) i \<longleftrightarrow> (\<exists>j < 64. bit x (i + j))"
proof -
  have 0: "\<And>i. bit x i \<longleftrightarrow> (\<exists>j < 1. bit x (i + j))" by simp
  note 1 = smear_step [OF 0, simplified]
  note 2 = smear_step [OF 1, simplified]
  note 3 = smear_step [OF 2, simplified]
  note 4 = smear_step [OF 3, simplified]
  note 5 = smear_step [OF 4, simplified]
  note 6 = smear_step [OF 5, simplified]
  show ?thesis unfolding smear_def Let_def using 6 by simp
qed

lemma unat_less_bits: "(\<And>i. n \<le> i \<Longrightarrow> \<not> bit (x :: 64 word) i) \<Longrightarrow> unat x < 2 ^ n"
proof -
  assume "\<And>i. n \<le> i \<Longrightarrow> \<not> bit x i"
  then have "take_bit n x = x" by (intro bit_eqI) (auto simp: bit_take_bit_iff not_le [symmetric])
  then have "unat x = take_bit n (unat x)" by (metis unsigned_take_bit_eq)
  then show ?thesis by (metis take_bit_nat_less_exp)
qed

lemma bit_unat_ge: "bit (x :: 64 word) i \<Longrightarrow> 2 ^ i \<le> unat x"
proof -
  assume "bit x i"
  then have "bit (unat x) i" by (simp add: bit_unsigned_iff)
  then have "odd (unat x div 2 ^ i)" by (simp add: bit_iff_odd)
  then have "unat x div 2 ^ i \<noteq> 0" by (metis even_zero)
  then show ?thesis by (simp add: div_eq_0_iff not_less)
qed

text \<open>The smeared word is a run of ones up to the highest bit.\<close>

lemma smear_mask:
  assumes "unat x < 2 ^ 63"
  shows "\<exists>n \<le> 63. smear x = mask n \<and> unat x < 2 ^ n \<and> (\<forall>m. unat x < 2 ^ m \<longrightarrow> n \<le> m)"
proof -
  define n where "n = (LEAST n. unat x < 2 ^ n)"
  have lt: "unat x < 2 ^ n" unfolding n_def by (rule LeastI [of _ 63]) (rule assms)
  have least: "n \<le> m" if "unat x < 2 ^ m" for m unfolding n_def using that by (rule Least_le)
  have n63: "n \<le> 63" by (rule least [OF assms])
  have "smear x = mask n"
  proof (rule bit_eqI)
    fix i
    assume i: "possible_bit TYPE(64 word) i"
    show "bit (smear x) i \<longleftrightarrow> bit (mask n :: 64 word) i"
    proof (cases "i < n")
      case True
      have "\<exists>m \<ge> i. bit x m"
      proof (rule ccontr)
        assume "\<not> (\<exists>m \<ge> i. bit x m)"
        then have "unat x < 2 ^ i" by (intro unat_less_bits) blast
        from least [OF this] True show False by simp
      qed
      then obtain m where m: "i \<le> m" "bit x m" by blast
      have "m < 64" using bit_imp_le_length [OF m(2)] by simp
      with m have "m - i < 64" "bit x (i + (m - i))" by simp_all
      then have "bit (smear x) i" unfolding bit_smear by blast
      with True n63 show ?thesis by (simp add: bit_mask_iff)
    next
      case False
      have "\<not> bit x (i + j)" for j
      proof
        assume "bit x (i + j)"
        from bit_unat_ge [OF this] have "(2 :: nat) ^ (i + j) < 2 ^ n" using lt by linarith
        with False show False by simp
      qed
      then show ?thesis using False by (simp add: bit_smear bit_mask_iff)
    qed
  qed
  with n63 lt least show ?thesis by blast
qed

lemma next_pow2_value:
  assumes "8 \<le> v" "v \<le> 2 ^ 63"
  shows "\<exists>n. next_pow2 v = Inr (2 ^ n) \<and> v \<le> 2 ^ n \<and> (\<forall>m. v \<le> 2 ^ m \<longrightarrow> n \<le> m)"
proof -
  let ?x = "(of_nat v :: 64 word) - 1"
  have u: "unat (of_nat v :: 64 word) = v" using assms(2) by (simp add: unat_of_nat)
  then have "(of_nat v :: 64 word) \<noteq> 0" using assms(1) by (metis not_numeral_le_zero unat_0)
  from unat_minus_one [OF this] u have x: "unat ?x = v - 1" by simp
  have "unat ?x < 2 ^ 63" using x assms by simp
  from smear_mask [OF this] obtain n where n: "n \<le> 63" "smear ?x = mask n" "unat ?x < 2 ^ n"
    "\<forall>m. unat ?x < 2 ^ m \<longrightarrow> n \<le> m" by blast
  have "unat (mask n + 1 :: 64 word) = 2 ^ n"
  proof -
    have "(mask n + 1 :: 64 word) = of_nat (2 ^ n)" by (simp add: mask_eq_exp_minus_1)
    moreover have "(2 :: nat) ^ n < 2 ^ 64" using n(1) by (intro power_strict_increasing) auto
    ultimately show ?thesis by (simp add: unat_of_nat del: of_nat_power)
  qed
  moreover have "next_pow2 v = Inr (unat (smear ?x + 1))"
    using assms by (simp add: next_pow2_def smear_def Let_def)
  ultimately have "next_pow2 v = Inr (2 ^ n)" using n(2) by simp
  moreover have "v \<le> 2 ^ m \<longleftrightarrow> unat ?x < 2 ^ m" for m using x assms(1) by auto
  ultimately show ?thesis using n(3,4) by blast
qed

lemma next_pow2_ok:
  assumes "next_pow2 v = Inr p"
  shows "proven_is_pow2 p" "v \<le> p" "8 \<le> p"
proof -
  have "proven_is_pow2 p \<and> v \<le> p \<and> 8 \<le> p"
  proof (cases "v < 8")
    case True
    have "proven_is_pow2 8" by (auto simp: proven_is_pow2_iff intro: exI [of _ 3])
    then show ?thesis using assms True by (simp add: next_pow2_def)
  next
    case False
    then have "v \<le> 2 ^ 63" using assms by (auto simp: next_pow2_def split: if_splits)
    with next_pow2_value [of v] False assms obtain n where n: "p = 2 ^ n" "v \<le> 2 ^ n" by auto
    with False show ?thesis by (auto simp: proven_is_pow2_iff)
  qed
  then show "proven_is_pow2 p" "v \<le> p" "8 \<le> p" by blast+
qed

lemma next_pow2_err: "next_pow2 v = Inl e \<Longrightarrow> e = PROVEN_ERR_OVERFLOW"
  by (auto simp: next_pow2_def Let_def split: if_splits)

section \<open>Walking\<close>

text \<open>Calling \<^verbatim>\<open>proven_map_iter_next\<close> at most \<open>n\<close> times, as long as it succeeds.\<close>

fun map_walk :: "'c proven_map \<Rightarrow> nat \<Rightarrow> proven_map_iter \<Rightarrow> (proven_map_key \<times> addr) list" where
  "map_walk m 0 it = []"
| "map_walk m (Suc n) it =
    (case proven_map_iter_next (Some it) (Some m) of
       (PROVEN_OK, Some it', Some out) \<Rightarrow> out # map_walk m n it'
     | _ \<Rightarrow> [])"

definition entries_from :: "'c proven_map \<Rightarrow> nat \<Rightarrow> (proven_map_key \<times> addr) list" where
  "entries_from m i = map (\<lambda>j. (hkey (headers m ! j), map_payload m j))
     (filter (\<lambda>j. hstate (headers m ! j) = BUCKET_OCCUPIED) [i..<mcap m])"

lemma entries_from_step:
  "i < mcap m \<Longrightarrow> entries_from m i =
    (if hstate (headers m ! i) = BUCKET_OCCUPIED then [(hkey (headers m ! i), map_payload m i)] else []) @
    entries_from m (Suc i)"
  by (simp add: entries_from_def upt_conv_Cons)

lemma iter_loop_entries:
  assumes "map_shape m" "it_next it + n = mcap m"
  shows "case entries_from m (it_next it) of
      [] \<Rightarrow> map_iter_loop m it n = (PROVEN_ERR_EOF, it\<lparr>it_next := mcap m\<rparr>, None)
    | x # xs \<Rightarrow> \<exists>j < mcap m. map_iter_loop m it n = (PROVEN_OK, it\<lparr>it_next := Suc j\<rparr>, Some x) \<and>
        xs = entries_from m (Suc j)"
  using assms(2)
proof (induction n arbitrary: it)
  case 0
  then show ?case by (simp add: entries_from_def)
next
  case (Suc n)
  let ?i = "it_next it"
  have i: "?i < mcap m" using Suc.prems by simp
  note off = offset_Some [OF assms(1) i]
  show ?case
  proof (cases "hstate (headers m ! ?i) = BUCKET_OCCUPIED")
    case True
    then show ?thesis using off i by (auto simp: entries_from_step [OF i] map_payload_def Let_def)
  next
    case False
    have "map_iter_loop m it (Suc n) = map_iter_loop m (it\<lparr>it_next := Suc ?i\<rparr>) n"
      using False off by (simp add: Let_def)
    moreover have "entries_from m ?i = entries_from m (Suc ?i)" using False entries_from_step [OF i] by simp
    ultimately show ?thesis
      using Suc.IH [of "it\<lparr>it_next := Suc ?i\<rparr>"] Suc.prems
      by (auto simp del: map_iter_loop.simps split: list.splits)
  qed
qed

lemma walk_entries:
  assumes "map_shape m" "it_storage it = ptr (internal m)" "it_cap it = mcap m" "it_next it \<le> mcap m"
  shows "map_walk m n it = take n (entries_from m (it_next it))"
  using assms(2-)
proof (induction n arbitrary: it)
  case 0
  then show ?case by simp
next
  case (Suc n)
  have v: "proven_map_is_valid (Some m)" by (rule shape_facts [OF assms(1)])
  have nx: "proven_map_iter_next (Some it) (Some m) =
      (case map_iter_loop m it (mcap m - it_next it) of (e, i', out) \<Rightarrow> (e, Some i', out))"
    using Suc.prems v by (simp add: proven_map_iter_next_def)
  note l = iter_loop_entries [OF assms(1), of it "mcap m - it_next it"]
  show ?case
  proof (cases "entries_from m (it_next it)")
    case Nil
    then show ?thesis using l nx Suc.prems by simp
  next
    case (Cons x xs)
    then obtain j where j: "j < mcap m" "xs = entries_from m (Suc j)"
      "map_iter_loop m it (mcap m - it_next it) = (PROVEN_OK, it\<lparr>it_next := Suc j\<rparr>, Some x)"
      using l Suc.prems by auto
    then show ?thesis using nx Cons Suc.IH [of "it\<lparr>it_next := Suc j\<rparr>"] Suc.prems by simp
  qed
qed

lemma slot_entries_filter:
  "(\<And>x. x \<in> set xs \<Longrightarrow> (if P x then f x = Entry (h x) else \<forall>e. f x \<noteq> Entry e)) \<Longrightarrow>
    slot_entries (map f xs) = map h (filter P xs)"
proof (induction xs)
  case Nil
  then show ?case by simp
next
  case (Cons x xs)
  then have "slot_entries (map f xs) = map h (filter P xs)" by simp
  moreover have "if P x then f x = Entry (h x) else \<forall>e. f x \<noteq> Entry e" using Cons.prems by simp
  ultimately show ?case by (cases "f x") (auto split: if_splits)
qed

lemma entries_table:
  assumes "map_shape m"
  shows "map (\<lambda>(k, p). (key_content h (key_type m) k, mem_read h p (melem_size m))) (entries_from m 0) =
    slot_entries (map_table h m)"
proof -
  have len: "length (headers m) = mcap m" by (rule shape_facts [OF assms])
  have "slot_entries (map (map_slot h m) [0..<mcap m]) =
    map (\<lambda>j. (key_content h (key_type m) (hkey (headers m ! j)), mem_read h (map_payload m j) (melem_size m)))
      (filter (\<lambda>j. hstate (headers m ! j) = BUCKET_OCCUPIED) [0..<mcap m])"
    by (rule slot_entries_filter)
      (auto simp: map_slot_def slot_value_def header_slot_def split: bucket_state.splits)
  then show ?thesis by (simp add: map_table_def entries_from_def len comp_def)
qed

context allocator_laws
begin

section \<open>Creating\<close>

lemma wf_fresh:
  assumes "proven_map_is_valid (Some m)" "0 < mcap m" "headers m = replicate (mcap m) zero_header"
    "mlen m = 0" "mused m = 0" "inv w B" "malloc m = al" "map_block m \<in> B"
  shows "wf g w B m" "map_abs (heap w) m = Map.empty"
proof -
  have f: "fresh_map m (internal m) (mcap m) = m" using assms by (simp add: fresh_map_def)
  have t: "map_table h m = replicate (mcap m) Free" "live_keys m = []" for h
    using fresh_map_table(1) [of h m "internal m" "mcap m"] fresh_map_table(2) [of m "internal m" "mcap m"]
    unfolding f by simp_all
  have "map_shape m" using assms t by (simp add: map_shape_def)
  then show "wf g w B m"
    using assms t tab.table_ok_empty by (simp add: map_wf_def map_ok_def keys_owned_def keys_placed_def)
  show "map_abs (heap w) m = Map.empty" by (simp add: map_abs_def t table_map_def)
qed

theorem create_correct:
  assumes inv: "inv w B" and run: "proven_map_create w al init_cap kt es align = (q, w')"
  shows "case q of
      Inl e \<Rightarrow> e \<noteq> PROVEN_OK \<and> inv w' B \<and> keeps managed w B w'
    | Inr m \<Rightarrow> map_block m \<notin> B \<and> keeps managed w B w' \<and> map_abs (heap w') m = Map.empty \<and>
        wf g w' (insert (map_block m) B) m \<and> wf g w' (insert (map_block m) B) (m\<lparr>trusted_keys := True\<rparr>) \<and>
        mlen m = 0 \<and> mused m = 0 \<and> init_cap \<le> mcap m \<and> 8 \<le> mcap m \<and> key_type m = kt \<and> melem_size m = es \<and>
        \<not> trusted_keys m"
proof (cases q)
  case (Inl e)
  have "(e \<noteq> PROVEN_OK \<and> w' = w) \<or>
      (\<exists>cap stride r. alloc_buckets w al cap stride align = (r, w') \<and> rerr r \<noteq> PROVEN_OK \<and> e = rerr r)"
    using run Inl next_pow2_err next_pow2_ok(3)
    by (fastforce simp: proven_map_create_def Let_def split: if_splits sum.splits option.splits prod.splits)
  then show ?thesis using Inl inv alloc_buckets_err [OF inv] by auto
next
  case (Inr m)
  let ?po = "proven_mem_align_up header_size (bucket_align align)"
  let ?stride = "proven_mem_align_up (?po + es) (bucket_align align)"
  obtain cap r where c: "next_pow2 init_cap = Inr cap" "alloc_buckets w al cap ?stride align = (r, w')"
      "rerr r = PROVEN_OK" "es \<noteq> 0" "proven_is_pow2 align" "map_key_type_is_valid kt" "?po \<noteq> 0" "?stride \<noteq> 0"
      "?po + es \<le> SIZE_MAX"
    and m: "m = \<lparr>malloc = al, internal = rval r, headers = replicate cap zero_header, mlen = 0, mused = 0,
      mcap = cap, melem_size = es, malign = align, bucket_stride = ?stride, payload_offset = ?po,
      key_type = kt, trusted_keys = False\<rparr>"
    using run Inr next_pow2_ok(3)
    by (fastforce simp: proven_map_create_def Let_def ckd_add_def split: if_splits sum.splits option.splits prod.splits)
  note p = next_pow2_ok [OF c(1)]
  note a = alloc_buckets_ok [OF inv c(2,3)]
  have blk: "map_block m = (ptr (rval r), cap * ?stride)" using a by (simp add: m map_block_def)
  have valid: "proven_map_is_valid (Some m)"
    using c p a al_valid by (simp add: proven_map_is_valid_def m Let_def ckd_add_def ckd_mul_def)
  have valid': "proven_map_is_valid (Some (m\<lparr>trusted_keys := True\<rparr>))"
    using c p a al_valid by (simp add: proven_map_is_valid_def m Let_def ckd_add_def ckd_mul_def)
  have i: "inv w' (insert (map_block m) B)" using a blk by simp
  have "wf g w' (insert (map_block m) B) m" "map_abs (heap w') m = Map.empty"
    by (rule wf_fresh [OF valid _ _ _ _ i]; use p in \<open>simp add: m\<close>)+
  moreover have "wf g w' (insert (map_block m) B) (m\<lparr>trusted_keys := True\<rparr>)"
    by (rule wf_fresh(1) [OF valid' _ _ _ _ i]; use p in \<open>simp add: m map_block_def\<close>)
  ultimately show ?thesis using Inr a blk p by (simp add: m)
qed

section \<open>Destroying\<close>

lemma release_loop:
  assumes wf: "wf g w B m" and kt: "key_type m = PROVEN_KEY_TYPE_U8_OWNED" and n: "i + n = mcap m"
  defines "freed \<equiv> \<lambda>i. {(kptr k, ksize k) | k. k \<in> set (slot_entries (take i (map header_slot (headers m)))) \<and> ksize k \<noteq> 0}"
  assumes "inv w1 (B - freed i)" "keeps managed w (B - key_blocks m) w1"
  shows "inv (map_release_loop w1 m n i) (B - freed (mcap m)) \<and>
    keeps managed w (B - key_blocks m) (map_release_loop w1 m n i)"
  using n assms(5,6)
proof (induction n arbitrary: i w1)
  case 0
  then show ?case by simp
next
  case (Suc n)
  note sh = map_wf_shape [OF wf]
  have i: "i < mcap m" and len: "length (headers m) = mcap m"
    using Suc.prems shape_facts(11) [OF sh] by auto
  note off = offset_Some [OF sh i]
  have mal: "malloc m = al" "free_fn al \<noteq> None" using wf al_valid by (auto simp: map_wf_def proven_alloc_is_valid_def)
  have own: "keys_owned (key_type m) (B - {map_block m}) (live_keys m)" using wf by (simp add: map_wf_def)
  let ?hs = "map header_slot (headers m)"
  let ?w2 = "if hstate (headers m ! i) = BUCKET_OCCUPIED then snd (map_release_owned_key w1 m (headers m ! i)) else w1"
  have "inv ?w2 (B - freed (Suc i)) \<and> keeps managed w (B - key_blocks m) ?w2"
  proof (cases "hstate (headers m ! i) = BUCKET_OCCUPIED")
    case False
    then have "slot_entries (take (Suc i) ?hs) = slot_entries (take i ?hs)"
      using i len by (intro slot_entries_take_skip) (auto simp: header_slot_def split: bucket_state.splits)
    then show ?thesis using False Suc.prems(2,3) by (simp add: freed_def)
  next
    case True
    let ?k = "hkey (headers m ! i)"
    let ?b = "(kptr ?k, ksize ?k)"
    have tk: "slot_entries (take (Suc i) ?hs) = slot_entries (take i ?hs) @ [?k]"
      using slot_entries_take_Suc [of i ?hs] i len True by (simp add: header_slot_def)
    obtain ys where "live_keys m = slot_entries (take (Suc i) ?hs) @ ys"
      unfolding live_keys_def using slot_entries_prefix by blast
    then have ownk: "keys_owned (key_type m) (B - {map_block m}) (slot_entries (take i ?hs) @ [?k])"
      using own keys_owned_append tk by metis
    have live: "?k \<in> set (live_keys m)" using True i len by (intro live_key) simp_all
    show ?thesis
    proof (cases "ksize ?k = 0")
      case z: True
      then have "kptr ?k = 0" using keys_owned_key(1) [OF own kt live] by simp
      then have w2: "?w2 = w1" using True by (simp add: map_release_owned_key_def)
      have "freed (Suc i) = freed i" using z by (auto simp: freed_def tk)
      then show ?thesis using Suc.prems(2,3) w2 by simp
    next
      case nz: False
      have kb: "?b \<in> B" "?b \<in> key_blocks m"
        using keys_owned_key(2) [OF own kt live nz] live nz kt by (auto simp: key_blocks_def)
      have "kptr ?k \<notin> kptr ` {x \<in> set (slot_entries (take i ?hs)). ksize x \<noteq> 0}"
        using ownk kt nz unfolding keys_owned_def by auto
      then have nf: "?b \<in> B - freed i" using kb by (auto simp: freed_def)
      have "kptr ?k \<noteq> 0" using inv_block [OF Suc.prems(2) nf] by simp
      then have w2: "?w2 = free_call al w1 (kptr ?k)"
        using True kt mal by (auto simp: map_release_owned_key_def)
      have fr: "freed (Suc i) = insert ?b (freed i)" using nz by (auto simp: freed_def tk)
      have k2: "keeps managed w1 (B - freed i - {?b}) (free_call al w1 (kptr ?k))"
        unfolding keeps_def
        using free_ok [OF Suc.prems(2) nf] free_frame [OF Suc.prems(2) nf] by simp
      have "freed (Suc i) \<subseteq> key_blocks m"
        using kt tk \<open>live_keys m = slot_entries (take (Suc i) ?hs) @ ys\<close> by (auto simp: freed_def key_blocks_def)
      then have "B - key_blocks m \<subseteq> B - freed i - {?b}" using fr by blast
      from keeps_trans [OF Suc.prems(3) keeps_mono [OF k2 this]]
      have "keeps managed w (B - key_blocks m) ?w2" by (simp only: w2)
      moreover have "B - freed i - {?b} = B - freed (Suc i)" unfolding fr by blast
      then have "inv (free_call al w1 (kptr ?k)) (B - freed (Suc i))"
        using free_ok [OF Suc.prems(2) nf] by simp
      then have "inv ?w2 (B - freed (Suc i))" by (simp only: w2)
      ultimately show ?thesis by (rule conjI [rotated])
    qed
  qed
  then have "inv (map_release_loop ?w2 m n (Suc i)) (B - freed (mcap m)) \<and>
      keeps managed w (B - key_blocks m) (map_release_loop ?w2 m n (Suc i))"
    using Suc.prems(1) by (intro Suc.IH) auto
  then show ?case using off by simp
qed

theorem destroy_correct:
  assumes wf: "wf g w B m" and run: "proven_map_destroy w (Some m) = (mo, w')"
  shows "mo = Some zero_map" "inv w' (B - map_blocks m)" "keeps managed w (B - map_blocks m) w'"
proof -
  note sh = map_wf_shape [OF wf]
  have w: "inv w B" "malloc m = al" "map_block m \<in> B" using wf by (auto simp: map_wf_def)
  have len: "length (headers m) = mcap m" "ptr (internal m) \<noteq> 0" using shape_facts [OF sh] by auto
  define w1 where "w1 = (if key_type m = PROVEN_KEY_TYPE_U8_OWNED then map_release_loop w m (mcap m) 0 else w)"
  have r: "mo = Some zero_map" "w' = free_call al w1 (ptr (internal m))"
    using run len w(2) al_valid by (auto simp: proven_map_destroy_def w1_def Let_def proven_alloc_is_valid_def)
  have i1: "inv w1 (B - key_blocks m)" "keeps managed w (B - key_blocks m) w1"
  proof -
    have "inv w1 (B - key_blocks m) \<and> keeps managed w (B - key_blocks m) w1"
    proof (cases "key_type m = PROVEN_KEY_TYPE_U8_OWNED")
      case True
      then show ?thesis
        using release_loop [OF wf True, of 0 "mcap m" w] w(1) len
        by (simp add: w1_def key_blocks_def live_keys_def)
    next
      case False
      then show ?thesis using w(1) by (simp add: w1_def key_blocks_def)
    qed
    then show "inv w1 (B - key_blocks m)" "keeps managed w (B - key_blocks m) w1" by blast+
  qed
  have blk: "(ptr (internal m), msize (internal m)) \<in> B - key_blocks m"
    using w(3) map_blocks_live(2) [OF wf] by (simp add: map_block_def)
  note f = free_ok [OF i1(1) blk] free_frame [OF i1(1) blk]
  have eq: "B - key_blocks m - {(ptr (internal m), msize (internal m))} = B - map_blocks m"
    by (auto simp: map_blocks_def map_block_def)
  show "mo = Some zero_map" by (rule r)
  show "inv w' (B - map_blocks m)" using f(1) unfolding r(2) eq by blast
  have "keeps managed w1 (B - map_blocks m) w'"
    unfolding keeps_def r(2) using f unfolding eq by blast
  then show "keeps managed w (B - map_blocks m) w'"
    by (intro keeps_trans [OF keeps_mono [OF i1(2)]]) (auto simp: map_blocks_def)
qed

section \<open>Setting and reserving through the public functions\<close>

theorem map_set_correct:
  assumes "wf g w B m" "key_arg managed w B m key" "value_arg managed w B m a"
    "proven_map_set g w (Some m) key a = (e, mo, w')"
  defines "c \<equiv> key_content (heap w) (key_type m) key"
  shows "\<exists>m'. mo = Some m' \<and> step g w B m w' m' \<and>
    map_abs (heap w') m' = (if e = PROVEN_OK then (map_abs (heap w) m)(c \<mapsto> mem_read (heap w) a (melem_size m))
      else map_abs (heap w) m) \<and>
    (e \<noteq> PROVEN_OK \<longrightarrow> c \<notin> dom (map_abs (heap w) m) \<and>
      (key_type m = PROVEN_KEY_TYPE_U8_OWNED \<or> map_threshold (mcap m) \<le> mused m))"
proof -
  have "malloc m = al" using assms(1) by (simp add: map_wf_def)
  with assms(4) have "proven_map_set_with_scratch g w (Some m) key a al = (e, mo, w')"
    by (simp add: proven_map_set_def)
  from set_correct [OF assms(1-3) disjI1 [OF refl] this] show ?thesis unfolding c_def .
qed

theorem reserve_correct:
  assumes "wf g w B m" "proven_map_reserve g w (Some m) n = (e, mo, w')"
  shows "\<exists>m'. mo = Some m' \<and> step g w B m w' m' \<and> map_abs (heap w') m' = map_abs (heap w) m \<and>
    mlen m' = mlen m \<and>
    (if e = PROVEN_OK then n \<le> mcap m' \<and> (mcap m < n \<longrightarrow> mused m' = mlen m') else m' = m)"
proof -
  have v: "proven_map_is_valid (Some m)" and len: "mlen m \<le> mcap m"
    using shape_facts(12) [OF map_wf_shape [OF assms(1)]]
    by (auto simp: proven_map_is_valid_def split: if_splits)
  show ?thesis
  proof (cases "n \<le> mcap m")
    case True
    then have "e = PROVEN_OK" "mo = Some m" "w' = w" using assms(2) v by (auto simp: proven_map_reserve_def)
    with True step_refl [OF assms(1)] show ?thesis by simp
  next
    case False
    then obtain m' where r: "map_rehash_target g w m n = (e, m', w')" "mo = Some m'"
      using assms(2) v by (auto simp: proven_map_reserve_def split: prod.splits)
    have "mlen m \<le> n" using False len by simp
    from rehash_target_correct [OF assms(1) this r(1)] r(2) show ?thesis by auto
  qed
qed

end

end
