(* ===== verification/Map_Props.thy ===== *)
theory Map_Props
  imports Map_Life
begin

text \<open>
  The properties of the hash map, for maps whose allocator is the arena (the interpretation \<open>arena\<close> of
  the contract), and a concrete map for the witnesses. \<open>map_run\<close> is the step relation of the public
  operations beside the finite map they are to implement: every run keeps the two equal.
\<close>

abbreviation arena_map_wf where
  "arena_map_wf \<equiv> map_wf arena_inv arena_managed arena_al"

abbreviation arena_map_step where
  "arena_map_step \<equiv> map_step arena_inv arena_managed arena_al"

section \<open>A concrete map\<close>

definition demo_created :: "(proven_err + proven_arena proven_map) \<times> arena_world" where
  "demo_created = proven_map_create demo_world arena_al 0 PROVEN_KEY_TYPE_INT 4 4"

definition demo_map :: "proven_arena proven_map" where
  "demo_map = projr (fst demo_created)"

definition demo_map_world :: arena_world where
  "demo_map_world = snd demo_created"

definition demo_secret :: "byte list" where
  "demo_secret = map of_nat [0..<16]"

definition demo_key :: proven_map_key where
  "demo_key = \<lparr>kid = 7, kptr = 0, ksize = 0\<rparr>"

lemma demo_created_ok: "demo_created = (Inr demo_map, demo_map_world)"
proof -
  have "\<exists>m. fst demo_created = Inr m"
    by (simp add: demo_created_def proven_map_create_def next_pow2_def alloc_buckets_def
        header_size_def header_align_def bucket_align_def map_key_type_is_valid_def
        proven_mem_align_up_def arena_eval)
  then show ?thesis unfolding demo_map_def demo_map_world_def by (metis prod.collapse sum.sel(2))
qed

lemma demo_map_wf:
  "arena_map_wf g demo_map_world {map_block demo_map} demo_map"
  "map_abs (heap demo_map_world) demo_map = Map.empty" "mused demo_map = 0" "key_type demo_map = PROVEN_KEY_TYPE_INT"
  "melem_size demo_map = 4" "arena_managed demo_map_world = {4096..<5120}" "8 \<le> mcap demo_map" "mlen demo_map = 0"
  using arena.create_correct [OF demo_world_inv demo_created_ok [unfolded demo_created_def], of g] demo_world_managed
  by (auto simp: keeps_def)

lemma demo_args:
  "key_arg arena_managed demo_map_world {map_block demo_map} demo_map demo_key"
  "value_arg arena_managed demo_map_world {map_block demo_map} demo_map 64"
  using demo_map_wf by (auto simp: key_arg_def map_key_is_valid_def value_arg_def placed_def span_def)

section \<open>Properties\<close>



text \<open>C7: a lookup finds exactly the keys of the finite map: it answers null for a key that is not bound,
  and otherwise the address, inside the bucket array, of the value bound to it. The two lookups answer
  alike and nothing is changed.\<close>

theorem map_get_refines:
  assumes "arena_map_wf g w B m" "map_key_is_valid (key_type m) key"
  shows "(case map_abs (heap w) m (key_content (heap w) (key_type m) key) of
      None \<Rightarrow> proven_map_get g (heap w) (Some m) key = 0
    | Some v \<Rightarrow> proven_map_get g (heap w) (Some m) key \<noteq> 0 \<and>
        mem_read (heap w) (proven_map_get g (heap w) (Some m) key) (melem_size m) = v \<and>
        span (proven_map_get g (heap w) (Some m) key, melem_size m) \<subseteq> span (map_block m)) \<and>
    proven_map_get_mut g (heap w) (Some m) key = proven_map_get g (heap w) (Some m) key"
proof -
  note sh = map_wf_shape [OF assms(1)]
  have same: "proven_map_get_mut g (heap w) (Some m) key = proven_map_get g (heap w) (Some m) key"
    "proven_map_get g (heap w) (Some m) key = map_find_payload_mut g (heap w) m key"
    using shape_facts(12) [OF sh]
    by (simp_all add: proven_map_get_def proven_map_get_mut_def map_find_payload_mut_def map_find_payload_const_def)
  show ?thesis
    unfolding same using arena.find_cases [OF assms] payload_in_block [OF sh]
    by (auto simp: map_block_def split: option.splits)
qed

theorem map_get_refines_witness:
  "proven_map_get demo_secret (heap demo_map_world) (Some demo_map) demo_key = 0"
  using map_get_refines [OF demo_map_wf(1), of demo_key demo_secret] demo_map_wf by (simp add: map_key_is_valid_def)

text \<open>C6: removing a key refines restricting the finite map: the key is unbound afterwards and every other
  key keeps its value, also those whose probe passes the removed bucket; the answer tells whether the
  key was bound. The copy of an owned key is freed and no other block is.\<close>

theorem map_remove_refines:
  assumes "arena_map_wf g w B m" "map_key_is_valid (key_type m) key"
    "proven_map_remove g w (Some m) key = (e, mo, w')"
  defines "c \<equiv> key_content (heap w) (key_type m) key"
  shows "\<exists>m'. mo = Some m' \<and> arena_map_step g w B m w' m' \<and> map_abs (heap w') m' = (map_abs (heap w) m)(c := None) \<and>
    e = (if c \<in> dom (map_abs (heap w) m) then PROVEN_OK else PROVEN_ERR_NOT_FOUND) \<and>
    map_blocks m' \<subseteq> map_blocks m \<and> mused m' = mused m"
  using arena.remove_correct [OF assms(1-3)] unfolding c_def .

theorem map_remove_refines_witness:
  "\<exists>m' w'. proven_map_remove demo_secret demo_map_world (Some demo_map) demo_key = (PROVEN_ERR_NOT_FOUND, Some m', w') \<and>
    map_abs (heap w') m' = Map.empty"
proof -
  obtain e mo w' where r: "proven_map_remove demo_secret demo_map_world (Some demo_map) demo_key = (e, mo, w')"
    by (cases "proven_map_remove demo_secret demo_map_world (Some demo_map) demo_key")
  from map_remove_refines [OF demo_map_wf(1) _ r] r demo_map_wf show ?thesis
    by (auto simp: map_key_is_valid_def)
qed

text \<open>reserving keeps the finite map and the length, grows the table to at least the capacity asked for,
  and leaves no tombstone in a table it moved; a failure leaves the struct as it was. In both cases no
  byte that is not the map's is changed, and the old bucket array is given back.\<close>

theorem map_reserve_keeps:
  assumes "arena_map_wf g w B m" "proven_map_reserve g w (Some m) n = (e, mo, w')"
  shows "\<exists>m'. mo = Some m' \<and> arena_map_step g w B m w' m' \<and> map_abs (heap w') m' = map_abs (heap w) m \<and>
    mlen m' = mlen m \<and>
    (if e = PROVEN_OK then n \<le> mcap m' \<and> (mcap m < n \<longrightarrow> mused m' = mlen m') else m' = m)"
  using arena.reserve_correct [OF assms] .

theorem map_reserve_keeps_witness:
  "\<exists>e m' w'. proven_map_reserve demo_secret demo_map_world (Some demo_map) 20 = (e, Some m', w') \<and>
    map_abs (heap w') m' = Map.empty"
proof -
  obtain e mo w' where r: "proven_map_reserve demo_secret demo_map_world (Some demo_map) 20 = (e, mo, w')"
    by (cases "proven_map_reserve demo_secret demo_map_world (Some demo_map) 20")
  from map_reserve_keeps [OF demo_map_wf(1) r] r demo_map_wf(2) show ?thesis by auto
qed

text \<open>C13: a walk with an iterator meets every entry of the map exactly once, with its key and the address of
  its value, and then ends: enough calls return as many pairs as the map has entries, their keys have
  distinct contents, and read as an association list they are the finite map.\<close>

theorem map_walk_complete:
  assumes "arena_map_wf g w B m" "mlen m \<le> n"
  defines "xs \<equiv> map (\<lambda>(k, p). (key_content (heap w) (key_type m) k, mem_read (heap w) p (melem_size m)))
    (map_walk m n (proven_map_iter_init (Some m)))"
  shows "length xs = proven_map_len (Some m) \<and> distinct (map fst xs) \<and> map_of xs = map_abs (heap w) m"
proof -
  note sh = map_wf_shape [OF assms(1)]
  have ok: "table_ok (map_home g (trusted_keys m)) (map_table (heap w) m)"
    "mlen m = length (slot_entries (map_table (heap w) m))"
    using assms(1) by (auto simp: map_wf_def map_ok_def)
  have e: "length (entries_from m 0) = mlen m"
    using arg_cong [OF entries_table [OF sh, of "heap w"], of length] ok(2) by simp
  have "map_walk m n (proven_map_iter_init (Some m)) = entries_from m 0"
    using walk_entries [OF sh, of "proven_map_iter_init (Some m)" n] e assms(2)
    by (simp add: proven_map_iter_init_def)
  then have "xs = slot_entries (map_table (heap w) m)"
    using entries_table [OF sh, of "heap w"] by (simp add: xs_def)
  then show ?thesis
    using ok tab.table_ok_distinct [OF ok(1)] by (simp add: proven_map_len_def map_abs_def table_map_def)
qed

theorem map_walk_complete_witness:
  "map_walk demo_map 3 (proven_map_iter_init (Some demo_map)) = []"
  using map_walk_complete [OF demo_map_wf(1), of 3] demo_map_wf(8) by (simp add: proven_map_len_def)

text \<open>C14: destroying a map frees its bucket array and every key it owns, each exactly once (the allocator's
  invariant holds for the blocks that remain), frees nothing else, touches no other byte, and zeroes
  the struct.\<close>

theorem map_destroy_frees:
  assumes "arena_map_wf g w B m" "proven_map_destroy w (Some m) = (mo, w')"
  shows "mo = Some zero_map \<and> arena_inv w' (B - map_blocks m) \<and> map_blocks m \<subseteq> B \<and>
    keeps arena_managed w (B - map_blocks m) w'"
  using arena.destroy_correct [OF assms] arena.map_blocks_live(1) [OF assms(1)] by blast

theorem map_destroy_frees_witness:
  "\<exists>w'. proven_map_destroy demo_map_world (Some demo_map) = (Some zero_map, w') \<and> arena_inv w' {}"
proof -
  obtain mo w' where r: "proven_map_destroy demo_map_world (Some demo_map) = (mo, w')"
    by (cases "proven_map_destroy demo_map_world (Some demo_map)")
  from map_destroy_frees [OF demo_map_wf(1) r] r show ?thesis by (simp add: map_blocks_def)
qed

text \<open>C15: creating a map gives an empty map on a block of its own, with the least power of two that is at
  least 8 and the capacity asked for; a failure gives an error and no block.\<close>

theorem map_create_empty:
  assumes "arena_inv w B" "proven_map_create w arena_al n kt es al = (q, w')"
  shows "(case q of
      Inl e \<Rightarrow> e \<noteq> PROVEN_OK \<and> arena_inv w' B
    | Inr m \<Rightarrow> map_block m \<notin> B \<and> arena_map_wf g w' (insert (map_block m) B) m \<and>
        map_abs (heap w') m = Map.empty \<and> proven_map_len (Some m) = 0 \<and>
        n \<le> mcap m \<and> 8 \<le> mcap m \<and> (\<forall>k. 8 \<le> (2 :: nat) ^ k \<and> n \<le> 2 ^ k \<longrightarrow> mcap m \<le> 2 ^ k)) \<and>
    keeps arena_managed w B w'"
proof (cases q)
  case (Inl e)
  with arena.create_correct [OF assms(1,2)] show ?thesis by simp
next
  case (Inr m)
  have "next_pow2 n = Inr (mcap m)"
    using assms(2) Inr next_pow2_ok(3)
    by (fastforce simp: proven_map_create_def Let_def split: if_splits sum.splits option.splits prod.splits)
  moreover from this have "n < 8 \<or> 8 \<le> n \<and> n \<le> 2 ^ 63"
    by (auto simp: next_pow2_def split: if_splits)
  ultimately have "\<forall>k. 8 \<le> (2 :: nat) ^ k \<and> n \<le> 2 ^ k \<longrightarrow> mcap m \<le> 2 ^ k"
    using next_pow2_value [of n] by (auto simp: next_pow2_def)
  with Inr arena.create_correct [OF assms(1,2), of g] show ?thesis by (simp add: proven_map_len_def)
qed

theorem map_create_empty_witness:
  "proven_map_len (Some demo_map) = 0 \<and> map_abs (heap demo_map_world) demo_map = Map.empty"
  using map_create_empty [OF demo_world_inv demo_created_ok [unfolded demo_created_def]] by simp

section \<open>Runs\<close>

text \<open>The bytes the keys of a map lie in, which its clients must leave alone.\<close>

definition key_bytes :: "'c proven_map \<Rightarrow> addr set" where
  "key_bytes m = (if key_type m = PROVEN_KEY_TYPE_INT then {}
     else \<Union>k \<in> set (live_keys m). span (kptr k, ksize k))"

text \<open>Runs of the public operations from a map, beside the finite map \<open>f\<close> they are to implement. Between
  them the client writes anywhere but in the bucket array and the bytes of the keys.\<close>

inductive map_run ::
  "byte list \<Rightarrow> arena_world \<Rightarrow> (addr \<times> nat) set \<Rightarrow> proven_arena proven_map \<Rightarrow>
    arena_world \<Rightarrow> (addr \<times> nat) set \<Rightarrow> proven_arena proven_map \<Rightarrow> (content \<rightharpoonup> byte list) \<Rightarrow> bool"
  for g w0 B0 m0 where
  Run_start: "map_run g w0 B0 m0 w0 B0 m0 (map_abs (heap w0) m0)"
| Run_client: "map_run g w0 B0 m0 w B m f \<Longrightarrow>
    (\<forall>x \<in> span (map_block m) \<union> key_bytes m. h x = heap w x) \<Longrightarrow>
    map_run g w0 B0 m0 (w\<lparr>heap := h\<rparr>) B m f"
| Run_set: "map_run g w0 B0 m0 w B m f \<Longrightarrow>
    key_arg arena_managed w B m key \<Longrightarrow> value_arg arena_managed w B m a \<Longrightarrow>
    proven_map_set g w (Some m) key a = (e, Some m', w') \<Longrightarrow>
    map_run g w0 B0 m0 w' (B - map_blocks m \<union> map_blocks m') m'
      (if e = PROVEN_OK then f(key_content (heap w) (key_type m) key \<mapsto> mem_read (heap w) a (melem_size m)) else f)"
| Run_remove: "map_run g w0 B0 m0 w B m f \<Longrightarrow> map_key_is_valid (key_type m) key \<Longrightarrow>
    proven_map_remove g w (Some m) key = (e, Some m', w') \<Longrightarrow>
    map_run g w0 B0 m0 w' (B - map_blocks m \<union> map_blocks m') m'
      (f(key_content (heap w) (key_type m) key := None))"
| Run_reserve: "map_run g w0 B0 m0 w B m f \<Longrightarrow>
    proven_map_reserve g w (Some m) n = (e, Some m', w') \<Longrightarrow>
    map_run g w0 B0 m0 w' (B - map_blocks m \<union> map_blocks m') m' f"

lemma client_keeps:
  assumes wf: "arena_map_wf g w B m" and same: "\<forall>x \<in> span (map_block m) \<union> key_bytes m. h x = heap w x"
  shows "arena_map_wf g (w\<lparr>heap := h\<rparr>) B m" "map_abs h m = map_abs (heap w) m"
proof -
  note sh = map_wf_shape [OF wf]
  have t: "map_table h m = map_table (heap w) m"
  proof (rule table_cong)
    fix k
    assume k: "k \<in> set (live_keys m)"
    show "key_content h (key_type m) k = key_content (heap w) (key_type m) k"
    proof (cases "key_type m = PROVEN_KEY_TYPE_INT")
      case False
      have "span (kptr k, ksize k) \<subseteq> key_bytes m" using False k unfolding key_bytes_def by auto
      with same have "mem_read h (kptr k) (ksize k) = mem_read (heap w) (kptr k) (ksize k)"
        by (intro mem_read_frame) blast
      then show ?thesis using False by (simp add: key_content_def)
    qed (simp add: key_content_def)
  next
    fix i
    assume "i < length (headers m)"
    then have "span (map_payload m i, melem_size m) \<subseteq> span (map_block m)"
      using payload_in_block(1) [OF sh] shape_facts(11) [OF sh] by (simp add: map_block_def)
    with same show "mem_read h (map_payload m i) (melem_size m) = mem_read (heap w) (map_payload m i) (melem_size m)"
      by (intro mem_read_frame) blast
  qed
  then show "map_abs h m = map_abs (heap w) m" by (simp add: map_abs_def)
  show "arena_map_wf g (w\<lparr>heap := h\<rparr>) B m"
    using wf t
    by (simp add: map_wf_def map_ok_def arena_inv_def keys_placed_def placed_def arena_managed_def)
qed

text \<open>C5: however the operations are interleaved with each other and with the client's own writes, the map
  stays well formed, stands for the finite map that the same updates give, and its length is the number
  of keys bound.\<close>

theorem map_run_invariant:
  assumes "map_run g w0 B0 m0 w B m f" "arena_map_wf g w0 B0 m0"
  shows "arena_map_wf g w B m \<and> map_abs (heap w) m = f \<and> proven_map_len (Some m) = card (dom f)"
proof -
  have "arena_map_wf g w B m \<and> map_abs (heap w) m = f"
    using assms
  proof (induction rule: map_run.induct)
    case (Run_client w B m f h)
    then show ?case using client_keeps [of g w B m h] by auto
  next
    case (Run_set w B m f key a e m' w')
    then show ?case
      using arena.map_set_correct [of g w B m key a e "Some m'" w'] by (auto simp: map_step_def)
  next
    case (Run_remove w B m f key e m' w')
    then show ?case
      using arena.remove_correct [of g w B m key e "Some m'" w'] by (auto simp: map_step_def)
  next
    case (Run_reserve w B m f n e m' w')
    then show ?case
      using arena.reserve_correct [of g w B m n e "Some m'" w'] by (auto simp: map_step_def)
  qed simp
  moreover from this have "card (dom f) = mlen m"
  proof -
    assume wf: "arena_map_wf g w B m \<and> map_abs (heap w) m = f"
    then have d: "distinct (map fst (slot_entries (map_table (heap w) m)))"
      and l: "mlen m = length (slot_entries (map_table (heap w) m))"
      by (auto simp: map_wf_def map_ok_def table_ok_def)
    have "dom f = set (map fst (slot_entries (map_table (heap w) m)))"
      using wf dom_map_of_conv_image_fst [of "slot_entries (map_table (heap w) m)"]
      by (simp add: map_abs_def table_map_def del: map_of_eq_Some_iff)
    then show ?thesis using distinct_card [OF d] l by simp
  qed
  ultimately show ?thesis by (simp add: proven_map_len_def)
qed

theorem map_run_invariant_witness:
  "\<exists>w B m. map_run demo_secret demo_map_world {map_block demo_map} demo_map w B m Map.empty \<and> arena_map_wf demo_secret w B m \<and>
    proven_map_len (Some m) = 0"
proof -
  obtain e mo w' where r: "proven_map_remove demo_secret demo_map_world (Some demo_map) demo_key = (e, mo, w')"
    by (cases "proven_map_remove demo_secret demo_map_world (Some demo_map) demo_key")
  have v: "map_key_is_valid (key_type demo_map) demo_key" by (simp add: demo_map_wf map_key_is_valid_def)
  from arena.remove_correct [OF demo_map_wf(1) v r] r obtain m' where r': "proven_map_remove demo_secret demo_map_world (Some demo_map) demo_key = (e, Some m', w')"
    by auto
  note run = Run_remove [OF Run_start v r', unfolded demo_map_wf(2) fun_upd_triv]
  have "(Map.empty :: content \<rightharpoonup> byte list)(c := None) = Map.empty" for c by simp
  with run have "map_run demo_secret demo_map_world {map_block demo_map} demo_map w'
      ({map_block demo_map} - map_blocks demo_map \<union> map_blocks m') m' Map.empty" by simp
  with map_run_invariant [OF this demo_map_wf(1)] show ?thesis by auto
qed

end
