(* ===== verification/Algorithm.thy ===== *)
theory Algorithm
  imports Array
begin

text \<open>
  Sorting and searching: \<^verbatim>\<open>include/proven/algorithm.h\<close> and \<^verbatim>\<open>src/proven/algorithm.c\<close>. The elements are
  byte ranges of the memory and every function moves bytes, as in C; the scratch element of an
  insertion is a list of bytes (a buffer on the stack). A comparator \<open>c\<close> is what the caller's function
  answers on the contents of two elements: it may read memory the elements point to, which the sort
  does not change. The sort is an introsort: a three-way partition, insertion sort for short ranges,
  heapsort when the depth budget is spent.
\<close>

type_synonym compare_fn = "byte list \<Rightarrow> byte list \<Rightarrow> int"

definition elem_at :: "addr \<Rightarrow> nat \<Rightarrow> nat \<Rightarrow> addr" where
  "elem_at base i sz = base + wrap (i * sz)"

abbreviation cmp_at :: "compare_fn \<Rightarrow> mem \<Rightarrow> nat \<Rightarrow> addr \<Rightarrow> addr \<Rightarrow> int" where
  "cmp_at c h sz a b \<equiv> c (mem_read h a sz) (mem_read h b sz)"

section \<open>Exchanging elements\<close>

fun swap_loop :: "mem \<Rightarrow> addr \<Rightarrow> addr \<Rightarrow> nat \<Rightarrow> mem" where
  "swap_loop h a b 0 = h"
| "swap_loop h a b (Suc n) = swap_loop (h(a := h b, b := h a)) (Suc a) (Suc b) n"

definition swap_elements :: "mem \<Rightarrow> addr \<Rightarrow> addr \<Rightarrow> nat \<Rightarrow> mem" where
  "swap_elements h a b sz =
    (if a = b then h
     else if sz > 16 \<and> sz \<le> 128
     then (let tmp = mem_read h a sz; h = proven_sys_mem_copy h a b sz in mem_write h b tmp)
     else swap_loop h a b sz)"

text \<open>Exchanging two runs of \<open>count\<close> elements, from element \<open>i\<close> of each on.\<close>

fun vec_swap_from :: "mem \<Rightarrow> addr \<Rightarrow> addr \<Rightarrow> nat \<Rightarrow> nat \<Rightarrow> nat \<Rightarrow> mem" where
  "vec_swap_from h a b i 0 sz = h"
| "vec_swap_from h a b i (Suc count) sz =
    vec_swap_from (swap_elements h (a + wrap (i * sz)) (b + wrap (i * sz)) sz) a b (i + 1) count sz"

definition vec_swap :: "mem \<Rightarrow> addr \<Rightarrow> addr \<Rightarrow> nat \<Rightarrow> nat \<Rightarrow> mem" where
  "vec_swap h a b count sz = vec_swap_from h a b 0 count sz"

section \<open>Insertion sort\<close>

fun shift_loop :: "compare_fn \<Rightarrow> mem \<Rightarrow> addr \<Rightarrow> nat \<Rightarrow> byte list \<Rightarrow> nat \<Rightarrow> mem \<times> nat" where
  "shift_loop c h base sz tmp 0 = (h, 0)"
| "shift_loop c h base sz tmp (Suc j) =
    (if c (mem_read h (elem_at base j sz) sz) tmp > 0
     then shift_loop c (proven_sys_mem_copy h (elem_at base (Suc j) sz) (elem_at base j sz) sz)
            base sz tmp j
     else (h, Suc j))"

text \<open>The two loops over the elements from \<open>i\<close> on, \<open>n\<close> of them left: shifting through the scratch
  element, and exchanging neighbours when the element does not fit it.\<close>

fun insertion_shift :: "compare_fn \<Rightarrow> mem \<Rightarrow> addr \<Rightarrow> nat \<Rightarrow> nat \<Rightarrow> nat \<Rightarrow> mem" where
  "insertion_shift c h base sz i 0 = h"
| "insertion_shift c h base sz i (Suc n) =
    (let cur = elem_at base i sz in
     if cmp_at c h sz cur (elem_at base (i - 1) sz) \<ge> 0
     then insertion_shift c h base sz (i + 1) n
     else let tmp = mem_read h cur sz in
       (case shift_loop c h base sz tmp i of (h', j) \<Rightarrow>
          insertion_shift c (mem_write h' (elem_at base j sz) tmp) base sz (i + 1) n))"

fun sink_loop :: "compare_fn \<Rightarrow> mem \<Rightarrow> addr \<Rightarrow> nat \<Rightarrow> nat \<Rightarrow> mem" where
  "sink_loop c h base sz 0 = h"
| "sink_loop c h base sz (Suc j) =
    (let cur = elem_at base (Suc j) sz; prev = elem_at base j sz in
     if cmp_at c h sz cur prev \<ge> 0 then h
     else sink_loop c (swap_elements h cur prev sz) base sz j)"

fun insertion_swap :: "compare_fn \<Rightarrow> mem \<Rightarrow> addr \<Rightarrow> nat \<Rightarrow> nat \<Rightarrow> nat \<Rightarrow> mem" where
  "insertion_swap c h base sz i 0 = h"
| "insertion_swap c h base sz i (Suc n) =
    insertion_swap c (sink_loop c h base sz i) base sz (i + 1) n"

definition insertion_sort :: "compare_fn \<Rightarrow> mem \<Rightarrow> addr \<Rightarrow> nat \<Rightarrow> nat \<Rightarrow> nat \<Rightarrow> mem" where
  "insertion_sort c h base n sz align =
    (if n < 2 then h
     else if sz \<le> 128 \<and> align \<le> 64 then insertion_shift c h base sz 1 (n - 1)
     else insertion_swap c h base sz 1 (n - 1))"

section \<open>Heapsort\<close>

function sift_down :: "compare_fn \<Rightarrow> mem \<Rightarrow> addr \<Rightarrow> nat \<Rightarrow> nat \<Rightarrow> nat \<Rightarrow> mem" where
  "sift_down c h base root n sz =
    (let child = 2 * root + 1 in
     if child \<ge> n then h
     else let child = (if child + 1 < n \<and>
                           cmp_at c h sz (elem_at base child sz) (elem_at base (child + 1) sz) < 0
                       then child + 1 else child) in
       if cmp_at c h sz (elem_at base root sz) (elem_at base child sz) \<ge> 0 then h
       else sift_down c (swap_elements h (elem_at base root sz) (elem_at base child sz) sz)
              base child n sz)"
  by pat_completeness auto
termination
  by (relation "measure (\<lambda>(c, h, base, root, n, sz). n - root)") (auto simp: Let_def split: if_splits)

declare sift_down.simps [simp del]

fun heap_build :: "compare_fn \<Rightarrow> mem \<Rightarrow> addr \<Rightarrow> nat \<Rightarrow> nat \<Rightarrow> nat \<Rightarrow> mem" where
  "heap_build c h base 0 n sz = h"
| "heap_build c h base (Suc i) n sz = heap_build c (sift_down c h base i n sz) base i n sz"

fun heap_drain :: "compare_fn \<Rightarrow> mem \<Rightarrow> addr \<Rightarrow> nat \<Rightarrow> nat \<Rightarrow> mem" where
  "heap_drain c h base 0 sz = h"
| "heap_drain c h base (Suc e) sz =
    heap_drain c (sift_down c (swap_elements h base (elem_at base (Suc e) sz) sz) base 0 (Suc e) sz)
      base e sz"

definition heapsort_range :: "compare_fn \<Rightarrow> mem \<Rightarrow> addr \<Rightarrow> nat \<Rightarrow> nat \<Rightarrow> mem" where
  "heapsort_range c h base n sz =
    (if n < 2 then h else heap_drain c (heap_build c h base (n div 2) n sz) base (n - 1) sz)"

section \<open>The three-way partition\<close>

definition median3 :: "compare_fn \<Rightarrow> mem \<Rightarrow> addr \<Rightarrow> nat \<Rightarrow> nat \<Rightarrow> nat \<Rightarrow> nat \<Rightarrow> nat" where
  "median3 c h base a b d sz =
    (let ab = cmp_at c h sz (elem_at base a sz) (elem_at base b sz);
         bc = cmp_at c h sz (elem_at base b sz) (elem_at base d sz);
         ac = cmp_at c h sz (elem_at base a sz) (elem_at base d sz) in
     if ab < 0 then (if bc < 0 then b else if ac < 0 then d else a)
     else if bc > 0 then b
     else if ac < 0 then a else d)"

text \<open>The two inner loops and the outer one: the memory, and the cursors as they leave them. The
  partition enters them with \<open>pb\<close> above 0, which the guards record.\<close>

function scan_left :: "compare_fn \<Rightarrow> mem \<Rightarrow> addr \<Rightarrow> nat \<Rightarrow> nat \<Rightarrow> nat \<Rightarrow> nat \<Rightarrow> mem \<times> nat \<times> nat" where
  "scan_left c h base sz pa pb pc =
    (if pb \<le> pc then
       (let r = cmp_at c h sz (elem_at base pb sz) base in
        if r \<le> 0
        then (if r = 0
              then scan_left c (swap_elements h (elem_at base pa sz) (elem_at base pb sz) sz)
                     base sz (pa + 1) (pb + 1) pc
              else scan_left c h base sz pa (pb + 1) pc)
        else (h, pa, pb))
     else (h, pa, pb))"
  by pat_completeness auto
termination
  by (relation "measure (\<lambda>(c, h, base, sz, pa, pb, pc). Suc pc - pb)") auto

function scan_right :: "compare_fn \<Rightarrow> mem \<Rightarrow> addr \<Rightarrow> nat \<Rightarrow> nat \<Rightarrow> nat \<Rightarrow> nat \<Rightarrow> mem \<times> nat \<times> nat" where
  "scan_right c h base sz pb pc pd =
    (if 0 < pb \<and> pb \<le> pc then
       (let r = cmp_at c h sz (elem_at base pc sz) base in
        if r \<ge> 0
        then (if r = 0
              then scan_right c (swap_elements h (elem_at base pc sz) (elem_at base pd sz) sz)
                     base sz pb (pc - 1) (pd - 1)
              else scan_right c h base sz pb (pc - 1) pd)
        else (h, pc, pd))
     else (h, pc, pd))"
  by pat_completeness auto
termination
  by (relation "measure (\<lambda>(c, h, base, sz, pb, pc, pd). pc)") auto

declare scan_left.simps [simp del] scan_right.simps [simp del]

lemma scan_left_mono: "scan_left c h base sz pa pb pc = (h', pa', pb') \<Longrightarrow> pb \<le> pb'"
proof (induction c h base sz pa pb pc rule: scan_left.induct)
  case (1 c h base sz pa pb pc)
  note eq = 1(3) [unfolded scan_left.simps [of c h base sz pa pb pc]]
  show ?case
    using eq 1(1) [OF _ refl] 1(2) [OF _ refl] by (auto simp: Let_def split: if_splits)
qed

lemma scan_right_mono: "scan_right c h base sz pb pc pd = (h', pc', pd') \<Longrightarrow> pc' \<le> pc"
proof (induction c h base sz pb pc pd rule: scan_right.induct)
  case (1 c h base sz pb pc pd)
  note eq = 1(3) [unfolded scan_right.simps [of c h base sz pb pc pd]]
  show ?case
    using eq 1(1) [OF _ refl] 1(2) [OF _ refl] by (auto simp: Let_def split: if_splits)
qed

function partition_loop ::
  "compare_fn \<Rightarrow> mem \<Rightarrow> addr \<Rightarrow> nat \<Rightarrow> nat \<Rightarrow> nat \<Rightarrow> nat \<Rightarrow> nat \<Rightarrow> mem \<times> nat \<times> nat \<times> nat \<times> nat" where
  "partition_loop c h base sz pa pb pc pd =
    (case scan_left c h base sz pa pb pc of (h, pa, pb) \<Rightarrow>
       (case scan_right c h base sz pb pc pd of (h, pc, pd) \<Rightarrow>
          if pb > pc then (h, pa, pb, pc, pd)
          else partition_loop c (swap_elements h (elem_at base pb sz) (elem_at base pc sz) sz)
                 base sz pa (pb + 1) (pc - 1) pd))"
  by pat_completeness auto
termination
  by (relation "measure (\<lambda>(c, h, base, sz, pa, pb, pc, pd). Suc pc - pb)")
    (auto dest!: scan_left_mono [OF sym] scan_right_mono [OF sym])

declare partition_loop.simps [simp del]

text \<open>One round: the pivot to the front, the partition, and the equal runs swept into the middle; the
  answer is the memory and the lengths of the two runs still to be sorted.\<close>

definition partition :: "compare_fn \<Rightarrow> mem \<Rightarrow> addr \<Rightarrow> nat \<Rightarrow> nat \<Rightarrow> mem \<times> nat \<times> nat" where
  "partition c h base n sz =
    (let m = median3 c h base 0 (n div 2) (n - 1) sz;
         h = swap_elements h base (elem_at base m sz) sz in
     case partition_loop c h base sz 1 1 (n - 1) (n - 1) of (h, pa, pb, pc, pd) \<Rightarrow>
       let left_equal = pa; left_less = pb - pa; right_more = pd - pc; right_equal = n - 1 - pd;
           s = (if left_equal < left_less then left_equal else left_less);
           h = vec_swap h base (elem_at base (pb - s) sz) s sz;
           s = (if right_equal < right_more then right_equal else right_more);
           h = vec_swap h (elem_at base pb sz) (elem_at base (n - s) sz) s sz
       in (h, left_less, right_more))"

section \<open>Introsort\<close>

fun introsort :: "compare_fn \<Rightarrow> mem \<Rightarrow> addr \<Rightarrow> nat \<Rightarrow> nat \<Rightarrow> nat \<Rightarrow> nat \<Rightarrow> mem" where
  "introsort c h base n sz align 0 =
    (if n > 12 then heapsort_range c h base n sz else insertion_sort c h base n sz align)"
| "introsort c h base n sz align (Suc depth) =
    (if n > 12
     then (case partition c h base n sz of (h, left_n, right_n) \<Rightarrow>
             if left_n < right_n
             then introsort c (introsort c h base left_n sz align depth)
                    (elem_at base (n - right_n) sz) right_n sz align depth
             else introsort c (introsort c h (elem_at base (n - right_n) sz) right_n sz align depth)
                    base left_n sz align depth)
     else insertion_sort c h base n sz align)"

function depth_levels :: "nat \<Rightarrow> nat" where
  "depth_levels n = (if n > 1 then depth_levels (n div 2) + 1 else 0)"
  by pat_completeness auto
termination by (relation "measure id") auto

declare depth_levels.simps [simp del]

definition depth_limit :: "nat \<Rightarrow> nat" where
  "depth_limit n = 2 * depth_levels n + 1"

section \<open>The public functions\<close>

definition proven_array_sort :: "mem \<Rightarrow> 'c proven_array option \<Rightarrow> compare_fn option \<Rightarrow> mem" where
  "proven_array_sort h arr cmp =
    (case (arr, cmp) of
       (Some a, Some c) \<Rightarrow>
         if alen a < 2 \<or> aelem_size a = 0 then h
         else introsort c h (adata a) (alen a) (aelem_size a)
                (if aalign a \<noteq> 0 then aalign a else 1) (depth_limit (alen a))
     | _ \<Rightarrow> h)"

text \<open>The indices of the binary search are signed, as \<^verbatim>\<open>proven_ptrdiff_t\<close>; \<open>as_ptrdiff\<close> is the cast.\<close>

definition as_ptrdiff :: "nat \<Rightarrow> int" where
  "as_ptrdiff n = (if wrap n < 2 ^ 63 then int (wrap n) else int (wrap n) - 2 ^ 64)"

function binary_search_loop :: "compare_fn \<Rightarrow> mem \<Rightarrow> addr \<Rightarrow> addr \<Rightarrow> nat \<Rightarrow> int \<Rightarrow> int \<Rightarrow> addr" where
  "binary_search_loop c h base key sz low high =
    (if low \<le> high then
       (let mid = low + (high - low) div 2;
            mid_ptr = elem_at base (nat mid) sz;
            res = cmp_at c h sz key mid_ptr in
        if res = 0 then mid_ptr
        else if res < 0 then binary_search_loop c h base key sz low (mid - 1)
        else binary_search_loop c h base key sz (mid + 1) high)
     else 0)"
  by pat_completeness auto
termination
  by (relation "measure (\<lambda>(c, h, base, key, sz, low, high). nat (high - low + 1))") auto

declare binary_search_loop.simps [simp del]

definition proven_array_binary_search ::
  "mem \<Rightarrow> 'c proven_array option \<Rightarrow> addr \<Rightarrow> compare_fn option \<Rightarrow> addr" where
  "proven_array_binary_search h arr key cmp =
    (case (arr, cmp) of
       (Some a, Some c) \<Rightarrow>
         if alen a = 0 \<or> key = 0 then 0
         else binary_search_loop c h (adata a) key (aelem_size a) 0 (as_ptrdiff (alen a) - 1)
     | _ \<Rightarrow> 0)"

fun linear_search_loop :: "compare_fn \<Rightarrow> mem \<Rightarrow> addr \<Rightarrow> addr \<Rightarrow> nat \<Rightarrow> nat \<Rightarrow> nat \<Rightarrow> addr" where
  "linear_search_loop c h base key sz i 0 = 0"
| "linear_search_loop c h base key sz i (Suc n) =
    (let current = elem_at base i sz in
     if cmp_at c h sz key current = 0 then current
     else linear_search_loop c h base key sz (i + 1) n)"

definition proven_array_linear_search ::
  "mem \<Rightarrow> 'c proven_array option \<Rightarrow> addr \<Rightarrow> compare_fn option \<Rightarrow> addr" where
  "proven_array_linear_search h arr key cmp =
    (case (arr, cmp) of
       (Some a, Some c) \<Rightarrow>
         if key = 0 then 0 else linear_search_loop c h (adata a) key (aelem_size a) 0 (alen a)
     | _ \<Rightarrow> 0)"

end
