(* ===== verification/Sort_Lists.thy ===== *)
theory Sort_Lists
  imports Prelude "HOL-Library.Multiset"
begin

text \<open>
  The mathematics of the sort, on lists: what exchanging two elements does to the sinking of an
  element into a sorted prefix, to the regions of a three-way partition, and to a heap. The locale
  \<open>compare_order\<close> is the contract of a comparator: the sign of its answer flips with its arguments and
  "not greater" is transitive.
\<close>

definition lswap :: "'a list \<Rightarrow> nat \<Rightarrow> nat \<Rightarrow> 'a list" where
  "lswap xs i j = xs[i := xs ! j, j := xs ! i]"

lemma length_lswap [simp]: "length (lswap xs i j) = length xs"
  by (simp add: lswap_def)

lemma nth_lswap:
  "i < length xs \<Longrightarrow> j < length xs \<Longrightarrow> k < length xs \<Longrightarrow>
    lswap xs i j ! k = (if k = i then xs ! j else if k = j then xs ! i else xs ! k)"
  by (auto simp: lswap_def nth_list_update)

lemma mset_lswap: "i < length xs \<Longrightarrow> j < length xs \<Longrightarrow> mset (lswap xs i j) = mset xs"
  unfolding lswap_def by (rule mset_swap)

lemma lswap_same [simp]: "lswap xs i i = xs"
  by (simp add: lswap_def)

text \<open>A permutation that leaves a suffix alone permutes the prefix, and the other way round.\<close>

lemma mset_take_eq:
  assumes "mset ys = mset xs" "drop n ys = drop n xs"
  shows "mset (take n ys) = mset (take n xs)"
proof -
  have "mset (take n ys) + mset (drop n ys) = mset (take n xs) + mset (drop n xs)"
    using assms(1) by (metis append_take_drop_id mset_append)
  with assms(2) show ?thesis by simp
qed

text \<open>Exchanging two runs of equal length.\<close>

definition run_swapped :: "'a list \<Rightarrow> 'a list \<Rightarrow> nat \<Rightarrow> nat \<Rightarrow> nat \<Rightarrow> bool" where
  "run_swapped xs ys a b s \<longleftrightarrow> length ys = length xs \<and> (\<forall>k < length xs. ys ! k =
    (if a \<le> k \<and> k < a + s then xs ! (b + (k - a))
     else if b \<le> k \<and> k < b + s then xs ! (a + (k - b)) else xs ! k))"

lemma run_swapped_0 [simp]: "run_swapped xs xs a b 0"
  by (auto simp: run_swapped_def)

lemma run_swapped_step:
  assumes y: "run_swapped (lswap xs a b) ys (Suc a) (Suc b) s" and ab: "a + Suc s \<le> b" "b + Suc s \<le> length xs"
  shows "run_swapped xs ys a b (Suc s)"
  unfolding run_swapped_def
proof (intro conjI allI impI)
  show "length ys = length xs" using y by (simp add: run_swapped_def)
  fix k
  assume k: "k < length xs"
  have a: "a < length xs" and b: "b < length xs" using ab by linarith+
  have yk: "ys ! k = (if Suc a \<le> k \<and> k < Suc a + s then lswap xs a b ! (Suc b + (k - Suc a))
      else if Suc b \<le> k \<and> k < Suc b + s then lswap xs a b ! (Suc a + (k - Suc b)) else lswap xs a b ! k)"
    using y k by (simp add: run_swapped_def)
  consider "k = a" | "k = b" | "a < k" "k < a + Suc s" | "b < k" "k < b + Suc s"
    | "\<not> (a \<le> k \<and> k < a + Suc s)" "\<not> (b \<le> k \<and> k < b + Suc s)" by linarith
  then show "ys ! k = (if a \<le> k \<and> k < a + Suc s then xs ! (b + (k - a))
      else if b \<le> k \<and> k < b + Suc s then xs ! (a + (k - b)) else xs ! k)"
  proof cases
    case 1
    then show ?thesis using yk ab a b by (simp add: nth_lswap)
  next
    case 2
    then show ?thesis using yk ab a b by (simp add: nth_lswap)
  next
    case 3
    then have "Suc b + (k - Suc a) = b + (k - a)" "b + (k - a) < length xs" "b + (k - a) \<noteq> a" "b + (k - a) \<noteq> b"
      using ab by linarith+
    with 3 show ?thesis using yk ab a b by (simp add: nth_lswap)
  next
    case 4
    then have "Suc a + (k - Suc b) = a + (k - b)" "a + (k - b) < length xs" "a + (k - b) \<noteq> a" "a + (k - b) \<noteq> b"
      using ab by linarith+
    with 4 show ?thesis using yk ab a b by (simp add: nth_lswap)
  next
    case 5
    have "\<not> (Suc a \<le> k \<and> k < Suc a + s)" "\<not> (Suc b \<le> k \<and> k < Suc b + s)" "k \<noteq> a" "k \<noteq> b"
      using 5 by linarith+
    then have "ys ! k = lswap xs a b ! k" "lswap xs a b ! k = xs ! k"
      using yk k a b by (simp_all only: if_False nth_lswap)
    then have "ys ! k = xs ! k" by (rule trans)
    with 5 show ?thesis by (simp only: if_False)
  qed
qed

section \<open>Sinking an element into a sorted prefix\<close>

fun lsink :: "('a \<Rightarrow> 'a \<Rightarrow> int) \<Rightarrow> 'a list \<Rightarrow> nat \<Rightarrow> 'a list" where
  "lsink c xs 0 = xs"
| "lsink c xs (Suc j) = (if c (xs ! j) (xs ! Suc j) > 0 then lsink c (lswap xs (Suc j) j) j else xs)"

lemma lsink_perm: "j < length xs \<Longrightarrow> mset (lsink c xs j) = mset xs \<and> length (lsink c xs j) = length xs"
  by (induction j arbitrary: xs) (auto simp: mset_lswap)

lemma lsink_above: "j < length xs \<Longrightarrow> j < k \<Longrightarrow> k < length xs \<Longrightarrow> lsink c xs j ! k = xs ! k"
proof (induction j arbitrary: xs)
  case 0
  then show ?case by simp
next
  case (Suc j)
  then show ?case by (simp add: nth_lswap)
qed

locale compare_order =
  fixes c :: "'a \<Rightarrow> 'a \<Rightarrow> int"
  assumes flip: "c a b < 0 \<longleftrightarrow> c b a > 0"
    and trans: "c x y \<le> 0 \<Longrightarrow> c y z \<le> 0 \<Longrightarrow> c x z \<le> 0"
begin

abbreviation le :: "'a \<Rightarrow> 'a \<Rightarrow> bool" where
  "le a b \<equiv> c a b \<le> 0"

lemma refl: "c a a = 0"
  using flip [of a a] by linarith

lemma ge: "c a b \<ge> 0 \<longleftrightarrow> c b a \<le> 0"
  using flip [of a b] flip [of b a] by linarith

lemma total: "c a b > 0 \<Longrightarrow> le b a"
  using flip [of b a] by simp

lemma zero_flip: "c a b = 0 \<longleftrightarrow> c b a = 0"
  using flip [of a b] flip [of b a] by linarith

lemma less_le_trans: "c a b < 0 \<Longrightarrow> le b d \<Longrightarrow> c a d < 0"
  using trans [of b d a] flip [of a d] flip [of d a] flip [of a b] flip [of b a] by linarith

text \<open>A prefix that is in order but for the element at \<open>j\<close>, which is not above those after it.\<close>

definition hole :: "'a list \<Rightarrow> nat \<Rightarrow> nat \<Rightarrow> bool" where
  "hole xs i j \<longleftrightarrow> (\<forall>a b. a < b \<and> b \<le> i \<and> a \<noteq> j \<and> b \<noteq> j \<longrightarrow> le (xs ! a) (xs ! b)) \<and>
    (\<forall>b. j < b \<and> b \<le> i \<longrightarrow> le (xs ! j) (xs ! b))"

lemma lsink_sorted:
  assumes "hole xs i j" "j \<le> i" "i < length xs"
  shows "\<forall>a b. a < b \<and> b \<le> i \<longrightarrow> le (lsink c xs j ! a) (lsink c xs j ! b)"
  using assms
proof (induction j arbitrary: xs)
  case 0
  show ?case
  proof (intro allI impI)
    fix a b
    assume "a < b \<and> b \<le> i"
    then show "le (lsink c xs 0 ! a) (lsink c xs 0 ! b)"
      using 0(1) unfolding hole_def by (cases "a = 0") simp_all
  qed
next
  case (Suc j)
  show ?case
  proof (cases "c (xs ! j) (xs ! Suc j) > 0")
    case True
    have le: "le (xs ! Suc j) (xs ! j)" by (rule total [OF True])
    have n: "lswap xs (Suc j) j ! k = xs ! (if k = Suc j then j else if k = j then Suc j else k)"
      if "k \<le> i" for k
      using Suc.prems(2,3) that by (simp add: nth_lswap)
    have "hole (lswap xs (Suc j) j) i j"
      unfolding hole_def
    proof (intro conjI allI impI)
      fix a b
      assume ab: "a < b \<and> b \<le> i \<and> a \<noteq> j \<and> b \<noteq> j"
      let ?s = "\<lambda>k. if k = Suc j then j else k"
      have "?s a < ?s b" "?s b \<le> i" "?s a \<noteq> Suc j" "?s b \<noteq> Suc j" using ab by auto
      then have "le (xs ! ?s a) (xs ! ?s b)" using Suc.prems(1) unfolding hole_def by blast
      then show "le (lswap xs (Suc j) j ! a) (lswap xs (Suc j) j ! b)" using n [of a] n [of b] ab by auto
    next
      fix b
      assume b: "j < b \<and> b \<le> i"
      then show "le (lswap xs (Suc j) j ! j) (lswap xs (Suc j) j ! b)"
        using n [of j] n [of b] le Suc.prems(1,2) unfolding hole_def by (cases "b = Suc j") auto
    qed
    with Suc.IH Suc.prems True show ?thesis by simp
  next
    case False
    have "le (xs ! a) (xs ! b)" if ab: "a < b" "b \<le> i" for a b
    proof (cases "b = Suc j")
      case True
      have "a = j \<or> le (xs ! a) (xs ! j)"
        using Suc.prems(1,2) ab True unfolding hole_def by (cases "a = j") simp_all
      with True False trans [of "xs ! a" "xs ! j" "xs ! Suc j"] show ?thesis by auto
    next
      case b: False
      then show ?thesis
        using Suc.prems(1) ab unfolding hole_def by (cases "a = Suc j") auto
    qed
    with False show ?thesis by simp
  qed
qed

lemma lsink_prefix:
  assumes "\<forall>a b. a < b \<and> b < i \<longrightarrow> le (xs ! a) (xs ! b)" "i < length xs"
  shows "\<forall>a b. a < b \<and> b < Suc i \<longrightarrow> le (lsink c xs i ! a) (lsink c xs i ! b)"
  using lsink_sorted [of xs i i] assms by (auto simp: hole_def less_Suc_eq_le)

section \<open>The three-way partition\<close>

definition region_at :: "'a \<Rightarrow> nat \<Rightarrow> nat \<Rightarrow> nat \<Rightarrow> nat \<Rightarrow> nat \<Rightarrow> 'a \<Rightarrow> bool" where
  "region_at p pa pb pc pd k v \<longleftrightarrow>
    (k < pa \<longrightarrow> c v p = 0) \<and> (pa \<le> k \<and> k < pb \<longrightarrow> c v p < 0) \<and>
    (pc < k \<and> k \<le> pd \<longrightarrow> c v p > 0) \<and> (pd < k \<longrightarrow> c v p = 0)"

definition regions :: "'a \<Rightarrow> 'a list \<Rightarrow> nat \<Rightarrow> nat \<Rightarrow> nat \<Rightarrow> nat \<Rightarrow> bool" where
  "regions p xs pa pb pc pd \<longleftrightarrow>
    xs ! 0 = p \<and> 1 \<le> pa \<and> pa \<le> pb \<and> pb \<le> Suc pc \<and> pc \<le> pd \<and> pd < length xs \<and>
    (\<forall>k < length xs. region_at p pa pb pc pd k (xs ! k))"

lemma regionsD:
  "regions p xs pa pb pc pd \<Longrightarrow> k < length xs \<Longrightarrow> region_at p pa pb pc pd k (xs ! k)"
  "regions p xs pa pb pc pd \<Longrightarrow>
    xs ! 0 = p \<and> 1 \<le> pa \<and> pa \<le> pb \<and> pb \<le> Suc pc \<and> pc \<le> pd \<and> pd < length xs"
  by (auto simp: regions_def)

text \<open>An exchange followed by a move of the cursors: only the two slots have to be looked at.\<close>

lemma regions_swapI:
  assumes r: "regions p xs pa pb pc pd" and ij: "1 \<le> i" "1 \<le> j" "i < length xs" "j < length xs"
    and s: "1 \<le> pa'" "pa' \<le> pb'" "pb' \<le> Suc pc'" "pc' \<le> pd'" "pd' < length xs"
    and at: "region_at p pa' pb' pc' pd' i (xs ! j)" "region_at p pa' pb' pc' pd' j (xs ! i)"
    and rest: "\<And>k v. k \<noteq> i \<Longrightarrow> k \<noteq> j \<Longrightarrow> region_at p pa pb pc pd k v \<Longrightarrow> region_at p pa' pb' pc' pd' k v"
  shows "regions p (lswap xs i j) pa' pb' pc' pd'"
  unfolding regions_def
proof (intro conjI allI impI)
  show "lswap xs i j ! 0 = p" using regionsD(2) [OF r] ij by (simp add: lswap_def)
  fix k
  assume "k < length (lswap xs i j)"
  then show "region_at p pa' pb' pc' pd' k (lswap xs i j ! k)"
    using ij at rest [of k] regionsD(1) [OF r, of k] by (cases "k = i"; cases "k = j") (auto simp: nth_lswap)
qed (use s in auto)

lemma regions_left_equal:
  assumes r: "regions p xs pa pb pc pd" and pb: "pb \<le> pc" and z: "c (xs ! pb) p = 0"
  shows "regions p (lswap xs pa pb) (Suc pa) (Suc pb) pc pd"
proof -
  note d = regionsD(2) [OF r]
  have "region_at p pa pb pc pd pa (xs ! pa)" using d pb by (intro regionsD(1) [OF r]) simp
  then show ?thesis
    using d pb z by (cases "pa = pb"; intro regions_swapI [OF r]) (auto simp: region_at_def)
qed

lemma regions_left_less:
  assumes r: "regions p xs pa pb pc pd" and pb: "pb \<le> pc" and z: "c (xs ! pb) p < 0"
  shows "regions p xs pa (Suc pb) pc pd"
proof -
  note d = regionsD(2) [OF r]
  have "regions p (lswap xs pb pb) pa (Suc pb) pc pd"
    using d pb z by (intro regions_swapI [OF r]) (auto simp: region_at_def)
  then show ?thesis by simp
qed

lemma regions_right_equal:
  assumes r: "regions p xs pa pb pc pd" and pb: "pb \<le> pc" and z: "c (xs ! pc) p = 0"
  shows "regions p (lswap xs pc pd) pa pb (pc - 1) (pd - 1)"
proof -
  note d = regionsD(2) [OF r]
  have "region_at p pa pb pc pd pd (xs ! pd)" using d by (intro regionsD(1) [OF r]) simp
  then show ?thesis
    using d pb z by (cases "pc = pd"; intro regions_swapI [OF r]) (auto simp: region_at_def)
qed

lemma regions_right_more:
  assumes r: "regions p xs pa pb pc pd" and pb: "pb \<le> pc" and z: "c (xs ! pc) p > 0"
  shows "regions p xs pa pb (pc - 1) pd"
proof -
  note d = regionsD(2) [OF r]
  have "regions p (lswap xs pc pc) pa pb (pc - 1) pd"
    using d pb z by (intro regions_swapI [OF r]) (auto simp: region_at_def)
  then show ?thesis by simp
qed

lemma regions_exchange:
  assumes r: "regions p xs pa pb pc pd" and pb: "pb \<le> pc" and z: "c (xs ! pb) p > 0" "c (xs ! pc) p < 0"
  shows "regions p (lswap xs pb pc) pa (Suc pb) (pc - 1) pd"
proof -
  note d = regionsD(2) [OF r]
  have "pb < pc" using pb z by (cases "pb = pc") auto
  then show ?thesis
    using d z by (intro regions_swapI [OF r]) (auto simp: region_at_def)
qed

text \<open>After the sweeps the equal run is in the middle: first the two runs on the left, then those on
  the right.\<close>

lemma sweep_left:
  assumes r: "regions p xs pa pb pc pd" and pb: "pb = Suc pc"
    and y: "run_swapped xs ys 0 (pb - s) s" and s: "s \<le> pa" "s \<le> pb - pa" "s = pa \<or> s = pb - pa"
  shows "\<forall>i < pb. if i < pb - pa then c (ys ! i) p < 0 else c (ys ! i) p = 0"
    "\<forall>i. pb \<le> i \<and> i < length xs \<longrightarrow> ys ! i = xs ! i"
proof -
  note d = regionsD(2) [OF r]
  have yk: "ys ! k = (if k < s then xs ! (pb - s + k) else if pb - s \<le> k \<and> k < pb then xs ! (k - (pb - s)) else xs ! k)"
    if "k < length xs" for k
  proof -
    have "s \<le> pb" using s(2) by linarith
    then have "pb - s + s = pb" by simp
    then show ?thesis using y that unfolding run_swapped_def by simp
  qed
  show "\<forall>i < pb. if i < pb - pa then c (ys ! i) p < 0 else c (ys ! i) p = 0"
  proof (intro allI impI)
    fix i
    assume i: "i < pb"
    then have lt: "i < length xs" using d pb by linarith
    define j where "j = (if i < s then pb - s + i else if pb - s \<le> i then i - (pb - s) else i)"
    have "ys ! i = xs ! j" using yk [OF lt] i by (simp add: j_def)
    moreover have j: "j < pb" "(i < pb - pa) = (pa \<le> j)" using i s d by (auto simp: j_def)
    moreover have "j < length xs" using j(1) d pb by linarith
    ultimately show "if i < pb - pa then c (ys ! i) p < 0 else c (ys ! i) p = 0"
      using regionsD(1) [OF r, of j] by (simp add: region_at_def not_le)
  qed
  have "s \<le> pb" using s(2) by linarith
  then show "\<forall>i. pb \<le> i \<and> i < length xs \<longrightarrow> ys ! i = xs ! i" using yk s d by auto
qed

lemma sweep_right:
  assumes r: "regions p xs pa pb pc pd" and pb: "pb = Suc pc" and len: "length ys = length xs"
    and ys: "\<forall>i. pb \<le> i \<and> i < length xs \<longrightarrow> ys ! i = xs ! i"
    and z: "run_swapped ys zs pb (length xs - t) t"
    and t: "t \<le> length xs - 1 - pd" "t \<le> pd - pc" "t = length xs - 1 - pd \<or> t = pd - pc"
  shows "\<forall>i. pb \<le> i \<and> i < length xs \<longrightarrow>
      (if i < length xs - (pd - pc) then c (zs ! i) p = 0 else c (zs ! i) p > 0)"
    "\<forall>i < pb. zs ! i = ys ! i"
proof -
  let ?n = "length xs"
  note d = regionsD(2) [OF r]
  have tn: "t \<le> ?n" using t(1) by linarith
  have zk: "zs ! k = (if pb \<le> k \<and> k < pb + t then ys ! (?n - t + (k - pb))
      else if ?n - t \<le> k then ys ! (pb + (k - (?n - t))) else ys ! k)" if "k < ?n" for k
    using z that len tn unfolding run_swapped_def by simp
  show "\<forall>i. pb \<le> i \<and> i < ?n \<longrightarrow> (if i < ?n - (pd - pc) then c (zs ! i) p = 0 else c (zs ! i) p > 0)"
  proof (intro allI impI)
    fix i
    assume i: "pb \<le> i \<and> i < ?n"
    define j where "j = (if i < pb + t then ?n - t + (i - pb) else if ?n - t \<le> i then pb + (i - (?n - t)) else i)"
    have j: "pb \<le> j" "j < ?n" "(i < ?n - (pd - pc)) = (pd < j)"
      using i t d pb by (auto simp: j_def)
    have "zs ! i = ys ! j" using zk [of i] i by (simp add: j_def)
    then have "zs ! i = xs ! j" using ys j by simp
    then show "if i < ?n - (pd - pc) then c (zs ! i) p = 0 else c (zs ! i) p > 0"
      using regionsD(1) [OF r, of j] j pb by (auto simp: region_at_def)
  qed
  show "\<forall>i < pb. zs ! i = ys ! i" using zk t d pb by auto
qed

end

end
