(* ===== verification/Sort_Memory.thy ===== *)
theory Sort_Memory
  imports Algorithm Sort_Lists
begin

text \<open>
  The sort on memory. \<open>rearranged\<close> says that a function permutes the elements of a range and touches
  nothing outside it: every function of the sort does so, whatever the comparator answers. With a
  comparator that keeps its contract the insertion sort and the heapsort leave the range sorted, and
  one round of the partition splits it around the pivot.
\<close>

definition sort_range :: "addr \<Rightarrow> nat \<Rightarrow> nat \<Rightarrow> bool" where
  "sort_range base n sz \<longleftrightarrow> base \<noteq> 0 \<and> 0 < sz \<and> n * sz \<le> SIZE_MAX"

definition rearranged :: "addr \<Rightarrow> nat \<Rightarrow> nat \<Rightarrow> mem \<Rightarrow> mem \<Rightarrow> bool" where
  "rearranged base n sz h h' \<longleftrightarrow> mset (slots h' base sz n) = mset (slots h base sz n) \<and>
    (\<forall>a. a \<notin> span (base, n * sz) \<longrightarrow> h' a = h a)"

lemma rearranged_refl [simp]: "rearranged base n sz h h"
  by (simp add: rearranged_def)

lemma rearranged_trans: "rearranged base n sz h h' \<Longrightarrow> rearranged base n sz h' h'' \<Longrightarrow> rearranged base n sz h h''"
  by (simp add: rearranged_def)

section \<open>Exchanging elements\<close>

lemma swap_loop_disjoint:
  "a + n \<le> b \<or> b + n \<le> a \<Longrightarrow>
    swap_loop h a b n = mem_write (mem_write h a (mem_read h b n)) b (mem_read h a n)"
proof (induction n arbitrary: h a b)
  case 0
  then show ?case by simp
next
  case (Suc n)
  let ?h = "h(a := h b, b := h a)"
  from Suc.prems have d: "Suc a + n \<le> Suc b \<or> Suc b + n \<le> Suc a" by auto
  have r: "mem_read ?h (Suc b) n = mem_read h (Suc b) n" "mem_read ?h (Suc a) n = mem_read h (Suc a) n"
    using Suc.prems by (auto intro!: mem_read_cong)
  have "swap_loop h a b (Suc n) = mem_write (mem_write ?h (Suc a) (mem_read ?h (Suc b) n)) (Suc b) (mem_read ?h (Suc a) n)"
    using Suc.IH [OF d, of ?h] by (simp only: swap_loop.simps)
  also have "\<dots> = mem_write (mem_write h a (mem_read h b (Suc n))) b (mem_read h a (Suc n))"
    unfolding r using Suc.prems
    by (intro ext) (auto simp: mem_write_def mem_read_Suc nth_Cons' Suc_diff_Suc)
  finally show ?case .
qed

lemma swap_elements_eq:
  assumes "a \<noteq> 0" "b \<noteq> 0" "a = b \<or> a + sz \<le> b \<or> b + sz \<le> a"
  shows "swap_elements h a b sz = mem_write (mem_write h a (mem_read h b sz)) b (mem_read h a sz)"
proof (cases "a = b")
  case True
  have "mem_write h a (mem_read h a sz) = h" by (auto simp: mem_write_def fun_eq_iff)
  with True show ?thesis by (simp add: swap_elements_def)
next
  case False
  with assms show ?thesis by (simp add: swap_elements_def Let_def swap_loop_disjoint)
qed

lemma elem_at_eq:
  assumes "sort_range base n sz" "i \<le> n"
  shows "elem_at base i sz = base + i * sz"
proof -
  have "i * sz \<le> SIZE_MAX" using assms(1) le_trans [OF mult_le_mono1 [OF assms(2), of sz]] by (auto simp: sort_range_def)
  then show ?thesis by (simp add: elem_at_def)
qed

lemma elem_at_0: "elem_at base 0 sz = base"
  by (simp add: elem_at_def)

lemma elem_at_elem: "sort_range base n sz \<Longrightarrow> i + j \<le> n \<Longrightarrow> elem_at (elem_at base i sz) j sz = elem_at base (i + j) sz"
  using elem_at_eq [of base n sz i] elem_at_eq [of base n sz "i + j"] elem_at_eq [of base n sz j]
  by (simp add: elem_at_def [of "base + i * sz"] elem_at_def [of base j] add_mult_distrib)

lemma read_elem_at: "sort_range base n sz \<Longrightarrow> i < n \<Longrightarrow> mem_read h (elem_at base i sz) sz = slots h base sz n ! i"
  by (simp add: elem_at_eq)

lemma write_elem_at:
  assumes "sort_range base n sz" "i < n" "length v = sz"
  shows "slots (mem_write h (elem_at base i sz) v) base sz n = (slots h base sz n)[i := v]"
    "a \<notin> span (base, n * sz) \<Longrightarrow> mem_write h (elem_at base i sz) v a = h a"
proof -
  show "slots (mem_write h (elem_at base i sz) v) base sz n = (slots h base sz n)[i := v]"
    using assms by (simp add: elem_at_eq slots_write_one)
  show "a \<notin> span (base, n * sz) \<Longrightarrow> mem_write h (elem_at base i sz) v a = h a"
    using assms slot_bound [OF assms(2), of sz] by (auto simp: elem_at_eq mem_write_def)
qed

lemma swap_slots:
  fixes h :: mem
  assumes "sort_range base n sz" "i < n" "j < n"
  defines "h' \<equiv> swap_elements h (elem_at base i sz) (elem_at base j sz) sz"
  shows "slots h' base sz n = lswap (slots h base sz n) i j" "rearranged base n sz h h'"
proof -
  have b0: "base \<noteq> 0" using assms(1) by (simp add: sort_range_def)
  have e: "elem_at base i sz \<noteq> 0" "elem_at base j sz \<noteq> 0"
    "elem_at base i sz = elem_at base j sz \<or> elem_at base i sz + sz \<le> elem_at base j sz \<or>
      elem_at base j sz + sz \<le> elem_at base i sz"
    using b0 assms(1-3) slot_disjoint [of i j sz] by (auto simp: elem_at_eq)
  have h': "h' = mem_write (mem_write h (elem_at base i sz) (slots h base sz n ! j)) (elem_at base j sz) (slots h base sz n ! i)"
    unfolding h'_def swap_elements_eq [OF e] using assms(1-3) by (simp add: read_elem_at)
  have l: "length (slots h base sz n ! i) = sz" "length (slots h base sz n ! j) = sz" using assms(2,3) by simp_all
  show s: "slots h' base sz n = lswap (slots h base sz n) i j"
    unfolding h' lswap_def using assms(1-3) l by (simp add: write_elem_at)
  show "rearranged base n sz h h'"
    unfolding rearranged_def s using assms(1-3) l by (simp add: mset_lswap h' write_elem_at)
qed

lemma swap_base:
  "sort_range base n sz \<Longrightarrow> i < n \<Longrightarrow>
    slots (swap_elements h base (elem_at base i sz) sz) base sz n = lswap (slots h base sz n) 0 i \<and>
    rearranged base n sz h (swap_elements h base (elem_at base i sz) sz)"
  using swap_slots [of base n sz 0 i h] by (simp add: elem_at_0)

text \<open>Exchanging two runs.\<close>

lemma vec_swap_from_ok:
  fixes h :: mem
  assumes r: "sort_range base n sz" and ab: "a + m + cnt \<le> b" "b + m + cnt \<le> n"
  defines "h' \<equiv> vec_swap_from h (elem_at base a sz) (elem_at base b sz) m cnt sz"
  shows "run_swapped (slots h base sz n) (slots h' base sz n) (a + m) (b + m) cnt \<and> rearranged base n sz h h'"
  using ab unfolding h'_def
proof (induction cnt arbitrary: h m)
  case 0
  then show ?case by (auto simp: run_swapped_def)
next
  case (Suc cnt)
  let ?i = "a + m" and ?j = "b + m"
  let ?h = "swap_elements h (elem_at base ?i sz) (elem_at base ?j sz) sz"
  have "elem_at base a sz + wrap (m * sz) = elem_at base ?i sz" "elem_at base b sz + wrap (m * sz) = elem_at base ?j sz"
    using elem_at_elem [OF r, of a m] elem_at_elem [OF r, of b m] Suc.prems
    by (simp_all add: elem_at_def [of "elem_at base a sz"] elem_at_def [of "elem_at base b sz"])
  then have step: "vec_swap_from h (elem_at base a sz) (elem_at base b sz) m (Suc cnt) sz =
      vec_swap_from ?h (elem_at base a sz) (elem_at base b sz) (Suc m) cnt sz" by simp
  have ij: "?i < n" "?j < n" using Suc.prems by auto
  note s = swap_slots [OF r ij, of h]
  have i: "run_swapped (lswap (slots h base sz n) ?i ?j)
      (slots (vec_swap_from ?h (elem_at base a sz) (elem_at base b sz) (Suc m) cnt sz) base sz n) (Suc ?i) (Suc ?j) cnt"
    "rearranged base n sz ?h (vec_swap_from ?h (elem_at base a sz) (elem_at base b sz) (Suc m) cnt sz)"
    using Suc.IH [of "Suc m" ?h] Suc.prems s(1) by auto
  have "run_swapped (slots h base sz n)
      (slots (vec_swap_from ?h (elem_at base a sz) (elem_at base b sz) (Suc m) cnt sz) base sz n) ?i ?j (Suc cnt)"
    by (rule run_swapped_step [OF i(1)]) (use Suc.prems in simp_all)
  then show ?case unfolding step using rearranged_trans [OF s(2) i(2)] by blast
qed

lemma vec_swap_ok:
  assumes "sort_range base n sz" "a + s \<le> b" "b + s \<le> n"
  shows "run_swapped (slots h base sz n) (slots (vec_swap h (elem_at base a sz) (elem_at base b sz) s sz) base sz n) a b s"
    "rearranged base n sz h (vec_swap h (elem_at base a sz) (elem_at base b sz) s sz)"
  using vec_swap_from_ok [OF assms(1), of a 0 s b h] assms(2,3) by (simp_all add: vec_swap_def)

section \<open>Insertion sort\<close>

lemma rearrangedI:
  "mset (slots h' base sz n) = mset (slots h base sz n) \<Longrightarrow> (\<And>a. a \<notin> span (base, n * sz) \<Longrightarrow> h' a = h a) \<Longrightarrow>
    rearranged base n sz h h'"
  by (simp add: rearranged_def)

text \<open>Shifting through the scratch element and exchanging neighbours are the same sinking.\<close>

lemma shift_loop_sink:
  assumes r: "sort_range base n sz" and j: "j < n" and t: "length tmp = sz"
  shows "case shift_loop c h base sz tmp j of (h', j') \<Rightarrow> j' \<le> j \<and>
      slots (mem_write h' (elem_at base j' sz) tmp) base sz n = lsink c ((slots h base sz n)[j := tmp]) j \<and>
      (\<forall>a. a \<notin> span (base, n * sz) \<longrightarrow> h' a = h a)"
  using j
proof (induction j arbitrary: h)
  case 0
  then show ?case using r t by (simp add: write_elem_at)
next
  case (Suc j)
  let ?xs = "slots h base sz n"
  have j: "j < n" "Suc j < n" using Suc.prems by auto
  have e0: "elem_at base (Suc j) sz \<noteq> 0" "elem_at base j sz \<noteq> 0"
    using r j by (auto simp: elem_at_eq sort_range_def)
  show ?case
  proof (cases "c (?xs ! j) tmp > 0")
    case False
    then show ?thesis using r t j by (simp add: read_elem_at write_elem_at)
  next
    case True
    let ?h = "mem_write h (elem_at base (Suc j) sz) (?xs ! j)"
    have hs: "proven_sys_mem_copy h (elem_at base (Suc j) sz) (elem_at base j sz) sz = ?h"
      using e0 r j by (simp add: read_elem_at)
    have l: "length (?xs ! j) = sz" using j by simp
    have "(slots ?h base sz n)[j := tmp] = lswap (?xs[Suc j := tmp]) (Suc j) j"
      using write_elem_at(1) [OF r j(2) l, of h] j by (simp add: lswap_def list_update_swap)
    moreover have "?h a = h a" if "a \<notin> span (base, n * sz)" for a
      using write_elem_at(2) [OF r j(2) l that] .
    ultimately show ?thesis
      using Suc.IH [OF j(1), of ?h] True r j t by (auto simp: read_elem_at hs split: prod.splits)
  qed
qed

lemma sink_loop_sink:
  assumes r: "sort_range base n sz" and j: "j < n" and flip: "\<And>a b. c a b < 0 \<longleftrightarrow> c b a > 0"
  shows "slots (sink_loop c h base sz j) base sz n = lsink c (slots h base sz n) j"
  using j
proof (induction j arbitrary: h)
  case 0
  then show ?case by simp
next
  case (Suc j)
  have j: "j < n" "Suc j < n" using Suc.prems by auto
  show ?case
    using Suc.IH [OF j(1)] swap_slots(1) [OF r j(2,1), of h] flip [of "slots h base sz n ! Suc j" "slots h base sz n ! j"] r j
    by (auto simp: read_elem_at Let_def)
qed

lemma sink_loop_rearranged:
  "sort_range base n sz \<Longrightarrow> j < n \<Longrightarrow> rearranged base n sz h (sink_loop c h base sz j)"
proof (induction j arbitrary: h)
  case 0
  then show ?case by simp
next
  case (Suc j)
  then show ?case
    using swap_slots(2) [of base n sz "Suc j" j h] by (auto simp: Let_def intro: rearranged_trans)
qed

lemma insertion_shift_rearranged:
  "sort_range base n sz \<Longrightarrow> i + k \<le> n \<Longrightarrow> rearranged base n sz h (insertion_shift c h base sz i k)"
proof (induction k arbitrary: i h)
  case 0
  then show ?case by simp
next
  case (Suc k)
  let ?tmp = "mem_read h (elem_at base i sz) sz"
  obtain h' j' where s: "shift_loop c h base sz ?tmp i = (h', j')" by fastforce
  have i: "i < n" using Suc.prems by simp
  note sh = shift_loop_sink [OF Suc.prems(1) i, of ?tmp c h, unfolded s prod.case]
  have same: "(slots h base sz n)[i := ?tmp] = slots h base sz n"
    using read_elem_at [OF Suc.prems(1) i, of h] by (simp only: list_update_id)
  have "rearranged base n sz h (mem_write h' (elem_at base j' sz) ?tmp)"
  proof (rule rearrangedI)
    show "mset (slots (mem_write h' (elem_at base j' sz) ?tmp) base sz n) = mset (slots h base sz n)"
      using sh i lsink_perm [of i "slots h base sz n" c] by (simp add: same)
    fix a
    assume "a \<notin> span (base, n * sz)"
    then show "mem_write h' (elem_at base j' sz) ?tmp a = h a"
      using sh i write_elem_at(2) [OF Suc.prems(1), of j' ?tmp a h'] by simp
  qed
  with Suc.IH [of "Suc i"] Suc.prems s show ?case by (auto simp: Let_def intro: rearranged_trans)
qed

lemma insertion_swap_rearranged:
  "sort_range base n sz \<Longrightarrow> i + k \<le> n \<Longrightarrow> rearranged base n sz h (insertion_swap c h base sz i k)"
proof (induction k arbitrary: i h)
  case 0
  then show ?case by simp
next
  case (Suc k)
  then show ?case
    using Suc.IH [of "Suc i"] sink_loop_rearranged [of base n sz i h c] by (auto intro: rearranged_trans)
qed

lemma insertion_sort_rearranged:
  "sort_range base n sz \<Longrightarrow> rearranged base n sz h (insertion_sort c h base n sz align)"
  using insertion_shift_rearranged [of base n sz 1 "n - 1" h c] insertion_swap_rearranged [of base n sz 1 "n - 1" h c]
  by (simp add: insertion_sort_def)

end
