(* ===== verification/Sort_Heap.thy ===== *)
theory Sort_Heap
  imports Sort_Memory
begin

text \<open>
  Insertion sort and heapsort leave the range sorted. The heap is stated through the child relation
  of its indices, from an index on (\<open>heap_from\<close>) and with one element out of place (\<open>heap_hole\<close>);
  sifting down fills the hole. \<open>element_order\<close> is the contract of a comparator on the bytes of the
  elements.
\<close>

section \<open>Sifting down, on lists\<close>

lemma in_set_take: "m \<le> length xs \<Longrightarrow> x \<in> set (take m xs) \<longleftrightarrow> (\<exists>i<m. x = xs ! i)"
  by (simp add: nth_image [symmetric] image_iff Bex_def)

function lsift :: "('a \<Rightarrow> 'a \<Rightarrow> int) \<Rightarrow> 'a list \<Rightarrow> nat \<Rightarrow> nat \<Rightarrow> 'a list" where
  "lsift c xs root n =
    (let child = 2 * root + 1 in
     if child \<ge> n then xs
     else let child = (if child + 1 < n \<and> c (xs ! child) (xs ! (child + 1)) < 0 then child + 1 else child) in
       if c (xs ! root) (xs ! child) \<ge> 0 then xs else lsift c (lswap xs root child) child n)"
  by pat_completeness auto
termination
  by (relation "measure (\<lambda>(c, xs, root, n). n - root)") (auto simp: Let_def split: if_splits)

declare lsift.simps [simp del]

text \<open>The index the element at \<open>root\<close> moves to, if it moves.\<close>

definition sift_child :: "('a \<Rightarrow> 'a \<Rightarrow> int) \<Rightarrow> 'a list \<Rightarrow> nat \<Rightarrow> nat \<Rightarrow> nat" where
  "sift_child c xs root n = (if 2 * root + 2 < n \<and> c (xs ! (2 * root + 1)) (xs ! (2 * root + 2)) < 0
     then 2 * root + 2 else 2 * root + 1)"

definition child_of :: "nat \<Rightarrow> nat \<Rightarrow> bool" where
  "child_of p j \<longleftrightarrow> j = 2 * p + 1 \<or> j = 2 * p + 2"

lemma lsift_induct [case_names leaf stay sink]:
  assumes leaf: "\<And>xs r. n \<le> 2 * r + 1 \<Longrightarrow> P xs r xs"
    and stay: "\<And>xs r. 2 * r + 1 < n \<Longrightarrow> c (xs ! r) (xs ! sift_child c xs r n) \<ge> 0 \<Longrightarrow> P xs r xs"
    and sink: "\<And>xs r ys. 2 * r + 1 < n \<Longrightarrow> c (xs ! r) (xs ! sift_child c xs r n) < 0 \<Longrightarrow>
      P (lswap xs r (sift_child c xs r n)) (sift_child c xs r n) ys \<Longrightarrow> P xs r ys"
  shows "P xs r (lsift c xs r n)"
proof (induction "n - r" arbitrary: xs r rule: less_induct)
  case less
  have eq: "lsift c xs r n = (if n \<le> 2 * r + 1 then xs
      else if c (xs ! r) (xs ! sift_child c xs r n) \<ge> 0 then xs
      else lsift c (lswap xs r (sift_child c xs r n)) (sift_child c xs r n) n)"
    by (subst lsift.simps) (simp add: Let_def sift_child_def)
  show ?case
  proof (cases "2 * r + 1 < n \<and> c (xs ! r) (xs ! sift_child c xs r n) < 0")
    case True
    then have "n - sift_child c xs r n < n - r" by (auto simp: sift_child_def)
    with True sink [of r xs] less show ?thesis by (simp add: eq)
  next
    case False
    then show ?thesis using leaf [of r xs] stay [of r xs] by (auto simp: eq)
  qed
qed

lemma sift_child: "2 * r + 1 < n \<Longrightarrow> child_of r (sift_child c xs r n) \<and> r < sift_child c xs r n \<and> sift_child c xs r n < n"
  by (auto simp: sift_child_def child_of_def)

lemma child_unique: "child_of p j \<Longrightarrow> child_of q j \<Longrightarrow> p = q"
  unfolding child_of_def by presburger

lemma child_less: "child_of p j \<Longrightarrow> p < j"
  by (auto simp: child_of_def)

lemma lsift_perm:
  "n \<le> length xs \<longrightarrow> length (lsift c xs r n) = length xs \<and> mset (lsift c xs r n) = mset xs \<and>
    drop n (lsift c xs r n) = drop n xs"
proof (rule lsift_induct [where c = c and n = n and P = "\<lambda>xs r ys. n \<le> length xs \<longrightarrow>
      length ys = length xs \<and> mset ys = mset xs \<and> drop n ys = drop n xs"], goal_cases)
  case sink: (3 xs r ys)
  let ?k = "sift_child c xs r n"
  have k: "r < ?k" "?k < n" using sift_child [OF sink(1)] by auto
  have "drop n (lswap xs r ?k) = drop n xs" using k by (simp add: lswap_def)
  with sink k show ?case by (simp add: mset_lswap)
qed simp_all

context compare_order
begin

definition heap_from :: "'a list \<Rightarrow> nat \<Rightarrow> nat \<Rightarrow> bool" where
  "heap_from xs k n \<longleftrightarrow> (\<forall>p j. k \<le> p \<and> child_of p j \<and> j < n \<longrightarrow> le (xs ! j) (xs ! p))"

definition heap_hole :: "'a list \<Rightarrow> nat \<Rightarrow> nat \<Rightarrow> nat \<Rightarrow> bool" where
  "heap_hole xs k n r \<longleftrightarrow> (\<forall>p j. k \<le> p \<and> child_of p j \<and> j < n \<and> p \<noteq> r \<longrightarrow> le (xs ! j) (xs ! p)) \<and>
    (\<forall>p j. k \<le> p \<and> child_of p r \<and> child_of r j \<and> j < n \<longrightarrow> le (xs ! j) (xs ! p))"

lemma heap_fromI: "(\<And>p j. k \<le> p \<Longrightarrow> child_of p j \<Longrightarrow> j < n \<Longrightarrow> le (xs ! j) (xs ! p)) \<Longrightarrow> heap_from xs k n"
  by (simp add: heap_from_def)

lemma heap_holeD:
  "heap_hole xs k n r \<Longrightarrow> k \<le> p \<Longrightarrow> child_of p j \<Longrightarrow> j < n \<Longrightarrow> p \<noteq> r \<Longrightarrow> le (xs ! j) (xs ! p)"
  "heap_hole xs k n r \<Longrightarrow> k \<le> p \<Longrightarrow> child_of p r \<Longrightarrow> child_of r j \<Longrightarrow> j < n \<Longrightarrow> le (xs ! j) (xs ! p)"
  by (auto simp: heap_hole_def)

text \<open>No child of the root is above the one chosen.\<close>

lemma sift_child_max:
  assumes "2 * r + 1 < n" "child_of r j" "j < n"
  shows "le (xs ! j) (xs ! sift_child c xs r n)"
  using assms flip [of "xs ! (2 * r + 1)" "xs ! (2 * r + 2)"]
  by (auto simp: child_of_def sift_child_def refl not_less ge)

lemma heap_hole_step:
  assumes h: "heap_hole xs k n r" and kr: "k \<le> r" and n: "n \<le> length xs" and r: "2 * r + 1 < n"
    and less: "c (xs ! r) (xs ! sift_child c xs r n) < 0"
  shows "heap_hole (lswap xs r (sift_child c xs r n)) k n (sift_child c xs r n)"
proof -
  let ?m = "sift_child c xs r n"
  have m: "child_of r ?m" "r < ?m" "?m < n" using sift_child [OF r] by auto
  have at: "lswap xs r ?m ! i = xs ! (if i = r then ?m else if i = ?m then r else i)" if "i < n" for i
    using that m n by (simp add: nth_lswap)
  show ?thesis
    unfolding heap_hole_def
  proof (intro conjI allI impI)
    fix p j
    assume pj: "k \<le> p \<and> child_of p j \<and> j < n \<and> p \<noteq> ?m"
    then have lt: "p < n" using child_less [of p j] by simp
    consider "p = r" "j = ?m" | "p = r" "j \<noteq> ?m" | "p \<noteq> r" "j = r" | "p \<noteq> r" "j \<noteq> r" by blast
    then show "le (lswap xs r ?m ! j) (lswap xs r ?m ! p)"
    proof cases
      case 1
      then show ?thesis using at [of j] at [of p] pj lt less m by simp
    next
      case 2
      then have "j \<noteq> r" using pj child_less [of p j] by auto
      with 2 show ?thesis using at [of j] at [of p] pj lt sift_child_max [OF r, of j xs] by simp
    next
      case 3
      then show ?thesis using at [of j] at [of p] pj lt heap_holeD(2) [OF h, of p ?m] m by simp
    next
      case 4
      then have "j \<noteq> ?m" using pj child_unique [of p j r] m(1) by auto
      with 4 show ?thesis using at [of j] at [of p] pj lt heap_holeD(1) [OF h, of p j] by simp
    qed
  next
    fix p j
    assume pj: "k \<le> p \<and> child_of p ?m \<and> child_of ?m j \<and> j < n"
    then have p: "p = r" using child_unique [of p ?m r] m(1) by auto
    have j: "?m < j" using pj child_less [of ?m j] by simp
    then have "le (xs ! j) (xs ! ?m)" using heap_holeD(1) [OF h, of ?m j] pj kr m by simp
    then show "le (lswap xs r ?m ! j) (lswap xs r ?m ! p)" using at [of j] at [of p] pj p j m by simp
  qed
qed

lemma lsift_heap: "heap_hole xs k n r \<and> k \<le> r \<and> n \<le> length xs \<longrightarrow> heap_from (lsift c xs r n) k n"
proof (rule lsift_induct [where c = c and n = n and P = "\<lambda>xs r ys.
      heap_hole xs k n r \<and> k \<le> r \<and> n \<le> length xs \<longrightarrow> heap_from ys k n"], goal_cases)
  case leaf: (1 xs r)
  show ?case
  proof (intro impI heap_fromI)
    assume h: "heap_hole xs k n r \<and> k \<le> r \<and> n \<le> length xs"
    fix p j
    assume pj: "k \<le> p" "child_of p j" "j < n"
    then have "p \<noteq> r" using leaf(1) by (auto simp: child_of_def)
    with h heap_holeD(1) [of xs k n r, OF _ pj] show "le (xs ! j) (xs ! p)" by blast
  qed
next
  case stay: (2 xs r)
  show ?case
  proof (intro impI heap_fromI)
    assume h: "heap_hole xs k n r \<and> k \<le> r \<and> n \<le> length xs"
    fix p j
    assume pj: "k \<le> p" "child_of p j" "j < n"
    have "le (xs ! sift_child c xs r n) (xs ! r)" using stay(2) by (simp add: ge)
    then show "le (xs ! j) (xs ! p)"
      using h heap_holeD(1) [of xs k n r, OF _ pj] sift_child_max [OF stay(1), of j xs] pj trans by (cases "p = r") blast+
  qed
next
  case sink: (3 xs r ys)
  show ?case
  proof
    assume h: "heap_hole xs k n r \<and> k \<le> r \<and> n \<le> length xs"
    then have "heap_hole (lswap xs r (sift_child c xs r n)) k n (sift_child c xs r n)"
      by (intro heap_hole_step sink(1,2)) simp_all
    with h sink(3) sift_child [OF sink(1), of c xs] show "heap_from ys k n" by simp
  qed
qed

lemma heap_root: "heap_from xs 0 n \<Longrightarrow> j < n \<Longrightarrow> le (xs ! j) (xs ! 0)"
proof (induction j rule: less_induct)
  case (less j)
  show ?case
  proof (cases j)
    case 0
    then show ?thesis by (simp add: refl)
  next
    case (Suc i)
    let ?p = "i div 2"
    have p: "child_of ?p j" unfolding child_of_def Suc by presburger
    have "le (xs ! j) (xs ! ?p)" using less.prems p by (simp add: heap_from_def)
    moreover have "le (xs ! ?p) (xs ! 0)" using less.IH [of ?p] less.prems child_less [OF p] by simp
    ultimately show ?thesis by (rule trans)
  qed
qed

end

section \<open>The heap in memory\<close>

lemma sift_down_lsift:
  "sort_range base n sz \<Longrightarrow> m \<le> n \<Longrightarrow>
    slots (sift_down c h base r m sz) base sz n = lsift c (slots h base sz n) r m \<and>
    rearranged base n sz h (sift_down c h base r m sz)"
proof (induction "m - r" arbitrary: h r rule: less_induct)
  case less
  let ?xs = "slots h base sz n" and ?k = "sift_child c (slots h base sz n) r m"
  show ?case
  proof (cases "2 * r + 1 < m")
    case False
    then show ?thesis by (simp add: sift_down.simps [of c h] lsift.simps [of c ?xs])
  next
    case True
    then have i: "r < n" "2 * r + 1 < n" using less.prems by auto
    have kn: "?k < n" "m - ?k < m - r" using True less.prems by (auto simp: sift_child_def)
    let ?h = "swap_elements h (elem_at base r sz) (elem_at base ?k sz) sz"
    have rd: "mem_read h (elem_at base j sz) sz = ?xs ! j" if "j < n" for j
      using read_elem_at [OF less.prems(1) that] .
    have k: "(if 2 * r + 1 + 1 < m \<and> cmp_at c h sz (elem_at base (2 * r + 1) sz) (elem_at base (2 * r + 1 + 1) sz) < 0
        then 2 * r + 1 + 1 else 2 * r + 1) = ?k"
    proof (cases "2 * r + 2 < m")
      case True
      then have "2 * r + 1 + 1 < n" using less.prems by simp
      from rd [OF i(2)] rd [OF this] show ?thesis unfolding sift_child_def by (simp only: add.assoc one_add_one)
    qed (simp add: sift_child_def)
    have d: "sift_down c h base r m sz = (if c (?xs ! r) (?xs ! ?k) \<ge> 0 then h else sift_down c ?h base ?k m sz)"
      unfolding sift_down.simps [of c h base r m sz] Let_def k rd [OF i(1)] rd [OF kn(1)] using True by simp
    have l: "lsift c ?xs r m = (if c (?xs ! r) (?xs ! ?k) \<ge> 0 then ?xs else lsift c (lswap ?xs r ?k) ?k m)"
      using True by (subst lsift.simps) (simp add: Let_def sift_child_def)
    note s = swap_slots [OF less.prems(1) i(1) kn(1), of h]
    show ?thesis
      unfolding d l using less.hyps [OF kn(2) less.prems, of ?h] s rearranged_trans [OF s(2)] by auto
  qed
qed

lemma heap_build_rearranged: "sort_range base n sz \<Longrightarrow> rearranged base n sz h (heap_build c h base k n sz)"
proof (induction k arbitrary: h)
  case (Suc k)
  then show ?case using sift_down_lsift [of base n sz n c h k] by (auto intro: rearranged_trans)
qed simp

lemma heap_drain_rearranged: "sort_range base n sz \<Longrightarrow> e < n \<Longrightarrow> rearranged base n sz h (heap_drain c h base e sz)"
proof (induction e arbitrary: h)
  case (Suc e)
  let ?h = "swap_elements h base (elem_at base (Suc e) sz) sz"
  show ?case
    using Suc.IH [OF Suc.prems(1), of "sift_down c ?h base 0 (Suc e) sz"] Suc.prems swap_base [of base n sz "Suc e" h]
      sift_down_lsift [of base n sz "Suc e" c ?h 0]
    by (auto intro: rearranged_trans)
qed simp

lemma heapsort_rearranged: "sort_range base n sz \<Longrightarrow> rearranged base n sz h (heapsort_range c h base n sz)"
  using heap_build_rearranged [of base n sz h c "n div 2"]
    heap_drain_rearranged [of base n sz "n - 1" "heap_build c h base (n div 2) n sz" c]
  by (auto simp: heapsort_range_def intro: rearranged_trans)

section \<open>Sorted ranges\<close>

locale element_order = compare_order c for c :: compare_fn
begin

lemma heap_build_heap:
  "sort_range base n sz \<Longrightarrow> heap_from (slots h base sz n) k n \<Longrightarrow>
    heap_from (slots (heap_build c h base k n sz) base sz n) 0 n"
proof (induction k arbitrary: h)
  case (Suc k)
  have "heap_hole (slots h base sz n) k n k"
    using Suc.prems(2) by (auto simp: heap_from_def heap_hole_def Suc_le_eq dest!: child_less)
  then have "heap_from (slots (sift_down c h base k n sz) base sz n) k n"
    using sift_down_lsift [OF Suc.prems(1) order_refl, of c h k] lsift_heap [of "slots h base sz n" k n k] by simp
  with Suc.IH [OF Suc.prems(1)] show ?case by simp
qed simp

text \<open>While the heap is drained, the part above it is sorted and above the heap.\<close>

definition drained :: "byte list list \<Rightarrow> nat \<Rightarrow> bool" where
  "drained xs e \<longleftrightarrow> heap_from xs 0 e \<and> (\<forall>a b. a < b \<and> e \<le> b \<and> b < length xs \<longrightarrow> le (xs ! a) (xs ! b))"

lemma drained_step:
  assumes d: "drained xs (Suc (Suc e))" and n: "Suc e < length xs"
  shows "drained (lsift c (lswap xs 0 (Suc e)) 0 (Suc e)) (Suc e)"
proof -
  let ?ys = "lswap xs 0 (Suc e)"
  let ?zs = "lsift c ?ys 0 (Suc e)"
  have at: "?ys ! i = xs ! (if i = 0 then Suc e else if i = Suc e then 0 else i)" if "i < length xs" for i
    using that n nth_lswap [OF le_less_trans [OF le0 n] n that] by simp
  have heap: "heap_from xs 0 (Suc (Suc e))" using d by (simp add: drained_def)
  have "heap_hole ?ys 0 (Suc e) 0"
    unfolding heap_hole_def
  proof (intro conjI allI impI)
    fix p j
    assume pj: "0 \<le> p \<and> child_of p j \<and> j < Suc e \<and> p \<noteq> 0"
    then have "p < j" using child_less [of p j] by simp
    with pj n have "?ys ! j = xs ! j" "?ys ! p = xs ! p" by (simp_all add: at)
    with heap pj show "le (?ys ! j) (?ys ! p)" unfolding heap_from_def by simp
  qed (auto dest: child_less)
  then have h: "heap_from ?zs 0 (Suc e)" using lsift_heap [of ?ys 0 "Suc e" 0] n by simp
  have p: "length ?zs = length xs" "mset ?zs = mset ?ys" "drop (Suc e) ?zs = drop (Suc e) ?ys"
    using lsift_perm [of "Suc e" ?ys c 0] n by auto
  have above: "?zs ! b = ?ys ! b" if "Suc e \<le> b" "b < length xs" for b
    using p(1,3) that nth_drop [of "Suc e" ?zs "b - Suc e"] nth_drop [of "Suc e" ?ys "b - Suc e"] by simp
  have "mset (take (Suc e) ?zs) = mset (take (Suc e) ?ys)" by (rule mset_take_eq [OF p(2,3)])
  then have below: "set (take (Suc e) ?zs) = set (take (Suc e) ?ys)" by (rule mset_eq_setD)
  have "le (?zs ! a) (?zs ! b)" if ab: "a < b" "Suc e \<le> b" "b < length xs" for a b
  proof (cases "a \<le> e")
    case True
    have "?zs ! a \<in> set (take (Suc e) ?zs)" using True n p(1) by (auto simp: in_set_take less_Suc_eq_le)
    then obtain i where i: "i \<le> e" "?zs ! a = ?ys ! i" unfolding below using n by (auto simp: in_set_take less_Suc_eq_le)
    have b: "?zs ! b = xs ! (if b = Suc e then 0 else b)" using above at ab n by auto
    have a: "?zs ! a = xs ! (if i = 0 then Suc e else i)" using i at n by auto
    define q where "q = (if i = 0 then Suc e else i)"
    have q: "q < Suc (Suc e)" using i by (simp add: q_def)
    show ?thesis
    proof (cases "b = Suc e")
      case True
      then show ?thesis using heap_root [OF heap q] a b by (simp add: q_def)
    next
      case False
      then have "q < b" "Suc (Suc e) \<le> b" using q ab by linarith+
      then have "le (xs ! q) (xs ! b)" using d ab unfolding drained_def by blast
      with False show ?thesis using a b by (simp add: q_def)
    qed
  next
    case False
    then have "?zs ! a = xs ! (if a = Suc e then 0 else a)" "?zs ! b = xs ! b" using above at ab n by auto
    then show ?thesis using d ab False unfolding drained_def by auto
  qed
  with h p(1) show ?thesis unfolding drained_def by simp
qed

lemma heap_drain_sorted:
  "sort_range base n sz \<Longrightarrow> e < n \<Longrightarrow> drained (slots h base sz n) (Suc e) \<Longrightarrow>
    drained (slots (heap_drain c h base e sz) base sz n) 1"
proof (induction e arbitrary: h)
  case (Suc e)
  let ?h = "swap_elements h base (elem_at base (Suc e) sz) sz"
  have "slots ?h base sz n = lswap (slots h base sz n) 0 (Suc e)" using swap_base [of base n sz "Suc e" h] Suc.prems by simp
  then have "drained (slots (sift_down c ?h base 0 (Suc e) sz) base sz n) (Suc e)"
    using sift_down_lsift [of base n sz "Suc e" c ?h 0] drained_step [of "slots h base sz n" e] Suc.prems by simp
  with Suc.IH [OF Suc.prems(1)] Suc.prems(2) show ?case by simp
qed simp

lemma heapsort_sorted:
  assumes r: "sort_range base n sz"
  shows "sorted_wrt le (slots (heapsort_range c h base n sz) base sz n)"
proof (cases "n < 2")
  case True
  then show ?thesis by (auto simp: sorted_wrt_iff_nth_less)
next
  case False
  let ?h = "heap_build c h base (n div 2) n sz"
  have "heap_from (slots h base sz n) (n div 2) n" by (auto simp: heap_from_def child_of_def)
  from heap_build_heap [OF r this] have "drained (slots ?h base sz n) (Suc (n - 1))"
    using False by (simp add: drained_def)
  from heap_drain_sorted [OF r _ this] False
  have d: "drained (slots (heapsort_range c h base n sz) base sz n) 1" by (simp add: heapsort_range_def)
  show ?thesis unfolding sorted_wrt_iff_nth_less
  proof (intro allI impI)
    fix i j
    let ?xs = "slots (heapsort_range c h base n sz) base sz n"
    assume "i < j" "j < length ?xs"
    moreover from this have "1 \<le> j" by linarith
    ultimately show "le (?xs ! i) (?xs ! j)" using d unfolding drained_def by blast
  qed
qed

end

end
