(* ===== verification/Sort_Partition.thy ===== *)
theory Sort_Partition
  imports Sort_Heap
begin

text \<open>
  One round of the sort: whatever the comparator answers, the cursors stay in the range and the
  elements are permuted; with a comparator that keeps its contract the elements below the pivot come
  first, then those equal to it, then those above. The loops are proved with a rule over an
  arbitrary invariant of the elements and the cursors, used once for each of the two.
\<close>

section \<open>The loops\<close>

lemma scan_left_rule:
  assumes r: "sort_range base n sz" and pc: "pc < n"
    and eq: "\<And>xs pa pb. P xs pa pb \<Longrightarrow> pb \<le> pc \<Longrightarrow> c (xs ! pb) (xs ! 0) = 0 \<Longrightarrow> P (lswap xs pa pb) (Suc pa) (Suc pb)"
    and lt: "\<And>xs pa pb. P xs pa pb \<Longrightarrow> pb \<le> pc \<Longrightarrow> c (xs ! pb) (xs ! 0) < 0 \<Longrightarrow> P xs pa (Suc pb)"
  shows "P (slots h base sz n) pa pb \<Longrightarrow> 1 \<le> pa \<Longrightarrow> pa \<le> pb \<Longrightarrow> pb \<le> Suc pc \<Longrightarrow>
    scan_left c h base sz pa pb pc = (h', pa', pb') \<Longrightarrow>
    P (slots h' base sz n) pa' pb' \<and> rearranged base n sz h h' \<and> 1 \<le> pa' \<and> pa' \<le> pb' \<and> pb' \<le> Suc pc \<and>
    (pb' \<le> pc \<longrightarrow> c (slots h' base sz n ! pb') (slots h' base sz n ! 0) > 0)"
proof (induction "Suc pc - pb" arbitrary: h pa pb rule: less_induct)
  case less
  let ?xs = "slots h base sz n"
  show ?case
  proof (cases "pb \<le> pc")
    case False
    with less.prems show ?thesis by (simp add: scan_left.simps)
  next
    case True
    then have b: "pb < n" "pa < n" "0 < n" using pc less.prems(3) by linarith+
    let ?r = "c (?xs ! pb) (?xs ! 0)" and ?h = "swap_elements h (elem_at base pa sz) (elem_at base pb sz) sz"
    have rd: "mem_read h (elem_at base pb sz) sz = ?xs ! pb" "mem_read h base sz = ?xs ! 0"
      using read_elem_at [OF r b(1), of h] read_elem_at [OF r b(3), of h] by (simp_all only: elem_at_0)
    have sl: "scan_left c h base sz pa pb pc = (if ?r = 0 then scan_left c ?h base sz (pa + 1) (pb + 1) pc
        else if ?r < 0 then scan_left c h base sz pa (pb + 1) pc else (h, pa, pb))"
      unfolding scan_left.simps [of c h base sz pa pb pc] rd Let_def using True by simp
    have m: "Suc pc - (pb + 1) < Suc pc - pb" using True by simp
    note s = swap_slots [OF r b(2,1), of h]
    consider "?r = 0" | "?r < 0" | "?r > 0" by linarith
    then show ?thesis
    proof cases
      case 1
      then show ?thesis
        using less.hyps [OF m, of ?h "pa + 1"] less.prems eq [OF less.prems(1) True] True s(1) rearranged_trans [OF s(2)]
        by (simp add: sl)
    next
      case 2
      then show ?thesis using less.hyps [OF m, of h pa] less.prems lt [OF less.prems(1) True] True by (simp add: sl)
    next
      case 3
      then show ?thesis using less.prems True by (auto simp: sl)
    qed
  qed
qed

lemma scan_right_rule:
  assumes r: "sort_range base n sz" and pb: "1 \<le> pb"
    and eq: "\<And>xs pc pd. P xs pc pd \<Longrightarrow> pb \<le> pc \<Longrightarrow> c (xs ! pc) (xs ! 0) = 0 \<Longrightarrow> P (lswap xs pc pd) (pc - 1) (pd - 1)"
    and gt: "\<And>xs pc pd. P xs pc pd \<Longrightarrow> pb \<le> pc \<Longrightarrow> c (xs ! pc) (xs ! 0) > 0 \<Longrightarrow> P xs (pc - 1) pd"
  shows "P (slots h base sz n) pc pd \<Longrightarrow> pb \<le> Suc pc \<Longrightarrow> pc \<le> pd \<Longrightarrow> pd < n \<Longrightarrow>
    scan_right c h base sz pb pc pd = (h', pc', pd') \<Longrightarrow>
    P (slots h' base sz n) pc' pd' \<and> rearranged base n sz h h' \<and> pb \<le> Suc pc' \<and> pc' \<le> pd' \<and> pd' < n \<and> pc' \<le> pc \<and>
    slots h' base sz n ! 0 = slots h base sz n ! 0 \<and> (pb \<le> pc' \<longrightarrow> slots h' base sz n ! pb = slots h base sz n ! pb) \<and>
    (pb \<le> pc' \<longrightarrow> c (slots h' base sz n ! pc') (slots h' base sz n ! 0) < 0)"
proof (induction pc arbitrary: h pd rule: less_induct)
  case (less pc)
  let ?xs = "slots h base sz n"
  show ?case
  proof (cases "pb \<le> pc")
    case False
    with less.prems show ?thesis by (simp add: scan_right.simps)
  next
    case True
    then have b: "pc < n" "0 < n" using less.prems by linarith+
    let ?r = "c (?xs ! pc) (?xs ! 0)" and ?h = "swap_elements h (elem_at base pc sz) (elem_at base pd sz) sz"
    have rd: "mem_read h (elem_at base pc sz) sz = ?xs ! pc" "mem_read h base sz = ?xs ! 0"
      using read_elem_at [OF r b(1), of h] read_elem_at [OF r b(2), of h] by (simp_all only: elem_at_0)
    have sr: "scan_right c h base sz pb pc pd = (if ?r = 0 then scan_right c ?h base sz pb (pc - 1) (pd - 1)
        else if ?r > 0 then scan_right c h base sz pb (pc - 1) pd else (h, pc, pd))"
      unfolding scan_right.simps [of c h base sz pb pc pd] rd Let_def using True pb by simp
    have m: "pc - 1 < pc" "pb \<le> Suc (pc - 1)" using True pb by simp_all
    note s = swap_slots [OF r b(1) less.prems(4), of h]
    have at: "lswap ?xs pc pd ! 0 = ?xs ! 0" "pb < pc \<Longrightarrow> lswap ?xs pc pd ! pb = ?xs ! pb"
      using nth_lswap [of pc ?xs pd] True b pb less.prems by simp_all
    consider "?r = 0" | "?r > 0" | "?r < 0" by linarith
    then show ?thesis
    proof cases
      case 1
      have P: "P (slots ?h base sz n) (pc - 1) (pd - 1)" using eq [OF less.prems(1) True 1] s(1) by simp
      have "pc - 1 \<le> pd - 1" "pd - 1 < n" using less.prems by linarith+
      note i = less.IH [OF m(1) P m(2) this, unfolded s(1)]
      with 1 less.prems(5) have "scan_right c ?h base sz pb (pc - 1) (pd - 1) = (h', pc', pd')" by (simp add: sr)
      note i = i [OF this]
      then have "pc' < pc" using True pb by linarith
      with i at s(2) show ?thesis using rearranged_trans [OF s(2)] by (auto simp del: slots_nth)
    next
      case 2
      have P: "P ?xs (pc - 1) pd" using gt [OF less.prems(1) True 2] .
      have "pc - 1 \<le> pd" using less.prems by linarith
      note i = less.IH [OF m(1) P m(2) this less.prems(4)]
      with 2 less.prems(5) have "scan_right c h base sz pb (pc - 1) pd = (h', pc', pd')" by (simp add: sr)
      note i = i [OF this]
      then have "pc' < pc" using True pb by linarith
      with i show ?thesis by (auto simp del: slots_nth)
    next
      case 3
      then show ?thesis using less.prems True by (auto simp: sr)
    qed
  qed
qed

text \<open>The outer loop, with one invariant for both scans and the exchange between them.\<close>

lemma partition_loop_rule:
  assumes r: "sort_range base n sz"
    and left_eq: "\<And>xs pa pb pc pd. P xs pa pb pc pd \<Longrightarrow> pb \<le> pc \<Longrightarrow> c (xs ! pb) (xs ! 0) = 0 \<Longrightarrow>
        P (lswap xs pa pb) (Suc pa) (Suc pb) pc pd"
    and left_lt: "\<And>xs pa pb pc pd. P xs pa pb pc pd \<Longrightarrow> pb \<le> pc \<Longrightarrow> c (xs ! pb) (xs ! 0) < 0 \<Longrightarrow> P xs pa (Suc pb) pc pd"
    and right_eq: "\<And>xs pa pb pc pd. P xs pa pb pc pd \<Longrightarrow> pb \<le> pc \<Longrightarrow> c (xs ! pc) (xs ! 0) = 0 \<Longrightarrow>
        P (lswap xs pc pd) pa pb (pc - 1) (pd - 1)"
    and right_gt: "\<And>xs pa pb pc pd. P xs pa pb pc pd \<Longrightarrow> pb \<le> pc \<Longrightarrow> c (xs ! pc) (xs ! 0) > 0 \<Longrightarrow> P xs pa pb (pc - 1) pd"
    and both: "\<And>xs pa pb pc pd. P xs pa pb pc pd \<Longrightarrow> pb \<le> pc \<Longrightarrow> c (xs ! pb) (xs ! 0) > 0 \<Longrightarrow> c (xs ! pc) (xs ! 0) < 0 \<Longrightarrow>
        P (lswap xs pb pc) pa (Suc pb) (pc - 1) pd"
  shows "P (slots h base sz n) pa pb pc pd \<Longrightarrow> 1 \<le> pa \<Longrightarrow> pa \<le> pb \<Longrightarrow> pb \<le> Suc pc \<Longrightarrow> pc \<le> pd \<Longrightarrow> pd < n \<Longrightarrow>
    partition_loop c h base sz pa pb pc pd = (h', pa', pb', pc', pd') \<Longrightarrow>
    P (slots h' base sz n) pa' pb' pc' pd' \<and> rearranged base n sz h h' \<and>
    1 \<le> pa' \<and> pa' \<le> pb' \<and> pb' = Suc pc' \<and> pc' \<le> pd' \<and> pd' < n"
proof (induction "Suc pc - pb" arbitrary: h pa pb pc pd rule: less_induct)
  case less
  obtain h1 pa1 pb1 where l: "scan_left c h base sz pa pb pc = (h1, pa1, pb1)" by (cases "scan_left c h base sz pa pb pc")
  obtain h2 pc2 pd2 where rr: "scan_right c h1 base sz pb1 pc pd = (h2, pc2, pd2)" by (cases "scan_right c h1 base sz pb1 pc pd")
  have eq: "partition_loop c h base sz pa pb pc pd = (if pb1 > pc2 then (h2, pa1, pb1, pc2, pd2)
      else partition_loop c (swap_elements h2 (elem_at base pb1 sz) (elem_at base pc2 sz) sz) base sz pa1 (pb1 + 1) (pc2 - 1) pd2)"
    by (simp add: partition_loop.simps [of c h] l rr)
  have "pc < n" using less.prems by linarith
  note L = scan_left_rule [of base n sz pc "\<lambda>xs pa pb. P xs pa pb pc pd", OF r this left_eq left_lt less.prems(1-4) l]
  then have pb1: "1 \<le> pb1" by linarith
  have "P (slots h1 base sz n) pa1 pb1 pc pd" "pb1 \<le> Suc pc" using L by blast+
  note R = scan_right_rule [of base n sz pb1 "\<lambda>xs pc pd. P xs pa1 pb1 pc pd", OF r pb1 right_eq right_gt this less.prems(5,6) rr]
  have re: "rearranged base n sz h h2" using L R rearranged_trans by blast
  show ?case
  proof (cases "pb1 > pc2")
    case True
    then have "pb1 = Suc pc2" using R by linarith
    moreover have "h' = h2" "pa' = pa1" "pb' = pb1" "pc' = pc2" "pd' = pd2"
      using less.prems(7) True unfolding eq by simp_all
    ultimately show ?thesis using L R re by blast
  next
    case False
    then have le: "pb1 \<le> pc2" by simp
    have gt: "c (slots h2 base sz n ! pb1) (slots h2 base sz n ! 0) > 0"
    proof -
      have "pb1 \<le> pc" using R le by linarith
      then have "c (slots h1 base sz n ! pb1) (slots h1 base sz n ! 0) > 0" using L by blast
      moreover have "slots h2 base sz n ! 0 = slots h1 base sz n ! 0" "slots h2 base sz n ! pb1 = slots h1 base sz n ! pb1"
        using R le by blast+
      ultimately show ?thesis by (simp only:)
    qed
    have ij: "pb1 < n" "pc2 < n" using R le by linarith+
    note s = swap_slots [OF r ij, of h2]
    have lt: "c (slots h2 base sz n ! pc2) (slots h2 base sz n ! 0) < 0" using R le by blast
    have ne: "pb1 \<noteq> pc2" using gt lt less_asym by metis
    have m: "Suc (pc2 - 1) - (pb1 + 1) < Suc pc - pb" using le L R scan_left_mono [OF l] by linarith
    have P2: "P (slots h2 base sz n) pa1 pb1 pc2 pd2" using R by blast
    have P: "P (slots (swap_elements h2 (elem_at base pb1 sz) (elem_at base pc2 sz) sz) base sz n) pa1 (pb1 + 1) (pc2 - 1) pd2"
      unfolding s(1) using both [OF P2 le gt lt] by (simp only: Suc_eq_plus1)
    have b: "1 \<le> pa1" "pa1 \<le> pb1 + 1" "pb1 + 1 \<le> Suc (pc2 - 1)" "pc2 - 1 \<le> pd2" "pd2 < n" using L R le ne by linarith+
    from less.prems(7) False
    have "partition_loop c (swap_elements h2 (elem_at base pb1 sz) (elem_at base pc2 sz) sz) base sz pa1 (pb1 + 1) (pc2 - 1) pd2 =
        (h', pa', pb', pc', pd')" by (simp add: eq)
    from less.hyps [OF m P b this] show ?thesis using rearranged_trans [OF re rearranged_trans [OF s(2)]] by blast
  qed
qed

section \<open>The partition\<close>

lemma median3_le: "a \<le> m \<Longrightarrow> b \<le> m \<Longrightarrow> d \<le> m \<Longrightarrow> median3 c h base a b d sz \<le> m"
  by (simp add: median3_def Let_def)

text \<open>What a round does: the loop, and the two sweeps.\<close>

lemma partition_shape:
  assumes r: "sort_range base n sz" and n: "2 \<le> n" and p: "partition c h base n sz = (h', l, m)"
    and P0: "\<And>xs. length xs = n \<Longrightarrow> P xs 1 1 (n - 1) (n - 1)"
    and P: "\<And>h0 h1 pa pb pc pd. P (slots h0 base sz n) 1 1 (n - 1) (n - 1) \<Longrightarrow>
      partition_loop c h0 base sz 1 1 (n - 1) (n - 1) = (h1, pa, pb, pc, pd) \<Longrightarrow>
      P (slots h1 base sz n) pa pb pc pd \<and> rearranged base n sz h0 h1 \<and> 1 \<le> pa \<and> pa \<le> pb \<and> pb = Suc pc \<and> pc \<le> pd \<and> pd < n"
  shows "\<exists>xs ys pa pb pc pd s t. length xs = n \<and> P xs pa pb pc pd \<and>
    1 \<le> pa \<and> pa \<le> pb \<and> pb = Suc pc \<and> pc \<le> pd \<and> pd < n \<and> l = pb - pa \<and> m = pd - pc \<and>
    s = min pa (pb - pa) \<and> t = min (n - 1 - pd) (pd - pc) \<and> run_swapped xs ys 0 (pb - s) s \<and>
    run_swapped ys (slots h' base sz n) pb (n - t) t \<and> rearranged base n sz h h'"
proof -
  define k where "k = median3 c h base 0 (n div 2) (n - 1) sz"
  define h0 where "h0 = swap_elements h base (elem_at base k sz) sz"
  have k: "k < n" using median3_le [of 0 "n - 1" "n div 2" "n - 1" c h base sz] n unfolding k_def by linarith
  obtain h1 pa pb pc pd where lo: "partition_loop c h0 base sz 1 1 (n - 1) (n - 1) = (h1, pa, pb, pc, pd)"
    by (cases "partition_loop c h0 base sz 1 1 (n - 1) (n - 1)")
  note b = P [OF P0 [OF length_slots] lo]
  define s where "s = min pa (pb - pa)"
  define t where "t = min (n - 1 - pd) (pd - pc)"
  define h2 where "h2 = vec_swap h1 base (elem_at base (pb - s) sz) s sz"
  have minr: "(if x < y then x else y) = min x y" for x y :: nat by simp
  have "partition c h base n sz = (vec_swap h2 (elem_at base pb sz) (elem_at base (n - t) sz) t sz, pb - pa, pd - pc)"
    unfolding partition_def Let_def k_def [symmetric] h0_def [symmetric] h2_def s_def t_def
    by (simp only: lo prod.case minr)
  with p have res: "h' = vec_swap h2 (elem_at base pb sz) (elem_at base (n - t) sz) t sz" "l = pb - pa" "m = pd - pc"
    by simp_all
  have st: "0 + s \<le> pb - s" "pb - s + s \<le> n" "pb + t \<le> n - t" "n - t + t \<le> n"
    using b n unfolding s_def t_def by linarith+
  note v1 = vec_swap_ok [OF r st(1,2), of h1, unfolded elem_at_0, folded h2_def]
  note v2 = vec_swap_ok [OF r st(3,4), of h2, folded res(1)]
  have "rearranged base n sz h h'"
    using swap_base [OF r k, of h] b v1(2) v2(2) unfolding h0_def [symmetric] by (blast intro: rearranged_trans)
  then show ?thesis using b v1(1) v2(1) res(2,3) s_def t_def length_slots by blast
qed

lemma partition_rearranged:
  assumes "sort_range base n sz" "2 \<le> n" "partition c h base n sz = (h', l, m)"
  shows "rearranged base n sz h h' \<and> l + m < n"
proof -
  have loop: "rearranged base n sz h0 h1 \<and> 1 \<le> pa \<and> pa \<le> pb \<and> pb = Suc pc \<and> pc \<le> pd \<and> pd < n"
    if "partition_loop c h0 base sz 1 1 (n - 1) (n - 1) = (h1, pa, pb, pc, pd)" for h0 h1 pa pb pc pd
  proof -
    have "True \<and> rearranged base n sz h0 h1 \<and> 1 \<le> pa \<and> pa \<le> pb \<and> pb = Suc pc \<and> pc \<le> pd \<and> pd < n"
      by (rule partition_loop_rule [of base n sz "\<lambda>_ _ _ _ _. True", OF assms(1) _ _ _ _ _ _ _ _ _ _ _ that])
        (use assms(2) in auto)
    then show ?thesis by simp
  qed
  obtain pa pb pc pd where "rearranged base n sz h h'" "1 \<le> pa" "pa \<le> pb" "pb = Suc pc" "pc \<le> pd" "pd < n" "l = pb - pa" "m = pd - pc"
    using partition_shape [of base n sz c h h' l m "\<lambda>_ _ _ _ _. True", OF assms TrueI] loop by blast
  then show ?thesis by linarith
qed

context element_order
begin

lemma partition_regions:
  assumes r: "sort_range base n sz" and n: "2 \<le> n" and p: "partition c h base n sz = (h', l, m)"
  shows "\<exists>v. \<forall>i < n. (if i < l then c (slots h' base sz n ! i) v < 0
    else if i < n - m then c (slots h' base sz n ! i) v = 0 else c (slots h' base sz n ! i) v > 0)"
proof -
  define P where "P = (\<lambda>xs pa pb pc pd. regions (xs ! 0) xs pa pb pc pd)"
  have sw: "lswap xs i j ! 0 = xs ! 0" if "regions (xs ! 0) xs pa pb pc pd" "1 \<le> i" "1 \<le> j" for xs pa pb pc pd i j
    using that by (simp add: lswap_def)
  have P0: "P xs 1 1 (n - 1) (n - 1)" if "length xs = n" for xs
    using that n by (auto simp: P_def regions_def region_at_def refl)
  have loop: "P (slots h1 base sz n) pa pb pc pd \<and> rearranged base n sz h0 h1 \<and> 1 \<le> pa \<and> pa \<le> pb \<and> pb = Suc pc \<and> pc \<le> pd \<and> pd < n"
    if P: "P (slots h0 base sz n) 1 1 (n - 1) (n - 1)"
      and lo: "partition_loop c h0 base sz 1 1 (n - 1) (n - 1) = (h1, pa, pb, pc, pd)" for h0 h1 pa pb pc pd
  proof (rule partition_loop_rule [of base n sz P, OF r _ _ _ _ _ P _ _ _ _ _ lo], goal_cases)
    case (1 xs pa pb pc pd)
    then show ?case using regions_left_equal [of "xs ! 0" xs pa pb pc pd] regionsD(2) [of "xs ! 0" xs pa pb pc pd]
      by (simp add: P_def sw)
  next
    case (2 xs pa pb pc pd)
    then show ?case unfolding P_def by (rule regions_left_less)
  next
    case (3 xs pa pb pc pd)
    then show ?case using regions_right_equal [of "xs ! 0" xs pa pb pc pd] regionsD(2) [of "xs ! 0" xs pa pb pc pd]
      by (simp add: P_def sw)
  next
    case (4 xs pa pb pc pd)
    then show ?case unfolding P_def by (rule regions_right_more)
  next
    case (5 xs pa pb pc pd)
    then show ?case using regions_exchange [of "xs ! 0" xs pa pb pc pd] regionsD(2) [of "xs ! 0" xs pa pb pc pd]
      by (simp add: P_def sw)
  qed (use n in auto)
  obtain xs ys pa pb pc pd s t where
    x: "length xs = n" "P xs pa pb pc pd" "pa \<le> pb" "pb = Suc pc" "pd < n" "l = pb - pa" "m = pd - pc" "pc \<le> pd" and
    s: "s = min pa (pb - pa)" and t: "t = min (n - 1 - pd) (pd - pc)" and
    w: "run_swapped xs ys 0 (pb - s) s" "run_swapped ys (slots h' base sz n) pb (n - t) t"
    using partition_shape [of base n sz c h h' l m P, OF assms P0 loop] by blast
  let ?zs = "slots h' base sz n" and ?v = "xs ! 0"
  note R = x(2) [unfolded P_def]
  have sb: "s \<le> pa" "s \<le> pb - pa" "s = pa \<or> s = pb - pa" unfolding s by linarith+
  have tb: "t \<le> length xs - 1 - pd" "t \<le> pd - pc" "t = length xs - 1 - pd \<or> t = pd - pc" unfolding t x(1) by linarith+
  have len: "length ys = length xs" using w(1) by (simp add: run_swapped_def)
  note left = sweep_left [OF R x(4) w(1) sb]
  note right = sweep_right [OF R x(4) len left(2) w(2) [folded x(1)] tb]
  show ?thesis
  proof (intro exI [of _ ?v] allI impI)
    fix i
    assume i: "i < n"
    show "if i < l then c (?zs ! i) ?v < 0 else if i < n - m then c (?zs ! i) ?v = 0 else c (?zs ! i) ?v > 0"
    proof (cases "i < pb")
      case True
      then have z: "?zs ! i = ys ! i" using right(2) i x(1) by metis
      have "i < n - m" using True x by linarith
      then show ?thesis using left(1) True unfolding z x(6) by simp
    next
      case False
      then have "\<not> i < l" using x by linarith
      then show ?thesis using right(1) False i unfolding x(1,7) by (simp add: not_less del: slots_nth)
    qed
  qed
qed

end

end
