(* ===== verification/Sort_Intro.thy ===== *)
theory Sort_Intro
  imports Sort_Partition
begin

text \<open>
  The sort as a whole. A function that permutes a sub-range permutes the range and leaves the rest of
  its elements in place; with that the recursion of the introsort is an induction on its depth budget,
  whatever the comparator answers for the permutation, and with its contract for the order.
\<close>

section \<open>Sub-ranges\<close>

lemma slots_split: "i \<le> n \<Longrightarrow> slots h d s n = slots h d s i @ slots h (d + i * s) s (n - i)"
proof (rule nth_equalityI)
  fix k
  assume i: "i \<le> n" and k: "k < length (slots h d s n)"
  show "slots h d s n ! k = (slots h d s i @ slots h (d + i * s) s (n - i)) ! k"
  proof (cases "k < i")
    case False
    then have "i * s + (k - i) * s = k * s" by (simp add: add_mult_distrib [symmetric])
    with False k i show ?thesis by (simp add: nth_append add.assoc)
  qed (use k i in \<open>simp add: nth_append\<close>)
qed simp

lemma sort_range_sub:
  assumes "sort_range base n sz" "i + m \<le> n"
  shows "sort_range (base + i * sz) m sz"
proof -
  have "m * sz \<le> n * sz" using assms(2) by (intro mult_le_mono1) simp
  from le_trans [OF this] assms(1) show ?thesis by (auto simp: sort_range_def)
qed

lemma slots_outside:
  assumes "\<And>a. a \<notin> span (base + i * sz, m * sz) \<Longrightarrow> h' a = h a" and "k + j \<le> i \<or> i + m \<le> k"
  shows "slots h' (base + k * sz) sz j = slots h (base + k * sz) sz j"
proof (rule slots_frame)
  fix a
  assume a: "a \<in> span (base + k * sz, j * sz)"
  have "k * sz + j * sz \<le> i * sz \<or> i * sz + m * sz \<le> k * sz"
    using assms(2) mult_le_mono1 [of "k + j" i sz] mult_le_mono1 [of "i + m" k sz] by (auto simp: add_mult_distrib)
  with a show "h' a = h a" by (intro assms(1)) auto
qed

text \<open>Rearranging the elements from \<open>i\<close> on, \<open>m\<close> of them.\<close>

lemma rearranged_sub:
  assumes im: "i + m \<le> n" and re: "rearranged (base + i * sz) m sz h h'"
  shows "rearranged base n sz h h'"
    "k + j \<le> i \<or> i + m \<le> k \<Longrightarrow> slots h' (base + k * sz) sz j = slots h (base + k * sz) sz j"
proof -
  have frame: "h' a = h a" if "a \<notin> span (base + i * sz, m * sz)" for a
    using re that by (simp add: rearranged_def)
  show out: "slots h' (base + k * sz) sz j = slots h (base + k * sz) sz j" if "k + j \<le> i \<or> i + m \<le> k" for k j
    using slots_outside [of base i sz m h' h, OF frame that] .
  have split: "slots g base sz n = slots g base sz i @ slots g (base + i * sz) sz m @ slots g (base + (i + m) * sz) sz (n - (i + m))" for g
    using slots_split [of i n g base sz] slots_split [of m "n - i" g "base + i * sz" sz] im
    by (simp add: add.assoc add_mult_distrib)
  have "mset (slots h' base sz n) = mset (slots h base sz n)"
    using out [of 0 i] out [of "i + m" "n - (i + m)"] re by (simp add: split rearranged_def)
  moreover have "h' a = h a" if "a \<notin> span (base, n * sz)" for a
  proof (rule frame)
    have "i * sz + m * sz \<le> n * sz" using mult_le_mono1 [OF im, of sz] by (simp add: add_mult_distrib)
    with that show "a \<notin> span (base + i * sz, m * sz)" by auto
  qed
  ultimately show "rearranged base n sz h h'" by (rule rearrangedI)
qed

section \<open>Whatever the comparator answers\<close>

lemma introsort_rearranged:
  "sort_range base n sz \<Longrightarrow> rearranged base n sz h (introsort c h base n sz al depth)"
proof (induction depth arbitrary: h base n)
  case 0
  then show ?case by (simp add: heapsort_rearranged insertion_sort_rearranged)
next
  case (Suc depth)
  show ?case
  proof (cases "n > 12")
    case False
    then show ?thesis using Suc.prems by (simp add: insertion_sort_rearranged)
  next
    case True
    obtain h0 l m where p: "partition c h base n sz = (h0, l, m)" by (cases "partition c h base n sz")
    have lm: "rearranged base n sz h h0" "l + m < n" using partition_rearranged [OF Suc.prems _ p] True by auto
    have e: "elem_at base (n - m) sz = base + (n - m) * sz" by (rule elem_at_eq [OF Suc.prems]) simp
    have left: "rearranged base n sz g (introsort c g base l sz al depth)" for g
      using rearranged_sub(1) [of 0 l n base sz g] Suc.IH [OF sort_range_sub [OF Suc.prems, of 0 l]] lm(2) by simp
    have right: "rearranged base n sz g (introsort c g (base + (n - m) * sz) m sz al depth)" for g
      using rearranged_sub(1) [of "n - m" m n base sz g] Suc.IH [OF sort_range_sub [OF Suc.prems, of "n - m" m]] lm(2) by simp
    show ?thesis
      using True p e rearranged_trans [OF lm(1)] rearranged_trans [OF left right] rearranged_trans [OF right left] by simp
  qed
qed

section \<open>With a comparator that keeps its contract\<close>

context element_order
begin

lemma insertion_step:
  assumes r: "sort_range base n sz" and i: "1 \<le> i" "i < n"
  shows "slots (if cmp_at c h sz (elem_at base i sz) (elem_at base (i - 1) sz) \<ge> 0 then h
    else case shift_loop c h base sz (mem_read h (elem_at base i sz) sz) i of (h', j) \<Rightarrow>
      mem_write h' (elem_at base j sz) (mem_read h (elem_at base i sz) sz)) base sz n = lsink c (slots h base sz n) i"
proof -
  let ?xs = "slots h base sz n"
  have rd: "mem_read h (elem_at base i sz) sz = ?xs ! i" "mem_read h (elem_at base (i - 1) sz) sz = ?xs ! (i - 1)"
    using read_elem_at [OF r, of i h] read_elem_at [OF r, of "i - 1" h] i by (simp_all del: slots_nth)
  have stay: "lsink c ?xs i = ?xs" if "c (?xs ! i) (?xs ! (i - 1)) \<ge> 0"
    using that i ge [of "?xs ! i" "?xs ! (i - 1)"] by (cases i) (simp_all del: slots_nth)
  have "length (?xs ! i) = sz" using i by simp
  from shift_loop_sink [OF r i(2) this, of c h]
  have "slots (case shift_loop c h base sz (?xs ! i) i of (h', j) \<Rightarrow> mem_write h' (elem_at base j sz) (?xs ! i)) base sz n = lsink c ?xs i"
    by (simp del: slots_nth split: prod.splits)
  with stay show ?thesis unfolding rd by (simp del: slots_nth)
qed

definition sorted_upto :: "byte list list \<Rightarrow> nat \<Rightarrow> bool" where
  "sorted_upto xs i \<longleftrightarrow> (\<forall>a b. a < b \<and> b < i \<longrightarrow> le (xs ! a) (xs ! b))"

lemma sorted_uptoI: "sorted_upto xs (length xs) \<Longrightarrow> sorted_wrt le xs"
  by (simp add: sorted_upto_def sorted_wrt_iff_nth_less)

lemma insertion_shift_sorted:
  "sort_range base n sz \<Longrightarrow> 1 \<le> i \<Longrightarrow> i + k = n \<Longrightarrow> sorted_upto (slots h base sz n) i \<Longrightarrow>
    sorted_upto (slots (insertion_shift c h base sz i k) base sz n) n"
proof (induction k arbitrary: i h)
  case 0
  then show ?case by simp
next
  case (Suc k)
  let ?cur = "elem_at base i sz"
  define g where "g = (if cmp_at c h sz ?cur (elem_at base (i - 1) sz) \<ge> 0 then h
    else case shift_loop c h base sz (mem_read h ?cur sz) i of (h', j) \<Rightarrow> mem_write h' (elem_at base j sz) (mem_read h ?cur sz))"
  have i: "i < n" using Suc.prems by simp
  have s: "slots g base sz n = lsink c (slots h base sz n) i"
    unfolding g_def by (rule insertion_step [OF Suc.prems(1,2) i])
  have "sorted_upto (slots g base sz n) (Suc i)"
    unfolding s sorted_upto_def using Suc.prems(4) lsink_prefix [of i "slots h base sz n"] i unfolding sorted_upto_def by simp
  moreover have "insertion_shift c h base sz i (Suc k) = insertion_shift c g base sz (i + 1) k"
    by (simp add: g_def Let_def split: prod.splits)
  ultimately show ?case using Suc.IH [OF Suc.prems(1), of "i + 1" g] Suc.prems by simp
qed

lemma insertion_swap_sorted:
  "sort_range base n sz \<Longrightarrow> 1 \<le> i \<Longrightarrow> i + k = n \<Longrightarrow> sorted_upto (slots h base sz n) i \<Longrightarrow>
    sorted_upto (slots (insertion_swap c h base sz i k) base sz n) n"
proof (induction k arbitrary: i h)
  case 0
  then show ?case by simp
next
  case (Suc k)
  have i: "i < n" using Suc.prems by simp
  have s: "slots (sink_loop c h base sz i) base sz n = lsink c (slots h base sz n) i"
    by (rule sink_loop_sink [OF Suc.prems(1) i flip])
  have "sorted_upto (slots (sink_loop c h base sz i) base sz n) (Suc i)"
    unfolding s sorted_upto_def using Suc.prems(4) lsink_prefix [of i "slots h base sz n"] i unfolding sorted_upto_def by simp
  with Suc.IH [OF Suc.prems(1), of "i + 1"] Suc.prems show ?case by simp
qed

lemma insertion_sort_sorted:
  assumes "sort_range base n sz"
  shows "sorted_wrt le (slots (insertion_sort c h base n sz al) base sz n)"
proof (cases "n < 2")
  case True
  then show ?thesis by (auto simp: sorted_wrt_iff_nth_less)
next
  case False
  have "sorted_upto (slots h base sz n) 1" by (simp add: sorted_upto_def)
  with insertion_shift_sorted [OF assms, of 1 "n - 1" h] insertion_swap_sorted [OF assms, of 1 "n - 1" h] False
  have "sorted_upto (slots (insertion_sort c h base n sz al) base sz n) n" by (simp add: insertion_sort_def)
  then show ?thesis by (intro sorted_uptoI) simp
qed

text \<open>Sorted runs below, at and above a pivot make a sorted range.\<close>

lemma sorted_three:
  assumes "sorted_wrt le xs" "sorted_wrt le zs" and v: "\<And>x. x \<in> set xs \<Longrightarrow> c x v < 0"
    "\<And>y. y \<in> set ys \<Longrightarrow> c y v = 0" "\<And>z. z \<in> set zs \<Longrightarrow> c z v > 0"
  shows "sorted_wrt le (xs @ ys @ zs)"
proof -
  have via: "le a b" if "le a v" "le v b" for a b using trans [OF that] .
  have y: "le a v" "le v a" if "a \<in> set ys" for a using v(2) [OF that] zero_flip [of a v] by simp_all
  have x: "le a v" if "a \<in> set xs" for a using v(1) [OF that] by simp
  have z: "le v a" if "a \<in> set zs" for a using v(3) [OF that] total by blast
  have "sorted_wrt le ys"
    unfolding sorted_wrt_iff_nth_less using y via nth_mem by (metis order.strict_trans)
  moreover have "\<forall>a \<in> set xs. \<forall>b \<in> set (ys @ zs). le a b" using x y z via by auto
  moreover have "\<forall>a \<in> set ys. \<forall>b \<in> set zs. le a b" using y z via by auto
  ultimately show ?thesis using assms(1,2) by (simp only: sorted_wrt_append)
qed

lemma introsort_sorted:
  "sort_range base n sz \<Longrightarrow> sorted_wrt le (slots (introsort c h base n sz al depth) base sz n)"
proof (induction depth arbitrary: h base n)
  case 0
  then show ?case by (simp add: heapsort_sorted insertion_sort_sorted)
next
  case (Suc depth)
  show ?case
  proof (cases "n > 12")
    case False
    then show ?thesis using Suc.prems by (simp add: insertion_sort_sorted)
  next
    case True
    obtain h0 l m where p: "partition c h base n sz = (h0, l, m)" by (cases "partition c h base n sz")
    have lm: "l + m < n" and n2: "2 \<le> n" using partition_rearranged [OF Suc.prems _ p] True by auto
    let ?r = "base + (n - m) * sz"
    let ?L = "\<lambda>g. introsort c g base l sz al depth" and ?R = "\<lambda>g. introsort c g ?r m sz al depth"
    define h' where "h' = (if l < m then ?R (?L h0) else ?L (?R h0))"
    have e: "elem_at base (n - m) sz = ?r" by (rule elem_at_eq [OF Suc.prems]) simp
    have sub: "sort_range base l sz" "sort_range ?r m sz"
      using sort_range_sub [OF Suc.prems, of 0 l] sort_range_sub [OF Suc.prems, of "n - m" m] lm by simp_all
    have reL: "rearranged base l sz g (?L g)" and reR: "rearranged ?r m sz g (?R g)" for g
      using introsort_rearranged sub by blast+
    have fL: "slots (?L g) (base + k * sz) sz j = slots g (base + k * sz) sz j" if "l \<le> k" for g k j
      using rearranged_sub(2) [of 0 l n base sz g "?L g" k j] reL [of g] that lm by simp
    have fR: "slots (?R g) (base + k * sz) sz j = slots g (base + k * sz) sz j" if "k + j \<le> n - m" for g k j
      using rearranged_sub(2) [of "n - m" m n base sz g "?R g" k j] reR [of g] that lm by simp
    have sL: "sorted_wrt le (slots (?L g) base sz l)" and sR: "sorted_wrt le (slots (?R g) ?r sz m)" for g
      using Suc.IH sub by blast+
    have left: "sorted_wrt le (slots h' base sz l)" "mset (slots h' base sz l) = mset (slots h0 base sz l)"
      using sL reL fR [of 0 l] lm unfolding h'_def rearranged_def by auto
    have right: "sorted_wrt le (slots h' ?r sz m)" "mset (slots h' ?r sz m) = mset (slots h0 ?r sz m)"
      using sR reR fL [of "n - m" _ m] lm unfolding h'_def rearranged_def by auto
    let ?k = "n - m - l"
    have middle: "slots h' (base + l * sz) sz ?k = slots h0 (base + l * sz) sz ?k"
      using fL [of l _ ?k] fR [of l ?k] lm unfolding h'_def by simp
    have split: "slots g base sz n = slots g base sz l @ slots g (base + l * sz) sz ?k @ slots g ?r sz m" for g
      using slots_split [of l n g base sz] slots_split [of ?k "n - l" g "base + l * sz" sz] lm
        add_mult_distrib [of l ?k sz] by (simp add: add.assoc)
    obtain v where v: "\<And>i. i < n \<Longrightarrow> (if i < l then c (slots h0 base sz n ! i) v < 0
        else if i < n - m then c (slots h0 base sz n ! i) v = 0 else c (slots h0 base sz n ! i) v > 0)"
      using partition_regions [OF Suc.prems n2 p] by blast
    have "sorted_wrt le (slots h' base sz l @ slots h' (base + l * sz) sz ?k @ slots h' ?r sz m)"
    proof (rule sorted_three [OF left(1) right(1)])
      fix x assume "x \<in> set (slots h' base sz l)"
      then have "x \<in> set (slots h0 base sz l)" using left(2) mset_eq_setD by blast
      then obtain i where "i < l" "x = slots h0 base sz l ! i" by (auto simp: in_set_conv_nth)
      then show "c x v < 0" using v [of i] lm by simp
    next
      fix y assume "y \<in> set (slots h' (base + l * sz) sz ?k)"
      then obtain i where i: "i < ?k" "y = mem_read h0 (base + l * sz + i * sz) sz"
        unfolding middle by (auto simp: in_set_conv_nth)
      then have "l + i < n - m" "\<not> l + i < l" "l + i < n" "y = slots h0 base sz n ! (l + i)"
        using lm by (simp_all add: add_mult_distrib add.assoc)
      then show "c y v = 0" using v [of "l + i"] by (simp del: slots_nth)
    next
      fix z assume "z \<in> set (slots h' ?r sz m)"
      then have "z \<in> set (slots h0 ?r sz m)" using right(2) mset_eq_setD by blast
      then obtain i where i: "i < m" "z = mem_read h0 (?r + i * sz) sz" by (auto simp: in_set_conv_nth)
      then have "\<not> n - m + i < n - m" "\<not> n - m + i < l" "n - m + i < n" "z = slots h0 base sz n ! (n - m + i)"
        using lm slots_nth [of "n - m + i" n h0 base sz] by (simp_all only: add_mult_distrib add.assoc)
      then show "c z v > 0" using v [of "n - m + i"] by (simp del: slots_nth)
    qed
    moreover have "introsort c h base n sz al (Suc depth) = h'" using True p e by (simp add: h'_def)
    ultimately show ?thesis by (simp add: split)
  qed
qed

end

end
