(* ===== verification/U8_View.thy ===== *)
theory U8_View
  imports Views Sort_Intro
begin

text \<open>
  The string views of \<^verbatim>\<open>src/proven/u8str.c\<close> that neither allocate nor search: comparison, prefixes
  and suffixes with and without ASCII case, slices, trimming. A view is one of \<open>Views\<close>; a null view
  with a size above 0 is the ill-formed one of the header, and \<open>Null 0\<close> is its one spelling of empty.
  Comparing memory is modelled after the portable version of \<^verbatim>\<open>platform/proven_sys_mem.h\<close>; a hosted
  build calls \<^verbatim>\<open>memcmp\<close>, of which only the sign is specified, and only the sign is used.
\<close>

type_synonym u8view = "byte view"

section \<open>Comparing memory\<close>

fun mem_cmp_loop :: "byte list \<Rightarrow> byte list \<Rightarrow> nat \<Rightarrow> int" where
  "mem_cmp_loop (x # xs) (y # ys) (Suc n) = (if x \<noteq> y then uint x - uint y else mem_cmp_loop xs ys n)"
| "mem_cmp_loop _ _ _ = 0"

definition proven_sys_mem_cmp :: "u8view \<Rightarrow> u8view \<Rightarrow> nat \<Rightarrow> int" where
  "proven_sys_mem_cmp s1 s2 n =
    (if n = 0 then 0
     else if view_null s1 \<and> view_null s2 then 0
     else if view_null s1 then - 1
     else if view_null s2 then 1
     else mem_cmp_loop (view_data s1) (view_data s2) n)"

text \<open>A pointer moved forward inside the view it points to.\<close>

definition view_from :: "'e view \<Rightarrow> nat \<Rightarrow> 'e view" where
  "view_from v k = At (drop k (view_data v))"

section \<open>Prefixes and suffixes\<close>

definition proven_u8str_view_starts_with :: "u8view \<Rightarrow> u8view \<Rightarrow> bool" where
  "proven_u8str_view_starts_with str prefix =
    (if view_size prefix = 0 then True
     else if view_size str < view_size prefix then False
     else if view_null str \<or> view_null prefix then False
     else proven_sys_mem_cmp str prefix (view_size prefix) = 0)"

definition proven_u8str_view_ends_with :: "u8view \<Rightarrow> u8view \<Rightarrow> bool" where
  "proven_u8str_view_ends_with str suffix =
    (if view_size suffix = 0 then True
     else if view_size str < view_size suffix then False
     else if view_null str \<or> view_null suffix then False
     else (let offset = view_size str - view_size suffix in
       proven_sys_mem_cmp (view_from str offset) suffix (view_size suffix) = 0))"

section \<open>ASCII case\<close>

definition proven_ascii_lower :: "byte \<Rightarrow> byte" where
  "proven_ascii_lower c = (if asc CHR ''A'' \<le> c \<and> c \<le> asc CHR ''Z'' then c + (asc CHR ''a'' - asc CHR ''A'') else c)"

fun ascii_ci_same :: "byte list \<Rightarrow> byte list \<Rightarrow> nat \<Rightarrow> bool" where
  "ascii_ci_same (x # xs) (y # ys) (Suc n) =
    (if proven_ascii_lower x \<noteq> proven_ascii_lower y then False else ascii_ci_same xs ys n)"
| "ascii_ci_same _ _ _ = True"

definition proven_u8str_view_eq_ascii_ci :: "u8view \<Rightarrow> u8view \<Rightarrow> bool" where
  "proven_u8str_view_eq_ascii_ci a b =
    (if view_size a \<noteq> view_size b then False
     else if view_size a = 0 then True
     else if view_null a \<or> view_null b then False
     else ascii_ci_same (view_data a) (view_data b) (view_size a))"

definition proven_u8str_view_starts_with_ascii_ci :: "u8view \<Rightarrow> u8view \<Rightarrow> bool" where
  "proven_u8str_view_starts_with_ascii_ci str prefix =
    (if view_size prefix = 0 then True
     else if view_size str < view_size prefix then False
     else if view_null str \<or> view_null prefix then False
     else ascii_ci_same (view_data str) (view_data prefix) (view_size prefix))"

definition proven_u8str_view_ends_with_ascii_ci :: "u8view \<Rightarrow> u8view \<Rightarrow> bool" where
  "proven_u8str_view_ends_with_ascii_ci str suffix =
    (if view_size suffix = 0 then True
     else if view_size str < view_size suffix then False
     else if view_null str \<or> view_null suffix then False
     else ascii_ci_same (drop (view_size str - view_size suffix) (view_data str)) (view_data suffix) (view_size suffix))"

fun cmp_ci_loop :: "byte list \<Rightarrow> byte list \<Rightarrow> nat \<Rightarrow> int option" where
  "cmp_ci_loop (a # as) (b # bs) (Suc n) =
    (let x = proven_ascii_lower a; y = proven_ascii_lower b in
     if x \<noteq> y then Some (if x < y then - 1 else 1) else cmp_ci_loop as bs n)"
| "cmp_ci_loop _ _ _ = None"

definition size_sign :: "nat \<Rightarrow> nat \<Rightarrow> int" where
  "size_sign m n = (if m > n then 1 else 0) - (if m < n then 1 else 0)"

definition proven_u8str_view_cmp_ascii_ci :: "u8view \<Rightarrow> u8view \<Rightarrow> int" where
  "proven_u8str_view_cmp_ascii_ci a b =
    (let m = (if view_size a > 0 \<and> view_null a then 0 else view_size a);
         n = (if view_size b > 0 \<and> view_null b then 0 else view_size b) in
     case cmp_ci_loop (view_data a) (view_data b) (if m < n then m else n) of
       Some r \<Rightarrow> r
     | None \<Rightarrow> size_sign m n)"

section \<open>Slices and order\<close>

definition proven_u8str_view_slice :: "u8view \<Rightarrow> nat \<Rightarrow> nat \<Rightarrow> u8view" where
  "proven_u8str_view_slice str index len =
    (if view_size str > 0 \<and> view_null str then Null 0
     else if len = 0 then Null 0
     else if index \<ge> view_size str then Null 0
     else let actual = (case ckd_add index len of
                None \<Rightarrow> view_size str - index
              | Some end_idx \<Rightarrow> if end_idx > view_size str then view_size str - index else len)
       in At (take actual (drop index (view_data str))))"

definition view_or_empty :: "'e view \<Rightarrow> 'e view" where
  "view_or_empty v = (if view_size v = 0 \<or> view_null v then Null 0 else v)"

definition proven_u8str_view_cmp :: "u8view \<Rightarrow> u8view \<Rightarrow> int" where
  "proven_u8str_view_cmp a b =
    (let a = view_or_empty a; b = view_or_empty b;
         n = (if view_size a < view_size b then view_size a else view_size b);
         c = (if n > 0 then proven_sys_mem_cmp a b n else 0) in
     if c \<noteq> 0 then c else size_sign (view_size a) (view_size b))"

text \<open>The comparator for elements that are views: \<open>rep\<close> is the view an element's bytes stand for
  (the object representation of the struct, and the bytes its pointer leads to).\<close>

definition proven_u8str_view_cmp_ptr :: "(byte list \<Rightarrow> u8view) \<Rightarrow> compare_fn" where
  "proven_u8str_view_cmp_ptr rep a b = proven_u8str_view_cmp (rep a) (rep b)"

section \<open>Trimming and removing\<close>

definition view_is_space :: "byte \<Rightarrow> bool" where
  "view_is_space c \<longleftrightarrow> c = 0x20 \<or> c = 0x09 \<or> c = 0x0A \<or> c = 0x0B \<or> c = 0x0C \<or> c = 0x0D"

definition view_sub :: "'e view \<Rightarrow> nat \<Rightarrow> nat \<Rightarrow> 'e view" where
  "view_sub s from to = (if to \<le> from then Null 0 else At (take (to - from) (drop from (view_data s))))"

function trim_start_loop :: "byte list \<Rightarrow> nat \<Rightarrow> nat" where
  "trim_start_loop s i = (if i < length s \<and> view_is_space (s ! i) then trim_start_loop s (i + 1) else i)"
  by pat_completeness auto
termination by (relation "measure (\<lambda>(s, i). length s - i)") auto

declare trim_start_loop.simps [simp del]

definition proven_u8str_view_trim_start :: "u8view \<Rightarrow> u8view" where
  "proven_u8str_view_trim_start s =
    (let s = view_or_empty s in view_sub s (trim_start_loop (view_data s) 0) (view_size s))"

fun trim_end_loop :: "byte list \<Rightarrow> nat \<Rightarrow> nat" where
  "trim_end_loop s 0 = 0"
| "trim_end_loop s (Suc e) = (if view_is_space (s ! e) then trim_end_loop s e else Suc e)"

definition proven_u8str_view_trim_end :: "u8view \<Rightarrow> u8view" where
  "proven_u8str_view_trim_end s =
    (let s = view_or_empty s in view_sub s 0 (trim_end_loop (view_data s) (view_size s)))"

definition proven_u8str_view_trim :: "u8view \<Rightarrow> u8view" where
  "proven_u8str_view_trim s = proven_u8str_view_trim_end (proven_u8str_view_trim_start s)"

definition proven_u8str_view_remove_prefix :: "u8view \<Rightarrow> u8view \<Rightarrow> u8view" where
  "proven_u8str_view_remove_prefix s prefix =
    (let s = view_or_empty s; prefix = view_or_empty prefix in
     if \<not> proven_u8str_view_starts_with s prefix then s
     else view_sub s (view_size prefix) (view_size s))"

definition proven_u8str_view_remove_suffix :: "u8view \<Rightarrow> u8view \<Rightarrow> u8view" where
  "proven_u8str_view_remove_suffix s suffix =
    (let s = view_or_empty s; suffix = view_or_empty suffix in
     if \<not> proven_u8str_view_ends_with s suffix then s
     else view_sub s 0 (view_size s - view_size suffix))"

definition proven_u8str_view_is_well_formed :: "u8view \<Rightarrow> bool" where
  "proven_u8str_view_is_well_formed s \<longleftrightarrow> view_size s = 0 \<or> \<not> view_null s"

section \<open>Comparison is the order of the bytes\<close>

lemma mem_cmp_loop_zero: "n \<le> length xs \<Longrightarrow> n \<le> length ys \<Longrightarrow> mem_cmp_loop xs ys n = 0 \<longleftrightarrow> take n xs = take n ys"
  by (induction xs ys n rule: mem_cmp_loop.induct) (auto simp: word_uint_eq_iff)

lemma mem_cmp_loop_flip: "mem_cmp_loop ys xs n = - mem_cmp_loop xs ys n"
  by (induction xs ys n rule: mem_cmp_loop.induct) (auto split: list.splits)

text \<open>The reference: unsigned bytes in lexicographic order, a proper prefix first.\<close>

fun bytes_cmp :: "byte list \<Rightarrow> byte list \<Rightarrow> int" where
  "bytes_cmp [] [] = 0"
| "bytes_cmp [] (y # ys) = - 1"
| "bytes_cmp (x # xs) [] = 1"
| "bytes_cmp (x # xs) (y # ys) = (if x = y then bytes_cmp xs ys else uint x - uint y)"

lemma bytes_cmp_loop:
  "(let c = mem_cmp_loop xs ys (min (length xs) (length ys)) in
    if c \<noteq> 0 then c else size_sign (length xs) (length ys)) = bytes_cmp xs ys"
  by (induction xs ys rule: bytes_cmp.induct) (auto simp: size_sign_def Let_def word_uint_eq_iff)

lemma view_or_empty_data [simp]: "view_data (view_or_empty v) = view_data v"
  by (cases v) (auto simp: view_or_empty_def)

lemma view_or_empty_size [simp]: "view_size (view_or_empty v) = length (view_data v)"
  by (cases v) (auto simp: view_or_empty_def)

lemma view_or_empty_null [simp]: "view_null (view_or_empty v) \<longleftrightarrow> view_data v = []"
  by (cases v) (auto simp: view_or_empty_def)

lemma view_cmp_bytes: "proven_u8str_view_cmp a b = bytes_cmp (view_data a) (view_data b)"
  unfolding bytes_cmp_loop [symmetric]
  by (auto simp: proven_u8str_view_cmp_def proven_sys_mem_cmp_def Let_def min_def)

lemma bytes_cmp_zero: "bytes_cmp xs ys = 0 \<longleftrightarrow> xs = ys"
  by (induction xs ys rule: bytes_cmp.induct) (auto simp: word_uint_eq_iff)

lemma bytes_cmp_flip: "bytes_cmp ys xs = - bytes_cmp xs ys"
  by (induction xs ys rule: bytes_cmp.induct) auto

lemma bytes_cmp_lexord: "bytes_cmp xs ys < 0 \<longleftrightarrow> (xs, ys) \<in> lexord {(x, y). x < y}"
  by (induction xs ys rule: bytes_cmp.induct) (auto simp: word_less_def)

lemma bytes_cmp_trans: "bytes_cmp xs ys \<le> 0 \<Longrightarrow> bytes_cmp ys zs \<le> 0 \<Longrightarrow> bytes_cmp xs zs \<le> 0"
proof -
  have t: "trans (lexord {(x :: byte, y). x < y})" by (intro lexord_transI transI) auto
  have le: "bytes_cmp a b \<le> 0 \<longleftrightarrow> a = b \<or> (a, b) \<in> lexord {(x, y). x < y}" for a b
    using bytes_cmp_zero [of a b] bytes_cmp_lexord [of a b] by linarith
  assume "bytes_cmp xs ys \<le> 0" "bytes_cmp ys zs \<le> 0"
  then show ?thesis unfolding le using t [unfolded trans_def] by blast
qed

interpretation view_order: element_order "proven_u8str_view_cmp_ptr rep" for rep
proof unfold_locales
  show "proven_u8str_view_cmp_ptr rep a b < 0 \<longleftrightarrow> proven_u8str_view_cmp_ptr rep b a > 0" for a b
    unfolding proven_u8str_view_cmp_ptr_def view_cmp_bytes using bytes_cmp_flip [of "view_data (rep a)" "view_data (rep b)"] by linarith
  show "proven_u8str_view_cmp_ptr rep x y \<le> 0 \<Longrightarrow> proven_u8str_view_cmp_ptr rep y z \<le> 0 \<Longrightarrow>
      proven_u8str_view_cmp_ptr rep x z \<le> 0" for x y z
    unfolding proven_u8str_view_cmp_ptr_def view_cmp_bytes by (rule bytes_cmp_trans)
qed

end
