(* ===== verification/Sort_Props.thy ===== *)
theory Sort_Props
  imports U8_View Array_Ops
begin

text \<open>
  Sorting and searching an array: what holds whatever the comparator answers, and what holds with a
  comparator that keeps the contract of the header (the sign flips with the arguments, "not greater"
  is transitive), which the string comparator of the library does.
\<close>

section \<open>Binary search\<close>

context element_order
begin

text \<open>What the search has excluded: everything before \<open>low\<close> is below the key, everything after \<open>high\<close> above.\<close>

lemma binary_search_finds:
  fixes h :: mem and k base :: addr and n sz :: nat
  assumes r: "sort_range base n sz" and s: "sorted_wrt le (slots h base sz n)"
  defines "key \<equiv> mem_read h k sz" and "xs \<equiv> slots h base sz n"
  shows "0 \<le> low \<Longrightarrow> high < int n \<Longrightarrow>
    (\<forall>i < n. int i < low \<longrightarrow> c key (xs ! i) > 0) \<Longrightarrow> (\<forall>i < n. high < int i \<longrightarrow> c key (xs ! i) < 0) \<Longrightarrow>
    (binary_search_loop c h base k sz low high = 0 \<and> (\<forall>i < n. c key (xs ! i) \<noteq> 0)) \<or>
    (\<exists>i < n. binary_search_loop c h base k sz low high = elem_at base i sz \<and> c key (xs ! i) = 0)"
proof (induction "nat (high - low + 1)" arbitrary: low high rule: less_induct)
  case less
  show ?case
  proof (cases "low \<le> high")
    case False
    have "c key (xs ! i) \<noteq> 0" if "i < n" for i
    proof (cases "int i < low")
      case True
      then show ?thesis using less.prems(3) that by force
    next
      case ge: False
      with False have "high < int i" by linarith
      then show ?thesis using less.prems(4) that by force
    qed
    then show ?thesis using False by (simp add: binary_search_loop.simps)
  next
    case True
    define mid where "mid = low + (high - low) div 2"
    have m: "low \<le> mid" "mid \<le> high" using True unfolding mid_def by linarith+
    define j where "j = nat mid"
    have j: "j < n" "int j = mid" using m less.prems(1,2) by (auto simp: j_def)
    let ?r = "c key (xs ! j)"
    have rd: "mem_read h (elem_at base j sz) sz = xs ! j" unfolding xs_def by (rule read_elem_at [OF r j(1)])
    have step: "binary_search_loop c h base k sz low high = (if ?r = 0 then elem_at base j sz
        else if ?r < 0 then binary_search_loop c h base k sz low (mid - 1) else binary_search_loop c h base k sz (mid + 1) high)"
      using True unfolding binary_search_loop.simps [of c h base k sz low high] Let_def mid_def [symmetric] j_def [symmetric] rd key_def
      by simp
    have ord: "le (xs ! a) (xs ! b)" if "a < b" "b < n" for a b
      using s that unfolding sorted_wrt_iff_nth_less xs_def by simp
    consider "?r = 0" | "?r < 0" | "?r > 0" by linarith
    then show ?thesis
    proof cases
      case 1
      then show ?thesis using j(1) by (auto simp: step)
    next
      case 2
      have "c key (xs ! i) < 0" if "i < n" "mid - 1 < int i" for i
        using that 2 j ord [of j i] less_le_trans [OF 2, of "xs ! i"] by (cases "i = j") auto
      then have a: "\<forall>i < n. mid - 1 < int i \<longrightarrow> c key (xs ! i) < 0" by blast
      have sm: "nat (mid - 1 - low + 1) < nat (high - low + 1)" "mid - 1 < int n" using m less.prems(2) by linarith+
      from less.hyps [OF sm(1) less.prems(1) sm(2) less.prems(3) a] 2 show ?thesis by (simp add: step)
    next
      case 3
      have "c key (xs ! i) > 0" if "i < n" "int i < mid + 1" for i
      proof (cases "i = j")
        case False
        then have "le (xs ! i) (xs ! j)" using that j by (intro ord) auto
        then show ?thesis using 3 trans [of key "xs ! i" "xs ! j"] by linarith
      qed (use 3 in simp)
      then have b: "\<forall>i < n. int i < mid + 1 \<longrightarrow> c key (xs ! i) > 0" by blast
      have sm: "nat (high - (mid + 1) + 1) < nat (high - low + 1)" "0 \<le> mid + 1" using m less.prems(1) by linarith+
      from less.hyps [OF sm(1) sm(2) less.prems(2) b less.prems(4)] 3 show ?thesis by (simp add: step)
    qed
  qed
qed

end

text \<open>The array as a range that can be sorted.\<close>

definition array_range :: "'c proven_array \<Rightarrow> bool" where
  "array_range a \<longleftrightarrow> (alen a \<noteq> 0 \<longrightarrow> adata a \<noteq> 0) \<and> 0 < aelem_size a \<and> alen a * aelem_size a \<le> SIZE_MAX"

lemma array_range_sort: "array_range a \<Longrightarrow> alen a \<noteq> 0 \<Longrightarrow> sort_range (adata a) (alen a) (aelem_size a)"
  by (simp add: array_range_def sort_range_def)

lemma array_valid_range: "proven_array_is_valid (Some a) \<Longrightarrow> array_range a"
  by (auto simp: array_valid_iff array_range_def intro: le_trans [OF mult_le_mono1])

lemma array_sort_rearranged:
  assumes "array_range a"
  shows "rearranged (adata a) (alen a) (aelem_size a) h (proven_array_sort h (Some a) cmp)"
proof (cases "alen a < 2 \<or> cmp = None")
  case False
  with introsort_rearranged [OF array_range_sort [OF assms]] show ?thesis
    by (auto simp: proven_array_sort_def)
qed (auto simp: proven_array_sort_def split: option.splits)

lemma array_sort_sorted:
  assumes "array_range a" and "element_order c"
  shows "sorted_wrt (\<lambda>x y. c x y \<le> 0) (array_list (proven_array_sort h (Some a) (Some c)) a)"
proof (cases "alen a < 2")
  case True
  then show ?thesis by (auto simp: array_list_def sorted_wrt_iff_nth_less)
next
  case False
  with element_order.introsort_sorted [OF assms(2) array_range_sort [OF assms(1)]] show ?thesis
    using assms(1) by (simp add: proven_array_sort_def array_list_def array_range_def)
qed

lemma linear_search_finds:
  assumes r: "sort_range base n sz"
  shows "i + m = n \<Longrightarrow> (\<And>j. j < i \<Longrightarrow> c (mem_read h k sz) (slots h base sz n ! j) \<noteq> 0) \<Longrightarrow>
    (linear_search_loop c h base k sz i m = 0 \<and> (\<forall>j < n. c (mem_read h k sz) (slots h base sz n ! j) \<noteq> 0)) \<or>
    (\<exists>l < n. linear_search_loop c h base k sz i m = elem_at base l sz \<and> c (mem_read h k sz) (slots h base sz n ! l) = 0 \<and>
      (\<forall>j < l. c (mem_read h k sz) (slots h base sz n ! j) \<noteq> 0))"
proof (induction m arbitrary: i)
  case 0
  then show ?case by auto
next
  case (Suc m)
  have i: "i < n" using Suc.prems(1) by simp
  have rd: "mem_read h (elem_at base i sz) sz = slots h base sz n ! i" by (rule read_elem_at [OF r i])
  show ?case
  proof (cases "c (mem_read h k sz) (slots h base sz n ! i) = 0")
    case True
    then show ?thesis using i Suc.prems(2) unfolding linear_search_loop.simps Let_def rd by auto
  next
    case False
    have "c (mem_read h k sz) (slots h base sz n ! j) \<noteq> 0" if "j < i + 1" for j
      using Suc.prems(2) [of j] False that by (cases "j = i") (auto simp del: slots_nth)
    from Suc.IH [OF _ this] False Suc.prems(1) show ?thesis unfolding linear_search_loop.simps Let_def rd by simp
  qed
qed

section \<open>Properties\<close>

text \<open>
  Sorting a valid array permutes its elements and changes no other byte of memory, whatever the
  comparator answers, an inconsistent one included, and also when there is none.
\<close>

theorem array_sort_permutes:
  fixes h :: mem and cmp :: "compare_fn option"
  assumes "proven_array_is_valid (Some a)"
  defines "h' \<equiv> proven_array_sort h (Some a) cmp"
  shows "mset (array_list h' a) = mset (array_list h a) \<and>
    (\<forall>x. x \<notin> span (adata a, alen a * aelem_size a) \<longrightarrow> h' x = h x)"
  using array_sort_rearranged [OF array_valid_range [OF assms(1)], of h cmp]
  unfolding h'_def rearranged_def array_list_def .

lemma demo_array_valid: "proven_array_is_valid (Some demo_array)"
  using demo_array_wf by (simp add: array_wf_def)

theorem array_sort_permutes_witness:
  "mset (array_list (proven_array_sort (heap demo_used) (Some demo_array) (Some (\<lambda>_ _. 1))) demo_array) =
    mset [[0, 1], [2, 3], [4, 5]]"
  using array_sort_permutes [OF demo_array_valid, where h = "heap demo_used" and cmp = "Some (\<lambda>_ _. 1)"] by (simp add: demo_array_list)

text \<open>
  C4: With a comparator that keeps its contract the sort leaves a valid array sorted: it is the same
  elements, in order, whatever path the sort took (insertion sort, partition, or heapsort when the
  depth budget ran out).
\<close>

theorem array_sort_sorts:
  fixes h :: mem
  assumes "proven_array_is_valid (Some a)" and "\<And>x y. c x y < 0 \<longleftrightarrow> c y x > 0"
    and "\<And>x y z. c x y \<le> 0 \<Longrightarrow> c y z \<le> 0 \<Longrightarrow> c x z \<le> 0"
  defines "xs \<equiv> array_list (proven_array_sort h (Some a) (Some c)) a"
  shows "sorted_wrt (\<lambda>x y. c x y \<le> 0) xs \<and> mset xs = mset (array_list h a)"
proof -
  have "element_order c" using assms(2,3) by unfold_locales blast+
  then show ?thesis
    using array_sort_sorted [OF array_valid_range [OF assms(1)], of c h] array_sort_rearranged [OF array_valid_range [OF assms(1)], of h "Some c"]
    unfolding xs_def rearranged_def array_list_def by blast
qed

theorem array_sort_sorts_witness:
  "sorted_wrt (\<lambda>x y. proven_u8str_view_cmp_ptr (\<lambda>b. At (rev b)) x y \<le> 0)
     (array_list (proven_array_sort (heap demo_used) (Some demo_array) (Some (proven_u8str_view_cmp_ptr (\<lambda>b. At (rev b))))) demo_array)"
  by (rule array_sort_sorts [where c = "proven_u8str_view_cmp_ptr (\<lambda>b. At (rev b))", THEN conjunct1])
    (rule demo_array_valid view_order.flip | erule (1) view_order.trans)+

text \<open>
  C30: Sorting an array of string views with the library's comparator puts the strings they stand for
  in lexicographic order of their unsigned bytes.
\<close>

theorem sort_views_lexicographic:
  fixes h :: mem and rep :: "byte list \<Rightarrow> u8view"
  assumes "proven_array_is_valid (Some a)" and "i < j" and "j < alen a"
  defines "xs \<equiv> array_list (proven_array_sort h (Some a) (Some (proven_u8str_view_cmp_ptr rep))) a"
  shows "view_data (rep (xs ! i)) = view_data (rep (xs ! j)) \<or>
    (view_data (rep (xs ! i)), view_data (rep (xs ! j))) \<in> lexord {(x, y). x < y}"
proof -
  have "proven_u8str_view_cmp_ptr rep (xs ! i) (xs ! j) \<le> 0"
    using array_sort_sorted [OF array_valid_range [OF assms(1)] view_order.element_order_axioms, of rep h] assms(2,3)
    unfolding xs_def sorted_wrt_iff_nth_less by simp
  then show ?thesis
    using bytes_cmp_zero bytes_cmp_lexord unfolding proven_u8str_view_cmp_ptr_def view_cmp_bytes
    by (metis order_le_less)
qed

theorem sort_views_lexicographic_witness:
  "\<exists>xs. xs = array_list (proven_array_sort (heap demo_used) (Some demo_array) (Some (proven_u8str_view_cmp_ptr At))) demo_array \<and>
    (xs ! 0 = xs ! 2 \<or> (xs ! 0, xs ! 2) \<in> lexord {(x, y). x < y})"
  using sort_views_lexicographic [OF demo_array_valid, where i = 0 and j = 2 and h = "heap demo_used" and rep = At] by (simp add: demo_array_fields)

text \<open>
  Binary search in a sorted valid array, with a comparator that keeps its contract, answers null
  exactly when no element equals the key, and otherwise the address of an element that does. The
  length must fit the signed index type, which every C object does.
\<close>

theorem array_binary_search_correct:
  fixes h :: mem and key :: addr and c :: compare_fn
  assumes "proven_array_is_valid (Some a)" and "key \<noteq> 0" and "\<And>x y. c x y < 0 \<longleftrightarrow> c y x > 0"
    and "\<And>x y z. c x y \<le> 0 \<Longrightarrow> c y z \<le> 0 \<Longrightarrow> c x z \<le> 0"
    and "sorted_wrt (\<lambda>x y. c x y \<le> 0) (array_list h a)" and "alen a < 2 ^ 63"
  defines "r \<equiv> proven_array_binary_search h (Some a) key (Some c)" and "v \<equiv> mem_read h key (aelem_size a)"
  shows "(r = 0 \<longleftrightarrow> (\<forall>x \<in> set (array_list h a). c v x \<noteq> 0)) \<and>
    (r \<noteq> 0 \<longrightarrow> (\<exists>i < alen a. r = adata a + i * aelem_size a \<and> c v (array_list h a ! i) = 0))"
proof (cases "alen a = 0")
  case True
  then show ?thesis by (simp add: r_def proven_array_binary_search_def array_list_def)
next
  case False
  have eo: "element_order c" using assms(3,4) by unfold_locales blast+
  note ar = array_valid_range [OF assms(1)]
  note r = array_range_sort [OF ar False]
  let ?s = "slots h (adata a) (aelem_size a) (alen a)"
  have e: "r = binary_search_loop c h (adata a) key (aelem_size a) 0 (int (alen a) - 1)"
    using False assms(2,6) by (simp add: r_def proven_array_binary_search_def as_ptrdiff_def SIZE_MAX_eval)
  have nz: "elem_at (adata a) i (aelem_size a) \<noteq> 0" for i
    using r by (simp add: elem_at_def sort_range_def)
  have "(r = 0 \<and> (\<forall>i < alen a. c v (?s ! i) \<noteq> 0)) \<or>
      (\<exists>i < alen a. r = elem_at (adata a) i (aelem_size a) \<and> c v (?s ! i) = 0)"
    unfolding e v_def using assms(5)
    by (intro element_order.binary_search_finds [OF eo r]) (auto simp: array_list_def)
  then show ?thesis
  proof (elim disjE exE conjE)
    fix i
    assume i: "i < alen a" "r = elem_at (adata a) i (aelem_size a)" "c v (?s ! i) = 0"
    then have "?s ! i \<in> set ?s" by (intro nth_mem) simp
    moreover have "r \<noteq> 0" unfolding i(2) by (rule nz)
    moreover have "r = adata a + i * aelem_size a" using i(1,2) elem_at_eq [OF r, of i] by simp
    ultimately show ?thesis using i(1,3-) unfolding array_list_def by blast
  qed (auto simp: array_list_def in_set_conv_nth)
qed

lemma demo_array_key: "mem_read (heap demo_used) 4098 (aelem_size demo_array) = [2, 3]"
  using demo_array_list by (simp add: array_list_def demo_array_def slots_numeral)

theorem array_binary_search_correct_witness:
  "proven_array_binary_search (heap demo_used) (Some demo_array) 4098 (Some (proven_u8str_view_cmp_ptr At)) \<noteq> 0"
proof -
  let ?c = "proven_u8str_view_cmp_ptr At"
  have s: "sorted_wrt (\<lambda>x y. ?c x y \<le> 0) (array_list (heap demo_used) demo_array)"
    by (simp add: demo_array_list proven_u8str_view_cmp_ptr_def view_cmp_bytes)
  have "proven_array_binary_search (heap demo_used) (Some demo_array) 4098 (Some ?c) = 0 \<longleftrightarrow>
      (\<forall>x \<in> set (array_list (heap demo_used) demo_array). ?c (mem_read (heap demo_used) 4098 (aelem_size demo_array)) x \<noteq> 0)"
    by (rule array_binary_search_correct [where c = ?c and key = 4098, THEN conjunct1])
      (rule demo_array_valid view_order.flip s | erule (1) view_order.trans | simp add: demo_array_fields)+
  then show ?thesis
    by (simp add: demo_array_list demo_array_key proven_u8str_view_cmp_ptr_def view_cmp_bytes bytes_cmp_zero)
qed

text \<open>
  Linear search answers the address of the first element the comparator calls equal to the key,
  and null exactly when there is none; the comparator may be any function.
\<close>

theorem array_linear_search_first:
  fixes h :: mem and key :: addr and c :: compare_fn
  assumes "proven_array_is_valid (Some a)" and "key \<noteq> 0"
  defines "r \<equiv> proven_array_linear_search h (Some a) key (Some c)" and "v \<equiv> mem_read h key (aelem_size a)"
  shows "(r = 0 \<longleftrightarrow> (\<forall>x \<in> set (array_list h a). c v x \<noteq> 0)) \<and>
    (r \<noteq> 0 \<longrightarrow> (\<exists>i < alen a. r = adata a + i * aelem_size a \<and> c v (array_list h a ! i) = 0 \<and>
      (\<forall>j < i. c v (array_list h a ! j) \<noteq> 0)))"
proof (cases "alen a = 0")
  case True
  then show ?thesis using assms(2) by (simp add: r_def proven_array_linear_search_def array_list_def)
next
  case False
  note r = array_range_sort [OF array_valid_range [OF assms(1)] False]
  let ?s = "slots h (adata a) (aelem_size a) (alen a)"
  have e: "r = linear_search_loop c h (adata a) key (aelem_size a) 0 (alen a)"
    using assms(2) by (simp add: r_def proven_array_linear_search_def)
  have nz: "elem_at (adata a) i (aelem_size a) \<noteq> 0" for i
    using r by (simp add: elem_at_def sort_range_def)
  have "(r = 0 \<and> (\<forall>i < alen a. c v (?s ! i) \<noteq> 0)) \<or>
      (\<exists>i < alen a. r = elem_at (adata a) i (aelem_size a) \<and> c v (?s ! i) = 0 \<and> (\<forall>j < i. c v (?s ! j) \<noteq> 0))"
    unfolding e v_def by (intro linear_search_finds [OF r]) auto
  then show ?thesis
  proof (elim disjE exE conjE)
    fix i
    assume i: "i < alen a" "r = elem_at (adata a) i (aelem_size a)" "c v (?s ! i) = 0" "\<forall>j < i. c v (?s ! j) \<noteq> 0"
    then have "?s ! i \<in> set ?s" by (intro nth_mem) simp
    moreover have "r \<noteq> 0" unfolding i(2) by (rule nz)
    moreover have "r = adata a + i * aelem_size a" using i(1,2) elem_at_eq [OF r, of i] by simp
    ultimately show ?thesis using i(1,3-) unfolding array_list_def by blast
  qed (auto simp: array_list_def in_set_conv_nth)
qed

theorem array_linear_search_first_witness:
  "proven_array_linear_search (heap demo_used) (Some demo_array) 4098 (Some (\<lambda>x y. if x = y then 0 else 1)) = 4098"
proof -
  let ?c = "\<lambda>x y :: byte list. if x = y then 0 else 1 :: int"
  let ?r = "proven_array_linear_search (heap demo_used) (Some demo_array) 4098 (Some ?c)"
  note t = array_linear_search_first [OF demo_array_valid, where key = 4098 and h = "heap demo_used" and c = ?c,
      unfolded demo_array_list demo_array_fields demo_array_key [unfolded demo_array_fields]]
  then have "?r \<noteq> 0" by simp
  with t obtain i where i: "i < 3" "?r = adata demo_array + i * 2" "[[0, 1], [2, 3], [4, 5 :: byte]] ! i = [2, 3]"
    by (auto split: if_splits)
  then have "i = 1" by (auto simp: less_Suc_eq numeral_3_eq_3)
  with i(2) show ?thesis by (simp add: demo_array_def)
qed

end
