(* ===== verification/Byte_Scan.thy ===== *)
theory Byte_Scan
  imports U8_View
begin

text \<open>
  The byte scans of \<^verbatim>\<open>platform/proven_sys_mem.h\<close>: \<open>proven_sys_mem_chr\<close> in its portable version (a hosted
  build calls \<^verbatim>\<open>memchr\<close>) and \<open>proven_sys_mem_rchr\<close>, which is the same in every build. Both test eight
  bytes at a time with the borrow trick on a 64-bit word. The word is loaded with the first byte
  lowest; the test does not depend on it. A pointer into the run is its offset.
\<close>

section \<open>Eight bytes as a word\<close>

fun bytes_val :: "byte list \<Rightarrow> int" where
  "bytes_val [] = 0"
| "bytes_val (b # bs) = uint b + 256 * bytes_val bs"

definition load_word :: "byte list \<Rightarrow> 64 word" where
  "load_word p = word_of_int (bytes_val (take 8 p))"

definition ones :: "64 word" where "ones = 0x0101010101010101"
definition highs :: "64 word" where "highs = 0x8080808080808080"

text \<open>Whether the word may hold a zero byte.\<close>

definition zero_byte_test :: "64 word \<Rightarrow> bool" where
  "zero_byte_test x \<longleftrightarrow> and (and (x - ones) (not x)) highs \<noteq> 0"

section \<open>The scans\<close>

fun scan_bytes :: "byte list \<Rightarrow> byte \<Rightarrow> nat \<Rightarrow> nat \<Rightarrow> nat option" where
  "scan_bytes p t i 0 = None"
| "scan_bytes p t i (Suc n) = (if p ! i = t then Some i else scan_bytes p t (i + 1) n)"

function chr_loop :: "byte list \<Rightarrow> byte \<Rightarrow> nat \<Rightarrow> nat \<Rightarrow> nat option" where
  "chr_loop s t p n =
    (if n \<ge> 8
     then (let x = xor (load_word (drop p s)) (ones * ucast t) in
       (case (if zero_byte_test x then scan_bytes s t p 8 else None) of
          Some i \<Rightarrow> Some i
        | None \<Rightarrow> chr_loop s t (p + 8) (n - 8)))
     else scan_bytes s t p n)"
  by pat_completeness auto
termination by (relation "measure (\<lambda>(s, t, p, n). n)") auto

declare chr_loop.simps [simp del]

definition proven_sys_mem_chr :: "u8view \<Rightarrow> byte \<Rightarrow> nat \<Rightarrow> nat option" where
  "proven_sys_mem_chr s c n = (if view_null s \<or> n = 0 then None else chr_loop (view_data s) c 0 n)"

text \<open>Backwards: the byte before \<open>i\<close>, \<open>n\<close> of them.\<close>

fun scan_back :: "byte list \<Rightarrow> byte \<Rightarrow> nat \<Rightarrow> nat \<Rightarrow> nat option" where
  "scan_back p t i 0 = None"
| "scan_back p t i (Suc n) = (if p ! (i + n) = t then Some (i + n) else scan_back p t i n)"

function rchr_loop :: "byte list \<Rightarrow> byte \<Rightarrow> nat \<Rightarrow> nat option" where
  "rchr_loop s t n =
    (if n \<ge> 8
     then (let p = n - 8; x = xor (load_word (drop p s)) (ones * ucast t) in
       (case (if zero_byte_test x then scan_back s t p 8 else None) of
          Some i \<Rightarrow> Some i
        | None \<Rightarrow> rchr_loop s t (n - 8)))
     else scan_back s t 0 n)"
  by pat_completeness auto
termination by (relation "measure (\<lambda>(s, t, n). n)") auto

declare rchr_loop.simps [simp del]

definition proven_sys_mem_rchr :: "u8view \<Rightarrow> byte \<Rightarrow> nat \<Rightarrow> nat option" where
  "proven_sys_mem_rchr s c n = (if view_null s \<or> n = 0 then None else rchr_loop (view_data s) c n)"

section \<open>The test never misses a zero byte\<close>

lemma bytes_val_bit: "0 \<le> x \<Longrightarrow> x < 256 \<Longrightarrow> bit (x + 256 * y) n \<longleftrightarrow> (if n < 8 then bit x n else bit y (n - 8))" for x y :: int
proof -
  assume x: "0 \<le> x" "x < 256"
  have "x + 256 * y = concat_bit 8 x y"
    using x by (simp add: concat_bit_eq take_bit_int_eq_self push_bit_eq_mult)
  then show ?thesis by (auto simp: bit_concat_bit_iff)
qed

lemma uint_byte: "0 \<le> uint b" "uint b < 256" for b :: byte
  using uint_bounded [of b] by simp_all

lemma bytes_val_xor: "length xs = length ys \<Longrightarrow> xor (bytes_val xs) (bytes_val ys) = bytes_val (map2 xor xs ys)"
proof (induction xs ys rule: list_induct2)
  case (Cons x xs y ys)
  show ?case
    by (rule bit_eqI)
      (simp add: bit_xor_iff bytes_val_bit [OF uint_byte] bit_uint_iff Cons.IH [symmetric])
qed simp

lemma load_word_xor:
  "8 \<le> length p \<Longrightarrow> xor (load_word p) (ones * ucast t) = word_of_int (bytes_val (map (\<lambda>b. xor b t) (take 8 p)))"
proof -
  assume p: "8 \<le> length p"
  have "ones * ucast t = word_of_int (0x0101010101010101 * uint t)"
    by (simp add: ones_def unsigned_ucast_eq flip: word_of_int_uint)
  also have "0x0101010101010101 * uint t = bytes_val (replicate 8 t)" by (simp add: eval_nat_numeral)
  finally have o: "ones * ucast t = word_of_int (bytes_val (replicate 8 t))" .
  have "map2 xor (take 8 p) (replicate 8 t) = map (\<lambda>b. xor b t) (take 8 p)"
    using p by (intro nth_equalityI) auto
  then show ?thesis
    using p bytes_val_xor [of "take 8 p" "replicate 8 t"] unfolding o load_word_def by (simp flip: of_int_xor_eq)
qed

lemma bytes_val_append: "bytes_val (xs @ ys) = bytes_val xs + 256 ^ length xs * bytes_val ys"
  by (induction xs) (simp_all add: algebra_simps)

lemma bytes_val_bounds: "0 \<le> bytes_val xs \<and> bytes_val xs < 256 ^ length xs"
proof (induction xs)
  case (Cons x xs)
  then show ?case using uint_byte [of x] by simp
qed simp

lemma bytes_val_ones_le: "0 \<notin> set xs \<Longrightarrow> bytes_val (replicate (length xs) 1) \<le> bytes_val xs"
proof (induction xs)
  case (Cons x xs)
  then have "uint x \<noteq> 0" by (simp add: uint_0_iff)
  then have "1 \<le> uint x" using uint_byte(1) [of x] by linarith
  with Cons show ?case by simp
qed simp

text \<open>The lowest zero byte receives no borrow, and its high bit ends up set in the difference.\<close>

lemma zero_byte_found:
  assumes l: "length bs = 8" and z: "0 \<in> set bs"
  shows "zero_byte_test (word_of_int (bytes_val bs))"
proof -
  obtain as cs where bs: "bs = as @ 0 # cs" "0 \<notin> set as" using split_list_first [OF z] by blast
  let ?k = "length as" and ?X = "bytes_val bs" and ?O = "bytes_val (replicate 8 1)"
  define lo where "lo = bytes_val as - bytes_val (replicate ?k 1)"
  define d where "d = bytes_val cs - bytes_val (replicate (7 - ?k) 1)"
  have k: "?k \<le> 7" "8 = ?k + Suc (7 - ?k)" using l bs(1) by simp_all
  have lo: "0 \<le> lo" "lo < 256 ^ ?k"
    using bytes_val_ones_le [OF bs(2)] bytes_val_bounds [of as] bytes_val_bounds [of "replicate ?k 1"] by (simp_all add: lo_def)
  have "replicate 8 (1 :: byte) = replicate ?k 1 @ 1 # replicate (7 - ?k) 1"
    by (subst k(2)) (simp only: replicate_add replicate_Suc)
  then have X: "?X - ?O = lo + 256 ^ ?k * (256 * d - 1)"
    by (simp add: bs(1) bytes_val_append lo_def d_def algebra_simps)
  have p: "(256 :: int) ^ ?k = 2 ^ (8 * ?k)" by (simp add: power_mult)
  let ?j = "8 * ?k + 7"
  have "(?X - ?O) div 2 ^ ?j = ((?X - ?O) div 256 ^ ?k) div 128"
    by (simp add: p power_add zdiv_zmult2_eq)
  also have "(?X - ?O) div 256 ^ ?k = 256 * d - 1"
    unfolding X using lo by simp
  also have "(256 * d - 1) div 128 = 2 * d - 1" by linarith
  finally have b1: "bit (?X - ?O) ?j" by (simp add: bit_iff_odd)
  have "?X div 256 ^ ?k = bytes_val (0 # cs)"
    using bytes_val_bounds [of as] by (simp add: bs(1) bytes_val_append)
  then have "?X div 2 ^ ?j = (256 * bytes_val cs) div 128" by (simp add: p power_add zdiv_zmult2_eq)
  also have "\<dots> = 2 * bytes_val cs" by linarith
  finally have b2: "\<not> bit ?X ?j" by (simp add: bit_iff_odd)
  have j: "?j < 64" using k(1) by simp
  have o: "ones = word_of_int ?O" by (simp add: ones_def eval_nat_numeral)
  have "?k = 0 \<or> ?k = 1 \<or> ?k = 2 \<or> ?k = 3 \<or> ?k = 4 \<or> ?k = 5 \<or> ?k = 6 \<or> ?k = 7" using k(1) by linarith
  then have b3: "bit highs ?j" by (auto simp: highs_def bit_iff_odd)
  have "bit (and (and (word_of_int ?X - ones) (not (word_of_int ?X))) highs) ?j"
    using b1 b2 b3 j by (simp add: o bit_and_iff bit_not_iff bit_word_of_int_iff flip: of_int_diff)
  then show ?thesis unfolding zero_byte_test_def by fastforce
qed

lemma zero_byte_misses_nothing:
  assumes "p + 8 \<le> length s" and "\<not> zero_byte_test (xor (load_word (drop p s)) (ones * ucast t))" and "p \<le> i" "i < p + 8"
  shows "s ! i \<noteq> t"
proof
  assume "s ! i = t"
  then have "t \<in> set (take 8 (drop p s))"
    using assms by (auto simp: in_set_conv_nth intro!: exI [of _ "i - p"])
  then have "0 \<in> set (map (\<lambda>b. xor b t) (take 8 (drop p s)))" by force
  then have "zero_byte_test (word_of_int (bytes_val (map (\<lambda>b. xor b t) (take 8 (drop p s)))))"
    using assms(1) by (intro zero_byte_found) simp
  with assms(1,2) show False by (simp add: load_word_xor)
qed

section \<open>What the scans answer\<close>

definition is_first :: "(nat \<Rightarrow> bool) \<Rightarrow> nat \<Rightarrow> nat \<Rightarrow> nat option \<Rightarrow> bool" where
  "is_first P a b r = (case r of
     None \<Rightarrow> (\<forall>i. a \<le> i \<and> i < b \<longrightarrow> \<not> P i)
   | Some i \<Rightarrow> a \<le> i \<and> i < b \<and> P i \<and> (\<forall>j. a \<le> j \<and> j < i \<longrightarrow> \<not> P j))"

definition is_last :: "(nat \<Rightarrow> bool) \<Rightarrow> nat \<Rightarrow> nat \<Rightarrow> nat option \<Rightarrow> bool" where
  "is_last P a b r = (case r of
     None \<Rightarrow> (\<forall>i. a \<le> i \<and> i < b \<longrightarrow> \<not> P i)
   | Some i \<Rightarrow> a \<le> i \<and> i < b \<and> P i \<and> (\<forall>j. i < j \<and> j < b \<longrightarrow> \<not> P j))"

lemma scan_bytes_first: "is_first (\<lambda>i. s ! i = t) p (p + n) (scan_bytes s t p n)"
proof (induction n arbitrary: p)
  case (Suc n)
  from Suc.IH [of "p + 1"] show ?case
    by (auto simp: is_first_def Suc_le_eq le_less split: option.splits) (metis less_Suc_eq not_less_eq)+
qed (auto simp: is_first_def)

lemma scan_back_last: "is_last (\<lambda>i. s ! i = t) p (p + n) (scan_back s t p n)"
proof (induction n)
  case (Suc n)
  then show ?case by (auto simp: is_last_def less_Suc_eq split: option.splits)
qed (auto simp: is_last_def)

lemma is_first_step:
  "(\<And>i. a \<le> i \<Longrightarrow> i < m \<Longrightarrow> \<not> P i) \<Longrightarrow> a \<le> m \<Longrightarrow> is_first P m b r \<Longrightarrow> is_first P a b r"
  by (auto simp: is_first_def split: option.splits) (metis not_less)+

lemma is_last_step:
  "(\<And>i. m \<le> i \<Longrightarrow> i < b \<Longrightarrow> \<not> P i) \<Longrightarrow> m \<le> b \<Longrightarrow> is_last P a m r \<Longrightarrow> is_last P a b r"
  by (auto simp: is_last_def split: option.splits) (metis not_less)+

lemma chr_loop_first: "p + n \<le> length s \<Longrightarrow> is_first (\<lambda>i. s ! i = t) p (p + n) (chr_loop s t p n)"
proof (induction s t p n rule: chr_loop.induct)
  case (1 s t p n)
  show ?case
  proof (cases "n \<ge> 8")
    case False
    then show ?thesis by (simp add: chr_loop.simps [of s t p n] scan_bytes_first)
  next
    case True
    let ?x = "xor (load_word (drop p s)) (ones * ucast t)"
    define r where "r = (if zero_byte_test ?x then scan_bytes s t p 8 else None)"
    have r: "is_first (\<lambda>i. s ! i = t) p (p + 8) r"
      using scan_bytes_first [of s t p 8] zero_byte_misses_nothing [of p s t] True 1(2)
      by (auto simp: r_def is_first_def)
    have e: "chr_loop s t p n = (case r of Some i \<Rightarrow> Some i | None \<Rightarrow> chr_loop s t (p + 8) (n - 8))"
      using True by (simp add: chr_loop.simps [of s t p n] r_def Let_def)
    show ?thesis
    proof (cases r)
      case None
      have "is_first (\<lambda>i. s ! i = t) (p + 8) (p + 8 + (n - 8)) (chr_loop s t (p + 8) (n - 8))"
        using 1(1) [OF True refl] None r_def 1(2) True by auto
      then have "is_first (\<lambda>i. s ! i = t) (p + 8) (p + n) (chr_loop s t (p + 8) (n - 8))" using True by simp
      then show ?thesis
        unfolding e None option.case
      proof (rule is_first_step [rotated 2])
        show "s ! i \<noteq> t" if "p \<le> i" "i < p + 8" for i using r that by (simp add: None is_first_def)
      qed simp
    next
      case (Some i)
      then show ?thesis using r True by (auto simp: e is_first_def)
    qed
  qed
qed

lemma rchr_loop_last: "n \<le> length s \<Longrightarrow> is_last (\<lambda>i. s ! i = t) 0 n (rchr_loop s t n)"
proof (induction s t n rule: rchr_loop.induct)
  case (1 s t n)
  show ?case
  proof (cases "n \<ge> 8")
    case False
    then show ?thesis using scan_back_last [of s t 0 n] by (simp add: rchr_loop.simps [of s t n])
  next
    case True
    let ?p = "n - 8"
    let ?x = "xor (load_word (drop ?p s)) (ones * ucast t)"
    define r where "r = (if zero_byte_test ?x then scan_back s t ?p 8 else None)"
    have r: "is_last (\<lambda>i. s ! i = t) ?p n r"
      using scan_back_last [of s t ?p 8] zero_byte_misses_nothing [of ?p s t] True 1(2)
      by (auto simp: r_def is_last_def)
    have e: "rchr_loop s t n = (case r of Some i \<Rightarrow> Some i | None \<Rightarrow> rchr_loop s t ?p)"
      using True by (simp add: rchr_loop.simps [of s t n] r_def Let_def)
    show ?thesis
    proof (cases r)
      case None
      have "is_last (\<lambda>i. s ! i = t) 0 ?p (rchr_loop s t ?p)"
      proof (rule 1(1) [OF True refl refl])
        show "(if zero_byte_test ?x then scan_back s t ?p 8 else None) = None" using None unfolding r_def .
        show "?p \<le> length s" using 1(2) by simp
      qed
      then show ?thesis
        unfolding e None option.case
      proof (rule is_last_step [rotated 2])
        show "s ! i \<noteq> t" if "?p \<le> i" "i < n" for i using r that by (simp add: None is_last_def)
      qed simp
    next
      case (Some i)
      then show ?thesis using r True by (auto simp: e is_last_def)
    qed
  qed
qed

lemma mem_chr_first:
  "n \<le> length s \<Longrightarrow> is_first (\<lambda>i. s ! i = c) 0 n (proven_sys_mem_chr (At s) c n)"
  using chr_loop_first [of 0 n s c] by (auto simp: proven_sys_mem_chr_def is_first_def)

lemma mem_rchr_last:
  "n \<le> length s \<Longrightarrow> is_last (\<lambda>i. s ! i = c) 0 n (proven_sys_mem_rchr (At s) c n)"
  using rchr_loop_last [of n s c] by (auto simp: proven_sys_mem_rchr_def is_last_def)

end
