(* ===== verification/U8_Search.thy ===== *)
theory U8_Search
  imports Byte_Scan
begin

text \<open>
  Substring search in \<^verbatim>\<open>src/proven/u8str.c\<close>, forwards and backwards: Shift-Or for needles of up to 64
  bytes, Two-Way for longer ones, and the scan anchored on the rarest byte of the needle, chosen by a
  sample of the haystack; and what is built on it, \<open>contains\<close> and the split iterator. Haystack and
  needle are byte lists where the code has a pointer and a length; a result is an offset, with
  \<open>None\<close> for \<^verbatim>\<open>PROVEN_INDEX_NOT_FOUND\<close>. Two-Way is a loop of which no bound is shown here, so it is a
  partial function, \<open>None\<close> at the outer level being a loop that does not end; \<open>find\<close> inherits that for
  the inputs it hands to it.
\<close>

section \<open>Shift-Or\<close>

fun shiftor_masks :: "byte list \<Rightarrow> nat \<Rightarrow> (byte \<Rightarrow> 64 word) \<Rightarrow> (byte \<Rightarrow> 64 word)" where
  "shiftor_masks [] j masks = masks"
| "shiftor_masks (b # bs) j masks = shiftor_masks bs (j + 1) (masks(b := and (masks b) (not (push_bit j 1))))"

fun shiftor_loop :: "(byte \<Rightarrow> 64 word) \<Rightarrow> 64 word \<Rightarrow> nat \<Rightarrow> 64 word \<Rightarrow> byte list \<Rightarrow> nat \<Rightarrow> nat option" where
  "shiftor_loop masks match_bit m state [] j = None"
| "shiftor_loop masks match_bit m state (b # bs) j =
    (let state = or (push_bit 1 state) (masks b) in
     if and state match_bit = 0 then Some (j + 1 - m) else shiftor_loop masks match_bit m state bs (j + 1))"

definition proven_u8_find_shiftor :: "byte list \<Rightarrow> byte list \<Rightarrow> nat option" where
  "proven_u8_find_shiftor h ndl =
    (let m = length ndl; all_ones = not 0 :: 64 word; match_bit = push_bit (m - 1) 1;
         masks = shiftor_masks ndl 0 (\<lambda>_. all_ones) in
     shiftor_loop masks match_bit m all_ones h 0)"

fun shiftor_back :: "(byte \<Rightarrow> 64 word) \<Rightarrow> 64 word \<Rightarrow> 64 word \<Rightarrow> byte list \<Rightarrow> nat \<Rightarrow> nat option" where
  "shiftor_back masks match_bit state h 0 = None"
| "shiftor_back masks match_bit state h (Suc i) =
    (let state = or (push_bit 1 state) (masks (h ! i)) in
     if and state match_bit = 0 then Some i else shiftor_back masks match_bit state h i)"

definition proven_u8_find_last_shiftor :: "byte list \<Rightarrow> byte list \<Rightarrow> nat option" where
  "proven_u8_find_last_shiftor h ndl =
    (let m = length ndl; all_ones = not 0 :: 64 word; match_bit = push_bit (m - 1) 1;
         masks = shiftor_masks (rev ndl) 0 (\<lambda>_. all_ones) in
     shiftor_back masks match_bit all_ones h (length h))"

section \<open>Two-Way\<close>

text \<open>The maximal suffix in one of the two byte orders; \<open>ip\<close> starts at \<^verbatim>\<open>(size_t)-1\<close> and indices wrap.\<close>

partial_function (option) max_suffix ::
  "(byte \<Rightarrow> byte \<Rightarrow> bool) \<Rightarrow> byte list \<Rightarrow> nat \<Rightarrow> nat \<Rightarrow> nat \<Rightarrow> nat \<Rightarrow> (nat \<times> nat) option" where
  "max_suffix gt n ip jp k p =
    (if jp + k < length n
     then if n ! wrap (ip + k) = n ! (jp + k)
          then if k = p then max_suffix gt n ip (jp + p) 1 p else max_suffix gt n ip jp (k + 1) p
          else if gt (n ! wrap (ip + k)) (n ! (jp + k))
          then max_suffix gt n ip (jp + k) 1 (wrap (jp + k + 2 ^ 64 - ip))
          else max_suffix gt n jp (jp + 1) 1 1
     else Some (ip, p))"

fun byte_shifts :: "byte list \<Rightarrow> nat \<Rightarrow> (byte \<Rightarrow> nat option) \<Rightarrow> (byte \<Rightarrow> nat option)" where
  "byte_shifts [] i shift = shift"
| "byte_shifts (b # bs) i shift = byte_shifts bs (i + 1) (shift(b := Some (i + 1)))"

text \<open>The comparison of the right half, from \<open>k\<close> on, and of the left half, down from \<open>k\<close> to \<open>mem\<close>.\<close>

fun match_right :: "byte list \<Rightarrow> byte list \<Rightarrow> nat \<Rightarrow> nat \<Rightarrow> nat \<Rightarrow> nat" where
  "match_right n h at k 0 = k"
| "match_right n h at k (Suc r) = (if n ! k = h ! (at + k) then match_right n h at (k + 1) r else k)"

fun match_left :: "byte list \<Rightarrow> byte list \<Rightarrow> nat \<Rightarrow> nat \<Rightarrow> nat \<Rightarrow> nat" where
  "match_left n h at mem 0 = 0"
| "match_left n h at mem (Suc k) = (if mem < Suc k \<and> n ! k = h ! (at + k) then match_left n h at mem k else Suc k)"

partial_function (option) twoway_loop ::
  "byte list \<Rightarrow> byte list \<Rightarrow> (byte \<Rightarrow> nat option) \<Rightarrow> nat \<Rightarrow> nat \<Rightarrow> nat \<Rightarrow> nat \<Rightarrow> nat \<Rightarrow> nat option option" where
  "twoway_loop h n shift ms p mem0 at mem =
    (let l = length n; left = wrap (ms + 1) in
     if length h - at < l then Some None
     else case shift (h ! (at + l - 1)) of
       None \<Rightarrow> twoway_loop h n shift ms p mem0 (at + l) 0
     | Some s \<Rightarrow>
       if l - s \<noteq> 0 then twoway_loop h n shift ms p mem0 (at + max (l - s) mem) 0
       else let k0 = max left mem; k = match_right n h at k0 (l - k0) in
         if k < l then twoway_loop h n shift ms p mem0 (at + wrap (k + 2 ^ 64 - ms)) 0
         else if match_left n h at mem left \<le> mem then Some (Some at)
         else twoway_loop h n shift ms p mem0 (at + p) mem0)"

definition proven_u8_find_twoway :: "byte list \<Rightarrow> byte list \<Rightarrow> nat option option" where
  "proven_u8_find_twoway h n =
    (case (max_suffix (\<lambda>a b. a > b) n SIZE_MAX 0 1 1, max_suffix (\<lambda>a b. a < b) n SIZE_MAX 0 1 1) of
       (Some (ms1, p1), Some (ms2, p2)) \<Rightarrow>
         let l = length n;
             (ms, p) = (if wrap (ms2 + 1) > wrap (ms1 + 1) then (ms2, p2) else (ms1, p1));
             left = wrap (ms + 1) in
         if proven_sys_mem_cmp (At n) (At (drop p n)) left \<noteq> 0
         then twoway_loop h n (byte_shifts n 0 (\<lambda>_. None)) ms (max ms (l - ms - 1) + 1) 0 0 0
         else twoway_loop h n (byte_shifts n 0 (\<lambda>_. None)) ms p (l - p) 0 0
     | _ \<Rightarrow> None)"

section \<open>The anchor\<close>

fun sample_loop :: "byte list \<Rightarrow> nat \<Rightarrow> nat \<Rightarrow> nat \<Rightarrow> (byte \<Rightarrow> 16 word) \<Rightarrow> nat \<Rightarrow> (byte \<Rightarrow> 16 word) \<times> nat" where
  "sample_loop h pos step taken cnt 0 = (cnt, taken)"
| "sample_loop h pos step taken cnt (Suc left) =
    (if pos < length h
     then sample_loop h (pos + step) step (taken + 1) (cnt(h ! pos := cnt (h ! pos) + 1)) left
     else (cnt, taken))"

fun rarest_loop :: "(byte \<Rightarrow> 16 word) \<Rightarrow> byte list \<Rightarrow> nat \<Rightarrow> 32 word \<Rightarrow> nat \<Rightarrow> 32 word \<times> nat" where
  "rarest_loop cnt [] i best anchor = (best, anchor)"
| "rarest_loop cnt (b # bs) i best anchor =
    (if ucast (cnt b) \<le> best then rarest_loop cnt bs (i + 1) (ucast (cnt b)) i
     else rarest_loop cnt bs (i + 1) best anchor)"

definition odd_step :: "nat \<Rightarrow> nat" where
  "odd_step s = (if even s then s + 1 else s)"

definition find_pick_anchor :: "byte list \<Rightarrow> byte list \<Rightarrow> nat \<Rightarrow> bool \<times> nat" where
  "find_pick_anchor h ndl anchor =
    (if length h < 16 then (False, anchor)
     else let cap = (if length h < 256 then length h else 256);
              step = length h div cap;
              step = (if step = 0 then 1 else step);
              step = odd_step step;
              (cnt, taken) = sample_loop h 0 step 0 (\<lambda>_. 0) 256;
              (best, anchor) = rarest_loop cnt ndl 0 0xffffffff anchor
       in (best * 8 > word_of_nat taken, anchor))"

section \<open>Searching\<close>

text \<open>The scan for the anchor byte: \<open>scan\<close> is where it goes on, with \<open>scan_n\<close> bytes left.\<close>

function anchored_loop :: "byte list \<Rightarrow> byte list \<Rightarrow> nat \<Rightarrow> nat \<Rightarrow> nat \<Rightarrow> nat option" where
  "anchored_loop base ndl anchor scan scan_n =
    (if scan_n > 0
     then (case proven_sys_mem_chr (view_from (At base) scan) (ndl ! anchor) scan_n of
        None \<Rightarrow> None
      | Some d \<Rightarrow>
          let hit = scan + d; match = hit - anchor in
          if proven_sys_mem_cmp (view_from (At base) match) (At ndl) anchor = 0 \<and>
             proven_sys_mem_cmp (view_from (At base) (hit + 1)) (view_from (At ndl) (anchor + 1)) (length ndl - anchor - 1) = 0
          then Some match
          else if d + 1 \<ge> scan_n then None
          else anchored_loop base ndl anchor (hit + 1) (scan_n - (d + 1)))
     else None)"
  by pat_completeness auto
termination by (relation "measure (\<lambda>(base, ndl, anchor, scan, scan_n). scan_n)") auto

declare anchored_loop.simps [simp del]

definition proven_u8str_view_find :: "u8view \<Rightarrow> nat \<Rightarrow> u8view \<Rightarrow> nat option option" where
  "proven_u8str_view_find haystack start_offset needle =
    (if start_offset > view_size haystack then Some None
     else if view_size needle = 0 then Some (Some start_offset)
     else if view_size haystack > 0 \<and> view_null haystack then Some None
     else if view_size needle > 0 \<and> view_null needle then Some None
     else if view_size needle > view_size haystack - start_offset then Some None
     else let base = view_data haystack; ndl = view_data needle; span = view_size haystack - start_offset;
              h = drop start_offset base in
       if view_size needle = 1
       then Some (map_option (\<lambda>i. start_offset + i) (proven_sys_mem_chr (view_from haystack start_offset) (ndl ! 0) span))
       else (case find_pick_anchor h ndl (length ndl - 1) of (low_entropy, anchor) \<Rightarrow>
         if low_entropy
         then if length ndl \<le> 64 then Some (map_option (\<lambda>r. start_offset + r) (proven_u8_find_shiftor h ndl))
              else map_option (map_option (\<lambda>r. start_offset + r)) (proven_u8_find_twoway h ndl)
         else Some (anchored_loop base ndl anchor (start_offset + anchor)
                (view_size haystack - length ndl - start_offset + 1))))"

definition proven_u8str_view_contains :: "u8view \<Rightarrow> u8view \<Rightarrow> bool option" where
  "proven_u8str_view_contains haystack needle =
    map_option (\<lambda>r. r \<noteq> None) (proven_u8str_view_find haystack 0 needle)"

text \<open>Backwards: \<open>span\<close> bytes from the anchor's first place on.\<close>

function anchored_back :: "byte list \<Rightarrow> byte list \<Rightarrow> nat \<Rightarrow> nat \<Rightarrow> nat option" where
  "anchored_back h ndl anchor n =
    (if n > 0
     then (case proven_sys_mem_rchr (view_from (At h) anchor) (ndl ! anchor) n of
        None \<Rightarrow> None
      | Some d \<Rightarrow>
          if d < n
          then if proven_sys_mem_cmp (view_from (At h) d) (At ndl) (length ndl) = 0 then Some d
               else anchored_back h ndl anchor d
          else None)
     else None)"
  by pat_completeness auto
termination by (relation "measure (\<lambda>(h, ndl, anchor, n). n)") auto

declare anchored_back.simps [simp del]

definition proven_u8_find_last_anchored :: "byte list \<Rightarrow> byte list \<Rightarrow> nat \<Rightarrow> nat option" where
  "proven_u8_find_last_anchored h ndl anchor = anchored_back h ndl anchor (length h - length ndl + 1)"

text \<open>The backward Two-Way is the forward one on the reversed texts, read through index macros.\<close>

definition proven_u8_find_last_twoway :: "byte list \<Rightarrow> byte list \<Rightarrow> nat option option" where
  "proven_u8_find_last_twoway hay ndl =
    map_option (map_option (\<lambda>o'. length hay - o' - length ndl)) (proven_u8_find_twoway (rev hay) (rev ndl))"

definition proven_u8str_view_find_last :: "u8view \<Rightarrow> u8view \<Rightarrow> nat option option" where
  "proven_u8str_view_find_last haystack needle =
    (let haystack = view_or_empty haystack; needle = view_or_empty needle;
         h = view_data haystack; ndl = view_data needle; n = view_size haystack; m = view_size needle in
     if m = 0 then Some (Some n)
     else if m > n then Some None
     else if m = 1 then Some (proven_sys_mem_rchr haystack (ndl ! 0) n)
     else (case find_pick_anchor h ndl (m - 1) of (low_entropy, anchor) \<Rightarrow>
       if low_entropy
       then if m \<le> 64 then Some (proven_u8_find_last_shiftor h ndl) else proven_u8_find_last_twoway h ndl
       else Some (proven_u8_find_last_anchored h ndl anchor)))"

section \<open>Splitting\<close>

record proven_u8str_view_split_t =
  sp_rest :: u8view
  sp_sep :: u8view
  sp_done :: bool

definition proven_u8str_view_split :: "u8view \<Rightarrow> u8view \<Rightarrow> proven_u8str_view_split_t" where
  "proven_u8str_view_split src sep = \<lparr>sp_rest = view_or_empty src, sp_sep = view_or_empty sep, sp_done = False\<rparr>"

text \<open>The next field, or none: the iterator after the call and what it wrote. \<open>out\<close> is whether the
  place for the field is not null.\<close>

definition proven_u8str_view_split_next ::
  "proven_u8str_view_split_t option \<Rightarrow> bool \<Rightarrow> (u8view option \<times> proven_u8str_view_split_t option) option" where
  "proven_u8str_view_split_next p out =
    (case p of
       None \<Rightarrow> Some (None, p)
     | Some it \<Rightarrow>
       if \<not> out \<or> sp_done it then Some (None, p)
       else if view_size (sp_sep it) = 0 then Some (Some (sp_rest it), Some (it\<lparr>sp_done := True\<rparr>))
       else case proven_u8str_view_find (sp_rest it) 0 (sp_sep it) of
         None \<Rightarrow> None
       | Some None \<Rightarrow> Some (Some (sp_rest it), Some (it\<lparr>sp_done := True\<rparr>))
       | Some (Some at) \<Rightarrow>
           Some (Some (view_sub (sp_rest it) 0 at),
             Some (it\<lparr>sp_rest := view_sub (sp_rest it) (at + view_size (sp_sep it)) (view_size (sp_rest it))\<rparr>)))"

end
