(* ===== verification/U8_Find.thy ===== *)
theory U8_Find
  imports U8_Search
begin

text \<open>
  Substring search finds the first, or the last, occurrence: Shift-Or through the invariant of its
  state word (bit \<open>i\<close> is clear exactly when the \<open>i + 1\<close> bytes just read are the first \<open>i + 1\<close> of the
  needle), the anchored scans through the byte scans below them.
\<close>

definition occurs :: "byte list \<Rightarrow> byte list \<Rightarrow> nat \<Rightarrow> bool" where
  "occurs h n i \<longleftrightarrow> i + length n \<le> length h \<and> take (length n) (drop i h) = n"

section \<open>Shift-Or\<close>

lemma shiftor_masks_bit:
  "i < 64 \<Longrightarrow> bit (shiftor_masks bs j masks b) i \<longleftrightarrow> bit (masks b) i \<and> \<not> (\<exists>k < length bs. bs ! k = b \<and> i = j + k)"
proof (induction bs j masks rule: shiftor_masks.induct)
  case (2 a bs j masks)
  have "bit (push_bit j (1 :: 64 word)) i \<longleftrightarrow> i = j" using 2(2) by (auto simp: bit_exp_iff)
  then have "bit ((masks(a := and (masks a) (not (push_bit j 1)))) b) i \<longleftrightarrow> bit (masks b) i \<and> \<not> (a = b \<and> i = j)"
    using 2(2) by (auto simp: bit_and_iff bit_not_iff)
  moreover have "(\<exists>k < length (a # bs). (a # bs) ! k = b \<and> i = j + k) \<longleftrightarrow>
      (a = b \<and> i = j) \<or> (\<exists>k < length bs. bs ! k = b \<and> i = j + 1 + k)"
    by (simp add: Ex_less_Suc2)
  ultimately show ?case using 2 by (simp only: shiftor_masks.simps) blast
qed simp

text \<open>The state after the bytes \<open>w\<close> have been read.\<close>

definition shiftor_state :: "byte list \<Rightarrow> byte list \<Rightarrow> 64 word \<Rightarrow> bool" where
  "shiftor_state n w st \<longleftrightarrow> (\<forall>i < length n. bit st i \<longleftrightarrow>
    \<not> (Suc i \<le> length w \<and> drop (length w - Suc i) w = take (Suc i) n))"

abbreviation needle_masks :: "byte list \<Rightarrow> byte \<Rightarrow> 64 word" where
  "needle_masks n \<equiv> shiftor_masks n 0 (\<lambda>_. not 0)"

lemma needle_masks_bit: "length n \<le> 64 \<Longrightarrow> i < length n \<Longrightarrow> bit (needle_masks n b) i \<longleftrightarrow> n ! i \<noteq> b"
  by (auto simp: shiftor_masks_bit)

lemma shiftor_state_init: "length n \<le> 64 \<Longrightarrow> shiftor_state n [] (not 0)"
  by (simp add: shiftor_state_def)

lemma shiftor_state_step:
  assumes "shiftor_state n w st" "length n \<le> 64"
  shows "shiftor_state n (w @ [b]) (or (push_bit 1 st) (needle_masks n b))"
  unfolding shiftor_state_def
proof (intro allI impI)
  fix i
  assume i: "i < length n"
  have t: "take (Suc i) n = take i n @ [n ! i]" using i by (rule take_Suc_conv_app_nth)
  have "bit (or (push_bit 1 st) (needle_masks n b)) i \<longleftrightarrow> (0 < i \<and> bit st (i - 1)) \<or> n ! i \<noteq> b"
  proof -
    have "bit (push_bit 1 st) i \<longleftrightarrow> 0 < i \<and> bit st (i - 1)" using i assms(2) by (auto simp only: bit_push_bit_iff) auto
    then show ?thesis using needle_masks_bit [OF assms(2) i, of b] by (simp only: bit_or_iff)
  qed
  moreover have "Suc i \<le> length (w @ [b]) \<and> drop (length (w @ [b]) - Suc i) (w @ [b]) = take (Suc i) n \<longleftrightarrow>
      (i \<le> length w \<and> drop (length w - i) w = take i n) \<and> n ! i = b"
    unfolding t by (auto simp: Suc_diff_le)
  moreover have "0 < i \<and> bit st (i - 1) \<longleftrightarrow> \<not> (i \<le> length w \<and> drop (length w - i) w = take i n)"
    using assms(1) i by (cases i) (auto simp: shiftor_state_def)
  ultimately show "bit (or (push_bit 1 st) (needle_masks n b)) i \<longleftrightarrow>
      \<not> (Suc i \<le> length (w @ [b]) \<and> drop (length (w @ [b]) - Suc i) (w @ [b]) = take (Suc i) n)"
    by blast
qed

lemma shiftor_hit:
  assumes "shiftor_state n w st" "0 < length n"
  shows "and st (push_bit (length n - 1) 1) = 0 \<longleftrightarrow> length n \<le> length w \<and> drop (length w - length n) w = n"
proof -
  have "and st (push_bit (length n - 1) 1) = 0 \<longleftrightarrow> \<not> bit st (length n - 1)"
    by (simp add: push_bit_of_1 and_exp_eq_0_iff_not_bit)
  then show ?thesis using assms by (auto simp: shiftor_state_def)
qed

lemma drop_prefix_occurs:
  "length n \<le> length w \<Longrightarrow> drop (length w - length n) w = n \<longleftrightarrow> occurs (w @ rest) n (length w - length n)"
  by (simp add: occurs_def)

lemma shiftor_loop_first:
  assumes n: "0 < length n" "length n \<le> 64"
  shows "shiftor_state n w st \<Longrightarrow> is_first (occurs (w @ rest) n) (length w + 1 - length n) (length w + length rest + 1 - length n)
    (shiftor_loop (needle_masks n) (push_bit (length n - 1) 1) (length n) st rest (length w))"
proof (induction rest arbitrary: w st)
  case Nil
  then show ?case by (auto simp: is_first_def)
next
  case (Cons b rest)
  let ?st = "or (push_bit 1 st) (needle_masks n b)" and ?w = "w @ [b]" and ?m = "length n"
  have s: "shiftor_state n ?w ?st" by (rule shiftor_state_step [OF Cons.prems n(2)])
  have hit: "and ?st (push_bit (?m - 1) 1) = 0 \<longleftrightarrow> ?m \<le> length w + 1 \<and> occurs (w @ b # rest) n (length w + 1 - ?m)"
    using shiftor_hit [OF s n(1)] drop_prefix_occurs [of n ?w rest] by auto
  show ?case
  proof (cases "and ?st (push_bit (?m - 1) 1) = 0")
    case True
    then show ?thesis using hit by (auto simp: is_first_def Let_def)
  next
    case False
    have "is_first (occurs (w @ b # rest) n) (length w + 2 - ?m) (length w + length (b # rest) + 1 - ?m)
        (shiftor_loop (needle_masks n) (push_bit (?m - 1) 1) ?m ?st rest (length w + 1))"
      using Cons.IH [OF s] by simp
    then have "is_first (occurs (w @ b # rest) n) (length w + 1 - ?m) (length w + length (b # rest) + 1 - ?m)
        (shiftor_loop (needle_masks n) (push_bit (?m - 1) 1) ?m ?st rest (length w + 1))"
    proof (rule is_first_step [rotated 2])
      fix i
      assume "length w + 1 - ?m \<le> i" "i < length w + 2 - ?m"
      then have "i = length w + 1 - ?m" "?m \<le> length w + 1" by linarith+
      then show "\<not> occurs (w @ b # rest) n i" using hit False by blast
    qed simp
    then show ?thesis using False by (simp add: Let_def)
  qed
qed

lemma shiftor_first:
  "0 < length n \<Longrightarrow> length n \<le> 64 \<Longrightarrow> is_first (occurs h n) 0 (length h + 1 - length n) (proven_u8_find_shiftor h n)"
  using shiftor_loop_first [of n "[]" "not 0" h] shiftor_state_init [of n]
  by (cases n) (simp_all add: proven_u8_find_shiftor_def Let_def)

lemma shiftor_back_last:
  assumes n: "0 < length n" "length n \<le> 64"
  shows "i \<le> length h \<Longrightarrow> shiftor_state (rev n) (rev (drop i h)) st \<Longrightarrow>
    is_last (occurs h n) 0 i (shiftor_back (needle_masks (rev n)) (push_bit (length n - 1) 1) st h i)"
proof (induction i arbitrary: st)
  case 0
  then show ?case by (simp add: is_last_def)
next
  case (Suc i)
  let ?st = "or (push_bit 1 st) (needle_masks (rev n) (h ! i))"
  have d: "rev (drop i h) = rev (drop (Suc i) h) @ [h ! i]"
    using Suc.prems(1) by (simp flip: Cons_nth_drop_Suc)
  have s: "shiftor_state (rev n) (rev (drop i h)) ?st"
    unfolding d using shiftor_state_step [OF Suc.prems(2)] n(2) by simp
  have "and ?st (push_bit (length n - 1) 1) = 0 \<longleftrightarrow>
      length n \<le> length h - i \<and> rev (take (length n) (drop i h)) = rev n"
    using shiftor_hit [OF s] n(1) by (simp add: rev_take)
  then have hit: "and ?st (push_bit (length n - 1) 1) = 0 \<longleftrightarrow> occurs h n i"
    using Suc.prems(1) n(1) by (auto simp: occurs_def)
  show ?case
    using Suc.IH [OF _ s] Suc.prems(1) hit by (auto simp: is_last_def Let_def less_Suc_eq split: option.splits)
qed

lemma shiftor_last:
  "0 < length n \<Longrightarrow> length n \<le> 64 \<Longrightarrow> is_last (occurs h n) 0 (length h) (proven_u8_find_last_shiftor h n)"
  using shiftor_back_last [of n "length h" h "not 0"] shiftor_state_init [of "rev n"]
  by (simp add: proven_u8_find_last_shiftor_def Let_def)

section \<open>The anchored scans\<close>

lemma take_eq_nth: "n \<le> length xs \<Longrightarrow> n \<le> length ys \<Longrightarrow> take n xs = take n ys \<longleftrightarrow> (\<forall>k < n. xs ! k = ys ! k)"
  by (auto simp: list_eq_iff_nth_eq)

lemma sys_mem_cmp_take:
  "k \<le> length xs \<Longrightarrow> k \<le> length ys \<Longrightarrow> proven_sys_mem_cmp (At xs) (At ys) k = 0 \<longleftrightarrow> take k xs = take k ys"
  by (auto simp: proven_sys_mem_cmp_def mem_cmp_loop_zero)

lemma occurs_nth: "occurs h n i \<longleftrightarrow> i + length n \<le> length h \<and> (\<forall>k < length n. h ! (i + k) = n ! k)"
  using take_eq_nth [of "length n" "drop i h" n] by (auto simp: occurs_def)

lemma occurs_around:
  assumes a: "a < length n" and i: "i + length n \<le> length h" and c: "h ! (i + a) = n ! a"
  shows "proven_sys_mem_cmp (view_from (At h) i) (At n) a = 0 \<and>
      proven_sys_mem_cmp (view_from (At h) (i + a + 1)) (view_from (At n) (a + 1)) (length n - a - 1) = 0 \<longleftrightarrow> occurs h n i"
proof -
  have "proven_sys_mem_cmp (view_from (At h) i) (At n) a = 0 \<longleftrightarrow> (\<forall>k < a. h ! (i + k) = n ! k)"
    using a i by (simp add: view_from_def sys_mem_cmp_take take_eq_nth)
  moreover have "proven_sys_mem_cmp (view_from (At h) (i + a + 1)) (view_from (At n) (a + 1)) (length n - a - 1) = 0 \<longleftrightarrow>
      (\<forall>k < length n - a - 1. h ! (i + (a + 1 + k)) = n ! (a + 1 + k))"
  proof -
    have l: "length n - a - 1 \<le> length (drop (i + a + 1) h)" "length n - a - 1 \<le> length (drop (a + 1) n)" using a i by simp_all
    show ?thesis
      unfolding view_from_def view_data.simps sys_mem_cmp_take [OF l] take_eq_nth [OF l] using a i by (simp add: add.assoc)
  qed
  moreover have "(\<forall>k < length n. h ! (i + k) = n ! k) \<longleftrightarrow> (\<forall>k < a. h ! (i + k) = n ! k) \<and>
      (\<forall>k < length n - a - 1. h ! (i + (a + 1 + k)) = n ! (a + 1 + k))"
  proof (intro iffI conjI allI impI; (elim conjE)?)
    fix k
    assume lo: "\<forall>k < a. h ! (i + k) = n ! k" and hi: "\<forall>k < length n - a - 1. h ! (i + (a + 1 + k)) = n ! (a + 1 + k)"
      and k: "k < length n"
    consider "k < a" | "k = a" | "k = a + 1 + (k - a - 1)" "k - a - 1 < length n - a - 1" using k by linarith
    then show "h ! (i + k) = n ! k"
    proof cases
      case 3
      with hi show ?thesis by metis
    qed (use lo c in auto)
  next
    fix k
    assume all: "\<forall>k < length n. h ! (i + k) = n ! k" and "k < length n - a - 1"
    then have "a + 1 + k < length n" by linarith
    with all show "h ! (i + (a + 1 + k)) = n ! (a + 1 + k)" by blast
  qed (use a in auto)
  ultimately show ?thesis using i by (simp add: occurs_nth)
qed

lemma anchored_loop_first:
  assumes a: "a < length n" and nh: "length n \<le> length h"
  shows "a \<le> s \<Longrightarrow> s + left = length h - length n + a + 1 \<Longrightarrow>
    is_first (occurs h n) (s - a) (length h + 1 - length n) (anchored_loop h n a s left)"
proof (induction left arbitrary: s rule: less_induct)
  case (less left)
  let ?r = "proven_sys_mem_chr (view_from (At h) s) (n ! a) left"
  have hs: "left \<le> length (drop s h)" using less.prems a nh by simp
  have r: "is_first (\<lambda>i. drop s h ! i = n ! a) 0 left ?r" unfolding view_from_def using mem_chr_first [OF hs] by simp
  have nowhere: "\<not> occurs h n i" if "s - a \<le> i" "i < s - a + d" "d \<le> left" "\<forall>j < d. drop s h ! j \<noteq> n ! a" for i d
  proof
    assume "occurs h n i"
    then have "h ! (i + a) = n ! a" using a by (simp add: occurs_nth)
    moreover have "i + a = s + (i + a - s)" "i + a - s < d" using that less.prems by linarith+
    moreover have "drop s h ! (i + a - s) = h ! (s + (i + a - s))" using less.prems nh a by (intro nth_drop) linarith
    ultimately show False using that(4) by metis
  qed
  show ?case
  proof (cases "left = 0")
    case True
    then show ?thesis using less.prems nh by (auto simp: anchored_loop.simps is_first_def)
  next
    case False
    show ?thesis
    proof (cases ?r)
      case None
      have "\<not> occurs h n i" if "s - a \<le> i" "i < length h + 1 - length n" for i
        using nowhere [of i left] r None that less.prems nh by (simp add: is_first_def)
      then show ?thesis using False None by (simp add: anchored_loop.simps [of h n a s left] is_first_def)
    next
      case (Some d)
      then have d: "d < left" "h ! (s + d) = n ! a" "\<forall>j < d. drop s h ! j \<noteq> n ! a"
        using r less.prems a nh by (auto simp: is_first_def)
      let ?i = "s + d - a"
      have i: "?i + length n \<le> length h" "?i + a = s + d" "s - a \<le> ?i" using d(1) less.prems nh by linarith+
      have cmp: "proven_sys_mem_cmp (view_from (At h) ?i) (At n) a = 0 \<and>
          proven_sys_mem_cmp (view_from (At h) (s + d + 1)) (view_from (At n) (a + 1)) (length n - a - 1) = 0 \<longleftrightarrow> occurs h n ?i"
        using occurs_around [OF a i(1)] d(2) i(2) by simp
      have eq: "anchored_loop h n a s left = (if occurs h n ?i then Some ?i
          else if d + 1 \<ge> left then None else anchored_loop h n a (s + d + 1) (left - (d + 1)))"
        using False Some unfolding anchored_loop.simps [of h n a s left] Let_def by (simp add: cmp [simplified])
      have before: "\<not> occurs h n j" if "s - a \<le> j" "j < ?i" for j
        using nowhere [of j d] that d less.prems by simp
      show ?thesis
      proof (cases "occurs h n ?i")
        case True
        then show ?thesis using before i by (simp add: eq is_first_def)
      next
        case no: False
        have upto: "\<not> occurs h n j" if "s - a \<le> j" "j < s + d + 1 - a" for j
          using before [of j] no that by (cases "j = ?i") auto
        show ?thesis
        proof (cases "d + 1 \<ge> left")
          case True
          then have "s + d + 1 - a = length h + 1 - length n" using d(1) less.prems nh by linarith
          with upto show ?thesis using no True by (simp add: eq is_first_def)
        next
          case go: False
          have "is_first (occurs h n) (s + d + 1 - a) (length h + 1 - length n) (anchored_loop h n a (s + d + 1) (left - (d + 1)))"
            by (rule less.IH) (use go less.prems in auto)
          then have "is_first (occurs h n) (s - a) (length h + 1 - length n) (anchored_loop h n a (s + d + 1) (left - (d + 1)))"
          proof (rule is_first_step [rotated 2])
            show "\<not> occurs h n j" if "s - a \<le> j" "j < s + d + 1 - a" for j using upto [OF that] .
          qed simp
          then show ?thesis using no go by (simp add: eq)
        qed
      qed
    qed
  qed
qed

lemma anchored_back_last:
  assumes a: "a < length n" and nh: "length n \<le> length h"
  shows "k \<le> length h - length n + 1 \<Longrightarrow> is_last (occurs h n) 0 k (anchored_back h n a k)"
proof (induction k rule: less_induct)
  case (less k)
  let ?r = "proven_sys_mem_rchr (view_from (At h) a) (n ! a) k"
  have hs: "k \<le> length (drop a h)" using less.prems a nh by simp
  have r: "is_last (\<lambda>i. drop a h ! i = n ! a) 0 k ?r" unfolding view_from_def using mem_rchr_last [OF hs] by simp
  have nowhere: "\<not> occurs h n i" if "drop a h ! i \<noteq> n ! a" for i
    using that a nh by (auto simp: occurs_nth add.commute)
  show ?case
  proof (cases "k = 0")
    case True
    then show ?thesis by (simp add: is_last_def anchored_back.simps)
  next
    case False
    show ?thesis
    proof (cases ?r)
      case None
      then show ?thesis using r nowhere False by (simp add: anchored_back.simps [of h n a k] is_last_def)
    next
      case (Some d)
      then have d: "d < k" "\<forall>j. d < j \<and> j < k \<longrightarrow> drop a h ! j \<noteq> n ! a" using r by (simp_all add: is_last_def)
      have l: "length n \<le> length (drop d h)" using d(1) less.prems nh by simp
      have cmp: "proven_sys_mem_cmp (view_from (At h) d) (At n) (length n) = 0 \<longleftrightarrow> occurs h n d"
        unfolding view_from_def view_data.simps sys_mem_cmp_take [OF l order_refl] using l nh d(1) less.prems by (auto simp: occurs_def)
      have eq: "anchored_back h n a k = (if occurs h n d then Some d else anchored_back h n a d)"
        using False Some d(1) by (simp add: anchored_back.simps [of h n a k] cmp)
      show ?thesis
      proof (cases "occurs h n d")
        case True
        then show ?thesis using d nowhere by (simp add: eq is_last_def)
      next
        case no: False
        have "is_last (occurs h n) 0 d (anchored_back h n a d)" by (rule less.IH) (use d(1) less.prems in simp_all)
        then have "is_last (occurs h n) 0 k (anchored_back h n a d)"
        proof (rule is_last_step [rotated 2])
          show "\<not> occurs h n i" if "d \<le> i" "i < k" for i using that d nowhere no by (cases "i = d") simp_all
        qed (use d(1) in simp)
        then show ?thesis using no by (simp add: eq)
      qed
    qed
  qed
qed

lemma rarest_loop_anchor: "snd (rarest_loop cnt n i best a) = a \<or>
    (i \<le> snd (rarest_loop cnt n i best a) \<and> snd (rarest_loop cnt n i best a) < i + length n)"
  by (induction cnt n i best a rule: rarest_loop.induct) auto

lemma pick_anchor_less: "a < length n \<Longrightarrow> snd (find_pick_anchor h n a) < length n"
proof (cases "length h < 16")
  case False
  define st where "st = odd_step (if length h div (if length h < 256 then length h else 256) = 0 then 1
    else length h div (if length h < 256 then length h else 256))"
  obtain cnt taken where sl: "sample_loop h 0 st 0 (\<lambda>_. 0) 256 = (cnt, taken)" by fastforce
  obtain best an where rl: "rarest_loop cnt n 0 0xffffffff a = (best, an)" by fastforce
  have "find_pick_anchor h n a = (best * 8 > word_of_nat taken, an)"
    using False unfolding find_pick_anchor_def Let_def st_def [symmetric] by (simp add: sl rl)
  then show "a < length n \<Longrightarrow> ?thesis" using rarest_loop_anchor [of cnt n 0 "0xffffffff" a] rl by auto
qed (simp add: find_pick_anchor_def)

section \<open>The search\<close>

text \<open>When the search does not fall back to Two-Way.\<close>

definition no_twoway :: "byte list \<Rightarrow> byte list \<Rightarrow> bool" where
  "no_twoway h n \<longleftrightarrow> length n \<le> 64 \<or> \<not> fst (find_pick_anchor h n (length n - 1))"

lemma occurs_drop: "s \<le> length h \<Longrightarrow> occurs (drop s h) n i \<longleftrightarrow> occurs h n (s + i)"
  by (auto simp: occurs_def add.commute)

lemma is_first_shift:
  assumes "is_first (occurs (drop s h) n) 0 b r" and "s \<le> length h"
  shows "is_first (occurs h n) s (s + b) (map_option (\<lambda>i. s + i) r)"
  using assms unfolding is_first_def occurs_drop [OF assms(2)]
  by (cases r) (auto simp: le_iff_add)

text \<open>The answer of a search from \<open>s\<close> on.\<close>

definition first_from :: "byte list \<Rightarrow> byte list \<Rightarrow> nat \<Rightarrow> nat option \<Rightarrow> bool" where
  "first_from h n s r \<longleftrightarrow> is_first (occurs h n) s (length h + 1) r"

lemma first_from_bound:
  "is_first (occurs h n) s b r \<Longrightarrow> length h + 1 - length n \<le> b \<Longrightarrow> b \<le> length h + 1 \<Longrightarrow> first_from h n s r"
  by (auto simp: first_from_def is_first_def occurs_def split: option.splits)

lemma occurs_one: "length n = 1 \<Longrightarrow> i < length h \<Longrightarrow> occurs h n i \<longleftrightarrow> h ! i = n ! 0"
  by (auto simp: occurs_nth)

lemma well_formed_size: "proven_u8str_view_is_well_formed v \<Longrightarrow> view_size v = length (view_data v)"
  by (cases v) (auto simp: proven_u8str_view_is_well_formed_def)

lemma find_first:
  assumes h: "proven_u8str_view_is_well_formed haystack" and n: "proven_u8str_view_is_well_formed needle" and s: "s \<le> length (view_data haystack)"
    and t: "no_twoway (drop s (view_data haystack)) (view_data needle)"
  shows "\<exists>r. proven_u8str_view_find haystack s needle = Some r \<and> first_from (view_data haystack) (view_data needle) s r"
proof -
  let ?h = "view_data haystack" and ?n = "view_data needle"
  have size: "view_size haystack = length ?h" "view_size needle = length ?n"
    and null: "\<not> (view_size haystack > 0 \<and> view_null haystack)" "\<not> (view_size needle > 0 \<and> view_null needle)"
    using well_formed_size [OF h] well_formed_size [OF n] h n by (auto simp: proven_u8str_view_is_well_formed_def)
  have hv: "view_from haystack s = At (drop s ?h)" by (simp add: view_from_def)
  consider "length ?n = 0" | "length ?n > length ?h - s" | "length ?n = 1" "length ?n \<le> length ?h - s"
    | "2 \<le> length ?n" "length ?n \<le> length ?h - s" by linarith
  then show ?thesis
  proof cases
    case 1
    then show ?thesis using s size by (auto simp: proven_u8str_view_find_def first_from_def is_first_def occurs_def)
  next
    case 2
    then have "first_from ?h ?n s None" by (auto simp: first_from_def is_first_def occurs_def)
    then show ?thesis using 2 s null size by (auto simp: proven_u8str_view_find_def)
  next
    case 3
    have "is_first (\<lambda>i. drop s ?h ! i = ?n ! 0) 0 (length ?h - s) (proven_sys_mem_chr (At (drop s ?h)) (?n ! 0) (length ?h - s))"
      by (rule mem_chr_first) simp
    then have "is_first (occurs (drop s ?h) ?n) 0 (length ?h - s) (proven_sys_mem_chr (At (drop s ?h)) (?n ! 0) (length ?h - s))"
      using occurs_one [OF 3(1), of _ "drop s ?h"] by (auto simp: is_first_def split: option.splits)
    from first_from_bound [OF is_first_shift [OF this s]] 3 s
    have "first_from ?h ?n s (map_option (\<lambda>i. s + i) (proven_sys_mem_chr (At (drop s ?h)) (?n ! 0) (length ?h - s)))" by simp
    then show ?thesis using 3 s null size by (auto simp: proven_u8str_view_find_def hv)
  next
    case 4
    then have ne: "?n \<noteq> []" by auto
    obtain low a where p: "find_pick_anchor (drop s ?h) ?n (length ?n - 1) = (low, a)" by fastforce
    have a: "a < length ?n" using pick_anchor_less [of "length ?n - 1" ?n "drop s ?h"] 4 p by simp
    show ?thesis
    proof (cases low)
      case True
      then have l: "length ?n \<le> 64" using t p by (simp add: no_twoway_def)
      have "is_first (occurs (drop s ?h) ?n) 0 (length ?h - s + 1 - length ?n) (proven_u8_find_shiftor (drop s ?h) ?n)"
        using shiftor_first [OF _ l, of "drop s ?h"] 4(1) by (cases ?n) simp_all
      from first_from_bound [OF is_first_shift [OF this s]] 4 s
      have "first_from ?h ?n s (map_option (\<lambda>i. s + i) (proven_u8_find_shiftor (drop s ?h) ?n))" by simp
      then show ?thesis using 4 ne s null size p True l by (auto simp: proven_u8str_view_find_def)
    next
      case False
      have "is_first (occurs ?h ?n) (s + a - a) (length ?h + 1 - length ?n)
          (anchored_loop ?h ?n a (s + a) (length ?h - length ?n - s + 1))"
        by (rule anchored_loop_first [OF a]) (use 4 s in simp_all)
      from first_from_bound [OF this] 4 s
      have "first_from ?h ?n s (anchored_loop ?h ?n a (s + a) (length ?h - length ?n - s + 1))" by simp
      then show ?thesis using 4 ne s null size p False by (auto simp: proven_u8str_view_find_def Let_def)
    qed
  qed
qed

lemma find_last_last:
  assumes t: "no_twoway (view_data haystack) (view_data needle)" and n: "view_data needle \<noteq> []"
  shows "\<exists>r. proven_u8str_view_find_last haystack needle = Some r \<and>
    is_last (occurs (view_data haystack) (view_data needle)) 0 (length (view_data haystack)) r"
proof -
  let ?h = "view_data haystack" and ?n = "view_data needle"
  have hv: "view_or_empty haystack = At ?h" if "?h \<noteq> []"
    using that by (cases haystack) (auto simp: view_or_empty_def)
  consider "length ?n > length ?h" | "length ?n = 1" "length ?n \<le> length ?h" | "2 \<le> length ?n" "length ?n \<le> length ?h"
  proof -
    have "length ?n \<noteq> 0" using n by simp
    then show ?thesis using that by linarith
  qed
  then show ?thesis
  proof cases
    case 1
    then show ?thesis using n by (simp add: proven_u8str_view_find_last_def Let_def is_last_def occurs_def)
  next
    case 2
    then have "?h \<noteq> []" by auto
    moreover have "is_last (\<lambda>i. ?h ! i = ?n ! 0) 0 (length ?h) (proven_sys_mem_rchr (At ?h) (?n ! 0) (length ?h))"
      by (rule mem_rchr_last) simp
    then have "is_last (occurs ?h ?n) 0 (length ?h) (proven_sys_mem_rchr (At ?h) (?n ! 0) (length ?h))"
      using occurs_one [OF 2(1), of _ ?h] by (auto simp: is_last_def split: option.splits)
    ultimately show ?thesis using 2 n by (simp add: proven_u8str_view_find_last_def Let_def hv)
  next
    case 3
    then have ne: "?n \<noteq> []" by auto
    obtain low a where p: "find_pick_anchor ?h ?n (length ?n - 1) = (low, a)" by fastforce
    have a: "a < length ?n" using pick_anchor_less [of "length ?n - 1" ?n ?h] 3 p by simp
    show ?thesis
    proof (cases low)
      case True
      then have l: "length ?n \<le> 64" using t p by (simp add: no_twoway_def)
      then have "is_last (occurs ?h ?n) 0 (length ?h) (proven_u8_find_last_shiftor ?h ?n)" using shiftor_last [of ?n ?h] n by simp
      then show ?thesis using 3 n p True l by (simp add: proven_u8str_view_find_last_def Let_def)
    next
      case False
      have "is_last (occurs ?h ?n) 0 (length ?h - length ?n + 1) (anchored_back ?h ?n a (length ?h - length ?n + 1))"
        by (rule anchored_back_last [OF a 3(2)]) simp
      then have "is_last (occurs ?h ?n) 0 (length ?h) (proven_u8_find_last_anchored ?h ?n a)"
        using 3 unfolding proven_u8_find_last_anchored_def
        by (auto simp: is_last_def occurs_def split: option.splits)
      then show ?thesis using 3 n p False by (simp add: proven_u8str_view_find_last_def Let_def)
    qed
  qed
qed

end
