(* ===== verification/U8_Props.thy ===== *)
theory U8_Props
  imports U8_Find
begin

text \<open>
  What the string views promise: byte scans, first and last occurrence, the split iterator as a
  round trip that ends, trimming and removal against their references.
\<close>

section \<open>Splitting\<close>

text \<open>Calling \<^verbatim>\<open>proven_u8str_view_split_next\<close> until it answers false, at most \<open>fuel\<close> times.\<close>

fun split_collect :: "nat \<Rightarrow> proven_u8str_view_split_t option \<Rightarrow> u8view list option" where
  "split_collect 0 it = None"
| "split_collect (Suc fuel) it =
    (case proven_u8str_view_split_next it True of
       None \<Rightarrow> None
     | Some (None, it') \<Rightarrow> Some []
     | Some (Some v, it') \<Rightarrow> map_option (\<lambda>vs. v # vs) (split_collect fuel it'))"

fun join_with :: "'a list \<Rightarrow> 'a list list \<Rightarrow> 'a list" where
  "join_with sep [] = []"
| "join_with sep [x] = x"
| "join_with sep (x # y # ys) = x @ sep @ join_with sep (y # ys)"

lemma join_with_Cons: "ys \<noteq> [] \<Longrightarrow> join_with sep (x # ys) = x @ sep @ join_with sep ys"
  by (cases ys) simp_all

lemma view_sub_data: "to \<le> length (view_data s) \<Longrightarrow> view_data (view_sub s from to) = take (to - from) (drop from (view_data s))"
  by (simp add: view_sub_def)

lemma view_sub_well_formed [simp]: "proven_u8str_view_is_well_formed (view_sub s from to)"
  by (simp add: view_sub_def proven_u8str_view_is_well_formed_def)

lemma view_or_empty_well_formed [simp]: "proven_u8str_view_is_well_formed (view_or_empty s)"
  by (simp add: view_or_empty_def proven_u8str_view_is_well_formed_def)

lemma split_collect_done: "sp_done it \<Longrightarrow> split_collect (Suc f) (Some it) = Some []"
  by (simp add: proven_u8str_view_split_next_def)

lemma split_collect_fields:
  assumes sep: "0 < view_size (sp_sep it)" "view_size (sp_sep it) \<le> 64" "proven_u8str_view_is_well_formed (sp_sep it)"
  shows "\<not> sp_done it \<Longrightarrow> proven_u8str_view_is_well_formed (sp_rest it) \<Longrightarrow> length (view_data (sp_rest it)) + 2 \<le> fuel \<Longrightarrow>
    \<exists>fs. split_collect fuel (Some it) = Some fs \<and> fs \<noteq> [] \<and> join_with (view_data (sp_sep it)) (map view_data fs) = view_data (sp_rest it) \<and>
      (\<forall>v \<in> set fs. \<forall>i. \<not> occurs (view_data v) (view_data (sp_sep it)) i)"
  using sep
proof (induction fuel arbitrary: it)
  case 0
  then show ?case by simp
next
  case (Suc fuel)
  let ?r = "view_data (sp_rest it)" and ?s = "view_data (sp_sep it)"
  have ls: "0 < length ?s" "length ?s \<le> 64" using Suc.prems well_formed_size by simp_all
  obtain r where f: "proven_u8str_view_find (sp_rest it) 0 (sp_sep it) = Some r" "first_from ?r ?s 0 r"
    using find_first [of "sp_rest it" "sp_sep it" 0] Suc.prems ls by (auto simp: no_twoway_def)
  show ?case
  proof (cases r)
    case None
    have "split_collect (Suc fuel) (Some it) = map_option (\<lambda>vs. sp_rest it # vs) (split_collect fuel (Some (it\<lparr>sp_done := True\<rparr>)))"
      using Suc.prems f None by (simp add: proven_u8str_view_split_next_def)
    moreover obtain g where "fuel = Suc g" using Suc.prems by (cases fuel) auto
    moreover have "\<not> occurs ?r ?s i" for i
      using f(2) None by (cases "i < length ?r + 1") (auto simp: first_from_def is_first_def occurs_def)
    ultimately show ?thesis by (simp add: split_collect_done del: split_collect.simps)
  next
    case (Some at)
    then have at: "occurs ?r ?s at" "\<And>j. j < at \<Longrightarrow> \<not> occurs ?r ?s j"
      using f(2) by (simp_all add: first_from_def is_first_def)
    then have le: "at + length ?s \<le> length ?r" "take (length ?s) (drop at ?r) = ?s" by (simp_all add: occurs_def)
    let ?v = "view_sub (sp_rest it) 0 at"
    let ?it = "it\<lparr>sp_rest := view_sub (sp_rest it) (at + view_size (sp_sep it)) (view_size (sp_rest it))\<rparr>"
    have v: "view_data ?v = take at ?r" using le by (simp add: view_sub_data)
    have rest: "view_data (sp_rest ?it) = drop (at + length ?s) ?r"
      using Suc.prems by (simp add: view_sub_data well_formed_size)
    have "\<exists>fs. split_collect fuel (Some ?it) = Some fs \<and> fs \<noteq> [] \<and> join_with ?s (map view_data fs) = view_data (sp_rest ?it) \<and>
        (\<forall>v \<in> set fs. \<forall>i. \<not> occurs (view_data v) ?s i)"
    proof -
      have "length (view_data (sp_rest ?it)) + 2 \<le> fuel" using Suc.prems(3) le(1) ls(1) unfolding rest length_drop by linarith
      then show ?thesis using Suc.IH [of ?it] Suc.prems by simp
    qed
    then obtain fs where fs: "split_collect fuel (Some ?it) = Some fs" "fs \<noteq> []" "join_with ?s (map view_data fs) = drop (at + length ?s) ?r"
      "\<forall>v \<in> set fs. \<forall>i. \<not> occurs (view_data v) ?s i"
      unfolding rest by blast
    have "split_collect (Suc fuel) (Some it) = Some (?v # fs)"
      using Suc.prems f(1) Some fs(1) by (simp add: proven_u8str_view_split_next_def)
    moreover have "take at ?r @ ?s @ drop (at + length ?s) ?r = ?r"
      by (metis add.commute append_take_drop_id drop_drop le(2))
    moreover have "\<not> occurs (take at ?r) ?s i" for i
    proof
      assume o: "occurs (take at ?r) ?s i"
      then have "i + length ?s \<le> at" using le by (simp add: occurs_def)
      moreover from this o have "occurs ?r ?s i" using le by (simp add: occurs_def drop_take)
      ultimately have "occurs ?r ?s i" "i < at" using ls(1) by linarith+
      with at(2) show False by blast
    qed
    ultimately show ?thesis using fs v by (simp add: join_with_Cons)
  qed
qed



section \<open>Search\<close>

text \<open>
  C31: Searching a well-formed view from an offset inside it answers the first place at or after the
  offset where the needle occurs, and nothing exactly when there is none, whichever of the algorithms
  the sample of the haystack selects; needles of more than 64 bytes are covered when the sample finds
  a rare byte in them.
\<close>

theorem view_find_first:
  assumes "proven_u8str_view_is_well_formed haystack" and "proven_u8str_view_is_well_formed needle"
    and "start \<le> length (view_data haystack)" and "no_twoway (drop start (view_data haystack)) (view_data needle)"
  shows "(\<exists>i. proven_u8str_view_find haystack start needle = Some (Some i) \<and> start \<le> i \<and>
      occurs (view_data haystack) (view_data needle) i \<and>
      (\<forall>j. start \<le> j \<and> j < i \<longrightarrow> \<not> occurs (view_data haystack) (view_data needle) j)) \<or>
    (proven_u8str_view_find haystack start needle = Some None \<and>
      (\<forall>i. start \<le> i \<longrightarrow> \<not> occurs (view_data haystack) (view_data needle) i))"
proof -
  obtain r where r: "proven_u8str_view_find haystack start needle = Some r"
    "first_from (view_data haystack) (view_data needle) start r"
    using find_first [OF assms] by blast
  have "\<not> occurs (view_data haystack) (view_data needle) i" if "\<not> i < length (view_data haystack) + 1" for i
    using that by (simp add: occurs_def)
  with r show ?thesis by (cases r) (auto simp: first_from_def is_first_def)
qed

theorem view_find_first_witness:
  "proven_u8str_view_find (At (ascii ''the cat sat'')) 5 (At (ascii ''at'')) = Some (Some 5)"
proof -
  have o: "occurs (ascii ''the cat sat'') (ascii ''at'') 5" by (simp add: occurs_def ascii_def)
  have "no_twoway (drop 5 (ascii ''the cat sat'')) (ascii ''at'')" by (simp add: no_twoway_def ascii_def)
  with view_find_first [of "At (ascii ''the cat sat'')" "At (ascii ''at'')" 5]
  show ?thesis using o by (force simp: proven_u8str_view_is_well_formed_def ascii_def)
qed

text \<open>
  The backward search answers the last occurrence of a needle that is not empty, and nothing
  exactly when there is none, under the same choice of algorithm.
\<close>

theorem view_find_last:
  assumes "no_twoway (view_data haystack) (view_data needle)" and "view_data needle \<noteq> []"
  shows "(\<exists>i. proven_u8str_view_find_last haystack needle = Some (Some i) \<and>
      occurs (view_data haystack) (view_data needle) i \<and>
      (\<forall>j. i < j \<longrightarrow> \<not> occurs (view_data haystack) (view_data needle) j)) \<or>
    (proven_u8str_view_find_last haystack needle = Some None \<and>
      (\<forall>i. \<not> occurs (view_data haystack) (view_data needle) i))"
proof -
  obtain r where r: "proven_u8str_view_find_last haystack needle = Some r"
    "is_last (occurs (view_data haystack) (view_data needle)) 0 (length (view_data haystack)) r"
    using find_last_last [OF assms] by blast
  have "\<not> occurs (view_data haystack) (view_data needle) i" if "\<not> i < length (view_data haystack)" for i
    using that assms(2) by (auto simp: occurs_def)
  with r show ?thesis by (cases r) (auto simp: is_last_def)
qed

theorem view_find_last_witness:
  "proven_u8str_view_find_last (At (ascii ''aaa'')) (At (ascii ''aa'')) = Some (Some 1)"
proof -
  have o: "occurs (ascii ''aaa'') (ascii ''aa'') 1" "\<And>i. occurs (ascii ''aaa'') (ascii ''aa'') i \<Longrightarrow> i \<le> 1"
    by (simp_all add: occurs_def ascii_def)
  have "no_twoway (ascii ''aaa'') (ascii ''aa'')" by (simp add: no_twoway_def ascii_def)
  with view_find_last [of "At (ascii ''aaa'')" "At (ascii ''aa'')"]
  show ?thesis using o by (fastforce simp: ascii_def le_less)
qed

text \<open>
  The scan of eight bytes at a time with the borrow trick is the byte-by-byte scan: it answers the
  first place of the byte among the first \<open>n\<close>, and nothing exactly when there is none.
\<close>

theorem mem_chr_reference:
  assumes "n \<le> length s"
  shows "proven_sys_mem_chr (At s) c n = find (\<lambda>i. s ! i = c) [0..<n]"
proof -
  note f = mem_chr_first [OF assms, of c]
  show ?thesis
  proof (cases "proven_sys_mem_chr (At s) c n")
    case None
    then have "find (\<lambda>i. s ! i = c) [0..<n] = None" using f by (auto simp: find_None_iff is_first_def)
    with None show ?thesis by simp
  next
    case (Some i)
    then have "find (\<lambda>i. s ! i = c) [0..<n] = Some i"
      unfolding find_Some_iff using f by (intro exI [of _ i]) (auto simp: is_first_def)
    with Some show ?thesis by simp
  qed
qed

theorem mem_chr_reference_witness:
  "proven_sys_mem_chr (At (ascii ''0123456789abcdef'')) (asc CHR ''c'') 16 = Some 12"
  using mem_chr_reference [of 16 "ascii ''0123456789abcdef''" "asc CHR ''c''"]
  by (simp add: ascii_def upt_rec [of _ 16] upt_rec [of _ "numeral _"])

section \<open>Trimming\<close>

lemma trim_start_loop_drop: "i \<le> length s \<Longrightarrow> drop (trim_start_loop s i) s = dropWhile view_is_space (drop i s)"
proof (induction s i rule: trim_start_loop.induct)
  case (1 s i)
  then show ?case
    by (cases "i < length s") (simp_all add: trim_start_loop.simps [of s i] trim_start_loop.simps [of s "length s"] flip: Cons_nth_drop_Suc)
qed

lemma trim_start_loop_le: "i \<le> length s \<Longrightarrow> trim_start_loop s i \<le> length s"
  by (induction s i rule: trim_start_loop.induct) (simp add: trim_start_loop.simps)

lemma trim_end_loop_take: "e \<le> length s \<Longrightarrow> take (trim_end_loop s e) s = rev (dropWhile view_is_space (rev (take e s)))"
proof (induction s e rule: trim_end_loop.induct)
  case (2 s e)
  then show ?case by (simp add: take_Suc_conv_app_nth)
qed simp

lemma trim_end_loop_le: "trim_end_loop s e \<le> e"
  by (induction s e rule: trim_end_loop.induct) (simp_all add: le_SucI)

lemma trim_start_data: "view_data (proven_u8str_view_trim_start s) = dropWhile view_is_space (view_data s)"
  using trim_start_loop_drop [of 0 "view_data s", symmetric] trim_start_loop_le [of 0 "view_data s"]
  by (auto simp: proven_u8str_view_trim_start_def view_sub_def Let_def)

lemma trim_end_data: "view_data (proven_u8str_view_trim_end s) = rev (dropWhile view_is_space (rev (view_data s)))"
  using trim_end_loop_take [of "length (view_data s)" "view_data s"] trim_end_loop_le [of "view_data s" "length (view_data s)"]
  by (auto simp: proven_u8str_view_trim_end_def view_sub_def Let_def)

text \<open>
  Trimming a view removes exactly the white space at its two ends: the source is white space, the
  result, and white space again, and the result neither starts nor ends with white space.
\<close>

theorem view_trim_exact:
  "\<exists>pre post. view_data s = pre @ view_data (proven_u8str_view_trim s) @ post \<and>
    list_all view_is_space pre \<and> list_all view_is_space post \<and>
    (view_data (proven_u8str_view_trim s) = [] \<or>
      (\<not> view_is_space (hd (view_data (proven_u8str_view_trim s))) \<and>
       \<not> view_is_space (last (view_data (proven_u8str_view_trim s)))))"
proof -
  let ?d = "dropWhile view_is_space (view_data s)"
  let ?t = "view_data (proven_u8str_view_trim s)"
  have t: "?t = rev (dropWhile view_is_space (rev ?d))" by (simp add: proven_u8str_view_trim_def trim_end_data trim_start_data)
  have d: "?d = ?t @ rev (takeWhile view_is_space (rev ?d))"
    unfolding t by (metis rev_append rev_rev_ident takeWhile_dropWhile_id)
  have hd: "\<not> view_is_space (hd ?t)" if "?t \<noteq> []"
  proof -
    have "hd ?t = hd ?d" using d that by (metis hd_append2)
    moreover have "?d \<noteq> []" using that t by (metis dropWhile.simps(1) rev.simps(1))
    ultimately show ?thesis using hd_dropWhile [of view_is_space "view_data s"] by metis
  qed
  have last: "\<not> view_is_space (last ?t)" if "?t \<noteq> []"
    using that hd_dropWhile [of view_is_space "rev ?d"] unfolding t by (simp add: last_rev)
  show ?thesis
  proof (intro exI conjI)
    show "view_data s = takeWhile view_is_space (view_data s) @ ?t @ rev (takeWhile view_is_space (rev ?d))"
      using d takeWhile_dropWhile_id [of view_is_space "view_data s"] by metis
    show "?t = [] \<or> (\<not> view_is_space (hd ?t) \<and> \<not> view_is_space (last ?t))" using hd last by blast
    show "list_all view_is_space (takeWhile view_is_space (view_data s))"
      "list_all view_is_space (rev (takeWhile view_is_space (rev ?d)))"
      by (metis list_all_iff set_rev set_takeWhileD)+
  qed
qed

end
