(* ===== verification/Quic_Codec.thy ===== *)
theory Quic_Codec
  imports Views
begin

unbundle bit_operations_syntax

text \<open>
  The reader, the writer and the variable-length integers of QUIC (\<^verbatim>\<open>net/src/quic_crypto.c\<close> and the
  writer of \<^verbatim>\<open>net/src/quic_frame.c\<close>), and packet numbers. A reader is the bytes it has left and its flag;
  a writer is its buffer, the position and the flag, its capacity being the length of the buffer.
  64-bit values are words.
\<close>

type_synonym u64 = "64 word"

section \<open>Variable-length integers\<close>

definition quic_varint_max :: u64 where
  "quic_varint_max = 2 ^ 62 - 1"

definition proven_quic_varint_len :: "u64 \<Rightarrow> nat" where
  "proven_quic_varint_len v =
    (if v < 64 then 1 else if v < 16384 then 2 else if v < 1073741824 then 4 else if v \<le> quic_varint_max then 8 else 0)"

text \<open>The bytes of \<open>v\<close>, most significant first, \<open>n\<close> of them.\<close>

definition be_bytes :: "nat \<Rightarrow> u64 \<Rightarrow> byte list" where
  "be_bytes n v = map (\<lambda>i. ucast (drop_bit (8 * (n - 1 - i)) v)) [0..<n]"

definition varint_tag :: "nat \<Rightarrow> byte" where
  "varint_tag n = (if n = 1 then 0x00 else if n = 2 then 0x40 else if n = 4 then 0x80 else 0xc0)"

definition proven_quic_varint_put :: "u64 \<Rightarrow> byte list" where
  "proven_quic_varint_put v =
    (let n = proven_quic_varint_len v; out = be_bytes n v in
     if n > 0 then out[0 := out ! 0 OR varint_tag n] else out)"

section \<open>The reader\<close>

record proven_quic_rd =
  rd_p :: "byte list"
  rd_ok :: bool

abbreviation rd_n :: "proven_quic_rd \<Rightarrow> nat" where
  "rd_n r \<equiv> length (rd_p r)"

definition be_value :: "u64 \<Rightarrow> byte list \<Rightarrow> u64" where
  "be_value v bs = fold (\<lambda>b v. push_bit 8 v OR ucast b) bs v"

definition proven_quic_rd_uint :: "proven_quic_rd \<Rightarrow> nat \<Rightarrow> u64 \<times> proven_quic_rd" where
  "proven_quic_rd_uint r n =
    (if \<not> rd_ok r \<or> rd_n r < n then (0, r\<lparr>rd_ok := False\<rparr>)
     else (be_value 0 (take n (rd_p r)), r\<lparr>rd_p := drop n (rd_p r)\<rparr>))"

definition proven_quic_rd_varint :: "proven_quic_rd \<Rightarrow> u64 \<times> proven_quic_rd" where
  "proven_quic_rd_varint r =
    (if \<not> rd_ok r \<or> rd_n r = 0 then (0, r\<lparr>rd_ok := False\<rparr>)
     else let b = rd_p r ! 0; n = 2 ^ unat (drop_bit 6 b) in
       if rd_n r < n then (0, r\<lparr>rd_ok := False\<rparr>)
       else (be_value (ucast (b AND 0x3f)) (take (n - 1) (drop 1 (rd_p r))), r\<lparr>rd_p := drop n (rd_p r)\<rparr>))"

definition proven_quic_rd_take :: "proven_quic_rd \<Rightarrow> nat \<Rightarrow> proven_quic_rd \<times> proven_quic_rd" where
  "proven_quic_rd_take r n =
    (if \<not> rd_ok r \<or> rd_n r < n then (\<lparr>rd_p = [], rd_ok = False\<rparr>, r\<lparr>rd_ok := False\<rparr>)
     else (\<lparr>rd_p = take n (rd_p r), rd_ok = True\<rparr>, r\<lparr>rd_p := drop n (rd_p r)\<rparr>))"

section \<open>The writer\<close>

record proven_quic_wr =
  wr_p :: "byte list"
  wr_n :: nat
  wr_ok :: bool

abbreviation wr_cap :: "proven_quic_wr \<Rightarrow> nat" where
  "wr_cap w \<equiv> length (wr_p w)"

definition proven_quic_wr_bytes :: "proven_quic_wr \<Rightarrow> byte list \<Rightarrow> proven_quic_wr" where
  "proven_quic_wr_bytes w p =
    (if \<not> wr_ok w \<or> wr_cap w - wr_n w < length p then w\<lparr>wr_ok := False\<rparr>
     else w\<lparr>wr_p := take (wr_n w) (wr_p w) @ p @ drop (wr_n w + length p) (wr_p w), wr_n := wr_n w + length p\<rparr>)"

definition proven_quic_wr_uint :: "proven_quic_wr \<Rightarrow> u64 \<Rightarrow> nat \<Rightarrow> proven_quic_wr" where
  "proven_quic_wr_uint w v n =
    (if \<not> wr_ok w \<or> wr_cap w - wr_n w < n then w\<lparr>wr_ok := False\<rparr>
     else w\<lparr>wr_p := take (wr_n w) (wr_p w) @ be_bytes n v @ drop (wr_n w + n) (wr_p w), wr_n := wr_n w + n\<rparr>)"

definition proven_quic_wr_varint :: "proven_quic_wr \<Rightarrow> u64 \<Rightarrow> proven_quic_wr" where
  "proven_quic_wr_varint w v =
    (let b = proven_quic_varint_put v in
     if b = [] then w\<lparr>wr_ok := False\<rparr> else proven_quic_wr_bytes w b)"

section \<open>Packet numbers\<close>

definition proven_quic_pn_len :: "u64 \<Rightarrow> u64 \<Rightarrow> nat" where
  "proven_quic_pn_len pn largest_acked_plus_one =
    (let unacked = pn + 1 - largest_acked_plus_one in
     if unacked \<le> push_bit 7 1 then 1 else if unacked \<le> push_bit 15 1 then 2
     else if unacked \<le> push_bit 23 1 then 3 else 4)"

definition proven_quic_pn_decode :: "u64 \<Rightarrow> u64 \<Rightarrow> nat \<Rightarrow> u64" where
  "proven_quic_pn_decode largest_plus_one truncated bits =
    (let expected = largest_plus_one; win = push_bit bits 1; hwin = win div 2; m = win - 1;
         candidate = (expected AND NOT m) OR truncated in
     if candidate + hwin \<le> expected \<and> candidate < push_bit 62 1 - win then candidate + win
     else if candidate > expected + hwin \<and> candidate \<ge> win then candidate - win
     else candidate)"

section \<open>Reading back what was written\<close>

lemma length_be_bytes [simp]: "length (be_bytes n v) = n"
  by (simp add: be_bytes_def)

lemma be_bytes_Suc: "be_bytes (Suc n) v = be_bytes n (drop_bit 8 v) @ [ucast v]"
proof (rule nth_equalityI)
  fix i
  assume i: "i < length (be_bytes (Suc n) v)"
  show "be_bytes (Suc n) v ! i = (be_bytes n (drop_bit 8 v) @ [ucast v]) ! i"
  proof (cases "i < n")
    case True
    then have "8 + 8 * (n - 1 - i) = 8 * (n - i)" by simp
    with True show ?thesis by (simp add: be_bytes_def nth_append add.commute)
  next
    case False
    with i have "i = n" by simp
    then show ?thesis by (simp add: be_bytes_def nth_append)
  qed
qed simp

lemma be_value_snoc: "be_value v (xs @ [b]) = push_bit 8 (be_value v xs) OR ucast b"
  by (simp add: be_value_def)

lemma be_value_append: "be_value v (xs @ ys) = be_value (be_value v xs) ys"
  by (simp add: be_value_def)

lemma take_bit_split: "take_bit (8 * Suc n) v = push_bit 8 (take_bit (8 * n) (drop_bit 8 v)) OR ucast (ucast v :: byte)"
  for v :: u64
  by (rule bit_word_eqI) (auto simp: bit_simps)

lemma be_value_bytes: "be_value 0 (be_bytes n v) = take_bit (8 * n) v"
proof (induction n arbitrary: v)
  case 0
  then show ?case by (simp add: be_value_def be_bytes_def)
next
  case (Suc n)
  show ?case unfolding be_bytes_Suc be_value_snoc Suc.IH take_bit_split [symmetric] ..
qed

lemma be_bytes_head: "n \<noteq> 0 \<Longrightarrow> be_bytes n v ! 0 = ucast (drop_bit (8 * (n - 1)) v)"
  by (simp add: be_bytes_def)

text \<open>An integer in \<open>n\<close> bytes, not necessarily its shortest form: the first byte has room for the tag, and the tag says
  how many bytes follow.\<close>

definition varint_room :: "nat \<Rightarrow> u64 \<Rightarrow> bool" where
  "varint_room n v \<longleftrightarrow> (n = 1 \<or> n = 2 \<or> n = 4 \<or> n = 8) \<and> unat v < 2 ^ (8 * n - 2)"

definition varint_form :: "nat \<Rightarrow> u64 \<Rightarrow> byte list" where
  "varint_form n v = (be_bytes n v)[0 := be_bytes n v ! 0 OR varint_tag n]"

lemma varint_head:
  assumes "varint_room n v"
  shows "(ucast (drop_bit (8 * (n - 1)) v) :: byte) < 64"
proof -
  have "unat v < 2 ^ (8 * n - 2)" and n: "8 * n - 2 = 8 * (n - 1) + 6" using assms by (auto simp: varint_room_def)
  then have "unat v div 2 ^ (8 * (n - 1)) < 64"
    by (simp add: power_add less_mult_imp_div_less mult.commute)
  then have "unat (drop_bit (8 * (n - 1)) v) < 64"
    by (subst unat_drop_bit_eq) (simp add: drop_bit_eq_div)
  then show ?thesis by (simp add: word_less_nat_alt unsigned_ucast_eq take_bit_nat_eq_self)
qed

lemma varint_tags_all:
  "list_all (\<lambda>b :: byte. list_all (\<lambda>n. (b OR varint_tag n) AND 0x3f = b \<and> 2 ^ unat (drop_bit 6 (b OR varint_tag n)) = n) [1, 2, 4, 8])
    (map word_of_nat [0..<64])"
  by code_simp

lemma varint_tags:
  assumes "n = 1 \<or> n = 2 \<or> n = 4 \<or> n = 8" and "b < 64"
  shows "(b OR varint_tag n) AND 0x3f = b \<and> 2 ^ unat (drop_bit 6 (b OR varint_tag n)) = n"
proof -
  have "unat b < 64" using assms(2) by (simp add: word_less_nat_alt)
  then have "b \<in> set (map word_of_nat [0..<64])" by (auto intro!: image_eqI [of _ _ "unat b"])
  moreover have "n \<in> set [1, 2, 4, 8]" using assms(1) by auto
  ultimately show ?thesis using varint_tags_all unfolding list_all_iff by blast
qed

lemma rd_varint_form:
  assumes r: "varint_room n v"
  shows "proven_quic_rd_varint \<lparr>rd_p = varint_form n v @ rest, rd_ok = True\<rparr> = (v, \<lparr>rd_p = rest, rd_ok = True\<rparr>)"
proof -
  define b where "b = (ucast (drop_bit (8 * (n - 1)) v) :: byte)"
  have n: "n = 1 \<or> n = 2 \<or> n = 4 \<or> n = 8" "n \<noteq> 0" and u: "unat v < 2 ^ (8 * n - 2)" using r by (auto simp: varint_room_def)
  obtain bs where bs: "be_bytes n v = b # bs"
    using n be_bytes_head [OF n(2), of v] length_be_bytes [of n v] by (cases "be_bytes n v") (auto simp: b_def simp del: length_be_bytes)
  have l: "length bs = n - 1" using bs length_be_bytes [of n v] by simp
  have p: "varint_form n v = (b OR varint_tag n) # bs" using bs by (simp add: varint_form_def)
  note t = varint_tags [OF n(1) varint_head [OF r], folded b_def]
  have "(2 :: nat) ^ (8 * n - 2) \<le> 2 ^ (8 * n)" by (rule power_increasing) simp_all
  then have "unat v < 2 ^ (8 * n)" using u by linarith
  then have "take_bit (8 * n) v = v" by (simp add: word_unat_eq_iff unsigned_take_bit_eq take_bit_nat_eq_self)
  moreover have "be_value (ucast b) bs = be_value 0 (be_bytes n v)" by (simp add: bs be_value_def)
  ultimately have "be_value (ucast b) bs = v" by (simp add: be_value_bytes)
  moreover have "n \<le> Suc (length bs + length rest)" "drop n ((b OR varint_tag n) # bs @ rest) = rest"
    using l n(2) by (cases n; simp)+
  ultimately show ?thesis using t l by (simp add: proven_quic_rd_varint_def Let_def p del: drop_bit_or)
qed

text \<open>The shortest form.\<close>

lemma varint_len_cases: "proven_quic_varint_len v = 0 \<or> proven_quic_varint_len v = 1 \<or> proven_quic_varint_len v = 2 \<or>
    proven_quic_varint_len v = 4 \<or> proven_quic_varint_len v = 8"
  by (simp add: proven_quic_varint_len_def)

lemma varint_len_pos: "proven_quic_varint_len v \<noteq> 0 \<longleftrightarrow> v \<le> quic_varint_max"
proof -
  have "v < 64 \<Longrightarrow> v \<le> quic_varint_max" "v < 16384 \<Longrightarrow> v \<le> quic_varint_max" "v < 1073741824 \<Longrightarrow> v \<le> quic_varint_max"
    by (simp_all add: quic_varint_max_def word_le_nat_alt word_less_nat_alt)
  then show ?thesis unfolding proven_quic_varint_len_def
    by (cases "v < 64"; cases "v < 16384"; cases "v < 1073741824"; cases "v \<le> quic_varint_max"; simp)
qed

lemma length_varint_put [simp]: "length (proven_quic_varint_put v) = proven_quic_varint_len v"
  by (simp add: proven_quic_varint_put_def Let_def)

lemma varint_len_room: "proven_quic_varint_len v \<noteq> 0 \<Longrightarrow> varint_room (proven_quic_varint_len v) v"
  unfolding varint_room_def proven_quic_varint_len_def quic_varint_max_def word_less_nat_alt word_le_nat_alt
  by (auto split: if_splits)

lemma rd_varint_put:
  assumes v: "proven_quic_varint_len v \<noteq> 0"
  shows "proven_quic_rd_varint \<lparr>rd_p = proven_quic_varint_put v @ rest, rd_ok = True\<rparr> = (v, \<lparr>rd_p = rest, rd_ok = True\<rparr>)"
proof -
  have "proven_quic_varint_put v = varint_form (proven_quic_varint_len v) v"
    using v by (simp add: proven_quic_varint_put_def varint_form_def Let_def)
  then show ?thesis using rd_varint_form [OF varint_len_room [OF v]] by simp
qed

lemma rd_uint_be: "proven_quic_rd_uint \<lparr>rd_p = be_bytes n v @ rest, rd_ok = True\<rparr> n = (take_bit (8 * n) v, \<lparr>rd_p = rest, rd_ok = True\<rparr>)"
  by (simp add: proven_quic_rd_uint_def be_value_bytes)

lemma rd_take_append: "n = length bs \<Longrightarrow> proven_quic_rd_take \<lparr>rd_p = bs @ rest, rd_ok = True\<rparr> n =
    (\<lparr>rd_p = bs, rd_ok = True\<rparr>, \<lparr>rd_p = rest, rd_ok = True\<rparr>)"
  by (simp add: proven_quic_rd_take_def)

text \<open>What a writer has written; a run of bytes is appended exactly when it fits, and a failure sticks.\<close>

definition written :: "proven_quic_wr \<Rightarrow> byte list" where
  "written w = take (wr_n w) (wr_p w)"

definition wr_good :: "proven_quic_wr \<Rightarrow> bool" where
  "wr_good w \<longleftrightarrow> wr_n w \<le> wr_cap w \<and> wr_cap w < 2 ^ 64"

definition appended :: "proven_quic_wr \<Rightarrow> byte list \<Rightarrow> proven_quic_wr \<Rightarrow> bool" where
  "appended w bs w' \<longleftrightarrow> wr_good w' \<and> wr_cap w' = wr_cap w \<and> wr_n w \<le> wr_n w' \<and> take (wr_n w) (wr_p w') = written w \<and>
    (wr_ok w' \<longleftrightarrow> wr_ok w \<and> length bs \<le> wr_cap w - wr_n w) \<and> (wr_ok w' \<longrightarrow> written w' = written w @ bs)"

lemma appended_refl: "wr_good w \<Longrightarrow> appended w [] w"
  by (simp add: appended_def written_def)

lemma wr_bytes_appended: "wr_good w \<Longrightarrow> appended w p (proven_quic_wr_bytes w p)"
  by (auto simp: appended_def wr_good_def written_def proven_quic_wr_bytes_def)

lemma wr_uint_bytes: "proven_quic_wr_uint w v n = proven_quic_wr_bytes w (be_bytes n v)"
  by (simp add: proven_quic_wr_uint_def proven_quic_wr_bytes_def)

lemma appended_trans:
  assumes a: "appended w as w'" and b: "appended w' bs w''"
  shows "appended w (as @ bs) w''"
proof -
  from a have a': "wr_n w' \<le> wr_cap w'" "wr_cap w' = wr_cap w" "wr_n w \<le> wr_n w'" "take (wr_n w) (wr_p w') = take (wr_n w) (wr_p w)"
    "wr_ok w' \<Longrightarrow> take (wr_n w') (wr_p w') = take (wr_n w) (wr_p w) @ as"
    "wr_ok w' \<longleftrightarrow> wr_ok w \<and> length as \<le> wr_cap w - wr_n w"
    unfolding appended_def wr_good_def written_def by blast+
  from b have b': "wr_good w''" "wr_n w'' \<le> wr_cap w''" "wr_cap w'' = wr_cap w'" "wr_n w' \<le> wr_n w''" "take (wr_n w') (wr_p w'') = take (wr_n w') (wr_p w')"
    "wr_ok w'' \<Longrightarrow> take (wr_n w'') (wr_p w'') = take (wr_n w') (wr_p w') @ bs"
    "wr_ok w'' \<longleftrightarrow> wr_ok w' \<and> length bs \<le> wr_cap w' - wr_n w'"
    unfolding appended_def wr_good_def written_def by blast+
  have pre: "take (wr_n w) (wr_p w'') = take (wr_n w) (wr_p w)"
  proof -
    have "take (wr_n w) (wr_p w'') = take (wr_n w) (take (wr_n w') (wr_p w''))" using a'(3) by (simp add: min_def)
    also have "\<dots> = take (wr_n w) (wr_p w')" using a'(3) unfolding b'(5) by (simp add: min_def)
    finally show ?thesis using a'(4) by simp
  qed
  have n: "wr_n w' = wr_n w + length as" if "wr_ok w'"
  proof -
    have "length (take (wr_n w') (wr_p w')) = length (take (wr_n w) (wr_p w)) + length as" using a'(5) [OF that] by simp
    then show ?thesis using a'(1,2,3) by simp
  qed
  have fits: "wr_ok w'' \<longleftrightarrow> wr_ok w \<and> length (as @ bs) \<le> wr_cap w - wr_n w"
  proof (cases "wr_ok w'")
    case True
    then show ?thesis using n [OF True] a'(1,2,6) b'(7) by auto
  next
    case False
    then show ?thesis using a'(6) b'(7) by auto
  qed
  have "wr_ok w'' \<Longrightarrow> take (wr_n w'') (wr_p w'') = take (wr_n w) (wr_p w) @ (as @ bs)"
    using a'(5) b'(6,7) by (simp add: append_assoc)
  with fits pre show ?thesis unfolding appended_def written_def
    using a'(2,3) b'(1,3,4) by (intro conjI impI) (linarith | blast)+
qed

lemma wr_varint_appended:
  assumes "wr_good w" and "v \<le> quic_varint_max"
  shows "appended w (proven_quic_varint_put v) (proven_quic_wr_varint w v)"
proof -
  have "length (proven_quic_varint_put v) \<noteq> 0" using assms(2) varint_len_pos [of v] by simp
  then have "proven_quic_varint_put v \<noteq> []" by (auto simp del: length_varint_put)
  then show ?thesis using wr_bytes_appended [OF assms(1)] by (simp add: proven_quic_wr_varint_def Let_def)
qed

lemma wr_varint_too_big: "\<not> v \<le> quic_varint_max \<Longrightarrow> \<not> wr_ok (proven_quic_wr_varint w v)"
proof -
  assume "\<not> v \<le> quic_varint_max"
  then have "length (proven_quic_varint_put v) = 0" using varint_len_pos [of v] by simp
  then have "proven_quic_varint_put v = []" by (simp only: length_0_conv)
  then show ?thesis by (simp add: proven_quic_wr_varint_def Let_def)
qed

lemma wr_sticky [simp]:
  "\<not> wr_ok w \<Longrightarrow> \<not> wr_ok (proven_quic_wr_bytes w p)"
  "\<not> wr_ok w \<Longrightarrow> \<not> wr_ok (proven_quic_wr_varint w v)"
  by (simp_all add: proven_quic_wr_bytes_def proven_quic_wr_varint_def Let_def)

section \<open>Packet numbers read back\<close>

lemma pn_window:
  fixes P E W h :: nat
  assumes W: "W = 2 * h" and h: "0 < h" and near: "E < P + h" "P \<le> E + h" and P: "P < M" and C: "C = E div W * W + P mod W"
  shows "(if C + h \<le> E \<and> C + W < M then C + W else if C > E + h \<and> C \<ge> W then C - W else C) = P"
proof -
  have W0: "0 < W" using W h by simp
  have dP: "P = P div W * W + P mod W" and dE: "E = E div W * W + E mod W" by simp_all
  have mP: "P mod W < W" and mE: "E mod W < W" using W0 by simp_all
  consider "P div W = E div W" | "P div W = Suc (E div W)" | "Suc (P div W) = E div W"
  proof -
    have "P div W \<le> Suc (E div W)"
    proof -
      have "P \<le> E + W" using near W by simp
      then have "P div W \<le> (E + W) div W" by (rule div_le_mono)
      then show ?thesis using div_add_self2 [of W] W0 by (metis Suc_eq_plus1 neq0_conv)
    qed
    moreover have "E div W \<le> Suc (P div W)"
    proof -
      have "E \<le> P + W" using near W by simp
      then have "E div W \<le> (P + W) div W" by (rule div_le_mono)
      then show ?thesis using div_add_self2 [of W] W0 by (metis Suc_eq_plus1 neq0_conv)
    qed
    ultimately show thesis using that by linarith
  qed
  then show ?thesis
  proof cases
    case 1
    then have "C = P" using C dP by simp
    then show ?thesis using near by auto
  next
    case 2
    have "C + W = E div W * W + W + P mod W" using C by simp
    also have "\<dots> = P" using 2 dP by (simp add: algebra_simps)
    finally have "C + W = P" .
    then show ?thesis using near W P by auto
  next
    case 3
    have "C = P div W * W + W + P mod W" using C 3 [symmetric] by (simp add: algebra_simps)
    then have "C = P + W" using dP by linarith
    then show ?thesis using near W by auto
  qed
qed

end
