(* ===== verification/Quic_Frame.thy ===== *)
theory Quic_Frame
  imports Quic_Codec
begin

unbundle bit_operations_syntax

text \<open>
  Frames (\<^verbatim>\<open>net/src/quic_frame.c\<close>): reading one, writing one, and the ranges of an ACK frame. Reading
  yields \<open>Inl\<close> the code to close the connection with, or \<open>Inr\<close> the frame and the reader behind it; the
  reader and the half-filled frame of a failure are not used by the code and not part of the model.
  A view into the packet is the list of its bytes.
\<close>

section \<open>Frames\<close>

record proven_quic_cid_t =
  cid_len :: byte
  cid_id :: "byte list"

definition no_cid :: proven_quic_cid_t where
  "no_cid = \<lparr>cid_len = 0, cid_id = replicate 20 0\<rparr>"

record proven_quic_frame_t =
  f_type :: u64
  f_id :: u64
  f_offset :: u64
  f_value :: u64
  f_final_size :: u64
  f_frame_type :: u64
  f_fin :: bool
  f_data :: "byte list"
  f_cid :: proven_quic_cid_t
  f_reset_token :: "byte list"
  f_largest :: u64
  f_ack_delay :: u64
  f_first_range :: u64
  f_range_count :: u64
  f_ranges :: "byte list"
  f_ecn :: "u64 list"

definition no_frame :: proven_quic_frame_t where
  "no_frame = \<lparr>f_type = 0, f_id = 0, f_offset = 0, f_value = 0, f_final_size = 0, f_frame_type = 0, f_fin = False,
    f_data = [], f_cid = no_cid, f_reset_token = replicate 16 0, f_largest = 0, f_ack_delay = 0, f_first_range = 0,
    f_range_count = 0, f_ranges = [], f_ecn = [0, 0, 0]\<rparr>"

abbreviation FT_PADDING :: u64 where "FT_PADDING \<equiv> 0x00"
abbreviation FT_PING :: u64 where "FT_PING \<equiv> 0x01"
abbreviation FT_ACK :: u64 where "FT_ACK \<equiv> 0x02"
abbreviation FT_ACK_ECN :: u64 where "FT_ACK_ECN \<equiv> 0x03"
abbreviation FT_RESET_STREAM :: u64 where "FT_RESET_STREAM \<equiv> 0x04"
abbreviation FT_STOP_SENDING :: u64 where "FT_STOP_SENDING \<equiv> 0x05"
abbreviation FT_CRYPTO :: u64 where "FT_CRYPTO \<equiv> 0x06"
abbreviation FT_NEW_TOKEN :: u64 where "FT_NEW_TOKEN \<equiv> 0x07"
abbreviation FT_STREAM :: u64 where "FT_STREAM \<equiv> 0x08"
abbreviation FT_MAX_DATA :: u64 where "FT_MAX_DATA \<equiv> 0x10"
abbreviation FT_MAX_STREAM_DATA :: u64 where "FT_MAX_STREAM_DATA \<equiv> 0x11"
abbreviation FT_MAX_STREAMS_BIDI :: u64 where "FT_MAX_STREAMS_BIDI \<equiv> 0x12"
abbreviation FT_MAX_STREAMS_UNI :: u64 where "FT_MAX_STREAMS_UNI \<equiv> 0x13"
abbreviation FT_DATA_BLOCKED :: u64 where "FT_DATA_BLOCKED \<equiv> 0x14"
abbreviation FT_STREAM_DATA_BLOCKED :: u64 where "FT_STREAM_DATA_BLOCKED \<equiv> 0x15"
abbreviation FT_STREAMS_BLOCKED_BIDI :: u64 where "FT_STREAMS_BLOCKED_BIDI \<equiv> 0x16"
abbreviation FT_STREAMS_BLOCKED_UNI :: u64 where "FT_STREAMS_BLOCKED_UNI \<equiv> 0x17"
abbreviation FT_NEW_CONNECTION_ID :: u64 where "FT_NEW_CONNECTION_ID \<equiv> 0x18"
abbreviation FT_RETIRE_CONNECTION_ID :: u64 where "FT_RETIRE_CONNECTION_ID \<equiv> 0x19"
abbreviation FT_PATH_CHALLENGE :: u64 where "FT_PATH_CHALLENGE \<equiv> 0x1a"
abbreviation FT_PATH_RESPONSE :: u64 where "FT_PATH_RESPONSE \<equiv> 0x1b"
abbreviation FT_CONNECTION_CLOSE :: u64 where "FT_CONNECTION_CLOSE \<equiv> 0x1c"
abbreviation FT_CONNECTION_CLOSE_APP :: u64 where "FT_CONNECTION_CLOSE_APP \<equiv> 0x1d"
abbreviation FT_HANDSHAKE_DONE :: u64 where "FT_HANDSHAKE_DONE \<equiv> 0x1e"

definition FRAME_ENCODING_ERROR :: u64 where "FRAME_ENCODING_ERROR = 0x07"
definition PROTOCOL_VIOLATION :: u64 where "PROTOCOL_VIOLATION = 0x0a"
definition STREAM_LIMIT :: u64 where "STREAM_LIMIT = 2 ^ 62 - 1"
definition MAX_STREAM_COUNT :: u64 where "MAX_STREAM_COUNT = 2 ^ 60"

definition proven_quic_frame_in_handshake :: "u64 \<Rightarrow> bool" where
  "proven_quic_frame_in_handshake t \<longleftrightarrow>
    t = FT_PADDING \<or> t = FT_PING \<or> t = FT_ACK \<or> t = FT_ACK_ECN \<or> t = FT_CRYPTO \<or> t = FT_CONNECTION_CLOSE"

definition proven_quic_frame_ack_eliciting :: "u64 \<Rightarrow> bool" where
  "proven_quic_frame_ack_eliciting t \<longleftrightarrow>
    t \<noteq> FT_PADDING \<and> t \<noteq> FT_ACK \<and> t \<noteq> FT_ACK_ECN \<and> t \<noteq> FT_CONNECTION_CLOSE \<and> t \<noteq> FT_CONNECTION_CLOSE_APP"

definition proven_quic_frame_probing :: "u64 \<Rightarrow> bool" where
  "proven_quic_frame_probing t \<longleftrightarrow>
    t = FT_PADDING \<or> t = FT_PATH_CHALLENGE \<or> t = FT_PATH_RESPONSE \<or> t = FT_NEW_CONNECTION_ID"

section \<open>Reading a frame\<close>

definition rd_view :: "proven_quic_rd \<Rightarrow> u64 \<Rightarrow> byte list \<times> proven_quic_rd" where
  "rd_view r n =
    (if \<not> rd_ok r \<or> unat n > rd_n r then ([], r\<lparr>rd_ok := False\<rparr>)
     else let (b, r) = proven_quic_rd_take r (unat n) in (rd_p b, r))"

type_synonym frame_result = "u64 + proven_quic_frame_t \<times> proven_quic_rd"

definition frame_done :: "proven_quic_frame_t \<Rightarrow> proven_quic_rd \<Rightarrow> frame_result" where
  "frame_done f r = (if rd_ok r then Inr (f, r) else Inl FRAME_ENCODING_ERROR)"

text \<open>Every range stays at or above packet number 0.\<close>

primrec ack_check :: "nat \<Rightarrow> u64 \<Rightarrow> proven_quic_rd \<Rightarrow> proven_quic_rd option" where
  "ack_check 0 lo r = Some r"
| "ack_check (Suc k) lo r =
    (let (gap, r) = proven_quic_rd_varint r; (len, r) = proven_quic_rd_varint r in
     if \<not> rd_ok r \<or> lo < 2 \<or> gap > lo - 2 then None
     else let hi = lo - gap - 2 in
       if len > hi then None else ack_check k (hi - len) r)"

definition frame_read_ack :: "u64 \<Rightarrow> proven_quic_frame_t \<Rightarrow> proven_quic_rd \<Rightarrow> frame_result" where
  "frame_read_ack t f r =
    (let (largest, r) = proven_quic_rd_varint r; (ack_delay, r) = proven_quic_rd_varint r;
         (range_count, r) = proven_quic_rd_varint r; (first_range, r) = proven_quic_rd_varint r;
         f = f\<lparr>f_largest := largest, f_ack_delay := ack_delay, f_range_count := range_count, f_first_range := first_range\<rparr> in
     if \<not> rd_ok r \<or> first_range > largest then Inl FRAME_ENCODING_ERROR
     else case ack_check (unat range_count) (largest - first_range) r of
       None \<Rightarrow> Inl FRAME_ENCODING_ERROR
     | Some r' \<Rightarrow>
         let f = f\<lparr>f_ranges := take (rd_n r - rd_n r') (rd_p r)\<rparr> in
         if t = FT_ACK_ECN then
           let (e0, r') = proven_quic_rd_varint r'; (e1, r') = proven_quic_rd_varint r'; (e2, r') = proven_quic_rd_varint r' in
           frame_done (f\<lparr>f_ecn := [e0, e1, e2]\<rparr>) r'
         else frame_done f r')"

definition frame_read_crypto :: "proven_quic_frame_t \<Rightarrow> proven_quic_rd \<Rightarrow> frame_result" where
  "frame_read_crypto f r =
    (let (offset, r) = proven_quic_rd_varint r; (len, r) = proven_quic_rd_varint r; (d, r) = rd_view r len in
     if rd_ok r \<and> len > STREAM_LIMIT - offset then Inl FRAME_ENCODING_ERROR
     else frame_done (f\<lparr>f_offset := offset, f_data := d\<rparr>) r)"

definition frame_read_new_token :: "proven_quic_frame_t \<Rightarrow> proven_quic_rd \<Rightarrow> frame_result" where
  "frame_read_new_token f r =
    (let (len, r) = proven_quic_rd_varint r; (d, r) = rd_view r len in
     if rd_ok r \<and> len = 0 then Inl FRAME_ENCODING_ERROR else frame_done (f\<lparr>f_data := d\<rparr>) r)"

definition frame_read_streams :: "proven_quic_frame_t \<Rightarrow> proven_quic_rd \<Rightarrow> frame_result" where
  "frame_read_streams f r =
    (let (value, r) = proven_quic_rd_varint r in
     if rd_ok r \<and> value > MAX_STREAM_COUNT then Inl FRAME_ENCODING_ERROR else frame_done (f\<lparr>f_value := value\<rparr>) r)"

definition frame_read_new_cid :: "proven_quic_frame_t \<Rightarrow> proven_quic_rd \<Rightarrow> frame_result" where
  "frame_read_new_cid f r =
    (let (seq, r) = proven_quic_rd_varint r; (value, r) = proven_quic_rd_varint r; (len, r) = proven_quic_rd_uint r 1 in
     if \<not> rd_ok r \<or> len < 1 \<or> len > 20 \<or> value > seq then Inl FRAME_ENCODING_ERROR
     else let (cid, r) = rd_view r len; (token, r) = rd_view r 16 in
       if \<not> rd_ok r then Inl FRAME_ENCODING_ERROR
       else frame_done (f\<lparr>f_id := seq, f_value := value,
              f_cid := \<lparr>cid_len = ucast len, cid_id = cid @ drop (unat len) (cid_id (f_cid f))\<rparr>, f_reset_token := token\<rparr>) r)"

definition frame_read_close :: "u64 \<Rightarrow> proven_quic_frame_t \<Rightarrow> proven_quic_rd \<Rightarrow> frame_result" where
  "frame_read_close t f r =
    (let (value, r) = proven_quic_rd_varint r;
         (frame_type, r) = (if t = FT_CONNECTION_CLOSE then proven_quic_rd_varint r else (f_frame_type f, r));
         (len, r) = proven_quic_rd_varint r; (d, r) = rd_view r len in
     frame_done (f\<lparr>f_value := value, f_frame_type := frame_type, f_data := d\<rparr>) r)"

definition frame_read_stream :: "u64 \<Rightarrow> proven_quic_frame_t \<Rightarrow> proven_quic_rd \<Rightarrow> frame_result" where
  "frame_read_stream t f r =
    (let (sid, r) = proven_quic_rd_varint r;
         (offset, r) = (if t AND 0x04 \<noteq> 0 then proven_quic_rd_varint r else (f_offset f, r));
         (len, r) = (if t AND 0x02 \<noteq> 0 then proven_quic_rd_varint r else (of_nat (rd_n r), r));
         (d, r) = rd_view r len in
     if rd_ok r \<and> len > STREAM_LIMIT - offset then Inl FRAME_ENCODING_ERROR
     else frame_done (f\<lparr>f_id := sid, f_offset := offset, f_data := d, f_fin := (t AND 0x01 \<noteq> 0)\<rparr>) r)"

definition proven_quic_frame_read :: "proven_quic_rd \<Rightarrow> frame_result" where
  "proven_quic_frame_read r =
    (let before = rd_n r; (t, r) = proven_quic_rd_varint r in
     if \<not> rd_ok r then Inl FRAME_ENCODING_ERROR
     else if before - rd_n r \<noteq> proven_quic_varint_len t then Inl PROTOCOL_VIOLATION
     else let f = no_frame\<lparr>f_type := (if t \<ge> 0x08 \<and> t \<le> 0x0f then FT_STREAM else t)\<rparr> in
       if t = FT_PADDING \<or> t = FT_PING \<or> t = FT_HANDSHAKE_DONE then frame_done f r
       else if t = FT_ACK \<or> t = FT_ACK_ECN then frame_read_ack t f r
       else if t = FT_RESET_STREAM then
         (let (sid, r) = proven_quic_rd_varint r; (value, r) = proven_quic_rd_varint r; (final_size, r) = proven_quic_rd_varint r in
          frame_done (f\<lparr>f_id := sid, f_value := value, f_final_size := final_size\<rparr>) r)
       else if t = FT_STOP_SENDING then
         (let (sid, r) = proven_quic_rd_varint r; (value, r) = proven_quic_rd_varint r in
          frame_done (f\<lparr>f_id := sid, f_value := value\<rparr>) r)
       else if t = FT_CRYPTO then frame_read_crypto f r
       else if t = FT_NEW_TOKEN then frame_read_new_token f r
       else if t = FT_MAX_DATA \<or> t = FT_DATA_BLOCKED then
         (let (value, r) = proven_quic_rd_varint r in frame_done (f\<lparr>f_value := value\<rparr>) r)
       else if t = FT_MAX_STREAM_DATA \<or> t = FT_STREAM_DATA_BLOCKED then
         (let (sid, r) = proven_quic_rd_varint r; (value, r) = proven_quic_rd_varint r in
          frame_done (f\<lparr>f_id := sid, f_value := value\<rparr>) r)
       else if t = FT_MAX_STREAMS_BIDI \<or> t = FT_MAX_STREAMS_UNI \<or> t = FT_STREAMS_BLOCKED_BIDI \<or> t = FT_STREAMS_BLOCKED_UNI then
         frame_read_streams f r
       else if t = FT_NEW_CONNECTION_ID then frame_read_new_cid f r
       else if t = FT_RETIRE_CONNECTION_ID then
         (let (sid, r) = proven_quic_rd_varint r in frame_done (f\<lparr>f_id := sid\<rparr>) r)
       else if t = FT_PATH_CHALLENGE \<or> t = FT_PATH_RESPONSE then
         (let (d, r) = rd_view r 8 in frame_done (f\<lparr>f_data := d\<rparr>) r)
       else if t = FT_CONNECTION_CLOSE \<or> t = FT_CONNECTION_CLOSE_APP then frame_read_close t f r
       else if t \<ge> 0x08 \<and> t \<le> 0x0f then frame_read_stream t f r
       else Inl FRAME_ENCODING_ERROR)"

section \<open>Writing a frame\<close>

definition proven_quic_stream_overhead :: "u64 \<Rightarrow> u64 \<Rightarrow> nat \<Rightarrow> nat" where
  "proven_quic_stream_overhead sid offset len =
    1 + proven_quic_varint_len sid + (if offset \<noteq> 0 then proven_quic_varint_len offset else 0) + proven_quic_varint_len (of_nat len)"

definition wr_view :: "proven_quic_wr \<Rightarrow> byte list \<Rightarrow> proven_quic_wr" where
  "wr_view w d = proven_quic_wr_bytes (proven_quic_wr_varint w (of_nat (length d))) d"

definition wr_varints :: "proven_quic_wr \<Rightarrow> u64 list \<Rightarrow> proven_quic_wr" where
  "wr_varints w vs = foldl proven_quic_wr_varint w vs"

definition frame_write :: "proven_quic_wr \<Rightarrow> proven_quic_frame_t \<Rightarrow> proven_quic_wr" where
  "frame_write w f =
    (let t = f_type f in
     if t = FT_PADDING \<or> t = FT_PING \<or> t = FT_HANDSHAKE_DONE then proven_quic_wr_varint w t
     else if t = FT_RESET_STREAM then wr_varints w [t, f_id f, f_value f, f_final_size f]
     else if t = FT_STOP_SENDING \<or> t = FT_MAX_STREAM_DATA \<or> t = FT_STREAM_DATA_BLOCKED then wr_varints w [t, f_id f, f_value f]
     else if t = FT_CRYPTO then wr_view (wr_varints w [t, f_offset f]) (f_data f)
     else if t = FT_NEW_TOKEN then wr_view (proven_quic_wr_varint w t) (f_data f)
     else if t = FT_STREAM then
       (let w = proven_quic_wr_varint w (0x08 OR (if f_offset f \<noteq> 0 then 0x04 else 0) OR 0x02 OR (if f_fin f then 0x01 else 0));
            w = proven_quic_wr_varint w (f_id f);
            w = (if f_offset f \<noteq> 0 then proven_quic_wr_varint w (f_offset f) else w) in
        wr_view w (f_data f))
     else if t = FT_MAX_DATA \<or> t = FT_DATA_BLOCKED \<or> t = FT_MAX_STREAMS_BIDI \<or> t = FT_MAX_STREAMS_UNI
         \<or> t = FT_STREAMS_BLOCKED_BIDI \<or> t = FT_STREAMS_BLOCKED_UNI then wr_varints w [t, f_value f]
     else if t = FT_NEW_CONNECTION_ID then
       (let w = wr_varints w [t, f_id f, f_value f];
            w = proven_quic_wr_bytes (proven_quic_wr_uint w (ucast (cid_len (f_cid f))) 1) (take (unat (cid_len (f_cid f))) (cid_id (f_cid f))) in
        proven_quic_wr_bytes w (f_reset_token f))
     else if t = FT_RETIRE_CONNECTION_ID then wr_varints w [t, f_id f]
     else if t = FT_PATH_CHALLENGE \<or> t = FT_PATH_RESPONSE then
       (let w = proven_quic_wr_varint w t in
        if length (f_data f) \<noteq> 8 then w\<lparr>wr_ok := False\<rparr> else proven_quic_wr_bytes w (f_data f))
     else if t = FT_CONNECTION_CLOSE \<or> t = FT_CONNECTION_CLOSE_APP then
       (let w = wr_varints w [t, f_value f];
            w = (if t = FT_CONNECTION_CLOSE then proven_quic_wr_varint w (f_frame_type f) else w) in
        wr_view w (f_data f))
     else w\<lparr>wr_ok := False\<rparr>)"

definition proven_quic_frame_put :: "proven_quic_wr \<Rightarrow> proven_quic_frame_t \<Rightarrow> bool \<times> proven_quic_wr" where
  "proven_quic_frame_put w f =
    (let at = wr_n w; w = frame_write w f in
     if \<not> wr_ok w then (False, w\<lparr>wr_n := at, wr_ok := True\<rparr>) else (True, w))"

section \<open>The ranges of an ACK frame\<close>

record proven_quic_ack_iter_t =
  it_r :: proven_quic_rd
  it_hi :: u64
  it_lo :: u64
  it_left :: u64
  it_first :: bool

definition proven_quic_ack_iter :: "proven_quic_frame_t \<Rightarrow> proven_quic_ack_iter_t" where
  "proven_quic_ack_iter f =
    \<lparr>it_r = \<lparr>rd_p = f_ranges f, rd_ok = True\<rparr>, it_hi = f_largest f, it_lo = f_largest f - f_first_range f,
     it_left = f_range_count f, it_first = True\<rparr>"

text \<open>The next range, from \<open>lo\<close> to \<open>hi\<close>, or \<open>None\<close> for \<^verbatim>\<open>false\<close>.\<close>

definition proven_quic_ack_next :: "proven_quic_ack_iter_t \<Rightarrow> (u64 \<times> u64) option \<times> proven_quic_ack_iter_t" where
  "proven_quic_ack_next it =
    (if it_first it then (Some (it_lo it, it_hi it), it\<lparr>it_first := False\<rparr>)
     else if it_left it = 0 then (None, it)
     else let (gap, r) = proven_quic_rd_varint (it_r it); (len, r) = proven_quic_rd_varint r; it = it\<lparr>it_r := r\<rparr> in
       if \<not> rd_ok r then (None, it)
       else let it = it\<lparr>it_hi := it_lo it - gap - 2\<rparr>; it = it\<lparr>it_lo := it_hi it - len, it_left := it_left it - 1\<rparr> in
         (Some (it_lo it, it_hi it), it))"

text \<open>How many further ranges fit: \<open>prev\<close> is the low end of the range before, \<open>k\<close> and \<open>pairs\<close> the count so far.\<close>

fun ack_fit :: "nat \<Rightarrow> nat \<Rightarrow> u64 \<Rightarrow> (u64 \<times> u64) list \<Rightarrow> nat \<Rightarrow> nat \<Rightarrow> nat \<times> nat" where
  "ack_fit need room prev [] k pairs = (k, pairs)"
| "ack_fit need room prev ((lo, hi) # rs) k pairs =
    (let gap = prev - hi - 2; len = hi - lo; add = proven_quic_varint_len gap + proven_quic_varint_len len in
     if need + proven_quic_varint_len (of_nat (k + 1)) + pairs + add > room then (k, pairs)
     else ack_fit need room lo rs (k + 1) (pairs + add))"

fun ack_pairs :: "u64 \<Rightarrow> (u64 \<times> u64) list \<Rightarrow> u64 list" where
  "ack_pairs prev [] = []"
| "ack_pairs prev ((lo, hi) # rs) = (prev - hi - 2) # (hi - lo) # ack_pairs lo rs"

definition proven_quic_ack_put_ecn :: "proven_quic_wr \<Rightarrow> (u64 \<times> u64) list \<Rightarrow> u64 \<Rightarrow> u64 list option \<Rightarrow> nat \<times> proven_quic_wr" where
  "proven_quic_ack_put_ecn w ranges ack_delay ecn =
    (if ranges = [] \<or> \<not> wr_ok w then (0, w)
     else let largest = snd (ranges ! 0); first = snd (ranges ! 0) - fst (ranges ! 0); room = wr_cap w - wr_n w;
              need = 1 + proven_quic_varint_len largest + proven_quic_varint_len ack_delay + proven_quic_varint_len first
                + (case ecn of None \<Rightarrow> 0 | Some e \<Rightarrow> proven_quic_varint_len (e ! 0) + proven_quic_varint_len (e ! 1) + proven_quic_varint_len (e ! 2));
              (k, pairs) = ack_fit need room (fst (ranges ! 0)) (drop 1 ranges) 0 0 in
       if need + proven_quic_varint_len (of_nat k) + pairs > room then (0, w)
       else let w = wr_varints w [if ecn \<noteq> None then FT_ACK_ECN else FT_ACK, largest, ack_delay, of_nat k, first];
                w = wr_varints w (ack_pairs (fst (ranges ! 0)) (take k (drop 1 ranges)));
                w = (case ecn of None \<Rightarrow> w | Some e \<Rightarrow> wr_varints w [e ! 0, e ! 1, e ! 2]) in
         (if wr_ok w then k + 1 else 0, w))"

definition proven_quic_ack_put :: "proven_quic_wr \<Rightarrow> (u64 \<times> u64) list \<Rightarrow> u64 \<Rightarrow> nat \<times> proven_quic_wr" where
  "proven_quic_ack_put w ranges ack_delay = proven_quic_ack_put_ecn w ranges ack_delay None"

end
