(* ===== verification/Quic_Wire.thy ===== *)
theory Quic_Wire
  imports Quic_Frame
begin

unbundle bit_operations_syntax

text \<open>
  What a frame is on the wire: a list of integers and runs of bytes. Writing a frame writes its items, all of
  them or, when one cannot be encoded or they do not fit, none; reading takes them apart again.
\<close>

datatype item = V u64 | B "byte list" | X

definition view_items :: "byte list \<Rightarrow> item list" where
  "view_items d = [V (of_nat (length d)), B d]"

definition frame_items :: "proven_quic_frame_t \<Rightarrow> item list" where
  "frame_items f =
    (let t = f_type f in
     if t = FT_PADDING \<or> t = FT_PING \<or> t = FT_HANDSHAKE_DONE then [V t]
     else if t = FT_RESET_STREAM then [V t, V (f_id f), V (f_value f), V (f_final_size f)]
     else if t = FT_STOP_SENDING \<or> t = FT_MAX_STREAM_DATA \<or> t = FT_STREAM_DATA_BLOCKED then [V t, V (f_id f), V (f_value f)]
     else if t = FT_CRYPTO then [V t, V (f_offset f)] @ view_items (f_data f)
     else if t = FT_NEW_TOKEN then [V t] @ view_items (f_data f)
     else if t = FT_STREAM then
       [V (0x08 OR (if f_offset f \<noteq> 0 then 0x04 else 0) OR 0x02 OR (if f_fin f then 0x01 else 0)), V (f_id f)] @
       (if f_offset f \<noteq> 0 then [V (f_offset f)] else []) @ view_items (f_data f)
     else if t = FT_MAX_DATA \<or> t = FT_DATA_BLOCKED \<or> t = FT_MAX_STREAMS_BIDI \<or> t = FT_MAX_STREAMS_UNI
         \<or> t = FT_STREAMS_BLOCKED_BIDI \<or> t = FT_STREAMS_BLOCKED_UNI then [V t, V (f_value f)]
     else if t = FT_NEW_CONNECTION_ID then
       [V t, V (f_id f), V (f_value f), B (be_bytes 1 (ucast (cid_len (f_cid f)))),
        B (take (unat (cid_len (f_cid f))) (cid_id (f_cid f))), B (f_reset_token f)]
     else if t = FT_RETIRE_CONNECTION_ID then [V t, V (f_id f)]
     else if t = FT_PATH_CHALLENGE \<or> t = FT_PATH_RESPONSE then (if length (f_data f) \<noteq> 8 then [V t, X] else [V t, B (f_data f)])
     else if t = FT_CONNECTION_CLOSE then [V t, V (f_value f), V (f_frame_type f)] @ view_items (f_data f)
     else if t = FT_CONNECTION_CLOSE_APP then [V t, V (f_value f)] @ view_items (f_data f)
     else [X])"

fun item_ok :: "item \<Rightarrow> bool" where
  "item_ok (V v) = (v \<le> quic_varint_max)"
| "item_ok (B d) = True"
| "item_ok X = False"

fun item_bytes :: "item \<Rightarrow> byte list" where
  "item_bytes (V v) = proven_quic_varint_put v"
| "item_bytes (B d) = d"
| "item_bytes X = []"

fun put_item :: "proven_quic_wr \<Rightarrow> item \<Rightarrow> proven_quic_wr" where
  "put_item w (V v) = proven_quic_wr_varint w v"
| "put_item w (B d) = proven_quic_wr_bytes w d"
| "put_item w X = w\<lparr>wr_ok := False\<rparr>"

definition items_bytes :: "item list \<Rightarrow> byte list" where
  "items_bytes is = concat (map item_bytes is)"

lemma items_bytes_simps [simp]:
  "items_bytes [] = []"
  "items_bytes (i # is) = item_bytes i @ items_bytes is"
  "items_bytes (is @ js) = items_bytes is @ items_bytes js"
  by (simp_all add: items_bytes_def)

lemma put_items_sticky: "\<not> wr_ok w \<Longrightarrow> \<not> wr_ok (foldl put_item w is)"
proof (induction "is" arbitrary: w)
  case (Cons i "is")
  have "\<not> wr_ok (put_item w i)" using Cons.prems by (cases i) simp_all
  then show ?case using Cons.IH by simp
qed simp

lemma put_items_bad: "\<not> list_all item_ok is \<Longrightarrow> \<not> wr_ok (foldl put_item w is)"
proof (induction "is" arbitrary: w)
  case (Cons i "is")
  show ?case
  proof (cases "item_ok i")
    case True
    then show ?thesis using Cons by simp
  next
    case False
    then have "\<not> wr_ok (put_item w i)" by (cases i) (simp_all add: wr_varint_too_big)
    then show ?thesis by (simp add: put_items_sticky)
  qed
qed simp

lemma put_items_appended: "wr_good w \<Longrightarrow> list_all item_ok is \<Longrightarrow> appended w (items_bytes is) (foldl put_item w is)"
proof (induction "is" arbitrary: w)
  case Nil
  then show ?case by (simp add: appended_refl)
next
  case (Cons i "is")
  have a: "appended w (item_bytes i) (put_item w i)"
    using Cons.prems by (cases i) (auto intro: wr_varint_appended wr_bytes_appended)
  then have "wr_good (put_item w i)" by (simp add: appended_def)
  then show ?case using appended_trans [OF a] Cons by simp
qed

lemma frame_write_items: "frame_write w f = foldl put_item w (frame_items f)"
  unfolding frame_write_def frame_items_def Let_def
  by (simp add: wr_varints_def wr_view_def view_items_def wr_uint_bytes)

text \<open>Prefix kept, whatever happens.\<close>

lemma put_items_keep: "wr_good w \<Longrightarrow> wr_good (foldl put_item w is) \<and> wr_cap (foldl put_item w is) = wr_cap w \<and>
    wr_n w \<le> wr_n (foldl put_item w is) \<and> take (wr_n w) (wr_p (foldl put_item w is)) = written w"
proof (induction "is" arbitrary: w)
  case Nil
  then show ?case by (simp add: written_def)
next
  case (Cons i "is")
  have keep: "wr_good (put_item w i) \<and> wr_cap (put_item w i) = wr_cap w \<and> wr_n w \<le> wr_n (put_item w i) \<and>
      take (wr_n w) (wr_p (put_item w i)) = written w"
    using Cons.prems by (cases i) (auto simp: wr_good_def written_def proven_quic_wr_varint_def proven_quic_wr_bytes_def Let_def)
  note IH = Cons.IH [of "put_item w i"]
  have "take (wr_n w) (wr_p (foldl put_item (put_item w i) is)) =
      take (wr_n w) (take (wr_n (put_item w i)) (wr_p (foldl put_item (put_item w i) is)))"
    using keep by (simp add: min_def)
  also have "\<dots> = take (wr_n w) (wr_p (put_item w i))"
    using keep IH by (simp add: written_def min_def)
  finally show ?case using keep IH by simp
qed

theorem frame_put_all_or_nothing:
  assumes g: "wr_good w" and ok: "wr_ok w" and p: "proven_quic_frame_put w f = (b, w')"
  shows "wr_good w' \<and> wr_ok w' \<and> wr_cap w' = wr_cap w \<and>
    (b \<longleftrightarrow> list_all item_ok (frame_items f) \<and> length (items_bytes (frame_items f)) \<le> wr_cap w - wr_n w) \<and>
    written w' = (if b then written w @ items_bytes (frame_items f) else written w)"
proof -
  let ?v = "foldl put_item w (frame_items f)"
  note keep = put_items_keep [OF g, of "frame_items f"]
  have iff: "wr_ok ?v \<longleftrightarrow> list_all item_ok (frame_items f) \<and> length (items_bytes (frame_items f)) \<le> wr_cap w - wr_n w"
  proof (cases "list_all item_ok (frame_items f)")
    case True
    then show ?thesis using put_items_appended [OF g True] ok unfolding appended_def by blast
  next
    case False
    then show ?thesis using put_items_bad by blast
  qed
  have new: "written ?v = written w @ items_bytes (frame_items f)" if "wr_ok ?v"
  proof -
    have "list_all item_ok (frame_items f)" using that iff by blast
    then show ?thesis using put_items_appended [OF g] that unfolding appended_def by blast
  qed
  show ?thesis
  proof (cases "wr_ok ?v")
    case True
    then have "b" "w' = ?v" using p by (simp_all add: proven_quic_frame_put_def frame_write_items)
    then show ?thesis using True iff new keep by simp
  next
    case False
    then have b: "\<not> b" "w' = ?v\<lparr>wr_n := wr_n w, wr_ok := True\<rparr>" using p by (auto simp: proven_quic_frame_put_def frame_write_items)
    have "written w' = written w" using keep b(2) by (simp add: written_def)
    then show ?thesis using b False iff keep g by (simp add: wr_good_def)
  qed
qed

end
