(* ===== verification/Quic_Read.thy ===== *)
theory Quic_Read
  imports Quic_Wire
begin

unbundle bit_operations_syntax

text \<open>
  Reading back what was written. What the reader accepts is said by \<open>frame_valid\<close>; what it fills in is the
  part of the frame that its type gives a meaning, \<open>frame_canonical\<close>.
\<close>

section \<open>Reading the items\<close>

abbreviation rdr :: "byte list \<Rightarrow> proven_quic_rd" where
  "rdr bs \<equiv> \<lparr>rd_p = bs, rd_ok = True\<rparr>"

lemma rd_varint_item [simp]: "v \<le> quic_varint_max \<Longrightarrow> proven_quic_rd_varint (rdr (proven_quic_varint_put v @ rest)) = (v, rdr rest)"
  using rd_varint_put varint_len_pos by blast

lemma rd_view_item: "unat n = length d \<Longrightarrow> rd_view (rdr (d @ rest)) n = (d, rdr rest)"
  by (simp add: rd_view_def proven_quic_rd_take_def)

lemma unat_of_length: "length d < 2 ^ 64 \<Longrightarrow> unat (of_nat (length d) :: u64) = length d"
  by (simp add: unsigned_of_nat take_bit_nat_eq_self)

lemma unat_of_byte: "unat (ucast b :: u64) = unat b" for b :: byte
proof -
  have "unat b < 2 ^ 8" using unsigned_less [of b] by simp
  then have "take_bit 64 (unat b) = unat b" by (intro take_bit_nat_eq_self) simp
  then show ?thesis by (simp add: unsigned_ucast_eq)
qed

lemma rd_view_len: "length d < 2 ^ 64 \<Longrightarrow> rd_view (rdr (d @ rest)) (of_nat (length d)) = (d, rdr rest)"
  by (rule rd_view_item) (rule unat_of_length)

lemma rd_uint_byte: "proven_quic_rd_uint (rdr (be_bytes 1 (ucast b) @ rest)) 1 = (ucast (b :: byte), rdr rest)"
proof -
  have "take_bit 8 (ucast b :: u64) = ucast b" by (rule bit_word_eqI) (auto simp: bit_simps dest: bit_imp_le_length)
  then show ?thesis using rd_uint_be [of 1 "ucast b" rest] by simp
qed

section \<open>Frames the reader accepts, and what it makes of them\<close>

definition frame_sized :: "proven_quic_frame_t \<Rightarrow> bool" where
  "frame_sized f \<longleftrightarrow> length (f_data f) < 2 ^ 64 \<and> length (cid_id (f_cid f)) = 20 \<and> length (f_reset_token f) = 16"

definition frame_valid :: "proven_quic_frame_t \<Rightarrow> bool" where
  "frame_valid f \<longleftrightarrow>
    (if f_type f = FT_CRYPTO \<or> f_type f = FT_STREAM then of_nat (length (f_data f)) \<le> STREAM_LIMIT - f_offset f
     else if f_type f = FT_NEW_TOKEN then f_data f \<noteq> []
     else if f_type f = FT_MAX_STREAMS_BIDI \<or> f_type f = FT_MAX_STREAMS_UNI \<or> f_type f = FT_STREAMS_BLOCKED_BIDI
         \<or> f_type f = FT_STREAMS_BLOCKED_UNI then f_value f \<le> MAX_STREAM_COUNT
     else if f_type f = FT_NEW_CONNECTION_ID then
       0 < unat (cid_len (f_cid f)) \<and> unat (cid_len (f_cid f)) \<le> 20 \<and> f_value f \<le> f_id f
     else True)"

definition cid_canonical :: "proven_quic_cid_t \<Rightarrow> proven_quic_cid_t" where
  "cid_canonical c = \<lparr>cid_len = cid_len c, cid_id = take (unat (cid_len c)) (cid_id c) @ replicate (20 - unat (cid_len c)) 0\<rparr>"

definition frame_canonical :: "proven_quic_frame_t \<Rightarrow> proven_quic_frame_t" where
  "frame_canonical f =
    (let t = f_type f; g = no_frame\<lparr>f_type := t\<rparr> in
     if t = FT_PADDING \<or> t = FT_PING \<or> t = FT_HANDSHAKE_DONE then g
     else if t = FT_RESET_STREAM then g\<lparr>f_id := f_id f, f_value := f_value f, f_final_size := f_final_size f\<rparr>
     else if t = FT_STOP_SENDING \<or> t = FT_MAX_STREAM_DATA \<or> t = FT_STREAM_DATA_BLOCKED then g\<lparr>f_id := f_id f, f_value := f_value f\<rparr>
     else if t = FT_CRYPTO then g\<lparr>f_offset := f_offset f, f_data := f_data f\<rparr>
     else if t = FT_NEW_TOKEN \<or> t = FT_PATH_CHALLENGE \<or> t = FT_PATH_RESPONSE then g\<lparr>f_data := f_data f\<rparr>
     else if t = FT_STREAM then g\<lparr>f_id := f_id f, f_offset := f_offset f, f_data := f_data f, f_fin := f_fin f\<rparr>
     else if t = FT_NEW_CONNECTION_ID then
       g\<lparr>f_id := f_id f, f_value := f_value f, f_cid := cid_canonical (f_cid f), f_reset_token := f_reset_token f\<rparr>
     else if t = FT_RETIRE_CONNECTION_ID then g\<lparr>f_id := f_id f\<rparr>
     else if t = FT_CONNECTION_CLOSE then g\<lparr>f_value := f_value f, f_frame_type := f_frame_type f, f_data := f_data f\<rparr>
     else if t = FT_CONNECTION_CLOSE_APP then g\<lparr>f_value := f_value f, f_data := f_data f\<rparr>
     else g\<lparr>f_value := f_value f\<rparr>)"

section \<open>Every type of frame\<close>

definition reads_back :: "proven_quic_frame_t \<Rightarrow> byte list \<Rightarrow> bool" where
  "reads_back f rest \<longleftrightarrow> proven_quic_frame_read (rdr (items_bytes (frame_items f) @ rest)) =
    (if frame_valid f then Inr (frame_canonical f, rdr rest) else Inl FRAME_ENCODING_ERROR)"

lemmas read_back_defs = reads_back_def frame_items_def frame_valid_def frame_canonical_def proven_quic_frame_read_def
  frame_done_def view_items_def Let_def

lemma small_varint: "v \<le> 0x1e \<Longrightarrow> v \<le> quic_varint_max"
  by (simp add: quic_varint_max_def word_le_nat_alt)

lemma ping_short: "\<not> FT_STREAM \<le> FT_PING" "FT_PING \<le> quic_varint_max" "FT_PADDING \<le> quic_varint_max"
  by (simp_all add: word_le_nat_alt quic_varint_max_def)

lemma read_simple:
  assumes "f_type f = FT_PADDING \<or> f_type f = FT_PING \<or> f_type f = FT_HANDSHAKE_DONE"
  shows "reads_back f rest"
  using assms by (elim disjE) (simp_all add: read_back_defs small_varint ping_short)

lemma read_values:
  assumes "f_type f = FT_RESET_STREAM \<or> f_type f = FT_STOP_SENDING \<or> f_type f = FT_MAX_STREAM_DATA \<or> f_type f = FT_STREAM_DATA_BLOCKED
      \<or> f_type f = FT_MAX_DATA \<or> f_type f = FT_DATA_BLOCKED \<or> f_type f = FT_RETIRE_CONNECTION_ID"
    and "list_all item_ok (frame_items f)"
  shows "reads_back f rest"
  using assms by (elim disjE) (simp_all add: read_back_defs small_varint)

lemma read_streams:
  assumes "f_type f = FT_MAX_STREAMS_BIDI \<or> f_type f = FT_MAX_STREAMS_UNI \<or> f_type f = FT_STREAMS_BLOCKED_BIDI
      \<or> f_type f = FT_STREAMS_BLOCKED_UNI"
    and "list_all item_ok (frame_items f)"
  shows "reads_back f rest"
  using assms by (elim disjE) (simp_all add: read_back_defs small_varint frame_read_streams_def not_le)

lemma read_crypto:
  assumes "f_type f = FT_CRYPTO" and "list_all item_ok (frame_items f)" and "frame_sized f"
  shows "reads_back f rest"
  using assms by (simp add: read_back_defs small_varint frame_read_crypto_def rd_view_len frame_sized_def not_le)

lemma read_token:
  assumes "f_type f = FT_NEW_TOKEN" and "list_all item_ok (frame_items f)" and "frame_sized f"
  shows "reads_back f rest"
proof -
  have "(of_nat (length (f_data f)) :: u64) = 0 \<longleftrightarrow> f_data f = []"
  proof -
    have "unat (of_nat (length (f_data f)) :: u64) = length (f_data f)" using assms(3) by (simp add: frame_sized_def unat_of_length)
    then show ?thesis by (metis length_0_conv unat_eq_zero)
  qed
  then show ?thesis using assms by (simp add: read_back_defs small_varint frame_read_new_token_def rd_view_len frame_sized_def)
qed

lemma read_close:
  assumes "f_type f = FT_CONNECTION_CLOSE \<or> f_type f = FT_CONNECTION_CLOSE_APP" and "list_all item_ok (frame_items f)" and "frame_sized f"
  shows "reads_back f rest"
  using assms by (elim disjE) (simp_all add: read_back_defs small_varint frame_read_close_def rd_view_len frame_sized_def no_frame_def)

lemma read_path:
  assumes "f_type f = FT_PATH_CHALLENGE \<or> f_type f = FT_PATH_RESPONSE" and "list_all item_ok (frame_items f)"
  shows "reads_back f rest"
  using assms by (elim disjE) (auto simp: read_back_defs small_varint rd_view_item split: if_splits)

lemma read_stream:
  assumes "f_type f = FT_STREAM" and "list_all item_ok (frame_items f)" and "frame_sized f"
  shows "reads_back f rest"
  using assms
  by (cases "f_offset f = 0"; cases "f_fin f")
    (simp_all add: read_back_defs small_varint frame_read_stream_def rd_view_len frame_sized_def no_frame_def not_le)

lemma cid_range: "(ucast l :: u64) < 1 \<longleftrightarrow> unat l = 0" "(ucast l :: u64) > 20 \<longleftrightarrow> \<not> unat l \<le> 20" for l :: byte
proof -
  show "(ucast l :: u64) < 1 \<longleftrightarrow> unat l = 0" "(ucast l :: u64) > 20 \<longleftrightarrow> \<not> unat l \<le> 20"
    using unat_of_byte [of l] by (simp_all add: word_less_nat_alt not_le)
qed

lemma cid_empty: "(ucast l :: u64) = 0 \<longleftrightarrow> unat l = 0" for l :: byte
  using cid_range(1) [of l] by (simp add: unat_eq_zero)

lemma read_new_cid:
  assumes t: "f_type f = FT_NEW_CONNECTION_ID" and ok: "list_all item_ok (frame_items f)" and s: "frame_sized f"
  shows "reads_back f rest"
proof -
  let ?l = "cid_len (f_cid f)" and ?c = "take (unat (cid_len (f_cid f))) (cid_id (f_cid f))"
  have v: "f_id f \<le> quic_varint_max" "f_value f \<le> quic_varint_max" using t ok by (simp_all add: frame_items_def)
  have start: "proven_quic_frame_read (rdr (items_bytes (frame_items f) @ rest)) =
      frame_read_new_cid (no_frame\<lparr>f_type := FT_NEW_CONNECTION_ID\<rparr>)
        (rdr (proven_quic_varint_put (f_id f) @ proven_quic_varint_put (f_value f) @ be_bytes 1 (ucast ?l) @ ?c @ f_reset_token f @ rest))"
    using t by (simp add: frame_items_def proven_quic_frame_read_def Let_def small_varint del: One_nat_def)
  have u: "unat (ucast ?l :: u64) = unat ?l" by (rule unat_of_byte)
  show ?thesis
  proof (cases "frame_valid f")
    case True
    then have l: "0 < unat ?l" "unat ?l \<le> 20" "f_value f \<le> f_id f" using t by (simp_all add: frame_valid_def)
    have "unat (ucast ?l :: u64) = length ?c" using l s u by (simp add: frame_sized_def)
    then have c: "rd_view (rdr (?c @ f_reset_token f @ rest)) (ucast ?l) = (?c, rdr (f_reset_token f @ rest))" by (rule rd_view_item)
    have "unat (16 :: u64) = length (f_reset_token f)" using s by (simp add: frame_sized_def)
    then have k: "rd_view (rdr (f_reset_token f @ rest)) 16 = (f_reset_token f, rdr rest)" by (rule rd_view_item)
    have "(ucast (ucast ?l :: u64) :: byte) = ?l" by (rule bit_word_eqI) (auto simp: bit_simps dest: bit_imp_le_length)
    then show ?thesis unfolding reads_back_def start frame_read_new_cid_def Let_def
      using v l c k t True u
      by (simp add: cid_range cid_empty rd_uint_byte frame_canonical_def cid_canonical_def no_frame_def no_cid_def frame_done_def not_less del: One_nat_def)
  next
    case False
    then have "unat ?l = 0 \<or> \<not> unat ?l \<le> 20 \<or> f_value f > f_id f" using t by (auto simp: frame_valid_def not_le)
    then show ?thesis unfolding reads_back_def start frame_read_new_cid_def Let_def
      using v False by (auto simp: cid_range cid_empty rd_uint_byte simp del: One_nat_def)
  qed
qed

lemma read_back:
  assumes ok: "list_all item_ok (frame_items f)" and s: "frame_sized f"
  shows "reads_back f rest"
proof -
  have "f_type f = FT_PADDING \<or> f_type f = FT_PING \<or> f_type f = FT_HANDSHAKE_DONE \<or>
      f_type f = FT_RESET_STREAM \<or> f_type f = FT_STOP_SENDING \<or> f_type f = FT_MAX_STREAM_DATA \<or> f_type f = FT_STREAM_DATA_BLOCKED
      \<or> f_type f = FT_MAX_DATA \<or> f_type f = FT_DATA_BLOCKED \<or> f_type f = FT_RETIRE_CONNECTION_ID \<or>
      f_type f = FT_MAX_STREAMS_BIDI \<or> f_type f = FT_MAX_STREAMS_UNI \<or> f_type f = FT_STREAMS_BLOCKED_BIDI
      \<or> f_type f = FT_STREAMS_BLOCKED_UNI \<or> f_type f = FT_CRYPTO \<or> f_type f = FT_NEW_TOKEN \<or> f_type f = FT_CONNECTION_CLOSE
      \<or> f_type f = FT_CONNECTION_CLOSE_APP \<or> f_type f = FT_PATH_CHALLENGE \<or> f_type f = FT_PATH_RESPONSE \<or> f_type f = FT_STREAM
      \<or> f_type f = FT_NEW_CONNECTION_ID"
  proof (rule ccontr)
    assume "\<not> ?thesis"
    then have "frame_items f = [X]" by (simp add: frame_items_def Let_def)
    then show False using ok by simp
  qed
  then show ?thesis
    using read_simple [of f rest] read_values [OF _ ok, of rest] read_streams [OF _ ok, of rest] read_crypto [OF _ ok s, of rest]
      read_token [OF _ ok s, of rest] read_close [OF _ ok s, of rest] read_path [OF _ ok, of rest] read_stream [OF _ ok s, of rest]
      read_new_cid [OF _ ok s, of rest] by blast
qed

end
