(* ===== verification/Quic_Ack.thy ===== *)
theory Quic_Ack
  imports Quic_Read
begin

unbundle bit_operations_syntax

text \<open>
  The ranges of an ACK frame: the check made when the frame is read makes every later step of the walk
  succeed, and the ranges written are the ranges walked.
\<close>

section \<open>The walk\<close>

text \<open>At most \<open>n\<close> calls of \<^verbatim>\<open>proven_quic_ack_next\<close>, up to the first that returns \<^verbatim>\<open>false\<close>.\<close>

fun ack_walk :: "nat \<Rightarrow> proven_quic_ack_iter_t \<Rightarrow> (u64 \<times> u64) list" where
  "ack_walk 0 it = []"
| "ack_walk (Suc n) it = (case proven_quic_ack_next it of (None, it') \<Rightarrow> [] | (Some x, it') \<Rightarrow> x # ack_walk n it')"

text \<open>Ranges below \<open>lo\<close>, from the highest, with at least one number between two of them.\<close>

fun descending :: "u64 \<Rightarrow> (u64 \<times> u64) list \<Rightarrow> bool" where
  "descending lo [] = True"
| "descending lo ((l, h) # rs) = (l \<le> h \<and> unat h + 2 \<le> unat lo \<and> descending l rs)"

definition ack_state :: "byte list \<Rightarrow> u64 \<Rightarrow> u64 \<Rightarrow> nat \<Rightarrow> proven_quic_ack_iter_t" where
  "ack_state bs hi lo k = \<lparr>it_r = rdr bs, it_hi = hi, it_lo = lo, it_left = of_nat k, it_first = False\<rparr>"

lemma walk_start: "f_range_count f = of_nat k \<Longrightarrow> ack_walk (Suc n) (proven_quic_ack_iter f) =
    (f_largest f - f_first_range f, f_largest f) # ack_walk n (ack_state (f_ranges f) (f_largest f) (f_largest f - f_first_range f) k)"
  by (simp add: proven_quic_ack_iter_def proven_quic_ack_next_def ack_state_def)

lemma walk_end: "ack_walk n (ack_state bs hi lo 0) = []"
  by (cases n) (simp_all add: proven_quic_ack_next_def ack_state_def)

lemma of_nat_Suc_nonzero: "Suc k < 2 ^ 64 \<Longrightarrow> (of_nat (Suc k) :: u64) \<noteq> 0"
proof -
  assume "Suc k < 2 ^ 64"
  then have "unat (of_nat (Suc k) :: u64) = Suc k" by (simp add: unsigned_of_nat take_bit_nat_eq_self del: of_nat_Suc)
  then show ?thesis by (metis nat.distinct(1) unat_0)
qed

lemma walk_step:
  assumes k: "Suc k < 2 ^ 64"
    and g: "proven_quic_rd_varint (rdr bs) = (gap, rdr bs1)" and l: "proven_quic_rd_varint (rdr bs1) = (len, rdr bs2)"
  shows "ack_walk (Suc n) (ack_state bs hi lo (Suc k)) =
    (lo - gap - 2 - len, lo - gap - 2) # ack_walk n (ack_state bs2 (lo - gap - 2) (lo - gap - 2 - len) k)"
proof -
  have "proven_quic_ack_next (ack_state bs hi lo (Suc k)) =
      (Some (lo - gap - 2 - len, lo - gap - 2), ack_state bs2 (lo - gap - 2) (lo - gap - 2 - len) k)"
    using of_nat_Suc_nonzero [OF k] g l by (simp add: proven_quic_ack_next_def ack_state_def Let_def)
  then show ?thesis by simp
qed

section \<open>Reading is local\<close>

lemma rd_varint_local:
  assumes "proven_quic_rd_varint r = (v, r')" and "rd_ok r'"
  shows "rd_ok r \<and> (\<exists>c. c \<noteq> [] \<and> rd_p r = c @ rd_p r' \<and> (\<forall>q. proven_quic_rd_varint (rdr (c @ q)) = (v, rdr q)))"
proof -
  define b where "b = rd_p r ! 0"
  define n where "n = (2 :: nat) ^ unat (drop_bit 6 b)"
  have n: "n \<noteq> 0" by (simp add: n_def)
  have ok: "rd_ok r" "rd_n r \<noteq> 0" "n \<le> rd_n r"
    using assms unfolding proven_quic_rd_varint_def Let_def n_def [symmetric] b_def [symmetric] by (auto split: if_splits)
  then have v: "v = be_value (ucast (b AND 0x3f)) (take (n - 1) (drop 1 (rd_p r)))" and r': "r' = r\<lparr>rd_p := drop n (rd_p r)\<rparr>"
    using assms unfolding proven_quic_rd_varint_def Let_def n_def [symmetric] b_def [symmetric] by auto
  let ?c = "take n (rd_p r)"
  have lc: "length ?c = n" using ok by simp
  have "?c \<noteq> []" using n ok(2) by simp
  moreover have "rd_p r = ?c @ rd_p r'" using r' by simp
  moreover have "proven_quic_rd_varint (rdr (?c @ q)) = (v, rdr q)" for q
  proof -
    have "(?c @ q) ! 0 = b" using n ok(2) by (simp add: nth_append b_def)
    moreover have "take (n - 1) (drop 1 (?c @ q)) = take (n - 1) (drop 1 (rd_p r))"
      using lc n by (simp add: take_drop)
    moreover have "drop n (?c @ q) = q" using lc by simp
    moreover have "\<not> length (?c @ q) < n" "length (?c @ q) \<noteq> 0" using lc n by simp_all
    ultimately show ?thesis
      unfolding proven_quic_rd_varint_def Let_def v n_def [symmetric] by (simp add: n_def [symmetric])
  qed
  ultimately show ?thesis using ok(1) by blast
qed

lemma ack_check_walk:
  assumes "ack_check k lo r = Some r'" and "rd_ok r" and "k < 2 ^ 64"
  shows "rd_ok r' \<and> (\<exists>c rs. rd_p r = c @ rd_p r' \<and> length rs = k \<and> descending lo rs \<and> (\<forall>n hi. k \<le> n \<longrightarrow> ack_walk n (ack_state c hi lo k) = rs))"
  using assms
proof (induction k arbitrary: lo r)
  case 0
  then show ?case by (auto simp: walk_end)
next
  case (Suc k)
  obtain gap r1 where g: "proven_quic_rd_varint r = (gap, r1)" by fastforce
  obtain len r2 where l: "proven_quic_rd_varint r1 = (len, r2)" by fastforce
  let ?hi = "lo - gap - 2"
  have c: "rd_ok r2" "\<not> lo < 2" "\<not> gap > lo - 2" "\<not> len > ?hi" "ack_check k (?hi - len) r2 = Some r'"
    using Suc.prems(1) g l by (auto simp: Let_def split: if_splits)
  obtain c2 where c2: "rd_ok r1" "rd_p r1 = c2 @ rd_p r2" "\<And>q. proven_quic_rd_varint (rdr (c2 @ q)) = (len, rdr q)"
    using rd_varint_local [OF l c(1)] by blast
  obtain c1 where c1: "rd_p r = c1 @ rd_p r1" "\<And>q. proven_quic_rd_varint (rdr (c1 @ q)) = (gap, rdr q)"
    using rd_varint_local [OF g c2(1)] by blast
  obtain d rs where d: "rd_p r2 = d @ rd_p r'" "length rs = k" "descending (?hi - len) rs"
      "\<And>n hi. k \<le> n \<Longrightarrow> ack_walk n (ack_state d hi (?hi - len) k) = rs" and ok: "rd_ok r'"
    using Suc.IH [OF c(5) c(1)] Suc.prems(3) by auto
  have u2: "unat (lo - 2) = unat lo - 2" using c(2) by (simp add: unat_sub word_le_nat_alt not_less)
  have "unat ?hi = unat (lo - 2 - gap)" by (simp add: algebra_simps)
  also have "\<dots> = unat lo - 2 - unat gap" using c(3) u2 by (simp add: unat_sub not_less)
  finally have uh: "unat ?hi = unat lo - 2 - unat gap" .
  have lo2: "2 \<le> unat lo" using c(2) by (simp add: word_less_nat_alt not_less)
  have desc: "descending lo ((?hi - len, ?hi) # rs)"
  proof -
    have "?hi - len \<le> ?hi" using c(4) by (simp add: word_sub_le not_less)
    moreover have "unat ?hi + 2 \<le> unat lo" using uh lo2 by linarith
    ultimately show ?thesis using d(3) by simp
  qed
  have walk: "ack_walk n (ack_state (c1 @ c2 @ d) hi lo (Suc k)) = (?hi - len, ?hi) # rs" if "Suc k \<le> n" for n hi
  proof -
    have "\<exists>m. n = Suc m \<and> k \<le> m" using that by (cases n) auto
    then obtain m where m: "n = Suc m" "k \<le> m" by blast
    show ?thesis using walk_step [OF Suc.prems(3) c1(2) c2(3), of m d hi lo] d(4) [OF m(2)] m(1) by simp
  qed
  have "rd_p r = (c1 @ c2 @ d) @ rd_p r'" using c1(1) c2(2) d(1) by simp
  then show ?case using ok desc walk d(2) by (metis length_Cons)
qed

section \<open>Writing ranges\<close>

definition enc :: "u64 list \<Rightarrow> byte list" where
  "enc vs = items_bytes (map V vs)"

lemma enc_simps [simp]: "enc [] = []" "enc (v # vs) = proven_quic_varint_put v @ enc vs" "enc (us @ vs) = enc us @ enc vs"
  by (simp_all add: enc_def)

lemma wr_varints_items: "wr_varints w vs = foldl put_item w (map V vs)"
  by (induction vs arbitrary: w) (simp_all add: wr_varints_def)

lemma wr_varints_written:
  assumes "wr_good w" and "wr_ok (wr_varints w vs)"
  shows "wr_good (wr_varints w vs) \<and> wr_cap (wr_varints w vs) = wr_cap w \<and> wr_ok w \<and> (\<forall>v\<in>set vs. v \<le> quic_varint_max) \<and>
    written (wr_varints w vs) = written w @ enc vs"
proof -
  have "list_all item_ok (map V vs)" using assms(2) put_items_bad [of "map V vs"] by (auto simp: wr_varints_items)
  then show ?thesis using put_items_appended [OF assms(1)] assms(2)
    unfolding appended_def enc_def wr_varints_items by (simp add: list_all_iff)
qed

lemma ack_pairs_append_take: "ack_fit need room prev rs k pairs = (k', pairs') \<Longrightarrow> k \<le> k' \<and> k' \<le> k + length rs"
proof (induction need room prev rs k pairs rule: ack_fit.induct)
  case (2 need room prev lo hi rs k pairs)
  show ?case
  proof (cases "need + proven_quic_varint_len (of_nat (k + 1)) + pairs +
      (proven_quic_varint_len (prev - hi - 2) + proven_quic_varint_len (hi - lo)) > room")
    case True
    then show ?thesis using "2.prems" by (simp add: Let_def)
  next
    case False
    then have "ack_fit need room lo rs (k + 1) (pairs + (proven_quic_varint_len (prev - hi - 2) + proven_quic_varint_len (hi - lo))) = (k', pairs')"
      using "2.prems" by (simp add: Let_def)
    then show ?thesis using "2.IH" False by (fastforce simp: Let_def)
  qed
qed simp

lemma descending_take: "descending lo rs \<Longrightarrow> descending lo (take k rs)"
  by (induction lo rs arbitrary: k rule: descending.induct) (simp_all add: take_Cons split: nat.splits)

text \<open>One range further: the gap and the length that are written give back its ends.\<close>

lemma range_step:
  fixes lo l h :: u64
  assumes "l \<le> h" and "unat h + 2 \<le> unat lo"
  shows "\<not> lo < 2" "\<not> lo - h - 2 > lo - 2" "lo - (lo - h - 2) - 2 = h" "\<not> h - l > h" "h - (h - l) = l"
proof -
  show "\<not> lo < 2" using assms(2) by (simp add: word_less_nat_alt)
  have hl: "h \<le> lo - 2"
  proof -
    have "unat (lo - 2) = unat lo - 2" using assms(2) by (simp add: unat_sub word_le_nat_alt)
    then show ?thesis using assms(2) by (simp add: word_le_nat_alt)
  qed
  have "lo - 2 - h \<le> lo - 2" using hl by (rule word_sub_le)
  moreover have "lo - h - 2 = lo - 2 - h" by simp
  ultimately show "\<not> lo - h - 2 > lo - 2" by (metis not_less)
  show "lo - (lo - h - 2) - 2 = h" "h - (h - l) = l" by simp_all
  show "\<not> h - l > h" using assms(1) by (simp add: word_sub_le not_less)
qed

lemma ack_check_pairs:
  assumes "descending lo rs" and "\<forall>v\<in>set (ack_pairs lo rs). v \<le> quic_varint_max"
  shows "ack_check (length rs) lo (rdr (enc (ack_pairs lo rs) @ rest)) = Some (rdr rest)"
  using assms
proof (induction lo rs rule: descending.induct)
  case (2 lo l h rs)
  then have r: "l \<le> h" "unat h + 2 \<le> unat lo" by simp_all
  show ?case using 2 range_step [OF r] by (simp add: Let_def)
qed simp

lemma walk_pairs:
  assumes "descending lo rs" and "\<forall>v\<in>set (ack_pairs lo rs). v \<le> quic_varint_max" and "length rs < 2 ^ 64" and "length rs \<le> n"
  shows "ack_walk n (ack_state (enc (ack_pairs lo rs)) hi lo (length rs)) = rs"
  using assms
proof (induction lo rs arbitrary: n hi rule: descending.induct)
  case (1 lo)
  then show ?case by (simp add: walk_end)
next
  case (2 lo l h rs)
  then have r: "l \<le> h" "unat h + 2 \<le> unat lo" by simp_all
  note s = range_step [OF r]
  obtain m where m: "n = Suc m" "length rs \<le> m" using "2.prems"(4) by (cases n) auto
  have "proven_quic_rd_varint (rdr (enc (ack_pairs lo ((l, h) # rs)))) = (lo - h - 2, rdr (proven_quic_varint_put (h - l) @ enc (ack_pairs l rs)))"
    "proven_quic_rd_varint (rdr (proven_quic_varint_put (h - l) @ enc (ack_pairs l rs))) = (h - l, rdr (enc (ack_pairs l rs)))"
    using "2.prems"(2) by simp_all
  then have step: "ack_walk n (ack_state (enc (ack_pairs lo ((l, h) # rs))) hi lo (Suc (length rs))) =
      (l, h) # ack_walk m (ack_state (enc (ack_pairs l rs)) h l (length rs))"
    using walk_step [of "length rs" "enc (ack_pairs lo ((l, h) # rs))" "lo - h - 2" _ "h - l" "enc (ack_pairs l rs)" m hi lo]
      "2.prems"(3) s m(1) by (simp del: enc_simps ack_pairs.simps ack_walk.simps)
  have "ack_walk m (ack_state (enc (ack_pairs l rs)) h l (length rs)) = rs"
    using "2.prems" m(2) by (intro "2.IH") simp_all
  then show ?case using step by simp
qed

section \<open>The whole frame\<close>

definition ecn_values :: "u64 list option \<Rightarrow> u64 list" where
  "ecn_values ecn = (case ecn of None \<Rightarrow> [] | Some e \<Rightarrow> [e ! 0, e ! 1, e ! 2])"

definition ack_frame :: "u64 \<Rightarrow> u64 \<Rightarrow> (u64 \<times> u64) list \<Rightarrow> u64 \<Rightarrow> u64 list option \<Rightarrow> proven_quic_frame_t" where
  "ack_frame lo hi rs ack_delay ecn = no_frame\<lparr>f_type := (if ecn = None then FT_ACK else FT_ACK_ECN), f_largest := hi, f_ack_delay := ack_delay,
    f_first_range := hi - lo, f_range_count := of_nat (length rs), f_ranges := enc (ack_pairs lo rs),
    f_ecn := (case ecn of None \<Rightarrow> [0, 0, 0] | Some e \<Rightarrow> [e ! 0, e ! 1, e ! 2])\<rparr>"

definition ack_values :: "u64 \<Rightarrow> u64 \<Rightarrow> (u64 \<times> u64) list \<Rightarrow> u64 \<Rightarrow> u64 list option \<Rightarrow> u64 list" where
  "ack_values lo hi rs ack_delay ecn = [if ecn \<noteq> None then FT_ACK_ECN else FT_ACK, hi, ack_delay, of_nat (length rs), hi - lo] @
    ack_pairs lo rs @ ecn_values ecn"

lemma wr_varints_append: "wr_varints w (us @ vs) = wr_varints (wr_varints w us) vs"
  by (simp add: wr_varints_def)

lemma ack_put_writes:
  assumes g: "wr_good w" and p: "proven_quic_ack_put_ecn w ((lo, hi) # rs) ack_delay ecn = (m, w')" and m: "0 < m"
  shows "\<exists>k. m = Suc k \<and> k \<le> length rs \<and> (\<forall>v\<in>set (ack_values lo hi (take k rs) ack_delay ecn). v \<le> quic_varint_max) \<and>
    written w' = written w @ enc (ack_values lo hi (take k rs) ack_delay ecn)"
proof -
  have ok: "wr_ok w" using p m by (cases "wr_ok w") (simp_all add: proven_quic_ack_put_ecn_def)
  define need where "need = 1 + proven_quic_varint_len hi + proven_quic_varint_len ack_delay + proven_quic_varint_len (hi - lo)
      + (case ecn of None \<Rightarrow> 0 | Some e \<Rightarrow> proven_quic_varint_len (e ! 0) + proven_quic_varint_len (e ! 1) + proven_quic_varint_len (e ! 2))"
  obtain k pairs where fit: "ack_fit need (wr_cap w - wr_n w) lo rs 0 0 = (k, pairs)" by fastforce
  have k: "k \<le> length rs" using ack_pairs_append_take [OF fit] by simp
  have vals: "ack_values lo hi (take k rs) ack_delay ecn =
      [if ecn \<noteq> None then FT_ACK_ECN else FT_ACK, hi, ack_delay, of_nat k, hi - lo] @ ack_pairs lo (take k rs) @ ecn_values ecn"
    using k by (simp add: ack_values_def)
  let ?w = "wr_varints w (ack_values lo hi (take k rs) ack_delay ecn)"
  have w: "?w = (case ecn of None \<Rightarrow> wr_varints (wr_varints w [if ecn \<noteq> None then FT_ACK_ECN else FT_ACK, hi, ack_delay, of_nat k, hi - lo]) (ack_pairs lo (take k rs))
      | Some e \<Rightarrow> wr_varints (wr_varints (wr_varints w [if ecn \<noteq> None then FT_ACK_ECN else FT_ACK, hi, ack_delay, of_nat k, hi - lo]) (ack_pairs lo (take k rs)))
          [e ! 0, e ! 1, e ! 2])"
    unfolding vals wr_varints_append ecn_values_def by (cases ecn) (simp_all add: wr_varints_def)
  have "(m, w') = (if need + proven_quic_varint_len (of_nat k) + pairs > wr_cap w - wr_n w then (0, w) else (if wr_ok ?w then k + 1 else 0, ?w))"
    using p fit [unfolded need_def] ok unfolding w proven_quic_ack_put_ecn_def Let_def need_def
    by (cases ecn) (simp_all cong: if_cong)
  then have "m = Suc k" "w' = ?w" "wr_ok ?w" using m by (auto split: if_splits)
  then show ?thesis using wr_varints_written [OF g] k by blast
qed

lemma ack_frame_read:
  assumes d: "lo \<le> hi" "descending lo rs" and n: "length rs < 2 ^ 64"
    and v: "\<forall>v\<in>set (ack_values lo hi rs ack_delay ecn). v \<le> quic_varint_max"
  shows "proven_quic_frame_read (rdr (enc (ack_values lo hi rs ack_delay ecn) @ rest)) = Inr (ack_frame lo hi rs ack_delay ecn, rdr rest)"
proof -
  let ?t = "if ecn \<noteq> None then FT_ACK_ECN else FT_ACK"
  have u: "unat (of_nat (length rs) :: u64) = length rs" using n by (simp add: unsigned_of_nat take_bit_nat_eq_self)
  have le: "hi - lo \<le> hi" using d(1) by (rule word_sub_le)
  have check: "ack_check (length rs) lo (rdr (enc (ack_pairs lo rs) @ q)) = Some (rdr q)" for q
    using ack_check_pairs [OF d(2)] v by (simp add: ack_values_def)
  have start: "proven_quic_frame_read (rdr (enc (ack_values lo hi rs ack_delay ecn) @ rest)) =
      frame_read_ack ?t (no_frame\<lparr>f_type := ?t\<rparr>) (rdr (enc [hi, ack_delay, of_nat (length rs), hi - lo] @
        enc (ack_pairs lo rs) @ enc (ecn_values ecn) @ rest))"
    by (simp add: proven_quic_frame_read_def Let_def ack_values_def small_varint)
  show ?thesis unfolding start frame_read_ack_def Let_def
    using v le u check
    by (cases ecn) (simp_all add: ack_values_def ecn_values_def not_less ack_frame_def frame_done_def no_frame_def)
qed

lemma ack_frame_walk:
  assumes d: "lo \<le> hi" "descending lo rs" and n: "length rs < 2 ^ 64"
    and v: "\<forall>v\<in>set (ack_values lo hi rs ack_delay ecn). v \<le> quic_varint_max" and m: "length rs < k"
  shows "ack_walk k (proven_quic_ack_iter (ack_frame lo hi rs ack_delay ecn)) = (lo, hi) # rs"
proof -
  obtain j where j: "k = Suc j" "length rs \<le> j" using m by (cases k) auto
  have "ack_walk j (ack_state (enc (ack_pairs lo rs)) hi lo (length rs)) = rs"
    using v n j(2) by (intro walk_pairs [OF d(2)]) (simp_all add: ack_values_def)
  then show ?thesis using walk_start [of "ack_frame lo hi rs ack_delay ecn" "length rs" j]
    by (simp add: j(1) ack_frame_def del: ack_walk.simps)
qed

end
