(* ===== verification/Quic_Limits.thy ===== *)
theory Quic_Limits
  imports Quic_Ack "HOL-Library.Sublist"
begin

unbundle bit_operations_syntax

text \<open>
  What a frame that was read satisfies, type by type, and how far the reader has moved.
\<close>

section \<open>The reader only moves forward\<close>

definition adv :: "proven_quic_rd \<Rightarrow> proven_quic_rd \<Rightarrow> bool" where
  "adv r r' \<longleftrightarrow> (rd_ok r' \<longrightarrow> rd_ok r \<and> suffix (rd_p r') (rd_p r))"

lemma adv_refl [simp]: "adv r r"
  by (simp add: adv_def)

lemma adv_trans: "adv r s \<Longrightarrow> adv s t \<Longrightarrow> adv r t"
  unfolding adv_def using suffix_order.trans by blast

lemma adv_varint: "proven_quic_rd_varint r = (v, r') \<Longrightarrow> adv r r'"
  using rd_varint_local [of r v r'] by (auto simp: adv_def suffix_def)

lemma adv_uint: "proven_quic_rd_uint r n = (v, r') \<Longrightarrow> adv r r'"
  by (auto simp: proven_quic_rd_uint_def adv_def suffix_drop split: if_splits)

lemma adv_view: "rd_view r n = (d, r') \<Longrightarrow> adv r r' \<and> (rd_ok r' \<longrightarrow> length d = unat n)"
  by (auto simp: rd_view_def proven_quic_rd_take_def adv_def suffix_drop split: if_splits)

lemma adv_ack_check: "ack_check k lo r = Some r' \<Longrightarrow> adv r r'"
proof (induction k arbitrary: lo r)
  case (Suc k)
  obtain gap r1 where g: "proven_quic_rd_varint r = (gap, r1)" by fastforce
  obtain len r2 where l: "proven_quic_rd_varint r1 = (len, r2)" by fastforce
  have "\<exists>lo. ack_check k lo r2 = Some r'" using Suc.prems g l by (auto simp: Let_def split: if_splits)
  then have "adv r2 r'" using Suc.IH by blast
  then show ?case using adv_varint [OF g] adv_varint [OF l] adv_trans by blast
qed simp

section \<open>Branch by branch\<close>

text \<open>The frame read from \<open>r\<close> onto the empty frame \<open>f\<close>, with its limit \<open>P\<close>.\<close>

definition yields :: "frame_result \<Rightarrow> proven_quic_frame_t \<Rightarrow> proven_quic_rd \<Rightarrow> (proven_quic_frame_t \<Rightarrow> bool) \<Rightarrow> bool" where
  "yields res f r P \<longleftrightarrow> (\<forall>g r'. res = Inr (g, r') \<longrightarrow> f_type g = f_type f \<and> rd_ok r' \<and> adv r r' \<and> P g)"

lemma yields_done: "adv r r' \<Longrightarrow> f_type g = f_type f \<Longrightarrow> (rd_ok r' \<Longrightarrow> P g) \<Longrightarrow> yields (frame_done g r') f r P"
  by (auto simp: yields_def frame_done_def split: if_splits)

lemma yields_error [simp]: "yields (Inl e) f r P"
  by (simp add: yields_def)

lemma yields_crypto: "yields (frame_read_crypto f r) f r (\<lambda>g. of_nat (length (f_data g)) \<le> STREAM_LIMIT - f_offset g)"
proof -
  obtain a r1 where 1: "proven_quic_rd_varint r = (a, r1)" by fastforce
  obtain b r2 where 2: "proven_quic_rd_varint r1 = (b, r2)" by fastforce
  obtain d r3 where 3: "rd_view r2 b = (d, r3)" by fastforce
  have "adv r r3" using adv_varint [OF 1] adv_varint [OF 2] adv_view [OF 3] adv_trans by blast
  moreover have "rd_ok r3 \<Longrightarrow> of_nat (length d) = b" using adv_view [OF 3] by simp
  ultimately show ?thesis unfolding frame_read_crypto_def
    by (auto simp: 1 2 3 not_less intro!: yields_done)
qed

lemma yields_new_token: "yields (frame_read_new_token f r) f r (\<lambda>g. f_data g \<noteq> [])"
proof -
  obtain b r2 where 2: "proven_quic_rd_varint r = (b, r2)" by fastforce
  obtain d r3 where 3: "rd_view r2 b = (d, r3)" by fastforce
  have "adv r r3" using adv_varint [OF 2] adv_view [OF 3] adv_trans by blast
  moreover have "rd_ok r3 \<Longrightarrow> length d = unat b" using adv_view [OF 3] by simp
  moreover have "b \<noteq> 0 \<Longrightarrow> unat b \<noteq> 0" by (simp add: unat_eq_zero)
  ultimately show ?thesis unfolding frame_read_new_token_def
    by (auto simp: 2 3 intro!: yields_done)
qed

lemma yields_streams: "yields (frame_read_streams f r) f r (\<lambda>g. f_value g \<le> MAX_STREAM_COUNT)"
  unfolding frame_read_streams_def using adv_varint [of r]
  by (auto simp: not_less split: prod.split intro!: yields_done)

lemma yields_new_cid:
  assumes "length (cid_id (f_cid f)) = 20"
  shows "yields (frame_read_new_cid f r) f r (\<lambda>g. length (cid_id (f_cid g)) = 20 \<and> length (f_reset_token g) = 16 \<and>
    0 < unat (cid_len (f_cid g)) \<and> unat (cid_len (f_cid g)) \<le> 20 \<and> f_value g \<le> f_id g)"
proof -
  obtain a r1 where 1: "proven_quic_rd_varint r = (a, r1)" by fastforce
  obtain b r2 where 2: "proven_quic_rd_varint r1 = (b, r2)" by fastforce
  obtain l r3 where 3: "proven_quic_rd_uint r2 1 = (l, r3)" by fastforce
  obtain c r4 where 4: "rd_view r3 l = (c, r4)" by fastforce
  obtain t r5 where 5: "rd_view r4 16 = (t, r5)" by fastforce
  have a: "adv r r5"
    using adv_varint [OF 1] adv_varint [OF 2] adv_uint [OF 3] adv_view [OF 4] adv_view [OF 5] adv_trans by blast
  have ok: "rd_ok r5 \<Longrightarrow> rd_ok r4" using adv_view [OF 5] by (simp add: adv_def)
  have c: "rd_ok r5 \<Longrightarrow> length c = unat l" "rd_ok r5 \<Longrightarrow> length t = 16"
    using adv_view [OF 4] adv_view [OF 5] ok by simp_all
  have u: "unat (ucast l :: byte) = unat l" if "\<not> l > 20"
  proof -
    have "unat l \<le> 20" using that by (simp add: not_less word_le_nat_alt unat_gt_0)
    then show ?thesis by (simp add: unsigned_ucast_eq take_bit_nat_eq_self)
  qed
  have n: "0 < unat l \<and> unat l \<le> 20" if "\<not> l < 1" "\<not> l > 20"
    using that by (simp add: not_less word_le_nat_alt unat_gt_0)
  show ?thesis unfolding frame_read_new_cid_def
    using a c u n assms by (auto simp: 1 2 3 4 5 not_less simp del: One_nat_def intro!: yields_done)
qed

lemma yields_close: "yields (frame_read_close t f r) f r (\<lambda>g. True)"
proof -
  obtain a r1 where 1: "proven_quic_rd_varint r = (a, r1)" by fastforce
  obtain b r2 where 2: "(if t = FT_CONNECTION_CLOSE then proven_quic_rd_varint r1 else (f_frame_type f, r1)) = (b, r2)" by fastforce
  obtain l r3 where 3: "proven_quic_rd_varint r2 = (l, r3)" by fastforce
  obtain d r4 where 4: "rd_view r3 l = (d, r4)" by fastforce
  have "adv r1 r2" using 2 adv_varint [of r1 b r2] by (auto split: if_splits)
  then have "adv r r4" using adv_varint [OF 1] adv_varint [OF 3] adv_view [OF 4] adv_trans by blast
  then show ?thesis unfolding frame_read_close_def Let_def 1 prod.case 2 3 4 by (auto intro!: yields_done)
qed

lemma yields_stream: "yields (frame_read_stream t f r) f r (\<lambda>g. of_nat (length (f_data g)) \<le> STREAM_LIMIT - f_offset g)"
proof -
  obtain a r1 where 1: "proven_quic_rd_varint r = (a, r1)" by fastforce
  obtain b r2 where 2: "(if t AND 0x04 \<noteq> 0 then proven_quic_rd_varint r1 else (f_offset f, r1)) = (b, r2)" by fastforce
  obtain l r3 where 3: "(if t AND 0x02 \<noteq> 0 then proven_quic_rd_varint r2 else (of_nat (rd_n r2), r2)) = (l, r3)" by fastforce
  obtain d r4 where 4: "rd_view r3 l = (d, r4)" by fastforce
  have "adv r1 r2" using 2 adv_varint [of r1 b r2] by (auto split: if_splits)
  moreover have "adv r2 r3" using 3 adv_varint [of r2 l r3] by (auto split: if_splits)
  ultimately have "adv r r4" using adv_varint [OF 1] adv_view [OF 4] adv_trans by blast
  moreover have "rd_ok r4 \<Longrightarrow> of_nat (length d) = l" using adv_view [OF 4] by simp
  ultimately show ?thesis unfolding frame_read_stream_def Let_def 1 prod.case 2 3 4
    by (auto simp: not_less intro!: yields_done)
qed

text \<open>An ACK frame: the walk over its ranges.\<close>

definition ack_walks :: "proven_quic_frame_t \<Rightarrow> bool" where
  "ack_walks f \<longleftrightarrow> f_first_range f \<le> f_largest f \<and>
    (\<exists>rs. length rs = unat (f_range_count f) \<and> descending (f_largest f - f_first_range f) rs \<and>
      (\<forall>n. unat (f_range_count f) < n \<longrightarrow>
        ack_walk n (proven_quic_ack_iter f) = (f_largest f - f_first_range f, f_largest f) # rs))"

lemma yields_ack: "yields (frame_read_ack t f r) f r ack_walks"
proof -
  obtain largest r1 where 1: "proven_quic_rd_varint r = (largest, r1)" by fastforce
  obtain ack_delay r2 where 2: "proven_quic_rd_varint r1 = (ack_delay, r2)" by fastforce
  obtain range_count r3 where 3: "proven_quic_rd_varint r2 = (range_count, r3)" by fastforce
  obtain first_range r4 where 4: "proven_quic_rd_varint r3 = (first_range, r4)" by fastforce
  have r: "adv r r4" using adv_varint [OF 1] adv_varint [OF 2] adv_varint [OF 3] adv_varint [OF 4] adv_trans by blast
  let ?g = "f\<lparr>f_largest := largest, f_ack_delay := ack_delay, f_range_count := range_count, f_first_range := first_range\<rparr>"
  have both: "(rd_ok r5 \<and> adv r4 r5) \<and> ack_walks (?g\<lparr>f_ranges := take (rd_n r4 - rd_n r5) (rd_p r4), f_ecn := e\<rparr>)"
    if ok: "rd_ok r4" and le: "\<not> first_range > largest" and c: "ack_check (unat range_count) (largest - first_range) r4 = Some r5" for r5 e
  proof -
    let ?f = "?g\<lparr>f_ranges := take (rd_n r4 - rd_n r5) (rd_p r4), f_ecn := e\<rparr>"
    have "unat range_count < 2 ^ 64" using unsigned_less [of range_count] by simp
    from ack_check_walk [OF c ok this] obtain d rs where d: "rd_p r4 = d @ rd_p r5" "length rs = unat range_count"
      "descending (largest - first_range) rs"
      "\<And>n hi. unat range_count \<le> n \<Longrightarrow> ack_walk n (ack_state d hi (largest - first_range) (unat range_count)) = rs" and ok5: "rd_ok r5"
      by blast
    have t: "take (rd_n r4 - rd_n r5) (rd_p r4) = d" using d(1) by simp
    have w: "ack_walk n (proven_quic_ack_iter ?f) = (largest - first_range, largest) # rs" if "unat range_count < n" for n
      using that t walk_start [of ?f "unat range_count" "n - 1"] d(4) [of "n - 1" largest] by (cases n) simp_all
    have "ack_walks ?f" unfolding ack_walks_def using d(2,3) le w by (simp add: not_less) blast
    then show ?thesis using ok5 adv_ack_check [OF c] by blast
  qed
  show ?thesis
  proof (cases "\<not> rd_ok r4 \<or> first_range > largest")
    case True
    then show ?thesis unfolding frame_read_ack_def Let_def 1 2 3 4 prod.case by simp
  next
    case False
    then have ok: "rd_ok r4" "\<not> first_range > largest" by simp_all
    show ?thesis
    proof (cases "ack_check (unat range_count) (largest - first_range) r4")
      case None
      then show ?thesis unfolding frame_read_ack_def Let_def 1 2 3 4 prod.case by simp
    next
      case (Some r5)
      have w: "ack_walks (?g\<lparr>f_ranges := take (rd_n r4 - rd_n r5) (rd_p r4), f_ecn := e\<rparr>)" for e using both [OF ok Some] by blast
      have b: "rd_ok r5" "adv r4 r5" using both [OF ok Some] by blast+
      obtain e0 r6 where 6: "proven_quic_rd_varint r5 = (e0, r6)" by fastforce
      obtain e1 r7 where 7: "proven_quic_rd_varint r6 = (e1, r7)" by fastforce
      obtain e2 r8 where 8: "proven_quic_rd_varint r7 = (e2, r8)" by fastforce
      have "adv r r5" "adv r r8" using r b adv_varint [OF 6] adv_varint [OF 7] adv_varint [OF 8] adv_trans by blast+
      moreover have "ack_walks (?g\<lparr>f_ranges := take (rd_n r4 - rd_n r5) (rd_p r4)\<rparr>)" using w [of "f_ecn f"] by simp
      ultimately show ?thesis unfolding frame_read_ack_def Let_def 1 2 3 4 prod.case 6 7 8
        using ok Some w [of "[e0, e1, e2]"] by (auto simp: 6 7 8 intro!: yields_done)
    qed
  qed
qed

section \<open>Every frame\<close>

text \<open>A type that is known, the limits of the type, and for an ACK frame the walk.\<close>

definition frame_limits :: "proven_quic_frame_t \<Rightarrow> bool" where
  "frame_limits f \<longleftrightarrow> f_type f \<le> FT_HANDSHAKE_DONE \<and> frame_valid f \<and>
    (f_type f = FT_NEW_CONNECTION_ID \<longrightarrow> length (cid_id (f_cid f)) = 20 \<and> length (f_reset_token f) = 16) \<and>
    (f_type f = FT_ACK \<or> f_type f = FT_ACK_ECN \<longrightarrow> ack_walks f)"

lemma yields_mono: "yields res f r P \<Longrightarrow> (\<And>g. f_type g = f_type f \<Longrightarrow> P g \<Longrightarrow> Q g) \<Longrightarrow> yields res f r Q"
  unfolding yields_def by blast

lemma yields_if: "(c \<Longrightarrow> yields a f r P) \<Longrightarrow> (\<not> c \<Longrightarrow> yields b f r P) \<Longrightarrow> yields (if c then a else b) f r P"
  by simp

lemma frame_limits_other:
  assumes "f_type g \<in> {0x00, 0x01, 0x04, 0x05, 0x10, 0x11, 0x14, 0x15, 0x19, 0x1a, 0x1b, 0x1c, 0x1d, 0x1e}"
  shows "frame_limits g"
  using assms by (auto simp: frame_limits_def frame_valid_def word_le_nat_alt)

lemma yields_varints:
  "yields (let (v, r) = proven_quic_rd_varint r in frame_done (f\<lparr>f_value := v\<rparr>) r) f r (\<lambda>g. True)"
  "yields (let (v, r) = proven_quic_rd_varint r in frame_done (f\<lparr>f_id := v\<rparr>) r) f r (\<lambda>g. True)"
  "yields (let (d, r) = rd_view r 8 in frame_done (f\<lparr>f_data := d\<rparr>) r) f r (\<lambda>g. True)"
  using adv_varint [of r] adv_view [of r 8] by (auto simp: Let_def split: prod.split intro!: yields_done)

lemma yields_two:
  "yields (let (a, r) = proven_quic_rd_varint r; (b, r) = proven_quic_rd_varint r in frame_done (f\<lparr>f_id := a, f_value := b\<rparr>) r) f r (\<lambda>g. True)"
proof -
  obtain a r1 where 1: "proven_quic_rd_varint r = (a, r1)" by fastforce
  obtain b r2 where 2: "proven_quic_rd_varint r1 = (b, r2)" by fastforce
  have "adv r r2" using adv_varint [OF 1] adv_varint [OF 2] adv_trans by blast
  then show ?thesis by (auto simp: 1 2 intro!: yields_done)
qed

lemma yields_three:
  "yields (let (a, r) = proven_quic_rd_varint r; (b, r) = proven_quic_rd_varint r; (c, r) = proven_quic_rd_varint r in
     frame_done (f\<lparr>f_id := a, f_value := b, f_final_size := c\<rparr>) r) f r (\<lambda>g. True)"
proof -
  obtain a r1 where 1: "proven_quic_rd_varint r = (a, r1)" by fastforce
  obtain b r2 where 2: "proven_quic_rd_varint r1 = (b, r2)" by fastforce
  obtain c r3 where 3: "proven_quic_rd_varint r2 = (c, r3)" by fastforce
  have "adv r r3" using adv_varint [OF 1] adv_varint [OF 2] adv_varint [OF 3] adv_trans by blast
  then show ?thesis by (auto simp: 1 2 3 intro!: yields_done)
qed

lemma frame_read_yields:
  assumes "proven_quic_rd_varint r = (t, r1)"
  shows "\<exists>f. yields (proven_quic_frame_read r) f r1 frame_limits"
proof -
  let ?f = "no_frame\<lparr>f_type := (if t \<ge> 0x08 \<and> t \<le> 0x0f then FT_STREAM else t)\<rparr>"
  have "yields (proven_quic_frame_read r) ?f r1 frame_limits"
    unfolding proven_quic_frame_read_def Let_def assms prod.case
    apply (intro yields_if yields_error)
    subgoal by (rule yields_done) (auto simp: ping_short intro: frame_limits_other)
    subgoal by (rule yields_mono [OF yields_ack]) (auto simp: frame_limits_def frame_valid_def word_le_nat_alt)
    subgoal by (rule yields_mono [OF yields_three [unfolded Let_def]]) (simp add: frame_limits_other)
    subgoal by (rule yields_mono [OF yields_two [unfolded Let_def]]) (simp add: frame_limits_other)
    subgoal by (rule yields_mono [OF yields_crypto]) (simp add: frame_limits_def frame_valid_def word_le_nat_alt)
    subgoal by (rule yields_mono [OF yields_new_token]) (simp add: frame_limits_def frame_valid_def word_le_nat_alt)
    subgoal by (rule yields_mono [OF yields_varints(1) [unfolded Let_def]]) (auto intro: frame_limits_other)
    subgoal by (rule yields_mono [OF yields_two [unfolded Let_def]]) (auto intro: frame_limits_other)
    subgoal by (rule yields_mono [OF yields_streams]) (auto simp: frame_limits_def frame_valid_def word_le_nat_alt)
    subgoal by (rule yields_mono [OF yields_new_cid]) (simp_all add: frame_limits_def frame_valid_def word_le_nat_alt no_frame_def no_cid_def)
    subgoal by (rule yields_mono [OF yields_varints(2) [unfolded Let_def]]) (simp add: frame_limits_other)
    subgoal by (rule yields_mono [OF yields_varints(3) [unfolded Let_def]]) (auto intro: frame_limits_other)
    subgoal by (rule yields_mono [OF yields_close]) (auto intro: frame_limits_other)
    subgoal by (rule yields_mono [OF yields_stream]) (simp add: frame_limits_def frame_valid_def word_le_nat_alt)
    done
  then show ?thesis ..
qed

lemma frame_read_limits:
  assumes "proven_quic_frame_read r = Inr (f, r')"
  shows "rd_ok r \<and> rd_ok r' \<and> strict_suffix (rd_p r') (rd_p r) \<and> frame_limits f"
proof -
  obtain t r1 where 1: "proven_quic_rd_varint r = (t, r1)" by fastforce
  have ok: "rd_ok r1" using assms 1 by (auto simp: proven_quic_frame_read_def split: if_splits)
  obtain c where c: "c \<noteq> []" "rd_ok r" "rd_p r = c @ rd_p r1" using rd_varint_local [OF 1 ok] by blast
  have "rd_ok r' \<and> adv r1 r' \<and> frame_limits f" using frame_read_yields [OF 1] assms unfolding yields_def by blast
  then obtain d where "rd_p r1 = d @ rd_p r'" "rd_ok r'" "frame_limits f" by (auto simp: adv_def suffix_def)
  with c show ?thesis by (auto simp: strict_suffix_def suffix_def)
qed

end
