(* ===== verification/Quic_Props.thy ===== *)
theory Quic_Props
  imports Quic_Limits
begin

unbundle bit_operations_syntax

text \<open>
  The properties of the QUIC codec: integers, packet numbers, frames and ACK ranges.
\<close>

section \<open>How large a value the bytes can hold\<close>

lemma unat_shift_or:
  fixes v :: u64
  assumes "unat v < 2 ^ k" and "k + 8 \<le> 64"
  shows "unat (push_bit 8 v OR ucast (b :: byte)) < 2 ^ (k + 8)"
proof -
  have "take_bit k v = v" using assms by (simp add: word_unat_eq_iff unsigned_take_bit_eq take_bit_nat_eq_self)
  then have bv: "bit v i \<Longrightarrow> i < k" for i by (metis bit_take_bit_iff)
  have "take_bit (k + 8) (push_bit 8 v OR ucast b) = push_bit 8 v OR ucast b"
    by (rule bit_word_eqI) (auto simp: bit_simps dest: bv bit_imp_le_length)
  then have "unat (push_bit 8 v OR ucast b) = take_bit (k + 8) (unat (push_bit 8 v OR ucast b))"
    by (metis unsigned_take_bit_eq)
  then show ?thesis by (metis take_bit_nat_less_exp)
qed

lemma be_value_bound: "unat v < 2 ^ k \<Longrightarrow> k + 8 * length bs \<le> 64 \<Longrightarrow> unat (be_value v bs) < 2 ^ (k + 8 * length bs)"
proof (induction bs arbitrary: v k)
  case (Cons b bs)
  have "unat (push_bit 8 v OR ucast b) < 2 ^ (k + 8)" using Cons.prems by (intro unat_shift_or) simp_all
  then have "unat (be_value (push_bit 8 v OR ucast b) bs) < 2 ^ (k + 8 + 8 * length bs)"
    using Cons.prems by (intro Cons.IH) simp_all
  then show ?case by (simp add: be_value_def algebra_simps)
qed (simp add: be_value_def)

lemma tag_range: "unat (drop_bit 6 b) < 4" for b :: byte
proof -
  have "unat b < 2 ^ 8" using unsigned_less [of b] by simp
  then have "unat b div 64 < 4" by simp
  then show ?thesis by (simp add: drop_bit_eq_div unat_div)
qed

lemma rd_varint_shortest:
  assumes "proven_quic_rd_varint (rdr c) = (v, rdr q)"
  shows "proven_quic_varint_len v + length q \<le> length c"
proof -
  define b where "b = c ! 0"
  define n where "n = (2 :: nat) ^ unat (drop_bit 6 b)"
  have ok: "length c \<noteq> 0" "n \<le> length c" and v: "v = be_value (ucast (b AND 0x3f)) (take (n - 1) (drop 1 c))" and q: "q = drop n c"
    using assms unfolding proven_quic_rd_varint_def Let_def by (auto simp: n_def b_def split: if_splits)
  have "unat (drop_bit 6 b) \<in> {0, 1, 2, 3}" using tag_range [of b] by auto
  then have n: "n = 1 \<or> n = 2 \<or> n = 4 \<or> n = 8" by (auto simp: n_def)
  have "unat (ucast (b AND 0x3f) :: u64) = unat (b AND 0x3f)" by (rule unat_of_byte)
  also have "b AND 0x3f = take_bit 6 b" by (simp add: take_bit_eq_mask mask_eq_exp_minus_1)
  then have "unat (b AND 0x3f) < 2 ^ 6" by (simp only: unsigned_take_bit_eq take_bit_nat_less_exp)
  finally have "unat (be_value (ucast (b AND 0x3f)) (take (n - 1) (drop 1 c))) < 2 ^ (6 + 8 * length (take (n - 1) (drop 1 c)))"
    using n ok(2) by (intro be_value_bound) auto
  moreover have "length (take (n - 1) (drop 1 c)) = n - 1" using ok by simp
  ultimately have "unat v < 2 ^ (6 + 8 * (n - 1))" using v by simp
  then have "proven_quic_varint_len v \<le> n"
    using n by (auto simp: proven_quic_varint_len_def word_less_nat_alt)
  then show ?thesis using q ok(2) by simp
qed

text \<open>a value up to \<open>2 ^ 62 - 1\<close> is written in 1, 2, 4 or 8 bytes; reading them, with anything behind, gives the
  value back and leaves the rest; and no encoding the reader takes for this value is shorter. A larger value
  is not written at all.\<close>

theorem quic_varint_roundtrip:
  "if v \<le> quic_varint_max
   then proven_quic_rd_varint (rdr (proven_quic_varint_put v @ rest)) = (v, rdr rest) \<and>
     length (proven_quic_varint_put v) \<in> {1, 2, 4, 8} \<and>
     (\<forall>c q. proven_quic_rd_varint (rdr c) = (v, rdr q) \<longrightarrow> length (proven_quic_varint_put v) + length q \<le> length c)
   else proven_quic_varint_put v = []"
proof (cases "v \<le> quic_varint_max")
  case True
  then show ?thesis using rd_varint_shortest [of _ v] varint_len_cases [of v] varint_len_pos [of v] by auto
next
  case False
  then have "length (proven_quic_varint_put v) = 0" using varint_len_pos [of v] by simp
  then show ?thesis using False by (simp only: length_0_conv if_False)
qed

lemma quic_varint_roundtrip_witness:
  "(0x4000 :: u64) \<le> quic_varint_max \<and> proven_quic_varint_put 0x4000 = [0x80, 0, 0x40, 0] \<and>
    proven_quic_rd_varint (rdr ([0x80, 0, 0x40, 0] @ [7])) = (0x4000, rdr [7])"
proof -
  have p: "proven_quic_varint_put 0x4000 = [0x80, 0, 0x40, 0]" by code_simp
  have m: "(0x4000 :: u64) \<le> quic_varint_max" by (simp add: quic_varint_max_def)
  show ?thesis using quic_varint_roundtrip [of "0x4000" "[7]"] p m by simp
qed

section \<open>Packet numbers\<close>

lemma pn_candidate:
  fixes e p :: u64
  shows "unat ((e AND NOT (push_bit bits 1 - 1)) OR take_bit bits p) = unat e div 2 ^ bits * 2 ^ bits + unat p mod 2 ^ bits"
proof -
  have "(e AND NOT (push_bit bits 1 - 1)) = push_bit bits (drop_bit bits e)"
    by (rule bit_word_eqI) (auto simp: bit_simps mask_eq_exp_minus_1 [symmetric] push_bit_of_1)
  moreover have "unat (push_bit bits (drop_bit bits e)) = push_bit bits (drop_bit bits (unat e))"
  proof -
    have "push_bit bits (drop_bit bits (unat e)) \<le> unat e" by (simp add: push_bit_eq_mult drop_bit_eq_div)
    also have "unat e < 2 ^ 64" using unsigned_less [of e] by simp
    finally show ?thesis by (simp add: unsigned_push_bit_eq unat_drop_bit_eq take_bit_nat_eq_self)
  qed
  moreover have "push_bit bits (drop_bit bits (unat e)) OR take_bit bits (unat p) =
      push_bit bits (drop_bit bits (unat e)) + take_bit bits (unat p)"
    by (rule disjunctive_add_eq_or [symmetric]) (rule bit_eqI, auto simp: bit_simps)
  ultimately have "unat ((e AND NOT (push_bit bits 1 - 1)) OR take_bit bits p) =
      push_bit bits (drop_bit bits (unat e)) + take_bit bits (unat p)"
    by (simp only: unsigned_or_eq unsigned_take_bit_eq)
  then show ?thesis by (simp only: push_bit_eq_mult drop_bit_eq_div take_bit_eq_mod)
qed

lemma unat_plus_small: "unat a + unat b < 2 ^ 64 \<Longrightarrow> unat (a + b) = unat a + unat b" for a b :: u64
  by (simp add: unat_plus_simple word_le_nat_alt unat_word_ariths)

lemma pn_words:
  fixes c e win hwin top :: u64
  assumes "unat c \<le> 2 ^ 62 + 2 ^ 32" "unat e \<le> 2 ^ 62" "unat hwin \<le> 2 ^ 32" "unat win \<le> 2 ^ 32" "unat top = 2 ^ 62"
  shows "unat (if c + hwin \<le> e \<and> c < top - win then c + win else if c > e + hwin \<and> c \<ge> win then c - win else c) =
    (if unat c + unat hwin \<le> unat e \<and> unat c + unat win < 2 ^ 62 then unat c + unat win
     else if unat c > unat e + unat hwin \<and> unat c \<ge> unat win then unat c - unat win else unat c)"
proof -
  have "unat (c + hwin) = unat c + unat hwin" "unat (c + win) = unat c + unat win" "unat (e + hwin) = unat e + unat hwin"
    using assms by (simp_all add: unat_plus_small)
  moreover have "unat (top - win) = 2 ^ 62 - unat win" using assms by (simp add: unat_sub word_le_nat_alt)
  moreover have "unat (c - win) = unat c - unat win" if "unat win \<le> unat c" using that by (simp add: unat_sub word_le_nat_alt)
  ultimately show ?thesis using assms(4) by (auto simp: word_le_nat_alt word_less_nat_alt)
qed

text \<open>A packet number truncated to its low \<open>bits\<close> bits is recovered as long as it is within half a window of the number expected.\<close>

lemma quic_pn_decode_window:
  assumes "bits = 8 \<or> bits = 16 \<or> bits = 24 \<or> bits = 32" and "unat pn < 2 ^ 62" and "unat expected \<le> 2 ^ 62"
    and "unat expected < unat pn + 2 ^ (bits - 1)" and "unat pn \<le> unat expected + 2 ^ (bits - 1)"
  shows "proven_quic_pn_decode expected (take_bit bits pn) bits = pn"
proof -
  define c where "c = (expected AND NOT (push_bit bits 1 - 1)) OR take_bit bits pn"
  have W: "unat (push_bit bits 1 :: u64) = 2 ^ bits" "unat (push_bit bits 1 div 2 :: u64) = 2 ^ (bits - 1)" "(2 :: nat) ^ bits = 2 * 2 ^ (bits - 1)"
    "(2 :: nat) ^ bits \<le> 2 ^ 32"
    using assms(1) by (elim disjE; simp)+
  have c: "unat c = unat expected div 2 ^ bits * 2 ^ bits + unat pn mod 2 ^ bits" unfolding c_def by (rule pn_candidate)
  have "unat expected div 2 ^ bits * 2 ^ bits \<le> unat expected" "unat pn mod 2 ^ bits < 2 ^ bits" by simp_all
  then have small: "unat c \<le> 2 ^ 62 + 2 ^ 32" using c assms(3) W(4) by linarith
  have "unat (proven_quic_pn_decode expected (take_bit bits pn) bits) =
      (if unat c + 2 ^ (bits - 1) \<le> unat expected \<and> unat c + 2 ^ bits < 2 ^ 62 then unat c + 2 ^ bits
       else if unat c > unat expected + 2 ^ (bits - 1) \<and> unat c \<ge> 2 ^ bits then unat c - 2 ^ bits else unat c)"
    using pn_words [of c expected "push_bit bits 1 div 2" "push_bit bits 1" "push_bit 62 1"] small assms(3) W
    unfolding proven_quic_pn_decode_def Let_def c_def [symmetric] by (simp only: W) simp
  also have "\<dots> = unat pn" using W(3) assms c by (intro pn_window) simp_all
  finally show ?thesis by (simp only: word_unat_eq_iff)
qed

text \<open>the packet number field the sender writes is read back as the full packet number by a receiver that has received at
  least what it acknowledged and nothing from half a window ahead, the window being that of the length the sender
  chose; the length is between 1 and 4 and no smaller one leaves room for twice the packets not acknowledged.\<close>

theorem quic_pn_roundtrip:
  assumes "unat pn < 2 ^ 62" and "unat acked \<le> unat pn" and "unat pn + 1 - unat acked \<le> 2 ^ 31" and "n = proven_quic_pn_len pn acked"
    and "unat acked \<le> unat expected" and "unat expected < unat pn + 2 ^ (8 * n - 1)" and "unat expected \<le> 2 ^ 62"
  shows "proven_quic_pn_decode expected (fst (proven_quic_rd_uint (rdr (be_bytes n pn @ rest)) n)) (8 * n) = pn \<and>
    1 \<le> n \<and> n \<le> 4 \<and> (\<forall>m. 1 \<le> m \<and> m < n \<longrightarrow> 2 ^ (8 * m - 1) < unat pn + 1 - unat acked)"
proof -
  define u where "u = pn + 1 - acked"
  have "unat (pn + 1) = unat pn + 1" using assms(1) by (subst unat_plus_small) simp_all
  then have u: "unat u = unat pn + 1 - unat acked" using assms(2) by (simp add: u_def unat_sub word_le_nat_alt)
  have n: "n = (if unat u \<le> 2 ^ 7 then 1 else if unat u \<le> 2 ^ 15 then 2 else if unat u \<le> 2 ^ 23 then 3 else 4)"
    unfolding assms(4) proven_quic_pn_len_def Let_def u_def [symmetric] by (simp add: word_le_nat_alt)
  have n4: "n = 1 \<or> n = 2 \<or> n = 3 \<or> n = 4" using n by (simp split: if_splits)
  have "unat u \<le> 2 ^ (8 * n - 1)" using n u assms(3) by (simp split: if_splits)
  then have "unat pn \<le> unat expected + 2 ^ (8 * n - 1)" using u assms(5) by linarith
  moreover have "8 * n = 8 \<or> 8 * n = 16 \<or> 8 * n = 24 \<or> 8 * n = 32" using n4 by auto
  ultimately have "proven_quic_pn_decode expected (take_bit (8 * n) pn) (8 * n) = pn"
    using assms(1,6,7) by (intro quic_pn_decode_window) simp_all
  moreover have "2 ^ (8 * m - 1) < unat u" if "1 \<le> m" "m < n" for m
  proof -
    have "m = 1 \<or> m = 2 \<or> m = 3" using that n4 by auto
    then show ?thesis using that(2) n by (elim disjE) (simp_all split: if_splits)
  qed
  ultimately show ?thesis using n4 u by (auto simp: rd_uint_be)
qed

lemma quic_pn_roundtrip_witness:
  "proven_quic_pn_len 0xac5c02 0xabe8bc = 2 \<and> proven_quic_pn_decode 0xabe8be (fst (proven_quic_rd_uint (rdr [0x5c, 0x02]) 2)) 16 = 0xac5c02"
proof -
  have n: "2 = proven_quic_pn_len 0xac5c02 0xabe8bc" by (simp add: proven_quic_pn_len_def)
  have b: "be_bytes 2 0xac5c02 = [0x5c, 0x02]" by (simp add: be_bytes_def upt_rec)
  have "proven_quic_pn_decode 0xabe8be (fst (proven_quic_rd_uint (rdr (be_bytes 2 0xac5c02 @ [])) 2)) (8 * 2) = 0xac5c02"
    by (rule quic_pn_roundtrip [OF _ _ _ n, THEN conjunct1]) simp_all
  then show ?thesis unfolding b using n by simp
qed

section \<open>Frames\<close>

text \<open>writing a frame puts all of it behind what the writer holds, and says so, exactly when every integer of it can be
  encoded and it fits; otherwise it says no, and the writer holds what it held and takes further frames.\<close>

theorem quic_frame_put_exact:
  assumes "wr_good w" and "wr_ok w" and "proven_quic_frame_put w f = (b, w')"
  shows "wr_good w' \<and> wr_ok w' \<and> wr_cap w' = wr_cap w \<and>
    (b \<longleftrightarrow> list_all item_ok (frame_items f) \<and> length (items_bytes (frame_items f)) \<le> wr_cap w - wr_n w) \<and>
    written w' = (if b then written w @ items_bytes (frame_items f) else written w)"
  using assms by (rule frame_put_all_or_nothing)

definition max_data_frame :: proven_quic_frame_t where
  "max_data_frame = no_frame\<lparr>f_type := FT_MAX_DATA, f_value := 0x1234\<rparr>"

definition wr_new :: "nat \<Rightarrow> proven_quic_wr" where
  "wr_new n = \<lparr>wr_p = replicate n 0, wr_n = 0, wr_ok = True\<rparr>"

lemma quic_frame_put_exact_witness:
  "fst (proven_quic_frame_put (wr_new 4) max_data_frame) \<and>
    written (snd (proven_quic_frame_put (wr_new 4) max_data_frame)) = [0x10, 0x52, 0x34] \<and>
    \<not> fst (proven_quic_frame_put (wr_new 2) max_data_frame) \<and> written (snd (proven_quic_frame_put (wr_new 2) max_data_frame)) = []"
proof -
  have g: "wr_good (wr_new 4)" "wr_ok (wr_new 4)" "wr_good (wr_new 2)" "wr_ok (wr_new 2)" by (simp_all add: wr_good_def wr_new_def)
  have i: "frame_items max_data_frame = [V 0x10, V 0x1234]" by (simp add: frame_items_def max_data_frame_def no_frame_def)
  have b: "items_bytes [V 0x10, V 0x1234] = [0x10, 0x52, 0x34]"
    by (simp add: proven_quic_varint_put_def proven_quic_varint_len_def be_bytes_def varint_tag_def Let_def upt_rec)
  have "list_all item_ok [V 0x10, V 0x1234]" by (simp add: quic_varint_max_def)
  then show ?thesis
    using quic_frame_put_exact [OF g(1,2), of max_data_frame "fst (proven_quic_frame_put (wr_new 4) max_data_frame)" "snd (proven_quic_frame_put (wr_new 4) max_data_frame)"]
      quic_frame_put_exact [OF g(3,4), of max_data_frame "fst (proven_quic_frame_put (wr_new 2) max_data_frame)" "snd (proven_quic_frame_put (wr_new 2) max_data_frame)"]
    unfolding i b by (simp add: wr_new_def written_def)
qed


definition stream_frame :: proven_quic_frame_t where
  "stream_frame = no_frame\<lparr>f_type := FT_STREAM, f_id := 4, f_offset := 9, f_data := [1, 2], f_fin := True\<rparr>"


text \<open>C18: every frame that is read is of a known type, within the limits of its type, and moves the reader forward by at least a
  byte, to a point of the same packet; so the loop over the frames of a packet ends.\<close>

theorem quic_frame_read_limits:
  assumes "proven_quic_frame_read r = Inr (f, r')"
  shows "f_type f \<le> FT_HANDSHAKE_DONE \<and> frame_valid f \<and> rd_ok r' \<and> (\<exists>c. c \<noteq> [] \<and> rd_p r = c @ rd_p r')"
  using frame_read_limits [OF assms] by (auto simp: frame_limits_def strict_suffix_def suffix_def)

lemma quic_frame_read_limits_witness:
  "proven_quic_frame_read (rdr [0x01, 0x02]) = Inr (no_frame\<lparr>f_type := FT_PING\<rparr>, rdr [0x02]) \<and> frame_valid (no_frame\<lparr>f_type := FT_PING\<rparr>)"
proof -
  have b: "items_bytes [V 1] = [1]"
    by (simp add: proven_quic_varint_put_def proven_quic_varint_len_def be_bytes_def varint_tag_def Let_def)
  have i: "frame_items (no_frame\<lparr>f_type := FT_PING\<rparr>) = [V 1]" by (simp add: frame_items_def)
  have "proven_quic_frame_read (rdr [0x01, 0x02]) = Inr (no_frame\<lparr>f_type := FT_PING\<rparr>, rdr [0x02])"
    using read_simple [of "no_frame\<lparr>f_type := FT_PING\<rparr>" "[0x02]"] i b
    by (simp add: reads_back_def frame_valid_def frame_canonical_def)
  then show ?thesis using quic_frame_read_limits by blast
qed

section \<open>ACK ranges\<close>

text \<open>C10: the ranges of an ACK frame that was read can all be walked: whatever the frame, the walk gives one range more than the
  frame's count and then ends, each range lies below the one before with a gap between them, none wraps below packet
  number 0, and the first is the frame's own.\<close>

theorem quic_ack_walk_total:
  assumes "proven_quic_frame_read r = Inr (f, r')" and "f_type f = FT_ACK \<or> f_type f = FT_ACK_ECN" and "unat (f_range_count f) < n"
  shows "\<exists>lo rs. ack_walk n (proven_quic_ack_iter f) = (lo, f_largest f) # rs \<and> lo \<le> f_largest f \<and>
    length rs = unat (f_range_count f) \<and> descending lo rs"
  using frame_read_limits [OF assms(1)] assms(2,3) unfolding frame_limits_def ack_walks_def
  by (auto simp: word_sub_le)

lemma quic_ack_walk_total_witness:
  "\<exists>f rs. proven_quic_frame_read (rdr (enc [FT_ACK, 9, 0, 1, 2, 1, 2])) = Inr (f, rdr []) \<and>
    ack_walk 2 (proven_quic_ack_iter f) = (7, 9) # rs \<and> length rs = 1"
proof -
  have v: "\<forall>v\<in>set (ack_values 7 9 [(2, 4)] 0 None). v \<le> quic_varint_max"
    by (simp add: ack_values_def ecn_values_def quic_varint_max_def)
  have d: "(7 :: u64) \<le> 9" "descending 7 [(2, 4)]" "length [(2 :: u64, 4 :: u64)] < 2 ^ 64" by simp_all
  let ?f = "ack_frame 7 9 [(2, 4)] 0 None"
  have r: "proven_quic_frame_read (rdr (enc [FT_ACK, 9, 0, 1, 2, 1, 2])) = Inr (?f, rdr [])"
    using ack_frame_read [OF d v, of "[]"] by (simp add: ack_values_def ecn_values_def)
  have f: "f_type ?f = FT_ACK" "f_largest ?f = 9" "f_range_count ?f = 1" by (simp_all add: ack_frame_def)
  obtain lo rs where w: "ack_walk 2 (proven_quic_ack_iter ?f) = (lo, 9) # rs" "length rs = 1"
    using quic_ack_walk_total [OF r, of 2] f by auto
  have "lo = 7" using w(1) by (simp add: numeral_2_eq_2 proven_quic_ack_iter_def proven_quic_ack_next_def ack_frame_def)
  then show ?thesis using r w by blast
qed



end
