(* ===== verification/Quic_Header.thy ===== *)
theory Quic_Header
  imports Quic_Read
begin

unbundle bit_operations_syntax

text \<open>
  Packet headers (\<^verbatim>\<open>net/src/quic_frame.c\<close>): locating the header at the start of a datagram, and writing
  long and short headers and the version negotiation packet. The Retry packet, whose tag is AES-GCM, is parsed but not built.
  A header that does not parse is \<open>None\<close>.
\<close>

type_synonym u32 = "32 word"

section \<open>Parsing\<close>

datatype proven_quic_pkt_type_t =
  PKT_INITIAL | PKT_0RTT | PKT_HANDSHAKE | PKT_RETRY | PKT_SHORT | PKT_VN | PKT_OTHER_VERSION

record proven_quic_hdr_t =
  h_type :: proven_quic_pkt_type_t
  h_version :: u32
  h_dcid :: proven_quic_cid_t
  h_scid :: proven_quic_cid_t
  h_token :: "byte list"
  h_pn_offset :: nat
  h_len :: nat

definition QUIC_VERSION_1 :: u32 where "QUIC_VERSION_1 = 1"
definition QUIC_VERSION_2 :: u32 where "QUIC_VERSION_2 = 0x6b3343cf"

definition hdr_rd_cid :: "proven_quic_rd \<Rightarrow> (proven_quic_cid_t \<times> proven_quic_rd) option" where
  "hdr_rd_cid r =
    (let (len, r) = proven_quic_rd_uint r 1 in
     if \<not> rd_ok r \<or> len > 20 then None
     else let (b, r) = proven_quic_rd_take r (unat len) in
       if \<not> rd_ok r then None
       else Some (\<lparr>cid_len = ucast len, cid_id = rd_p b @ drop (unat len) (cid_id no_cid)\<rparr>, r))"

definition hdr_parse_short :: "byte list \<Rightarrow> u64 \<Rightarrow> proven_quic_rd \<Rightarrow> nat \<Rightarrow> proven_quic_hdr_t option" where
  "hdr_parse_short d first r short_dcid_len =
    (if first AND 0x40 = 0 \<or> short_dcid_len > 20 then None
     else let (b, r) = proven_quic_rd_take r short_dcid_len in
       if \<not> rd_ok r then None
       else Some \<lparr>h_type = PKT_SHORT, h_version = QUIC_VERSION_1,
              h_dcid = \<lparr>cid_len = of_nat short_dcid_len, cid_id = rd_p b @ drop short_dcid_len (cid_id no_cid)\<rparr>,
              h_scid = no_cid, h_token = [], h_pn_offset = 1 + short_dcid_len, h_len = length d\<rparr>)"

text \<open>Behind the connection IDs of a long header; \<open>h\<close> holds them and the version.\<close>

definition hdr_parse_rest :: "byte list \<Rightarrow> u64 \<Rightarrow> proven_quic_rd \<Rightarrow> proven_quic_hdr_t \<Rightarrow> proven_quic_hdr_t option" where
  "hdr_parse_rest d first r h =
    (if h_version h = 0 then
       (if rd_n r = 0 \<or> rd_n r mod 4 \<noteq> 0 then None
        else Some (h\<lparr>h_type := PKT_VN, h_token := rd_p r, h_len := length d\<rparr>))
     else if h_version h \<noteq> QUIC_VERSION_1 \<and> h_version h \<noteq> QUIC_VERSION_2 then
       Some (h\<lparr>h_type := PKT_OTHER_VERSION, h_len := length d\<rparr>)
     else if first AND 0x40 = 0 then None
     else let bits = ucast (drop_bit 4 first) AND 3 :: u32;
              type = (if h_version h = QUIC_VERSION_2 then (bits + 3) AND 3 else bits) in
       if type = 3 then
         (if rd_n r \<le> 16 then None
          else Some (h\<lparr>h_type := PKT_RETRY, h_token := take (rd_n r - 16) (rd_p r), h_len := length d\<rparr>))
       else let h = h\<lparr>h_type := (if type = 0 then PKT_INITIAL else if type = 1 then PKT_0RTT else PKT_HANDSHAKE)\<rparr> in
         case (if type = 0 then
                 (let (tlen, r) = proven_quic_rd_varint r in
                  if \<not> rd_ok r \<or> unat tlen > rd_n r then None
                  else Some (h\<lparr>h_token := take (unat tlen) (rd_p r)\<rparr>, snd (proven_quic_rd_take r (unat tlen))))
               else Some (h, r)) of
           None \<Rightarrow> None
         | Some (h, r) \<Rightarrow>
             let (len, r) = proven_quic_rd_varint r in
             if \<not> rd_ok r \<or> unat len > rd_n r then None
             else let pn_offset = length d - rd_n r in Some (h\<lparr>h_pn_offset := pn_offset, h_len := pn_offset + unat len\<rparr>))"

definition proven_quic_hdr_parse :: "byte list \<Rightarrow> nat \<Rightarrow> proven_quic_hdr_t option" where
  "proven_quic_hdr_parse d short_dcid_len =
    (let (first, r) = proven_quic_rd_uint \<lparr>rd_p = d, rd_ok = True\<rparr> 1 in
     if \<not> rd_ok r then None
     else if first AND 0x80 = 0 then hdr_parse_short d first r short_dcid_len
     else let (version, r) = proven_quic_rd_uint r 4 in
       if \<not> rd_ok r then None
       else case hdr_rd_cid r of None \<Rightarrow> None
       | Some (dcid, r) \<Rightarrow>
         case hdr_rd_cid r of None \<Rightarrow> None
         | Some (scid, r) \<Rightarrow>
           hdr_parse_rest d first r \<lparr>h_type = PKT_INITIAL, h_version = ucast version, h_dcid = dcid, h_scid = scid,
             h_token = [], h_pn_offset = 0, h_len = 0\<rparr>)"

section \<open>Building\<close>

definition wr_cid :: "proven_quic_wr \<Rightarrow> proven_quic_cid_t \<Rightarrow> proven_quic_wr" where
  "wr_cid w c = proven_quic_wr_bytes (proven_quic_wr_uint w (ucast (cid_len c)) 1) (take (unat (cid_len c)) (cid_id c))"

definition wr_start :: "byte list \<Rightarrow> proven_quic_wr" where
  "wr_start out = \<lparr>wr_p = out, wr_n = 0, wr_ok = True\<rparr>"

definition type_bits :: "u32 \<Rightarrow> u32 \<Rightarrow> u32" where
  "type_bits version v1_bits = (if version = QUIC_VERSION_2 then (v1_bits + 1) AND 3 else v1_bits)"

definition proven_quic_vn_build :: "proven_quic_cid_t \<Rightarrow> proven_quic_cid_t \<Rightarrow> byte \<Rightarrow> byte list \<Rightarrow> nat \<times> byte list" where
  "proven_quic_vn_build dcid scid random_bits out =
    (let w = wr_start out;
         w = proven_quic_wr_uint w (0x80 OR (ucast random_bits AND 0x7f)) 1;
         w = proven_quic_wr_uint w 0 4;
         w = wr_cid w dcid;
         w = wr_cid w scid;
         w = proven_quic_wr_uint w (ucast QUIC_VERSION_1) 4;
         w = proven_quic_wr_uint w (ucast QUIC_VERSION_2) 4 in
     (if wr_ok w then wr_n w else 0, wr_p w))"

definition proven_quic_long_header_put_v :: "u32 \<Rightarrow> proven_quic_pkt_type_t \<Rightarrow> proven_quic_cid_t \<Rightarrow> proven_quic_cid_t \<Rightarrow> byte list \<Rightarrow> u64
    \<Rightarrow> nat \<Rightarrow> nat \<Rightarrow> byte list \<Rightarrow> nat \<times> byte list" where
  "proven_quic_long_header_put_v version type dcid scid token pn pn_len payload_len out =
    (let bits = (if type = PKT_INITIAL then 0 else if type = PKT_0RTT then 1 else if type = PKT_HANDSHAKE then 2 else 4) :: u32;
         len = wrap (wrap (pn_len + payload_len) + 16) in
     if bits = 4 \<or> pn_len < 1 \<or> pn_len > 4 \<or> len \<ge> 16384 then (0, out)
     else
       let w = wr_start out;
           w = proven_quic_wr_uint w (ucast (0xc0 OR push_bit 4 (type_bits version bits) OR of_nat (pn_len - 1))) 1;
           w = proven_quic_wr_uint w (ucast version) 4;
           w = wr_cid w dcid;
           w = wr_cid w scid;
           w = (if type = PKT_INITIAL then wr_view w token else w);
           w = proven_quic_wr_uint w (0x4000 OR of_nat len) 2;
           w = proven_quic_wr_uint w pn pn_len in
       (if wr_ok w then wr_n w else 0, wr_p w))"

definition proven_quic_long_header_put :: "proven_quic_pkt_type_t \<Rightarrow> proven_quic_cid_t \<Rightarrow> proven_quic_cid_t \<Rightarrow> byte list \<Rightarrow> u64
    \<Rightarrow> nat \<Rightarrow> nat \<Rightarrow> byte list \<Rightarrow> nat \<times> byte list" where
  "proven_quic_long_header_put = proven_quic_long_header_put_v QUIC_VERSION_1"

definition proven_quic_short_header_put :: "proven_quic_cid_t \<Rightarrow> bool \<Rightarrow> u64 \<Rightarrow> nat \<Rightarrow> byte list \<Rightarrow> nat \<times> byte list" where
  "proven_quic_short_header_put dcid key_phase pn pn_len out =
    (if pn_len < 1 \<or> pn_len > 4 then (0, out)
     else
       let w = wr_start out;
           w = proven_quic_wr_uint w (0x40 OR (if key_phase then 0x04 else 0) OR of_nat (pn_len - 1)) 1;
           w = proven_quic_wr_bytes w (take (unat (cid_len dcid)) (cid_id dcid));
           w = proven_quic_wr_uint w pn pn_len in
       (if wr_ok w then wr_n w else 0, wr_p w))"

end
