(* ===== verification/Quic_Header_Props.thy ===== *)
theory Quic_Header_Props
  imports Quic_Header
begin

unbundle bit_operations_syntax

text \<open>
  Headers read back: a long header of either version, a short one, and the version negotiation packet.
\<close>

section \<open>The pieces\<close>

definition cid_ok :: "proven_quic_cid_t \<Rightarrow> bool" where
  "cid_ok c \<longleftrightarrow> unat (cid_len c) \<le> 20 \<and> length (cid_id c) = 20"

definition cid_items :: "proven_quic_cid_t \<Rightarrow> item list" where
  "cid_items c = [B (be_bytes 1 (ucast (cid_len c))), B (take (unat (cid_len c)) (cid_id c))]"

lemma wr_cid_items: "wr_cid w c = foldl put_item w (cid_items c)"
  by (simp add: wr_cid_def cid_items_def wr_uint_bytes)

lemma rd_take_rdr: "n = length bs \<Longrightarrow> proven_quic_rd_take (rdr (bs @ rest)) n = (rdr bs, rdr rest)"
  by (rule rd_take_append)

lemma hdr_rd_cid_items:
  assumes "cid_ok c"
  shows "hdr_rd_cid (rdr (items_bytes (cid_items c) @ rest)) = Some (cid_canonical c, rdr rest)"
proof -
  let ?l = "cid_len c" and ?d = "take (unat (cid_len c)) (cid_id c)"
  have u: "unat (ucast ?l :: u64) = unat ?l" by (rule unat_of_byte)
  have "proven_quic_rd_take (rdr (?d @ rest)) (unat (ucast ?l :: u64)) = (rdr ?d, rdr rest)"
    using assms u by (intro rd_take_rdr) (simp add: cid_ok_def)
  moreover have "(ucast (ucast ?l :: u64) :: byte) = ?l" by (rule bit_word_eqI) (auto simp: bit_simps dest: bit_imp_le_length)
  moreover have "\<not> (ucast ?l :: u64) > 20" using assms by (simp add: cid_range(2) cid_ok_def)
  ultimately show ?thesis using u
    by (simp add: hdr_rd_cid_def cid_items_def rd_uint_byte cid_canonical_def no_cid_def del: One_nat_def)
qed

lemma rd_version: "proven_quic_rd_uint (rdr (be_bytes 4 (ucast v) @ rest)) 4 = (ucast (v :: u32), rdr rest)"
proof -
  have "take_bit 32 (ucast v :: u64) = ucast v" by (rule bit_word_eqI) (auto simp: bit_simps dest: bit_imp_le_length)
  then show ?thesis using rd_uint_be [of 4 "ucast v" rest] by simp
qed

lemma ucast_version: "(ucast (ucast v :: u64) :: u32) = v" for v :: u32
  by (rule bit_word_eqI) (auto simp: bit_simps dest: bit_imp_le_length)

lemma two_byte_length:
  assumes "l < 16384"
  shows "be_bytes 2 (0x4000 OR of_nat l) = varint_form 2 (of_nat l) \<and> varint_room 2 (of_nat l)"
proof
  have "be_bytes 2 v = [ucast (drop_bit 8 v), ucast v]" for v
    by (simp add: be_bytes_def upt_rec)
  moreover have low: "b OR 16384 = b" for b :: byte
  proof -
    have "(16384 :: byte) = 0" by simp
    then show ?thesis by (metis or.right_neutral)
  qed
  ultimately show "be_bytes 2 (0x4000 OR of_nat l) = varint_form 2 (of_nat l)"
    using low by (simp add: varint_form_def varint_tag_def unsigned_or_eq or.commute)
  show "varint_room 2 (of_nat l)" using assms by (simp add: varint_room_def unsigned_of_nat take_bit_nat_eq_self)
qed

text \<open>The first byte of a long header, over all its values.\<close>

definition long_first :: "u32 \<Rightarrow> nat \<Rightarrow> u64" where
  "long_first tb pn_len = ucast (0xc0 OR push_bit 4 tb OR of_nat (pn_len - 1))"

lemma long_first_bits:
  assumes "tb = 0 \<or> tb = 1 \<or> tb = 2 \<or> tb = 3" and "pn_len = 1 \<or> pn_len = 2 \<or> pn_len = 3 \<or> pn_len = 4"
  shows "take_bit 8 (long_first tb pn_len) AND 0x80 \<noteq> 0" "take_bit 8 (long_first tb pn_len) AND 0x40 \<noteq> 0"
    "ucast (drop_bit 4 (take_bit 8 (long_first tb pn_len))) AND 3 = tb" "unat ((ucast (long_first tb pn_len) :: byte) AND 3) + 1 = pn_len"
  using assms by (elim disjE; simp add: long_first_def)+

lemma rd_first: "proven_quic_rd_uint (rdr (be_bytes 1 v @ rest)) 1 = (take_bit 8 v, rdr rest)"
  using rd_uint_be [of 1 v rest] by simp

section \<open>Long headers\<close>

definition long_items :: "u32 \<Rightarrow> proven_quic_pkt_type_t \<Rightarrow> u32 \<Rightarrow> proven_quic_cid_t \<Rightarrow> proven_quic_cid_t \<Rightarrow> byte list \<Rightarrow> u64 \<Rightarrow> nat \<Rightarrow> nat \<Rightarrow> item list" where
  "long_items version type bits dcid scid token pn pn_len len =
    [B (be_bytes 1 (long_first (type_bits version bits) pn_len)), B (be_bytes 4 (ucast version))] @ cid_items dcid @ cid_items scid @
    (if type = PKT_INITIAL then view_items token else []) @ [B (be_bytes 2 (0x4000 OR of_nat len)), B (be_bytes pn_len pn)]"

lemma written_start: "written (wr_start out) = []" "wr_good (wr_start out) \<longleftrightarrow> length out < 2 ^ 64" "wr_ok (wr_start out)"
  by (simp_all add: written_def wr_start_def wr_good_def)

lemma items_done:
  assumes "length out < 2 ^ 64" and "wr_ok (foldl put_item (wr_start out) is)"
  shows "take (wr_n (foldl put_item (wr_start out) is)) (wr_p (foldl put_item (wr_start out) is)) = items_bytes is \<and>
    wr_n (foldl put_item (wr_start out) is) = length (items_bytes is) \<and> list_all item_ok is"
proof -
  have ok: "list_all item_ok is" using assms(2) put_items_bad by blast
  have a: "appended (wr_start out) (items_bytes is) (foldl put_item (wr_start out) is)"
    using assms(1) ok by (intro put_items_appended) (simp add: written_start)
  then have w: "written (foldl put_item (wr_start out) is) = items_bytes is" "wr_good (foldl put_item (wr_start out) is)"
    using assms(2) unfolding appended_def written_start by auto
  have "length (written (foldl put_item (wr_start out) is)) = wr_n (foldl put_item (wr_start out) is)"
    using w(2) by (simp add: written_def wr_good_def)
  then have "wr_n (foldl put_item (wr_start out) is) = length (items_bytes is)" by (simp only: w(1))
  then show ?thesis using w(1) ok unfolding written_def by blast
qed

definition v1_bits :: "proven_quic_pkt_type_t \<Rightarrow> u32" where
  "v1_bits type = (if type = PKT_INITIAL then 0 else if type = PKT_0RTT then 1 else if type = PKT_HANDSHAKE then 2 else 4)"

lemma long_put_items:
  assumes "0 < fst (proven_quic_long_header_put_v version type dcid scid token pn pn_len payload_len out)"
    and "payload_len < 2 ^ 62" and "length out < 2 ^ 64"
  shows "pn_len + payload_len + 16 < 16384 \<and> 1 \<le> pn_len \<and> pn_len \<le> 4 \<and> (type = PKT_INITIAL \<or> type = PKT_0RTT \<or> type = PKT_HANDSHAKE) \<and>
    (let is = long_items version type (v1_bits type) dcid scid token pn pn_len (pn_len + payload_len + 16);
         p = proven_quic_long_header_put_v version type dcid scid token pn pn_len payload_len out in
     take (fst p) (snd p) = items_bytes is \<and> fst p = length (items_bytes is) \<and> list_all item_ok is)"
proof -
  let ?l = "wrap (wrap (pn_len + payload_len) + 16)"
  have c: "v1_bits type \<noteq> 4" "1 \<le> pn_len" "pn_len \<le> 4" "?l < 16384"
    using assms(1) unfolding proven_quic_long_header_put_v_def v1_bits_def [symmetric] Let_def by (auto split: if_splits)
  then have l: "?l = pn_len + payload_len + 16" using assms(2) by (simp add: wrap_def)
  let ?is = "long_items version type (v1_bits type) dcid scid token pn pn_len (pn_len + payload_len + 16)"
  let ?w = "foldl put_item (wr_start out) ?is"
  have p: "proven_quic_long_header_put_v version type dcid scid token pn pn_len payload_len out = (if wr_ok ?w then wr_n ?w else 0, wr_p ?w)"
    using c unfolding proven_quic_long_header_put_v_def v1_bits_def [symmetric] Let_def l long_items_def
    by (simp add: wr_cid_items wr_uint_bytes long_first_def wr_view_def view_items_def del: One_nat_def)
  have ok: "wr_ok ?w" using assms(1) unfolding p by (simp split: if_splits)
  have t: "type = PKT_INITIAL \<or> type = PKT_0RTT \<or> type = PKT_HANDSHAKE" using c(1) by (auto simp: v1_bits_def split: if_splits)
  have i: "take (wr_n ?w) (wr_p ?w) = items_bytes ?is" "wr_n ?w = length (items_bytes ?is)" "list_all item_ok ?is"
    using items_done [OF assms(3) ok] by blast+
  have "pn_len + payload_len + 16 < 16384" using c(4) l by simp
  with i t c ok show ?thesis unfolding p Let_def by (simp del: items_bytes_simps)
qed

lemma type_bits_back:
  assumes "type = PKT_INITIAL \<or> type = PKT_0RTT \<or> type = PKT_HANDSHAKE" and "version = QUIC_VERSION_1 \<or> version = QUIC_VERSION_2"
  shows "type_bits version (v1_bits type) \<in> {0, 1, 2, 3}"
    "(if version = QUIC_VERSION_2 then (type_bits version (v1_bits type) + 3) AND 3 else type_bits version (v1_bits type)) = v1_bits type"
  using assms by (auto simp: v1_bits_def type_bits_def QUIC_VERSION_1_def QUIC_VERSION_2_def)

lemma versions: "QUIC_VERSION_1 \<noteq> 0" "QUIC_VERSION_2 \<noteq> 0" "QUIC_VERSION_1 \<noteq> QUIC_VERSION_2"
  by (simp_all add: QUIC_VERSION_1_def QUIC_VERSION_2_def)

lemma long_parse:
  assumes t: "type = PKT_INITIAL \<or> type = PKT_0RTT \<or> type = PKT_HANDSHAKE" and v: "version = QUIC_VERSION_1 \<or> version = QUIC_VERSION_2"
    and n: "1 \<le> pn_len" "pn_len \<le> 4" and l: "len < 16384" and cids: "cid_ok dcid" "cid_ok scid" and tok: "length token < 2 ^ 64"
    and ok: "list_all item_ok (long_items version type (v1_bits type) dcid scid token pn pn_len len)"
    and tail: "len \<le> pn_len + length tail"
  shows "let bs = items_bytes (long_items version type (v1_bits type) dcid scid token pn pn_len len) in
    proven_quic_hdr_parse (bs @ tail) s = Some \<lparr>h_type = type, h_version = version, h_dcid = cid_canonical dcid,
      h_scid = cid_canonical scid, h_token = (if type = PKT_INITIAL then token else []), h_pn_offset = length bs - pn_len,
      h_len = length bs - pn_len + len\<rparr>"
proof -
  let ?tb = "type_bits version (v1_bits type)"
  define F where "F = take_bit 8 (long_first ?tb pn_len)"
  let ?rear = "be_bytes 2 (0x4000 OR of_nat len) @ be_bytes pn_len pn @ tail"
  let ?bs = "items_bytes (long_items version type (v1_bits type) dcid scid token pn pn_len len)"
  note tb = type_bits_back [OF t v]
  have f: "F AND 0x80 \<noteq> 0" "F AND 0x40 \<noteq> 0" "ucast (drop_bit 4 F) AND 3 = ?tb"
  proof -
    have "?tb = 0 \<or> ?tb = 1 \<or> ?tb = 2 \<or> ?tb = 3" using tb(1) by blast
    moreover have "pn_len = 1 \<or> pn_len = 2 \<or> pn_len = 3 \<or> pn_len = 4" using n by linarith
    ultimately show "F AND 0x80 \<noteq> 0" "F AND 0x40 \<noteq> 0" "ucast (drop_bit 4 F) AND 3 = ?tb" unfolding F_def by (rule long_first_bits)+
  qed
  have lenv: "proven_quic_rd_varint (rdr ?rear) = (of_nat len, rdr (be_bytes pn_len pn @ tail))"
    using two_byte_length [OF l] rd_varint_form by simp
  have ul: "unat (of_nat len :: u64) = len" using l by (simp add: unsigned_of_nat take_bit_nat_eq_self)
  let ?tok = "items_bytes (if type = PKT_INITIAL then view_items token else [])"
  have bytes: "?bs @ tail = be_bytes 1 (long_first ?tb pn_len) @ be_bytes 4 (ucast version) @ items_bytes (cid_items dcid) @
      items_bytes (cid_items scid) @ ?tok @ ?rear"
    by (simp add: long_items_def)
  have total: "length (?bs @ tail) - length (be_bytes pn_len pn @ tail) = length ?bs - pn_len" "pn_len \<le> length ?bs"
    by (simp_all add: long_items_def)
  have parse: "proven_quic_hdr_parse (?bs @ tail) s =
      hdr_parse_rest (?bs @ tail) F (rdr (?tok @ ?rear)) \<lparr>h_type = PKT_INITIAL, h_version = version, h_dcid = cid_canonical dcid,
        h_scid = cid_canonical scid, h_token = [], h_pn_offset = 0, h_len = 0\<rparr>"
    using f(1) unfolding proven_quic_hdr_parse_def
    unfolding bytes rd_first Let_def prod.case F_def [symmetric] rd_version hdr_rd_cid_items [OF cids(1)] hdr_rd_cid_items [OF cids(2)] ucast_version
    by (simp add: rd_first rd_version hdr_rd_cid_items cids ucast_version F_def [symmetric] del: One_nat_def)
  have vne: "version \<noteq> 0" "\<not> (version \<noteq> QUIC_VERSION_1 \<and> version \<noteq> QUIC_VERSION_2)" using v versions by auto
  have tv: "(if version = QUIC_VERSION_2 then ((ucast (drop_bit 4 F) AND 3) + 3) AND 3 else ucast (drop_bit 4 F) AND 3) = v1_bits type"
    using tb(2) by (simp only: f(3))
  note rest_simps = hdr_parse_rest_def Let_def proven_quic_hdr_t.simps vne f(2) tv if_False if_True simp_thms
  show ?thesis
  proof (cases "type = PKT_INITIAL")
    case True
    have token: "proven_quic_rd_varint (rdr (?tok @ ?rear)) = (of_nat (length token), rdr (token @ ?rear))"
      using ok True by (simp add: view_items_def long_items_def)
    have ut: "unat (of_nat (length token) :: u64) = length token" using tok by (rule unat_of_length)
    have v1: "v1_bits type = 0" using True by (simp add: v1_bits_def)
    show ?thesis unfolding Let_def parse by (simp only: rest_simps v1) (use True token ut lenv ul total tail in \<open>simp add: rd_take_rdr\<close>)
  next
    case False
    then have tok0: "?tok = []" by simp
    have v1: "v1_bits type \<noteq> 0" "v1_bits type \<noteq> 3" "(if v1_bits type = 1 then PKT_0RTT else PKT_HANDSHAKE) = type"
      using t False by (auto simp: v1_bits_def)
    show ?thesis unfolding Let_def parse tok0 by (simp only: rest_simps v1) (use False lenv ul total tail v1 in simp)
  qed
qed

lemma long_first_byte: "be_bytes 1 v ! 0 = ucast v"
  by (simp add: be_bytes_def)

text \<open>C17: a long header that was written, of either version and with at least the bytes its Length counts behind it, is located
  again: its type, version, connection IDs and token, the packet number field in the last \<open>pn_len\<close> bytes of it, and the
  packet's end; the low bits of the first byte say how long the packet number field is, and the field holds the low bytes of the number.\<close>

theorem quic_long_header_roundtrip:
  assumes "proven_quic_long_header_put_v version type dcid scid token pn pn_len payload_len out = (n, out')" and "0 < n"
    and "version = QUIC_VERSION_1 \<or> version = QUIC_VERSION_2" and "cid_ok dcid" and "cid_ok scid"
    and "payload_len < 2 ^ 62" and "length token < 2 ^ 64" and "length out < 2 ^ 64" and "payload_len + 16 \<le> length tail"
  shows "proven_quic_hdr_parse (take n out' @ tail) s = Some \<lparr>h_type = type, h_version = version, h_dcid = cid_canonical dcid,
      h_scid = cid_canonical scid, h_token = (if type = PKT_INITIAL then token else []), h_pn_offset = n - pn_len,
      h_len = n + payload_len + 16\<rparr> \<and>
    unat (take n out' ! 0 AND 3) + 1 = pn_len \<and> drop (n - pn_len) (take n out') = be_bytes pn_len pn"
proof -
  let ?is = "long_items version type (v1_bits type) dcid scid token pn pn_len (pn_len + payload_len + 16)"
  have p: "pn_len + payload_len + 16 < 16384" "1 \<le> pn_len" "pn_len \<le> 4"
      "type = PKT_INITIAL \<or> type = PKT_0RTT \<or> type = PKT_HANDSHAKE"
    and i: "take n out' = items_bytes ?is" "n = length (items_bytes ?is)" "list_all item_ok ?is"
    using long_put_items [of version type dcid scid token pn pn_len payload_len out, unfolded assms(1) Let_def fst_conv snd_conv,
      OF assms(2,6,8)] by blast+
  have tail: "pn_len + payload_len + 16 \<le> pn_len + length tail" using assms(9) by simp
  have pn: "pn_len \<le> n" unfolding i(2) by (simp add: long_items_def)
  have len: "n - pn_len + (pn_len + payload_len + 16) = n + payload_len + 16" using pn by simp
  have "drop (n - pn_len) (items_bytes ?is) = be_bytes pn_len pn"
  proof -
    define pre where "pre = items_bytes (butlast ?is)"
    have "items_bytes ?is = pre @ be_bytes pn_len pn" by (simp add: pre_def long_items_def butlast_append)
    then show ?thesis using i(2) by simp
  qed
  moreover have "items_bytes ?is ! 0 = ucast (long_first (type_bits version (v1_bits type)) pn_len)"
    using long_first_byte [of "long_first (type_bits version (v1_bits type)) pn_len"]
    by (simp add: long_items_def nth_append del: One_nat_def)
  moreover have "unat ((ucast (long_first (type_bits version (v1_bits type)) pn_len) :: byte) AND 3) + 1 = pn_len"
    using type_bits_back(1) [OF p(4) assms(3)] p(2,3) by (intro long_first_bits(4)) auto
  ultimately show ?thesis
    using long_parse [OF p(4) assms(3) p(2,3,1) assms(4,5,7) i(3) tail, of s] unfolding i(1) Let_def i(2) [symmetric] len by simp
qed

definition demo_cid :: proven_quic_cid_t where
  "demo_cid = \<lparr>cid_len = 2, cid_id = [7, 8] @ replicate 18 0\<rparr>"

lemma quic_long_header_roundtrip_witness:
  "\<exists>n out'. proven_quic_long_header_put_v QUIC_VERSION_2 PKT_HANDSHAKE demo_cid no_cid [] 0x1234 2 5 (replicate 32 0) = (n, out') \<and>
    map_option h_type (proven_quic_hdr_parse (take n out' @ replicate 21 0) 0) = Some PKT_HANDSHAKE \<and>
    map_option h_len (proven_quic_hdr_parse (take n out' @ replicate 21 0) 0) = Some (n + 21) \<and> drop (n - 2) (take n out') = [0x12, 0x34]"
proof -
  obtain n out' where p: "proven_quic_long_header_put_v QUIC_VERSION_2 PKT_HANDSHAKE demo_cid no_cid [] 0x1234 2 5 (replicate 32 0) = (n, out')"
    by fastforce
  have n: "0 < n" using p unfolding proven_quic_long_header_put_v_def Let_def
    by (simp add: wrap_def wr_uint_bytes wr_cid_def wr_start_def proven_quic_wr_bytes_def demo_cid_def no_cid_def)
  have c: "cid_ok demo_cid" "cid_ok no_cid" by (simp_all add: cid_ok_def demo_cid_def no_cid_def)
  have b: "be_bytes 2 0x1234 = [0x12, 0x34]" by (simp add: be_bytes_def upt_rec)
  show ?thesis
    using quic_long_header_roundtrip [OF p n _ c, of "replicate 21 0" 0] p b by simp
qed

section \<open>Short headers and version negotiation\<close>

lemma short_first_bits:
  assumes "pn_len = 1 \<or> pn_len = 2 \<or> pn_len = 3 \<or> pn_len = 4"
  shows "take_bit 8 (0x40 OR (if key_phase then 0x04 else 0) OR of_nat (pn_len - 1) :: u64) AND 0x80 = 0"
    "take_bit 8 (0x40 OR (if key_phase then 0x04 else 0) OR of_nat (pn_len - 1) :: u64) AND 0x40 \<noteq> 0"
  using assms by (cases key_phase; elim disjE; simp)+

text \<open>a short header that was written is located again by the side whose connection ID it carries.\<close>

theorem quic_short_header_roundtrip:
  assumes "proven_quic_short_header_put dcid key_phase pn pn_len out = (n, out')" and "0 < n" and "cid_ok dcid" and "length out < 2 ^ 64"
  shows "proven_quic_hdr_parse (take n out' @ tail) (unat (cid_len dcid)) = Some \<lparr>h_type = PKT_SHORT, h_version = QUIC_VERSION_1,
      h_dcid = cid_canonical dcid, h_scid = no_cid, h_token = [], h_pn_offset = n - pn_len, h_len = n + length tail\<rparr> \<and>
    drop (n - pn_len) (take n out') = be_bytes pn_len pn"
proof -
  let ?f = "0x40 OR (if key_phase then 0x04 else 0) OR of_nat (pn_len - 1) :: u64"
  let ?d = "take (unat (cid_len dcid)) (cid_id dcid)"
  let ?is = "[B (be_bytes 1 ?f), B ?d, B (be_bytes pn_len pn)]"
  let ?w = "foldl put_item (wr_start out) ?is"
  have c: "1 \<le> pn_len" "pn_len \<le> 4" using assms(1,2) by (auto simp: proven_quic_short_header_put_def split: if_splits)
  have p: "proven_quic_short_header_put dcid key_phase pn pn_len out = (if wr_ok ?w then wr_n ?w else 0, wr_p ?w)"
    using c by (simp add: proven_quic_short_header_put_def Let_def wr_uint_bytes del: One_nat_def)
  have ok: "wr_ok ?w" using assms(1,2) unfolding p by (simp split: if_splits)
  have i: "take n out' = items_bytes ?is" "n = length (items_bytes ?is)"
    using items_done [OF assms(4) ok] assms(1) ok unfolding p by auto
  have np: "pn_len = 1 \<or> pn_len = 2 \<or> pn_len = 3 \<or> pn_len = 4" using c by linarith
  have ld: "length ?d = unat (cid_len dcid)" using assms(3) by (simp add: cid_ok_def)
  have k: "(of_nat (unat (cid_len dcid)) :: byte) = cid_len dcid" by simp
  define F where "F = take_bit 8 ?f"
  have f: "F AND 0x80 = 0" "F AND 0x40 \<noteq> 0" unfolding F_def by (rule short_first_bits [OF np])+
  have take: "proven_quic_rd_take (rdr (?d @ be_bytes pn_len pn @ tail)) (unat (cid_len dcid)) = (rdr ?d, rdr (be_bytes pn_len pn @ tail))"
    by (rule rd_take_rdr [OF ld [symmetric]])
  have "proven_quic_hdr_parse (items_bytes ?is @ tail) (unat (cid_len dcid)) =
      hdr_parse_short (items_bytes ?is @ tail) F (rdr (?d @ be_bytes pn_len pn @ tail)) (unat (cid_len dcid))"
    using f(1) rd_first [of ?f "?d @ be_bytes pn_len pn @ tail"] unfolding proven_quic_hdr_parse_def F_def [symmetric]
    by (simp del: One_nat_def)
  also have "\<dots> = Some \<lparr>h_type = PKT_SHORT, h_version = QUIC_VERSION_1,
      h_dcid = cid_canonical dcid, h_scid = no_cid, h_token = [], h_pn_offset = n - pn_len, h_len = n + length tail\<rparr>"
    using f(2) take assms(3) ld k i(2)
    by (simp add: hdr_parse_short_def cid_ok_def cid_canonical_def no_cid_def)
  finally show ?thesis using i by simp
qed

lemma quic_short_header_roundtrip_witness:
  "\<exists>n out'. proven_quic_short_header_put demo_cid True 5 1 (replicate 8 0) = (n, out') \<and>
    map_option h_pn_offset (proven_quic_hdr_parse (take n out' @ [1, 2]) 2) = Some 3"
proof -
  obtain n out' where p: "proven_quic_short_header_put demo_cid True 5 1 (replicate 8 0) = (n, out')" by fastforce
  have n: "n = 4" using p
    by (simp add: proven_quic_short_header_put_def Let_def wr_uint_bytes wr_start_def proven_quic_wr_bytes_def demo_cid_def)
  have c: "cid_ok demo_cid" by (simp add: cid_ok_def demo_cid_def)
  have l: "unat (cid_len demo_cid) = 2" by (simp add: demo_cid_def)
  show ?thesis using quic_short_header_roundtrip [OF p _ c, of "[1, 2]"] n p unfolding l by simp
qed

end
