(* ===== verification/Sse.thy ===== *)
theory Sse
  imports Views
begin

text \<open>
  The parser of \<^verbatim>\<open>text/event-stream\<close> (\<^verbatim>\<open>net/src/sse.c\<close>): one byte at a time, over the memory it was given. The two halves of
  that memory and the two arrays of the state are the bytes they hold; the capacities are kept beside the
  first two, and are 64 and 128 for the others.
\<close>

section \<open>The state\<close>

record proven_sse_t =
  sse_ready :: bool
  sse_line :: "byte list"
  line_cap :: nat
  sse_data :: "byte list"
  data_cap :: nat
  sse_type :: "byte list"
  sse_id :: "byte list"
  retry_ms :: "32 word"
  has_retry :: bool
  has_data :: bool
  skip_lf :: bool
  bom_checked :: bool
  bom_seen :: nat
  failed :: bool

record proven_sse_event_t =
  ev_event :: "byte list"
  ev_data :: "byte list"
  ev_id :: "byte list"
  ev_retry_ms :: "32 word"
  ev_has_retry :: bool

definition sse_zero :: proven_sse_t where
  "sse_zero = \<lparr>sse_ready = False, sse_line = [], line_cap = 0, sse_data = [], data_cap = 0, sse_type = [], sse_id = [],
    retry_ms = 0, has_retry = False, has_data = False, skip_lf = False, bom_checked = False, bom_seen = 0, failed = False\<rparr>"

definition proven_sse_init :: "byte view \<Rightarrow> proven_err \<times> proven_sse_t" where
  "proven_sse_init work = (case work of
     Null n \<Rightarrow> (PROVEN_ERR_INVALID_ARG, sse_zero)
   | At xs \<Rightarrow>
       if length xs < 64 then (PROVEN_ERR_INVALID_ARG, sse_zero)
       else (PROVEN_OK, sse_zero\<lparr>sse_ready := True, line_cap := length xs div 2, data_cap := length xs - length xs div 2\<rparr>))"

section \<open>One line\<close>

definition LF :: byte where "LF = 10"
definition CR :: byte where "CR = 13"
definition COLON :: byte where "COLON = 58"
definition SPACE :: byte where "SPACE = 32"

definition sse_is :: "byte list \<Rightarrow> string \<Rightarrow> bool" where
  "sse_is s lit \<longleftrightarrow> s = map of_char lit"

text \<open>The field name and the value of a line: the first colon divides them, and one space behind it is dropped.\<close>

fun colon_at :: "byte list \<Rightarrow> nat" where
  "colon_at [] = 0"
| "colon_at (c # cs) = (if c \<noteq> COLON then Suc (colon_at cs) else 0)"

definition line_field :: "byte list \<Rightarrow> byte list" where
  "line_field line = take (colon_at line) line"

definition line_value :: "byte list \<Rightarrow> byte list" where
  "line_value line =
    (let colon = colon_at line in
     if colon < length line
     then (let v = colon + 1; v = (if v < length line \<and> line ! v = SPACE then v + 1 else v) in drop v line)
     else [])"

fun retry_loop :: "byte list \<Rightarrow> 64 word \<Rightarrow> bool \<Rightarrow> 64 word \<times> bool" where
  "retry_loop [] ms digits = (ms, digits)"
| "retry_loop (c # cs) ms digits =
    (if \<not> digits then (ms, digits)
     else if c < 48 \<or> c > 57 then retry_loop cs ms False
     else retry_loop cs (if ms \<le> 0xffffffff then ms * 10 + ucast (c - 48) else ms) digits)"

definition sse_line_step :: "proven_sse_t \<Rightarrow> proven_err \<times> bool \<times> proven_sse_t" where
  "sse_line_step s =
    (let line = sse_line s in
     if line = [] then
       (if \<not> has_data s then (PROVEN_OK, False, s\<lparr>sse_type := []\<rparr>) else (PROVEN_OK, True, s))
     else if line ! 0 = COLON then (PROVEN_OK, False, s)
     else
       let field = line_field line; value = line_value line in
       if sse_is field ''data'' then
         (if length value + 1 > data_cap s - length (sse_data s) then (PROVEN_ERR_OUT_OF_BOUNDS, False, s)
          else (PROVEN_OK, False, s\<lparr>sse_data := sse_data s @ value @ [LF], has_data := True\<rparr>))
       else if sse_is field ''event'' then
         (if length value > 64 then (PROVEN_ERR_OUT_OF_BOUNDS, False, s)
          else (PROVEN_OK, False, s\<lparr>sse_type := value\<rparr>))
       else if sse_is field ''id'' then
         (if 0 \<notin> set value then
            (if length value > 128 then (PROVEN_ERR_OUT_OF_BOUNDS, False, s)
             else (PROVEN_OK, False, s\<lparr>sse_id := value\<rparr>))
          else (PROVEN_OK, False, s))
       else if sse_is field ''retry'' then
         (case retry_loop value 0 (value \<noteq> []) of (ms, digits) \<Rightarrow>
            (PROVEN_OK, False,
             if digits then s\<lparr>retry_ms := (if ms > 0xffffffff then 0xffffffff else ucast ms), has_retry := True\<rparr> else s))
       else (PROVEN_OK, False, s))"

section \<open>Feeding bytes\<close>

definition bom :: "byte list" where
  "bom = [0xef, 0xbb, 0xbf]"

datatype byte_result =
  Continue proven_sse_t
| Deliver proven_sse_event_t proven_sse_t
| Fail proven_err proven_sse_t

definition sse_deliver :: "proven_sse_t \<Rightarrow> byte_result" where
  "sse_deliver s = Deliver
    \<lparr>ev_event = sse_type s, ev_data = take (length (sse_data s) - 1) (sse_data s), ev_id = sse_id s,
     ev_retry_ms = retry_ms s, ev_has_retry = has_retry s\<rparr>
    (s\<lparr>sse_data := [], sse_type := [], has_data := False, has_retry := False\<rparr>)"

text \<open>The body of the loop, behind the byte order mark.\<close>

definition sse_plain_byte :: "proven_sse_t \<Rightarrow> byte \<Rightarrow> byte_result" where
  "sse_plain_byte s c =
    (if skip_lf s \<and> c = LF then Continue (s\<lparr>skip_lf := False\<rparr>)
     else let s = s\<lparr>skip_lf := False\<rparr> in
       if c = CR \<or> c = LF then
         (let s = s\<lparr>skip_lf := (c = CR), bom_checked := True\<rparr> in
          case sse_line_step s of (e, dispatch, s) \<Rightarrow>
            let s = s\<lparr>sse_line := []\<rparr> in
            if e \<noteq> PROVEN_OK then Fail e (s\<lparr>failed := True\<rparr>)
            else if dispatch then sse_deliver s
            else Continue s)
       else if length (sse_line s) \<ge> line_cap s then Fail PROVEN_ERR_OUT_OF_BOUNDS (s\<lparr>failed := True\<rparr>)
       else Continue (s\<lparr>sse_line := sse_line s @ [c]\<rparr>))"

definition sse_byte :: "proven_sse_t \<Rightarrow> byte \<Rightarrow> byte_result" where
  "sse_byte s c =
    (if \<not> bom_checked s then
       (if c = bom ! bom_seen s then
          (let s = s\<lparr>bom_seen := bom_seen s + 1\<rparr> in
           if bom_seen s = 3 then Continue (s\<lparr>bom_checked := True, sse_line := []\<rparr>) else sse_plain_byte s c)
        else sse_plain_byte (s\<lparr>bom_checked := True\<rparr>) c)
     else sse_plain_byte s c)"

fun sse_feed_loop :: "proven_sse_t \<Rightarrow> byte list \<Rightarrow> nat \<Rightarrow> proven_err \<times> nat \<times> proven_sse_event_t option \<times> proven_sse_t" where
  "sse_feed_loop s [] i = (PROVEN_OK, i, None, s)"
| "sse_feed_loop s (c # cs) i =
    (case sse_byte s c of
       Continue s \<Rightarrow> sse_feed_loop s cs (i + 1)
     | Deliver ev s \<Rightarrow> (PROVEN_OK, i + 1, Some ev, s)
     | Fail e s \<Rightarrow> (e, 0, None, s))"

text \<open>The error, the bytes consumed, the event if there is one, and the new state. The output pointers are not null.\<close>

definition proven_sse_feed :: "proven_sse_t option \<Rightarrow> byte view \<Rightarrow> proven_err \<times> nat \<times> proven_sse_event_t option \<times> proven_sse_t option" where
  "proven_sse_feed sse v = (case sse of
     None \<Rightarrow> (PROVEN_ERR_INVALID_ARG, 0, None, None)
   | Some s \<Rightarrow>
       (case v of Null n \<Rightarrow>
          if n > 0 then (PROVEN_ERR_INVALID_ARG, 0, None, Some s)
          else if failed s \<or> \<not> sse_ready s then (PROVEN_ERR_INVALID_STATE, 0, None, Some s)
          else (PROVEN_OK, 0, None, Some s)
        | At xs \<Rightarrow>
          if failed s \<or> \<not> sse_ready s then (PROVEN_ERR_INVALID_STATE, 0, None, Some s)
          else case sse_feed_loop s xs 0 of (e, n, ev, s) \<Rightarrow> (e, n, ev, Some s)))"

definition proven_sse_last_id :: "proven_sse_t option \<Rightarrow> byte list" where
  "proven_sse_last_id sse = (case sse of None \<Rightarrow> [] | Some s \<Rightarrow> sse_id s)"

end
