(* ===== verification/Sse_Spec.thy ===== *)
theory Sse_Spec
  imports Sse
begin

text \<open>
  The event stream of the HTML standard, read as a whole: line ends are made uniform, the text is cut into
  lines, and each line acts on the event being gathered. The limits of the parser's memory are the only
  thing the standard does not have. The parser, a byte at a time, computes this.
\<close>

section \<open>The standard\<close>

record event_spec =
  es_type :: "byte list"
  es_data :: "byte list"
  es_id :: "byte list"
  es_retry :: "nat option"

record stream_spec =
  sp_data :: "byte list list"
  sp_type :: "byte list"
  sp_id :: "byte list"
  sp_retry :: "nat option"

text \<open>CR, LF and CRLF each end a line; a byte order mark at the very start is no part of the text.\<close>

fun uniform_ends :: "byte list \<Rightarrow> byte list" where
  "uniform_ends [] = []"
| "uniform_ends [c] = [if c = CR then LF else c]"
| "uniform_ends (c # d # cs) =
    (if c = CR then LF # uniform_ends (if d = LF then cs else d # cs) else c # uniform_ends (d # cs))"

definition without_bom :: "byte list \<Rightarrow> byte list" where
  "without_bom xs = (if take 3 xs = bom then drop 3 xs else xs)"

text \<open>The lines; the last one is not ended.\<close>

fun lf_lines :: "byte list \<Rightarrow> byte list list" where
  "lf_lines [] = [[]]"
| "lf_lines (c # cs) = (if c = LF then [] # lf_lines cs else (c # hd (lf_lines cs)) # tl (lf_lines cs))"

definition digit :: "byte \<Rightarrow> bool" where
  "digit c \<longleftrightarrow> 48 \<le> c \<and> c \<le> 57"

definition digits_value :: "byte list \<Rightarrow> nat" where
  "digits_value cs = foldl (\<lambda>n c. n * 10 + (unat c - 48)) 0 cs"

definition data_bytes :: "byte list list \<Rightarrow> byte list" where
  "data_bytes ds = concat (map (\<lambda>d. d @ [LF]) ds)"

text \<open>What a line's field and value are: up to the first colon, and behind it without one leading space.\<close>

definition spec_field :: "byte list \<Rightarrow> byte list" where
  "spec_field l = takeWhile (\<lambda>c. c \<noteq> COLON) l"

definition spec_value :: "byte list \<Rightarrow> byte list" where
  "spec_value l = (case dropWhile (\<lambda>c. c \<noteq> COLON) l of [] \<Rightarrow> [] | c # v \<Rightarrow> if v \<noteq> [] \<and> hd v = SPACE then tl v else v)"

definition spec_line :: "nat \<Rightarrow> stream_spec \<Rightarrow> byte list \<Rightarrow> (event_spec option \<times> stream_spec) option" where
  "spec_line dc st l =
    (if l = [] then
       (if sp_data st = [] then Some (None, st\<lparr>sp_type := []\<rparr>)
        else Some (Some \<lparr>es_type = sp_type st, es_data = butlast (data_bytes (sp_data st)), es_id = sp_id st, es_retry = sp_retry st\<rparr>,
                   st\<lparr>sp_data := [], sp_type := [], sp_retry := None\<rparr>))
     else if hd l = COLON then Some (None, st)
     else let v = spec_value l in
       if sse_is (spec_field l) ''data'' then
         (if length (data_bytes (sp_data st)) + length v + 1 > dc then None else Some (None, st\<lparr>sp_data := sp_data st @ [v]\<rparr>))
       else if sse_is (spec_field l) ''event'' then
         (if length v > 64 then None else Some (None, st\<lparr>sp_type := v\<rparr>))
       else if sse_is (spec_field l) ''id'' then
         (if 0 \<in> set v then Some (None, st) else if length v > 128 then None else Some (None, st\<lparr>sp_id := v\<rparr>))
       else if sse_is (spec_field l) ''retry'' then
         (if v \<noteq> [] \<and> list_all digit v then Some (None, st\<lparr>sp_retry := Some (min (digits_value v) (2 ^ 32 - 1))\<rparr>) else Some (None, st))
       else Some (None, st))"

text \<open>All lines: the events, and whether everything fitted.\<close>

fun spec_lines :: "nat \<Rightarrow> nat \<Rightarrow> stream_spec \<Rightarrow> byte list list \<Rightarrow> event_spec list \<times> bool" where
  "spec_lines lc dc st [] = ([], True)"
| "spec_lines lc dc st [l] = ([], length l \<le> lc)"
| "spec_lines lc dc st (l # ls) =
    (if length l > lc then ([], False)
     else case spec_line dc st l of None \<Rightarrow> ([], False)
     | Some (ev, st) \<Rightarrow> case spec_lines lc dc st ls of (evs, ok) \<Rightarrow> ((case ev of None \<Rightarrow> evs | Some e \<Rightarrow> e # evs), ok))"

definition new_stream :: stream_spec where
  "new_stream = \<lparr>sp_data = [], sp_type = [], sp_id = [], sp_retry = None\<rparr>"

section \<open>The parser, byte by byte\<close>

fun sse_run :: "proven_sse_t \<Rightarrow> byte list \<Rightarrow> proven_sse_event_t list \<times> proven_err \<times> proven_sse_t" where
  "sse_run s [] = ([], PROVEN_OK, s)"
| "sse_run s (c # cs) = (case sse_byte s c of
     Continue s \<Rightarrow> sse_run s cs
   | Deliver ev s \<Rightarrow> (case sse_run s cs of (evs, e, s) \<Rightarrow> (ev # evs, e, s))
   | Fail e s \<Rightarrow> ([], e, s))"

definition ev_abs :: "proven_sse_event_t \<Rightarrow> event_spec" where
  "ev_abs ev = \<lparr>es_type = ev_event ev, es_data = ev_data ev, es_id = ev_id ev,
    es_retry = (if ev_has_retry ev then Some (unat (ev_retry_ms ev)) else None)\<rparr>"

text \<open>The invariant of the state, and what it stands for.\<close>

definition sse_inv :: "proven_sse_t \<Rightarrow> bool" where
  "sse_inv s \<longleftrightarrow> sse_ready s \<and> 32 \<le> line_cap s \<and> length (sse_line s) \<le> line_cap s \<and> length (sse_data s) \<le> data_cap s \<and>
    length (sse_type s) \<le> 64 \<and> length (sse_id s) \<le> 128 \<and> (has_data s \<longleftrightarrow> sse_data s \<noteq> []) \<and>
    (bom_checked s \<or> bom_seen s < 3 \<and> sse_line s = take (bom_seen s) bom \<and> \<not> skip_lf s)"

definition stands_for :: "proven_sse_t \<Rightarrow> stream_spec \<Rightarrow> bool" where
  "stands_for s st \<longleftrightarrow> sse_data s = data_bytes (sp_data st) \<and> sse_type s = sp_type st \<and> sse_id s = sp_id st \<and>
    sp_retry st = (if has_retry s then Some (unat (retry_ms s)) else None)"

section \<open>A line\<close>

lemma colon_at_takeWhile: "colon_at l = length (takeWhile (\<lambda>c. c \<noteq> COLON) l)"
  by (induction l) simp_all

lemma line_field_spec: "line_field l = spec_field l"
  by (simp add: line_field_def spec_field_def colon_at_takeWhile takeWhile_eq_take [symmetric])

lemma drop_colon: "drop (colon_at l) l = dropWhile (\<lambda>c. c \<noteq> COLON) l"
  by (simp add: colon_at_takeWhile dropWhile_eq_drop)

lemma line_value_spec: "line_value l = spec_value l"
proof (cases "dropWhile (\<lambda>c. c \<noteq> COLON) l")
  case Nil
  then have "\<not> colon_at l < length l" using drop_colon [of l] by (metis drop_eq_Nil not_less)
  then show ?thesis by (simp add: line_value_def spec_value_def Nil Let_def)
next
  case (Cons c v)
  then have d: "drop (colon_at l) l = c # v" by (simp add: drop_colon)
  then have lt: "colon_at l < length l" by (metis drop_eq_Nil list.distinct(1) not_less)
  have dv: "drop (Suc (colon_at l)) l = v" using d by (metis drop_Suc list.sel(3) tl_drop)
  have nth: "l ! Suc (colon_at l) = hd v" "v \<noteq> []" if "Suc (colon_at l) < length l"
    using dv that by (metis hd_drop_conv_nth) (use dv that in auto)
  have len: "Suc (colon_at l) < length l \<longleftrightarrow> v \<noteq> []" using dv lt by (metis drop_eq_Nil not_less)
  show ?thesis
    using lt dv nth len by (auto simp: line_value_def spec_value_def Cons Let_def drop_Suc tl_drop [symmetric])
qed

lemma digit_test: "\<not> (c < 48 \<or> c > 57) \<longleftrightarrow> digit c"
  by (auto simp: digit_def not_less)

lemma retry_loop_spec:
  assumes "(ms \<le> 0xffffffff \<and> unat ms = n) \<or> (ms > 0xffffffff \<and> n > 0xffffffff)"
  shows "snd (retry_loop cs ms True) = list_all digit cs \<and>
    (list_all digit cs \<longrightarrow>
      (fst (retry_loop cs ms True) \<le> 0xffffffff \<and> unat (fst (retry_loop cs ms True)) = foldl (\<lambda>n c. n * 10 + (unat c - 48)) n cs) \<or>
      (fst (retry_loop cs ms True) > 0xffffffff \<and> foldl (\<lambda>n c. n * 10 + (unat c - 48)) n cs > 0xffffffff))"
  using assms
proof (induction cs arbitrary: ms n)
  case (Cons c cs)
  show ?case
  proof (cases "digit c")
    case False
    have "retry_loop cs ms False = (ms, False)" by (cases cs) simp_all
    then show ?thesis using False digit_test [of c] by simp
  next
    case True
    define ms' where "ms' = (if ms \<le> 0xffffffff then ms * 10 + ucast (c - 48) else ms)"
    define n' where "n' = n * 10 + (unat c - 48)"
    have c: "48 \<le> unat c" "unat c \<le> 57" using True by (simp_all add: digit_def word_le_nat_alt)
    have u: "unat (ucast (c - 48) :: 64 word) = unat c - 48"
    proof -
      have "unat (c - 48) = unat c - 48" using c by (simp add: unat_sub word_le_nat_alt)
      moreover have "take_bit 64 (unat (c - 48)) = unat (c - 48)" using c calculation by (intro take_bit_nat_eq_self) simp
      ultimately show ?thesis by (simp add: unsigned_ucast_eq)
    qed
    have "(ms' \<le> 0xffffffff \<and> unat ms' = n') \<or> (ms' > 0xffffffff \<and> n' > 0xffffffff)"
    proof (cases "ms \<le> 0xffffffff")
      case True
      then have m: "unat ms \<le> 0xffffffff" "unat ms = n" using Cons.prems by (auto simp: word_le_nat_alt word_less_nat_alt)
      have "unat (ms * 10) = unat ms * 10" using m by (simp add: unat_word_ariths)
      then have "unat (ms * 10 + ucast (c - 48)) = n * 10 + (unat c - 48)" using m u c by (simp add: unat_word_ariths)
      then show ?thesis using True by (auto simp: ms'_def n'_def word_le_nat_alt word_less_nat_alt)
    next
      case False
      then show ?thesis using Cons.prems by (auto simp: ms'_def n'_def)
    qed
    from Cons.IH [OF this] show ?thesis
      using True digit_test [of c] by (auto simp: ms'_def n'_def)
  qed
qed simp

lemma data_bytes_Nil [simp]: "data_bytes ds = [] \<longleftrightarrow> ds = []"
  by (cases ds) (simp_all add: data_bytes_def)

text \<open>What a line does to the state is what it does to the stream it stands for.\<close>

definition same_frame :: "proven_sse_t \<Rightarrow> proven_sse_t \<Rightarrow> bool" where
  "same_frame s s' \<longleftrightarrow> sse_ready s' = sse_ready s \<and> line_cap s' = line_cap s \<and> data_cap s' = data_cap s \<and> skip_lf s' = skip_lf s \<and>
    bom_checked s' = bom_checked s \<and> bom_seen s' = bom_seen s \<and> failed s' = failed s \<and> sse_line s' = sse_line s"

lemma inv_updates:
  assumes "sse_inv s"
  shows "length v \<le> 64 \<Longrightarrow> sse_inv (s\<lparr>sse_type := v\<rparr>)" "length v \<le> 128 \<Longrightarrow> sse_inv (s\<lparr>sse_id := v\<rparr>)"
    "sse_inv (s\<lparr>retry_ms := r, has_retry := b\<rparr>)"
    "length d \<le> data_cap s \<Longrightarrow> d \<noteq> [] \<Longrightarrow> sse_inv (s\<lparr>sse_data := d, has_data := True\<rparr>)"
  using assms unfolding sse_inv_def by (simp_all; blast)+

lemma stands_updates:
  assumes "stands_for s st"
  shows "stands_for (s\<lparr>sse_type := v\<rparr>) (st\<lparr>sp_type := v\<rparr>)" "stands_for (s\<lparr>sse_id := v\<rparr>) (st\<lparr>sp_id := v\<rparr>)"
    "stands_for (s\<lparr>retry_ms := r, has_retry := True\<rparr>) (st\<lparr>sp_retry := Some (unat r)\<rparr>)"
    "stands_for (s\<lparr>sse_data := sse_data s @ v @ [LF], has_data := True\<rparr>) (st\<lparr>sp_data := sp_data st @ [v]\<rparr>)"
  using assms unfolding stands_for_def by (simp_all add: data_bytes_def)

lemma same_updates:
  "same_frame s s" "same_frame s (s\<lparr>sse_type := v\<rparr>)" "same_frame s (s\<lparr>sse_id := v\<rparr>)" "same_frame s (s\<lparr>retry_ms := r, has_retry := b\<rparr>)"
  "same_frame s (s\<lparr>sse_data := d, has_data := True\<rparr>)"
  by (simp_all add: same_frame_def)

lemmas line_updates = inv_updates stands_updates same_updates

lemma line_step_spec:
  assumes inv: "sse_inv s" and st: "stands_for s st"
  shows "case spec_line (data_cap s) st (sse_line s) of
      None \<Rightarrow> \<exists>s'. sse_line_step s = (PROVEN_ERR_OUT_OF_BOUNDS, False, s') \<and> sse_inv s'
    | Some (None, st') \<Rightarrow> \<exists>s'. sse_line_step s = (PROVEN_OK, False, s') \<and> stands_for s' st' \<and> sse_inv s' \<and> same_frame s s'
    | Some (Some e, st') \<Rightarrow> sse_line_step s = (PROVEN_OK, True, s) \<and> sp_data st \<noteq> [] \<and>
        e = \<lparr>es_type = sp_type st, es_data = butlast (data_bytes (sp_data st)), es_id = sp_id st, es_retry = sp_retry st\<rparr> \<and>
        st' = st\<lparr>sp_data := [], sp_type := [], sp_retry := None\<rparr>"
proof -
  let ?l = "sse_line s" and ?f = "spec_field (sse_line s)" and ?v = "spec_value (sse_line s)"
  have hd: "has_data s \<longleftrightarrow> sp_data st \<noteq> []" using inv st by (simp add: sse_inv_def stands_for_def)
  have data: "data_bytes (sp_data st) = sse_data s" "length (sse_data s) \<le> data_cap s" using inv st by (simp_all add: sse_inv_def stands_for_def)
  note u = line_updates(1-4) [OF inv] line_updates(5-8) [OF st] same_updates
  consider "?l = []" | "?l \<noteq> []" "hd ?l = COLON" | "?l \<noteq> []" "hd ?l \<noteq> COLON" by blast
  then show ?thesis
  proof cases
    case 1
    show ?thesis
    proof (cases "has_data s")
      case True
      then have "sp_data st \<noteq> []" using hd by blast
      then show ?thesis using 1 True by (simp add: spec_line_def sse_line_step_def)
    next
      case False
      then have "sp_data st = []" using hd by blast
      then show ?thesis using 1 False u by (simp add: spec_line_def sse_line_step_def)
    qed
  next
    case 2
    then have "sse_line_step s = (PROVEN_OK, False, s)" by (simp add: sse_line_step_def hd_conv_nth)
    then show ?thesis using 2 inv st u by (simp add: spec_line_def)
  next
    case 3
    have n: "?l ! 0 \<noteq> COLON" using 3 by (simp add: hd_conv_nth)
    note d = spec_line_def sse_line_step_def Let_def line_field_spec line_value_spec
    show ?thesis
    proof (cases "sse_is ?f ''data''")
      case True
      show ?thesis
      proof (cases "length (sse_data s) + length ?v + 1 > data_cap s")
        case big: True
        then have "length ?v + 1 > data_cap s - length (sse_data s)" using data(2) by linarith
        then show ?thesis using 3 n True big inv by (simp add: d data)
      next
        case False
        then have "\<not> length ?v + 1 > data_cap s - length (sse_data s)" "length (sse_data s @ ?v @ [LF]) \<le> data_cap s" using data(2) by simp_all
        then show ?thesis using 3 n True False u by (simp add: d data)
      qed
    next
      case nd: False
      show ?thesis
      proof (cases "sse_is ?f ''event''")
        case True
        then show ?thesis using 3 n nd inv u by (cases "length ?v > 64") (simp_all add: d)
      next
        case ne: False
        show ?thesis
        proof (cases "sse_is ?f ''id''")
          case True
          then show ?thesis using 3 n nd ne inv st u by (cases "length ?v > 128"; cases "0 \<in> set ?v") (simp_all add: d)
        next
          case ni: False
          obtain ms d where r: "retry_loop ?v 0 (?v \<noteq> []) = (ms, d)" by fastforce
          have rd: "d = (?v \<noteq> [] \<and> list_all digit ?v)"
            "d \<Longrightarrow> unat (if ms > 0xffffffff then 0xffffffff else ucast ms :: 32 word) = min (digits_value ?v) (2 ^ 32 - 1)"
          proof -
            have "retry_loop [] 0 False = (0, False)" by simp
            then show "d = (?v \<noteq> [] \<and> list_all digit ?v)" using r retry_loop_spec [of 0 0 ?v] by (cases "?v = []") auto
            then show "unat (if ms > 0xffffffff then 0xffffffff else ucast ms :: 32 word) = min (digits_value ?v) (2 ^ 32 - 1)" if d
            proof -
              have v: "?v \<noteq> []" "list_all digit ?v" using \<open>d\<close> \<open>d = (?v \<noteq> [] \<and> list_all digit ?v)\<close> by blast+
              then have "(ms \<le> 0xffffffff \<and> unat ms = digits_value ?v) \<or> (ms > 0xffffffff \<and> digits_value ?v > 0xffffffff)"
                using r retry_loop_spec [of 0 0 ?v] by (simp add: digits_value_def)
              then show ?thesis
              proof
                assume a: "ms \<le> 0xffffffff \<and> unat ms = digits_value ?v"
                then have "unat ms \<le> 0xffffffff" by (simp add: word_le_nat_alt)
                then have "unat (ucast ms :: 32 word) = unat ms" by (simp add: unsigned_ucast_eq take_bit_nat_eq_self)
                then show ?thesis using a \<open>unat ms \<le> 0xffffffff\<close> by (auto simp: min_def not_less)
              next
                assume "ms > 0xffffffff \<and> digits_value ?v > 0xffffffff"
                then show ?thesis by (simp add: min_def)
              qed
            qed
          qed
          show ?thesis
          proof (cases "sse_is ?f ''retry''")
            case True
            show ?thesis
            proof (cases d)
              case dig: True
              have dv: "?v \<noteq> []" "list_all digit ?v" using dig rd(1) by blast+
              have "sse_line_step s = (PROVEN_OK, False, s\<lparr>retry_ms := (if ms > 0xffffffff then 0xffffffff else ucast ms), has_retry := True\<rparr>)"
                using 3 n nd ne ni True r dig by (simp add: sse_line_step_def Let_def line_field_spec line_value_spec)
              moreover have "spec_line (data_cap s) st ?l = Some (None, st\<lparr>sp_retry := Some (min (digits_value ?v) (2 ^ 32 - 1))\<rparr>)"
                using 3 nd ne ni True dv by (simp add: spec_line_def Let_def)
              moreover have "stands_for (s\<lparr>retry_ms := (if ms > 0xffffffff then 0xffffffff else ucast ms), has_retry := True\<rparr>)
                  (st\<lparr>sp_retry := Some (min (digits_value ?v) (2 ^ 32 - 1))\<rparr>)"
                using u(7) [of "if ms > 0xffffffff then 0xffffffff else ucast ms"] unfolding rd(2) [OF dig] .
              moreover have "sse_inv (s\<lparr>retry_ms := (if ms > 0xffffffff then 0xffffffff else ucast ms), has_retry := True\<rparr>)" by (rule u(3))
              moreover have "same_frame s (s\<lparr>retry_ms := (if ms > 0xffffffff then 0xffffffff else ucast ms), has_retry := True\<rparr>)" by (rule u(12))
              ultimately show ?thesis by (simp only: option.case prod.case) blast
            next
              case dig: False
              have dv: "\<not> (?v \<noteq> [] \<and> list_all digit ?v)" using dig rd(1) by blast
              have "sse_line_step s = (PROVEN_OK, False, s)"
                using 3 n nd ne ni True r dig by (simp add: sse_line_step_def Let_def line_field_spec line_value_spec)
              moreover have "spec_line (data_cap s) st ?l = Some (None, st)"
                using 3 nd ne ni True dv by (auto simp: spec_line_def Let_def)
              ultimately show ?thesis using u inv st by simp
            qed
          next
            case False
            then show ?thesis using 3 n nd ne ni inv st u by (simp add: d)
          qed
        qed
      qed
    qed
  qed
qed

section \<open>A stream\<close>

text \<open>What is left of the input when a CR was the last byte.\<close>

definition after :: "bool \<Rightarrow> byte list \<Rightarrow> byte list" where
  "after skip cs = (if skip \<and> cs \<noteq> [] \<and> hd cs = LF then tl cs else cs)"

definition prepend :: "byte list \<Rightarrow> byte list list \<Rightarrow> byte list list" where
  "prepend p ls = (p @ hd ls) # tl ls"

lemma LF_CR [simp]: "LF \<noteq> CR" "CR \<noteq> LF"
  by (simp_all add: LF_def CR_def)

lemma uniform_cons: "uniform_ends (c # cs) = (if c = CR then LF # uniform_ends (after True cs) else c # uniform_ends cs)"
  by (cases cs) (auto simp: after_def)

lemma after_False [simp]: "after False cs = cs"
  by (simp add: after_def)

lemma lf_lines_nonempty: "lf_lines cs \<noteq> []"
  by (cases cs) simp_all

lemma prepend_LF: "prepend p (lf_lines (LF # cs)) = p # lf_lines cs" "prepend p ([] # ls) = p # ls"
  by (simp_all add: prepend_def)

lemma prepend_other: "c \<noteq> LF \<Longrightarrow> prepend p (lf_lines (c # cs)) = prepend (p @ [c]) (lf_lines cs)"
  by (simp add: prepend_def)

lemma prepend_Nil: "prepend [] (lf_lines cs) = lf_lines cs"
  using lf_lines_nonempty by (simp add: prepend_def)

lemma spec_lines_Cons: "spec_lines lc dc st (l # lf_lines cs) =
    (if length l > lc then ([], False)
     else case spec_line dc st l of None \<Rightarrow> ([], False)
     | Some (ev, st) \<Rightarrow> case spec_lines lc dc st (lf_lines cs) of (evs, ok) \<Rightarrow> ((case ev of None \<Rightarrow> evs | Some e \<Rightarrow> e # evs), ok))"
proof -
  obtain a ls where "lf_lines cs = a # ls" using lf_lines_nonempty [of cs] by (cases "lf_lines cs") blast+
  then show ?thesis by (simp only: spec_lines.simps(3))
qed

lemma spec_lines_too_long: "length p \<ge> lc \<Longrightarrow> c \<noteq> LF \<Longrightarrow> spec_lines lc dc st (prepend p (lf_lines (c # cs))) = ([], False)"
  by (cases "tl (lf_lines cs)") (simp_all add: prepend_def)

text \<open>The outcome of the parser, in the terms of the standard.\<close>

definition outcome :: "proven_sse_event_t list \<times> proven_err \<times> proven_sse_t \<Rightarrow> event_spec list \<times> bool" where
  "outcome r = (case r of (evs, e, s) \<Rightarrow> (map ev_abs evs, e = PROVEN_OK))"

lemma outcome_simps [simp]:
  "outcome ([], e, s) = ([], e = PROVEN_OK)"
  "outcome (case r of (evs, e, s) \<Rightarrow> (ev # evs, e, s)) = (case outcome r of (evs, ok) \<Rightarrow> (ev_abs ev # evs, ok))"
  "outcome (case r of (evs, x) \<Rightarrow> (ev # evs, x)) = (case outcome r of (evs, ok) \<Rightarrow> (ev_abs ev # evs, ok))"
  by (simp_all add: outcome_def split: prod.split)

lemma inv_skip: "sse_inv s \<Longrightarrow> bom_checked s \<Longrightarrow> sse_inv (s\<lparr>skip_lf := b\<rparr>) \<and> sse_inv (s\<lparr>skip_lf := b, bom_checked := True\<rparr>)"
  by (simp add: sse_inv_def)

lemma stands_skip: "stands_for s st \<Longrightarrow> stands_for (s\<lparr>skip_lf := b\<rparr>) st \<and> stands_for (s\<lparr>skip_lf := b, bom_checked := d\<rparr>) st \<and>
    stands_for (s\<lparr>sse_line := l\<rparr>) st"
  by (simp add: stands_for_def)

lemma inv_line: "sse_inv s \<Longrightarrow> bom_checked s \<Longrightarrow> length l \<le> line_cap s \<Longrightarrow> sse_inv (s\<lparr>sse_line := l\<rparr>)"
  by (simp add: sse_inv_def)

lemma deliver_spec:
  assumes inv: "sse_inv s" "bom_checked s" and st: "stands_for s st" and d: "sp_data st \<noteq> []"
  shows "\<exists>ev s'. sse_deliver (s\<lparr>sse_line := []\<rparr>) = Deliver ev s' \<and>
    ev_abs ev = \<lparr>es_type = sp_type st, es_data = butlast (data_bytes (sp_data st)), es_id = sp_id st, es_retry = sp_retry st\<rparr> \<and>
    sse_inv s' \<and> bom_checked s' \<and> stands_for s' (st\<lparr>sp_data := [], sp_type := [], sp_retry := None\<rparr>) \<and>
    sse_line s' = [] \<and> skip_lf s' = skip_lf s \<and> line_cap s' = line_cap s \<and> data_cap s' = data_cap s"
proof -
  have e: "sse_data s = data_bytes (sp_data st)" "sse_type s = sp_type st" "sse_id s = sp_id st"
    "sp_retry st = (if has_retry s then Some (unat (retry_ms s)) else None)"
    using st unfolding stands_for_def by blast+
  have i: "sse_ready s" "32 \<le> line_cap s" "length (sse_id s) \<le> 128" using inv unfolding sse_inv_def by blast+
  show ?thesis unfolding sse_deliver_def
    by (rule exI, rule exI, rule conjI, rule refl)
      (use i inv(2) in \<open>simp add: ev_abs_def e butlast_conv_take sse_inv_def stands_for_def data_bytes_def\<close>)
qed

text \<open>The end of a line.\<close>

lemma line_end:
  assumes inv: "sse_inv s" and b: "bom_checked s" and st: "stands_for s st" and c: "c = CR \<or> c = LF" and k: "\<not> (skip_lf s \<and> c = LF)"
  shows "case spec_line (data_cap s) st (sse_line s) of
      None \<Rightarrow> \<exists>s'. sse_byte s c = Fail PROVEN_ERR_OUT_OF_BOUNDS s' \<and> failed s'
    | Some (ev, st') \<Rightarrow> \<exists>s'. sse_inv s' \<and> bom_checked s' \<and> stands_for s' st' \<and> sse_line s' = [] \<and> skip_lf s' = (c = CR) \<and>
        line_cap s' = line_cap s \<and> data_cap s' = data_cap s \<and>
        (case ev of None \<Rightarrow> sse_byte s c = Continue s' \<and> failed s' = failed s | Some e \<Rightarrow> \<exists>v. sse_byte s c = Deliver v s' \<and> ev_abs v = e \<and> failed s' = failed s)"
proof -
  let ?s = "s\<lparr>skip_lf := (c = CR), bom_checked := True\<rparr>"
  have inv': "sse_inv ?s" and st': "stands_for ?s st" using inv_skip [OF inv b] stands_skip [OF st] by blast+
  have byte: "sse_byte s c = (case sse_line_step ?s of (e, dispatch, s) \<Rightarrow>
        if e \<noteq> PROVEN_OK then Fail e (s\<lparr>sse_line := [], failed := True\<rparr>)
        else if dispatch then sse_deliver (s\<lparr>sse_line := []\<rparr>) else Continue (s\<lparr>sse_line := []\<rparr>))"
    using c k b by (auto simp: sse_byte_def sse_plain_byte_def Let_def split: prod.split)
  note step = line_step_spec [OF inv' st']
  show ?thesis
  proof (cases "spec_line (data_cap s) st (sse_line s)")
    case None
    then show ?thesis using step unfolding byte by auto
  next
    case (Some r)
    obtain ev st2 where r: "r = (ev, st2)" by fastforce
    show ?thesis
    proof (cases ev)
      case None
      then obtain s' where s': "sse_line_step ?s = (PROVEN_OK, False, s')" "stands_for s' st2" "sse_inv s'" "same_frame ?s s'"
        using step Some r by auto
      then have f: "bom_checked s'" "skip_lf s' = (c = CR)" "line_cap s' = line_cap s" "data_cap s' = data_cap s" "failed s' = failed s"
        unfolding same_frame_def by simp_all
      have "sse_byte s c = Continue (s'\<lparr>sse_line := []\<rparr>)" using s'(1) unfolding byte by simp
      moreover have "sse_inv (s'\<lparr>sse_line := []\<rparr>)" "stands_for (s'\<lparr>sse_line := []\<rparr>) st2"
        using inv_line [OF s'(3) f(1)] stands_skip [OF s'(2)] by simp_all
      ultimately show ?thesis using f Some r None by (auto intro!: exI [of _ "s'\<lparr>sse_line := []\<rparr>"])
    next
      case (Some e)
      with step \<open>spec_line (data_cap s) st (sse_line s) = Some r\<close> r
      have d: "sse_line_step ?s = (PROVEN_OK, True, ?s)" "sp_data st \<noteq> []"
        "e = \<lparr>es_type = sp_type st, es_data = butlast (data_bytes (sp_data st)), es_id = sp_id st, es_retry = sp_retry st\<rparr>"
        "st2 = st\<lparr>sp_data := [], sp_type := [], sp_retry := None\<rparr>" by auto
      have b': "bom_checked ?s" by simp
      obtain v s' where v: "sse_deliver (?s\<lparr>sse_line := []\<rparr>) = Deliver v s'" "ev_abs v = e" "sse_inv s'" "bom_checked s'" "stands_for s' st2"
        "sse_line s' = []" "skip_lf s' = (c = CR)" "line_cap s' = line_cap s" "data_cap s' = data_cap s"
        using deliver_spec [OF inv' b' st' d(2)] unfolding d(3,4) by auto
      have "sse_byte s c = Deliver v s'" using d(1) v(1) unfolding byte by simp
      moreover have "failed s' = failed s" using v(1) by (auto simp: sse_deliver_def)
      ultimately show ?thesis using v Some r \<open>spec_line (data_cap s) st (sse_line s) = Some r\<close> by auto
    qed
  qed
qed

lemma run_spec:
  assumes "sse_inv s" and "bom_checked s" and "stands_for s st"
  shows "outcome (sse_run s cs) = spec_lines (line_cap s) (data_cap s) st (prepend (sse_line s) (lf_lines (uniform_ends (after (skip_lf s) cs))))"
  using assms
proof (induction cs arbitrary: s st)
  case Nil
  then have "length (sse_line s) \<le> line_cap s" unfolding sse_inv_def by blast
  then show ?case by (simp add: after_def prepend_def)
next
  case (Cons c cs)
  note inv = Cons.prems(1) and b = Cons.prems(2) and st = Cons.prems(3)
  have len: "length (sse_line s) \<le> line_cap s" using inv unfolding sse_inv_def by blast
  consider "skip_lf s" "c = LF" | "\<not> (skip_lf s \<and> c = LF)" "c = CR \<or> c = LF" | "c \<noteq> CR" "c \<noteq> LF" by blast
  then show ?case
  proof cases
    case 1
    have "sse_byte s c = Continue (s\<lparr>skip_lf := False\<rparr>)" using 1 b by (simp add: sse_byte_def sse_plain_byte_def)
    then show ?thesis using Cons.IH [of "s\<lparr>skip_lf := False\<rparr>" st] inv_skip [OF inv b] stands_skip [OF st] b 1
      by (simp add: after_def)
  next
    case 2
    have a: "after (skip_lf s) (c # cs) = c # cs" using 2(1) by (auto simp: after_def)
    have lines: "prepend (sse_line s) (lf_lines (uniform_ends (c # cs))) = sse_line s # lf_lines (uniform_ends (after (c = CR) cs))"
      using 2(2) by (auto simp: uniform_cons prepend_LF)
    note e = line_end [OF inv b st 2(2,1)]
    show ?thesis
    proof (cases "spec_line (data_cap s) st (sse_line s)")
      case None
      then show ?thesis using e len unfolding a lines spec_lines_Cons by auto
    next
      case (Some r)
      obtain ev st2 where r: "r = (ev, st2)" by fastforce
      obtain s' where s': "sse_inv s'" "bom_checked s'" "stands_for s' st2" "sse_line s' = []" "skip_lf s' = (c = CR)"
        "line_cap s' = line_cap s" "data_cap s' = data_cap s"
        "case ev of None \<Rightarrow> sse_byte s c = Continue s' \<and> failed s' = failed s
          | Some e \<Rightarrow> \<exists>v. sse_byte s c = Deliver v s' \<and> ev_abs v = e \<and> failed s' = failed s"
        using e Some r by auto
      have IH: "outcome (sse_run s' cs) = spec_lines (line_cap s) (data_cap s) st2 (lf_lines (uniform_ends (after (c = CR) cs)))"
        using Cons.IH [OF s'(1,2,3)] unfolding s'(4,5,6,7) prepend_Nil .
      show ?thesis
      proof (cases ev)
        case None
        then show ?thesis using s'(8) IH len Some r unfolding a lines spec_lines_Cons by (simp split: prod.split)
      next
        case (Some e)
        then obtain v where "sse_byte s c = Deliver v s'" "ev_abs v = e" using s'(8) by auto
        then show ?thesis using IH len Some r \<open>spec_line (data_cap s) st (sse_line s) = Some r\<close> unfolding a lines spec_lines_Cons by simp
      qed
    qed
  next
    case 3
    have a: "after (skip_lf s) (c # cs) = c # cs" using 3 by (auto simp: after_def)
    have u: "uniform_ends (c # cs) = c # uniform_ends cs" using 3 by (simp add: uniform_cons)
    show ?thesis
    proof (cases "length (sse_line s) \<ge> line_cap s")
      case True
      then have "sse_byte s c = Fail PROVEN_ERR_OUT_OF_BOUNDS (s\<lparr>skip_lf := False, failed := True\<rparr>)"
        using 3 b by (simp add: sse_byte_def sse_plain_byte_def)
      then show ?thesis using spec_lines_too_long [OF True 3(2)] unfolding a u by simp
    next
      case False
      let ?s = "s\<lparr>skip_lf := False, sse_line := sse_line s @ [c]\<rparr>"
      have "sse_byte s c = Continue ?s" using 3 b False by (simp add: sse_byte_def sse_plain_byte_def)
      moreover have "sse_inv ?s"
        using inv_line [of "s\<lparr>skip_lf := False\<rparr>" "sse_line s @ [c]"] inv_skip [OF inv b] b False by simp
      moreover have "stands_for ?s st" using stands_skip [of "s\<lparr>skip_lf := False\<rparr>"] stands_skip [OF st] by blast
      ultimately show ?thesis using Cons.IH [of ?s st] b unfolding a u prepend_other [OF 3(2)] by simp
    qed
  qed
qed

end
