(* ===== verification/Sse_Props.thy ===== *)
theory Sse_Props
  imports Sse_Spec
begin

text \<open>
  The parser from its start, fed in pieces by a client that comes back with the rest after each event.
\<close>

section \<open>The byte order mark\<close>

lemma bom_bytes: "bom ! 0 = 0xef" "bom ! Suc 0 = 0xbb" "bom ! 2 = 0xbf" "take 0 bom = []" "take (Suc 0) bom = [0xef]" "take 2 bom = [0xef, 0xbb]" "length bom = 3"
  by (simp_all add: bom_def)

lemma bom_not_ends: "(0xef :: byte) \<noteq> CR" "(0xef :: byte) \<noteq> LF" "(0xbb :: byte) \<noteq> CR" "(0xbb :: byte) \<noteq> LF"
  by (simp_all add: CR_def LF_def)

lemma start_other:
  assumes "k < 3" and "c \<noteq> bom ! k"
  shows "lf_lines (uniform_ends (without_bom (take k bom @ c # cs))) = prepend (take k bom) (lf_lines (uniform_ends (c # cs)))"
proof -
  have k: "k = 0 \<or> k = Suc 0 \<or> k = 2" using assms(1) by auto
  then have "without_bom (take k bom @ c # cs) = take k bom @ c # cs"
    using assms(2) by (elim disjE) (auto simp: without_bom_def bom_def)
  moreover have "lf_lines (uniform_ends (take k bom @ xs)) = prepend (take k bom) (lf_lines (uniform_ends xs))" for xs
    using k lf_lines_nonempty [of "uniform_ends xs"]
    by (elim disjE) (simp_all add: bom_bytes prepend_Nil uniform_cons bom_not_ends, simp_all add: prepend_def)
  ultimately show ?thesis by simp
qed

lemma run_start:
  assumes "sse_inv s" and "\<not> bom_checked s" and "stands_for s st"
  shows "outcome (sse_run s cs) = spec_lines (line_cap s) (data_cap s) st (lf_lines (uniform_ends (without_bom (take (bom_seen s) bom @ cs))))"
  using assms
proof (induction cs arbitrary: s)
  case Nil
  then have k: "bom_seen s < 3" and line: "sse_line s = take (bom_seen s) bom" and lc: "32 \<le> line_cap s" unfolding sse_inv_def by blast+
  have k': "bom_seen s = 0 \<or> bom_seen s = Suc 0 \<or> bom_seen s = 2" using k by auto
  then have "without_bom (take (bom_seen s) bom) = take (bom_seen s) bom"
    by (elim disjE) (simp_all add: without_bom_def bom_def)
  moreover have "lf_lines (uniform_ends (take (bom_seen s) bom)) = [take (bom_seen s) bom]"
    using k' by (elim disjE) (simp_all add: bom_bytes bom_not_ends)
  ultimately show ?case using lc by (simp add: bom_bytes)
next
  case (Cons c cs)
  then have k: "bom_seen s < 3" and line: "sse_line s = take (bom_seen s) bom" and skip: "\<not> skip_lf s" and lc: "32 \<le> line_cap s"
    unfolding sse_inv_def by blast+
  show ?case
  proof (cases "c = bom ! bom_seen s")
    case False
    let ?s = "s\<lparr>bom_checked := True\<rparr>"
    have "sse_byte s c = sse_byte ?s c" using False Cons.prems(2) by (simp add: sse_byte_def)
    then have "sse_run s (c # cs) = sse_run ?s (c # cs)" by simp
    also have "outcome \<dots> = spec_lines (line_cap s) (data_cap s) st (prepend (sse_line s) (lf_lines (uniform_ends (c # cs))))"
    proof -
      have "sse_inv ?s" using Cons.prems(1) unfolding sse_inv_def by simp
      moreover have "stands_for ?s st" using Cons.prems(3) by (simp add: stands_for_def)
      ultimately show ?thesis using run_spec [of ?s st "c # cs"] skip by (simp del: sse_run.simps)
    qed
    finally show ?thesis using start_other [OF k False] line by simp
  next
    case True
    show ?thesis
    proof (cases "bom_seen s = 2")
      case two: True
      let ?s = "s\<lparr>bom_seen := 3, bom_checked := True, sse_line := []\<rparr>"
      have byte: "sse_byte s c = Continue ?s" using True two Cons.prems(2) by (simp add: sse_byte_def Let_def)
      have "sse_inv ?s" using Cons.prems(1) unfolding sse_inv_def by simp
      moreover have "stands_for ?s st" using Cons.prems(3) by (simp add: stands_for_def)
      ultimately have "outcome (sse_run ?s cs) = spec_lines (line_cap s) (data_cap s) st (lf_lines (uniform_ends cs))"
        using run_spec [of ?s st cs] skip by (simp add: prepend_Nil)
      moreover have "without_bom (take (bom_seen s) bom @ c # cs) = cs"
        using two True by (simp add: without_bom_def bom_def)
      ultimately show ?thesis using byte by simp
    next
      case False
      then have k: "bom_seen s = 0 \<or> bom_seen s = Suc 0" using k by auto
      let ?s = "s\<lparr>bom_seen := bom_seen s + 1, skip_lf := False, sse_line := sse_line s @ [c]\<rparr>"
      have line1: "sse_line s @ [c] = take (bom_seen s + 1) bom" using k line True by (auto simp: bom_bytes numeral_2_eq_2 [symmetric] bom_def)
      have "c \<noteq> CR" "c \<noteq> LF" "\<not> length (sse_line s) \<ge> line_cap s" using k True bom_not_ends line lc by (auto simp: bom_bytes)
      then have byte: "sse_byte s c = Continue ?s"
        using True False Cons.prems(2) k by (auto simp: sse_byte_def sse_plain_byte_def Let_def)
      have "sse_inv ?s" using Cons.prems(1,2) line1 k lc unfolding sse_inv_def by (auto simp: bom_bytes)
      moreover have "stands_for ?s st" using Cons.prems(3) by (simp add: stands_for_def)
      ultimately have "outcome (sse_run ?s cs) = spec_lines (line_cap s) (data_cap s) st
          (lf_lines (uniform_ends (without_bom (take (bom_seen s + 1) bom @ cs))))"
        using Cons.IH [of ?s] Cons.prems(2) by simp
      then show ?thesis using byte line1 [symmetric] line by simp
    qed
  qed
qed

section \<open>Every state that is reached\<close>

definition sse_good :: "proven_sse_t \<Rightarrow> bool" where
  "sse_good s \<longleftrightarrow> sse_inv s \<and> \<not> failed s \<and> (\<exists>st. stands_for s st)"

lemma goodI: "sse_inv s \<Longrightarrow> \<not> failed s \<Longrightarrow> stands_for s st \<Longrightarrow> sse_good s"
  by (auto simp: sse_good_def)

lemma byte_good_checked:
  assumes g: "sse_good s" and b: "bom_checked s"
  shows "case sse_byte s c of Continue s' \<Rightarrow> sse_good s' | Deliver v s' \<Rightarrow> sse_good s' | Fail e s' \<Rightarrow> e = PROVEN_ERR_OUT_OF_BOUNDS \<and> failed s'"
proof -
  obtain st where st: "stands_for s st" and inv: "sse_inv s" and f: "\<not> failed s" using g by (auto simp: sse_good_def)
  consider "skip_lf s" "c = LF" | "\<not> (skip_lf s \<and> c = LF)" "c = CR \<or> c = LF" | "c \<noteq> CR" "c \<noteq> LF" by blast
  then show ?thesis
  proof cases
    case 1
    have "sse_byte s c = Continue (s\<lparr>skip_lf := False\<rparr>)" using 1 b by (simp add: sse_byte_def sse_plain_byte_def)
    moreover have "sse_good (s\<lparr>skip_lf := False\<rparr>)"
      using inv_skip [OF inv b] stands_skip [OF st] f by (intro goodI [of _ st]) simp_all
    ultimately show ?thesis by simp
  next
    case 2
    note e = line_end [OF inv b st 2(2,1)]
    show ?thesis
    proof (cases "spec_line (data_cap s) st (sse_line s)")
      case None
      then show ?thesis using e by auto
    next
      case (Some r)
      obtain ev st2 where r: "r = (ev, st2)" by fastforce
      then show ?thesis using e Some f by (cases ev) (auto simp: sse_good_def)
    qed
  next
    case 3
    show ?thesis
    proof (cases "length (sse_line s) \<ge> line_cap s")
      case True
      then show ?thesis using 3 b by (simp add: sse_byte_def sse_plain_byte_def)
    next
      case False
      let ?s = "s\<lparr>skip_lf := False, sse_line := sse_line s @ [c]\<rparr>"
      have "sse_byte s c = Continue ?s" using 3 b False by (simp add: sse_byte_def sse_plain_byte_def)
      moreover have "sse_inv ?s"
        using inv_line [of "s\<lparr>skip_lf := False\<rparr>" "sse_line s @ [c]"] inv_skip [OF inv b] b False by simp
      moreover have "stands_for ?s st" using stands_skip [of "s\<lparr>skip_lf := False\<rparr>"] stands_skip [OF st] by blast
      ultimately have "sse_good ?s" using f by (intro goodI [of _ st]) simp_all
      then show ?thesis using \<open>sse_byte s c = Continue ?s\<close> by simp
    qed
  qed
qed

lemma byte_good:
  assumes g: "sse_good s"
  shows "case sse_byte s c of Continue s' \<Rightarrow> sse_good s' | Deliver v s' \<Rightarrow> sse_good s' | Fail e s' \<Rightarrow> e = PROVEN_ERR_OUT_OF_BOUNDS \<and> failed s'"
proof (cases "bom_checked s")
  case True
  then show ?thesis using byte_good_checked [OF g] by blast
next
  case nb: False
  obtain st where st: "stands_for s st" and inv: "sse_inv s" and f: "\<not> failed s" using g by (auto simp: sse_good_def)
  have k: "bom_seen s < 3" and line: "sse_line s = take (bom_seen s) bom" and skip: "\<not> skip_lf s" and lc: "32 \<le> line_cap s"
    using inv nb unfolding sse_inv_def by blast+
  let ?b = "s\<lparr>bom_checked := True\<rparr>"
  show ?thesis
  proof (cases "c = bom ! bom_seen s")
    case False
    have "sse_byte s c = sse_byte ?b c" using False nb by (simp add: sse_byte_def)
    moreover have "sse_good ?b"
    proof (rule goodI)
      show "sse_inv ?b" using inv unfolding sse_inv_def by simp
      show "stands_for ?b st" using st unfolding stands_for_def by simp
    qed (use f in simp)
    ultimately show ?thesis using byte_good_checked [of ?b c] by simp
  next
    case True
    show ?thesis
    proof (cases "bom_seen s = 2")
      case two: True
      have byte: "sse_byte s c = Continue (s\<lparr>bom_seen := 3, bom_checked := True, sse_line := []\<rparr>)"
        using True two nb by (simp add: sse_byte_def Let_def)
      have "sse_inv (s\<lparr>bom_seen := 3, bom_checked := True, sse_line := []\<rparr>)" using inv unfolding sse_inv_def by simp
      moreover have "stands_for (s\<lparr>bom_seen := 3, bom_checked := True, sse_line := []\<rparr>) st" using st unfolding stands_for_def by simp
      ultimately show ?thesis using byte f goodI by simp
    next
      case False
      then have k: "bom_seen s = 0 \<or> bom_seen s = Suc 0" using k by auto
      let ?s = "s\<lparr>bom_seen := bom_seen s + 1, skip_lf := False, sse_line := sse_line s @ [c]\<rparr>"
      have line1: "sse_line s @ [c] = take (bom_seen s + 1) bom" using k line True by (auto simp: bom_bytes numeral_2_eq_2 [symmetric] bom_def)
      have "c \<noteq> CR" "c \<noteq> LF" "\<not> length (sse_line s) \<ge> line_cap s" using k True bom_not_ends line lc by (auto simp: bom_bytes)
      then have byte: "sse_byte s c = Continue ?s"
        using True False nb k by (auto simp: sse_byte_def sse_plain_byte_def Let_def)
      have "sse_inv ?s" using inv nb line1 k lc unfolding sse_inv_def by (auto simp: bom_bytes)
      moreover have "stands_for ?s st" using st unfolding stands_for_def by simp
      ultimately show ?thesis using byte f goodI by simp
    qed
  qed
qed

section \<open>Feeding\<close>

lemma feed_loop:
  assumes "sse_good s" and "sse_feed_loop s cs i = (e, n, ev, s')"
  shows "(e = PROVEN_OK \<longrightarrow> sse_good s' \<and> (case ev of
      None \<Rightarrow> n = i + length cs \<and> sse_run s cs = ([], PROVEN_OK, s')
    | Some v \<Rightarrow> i < n \<and> n \<le> i + length cs \<and>
        sse_run s cs = (case sse_run s' (drop (n - i) cs) of (evs, e, s'') \<Rightarrow> (v # evs, e, s'')))) \<and>
    (e \<noteq> PROVEN_OK \<longrightarrow> e = PROVEN_ERR_OUT_OF_BOUNDS \<and> failed s' \<and> ev = None \<and> n = 0 \<and> sse_run s cs = ([], e, s'))"
  using assms
proof (induction cs arbitrary: s i)
  case (Cons c cs)
  note g = byte_good [OF Cons.prems(1), of c]
  show ?case
  proof (cases "sse_byte s c")
    case (Continue t)
    then have "sse_good t" "sse_feed_loop t cs (i + 1) = (e, n, ev, s')" using g Cons.prems(2) by simp_all
    moreover have "drop (n - i) (c # cs) = drop (n - Suc i) cs" if "Suc i < n"
      using that by (metis Suc_diff_Suc Suc_lessD drop_Suc_Cons)
    ultimately show ?thesis using Cons.IH [of t "i + 1"] Continue by (auto split: option.splits)
  next
    case (Deliver v t)
    then show ?thesis using g Cons.prems(2) by auto
  next
    case (Fail e' t)
    then show ?thesis using g Cons.prems(2) by auto
  qed
qed auto

lemma feed_at: "sse_good s \<Longrightarrow> proven_sse_feed (Some s) (At xs) = (case sse_feed_loop s xs 0 of (e, n, ev, s) \<Rightarrow> (e, n, ev, Some s))"
  by (simp add: proven_sse_feed_def sse_good_def sse_inv_def)

text \<open>C28: from a state that was reached, a call that succeeds either consumes all it was given or delivers an event, having consumed
  at least a byte; the state is again one that is reached, its buffers within their capacities. A call that
  fails has met a limit; it delivers nothing, and every later call is refused.\<close>

theorem sse_feed_progress:
  assumes "sse_good s" and "proven_sse_feed (Some s) (At xs) = (e, n, ev, r)"
  shows "\<exists>s'. r = Some s' \<and>
    (e = PROVEN_OK \<longrightarrow> sse_good s' \<and> length (sse_line s') \<le> line_cap s' \<and> length (sse_data s') \<le> data_cap s' \<and>
      length (sse_type s') \<le> 64 \<and> length (sse_id s') \<le> 128 \<and> (if ev = None then n = length xs else 0 < n \<and> n \<le> length xs)) \<and>
    (e \<noteq> PROVEN_OK \<longrightarrow> e = PROVEN_ERR_OUT_OF_BOUNDS \<and> ev = None \<and> n = 0 \<and>
      (\<forall>ys. proven_sse_feed (Some s') (At ys) = (PROVEN_ERR_INVALID_STATE, 0, None, Some s')))"
proof -
  obtain e' n' ev' s' where l: "sse_feed_loop s xs 0 = (e', n', ev', s')" by (metis prod_cases4)
  then have eq: "e' = e" "n' = n" "ev' = ev" "r = Some s'" using assms feed_at by auto
  have "sse_good s' \<Longrightarrow> length (sse_line s') \<le> line_cap s' \<and> length (sse_data s') \<le> data_cap s' \<and> length (sse_type s') \<le> 64 \<and> length (sse_id s') \<le> 128"
    unfolding sse_good_def sse_inv_def by blast
  then show ?thesis using feed_loop [OF assms(1) l] unfolding eq
    by (cases ev) (auto simp: proven_sse_feed_def)
qed

lemma sse_feed_progress_witness:
  "\<exists>s r. proven_sse_init (At (replicate 64 0)) = (PROVEN_OK, s) \<and> proven_sse_feed (Some s) (At [100, 97]) = (PROVEN_OK, 2, None, Some r) \<and>
    sse_good r"
proof -
  obtain s where s: "proven_sse_init (At (replicate 64 0)) = (PROVEN_OK, s)" by (simp add: proven_sse_init_def)
  then have z: "s = sse_zero\<lparr>sse_ready := True, line_cap := 32, data_cap := 32\<rparr>" by (simp add: proven_sse_init_def)
  have "sse_inv s" "stands_for s new_stream" "\<not> failed s"
    unfolding z by (simp_all add: sse_inv_def stands_for_def sse_zero_def new_stream_def data_bytes_def)
  then have g: "sse_good s" by (auto simp: sse_good_def)
  obtain e n ev r where f: "proven_sse_feed (Some s) (At [100, 97]) = (e, n, ev, r)" by (metis prod_cases4)
  have "e = PROVEN_OK" "ev = None" using f unfolding z
    by (auto simp: proven_sse_feed_def sse_zero_def sse_byte_def bom_def sse_plain_byte_def CR_def LF_def)
  then show ?thesis using sse_feed_progress [OF g f] s f by auto
qed

text \<open>The client: it calls again with the rest after each event, at most \<open>fuel\<close> times.\<close>

fun sse_client :: "nat \<Rightarrow> proven_sse_t \<Rightarrow> byte list \<Rightarrow> proven_sse_event_t list \<times> proven_err \<times> proven_sse_t" where
  "sse_client 0 s xs = ([], PROVEN_OK, s)"
| "sse_client (Suc fuel) s xs = (case proven_sse_feed (Some s) (At xs) of (e, n, ev, r) \<Rightarrow>
     (case ev of None \<Rightarrow> ([], e, the r)
      | Some v \<Rightarrow> (case sse_client fuel (the r) (drop n xs) of (evs, e, s') \<Rightarrow> (v # evs, e, s'))))"

fun sse_client_pieces :: "proven_sse_t \<Rightarrow> byte list list \<Rightarrow> proven_sse_event_t list \<times> proven_err \<times> proven_sse_t" where
  "sse_client_pieces s [] = ([], PROVEN_OK, s)"
| "sse_client_pieces s (xs # xss) = (case sse_client (Suc (length xs)) s xs of (evs, e, s') \<Rightarrow>
     if e \<noteq> PROVEN_OK then (evs, e, s')
     else case sse_client_pieces s' xss of (evs', e', s'') \<Rightarrow> (evs @ evs', e', s''))"

lemma client_run:
  assumes "sse_good s" and "length xs < fuel"
  shows "sse_client fuel s xs = sse_run s xs \<and> (fst (snd (sse_run s xs)) = PROVEN_OK \<longrightarrow> sse_good (snd (snd (sse_run s xs))))"
  using assms
proof (induction fuel arbitrary: s xs)
  case (Suc fuel)
  obtain e n ev s' where l: "sse_feed_loop s xs 0 = (e, n, ev, s')" by (metis prod_cases4)
  have f: "proven_sse_feed (Some s) (At xs) = (e, n, ev, Some s')" using feed_at [OF Suc.prems(1)] l by simp
  note fl = feed_loop [OF Suc.prems(1) l]
  show ?case
  proof (cases "e = PROVEN_OK")
    case False
    then show ?thesis using fl f by simp
  next
    case ok: True
    show ?thesis
    proof (cases ev)
      case None
      then show ?thesis using fl f ok by simp
    next
      case (Some v)
      have g: "sse_good s'" and n: "0 < n" "n \<le> length xs"
        and r: "sse_run s xs = (case sse_run s' (drop n xs) of (evs, e, s'') \<Rightarrow> (v # evs, e, s''))" using fl ok Some by auto
      have "length (drop n xs) < fuel" using n Suc.prems(2) by simp
      from Suc.IH [OF g this] show ?thesis using f Some r by (auto split: prod.splits)
    qed
  qed
qed simp

lemma run_append: "sse_run s (xs @ ys) = (case sse_run s xs of (evs, e, s') \<Rightarrow>
    if e \<noteq> PROVEN_OK then (evs, e, s') else case sse_run s' ys of (evs', e', s'') \<Rightarrow> (evs @ evs', e', s''))"
  if "sse_good s"
  using that
proof (induction xs arbitrary: s)
  case (Cons c xs)
  note g = byte_good [OF Cons.prems, of c]
  show ?case using g Cons.IH by (auto split: byte_result.splits prod.splits)
qed (auto split: prod.splits)

lemma pieces_run: "sse_good s \<Longrightarrow> sse_client_pieces s xss = sse_run s (concat xss)"
proof (induction xss arbitrary: s)
  case (Cons xs xss)
  note c = client_run [OF Cons.prems, of xs "Suc (length xs)"]
  obtain evs e s' where r: "sse_run s xs = (evs, e, s')" by (metis prod_cases3)
  have "sse_client (Suc (length xs)) s xs = (evs, e, s')" "e = PROVEN_OK \<Longrightarrow> sse_good s'" using c r by simp_all
  then show ?case using Cons.IH [of s'] r run_append [OF Cons.prems, of xs "concat xss"]
    by (simp del: sse_client.simps)
qed simp

lemma init_good:
  assumes "proven_sse_init (At work) = (PROVEN_OK, s)"
  shows "sse_good s \<and> stands_for s new_stream \<and> \<not> bom_checked s \<and> bom_seen s = 0 \<and>
    line_cap s = length work div 2 \<and> data_cap s = length work - length work div 2"
proof -
  have "64 \<le> length work" and s: "s = sse_zero\<lparr>sse_ready := True, line_cap := length work div 2, data_cap := length work - length work div 2\<rparr>"
    using assms by (auto simp: proven_sse_init_def split: if_splits)
  then have "sse_inv s" "stands_for s new_stream" by (simp_all add: sse_inv_def stands_for_def sse_zero_def new_stream_def data_bytes_def)
  then show ?thesis using s by (auto simp: sse_good_def sse_zero_def)
qed

text \<open>C27: a stream fed in any pieces gives the events of the HTML standard: those of its text without a leading byte order mark, its
  line ends made uniform, read line by line. The parser stops with an error exactly where a line, a value or the data of an event does
  not fit, and has delivered every event before that.\<close>

theorem sse_standard:
  assumes "proven_sse_init (At work) = (PROVEN_OK, s)" and "sse_client_pieces s pieces = (evs, e, s')"
  shows "(map ev_abs evs, e = PROVEN_OK) = spec_lines (length work div 2) (length work - length work div 2) new_stream
    (lf_lines (uniform_ends (without_bom (concat pieces))))"
proof -
  note i = init_good [OF assms(1)]
  then have inv: "sse_inv s" by (simp add: sse_good_def)
  have "sse_run s (concat pieces) = (evs, e, s')" using pieces_run [of s pieces] i assms(2) by simp
  then have "outcome (sse_run s (concat pieces)) = (map ev_abs evs, e = PROVEN_OK)" by (simp add: outcome_def)
  then show ?thesis using run_start [OF inv, of new_stream "concat pieces"] i by simp
qed

lemma sse_standard_witness:
  "\<exists>s evs e s'. proven_sse_init (At (replicate 64 0)) = (PROVEN_OK, s) \<and>
    sse_client_pieces s [[0xef, 0xbb], [0xbf, 100, 97, 116, 97, 58, 32, 104, 105, 13], [10, 13, 100]] = (evs, e, s') \<and>
    map ev_abs evs = [\<lparr>es_type = [], es_data = [104, 105], es_id = [], es_retry = None\<rparr>] \<and> e = PROVEN_OK"
proof -
  obtain s where s: "proven_sse_init (At (replicate 64 0)) = (PROVEN_OK, s)" by (simp add: proven_sse_init_def)
  obtain evs e s' where c: "sse_client_pieces s [[0xef, 0xbb], [0xbf, 100, 97, 116, 97, 58, 32, 104, 105, 13], [10, 13, 100]] = (evs, e, s')"
    by (metis prod_cases3)
  have x: "lf_lines (uniform_ends (without_bom (concat [[0xef, 0xbb], [0xbf, 100, 97, 116, 97, 58, 32, 104, 105, 13], [10, 13, 100]]))) =
      [[100, 97, 116, 97, 58, 32, 104, 105], [], [100]]"
    by (simp add: without_bom_def bom_def CR_def LF_def)
  have y: "spec_lines (64 div 2) (64 - 64 div 2) new_stream [[100, 97, 116, 97, 58, 32, 104, 105], [], [100]] =
      ([\<lparr>es_type = [], es_data = [104, 105], es_id = [], es_retry = None\<rparr>], True)"
    by (simp add: spec_line_def new_stream_def COLON_def SPACE_def spec_value_def spec_field_def sse_is_def data_bytes_def)
  have "(map ev_abs evs, e = PROVEN_OK) = ([\<lparr>es_type = [], es_data = [104, 105], es_id = [], es_retry = None\<rparr>], True)"
    using sse_standard [OF s c] unfolding x length_replicate y .
  then have r: "map ev_abs evs = [\<lparr>es_type = [], es_data = [104, 105], es_id = [], es_retry = None\<rparr>]" "e = PROVEN_OK" by simp_all
  show ?thesis by (intro exI conjI) (rule s c r)+
qed

end
