(* ===== verification/Civil_Time.thy ===== *)
theory Civil_Time
  imports Prelude "HOL-Library.Signed_Division"
begin

text \<open>
  Breaking a time down into a civil date (\<^verbatim>\<open>src/proven/time.c\<close>). 64-bit values are integers, with C's division, which rounds
  towards zero; from a 64-bit number of nanoseconds nothing comes near the ends of the range.
\<close>

section \<open>The code\<close>

record proven_datetime_t =
  year :: int
  month :: int
  day :: int
  hour :: int
  minute :: int
  sec :: int
  ms :: int
  weekday :: int

definition calc_weekday :: "int \<Rightarrow> int \<Rightarrow> int \<Rightarrow> int" where
  "calc_weekday yr mo dy =
    (if mo < 1 \<or> mo > 12 then 0
     else let t = [0, 3, 2, 5, 0, 3, 5, 1, 4, 6, 2, 4];
              y = yr - (if mo < 3 then 1 else 0);
              w = (y + y sdiv 4 - y sdiv 100 + y sdiv 400 + t ! nat (mo - 1) + dy) smod 7 in
       if w < 0 then w + 7 else w)"

text \<open>A quotient and a remainder rounded down, as the code makes them out of C's.\<close>

definition floor_step :: "int \<Rightarrow> int \<Rightarrow> int \<times> int" where
  "floor_step a b = (let q = a sdiv b; r = a smod b in if r < 0 then (q - 1, r + b) else (q, r))"

definition civil_from_days :: "int \<Rightarrow> int \<times> int \<times> int" where
  "civil_from_days days =
    (let z = days + 719468;
         era = (if z \<ge> 0 then z else z - 146096) sdiv 146097;
         doe = z - era * 146097;
         yoe = (doe - doe sdiv 1460 + doe sdiv 36524 - doe sdiv 146096) sdiv 365;
         y = yoe + era * 400;
         doy = doe - (365 * yoe + yoe sdiv 4 - yoe sdiv 100);
         mp = (5 * doy + 2) sdiv 153;
         d = doy - (153 * mp + 2) sdiv 5 + 1;
         m = (if mp < 10 then mp + 3 else mp - 9) in
     (y + (if m \<le> 2 then 1 else 0), m, d))"

definition proven_time_breakdown :: "int \<Rightarrow> proven_datetime_t" where
  "proven_time_breakdown time_ns =
    (let (seconds, nsec) = floor_step time_ns 1000000000;
         msec = nsec sdiv 1000000;
         (days, rem) = floor_step seconds 86400;
         (y, m, d) = civil_from_days days;
         w = (days + 4) smod 7 in
     \<lparr>year = y, month = m, day = d, hour = rem sdiv 3600, minute = (rem smod 3600) sdiv 60, sec = rem smod 60, ms = msec,
      weekday = (if w < 0 then w + 7 else w)\<rparr>)"

section \<open>The proleptic Gregorian calendar\<close>

definition leap :: "int \<Rightarrow> bool" where
  "leap y \<longleftrightarrow> 4 dvd y \<and> (\<not> 100 dvd y \<or> 400 dvd y)"

definition month_days :: "int \<Rightarrow> int \<Rightarrow> int" where
  "month_days y m = (if m = 2 then (if leap y then 29 else 28) else if m = 4 \<or> m = 6 \<or> m = 9 \<or> m = 11 then 30 else 31)"

text \<open>Days from the first of January of year 1 to that of year \<open>y\<close>, and to the first of a month.\<close>

definition year_start :: "int \<Rightarrow> int" where
  "year_start y = 365 * (y - 1) + (y - 1) div 4 - (y - 1) div 100 + (y - 1) div 400"

definition month_start :: "int \<Rightarrow> int \<Rightarrow> int" where
  "month_start y m = sum_list (map (month_days y) [1..m - 1])"

definition day_number :: "int \<Rightarrow> int \<Rightarrow> int \<Rightarrow> int" where
  "day_number y m d = year_start y + month_start y m + (d - 1) - year_start 1970"

definition valid_date :: "int \<Rightarrow> int \<Rightarrow> int \<Rightarrow> bool" where
  "valid_date y m d \<longleftrightarrow> 1 \<le> m \<and> m \<le> 12 \<and> 1 \<le> d \<and> d \<le> month_days y m"

lemma div_step:
  fixes y k :: int
  assumes "0 < k"
  shows "y div k = (y - 1) div k + (if k dvd y then 1 else 0)"
proof (cases "k dvd y")
  case True
  then obtain q where q: "y = k * q" by (elim dvdE)
  have "(y - 1) div k = q - 1"
    by (rule int_div_pos_eq [where r = "k - 1"]) (use assms q in \<open>simp_all add: algebra_simps\<close>)
  moreover have "y div k = q" using q assms by simp
  ultimately show ?thesis using True by simp
next
  case False
  have r: "0 < y mod k" using assms False by (metis dvd_eq_mod_eq_0 order_le_less pos_mod_sign)
  have b: "y mod k < k" using assms by (rule pos_mod_bound)
  have e: "k * (y div k) + y mod k = y" by (rule mult_div_mod_eq)
  have "(y - 1) div k = y div k"
    by (rule int_div_pos_eq [where r = "y mod k - 1"]) (use e r b in linarith)+
  then show ?thesis using False by simp
qed

lemma year_start_step: "year_start (y + 1) = year_start y + (if leap y then 366 else 365)"
proof -
  define i where "i k = (if k dvd y then 1 else (0 :: int))" for k
  have "year_start (y + 1) = 365 * y + y div 4 - y div 100 + y div 400" by (simp add: year_start_def)
  also have "\<dots> = 365 * y + ((y - 1) div 4 + i 4) - ((y - 1) div 100 + i 100) + ((y - 1) div 400 + i 400)"
    using div_step [of 4 y] div_step [of 100 y] div_step [of 400 y] by (simp only: i_def zero_less_numeral simp_thms)
  also have "\<dots> = year_start y + (365 + i 4 - i 100 + i 400)" unfolding year_start_def by algebra
  also have "365 + i 4 - i 100 + i 400 = (if leap y then 366 else 365)"
  proof -
    have "4 dvd y" if "100 dvd y" using that by (rule dvd_trans [rotated]) simp
    moreover have "100 dvd y" if "400 dvd y" using that by (rule dvd_trans [rotated]) simp
    ultimately show ?thesis by (cases "4 dvd y"; cases "100 dvd y"; cases "400 dvd y") (simp_all add: i_def leap_def)
  qed
  finally show ?thesis .
qed

section \<open>The year of the era\<close>

definition era_start :: "int \<Rightarrow> int" where
  "era_start y = 365 * y + y div 4 - y div 100"

definition year_index :: "int \<Rightarrow> int" where
  "year_index doe = doe - doe div 1460 + doe div 36524 - doe div 146096"

lemma year_index_step: "year_index (n - 1) \<le> year_index n"
proof -
  define i where "i k = (if k dvd n then 1 else (0 :: int))" for k
  have "36524 dvd n" if "146096 dvd n" using that by (rule dvd_trans [rotated]) simp
  then have i: "0 \<le> 1 - i 1460 + i 36524 - i 146096" by (cases "146096 dvd n") (simp_all add: i_def)
  have "year_index n = n - ((n - 1) div 1460 + i 1460) + ((n - 1) div 36524 + i 36524) - ((n - 1) div 146096 + i 146096)"
    using div_step [of 1460 n] div_step [of 36524 n] div_step [of 146096 n]
    by (simp only: year_index_def i_def zero_less_numeral simp_thms)
  also have "\<dots> = year_index (n - 1) + (1 - i 1460 + i 36524 - i 146096)" unfolding year_index_def by algebra
  finally show ?thesis using i by linarith
qed

lemma year_index_mono: "a \<le> b \<Longrightarrow> year_index a \<le> year_index b"
proof (induction rule: int_ge_induct)
  case (step i)
  then show ?case using year_index_step [of "i + 1"] by simp
qed simp

text \<open>At the ends of each of the 400 years.\<close>

lemma year_ends: "list_all (\<lambda>y. 365 * y \<le> year_index (era_start y) \<and>
    year_index (era_start (y + 1) - (if y = 399 then 0 else 1)) < 365 * (y + 1)) [0..399]"
  by code_simp

lemma year_of_era:
  assumes "0 \<le> doe" and "doe \<le> 146096"
  shows "0 \<le> year_index doe div 365 \<and> year_index doe div 365 \<le> 399 \<and> era_start (year_index doe div 365) \<le> doe \<and>
    doe < era_start (year_index doe div 365 + 1) + (if year_index doe div 365 = 399 then 1 else 0)"
proof -
  define y where "y = year_index doe div 365"
  have "year_index 0 \<le> year_index doe" "year_index doe \<le> year_index 146096" using assms year_index_mono by blast+
  then have i: "0 \<le> year_index doe" "year_index doe \<le> 145999" by (simp_all add: year_index_def)
  have yi: "365 * y \<le> year_index doe" "year_index doe < 365 * (y + 1)"
    using pos_mod_sign [of 365 "year_index doe"] pos_mod_bound [of 365 "year_index doe"] mult_div_mod_eq [of 365 "year_index doe"]
    unfolding y_def by simp_all
  have "0 \<le> y" using i(1) by (simp add: y_def pos_imp_zdiv_nonneg_iff)
  moreover have "y \<le> 399" using zdiv_mono1 [OF i(2), of 365] by (simp add: y_def)
  ultimately have y: "0 \<le> y" "y \<le> 399" .
  have ends: "365 * k \<le> year_index (era_start k) \<and> year_index (era_start (k + 1) - (if k = 399 then 0 else 1)) < 365 * (k + 1)" if "0 \<le> k" "k \<le> 399" for k
    using year_ends that unfolding list_all_iff by simp
  have lo: "era_start y \<le> doe"
  proof (rule ccontr)
    assume "\<not> era_start y \<le> doe"
    then have d: "doe \<le> era_start y - 1" by simp
    show False
    proof (cases "y = 0")
      case True
      then show ?thesis using d assms(1) by (simp add: era_start_def)
    next
      case False
      then have "year_index (era_start y - 1) < 365 * y" using ends [of "y - 1"] y by simp
      then show ?thesis using year_index_mono [OF d] yi(1) by linarith
    qed
  qed
  have hi: "doe < era_start (y + 1) + (if y = 399 then 1 else 0)"
  proof (cases "y = 399")
    case True
    then show ?thesis using assms(2) by (simp add: era_start_def)
  next
    case False
    show ?thesis
    proof (rule ccontr)
      assume "\<not> ?thesis"
      then have d: "era_start (y + 1) \<le> doe" using False by simp
      have "365 * (y + 1) \<le> year_index (era_start (y + 1))" using ends [of "y + 1"] y False by simp
      then show False using year_index_mono [OF d] yi(2) by linarith
    qed
  qed
  show ?thesis using y lo hi unfolding y_def by blast
qed

section \<open>The month of the year\<close>

definition march_days :: "int \<Rightarrow> int" where
  "march_days mp = (153 * mp + 2) div 5"

text \<open>Every day of a year that begins in March: its month, counted from March, and its day.\<close>

lemma march_all:
  "list_all (\<lambda>doy. let mp = (5 * doy + 2) div 153; d = doy - march_days mp + 1 in
    0 \<le> mp \<and> mp \<le> 11 \<and> 1 \<le> d \<and>
    d \<le> (if mp = 11 then (if doy = 365 then 29 else 28) else if mp = 1 \<or> mp = 3 \<or> mp = 6 \<or> mp = 8 then 30 else 31)) [0..365]"
  by code_simp

lemma month_starts:
  assumes "0 \<le> mp" and "mp \<le> 9"
  shows "month_start y (mp + 3) = 59 + (if leap y then 1 else 0) + march_days mp"
proof -
  have "mp = 0 \<or> mp = 1 \<or> mp = 2 \<or> mp = 3 \<or> mp = 4 \<or> mp = 5 \<or> mp = 6 \<or> mp = 7 \<or> mp = 8 \<or> mp = 9" using assms by presburger
  then show ?thesis by (elim disjE) (simp_all add: month_start_def month_days_def march_days_def upto_rec1)
qed

lemma month_starts_next: "mp = 10 \<or> mp = 11 \<Longrightarrow> month_start y (mp - 9) = march_days mp - 306"
  by (elim disjE) (simp_all add: month_start_def month_days_def march_days_def upto_rec1)

text \<open>The first of March of a year, and the day of a year that begins there.\<close>

lemma day_number_march:
  assumes mp: "0 \<le> mp" "mp \<le> 11" and m: "m = (if mp < 10 then mp + 3 else mp - 9)" and yr: "yr = y + (if m \<le> 2 then 1 else 0)"
  shows "day_number yr m d = year_start (y + 1) - 306 + march_days mp + (d - 1) - year_start 1970"
proof (cases "mp < 10")
  case True
  then have "m = mp + 3" "yr = y" using m yr mp by auto
  then show ?thesis using month_starts [of mp y] True mp year_start_step [of y] by (simp add: day_number_def)
next
  case False
  then have "mp = 10 \<or> mp = 11" using mp by auto
  moreover from this have "m = mp - 9" "yr = y + 1" using m yr by auto
  ultimately show ?thesis using month_starts_next [of mp "y + 1"] by (simp add: day_number_def)
qed

section \<open>C's division\<close>

lemma sdiv_nonneg: "0 \<le> a \<Longrightarrow> 0 < b \<Longrightarrow> a sdiv b = a div b" "0 \<le> a \<Longrightarrow> 0 < b \<Longrightarrow> a smod b = a mod b" for a b :: int
  by (auto simp: signed_divide_int_def signed_modulo_int_def sgn_if minus_mult_div_eq_mod)

lemma sdiv_neg: "a < 0 \<Longrightarrow> 0 < b \<Longrightarrow> a sdiv b = - ((- a) div b)" for a b :: int
  by (auto simp: signed_divide_int_def sgn_if)

lemma floor_step: "0 < b \<Longrightarrow> floor_step a b = (a div b, a mod b)"
proof -
  assume b: "0 < b"
  show ?thesis
  proof (cases "0 \<le> a")
    case True
    then show ?thesis using b pos_mod_sign [OF b, of a] by (simp add: floor_step_def sdiv_nonneg not_less Let_def)
  next
    case False
    define q where "q = (- a) div b"
    define r where "r = (- a) mod b"
    have e: "- a = b * q + r" "0 \<le> r" "r < b" using b by (simp_all add: q_def r_def)
    have s: "a sdiv b = - q" using False b by (simp add: sdiv_neg q_def)
    have m: "a smod b = - r" using e(1) minus_mult_sdiv_eq_smod [of a b] by (simp add: s)
    show ?thesis
    proof (cases "r = 0")
      case True
      have "a div b = - q" by (rule int_div_pos_eq [where r = 0]) (use e b True in simp_all)
      moreover have "a mod b = 0" using calculation e(1) True by (simp add: minus_mult_div_eq_mod [symmetric])
      ultimately have "a div b = - q" "a mod b = 0" .
      then show ?thesis using True by (simp add: floor_step_def s m)
    next
      case False
      have "a div b = - q - 1" by (rule int_div_pos_eq [where r = "b - r"]) (use e False in \<open>simp_all add: algebra_simps\<close>)
      moreover have "a mod b = b - r"
      proof -
        have "a mod b = a - b * (- q - 1)" using minus_mult_div_eq_mod [of a b] calculation by simp
        then show ?thesis using e(1) by (simp add: algebra_simps)
      qed
      ultimately show ?thesis using e(2) False by (simp add: floor_step_def s m)
    qed
  qed
qed

lemma era_floor:
  fixes z :: int
  shows "(if z \<ge> 0 then z else z - 146096) sdiv 146097 = z div 146097"
proof (cases "0 \<le> z")
  case True
  then show ?thesis by (simp add: sdiv_nonneg)
next
  case False
  define q where "q = (146096 - z) div 146097"
  define r where "r = (146096 - z) mod 146097"
  have e: "146096 - z = 146097 * q + r" "0 \<le> r" "r < 146097" by (simp_all add: q_def r_def)
  have "z div 146097 = - q" by (rule int_div_pos_eq [where r = "146096 - r"]) (use e in \<open>simp_all add: algebra_simps\<close>)
  then show ?thesis using False sdiv_neg [of "z - 146096" 146097] by (simp add: q_def)
qed

section \<open>The date\<close>

lemma civil_from_days_correct:
  assumes "civil_from_days days = (y, m, d)"
  shows "valid_date y m d \<and> day_number y m d = days"
proof -
  define z where "z = days + 719468"
  define era where "era = z div 146097"
  define doe where "doe = z mod 146097"
  define yoe where "yoe = year_index doe div 365"
  define doy where "doy = doe - era_start yoe"
  define mp where "mp = (5 * doy + 2) div 153"
  define yy where "yy = yoe + era * 400"
  have doe: "0 \<le> doe" "doe \<le> 146096" "z = 146097 * era + doe" by (simp_all add: doe_def era_def)
  note yr = year_of_era [OF doe(1,2), folded yoe_def]
  have step: "era_start (yoe + 1) + (if yoe = 399 then 1 else 0) = era_start yoe + (if leap (yy + 1) then 366 else 365)"
  proof -
    have s: "year_start (yy + 2) = year_start (yy + 1) + (if leap (yy + 1) then 366 else 365)"
      using year_start_step [of "yy + 1"] by (simp add: add.commute)
    have e: "year_start (k + era * 400 + 1) = 146097 * era + era_start k + k div 400" for k
    proof -
      have "(k + era * 400) div 4 = k div 4 + era * 100" "(k + era * 400) div 100 = k div 100 + era * 4" "(k + era * 400) div 400 = k div 400 + era"
        using div_mult_self1 [of 4 k "era * 100"] div_mult_self1 [of 100 k "era * 4"] by simp_all
      then show ?thesis by (simp add: year_start_def era_start_def)
    qed
    have "yoe div 400 = 0" "(yoe + 1) div 400 = (if yoe = 399 then 1 else 0)" using yr by (auto simp: div_pos_pos_trivial)
    then show ?thesis using s e [of yoe] e [of "yoe + 1"] by (simp add: yy_def algebra_simps)
  qed
  have doy: "0 \<le> doy" "doy \<le> (if leap (yy + 1) then 365 else 364)" using yr step by (auto simp: doy_def split: if_splits)
  then have d365: "doy \<le> 365" by (simp split: if_splits)
  have mar: "0 \<le> mp" "mp \<le> 11" "1 \<le> doy - march_days mp + 1"
    "doy - march_days mp + 1 \<le> (if mp = 11 then (if doy = 365 then 29 else 28) else if mp = 1 \<or> mp = 3 \<or> mp = 6 \<or> mp = 8 then 30 else 31)"
    using march_all doy(1) d365 unfolding list_all_iff mp_def Let_def by auto
  have code: "y = yy + (if m \<le> 2 then 1 else 0)" "m = (if mp < 10 then mp + 3 else mp - 9)" "d = doy - march_days mp + 1"
  proof -
    have 1: "(doe - doe sdiv 1460 + doe sdiv 36524 - doe sdiv 146096) = year_index doe" using doe(1) by (simp add: sdiv_nonneg year_index_def)
    have 2: "0 \<le> year_index doe" using year_index_mono [OF doe(1)] by (simp add: year_index_def)
    have 3: "365 * yoe + yoe sdiv 4 - yoe sdiv 100 = era_start yoe" using yr by (simp add: sdiv_nonneg era_start_def)
    have 4: "(5 * doy + 2) sdiv 153 = mp" "(153 * mp + 2) sdiv 5 = march_days mp" using doy(1) mar(1) by (simp_all add: sdiv_nonneg mp_def march_days_def)
    have 5: "z - era * 146097 = doe" using doe(3) by simp
    have "civil_from_days days = (yy + (if (if mp < 10 then mp + 3 else mp - 9) \<le> 2 then 1 else 0), if mp < 10 then mp + 3 else mp - 9, doy - march_days mp + 1)"
      unfolding civil_from_days_def Let_def z_def [symmetric] era_floor era_def [symmetric] 5 1
      using 2 by (simp only: sdiv_nonneg [OF 2] zero_less_numeral yoe_def [symmetric] 3 doy_def [symmetric] 4 yy_def)
    then show "y = yy + (if m \<le> 2 then 1 else 0)" "m = (if mp < 10 then mp + 3 else mp - 9)" "d = doy - march_days mp + 1"
      using assms by auto
  qed
  have "day_number y m d = year_start (yy + 1) - 306 + doy - year_start 1970"
    using day_number_march [OF mar(1,2) code(2,1), of d] code(3) by simp
  also have "year_start (yy + 1) = 146097 * era + era_start yoe"
  proof -
    have "(yoe + era * 400) div 4 = yoe div 4 + era * 100" "(yoe + era * 400) div 100 = yoe div 100 + era * 4" "(yoe + era * 400) div 400 = era"
      using div_mult_self1 [of 4 yoe "era * 100"] div_mult_self1 [of 100 yoe "era * 4"] yr by simp_all
    then show ?thesis by (simp add: year_start_def era_start_def yy_def)
  qed
  finally have num: "day_number y m d = days" using doe(3) by (simp add: doy_def z_def year_start_def)
  have "valid_date y m d"
  proof -
    have "mp = 0 \<or> mp = 1 \<or> mp = 2 \<or> mp = 3 \<or> mp = 4 \<or> mp = 5 \<or> mp = 6 \<or> mp = 7 \<or> mp = 8 \<or> mp = 9 \<or> mp = 10 \<or> mp = 11" using mar(1,2) by presburger
    then show ?thesis using mar(3,4) doy(2) unfolding valid_date_def code month_days_def by (elim disjE) (auto split: if_splits)
  qed
  then show ?thesis using num by blast
qed

section \<open>The weekday\<close>

lemma weekday_shift: "(a + 7 * k) mod 7 = a mod 7" for a k :: int
  by simp

lemma calc_weekday_correct:
  assumes v: "valid_date y m d" and pos: "1 \<le> y"
  shows "calc_weekday y m d = (day_number y m d + 4) mod 7"
proof -
  define mp where "mp = (if m \<ge> 3 then m - 3 else m + 9)"
  define yy where "yy = y - (if m < 3 then 1 else 0)"
  have m: "1 \<le> m" "m \<le> 12" and d: "1 \<le> d" using v by (auto simp: valid_date_def)
  have mp: "0 \<le> mp" "mp \<le> 11" "m = (if mp < 10 then mp + 3 else mp - 9)" "y = yy + (if m \<le> 2 then 1 else 0)"
    using m by (auto simp: mp_def yy_def)
  define A where "A = yy + yy div 4 - yy div 100 + yy div 400"
  let ?t = "[0, 3, 2, 5, 0, 3, 5, 1, 4, 6, 2, 4 :: int] ! nat (m - 1)"
  have yy0: "0 \<le> yy" using pos by (simp add: yy_def)
  have t: "0 \<le> ?t" and tm: "\<exists>k. march_days mp = ?t + 7 * k + 5"
  proof -
    have "m = 1 \<or> m = 2 \<or> m = 3 \<or> m = 4 \<or> m = 5 \<or> m = 6 \<or> m = 7 \<or> m = 8 \<or> m = 9 \<or> m = 10 \<or> m = 11 \<or> m = 12" using m by presburger
    then have "0 \<le> ?t \<and> (march_days mp - ?t - 5) mod 7 = 0"
      by (elim disjE) (simp_all add: mp_def march_days_def)
    then have "0 \<le> ?t" "7 dvd march_days mp - ?t - 5" by (simp_all add: dvd_eq_mod_eq_0)
    moreover obtain k where "march_days mp - ?t - 5 = 7 * k" using calculation(2) by (elim dvdE)
    then have "march_days mp = ?t + 7 * k + 5" by linarith
    ultimately show "0 \<le> ?t" "\<exists>k. march_days mp = ?t + 7 * k + 5" by blast+
  qed
  then obtain k where k: "march_days mp = ?t + 7 * k + 5" by blast
  have A: "0 \<le> A"
  proof -
    have "yy div 100 \<le> yy" using zdiv_mono2 [of yy 1 100] yy0 by simp
    moreover have "0 \<le> yy div 4" "0 \<le> yy div 400" using yy0 by (simp_all add: pos_imp_zdiv_nonneg_iff)
    ultimately show ?thesis by (simp add: A_def)
  qed
  have ys: "year_start (yy + 1) = A + 364 * yy" by (simp add: year_start_def A_def)
  have "day_number y m d + 4 = A + 364 * yy - 306 + (?t + 7 * k + 5) + (d - 1) - 719162 + 4"
    using day_number_march [OF mp, of d] unfolding ys k by (simp add: year_start_def)
  also have "\<dots> = (A + ?t + d) + 7 * (52 * yy + k - 102780)" by simp
  finally have n: "(day_number y m d + 4) mod 7 = (A + ?t + d) mod 7" by (simp only: weekday_shift)
  have c: "yy + yy sdiv 4 - yy sdiv 100 + yy sdiv 400 = A" using yy0 by (simp add: A_def sdiv_nonneg)
  have "0 \<le> A + ?t + d" using A t d by linarith
  then have w: "(A + ?t + d) smod 7 = (A + ?t + d) mod 7" by (simp add: sdiv_nonneg)
  have "\<not> (m < 1 \<or> m > 12)" using m by simp
  then have "calc_weekday y m d = (if (A + ?t + d) mod 7 < 0 then (A + ?t + d) mod 7 + 7 else (A + ?t + d) mod 7)"
    unfolding calc_weekday_def Let_def yy_def [symmetric] c w by simp
  then show ?thesis using n pos_mod_sign [of 7 "A + ?t + d"] by (simp del: pos_mod_sign)
qed

section \<open>The breakdown\<close>

lemma breakdown_civil:
  assumes "dt = proven_time_breakdown t"
  shows "valid_date (year dt) (month dt) (day dt) \<and> 0 \<le> hour dt \<and> hour dt < 24 \<and> 0 \<le> minute dt \<and> minute dt < 60 \<and>
    0 \<le> sec dt \<and> sec dt < 60 \<and> 0 \<le> ms dt \<and> ms dt < 1000 \<and>
    (((day_number (year dt) (month dt) (day dt) * 24 + hour dt) * 60 + minute dt) * 60 + sec dt) * 1000 + ms dt = t div 1000000 \<and>
    weekday dt = (day_number (year dt) (month dt) (day dt) + 4) mod 7"
proof -
  define secs where "secs = t div 1000000000"
  define ns where "ns = t mod 1000000000"
  define days where "days = secs div 86400"
  define rm where "rm = secs mod 86400"
  obtain y m d where c: "civil_from_days days = (y, m, d)" by (metis prod_cases3)
  have ns: "0 \<le> ns" "ns < 1000000000" and rm: "0 \<le> rm" "rm < 86400" by (simp_all add: ns_def rm_def)
  have w: "(if (days + 4) smod 7 < 0 then (days + 4) smod 7 + 7 else (days + 4) smod 7) = (days + 4) mod 7"
    using floor_step [of 7 "days + 4"] by (simp add: floor_step_def Let_def split: if_splits)
  have dt: "dt = \<lparr>year = y, month = m, day = d, hour = rm div 3600, minute = (rm mod 3600) div 60, sec = rm mod 60, ms = ns div 1000000,
      weekday = (days + 4) mod 7\<rparr>"
  proof -
    have "floor_step t 1000000000 = (secs, ns)" "floor_step secs 86400 = (days, rm)"
      by (simp_all add: floor_step secs_def ns_def days_def rm_def)
    moreover have "0 \<le> rm mod 3600" by simp
    ultimately show ?thesis unfolding assms proven_time_breakdown_def Let_def using c ns(1) rm(1)
      by (simp add: sdiv_nonneg w split del: if_split)
  qed
  note v = civil_from_days_correct [OF c]
  have hms: "(rm div 3600 * 60 + rm mod 3600 div 60) * 60 + rm mod 60 = rm"
  proof -
    have regroup: "(h * 60 + mi) * 60 + s = h * 3600 + (mi * 60 + s)" for h mi s :: int by simp
    have s: "rm mod 60 = rm mod 3600 mod 60" by (simp add: mod_mod_cancel)
    show ?thesis unfolding regroup s div_mult_mod_eq ..
  qed
  have s: "(days * 86400 + rm) = secs" by (simp add: days_def rm_def)
  have ms: "secs * 1000 + ns div 1000000 = t div 1000000"
  proof -
    have "t = ns + secs * 1000 * 1000000" by (simp add: secs_def ns_def)
    then have "t div 1000000 = (ns + secs * 1000 * 1000000) div 1000000" by simp
    also have "\<dots> = secs * 1000 + ns div 1000000" by simp
    finally show ?thesis by simp
  qed
  have T: "(((days * 24 + rm div 3600) * 60 + rm mod 3600 div 60) * 60 + rm mod 60) * 1000 + ns div 1000000 = t div 1000000"
  proof -
    have "((days * 24 + rm div 3600) * 60 + rm mod 3600 div 60) * 60 + rm mod 60 =
        days * 86400 + ((rm div 3600 * 60 + rm mod 3600 div 60) * 60 + rm mod 60)" by simp
    then show ?thesis unfolding hms s using ms by simp
  qed
  have b: "rm div 3600 < 24" "0 \<le> rm div 3600" "rm mod 3600 div 60 < 60" "0 \<le> rm mod 3600 div 60" "0 \<le> rm mod 60" "rm mod 60 < 60"
    "ns div 1000000 < 1000" "0 \<le> ns div 1000000" using rm ns by simp_all
  have vd: "valid_date y m d" and dn: "day_number y m d = days" using v by blast+
  show ?thesis unfolding dt proven_datetime_t.select_convs dn by (intro conjI vd b T refl)
qed

text \<open>C29: the date is a valid one of the Gregorian calendar and, with the time of day, stands for the time it was made from, to the
  millisecond and rounding down also before 1970; the weekday counts on from the Thursday of the first of January 1970.\<close>

theorem time_breakdown_civil:
  "let dt = proven_time_breakdown t in
    valid_date (year dt) (month dt) (day dt) \<and> 0 \<le> hour dt \<and> hour dt < 24 \<and> 0 \<le> minute dt \<and> minute dt < 60 \<and>
    0 \<le> sec dt \<and> sec dt < 60 \<and> 0 \<le> ms dt \<and> ms dt < 1000 \<and>
    (((day_number (year dt) (month dt) (day dt) * 24 + hour dt) * 60 + minute dt) * 60 + sec dt) * 1000 + ms dt = t div 1000000 \<and>
    weekday dt = (day_number (year dt) (month dt) (day dt) + 4) mod 7"
  unfolding Let_def by (rule breakdown_civil) simp

end
