(* ===== verification/Url.thy ===== *)
theory Url
  imports Utf U8_View
begin

text \<open>
  URLs of \<^verbatim>\<open>src/proven/url.c\<close>: taking one apart, percent-coding, queries, resolving a reference and
  a path that is safe to open. The text is a view; the pieces of a parsed URL are ranges of it (offset
  and size), as the views of the C struct point into it. Output buffers are views, changed in place;
  input and output do not overlap. A pointer the code tests against null is an option.
\<close>

section \<open>Characters\<close>

definition url_is_alpha :: "byte \<Rightarrow> bool" where
  "url_is_alpha c \<longleftrightarrow> (asc CHR ''a'' \<le> c \<and> c \<le> asc CHR ''z'') \<or> (asc CHR ''A'' \<le> c \<and> c \<le> asc CHR ''Z'')"

definition url_is_digit :: "byte \<Rightarrow> bool" where
  "url_is_digit c \<longleftrightarrow> asc CHR ''0'' \<le> c \<and> c \<le> asc CHR ''9''"

definition url_hex :: "byte \<Rightarrow> byte option" where
  "url_hex c =
    (if asc CHR ''0'' \<le> c \<and> c \<le> asc CHR ''9'' then Some (c - asc CHR ''0'')
     else if asc CHR ''a'' \<le> c \<and> c \<le> asc CHR ''f'' then Some (c - asc CHR ''a'' + 10)
     else if asc CHR ''A'' \<le> c \<and> c \<le> asc CHR ''F'' then Some (c - asc CHR ''A'' + 10)
     else None)"

definition url_unreserved :: "byte \<Rightarrow> bool" where
  "url_unreserved c \<longleftrightarrow> url_is_alpha c \<or> url_is_digit c \<or> c \<in> {asc CHR ''-'', asc CHR ''.'', asc CHR ''_'', asc CHR ''~''}"

definition scheme_char :: "byte \<Rightarrow> bool" where
  "scheme_char c \<longleftrightarrow> url_is_alpha c \<or> url_is_digit c \<or> c = asc CHR ''+'' \<or> c = asc CHR ''-'' \<or> c = asc CHR ''.''"

text \<open>What follows a percent sign: two hex digits, and the byte they stand for.\<close>

fun hex_pair :: "byte list \<Rightarrow> (byte \<times> byte list) option" where
  "hex_pair (a # b # cs) =
    (case (url_hex a, url_hex b) of (Some hi, Some lo) \<Rightarrow> Some (push_bit 4 hi OR lo, cs) | _ \<Rightarrow> None)"
| "hex_pair _ = None"

lemma hex_pair_length: "hex_pair cs = Some (d, rest) \<Longrightarrow> length cs = length rest + 2"
  by (cases cs rule: hex_pair.cases) (auto split: option.splits)

fun url_text_ok :: "byte list \<Rightarrow> bool" where
  "url_text_ok [] = True"
| "url_text_ok (c # cs) =
    (if c \<le> 0x20 \<or> c \<ge> 0x7f then False
     else if c = asc CHR ''%'' \<and> hex_pair cs = None then False
     else url_text_ok cs)"

text \<open>The scanning loops: forward to the first byte that stops them, or to \<open>n\<close>.\<close>

function skip_while :: "(byte \<Rightarrow> bool) \<Rightarrow> byte list \<Rightarrow> nat \<Rightarrow> nat \<Rightarrow> nat" where
  "skip_while P p n i = (if i < n \<and> P (p ! i) then skip_while P p n (i + 1) else i)"
  by pat_completeness auto
termination by (relation "measure (\<lambda>(P, p, n, i). n - i)") auto

declare skip_while.simps [simp del]

section \<open>Taking a URL apart\<close>

type_synonym piece = "(nat \<times> nat) option"

record proven_url =
  scheme :: piece
  userinfo :: piece
  host :: piece
  path :: piece
  query :: piece
  fragment :: piece
  port :: nat
  has_userinfo :: bool
  has_port :: bool
  has_query :: bool
  has_fragment :: bool
  host_is_ipv6 :: bool

definition url_zero :: proven_url where
  "url_zero = \<lparr>scheme = None, userinfo = None, host = None, path = None, query = None, fragment = None, port = 0,
    has_userinfo = False, has_port = False, has_query = False, has_fragment = False, host_is_ipv6 = False\<rparr>"

definition url_sub :: "nat \<Rightarrow> nat \<Rightarrow> piece" where
  "url_sub from to = Some (from, to - from)"

fun piece_bytes :: "byte list \<Rightarrow> piece \<Rightarrow> byte list" where
  "piece_bytes s None = []"
| "piece_bytes s (Some (o', n)) = take n (drop o' s)"

definition piece_size :: "piece \<Rightarrow> nat" where
  "piece_size v = (case v of None \<Rightarrow> 0 | Some (from, n) \<Rightarrow> n)"

text \<open>The position after the last @ of the authority.\<close>

fun last_at :: "byte list \<Rightarrow> nat \<Rightarrow> nat \<Rightarrow> nat option" where
  "last_at p lo 0 = None"
| "last_at p lo (Suc k) = (if Suc k > lo then if p ! k = asc CHR ''@'' then Some (Suc k) else last_at p lo k else None)"

text \<open>The inside of the brackets: hex digits, colons and dots, then perhaps a zone.\<close>

function zone_scan :: "byte list \<Rightarrow> nat \<Rightarrow> bool \<Rightarrow> nat \<Rightarrow> bool" where
  "zone_scan p close zone k =
    (if k < close then let c = p ! k in
       if \<not> zone then
         if url_hex c \<noteq> None \<or> c = asc CHR '':'' \<or> c = asc CHR ''.'' then zone_scan p close zone (k + 1)
         else if c = asc CHR ''%'' \<and> close - k > 3 \<and> p ! (k + 1) = asc CHR ''2'' \<and> p ! (k + 2) = asc CHR ''5'' then zone_scan p close True (k + 3)
         else False
       else if url_unreserved c then zone_scan p close zone (k + 1) else False
     else True)"
  by pat_completeness auto
termination by (relation "measure (\<lambda>(p, close, zone, k). close - k)") auto

declare zone_scan.simps [simp del]

text \<open>The end of a host name and the start of the port after it (the end of the authority: no port).\<close>

function host_scan :: "byte list \<Rightarrow> nat \<Rightarrow> nat \<Rightarrow> (nat \<times> nat) option" where
  "host_scan p auth_end k =
    (if k < auth_end then
       if p ! k = asc CHR '':'' then Some (k, k + 1)
       else if p ! k = asc CHR ''['' \<or> p ! k = asc CHR '']'' then None
       else host_scan p auth_end (k + 1)
     else Some (auth_end, auth_end))"
  by pat_completeness auto
termination by (relation "measure (\<lambda>(p, auth_end, k). auth_end - k)") auto

declare host_scan.simps [simp del]

text \<open>At most 65535 before each step, the 32-bit value of the C loop does not wrap.\<close>

function port_scan :: "byte list \<Rightarrow> nat \<Rightarrow> nat \<Rightarrow> nat \<Rightarrow> nat option" where
  "port_scan p auth_end k v =
    (if k < auth_end then
       if \<not> url_is_digit (p ! k) then None
       else let v' = v * 10 + unat (p ! k - asc CHR ''0'') in
         if v' > 65535 then None else port_scan p auth_end (k + 1) v'
     else Some v)"
  by pat_completeness auto
termination by (relation "measure (\<lambda>(p, auth_end, k, v). auth_end - k)") auto

declare port_scan.simps [simp del]

definition url_host :: "byte list \<Rightarrow> nat \<Rightarrow> nat \<Rightarrow> (piece \<times> bool \<times> nat) option" where
  "url_host p host_start auth_end =
    (if host_start < auth_end \<and> p ! host_start = asc CHR ''['' then
       let close = skip_while (\<lambda>c. c \<noteq> asc CHR '']'') p auth_end (host_start + 1) in
       if close = auth_end \<or> close = host_start + 1 then None
       else if \<not> zone_scan p close False (host_start + 1) then None
       else let h = url_sub (host_start + 1) close; host_end = close + 1 in
         if host_end < auth_end then if p ! host_end \<noteq> asc CHR '':'' then None else Some (h, True, host_end + 1)
         else Some (h, True, auth_end)
     else case host_scan p auth_end host_start of
       None \<Rightarrow> None
     | Some (host_end, port_start) \<Rightarrow> Some (url_sub host_start host_end, False, port_start))"

definition url_port :: "byte list \<Rightarrow> nat \<Rightarrow> nat \<Rightarrow> (nat \<times> bool) option" where
  "url_port p port_start auth_end =
    (if port_start < auth_end then map_option (\<lambda>v. (v, True)) (port_scan p auth_end port_start 0) else Some (0, False))"

definition auth_char :: "byte \<Rightarrow> bool" where
  "auth_char c \<longleftrightarrow> c \<noteq> asc CHR ''/'' \<and> c \<noteq> asc CHR ''?'' \<and> c \<noteq> asc CHR ''#''"

definition path_char :: "byte \<Rightarrow> bool" where
  "path_char c \<longleftrightarrow> c \<noteq> asc CHR ''?'' \<and> c \<noteq> asc CHR ''#''"

text \<open>Path, query and fragment, from the end of the authority on.\<close>

definition url_tail :: "byte list \<Rightarrow> nat \<Rightarrow> nat \<Rightarrow> proven_url \<Rightarrow> proven_url" where
  "url_tail p n i0 u =
    (let i = skip_while path_char p n i0;
         u = u\<lparr>path := url_sub i0 i\<rparr>;
         (i, u) = (if i < n \<and> p ! i = asc CHR ''?'' then
                     let q = i + 1; i' = skip_while (\<lambda>c. c \<noteq> asc CHR ''#'') p n q in (i', u\<lparr>query := url_sub q i', has_query := True\<rparr>)
                   else (i, u)) in
     if i < n \<and> p ! i = asc CHR ''#'' then u\<lparr>fragment := url_sub (i + 1) n, has_fragment := True\<rparr> else u)"

definition proven_url_parse :: "byte view \<Rightarrow> proven_url option \<Rightarrow> proven_err \<times> proven_url option" where
  "proven_url_parse text' out =
    (if out = None \<or> (view_size text' > 0 \<and> view_null text') then (PROVEN_ERR_INVALID_ARG, out)
     else let p = view_data text'; n = view_size text' in
     if n = 0 \<or> \<not> url_text_ok p then (PROVEN_ERR_INVALID_FORMAT, out)
     else if \<not> url_is_alpha (p ! 0) then (PROVEN_ERR_INVALID_FORMAT, out)
     else let i = skip_while scheme_char p n 0 in
     if i + 2 \<ge> n \<or> p ! i \<noteq> asc CHR '':'' \<or> p ! (i + 1) \<noteq> asc CHR ''/'' \<or> p ! (i + 2) \<noteq> asc CHR ''/'' then (PROVEN_ERR_INVALID_FORMAT, out)
     else let u = url_zero\<lparr>scheme := url_sub 0 i\<rparr>;
              auth_start = i + 3;
              auth_end = skip_while auth_char p n auth_start;
              (u, host_start) = (case last_at p auth_start auth_end of
                  None \<Rightarrow> (u, auth_start)
                | Some k \<Rightarrow> (u\<lparr>userinfo := url_sub auth_start (k - 1), has_userinfo := True\<rparr>, k)) in
     case url_host p host_start auth_end of
       None \<Rightarrow> (PROVEN_ERR_INVALID_FORMAT, out)
     | Some (h, v6, port_start) \<Rightarrow>
       (case url_port p port_start auth_end of
          None \<Rightarrow> (PROVEN_ERR_INVALID_FORMAT, out)
        | Some (v, hp) \<Rightarrow>
          let u = u\<lparr>host := h, host_is_ipv6 := v6, port := v, has_port := hp\<rparr> in
          if piece_size (host u) = 0 \<and> (has_port u \<or> has_userinfo u) then (PROVEN_ERR_INVALID_FORMAT, out)
          else (PROVEN_OK, Some (url_tail p n auth_end u))))"

section \<open>Ports and targets\<close>

definition proven_url_default_port :: "byte view \<Rightarrow> nat" where
  "proven_url_default_port s =
    (if proven_u8str_view_eq_ascii_ci s (At (ascii ''http'')) \<or> proven_u8str_view_eq_ascii_ci s (At (ascii ''ws'')) then 80
     else if proven_u8str_view_eq_ascii_ci s (At (ascii ''https'')) \<or> proven_u8str_view_eq_ascii_ci s (At (ascii ''wss'')) then 443
     else if proven_u8str_view_eq_ascii_ci s (At (ascii ''ftp'')) then 21
     else 0)"

text \<open>A piece as the view it is, of the text it was cut from.\<close>

fun piece_view :: "byte list \<Rightarrow> piece \<Rightarrow> byte view" where
  "piece_view s None = Null 0"
| "piece_view s (Some (o', n)) = At (take n (drop o' s))"

definition proven_url_effective_port :: "byte list \<Rightarrow> proven_url option \<Rightarrow> nat" where
  "proven_url_effective_port s url =
    (case url of None \<Rightarrow> 0 | Some u \<Rightarrow> if has_port u then port u else proven_url_default_port (piece_view s (scheme u)))"

definition proven_url_scheme_is :: "byte list \<Rightarrow> proven_url option \<Rightarrow> byte view \<Rightarrow> bool" where
  "proven_url_scheme_is s url sch =
    (case url of None \<Rightarrow> False | Some u \<Rightarrow> proven_u8str_view_eq_ascii_ci (piece_view s (scheme u)) sch)"

type_synonym target = "byte view \<times> byte view \<times> bool"

text \<open>The path loop of the origin form: it stops at a question mark and refuses a number sign.\<close>

function target_path :: "byte list \<Rightarrow> nat \<Rightarrow> nat \<Rightarrow> nat option" where
  "target_path p n i =
    (if i < n \<and> p ! i \<noteq> asc CHR ''?'' then if p ! i = asc CHR ''#'' then None else target_path p n (i + 1) else Some i)"
  by pat_completeness auto
termination by (relation "measure (\<lambda>(p, n, i). n - i)") auto

declare target_path.simps [simp del]

text \<open>The three outputs, when all pointers to them are there, are one option: what they held before, and after.\<close>

definition proven_url_split_target :: "byte view \<Rightarrow> target option \<Rightarrow> proven_err \<times> target option" where
  "proven_url_split_target target' out =
    (if out = None \<or> (view_size target' > 0 \<and> view_null target') then (PROVEN_ERR_INVALID_ARG, out)
     else let p = view_data target'; n = view_size target' in
     if n = 0 \<or> \<not> url_text_ok p then (PROVEN_ERR_INVALID_FORMAT, out)
     else if n = 1 \<and> p ! 0 = asc CHR ''*'' then (PROVEN_OK, Some (target', At [], False))
     else if p ! 0 = asc CHR ''/'' then
       (case target_path p n 0 of
          None \<Rightarrow> (PROVEN_ERR_INVALID_FORMAT, out)
        | Some i \<Rightarrow>
          let q = (if i < n then drop (i + 1) p else []); res = Some (At (take i p), At q, i < n) in
          if asc CHR ''#'' \<in> set q then (PROVEN_ERR_INVALID_FORMAT, res) else (PROVEN_OK, res))
     else case proven_url_parse target' (Some url_zero) of
       (PROVEN_OK, Some u) \<Rightarrow>
         if has_fragment u \<or> piece_size (host u) = 0 then (PROVEN_ERR_INVALID_FORMAT, out)
         else (PROVEN_OK, Some (if piece_size (path u) > 0 then piece_view p (path u) else At [asc CHR ''/''],
                piece_view p (query u), has_query u))
     | _ \<Rightarrow> (PROVEN_ERR_INVALID_FORMAT, out))"

section \<open>Queries\<close>

text \<open>An iterator is the rest of the query; a step answers the rest and, when there is one, the pair.\<close>

function query_next :: "byte list \<Rightarrow> byte list \<times> (byte list \<times> byte list) option" where
  "query_next r =
    (if r = [] then ([], None)
     else let e = skip_while (\<lambda>c. c \<noteq> asc CHR ''&'') r (length r) 0;
              pair = take e r;
              r' = (if e < length r then drop (e + 1) r else []) in
     if pair = [] then query_next r'
     else let eq = skip_while (\<lambda>c. c \<noteq> asc CHR ''='') pair (length pair) 0 in
       (r', Some (take eq pair, if eq < length pair then drop (eq + 1) pair else [])))"
  by pat_completeness auto
termination by (relation "measure length") auto

declare query_next.simps [simp del]

definition proven_url_query_iter :: "byte view \<Rightarrow> byte view" where
  "proven_url_query_iter q = q"

definition proven_url_query_next :: "byte view option \<Rightarrow> bool \<Rightarrow> byte view option \<times> (byte list \<times> byte list) option" where
  "proven_url_query_next it outs =
    (case it of None \<Rightarrow> (None, None)
     | Some rest \<Rightarrow> if \<not> outs then (it, None) else if view_size rest = 0 then (it, None)
       else (case query_next (view_data rest) of (r, x) \<Rightarrow> (Some (At r), x)))"

section \<open>Percent-coding\<close>

type_synonym out_bytes = "proven_err \<times> byte list \<times> nat"

function url_decode_loop :: "bool \<Rightarrow> byte list \<Rightarrow> byte list \<Rightarrow> nat \<Rightarrow> out_bytes" where
  "url_decode_loop form [] p w = (PROVEN_OK, p, w)"
| "url_decode_loop form (c # cs) p w =
    (if c = asc CHR ''%'' then
       (case hex_pair cs of
          None \<Rightarrow> (PROVEN_ERR_INVALID_FORMAT, p, w)
        | Some (d, rest) \<Rightarrow>
            if w \<ge> length p then (PROVEN_ERR_OUT_OF_BOUNDS, p, w) else url_decode_loop form rest (p[w := d]) (w + 1))
     else if w \<ge> length p then (PROVEN_ERR_OUT_OF_BOUNDS, p, w)
     else url_decode_loop form cs (p[w := if c = asc CHR ''+'' \<and> form then asc CHR '' '' else c]) (w + 1))"
  by pat_completeness auto
termination by (relation "measure (\<lambda>(form, cs, p, w). length cs)") (auto dest: hex_pair_length)

text \<open>The call around a loop that fills an output buffer.\<close>

definition into_buffer :: "(byte list \<Rightarrow> out_bytes) \<Rightarrow> byte view \<Rightarrow> proven_err \<times> nat option \<times> byte view" where
  "into_buffer f out =
    (case f (view_data out) of
       (e, p, w) \<Rightarrow> (e, Some (if e = PROVEN_OK then w else 0), if view_null out then out else At p))"

definition url_decode :: "byte view \<Rightarrow> byte view \<Rightarrow> nat option \<Rightarrow> bool \<Rightarrow> proven_err \<times> nat option \<times> byte view" where
  "url_decode inp out written form =
    (if written = None then (PROVEN_ERR_INVALID_ARG, None, out)
     else if (view_size inp > 0 \<and> view_null inp) \<or> (view_size out > 0 \<and> view_null out) then (PROVEN_ERR_INVALID_ARG, Some 0, out)
     else into_buffer (\<lambda>p. url_decode_loop form (view_data inp) p 0) out)"

definition proven_url_percent_decode :: "byte view \<Rightarrow> byte view \<Rightarrow> nat option \<Rightarrow> proven_err \<times> nat option \<times> byte view" where
  "proven_url_percent_decode inp out written = url_decode inp out written False"

definition proven_url_form_decode :: "byte view \<Rightarrow> byte view \<Rightarrow> nat option \<Rightarrow> proven_err \<times> nat option \<times> byte view" where
  "proven_url_form_decode inp out written = url_decode inp out written True"

definition proven_url_encoded_size_max :: "nat \<Rightarrow> nat" where
  "proven_url_encoded_size_max n = (if n > SIZE_MAX div 3 then SIZE_MAX else n * 3)"

datatype proven_url_keep = URL_KEEP_COMPONENT | URL_KEEP_PATH | URL_KEEP_FORM

definition HEX_UPPER :: "byte list" where
  "HEX_UPPER = ascii ''0123456789ABCDEF''"

fun url_encode_loop :: "proven_url_keep \<Rightarrow> byte list \<Rightarrow> byte list \<Rightarrow> nat \<Rightarrow> out_bytes" where
  "url_encode_loop keep [] p w = (PROVEN_OK, p, w)"
| "url_encode_loop keep (c # cs) p w =
    (let plain = (url_unreserved c \<or> (keep = URL_KEEP_PATH \<and> c = asc CHR ''/'')) in
     if plain \<or> (keep = URL_KEEP_FORM \<and> c = asc CHR '' '') then
       if w \<ge> length p then (PROVEN_ERR_OUT_OF_BOUNDS, p, w)
       else url_encode_loop keep cs (p[w := if plain then c else asc CHR ''+'']) (w + 1)
     else if length p - w < 3 then (PROVEN_ERR_OUT_OF_BOUNDS, p, w)
     else url_encode_loop keep cs
       (p[w := asc CHR ''%'', w + 1 := HEX_UPPER ! unat (drop_bit 4 c), w + 2 := HEX_UPPER ! unat (c AND 0xf)]) (w + 3))"

definition url_encode :: "byte view \<Rightarrow> byte view \<Rightarrow> nat option \<Rightarrow> proven_url_keep \<Rightarrow> proven_err \<times> nat option \<times> byte view" where
  "url_encode inp out written keep =
    (if written = None then (PROVEN_ERR_INVALID_ARG, None, out)
     else if (view_size inp > 0 \<and> view_null inp) \<or> (view_size out > 0 \<and> view_null out) then (PROVEN_ERR_INVALID_ARG, Some 0, out)
     else if proven_url_encoded_size_max (view_size inp) = SIZE_MAX then (PROVEN_ERR_OVERFLOW, Some 0, out)
     else into_buffer (\<lambda>p. url_encode_loop keep (view_data inp) p 0) out)"

definition proven_url_encode_component :: "byte view \<Rightarrow> byte view \<Rightarrow> nat option \<Rightarrow> proven_err \<times> nat option \<times> byte view" where
  "proven_url_encode_component inp out written = url_encode inp out written URL_KEEP_COMPONENT"

definition proven_url_encode_path :: "byte view \<Rightarrow> byte view \<Rightarrow> nat option \<Rightarrow> proven_err \<times> nat option \<times> byte view" where
  "proven_url_encode_path inp out written = url_encode inp out written URL_KEEP_PATH"

definition proven_url_form_encode :: "byte view \<Rightarrow> byte view \<Rightarrow> nat option \<Rightarrow> proven_err \<times> nat option \<times> byte view" where
  "proven_url_form_encode inp out written = url_encode inp out written URL_KEEP_FORM"

text \<open>Encoding into the rest of the buffer, from \<open>at\<close> on.\<close>

definition form_part :: "byte view \<Rightarrow> byte list \<Rightarrow> nat \<Rightarrow> proven_err \<times> nat \<times> byte list" where
  "form_part inp p k =
    (case url_encode inp (At (drop k p)) (Some 0) URL_KEEP_FORM of
       (e, n, out') \<Rightarrow> (e, k + the n, take k p @ view_data out'))"

definition proven_url_form_append :: "byte view \<Rightarrow> nat option \<Rightarrow> byte view \<Rightarrow> byte view \<Rightarrow> proven_err \<times> nat option \<times> byte view" where
  "proven_url_form_append out len name val =
    (case len of None \<Rightarrow> (PROVEN_ERR_INVALID_ARG, len, out)
     | Some l \<Rightarrow>
       if l > view_size out \<or> (view_size out > 0 \<and> view_null out) then (PROVEN_ERR_INVALID_ARG, len, out)
       else let p = view_data out; back' = (\<lambda>p. if view_null out then out else At p) in
       if l > 0 \<and> l \<ge> length p then (PROVEN_ERR_OUT_OF_BOUNDS, len, out)
       else let (p, at) = (if l > 0 then (p[l := asc CHR ''&''], l + 1) else (p, l));
                (e, at, p) = form_part name p at in
       if e \<noteq> PROVEN_OK then (e, len, back' p)
       else if at \<ge> length p then (PROVEN_ERR_OUT_OF_BOUNDS, len, back' p)
       else let p = p[at := asc CHR ''='']; (e, at, p) = form_part val p (at + 1) in
       if e \<noteq> PROVEN_OK then (e, len, back' p) else (PROVEN_OK, Some at, back' p))"

end
