(* ===== verification/Url_Path.thy ===== *)
theory Url_Path
  imports Url
begin

text \<open>
  The two functions of \<^verbatim>\<open>src/proven/url.c\<close> that work on dot segments: resolving a reference against a
  base URL, and making a request path safe to open. Both walk over a path inside the output buffer:
  \<open>r\<close> reads, \<open>w\<close> writes and never passes \<open>r\<close>.
\<close>

section \<open>Moving segments\<close>

abbreviation slash :: byte where
  "slash \<equiv> asc CHR ''/''"

definition dot_seg :: "byte list \<Rightarrow> nat \<Rightarrow> nat \<Rightarrow> bool" where
  "dot_seg p start len \<longleftrightarrow> len = 1 \<and> p ! start = asc CHR ''.''"

definition dotdot_seg :: "byte list \<Rightarrow> nat \<Rightarrow> nat \<Rightarrow> bool" where
  "dotdot_seg p start len \<longleftrightarrow> len = 2 \<and> p ! start = asc CHR ''.'' \<and> p ! (start + 1) = asc CHR ''.''"

text \<open>The copy loop, byte by byte towards the front.\<close>

fun copy_down :: "byte list \<Rightarrow> nat \<Rightarrow> nat \<Rightarrow> nat \<Rightarrow> byte list" where
  "copy_down p w start 0 = p"
| "copy_down p w start (Suc len) = copy_down (p[w := p ! start]) (w + 1) (start + 1) len"

text \<open>A segment written after what is there, with its slash unless it is the last.\<close>

definition put_seg :: "byte list \<Rightarrow> nat \<Rightarrow> nat \<Rightarrow> nat \<Rightarrow> bool \<Rightarrow> byte list \<times> nat" where
  "put_seg p w start len last' =
    (let p = copy_down p w start len; w = w + len in if \<not> last' then (p[w := slash], w + 1) else (p, w))"

text \<open>Back from \<open>w\<close> over a segment, not below \<open>lo\<close>.\<close>

fun step_back :: "byte list \<Rightarrow> nat \<Rightarrow> nat \<Rightarrow> nat" where
  "step_back p lo 0 = 0"
| "step_back p lo (Suc w) = (if Suc w > lo \<and> p ! w \<noteq> slash then step_back p lo w else Suc w)"

section \<open>A path that is safe to open\<close>

fun path_byte_ok :: "byte \<Rightarrow> bool" where
  "path_byte_ok c = (\<not> (c < 0x20 \<or> c = 0x7f \<or> c = 0x5C))"

function path_decode_loop :: "byte list \<Rightarrow> byte list \<Rightarrow> nat \<Rightarrow> out_bytes" where
  "path_decode_loop [] p n = (PROVEN_OK, p, n)"
| "path_decode_loop (c # cs) p n =
    (if c = asc CHR ''%'' then
       (case hex_pair cs of
          None \<Rightarrow> (PROVEN_ERR_INVALID_FORMAT, p, n)
        | Some (d, rest) \<Rightarrow>
            if d = slash then (PROVEN_ERR_INVALID_FORMAT, p, n)
            else if \<not> path_byte_ok d then (PROVEN_ERR_INVALID_FORMAT, p, n)
            else if n \<ge> length p then (PROVEN_ERR_OUT_OF_BOUNDS, p, n)
            else path_decode_loop rest (p[n := d]) (n + 1))
     else if \<not> path_byte_ok c then (PROVEN_ERR_INVALID_FORMAT, p, n)
     else if n \<ge> length p then (PROVEN_ERR_OUT_OF_BOUNDS, p, n)
     else path_decode_loop cs (p[n := c]) (n + 1))"
  by pat_completeness auto
termination by (relation "measure (\<lambda>(cs, p, n). length cs)") (auto dest: hex_pair_length)

text \<open>Every character of the decoded text is read; a length of 0 is refused like an error.\<close>

function utf8_walk :: "byte list \<Rightarrow> nat \<Rightarrow> bool" where
  "utf8_walk d pos =
    (if pos < length d then let ch = proven_utf8_decode_next (At d) pos in
       if cerr ch \<noteq> PROVEN_OK \<or> clen ch = 0 then False else utf8_walk d (pos + clen ch)
     else True)"
  by pat_completeness auto
termination by (relation "measure (\<lambda>(d, pos). length d - pos)") auto

declare utf8_walk.simps [simp del]

text \<open>The loop over the segments, the read position \<open>r\<close> at most \<open>n\<close>.\<close>

lemma skip_while_ge: "i \<le> skip_while P p n i"
proof (induction P p n i rule: skip_while.induct)
  case (1 P p n i)
  then show ?case by (subst skip_while.simps) (auto split: if_split)
qed

function resolve_loop :: "byte list \<Rightarrow> nat \<Rightarrow> nat \<Rightarrow> nat \<Rightarrow> out_bytes" where
  "resolve_loop p n w r =
    (let start = r;
         r = skip_while (\<lambda>c. c \<noteq> slash) p n start;
         len = r - start;
         last' = (r \<ge> n);
         dot = dot_seg p start len;
         dotdot = dotdot_seg p start len in
     if dotdot \<and> w \<le> 1 then (PROVEN_ERR_PERMISSION, p, w)
     else let (p, w) =
         (if dotdot then (p, step_back p 0 (w - 1))
          else if len > 0 \<and> \<not> dot then put_seg p w start len last'
          else (p, w)) in
       if last' then (PROVEN_OK, p, w) else resolve_loop p n w (r + 1))"
  by pat_completeness auto
termination
  by (relation "measure (\<lambda>(p, n, w, r). n - r)")
    (auto simp: Let_def not_le intro: diff_less_mono2 le_less_trans [OF skip_while_ge])

declare resolve_loop.simps [simp del]

definition proven_url_path_resolve :: "byte view \<Rightarrow> byte view \<Rightarrow> nat option \<Rightarrow> proven_err \<times> nat option \<times> byte view" where
  "proven_url_path_resolve raw_path out written =
    (if written = None then (PROVEN_ERR_INVALID_ARG, None, out)
     else if (view_size raw_path > 0 \<and> view_null raw_path) \<or> (view_size out > 0 \<and> view_null out) then (PROVEN_ERR_INVALID_ARG, Some 0, out)
     else if view_size raw_path = 0 \<or> view_data raw_path ! 0 \<noteq> slash then (PROVEN_ERR_INVALID_FORMAT, Some 0, out)
     else into_buffer (\<lambda>p.
       case path_decode_loop (view_data raw_path) p 0 of
         (e, p, n) \<Rightarrow>
           if e \<noteq> PROVEN_OK then (e, p, n)
           else if \<not> utf8_walk (take n p) 0 then (PROVEN_ERR_INVALID_FORMAT, p, n)
           else resolve_loop p n 1 1) out)"

section \<open>Resolving a reference\<close>

record url_out =
  out_ptr :: "byte list"
  out_len :: nat
  out_full :: bool

definition url_out_put :: "url_out \<Rightarrow> byte list \<Rightarrow> url_out" where
  "url_out_put o' s =
    (if out_full o' \<or> length s > length (out_ptr o') - out_len o' then o'\<lparr>out_full := True\<rparr>
     else o'\<lparr>out_ptr := take (out_len o') (out_ptr o') @ s @ drop (out_len o' + length s) (out_ptr o'), out_len := out_len o' + length s\<rparr>)"

definition url_out_byte :: "url_out \<Rightarrow> byte \<Rightarrow> url_out" where
  "url_out_byte o' c = url_out_put o' [c]"

function remove_dots_loop :: "nat \<Rightarrow> byte list \<Rightarrow> nat \<Rightarrow> nat \<Rightarrow> nat \<Rightarrow> byte list \<times> nat" where
  "remove_dots_loop from p n w r =
    (let start = r;
         r = skip_while (\<lambda>c. c \<noteq> slash) p n start;
         len = r - start;
         last' = (r \<ge> n);
         dot = dot_seg p start len;
         dotdot = dotdot_seg p start len;
         (p, w) =
           (if dotdot then (p, if w > from + 1 then step_back p (from + 1) (w - 1) else w)
            else if \<not> dot then put_seg p w start len last'
            else (p, w)) in
     if last' then (p, w) else remove_dots_loop from p n w (r + 1))"
  by pat_completeness auto
termination
  by (relation "measure (\<lambda>(from, p, n, w, r). n - r)")
    (auto simp: Let_def not_le intro: diff_less_mono2 le_less_trans [OF skip_while_ge])

declare remove_dots_loop.simps [simp del]

definition url_remove_dots :: "url_out \<Rightarrow> nat \<Rightarrow> url_out" where
  "url_remove_dots o' from =
    (if from \<ge> out_len o' \<or> out_ptr o' ! from \<noteq> slash then o'
     else case remove_dots_loop from (out_ptr o') (out_len o') (from + 1) (from + 1) of (p, w) \<Rightarrow> o'\<lparr>out_ptr := p, out_len := w\<rparr>)"

text \<open>A reference that is already absolute, or all but the scheme of one: the answer when it is a URL.\<close>

definition url_out_absolute :: "url_out \<Rightarrow> proven_err" where
  "url_out_absolute o' =
    (if out_full o' then PROVEN_ERR_OUT_OF_BOUNDS
     else if fst (proven_url_parse (At (take (out_len o') (out_ptr o'))) (Some url_zero)) \<noteq> PROVEN_OK then PROVEN_ERR_INVALID_FORMAT
     else PROVEN_OK)"

definition has_scheme :: "byte list \<Rightarrow> bool" where
  "has_scheme r =
    (if r \<noteq> [] \<and> url_is_alpha (r ! 0) then
       let colon = skip_while scheme_char r (length r) 0 in colon < length r \<and> r ! colon = asc CHR '':''
     else False)"

text \<open>The position after the last slash of the base path.\<close>

definition merge_cut :: "byte list \<Rightarrow> nat" where
  "merge_cut bpath = step_back bpath 0 (length bpath)"

definition url_resolve_run :: "byte list \<Rightarrow> proven_url \<Rightarrow> byte list \<Rightarrow> url_out \<Rightarrow> proven_err \<times> url_out" where
  "url_resolve_run text' b r o' =
    (if has_scheme r then let o' = url_out_put o' r in (url_out_absolute o', o')
     else let n = length r;
       q = skip_while path_char r n 0;
       f = skip_while (\<lambda>c. c \<noteq> asc CHR ''#'') r n q;
       rpath = take q r;
       rquery = (if q < n \<and> r ! q = asc CHR ''?'' then take (f - q) (drop q r) else []);
       rfrag = drop f r;
       o' = url_out_byte (url_out_put o' (piece_bytes text' (scheme b))) (asc CHR '':'') in
     if length rpath \<ge> 2 \<and> rpath ! 0 = slash \<and> rpath ! 1 = slash then
       let o' = url_out_put o' r in (url_out_absolute o', o')
     else let
       o' = url_out_byte (url_out_byte o' slash) slash;
       auth = piece_size (scheme b) + 3;
       o' = url_out_put o' (take (fst (the (path b)) - auth) (drop auth text'));
       path_from = out_len o';
       bpath = piece_bytes text' (path b);
       o' =
        (if rpath = [] then
           let o' = url_out_put o' bpath in
           if rquery \<noteq> [] then url_out_put o' rquery
           else if has_query b then url_out_put (url_out_byte o' (asc CHR ''?'')) (piece_bytes text' (query b))
           else o'
         else let
           o' =
            (if rpath ! 0 = slash then url_out_put o' rpath
             else let cut = merge_cut bpath;
                 o' = (if cut = 0 then url_out_byte o' slash else url_out_put o' (take cut bpath)) in
               url_out_put o' rpath);
           o' = (if \<not> out_full o' then url_remove_dots o' path_from else o') in
           url_out_put o' rquery);
       o' = url_out_put o' rfrag in
       (if out_full o' then PROVEN_ERR_OUT_OF_BOUNDS else PROVEN_OK, o'))"

definition proven_url_resolve :: "byte view \<Rightarrow> byte view \<Rightarrow> byte view \<Rightarrow> nat option \<Rightarrow> proven_err \<times> nat option \<times> byte view" where
  "proven_url_resolve base reference out written =
    (if written = None then (PROVEN_ERR_INVALID_ARG, None, out)
     else if (view_size reference > 0 \<and> view_null reference) \<or> (view_size out > 0 \<and> view_null out) then (PROVEN_ERR_INVALID_ARG, Some 0, out)
     else case proven_url_parse base (Some url_zero) of
       (PROVEN_OK, Some b) \<Rightarrow>
         if view_size reference > 0 \<and> \<not> url_text_ok (view_data reference) then (PROVEN_ERR_INVALID_FORMAT, Some 0, out)
         else into_buffer (\<lambda>p. case url_resolve_run (view_data base) b (view_data reference) \<lparr>out_ptr = p, out_len = 0, out_full = False\<rparr> of
             (e, o') \<Rightarrow> (e, out_ptr o', out_len o')) out
     | _ \<Rightarrow> (PROVEN_ERR_INVALID_FORMAT, Some 0, out))"

end
