(* ===== verification/Url_Safe.thy ===== *)
theory Url_Safe
  imports Url_Path
begin

text \<open>
  The request path of \<^verbatim>\<open>proven_url_path_resolve\<close>: what the decoding writes, what the walk over the
  segments leaves, and that both together are the resolution of a list of segments on a stack.
\<close>

section \<open>Scanning and moving\<close>

lemma skip_while_eq:
  assumes "n \<le> length p" "i \<le> n"
  shows "skip_while P p n i = i + length (takeWhile P (drop i (take n p)))"
  using assms
proof (induction P p n i rule: skip_while.induct)
  case (1 P p n i)
  show ?case
  proof (cases "i < n \<and> P (p ! i)")
    case True
    then have "drop i (take n p) = p ! i # drop (i + 1) (take n p)"
      using 1(2) by (simp add: Cons_nth_drop_Suc [symmetric])
    then show ?thesis using 1 True by (subst skip_while.simps) simp
  next
    case False
    have "takeWhile P (drop i (take n p)) = []"
    proof (cases "i < n")
      case True
      then have "drop i (take n p) = p ! i # drop (i + 1) (take n p)"
        using 1(2) by (simp add: Cons_nth_drop_Suc [symmetric])
      then show ?thesis using False True by simp
    qed simp
    then show ?thesis by (subst skip_while.simps) (use False in auto)
  qed
qed

text \<open>The form the proofs use: a run of bytes that pass, up to one that does not.\<close>

lemma skip_while_run:
  assumes "\<forall>c\<in>set xs. P c" "ys = [] \<or> \<not> P (hd ys)"
  shows "skip_while P (pre @ xs @ ys @ post) (length pre + length xs + length ys) (length pre) = length pre + length xs"
proof -
  have t: "takeWhile P (xs @ ys) = xs" using assms by (cases ys) (auto simp: takeWhile_append2 takeWhile_tail)
  show ?thesis by (subst skip_while_eq) (simp_all add: t)
qed

lemma copy_down_eq:
  assumes "w \<le> start" "start + len \<le> length p"
  shows "copy_down p w start len = take w p @ take len (drop start p) @ drop (w + len) p"
  using assms
proof (induction len arbitrary: p w start)
  case (Suc len)
  have b: "w < length p" "start < length p" using Suc.prems by simp_all
  have "take len (drop (start + 1) (p[w := p ! start])) = take len (drop (start + 1) p)"
    using Suc.prems by (simp add: drop_update_cancel)
  moreover have "take (Suc w) (p[w := p ! start]) = take w p @ [p ! start]"
    using b by (simp add: take_Suc_conv_app_nth)
  moreover have "take (Suc len) (drop start p) = p ! start # take len (drop (start + 1) p)"
    using b by (simp add: Cons_nth_drop_Suc [symmetric])
  ultimately show ?case using Suc by simp
qed simp

lemma step_back_over:
  assumes "lo \<le> length xs" "\<forall>c\<in>set ys. c \<noteq> slash" "xs \<noteq> [] \<longrightarrow> lo < length xs \<longrightarrow> last xs = slash" "length xs < lo \<longrightarrow> False"
  shows "step_back (xs @ ys @ zs) lo (length xs + length ys) = length xs"
  using assms
proof (induction ys arbitrary: zs rule: rev_induct)
  case Nil
  then show ?case by (cases xs rule: rev_cases) (auto simp: nth_append)
next
  case (snoc y ys)
  have "step_back (xs @ ys @ y # zs) lo (length xs + length ys) = length xs" using snoc by simp
  then show ?case using snoc by (simp add: nth_append)
qed

section \<open>Segments\<close>

fun segs :: "byte list \<Rightarrow> byte list list" where
  "segs [] = [[]]"
| "segs (c # cs) = (if c = slash then [] # segs cs else (c # hd (segs cs)) # tl (segs cs))"

lemma segs_nonempty [simp]: "segs cs \<noteq> []"
  by (cases cs) auto

lemma segs_single: "\<forall>c\<in>set s. c \<noteq> slash \<Longrightarrow> segs s = [s]"
  by (induction s) auto

lemma segs_cons: "\<forall>c\<in>set s. c \<noteq> slash \<Longrightarrow> segs (s @ slash # cs) = s # segs cs"
  by (induction s) auto

lemma segs_slash_free: "s \<in> set (segs cs) \<Longrightarrow> c \<in> set s \<Longrightarrow> c \<noteq> slash \<and> c \<in> set cs"
proof (induction cs arbitrary: s)
  case (Cons a cs)
  have h: "hd (segs cs) \<in> set (segs cs)" by simp
  show ?case
  proof (cases "a = slash \<and> s = []")
    case False
    then consider "s \<in> set (segs cs)" | "a \<noteq> slash" "s = a # hd (segs cs)" | "s \<in> set (tl (segs cs))"
      using Cons.prems by (auto split: if_splits)
    then show ?thesis
    proof cases
      case 2
      then show ?thesis using Cons.IH [OF h] Cons.prems by auto
    next
      case 3
      then have "s \<in> set (segs cs)" by (rule list.set_sel(2) [OF segs_nonempty])
      then show ?thesis using Cons.IH Cons.prems by auto
    qed (use Cons in auto)
  qed (use Cons in simp)
qed simp

abbreviation dot1 :: "byte list" where
  "dot1 \<equiv> [asc CHR ''.'']"

abbreviation dot2 :: "byte list" where
  "dot2 \<equiv> [asc CHR ''.'', asc CHR ''.'']"

text \<open>Resolving segments on a stack of names, the innermost first: a name above the last segment is a
  directory; the answer is the directories and the last name, empty when the path ends in a slash.\<close>

fun resolve_segs :: "byte list list \<Rightarrow> byte list list \<Rightarrow> (byte list list \<times> byte list) option" where
  "resolve_segs st [] = Some (st, [])"
| "resolve_segs st (s # ss) =
    (if s = dot2 then (case st of [] \<Rightarrow> None | _ # st' \<Rightarrow> resolve_segs st' ss)
     else if s = [] \<or> s = dot1 then resolve_segs st ss
     else if ss = [] then Some (st, s) else resolve_segs (s # st) ss)"

definition dirs_text :: "byte list list \<Rightarrow> byte list" where
  "dirs_text st = slash # concat (map (\<lambda>s. s @ [slash]) (rev st))"

lemma dirs_text_Nil [simp]: "dirs_text [] = [slash]"
  by (simp add: dirs_text_def)

lemma dirs_text_Cons [simp]: "dirs_text (s # st) = dirs_text st @ s @ [slash]"
  by (simp add: dirs_text_def)

lemma dirs_text_last: "dirs_text st \<noteq> [] \<and> last (dirs_text st) = slash"
  by (cases st) (simp_all add: dirs_text_def)

definition names_ok :: "byte list list \<Rightarrow> bool" where
  "names_ok st \<longleftrightarrow> (\<forall>s\<in>set st. s \<noteq> [] \<and> s \<noteq> dot1 \<and> s \<noteq> dot2 \<and> (\<forall>c\<in>set s. c \<noteq> slash))"

lemma names_ok_Cons: "names_ok (s # st) \<longleftrightarrow> s \<noteq> [] \<and> s \<noteq> dot1 \<and> s \<noteq> dot2 \<and> (\<forall>c\<in>set s. c \<noteq> slash) \<and> names_ok st"
  by (simp add: names_ok_def)

lemma resolve_segs_names:
  assumes "resolve_segs st ss = Some (st', f)" "names_ok st" "\<And>s. s \<in> set ss \<Longrightarrow> \<forall>c\<in>set s. c \<noteq> slash"
  shows "names_ok st' \<and> (f = [] \<or> names_ok [f]) \<and> (\<forall>s\<in>set (f # st'). s = [] \<or> s \<in> set st \<or> s \<in> set ss)"
  using assms
proof (induction st ss rule: resolve_segs.induct)
  case (2 st s ss)
  have free: "\<forall>c\<in>set s. c \<noteq> slash" by (rule 2(6)) simp
  have rest: "\<And>x. x \<in> set ss \<Longrightarrow> \<forall>c\<in>set x. c \<noteq> slash" by (rule 2(6)) simp
  consider t st1 where "s = dot2" "st = t # st1" | "s \<noteq> dot2" "s = [] \<or> s = dot1"
    | "s \<noteq> dot2" "\<not> (s = [] \<or> s = dot1)" "ss = []" | "s \<noteq> dot2" "\<not> (s = [] \<or> s = dot1)" "ss \<noteq> []"
    using 2(4) by (cases st) fastforce+
  then show ?case
  proof cases
    case 1
    then have "names_ok st1" "resolve_segs st1 ss = Some (st', f)" using 2 by (simp_all add: names_ok_Cons)
    then show ?thesis using 2(1) [OF 1 _ _ rest] 1 by auto
  next
    case 2
    then show ?thesis using "2.IH"(2) [OF 2 _ "2.prems"(2) rest] "2.prems"(1) by auto
  next
    case 3
    then have "st' = st" "f = s" using 2(4) by auto
    moreover have "s \<noteq> []" "s \<noteq> dot1" "s \<noteq> dot2" using 3 by blast+
    ultimately show ?thesis using 2(5) free by (simp add: names_ok_def)
  next
    case 4
    then have n: "names_ok (s # st)" using 2(5) free unfolding names_ok_Cons by blast
    have "resolve_segs (s # st) ss = Some (st', f)" using 2(4) 4 by auto
    from "2.IH"(3) [OF 4 this n rest] show ?thesis by auto
  qed
qed simp

lemma slice_eq: "start + n \<le> length p \<Longrightarrow> take n (drop start p) = xs \<longleftrightarrow> n = length xs \<and> (\<forall>i<length xs. p ! (start + i) = xs ! i)"
  by (auto simp: list_eq_iff_nth_eq)

lemma dot_seg_eq: "start + n \<le> length p \<Longrightarrow> dot_seg p start n \<longleftrightarrow> take n (drop start p) = dot1"
  by (simp add: slice_eq dot_seg_def)

lemma dotdot_seg_eq: "start + n \<le> length p \<Longrightarrow> dotdot_seg p start n \<longleftrightarrow> take n (drop start p) = dot2"
  by (auto simp: slice_eq dotdot_seg_def less_2_cases_iff numeral_2_eq_2 All_less_Suc)

section \<open>The walk over the segments\<close>

text \<open>The segment at the read position, and what follows it.\<close>

lemma seg_split:
  assumes "n \<le> length p" "r \<le> n"
  defines "s \<equiv> takeWhile (\<lambda>c. c \<noteq> slash) (drop r (take n p))"
  defines "e \<equiv> skip_while (\<lambda>c. c \<noteq> slash) p n r"
  shows "e = r + length s \<and> e \<le> n \<and> take (length s) (drop r p) = s \<and> (\<forall>c\<in>set s. c \<noteq> slash) \<and>
    segs (drop r (take n p)) = s # (if e < n then segs (drop (e + 1) (take n p)) else [])"
proof -
  let ?d = "drop r (take n p)"
  have e: "e = r + length s" unfolding e_def s_def using assms(1,2) by (rule skip_while_eq)
  have l: "length s \<le> n - r" using length_takeWhile_le [of "\<lambda>c. c \<noteq> slash" ?d] assms(1,2) by (simp add: s_def)
  have d: "?d = s @ drop (length s) ?d" unfolding s_def by (metis append_take_drop_id takeWhile_eq_take)
  have t: "take (length s) (drop r p) = s"
  proof -
    have "take (length s) ?d = s" by (subst d) simp
    then show ?thesis using l assms(2) by (simp add: take_drop min_def split: if_splits)
  qed
  have f: "\<forall>c\<in>set s. c \<noteq> slash" by (auto simp: s_def dest: set_takeWhileD)
  have "segs ?d = s # (if e < n then segs (drop (e + 1) (take n p)) else [])"
  proof (cases "e < n")
    case True
    then have "length s < length ?d" using assms(1) e by simp
    then have "?d ! length s = slash" using nth_length_takeWhile [of "\<lambda>c. c \<noteq> slash" ?d] by (simp add: s_def)
    moreover have "drop (length s) ?d = ?d ! length s # drop (e + 1) (take n p)"
      using Cons_nth_drop_Suc [OF \<open>length s < length ?d\<close>] by (simp add: e ac_simps)
    ultimately have "?d = s @ slash # drop (e + 1) (take n p)" using d by simp
    then show ?thesis using True segs_cons [OF f, of "drop (e + 1) (take n p)"] by simp
  next
    case False
    then have "drop (length s) ?d = []" using e assms(1) by simp
    then show ?thesis using False d f by (metis append_Nil2 segs_single)
  qed
  then show ?thesis using e l t f assms(2) by auto
qed

lemma dirs_text_start: "take w p = dirs_text st \<Longrightarrow> p = dirs_text st @ drop w p"
  by (metis append_take_drop_id)

lemma put_seg_eq:
  assumes "w \<le> start" "start + length s \<le> length p" "take (length s) (drop start p) = s" "\<not> last' \<Longrightarrow> start + length s < length p"
  shows "put_seg p w start (length s) last' =
    (let t = s @ (if last' then [] else [slash]) in (take w p @ t @ drop (w + length t) p, w + length t))"
proof -
  have c: "copy_down p w start (length s) = take w p @ s @ drop (w + length s) p"
    using copy_down_eq [OF assms(1,2)] assms(3) by simp
  show ?thesis
  proof (cases last')
    case False
    then have "drop (w + length s) p = p ! (w + length s) # drop (w + length s + 1) p"
      using assms by (simp add: Cons_nth_drop_Suc [symmetric])
    moreover have "length (take w p) = w" using assms(1,2) by simp
    ultimately have "(take w p @ s @ drop (w + length s) p)[w + length s := slash] = take w p @ s @ slash # drop (w + length s + 1) p"
      by (simp add: list_update_append)
    then show ?thesis using False by (simp add: put_seg_def c Let_def)
  qed (simp add: put_seg_def c Let_def)
qed

lemma drop_prefix: "length a = k \<Longrightarrow> k \<le> j \<Longrightarrow> drop j (a @ drop k p) = drop j p"
  by simp

definition walk_result :: "nat \<Rightarrow> byte list \<Rightarrow> (byte list list \<times> byte list) option \<Rightarrow> out_bytes \<Rightarrow> bool" where
  "walk_result n p spec res =
    (case spec of
       None \<Rightarrow> fst res = PROVEN_ERR_PERMISSION \<and> length (fst (snd res)) = length p
     | Some (st, f) \<Rightarrow> let t = dirs_text st @ f in
         \<exists>p'. res = (PROVEN_OK, p', length t) \<and> take (length t) p' = t \<and> length p' = length p \<and> length t \<le> n)"

lemma resolve_loop_run:
  assumes "n \<le> length p" "w \<le> r" "r \<le> n" "take w p = dirs_text st" "names_ok st"
  shows "walk_result n p (resolve_segs st (segs (drop r (take n p)))) (resolve_loop p n w r)"
  using assms
proof (induction "n - r" arbitrary: p w r st rule: less_induct)
  case less
  define e where "e = skip_while (\<lambda>c. c \<noteq> slash) p n r"
  define s where "s = takeWhile (\<lambda>c. c \<noteq> slash) (drop r (take n p))"
  define rest where "rest = (if e < n then segs (drop (e + 1) (take n p)) else [])"
  note sp = seg_split [OF less.prems(1,3), folded e_def s_def rest_def]
  have len: "e - r = length s" and en: "r \<le> e" "e \<le> n" and sl: "r + length s \<le> length p" using sp less.prems(1) by simp_all
  have d: "dot_seg p r (length s) \<longleftrightarrow> s = dot1" "dotdot_seg p r (length s) \<longleftrightarrow> s = dot2"
    using sp by (simp_all add: dot_seg_eq [OF sl] dotdot_seg_eq [OF sl])
  have w: "w = length (dirs_text st)" using less.prems(1-4) by (metis dual_order.trans length_take min.absorb2)
  have p: "p = dirs_text st @ drop w p" using less.prems(4) by (rule dirs_text_start)
  have go: "walk_result n p (resolve_segs st1 rest) (if n \<le> e then (PROVEN_OK, p1, w1) else resolve_loop p1 n w1 (e + 1))"
    if "length p1 = length p" "w1 \<le> e + 1" "w1 \<le> n" "take w1 p1 = dirs_text st1" "names_ok st1"
      "drop (e + 1) p1 = drop (e + 1) p" for p1 w1 st1
  proof (cases "e < n")
    case True
    have "drop (e + 1) (take n p1) = drop (e + 1) (take n p)" using that(6) by (simp add: drop_take)
    moreover have "walk_result n p1 (resolve_segs st1 (segs (drop (e + 1) (take n p1)))) (resolve_loop p1 n w1 (e + 1))"
      by (rule less.hyps) (use that less.prems(1) True en in simp_all)
    moreover have "walk_result n p1 = walk_result n p" by (intro ext) (simp only: walk_result_def that(1))
    ultimately show ?thesis using True by (simp add: rest_def)
  next
    case False
    have "length (dirs_text st1) = w1" using that(1,3,4) less.prems(1) by (metis dual_order.trans length_take min.absorb2)
    then show ?thesis using False that by (simp add: rest_def walk_result_def)
  qed
  have loop: "resolve_loop p n w r =
    (if s = dot2 \<and> w \<le> 1 then (PROVEN_ERR_PERMISSION, p, w)
     else case (if s = dot2 then (p, step_back p 0 (w - 1))
          else if s \<noteq> [] \<and> s \<noteq> dot1 then put_seg p w r (length s) (n \<le> e) else (p, w)) of
       (p, w) \<Rightarrow> if n \<le> e then (PROVEN_OK, p, w) else resolve_loop p n w (e + 1))"
    by (subst resolve_loop.simps) (simp only: Let_def e_def [symmetric] len d length_greater_0_conv)
  consider (root) "s = dot2" "st = []" | (up) t st1 where "s = dot2" "st = t # st1" | (stay) "s \<noteq> dot2" "s = [] \<or> s = dot1"
    | (name) "s \<noteq> dot2" "s \<noteq> []" "s \<noteq> dot1"
    by (cases st) blast+
  then have "walk_result n p (resolve_segs st (s # rest)) (resolve_loop p n w r)"
  proof cases
    case root
    then have "w \<le> 1" using w by simp
    then show ?thesis unfolding loop using root by (simp add: walk_result_def)
  next
    case up
    then have st1: "names_ok st1" and t: "\<forall>c\<in>set t. c \<noteq> slash" using less.prems(5) by (simp_all add: names_ok_Cons)
    have p': "p = dirs_text st1 @ t @ slash # drop w p" using p up by simp
    have "step_back (dirs_text st1 @ t @ slash # drop w p) 0 (length (dirs_text st1) + length t) = length (dirs_text st1)"
      by (rule step_back_over) (use t dirs_text_last [of st1] in auto)
    then have b: "step_back p 0 (w - 1) = length (dirs_text st1)" unfolding p' [symmetric] using w up by simp
    have "take (length (dirs_text st1)) p = dirs_text st1" by (subst p') simp
    moreover have "\<not> w \<le> 1" using w up dirs_text_last [of st1] by auto
    moreover have "length (dirs_text st1) \<le> w" using w up by simp
    ultimately show ?thesis unfolding loop using up b go [of p "length (dirs_text st1)" st1] st1 less.prems(1-3) en
      by simp
  next
    case stay
    then show ?thesis unfolding loop using go [of p w st] less.prems en by auto
  next
    case name
    let ?t = "s @ (if n \<le> e then [] else [slash])"
    have put: "put_seg p w r (length s) (n \<le> e) = (take w p @ ?t @ drop (w + length ?t) p, w + length ?t)"
      using put_seg_eq [OF less.prems(2) sl, of "n \<le> e"] sp less.prems(1) by (simp add: Let_def)
    show ?thesis
    proof (cases "n \<le> e")
      case True
      then show ?thesis unfolding loop using name put w less.prems sp by (simp add: walk_result_def rest_def)
    next
      case False
      have "names_ok (s # st)" using name sp less.prems(5) by (simp add: names_ok_Cons)
      moreover have "drop (e + 1) (take w p @ ?t @ drop (w + length ?t) p) = drop (e + 1) p"
        using drop_prefix [of "take w p @ ?t" "w + length ?t" "e + 1" p] False less.prems len en w [symmetric] by simp
      ultimately show ?thesis unfolding loop
        using go [of "take w p @ ?t @ drop (w + length ?t) p" "w + length ?t" "s # st"] False name put w less.prems sp len en
        by (simp add: rest_def)
    qed
  qed
  then show ?case using sp by simp
qed

end
