(* ===== verification/Url_Props.thy ===== *)
theory Url_Props
  imports Url_Safe Utf_Convert
begin

text \<open>
  Properties of \<^verbatim>\<open>src/proven/url.c\<close>: the path that is safe to open, percent-coding and its inverse.
\<close>

section \<open>Escapes\<close>

text \<open>The bytes a text stands for, each with whether it was written as an escape.\<close>

function pct_tokens :: "byte list \<Rightarrow> (bool \<times> byte) list option" where
  "pct_tokens [] = Some []"
| "pct_tokens (c # cs) =
    (if c = asc CHR ''%'' then
       (case hex_pair cs of None \<Rightarrow> None | Some (d, rest) \<Rightarrow> map_option (\<lambda>ts. (True, d) # ts) (pct_tokens rest))
     else map_option (\<lambda>ts. (False, c) # ts) (pct_tokens cs))"
  by pat_completeness auto
termination by (relation "measure length") (auto dest: hex_pair_length)

lemma pct_tokens_length: "pct_tokens cs = Some ts \<Longrightarrow> length ts \<le> length cs"
  by (induction cs arbitrary: ts rule: pct_tokens.induct)
    (auto split: if_splits option.splits dest!: hex_pair_length, fastforce)

definition path_token_ok :: "bool \<times> byte \<Rightarrow> bool" where
  "path_token_ok t \<longleftrightarrow> t \<noteq> (True, slash) \<and> path_byte_ok (snd t)"

lemma take_Suc_update: "n < length p \<Longrightarrow> take (Suc n) (p[n := d]) = take n p @ [d]"
  by (simp add: take_Suc_conv_app_nth)

definition path_decoded :: "byte list \<Rightarrow> byte list option" where
  "path_decoded cs = (case pct_tokens cs of None \<Rightarrow> None | Some ts \<Rightarrow> if \<forall>t\<in>set ts. path_token_ok t then Some (map snd ts) else None)"

lemma path_decode_loop_run:
  assumes "n + length cs \<le> length p"
  shows "case path_decoded cs of
      None \<Rightarrow> fst (path_decode_loop cs p n) = PROVEN_ERR_INVALID_FORMAT \<and> length (fst (snd (path_decode_loop cs p n))) = length p
    | Some d \<Rightarrow> \<exists>p'. path_decode_loop cs p n = (PROVEN_OK, p', n + length d) \<and> take (n + length d) p' = take n p @ d \<and>
        length p' = length p \<and> length d \<le> length cs"
  using assms
proof (induction cs p n rule: path_decode_loop.induct)
  case (1 p n)
  then show ?case by (simp add: path_decoded_def)
next
  case (2 c cs p n)
  show ?case
  proof (cases "c = asc CHR ''%''")
    case True
    show ?thesis
    proof (cases "hex_pair cs")
      case None
      then show ?thesis using True by (simp add: path_decoded_def)
    next
      case (Some dr)
      obtain d rest where dr: "dr = (d, rest)" by (cases dr)
      then have l: "length cs = length rest + 2" using Some by (simp add: hex_pair_length)
      show ?thesis
      proof (cases "path_token_ok (True, d)")
        case False
        then show ?thesis using True Some dr by (auto simp: path_decoded_def path_token_ok_def split: option.splits)
      next
        case ok: True
        then have "path_decode_loop (c # cs) p n = path_decode_loop rest (p[n := d]) (n + 1)"
          using True Some dr 2(3) by (simp add: path_token_ok_def)
        moreover have "path_decoded (c # cs) = map_option (Cons d) (path_decoded rest)"
          using True Some dr ok by (auto simp: path_decoded_def split: option.splits)
        ultimately show ?thesis
          using 2(1) [OF True Some dr [symmetric]] ok 2(3) l take_Suc_update [of n p d]
          by (auto simp: path_token_ok_def split: option.splits)
      qed
    qed
  next
    case False
    show ?thesis
    proof (cases "path_byte_ok c")
      case ok: True
      have "path_decode_loop (c # cs) p n = path_decode_loop cs (p[n := c]) (n + 1)" using False ok 2(3) by simp
      moreover have "path_decoded (c # cs) = map_option (Cons c) (path_decoded cs)"
        using False ok by (auto simp: path_decoded_def path_token_ok_def split: option.splits)
      ultimately show ?thesis using 2(2) [OF False] ok 2(3) take_Suc_update [of n p c] by (auto split: option.splits)
    next
      case no: False
      then show ?thesis using False by (auto simp: path_decoded_def path_token_ok_def split: option.splits)
    qed
  qed
qed

section \<open>The text is UTF-8\<close>

lemma utf8_walk_iff:
  assumes "pos \<le> length d"
  shows "utf8_walk d pos \<longleftrightarrow> (\<exists>cps. (\<forall>c\<in>set cps. scalar c) \<and> drop pos d = utf8_text cps)"
  using assms
proof (induction d pos rule: utf8_walk.induct)
  case (1 d pos)
  show ?case
  proof (cases "pos < length d")
    case False
    then show ?thesis by (subst utf8_walk.simps) (auto intro: exI [of _ "[]"] simp: utf8_text_def)
  next
    case True
    let ?ch = "proven_utf8_decode_next (At d) pos"
    have ne: "drop pos d \<noteq> []" using True by simp
    show ?thesis
    proof (cases "utf8_decode_span (drop pos d)")
      case (Decoded cp r)
      note dec = utf8_decode_inverse [OF Decoded ne]
      have r: "0 < r" "pos + r \<le> length d" using dec True by (auto simp: utf8_width_def)
      have ch: "cerr ?ch = PROVEN_OK" "clen ?ch = r" using True Decoded by (simp_all add: proven_utf8_decode_next_def)
      have w: "utf8_walk d pos = utf8_walk d (pos + r)" using True ch r by (subst utf8_walk.simps) (simp add: Let_def)
      have dp: "drop pos d = utf8_enc cp @ drop (pos + r) d" using dec by (metis append_take_drop_id drop_drop add.commute)
      have ih: "utf8_walk d (pos + r) \<longleftrightarrow> (\<exists>cps. (\<forall>c\<in>set cps. scalar c) \<and> drop (pos + r) d = utf8_text cps)"
        using 1(1) [OF True refl] ch r by simp
      show ?thesis unfolding w ih
      proof
        assume "\<exists>cps. (\<forall>c\<in>set cps. scalar c) \<and> drop (pos + r) d = utf8_text cps"
        then obtain cps where "\<forall>c\<in>set cps. scalar c" "drop (pos + r) d = utf8_text cps" by blast
        then show "\<exists>cps. (\<forall>c\<in>set cps. scalar c) \<and> drop pos d = utf8_text cps"
          using dec dp by (intro exI [of _ "cp # cps"]) (simp add: utf8_text_def)
      next
        assume "\<exists>cps. (\<forall>c\<in>set cps. scalar c) \<and> drop pos d = utf8_text cps"
        then obtain cps where c: "\<forall>c\<in>set cps. scalar c" "drop pos d = utf8_text cps" by blast
        then obtain x xs where x: "cps = x # xs" using ne by (cases cps) (auto simp: utf8_text_def)
        then have "drop pos d = utf8_enc x @ utf8_text xs" using c by (simp add: utf8_text_def)
        moreover from this have "utf8_decode_span (drop pos d) = Decoded x (utf8_width x)" using c x by (simp add: utf8_decode_enc)
        ultimately have "drop (pos + r) d = utf8_text xs" using Decoded dp by simp
        then show "\<exists>cps. (\<forall>c\<in>set cps. scalar c) \<and> drop (pos + r) d = utf8_text cps" using c x by auto
      qed
    next
      case Cut_off
      then have "\<not> utf8_walk d pos" using True by (subst utf8_walk.simps) (simp add: Let_def proven_utf8_decode_next_def)
      moreover have False if "\<forall>c\<in>set cps. scalar c" "drop pos d = utf8_text cps" for cps
        using that ne Cut_off by (cases cps) (auto simp: utf8_text_def utf8_decode_enc)
      ultimately show ?thesis by blast
    next
      case (Malformed bad)
      then have "\<not> utf8_walk d pos" using True by (subst utf8_walk.simps) (simp add: Let_def proven_utf8_decode_next_def)
      moreover have False if "\<forall>c\<in>set cps. scalar c" "drop pos d = utf8_text cps" for cps
        using that ne Malformed by (cases cps) (auto simp: utf8_text_def utf8_decode_enc)
      ultimately show ?thesis by blast
    qed
  qed
qed

definition path_utf8 :: "byte list \<Rightarrow> bool" where
  "path_utf8 d \<longleftrightarrow> (\<exists>cps. (\<forall>c\<in>set cps. scalar c) \<and> d = utf8_text cps)"

section \<open>The path that is safe to open\<close>

lemma path_decoded_slash: "path_decoded (slash # cs) = map_option (Cons slash) (path_decoded cs)"
  by (cases "pct_tokens cs") (simp_all add: path_decoded_def path_token_ok_def)

lemma path_decoded_ok: "path_decoded cs = Some d \<Longrightarrow> c \<in> set d \<Longrightarrow> path_byte_ok c"
proof -
  assume d: "path_decoded cs = Some d" and c: "c \<in> set d"
  then obtain ts where "\<forall>t\<in>set ts. path_token_ok t" "d = map snd ts"
    unfolding path_decoded_def by (cases "pct_tokens cs") (simp_all split: if_splits)
  then show "path_byte_ok c" using c unfolding path_token_ok_def by (metis imageE set_map)
qed

lemma resolved_bytes:
  assumes "resolve_segs [] (segs cs) = Some (st, f)" "\<forall>c\<in>set cs. path_byte_ok c"
  shows "names_ok st \<and> (f = [] \<or> names_ok [f]) \<and> (\<forall>c\<in>set (dirs_text st @ f). path_byte_ok c)"
proof -
  have n: "names_ok st \<and> (f = [] \<or> names_ok [f]) \<and> (\<forall>s\<in>set (f # st). s = [] \<or> s \<in> set [] \<or> s \<in> set (segs cs))"
    by (rule resolve_segs_names [OF assms(1)]) (auto simp: names_ok_def dest: segs_slash_free)
  have "path_byte_ok c" if "c \<in> set s" "s \<in> set (f # st)" for c s
  proof -
    have "s \<in> set (segs cs)" using n that by auto
    then show ?thesis using segs_slash_free that(1) assms(2) by blast
  qed
  then show ?thesis using n by (auto simp: dirs_text_def)
qed

text \<open>C23: Making a request path safe to open is exact: with an output at least as long as the path, the
  answer is an error for a path that does not start with a slash, holds a broken escape, an encoded slash,
  a control character, a backslash or bytes that are not UTF-8 after decoding; it is PERMISSION exactly when
  some .. has no directory left to leave; and otherwise it is the decoded path with its segments resolved,
  in which no segment is empty, . or .., and no byte is a control character or a backslash.\<close>

theorem url_path_resolve_exact:
  fixes buf :: "byte list" and w0 :: nat
  assumes "length raw \<le> length buf"
  defines "res \<equiv> proven_url_path_resolve (At raw) (At buf) (Some w0)"
  shows "case (if raw \<noteq> [] \<and> hd raw = slash then path_decoded raw else None) of
      None \<Rightarrow> fst res = PROVEN_ERR_INVALID_FORMAT \<and> fst (snd res) = Some 0
    | Some d \<Rightarrow> if \<not> path_utf8 d then fst res = PROVEN_ERR_INVALID_FORMAT \<and> fst (snd res) = Some 0
        else (case resolve_segs [] (segs (tl d)) of
            None \<Rightarrow> fst res = PROVEN_ERR_PERMISSION \<and> fst (snd res) = Some 0
          | Some (st, f) \<Rightarrow> \<exists>b. res = (PROVEN_OK, Some (length (dirs_text st @ f)), At (dirs_text st @ f @ b)) \<and>
              length (dirs_text st @ f @ b) = length buf \<and>
              names_ok st \<and> (f = [] \<or> names_ok [f]) \<and> (\<forall>c\<in>set (dirs_text st @ f). path_byte_ok c) \<and>
              length (dirs_text st @ f) \<le> length raw)"
proof (cases "raw \<noteq> [] \<and> hd raw = slash")
  case False
  then show ?thesis by (auto simp: res_def proven_url_path_resolve_def hd_conv_nth)
next
  case start: True
  then obtain cs where raw: "raw = slash # cs" by (cases raw) auto
  define run where "run = path_decode_loop raw buf 0"
  have res: "res = into_buffer (\<lambda>p. case path_decode_loop raw p 0 of
         (e, p, n) \<Rightarrow>
           if e \<noteq> PROVEN_OK then (e, p, n)
           else if \<not> utf8_walk (take n p) 0 then (PROVEN_ERR_INVALID_FORMAT, p, n)
           else resolve_loop p n 1 1) (At buf)"
    by (simp add: res_def proven_url_path_resolve_def raw)
  have dec: "case path_decoded raw of None \<Rightarrow> fst run = PROVEN_ERR_INVALID_FORMAT \<and> length (fst (snd run)) = length buf
    | Some d \<Rightarrow> \<exists>p'. run = (PROVEN_OK, p', length d) \<and> take (length d) p' = d \<and> length p' = length buf \<and> length d \<le> length raw"
    using path_decode_loop_run [of 0 raw buf] assms(1) unfolding run_def by (cases "path_decoded raw") simp_all
  show ?thesis
  proof (cases "path_decoded raw")
    case None
    then show ?thesis using dec start by (cases run) (auto simp: res into_buffer_def run_def)
  next
    case (Some d)
    then obtain p' where p': "run = (PROVEN_OK, p', length d)" "take (length d) p' = d" "length p' = length buf" "length d \<le> length raw"
      using dec by auto
    obtain d' where d: "d = slash # d'" using Some unfolding raw path_decoded_slash by auto
    have u: "utf8_walk d 0 \<longleftrightarrow> path_utf8 d" using utf8_walk_iff [of 0 d] by (simp add: path_utf8_def)
    show ?thesis
    proof (cases "path_utf8 d")
      case False
      then show ?thesis using Some start p' u by (simp add: res into_buffer_def run_def [symmetric])
    next
      case True
      have r: "res = into_buffer (\<lambda>p. resolve_loop p' (length d) 1 1) (At buf)"
        using True p' u by (simp add: res into_buffer_def run_def [symmetric])
      have "take 1 p' = take 1 (take (length d) p')" using d by (simp del: p')
      then have "take 1 p' = dirs_text []" unfolding p'(2) by (simp add: d)
      then have w: "walk_result (length d) p' (resolve_segs [] (segs (tl d))) (resolve_loop p' (length d) 1 1)"
        using resolve_loop_run [of "length d" p' 1 1 "[]"] p' assms(1) d by (simp add: names_ok_def drop_Suc)
      have ok: "\<forall>c\<in>set (tl d). path_byte_ok c" using path_decoded_ok [OF Some] d by auto
      show ?thesis
      proof (cases "resolve_segs [] (segs (tl d))")
        case None
        then have "fst (resolve_loop p' (length d) 1 1) = PROVEN_ERR_PERMISSION" using w by (simp add: walk_result_def)
        then show ?thesis using True Some start None by (cases "resolve_loop p' (length d) 1 1") (simp add: r into_buffer_def)
      next
        case (Some stf)
        obtain st f where stf: "stf = (st, f)" by (cases stf)
        define t where "t = dirs_text st @ f"
        obtain q where q: "resolve_loop p' (length d) 1 1 = (PROVEN_OK, q, length t)" "take (length t) q = t" "length q = length p'" "length t \<le> length d"
          using w Some stf by (auto simp: walk_result_def t_def Let_def)
        then have "q = t @ drop (length t) q" by (metis append_take_drop_id)
        moreover have "res = (PROVEN_OK, Some (length t), At q)" using q(1) by (simp add: r into_buffer_def)
        moreover note resolved_bytes [OF Some [unfolded stf] ok, folded t_def]
        ultimately have "\<exists>b. res = (PROVEN_OK, Some (length t), At (t @ b)) \<and> length (t @ b) = length buf \<and> names_ok st \<and>
            (f = [] \<or> names_ok [f]) \<and> (\<forall>c\<in>set t. path_byte_ok c) \<and> length t \<le> length raw"
          using q p' by (intro exI [of _ "drop (length t) q"]) simp
        then show ?thesis using \<open>path_decoded raw = Some d\<close> start True Some stf by (simp add: t_def)
      qed
    qed
  qed
qed

section \<open>Percent-coding\<close>

definition encoded_byte :: "proven_url_keep \<Rightarrow> byte \<Rightarrow> byte list" where
  "encoded_byte keep c =
    (if url_unreserved c \<or> (keep = URL_KEEP_PATH \<and> c = slash) then [c]
     else if keep = URL_KEEP_FORM \<and> c = asc CHR '' '' then [asc CHR ''+'']
     else [asc CHR ''%'', HEX_UPPER ! unat (drop_bit 4 c), HEX_UPPER ! unat (c AND 0xf)])"

definition encoded :: "proven_url_keep \<Rightarrow> byte list \<Rightarrow> byte list" where
  "encoded keep cs = concat (map (encoded_byte keep) cs)"

lemma encoded_simps [simp]: "encoded keep [] = []" "encoded keep (c # cs) = encoded_byte keep c @ encoded keep cs"
  by (simp_all add: encoded_def)

lemma encoded_length: "length cs \<le> length (encoded keep cs) \<and> length (encoded keep cs) \<le> 3 * length cs"
  by (induction cs) (auto simp: encoded_byte_def)

lemma url_encode_loop_run:
  assumes "w \<le> length p"
  shows "let t = encoded keep cs in
    if w + length t \<le> length p
    then url_encode_loop keep cs p w = (PROVEN_OK, take w p @ t @ drop (w + length t) p, w + length t)
    else fst (url_encode_loop keep cs p w) = PROVEN_ERR_OUT_OF_BOUNDS"
  using assms
proof (induction cs arbitrary: p w)
  case (Cons c cs)
  let ?n = "length (encoded_byte keep c)" and ?p = "take w p @ encoded_byte keep c @ drop (w + length (encoded_byte keep c)) p"
  show ?case
  proof (cases "w + ?n \<le> length p")
    case False
    then show ?thesis using Cons.prems by (auto simp: Let_def encoded_byte_def not_le split: if_splits)
  next
    case True
    have step: "url_encode_loop keep (c # cs) p w = url_encode_loop keep cs ?p (w + ?n)"
    proof (cases "?n = 1")
      case one: True
      then obtain d where d: "encoded_byte keep c = [d]" by (cases "encoded_byte keep c") auto
      have "p[w := d] = ?p" using True by (simp add: d upd_conv_take_nth_drop)
      then show ?thesis using d True by (auto simp: encoded_byte_def Let_def split: if_splits)
    next
      case False
      then have d: "encoded_byte keep c = [asc CHR ''%'', HEX_UPPER ! unat (drop_bit 4 c), HEX_UPPER ! unat (c AND 0xf)]"
        by (simp add: encoded_byte_def split: if_splits)
      have "p[w := x, w + 1 := y, w + 2 := z] = take w p @ [x, y, z] @ drop (w + 3) p" for x y z
        using True d by (intro nth_equalityI) (auto simp: nth_list_update nth_append nth_Cons' split: if_splits)
      then show ?thesis using d True False by (auto simp: encoded_byte_def Let_def numeral_3_eq_3 split: if_splits)
    qed
    show ?thesis unfolding step using Cons.IH [of "w + ?n" ?p] True by (simp add: Let_def ac_simps)
  qed
qed (simp add: Let_def)


definition decoded_token :: "bool \<Rightarrow> bool \<times> byte \<Rightarrow> byte" where
  "decoded_token form t = (if \<not> fst t \<and> form \<and> snd t = asc CHR ''+'' then asc CHR '' '' else snd t)"

lemma decoded_token_simps:
  "decoded_token form (True, c) = c" "decoded_token form (False, c) = (if c = asc CHR ''+'' \<and> form then asc CHR '' '' else c)"
  by (auto simp: decoded_token_def)

lemma url_decode_loop_run:
  assumes "w \<le> length p" "pct_tokens cs = Some ts"
  shows "let t = map (decoded_token form) ts in
    if w + length t \<le> length p
    then url_decode_loop form cs p w = (PROVEN_OK, take w p @ t @ drop (w + length t) p, w + length t)
    else fst (url_decode_loop form cs p w) = PROVEN_ERR_OUT_OF_BOUNDS"
  using assms
proof (induction form cs p w arbitrary: ts rule: url_decode_loop.induct)
  case (2 form c cs p w)
  have go: ?case if s: "url_decode_loop form (c # cs) p w =
        (if w \<ge> length p then (PROVEN_ERR_OUT_OF_BOUNDS, p, w) else url_decode_loop form rest (p[w := decoded_token form t]) (w + 1))"
      and ts: "ts = t # us"
      and ih: "w < length p \<Longrightarrow> (let v = map (decoded_token form) us; q = p[w := decoded_token form t] in
        if w + 1 + length v \<le> length q
        then url_decode_loop form rest q (w + 1) = (PROVEN_OK, take (w + 1) q @ v @ drop (w + 1 + length v) q, w + 1 + length v)
        else fst (url_decode_loop form rest q (w + 1)) = PROVEN_ERR_OUT_OF_BOUNDS)" for rest t us
  proof (cases "w < length p")
    case True
    then show ?thesis unfolding s ts using ih [OF True] by (simp add: Let_def take_Suc_update del: url_decode_loop.simps cong: if_cong)
  qed (use 2(3) s ts in simp)
  show ?case
  proof (cases "c = asc CHR ''%''")
    case True
    then obtain d rest where h: "hex_pair cs = Some (d, rest)" using 2(4) by (auto split: option.splits)
    then obtain us where us: "pct_tokens rest = Some us" "ts = (True, d) # us" using True 2(4) by auto
    show ?thesis
      by (rule go [of rest "(True, d)" us]) (use 2(1) [OF True h refl] True h us in \<open>simp_all add: Let_def decoded_token_simps not_le\<close>)
  next
    case False
    then obtain us where us: "pct_tokens cs = Some us" "ts = (False, c) # us" using 2(4) by auto
    have e: "(if c = asc CHR ''+'' \<and> form then asc CHR '' '' else c) = decoded_token form (False, c)" by (simp add: decoded_token_simps)
    have s: "url_decode_loop form (c # cs) p w =
      (if w \<ge> length p then (PROVEN_ERR_OUT_OF_BOUNDS, p, w) else url_decode_loop form cs (p[w := decoded_token form (False, c)]) (w + 1))"
      unfolding url_decode_loop.simps(2) e using False by simp
    note ih = 2(2) [OF False _ _ us(1), unfolded e Let_def]
    show ?thesis by (rule go [OF s us(2)]) (simp only: Let_def, rule ih, simp_all)
  qed
qed (simp add: Let_def)

lemma hex_upper:
  assumes "k < 16"
  shows "url_hex (HEX_UPPER ! k) = Some (of_nat k)"
proof -
  have "map url_hex HEX_UPPER = map (\<lambda>k. Some (of_nat k)) [0..<16]" by code_simp
  then have "map url_hex HEX_UPPER ! k = Some (of_nat k)" "length HEX_UPPER = 16"
    using assms by (simp_all add: HEX_UPPER_def ascii_def)
  then show ?thesis using assms by simp
qed

lemma nibbles_join: "push_bit 4 (drop_bit 4 c) OR (c AND 0xf) = (c :: byte)"
proof -
  have "c AND 0xf = take_bit 4 c" by (simp add: take_bit_eq_mask mask_numeral)
  then show ?thesis by (simp add: bit_eq_iff bit_simps) auto
qed

lemma nibbles_less: "unat (drop_bit 4 c) < 16" "unat (c AND 0xf) < 16" for c :: byte
proof -
  have "unat c < 256" using unsigned_less [of c] by simp
  then show "unat (drop_bit 4 c) < 16" by (simp only: unat_drop_bit_eq) (simp add: drop_bit_eq_div less_mult_imp_div_less)
  have "c AND 0xf \<le> 0xf" by (rule word_and_le1)
  then show "unat (c AND 0xf) < 16" by (simp add: word_le_nat_alt)
qed

lemma hex_pair_upper: "hex_pair (HEX_UPPER ! unat (drop_bit 4 c) # HEX_UPPER ! unat (c AND 0xf) # cs) = Some (c, cs)"
proof -
  note n = nibbles_less [of c]
  show ?thesis by (simp only: hex_pair.simps hex_upper [OF n(1)] hex_upper [OF n(2)]) (simp add: nibbles_join)
qed

text \<open>What may stand in an encoded text, and what no encoded byte is read as.\<close>

definition safe_char :: "proven_url_keep \<Rightarrow> byte \<Rightarrow> bool" where
  "safe_char keep c \<longleftrightarrow> url_unreserved c \<or> c = asc CHR ''%'' \<or> (keep = URL_KEEP_PATH \<and> c = slash) \<or> (keep = URL_KEEP_FORM \<and> c = asc CHR ''+'')"

lemma unreserved_other: "\<not> url_unreserved (asc CHR ''%'')" "\<not> url_unreserved (asc CHR ''+'')" "\<not> url_unreserved slash"
  by (simp_all add: url_unreserved_def url_is_alpha_def url_is_digit_def)

lemma hex_upper_unreserved: "k < 16 \<Longrightarrow> url_unreserved (HEX_UPPER ! k)"
proof -
  assume k: "k < 16"
  have "list_all url_unreserved HEX_UPPER" by code_simp
  moreover have "length HEX_UPPER = 16" by (simp add: HEX_UPPER_def ascii_def)
  ultimately show ?thesis using k by (simp add: list_all_length)
qed

lemma pct_tokens_encoded:
  "\<exists>ts. pct_tokens (encoded keep cs) = Some ts \<and> map (decoded_token (keep = URL_KEEP_FORM)) ts = cs"
proof (induction cs)
  case (Cons c cs)
  then obtain ts where ts: "pct_tokens (encoded keep cs) = Some ts" "map (decoded_token (keep = URL_KEEP_FORM)) ts = cs" by blast
  consider "url_unreserved c" | "\<not> url_unreserved c" "keep = URL_KEEP_PATH" "c = slash"
    | "\<not> url_unreserved c" "keep = URL_KEEP_FORM" "c = asc CHR '' ''"
    | "encoded_byte keep c = [asc CHR ''%'', HEX_UPPER ! unat (drop_bit 4 c), HEX_UPPER ! unat (c AND 0xf)]"
    unfolding encoded_byte_def by (metis (full_types))
  then show ?case
  proof cases
    case 1
    then have "c \<noteq> asc CHR ''%''" "c \<noteq> asc CHR ''+''" using unreserved_other by blast+
    then show ?thesis using ts 1 by (simp add: encoded_byte_def decoded_token_simps)
  next
    case 4
    then show ?thesis using ts by (simp add: hex_pair_upper decoded_token_simps del: hex_pair.simps)
  qed (use ts in \<open>simp_all add: encoded_byte_def decoded_token_simps\<close>)
qed simp

lemma encoded_safe: "c \<in> set (encoded keep cs) \<Longrightarrow> safe_char keep c"
proof (induction cs)
  case (Cons a cs)
  show ?case using Cons hex_upper_unreserved nibbles_less [of a] by (auto simp: encoded_byte_def safe_char_def split: if_splits)
qed simp


section \<open>The percent-coding round trip\<close>

text \<open>C26: Percent-coding is reversible: with room for three bytes for each, any data is encoded to a text of
  unreserved characters and percent signs (with slashes in a path and plus signs in a form), and decoding
  that text, as a form when it was encoded as one, gives back the data, also into a buffer no longer than the data.\<close>

theorem url_percent_roundtrip:
  fixes w0 w1 :: nat
  assumes "3 * length data \<le> length buf" "length buf < SIZE_MAX" "length data \<le> length out"
  shows "\<exists>t rest. url_encode (At data) (At buf) (Some w0) keep = (PROVEN_OK, Some (length t), At (t @ rest)) \<and>
    (\<forall>c\<in>set t. safe_char keep c) \<and>
    url_decode (At t) (At out) (Some w1) (keep = URL_KEEP_FORM) = (PROVEN_OK, Some (length data), At (data @ drop (length data) out))"
proof -
  define t where "t = encoded keep data"
  have l: "length t \<le> length buf" using encoded_length [of data keep] assms(1) by (simp add: t_def)
  have n: "proven_url_encoded_size_max (length data) \<noteq> SIZE_MAX"
    using assms(1,2) by (auto simp: proven_url_encoded_size_max_def)
  have "url_encode_loop keep data buf 0 = (PROVEN_OK, t @ drop (length t) buf, length t)"
    using url_encode_loop_run [of 0 buf keep data] l by (simp add: t_def Let_def)
  then have e: "url_encode (At data) (At buf) (Some w0) keep = (PROVEN_OK, Some (length t), At (t @ drop (length t) buf))"
    using n by (simp add: url_encode_def into_buffer_def)
  obtain ts where ts: "pct_tokens t = Some ts" "map (decoded_token (keep = URL_KEEP_FORM)) ts = data"
    using pct_tokens_encoded unfolding t_def by blast
  have "url_decode_loop (keep = URL_KEEP_FORM) t out 0 = (PROVEN_OK, data @ drop (length data) out, length data)"
    using url_decode_loop_run [OF _ ts(1), of 0 out "keep = URL_KEEP_FORM"] ts(2) assms(3) by (simp add: Let_def)
  then have d: "url_decode (At t) (At out) (Some w1) (keep = URL_KEEP_FORM) =
      (PROVEN_OK, Some (length data), At (data @ drop (length data) out))"
    by (simp add: url_decode_def into_buffer_def)
  show ?thesis
    by (intro exI conjI) (rule e, use encoded_safe in \<open>simp add: t_def\<close>, rule d)
qed

section \<open>Witnesses\<close>

lemma demo_paths:
  "path_decoded (ascii ''/a/%2e%2e/b'') = Some (ascii ''/a/../b'')" "path_utf8 (ascii ''/a/../b'')"
  "resolve_segs [] (segs (tl (ascii ''/a/../b''))) = Some ([], ascii ''b'')"
  "path_decoded (ascii ''/../etc'') = Some (ascii ''/../etc'')" "path_utf8 (ascii ''/../etc'')"
  "resolve_segs [] (segs (tl (ascii ''/../etc''))) = None"
  "hd (ascii ''/a/%2e%2e/b'') = slash" "hd (ascii ''/../etc'') = slash"
proof -
  have "utf8_walk (ascii ''/a/../b'') 0" "utf8_walk (ascii ''/../etc'') 0" by code_simp+
  then show "path_utf8 (ascii ''/a/../b'')" "path_utf8 (ascii ''/../etc'')"
    using utf8_walk_iff [of 0] by (simp_all add: path_utf8_def)
qed code_simp+

lemma url_path_resolve_exact_witness:
  "(\<exists>b. proven_url_path_resolve (At (ascii ''/a/%2e%2e/b'')) (At (replicate 20 0)) (Some 0) =
      (PROVEN_OK, Some 2, At (ascii ''/b'' @ b))) \<and>
   fst (proven_url_path_resolve (At (ascii ''/../etc'')) (At (replicate 20 0)) (Some 0)) = PROVEN_ERR_PERMISSION"
proof -
  have l: "length (ascii ''/a/%2e%2e/b'') \<le> length (replicate 20 (0 :: byte))" "length (ascii ''/../etc'') \<le> length (replicate 20 (0 :: byte))"
    by (simp_all add: ascii_def)
  have ne: "ascii ''/a/%2e%2e/b'' \<noteq> []" "ascii ''/../etc'' \<noteq> []" by (simp_all add: ascii_def)
  have t: "dirs_text [] @ ascii ''b'' @ x = ascii ''/b'' @ x" "length (dirs_text [] @ ascii ''b'') = 2" for x
    by (simp_all add: ascii_def)
  show ?thesis
    using url_path_resolve_exact [OF l(1), of 0] url_path_resolve_exact [OF l(2), of 0]
    by (simp only: demo_paths ne option.case prod.case t if_True not_True_eq_False if_False simp_thms) blast
qed

lemma url_percent_roundtrip_witness:
  "\<exists>t rest. url_encode (At (ascii ''a b+c'')) (At (replicate 15 0)) (Some 0) URL_KEEP_FORM = (PROVEN_OK, Some (length t), At (t @ rest)) \<and>
    url_decode (At t) (At (replicate 5 0)) (Some 0) True = (PROVEN_OK, Some 5, At (ascii ''a b+c''))"
  using url_percent_roundtrip [of "ascii ''a b+c''" "replicate 15 0" "replicate 5 0" 0 URL_KEEP_FORM 0]
  by (auto simp: ascii_def SIZE_MAX_eval)

end
