(* ===== verification/Url_Parse.thy ===== *)
theory Url_Parse
  imports Url_Safe
begin

text \<open>
  The grammar of \<^verbatim>\<open>proven_url_parse\<close>: a URL is the text of its parts, and parsing finds exactly those
  parts, or refuses a text that is not such a URL.
\<close>

section \<open>The parts of a URL and their text\<close>

record url_parts =
  p_scheme :: "byte list"
  p_user :: "byte list option"
  p_host :: "byte list"
  p_v6 :: bool
  p_port :: "byte list option"
  p_path :: "byte list"
  p_query :: "byte list option"
  p_fragment :: "byte list option"

definition opt_text :: "byte list \<Rightarrow> byte list option \<Rightarrow> byte list" where
  "opt_text mark x = (case x of None \<Rightarrow> [] | Some t \<Rightarrow> mark @ t)"

definition host_text :: "byte list \<Rightarrow> bool \<Rightarrow> byte list option \<Rightarrow> byte list" where
  "host_text h v6 d = (if v6 then asc CHR ''['' # h @ [asc CHR '']''] else h) @ opt_text [asc CHR '':''] d"

definition user_text :: "byte list option \<Rightarrow> byte list" where
  "user_text u = (case u of None \<Rightarrow> [] | Some t \<Rightarrow> t @ [asc CHR ''@''])"

definition tail_text :: "byte list \<Rightarrow> byte list option \<Rightarrow> byte list option \<Rightarrow> byte list" where
  "tail_text pa q f = pa @ opt_text [asc CHR ''?''] q @ opt_text [asc CHR ''#''] f"

definition url_render :: "url_parts \<Rightarrow> byte list" where
  "url_render c = p_scheme c @ ascii ''://'' @ (user_text (p_user c) @ host_text (p_host c) (p_v6 c) (p_port c)) @
     tail_text (p_path c) (p_query c) (p_fragment c)"

definition port_value :: "nat \<Rightarrow> byte list \<Rightarrow> nat" where
  "port_value v ds = foldl (\<lambda>v c. v * 10 + unat (c - asc CHR ''0'')) v ds"

text \<open>The shape of an IP literal: hex digits, colons and dots, and perhaps a zone after %25.\<close>

definition ipv6_ok :: "byte list \<Rightarrow> bool" where
  "ipv6_ok h \<longleftrightarrow> zone_scan h (length h) False 0"

definition host_ok :: "byte list \<Rightarrow> bool \<Rightarrow> bool" where
  "host_ok h v6 \<longleftrightarrow> (if v6 then h \<noteq> [] \<and> ipv6_ok h
     else \<forall>c\<in>set h. auth_char c \<and> c \<notin> {asc CHR ''@'', asc CHR '':'', asc CHR ''['', asc CHR '']''})"

definition port_ok :: "byte list option \<Rightarrow> bool" where
  "port_ok d \<longleftrightarrow> (case d of None \<Rightarrow> True | Some ds \<Rightarrow> (\<forall>c\<in>set ds. url_is_digit c) \<and> port_value 0 ds \<le> 65535)"

definition url_parts_ok :: "url_parts \<Rightarrow> bool" where
  "url_parts_ok c \<longleftrightarrow>
     p_scheme c \<noteq> [] \<and> url_is_alpha (hd (p_scheme c)) \<and> (\<forall>x\<in>set (p_scheme c). scheme_char x) \<and>
     (\<forall>x\<in>set (user_text (p_user c)). auth_char x) \<and>
     host_ok (p_host c) (p_v6 c) \<and> port_ok (p_port c) \<and>
     (p_host c = [] \<longrightarrow> p_user c = None \<and> (p_port c = None \<or> p_port c = Some [])) \<and>
     (p_path c = [] \<or> hd (p_path c) = slash) \<and> (\<forall>x\<in>set (p_path c). path_char x) \<and>
     (\<forall>q. p_query c = Some q \<longrightarrow> asc CHR ''#'' \<notin> set q) \<and>
     url_text_ok (url_render c)"

text \<open>What the pieces of a parsed URL say.\<close>

definition piece_opt :: "byte list \<Rightarrow> bool \<Rightarrow> piece \<Rightarrow> byte list option" where
  "piece_opt s has v = (if has then Some (piece_bytes s v) else None)"

definition url_describes :: "byte list \<Rightarrow> proven_url \<Rightarrow> url_parts \<Rightarrow> bool" where
  "url_describes s u c \<longleftrightarrow>
     piece_bytes s (scheme u) = p_scheme c \<and> piece_opt s (has_userinfo u) (userinfo u) = p_user c \<and>
     piece_bytes s (host u) = p_host c \<and> host_is_ipv6 u = p_v6 c \<and>
     has_port u = (p_port c \<noteq> None \<and> p_port c \<noteq> Some []) \<and> port u = (case p_port c of None \<Rightarrow> 0 | Some d \<Rightarrow> port_value 0 d) \<and>
     piece_bytes s (path u) = p_path c \<and> piece_opt s (has_query u) (query u) = p_query c \<and>
     piece_opt s (has_fragment u) (fragment u) = p_fragment c"

section \<open>The loops\<close>

lemma last_at_none:
  assumes "asc CHR ''@'' \<notin> set a"
  shows "last_at (pre @ a @ post) (length pre) (length pre + length a) = None"
  using assms
proof (induction a arbitrary: post rule: rev_induct)
  case Nil
  show ?case by (cases "length pre") simp_all
next
  case (snoc x a)
  then show ?case using snoc.IH [of "x # post"] by (simp add: nth_append)
qed

lemma last_at_some:
  assumes "asc CHR ''@'' \<notin> set b"
  shows "last_at (pre @ (a @ asc CHR ''@'' # b) @ post) (length pre) (length pre + length (a @ asc CHR ''@'' # b)) = Some (length pre + length a + 1)"
  using assms
proof (induction b arbitrary: post rule: rev_induct)
  case Nil
  then show ?case by (simp add: nth_append)
next
  case (snoc x b)
  then show ?case using snoc.IH [of "x # post"] by (simp add: nth_append)
qed

lemma zone_scan_shift:
  assumes "k \<le> length h"
  shows "zone_scan (pre @ h @ post) (length pre + length h) z (length pre + k) = zone_scan h (length h) z k"
  using assms
proof (induction "length h - k" arbitrary: k z rule: less_induct)
  case less
  show ?case
  proof (cases "k < length h")
    case False
    then show ?thesis by (subst zone_scan.simps, subst zone_scan.simps [of h]) simp
  next
    case True
    have n: "(pre @ h @ post) ! (length pre + j) = h ! j" if "j < length h" for j using that by (simp add: nth_append)
    have ih: "zone_scan (pre @ h @ post) (length pre + length h) z' (length pre + k + j) = zone_scan h (length h) z' (k + j)"
      if "0 < j" "k + j \<le> length h" for z' j
      using less.hyps [of "k + j" z'] that True by (simp add: add.assoc)
    show ?thesis
    proof (cases "3 < length h - k")
      case long: True
      show ?thesis
        by (subst zone_scan.simps, subst zone_scan.simps [of h])
          (use True long n [of k] n [of "k + 1"] n [of "k + 2"] ih [of 1] ih [of 3] in \<open>simp add: Let_def add.assoc\<close>)
    next
      case False
      then show ?thesis
        by (subst zone_scan.simps, subst zone_scan.simps [of h]) (use True n [of k] ih [of 1] in \<open>simp add: Let_def add.assoc\<close>)
    qed
  qed
qed

definition zone_char :: "byte \<Rightarrow> bool" where
  "zone_char c \<longleftrightarrow> url_hex c \<noteq> None \<or> c = asc CHR '':'' \<or> c = asc CHR ''.'' \<or> c = asc CHR ''%'' \<or> url_unreserved c"

lemma zone_scan_chars:
  assumes "zone_scan h (length h) z k"
  shows "\<forall>c\<in>set (drop k h). zone_char c"
  using assms
proof (induction "length h - k" arbitrary: k z rule: less_induct)
  case less
  show ?case
  proof (cases "k < length h")
    case True
    have d: "drop k h = h ! k # drop (k + 1) h" using True by (simp add: Cons_nth_drop_Suc)
    consider "zone_char (h ! k)" "zone_scan h (length h) z (k + 1)"
      | "h ! k = asc CHR ''%''" "length h - k > 3" "h ! (k + 1) = asc CHR ''2''" "h ! (k + 2) = asc CHR ''5''" "zone_scan h (length h) True (k + 3)"
      using less.prems True unfolding zone_char_def by (subst (asm) zone_scan.simps) (auto simp: Let_def split: if_splits)
    then show ?thesis
    proof cases
      case 1
      then show ?thesis using less.hyps [OF _ 1(2)] True d by simp
    next
      case 2
      have "drop k h = [h ! k, h ! (k + 1), h ! (k + 2)] @ drop (k + 3) h"
        using 2(2) by (simp add: Cons_nth_drop_Suc numeral_3_eq_3)
      moreover have "zone_char (h ! k)" "zone_char (h ! (k + 1))" "zone_char (h ! (k + 2))"
        using 2 by (simp_all add: zone_char_def url_hex_def)
      ultimately show ?thesis using less.hyps [OF _ 2(5)] 2(2) by simp
    qed
  qed simp
qed

lemma host_scan_plain:
  assumes "\<forall>c\<in>set h. c \<notin> {asc CHR '':'', asc CHR ''['', asc CHR '']''}"
  shows "host_scan (pre @ h @ post) (length pre + length h + k) (length pre) =
    host_scan (pre @ h @ post) (length pre + length h + k) (length pre + length h)"
  using assms
proof (induction h arbitrary: pre)
  case (Cons c h)
  have "host_scan (pre @ (c # h) @ post) (length pre + length (c # h) + k) (length pre) =
      host_scan ((pre @ [c]) @ h @ post) (length (pre @ [c]) + length h + k) (length (pre @ [c]))"
    using Cons.prems by (subst host_scan.simps) simp
  also have "\<dots> = host_scan ((pre @ [c]) @ h @ post) (length (pre @ [c]) + length h + k) (length (pre @ [c]) + length h)"
    using Cons.prems by (intro Cons.IH) simp
  finally show ?case by simp
qed simp

lemma port_value_Cons: "port_value v (c # ds) = port_value (v * 10 + unat (c - asc CHR ''0'')) ds"
  by (simp add: port_value_def)

lemma port_value_ge: "v \<le> port_value v ds"
proof (induction ds arbitrary: v)
  case (Cons c ds)
  then show ?case unfolding port_value_Cons by (rule order_trans [rotated]) simp
qed (simp add: port_value_def)

lemma port_scan_run:
  "port_scan (pre @ d @ post) (length pre + length d) (length pre) v =
    (if (\<forall>c\<in>set d. url_is_digit c) \<and> (d = [] \<or> port_value v d \<le> 65535) then Some (port_value v d) else None)"
proof (induction d arbitrary: pre v)
  case Nil
  show ?case by (subst port_scan.simps) (simp add: port_value_def)
next
  case (Cons c d)
  let ?v = "v * 10 + unat (c - asc CHR ''0'')"
  have "port_scan (pre @ (c # d) @ post) (length pre + length (c # d)) (length pre) v =
      (if \<not> url_is_digit c then None else if ?v > 65535 then None
       else port_scan ((pre @ [c]) @ d @ post) (length (pre @ [c]) + length d) (length (pre @ [c])) ?v)"
    by (subst port_scan.simps) (simp add: Let_def)
  also have "\<dots> = (if (\<forall>x\<in>set (c # d). url_is_digit x) \<and> port_value ?v d \<le> 65535 then Some (port_value ?v d) else None)"
    unfolding Cons.IH using port_value_ge [of ?v d] by (auto simp: port_value_def)
  finally show ?case unfolding port_value_Cons by simp
qed

text \<open>Up to a byte that ends the run.\<close>

lemma skip_while_to:
  assumes "\<forall>c\<in>set xs. P c" "\<not> P y" "length pre + length xs < n" "n \<le> length (pre @ xs @ y # post)"
  shows "skip_while P (pre @ xs @ y # post) n (length pre) = length pre + length xs"
proof -
  have "drop (length pre) (take n (pre @ xs @ y # post)) = xs @ y # take (n - length pre - length xs - 1) post"
    using assms(3) by (simp add: take_Cons')
  then have "takeWhile P (drop (length pre) (take n (pre @ xs @ y # post))) = xs" using assms(1,2) by (simp add: takeWhile_tail)
  then show ?thesis using skip_while_eq [OF assms(4), of "length pre" P] assms(3) by simp
qed

lemma skip_while_all:
  assumes "\<forall>c\<in>set xs. P c"
  shows "skip_while P (pre @ xs @ post) (length pre + length xs) (length pre) = length pre + length xs"
  using skip_while_run [of xs P "[]" pre post] assms by simp

section \<open>The host and the port\<close>

lemma ipv6_ok_chars: "ipv6_ok h \<Longrightarrow> c \<in> set h \<Longrightarrow> zone_char c"
  unfolding ipv6_ok_def using zone_scan_chars by fastforce

lemma not_zone_char: "\<not> zone_char (asc CHR ''@'')" "\<not> zone_char (asc CHR '']'')" "\<not> zone_char slash"
  "\<not> zone_char (asc CHR ''?'')" "\<not> zone_char (asc CHR ''#'')"
  by (simp_all add: zone_char_def url_hex_def url_unreserved_def url_is_alpha_def url_is_digit_def)

lemma zone_auth_char: "zone_char c \<Longrightarrow> auth_char c \<and> c \<noteq> asc CHR ''@'' \<and> c \<noteq> asc CHR '']''"
  unfolding auth_char_def using not_zone_char by blast

definition port_at :: "nat \<Rightarrow> nat \<Rightarrow> byte list option \<Rightarrow> nat" where
  "port_at n auth_end d = (case d of None \<Rightarrow> auth_end | Some ds \<Rightarrow> n + 1)"

lemma url_host_v6:
  fixes d :: "byte list option"
  assumes "h \<noteq> []" "ipv6_ok h"
  defines "hp \<equiv> host_text h True d"
  shows "url_host (pre @ hp @ post) (length pre) (length pre + length hp) =
    Some (url_sub (length pre + 1) (length pre + 1 + length h), True, port_at (length pre + length h + 2) (length pre + length hp) d)"
proof -
  let ?p = "pre @ hp @ post" and ?e = "length pre + length hp"
  let ?pre = "pre @ [asc CHR ''['']" and ?post = "opt_text [asc CHR '':''] d @ post"
  have p: "?p = ?pre @ h @ asc CHR '']'' # ?post" by (simp add: hp_def host_text_def)
  have e: "?e = length ?pre + length h + 1 + length (opt_text [asc CHR '':''] d)" by (simp add: hp_def host_text_def)
  have close: "skip_while (\<lambda>c. c \<noteq> asc CHR '']'') ?p ?e (length ?pre) = length ?pre + length h"
    unfolding p using ipv6_ok_chars [OF assms(2)] zone_auth_char e by (intro skip_while_to) auto
  have z: "zone_scan ?p (length ?pre + length h) False (length ?pre)"
    unfolding p using zone_scan_shift [of 0 h ?pre "asc CHR '']'' # ?post" False] assms(2) by (simp add: ipv6_ok_def)
  have f: "?p ! length pre = asc CHR ''[''" "length pre < ?e" by (simp_all add: hp_def host_text_def nth_append)
  have g: "?p ! (length ?pre + length h + 1) = asc CHR '':''" if "d \<noteq> None"
    using that unfolding p by (auto simp: nth_append opt_text_def)
  define q e close where "q = ?p" "e = ?e" "close = length ?pre + length h"
  have "url_host q (length pre) e =
    (if close + 1 < e then if q ! (close + 1) \<noteq> asc CHR '':'' then None else Some (url_sub (length pre + 1) close, True, close + 1 + 1)
     else Some (url_sub (length pre + 1) close, True, e))"
  proof -
    have "length pre < e" "q ! length pre = asc CHR ''[''" "skip_while (\<lambda>c. c \<noteq> asc CHR '']'') q e (length pre + 1) = close"
      "close \<noteq> e" "close \<noteq> length pre + 1" "zone_scan q close False (length pre + 1)"
      using f close z assms(1) e unfolding q_e_close_def by (simp_all add: ac_simps)
    then show ?thesis unfolding url_host_def Let_def by (simp only: if_True if_False simp_thms)
  qed
  also have "\<dots> = Some (url_sub (length pre + 1) close, True, port_at (close + 1) e d)"
    using g e unfolding q_e_close_def by (cases d) (simp_all add: port_at_def opt_text_def)
  finally show ?thesis unfolding q_e_close_def by simp
qed

lemma url_host_name:
  fixes d :: "byte list option"
  assumes "host_ok h False"
  defines "hp \<equiv> host_text h False d"
  shows "url_host (pre @ hp @ post) (length pre) (length pre + length hp) =
    Some (url_sub (length pre) (length pre + length h), False, port_at (length pre + length h) (length pre + length hp) d)"
proof -
  let ?p = "pre @ hp @ post" and ?e = "length pre + length hp"
  have h: "\<forall>c\<in>set h. c \<notin> {asc CHR '':'', asc CHR ''['', asc CHR '']''}" using assms(1) by (auto simp: host_ok_def)
  have p: "?p = pre @ h @ (opt_text [asc CHR '':''] d @ post)" by (simp add: hp_def host_text_def)
  have e: "?e = length pre + length h + length (opt_text [asc CHR '':''] d)" by (simp add: hp_def host_text_def)
  have n: "\<not> (length pre < ?e \<and> ?p ! length pre = asc CHR ''['')"
    using h unfolding p e by (cases h; cases d) (auto simp: nth_append opt_text_def)
  have "host_scan ?p ?e (length pre) = host_scan ?p ?e (length pre + length h)"
    unfolding p e by (rule host_scan_plain [OF h])
  also have "\<dots> = Some (length pre + length h, port_at (length pre + length h) ?e d)"
    unfolding p e by (subst host_scan.simps) (auto simp: port_at_def opt_text_def nth_append split: option.splits)
  finally show ?thesis unfolding url_host_def by (simp only: n if_False option.case prod.case)
qed

text \<open>Every host and port the code accepts is the text of one.\<close>

lemma url_host_shape:
  assumes "url_host (pre @ hp @ post) (length pre) (length pre + length hp) = Some r"
    and "\<forall>c\<in>set hp. auth_char c \<and> c \<noteq> asc CHR ''@''"
  shows "\<exists>h v6 d. hp = host_text h v6 d \<and> host_ok h v6"
proof (cases "hp \<noteq> [] \<and> hd hp = asc CHR ''[''")
  case True
  then obtain t where hp: "hp = asc CHR ''['' # t" by (cases hp) auto
  define h where "h = takeWhile (\<lambda>c. c \<noteq> asc CHR '']'') t"
  let ?p = "pre @ hp @ post" and ?e = "length pre + length hp" and ?pre = "pre @ [asc CHR ''['']"
  have start: "length pre < ?e \<and> ?p ! length pre = asc CHR ''[''" by (simp add: hp)
  have close: "skip_while (\<lambda>c. c \<noteq> asc CHR '']'') ?p ?e (length pre + 1) = length pre + 1 + length h"
    by (subst skip_while_eq) (simp_all add: hp h_def)
  define q e close where "q = ?p" "e = ?e" "close = length pre + 1 + length h"
  note a = assms(1) [unfolded url_host_def Let_def close, folded q_e_close_def]
  have s: "length pre < e \<and> q ! length pre = asc CHR ''[''" using start by (simp add: q_e_close_def)
  have g: "close \<noteq> e" "close \<noteq> length pre + 1" "zone_scan q close False (length pre + 1)" "close + 1 < e \<Longrightarrow> q ! (close + 1) = asc CHR '':''"
    using a s by (auto split: if_splits)
  then have ht: "length h < length t" using length_takeWhile_le [of "\<lambda>c. c \<noteq> asc CHR '']''" t]
    by (auto simp: q_e_close_def hp h_def)
  then have "t ! length h = asc CHR '']''" using nth_length_takeWhile [of "\<lambda>c. c \<noteq> asc CHR '']''" t] by (simp add: h_def)
  then have t: "t = h @ asc CHR '']'' # drop (length h + 1) t"
    unfolding h_def by (metis Cons_nth_drop_Suc Suc_eq_plus1 append_take_drop_id h_def ht takeWhile_eq_take)
  define u where "u = drop (length h + 1) t"
  have t': "t = h @ asc CHR '']'' # u" using t by (simp only: u_def)
  have h: "host_ok h True"
    using g(2,3) zone_scan_shift [of 0 h ?pre "asc CHR '']'' # u @ post" False] t'
    by (auto simp: host_ok_def ipv6_ok_def q_e_close_def hp ac_simps)
  show ?thesis
  proof (cases u)
    case Nil
    then have "hp = host_text h True None" using hp t' by (simp add: host_text_def opt_text_def)
    then show ?thesis using h by blast
  next
    case (Cons c d)
    then have "q ! (close + 1) = c" "close + 1 < e" by (simp_all add: q_e_close_def hp t' nth_append)
    then have "hp = host_text h True (Some d)" using g(4) hp t' Cons by (simp add: host_text_def opt_text_def)
    then show ?thesis using h by blast
  qed
next
  case False
  define h where "h = takeWhile (\<lambda>c. c \<notin> {asc CHR '':'', asc CHR ''['', asc CHR '']''}) hp"
  define u where "u = dropWhile (\<lambda>c. c \<notin> {asc CHR '':'', asc CHR ''['', asc CHR '']''}) hp"
  have hp: "hp = h @ u" by (simp add: h_def u_def)
  have plain: "\<forall>c\<in>set h. c \<notin> {asc CHR '':'', asc CHR ''['', asc CHR '']''}" unfolding h_def by (blast dest: set_takeWhileD)
  then have h: "host_ok h False" using assms(2) hp by (auto simp: host_ok_def)
  show ?thesis
  proof (cases u)
    case Nil
    then have "hp = host_text h False None" using hp by (simp add: host_text_def opt_text_def)
    then show ?thesis using h by blast
  next
    case (Cons c d)
    then have c: "c \<in> {asc CHR '':'', asc CHR ''['', asc CHR '']''}" unfolding u_def by (simp add: dropWhile_eq_Cons_conv)
    let ?p = "pre @ h @ (u @ post)"
    have "host_scan ?p (length pre + length h + length u) (length pre) = host_scan ?p (length pre + length h + length u) (length pre + length h)"
      by (rule host_scan_plain [OF plain])
    moreover have nb: "\<not> (length pre < length pre + length hp \<and> (pre @ hp @ post) ! length pre = asc CHR ''['')"
      using False by (cases hp) auto
    have "host_scan (pre @ hp @ post) (length pre + length hp) (length pre) \<noteq> None"
      using assms(1) unfolding url_host_def by (simp only: nb if_False) (auto split: option.splits)
    ultimately have "host_scan ?p (length pre + length h + length u) (length pre + length h) \<noteq> None"
      by (simp add: hp add.assoc)
    then have "c = asc CHR '':''" using c Cons by (subst (asm) host_scan.simps) (cases "c = asc CHR '':''"; simp add: nth_append)
    then have "hp = host_text h False (Some d)" using hp Cons by (simp add: host_text_def opt_text_def)
    then show ?thesis using h by blast
  qed
qed

section \<open>Path, query and fragment\<close>

definition tail_ok :: "byte list \<Rightarrow> byte list option \<Rightarrow> bool" where
  "tail_ok pa q \<longleftrightarrow> (pa = [] \<or> hd pa = slash) \<and> (\<forall>x\<in>set pa. path_char x) \<and> (\<forall>t. q = Some t \<longrightarrow> asc CHR ''#'' \<notin> set t)"

lemma tail_shape:
  assumes "t = [] \<or> \<not> auth_char (hd t)"
  shows "\<exists>pa q f. t = tail_text pa q f \<and> tail_ok pa q"
proof -
  define pa r where "pa = takeWhile path_char t" "r = dropWhile path_char t"
  have t: "t = pa @ r" by (simp add: pa_r_def)
  have pc: "\<forall>x\<in>set pa. path_char x" unfolding pa_r_def by (blast dest: set_takeWhileD)
  have hd: "pa = [] \<or> hd pa = slash"
    using assms t pc by (cases pa) (auto simp: auth_char_def path_char_def)
  have r: "r = [] \<or> \<not> path_char (hd r)" unfolding pa_r_def using hd_dropWhile by blast
  show ?thesis
  proof (cases "r \<noteq> [] \<and> hd r = asc CHR ''?''")
    case True
    then obtain r1 where r1: "r = asc CHR ''?'' # r1" by (cases r) auto
    define q r2 where "q = takeWhile (\<lambda>c. c \<noteq> asc CHR ''#'') r1" "r2 = dropWhile (\<lambda>c. c \<noteq> asc CHR ''#'') r1"
    have q: "asc CHR ''#'' \<notin> set q" unfolding q_r2_def by (blast dest: set_takeWhileD)
    have "r2 = [] \<or> (\<exists>f. r2 = asc CHR ''#'' # f)"
      unfolding q_r2_def by (cases "dropWhile (\<lambda>c. c \<noteq> asc CHR ''#'') r1") (auto dest: dropWhile_eq_Cons_conv [THEN iffD1])
    then obtain f where "r2 = opt_text [asc CHR ''#''] f"
      by (metis append.simps opt_text_def option.case)
    moreover have "r1 = q @ r2" by (simp add: q_r2_def)
    ultimately have "t = tail_text pa (Some q) f" using t r1 by (simp add: tail_text_def opt_text_def)
    then show ?thesis using pc hd q by (auto simp: tail_ok_def)
  next
    case False
    then have "r = [] \<or> (\<exists>f. r = asc CHR ''#'' # f)" using r by (cases r) (auto simp: path_char_def)
    then obtain f where "r = opt_text [asc CHR ''#''] f"
      by (metis append.simps opt_text_def option.case)
    then have "t = tail_text pa None f" using t by (simp add: tail_text_def opt_text_def)
    then show ?thesis using pc hd by (auto simp: tail_ok_def)
  qed
qed

lemma url_tail_run:
  fixes pre :: "byte list" and f :: "byte list option"
  assumes "tail_ok pa q"
  defines "a \<equiv> length pre" and "p \<equiv> pre @ tail_text pa q f"
  shows "url_tail p (length p) a u = u\<lparr>path := Some (a, length pa),
     query := (case q of None \<Rightarrow> query u | Some t \<Rightarrow> Some (a + length pa + 1, length t)), has_query := (has_query u \<or> q \<noteq> None),
     fragment := (case f of None \<Rightarrow> fragment u | Some t \<Rightarrow> Some (length p - length t, length t)), has_fragment := (has_fragment u \<or> f \<noteq> None)\<rparr>"
proof -
  let ?q = "opt_text [asc CHR ''?''] q" and ?f = "opt_text [asc CHR ''#''] f"
  have pc: "\<forall>x\<in>set pa. path_char x" using assms(1) by (simp add: tail_ok_def)
  have p: "p = pre @ pa @ ?q @ ?f" by (simp add: p_def tail_text_def)
  have ys: "(?q @ ?f) = [] \<or> \<not> path_char (hd (?q @ ?f))" by (auto simp: opt_text_def path_char_def split: option.splits)
  have s1: "skip_while path_char p (length p) a = a + length pa"
  proof -
    have "p = pre @ pa @ (?q @ ?f) @ []" "length p = length pre + length pa + length (?q @ ?f)" by (simp_all add: p)
    then show ?thesis unfolding a_def using skip_while_run [OF pc ys, of pre "[]"] by (simp only:)
  qed
  show ?thesis
  proof (cases q)
    case None
    have "\<not> (a + length pa < length p \<and> p ! (a + length pa) = asc CHR ''?'')"
      by (auto simp: p a_def None opt_text_def nth_append split: option.splits)
    then show ?thesis using s1
      by (cases f) (simp_all add: url_tail_def Let_def url_sub_def p a_def None opt_text_def nth_append)
  next
    case (Some t)
    have h: "asc CHR ''#'' \<notin> set t" using assms(1) Some by (simp add: tail_ok_def)
    have "?f = [] \<or> \<not> hd ?f \<noteq> asc CHR ''#''" by (auto simp: opt_text_def split: option.splits)
    then have s2: "skip_while (\<lambda>c. c \<noteq> asc CHR ''#'') p (length p) (a + length pa + 1) = a + length pa + 1 + length t"
      using skip_while_run [of t "\<lambda>c. c \<noteq> asc CHR ''#''" ?f "pre @ pa @ [asc CHR ''?'']" "[]"] h
      by (auto simp: p a_def Some opt_text_def add.assoc)
    have m: "a + length pa < length p \<and> p ! (a + length pa) = asc CHR ''?''" by (simp add: p a_def Some opt_text_def nth_append)
    show ?thesis
      unfolding url_tail_def Let_def s1 m [THEN eqTrueI] if_True s2 prod.case
      by (cases f) (simp_all add: url_sub_def p a_def Some opt_text_def nth_append)
  qed
qed

section \<open>Parsing the text of the parts\<close>

lemma url_host_run:
  fixes h :: "byte list" and v6 :: bool and d :: "byte list option"
  assumes "host_ok h v6"
  defines "hp \<equiv> host_text h v6 d" and "b \<equiv> if v6 then 1 else (0 :: nat)"
  shows "url_host (pre @ hp @ post) (length pre) (length pre + length hp) =
    Some (url_sub (length pre + b) (length pre + b + length h), v6, port_at (length pre + length h + 2 * b) (length pre + length hp) d)"
  using assms url_host_v6 [of h pre d post] url_host_name [of h pre d post] by (cases v6) (simp_all add: host_ok_def)

lemma url_port_run:
  fixes h :: "byte list" and v6 :: bool and d :: "byte list option"
  defines "hp \<equiv> host_text h v6 d" and "b \<equiv> if v6 then 1 else (0 :: nat)"
  shows "url_port (pre @ hp @ post) (port_at (length pre + length h + 2 * b) (length pre + length hp) d) (length pre + length hp) =
    (if port_ok d then Some (case d of None \<Rightarrow> 0 | Some ds \<Rightarrow> port_value 0 ds, d \<noteq> None \<and> d \<noteq> Some []) else None)"
proof (cases d)
  case None
  then show ?thesis by (simp add: port_at_def url_port_def port_ok_def)
next
  case (Some ds)
  define pr where "pr = pre @ (if v6 then asc CHR ''['' # h @ [asc CHR '']''] else h) @ [asc CHR '':'']"
  have p: "pre @ hp @ post = pr @ ds @ post" by (simp add: hp_def host_text_def opt_text_def Some pr_def)
  have a: "port_at (length pre + length h + 2 * b) (length pre + length hp) d = length pr" "length pre + length hp = length pr + length ds"
    by (simp_all add: port_at_def Some hp_def host_text_def opt_text_def b_def pr_def)
  show ?thesis unfolding a(1) unfolding a(2) p url_port_def port_scan_run
    by (cases ds) (simp_all add: Some port_ok_def port_value_def)
qed

lemma at_colon_not: "\<not> scheme_char (asc CHR '':'')" "\<not> auth_char (asc CHR ''/'')" "\<not> auth_char (asc CHR ''?'')" "\<not> auth_char (asc CHR ''#'')"
  by (simp_all add: scheme_char_def auth_char_def url_is_alpha_def url_is_digit_def)

lemma tail_text_start: "tail_ok pa q \<Longrightarrow> tail_text pa q f = [] \<or> \<not> auth_char (hd (tail_text pa q f))"
  by (cases pa) (auto simp: tail_ok_def tail_text_def opt_text_def auth_char_def split: option.splits)

lemma piece_sub: "piece_bytes (pre @ t @ post) (Some (length pre, length t)) = t"
  by simp

text \<open>The scheme, the user and the bounds of the authority, whatever the host is.\<close>

definition url_front :: "byte list \<Rightarrow> byte list option \<Rightarrow> proven_url" where
  "url_front s w = (case w of None \<Rightarrow> url_zero\<lparr>scheme := url_sub 0 (length s)\<rparr>
    | Some t \<Rightarrow> url_zero\<lparr>scheme := url_sub 0 (length s), userinfo := url_sub (length s + 3) (length s + 3 + length t), has_userinfo := True\<rparr>)"

lemma url_parse_front:
  fixes x :: proven_url
  assumes s: "s \<noteq> []" "url_is_alpha (hd s)" "\<forall>y\<in>set s. scheme_char y"
    and user: "\<forall>y\<in>set (user_text w). auth_char y" and hp: "\<forall>y\<in>set hp. auth_char y \<and> y \<noteq> asc CHR ''@''"
    and tl: "t = [] \<or> \<not> auth_char (hd t)" and ok: "url_text_ok text"
    and tx: "text = (s @ ascii ''://'') @ (user_text w @ hp) @ t"
  defines "hs \<equiv> length s + 3 + length (user_text w)" and "ae \<equiv> length s + 3 + length (user_text w) + length hp"
  shows "proven_url_parse (At text) (Some x) =
    (case url_host text hs ae of
       None \<Rightarrow> (PROVEN_ERR_INVALID_FORMAT, Some x)
     | Some (h, v6, port_start) \<Rightarrow>
       (case url_port text port_start ae of
          None \<Rightarrow> (PROVEN_ERR_INVALID_FORMAT, Some x)
        | Some (v, hp) \<Rightarrow>
          let u = (url_front s w)\<lparr>host := h, host_is_ipv6 := v6, port := v, has_port := hp\<rparr> in
          if piece_size (host u) = 0 \<and> (has_port u \<or> has_userinfo u) then (PROVEN_ERR_INVALID_FORMAT, Some x)
          else (PROVEN_OK, Some (url_tail text (length text) ae u))))"
proof -
  let ?pre = "s @ ascii ''://''" and ?auth = "user_text w @ hp" and ?t = t
  let ?hpre = "(s @ ascii ''://'') @ user_text w"
  have l3: "length (ascii ''://'') = 3" by (simp add: ascii_def)
  have n: "view_size (At text) = length text" "view_data (At text) = text" by simp_all
  have i: "skip_while scheme_char text (length text) 0 = length s"
    using skip_while_run [of s scheme_char "ascii ''://'' @ ?auth @ ?t" "[]" "[]"] s(3) at_colon_not
    by (simp add: tx ascii_def)
  have sep: "length s + 2 < length text" "text ! length s = asc CHR '':''" "text ! (length s + 1) = asc CHR ''/''" "text ! (length s + 2) = asc CHR ''/''"
    by (simp_all add: tx ascii_def nth_append)
  have auth: "skip_while auth_char text (length text) (length s + 3) = ae"
  proof -
    have au: "\<forall>y\<in>set ?auth. auth_char y" using user hp by auto
    have "text = ?pre @ ?auth @ ?t @ []" "length text = length ?pre + length ?auth + length ?t" "length s + 3 = length ?pre"
      "ae = length ?pre + length ?auth"
      by (simp_all add: tx ae_def hs_def ascii_def)
    then show ?thesis using skip_while_run [OF au tl, of ?pre "[]"] by (simp only:)
  qed
  have lat: "last_at text (length s + 3) ae = (case w of None \<Rightarrow> None | Some v \<Rightarrow> Some hs)"
  proof (cases w)
    case None
    have "asc CHR ''@'' \<notin> set hp" using hp by blast
    moreover have "text = ?pre @ hp @ ?t" "length s + 3 = length ?pre" "ae = length ?pre + length hp"
      by (simp_all add: None user_text_def tx ae_def hs_def ascii_def)
    ultimately show ?thesis using last_at_none [of hp ?pre ?t] by (simp only: None option.case not_False_eq_True simp_thms)
  next
    case (Some v)
    have "asc CHR ''@'' \<notin> set hp" using hp by blast
    moreover have "text = ?pre @ (v @ asc CHR ''@'' # hp) @ ?t" "length s + 3 = length ?pre" "ae = length ?pre + length (v @ asc CHR ''@'' # hp)"
      "hs = length ?pre + length v + 1"
      by (simp_all add: Some user_text_def tx ae_def hs_def ascii_def)
    ultimately show ?thesis using last_at_some [of hp ?pre v ?t] by (simp only: Some option.case not_False_eq_True simp_thms)
  qed
  have start: "text \<noteq> []" "url_is_alpha (text ! 0)" using s(1,2) by (simp_all add: tx nth_append hd_conv_nth)
  have st: "(case last_at text (length s + 3) ae of None \<Rightarrow> (url_zero\<lparr>scheme := url_sub 0 (length s)\<rparr>, length s + 3)
      | Some k \<Rightarrow> (url_zero\<lparr>scheme := url_sub 0 (length s), userinfo := url_sub (length s + 3) (k - 1), has_userinfo := True\<rparr>, k)) = (url_front s w, hs)"
    by (cases w) (simp_all add: lat url_front_def hs_def user_text_def ascii_def ac_simps)
  have g: "\<not> (Some x = None \<or> 0 < length text \<and> view_null (At text))" "\<not> (length text = 0 \<or> \<not> url_text_ok text)"
    "\<not> \<not> url_is_alpha (text ! 0)"
    "\<not> (length s + 2 \<ge> length text \<or> text ! length s \<noteq> asc CHR '':'' \<or> text ! (length s + 1) \<noteq> asc CHR ''/'' \<or> text ! (length s + 2) \<noteq> asc CHR ''/'')"
    using start ok sep by simp_all
  show ?thesis
    unfolding proven_url_parse_def Let_def n i auth st prod.case by (simp only: g if_False option.case)
qed

text \<open>Where the scheme and the path stand.\<close>

definition url_places :: "proven_url \<Rightarrow> url_parts \<Rightarrow> bool" where
  "url_places u c \<longleftrightarrow> scheme u = Some (0, length (p_scheme c)) \<and>
     path u = Some (length (p_scheme c) + 3 + length (user_text (p_user c)) + length (host_text (p_host c) (p_v6 c) (p_port c)), length (p_path c)) \<and>
     has_query u = (p_query c \<noteq> None)"

lemma url_parse_shape:
  fixes c :: url_parts and x :: proven_url
  defines "s \<equiv> p_scheme c" and "hp \<equiv> host_text (p_host c) (p_v6 c) (p_port c)" and "text \<equiv> url_render c"
  assumes s: "s \<noteq> []" "url_is_alpha (hd s)" "\<forall>y\<in>set s. scheme_char y"
    and user: "\<forall>y\<in>set (user_text (p_user c)). auth_char y"
    and hp: "\<forall>y\<in>set hp. auth_char y \<and> y \<noteq> asc CHR ''@''" "host_ok (p_host c) (p_v6 c)"
    and tl: "tail_ok (p_path c) (p_query c)" and ok: "url_text_ok text"
  shows "\<exists>u. url_describes text u c \<and> url_places u c \<and> proven_url_parse (At text) (Some x) =
    (if port_ok (p_port c) \<and> (p_host c = [] \<longrightarrow> p_user c = None \<and> (p_port c = None \<or> p_port c = Some []))
     then (PROVEN_OK, Some u) else (PROVEN_ERR_INVALID_FORMAT, Some x))"
proof -
  let ?us = "user_text (p_user c)" and ?t = "tail_text (p_path c) (p_query c) (p_fragment c)"
  let ?pre = "s @ ascii ''://''" and ?auth = "user_text (p_user c) @ hp" and ?b = "if p_v6 c then 1 else (0 :: nat)"
  let ?hpre = "(s @ ascii ''://'') @ user_text (p_user c)"
  define ae where "ae = length ?hpre + length hp"
  have tx: "text = ?pre @ ?auth @ ?t" by (simp add: text_def url_render_def s_def hp_def)
  have l3: "length (ascii ''://'') = 3" by (simp add: ascii_def)
  have host: "url_host text (length ?hpre) ae =
      Some (url_sub (length ?hpre + ?b) (length ?hpre + ?b + length (p_host c)), p_v6 c, port_at (length ?hpre + length (p_host c) + 2 * ?b) ae (p_port c))"
    using url_host_run [OF hp(2), of ?hpre "p_port c" ?t] by (simp only: tx ae_def hp_def append_assoc)
  have port: "url_port text (port_at (length ?hpre + length (p_host c) + 2 * ?b) ae (p_port c)) ae =
      (if port_ok (p_port c) then Some (case p_port c of None \<Rightarrow> 0 | Some ds \<Rightarrow> port_value 0 ds, p_port c \<noteq> None \<and> p_port c \<noteq> Some []) else None)"
    using url_port_run [of ?hpre "p_host c" "p_v6 c" "p_port c" ?t] by (simp only: tx ae_def hp_def append_assoc)
  define u1 where "u1 = (url_front s (p_user c))\<lparr>host := url_sub (length ?hpre + ?b) (length ?hpre + ?b + length (p_host c)), host_is_ipv6 := p_v6 c,
    port := (case p_port c of None \<Rightarrow> 0 | Some ds \<Rightarrow> port_value 0 ds), has_port := (p_port c \<noteq> None \<and> p_port c \<noteq> Some [])\<rparr>"
  define u where "u = url_tail text (length text) ae u1"
  have parse: "proven_url_parse (At text) (Some x) =
    (if port_ok (p_port c) then if piece_size (host u1) = 0 \<and> (has_port u1 \<or> has_userinfo u1) then (PROVEN_ERR_INVALID_FORMAT, Some x)
       else (PROVEN_OK, Some u) else (PROVEN_ERR_INVALID_FORMAT, Some x))"
  proof -
    have "length s + 3 + length ?us = length ?hpre" "length s + 3 + length ?us + length hp = ae" by (simp_all add: ae_def l3)
    then show ?thesis
      using url_parse_front [OF s user hp(1) tail_text_start [OF tl, of "p_fragment c"] ok tx, of x]
      unfolding u_def u1_def by (cases "port_ok (p_port c)") (simp_all only: host port option.case prod.case Let_def if_True if_False)
  qed
  have u: "u = u1\<lparr>path := Some (ae, length (p_path c)),
     query := (case p_query c of None \<Rightarrow> query u1 | Some t \<Rightarrow> Some (ae + length (p_path c) + 1, length t)), has_query := (has_query u1 \<or> p_query c \<noteq> None),
     fragment := (case p_fragment c of None \<Rightarrow> fragment u1 | Some t \<Rightarrow> Some (length text - length t, length t)), has_fragment := (has_fragment u1 \<or> p_fragment c \<noteq> None)\<rparr>"
  proof -
    have "text = (?hpre @ hp) @ ?t" "ae = length (?hpre @ hp)" by (simp_all add: tx ae_def)
    then show ?thesis using url_tail_run [OF tl, of "?hpre @ hp" "p_fragment c" u1] unfolding u_def by (simp only:)
  qed
  have z: "has_query u1 = False" "has_fragment u1 = False" "userinfo u1 = (case p_user c of None \<Rightarrow> None | Some w \<Rightarrow> url_sub (length s + 3) (length s + 3 + length w))"
    "has_userinfo u1 \<longleftrightarrow> p_user c \<noteq> None" "scheme u1 = Some (0, length s)"
    by (cases "p_user c"; simp add: u1_def url_front_def url_zero_def url_sub_def)+
  have pieces: "piece_bytes text (scheme u) = s" "piece_opt text (has_userinfo u) (userinfo u) = p_user c"
    "piece_bytes text (host u) = p_host c" "piece_bytes text (path u) = p_path c"
    "piece_opt text (has_query u) (query u) = p_query c" "piece_opt text (has_fragment u) (fragment u) = p_fragment c"
  proof -
    show "piece_bytes text (scheme u) = s" by (simp add: u z tx)
    show "piece_opt text (has_userinfo u) (userinfo u) = p_user c"
      by (cases "p_user c") (simp_all add: u z piece_opt_def url_sub_def user_text_def ascii_def tx)
    show "piece_bytes text (host u) = p_host c"
      by (cases "p_v6 c") (simp_all add: u u1_def url_sub_def tx hp_def host_text_def)
    show "piece_bytes text (path u) = p_path c" by (simp add: u tx ae_def tail_text_def)
    show "piece_opt text (has_query u) (query u) = p_query c"
      by (cases "p_query c") (simp_all add: u z piece_opt_def tx ae_def tail_text_def opt_text_def)
    show "piece_opt text (has_fragment u) (fragment u) = p_fragment c"
      by (cases "p_fragment c") (simp_all add: u z piece_opt_def tx ae_def tail_text_def opt_text_def)
  qed
  have "url_describes text u c"
    using pieces by (simp add: url_describes_def s_def u u1_def)
  moreover have "piece_size (host u1) = length (p_host c)" by (simp add: u1_def piece_size_def url_sub_def)
  moreover have "has_port u1 \<longleftrightarrow> p_port c \<noteq> None \<and> p_port c \<noteq> Some []" by (simp add: u1_def)
  moreover have "url_places u c" by (simp add: url_places_def u z s_def ae_def l3 hp_def)
  ultimately show ?thesis by (intro exI [of _ u] conjI) (auto simp: parse z)
qed


lemma port_ok_chars: "port_ok d \<Longrightarrow> c \<in> set (opt_text [asc CHR '':''] d) \<Longrightarrow> auth_char c \<and> c \<noteq> asc CHR ''@''"
proof -
  assume p: "port_ok d" and c: "c \<in> set (opt_text [asc CHR '':''] d)"
  then have "c = asc CHR '':'' \<or> url_is_digit c" by (auto simp: opt_text_def port_ok_def split: option.splits)
  then show ?thesis
  proof
    assume "c = asc CHR '':''"
    then show ?thesis by (simp add: auth_char_def)
  next
    assume "url_is_digit c"
    then show ?thesis by (auto simp: auth_char_def url_is_digit_def)
  qed
qed

lemma host_text_chars:
  assumes "host_ok h v6" "port_ok d" "c \<in> set (host_text h v6 d)"
  shows "auth_char c \<and> c \<noteq> asc CHR ''@''"
proof -
  consider "c \<in> set (opt_text [asc CHR '':''] d)" | "c \<in> set h" | "c = asc CHR ''[''" | "c = asc CHR '']''"
    using assms(3) unfolding host_text_def by (cases v6) auto
  then show ?thesis
  proof cases
    case 1
    then show ?thesis using port_ok_chars assms(2) by blast
  next
    case 2
    then show ?thesis using assms(1) ipv6_ok_chars zone_auth_char by (cases v6) (auto simp: host_ok_def)
  qed (simp_all add: auth_char_def)
qed

lemma url_parse_render:
  assumes "url_parts_ok c"
  shows "\<exists>u. proven_url_parse (At (url_render c)) (Some x) = (PROVEN_OK, Some u) \<and> url_describes (url_render c) u c \<and> url_places u c"
proof -
  have a: "p_scheme c \<noteq> []" "url_is_alpha (hd (p_scheme c))" "\<forall>y\<in>set (p_scheme c). scheme_char y"
    "\<forall>y\<in>set (user_text (p_user c)). auth_char y" "host_ok (p_host c) (p_v6 c)" "port_ok (p_port c)"
    "p_host c = [] \<longrightarrow> p_user c = None \<and> (p_port c = None \<or> p_port c = Some [])"
    "tail_ok (p_path c) (p_query c)" "url_text_ok (url_render c)"
    using assms unfolding url_parts_ok_def tail_ok_def by blast+
  have "\<forall>y\<in>set (host_text (p_host c) (p_v6 c) (p_port c)). auth_char y \<and> y \<noteq> asc CHR ''@''"
    using host_text_chars [OF a(5,6)] by blast
  from url_parse_shape [OF a(1-4) this a(5,8,9), of x] show ?thesis using a(6,7) by auto
qed

lemma url_parse_covers:
  "proven_url_parse (At text) (Some x) = (PROVEN_ERR_INVALID_FORMAT, Some x) \<or> (\<exists>c. url_parts_ok c \<and> text = url_render c)"
proof (rule disjCI)
  assume no: "\<not> (\<exists>c. url_parts_ok c \<and> text = url_render c)"
  show "proven_url_parse (At text) (Some x) = (PROVEN_ERR_INVALID_FORMAT, Some x)"
  proof (rule ccontr)
    assume acc: "proven_url_parse (At text) (Some x) \<noteq> (PROVEN_ERR_INVALID_FORMAT, Some x)"
    define s where "s = takeWhile scheme_char text"
    have i: "skip_while scheme_char text (length text) 0 = length s" by (subst skip_while_eq) (simp_all add: s_def)
    have g: "text \<noteq> []" "url_text_ok text" "url_is_alpha (text ! 0)" "length s + 2 < length text"
      "text ! length s = asc CHR '':''" "text ! (length s + 1) = asc CHR ''/''" "text ! (length s + 2) = asc CHR ''/''"
      using acc i unfolding proven_url_parse_def by (auto simp: Let_def split: if_splits)
    define rest where "rest = drop (length s + 3) text"
    have "text = s @ drop (length s) text" unfolding s_def by (metis append_take_drop_id takeWhile_eq_take)
    moreover have "drop (length s) text = asc CHR '':'' # asc CHR ''/'' # asc CHR ''/'' # rest"
      using g(4-7) unfolding rest_def by (simp add: Cons_nth_drop_Suc [symmetric] numeral_3_eq_3)
    ultimately have t0: "text = (s @ ascii ''://'') @ rest" by (simp add: ascii_def)
    have s: "s \<noteq> []" "url_is_alpha (hd s)" "\<forall>y\<in>set s. scheme_char y"
    proof -
      have "scheme_char (text ! 0)" using g(3) by (simp add: scheme_char_def)
      then show "s \<noteq> []" using g(1) by (cases "text") (simp_all add: s_def)
      then show "url_is_alpha (hd s)" using g(1,3) by (cases "text") (auto simp: s_def split: if_splits)
      show "\<forall>y\<in>set s. scheme_char y" unfolding s_def by (blast dest: set_takeWhileD)
    qed
    define auth t where "auth = takeWhile auth_char rest" "t = dropWhile auth_char rest"
    have t: "t = [] \<or> \<not> auth_char (hd t)" unfolding auth_t_def using hd_dropWhile by blast
    have ac: "\<forall>y\<in>set auth. auth_char y" unfolding auth_t_def by (blast dest: set_takeWhileD)
    have rest: "rest = auth @ t" by (simp add: auth_t_def)
    obtain w hp where a: "auth = user_text w @ hp" "asc CHR ''@'' \<notin> set hp"
    proof (cases "asc CHR ''@'' \<in> set auth")
      case True
      then obtain a b where "auth = a @ asc CHR ''@'' # b" "asc CHR ''@'' \<notin> set b" using split_list_last by fastforce
      then show ?thesis by (intro that [of "Some a" b]) (simp_all add: user_text_def)
    next
      case False
      then show ?thesis by (intro that [of None auth]) (simp_all add: user_text_def)
    qed
    have user: "\<forall>y\<in>set (user_text w). auth_char y" and hp: "\<forall>y\<in>set hp. auth_char y \<and> y \<noteq> asc CHR ''@''"
      using ac a by auto
    have tx: "text = (s @ ascii ''://'') @ (user_text w @ hp) @ t" using t0 rest a by simp
    let ?hpre = "(s @ ascii ''://'') @ user_text w"
    have "url_host text (length s + 3 + length (user_text w)) (length s + 3 + length (user_text w) + length hp) \<noteq> None"
      using acc unfolding url_parse_front [OF s user hp t g(2) tx, of x] by (auto split: option.splits)
    moreover have "length s + 3 + length (user_text w) = length ?hpre" "text = ?hpre @ hp @ t" by (simp_all add: tx ascii_def)
    ultimately obtain r where "url_host (?hpre @ hp @ t) (length ?hpre) (length ?hpre + length hp) = Some r"
      by (metis not_None_eq)
    then obtain h v6 d where h: "hp = host_text h v6 d" "host_ok h v6" using url_host_shape hp by blast
    obtain pa q f where tl: "t = tail_text pa q f" "tail_ok pa q" using tail_shape [OF t] by blast
    define c where "c = \<lparr>p_scheme = s, p_user = w, p_host = h, p_v6 = v6, p_port = d, p_path = pa, p_query = q, p_fragment = f\<rparr>"
    have c: "url_render c = text" by (simp add: c_def url_render_def tx h tl)
    obtain u where "proven_url_parse (At text) (Some x) =
      (if port_ok d \<and> (h = [] \<longrightarrow> w = None \<and> (d = None \<or> d = Some [])) then (PROVEN_OK, Some u) else (PROVEN_ERR_INVALID_FORMAT, Some x))"
      using url_parse_shape [of c x] s user hp h tl g(2) unfolding c by (auto simp: c_def)
    then have "port_ok d" "h = [] \<longrightarrow> w = None \<and> (d = None \<or> d = Some [])" using acc by (auto split: if_splits)
    then have "url_parts_ok c"
      using s user h tl g(2) c unfolding url_parts_ok_def by (simp add: c_def tail_ok_def)
    then show False using no c by blast
  qed
qed

text \<open>C24: Parsing a URL is exact. A text made of parts that follow the grammar (a scheme, an authority whose user
  ends at the last @, a host name or a bracketed IP literal, a port of at most 65535, a path, a query and a
  fragment, in printable ASCII with whole escapes) is accepted, and the pieces found are those parts; every other
  text is refused, and the result is left as it was.\<close>

theorem url_parse_grammar:
  "(\<forall>c. url_parts_ok c \<longrightarrow> text = url_render c \<longrightarrow>
      (\<exists>u. proven_url_parse (At text) (Some x) = (PROVEN_OK, Some u) \<and> url_describes text u c)) \<and>
   ((\<nexists>c. url_parts_ok c \<and> text = url_render c) \<longrightarrow> proven_url_parse (At text) (Some x) = (PROVEN_ERR_INVALID_FORMAT, Some x))"
  using url_parse_render url_parse_covers by blast

definition demo_url :: url_parts where
  "demo_url = \<lparr>p_scheme = ascii ''http'', p_user = Some (ascii ''u@x''), p_host = ascii ''::1'', p_v6 = True, p_port = Some (ascii ''080''),
    p_path = ascii ''/a'', p_query = Some [], p_fragment = None\<rparr>"

lemma url_parse_grammar_witness:
  "\<exists>u. proven_url_parse (At (ascii ''http://u@x@[::1]:080/a?'')) (Some url_zero) = (PROVEN_OK, Some u) \<and>
    piece_bytes (ascii ''http://u@x@[::1]:080/a?'') (host u) = ascii ''::1'' \<and> port u = 80 \<and> has_query u"
proof -
  have t: "url_render demo_url = ascii ''http://u@x@[::1]:080/a?''" by code_simp
  have "ipv6_ok (ascii ''::1'')" "port_value 0 (ascii ''080'') = 80" "\<forall>c\<in>set (ascii ''080''). url_is_digit c"
    "\<forall>y\<in>set (user_text (Some (ascii ''u@x''))). auth_char y" "\<forall>y\<in>set (ascii ''http''). scheme_char y" "url_is_alpha (hd (ascii ''http''))"
    "url_text_ok (ascii ''http://u@x@[::1]:080/a?'')" "\<forall>y\<in>set (ascii ''/a''). path_char y"
    by code_simp+
  then have "url_parts_ok demo_url"
    unfolding url_parts_ok_def t by (simp add: demo_url_def host_ok_def port_ok_def) (simp add: ascii_def)
  with url_parse_grammar [of "url_render demo_url" url_zero] obtain u where
    "proven_url_parse (At (url_render demo_url)) (Some url_zero) = (PROVEN_OK, Some u)" "url_describes (url_render demo_url) u demo_url"
    by blast
  then show ?thesis unfolding t using \<open>port_value 0 (ascii ''080'') = 80\<close>
    by (auto simp: url_describes_def demo_url_def piece_opt_def split: if_splits)
qed

end
