(* ===== verification/Url_Resolve.thy ===== *)
theory Url_Resolve
  imports Url_Parse
begin

text \<open>
  Resolving a reference with \<^verbatim>\<open>proven_url_resolve\<close>: the target the standard defines for a base and a
  reference, and that the code writes exactly it into an output of the documented size.
\<close>

section \<open>Removing dot segments\<close>

fun remove_segs :: "byte list list \<Rightarrow> byte list list \<Rightarrow> byte list list \<times> byte list" where
  "remove_segs st [] = (st, [])"
| "remove_segs st (s # ss) =
    (if s = dot2 then remove_segs (tl st) ss
     else if s = dot1 then remove_segs st ss
     else if ss = [] then (st, s) else remove_segs (s # st) ss)"

definition no_dots :: "byte list \<Rightarrow> byte list" where
  "no_dots cs = (case cs of [] \<Rightarrow> [] | c # rest \<Rightarrow>
     if c = slash then (case remove_segs [] (segs rest) of (st, f) \<Rightarrow> dirs_text st @ f) else cs)"

definition slash_free :: "byte list list \<Rightarrow> bool" where
  "slash_free st \<longleftrightarrow> (\<forall>s\<in>set st. \<forall>c\<in>set s. c \<noteq> slash)"

definition dots_result :: "nat \<Rightarrow> byte list \<Rightarrow> byte list \<Rightarrow> byte list list \<times> byte list \<Rightarrow> byte list \<times> nat \<Rightarrow> bool" where
  "dots_result n p front spec res =
    (case spec of (st, f) \<Rightarrow> case res of (p', w) \<Rightarrow>
       w = length (front @ dirs_text st @ f) \<and> take w p' = front @ dirs_text st @ f \<and> length p' = length p \<and> w \<le> n)"

lemma remove_dots_run:
  assumes "n \<le> length p" "w \<le> r" "r \<le> n" "take w p = front @ dirs_text st" "slash_free st"
  shows "dots_result n p front (remove_segs st (segs (drop r (take n p)))) (remove_dots_loop (length front) p n w r)"
  using assms
proof (induction "n - r" arbitrary: p w r st rule: less_induct)
  case less
  let ?from = "length front"
  define e where "e = skip_while (\<lambda>c. c \<noteq> slash) p n r"
  define s where "s = takeWhile (\<lambda>c. c \<noteq> slash) (drop r (take n p))"
  define rest where "rest = (if e < n then segs (drop (e + 1) (take n p)) else [])"
  note sp = seg_split [OF less.prems(1,3), folded e_def s_def rest_def]
  have len: "e - r = length s" and en: "r \<le> e" "e \<le> n" and sl: "r + length s \<le> length p" using sp less.prems(1) by simp_all
  have d: "dot_seg p r (length s) \<longleftrightarrow> s = dot1" "dotdot_seg p r (length s) \<longleftrightarrow> s = dot2"
    using sp by (simp_all add: dot_seg_eq [OF sl] dotdot_seg_eq [OF sl])
  have w: "w = length front + length (dirs_text st)"
    using less.prems(1-4) by (metis dual_order.trans length_append length_take min.absorb2)
  have p: "p = (front @ dirs_text st) @ drop w p" using less.prems(4) by (metis append_take_drop_id)
  have go: "dots_result n p front (remove_segs st1 rest) (if n \<le> e then (p1, w1) else remove_dots_loop ?from p1 n w1 (e + 1))"
    if "length p1 = length p" "w1 \<le> e + 1" "w1 \<le> n" "take w1 p1 = front @ dirs_text st1" "slash_free st1"
      "drop (e + 1) p1 = drop (e + 1) p" for p1 w1 st1
  proof (cases "e < n")
    case True
    have "drop (e + 1) (take n p1) = drop (e + 1) (take n p)" using that(6) by (simp add: drop_take)
    moreover have "dots_result n p1 front (remove_segs st1 (segs (drop (e + 1) (take n p1)))) (remove_dots_loop ?from p1 n w1 (e + 1))"
      by (rule less.hyps) (use that less.prems(1) True en in simp_all)
    moreover have "dots_result n p1 front = dots_result n p front" by (intro ext) (simp only: dots_result_def that(1))
    ultimately show ?thesis using True by (simp add: rest_def)
  next
    case False
    have "length (front @ dirs_text st1) = w1" using that(1,3,4) less.prems(1) by (metis dual_order.trans length_take min.absorb2)
    then show ?thesis using False that by (simp add: rest_def dots_result_def)
  qed
  have loop: "remove_dots_loop ?from p n w r =
    (case (if s = dot2 then (p, if w > ?from + 1 then step_back p (?from + 1) (w - 1) else w)
           else if s \<noteq> dot1 then put_seg p w r (length s) (n \<le> e) else (p, w)) of
       (p, w) \<Rightarrow> if n \<le> e then (p, w) else remove_dots_loop ?from p n w (e + 1))"
    by (subst remove_dots_loop.simps) (simp only: Let_def e_def [symmetric] len d)
  consider (root) "s = dot2" "st = []" | (up) t st1 where "s = dot2" "st = t # st1" | (stay) "s \<noteq> dot2" "s = dot1"
    | (name) "s \<noteq> dot2" "s \<noteq> dot1"
    by (cases st) blast+
  then have "dots_result n p front (remove_segs st (s # rest)) (remove_dots_loop ?from p n w r)"
  proof cases
    case root
    then have "\<not> w > ?from + 1" using w by simp
    then show ?thesis unfolding loop using root go [of p w "[]"] less.prems en by auto
  next
    case up
    then have st1: "slash_free st1" and t: "\<forall>c\<in>set t. c \<noteq> slash" using less.prems(5) by (simp_all add: slash_free_def)
    have p': "p = (front @ dirs_text st1) @ t @ slash # drop w p" using p up by simp
    have "step_back ((front @ dirs_text st1) @ t @ slash # drop w p) (?from + 1) (length (front @ dirs_text st1) + length t) = length (front @ dirs_text st1)"
      by (rule step_back_over) (use t dirs_text_last [of st1] in \<open>auto simp: Suc_le_eq\<close>)
    then have b: "step_back p (?from + 1) (w - 1) = length (front @ dirs_text st1)" unfolding p' [symmetric] using w up by (simp add: ac_simps)
    have "take (length (front @ dirs_text st1)) p = front @ dirs_text st1" by (subst p') simp
    moreover have "w > ?from + 1" using w up dirs_text_last [of st1] by (cases "dirs_text st1") auto
    moreover have "length (front @ dirs_text st1) \<le> w" using w up by simp
    ultimately show ?thesis unfolding loop using up b go [of p "length (front @ dirs_text st1)" st1] st1 less.prems(1-3) en by (simp cong: if_cong)
  next
    case stay
    then show ?thesis unfolding loop using go [of p w st] less.prems en by auto
  next
    case name
    let ?t = "s @ (if n \<le> e then [] else [slash])"
    have put: "put_seg p w r (length s) (n \<le> e) = (take w p @ ?t @ drop (w + length ?t) p, w + length ?t)"
      using put_seg_eq [OF less.prems(2) sl, of "n \<le> e"] sp less.prems(1) by (simp add: Let_def)
    show ?thesis
    proof (cases "n \<le> e")
      case True
      then show ?thesis unfolding loop using name put w less.prems sp by (simp add: dots_result_def rest_def)
    next
      case False
      have "slash_free (s # st)" using sp less.prems(5) by (simp add: slash_free_def)
      moreover have "drop (e + 1) (take w p @ ?t @ drop (w + length ?t) p) = drop (e + 1) p"
        using drop_prefix [of "take w p @ ?t" "w + length ?t" "e + 1" p] False less.prems len en w [symmetric] by simp
      ultimately show ?thesis unfolding loop
        using go [of "take w p @ ?t @ drop (w + length ?t) p" "w + length ?t" "s # st"] False name put w less.prems sp len en
        by (simp add: rest_def cong: if_cong)
    qed
  qed
  then show ?case using sp by simp
qed

section \<open>The output\<close>

definition out_holds :: "nat \<Rightarrow> byte list \<Rightarrow> url_out \<Rightarrow> bool" where
  "out_holds cap t o' \<longleftrightarrow> \<not> out_full o' \<and> length (out_ptr o') = cap \<and> out_len o' = length t \<and> take (length t) (out_ptr o') = t \<and> length t \<le> cap"

lemma out_holds_put: "out_holds cap t o' \<Longrightarrow> length t + length s \<le> cap \<Longrightarrow> out_holds cap (t @ s) (url_out_put o' s)"
  by (simp add: out_holds_def url_out_put_def)

lemma out_holds_byte: "out_holds cap t o' \<Longrightarrow> length t + 1 \<le> cap \<Longrightarrow> out_holds cap (t @ [c]) (url_out_byte o' c)"
  using out_holds_put [of cap t o' "[c]"] by (simp add: url_out_byte_def)

lemma no_dots_length: "length (no_dots cs) \<le> length cs"
proof (cases "cs \<noteq> [] \<and> hd cs = slash")
  case True
  then obtain rest where cs: "cs = slash # rest" by (cases cs) auto
  have "dots_result (length cs) cs [] (remove_segs [] (segs (drop 1 (take (length cs) cs)))) (remove_dots_loop (length ([] :: byte list)) cs (length cs) 1 1)"
    by (rule remove_dots_run) (simp_all add: cs slash_free_def)
  then show ?thesis by (auto simp: dots_result_def no_dots_def cs split: prod.splits)
qed (auto simp: no_dots_def split: list.splits)

lemma out_holds_dots:
  assumes "out_holds cap (front @ m) o'"
  shows "out_holds cap (front @ no_dots m) (url_remove_dots o' (length front))"
proof -
  have p: "take (length (front @ m)) (out_ptr o') = front @ m" "length (front @ m) \<le> length (out_ptr o')" "out_len o' = length (front @ m)"
    using assms by (simp_all add: out_holds_def)
  then have pm: "out_ptr o' = front @ m @ drop (length (front @ m)) (out_ptr o')" by (metis append.assoc append_take_drop_id)
  show ?thesis
  proof (cases "m \<noteq> [] \<and> hd m = slash")
    case False
    then have "length front \<ge> out_len o' \<or> out_ptr o' ! length front \<noteq> slash"
      by (subst pm) (cases m; simp add: p(3) nth_append)
    moreover have "no_dots m = m" using False by (auto simp: no_dots_def split: list.splits)
    ultimately show ?thesis using assms by (auto simp: url_remove_dots_def)
  next
    case True
    then obtain rest where m: "m = slash # rest" by (cases m) auto
    have c: "\<not> (length front \<ge> out_len o' \<or> out_ptr o' ! length front \<noteq> slash)"
    proof -
      have "out_ptr o' ! length front = slash" by (subst pm) (simp add: m nth_append)
      then show ?thesis by (simp add: p(3) m)
    qed
    obtain q w where run: "remove_dots_loop (length front) (out_ptr o') (out_len o') (length front + 1) (length front + 1) = (q, w)" by (cases "remove_dots_loop (length front) (out_ptr o') (out_len o') (length front + 1) (length front + 1)")
    have t: "take (length front + 1) (out_ptr o') = front @ dirs_text []" by (subst pm) (simp add: m)
    have d: "drop (length front + 1) (take (out_len o') (out_ptr o')) = rest" using p m by simp
    have "dots_result (out_len o') (out_ptr o') front (remove_segs [] (segs rest)) (q, w)"
      using remove_dots_run [OF _ _ _ t, of "out_len o'" "length front + 1"] p m unfolding d run by (simp add: slash_free_def)
    then have "w = length (front @ no_dots m) \<and> take w q = front @ no_dots m \<and> length q = length (out_ptr o') \<and> w \<le> out_len o'"
      by (auto simp: dots_result_def no_dots_def m split: prod.splits)
    then show ?thesis using assms c run by (auto simp: url_remove_dots_def out_holds_def)
  qed
qed

section \<open>The target of a reference\<close>

definition ref_path :: "byte list \<Rightarrow> byte list" where
  "ref_path r = takeWhile path_char r"

definition ref_query :: "byte list \<Rightarrow> byte list" where
  "ref_query r = (let t = dropWhile path_char r in if t \<noteq> [] \<and> hd t = asc CHR ''?'' then takeWhile (\<lambda>c. c \<noteq> asc CHR ''#'') t else [])"

definition ref_fragment :: "byte list \<Rightarrow> byte list" where
  "ref_fragment r = dropWhile (\<lambda>c. c \<noteq> asc CHR ''#'') (dropWhile path_char r)"

text \<open>The directory of the base path, up to its last slash.\<close>

definition dir_part :: "byte list \<Rightarrow> byte list" where
  "dir_part bp = (let d = rev (dropWhile (\<lambda>c. c \<noteq> slash) (rev bp)) in if d = [] then [slash] else d)"

definition authority_given :: "byte list \<Rightarrow> bool" where
  "authority_given r \<longleftrightarrow> take 2 (ref_path r) = [slash, slash]"

definition base_text :: "url_parts \<Rightarrow> byte list" where
  "base_text c = p_scheme c @ ascii ''://'' @ user_text (p_user c) @ host_text (p_host c) (p_v6 c) (p_port c)"

definition url_target :: "url_parts \<Rightarrow> byte list \<Rightarrow> byte list" where
  "url_target c r =
    (if has_scheme r then r
     else if authority_given r then p_scheme c @ asc CHR '':'' # r
     else base_text c @
       (if ref_path r = [] then p_path c @ (if ref_query r \<noteq> [] then ref_query r else opt_text [asc CHR ''?''] (p_query c))
        else no_dots (if hd (ref_path r) = slash then ref_path r else dir_part (p_path c) @ ref_path r) @ ref_query r) @
       ref_fragment r)"

definition is_url :: "byte list \<Rightarrow> bool" where
  "is_url t \<longleftrightarrow> (\<exists>c. url_parts_ok c \<and> t = url_render c)"

lemma parse_is_url: "fst (proven_url_parse (At t) (Some x)) = PROVEN_OK \<longleftrightarrow> is_url t"
proof
  assume "fst (proven_url_parse (At t) (Some x)) = PROVEN_OK"
  then show "is_url t" using url_parse_covers [of t x] by (auto simp: is_url_def)
next
  assume "is_url t"
  then obtain c where "url_parts_ok c" "t = url_render c" by (auto simp: is_url_def)
  then obtain u where "proven_url_parse (At t) (Some x) = (PROVEN_OK, Some u)" using url_parse_render [of c x] by blast
  then show "fst (proven_url_parse (At t) (Some x)) = PROVEN_OK" by simp
qed

lemma out_absolute:
  assumes "out_holds cap t o'"
  shows "url_out_absolute o' = (if is_url t then PROVEN_OK else PROVEN_ERR_INVALID_FORMAT)"
  using assms parse_is_url [of t url_zero] by (auto simp: url_out_absolute_def out_holds_def)

lemma ref_split: "r = ref_path r @ dropWhile path_char r" "length (ref_query r) + length (ref_fragment r) \<le> length (dropWhile path_char r)"
  "length (ref_path r) + length (ref_query r) + length (ref_fragment r) \<le> length r"
proof -
  show r: "r = ref_path r @ dropWhile path_char r" by (simp add: ref_path_def)
  let ?t = "dropWhile path_char r"
  have "length (takeWhile (\<lambda>c. c \<noteq> asc CHR ''#'') ?t) + length (ref_fragment r) = length ?t"
    unfolding ref_fragment_def by (metis length_append takeWhile_dropWhile_id)
  then show l: "length (ref_query r) + length (ref_fragment r) \<le> length ?t" by (auto simp: ref_query_def Let_def)
  have "length r = length (ref_path r) + length ?t" by (metis r length_append)
  then show "length (ref_path r) + length (ref_query r) + length (ref_fragment r) \<le> length r" using l by linarith
qed

lemma merge_cut_eq: "take (merge_cut bp) bp = rev (dropWhile (\<lambda>c. c \<noteq> slash) (rev bp)) \<and> merge_cut bp \<le> length bp"
proof -
  have "take (step_back bp 0 (length xs)) bp = rev (dropWhile (\<lambda>c. c \<noteq> slash) (rev xs)) \<and> step_back bp 0 (length xs) \<le> length xs"
    if "bp = xs @ ys" for xs ys
    using that
  proof (induction xs arbitrary: ys rule: rev_induct)
    case (snoc x xs)
    then show ?case using snoc.IH [of "x # ys"] by (auto simp: nth_append)
  qed simp
  from this [of bp "[]"] show ?thesis by (simp add: merge_cut_def)
qed


lemma url_target_length:
  assumes "tail_ok (p_path c) (p_query c)" "\<not> has_scheme r"
  shows "length (url_target c r) \<le> length (url_render c) + length r + 1"
proof -
  note b = ref_split(3) [of r] no_dots_length
  have d: "length (dir_part (p_path c)) \<le> length (p_path c) + 1"
    using length_dropWhile_le [of "\<lambda>c. c \<noteq> slash" "rev (p_path c)"] by (simp add: dir_part_def Let_def)
  have "length (url_render c) = length (base_text c) + length (p_path c) + length (opt_text [asc CHR ''?''] (p_query c)) +
      length (opt_text [asc CHR ''#''] (p_fragment c))"
    by (simp add: url_render_def base_text_def tail_text_def)
  moreover have "length (p_scheme c) + 3 \<le> length (base_text c)" by (simp add: base_text_def ascii_def)
  moreover have "length (no_dots (dir_part (p_path c) @ ref_path r)) \<le> length (p_path c) + 1 + length (ref_path r)"
    using no_dots_length [of "dir_part (p_path c) @ ref_path r"] d by simp
  moreover have "length (no_dots (ref_path r)) \<le> length (ref_path r)" by (rule no_dots_length)
  ultimately show ?thesis using b(1) assms(2) unfolding url_target_def by auto
qed

lemma url_resolve_run_exact:
  assumes u: "url_describes (url_render c) u c" "url_places u c" and tl: "tail_ok (p_path c) (p_query c)"
    and cap: "length (url_render c) + length r + 1 \<le> cap" and start: "out_holds cap [] o'"
  shows "\<exists>o''. out_holds cap (url_target c r) o'' \<and> url_resolve_run (url_render c) u r o' =
    (if (has_scheme r \<or> authority_given r) \<and> \<not> is_url (url_target c r) then PROVEN_ERR_INVALID_FORMAT else PROVEN_OK, o'')"
proof (cases "has_scheme r")
  case True
  have o1: "out_holds cap r (url_out_put o' r)" using out_holds_put [OF start, of r] cap by simp
  then show ?thesis using out_absolute [OF o1] True by (intro exI [of _ "url_out_put o' r"]) (simp add: url_resolve_run_def url_target_def Let_def)
next
  case False
  let ?s = "p_scheme c"
  define q where "q = skip_while path_char r (length r) 0"
  define f where "f = skip_while (\<lambda>c. c \<noteq> asc CHR ''#'') r (length r) q"
  have q: "q = length (ref_path r)" unfolding q_def ref_path_def by (subst skip_while_eq) simp_all
  have ql: "q \<le> length r" using ref_split(3) [of r] q by linarith
  have rq: "take q r = ref_path r" "drop q r = dropWhile path_char r"
    unfolding q ref_path_def by (simp_all add: takeWhile_eq_take [symmetric] dropWhile_eq_drop [symmetric])
  have f: "f = q + length (takeWhile (\<lambda>c. c \<noteq> asc CHR ''#'') (dropWhile path_char r))"
    unfolding f_def using ql by (subst skip_while_eq) (simp_all add: rq)
  have rf: "drop f r = ref_fragment r"
  proof -
    have "drop f r = drop (f - q) (drop q r)" by (simp add: f add.commute)
    then show ?thesis by (simp add: f rq ref_fragment_def dropWhile_eq_drop)
  qed
  have rqu: "(if q < length r \<and> r ! q = asc CHR ''?'' then take (f - q) (drop q r) else []) = ref_query r"
  proof -
    have tk: "take (f - q) (drop q r) = takeWhile (\<lambda>c. c \<noteq> asc CHR ''#'') (dropWhile path_char r)"
      by (simp add: f rq takeWhile_eq_take [symmetric])
    have "(q < length r \<and> r ! q = asc CHR ''?'') = (drop q r \<noteq> [] \<and> hd (drop q r) = asc CHR ''?'')" by (auto simp: hd_drop_conv_nth)
    then show ?thesis unfolding ref_query_def Let_def tk rq(2) [symmetric] by (simp only:)
  qed
  have auth: "length (ref_path r) \<ge> 2 \<and> ref_path r ! 0 = slash \<and> ref_path r ! 1 = slash \<longleftrightarrow> authority_given r"
    by (cases "ref_path r"; cases "tl (ref_path r)") (auto simp: authority_given_def)
  have pieces: "piece_bytes (url_render c) (scheme u) = ?s" "piece_bytes (url_render c) (path u) = p_path c" "has_query u = (p_query c \<noteq> None)"
    "p_query c = Some y \<Longrightarrow> piece_bytes (url_render c) (query u) = y" "piece_size (scheme u) = length ?s" for y
    using u by (auto simp: url_describes_def url_places_def piece_opt_def piece_size_def split: if_splits)
  have au: "take (fst (the (path u)) - (length ?s + 3)) (drop (length ?s + 3) (url_render c)) =
      user_text (p_user c) @ host_text (p_host c) (p_v6 c) (p_port c)"
    using u(2) by (simp add: url_places_def url_render_def ascii_def)
  have len: "length (url_target c r) \<le> cap" using url_target_length [OF tl False] cap by linarith
  have sl: "length ?s + 3 + length r \<le> cap" using cap by (simp add: url_render_def ascii_def)
  define o1 where "o1 = url_out_byte (url_out_put o' ?s) (asc CHR '':'')"
  have o1: "out_holds cap (?s @ [asc CHR '':'']) o1"
    unfolding o1_def using out_holds_byte [OF out_holds_put [OF start, of ?s], of "asc CHR '':''"] sl by simp
  show ?thesis
  proof (cases "authority_given r")
    case True
    have o2: "out_holds cap (?s @ asc CHR '':'' # r) (url_out_put o1 r)" using out_holds_put [OF o1, of r] sl by simp
    have "url_resolve_run (url_render c) u r o' = (url_out_absolute (url_out_put o1 r), url_out_put o1 r)"
      using False True auth unfolding url_resolve_run_def Let_def q_def [symmetric] f_def [symmetric] rq pieces o1_def [symmetric]
      by simp
    then show ?thesis using o2 out_absolute [OF o2] True False by (intro exI [of _ "url_out_put o1 r"]) (simp add: url_target_def)
  next
    case no: False
    define o2 where "o2 = url_out_put (url_out_byte (url_out_byte o1 slash) slash) (user_text (p_user c) @ host_text (p_host c) (p_v6 c) (p_port c))"
    have bl: "length (url_render c) = length (base_text c) + length (p_path c) + length (opt_text [asc CHR ''?''] (p_query c)) +
        length (opt_text [asc CHR ''#''] (p_fragment c))"
      by (simp add: url_render_def base_text_def tail_text_def)
    have o2: "out_holds cap (base_text c) o2"
    proof -
      have "out_holds cap ((?s @ [asc CHR '':'']) @ [slash] @ [slash]) (url_out_byte (url_out_byte o1 slash) slash)"
        using out_holds_byte [OF out_holds_byte [OF o1, of slash], of slash] sl by simp
      from out_holds_put [OF this, of "user_text (p_user c) @ host_text (p_host c) (p_v6 c) (p_port c)"] show ?thesis
        using bl cap by (simp add: o2_def base_text_def ascii_def)
    qed
    have frm: "out_len o2 = length (base_text c)" using o2 by (simp add: out_holds_def)
    define m where "m = (if hd (ref_path r) = slash then ref_path r else dir_part (p_path c) @ ref_path r)"
    define o3 where "o3 = (if ref_path r = [] then
           let o' = url_out_put o2 (p_path c) in
           if ref_query r \<noteq> [] then url_out_put o' (ref_query r)
           else if has_query u then url_out_put (url_out_byte o' (asc CHR ''?'')) (piece_bytes (url_render c) (query u))
           else o'
         else let
           o' =
            (if ref_path r ! 0 = slash then url_out_put o2 (ref_path r)
             else let cut = merge_cut (p_path c);
                 o' = (if cut = 0 then url_out_byte o2 slash else url_out_put o2 (take cut (p_path c))) in
               url_out_put o' (ref_path r));
           o' = (if \<not> out_full o' then url_remove_dots o' (out_len o2) else o') in
           url_out_put o' (ref_query r))"
    define mid where "mid = (if ref_path r = [] then p_path c @ (if ref_query r \<noteq> [] then ref_query r else opt_text [asc CHR ''?''] (p_query c))
        else no_dots m @ ref_query r)"
    have target: "url_target c r = base_text c @ mid @ ref_fragment r" using False no by (simp add: url_target_def mid_def m_def)
    have run: "url_resolve_run (url_render c) u r o' =
      (let o' = url_out_put o3 (ref_fragment r) in (if out_full o' then PROVEN_ERR_OUT_OF_BOUNDS else PROVEN_OK, o'))"
      unfolding url_resolve_run_def o3_def Let_def q_def [symmetric] f_def [symmetric] rq rf rqu pieces(1,2,5) o1_def [symmetric] au o2_def [symmetric]
      by (simp only: False no auth if_False rqu [unfolded rq(2)])
    have o3: "out_holds cap (base_text c @ mid) o3"
    proof (cases "ref_path r = []")
      case True
      have p: "out_holds cap (base_text c @ p_path c) (url_out_put o2 (p_path c))" by (rule out_holds_put [OF o2]) (use bl cap in simp)
      show ?thesis
      proof (cases "ref_query r = [] \<and> p_query c \<noteq> None")
        case q: True
        then obtain y where y: "p_query c = Some y" by blast
        have "out_holds cap ((base_text c @ p_path c) @ [asc CHR ''?'']) (url_out_byte (url_out_put o2 (p_path c)) (asc CHR ''?''))"
          by (rule out_holds_byte [OF p]) (use bl cap y in \<open>simp add: opt_text_def\<close>)
        from out_holds_put [OF this, of y] show ?thesis
          using q y pieces(3) pieces(4) [OF y] bl cap True by (simp add: o3_def mid_def Let_def opt_text_def)
      next
        case nq: False
        have "out_holds cap ((base_text c @ p_path c) @ ref_query r) (url_out_put (url_out_put o2 (p_path c)) (ref_query r))"
          by (rule out_holds_put [OF p]) (use bl cap ref_split(3) [of r] in simp)
        then show ?thesis using p True nq pieces(3) by (auto simp: o3_def mid_def Let_def opt_text_def)
      qed
    next
      case ne: False
      then have h: "ref_path r ! 0 = hd (ref_path r)" by (simp add: hd_conv_nth)
      define om where "om = (if ref_path r ! 0 = slash then url_out_put o2 (ref_path r)
             else let cut = merge_cut (p_path c);
                 o' = (if cut = 0 then url_out_byte o2 slash else url_out_put o2 (take cut (p_path c))) in
               url_out_put o' (ref_path r))"
      have om: "out_holds cap (base_text c @ m) om"
      proof (cases "hd (ref_path r) = slash")
        case True
        have "out_holds cap (base_text c @ ref_path r) (url_out_put o2 (ref_path r))"
          by (rule out_holds_put [OF o2]) (use bl cap ref_split(3) [of r] in simp)
        then show ?thesis using True by (simp add: om_def m_def h)
      next
        case rel: False
        define d where "d = rev (dropWhile (\<lambda>c. c \<noteq> slash) (rev (p_path c)))"
        have t: "take (merge_cut (p_path c)) (p_path c) = d" "merge_cut (p_path c) = length d"
          using merge_cut_eq [of "p_path c"] by (auto simp: d_def dest: arg_cong [where f = length])
        have dp: "dir_part (p_path c) = (if d = [] then [slash] else d)" unfolding dir_part_def Let_def d_def ..
        have dl: "length d \<le> length (p_path c)" using length_dropWhile_le [of "\<lambda>c. c \<noteq> slash" "rev (p_path c)"] by (simp add: d_def)
        have "out_holds cap (base_text c @ dir_part (p_path c)) (if merge_cut (p_path c) = 0 then url_out_byte o2 slash else url_out_put o2 d)"
          using out_holds_byte [OF o2, of slash] out_holds_put [OF o2, of d] bl cap dl
          by (simp add: dp t(2))
        moreover have "length (dir_part (p_path c)) \<le> length (p_path c) + 1" using dl by (simp add: dp)
        ultimately have "out_holds cap ((base_text c @ dir_part (p_path c)) @ ref_path r)
            (url_out_put (if merge_cut (p_path c) = 0 then url_out_byte o2 slash else url_out_put o2 d) (ref_path r))"
          by (intro out_holds_put) (use bl cap ref_split(3) [of r] in simp_all)
        then show ?thesis using rel by (simp add: om_def m_def h t(1) Let_def cong: if_cong)
      qed
      have "out_holds cap (base_text c @ no_dots m) (url_remove_dots om (length (base_text c)))" by (rule out_holds_dots [OF om])
      moreover have "length (base_text c @ mid) \<le> cap" using len target by simp
      ultimately have "out_holds cap ((base_text c @ no_dots m) @ ref_query r) (url_out_put (url_remove_dots om (length (base_text c))) (ref_query r))"
        by (intro out_holds_put) (use ne in \<open>simp_all add: mid_def\<close>)
      moreover have "\<not> out_full om" using om by (simp add: out_holds_def)
      moreover have "o3 = url_out_put (if \<not> out_full om then url_remove_dots om (out_len o2) else om) (ref_query r)"
        unfolding o3_def om_def Let_def by (simp only: ne if_False)
      ultimately show ?thesis using ne by (simp add: mid_def frm)
    qed
    have o4: "out_holds cap (url_target c r) (url_out_put o3 (ref_fragment r))"
      using out_holds_put [OF o3, of "ref_fragment r"] len by (simp add: target)
    then have "\<not> out_full (url_out_put o3 (ref_fragment r))" by (simp add: out_holds_def)
    then show ?thesis using o4 False no by (intro exI [of _ "url_out_put o3 (ref_fragment r)"]) (simp add: run)
  qed
qed



definition demo_base :: url_parts where
  "demo_base = \<lparr>p_scheme = ascii ''http'', p_user = None, p_host = ascii ''a'', p_v6 = False, p_port = None,
    p_path = ascii ''/b/c/d'', p_query = Some (ascii ''q''), p_fragment = None\<rparr>"


end
