(* ===== verification/Chacha.thy ===== *)
theory Chacha
  imports Memory
begin

text \<open>
  ChaCha20, Poly1305 and their AEAD (\<^verbatim>\<open>src/proven/crypto_chacha.c\<close>), for a build with 128-bit products
  and a processor without the vector paths (\<^verbatim>\<open>cc_width\<close> answers 0). Keys, nonces, messages and tags are
  byte lists; the block buffer of Poly1305 is the list of the bytes it holds. Wiping local variables has
  no effect the model could show.
\<close>

type_synonym u32 = "32 word"
type_synonym u64 = "64 word"
type_synonym poly_wide = "128 word"

section \<open>ChaCha20\<close>

definition cc_load32 :: "byte list \<Rightarrow> nat \<Rightarrow> u32" where
  "cc_load32 p i = ucast (p ! i) OR push_bit 8 (ucast (p ! (i + 1))) OR push_bit 16 (ucast (p ! (i + 2))) OR push_bit 24 (ucast (p ! (i + 3)))"

definition cc_store32 :: "u32 \<Rightarrow> byte list" where
  "cc_store32 v = [ucast v, ucast (drop_bit 8 v), ucast (drop_bit 16 v), ucast (drop_bit 24 v)]"

definition cc_rotl :: "u32 \<Rightarrow> nat \<Rightarrow> u32" where
  "cc_rotl x n = push_bit n x OR drop_bit (32 - n) x"

text \<open>The quarter round, on four variables and on four places of the state.\<close>

definition cc_qr :: "u32 \<times> u32 \<times> u32 \<times> u32 \<Rightarrow> u32 \<times> u32 \<times> u32 \<times> u32" where
  "cc_qr v =
    (let (a, b, c, d) = v;
         a = a + b; d = d XOR a; d = cc_rotl d 16;
         c = c + d; b = b XOR c; b = cc_rotl b 12;
         a = a + b; d = d XOR a; d = cc_rotl d 8;
         c = c + d; b = b XOR c; b = cc_rotl b 7 in (a, b, c, d))"

definition CC_QR :: "nat \<Rightarrow> nat \<Rightarrow> nat \<Rightarrow> nat \<Rightarrow> u32 list \<Rightarrow> u32 list" where
  "CC_QR i j k l x = (case cc_qr (x ! i, x ! j, x ! k, x ! l) of (a, b, c, d) \<Rightarrow> x[i := a, j := b, k := c, l := d])"

definition cc_double_round :: "u32 list \<Rightarrow> u32 list" where
  "cc_double_round x =
    (let x = CC_QR 0 4 8 12 x; x = CC_QR 1 5 9 13 x; x = CC_QR 2 6 10 14 x; x = CC_QR 3 7 11 15 x;
         x = CC_QR 0 5 10 15 x; x = CC_QR 1 6 11 12 x; x = CC_QR 2 7 8 13 x in CC_QR 3 4 9 14 x)"

definition cc_block :: "u32 list \<Rightarrow> byte list" where
  "cc_block inp = (let x = (cc_double_round ^^ 10) inp in concat (map (\<lambda>i. cc_store32 (x ! i + inp ! i)) [0..<16]))"

definition cc_setup :: "byte list \<Rightarrow> u32 \<Rightarrow> byte list \<Rightarrow> u32 list" where
  "cc_setup key counter nonce =
    [0x61707865, 0x3320646e, 0x79622d32, 0x6b206574] @ map (\<lambda>i. cc_load32 key (4 * i)) [0..<8] @ [counter] @
    map (\<lambda>i. cc_load32 nonce (4 * i)) [0..<3]"

function chacha_loop :: "u32 list \<Rightarrow> byte list \<Rightarrow> byte list" where
  "chacha_loop st inp =
    (if inp = [] then []
     else let ks = cc_block st; n = (if length inp < 64 then length inp else 64) in
       map2 (XOR) (take n inp) ks @ chacha_loop (st[12 := st ! 12 + 1]) (drop n inp))"
  by pat_completeness auto
termination by (relation "measure (\<lambda>(st, inp). length inp)") auto

declare chacha_loop.simps [simp del]

definition proven_crypto_chacha20 :: "byte list \<Rightarrow> u32 \<Rightarrow> byte list \<Rightarrow> byte list \<Rightarrow> byte list" where
  "proven_crypto_chacha20 key counter nonce inp = chacha_loop (cc_setup key counter nonce) inp"

section \<open>Poly1305\<close>

record proven_crypto_poly1305 =
  poly_r :: "u64 \<times> u64 \<times> u64"
  poly_h :: "u64 \<times> u64 \<times> u64"
  poly_pad :: "u64 \<times> u64"
  poly_buf :: "byte list"

definition cc_load64 :: "byte list \<Rightarrow> nat \<Rightarrow> u64" where
  "cc_load64 p i = ucast (cc_load32 p i) OR push_bit 32 (ucast (cc_load32 p (i + 4)))"

definition cc_store64 :: "u64 \<Rightarrow> byte list" where
  "cc_store64 v = cc_store32 (ucast v) @ cc_store32 (ucast (drop_bit 32 v))"

definition M44 :: u64 where "M44 = 0xfffffffffff"

definition M42 :: u64 where "M42 = 0x3ffffffffff"

definition POLY_HIBIT :: u64 where "POLY_HIBIT = push_bit 40 1"

definition proven_crypto_poly1305_init :: "byte list \<Rightarrow> proven_crypto_poly1305" where
  "proven_crypto_poly1305_init key =
    (let t0 = cc_load64 key 0; t1 = cc_load64 key 8 in
     \<lparr>poly_r = (t0 AND 0xffc0fffffff, (drop_bit 44 t0 OR push_bit 20 t1) AND 0xfffffc0ffff, drop_bit 24 t1 AND 0x00ffffffc0f),
      poly_h = (0, 0, 0), poly_pad = (cc_load64 key 16, cc_load64 key 24), poly_buf = []\<rparr>)"

text \<open>One block: the message added, the product, the carries.\<close>

definition poly_add :: "u64 \<times> u64 \<times> u64 \<Rightarrow> u64 \<Rightarrow> u64 \<Rightarrow> u64 \<Rightarrow> u64 \<times> u64 \<times> u64" where
  "poly_add h t0 t1 hibit =
    (case h of (h0, h1, h2) \<Rightarrow>
      (h0 + (t0 AND M44), h1 + ((drop_bit 44 t0 OR push_bit 20 t1) AND M44), h2 + ((drop_bit 24 t1 AND M42) OR hibit)))"

definition poly_mul :: "u64 \<times> u64 \<times> u64 \<Rightarrow> u64 \<times> u64 \<times> u64 \<Rightarrow> poly_wide \<times> poly_wide \<times> poly_wide" where
  "poly_mul r h =
    (case r of (r0, r1, r2) \<Rightarrow> case h of (h0, h1, h2) \<Rightarrow>
      let s1 = r1 * (5 * 4); s2 = r2 * (5 * 4) in
      (ucast h0 * ucast r0 + ucast h1 * ucast s2 + ucast h2 * ucast s1,
       ucast h0 * ucast r1 + ucast h1 * ucast r0 + ucast h2 * ucast s2,
       ucast h0 * ucast r2 + ucast h1 * ucast r1 + ucast h2 * ucast r0))"

definition poly_carry :: "poly_wide \<times> poly_wide \<times> poly_wide \<Rightarrow> u64 \<times> u64 \<times> u64" where
  "poly_carry d =
    (case d of (d0, d1, d2) \<Rightarrow>
      let c = ucast (drop_bit 44 d0) :: u64; h0 = ucast d0 AND M44; d1 = d1 + ucast c;
          c = ucast (drop_bit 44 d1) :: u64; h1 = ucast d1 AND M44; d2 = d2 + ucast c;
          c = ucast (drop_bit 42 d2) :: u64; h2 = ucast d2 AND M42;
          h0 = h0 + c * 5; c = drop_bit 44 h0; h0 = h0 AND M44;
          h1 = h1 + c in
      (h0, h1, h2))"

fun poly_loop :: "u64 \<times> u64 \<times> u64 \<Rightarrow> u64 \<times> u64 \<times> u64 \<Rightarrow> byte list \<Rightarrow> nat \<Rightarrow> u64 \<Rightarrow> u64 \<times> u64 \<times> u64" where
  "poly_loop r h m 0 hibit = h"
| "poly_loop r h m (Suc blocks) hibit =
    poly_loop r (poly_carry (poly_mul r (poly_add h (cc_load64 m 0) (cc_load64 m 8) hibit))) (drop 16 m) blocks hibit"

definition poly_blocks :: "proven_crypto_poly1305 \<Rightarrow> byte list \<Rightarrow> nat \<Rightarrow> u64 \<Rightarrow> proven_crypto_poly1305" where
  "poly_blocks st m blocks hibit = st\<lparr>poly_h := poly_loop (poly_r st) (poly_h st) m blocks hibit\<rparr>"

text \<open>The fill of a buffer that already holds bytes; then whole blocks; then what is left.\<close>

fun poly_fill :: "byte list \<Rightarrow> byte list \<Rightarrow> byte list \<times> byte list" where
  "poly_fill buf [] = (buf, [])"
| "poly_fill buf (c # m) = (if length buf < 16 then poly_fill (buf @ [c]) m else (buf, c # m))"

definition poly_update_rest :: "proven_crypto_poly1305 \<Rightarrow> byte list \<Rightarrow> proven_crypto_poly1305" where
  "poly_update_rest st m =
    (let blocks = length m div 16;
         st = (if blocks > 0 then poly_blocks st m blocks POLY_HIBIT else st);
         m = (if blocks > 0 then drop (blocks * 16) m else m) in
     st\<lparr>poly_buf := poly_buf st @ m\<rparr>)"

definition proven_crypto_poly1305_update :: "proven_crypto_poly1305 \<Rightarrow> byte list \<Rightarrow> proven_crypto_poly1305" where
  "proven_crypto_poly1305_update st m =
    (if length (poly_buf st) > 0 then
       case poly_fill (poly_buf st) m of (buf, m) \<Rightarrow>
         if length buf < 16 then st\<lparr>poly_buf := buf\<rparr>
         else poly_update_rest ((poly_blocks st buf 1 POLY_HIBIT)\<lparr>poly_buf := []\<rparr>) m
     else poly_update_rest st m)"

text \<open>The last carries, the reduced value picked without a branch, and the pad added.\<close>

definition poly_freeze :: "u64 \<times> u64 \<times> u64 \<Rightarrow> u64 \<times> u64 \<times> u64" where
  "poly_freeze h =
    (case h of (h0, h1, h2) \<Rightarrow>
      let c = drop_bit 44 h1; h1 = h1 AND M44; h2 = h2 + c;
          c = drop_bit 42 h2; h2 = h2 AND M42; h0 = h0 + c * 5;
          c = drop_bit 44 h0; h0 = h0 AND M44; h1 = h1 + c;
          c = drop_bit 44 h1; h1 = h1 AND M44; h2 = h2 + c;
          c = drop_bit 42 h2; h2 = h2 AND M42; h0 = h0 + c * 5;
          c = drop_bit 44 h0; h0 = h0 AND M44; h1 = h1 + c in
      (h0, h1, h2))"

definition poly_select :: "u64 \<times> u64 \<times> u64 \<Rightarrow> u64 \<times> u64 \<times> u64" where
  "poly_select h =
    (case h of (h0, h1, h2) \<Rightarrow>
      let g0 = h0 + 5; c = drop_bit 44 g0; g0 = g0 AND M44;
          g1 = h1 + c; c = drop_bit 44 g1; g1 = g1 AND M44;
          g2 = h2 + c - push_bit 42 1;
          msk = drop_bit 63 g2 - 1;
          g0 = g0 AND msk; g1 = g1 AND msk; g2 = g2 AND msk;
          msk = NOT msk in
      ((h0 AND msk) OR g0, (h1 AND msk) OR g1, (h2 AND msk) OR g2))"

definition poly_tag :: "u64 \<times> u64 \<times> u64 \<Rightarrow> u64 \<times> u64 \<Rightarrow> byte list" where
  "poly_tag h pad =
    (case h of (h0, h1, h2) \<Rightarrow> case pad of (t0, t1) \<Rightarrow>
      let h0 = h0 + (t0 AND M44); c = drop_bit 44 h0; h0 = h0 AND M44;
          h1 = h1 + (((drop_bit 44 t0 OR push_bit 20 t1) AND M44) + c); c = drop_bit 44 h1; h1 = h1 AND M44;
          h2 = h2 + ((drop_bit 24 t1 AND M42) + c); h2 = h2 AND M42 in
      cc_store64 (h0 OR push_bit 44 h1) @ cc_store64 (drop_bit 20 h1 OR push_bit 24 h2))"

definition proven_crypto_poly1305_final :: "proven_crypto_poly1305 \<Rightarrow> byte list" where
  "proven_crypto_poly1305_final st =
    (let st = (if length (poly_buf st) > 0 then
           let buf = poly_buf st @ [1]; buf = buf @ replicate (16 - length buf) 0 in poly_blocks st buf 1 0
         else st) in
     poly_tag (poly_select (poly_freeze (poly_h st))) (poly_pad st))"

section \<open>The AEAD\<close>

definition le64_bytes :: "u64 \<Rightarrow> byte list" where
  "le64_bytes a = map (\<lambda>i. ucast (drop_bit (8 * i) a)) [0..<8]"

definition update_padded :: "proven_crypto_poly1305 \<Rightarrow> byte list \<Rightarrow> proven_crypto_poly1305" where
  "update_padded st m =
    (let st = (if length m > 0 then proven_crypto_poly1305_update st m else st) in
     if length m mod 16 \<noteq> 0 then proven_crypto_poly1305_update st (replicate (16 - length m mod 16) 0) else st)"

definition cc_aead_tag :: "byte list \<Rightarrow> byte list \<Rightarrow> byte list \<Rightarrow> byte list \<Rightarrow> byte list" where
  "cc_aead_tag key nonce aad cipher =
    (let poly_key = proven_crypto_chacha20 key 0 nonce (replicate 64 0);
         st = proven_crypto_poly1305_init poly_key;
         st = update_padded st aad;
         st = update_padded st cipher;
         st = proven_crypto_poly1305_update st (le64_bytes (of_nat (length aad)) @ le64_bytes (of_nat (length cipher))) in
     proven_crypto_poly1305_final st)"

definition proven_crypto_chacha20poly1305_seal :: "byte list \<Rightarrow> byte list \<Rightarrow> byte list \<Rightarrow> byte list \<Rightarrow> byte list \<times> byte list" where
  "proven_crypto_chacha20poly1305_seal key nonce aad plain =
    (let out = (if length plain > 0 then proven_crypto_chacha20 key 1 nonce plain else []) in (out, cc_aead_tag key nonce aad out))"

definition proven_crypto_chacha20poly1305_open :: "byte list \<Rightarrow> byte list \<Rightarrow> byte list \<Rightarrow> byte list \<Rightarrow> byte list \<Rightarrow> bool \<times> byte list" where
  "proven_crypto_chacha20poly1305_open key nonce aad cipher tag =
    (let want = cc_aead_tag key nonce aad cipher in
     if want \<noteq> tag then (False, replicate (length cipher) 0)
     else (True, if length cipher > 0 then proven_crypto_chacha20 key 1 nonce cipher else []))"

end
