(* ===== verification/Poly_Limbs.thy ===== *)
theory Poly_Limbs
  imports Chacha Word_Nat
begin

text \<open>
  The arithmetic of Poly1305 over its limbs of 44, 44 and 42 bits, in numbers: no sum or product of
  \<^verbatim>\<open>poly_blocks\<close> wraps, one block is a step of Horner's rule modulo \<open>2^130 - 5\<close>, and the steps that
  close a tag give the reduced value plus the pad modulo \<open>2^128\<close>.
\<close>

section \<open>Little-endian bytes\<close>

fun le_num :: "byte list \<Rightarrow> nat" where
  "le_num [] = 0"
| "le_num (b # bs) = unat b + 256 * le_num bs"

fun le_bytes :: "nat \<Rightarrow> nat \<Rightarrow> byte list" where
  "le_bytes 0 v = []"
| "le_bytes (Suc n) v = of_nat (v mod 256) # le_bytes n (v div 256)"

lemma le_num_append: "le_num (xs @ ys) = le_num xs + 256 ^ length xs * le_num ys"
  by (induction xs) (auto simp: algebra_simps)

lemma unat_byte: "unat (b :: byte) < 256"
  using unsigned_less [of b] by simp

lemma le_num_less: "le_num bs < 256 ^ length bs"
proof (induction bs)
  case (Cons b bs)
  then have "le_num bs + 1 \<le> 256 ^ length bs" by simp
  then have "256 * (le_num bs + 1) \<le> 256 * 256 ^ length bs" by (rule mult_le_mono2)
  then show ?case using unat_byte [of b] by simp
qed simp

lemma le_num_zeros: "le_num (replicate n 0) = 0"
  by (induction n) auto

lemma length_le_bytes [simp]: "length (le_bytes n v) = n"
  by (induction n arbitrary: v) auto

lemma le_bytes_num: "le_bytes (length bs) (le_num bs) = bs"
  by (induction bs) (auto simp: unat_byte)

lemma le_bytes_mod: "le_bytes n (v mod 256 ^ n) = le_bytes n v"
proof (induction n arbitrary: v)
  case (Suc n)
  have a: "v mod 256 ^ Suc n mod 256 = v mod 256" by (simp add: mod_mod_cancel)
  have "v mod (256 * 256 ^ n) div 256 = v div 256 mod 256 ^ n" by (simp add: mod_mult2_eq)
  then show ?case using Suc.IH [of "v div 256"] a by simp
qed simp

lemma le_bytes_append: "le_bytes (m + n) v = le_bytes m v @ le_bytes n (v div 256 ^ m)"
  by (induction m arbitrary: v) (auto simp: div_mult2_eq)

lemma unat_load32: "i + 4 \<le> length p \<Longrightarrow> unat (cc_load32 p i) = le_num (take 4 (drop i p))"
proof -
  assume l: "i + 4 \<le> length p"
  define a where "a = p ! i"
  define b where "b = p ! (i + 1)"
  define c where "c = p ! (i + 2)"
  define d where "d = p ! (i + 3)"
  have t: "take 4 (drop i p) = [a, b, c, d]"
    using l unfolding a_def b_def c_def d_def
    by (simp add: take_Suc_conv_app_nth numeral_eq_Suc take_drop [symmetric] add.commute hd_drop_conv_nth)
  have u: "unat (ucast x :: u32) = unat x" for x :: byte by (rule unat_ucast_bigger) simp
  have 1: "unat (ucast a OR push_bit 8 (ucast b) :: u32) = unat a + 256 * unat b"
    using unat_or_push [of "ucast a :: u32" 8 "ucast b"] unat_byte [of a] unat_byte [of b] by (simp add: u)
  have 2: "unat ((ucast a OR push_bit 8 (ucast b)) OR push_bit 16 (ucast c) :: u32) = unat a + 256 * unat b + 65536 * unat c"
    using unat_or_push [of "ucast a OR push_bit 8 (ucast b) :: u32" 16 "ucast c"] unat_byte [of a] unat_byte [of b] unat_byte [of c]
    by (simp add: u 1)
  have 3: "unat (((ucast a OR push_bit 8 (ucast b)) OR push_bit 16 (ucast c)) OR push_bit 24 (ucast d) :: u32) =
      unat a + 256 * unat b + 65536 * unat c + 16777216 * unat d"
    using unat_or_push [of "(ucast a OR push_bit 8 (ucast b)) OR push_bit 16 (ucast c) :: u32" 24 "ucast d"]
      unat_byte [of a] unat_byte [of b] unat_byte [of c] unat_byte [of d]
    by (simp add: u 2)
  have "cc_load32 p i = ((ucast a OR push_bit 8 (ucast b)) OR push_bit 16 (ucast c)) OR push_bit 24 (ucast d)"
    unfolding cc_load32_def a_def b_def c_def d_def by (simp only: or.assoc)
  with 3 show ?thesis unfolding t by simp
qed

lemma unat_load64:
  assumes "i + 8 \<le> length p"
  shows "unat (cc_load64 p i) = le_num (take 8 (drop i p))"
proof -
  define x where "x = cc_load32 p i"
  define y where "y = cc_load32 p (i + 4)"
  have u: "unat (ucast w :: u64) = unat w" for w :: u32 by (rule unat_ucast_bigger) simp
  have b: "unat w < 2 ^ 32" for w :: u32 using unsigned_less [of w] by simp
  have "unat (ucast x OR push_bit 32 (ucast y) :: u64) = unat x + 2 ^ 32 * unat y"
    using unat_or_push [of "ucast x :: u64" 32 "ucast y"] b [of x] b [of y] by (simp add: u)
  moreover have "take 8 (drop i p) = take 4 (drop i p) @ take 4 (drop (i + 4) p)"
    using take_add [of 4 4 "drop i p"] by (simp add: add.commute)
  ultimately show ?thesis
    using assms unfolding cc_load64_def x_def y_def by (simp add: unat_load32 le_num_append)
qed

lemma ucast_drop_byte: "(ucast (drop_bit k (v :: u32)) :: byte) = of_nat (unat v div 2 ^ k mod 256)"
proof (rule word_unat_eq_iff [THEN iffD2])
  have "unat (ucast (drop_bit k v) :: byte) = unat v div 2 ^ k mod 2 ^ 8"
    unfolding unat_ucast_smaller unat_drop by simp
  then show "unat (ucast (drop_bit k v) :: byte) = unat (of_nat (unat v div 2 ^ k mod 256) :: byte)"
    by (simp add: unat_of_nat)
qed

lemma store32_bytes: "cc_store32 v = le_bytes 4 (unat v)"
proof -
  have 0: "(ucast v :: byte) = of_nat (unat v mod 256)" using ucast_drop_byte [of 0 v] by simp
  have 4: "le_bytes 4 n = [of_nat (n mod 256), of_nat (n div 256 mod 256), of_nat (n div 256 div 256 mod 256), of_nat (n div 256 div 256 div 256 mod 256)]" for n
  proof -
    have "4 = Suc (Suc (Suc (Suc 0)))" by simp
    then show ?thesis by (simp only: le_bytes.simps)
  qed
  show ?thesis unfolding cc_store32_def 4 ucast_drop_byte 0 div_mult2_eq [symmetric] by simp
qed

lemma store64_bytes: "cc_store64 v = le_bytes 8 (unat v)"
proof -
  have l: "unat (ucast v :: u32) = unat v mod 256 ^ 4"
    using unat_ucast_smaller [where 'b = 32, of v] by simp
  have "unat (ucast (drop_bit 32 v) :: u32) = unat v div 256 ^ 4 mod 256 ^ 4"
    using unat_ucast_smaller [where 'b = 32, of "drop_bit 32 v"] by (simp add: unat_drop)
  then have h: "le_bytes 4 (unat (ucast (drop_bit 32 v) :: u32)) = le_bytes 4 (unat v div 256 ^ 4)"
    by (metis le_bytes_mod)
  have "le_bytes 4 (unat (ucast v :: u32)) = le_bytes 4 (unat v)" using l by (metis le_bytes_mod)
  then show ?thesis unfolding cc_store64_def store32_bytes h using le_bytes_append [of 4 4 "unat v"] by simp
qed

text \<open>The bytes of a word, taken one shift at a time; and a number put together from words.\<close>

lemma le_bytes_nth: "i < m \<Longrightarrow> le_bytes m x ! i = of_nat (x div 256 ^ i mod 256)"
proof (induction m arbitrary: x i)
  case (Suc m)
  then show ?case by (cases i) (auto simp: div_mult2_eq)
qed simp

lemma le64_bytes_num: "le64_bytes v = le_bytes 8 (unat v)"
proof (rule nth_equalityI)
  fix i assume "i < length (le64_bytes v)"
  then have i: "i < 8" by (simp add: le64_bytes_def)
  have b: "(ucast (drop_bit k v) :: byte) = of_nat (unat v div 2 ^ k mod 256)" for k
  proof (rule word_unat_eq_iff [THEN iffD2])
    have "unat (ucast (drop_bit k v) :: byte) = unat v div 2 ^ k mod 2 ^ 8" unfolding unat_ucast_smaller unat_drop by simp
    then show "unat (ucast (drop_bit k v) :: byte) = unat (of_nat (unat v div 2 ^ k mod 256) :: byte)" by (simp add: unat_of_nat)
  qed
  have p: "(2 :: nat) ^ (8 * i) = 256 ^ i" by (simp add: power_mult)
  have "le64_bytes v ! i = ucast (drop_bit (8 * i) v)" using i by (simp add: le64_bytes_def del: upt_conv_Cons)
  then show "le64_bytes v ! i = le_bytes 8 (unat v) ! i" unfolding b p le_bytes_nth [OF i] .
qed (simp add: le64_bytes_def)

lemma le_bytes_words: "w < 2 ^ 64 \<Longrightarrow> le_bytes (8 + n) (w + 2 ^ 64 * x) = le_bytes 8 w @ le_bytes n x"
proof -
  assume w: "w < 2 ^ 64"
  have "(w + 2 ^ 64 * x) mod 2 ^ 64 = w" unfolding mod_mult_self2 using w by simp
  then have m: "(w + 2 ^ 64 * x) mod 256 ^ 8 = w" by simp
  have d: "(w + 2 ^ 64 * x) div 256 ^ 8 = x" using w by simp
  show ?thesis unfolding le_bytes_append d using le_bytes_mod [of 8 "w + 2 ^ 64 * x"] unfolding m by simp
qed

section \<open>Limbs\<close>

definition POLY_P :: nat where "POLY_P = 2 ^ 130 - 5"

fun limbs :: "u64 \<times> u64 \<times> u64 \<Rightarrow> nat" where
  "limbs (a, b, c) = unat a + 2 ^ 44 * unat b + 2 ^ 88 * unat c"

fun limbs_reduced :: "u64 \<times> u64 \<times> u64 \<Rightarrow> bool" where
  "limbs_reduced (a, b, c) \<longleftrightarrow> unat a < 2 ^ 44 \<and> unat b < 2 ^ 44 \<and> unat c < 2 ^ 42"

text \<open>What a block leaves: the middle limb may be a little over; and what a key gives.\<close>

fun limbs_acc :: "u64 \<times> u64 \<times> u64 \<Rightarrow> bool" where
  "limbs_acc (a, b, c) \<longleftrightarrow> unat a < 2 ^ 44 \<and> unat b < 2 ^ 44 + 2 ^ 10 \<and> unat c < 2 ^ 42"

fun limbs_key :: "u64 \<times> u64 \<times> u64 \<Rightarrow> bool" where
  "limbs_key (a, b, c) \<longleftrightarrow> unat a < 2 ^ 44 \<and> unat b < 2 ^ 44 \<and> unat c < 2 ^ 36"

lemma M44_mask: "M44 = mask 44" and M42_mask: "M42 = mask 42"
  by (simp_all add: M44_def M42_def mask_eq_exp_minus_1)

lemma unat_M44: "unat (w AND M44) = unat w mod 2 ^ 44" and unat_M42: "unat (w AND M42) = unat w mod 2 ^ 42"
  by (simp_all only: M44_mask M42_mask unat_and_mask_mod)

lemma unat_u64: "unat (w :: u64) < 2 ^ 64"
  using unsigned_less [of w] by simp

lemma limb_middle: "unat (drop_bit 44 t0 OR push_bit 20 t1 :: u64) = unat t0 div 2 ^ 44 + 2 ^ 20 * (unat t1 mod 2 ^ 44)"
proof -
  have "unat t0 div 2 ^ 44 < 2 ^ 20" using unat_u64 [of t0] by (intro less_mult_imp_div_less) simp
  note or = nat_or_high [OF this, of "unat t1 mod 2 ^ 44"]
  have "(2 ^ 20 * unat t1) mod 2 ^ 64 = 2 ^ 20 * (unat t1 mod 2 ^ 44)"
    using mult_mod_right [of "2 ^ 20" "unat t1" "2 ^ 44"] by simp
  then have "unat (push_bit 20 t1) = 2 ^ 20 * (unat t1 mod 2 ^ 44)" by (simp add: unat_push)
  then show ?thesis using or by (simp add: unsigned_or_eq unat_drop or.commute)
qed

lemma split_limbs:
  assumes "T = unat t0 + 2 ^ 64 * unat t1"
  shows "unat (t0 AND M44) = T mod 2 ^ 44"
    and "unat ((drop_bit 44 t0 OR push_bit 20 t1) AND M44) = T div 2 ^ 44 mod 2 ^ 44"
    and "unat (drop_bit 24 t1 AND M42) = T div 2 ^ 88"
proof -
  define x where "x = unat t0"
  define y where "y = unat t1"
  have x: "x < 2 ^ 64" and y: "y < 2 ^ 64" using unat_u64 by (auto simp: x_def y_def)
  have T: "T = x + 2 ^ 44 * (2 ^ 20 * y)" using assms by (simp add: x_def y_def)
  show "unat (t0 AND M44) = T mod 2 ^ 44"
    unfolding T unat_M44 x_def by (simp only: mod_mult_self2)
  have d: "T div 2 ^ 44 = x div 2 ^ 44 + 2 ^ 20 * y" unfolding T by simp
  have "(x div 2 ^ 44 + 2 ^ 20 * (y mod 2 ^ 44)) mod 2 ^ 44 = (x div 2 ^ 44 + 2 ^ 20 * y) mod 2 ^ 44"
    by (metis mod_add_right_eq mod_mult_right_eq)
  then show "unat ((drop_bit 44 t0 OR push_bit 20 t1) AND M44) = T div 2 ^ 44 mod 2 ^ 44"
    unfolding unat_M44 limb_middle d x_def y_def .
  have "T div 2 ^ 88 = T div 2 ^ 64 div 2 ^ 24" by (simp add: div_mult2_eq [symmetric])
  also have "T div 2 ^ 64 = y" using x assms unfolding x_def y_def by simp
  finally have e: "T div 2 ^ 88 = y div 2 ^ 24" .
  have "y div 2 ^ 24 < 2 ^ 42" using y by (intro less_mult_imp_div_less) simp
  then show "unat (drop_bit 24 t1 AND M42) = T div 2 ^ 88" unfolding e unat_M42 unat_drop y_def by simp
qed

lemma join_limbs: "T mod 2 ^ 44 + 2 ^ 44 * (T div 2 ^ 44 mod 2 ^ 44) + 2 ^ 88 * (T div 2 ^ 88) = (T :: nat)"
proof -
  have "T div 2 ^ 88 = T div 2 ^ 44 div 2 ^ 44" by (simp add: div_mult2_eq [symmetric])
  then have "T div 2 ^ 44 mod 2 ^ 44 + 2 ^ 44 * (T div 2 ^ 88) = T div 2 ^ 44" by simp
  then have "2 ^ 44 * (T div 2 ^ 44 mod 2 ^ 44) + 2 ^ 88 * (T div 2 ^ 88) = 2 ^ 44 * (T div 2 ^ 44)" by simp
  then have "T mod 2 ^ 44 + (2 ^ 44 * (T div 2 ^ 44 mod 2 ^ 44) + 2 ^ 88 * (T div 2 ^ 88)) = T"
    by (simp only: mod_mult_div_eq)
  then show ?thesis by (simp only: add.assoc)
qed

text \<open>A block added: the three sums do not wrap.\<close>

lemma poly_add_limbs:
  assumes T: "T = unat t0 + 2 ^ 64 * unat t1" and hb: "hibit = 0 \<or> hibit = POLY_HIBIT" and h: "limbs_acc h"
    and a: "poly_add h t0 t1 hibit = (a0, a1, a2)"
  shows "limbs (a0, a1, a2) = limbs h + T + 2 ^ 88 * unat hibit"
    and "unat a0 < 2 ^ 45 \<and> unat a1 < 2 ^ 46 \<and> unat a2 < 2 ^ 43"
proof -
  obtain h0 h1 h2 where hh: "h = (h0, h1, h2)" by (cases h)
  note b = h [unfolded hh limbs_acc.simps]
  note s = split_limbs [OF T]
  have Tb: "T < 2 ^ 128" using unat_u64 [of t0] unat_u64 [of t1] unfolding T by simp
  have t2: "T div 2 ^ 88 < 2 ^ 40" using Tb by (intro less_mult_imp_div_less) simp
  have uhb: "unat hibit = 0 \<or> unat hibit = 2 ^ 40" using hb by (auto simp: POLY_HIBIT_def unat_push)
  have or: "unat ((drop_bit 24 t1 AND M42) OR hibit) = T div 2 ^ 88 + unat hibit"
  proof -
    have "(2 ^ 40 * k) OR (T div 2 ^ 88) = 2 ^ 40 * k + T div 2 ^ 88" for k by (rule nat_or_high [OF t2])
    from this [of 0] this [of 1] uhb show ?thesis unfolding unsigned_or_eq s by (auto simp: or.commute)
  qed
  define x where "x = T mod 2 ^ 44"
  define y where "y = T div 2 ^ 44 mod 2 ^ 44"
  define z where "z = T div 2 ^ 88"
  have m: "x < 2 ^ 44" "y < 2 ^ 44" unfolding x_def y_def by simp_all
  note s = s [folded x_def y_def z_def] and or = or [folded z_def] and t2 = t2 [folded z_def]
  have a0: "unat a0 = unat h0 + x"
  proof -
    have "unat h0 + unat (t0 AND M44) < 2 ^ LENGTH(64)" using b m unfolding s by simp
    from unat_add_small [OF this] show ?thesis using a unfolding hh poly_add_def s by simp
  qed
  have a1: "unat a1 = unat h1 + y"
  proof -
    have "unat h1 + unat ((drop_bit 44 t0 OR push_bit 20 t1) AND M44) < 2 ^ LENGTH(64)" using b m unfolding s by simp
    from unat_add_small [OF this] show ?thesis using a unfolding hh poly_add_def s by simp
  qed
  have a2: "unat a2 = unat h2 + (z + unat hibit)"
  proof -
    have "unat h2 + unat ((drop_bit 24 t1 AND M42) OR hibit) < 2 ^ LENGTH(64)" using b t2 uhb unfolding or by auto
    from unat_add_small [OF this] show ?thesis using a unfolding hh poly_add_def or by simp
  qed
  show "limbs (a0, a1, a2) = limbs h + T + 2 ^ 88 * unat hibit"
    unfolding limbs.simps hh a0 a1 a2 using join_limbs [of T, folded x_def y_def z_def] by simp
  show "unat a0 < 2 ^ 45 \<and> unat a1 < 2 ^ 46 \<and> unat a2 < 2 ^ 43"
    unfolding a0 a1 a2 using b m t2 uhb by auto
qed

end
