(* ===== verification/Poly_Block.thy ===== *)
theory Poly_Block
  imports Poly_Limbs
begin

text \<open>
  One block of \<^verbatim>\<open>poly_blocks\<close>: the three wide products and the carries, without a wrap, are a product
  modulo \<open>2^130 - 5\<close>.
\<close>

lemma mult_less_exp: "a < 2 ^ i \<Longrightarrow> b < 2 ^ j \<Longrightarrow> a * b < (2 :: nat) ^ (i + j)"
  unfolding power_add by (rule mult_strict_mono') auto

lemma u64_to_wide: "unat (ucast (w :: u64) :: poly_wide) = unat w"
  by (rule unat_ucast_bigger) simp

lemma wide_to_u64: "unat (ucast (w :: poly_wide) :: u64) = unat w mod 2 ^ 64"
  using unat_ucast_smaller [where 'b = 64, of w] by simp

lemma unat_wide_mult: "unat (ucast (a :: u64) * ucast (b :: u64) :: poly_wide) = unat a * unat b"
proof -
  have "unat a * unat b < 2 ^ (64 + 64)" by (rule mult_less_exp [OF unat_u64 unat_u64])
  then show ?thesis using unat_mult_small [of "ucast a :: poly_wide" "ucast b"] unfolding u64_to_wide by simp
qed

lemma unat_sum3:
  fixes x y z :: poly_wide
  assumes "unat x + unat y + unat z < 2 ^ 128"
  shows "unat (x + y + z) = unat x + unat y + unat z"
proof -
  have 1: "unat (x + y) = unat x + unat y" using assms by (intro unat_add_small) simp
  have "unat (x + y + z) = unat (x + y) + unat z" using assms 1 by (intro unat_add_small) simp
  then show ?thesis using 1 by simp
qed

lemma unat_times20: "unat (r :: u64) < 2 ^ 44 \<Longrightarrow> unat (r * (5 * 4)) = 20 * unat r"
  using unat_mult_small [of r 20] by simp

text \<open>The products, and their bounds.\<close>

lemma poly_mul_nat:
  assumes r: "limbs_key (r0, r1, r2)" and a: "unat a0 < 2 ^ 45" "unat a1 < 2 ^ 46" "unat a2 < 2 ^ 43"
    and d: "poly_mul (r0, r1, r2) (a0, a1, a2) = (d0, d1, d2)"
  shows "unat d0 = unat a0 * unat r0 + unat a1 * (20 * unat r2) + unat a2 * (20 * unat r1)"
    and "unat d1 = unat a0 * unat r1 + unat a1 * unat r0 + unat a2 * (20 * unat r2)"
    and "unat d2 = unat a0 * unat r2 + unat a1 * unat r1 + unat a2 * unat r0"
    and "unat d0 < 2 ^ 93 \<and> unat d1 < 2 ^ 91 \<and> unat d2 < 2 ^ 91"
proof -
  note b = r [unfolded limbs_key.simps]
  have s1: "unat (r1 * (5 * 4)) = 20 * unat r1" and s2: "unat (r2 * (5 * 4)) = 20 * unat r2"
    using b unat_times20 [of r1] unat_times20 [of r2] by simp_all
  have k: "20 * unat r1 < 2 ^ 49" "20 * unat r2 < 2 ^ 41" using b by auto
  have p0: "unat a0 * unat r0 < 2 ^ (45 + 44)" "unat a1 * (20 * unat r2) < 2 ^ (46 + 41)" "unat a2 * (20 * unat r1) < 2 ^ (43 + 49)"
    by (rule mult_less_exp; use a b k in simp)+
  have p1: "unat a0 * unat r1 < 2 ^ (45 + 44)" "unat a1 * unat r0 < 2 ^ (46 + 44)" "unat a2 * (20 * unat r2) < 2 ^ (43 + 41)"
    by (rule mult_less_exp; use a b k in simp)+
  have p2: "unat a0 * unat r2 < 2 ^ (45 + 36)" "unat a1 * unat r1 < 2 ^ (46 + 44)" "unat a2 * unat r0 < 2 ^ (43 + 44)"
    by (rule mult_less_exp; use a b k in simp)+
  note w = unat_wide_mult s1 s2
  have dd: "d0 = ucast a0 * ucast r0 + ucast a1 * ucast (r2 * (5 * 4)) + ucast a2 * ucast (r1 * (5 * 4))"
    "d1 = ucast a0 * ucast r1 + ucast a1 * ucast r0 + ucast a2 * ucast (r2 * (5 * 4))"
    "d2 = ucast a0 * ucast r2 + ucast a1 * ucast r1 + ucast a2 * ucast r0"
    using d unfolding poly_mul_def Let_def by simp_all
  show e0: "unat d0 = unat a0 * unat r0 + unat a1 * (20 * unat r2) + unat a2 * (20 * unat r1)"
    unfolding dd by (subst unat_sum3; unfold w; insert p0; simp)
  show e1: "unat d1 = unat a0 * unat r1 + unat a1 * unat r0 + unat a2 * (20 * unat r2)"
    unfolding dd by (subst unat_sum3; unfold w; insert p1; simp)
  show e2: "unat d2 = unat a0 * unat r2 + unat a1 * unat r1 + unat a2 * unat r0"
    unfolding dd by (subst unat_sum3; unfold w; insert p2; simp)
  show "unat d0 < 2 ^ 93 \<and> unat d1 < 2 ^ 91 \<and> unat d2 < 2 ^ 91"
    unfolding e0 e1 e2 using p0 p1 p2 by simp
qed

text \<open>The carries.\<close>

lemma mod_64_44: "(n :: nat) mod 2 ^ 64 mod 2 ^ 44 = n mod 2 ^ 44" and mod_64_42: "n mod 2 ^ 64 mod 2 ^ 42 = n mod 2 ^ 42"
  by (simp_all add: mod_mod_cancel)

lemma unat_carry: "unat (d :: poly_wide) < 2 ^ (64 + k) \<Longrightarrow> unat (ucast (drop_bit k d) :: u64) = unat d div 2 ^ k"
proof -
  assume "unat d < 2 ^ (64 + k)"
  then have "unat d div 2 ^ k < 2 ^ 64" by (intro less_mult_imp_div_less) (simp add: power_add)
  then show ?thesis unfolding wide_to_u64 unat_drop by simp
qed

lemma poly_carry_nat:
  assumes d: "unat d0 < 2 ^ 93" "unat d1 < 2 ^ 91" "unat d2 < 2 ^ 91"
  shows "limbs_acc (poly_carry (d0, d1, d2))"
    and "\<exists>q. limbs (poly_carry (d0, d1, d2)) + POLY_P * q = unat d0 + 2 ^ 44 * unat d1 + 2 ^ 88 * unat d2"
proof -
  define c0 where "c0 = (ucast (drop_bit 44 d0) :: u64)"
  define e1 where "e1 = d1 + ucast c0"
  define c1 where "c1 = (ucast (drop_bit 44 e1) :: u64)"
  define e2 where "e2 = d2 + ucast c1"
  define c2 where "c2 = (ucast (drop_bit 42 e2) :: u64)"
  define x0 where "x0 = (ucast d0 :: u64) AND M44"
  define x1 where "x1 = (ucast e1 :: u64) AND M44"
  define x2 where "x2 = (ucast e2 :: u64) AND M42"
  define f where "f = x0 + c2 * 5"
  have pc: "poly_carry (d0, d1, d2) = (f AND M44, x1 + drop_bit 44 f, x2)"
    unfolding poly_carry_def Let_def case_prod_conv f_def x0_def x1_def x2_def c2_def e2_def c1_def e1_def c0_def ..
  have c0: "unat c0 = unat d0 div 2 ^ 44" using d unfolding c0_def by (intro unat_carry) simp
  have c0b: "unat c0 < 2 ^ 49" unfolding c0 using d by (intro less_mult_imp_div_less) simp
  have e1: "unat e1 = unat d1 + unat c0"
    using unat_add_small [of d1 "ucast c0"] c0b d unfolding e1_def u64_to_wide by simp
  have e1b: "unat e1 < 2 ^ 92" unfolding e1 using d c0b by simp
  have c1: "unat c1 = unat e1 div 2 ^ 44" using e1b unfolding c1_def by (intro unat_carry) simp
  have c1b: "unat c1 < 2 ^ 48" unfolding c1 using e1b by (intro less_mult_imp_div_less) simp
  have e2: "unat e2 = unat d2 + unat c1"
    using unat_add_small [of d2 "ucast c1"] c1b d unfolding e2_def u64_to_wide by simp
  have e2b: "unat e2 < 2 ^ 92" unfolding e2 using d c1b by simp
  have c2: "unat c2 = unat e2 div 2 ^ 42" using e2b unfolding c2_def by (intro unat_carry) simp
  have c2b: "unat c2 < 2 ^ 50" unfolding c2 using e2b by (intro less_mult_imp_div_less) simp
  have x0: "unat x0 = unat d0 mod 2 ^ 44" unfolding x0_def unat_M44 wide_to_u64 mod_64_44 ..
  have x1: "unat x1 = unat e1 mod 2 ^ 44" unfolding x1_def unat_M44 wide_to_u64 mod_64_44 ..
  have x2: "unat x2 = unat e2 mod 2 ^ 42" unfolding x2_def unat_M42 wide_to_u64 mod_64_42 ..
  have xb: "unat x0 < 2 ^ 44" "unat x1 < 2 ^ 44" "unat x2 < 2 ^ 42" unfolding x0 x1 x2 by simp_all
  have c5: "unat (c2 * 5) = 5 * unat c2" using unat_mult_small [of c2 5] c2b by simp
  have f: "unat f = unat x0 + 5 * unat c2"
    using unat_add_small [of x0 "c2 * 5"] c2b xb unfolding f_def c5 by simp
  have fb: "unat f < 2 ^ 53" unfolding f using xb c2b by simp
  have g: "unat (drop_bit 44 f) = unat f div 2 ^ 44" by (rule unat_drop)
  have gb: "unat f div 2 ^ 44 < 2 ^ 9" using fb by (intro less_mult_imp_div_less) simp
  have y1: "unat (x1 + drop_bit 44 f) = unat x1 + unat f div 2 ^ 44"
    using unat_add_small [of x1 "drop_bit 44 f"] gb xb unfolding g by simp
  show "limbs_acc (poly_carry (d0, d1, d2))"
    unfolding pc limbs_acc.simps unat_M44 y1 using xb gb by simp
  have "limbs (poly_carry (d0, d1, d2)) = unat f + 2 ^ 44 * unat x1 + 2 ^ 88 * unat x2"
    using mod_mult_div_eq [of "unat f" "2 ^ 44"] unfolding pc limbs.simps unat_M44 y1 distrib_left by linarith
  also have "\<dots> + POLY_P * unat c2 = unat x0 + 2 ^ 44 * unat x1 + 2 ^ 88 * (unat x2 + 2 ^ 42 * unat c2)"
    unfolding f POLY_P_def by simp
  also have "unat x2 + 2 ^ 42 * unat c2 = unat e2" unfolding x2 c2 by (rule mod_mult_div_eq)
  also have "unat x0 + 2 ^ 44 * unat x1 + 2 ^ 88 * unat e2 = unat x0 + 2 ^ 44 * (unat x1 + 2 ^ 44 * unat c1) + 2 ^ 88 * unat d2"
    unfolding e2 by simp
  also have "unat x1 + 2 ^ 44 * unat c1 = unat e1" unfolding x1 c1 by (rule mod_mult_div_eq)
  also have "unat x0 + 2 ^ 44 * unat e1 = (unat x0 + 2 ^ 44 * unat c0) + 2 ^ 44 * unat d1" unfolding e1 by simp
  also have "unat x0 + 2 ^ 44 * unat c0 = unat d0" unfolding x0 c0 by (rule mod_mult_div_eq)
  finally show "\<exists>q. limbs (poly_carry (d0, d1, d2)) + POLY_P * q = unat d0 + 2 ^ 44 * unat d1 + 2 ^ 88 * unat d2" by blast
qed

text \<open>The product of two limbed numbers, folded at \<open>2^130\<close>.\<close>

lemma fold_product:
  fixes a0 a1 a2 r0 r1 r2 :: nat
  shows "(a0 * r0 + a1 * (20 * r2) + a2 * (20 * r1)) + 2 ^ 44 * (a0 * r1 + a1 * r0 + a2 * (20 * r2)) +
      2 ^ 88 * (a0 * r2 + a1 * r1 + a2 * r0) + POLY_P * (4 * (a1 * r2 + a2 * r1 + 2 ^ 44 * (a2 * r2))) =
    (a0 + 2 ^ 44 * a1 + 2 ^ 88 * a2) * (r0 + 2 ^ 44 * r1 + 2 ^ 88 * r2)"
  unfolding POLY_P_def by (simp add: algebra_simps)

lemma poly_block_step:
  assumes T: "T = unat t0 + 2 ^ 64 * unat t1" and hb: "hibit = 0 \<or> hibit = POLY_HIBIT" and h: "limbs_acc h" and r: "limbs_key r"
  shows "limbs_acc (poly_carry (poly_mul r (poly_add h t0 t1 hibit)))"
    and "limbs (poly_carry (poly_mul r (poly_add h t0 t1 hibit))) mod POLY_P = ((limbs h + T + 2 ^ 88 * unat hibit) * limbs r) mod POLY_P"
proof -
  obtain a0 a1 a2 where a: "poly_add h t0 t1 hibit = (a0, a1, a2)" by (cases "poly_add h t0 t1 hibit")
  note add = poly_add_limbs [OF T hb h a]
  obtain r0 r1 r2 where rr: "r = (r0, r1, r2)" by (cases r)
  obtain d0 d1 d2 where d: "poly_mul (r0, r1, r2) (a0, a1, a2) = (d0, d1, d2)" by (cases "poly_mul (r0, r1, r2) (a0, a1, a2)")
  have ab: "unat a0 < 2 ^ 45" "unat a1 < 2 ^ 46" "unat a2 < 2 ^ 43" using add(2) by auto
  note mul = poly_mul_nat [OF r [unfolded rr] ab d]
  have db: "unat d0 < 2 ^ 93" "unat d1 < 2 ^ 91" "unat d2 < 2 ^ 91" using mul(4) by auto
  note car = poly_carry_nat [OF db]
  show "limbs_acc (poly_carry (poly_mul r (poly_add h t0 t1 hibit)))" unfolding a rr d by (rule car(1))
  obtain q where q: "limbs (poly_carry (d0, d1, d2)) + POLY_P * q = unat d0 + 2 ^ 44 * unat d1 + 2 ^ 88 * unat d2" using car(2) by blast
  define X where "X = 4 * (unat a1 * unat r2 + unat a2 * unat r1 + 2 ^ 44 * (unat a2 * unat r2))"
  have "limbs (a0, a1, a2) * limbs r = unat d0 + 2 ^ 44 * unat d1 + 2 ^ 88 * unat d2 + POLY_P * X"
    unfolding rr limbs.simps mul(1-3) X_def by (rule fold_product [symmetric])
  also have "\<dots> = limbs (poly_carry (d0, d1, d2)) + POLY_P * (q + X)" unfolding q [symmetric] by (simp only: distrib_left add.assoc)
  finally have "(limbs (a0, a1, a2) * limbs r) mod POLY_P = limbs (poly_carry (d0, d1, d2)) mod POLY_P" by (simp only: mod_mult_self2)
  then show "limbs (poly_carry (poly_mul r (poly_add h t0 t1 hibit))) mod POLY_P = ((limbs h + T + 2 ^ 88 * unat hibit) * limbs r) mod POLY_P"
    unfolding add(1) [symmetric] a [symmetric] unfolding a rr d by simp
qed

end
