(* ===== verification/Poly_Tag.thy ===== *)
theory Poly_Tag
  imports Poly_Block
begin

text \<open>
  The end of \<^verbatim>\<open>proven_crypto_poly1305_final\<close>: the carries that bring every limb into its width, the
  reduced value picked with a mask, and the sum with the pad written out as 16 bytes.
\<close>

lemma div_le_1: "(x :: nat) < 2 * 2 ^ k \<Longrightarrow> x div 2 ^ k \<le> 1"
proof -
  assume "x < 2 * 2 ^ k"
  then have "x div 2 ^ k < 2" by (intro less_mult_imp_div_less) simp
  then show ?thesis by simp
qed

lemma add_small: "unat (a :: u64) + unat b < 2 ^ 64 \<Longrightarrow> unat (a + b) = unat a + unat b"
  by (rule unat_add_small) simp

lemma unat_times5: "unat (c :: u64) \<le> 1 \<Longrightarrow> unat (c * 5) = 5 * unat c"
  using unat_mult_small [of c 5] by simp

lemma poly_freeze_nat:
  assumes h: "limbs_acc h"
  shows "limbs_reduced (poly_freeze h)" and "\<exists>q. limbs (poly_freeze h) + POLY_P * q = limbs h"
proof -
  obtain h0 h1 h2 where hh: "h = (h0, h1, h2)" by (cases h)
  have hb: "unat h0 < 2 ^ 44" "unat h1 < 2 ^ 44 + 2 ^ 10" "unat h2 < 2 ^ 42" using h unfolding hh by auto
  define c1 where "c1 = drop_bit 44 h1"
  define a1 where "a1 = h1 AND M44"
  define a2 where "a2 = h2 + c1"
  define c2 where "c2 = drop_bit 42 a2"
  define b2 where "b2 = a2 AND M42"
  define b0 where "b0 = h0 + c2 * 5"
  define c3 where "c3 = drop_bit 44 b0"
  define d0 where "d0 = b0 AND M44"
  define d1 where "d1 = a1 + c3"
  define c4 where "c4 = drop_bit 44 d1"
  define e1 where "e1 = d1 AND M44"
  define e2 where "e2 = b2 + c4"
  define c5 where "c5 = drop_bit 42 e2"
  define f2 where "f2 = e2 AND M42"
  define f0 where "f0 = d0 + c5 * 5"
  define c6 where "c6 = drop_bit 44 f0"
  define g0 where "g0 = f0 AND M44"
  define g1 where "g1 = e1 + c6"
  have pf: "poly_freeze h = (g0, g1, f2)"
    unfolding hh poly_freeze_def Let_def case_prod_conv g1_def g0_def c6_def f0_def f2_def c5_def e2_def e1_def c4_def d1_def d0_def
      c3_def b0_def b2_def c2_def a2_def a1_def c1_def ..
  note split44 = mod_mult_div_eq [of _ "2 ^ 44"] and split42 = mod_mult_div_eq [of _ "2 ^ 42"]
  have c1: "unat c1 \<le> 1" unfolding c1_def unat_drop using hb by (intro div_le_1) simp
  have a1: "unat a1 < 2 ^ 44" unfolding a1_def unat_M44 by simp
  have h1: "unat a1 + 2 ^ 44 * unat c1 = unat h1" unfolding a1_def c1_def unat_M44 unat_drop by (rule split44)
  have a2: "unat a2 = unat h2 + unat c1" unfolding a2_def using hb c1 by (intro add_small) simp
  have c2: "unat c2 \<le> 1" unfolding c2_def unat_drop a2 using hb c1 by (intro div_le_1) simp
  have b2: "unat b2 < 2 ^ 42" unfolding b2_def unat_M42 by simp
  have s2: "unat b2 + 2 ^ 42 * unat c2 = unat a2" unfolding b2_def c2_def unat_M42 unat_drop by (rule split42)
  have b0: "unat b0 = unat h0 + 5 * unat c2"
    unfolding b0_def unat_times5 [OF c2, symmetric] using hb c2 by (intro add_small) (simp add: unat_times5)
  have c3: "unat c3 \<le> 1" unfolding c3_def unat_drop b0 using hb c2 by (intro div_le_1) simp
  have d0: "unat d0 < 2 ^ 44" unfolding d0_def unat_M44 by simp
  have s3: "unat d0 + 2 ^ 44 * unat c3 = unat b0" unfolding d0_def c3_def unat_M44 unat_drop by (rule split44)
  have d1: "unat d1 = unat a1 + unat c3" unfolding d1_def using a1 c3 by (intro add_small) simp
  have c4: "unat c4 \<le> 1" unfolding c4_def unat_drop d1 using a1 c3 by (intro div_le_1) simp
  have e1: "unat e1 < 2 ^ 44" unfolding e1_def unat_M44 by simp
  have s4: "unat e1 + 2 ^ 44 * unat c4 = unat d1" unfolding e1_def c4_def unat_M44 unat_drop by (rule split44)
  have e2: "unat e2 = unat b2 + unat c4" unfolding e2_def using b2 c4 by (intro add_small) simp
  have c5: "unat c5 \<le> 1" unfolding c5_def unat_drop e2 using b2 c4 by (intro div_le_1) simp
  have f2: "unat f2 < 2 ^ 42" unfolding f2_def unat_M42 by simp
  have s5: "unat f2 + 2 ^ 42 * unat c5 = unat e2" unfolding f2_def c5_def unat_M42 unat_drop by (rule split42)
  have f0: "unat f0 = unat d0 + 5 * unat c5"
    unfolding f0_def unat_times5 [OF c5, symmetric] using d0 c5 by (intro add_small) (simp add: unat_times5)
  have c6: "unat c6 \<le> 1" unfolding c6_def unat_drop f0 using d0 c5 by (intro div_le_1) simp
  have g0: "unat g0 < 2 ^ 44" unfolding g0_def unat_M44 by simp
  have s6: "unat g0 + 2 ^ 44 * unat c6 = unat f0" unfolding g0_def c6_def unat_M44 unat_drop by (rule split44)
  have g1: "unat g1 = unat e1 + unat c6" unfolding g1_def using e1 c6 by (intro add_small) simp
  \<comment> \<open>the last carry into the middle limb can only happen after that limb ran over to zero\<close>
  have g1b: "unat g1 < 2 ^ 44"
  proof (cases "unat c6 = 0")
    case True
    then show ?thesis using g1 e1 by simp
  next
    case False
    then have "unat c6 = 1" using c6 by linarith
    then have "unat c5 \<noteq> 0" using s6 f0 d0 by (intro notI) simp
    then have "unat c5 = 1" using c5 by linarith
    then have "unat c4 \<noteq> 0" using s5 e2 b2 by (intro notI) simp
    then have "unat c4 = 1" using c4 by linarith
    then have "unat e1 = 0" using s4 d1 a1 c3 by simp
    then show ?thesis using g1 c6 by simp
  qed
  show "limbs_reduced (poly_freeze h)" unfolding pf using g0 g1b f2 by simp
  have "limbs (poly_freeze h) + POLY_P * (unat c2 + unat c5) = limbs h"
    unfolding pf POLY_P_def unfolding hh limbs.simps using h1 a2 s2 b0 s3 d1 s4 e2 s5 f0 s6 g1 by simp
  then show "\<exists>q. limbs (poly_freeze h) + POLY_P * q = limbs h" by blast
qed

text \<open>The choice without a branch: the value less \<open>2^130 - 5\<close> where that does not borrow.\<close>

lemma poly_select_nat:
  assumes h: "limbs_reduced h"
  shows "limbs_reduced (poly_select h)" and "limbs (poly_select h) = limbs h mod POLY_P"
proof -
  obtain h0 h1 h2 where hh: "h = (h0, h1, h2)" by (cases h)
  have hb: "unat h0 < 2 ^ 44" "unat h1 < 2 ^ 44" "unat h2 < 2 ^ 42" using h unfolding hh by auto
  define k0 where "k0 = h0 + 5"
  define c0 where "c0 = drop_bit 44 k0"
  define g0 where "g0 = k0 AND M44"
  define k1 where "k1 = h1 + c0"
  define c1 where "c1 = drop_bit 44 k1"
  define g1 where "g1 = k1 AND M44"
  define k2 where "k2 = h2 + c1"
  define g2 where "g2 = k2 - push_bit 42 1"
  define msk where "msk = drop_bit 63 g2 - 1"
  have ps: "poly_select h = ((h0 AND NOT msk) OR (g0 AND msk), (h1 AND NOT msk) OR (g1 AND msk), (h2 AND NOT msk) OR (g2 AND msk))"
    unfolding hh poly_select_def Let_def case_prod_conv msk_def g2_def k2_def g1_def c1_def k1_def g0_def c0_def k0_def ..
  have k0: "unat k0 = unat h0 + 5" unfolding k0_def using add_small [of h0 5] hb by simp
  have c0: "unat c0 \<le> 1" unfolding c0_def unat_drop k0 using hb by (intro div_le_1) simp
  have s0: "unat g0 + 2 ^ 44 * unat c0 = unat k0" unfolding g0_def c0_def unat_M44 unat_drop by (rule mod_mult_div_eq)
  have k1: "unat k1 = unat h1 + unat c0" unfolding k1_def using hb c0 by (intro add_small) simp
  have c1: "unat c1 \<le> 1" unfolding c1_def unat_drop k1 using hb c0 by (intro div_le_1) simp
  have s1: "unat g1 + 2 ^ 44 * unat c1 = unat k1" unfolding g1_def c1_def unat_M44 unat_drop by (rule mod_mult_div_eq)
  have k2: "unat k2 = unat h2 + unat c1" unfolding k2_def using hb c1 by (intro add_small) simp
  have gb: "unat g0 < 2 ^ 44" "unat g1 < 2 ^ 44" unfolding g0_def g1_def unat_M44 by simp_all
  have v: "limbs h + 5 = unat g0 + 2 ^ 44 * unat g1 + 2 ^ 88 * unat k2"
    unfolding hh limbs.simps using k0 s0 k1 s1 k2 by simp
  have p: "unat (push_bit 42 1 :: u64) = 2 ^ 42" by (simp add: unat_push)
  show "limbs_reduced (poly_select h)" and "limbs (poly_select h) = limbs h mod POLY_P"
  proof (atomize (full), cases "unat k2 = 2 ^ 42")
    case True
    have "k2 = push_bit 42 1" by (rule word_unat_eq_iff [THEN iffD2]) (simp only: True p)
    then have g2: "g2 = 0" unfolding g2_def by simp
    then have m: "msk = - 1" unfolding msk_def by simp
    have s: "poly_select h = (g0, g1, 0)" unfolding ps m g2 by simp
    have e: "limbs h = (unat g0 + 2 ^ 44 * unat g1) + POLY_P" using v True unfolding POLY_P_def by simp
    have "unat g0 + 2 ^ 44 * unat g1 < POLY_P" using gb unfolding POLY_P_def by simp
    then have "limbs h mod POLY_P = unat g0 + 2 ^ 44 * unat g1" unfolding e by simp
    then show "limbs_reduced (poly_select h) \<and> limbs (poly_select h) = limbs h mod POLY_P" unfolding s using gb by simp
  next
    case False
    then have lt: "unat k2 < 2 ^ 42" using k2 hb c1 by simp
    have "unat g2 + 2 ^ 42 = unat k2 + 2 ^ 64" 
    proof -
      have "k2 < push_bit 42 1" unfolding word_less_nat_alt p using lt .
      then have "unat g2 = 2 ^ 64 + unat k2 - unat (push_bit 42 1 :: u64)"
        unfolding g2_def by (simp add: unat_sub_if_size word_size word_less_nat_alt not_le)
      then show ?thesis unfolding p by simp
    qed
    then have "unat g2 div 2 ^ 63 = 1" using unat_u64 [of g2] by (intro div_nat_eqI) simp_all
    then have "unat (drop_bit 63 g2) = unat (1 :: u64)" unfolding unat_drop by simp
    then have "drop_bit 63 g2 = 1" by (rule word_unat_eq_iff [THEN iffD2])
    then have m: "msk = 0" unfolding msk_def by simp
    have s: "poly_select h = h" using ps unfolding m hh by simp
    have "limbs h < POLY_P" using v gb lt unfolding POLY_P_def by simp
    then show "limbs_reduced (poly_select h) \<and> limbs (poly_select h) = limbs h mod POLY_P" unfolding s using h by simp
  qed
qed

lemma poly_reduce:
  assumes "limbs_acc h"
  shows "limbs_reduced (poly_select (poly_freeze h))" and "limbs (poly_select (poly_freeze h)) = limbs h mod POLY_P"
proof -
  note f = poly_freeze_nat [OF assms]
  note s = poly_select_nat [OF f(1)]
  show "limbs_reduced (poly_select (poly_freeze h))" by (rule s(1))
  obtain q where "limbs (poly_freeze h) + POLY_P * q = limbs h" using f(2) by blast
  then have "limbs h mod POLY_P = limbs (poly_freeze h) mod POLY_P" by (metis mod_mult_self2)
  then show "limbs (poly_select (poly_freeze h)) = limbs h mod POLY_P" unfolding s(2) by simp
qed

text \<open>The pad added and the limbs written as two words, modulo \<open>2^128\<close>.\<close>

lemma unat_or_wrap:
  assumes "unat (a :: u64) < 2 ^ k" "k \<le> 64"
  shows "unat (a OR push_bit k b) = unat a + 2 ^ k * (unat b mod 2 ^ (64 - k))"
proof -
  have "unat (push_bit k b) = 2 ^ k * (unat b mod 2 ^ (64 - k))"
    using mult_mod_right [of "2 ^ k" "unat b" "2 ^ (64 - k)"] assms(2) by (simp add: unat_push power_add [symmetric])
  then show ?thesis using nat_or_high [OF assms(1), of "unat b mod 2 ^ (64 - k)"] by (simp add: unsigned_or_eq or.commute)
qed

lemma poly_tag_nat:
  assumes h: "limbs_reduced h" and S: "S = unat t0 + 2 ^ 64 * unat t1"
  shows "poly_tag h (t0, t1) = le_bytes 16 (limbs h + S)"
proof -
  obtain h0 h1 h2 where hh: "h = (h0, h1, h2)" by (cases h)
  have hb: "unat h0 < 2 ^ 44" "unat h1 < 2 ^ 44" "unat h2 < 2 ^ 42" using h unfolding hh by auto
  define p0 where "p0 = t0 AND M44"
  define p1 where "p1 = (drop_bit 44 t0 OR push_bit 20 t1) AND M44"
  define p2 where "p2 = drop_bit 24 t1 AND M42"
  define k0 where "k0 = h0 + p0"
  define c0 where "c0 = drop_bit 44 k0"
  define x0 where "x0 = k0 AND M44"
  define m1 where "m1 = p1 + c0"
  define k1 where "k1 = h1 + m1"
  define c1 where "c1 = drop_bit 44 k1"
  define x1 where "x1 = k1 AND M44"
  define m2 where "m2 = p2 + c1"
  define k2 where "k2 = h2 + m2"
  define x2 where "x2 = k2 AND M42"
  define w0 where "w0 = x0 OR push_bit 44 x1"
  define w1 where "w1 = drop_bit 20 x1 OR push_bit 24 x2"
  have pt: "poly_tag h (t0, t1) = cc_store64 w0 @ cc_store64 w1"
    unfolding hh poly_tag_def Let_def case_prod_conv w1_def w0_def x2_def k2_def m2_def x1_def c1_def k1_def m1_def x0_def c0_def k0_def
      p2_def p1_def p0_def ..
  have pb: "unat p0 < 2 ^ 44" "unat p1 < 2 ^ 44" "unat p2 < 2 ^ 42" unfolding p0_def p1_def p2_def unat_M44 unat_M42 by simp_all
  have ps: "unat p0 + 2 ^ 44 * unat p1 + 2 ^ 88 * unat p2 = S"
    unfolding p0_def p1_def p2_def split_limbs [OF S] by (rule join_limbs)
  have k0: "unat k0 = unat h0 + unat p0" unfolding k0_def using hb pb by (intro add_small) simp
  have c0: "unat c0 \<le> 1" unfolding c0_def unat_drop k0 using hb pb by (intro div_le_1) simp
  have s0: "unat x0 + 2 ^ 44 * unat c0 = unat k0" unfolding x0_def c0_def unat_M44 unat_drop by (rule mod_mult_div_eq)
  have m1: "unat m1 = unat p1 + unat c0" unfolding m1_def using pb c0 by (intro add_small) simp
  have k1: "unat k1 = unat h1 + unat m1" unfolding k1_def using hb pb c0 m1 by (intro add_small) simp
  have c1: "unat c1 \<le> 1" unfolding c1_def unat_drop k1 m1 using hb pb c0 by (intro div_le_1) simp
  have s1: "unat x1 + 2 ^ 44 * unat c1 = unat k1" unfolding x1_def c1_def unat_M44 unat_drop by (rule mod_mult_div_eq)
  have m2: "unat m2 = unat p2 + unat c1" unfolding m2_def using pb c1 by (intro add_small) simp
  have k2: "unat k2 = unat h2 + unat m2" unfolding k2_def using hb pb c1 m2 by (intro add_small) simp
  have s2: "unat x2 + 2 ^ 42 * (unat k2 div 2 ^ 42) = unat k2" unfolding x2_def unat_M42 by (rule mod_mult_div_eq)
  have xb: "unat x0 < 2 ^ 44" "unat x1 < 2 ^ 44" "unat x2 < 2 ^ 42" unfolding x0_def x1_def x2_def unat_M44 unat_M42 by simp_all
  have w0: "unat w0 = unat x0 + 2 ^ 44 * (unat x1 mod 2 ^ 20)"
    using unat_or_wrap [OF xb(1), of x1] unfolding w0_def by simp
  have d: "unat x1 div 2 ^ 20 < 2 ^ 24" using xb by (intro less_mult_imp_div_less) simp
  have w1: "unat w1 = unat x1 div 2 ^ 20 + 2 ^ 24 * (unat x2 mod 2 ^ 40)"
    using unat_or_wrap [of "drop_bit 20 x1" 24 x2] d unfolding w1_def unat_drop by simp
  have e1: "unat x1 mod 2 ^ 20 + 2 ^ 20 * (unat x1 div 2 ^ 20) = unat x1" by (rule mod_mult_div_eq)
  have e2: "unat x2 mod 2 ^ 40 + 2 ^ 40 * (unat x2 div 2 ^ 40) = unat x2" by (rule mod_mult_div_eq)
  define y1 where "y1 = unat x1 mod 2 ^ 20"
  define z1 where "z1 = unat x1 div 2 ^ 20"
  define y2 where "y2 = unat x2 mod 2 ^ 40"
  define z2 where "z2 = unat x2 div 2 ^ 40"
  define z3 where "z3 = unat k2 div 2 ^ 42"
  define q where "q = z2 + 4 * z3"
  have sum: "limbs h + S = unat w0 + 2 ^ 64 * (unat w1 + 2 ^ 64 * q)"
    using k0 s0 m1 k1 s1 m2 k2 s2 [folded z3_def] e1 [folded y1_def z1_def] e2 [folded y2_def z2_def]
    unfolding hh limbs.simps q_def ps [symmetric] w0 [folded y1_def] w1 [folded z1_def y2_def] by simp
  have "le_bytes 16 (limbs h + S) = le_bytes 8 (unat w0) @ le_bytes 8 (unat w1 + 2 ^ 64 * q)"
    unfolding sum using le_bytes_words [OF unat_u64 [of w0], of 8 "unat w1 + 2 ^ 64 * q"] by (simp only: numeral_plus_numeral semiring_norm)
  also have "le_bytes 8 (unat w1 + 2 ^ 64 * q) = le_bytes 8 (unat w1)"
    using le_bytes_words [OF unat_u64 [of w1], of 0 q] by simp
  finally show ?thesis unfolding pt store64_bytes by simp
qed

end
