(* ===== verification/Poly1305.thy ===== *)
theory Poly1305
  imports Poly_Tag
begin

text \<open>
  The Poly1305 of \<^verbatim>\<open>crypto_chacha.c\<close> against RFC 8439: the clamped key, the accumulator after any sequence
  of updates, and the tag.
\<close>

section \<open>The authenticator of RFC 8439\<close>

definition RFC_CLAMP :: nat where "RFC_CLAMP = 0x0ffffffc0ffffffc0ffffffc0fffffff"

function rfc_acc :: "nat \<Rightarrow> nat \<Rightarrow> byte list \<Rightarrow> nat" where
  "rfc_acc r a m =
    (if m = [] then a
     else rfc_acc r ((a + le_num (take 16 m) + 256 ^ length (take 16 m)) * r mod (2 ^ 130 - 5)) (drop 16 m))"
  by pat_completeness auto
termination by (relation "measure (\<lambda>(r, a, m). length m)") auto

declare rfc_acc.simps [simp del]

definition rfc_r :: "byte list \<Rightarrow> nat" where "rfc_r key = le_num (take 16 key) AND RFC_CLAMP"

definition rfc_poly1305 :: "byte list \<Rightarrow> byte list \<Rightarrow> byte list" where
  "rfc_poly1305 key m = le_bytes 16 (rfc_acc (rfc_r key) 0 m + le_num (take 16 (drop 16 key)))"

lemma rfc_acc_Nil [simp]: "rfc_acc r a [] = a"
  by (subst rfc_acc.simps) simp

lemma rfc_acc_block: "length b = 16 \<Longrightarrow> rfc_acc r a (b @ m) = rfc_acc r ((a + le_num b + 2 ^ 128) * r mod POLY_P) m"
  by (subst rfc_acc.simps) (auto simp: POLY_P_def)

lemma rfc_acc_last:
  "b \<noteq> [] \<Longrightarrow> length b < 16 \<Longrightarrow> rfc_acc r a b = (a + le_num b + 256 ^ length b) * r mod POLY_P"
  by (subst rfc_acc.simps) (simp add: POLY_P_def)

lemma rfc_acc_append: "16 dvd length w \<Longrightarrow> rfc_acc r a (w @ m) = rfc_acc r (rfc_acc r a w) m"
proof (induction "length w" arbitrary: a w rule: less_induct)
  case less
  show ?case
  proof (cases "w = []")
    case False
    then have "16 \<le> length w" using less.prems by (intro dvd_imp_le) auto
    then have s: "w = take 16 w @ drop 16 w" and l: "length (take 16 w) = 16" by simp_all
    have d: "16 dvd length (drop 16 w)" using less.prems by simp
    have "rfc_acc r a (w @ m) = rfc_acc r a (take 16 w @ (drop 16 w @ m))" by (metis s append.assoc)
    also have "\<dots> = rfc_acc r ((a + le_num (take 16 w) + 2 ^ 128) * r mod POLY_P) (drop 16 w @ m)" by (rule rfc_acc_block [OF l])
    also have "\<dots> = rfc_acc r (rfc_acc r ((a + le_num (take 16 w) + 2 ^ 128) * r mod POLY_P) (drop 16 w)) m"
      by (rule less.hyps) (use False d in auto)
    also have "rfc_acc r ((a + le_num (take 16 w) + 2 ^ 128) * r mod POLY_P) (drop 16 w) = rfc_acc r a w"
      by (metis s rfc_acc_block [OF l])
    finally show ?thesis .
  qed simp
qed

lemma le_num_block: "16 \<le> length m \<Longrightarrow> le_num (take 16 m) = unat (cc_load64 m 0) + 2 ^ 64 * unat (cc_load64 m 8)"
proof -
  assume l: "16 \<le> length m"
  have "take 16 m = take 8 m @ take 8 (drop 8 m)" using take_add [of 8 8 m] by simp
  then show ?thesis using l by (simp add: unat_load64 le_num_append)
qed

section \<open>The key\<close>

lemma and_take_cong: "x mod 2 ^ k = y mod 2 ^ k \<Longrightarrow> x AND take_bit k c = y AND take_bit k (c :: nat)"
proof -
  assume "x mod 2 ^ k = y mod 2 ^ k"
  then have "take_bit k x = take_bit k y" by (simp only: take_bit_eq_mod)
  then have "\<And>n. n < k \<Longrightarrow> bit x n = bit y n" by (metis bit_take_bit_iff)
  then show ?thesis by (intro bit_eqI) (auto simp: bit_simps)
qed

lemma clamp_low: "(T AND RFC_CLAMP) mod 2 ^ 44 = T AND 0xffc0fffffff"
proof -
  have "(T AND RFC_CLAMP) mod 2 ^ 44 = take_bit 44 T AND take_bit 44 RFC_CLAMP" by (simp only: take_bit_eq_mod [symmetric] take_bit_and)
  also have "\<dots> = T AND take_bit 44 RFC_CLAMP" by (rule and_take_cong) (simp add: take_bit_eq_mod)
  also have "take_bit 44 RFC_CLAMP = 0xffc0fffffff" by (simp add: take_bit_eq_mod RFC_CLAMP_def)
  finally show ?thesis .
qed

lemma clamp_middle: "(T AND RFC_CLAMP) div 2 ^ 44 mod 2 ^ 44 = (T div 2 ^ 44) AND 0xfffffc0ffff"
proof -
  have "(T AND RFC_CLAMP) div 2 ^ 44 mod 2 ^ 44 = take_bit 44 (drop_bit 44 T) AND take_bit 44 (drop_bit 44 RFC_CLAMP)"
    by (simp only: take_bit_eq_mod [symmetric] drop_bit_eq_div [symmetric] take_bit_and drop_bit_and)
  also have "\<dots> = drop_bit 44 T AND take_bit 44 (drop_bit 44 RFC_CLAMP)" by (rule and_take_cong) (simp add: take_bit_eq_mod)
  also have "take_bit 44 (drop_bit 44 RFC_CLAMP) = 0xfffffc0ffff" by (simp add: take_bit_eq_mod drop_bit_eq_div RFC_CLAMP_def)
  finally show ?thesis by (simp only: drop_bit_eq_div)
qed

lemma clamp_high: "(T AND RFC_CLAMP) div 2 ^ 88 = (T div 2 ^ 88) AND 0x00ffffffc0f"
proof -
  have "(T AND RFC_CLAMP) div 2 ^ 88 = drop_bit 88 T AND drop_bit 88 RFC_CLAMP"
    by (simp only: drop_bit_eq_div [symmetric] drop_bit_and)
  also have "drop_bit 88 RFC_CLAMP = 0x00ffffffc0f" by (simp add: drop_bit_eq_div RFC_CLAMP_def)
  finally show ?thesis by (simp only: drop_bit_eq_div)
qed

lemma and_le_right: "x AND y \<le> (y :: nat)"
  by (metis and.commute and_nat_def linorder_le_cases of_nat_and_eq of_nat_le_iff AND_upper1 of_nat_0_le_iff)

lemma poly_init_key:
  assumes l: "32 \<le> length key"
  shows "limbs (poly_r (proven_crypto_poly1305_init key)) = rfc_r key" and "limbs_key (poly_r (proven_crypto_poly1305_init key))"
proof -
  define t0 where "t0 = cc_load64 key 0"
  define t1 where "t1 = cc_load64 key 8"
  define T where "T = unat t0 + 2 ^ 64 * unat t1"
  have T: "T = le_num (take 16 key)" using le_num_block [of key] l unfolding T_def t0_def t1_def by simp
  define mid where "mid = drop_bit 44 t0 OR push_bit 20 t1"
  have pr: "poly_r (proven_crypto_poly1305_init key) = (t0 AND 0xffc0fffffff, mid AND 0xfffffc0ffff, drop_bit 24 t1 AND 0x00ffffffc0f)"
    unfolding proven_crypto_poly1305_init_def Let_def mid_def t0_def t1_def by simp
  note s = split_limbs [OF T_def]
  have t0: "unat t0 mod 2 ^ 44 = T mod 2 ^ 44" using s(1) unfolding unat_M44 .
  have m: "unat mid mod 2 ^ 44 = T div 2 ^ 44 mod 2 ^ 44" using s(2) unfolding unat_M44 mid_def .
  have h: "unat (drop_bit 24 t1) = T div 2 ^ 88"
  proof -
    have "unat t1 div 2 ^ 24 < 2 ^ 42" using unat_u64 [of t1] by (intro less_mult_imp_div_less) simp
    then show ?thesis using s(3) unfolding unat_M42 unat_drop by simp
  qed
  have r0: "unat (t0 AND 0xffc0fffffff) = (T AND RFC_CLAMP) mod 2 ^ 44"
  proof -
    have "unat t0 AND take_bit 44 0xffc0fffffff = T AND take_bit 44 0xffc0fffffff" by (rule and_take_cong [OF t0])
    then show ?thesis unfolding clamp_low unsigned_and_eq by (simp add: take_bit_eq_mod)
  qed
  have r1: "unat (mid AND 0xfffffc0ffff) = (T AND RFC_CLAMP) div 2 ^ 44 mod 2 ^ 44"
  proof -
    have "unat mid AND take_bit 44 0xfffffc0ffff = (T div 2 ^ 44) AND take_bit 44 0xfffffc0ffff" by (rule and_take_cong [OF m])
    then show ?thesis unfolding clamp_middle unsigned_and_eq by (simp add: take_bit_eq_mod)
  qed
  have r2: "unat (drop_bit 24 t1 AND 0x00ffffffc0f) = (T AND RFC_CLAMP) div 2 ^ 88"
    unfolding clamp_high unsigned_and_eq h by simp
  show "limbs (poly_r (proven_crypto_poly1305_init key)) = rfc_r key"
    unfolding pr limbs.simps r0 r1 r2 rfc_r_def T [symmetric] by (rule join_limbs)
  have "(T div 2 ^ 88) AND 0x00ffffffc0f \<le> (0x00ffffffc0f :: nat)" by (rule and_le_right)
  then show "limbs_key (poly_r (proven_crypto_poly1305_init key))"
    unfolding pr limbs_key.simps r0 r1 r2 clamp_high by simp
qed

section \<open>Blocks\<close>

lemma horner_mod: "(x mod p + y) * z mod p = (x + y) * z mod (p :: nat)"
  by (metis mod_add_left_eq mod_mult_left_eq)

lemma poly_loop_step:
  assumes h: "limbs_acc h" and r: "limbs_key r" and l: "16 \<le> length m"
  shows "limbs_acc (poly_carry (poly_mul r (poly_add h (cc_load64 m 0) (cc_load64 m 8) POLY_HIBIT)))"
    and "limbs (poly_carry (poly_mul r (poly_add h (cc_load64 m 0) (cc_load64 m 8) POLY_HIBIT))) mod POLY_P =
      (limbs h mod POLY_P + le_num (take 16 m) + 2 ^ 128) * limbs r mod POLY_P"
proof -
  note st = poly_block_step [OF le_num_block [OF l], of POLY_HIBIT, OF disjI2 [OF refl] h r]
  have "unat POLY_HIBIT = 2 ^ 40" by (simp add: POLY_HIBIT_def unat_push)
  then have e: "2 ^ 88 * unat POLY_HIBIT = 2 ^ 128" by simp
  show "limbs_acc (poly_carry (poly_mul r (poly_add h (cc_load64 m 0) (cc_load64 m 8) POLY_HIBIT)))" by (rule st(1))
  show "limbs (poly_carry (poly_mul r (poly_add h (cc_load64 m 0) (cc_load64 m 8) POLY_HIBIT))) mod POLY_P =
      (limbs h mod POLY_P + le_num (take 16 m) + 2 ^ 128) * limbs r mod POLY_P"
    unfolding st(2) e using horner_mod [of "limbs h" POLY_P "le_num (take 16 m) + 2 ^ 128" "limbs r"] by (simp only: add.assoc)
qed

lemma poly_loop_acc:
  assumes "limbs_acc h" "limbs_key r" "16 * n \<le> length m"
  shows "limbs_acc (poly_loop r h m n POLY_HIBIT) \<and>
    limbs (poly_loop r h m n POLY_HIBIT) mod POLY_P = rfc_acc (limbs r) (limbs h mod POLY_P) (take (16 * n) m)"
  using assms
proof (induction n arbitrary: h m)
  case (Suc n)
  define h' where "h' = poly_carry (poly_mul r (poly_add h (cc_load64 m 0) (cc_load64 m 8) POLY_HIBIT))"
  have l: "16 \<le> length m" and l': "16 * n \<le> length (drop 16 m)" using Suc.prems by simp_all
  note st = poly_loop_step [OF Suc.prems(1,2) l, folded h'_def]
  note ih = Suc.IH [OF st(1) Suc.prems(2) l']
  have t: "take (16 * Suc n) m = take 16 m @ take (16 * n) (drop 16 m)" using take_add [of 16 "16 * n" m] by simp
  have "length (take 16 m) = 16" using l by simp
  from rfc_acc_block [OF this]
  have "rfc_acc (limbs r) (limbs h mod POLY_P) (take (16 * Suc n) m) = rfc_acc (limbs r) (limbs h' mod POLY_P) (take (16 * n) (drop 16 m))"
    unfolding t st(2) .
  then show ?case using ih by (simp add: h'_def)
qed simp

section \<open>The state after any updates\<close>

text \<open>The accumulator holds the whole blocks so far, the buffer what is left of the message.\<close>

definition poly_state :: "byte list \<Rightarrow> byte list \<Rightarrow> proven_crypto_poly1305 \<Rightarrow> bool" where
  "poly_state key msg st \<longleftrightarrow>
    limbs (poly_r st) = rfc_r key \<and> limbs_key (poly_r st) \<and> limbs_acc (poly_h st) \<and>
    poly_pad st = (cc_load64 key 16, cc_load64 key 24) \<and> length (poly_buf st) < 16 \<and>
    (\<exists>w. msg = w @ poly_buf st \<and> 16 dvd length w \<and> limbs (poly_h st) mod POLY_P = rfc_acc (rfc_r key) 0 w)"

lemma poly_state_init: "32 \<le> length key \<Longrightarrow> poly_state key [] (proven_crypto_poly1305_init key)"
  using poly_init_key [of key] unfolding poly_state_def by (simp add: proven_crypto_poly1305_init_def Let_def)

lemma poly_fill_eq:
  "length buf \<le> 16 \<Longrightarrow> poly_fill buf m = (buf @ take (16 - length buf) m, drop (16 - length buf) m)"
proof (induction m arbitrary: buf)
  case (Cons c m)
  show ?case
  proof (cases "length buf < 16")
    case True
    then have "16 - length buf = Suc (16 - length (buf @ [c]))" by simp
    then show ?thesis using True Cons.IH [of "buf @ [c]"] by simp
  next
    case False
    then have "16 - length buf = 0" by simp
    then show ?thesis using False by simp
  qed
qed simp

text \<open>Whole blocks taken when the buffer is empty.\<close>

lemma poly_state_blocks:
  assumes st: "limbs (poly_r st) = rfc_r key" "limbs_key (poly_r st)" "limbs_acc (poly_h st)"
      "poly_pad st = (cc_load64 key 16, cc_load64 key 24)" "16 dvd length w"
      "limbs (poly_h st) mod POLY_P = rfc_acc (rfc_r key) 0 w"
    and n: "16 * n \<le> length m" and rest: "length m - 16 * n < 16"
  shows "poly_state key (w @ m) ((poly_blocks st m n POLY_HIBIT)\<lparr>poly_buf := drop (16 * n) m\<rparr>)"
proof -
  note lp = poly_loop_acc [OF st(3,2) n, THEN conjunct1] poly_loop_acc [OF st(3,2) n, THEN conjunct2]
  have d: "16 dvd length (w @ take (16 * n) m)" using st(5) n by simp
  have "limbs (poly_loop (poly_r st) (poly_h st) m n POLY_HIBIT) mod POLY_P = rfc_acc (rfc_r key) 0 (w @ take (16 * n) m)"
    unfolding lp(2) st(1,6) rfc_acc_append [OF st(5)] ..
  then show ?thesis
    unfolding poly_state_def poly_blocks_def using st(1,2,4) lp(1) d rest
    by (auto intro!: exI [of _ "w @ take (16 * n) m"])
qed

lemma poly_state_rest:
  assumes "poly_state key w st" "poly_buf st = []"
  shows "poly_state key (w @ m) (poly_update_rest st m)"
proof -
  from assms have st: "limbs (poly_r st) = rfc_r key" "limbs_key (poly_r st)" "limbs_acc (poly_h st)"
      "poly_pad st = (cc_load64 key 16, cc_load64 key 24)" "16 dvd length w"
      "limbs (poly_h st) mod POLY_P = rfc_acc (rfc_r key) 0 w"
    unfolding poly_state_def by auto
  define n where "n = length m div 16"
  have n: "16 * n \<le> length m" unfolding n_def by simp
  have r: "length m - 16 * n < 16" unfolding n_def using div_mult_mod_eq [of "length m" 16] by simp
  have "poly_update_rest st m = (poly_blocks st m n POLY_HIBIT)\<lparr>poly_buf := drop (16 * n) m\<rparr>"
    unfolding poly_update_rest_def Let_def n_def [symmetric] using assms(2)
    by (cases "n > 0") (auto simp: poly_blocks_def mult.commute)
  then show ?thesis using poly_state_blocks [OF st n r] by simp
qed

lemma poly_state_update:
  assumes st: "poly_state key msg st"
  shows "poly_state key (msg @ m) (proven_crypto_poly1305_update st m)"
proof (cases "poly_buf st = []")
  case True
  then show ?thesis using poly_state_rest [OF st True] by (simp add: proven_crypto_poly1305_update_def)
next
  case False
  define k where "k = 16 - length (poly_buf st)"
  from st obtain w where w: "msg = w @ poly_buf st" "16 dvd length w" "limbs (poly_h st) mod POLY_P = rfc_acc (rfc_r key) 0 w"
    and b: "length (poly_buf st) < 16" unfolding poly_state_def by auto
  define buf where "buf = poly_buf st @ take k m"
  have f: "poly_fill (poly_buf st) m = (buf, drop k m)" unfolding buf_def k_def using b by (intro poly_fill_eq) simp
  show ?thesis
  proof (cases "length buf < 16")
    case True
    then have "take k m = m" using b unfolding buf_def k_def by simp
    then have "proven_crypto_poly1305_update st m = st\<lparr>poly_buf := poly_buf st @ m\<rparr>"
      unfolding proven_crypto_poly1305_update_def f using True False by (simp add: buf_def)
    then show ?thesis using st w True \<open>take k m = m\<close> unfolding poly_state_def buf_def by auto
  next
    case buf: False
    then have l: "length buf = 16" using b unfolding buf_def k_def by simp
    define st' where "st' = (poly_blocks st buf 1 POLY_HIBIT)\<lparr>poly_buf := []\<rparr>"
    have u: "proven_crypto_poly1305_update st m = poly_update_rest st' (drop k m)"
      unfolding proven_crypto_poly1305_update_def f st'_def using buf False by simp
    have "poly_state key (w @ buf) ((poly_blocks st buf 1 POLY_HIBIT)\<lparr>poly_buf := drop (16 * 1) buf\<rparr>)"
      by (rule poly_state_blocks) (use st w l in \<open>auto simp: poly_state_def\<close>)
    then have s: "poly_state key (w @ buf) st'" unfolding st'_def using l by simp
    have m: "msg @ m = (w @ buf) @ drop k m" unfolding w(1) buf_def by simp
    show ?thesis unfolding u m by (rule poly_state_rest [OF s]) (simp add: st'_def)
  qed
qed

lemma poly_state_updates: "poly_state key msg st \<Longrightarrow> poly_state key (msg @ concat ms) (foldl proven_crypto_poly1305_update st ms)"
  by (induction ms arbitrary: msg st) (auto dest: poly_state_update simp del: append_assoc simp add: append_assoc [symmetric])

section \<open>The tag\<close>

lemma poly_last_block:
  assumes h: "limbs_acc h" and r: "limbs_key r" and b: "b \<noteq> []" "length b < 16"
  defines "buf \<equiv> (b @ [1]) @ replicate (16 - length (b @ [1])) (0 :: byte)"
  shows "limbs_acc (poly_loop r h buf 1 0)"
    and "limbs (poly_loop r h buf 1 0) mod POLY_P = rfc_acc (limbs r) (limbs h mod POLY_P) b"
proof -
  have l: "length buf = 16" unfolding buf_def using b by simp
  have n: "le_num (take 16 buf) = le_num b + 256 ^ length b"
    using l unfolding buf_def by (simp add: le_num_append le_num_zeros)
  have L: "poly_loop r h buf 1 0 = poly_carry (poly_mul r (poly_add h (cc_load64 buf 0) (cc_load64 buf 8) 0))"
    by (simp only: One_nat_def poly_loop.simps)
  note st = poly_block_step [OF le_num_block [of buf], of 0, OF _ disjI1 [OF refl] h r]
  show "limbs_acc (poly_loop r h buf 1 0)" unfolding L by (rule st(1)) (simp add: l)
  have "limbs (poly_loop r h buf 1 0) mod POLY_P = (limbs h + le_num (take 16 buf) + 2 ^ 88 * unat (0 :: u64)) * limbs r mod POLY_P"
    unfolding L by (rule st(2)) (simp add: l)
  also have "\<dots> = (limbs h mod POLY_P + (le_num b + 256 ^ length b)) * limbs r mod POLY_P"
    unfolding n horner_mod by simp
  also have "\<dots> = rfc_acc (limbs r) (limbs h mod POLY_P) b"
    unfolding rfc_acc_last [OF b] by (simp only: add.assoc)
  finally show "limbs (poly_loop r h buf 1 0) mod POLY_P = rfc_acc (limbs r) (limbs h mod POLY_P) b" .
qed

lemma poly_state_final:
  assumes st: "poly_state key msg st" and l: "32 \<le> length key"
  shows "proven_crypto_poly1305_final st = rfc_poly1305 key msg"
proof -
  from st obtain w where s: "limbs (poly_r st) = rfc_r key" "limbs_key (poly_r st)" "limbs_acc (poly_h st)"
      "poly_pad st = (cc_load64 key 16, cc_load64 key 24)" "length (poly_buf st) < 16"
    and w: "msg = w @ poly_buf st" "16 dvd length w" "limbs (poly_h st) mod POLY_P = rfc_acc (rfc_r key) 0 w"
    unfolding poly_state_def by auto
  define h where "h = (if length (poly_buf st) > 0
    then poly_loop (poly_r st) (poly_h st) ((poly_buf st @ [1]) @ replicate (16 - length (poly_buf st @ [1])) 0) 1 0 else poly_h st)"
  have fin: "proven_crypto_poly1305_final st = poly_tag (poly_select (poly_freeze h)) (cc_load64 key 16, cc_load64 key 24)"
    unfolding proven_crypto_poly1305_final_def Let_def h_def poly_blocks_def using s(4) by simp
  have h: "limbs_acc h \<and> limbs h mod POLY_P = rfc_acc (rfc_r key) 0 msg"
  proof (cases "poly_buf st = []")
    case True
    then show ?thesis using s w by (simp add: h_def)
  next
    case False
    note lb = poly_last_block [OF s(3,2) False s(5)]
    have e: "h = poly_loop (poly_r st) (poly_h st) ((poly_buf st @ [1]) @ replicate (16 - length (poly_buf st @ [1])) 0) 1 0"
      unfolding h_def using False by simp
    have "rfc_acc (rfc_r key) 0 msg = rfc_acc (rfc_r key) (rfc_acc (rfc_r key) 0 w) (poly_buf st)"
      unfolding w(1) by (rule rfc_acc_append [OF w(2)])
    then show ?thesis unfolding e using lb s(1) w(3) by simp
  qed
  have pad: "le_num (take 16 (drop 16 key)) = unat (cc_load64 key 16) + 2 ^ 64 * unat (cc_load64 key 24)"
  proof -
    have "take 16 (drop 16 key) = take 8 (drop 16 key) @ take 8 (drop 24 key)" using take_add [of 8 8 "drop 16 key"] by simp
    then show ?thesis using l by (simp add: unat_load64 le_num_append)
  qed
  have red: "limbs_reduced (poly_select (poly_freeze h))" "limbs (poly_select (poly_freeze h)) = rfc_acc (rfc_r key) 0 msg"
    using poly_reduce [of h] h by simp_all
  show ?thesis unfolding fin poly_tag_nat [OF red(1) pad] red(2) rfc_poly1305_def ..
qed

end
