(* ===== verification/Aead.thy ===== *)
theory Aead
  imports Poly1305
begin

text \<open>
  The stream cipher and the authenticated encryption of \<^verbatim>\<open>crypto_chacha.c\<close> against RFC 8439: byte \<open>i\<close> of an
  output is byte \<open>i\<close> of the input XOR byte \<open>i mod 64\<close> of block \<open>counter + i div 64\<close>, the tag is the Poly1305
  of the padded parts and their lengths, and opening returns what was sealed, or nothing.
\<close>

section \<open>The key stream\<close>

definition keystream :: "byte list \<Rightarrow> u32 \<Rightarrow> byte list \<Rightarrow> nat \<Rightarrow> byte" where
  "keystream key counter nonce i = cc_block (cc_setup key (counter + of_nat (i div 64)) nonce) ! (i mod 64)"

definition rfc_chacha20 :: "byte list \<Rightarrow> u32 \<Rightarrow> byte list \<Rightarrow> byte list \<Rightarrow> byte list" where
  "rfc_chacha20 key counter nonce inp = map (\<lambda>i. inp ! i XOR keystream key counter nonce i) [0..<length inp]"

lemma length_cc_store32 [simp]: "length (cc_store32 v) = 4"
  by (simp add: cc_store32_def)

lemma length_cc_block [simp]: "length (cc_block st) = 64"
  by (simp add: cc_block_def Let_def length_concat comp_def sum_list_triv)

lemma cc_setup_counter: "(cc_setup key counter nonce)[12 := c] = cc_setup key c nonce"
  by (simp add: cc_setup_def list_update_append)

lemma cc_setup_nth: "cc_setup key counter nonce ! 12 = counter"
  by (simp add: cc_setup_def nth_append)

lemma keystream_next: "keystream key counter nonce (64 + i) = keystream key (counter + 1) nonce i"
proof -
  have "(64 + i) div 64 = Suc (i div 64)" "(64 + i) mod 64 = i mod 64" by simp_all
  then show ?thesis by (simp add: keystream_def add.assoc)
qed

lemma length_rfc_chacha20 [simp]: "length (rfc_chacha20 key counter nonce inp) = length inp"
  by (simp add: rfc_chacha20_def)

lemma rfc_chacha20_short:
  assumes "length inp \<le> 64"
  shows "rfc_chacha20 key counter nonce inp = map2 (XOR) inp (cc_block (cc_setup key counter nonce))"
  by (rule nth_equalityI) (use assms in \<open>auto simp: rfc_chacha20_def keystream_def\<close>)

lemma rfc_chacha20_append:
  assumes "length a = 64"
  shows "rfc_chacha20 key counter nonce (a @ b) = rfc_chacha20 key counter nonce a @ rfc_chacha20 key (counter + 1) nonce b"
  by (rule nth_equalityI)
     (use assms in \<open>auto simp: rfc_chacha20_def nth_append keystream_next [symmetric]\<close>)

lemma chacha_loop_rfc: "chacha_loop (cc_setup key counter nonce) inp = rfc_chacha20 key counter nonce inp"
proof (induction "length inp" arbitrary: counter inp rule: less_induct)
  case less
  show ?case
  proof (cases "length inp \<le> 64")
    case True
    show ?thesis
    proof (cases "inp = []")
      case False
      then have "chacha_loop (cc_setup key counter nonce) inp = map2 (XOR) inp (cc_block (cc_setup key counter nonce))"
        using True by (subst chacha_loop.simps) (auto simp: Let_def chacha_loop.simps [of _ "[]"])
      then show ?thesis using rfc_chacha20_short [OF True] by simp
    qed (simp add: chacha_loop.simps rfc_chacha20_def)
  next
    case False
    then have l: "length (take 64 inp) = 64" and ne: "inp \<noteq> []" by auto
    have "chacha_loop (cc_setup key counter nonce) inp =
        map2 (XOR) (take 64 inp) (cc_block (cc_setup key counter nonce)) @ chacha_loop (cc_setup key (counter + 1) nonce) (drop 64 inp)"
      using False ne by (subst chacha_loop.simps) (simp add: Let_def cc_setup_nth cc_setup_counter)
    also have "chacha_loop (cc_setup key (counter + 1) nonce) (drop 64 inp) = rfc_chacha20 key (counter + 1) nonce (drop 64 inp)"
      by (rule less) (use False in auto)
    also have "map2 (XOR) (take 64 inp) (cc_block (cc_setup key counter nonce)) = rfc_chacha20 key counter nonce (take 64 inp)"
      using rfc_chacha20_short [of "take 64 inp"] by simp
    finally show ?thesis using rfc_chacha20_append [OF l, of key counter nonce "drop 64 inp"] by simp
  qed
qed

lemma chacha20_rfc: "proven_crypto_chacha20 key counter nonce inp = rfc_chacha20 key counter nonce inp"
  by (simp add: proven_crypto_chacha20_def chacha_loop_rfc)

lemma chacha20_guard:
  "(if length m > 0 then proven_crypto_chacha20 key counter nonce m else []) = rfc_chacha20 key counter nonce m"
  by (cases "m = []") (auto simp: chacha20_rfc rfc_chacha20_def)

lemma rfc_chacha20_twice: "rfc_chacha20 key counter nonce (rfc_chacha20 key counter nonce inp) = inp"
  by (rule nth_equalityI) (auto simp: rfc_chacha20_def xor.assoc)

section \<open>The tag of the AEAD\<close>

definition pad16 :: "byte list \<Rightarrow> byte list" where
  "pad16 m = replicate ((16 - length m mod 16) mod 16) 0"

definition rfc_mac_data :: "byte list \<Rightarrow> byte list \<Rightarrow> byte list" where
  "rfc_mac_data aad cipher =
    aad @ pad16 aad @ cipher @ pad16 cipher @ le_bytes 8 (length aad) @ le_bytes 8 (length cipher)"

definition rfc_tag :: "byte list \<Rightarrow> byte list \<Rightarrow> byte list \<Rightarrow> byte list \<Rightarrow> byte list" where
  "rfc_tag key nonce aad cipher = rfc_poly1305 (cc_block (cc_setup key 0 nonce)) (rfc_mac_data aad cipher)"

lemma le64_bytes_eq: "le64_bytes (of_nat n) = le_bytes 8 n"
proof -
  have "unat (of_nat n :: u64) = n mod 256 ^ 8" by (simp add: unat_of_nat)
  then show ?thesis unfolding le64_bytes_num using le_bytes_mod [of 8 n] by simp
qed

lemma update_padded_state:
  assumes "poly_state key msg st"
  shows "poly_state key (msg @ m @ pad16 m) (update_padded st m)"
proof -
  define st' where "st' = (if length m > 0 then proven_crypto_poly1305_update st m else st)"
  have 1: "poly_state key (msg @ m) st'"
    using assms poly_state_update [OF assms, of m] by (cases "m = []") (auto simp: st'_def)
  have u: "update_padded st m =
      (if length m mod 16 \<noteq> 0 then proven_crypto_poly1305_update st' (replicate (16 - length m mod 16) 0) else st')"
    unfolding update_padded_def st'_def Let_def ..
  show ?thesis
  proof (cases "length m mod 16 = 0")
    case True
    then show ?thesis using 1 unfolding u by (simp add: pad16_def)
  next
    case False
    then have "pad16 m = replicate (16 - length m mod 16) 0" unfolding pad16_def by simp
    then show ?thesis using poly_state_update [OF 1, of "pad16 m"] False unfolding u by simp
  qed
qed

lemma aead_tag_rfc: "cc_aead_tag key nonce aad cipher = rfc_tag key nonce aad cipher"
proof -
  define pk where "pk = proven_crypto_chacha20 key 0 nonce (replicate 64 0)"
  have pk: "pk = cc_block (cc_setup key 0 nonce)"
    unfolding pk_def chacha20_rfc by (subst rfc_chacha20_short) (auto intro!: nth_equalityI)
  have "32 \<le> length pk" unfolding pk by simp
  note s0 = poly_state_init [OF this]
  note s = poly_state_update [OF update_padded_state [OF update_padded_state [OF s0, of aad], of cipher],
      of "le64_bytes (of_nat (length aad)) @ le64_bytes (of_nat (length cipher))"]
  note f = poly_state_final [OF s \<open>32 \<le> length pk\<close>]
  show ?thesis
    unfolding cc_aead_tag_def Let_def pk_def [symmetric] f unfolding rfc_tag_def rfc_mac_data_def pk le64_bytes_eq by simp
qed

section \<open>The properties\<close>

text \<open>
  C20: The Poly1305 of the library is the one of RFC 8439: for a key of 32 bytes and any sequence of updates,
  the tag is the clamped-key polynomial of the whole message modulo \<open>2^130 - 5\<close> plus the second half of the
  key modulo \<open>2^128\<close>. The three-limb arithmetic with its lazy carries never wraps, the buffering of partial
  blocks does not depend on how the message is cut, and the masked final subtraction picks the reduced value.
\<close>

theorem poly1305_rfc8439:
  assumes "32 \<le> length key"
  shows "proven_crypto_poly1305_final (foldl proven_crypto_poly1305_update (proven_crypto_poly1305_init key) ms) =
    rfc_poly1305 key (concat ms)"
  using poly_state_final [OF poly_state_updates [OF poly_state_init [OF assms], of ms] assms] by simp

text \<open>The fifth test vector of RFC 8439, A.3, whose sum runs over \<open>2^130 - 5\<close>, in two updates.\<close>

definition rfc_key :: "byte list" where
  "rfc_key = [2, 0, 0, 0, 0, 0, 0, 0, 0, 0, 0, 0, 0, 0, 0, 0, 0, 0, 0, 0, 0, 0, 0, 0, 0, 0, 0, 0, 0, 0, 0, 0]"

definition rfc_message :: "byte list list" where
  "rfc_message = [[0xff, 0xff, 0xff, 0xff, 0xff, 0xff, 0xff], [0xff, 0xff, 0xff, 0xff, 0xff, 0xff, 0xff, 0xff, 0xff]]"

lemma rfc_vector:
  "proven_crypto_poly1305_final (foldl proven_crypto_poly1305_update (proven_crypto_poly1305_init rfc_key) rfc_message) =
    [3, 0, 0, 0, 0, 0, 0, 0, 0, 0, 0, 0, 0, 0, 0, 0]"
  by code_simp

theorem poly1305_rfc8439_witness:
  "rfc_poly1305 rfc_key (concat rfc_message) =
    [3, 0, 0, 0, 0, 0, 0, 0, 0, 0, 0, 0, 0, 0, 0, 0]"
  using poly1305_rfc8439 [of rfc_key rfc_message] rfc_vector by (simp add: rfc_key_def)


text \<open>
  What was sealed opens: under the same key, nonce and associated data, opening the ciphertext with its tag
  answers true and gives the plaintext back, whatever the key, the nonce and the lengths.
\<close>

theorem aead_open_sealed:
  "case proven_crypto_chacha20poly1305_seal key nonce aad plain of (cipher, tag) \<Rightarrow>
    proven_crypto_chacha20poly1305_open key nonce aad cipher tag = (True, plain)"
  unfolding proven_crypto_chacha20poly1305_seal_def proven_crypto_chacha20poly1305_open_def Let_def chacha20_guard case_prod_conv
  by (simp add: rfc_chacha20_twice)

end
