(* ===== verification/Curve_Field.thy ===== *)
theory Curve_Field
  imports Poly_Block
begin

text \<open>
  The field of Curve25519 (\<^verbatim>\<open>src/proven/crypto_25519.c\<close>) on five limbs of 51 bits, the layout of a build with
  128-bit products. A field element is a tuple of five words. The loops over the limbs are written out. Each
  operation keeps its result carried, never wraps, and stands for its number modulo \<open>2^255 - 19\<close>.
\<close>

type_synonym fe = "u64 \<times> u64 \<times> u64 \<times> u64 \<times> u64"

section \<open>The operations\<close>

definition FE_M51 :: u64 where "FE_M51 = 0x7ffffffffffff"

definition fe_carry :: "fe \<Rightarrow> fe" where
  "fe_carry h =
    (case h of (h0, h1, h2, h3, h4) \<Rightarrow>
      let c = drop_bit 51 h0; h0 = h0 AND FE_M51; h1 = h1 + c;
          c = drop_bit 51 h1; h1 = h1 AND FE_M51; h2 = h2 + c;
          c = drop_bit 51 h2; h2 = h2 AND FE_M51; h3 = h3 + c;
          c = drop_bit 51 h3; h3 = h3 AND FE_M51; h4 = h4 + c;
          c = drop_bit 51 h4; h4 = h4 AND FE_M51; h0 = h0 + 19 * c;
          c = drop_bit 51 h0; h0 = h0 AND FE_M51; h1 = h1 + c in
      (h0, h1, h2, h3, h4))"

definition fe_add :: "fe \<Rightarrow> fe \<Rightarrow> fe" where
  "fe_add f g =
    (case f of (f0, f1, f2, f3, f4) \<Rightarrow> case g of (g0, g1, g2, g3, g4) \<Rightarrow>
      fe_carry (f0 + g0, f1 + g1, f2 + g2, f3 + g3, f4 + g4))"

definition fe_sub :: "fe \<Rightarrow> fe \<Rightarrow> fe" where
  "fe_sub f g =
    (case f of (f0, f1, f2, f3, f4) \<Rightarrow> case g of (g0, g1, g2, g3, g4) \<Rightarrow>
      fe_carry (f0 + 0xfffffffffffda - g0, f1 + 0xffffffffffffe - g1, f2 + 0xffffffffffffe - g2,
        f3 + 0xffffffffffffe - g3, f4 + 0xffffffffffffe - g4))"

definition fe_reduce_wide :: "poly_wide \<times> poly_wide \<times> poly_wide \<times> poly_wide \<times> poly_wide \<Rightarrow> fe" where
  "fe_reduce_wide t =
    (case t of (t0, t1, t2, t3, t4) \<Rightarrow>
      let t1 = t1 + ucast (ucast (drop_bit 51 t0) :: u64); t2 = t2 + ucast (ucast (drop_bit 51 t1) :: u64);
          t3 = t3 + ucast (ucast (drop_bit 51 t2) :: u64); t4 = t4 + ucast (ucast (drop_bit 51 t3) :: u64);
          r0 = (ucast t0 AND FE_M51) + 19 * ucast (drop_bit 51 t4); r1 = ucast t1 AND FE_M51;
          r1 = r1 + drop_bit 51 r0; r0 = r0 AND FE_M51 in
      (r0, r1, ucast t2 AND FE_M51, ucast t3 AND FE_M51, ucast t4 AND FE_M51))"

definition fe_mul :: "fe \<Rightarrow> fe \<Rightarrow> fe" where
  "fe_mul f g =
    (case f of (f0, f1, f2, f3, f4) \<Rightarrow> case g of (g0, g1, g2, g3, g4) \<Rightarrow>
      let g1_19 = g1 * 19; g2_19 = g2 * 19; g3_19 = g3 * 19; g4_19 = g4 * 19;
          t0 = ucast f0 * ucast g0 + ucast f1 * ucast g4_19 + ucast f2 * ucast g3_19 + ucast f3 * ucast g2_19 + ucast f4 * ucast g1_19;
          t1 = ucast f0 * ucast g1 + ucast f1 * ucast g0 + ucast f2 * ucast g4_19 + ucast f3 * ucast g3_19 + ucast f4 * ucast g2_19;
          t2 = ucast f0 * ucast g2 + ucast f1 * ucast g1 + ucast f2 * ucast g0 + ucast f3 * ucast g4_19 + ucast f4 * ucast g3_19;
          t3 = ucast f0 * ucast g3 + ucast f1 * ucast g2 + ucast f2 * ucast g1 + ucast f3 * ucast g0 + ucast f4 * ucast g4_19;
          t4 = ucast f0 * ucast g4 + ucast f1 * ucast g3 + ucast f2 * ucast g2 + ucast f3 * ucast g1 + ucast f4 * ucast g0 in
      fe_reduce_wide (t0, t1, t2, t3, t4))"

definition fe_sq :: "fe \<Rightarrow> fe" where
  "fe_sq f =
    (case f of (f0, f1, f2, f3, f4) \<Rightarrow>
      let d0 = 2 * f0; d1 = 2 * f1; d2 = 2 * f2; d3 = 2 * f3; f3_19 = 19 * f3; f4_19 = 19 * f4;
          t0 = ucast f0 * ucast f0 + ucast d1 * ucast f4_19 + ucast d2 * ucast f3_19;
          t1 = ucast d0 * ucast f1 + ucast d2 * ucast f4_19 + ucast f3 * ucast f3_19;
          t2 = ucast d0 * ucast f2 + ucast f1 * ucast f1 + ucast d3 * ucast f4_19;
          t3 = ucast d0 * ucast f3 + ucast d1 * ucast f2 + ucast f4 * ucast f4_19;
          t4 = ucast d0 * ucast f4 + ucast d1 * ucast f3 + ucast f2 * ucast f2 in
      fe_reduce_wide (t0, t1, t2, t3, t4))"

definition fe_mul_small :: "fe \<Rightarrow> u32 \<Rightarrow> fe" where
  "fe_mul_small f k =
    (case f of (f0, f1, f2, f3, f4) \<Rightarrow>
      fe_reduce_wide (ucast f0 * ucast k, ucast f1 * ucast k, ucast f2 * ucast k, ucast f3 * ucast k, ucast f4 * ucast k))"

definition fe_word :: "byte list \<Rightarrow> nat \<Rightarrow> u64" where
  "fe_word s i = foldl (\<lambda>w b. w OR push_bit (8 * b) (ucast (s ! (8 * i + b)))) 0 [0..<8]"

definition fe_frombytes :: "byte list \<Rightarrow> fe" where
  "fe_frombytes s =
    (let w0 = fe_word s 0; w1 = fe_word s 1; w2 = fe_word s 2; w3 = fe_word s 3 in
     (w0 AND FE_M51, (drop_bit 51 w0 OR push_bit 13 w1) AND FE_M51, (drop_bit 38 w1 OR push_bit 26 w2) AND FE_M51,
      (drop_bit 25 w2 OR push_bit 39 w3) AND FE_M51, drop_bit 12 w3 AND FE_M51))"

definition fe_tobytes :: "fe \<Rightarrow> byte list" where
  "fe_tobytes f =
    (case fe_carry f of (h0, h1, h2, h3, h4) \<Rightarrow>
      let q = 19; q = drop_bit 51 (h0 + q); q = drop_bit 51 (h1 + q); q = drop_bit 51 (h2 + q); q = drop_bit 51 (h3 + q); q = drop_bit 51 (h4 + q);
          h0 = h0 + 19 * q;
          c = drop_bit 51 h0; h0 = h0 AND FE_M51; h1 = h1 + c;
          c = drop_bit 51 h1; h1 = h1 AND FE_M51; h2 = h2 + c;
          c = drop_bit 51 h2; h2 = h2 AND FE_M51; h3 = h3 + c;
          c = drop_bit 51 h3; h3 = h3 AND FE_M51; h4 = h4 + c;
          h4 = h4 AND FE_M51;
          w0 = h0 OR push_bit 51 h1; w1 = drop_bit 13 h1 OR push_bit 38 h2; w2 = drop_bit 26 h2 OR push_bit 25 h3; w3 = drop_bit 39 h3 OR push_bit 12 h4 in
      concat (map (\<lambda>w. map (\<lambda>b. ucast (drop_bit (8 * b) w)) [0..<8]) [w0, w1, w2, w3]))"

definition fe_zero :: fe where "fe_zero = (0, 0, 0, 0, 0)"

definition fe_one :: fe where "fe_one = (1, 0, 0, 0, 0)"

definition fe_sqn :: "fe \<Rightarrow> nat \<Rightarrow> fe" where
  "fe_sqn f n = (fe_sq ^^ (n - 1)) (fe_sq f)"

definition fe_pow_front :: "fe \<Rightarrow> fe \<times> fe" where
  "fe_pow_front z =
    (let t0 = fe_sq z; t1 = fe_sqn t0 2; t1 = fe_mul z t1; t0 = fe_mul t0 t1; t11 = t0;
         t2 = fe_sq t0; t1 = fe_mul t1 t2; t2 = fe_sqn t1 5; t1 = fe_mul t2 t1;
         t2 = fe_sqn t1 10; t2 = fe_mul t2 t1; t3 = fe_sqn t2 20; t2 = fe_mul t3 t2;
         t2 = fe_sqn t2 10; t1 = fe_mul t2 t1; t2 = fe_sqn t1 50; t2 = fe_mul t2 t1;
         t3 = fe_sqn t2 100; t2 = fe_mul t3 t2; t2 = fe_sqn t2 50 in
     (fe_mul t2 t1, t11))"

definition fe_invert :: "fe \<Rightarrow> fe" where
  "fe_invert z = (let (t, t11) = fe_pow_front z; t = fe_sqn t 5 in fe_mul t t11)"

definition cswap_limb :: "u64 \<Rightarrow> u64 \<Rightarrow> u64 \<Rightarrow> u64 \<times> u64" where
  "cswap_limb msk a b = (let x = (a XOR b) AND msk in (a XOR x, b XOR x))"

definition fe_cswap :: "fe \<Rightarrow> fe \<Rightarrow> u32 \<Rightarrow> fe \<times> fe" where
  "fe_cswap f g b =
    (case f of (f0, f1, f2, f3, f4) \<Rightarrow> case g of (g0, g1, g2, g3, g4) \<Rightarrow>
      let msk = 0 - ucast b;
          (f0, g0) = cswap_limb msk f0 g0; (f1, g1) = cswap_limb msk f1 g1; (f2, g2) = cswap_limb msk f2 g2;
          (f3, g3) = cswap_limb msk f3 g3; (f4, g4) = cswap_limb msk f4 g4 in
      ((f0, f1, f2, f3, f4), (g0, g1, g2, g3, g4)))"

section \<open>Values\<close>

definition FE_P :: nat where "FE_P = 2 ^ 255 - 19"

fun fval :: "fe \<Rightarrow> nat" where
  "fval (a, b, c, d, e) = unat a + 2 ^ 51 * unat b + 2 ^ 102 * unat c + 2 ^ 153 * unat d + 2 ^ 204 * unat e"

text \<open>Carried: every limb within its width, but the second, which may be a little above it.\<close>

fun fe_ok :: "fe \<Rightarrow> bool" where
  "fe_ok (a, b, c, d, e) \<longleftrightarrow>
    unat a < 2 ^ 51 \<and> unat b < 2 ^ 51 + 2 ^ 13 \<and> unat c < 2 ^ 51 \<and> unat d < 2 ^ 51 \<and> unat e < 2 ^ 51"

fun fe_loose :: "fe \<Rightarrow> bool" where
  "fe_loose (a, b, c, d, e) \<longleftrightarrow> unat a < 2 ^ 53 \<and> unat b < 2 ^ 53 \<and> unat c < 2 ^ 53 \<and> unat d < 2 ^ 53 \<and> unat e < 2 ^ 53"

text \<open>A carried element stands for an integer modulo \<open>p\<close>.\<close>

definition fe_rep :: "fe \<Rightarrow> int \<Rightarrow> bool" where
  "fe_rep f x \<longleftrightarrow> fe_ok f \<and> int (fval f) mod int FE_P = x mod int FE_P"

lemma M51_mask: "FE_M51 = mask 51"
  by (simp add: FE_M51_def mask_eq_exp_minus_1)

lemma unat_M51: "unat (w AND FE_M51) = unat w mod 2 ^ 51"
  by (simp only: M51_mask unat_and_mask_mod)

lemma fe_repI: "fe_ok h \<Longrightarrow> fval h + FE_P * q = n \<Longrightarrow> fe_rep h (int n)"
proof -
  assume "fe_ok h" and n: "fval h + FE_P * q = n"
  moreover have "int n mod int FE_P = int (fval h) mod int FE_P"
    unfolding n [symmetric] of_nat_add of_nat_mult by (rule mod_mult_self2)
  ultimately show ?thesis by (simp add: fe_rep_def)
qed

lemma fe_rep_cong: "fe_rep h x \<Longrightarrow> x mod int FE_P = y mod int FE_P \<Longrightarrow> fe_rep h y"
  by (simp add: fe_rep_def)

lemma add64: "unat (a :: u64) + unat b < 2 ^ 64 \<Longrightarrow> unat (a + b) = unat a + unat b"
  by (rule unat_add_small) simp

lemma mult64: "unat (a :: u64) * unat b < 2 ^ 64 \<Longrightarrow> unat (a * b) = unat a * unat b"
  by (rule unat_mult_small) simp

lemma div51_less: "n < 2 ^ 53 \<Longrightarrow> n div 2 ^ 51 < (4 :: nat)"
  by (rule less_mult_imp_div_less) simp

text \<open>The carry chain.\<close>

lemma fe_carry_nat:
  assumes h: "fe_loose h"
  shows "fe_ok (fe_carry h)" and "\<exists>q. fval (fe_carry h) + FE_P * q = fval h"
proof -
  obtain h0 h1 h2 h3 h4 where hh: "h = (h0, h1, h2, h3, h4)" by (cases h)
  have b: "unat h0 < 2 ^ 53" "unat h1 < 2 ^ 53" "unat h2 < 2 ^ 53" "unat h3 < 2 ^ 53" "unat h4 < 2 ^ 53" using h unfolding hh by auto
  define c0 where "c0 = drop_bit 51 h0"
  define k1 where "k1 = h1 + c0"
  define c1 where "c1 = drop_bit 51 k1"
  define k2 where "k2 = h2 + c1"
  define c2 where "c2 = drop_bit 51 k2"
  define k3 where "k3 = h3 + c2"
  define c3 where "c3 = drop_bit 51 k3"
  define k4 where "k4 = h4 + c3"
  define c4 where "c4 = drop_bit 51 k4"
  define x0 where "x0 = h0 AND FE_M51"
  define k0 where "k0 = x0 + 19 * c4"
  define c5 where "c5 = drop_bit 51 k0"
  define x1 where "x1 = k1 AND FE_M51"
  have fc: "fe_carry h = (k0 AND FE_M51, x1 + c5, k2 AND FE_M51, k3 AND FE_M51, k4 AND FE_M51)"
    unfolding hh fe_carry_def Let_def case_prod_conv x1_def c5_def k0_def x0_def c4_def k4_def c3_def k3_def c2_def k2_def c1_def k1_def c0_def ..
  have split: "unat (w AND FE_M51) + 2 ^ 51 * unat (drop_bit 51 w) = unat w" for w
    unfolding unat_M51 unat_drop by (rule mod_mult_div_eq)
  have m: "unat (w AND FE_M51) < 2 ^ 51" for w unfolding unat_M51 by simp
  have c0: "unat c0 < 4" unfolding c0_def unat_drop using b by (intro div51_less)
  have k1: "unat k1 = unat h1 + unat c0" unfolding k1_def using b c0 by (intro add64) simp
  have c1: "unat c1 < 5" unfolding c1_def unat_drop k1 using b c0 by (intro less_mult_imp_div_less) simp
  have k2: "unat k2 = unat h2 + unat c1" unfolding k2_def using b c1 by (intro add64) simp
  have c2: "unat c2 < 5" unfolding c2_def unat_drop k2 using b c1 by (intro less_mult_imp_div_less) simp
  have k3: "unat k3 = unat h3 + unat c2" unfolding k3_def using b c2 by (intro add64) simp
  have c3: "unat c3 < 5" unfolding c3_def unat_drop k3 using b c2 by (intro less_mult_imp_div_less) simp
  have k4: "unat k4 = unat h4 + unat c3" unfolding k4_def using b c3 by (intro add64) simp
  have c4: "unat c4 < 5" unfolding c4_def unat_drop k4 using b c3 by (intro less_mult_imp_div_less) simp
  have n19: "unat (19 * c4) = 19 * unat c4" using mult64 [of 19 c4] c4 by simp
  have x0: "unat x0 < 2 ^ 51" unfolding x0_def by (rule m)
  have k0: "unat k0 = unat x0 + 19 * unat c4" unfolding k0_def n19 [symmetric] using x0 c4 by (intro add64) (simp add: n19)
  have c5: "unat c5 < 2" unfolding c5_def unat_drop k0 using x0 c4 by (intro less_mult_imp_div_less) simp
  have x1: "unat x1 < 2 ^ 51" unfolding x1_def by (rule m)
  have y1: "unat (x1 + c5) = unat x1 + unat c5" using x1 c5 by (intro add64) simp
  show "fe_ok (fe_carry h)" unfolding fc fe_ok.simps y1 using m x1 c5 by simp
  note s = split [of h0, folded x0_def c0_def] split [of k1, folded x1_def c1_def] split [of k2, folded c2_def]
    split [of k3, folded c3_def] split [of k4, folded c4_def] split [of k0, folded c5_def]
  have "fval (fe_carry h) + FE_P * unat c4 = fval h"
    unfolding fc FE_P_def unfolding hh fval.simps y1 using s k0 k1 k2 k3 k4 by simp
  then show "\<exists>q. fval (fe_carry h) + FE_P * q = fval h" by blast
qed

text \<open>Sums and differences.\<close>

lemma fe_rep_carry:
  assumes "fe_loose h" "fval h = n"
  shows "fe_rep (fe_carry h) (int n)"
  using fe_carry_nat [OF assms(1)] assms(2) fe_repI by blast

lemma fe_add_nat: "fe_ok f \<Longrightarrow> fe_ok g \<Longrightarrow> fe_rep (fe_add f g) (int (fval f + fval g))"
proof -
  assume f: "fe_ok f" and g: "fe_ok g"
  obtain f0 f1 f2 f3 f4 where ff: "f = (f0, f1, f2, f3, f4)" by (cases f)
  obtain g0 g1 g2 g3 g4 where gg: "g = (g0, g1, g2, g3, g4)" by (cases g)
  note fb = f [unfolded ff fe_ok.simps] and gb = g [unfolded gg fe_ok.simps]
  have s: "unat (f0 + g0) = unat f0 + unat g0" "unat (f1 + g1) = unat f1 + unat g1" "unat (f2 + g2) = unat f2 + unat g2"
    "unat (f3 + g3) = unat f3 + unat g3" "unat (f4 + g4) = unat f4 + unat g4"
    by (rule add64; use fb gb in simp)+
  have e: "fe_add f g = fe_carry (f0 + g0, f1 + g1, f2 + g2, f3 + g3, f4 + g4)" unfolding fe_add_def ff gg case_prod_conv ..
  show ?thesis
    unfolding e
  proof (rule fe_rep_carry)
    show "fe_loose (f0 + g0, f1 + g1, f2 + g2, f3 + g3, f4 + g4)" unfolding fe_loose.simps s using fb gb by simp
    show "fval (f0 + g0, f1 + g1, f2 + g2, f3 + g3, f4 + g4) = fval f + fval g" unfolding fval.simps s ff gg by simp
  qed
qed

lemma unat_sub_bias:
  assumes "unat (a :: u64) < 2 ^ 52" "unat c < 2 ^ 52" "unat b \<le> unat c"
  shows "unat (a + c - b) + unat b = unat a + unat c" and "unat (a + c - b) < 2 ^ 53"
proof -
  have s: "unat (a + c) = unat a + unat c" using assms by (intro add64) simp
  then have "b \<le> a + c" using assms(3) by (simp add: word_le_nat_alt)
  then have d: "unat (a + c - b) = unat (a + c) - unat b" by (rule unat_sub)
  show "unat (a + c - b) + unat b = unat a + unat c" unfolding d s using assms(3) by simp
  show "unat (a + c - b) < 2 ^ 53" unfolding d s using assms by simp
qed

lemma fe_sub_nat: "fe_ok f \<Longrightarrow> fe_ok g \<Longrightarrow> fe_rep (fe_sub f g) (int (fval f) - int (fval g))"
proof -
  assume f: "fe_ok f" and g: "fe_ok g"
  obtain f0 f1 f2 f3 f4 where ff: "f = (f0, f1, f2, f3, f4)" by (cases f)
  obtain g0 g1 g2 g3 g4 where gg: "g = (g0, g1, g2, g3, g4)" by (cases g)
  note fb = f [unfolded ff fe_ok.simps] and gb = g [unfolded gg fe_ok.simps]
  define A where "A = (0xfffffffffffda :: u64)"
  define B where "B = (0xffffffffffffe :: u64)"
  have A: "unat A = 0xfffffffffffda" and B: "unat B = 0xffffffffffffe" by (simp_all add: A_def B_def)
  note s0 = unat_sub_bias [of f0 A g0] and s1 = unat_sub_bias [of f1 B g1] and s2 = unat_sub_bias [of f2 B g2]
    and s3 = unat_sub_bias [of f3 B g3] and s4 = unat_sub_bias [of f4 B g4]
  define h where "h = (f0 + A - g0, f1 + B - g1, f2 + B - g2, f3 + B - g3, f4 + B - g4)"
  have e: "fe_sub f g = fe_carry h" unfolding fe_sub_def h_def ff gg case_prod_conv A_def B_def ..
  have l: "fe_loose h" unfolding h_def fe_loose.simps using s0(2) s1(2) s2(2) s3(2) s4(2) fb gb unfolding A B by simp
  have v: "fval h + fval g = fval f + 2 * FE_P"
  proof -
    have "unat (f0 + A - g0) + unat g0 = unat f0 + 0xfffffffffffda" using s0(1) fb gb unfolding A by simp
    moreover have "unat (f1 + B - g1) + unat g1 = unat f1 + 0xffffffffffffe" using s1(1) fb gb unfolding B by simp
    moreover have "unat (f2 + B - g2) + unat g2 = unat f2 + 0xffffffffffffe" using s2(1) fb gb unfolding B by simp
    moreover have "unat (f3 + B - g3) + unat g3 = unat f3 + 0xffffffffffffe" using s3(1) fb gb unfolding B by simp
    moreover have "unat (f4 + B - g4) + unat g4 = unat f4 + 0xffffffffffffe" using s4(1) fb gb unfolding B by simp
    ultimately show ?thesis unfolding h_def ff gg fval.simps FE_P_def by simp
  qed
  have "fe_rep (fe_carry h) (int (fval h))" by (rule fe_rep_carry [OF l refl])
  moreover have "int (fval h) mod int FE_P = (int (fval f) - int (fval g)) mod int FE_P"
  proof -
    have "int (fval h) = (int (fval f) - int (fval g)) + int FE_P * 2" using v by linarith
    then show ?thesis by (simp only: mod_mult_self2)
  qed
  ultimately show ?thesis unfolding e by (rule fe_rep_cong)
qed

text \<open>Five columns into a carried element.\<close>

lemma carry51: "unat (t :: poly_wide) < 2 ^ 112 \<Longrightarrow> unat (ucast (ucast (drop_bit 51 t) :: u64) :: poly_wide) = unat t div 2 ^ 51"
  unfolding u64_to_wide by (rule unat_carry) simp

lemma low51: "unat ((ucast (t :: poly_wide) :: u64) AND FE_M51) = unat t mod 2 ^ 51"
  unfolding unat_M51 wide_to_u64 by (simp add: mod_mod_cancel)

lemma low51_mod: "unat (ucast (t :: poly_wide) :: u64) mod 2 ^ 51 = unat t mod 2 ^ 51"
  using low51 [of t] unfolding unat_M51 .

lemma fe_reduce_wide_nat:
  assumes b: "unat t0 < 2 ^ 111" "unat t1 < 2 ^ 111" "unat t2 < 2 ^ 111" "unat t3 < 2 ^ 111" "unat t4 < 2 ^ 108"
  shows "fe_rep (fe_reduce_wide (t0, t1, t2, t3, t4))
    (int (unat t0 + 2 ^ 51 * unat t1 + 2 ^ 102 * unat t2 + 2 ^ 153 * unat t3 + 2 ^ 204 * unat t4))"
proof -
  define cc :: "poly_wide \<Rightarrow> poly_wide" where "cc t = ucast (ucast (drop_bit 51 t) :: u64)" for t
  define k1 where "k1 = t1 + cc t0"
  define k2 where "k2 = t2 + cc k1"
  define k3 where "k3 = t3 + cc k2"
  define k4 where "k4 = t4 + cc k3"
  define d where "d = (ucast (drop_bit 51 k4) :: u64)"
  define x0 where "x0 = (ucast t0 :: u64) AND FE_M51"
  define r0 where "r0 = x0 + 19 * d"
  define x1 where "x1 = (ucast k1 :: u64) AND FE_M51"
  have e: "fe_reduce_wide (t0, t1, t2, t3, t4) =
      (r0 AND FE_M51, x1 + drop_bit 51 r0, ucast k2 AND FE_M51, ucast k3 AND FE_M51, ucast k4 AND FE_M51)"
    unfolding fe_reduce_wide_def Let_def case_prod_conv x1_def r0_def x0_def d_def k4_def k3_def k2_def k1_def cc_def ..
  have cc: "unat t < 2 ^ 112 \<Longrightarrow> unat (cc t) = unat t div 2 ^ 51 \<and> unat (cc t) < 2 ^ 61" for t
    unfolding cc_def carry51 by (auto intro!: less_mult_imp_div_less)
  have add: "unat (a + c) = unat a + unat c" if "unat a < 2 ^ 111" "unat c < 2 ^ 61" for a c :: poly_wide
    using that by (intro unat_add_small) simp
  have t0: "unat (cc t0) = unat t0 div 2 ^ 51" "unat (cc t0) < 2 ^ 61" using cc [of t0] b by auto
  have k1: "unat k1 = unat t1 + unat (cc t0)" unfolding k1_def by (rule add [OF b(2) t0(2)])
  have "unat k1 < 2 ^ 112" unfolding k1 using b t0 by simp
  then have c1: "unat (cc k1) = unat k1 div 2 ^ 51" "unat (cc k1) < 2 ^ 61" using cc [of k1] by auto
  have k2: "unat k2 = unat t2 + unat (cc k1)" unfolding k2_def by (rule add [OF b(3) c1(2)])
  have "unat k2 < 2 ^ 112" unfolding k2 using b c1 by simp
  then have c2: "unat (cc k2) = unat k2 div 2 ^ 51" "unat (cc k2) < 2 ^ 61" using cc [of k2] by auto
  have k3: "unat k3 = unat t3 + unat (cc k2)" unfolding k3_def by (rule add [OF b(4) c2(2)])
  have "unat k3 < 2 ^ 112" unfolding k3 using b c2 by simp
  then have c3: "unat (cc k3) = unat k3 div 2 ^ 51" "unat (cc k3) < 2 ^ 61" using cc [of k3] by auto
  have k4: "unat k4 = unat t4 + unat (cc k3)" unfolding k4_def using b c3 by (intro add) simp_all
  have k4b: "unat k4 < 2 ^ 109" unfolding k4 using b c3 by simp
  have d: "unat d = unat k4 div 2 ^ 51" unfolding d_def using k4b by (intro unat_carry) simp
  have db: "unat d < 2 ^ 58" unfolding d using k4b by (intro less_mult_imp_div_less) simp
  have n19: "unat (19 * d) = 19 * unat d" using mult64 [of 19 d] db by simp
  have x0: "unat x0 = unat t0 mod 2 ^ 51" and x1: "unat x1 = unat k1 mod 2 ^ 51" unfolding x0_def x1_def by (rule low51)+
  have xb: "unat x0 < 2 ^ 51" "unat x1 < 2 ^ 51" unfolding x0 x1 by simp_all
  have r0: "unat r0 = unat x0 + 19 * unat d" unfolding r0_def n19 [symmetric] using xb db by (intro add64) (simp add: n19)
  have r0b: "unat r0 div 2 ^ 51 < 2 ^ 13" unfolding r0 using xb db by (intro less_mult_imp_div_less) simp
  have y1: "unat (x1 + drop_bit 51 r0) = unat x1 + unat r0 div 2 ^ 51"
    unfolding unat_drop [symmetric] using xb r0b by (intro add64) (simp add: unat_drop)
  show ?thesis
  proof (rule fe_repI)
    show "fe_ok (fe_reduce_wide (t0, t1, t2, t3, t4))"
      unfolding e fe_ok.simps y1 low51 unat_M51 using xb r0b by simp
    have s: "unat x0 + 2 ^ 51 * unat (cc t0) = unat t0" "unat x1 + 2 ^ 51 * unat (cc k1) = unat k1"
      "unat k2 mod 2 ^ 51 + 2 ^ 51 * unat (cc k2) = unat k2" "unat k3 mod 2 ^ 51 + 2 ^ 51 * unat (cc k3) = unat k3"
      "unat k4 mod 2 ^ 51 + 2 ^ 51 * unat d = unat k4" "unat r0 mod 2 ^ 51 + 2 ^ 51 * (unat r0 div 2 ^ 51) = unat r0"
      unfolding t0 c1 c2 c3 d x0 x1 by (rule mod_mult_div_eq)+
    define z2 where "z2 = unat k2 mod 2 ^ 51"
    define z3 where "z3 = unat k3 mod 2 ^ 51"
    define z4 where "z4 = unat k4 mod 2 ^ 51"
    define z0 where "z0 = unat r0 mod 2 ^ 51"
    define y0 where "y0 = unat r0 div 2 ^ 51"
    note s = s [folded z2_def z3_def z4_def z0_def y0_def]
    show "fval (fe_reduce_wide (t0, t1, t2, t3, t4)) + FE_P * unat d =
        unat t0 + 2 ^ 51 * unat t1 + 2 ^ 102 * unat t2 + 2 ^ 153 * unat t3 + 2 ^ 204 * unat t4"
      unfolding e fval.simps y1 unat_M51 low51_mod z2_def [symmetric] z3_def [symmetric] z4_def [symmetric] z0_def [symmetric] y0_def [symmetric] FE_P_def
      using s k1 k2 k3 k4 r0 by simp
  qed
qed

text \<open>Products.\<close>

lemma unat_sum5:
  fixes v w x y z :: poly_wide
  assumes "unat v + unat w + unat x + unat y + unat z < 2 ^ 128"
  shows "unat (v + w + x + y + z) = unat v + unat w + unat x + unat y + unat z"
proof -
  have 1: "unat (v + w + x) = unat v + unat w + unat x" using assms by (intro unat_sum3) simp
  have "unat (v + w + x + y + z) = unat (v + w + x) + unat y + unat z" using assms 1 by (intro unat_sum3) simp
  then show ?thesis using 1 by simp
qed

lemma fe_ok_52: "fe_ok (a, b, c, d, e) \<Longrightarrow> unat a < 2 ^ 52 \<and> unat b < 2 ^ 52 \<and> unat c < 2 ^ 52 \<and> unat d < 2 ^ 52 \<and> unat e < 2 ^ 52"
  by auto

lemma prod104: "unat (a :: u64) < 2 ^ 52 \<Longrightarrow> unat (b :: u64) < 2 ^ 52 \<Longrightarrow> unat a * unat b < 2 ^ 104"
  using mult_less_exp [of "unat a" 52 "unat b" 52] by simp

lemma unat_19: "unat (g :: u64) < 2 ^ 52 \<Longrightarrow> unat (g * 19) = 19 * unat g"
  using mult64 [of g 19] by simp

lemma fold_product5:
  fixes f0 f1 f2 f3 f4 g0 g1 g2 g3 g4 :: nat
  shows "(f0 * g0 + f1 * (19 * g4) + f2 * (19 * g3) + f3 * (19 * g2) + f4 * (19 * g1)) +
      2 ^ 51 * (f0 * g1 + f1 * g0 + f2 * (19 * g4) + f3 * (19 * g3) + f4 * (19 * g2)) +
      2 ^ 102 * (f0 * g2 + f1 * g1 + f2 * g0 + f3 * (19 * g4) + f4 * (19 * g3)) +
      2 ^ 153 * (f0 * g3 + f1 * g2 + f2 * g1 + f3 * g0 + f4 * (19 * g4)) +
      2 ^ 204 * (f0 * g4 + f1 * g3 + f2 * g2 + f3 * g1 + f4 * g0) +
      FE_P * ((f1 * g4 + f2 * g3 + f3 * g2 + f4 * g1) + 2 ^ 51 * (f2 * g4 + f3 * g3 + f4 * g2) +
        2 ^ 102 * (f3 * g4 + f4 * g3) + 2 ^ 153 * (f4 * g4)) =
    (f0 + 2 ^ 51 * f1 + 2 ^ 102 * f2 + 2 ^ 153 * f3 + 2 ^ 204 * f4) *
    (g0 + 2 ^ 51 * g1 + 2 ^ 102 * g2 + 2 ^ 153 * g3 + 2 ^ 204 * g4)"
  unfolding FE_P_def by (simp add: algebra_simps)

lemma fe_mul_nat:
  assumes f: "fe_ok f" and g: "fe_ok g"
  shows "fe_rep (fe_mul f g) (int (fval f) * int (fval g))"
proof -
  obtain f0 f1 f2 f3 f4 where ff: "f = (f0, f1, f2, f3, f4)" by (cases f)
  obtain g0 g1 g2 g3 g4 where gg: "g = (g0, g1, g2, g3, g4)" by (cases g)
  have fb: "unat f0 < 2 ^ 52" "unat f1 < 2 ^ 52" "unat f2 < 2 ^ 52" "unat f3 < 2 ^ 52" "unat f4 < 2 ^ 52"
    using fe_ok_52 [OF f [unfolded ff]] by auto
  have gb: "unat g0 < 2 ^ 52" "unat g1 < 2 ^ 52" "unat g2 < 2 ^ 52" "unat g3 < 2 ^ 52" "unat g4 < 2 ^ 52"
    using fe_ok_52 [OF g [unfolded gg]] by auto
  define t0 where "t0 = (ucast f0 * ucast g0 + ucast f1 * ucast (g4 * 19) + ucast f2 * ucast (g3 * 19) + ucast f3 * ucast (g2 * 19) + ucast f4 * ucast (g1 * 19) :: poly_wide)"
  define t1 where "t1 = (ucast f0 * ucast g1 + ucast f1 * ucast g0 + ucast f2 * ucast (g4 * 19) + ucast f3 * ucast (g3 * 19) + ucast f4 * ucast (g2 * 19) :: poly_wide)"
  define t2 where "t2 = (ucast f0 * ucast g2 + ucast f1 * ucast g1 + ucast f2 * ucast g0 + ucast f3 * ucast (g4 * 19) + ucast f4 * ucast (g3 * 19) :: poly_wide)"
  define t3 where "t3 = (ucast f0 * ucast g3 + ucast f1 * ucast g2 + ucast f2 * ucast g1 + ucast f3 * ucast g0 + ucast f4 * ucast (g4 * 19) :: poly_wide)"
  define t4 where "t4 = (ucast f0 * ucast g4 + ucast f1 * ucast g3 + ucast f2 * ucast g2 + ucast f3 * ucast g1 + ucast f4 * ucast g0 :: poly_wide)"
  have e: "fe_mul f g = fe_reduce_wide (t0, t1, t2, t3, t4)"
    unfolding fe_mul_def ff gg case_prod_conv Let_def t0_def t1_def t2_def t3_def t4_def ..
  note w = unat_wide_mult unat_19 [OF gb(2)] unat_19 [OF gb(3)] unat_19 [OF gb(4)] unat_19 [OF gb(5)]
  note p = prod104 [OF fb(1) gb(1)] prod104 [OF fb(1) gb(2)] prod104 [OF fb(1) gb(3)] prod104 [OF fb(1) gb(4)] prod104 [OF fb(1) gb(5)]
    prod104 [OF fb(2) gb(1)] prod104 [OF fb(2) gb(2)] prod104 [OF fb(2) gb(3)] prod104 [OF fb(2) gb(4)] prod104 [OF fb(2) gb(5)]
    prod104 [OF fb(3) gb(1)] prod104 [OF fb(3) gb(2)] prod104 [OF fb(3) gb(3)] prod104 [OF fb(3) gb(4)] prod104 [OF fb(3) gb(5)]
    prod104 [OF fb(4) gb(1)] prod104 [OF fb(4) gb(2)] prod104 [OF fb(4) gb(3)] prod104 [OF fb(4) gb(4)] prod104 [OF fb(4) gb(5)]
    prod104 [OF fb(5) gb(1)] prod104 [OF fb(5) gb(2)] prod104 [OF fb(5) gb(3)] prod104 [OF fb(5) gb(4)] prod104 [OF fb(5) gb(5)]
  have t0: "unat t0 = unat f0 * unat g0 + unat f1 * (19 * unat g4) + unat f2 * (19 * unat g3) + unat f3 * (19 * unat g2) + unat f4 * (19 * unat g1)"
    unfolding t0_def by (subst unat_sum5; unfold w; insert p; simp)
  have t1: "unat t1 = unat f0 * unat g1 + unat f1 * unat g0 + unat f2 * (19 * unat g4) + unat f3 * (19 * unat g3) + unat f4 * (19 * unat g2)"
    unfolding t1_def by (subst unat_sum5; unfold w; insert p; simp)
  have t2: "unat t2 = unat f0 * unat g2 + unat f1 * unat g1 + unat f2 * unat g0 + unat f3 * (19 * unat g4) + unat f4 * (19 * unat g3)"
    unfolding t2_def by (subst unat_sum5; unfold w; insert p; simp)
  have t3: "unat t3 = unat f0 * unat g3 + unat f1 * unat g2 + unat f2 * unat g1 + unat f3 * unat g0 + unat f4 * (19 * unat g4)"
    unfolding t3_def by (subst unat_sum5; unfold w; insert p; simp)
  have t4: "unat t4 = unat f0 * unat g4 + unat f1 * unat g3 + unat f2 * unat g2 + unat f3 * unat g1 + unat f4 * unat g0"
    unfolding t4_def by (subst unat_sum5; unfold w; insert p; simp)
  have b: "unat t0 < 2 ^ 111" "unat t1 < 2 ^ 111" "unat t2 < 2 ^ 111" "unat t3 < 2 ^ 111" "unat t4 < 2 ^ 108"
    unfolding t0 t1 t2 t3 t4 using p by simp_all
  show ?thesis
    unfolding e
  proof (rule fe_rep_cong [OF fe_reduce_wide_nat [OF b]])
    define n where "n = unat t0 + 2 ^ 51 * unat t1 + 2 ^ 102 * unat t2 + 2 ^ 153 * unat t3 + 2 ^ 204 * unat t4"
    obtain q where "fval f * fval g = n + FE_P * q"
      using fold_product5 [of "unat f0" "unat g0" "unat f1" "unat g4" "unat f2" "unat g3" "unat f3" "unat g2" "unat f4" "unat g1"]
      unfolding n_def t0 t1 t2 t3 t4 ff gg fval.simps by metis
    then have "int (fval f) * int (fval g) = int n + int FE_P * int q" by (metis of_nat_add of_nat_mult)
    then show "int (unat t0 + 2 ^ 51 * unat t1 + 2 ^ 102 * unat t2 + 2 ^ 153 * unat t3 + 2 ^ 204 * unat t4) mod int FE_P =
        (int (fval f) * int (fval g)) mod int FE_P"
      unfolding n_def [symmetric] by (simp only: mod_mult_self2)
  qed
qed

end
