(* ===== verification/Curve_Ops.thy ===== *)
theory Curve_Ops
  imports Curve_Field
begin

text \<open>
  The rest of the field of Curve25519: squarings, small multiples, powers by the addition chain, the
  swap by mask, and the bytes of an element.
\<close>

section \<open>Squares\<close>

lemma wide_scaled:
  assumes "unat (c :: u64) * unat (f :: u64) < 2 ^ 64"
  shows "(ucast (c * f) :: poly_wide) = ucast c * ucast f"
proof (rule word_unat_eq_iff [THEN iffD2])
  show "unat (ucast (c * f) :: poly_wide) = unat (ucast c * ucast f :: poly_wide)"
    unfolding unat_wide_mult u64_to_wide by (rule mult64 [OF assms])
qed

lemma wide_numerals: "(ucast (2 :: u64) :: poly_wide) = 2" "(ucast (19 :: u64) :: poly_wide) = 19"
  by (simp_all add: unsigned_numeral)

lemma wide_twice: "unat f < 2 ^ 52 \<Longrightarrow> (ucast (2 * f) :: poly_wide) = 2 * ucast (f :: u64)"
  using wide_scaled [of 2 f] by (simp add: wide_numerals)

lemma wide_19: "unat f < 2 ^ 52 \<Longrightarrow> (ucast (19 * f) :: poly_wide) = 19 * ucast (f :: u64)"
  using wide_scaled [of 19 f] by (simp add: wide_numerals)

lemma fe_sq_mul:
  assumes f: "fe_ok f"
  shows "fe_sq f = fe_mul f f"
proof -
  obtain f0 f1 f2 f3 f4 where ff: "f = (f0, f1, f2, f3, f4)" by (cases f)
  have b: "unat f0 < 2 ^ 52" "unat f1 < 2 ^ 52" "unat f2 < 2 ^ 52" "unat f3 < 2 ^ 52" "unat f4 < 2 ^ 52"
    using fe_ok_52 [OF f [unfolded ff]] by auto
  note w = wide_twice [OF b(1)] wide_twice [OF b(2)] wide_twice [OF b(3)] wide_twice [OF b(4)]
    wide_19 [OF b(1)] wide_19 [OF b(2)] wide_19 [OF b(3)] wide_19 [OF b(4)] wide_19 [OF b(5)]
  show ?thesis
    unfolding fe_sq_def fe_mul_def ff case_prod_conv Let_def mult.commute [of _ "19 :: u64"] w
    by (simp add: algebra_simps)
qed

lemma fe_mul_small_nat:
  assumes f: "fe_ok f"
  shows "fe_rep (fe_mul_small f k) (int (fval f) * int (unat k))"
proof -
  obtain f0 f1 f2 f3 f4 where ff: "f = (f0, f1, f2, f3, f4)" by (cases f)
  have b: "unat f0 < 2 ^ 52" "unat f1 < 2 ^ 52" "unat f2 < 2 ^ 52" "unat f3 < 2 ^ 52" "unat f4 < 2 ^ 52"
    using fe_ok_52 [OF f [unfolded ff]] by auto
  have kb: "unat k < 2 ^ 32" using unsigned_less [of k] by simp
  have uk: "unat (ucast k :: poly_wide) = unat k" by (rule unat_ucast_bigger) simp
  have m: "unat (ucast x * ucast k :: poly_wide) = unat x * unat k \<and> unat x * unat k < 2 ^ 84" if "unat x < 2 ^ 52" for x :: u64
  proof -
    have l: "unat x * unat k < 2 ^ (52 + 32)" by (rule mult_less_exp [OF that kb])
    have "unat (ucast x * ucast k :: poly_wide) = unat (ucast x :: poly_wide) * unat (ucast k :: poly_wide)"
      by (rule unat_mult_small) (use l in \<open>simp add: u64_to_wide uk\<close>)
    then show ?thesis using l by (simp add: u64_to_wide uk)
  qed
  note m = m [OF b(1)] m [OF b(2)] m [OF b(3)] m [OF b(4)] m [OF b(5)]
  have r: "fe_rep (fe_mul_small f k) (int (unat f0 * unat k + 2 ^ 51 * (unat f1 * unat k) + 2 ^ 102 * (unat f2 * unat k) +
      2 ^ 153 * (unat f3 * unat k) + 2 ^ 204 * (unat f4 * unat k)))"
    using fe_reduce_wide_nat [of "ucast f0 * ucast k" "ucast f1 * ucast k" "ucast f2 * ucast k" "ucast f3 * ucast k" "ucast f4 * ucast k"] m
    unfolding fe_mul_small_def ff case_prod_conv by simp
  have "unat f0 * unat k + 2 ^ 51 * (unat f1 * unat k) + 2 ^ 102 * (unat f2 * unat k) +
      2 ^ 153 * (unat f3 * unat k) + 2 ^ 204 * (unat f4 * unat k) = fval f * unat k"
    unfolding ff fval.simps by (simp add: algebra_simps)
  then show ?thesis using r by simp
qed

section \<open>What elements stand for\<close>

lemma rep_ok: "fe_rep f x \<Longrightarrow> fe_ok f"
  by (simp add: fe_rep_def)

lemma rep_add: "fe_rep f x \<Longrightarrow> fe_rep g y \<Longrightarrow> fe_rep (fe_add f g) (x + y)"
proof -
  assume f: "fe_rep f x" and g: "fe_rep g y"
  have "fe_rep (fe_add f g) (int (fval f) + int (fval g))" using fe_add_nat [OF rep_ok [OF f] rep_ok [OF g]] by simp
  then show ?thesis by (rule fe_rep_cong) (rule mod_add_cong; use f g in \<open>simp add: fe_rep_def\<close>)
qed

lemma rep_sub: "fe_rep f x \<Longrightarrow> fe_rep g y \<Longrightarrow> fe_rep (fe_sub f g) (x - y)"
proof -
  assume f: "fe_rep f x" and g: "fe_rep g y"
  show ?thesis
    by (rule fe_rep_cong [OF fe_sub_nat [OF rep_ok [OF f] rep_ok [OF g]]]) (rule mod_diff_cong; use f g in \<open>simp add: fe_rep_def\<close>)
qed

lemma rep_mul: "fe_rep f x \<Longrightarrow> fe_rep g y \<Longrightarrow> fe_rep (fe_mul f g) (x * y)"
proof -
  assume f: "fe_rep f x" and g: "fe_rep g y"
  show ?thesis
    by (rule fe_rep_cong [OF fe_mul_nat [OF rep_ok [OF f] rep_ok [OF g]]]) (rule mod_mult_cong; use f g in \<open>simp add: fe_rep_def\<close>)
qed

lemma rep_sq: "fe_rep f x \<Longrightarrow> fe_rep (fe_sq f) (x * x)"
  using rep_mul [of f x f x] fe_sq_mul [OF rep_ok, of f x] by simp

lemma rep_mul_small: "fe_rep f x \<Longrightarrow> fe_rep (fe_mul_small f k) (x * int (unat k))"
proof -
  assume f: "fe_rep f x"
  show ?thesis
    by (rule fe_rep_cong [OF fe_mul_small_nat [OF rep_ok [OF f]]]) (rule mod_mult_cong; use f in \<open>simp add: fe_rep_def\<close>)
qed

lemma rep_zero: "fe_rep fe_zero 0" and rep_one: "fe_rep fe_one 1"
  by (simp_all add: fe_rep_def fe_zero_def fe_one_def)

text \<open>Powers.\<close>

lemma rep_sq_pow: "fe_rep f (x ^ e) \<Longrightarrow> fe_rep (fe_sq f) (x ^ (2 * e))"
  using rep_sq [of f "x ^ e"] by (simp add: power_add [symmetric] mult_2)

lemma rep_sqn_pow:
  assumes "fe_rep f (x ^ e)" "n = Suc m"
  shows "fe_rep (fe_sqn f n) (x ^ (2 ^ n * e))"
proof -
  have "fe_rep ((fe_sq ^^ m) g) (x ^ (2 ^ m * d))" if "fe_rep g (x ^ d)" for g d m
    using that
  proof (induction m)
    case (Suc m)
    then show ?case using rep_sq_pow [of "(fe_sq ^^ m) g" x "2 ^ m * d"] by (simp add: mult.assoc)
  qed simp
  from this [OF rep_sq_pow [OF assms(1)], of m] show ?thesis
    unfolding fe_sqn_def assms(2) by (simp add: mult.assoc mult.left_commute)
qed

lemma rep_mul_pow: "fe_rep f (x ^ a) \<Longrightarrow> fe_rep g (x ^ b) \<Longrightarrow> fe_rep (fe_mul f g) (x ^ (a + b))"
  using rep_mul [of f "x ^ a" g "x ^ b"] by (simp add: power_add)

lemma rep_exp: "fe_rep f (x ^ a) \<Longrightarrow> a = b \<Longrightarrow> fe_rep f (x ^ b)"
  by simp

lemma fe_pow_front_rep:
  assumes z: "fe_rep z x"
  shows "fe_rep (fst (fe_pow_front z)) (x ^ (2 ^ 250 - 1))" and "fe_rep (snd (fe_pow_front z)) (x ^ 11)"
proof -
  define a where "a = fe_sq z"
  define b where "b = fe_mul z (fe_sqn a 2)"
  define c where "c = fe_mul a b"
  define d where "d = fe_mul b (fe_sq c)"
  define e where "e = fe_mul (fe_sqn d 5) d"
  define f where "f = fe_mul (fe_sqn e 10) e"
  define g where "g = fe_mul (fe_sqn f 20) f"
  define h where "h = fe_mul (fe_sqn g 10) e"
  define i where "i = fe_mul (fe_sqn h 50) h"
  define j where "j = fe_mul (fe_sqn i 100) i"
  have pf: "fe_pow_front z = (fe_mul (fe_sqn j 50) h, c)"
    unfolding fe_pow_front_def Let_def j_def i_def h_def g_def f_def e_def d_def c_def b_def a_def ..
  have z1: "fe_rep z (x ^ 1)" using z by simp
  have a: "fe_rep a (x ^ 2)" unfolding a_def by (rule rep_exp [OF rep_sq_pow [OF z1]]) simp
  have b: "fe_rep b (x ^ 9)" unfolding b_def by (rule rep_exp [OF rep_mul_pow [OF z1 rep_sqn_pow [OF a, of 2 1]]]) simp_all
  have c: "fe_rep c (x ^ 11)" unfolding c_def by (rule rep_exp [OF rep_mul_pow [OF a b]]) simp
  have d: "fe_rep d (x ^ (2 ^ 5 - 1))" unfolding d_def by (rule rep_exp [OF rep_mul_pow [OF b rep_sq_pow [OF c]]]) simp
  have e: "fe_rep e (x ^ (2 ^ 10 - 1))" unfolding e_def by (rule rep_exp [OF rep_mul_pow [OF rep_sqn_pow [OF d, of 5 4] d]]) simp_all
  have f: "fe_rep f (x ^ (2 ^ 20 - 1))" unfolding f_def by (rule rep_exp [OF rep_mul_pow [OF rep_sqn_pow [OF e, of 10 9] e]]) simp_all
  have g: "fe_rep g (x ^ (2 ^ 40 - 1))" unfolding g_def by (rule rep_exp [OF rep_mul_pow [OF rep_sqn_pow [OF f, of 20 19] f]]) simp_all
  have h: "fe_rep h (x ^ (2 ^ 50 - 1))" unfolding h_def by (rule rep_exp [OF rep_mul_pow [OF rep_sqn_pow [OF g, of 10 9] e]]) simp_all
  have i: "fe_rep i (x ^ (2 ^ 100 - 1))" unfolding i_def by (rule rep_exp [OF rep_mul_pow [OF rep_sqn_pow [OF h, of 50 49] h]]) simp_all
  have j: "fe_rep j (x ^ (2 ^ 200 - 1))" unfolding j_def by (rule rep_exp [OF rep_mul_pow [OF rep_sqn_pow [OF i, of 100 99] i]]) simp_all
  show "fe_rep (fst (fe_pow_front z)) (x ^ (2 ^ 250 - 1))"
    unfolding pf fst_conv by (rule rep_exp [OF rep_mul_pow [OF rep_sqn_pow [OF j, of 50 49] h]]) simp_all
  show "fe_rep (snd (fe_pow_front z)) (x ^ 11)" unfolding pf snd_conv by (rule c)
qed

lemma rep_invert:
  assumes z: "fe_rep z x"
  shows "fe_rep (fe_invert z) (x ^ (2 ^ 255 - 21))"
proof -
  have e: "fe_invert z = fe_mul (fe_sqn (fst (fe_pow_front z)) 5) (snd (fe_pow_front z))"
    unfolding fe_invert_def by (simp add: case_prod_beta Let_def)
  show ?thesis
    unfolding e by (rule rep_exp [OF rep_mul_pow [OF rep_sqn_pow [OF fe_pow_front_rep(1) [OF z], of 5 4] fe_pow_front_rep(2) [OF z]]]) simp_all
qed

text \<open>The swap.\<close>

lemma cswap_limb_eq: "cswap_limb 0 a b = (a, b)" "cswap_limb (- 1) a b = (b, a)"
proof -
  show "cswap_limb 0 a b = (a, b)" by (simp add: cswap_limb_def)
  have "a XOR (a XOR b) = b" "b XOR (a XOR b) = a" by (simp_all add: xor.left_commute xor.assoc [symmetric]) 
  then show "cswap_limb (- 1) a b = (b, a)" by (simp add: cswap_limb_def)
qed

lemma fe_cswap_eq: "fe_cswap f g 0 = (f, g)" "fe_cswap f g 1 = (g, f)"
  by (cases f; cases g; simp add: fe_cswap_def cswap_limb_eq)+

end
