(* ===== verification/Curve_Bytes.thy ===== *)
theory Curve_Bytes
  imports Curve_Ops Poly_Tag
begin

text \<open>
  Field elements of Curve25519 and bytes: reading drops the 256th bit, and writing gives the number below
  \<open>2^255 - 19\<close> whatever multiple of it the limbs hold.
\<close>

section \<open>Reading\<close>

lemma fe_word_part:
  assumes "8 * i + n \<le> length s" "n \<le> 8"
  shows "unat (foldl (\<lambda>w b. w OR push_bit (8 * b) (ucast (s ! (8 * i + b)))) (0 :: u64) [0..<n]) = le_num (take n (drop (8 * i) s))"
  using assms
proof (induction n)
  case (Suc n)
  define x where "x = foldl (\<lambda>w b. w OR push_bit (8 * b) (ucast (s ! (8 * i + b)))) (0 :: u64) [0..<n]"
  define c where "c = s ! (8 * i + n)"
  have x: "unat x = le_num (take n (drop (8 * i) s))" unfolding x_def by (rule Suc.IH) (use Suc.prems in auto)
  have l: "length (take n (drop (8 * i) s)) = n" using Suc.prems by simp
  have p: "(256 :: nat) ^ n = 2 ^ (8 * n)" by (simp add: power_mult)
  have xb: "unat x < 2 ^ (8 * n)" using le_num_less [of "take n (drop (8 * i) s)"] unfolding x l p .
  have u: "unat (ucast c :: u64) = unat c" by (rule unat_ucast_bigger) simp
  have "8 * n + 8 \<le> 64" using Suc.prems by simp
  then have A: "2 ^ (8 * n) * 2 ^ 8 \<le> (2 :: nat) ^ 64" unfolding power_add [symmetric] by (rule power_increasing) simp
  have "2 ^ (8 * n) * unat c < 2 ^ (8 * n) * 2 ^ 8" using unat_byte [of c] by simp
  from less_le_trans [OF this A] have cb: "2 ^ (8 * n) * unat (ucast c :: u64) < 2 ^ LENGTH(64)" unfolding u by simp
  have t: "take (Suc n) (drop (8 * i) s) = take n (drop (8 * i) s) @ [c]"
    using Suc.prems unfolding c_def by (simp add: take_Suc_conv_app_nth)
  show ?case
    unfolding t le_num_append l p x [symmetric] using unat_or_push [OF xb cb, unfolded u] unfolding x_def c_def by simp
qed simp

lemma fe_word_num: "8 * i + 8 \<le> length s \<Longrightarrow> unat (fe_word s i) = le_num (take 8 (drop (8 * i) s))"
  unfolding fe_word_def by (rule fe_word_part) simp_all

lemma le_num_words:
  assumes "length s = 32"
  shows "le_num s = unat (fe_word s 0) + 2 ^ 64 * unat (fe_word s 1) + 2 ^ 128 * unat (fe_word s 2) + 2 ^ 192 * unat (fe_word s 3)"
proof -
  have "s = take 8 s @ take 8 (drop 8 s) @ take 8 (drop 16 s) @ take 8 (drop 24 s)"
    using assms take_add [of 8 8 "drop 16 s"] take_add [of 8 16 "drop 8 s"] take_add [of 8 24 s] by simp
  then have "le_num s = le_num (take 8 s @ take 8 (drop 8 s) @ take 8 (drop 16 s) @ take 8 (drop 24 s))" by simp
  then show ?thesis using assms by (simp add: le_num_append fe_word_num)
qed

lemma mod_high: "a < 2 ^ k \<Longrightarrow> k \<le> m \<Longrightarrow> (a + 2 ^ k * x) mod 2 ^ m = a + 2 ^ k * (x mod 2 ^ (m - k) :: nat)"
proof -
  assume a: "a < 2 ^ k" and k: "k \<le> m"
  have p: "(2 :: nat) ^ m = 2 ^ k * 2 ^ (m - k)" using k by (simp add: power_add [symmetric])
  have "(a + 2 ^ k * x) mod (2 ^ k * 2 ^ (m - k)) = 2 ^ k * ((a + 2 ^ k * x) div 2 ^ k mod 2 ^ (m - k)) + (a + 2 ^ k * x) mod 2 ^ k"
    by (rule mod_mult2_eq)
  then show ?thesis unfolding p using a by simp
qed

lemma limb_join:
  assumes "unat (x :: u64) < 2 ^ k" "k \<le> 51"
  shows "unat ((x OR push_bit k w) AND FE_M51) = unat x + 2 ^ k * (unat w mod 2 ^ (51 - k))"
proof -
  have "(2 :: nat) ^ (51 - k) dvd 2 ^ (64 - k)" by (rule le_imp_power_dvd) simp
  then have "unat w mod 2 ^ (64 - k) mod 2 ^ (51 - k) = unat w mod 2 ^ (51 - k)" by (rule mod_mod_cancel)
  then show ?thesis
    using mod_high [OF assms, of "unat w mod 2 ^ (64 - k)"] unat_or_wrap [OF assms(1), of w] assms(2) unfolding unat_M51 by simp
qed

lemma drop_less: "unat (drop_bit k (w :: u64)) < 2 ^ (64 - k)"
proof (cases "k \<le> 64")
  case True
  have "unat w < 2 ^ (64 - k) * 2 ^ k" using unat_u64 [of w] True by (simp add: power_add [symmetric])
  then show ?thesis unfolding unat_drop by (rule less_mult_imp_div_less)
next
  case False
  have "unat w < 2 ^ k" using power_increasing [of 64 k "2 :: nat"] unat_u64 [of w] False by linarith
  then show ?thesis unfolding unat_drop by simp
qed

lemma fe_frombytes_num:
  assumes l: "length s = 32"
  shows "fe_ok (fe_frombytes s)" and "fval (fe_frombytes s) = le_num s mod 2 ^ 255"
proof -
  define w0 where "w0 = fe_word s 0"
  define w1 where "w1 = fe_word s 1"
  define w2 where "w2 = fe_word s 2"
  define w3 where "w3 = fe_word s 3"
  have e: "fe_frombytes s = (w0 AND FE_M51, (drop_bit 51 w0 OR push_bit 13 w1) AND FE_M51, (drop_bit 38 w1 OR push_bit 26 w2) AND FE_M51,
      (drop_bit 25 w2 OR push_bit 39 w3) AND FE_M51, drop_bit 12 w3 AND FE_M51)"
    unfolding fe_frombytes_def Let_def w0_def w1_def w2_def w3_def ..
  have m: "unat (w AND FE_M51) < 2 ^ 51" for w unfolding unat_M51 by simp
  have h1: "unat ((drop_bit 51 w0 OR push_bit 13 w1) AND FE_M51) = unat w0 div 2 ^ 51 + 2 ^ 13 * (unat w1 mod 2 ^ 38)"
    using limb_join [of "drop_bit 51 w0" 13 w1] drop_less [of 51 w0] by (simp add: unat_drop)
  have h2: "unat ((drop_bit 38 w1 OR push_bit 26 w2) AND FE_M51) = unat w1 div 2 ^ 38 + 2 ^ 26 * (unat w2 mod 2 ^ 25)"
    using limb_join [of "drop_bit 38 w1" 26 w2] drop_less [of 38 w1] by (simp add: unat_drop)
  have h3: "unat ((drop_bit 25 w2 OR push_bit 39 w3) AND FE_M51) = unat w2 div 2 ^ 25 + 2 ^ 39 * (unat w3 mod 2 ^ 12)"
    using limb_join [of "drop_bit 25 w2" 39 w3] drop_less [of 25 w2] by (simp add: unat_drop)
  show "fe_ok (fe_frombytes s)"
    unfolding e fe_ok.simps using m [of w0] m [of "drop_bit 51 w0 OR push_bit 13 w1"] m [of "drop_bit 38 w1 OR push_bit 26 w2"]
      m [of "drop_bit 25 w2 OR push_bit 39 w3"] m [of "drop_bit 12 w3"] by simp
  define a0 where "a0 = unat w0 div 2 ^ 51"
  define b0 where "b0 = unat w0 mod 2 ^ 51"
  define a1 where "a1 = unat w1 div 2 ^ 38"
  define b1 where "b1 = unat w1 mod 2 ^ 38"
  define a2 where "a2 = unat w2 div 2 ^ 25"
  define b2 where "b2 = unat w2 mod 2 ^ 25"
  define a3 where "a3 = unat w3 div 2 ^ 12"
  define b3 where "b3 = unat w3 mod 2 ^ 12"
  define c where "c = a3 mod 2 ^ 51"
  define d where "d = a3 div 2 ^ 51"
  have s0: "b0 + 2 ^ 51 * a0 = unat w0" unfolding a0_def b0_def by (rule mod_mult_div_eq)
  have s1: "b1 + 2 ^ 38 * a1 = unat w1" unfolding a1_def b1_def by (rule mod_mult_div_eq)
  have s2: "b2 + 2 ^ 25 * a2 = unat w2" unfolding a2_def b2_def by (rule mod_mult_div_eq)
  have s3: "b3 + 2 ^ 12 * a3 = unat w3" unfolding a3_def b3_def by (rule mod_mult_div_eq)
  have s4: "c + 2 ^ 51 * d = a3" unfolding c_def d_def by (rule mod_mult_div_eq)
  have h0: "unat (w0 AND FE_M51) = b0" unfolding unat_M51 b0_def ..
  have h4: "unat (drop_bit 12 w3 AND FE_M51) = c" unfolding unat_M51 unat_drop c_def a3_def ..
  define V where "V = b0 + 2 ^ 51 * (a0 + 2 ^ 13 * b1) + 2 ^ 102 * (a1 + 2 ^ 26 * b2) + 2 ^ 153 * (a2 + 2 ^ 39 * b3) + 2 ^ 204 * c"
  have fv: "fval (fe_frombytes s) = V"
    unfolding e fval.simps h0 h1 h2 h3 h4 V_def a0_def b1_def a1_def b2_def a2_def b3_def by simp
  have "le_num s = V + 2 ^ 255 * d"
    unfolding le_num_words [OF l] w0_def [symmetric] w1_def [symmetric] w2_def [symmetric] w3_def [symmetric] s0 [symmetric] s1 [symmetric]
      s2 [symmetric] s3 [symmetric] s4 [symmetric] V_def by simp
  moreover have "V < 2 ^ 255"
  proof -
    have "b0 < 2 ^ 51" "a0 + 2 ^ 13 * b1 < 2 ^ 51" "a1 + 2 ^ 26 * b2 < 2 ^ 51" "a2 + 2 ^ 39 * b3 < 2 ^ 51" "c < 2 ^ 51"
      using m [of w0] m [of "drop_bit 51 w0 OR push_bit 13 w1"] m [of "drop_bit 38 w1 OR push_bit 26 w2"]
        m [of "drop_bit 25 w2 OR push_bit 39 w3"] m [of "drop_bit 12 w3"]
      unfolding h0 h1 h2 h3 h4 a0_def b1_def a1_def b2_def a2_def b3_def by simp_all
    then show ?thesis unfolding V_def by simp
  qed
  ultimately show "fval (fe_frombytes s) = le_num s mod 2 ^ 255" unfolding fv by simp
qed

section \<open>Writing\<close>

lemma div_carry:
  fixes m0 m1 m2 m3 m4 q N :: nat
  assumes "N = m0 + 2 ^ 51 * m1 + 2 ^ 102 * m2 + 2 ^ 153 * m3 + 2 ^ 204 * m4 + 2 ^ 255 * q"
    and "m0 < 2 ^ 51" "m1 < 2 ^ 51" "m2 < 2 ^ 51" "m3 < 2 ^ 51" "m4 < 2 ^ 51"
  shows "N div 2 ^ 255 = q" and "N mod 2 ^ 255 = m0 + 2 ^ 51 * m1 + 2 ^ 102 * m2 + 2 ^ 153 * m3 + 2 ^ 204 * m4"
proof -
  define R where "R = m0 + 2 ^ 51 * m1 + 2 ^ 102 * m2 + 2 ^ 153 * m3 + 2 ^ 204 * m4"
  have R: "R < 2 ^ 255" unfolding R_def using assms(2-6) by simp
  have N: "N = R + 2 ^ 255 * q" unfolding R_def by (rule assms(1))
  show "N div 2 ^ 255 = q" using R unfolding N by simp
  show "N mod 2 ^ 255 = m0 + 2 ^ 51 * m1 + 2 ^ 102 * m2 + 2 ^ 153 * m3 + 2 ^ 204 * m4"
    unfolding R_def [symmetric] unfolding N mod_mult_self2 using R by simp
qed

lemma split51: "unat (w AND FE_M51) + 2 ^ 51 * unat (drop_bit 51 w) = unat w" and low51_less: "unat (w AND FE_M51) < 2 ^ 51"
proof -
  show "unat (w AND FE_M51) + 2 ^ 51 * unat (drop_bit 51 w) = unat w" unfolding unat_M51 unat_drop by (rule mod_mult_div_eq)
  show "unat (w AND FE_M51) < 2 ^ 51" unfolding unat_M51 by simp
qed

text \<open>The bit that says whether the value is at least \<open>p\<close>.\<close>

definition fe_over :: "fe \<Rightarrow> u64" where
  "fe_over h = (case h of (h0, h1, h2, h3, h4) \<Rightarrow>
    drop_bit 51 (h4 + drop_bit 51 (h3 + drop_bit 51 (h2 + drop_bit 51 (h1 + drop_bit 51 (h0 + 19))))))"

lemma drop51_less: "unat a < 2 ^ 52 \<Longrightarrow> unat b < 20 \<Longrightarrow> unat (a + b) = unat a + unat b \<and> unat (drop_bit 51 (a + b :: u64)) < 3"
proof -
  assume a: "unat a < 2 ^ 52" and b: "unat b < 20"
  have s: "unat (a + b) = unat a + unat b" using a b by (intro add64) simp
  have "unat (drop_bit 51 (a + b)) < 3" unfolding unat_drop s using a b by (intro less_mult_imp_div_less) simp
  then show ?thesis using s by simp
qed

lemma fe_over_num:
  assumes h: "fe_ok h"
  shows "unat (fe_over h) = (fval h + 19) div 2 ^ 255"
proof -
  obtain h0 h1 h2 h3 h4 where hh: "h = (h0, h1, h2, h3, h4)" by (cases h)
  note b = fe_ok_52 [OF h [unfolded hh]]
  define k0 where "k0 = h0 + 19"
  define k1 where "k1 = h1 + drop_bit 51 k0"
  define k2 where "k2 = h2 + drop_bit 51 k1"
  define k3 where "k3 = h3 + drop_bit 51 k2"
  define k4 where "k4 = h4 + drop_bit 51 k3"
  have e: "fe_over h = drop_bit 51 k4" unfolding fe_over_def hh case_prod_conv k4_def k3_def k2_def k1_def k0_def ..
  have k0: "unat k0 = unat h0 + 19" "unat (drop_bit 51 k0) < 20" using drop51_less [of h0 19] b unfolding k0_def by auto
  have k1: "unat k1 = unat h1 + unat (drop_bit 51 k0)" "unat (drop_bit 51 k1) < 20" using drop51_less [of h1 "drop_bit 51 k0"] b k0 unfolding k1_def by auto
  have k2: "unat k2 = unat h2 + unat (drop_bit 51 k1)" "unat (drop_bit 51 k2) < 20" using drop51_less [of h2 "drop_bit 51 k1"] b k1 unfolding k2_def by auto
  have k3: "unat k3 = unat h3 + unat (drop_bit 51 k2)" "unat (drop_bit 51 k3) < 20" using drop51_less [of h3 "drop_bit 51 k2"] b k2 unfolding k3_def by auto
  have k4: "unat k4 = unat h4 + unat (drop_bit 51 k3)" using drop51_less [of h4 "drop_bit 51 k3"] b k3 unfolding k4_def by auto
  have "fval h + 19 = unat (k0 AND FE_M51) + 2 ^ 51 * unat (k1 AND FE_M51) + 2 ^ 102 * unat (k2 AND FE_M51) +
      2 ^ 153 * unat (k3 AND FE_M51) + 2 ^ 204 * unat (k4 AND FE_M51) + 2 ^ 255 * unat (drop_bit 51 k4)"
    unfolding hh fval.simps using k0(1) k1(1) k2(1) k3(1) k4 split51 [of k0] split51 [of k1] split51 [of k2] split51 [of k3] split51 [of k4] by simp
  from div_carry(1) [OF this low51_less low51_less low51_less low51_less low51_less] show ?thesis unfolding e by simp
qed

text \<open>The four words of five limbs within their widths.\<close>

lemma limb_word:
  assumes "unat (x :: u64) < 2 ^ k" "k \<le> 64"
  shows "unat (x OR push_bit k w) = unat x + 2 ^ k * (unat w mod 2 ^ (64 - k))"
  by (rule unat_or_wrap [OF assms])

lemma fe_words_bytes:
  assumes n: "unat n0 < 2 ^ 51" "unat n1 < 2 ^ 51" "unat n2 < 2 ^ 51" "unat n3 < 2 ^ 51" "unat n4 < 2 ^ 51"
  shows "concat (map le64_bytes [n0 OR push_bit 51 n1, drop_bit 13 n1 OR push_bit 38 n2, drop_bit 26 n2 OR push_bit 25 n3, drop_bit 39 n3 OR push_bit 12 n4])
    = le_bytes 32 (fval (n0, n1, n2, n3, n4))"
proof -
  define w0 where "w0 = n0 OR push_bit 51 n1"
  define w1 where "w1 = drop_bit 13 n1 OR push_bit 38 n2"
  define w2 where "w2 = drop_bit 26 n2 OR push_bit 25 n3"
  define w3 where "w3 = drop_bit 39 n3 OR push_bit 12 n4"
  have d: "unat w < 2 ^ 51 \<Longrightarrow> k \<le> 51 \<Longrightarrow> unat (drop_bit k w) < 2 ^ (51 - k)" for w :: u64 and k
    unfolding unat_drop by (rule less_mult_imp_div_less) (simp add: power_add [symmetric])
  have w0: "unat w0 = unat n0 + 2 ^ 51 * (unat n1 mod 2 ^ 13)" unfolding w0_def using limb_word [of n0 51 n1] n by simp
  have w1: "unat w1 = unat n1 div 2 ^ 13 + 2 ^ 38 * (unat n2 mod 2 ^ 26)"
    unfolding w1_def using limb_word [of "drop_bit 13 n1" 38 n2] d [OF n(2), of 13] by (simp add: unat_drop)
  have w2: "unat w2 = unat n2 div 2 ^ 26 + 2 ^ 25 * (unat n3 mod 2 ^ 39)"
    unfolding w2_def using limb_word [of "drop_bit 26 n2" 25 n3] d [OF n(3), of 26] by (simp add: unat_drop)
  have w3: "unat w3 = unat n3 div 2 ^ 39 + 2 ^ 12 * unat n4"
    unfolding w3_def using limb_word [of "drop_bit 39 n3" 12 n4] d [OF n(4), of 39] n(5) by (simp add: unat_drop)
  define a1 where "a1 = unat n1 mod 2 ^ 13"
  define b1 where "b1 = unat n1 div 2 ^ 13"
  define a2 where "a2 = unat n2 mod 2 ^ 26"
  define b2 where "b2 = unat n2 div 2 ^ 26"
  define a3 where "a3 = unat n3 mod 2 ^ 39"
  define b3 where "b3 = unat n3 div 2 ^ 39"
  have s1: "a1 + 2 ^ 13 * b1 = unat n1" unfolding a1_def b1_def by (rule mod_mult_div_eq)
  have s2: "a2 + 2 ^ 26 * b2 = unat n2" unfolding a2_def b2_def by (rule mod_mult_div_eq)
  have s3: "a3 + 2 ^ 39 * b3 = unat n3" unfolding a3_def b3_def by (rule mod_mult_div_eq)
  have v: "fval (n0, n1, n2, n3, n4) = unat w0 + 2 ^ 64 * (unat w1 + 2 ^ 64 * (unat w2 + 2 ^ 64 * unat w3))"
    unfolding fval.simps w0 [folded a1_def] w1 [folded b1_def a2_def] w2 [folded b2_def a3_def] w3 [folded b3_def]
      s1 [symmetric] s2 [symmetric] s3 [symmetric] by simp
  have 32: "32 = 8 + (8 + (8 + (8 :: nat)))" by simp
  have "le_bytes 32 (fval (n0, n1, n2, n3, n4)) = le_bytes 8 (unat w0) @ le_bytes 8 (unat w1) @ le_bytes 8 (unat w2) @ le_bytes 8 (unat w3)"
    unfolding v 32 le_bytes_words [OF unat_u64] ..
  then show ?thesis unfolding w0_def [symmetric] w1_def [symmetric] w2_def [symmetric] w3_def [symmetric] by (simp add: le64_bytes_num)
qed

lemma fe_ok_less: "fe_ok h \<Longrightarrow> fval h < 2 ^ 255 + 2 ^ 64"
  by (cases h) auto

lemma fe_tobytes_num:
  assumes f: "fe_ok f"
  shows "fe_tobytes f = le_bytes 32 (fval f mod FE_P)"
proof -
  have lo: "fe_loose f" using f by (cases f) auto
  obtain h0 h1 h2 h3 h4 where hh: "fe_carry f = (h0, h1, h2, h3, h4)" by (cases "fe_carry f")
  have ok: "fe_ok (h0, h1, h2, h3, h4)" using fe_carry_nat(1) [OF lo] unfolding hh .
  note b = fe_ok_52 [OF ok]
  define V where "V = fval (h0, h1, h2, h3, h4)"
  have cong: "fval f mod FE_P = V mod FE_P"
  proof -
    obtain q where "V + FE_P * q = fval f" using fe_carry_nat(2) [OF lo] unfolding hh V_def by blast
    then show ?thesis by (metis mod_mult_self2)
  qed
  define q where "q = fe_over (h0, h1, h2, h3, h4)"
  have q: "unat q = (V + 19) div 2 ^ 255" unfolding q_def V_def by (rule fe_over_num [OF ok])
  have Vb: "V < 2 ^ 255 + 2 ^ 64" unfolding V_def by (rule fe_ok_less [OF ok])
  have q1: "unat q < 2" unfolding q using Vb by (intro less_mult_imp_div_less) simp
  define k0 where "k0 = h0 + 19 * q"
  define k1 where "k1 = h1 + drop_bit 51 k0"
  define k2 where "k2 = h2 + drop_bit 51 k1"
  define k3 where "k3 = h3 + drop_bit 51 k2"
  define k4 where "k4 = h4 + drop_bit 51 k3"
  have n19: "unat (19 * q) = 19 * unat q" using mult64 [of 19 q] q1 by simp
  have k0: "unat k0 = unat h0 + 19 * unat q" "unat (drop_bit 51 k0) < 20"
    using drop51_less [of h0 "19 * q"] b q1 unfolding k0_def n19 by auto
  have k1: "unat k1 = unat h1 + unat (drop_bit 51 k0)" "unat (drop_bit 51 k1) < 20" using drop51_less [of h1 "drop_bit 51 k0"] b k0 unfolding k1_def by auto
  have k2: "unat k2 = unat h2 + unat (drop_bit 51 k1)" "unat (drop_bit 51 k2) < 20" using drop51_less [of h2 "drop_bit 51 k1"] b k1 unfolding k2_def by auto
  have k3: "unat k3 = unat h3 + unat (drop_bit 51 k2)" "unat (drop_bit 51 k3) < 20" using drop51_less [of h3 "drop_bit 51 k2"] b k2 unfolding k3_def by auto
  have k4: "unat k4 = unat h4 + unat (drop_bit 51 k3)" using drop51_less [of h4 "drop_bit 51 k3"] b k3 unfolding k4_def by auto
  have tb: "fe_tobytes f = concat (map le64_bytes [(k0 AND FE_M51) OR push_bit 51 (k1 AND FE_M51),
      drop_bit 13 (k1 AND FE_M51) OR push_bit 38 (k2 AND FE_M51), drop_bit 26 (k2 AND FE_M51) OR push_bit 25 (k3 AND FE_M51),
      drop_bit 39 (k3 AND FE_M51) OR push_bit 12 (k4 AND FE_M51)])"
    unfolding fe_tobytes_def hh case_prod_conv Let_def le64_bytes_def k4_def k3_def k2_def k1_def k0_def q_def fe_over_def ..
  define R where "R = fval (k0 AND FE_M51, k1 AND FE_M51, k2 AND FE_M51, k3 AND FE_M51, k4 AND FE_M51)"
  have out: "fe_tobytes f = le_bytes 32 R"
    unfolding tb R_def by (rule fe_words_bytes [OF low51_less low51_less low51_less low51_less low51_less])
  have "V + 19 * unat q = unat (k0 AND FE_M51) + 2 ^ 51 * unat (k1 AND FE_M51) + 2 ^ 102 * unat (k2 AND FE_M51) +
      2 ^ 153 * unat (k3 AND FE_M51) + 2 ^ 204 * unat (k4 AND FE_M51) + 2 ^ 255 * unat (drop_bit 51 k4)"
    unfolding V_def fval.simps using k0(1) k1(1) k2(1) k3(1) k4 split51 [of k0] split51 [of k1] split51 [of k2] split51 [of k3] split51 [of k4] by simp
  from div_carry(2) [OF this low51_less low51_less low51_less low51_less low51_less]
  have R: "(V + 19 * unat q) mod 2 ^ 255 = R" unfolding R_def by simp
  have "R = V mod FE_P"
  proof (cases "V < FE_P")
    case True
    then have "unat q = 0" unfolding q FE_P_def by simp
    then show ?thesis using R True unfolding FE_P_def by simp
  next
    case False
    then have ge: "2 ^ 255 \<le> V + 19" unfolding FE_P_def by simp
    then have "unat q \<noteq> 0" unfolding q by (simp add: div_eq_0_iff)
    then have "unat q = 1" using q1 by linarith
    then have "R = V + 19 - 2 ^ 255" using R ge Vb by (simp add: mod_if [of "V + 19"])
    moreover have "V mod FE_P = V - FE_P"
      using False Vb by (simp add: mod_if [of V] FE_P_def)
    ultimately show ?thesis unfolding FE_P_def by simp
  qed
  then show ?thesis unfolding out cong by simp
qed

lemma fe_tobytes_rep:
  assumes "fe_rep f x"
  shows "fe_tobytes f = le_bytes 32 (nat (x mod int FE_P))"
proof -
  have ok: "fe_ok f" and e: "int (fval f) mod int FE_P = x mod int FE_P" using assms by (auto simp: fe_rep_def)
  have "int (fval f mod FE_P) = x mod int FE_P" using e by (simp add: zmod_int)
  then have "fval f mod FE_P = nat (x mod int FE_P)" by linarith
  then show ?thesis unfolding fe_tobytes_num [OF ok] by simp
qed

lemma fe_frombytes_rep: "length s = 32 \<Longrightarrow> fe_rep (fe_frombytes s) (int (le_num s mod 2 ^ 255))"
  using fe_frombytes_num [of s] by (simp add: fe_rep_def)

end
