(* ===== verification/X25519.thy ===== *)
theory X25519
  imports Curve_Bytes
begin

text \<open>
  X25519 (\<^verbatim>\<open>src/proven/crypto_25519.c\<close>, \<^verbatim>\<open>src/proven/kex.c\<close>) against RFC 7748: the constant-time ladder,
  whose swaps are delayed and made by mask, computes the Montgomery ladder over the integers modulo
  \<open>2^255 - 19\<close>.
\<close>

section \<open>The code\<close>

definition x25519_clamp :: "byte list \<Rightarrow> byte list" where
  "x25519_clamp scalar = (let k = scalar[0 := scalar ! 0 AND 248]; k = k[31 := k ! 31 AND 127] in k[31 := k ! 31 OR 64])"

type_synonym ladder = "fe \<times> fe \<times> fe \<times> fe \<times> u32"

definition x25519_step :: "byte list \<Rightarrow> fe \<Rightarrow> nat \<Rightarrow> ladder \<Rightarrow> ladder" where
  "x25519_step k x1 pos s =
    (let (x2, z2, x3, z3, swap) = s;
         b' = ucast (drop_bit (pos mod 8) (k ! (pos div 8))) AND 1;
         swap = swap XOR b';
         (x2, x3) = fe_cswap x2 x3 swap; (z2, z3) = fe_cswap z2 z3 swap;
         swap = b';
         a = fe_add x2 z2; aa = fe_sq a;
         b = fe_sub x2 z2; bb = fe_sq b;
         e = fe_sub aa bb;
         c = fe_add x3 z3; d = fe_sub x3 z3;
         da = fe_mul d a; cb = fe_mul c b;
         t = fe_add da cb; x3 = fe_sq t;
         t = fe_sub da cb; t = fe_sq t; z3 = fe_mul x1 t;
         x2 = fe_mul aa bb;
         t = fe_mul_small e 121665; t = fe_add aa t; z2 = fe_mul e t in
     (x2, z2, x3, z3, swap))"

primrec x25519_loop :: "byte list \<Rightarrow> fe \<Rightarrow> nat \<Rightarrow> ladder \<Rightarrow> ladder" where
  "x25519_loop k x1 0 s = s"
| "x25519_loop k x1 (Suc pos) s = x25519_loop k x1 pos (x25519_step k x1 pos s)"

definition proven_crypto_x25519 :: "byte list \<Rightarrow> byte list \<Rightarrow> bool \<times> byte list" where
  "proven_crypto_x25519 scalar u =
    (let k = x25519_clamp scalar; x1 = fe_frombytes u;
         (x2, z2, x3, z3, swap) = x25519_loop k x1 255 (fe_one, fe_zero, x1, fe_one, 0);
         (x2, x3) = fe_cswap x2 x3 swap; (z2, z3) = fe_cswap z2 z3 swap;
         z2 = fe_invert z2; x2 = fe_mul x2 z2;
         out = fe_tobytes x2;
         acc = foldl (OR) 0 out in
     (acc \<noteq> 0, out))"

definition proven_crypto_x25519_public :: "byte list \<Rightarrow> byte list" where
  "proven_crypto_x25519_public scalar = snd (proven_crypto_x25519 scalar (9 # replicate 31 0))"

definition proven_x25519_public :: "byte list \<Rightarrow> byte list" where
  "proven_x25519_public scalar = proven_crypto_x25519_public scalar"

text \<open>The checked front: \<open>out\<close> says whether there is a place for the result.\<close>

definition proven_x25519 :: "bool \<Rightarrow> byte list option \<Rightarrow> byte list option \<Rightarrow> proven_err \<times> byte list option" where
  "proven_x25519 out scalar peer =
    (case (scalar, peer) of
      (Some s, Some u) \<Rightarrow>
        if \<not> out then (PROVEN_ERR_INVALID_ARG, None)
        else (case proven_crypto_x25519 s u of (nonzero, bytes) \<Rightarrow> (if nonzero then PROVEN_OK else PROVEN_ERR_UNTRUSTED, Some bytes))
    | _ \<Rightarrow> (PROVEN_ERR_INVALID_ARG, None))"

section \<open>RFC 7748\<close>

abbreviation curve_p :: int where "curve_p \<equiv> 2 ^ 255 - 19"

type_synonym point = "int \<times> int"

text \<open>A doubling and a differential addition: from \<open>n P\<close> and \<open>m P\<close>, where \<open>m - n = 1\<close>, to \<open>2 n P\<close> and \<open>(n + m) P\<close>.\<close>

definition mont_step :: "int \<Rightarrow> point \<times> point \<Rightarrow> point \<times> point" where
  "mont_step x1 r =
    (case r of ((x2, z2), (x3, z3)) \<Rightarrow>
      let A = x2 + z2; AA = A ^ 2; B = x2 - z2; BB = B ^ 2; E = AA - BB;
          C = x3 + z3; D = x3 - z3; DA = D * A; CB = C * B in
      ((AA * BB mod curve_p, E * (AA + 121665 * E) mod curve_p), ((DA + CB) ^ 2 mod curve_p, x1 * (DA - CB) ^ 2 mod curve_p)))"

primrec mont_ladder :: "int \<Rightarrow> nat \<Rightarrow> nat \<Rightarrow> point \<times> point \<Rightarrow> point \<times> point" where
  "mont_ladder x1 k 0 r = r"
| "mont_ladder x1 k (Suc t) r =
    mont_ladder x1 k t (if odd (k div 2 ^ t) then prod.swap (mont_step x1 (prod.swap r)) else mont_step x1 r)"

definition rfc_scalar :: "byte list \<Rightarrow> nat" where
  "rfc_scalar s = 2 ^ 254 + 8 * (le_num s mod 2 ^ 254 div 8)"

definition rfc_x25519 :: "byte list \<Rightarrow> byte list \<Rightarrow> byte list" where
  "rfc_x25519 scalar u =
    (let x1 = int (le_num u mod 2 ^ 255);
         ((x2, z2), _) = mont_ladder x1 (rfc_scalar scalar) 255 ((1, 0), (x1, 1)) in
     le_bytes 32 (nat (x2 * z2 ^ (2 ^ 255 - 21) mod curve_p)))"

section \<open>The scalar\<close>

lemma bit_le_num: "bit (le_num bs) n \<longleftrightarrow> n < 8 * length bs \<and> bit (bs ! (n div 8)) (n mod 8)"
proof (induction bs arbitrary: n)
  case (Cons b bs)
  have "(2 ^ 8 * le_num bs) OR unat b = 2 ^ 8 * le_num bs + unat b" by (rule nat_or_high) (use unat_byte [of b] in simp)
  then have e: "le_num (b # bs) = push_bit 8 (le_num bs) OR unat b"
    by (simp add: push_bit_eq_mult mult.commute [of 256] add.commute)
  show ?case
  proof (cases "n < 8")
    case True
    then show ?thesis unfolding e by (simp add: bit_simps)
  next
    case False
    then obtain m where n: "n = m + 8" using le_Suc_ex [of 8 n] by (metis add.commute not_less)
    have "\<not> bit (unat b) (m + 8)" using bit_imp_le_length [of b "m + 8"] by (auto simp: bit_unsigned_iff)
    moreover have "(m + 8) div 8 = Suc (m div 8)" by simp
    ultimately show ?thesis unfolding e n using Cons.IH [of m] by (simp add: bit_simps)
  qed
qed simp

lemma scalar_byte_bit: "(ucast (drop_bit j (b :: byte)) AND 1 :: u32) = of_bool (bit b j)"
proof -
  have "bit (ucast (drop_bit j b) :: u32) 0 = bit b j" by (simp add: bit_simps)
  then have "odd (ucast (drop_bit j b) :: u32) = bit b j" by (simp add: bit_0)
  then show ?thesis by (auto simp: and_one_eq odd_iff_mod_2_eq_one even_iff_mod_2_eq_zero)
qed

lemma nat_and_high: "n AND push_bit k m = push_bit k (drop_bit k n AND (m :: nat))"
  by (rule bit_eqI) (auto simp: bit_simps)

lemma clamp_low_byte: "unat ((b :: byte) AND 248) = 8 * (unat b div 8)"
proof -
  have m: "(248 :: nat) = push_bit 3 (mask 5)" by (simp add: push_bit_eq_mult mask_eq_exp_minus_1)
  have d: "unat b div 8 < 32" using unat_byte [of b] by (intro less_mult_imp_div_less) simp
  have "unat b AND 248 = push_bit 3 (take_bit 5 (drop_bit 3 (unat b)))"
    unfolding m nat_and_high by (simp only: take_bit_eq_mask)
  also have "\<dots> = 8 * (unat b div 8)" using d by (simp add: push_bit_eq_mult take_bit_eq_mod drop_bit_eq_div)
  finally show ?thesis by (simp add: unsigned_and_eq)
qed

lemma clamp_high_byte: "unat (((b :: byte) AND 127) OR 64) = 64 + unat b mod 64"
proof -
  have m: "(127 :: nat) = mask 7" by (simp add: mask_eq_exp_minus_1)
  have "take_bit 7 n OR push_bit 6 1 = push_bit 6 1 OR take_bit 6 (n :: nat)" for n
  proof (rule bit_eqI)
    fix i :: nat
    have "i < 7 \<longleftrightarrow> i = 6 \<or> i < 6" by auto
    then show "bit (take_bit 7 n OR push_bit 6 1) i = bit (push_bit 6 1 OR take_bit 6 n) i" by (auto simp: bit_simps)
  qed
  from this [of "unat b"] have "(unat b AND 127) OR 64 = (2 ^ 6 * 1) OR (unat b mod 64)"
    unfolding m by (simp add: take_bit_eq_mask [symmetric] take_bit_eq_mod push_bit_eq_mult)
  also have "\<dots> = 2 ^ 6 * 1 + unat b mod 64" by (rule nat_or_high) simp
  finally show ?thesis by (simp add: unsigned_or_eq unsigned_and_eq)
qed

lemmas clamp_bytes = clamp_low_byte clamp_high_byte

lemma clamp_num:
  assumes "length s = 32"
  shows "le_num (x25519_clamp s) = rfc_scalar s" and "length (x25519_clamp s) = 32"
proof -
  obtain a m where s: "s = a # m" "length m = 31" using assms by (cases s) auto
  obtain n z where m: "m = n @ [z]" "length n = 30" using s(2) by (cases m rule: rev_cases) auto
  have c: "x25519_clamp s = (a AND 248) # n @ [(z AND 127) OR 64]"
    using m(2) unfolding s(1) m(1) x25519_clamp_def Let_def by (simp add: nth_append list_update_append nth_Cons')
  show "length (x25519_clamp s) = 32" unfolding c using m(2) by simp
  define N where "N = le_num n"
  have s': "le_num s = unat a + 2 ^ 8 * N + 2 ^ 248 * unat z" unfolding s(1) m(1) N_def using m(2) by (simp add: le_num_append)
  have c': "le_num (x25519_clamp s) = 8 * (unat a div 8) + 2 ^ 8 * N + 2 ^ 248 * (64 + unat z mod 64)"
    unfolding c N_def using m(2) by (simp add: le_num_append clamp_bytes)
  have N: "N < 2 ^ 240" using le_num_less [of n] m(2) unfolding N_def by simp
  have lo: "unat a + 2 ^ 8 * N < 2 ^ 248" using N unat_byte [of a] by simp
  have "le_num s mod 2 ^ 254 = unat a + 2 ^ 8 * N + 2 ^ 248 * (unat z mod 2 ^ (254 - 248))"
    unfolding s' by (rule mod_high [OF lo]) simp
  then have md: "le_num s mod 2 ^ 254 = unat a + 8 * (2 ^ 5 * N + 2 ^ 245 * (unat z mod 64))" by simp
  have "le_num s mod 2 ^ 254 div 8 = unat a div 8 + (2 ^ 5 * N + 2 ^ 245 * (unat z mod 64))" unfolding md by simp
  then show "le_num (x25519_clamp s) = rfc_scalar s" unfolding rfc_scalar_def c' by simp
qed

lemma clamp_bit:
  assumes "length s = 32" "pos < 255"
  shows "(ucast (drop_bit (pos mod 8) (x25519_clamp s ! (pos div 8))) AND 1 :: u32) = of_bool (odd (rfc_scalar s div 2 ^ pos))"
proof -
  have "bit (rfc_scalar s) pos = bit (x25519_clamp s ! (pos div 8)) (pos mod 8)"
    using bit_le_num [of "x25519_clamp s" pos] clamp_num [OF assms(1)] assms(2) by simp
  then show ?thesis unfolding scalar_byte_bit by (simp add: bit_iff_odd)
qed

section \<open>The ladder\<close>

lemma FE_P_int: "int FE_P = curve_p"
  by (simp add: FE_P_def)

lemma rep_mod: "fe_rep f x \<Longrightarrow> fe_rep f (x mod curve_p)"
  by (simp add: fe_rep_def FE_P_int)

definition pair_rep :: "fe \<times> fe \<Rightarrow> point \<Rightarrow> bool" where
  "pair_rep f p \<longleftrightarrow> fe_rep (fst f) (fst p) \<and> fe_rep (snd f) (snd p)"

text \<open>The state of the code is that of the ladder, its two points trading places while a swap is owed.\<close>

definition ladder_rep :: "ladder \<Rightarrow> point \<times> point \<Rightarrow> bool" where
  "ladder_rep s r \<longleftrightarrow>
    (case s of (x2, z2, x3, z3, swap) \<Rightarrow>
      (swap = 0 \<and> pair_rep (x2, z2) (fst r) \<and> pair_rep (x3, z3) (snd r)) \<or>
      (swap = 1 \<and> pair_rep (x2, z2) (snd r) \<and> pair_rep (x3, z3) (fst r)))"

definition x25519_arith :: "fe \<Rightarrow> fe \<Rightarrow> fe \<Rightarrow> fe \<Rightarrow> fe \<Rightarrow> fe \<times> fe \<times> fe \<times> fe" where
  "x25519_arith x1 x2 z2 x3 z3 =
    (let a = fe_add x2 z2; aa = fe_sq a; b = fe_sub x2 z2; bb = fe_sq b; e = fe_sub aa bb;
         c = fe_add x3 z3; d = fe_sub x3 z3; da = fe_mul d a; cb = fe_mul c b in
     (fe_mul aa bb, fe_mul e (fe_add aa (fe_mul_small e 121665)), fe_sq (fe_add da cb), fe_mul x1 (fe_sq (fe_sub da cb))))"

lemma x25519_arith_rep:
  assumes x1: "fe_rep x1 X1" and p: "pair_rep (x2, z2) P" and q: "pair_rep (x3, z3) Q"
    and a: "x25519_arith x1 x2 z2 x3 z3 = (x2', z2', x3', z3')"
  shows "pair_rep (x2', z2') (fst (mont_step X1 (P, Q)))" and "pair_rep (x3', z3') (snd (mont_step X1 (P, Q)))"
proof -
  obtain X2 Z2 X3 Z3 where P: "P = (X2, Z2)" and Q: "Q = (X3, Z3)" by (cases P; cases Q)
  have r: "fe_rep x2 X2" "fe_rep z2 Z2" "fe_rep x3 X3" "fe_rep z3 Z3" using p q unfolding P Q pair_rep_def by auto
  define A where "A = X2 + Z2"
  define B where "B = X2 - Z2"
  define E where "E = A * A - B * B"
  define DA where "DA = (X3 - Z3) * A"
  define CB where "CB = (X3 + Z3) * B"
  have ra: "fe_rep (fe_add x2 z2) A" unfolding A_def by (rule rep_add [OF r(1,2)])
  have rb: "fe_rep (fe_sub x2 z2) B" unfolding B_def by (rule rep_sub [OF r(1,2)])
  note aa = rep_sq [OF ra] and bb = rep_sq [OF rb]
  have re: "fe_rep (fe_sub (fe_sq (fe_add x2 z2)) (fe_sq (fe_sub x2 z2))) E" unfolding E_def by (rule rep_sub [OF aa bb])
  have rda: "fe_rep (fe_mul (fe_sub x3 z3) (fe_add x2 z2)) DA" unfolding DA_def by (rule rep_mul [OF rep_sub [OF r(3,4)] ra])
  have rcb: "fe_rep (fe_mul (fe_add x3 z3) (fe_sub x2 z2)) CB" unfolding CB_def by (rule rep_mul [OF rep_add [OF r(3,4)] rb])
  have m: "mont_step X1 (P, Q) =
      ((A * A * (B * B) mod curve_p, E * (A * A + E * 121665) mod curve_p), ((DA + CB) * (DA + CB) mod curve_p, X1 * ((DA - CB) * (DA - CB)) mod curve_p))"
    unfolding mont_step_def P Q case_prod_conv Let_def power2_eq_square A_def B_def E_def DA_def CB_def by (simp only: mult.commute [of 121665])
  have o: "x2' = fe_mul (fe_sq (fe_add x2 z2)) (fe_sq (fe_sub x2 z2))"
    "z2' = fe_mul (fe_sub (fe_sq (fe_add x2 z2)) (fe_sq (fe_sub x2 z2)))
      (fe_add (fe_sq (fe_add x2 z2)) (fe_mul_small (fe_sub (fe_sq (fe_add x2 z2)) (fe_sq (fe_sub x2 z2))) 121665))"
    "x3' = fe_sq (fe_add (fe_mul (fe_sub x3 z3) (fe_add x2 z2)) (fe_mul (fe_add x3 z3) (fe_sub x2 z2)))"
    "z3' = fe_mul x1 (fe_sq (fe_sub (fe_mul (fe_sub x3 z3) (fe_add x2 z2)) (fe_mul (fe_add x3 z3) (fe_sub x2 z2))))"
    using a unfolding x25519_arith_def Let_def by simp_all
  have k: "fe_rep (fe_mul_small (fe_sub (fe_sq (fe_add x2 z2)) (fe_sq (fe_sub x2 z2))) 121665) (E * 121665)"
    using rep_mul_small [OF re, of 121665] by simp
  show "pair_rep (x2', z2') (fst (mont_step X1 (P, Q)))"
    unfolding m pair_rep_def fst_conv snd_conv o
    by (intro conjI rep_mod rep_mul rep_add aa bb re k)
  show "pair_rep (x3', z3') (snd (mont_step X1 (P, Q)))"
    unfolding m pair_rep_def fst_conv snd_conv o
    by (intro conjI rep_mod rep_mul rep_sq rep_add rep_sub x1 rda rcb)
qed

lemma x25519_step_eq:
  assumes "(ucast (drop_bit (pos mod 8) (k ! (pos div 8))) AND 1 :: u32) = b"
    and "fe_cswap x2 x3 (swap XOR b) = (y2, y3)" "fe_cswap z2 z3 (swap XOR b) = (w2, w3)"
    and "x25519_arith x1 y2 w2 y3 w3 = (x2', z2', x3', z3')"
  shows "x25519_step k x1 pos (x2, z2, x3, z3, swap) = (x2', z2', x3', z3', b)"
  using assms(4) unfolding x25519_step_def x25519_arith_def Let_def case_prod_conv assms(1-3) by simp

lemma x25519_step_rep:
  assumes l: "length s = 32" "pos < 255" and x1: "fe_rep x1 X1" and st: "ladder_rep st (P, Q)"
  shows "ladder_rep (x25519_step (x25519_clamp s) x1 pos st)
    (if odd (rfc_scalar s div 2 ^ pos) then prod.swap (mont_step X1 (prod.swap (P, Q))) else mont_step X1 (P, Q))"
proof -
  obtain x2 z2 x3 z3 swap where ss: "st = (x2, z2, x3, z3, swap)" by (cases st)
  define od where "od = odd (rfc_scalar s div 2 ^ pos)"
  note b = clamp_bit [OF l, folded od_def]
  obtain y2 y3 where y: "fe_cswap x2 x3 (swap XOR of_bool od) = (y2, y3)" by (rule prod.exhaust)
  obtain w2 w3 where w: "fe_cswap z2 z3 (swap XOR of_bool od) = (w2, w3)" by (rule prod.exhaust)
  obtain x2' z2' x3' z3' where a: "x25519_arith x1 y2 w2 y3 w3 = (x2', z2', x3', z3')" by (cases "x25519_arith x1 y2 w2 y3 w3") auto
  note e = x25519_step_eq [OF b y w a]
  define R where "R = (if od then prod.swap (P, Q) else (P, Q))"
  have "pair_rep (y2, w2) (fst R) \<and> pair_rep (y3, w3) (snd R)"
    using st y w unfolding ss ladder_rep_def R_def by (cases od) (auto simp: fe_cswap_eq)
  then have p: "pair_rep (y2, w2) (fst R)" and q: "pair_rep (y3, w3) (snd R)" by auto
  note r = x25519_arith_rep [OF x1 p q a]
  have "ladder_rep (x2', z2', x3', z3', of_bool od) (if od then prod.swap (mont_step X1 R) else mont_step X1 R)"
    using r unfolding ladder_rep_def by (cases od) auto
  then show ?thesis unfolding ss e od_def [symmetric] R_def by (cases od) auto
qed

lemma x25519_loop_rep:
  assumes "length s = 32" "n \<le> 255" "fe_rep x1 X1" "ladder_rep st r"
  shows "ladder_rep (x25519_loop (x25519_clamp s) x1 n st) (mont_ladder X1 (rfc_scalar s) n r)"
  using assms(2,4)
proof (induction n arbitrary: st r)
  case (Suc n)
  obtain P Q where r: "r = (P, Q)" by (cases r)
  have "ladder_rep (x25519_step (x25519_clamp s) x1 n st)
      (if odd (rfc_scalar s div 2 ^ n) then prod.swap (mont_step X1 (prod.swap r)) else mont_step X1 r)"
    unfolding r by (rule x25519_step_rep [OF assms(1) _ assms(3)]) (use Suc.prems r in auto)
  from Suc.IH [OF _ this] show ?case using Suc.prems(1) by simp
qed simp

lemma x25519_out:
  assumes l: "length scalar = 32" "length u = 32"
  shows "snd (proven_crypto_x25519 scalar u) = rfc_x25519 scalar u"
proof -
  define X1 where "X1 = int (le_num u mod 2 ^ 255)"
  define x1 where "x1 = fe_frombytes u"
  have x1: "fe_rep x1 X1" unfolding x1_def X1_def by (rule fe_frombytes_rep [OF l(2)])
  have start: "ladder_rep (fe_one, fe_zero, x1, fe_one, 0) ((1, 0), (X1, 1))"
    using x1 by (simp add: ladder_rep_def pair_rep_def rep_one rep_zero)
  define st where "st = x25519_loop (x25519_clamp scalar) x1 255 (fe_one, fe_zero, x1, fe_one, 0)"
  have fin: "ladder_rep st (mont_ladder X1 (rfc_scalar scalar) 255 ((1, 0), (X1, 1)))"
    unfolding st_def by (rule x25519_loop_rep [OF l(1) _ x1 start]) simp
  obtain X2 Z2 Q where m: "mont_ladder X1 (rfc_scalar scalar) 255 ((1, 0), (X1, 1)) = ((X2, Z2), Q)"
    by (metis prod.collapse)
  obtain x2 z2 x3 z3 swap where s: "st = (x2, z2, x3, z3, swap)" by (cases st)
  obtain y2 y3 where y: "fe_cswap x2 x3 swap = (y2, y3)" by (rule prod.exhaust)
  obtain w2 w3 where w: "fe_cswap z2 z3 swap = (w2, w3)" by (rule prod.exhaust)
  have "fe_rep y2 X2 \<and> fe_rep w2 Z2"
    using fin y w unfolding s m ladder_rep_def by (auto simp: fe_cswap_eq pair_rep_def)
  then have r: "fe_rep y2 X2" "fe_rep w2 Z2" by auto
  have "snd (proven_crypto_x25519 scalar u) = fe_tobytes (fe_mul y2 (fe_invert w2))"
    unfolding proven_crypto_x25519_def Let_def x1_def [symmetric] st_def [symmetric] s case_prod_conv y w by simp
  also have "\<dots> = le_bytes 32 (nat (X2 * Z2 ^ (2 ^ 255 - 21) mod int FE_P))"
    by (rule fe_tobytes_rep [OF rep_mul [OF r(1) rep_invert [OF r(2)]]])
  finally show ?thesis
    unfolding rfc_x25519_def Let_def X1_def [symmetric] m case_prod_conv FE_P_int .
qed

lemma fold_or_zero: "foldl (OR) a bs = 0 \<longleftrightarrow> a = 0 \<and> (\<forall>b \<in> set bs. b = (0 :: byte))"
  by (induction bs arbitrary: a) (auto simp: or_eq_0_iff)

lemma x25519_flag: "fst (proven_crypto_x25519 scalar u) \<longleftrightarrow> (\<exists>b \<in> set (snd (proven_crypto_x25519 scalar u)). b \<noteq> 0)"
  unfolding proven_crypto_x25519_def Let_def by (auto simp: case_prod_beta fold_or_zero)

text \<open>
  C19: X25519 is the function of RFC 7748. For every scalar and every coordinate of 32 bytes, canonical or not,
  the constant-time ladder on five 51-bit limbs (with lazy carries, swaps by mask that wait for the next
  bit, subtraction biased by \<open>2 p\<close>, and the inverse by an addition chain) gives the bytes of
  \<open>x2 z2^(p - 2)\<close> of the Montgomery ladder over the integers modulo \<open>2^255 - 19\<close>; the caller is refused exactly
  when that is zero.
\<close>

theorem x25519_rfc7748:
  assumes "length scalar = 32" "length peer = 32"
  shows "proven_x25519 True (Some scalar) (Some peer) =
    (if \<forall>b \<in> set (rfc_x25519 scalar peer). b = 0 then PROVEN_ERR_UNTRUSTED else PROVEN_OK, Some (rfc_x25519 scalar peer))"
  using x25519_out [OF assms] x25519_flag [of scalar peer]
  by (cases "proven_crypto_x25519 scalar peer") (auto simp: proven_x25519_def)

theorem x25519_rfc7748_witness:
  "proven_x25519 True (Some (replicate 32 1)) (Some (9 # replicate 31 0)) =
    (if \<forall>b \<in> set (rfc_x25519 (replicate 32 1) (9 # replicate 31 0)). b = 0 then PROVEN_ERR_UNTRUSTED else PROVEN_OK,
     Some (rfc_x25519 (replicate 32 1) (9 # replicate 31 0)))"
  by (rule x25519_rfc7748) simp_all

end
