(* ===== verification/Hpack_Tables.thy ===== *)
theory Hpack_Tables
  imports Views
begin

text \<open>
  The tables of HPACK (\<^verbatim>\<open>net/src/hpack_tables.h\<close>): the static fields, the Huffman code of each byte and of EOS
  as its bits and their number, the canonical form of the code that decoding uses, its first eight bits, and
  the static names by their length.
\<close>

definition HPACK_STATIC_COUNT :: nat where "HPACK_STATIC_COUNT = 61"

definition HPACK_STATIC_LONGEST_NAME :: nat where "HPACK_STATIC_LONGEST_NAME = 27"

definition hpack_static :: "(byte list \<times> byte list) list" where
  "hpack_static =
   [(ascii '':authority'', ascii ''''), (ascii '':method'', ascii ''GET''), (ascii '':method'', ascii ''POST''),
   (ascii '':path'', ascii ''/''), (ascii '':path'', ascii ''/index.html''), (ascii '':scheme'', ascii ''http''),
   (ascii '':scheme'', ascii ''https''), (ascii '':status'', ascii ''200''), (ascii '':status'', ascii ''204''),
   (ascii '':status'', ascii ''206''), (ascii '':status'', ascii ''304''), (ascii '':status'', ascii ''400''),
   (ascii '':status'', ascii ''404''), (ascii '':status'', ascii ''500''), (ascii ''accept-charset'', ascii ''''),
   (ascii ''accept-encoding'', ascii ''gzip, deflate''), (ascii ''accept-language'', ascii ''''),
   (ascii ''accept-ranges'', ascii ''''), (ascii ''accept'', ascii ''''), (ascii ''access-control-allow-origin'', ascii ''''),
   (ascii ''age'', ascii ''''), (ascii ''allow'', ascii ''''), (ascii ''authorization'', ascii ''''),
   (ascii ''cache-control'', ascii ''''), (ascii ''content-disposition'', ascii ''''),
   (ascii ''content-encoding'', ascii ''''), (ascii ''content-language'', ascii ''''), (ascii ''content-length'', ascii ''''),
   (ascii ''content-location'', ascii ''''), (ascii ''content-range'', ascii ''''), (ascii ''content-type'', ascii ''''),
   (ascii ''cookie'', ascii ''''), (ascii ''date'', ascii ''''), (ascii ''etag'', ascii ''''), (ascii ''expect'', ascii ''''),
   (ascii ''expires'', ascii ''''), (ascii ''from'', ascii ''''), (ascii ''host'', ascii ''''),
   (ascii ''if-match'', ascii ''''), (ascii ''if-modified-since'', ascii ''''), (ascii ''if-none-match'', ascii ''''),
   (ascii ''if-range'', ascii ''''), (ascii ''if-unmodified-since'', ascii ''''), (ascii ''last-modified'', ascii ''''),
   (ascii ''link'', ascii ''''), (ascii ''location'', ascii ''''), (ascii ''max-forwards'', ascii ''''),
   (ascii ''proxy-authenticate'', ascii ''''), (ascii ''proxy-authorization'', ascii ''''), (ascii ''range'', ascii ''''),
   (ascii ''referer'', ascii ''''), (ascii ''refresh'', ascii ''''), (ascii ''retry-after'', ascii ''''),
   (ascii ''server'', ascii ''''), (ascii ''set-cookie'', ascii ''''), (ascii ''strict-transport-security'', ascii ''''),
   (ascii ''transfer-encoding'', ascii ''''), (ascii ''user-agent'', ascii ''''), (ascii ''vary'', ascii ''''),
   (ascii ''via'', ascii ''''), (ascii ''www-authenticate'', ascii '''')]"

text \<open>The longer tables are given in rows of sixteen.\<close>

definition huffman_row0 :: "(nat \<times> nat) list" where
  "huffman_row0 = [(0x1ff8, 13), (0x7fffd8, 23), (0xfffffe2, 28), (0xfffffe3, 28), (0xfffffe4, 28), (0xfffffe5, 28), (0xfffffe6, 28),
    (0xfffffe7, 28), (0xfffffe8, 28), (0xffffea, 24), (0x3ffffffc, 30), (0xfffffe9, 28), (0xfffffea, 28), (0x3ffffffd, 30),
    (0xfffffeb, 28), (0xfffffec, 28)]"
definition huffman_row1 :: "(nat \<times> nat) list" where
  "huffman_row1 = [(0xfffffed, 28), (0xfffffee, 28), (0xfffffef, 28), (0xffffff0, 28), (0xffffff1, 28), (0xffffff2, 28), (0x3ffffffe, 30),
    (0xffffff3, 28), (0xffffff4, 28), (0xffffff5, 28), (0xffffff6, 28), (0xffffff7, 28), (0xffffff8, 28), (0xffffff9, 28),
    (0xffffffa, 28), (0xffffffb, 28)]"
definition huffman_row2 :: "(nat \<times> nat) list" where
  "huffman_row2 = [(0x14, 6), (0x3f8, 10), (0x3f9, 10), (0xffa, 12), (0x1ff9, 13), (0x15, 6), (0xf8, 8), (0x7fa, 11), (0x3fa, 10),
    (0x3fb, 10), (0xf9, 8), (0x7fb, 11), (0xfa, 8), (0x16, 6), (0x17, 6), (0x18, 6)]"
definition huffman_row3 :: "(nat \<times> nat) list" where
  "huffman_row3 = [(0x0, 5), (0x1, 5), (0x2, 5), (0x19, 6), (0x1a, 6), (0x1b, 6), (0x1c, 6), (0x1d, 6), (0x1e, 6), (0x1f, 6), (0x5c, 7),
    (0xfb, 8), (0x7ffc, 15), (0x20, 6), (0xffb, 12), (0x3fc, 10)]"
definition huffman_row4 :: "(nat \<times> nat) list" where
  "huffman_row4 = [(0x1ffa, 13), (0x21, 6), (0x5d, 7), (0x5e, 7), (0x5f, 7), (0x60, 7), (0x61, 7), (0x62, 7), (0x63, 7), (0x64, 7),
    (0x65, 7), (0x66, 7), (0x67, 7), (0x68, 7), (0x69, 7), (0x6a, 7)]"
definition huffman_row5 :: "(nat \<times> nat) list" where
  "huffman_row5 = [(0x6b, 7), (0x6c, 7), (0x6d, 7), (0x6e, 7), (0x6f, 7), (0x70, 7), (0x71, 7), (0x72, 7), (0xfc, 8), (0x73, 7),
    (0xfd, 8), (0x1ffb, 13), (0x7fff0, 19), (0x1ffc, 13), (0x3ffc, 14), (0x22, 6)]"
definition huffman_row6 :: "(nat \<times> nat) list" where
  "huffman_row6 = [(0x7ffd, 15), (0x3, 5), (0x23, 6), (0x4, 5), (0x24, 6), (0x5, 5), (0x25, 6), (0x26, 6), (0x27, 6), (0x6, 5), (0x74, 7),
    (0x75, 7), (0x28, 6), (0x29, 6), (0x2a, 6), (0x7, 5)]"
definition huffman_row7 :: "(nat \<times> nat) list" where
  "huffman_row7 = [(0x2b, 6), (0x76, 7), (0x2c, 6), (0x8, 5), (0x9, 5), (0x2d, 6), (0x77, 7), (0x78, 7), (0x79, 7), (0x7a, 7), (0x7b, 7),
    (0x7ffe, 15), (0x7fc, 11), (0x3ffd, 14), (0x1ffd, 13), (0xffffffc, 28)]"
definition huffman_row8 :: "(nat \<times> nat) list" where
  "huffman_row8 = [(0xfffe6, 20), (0x3fffd2, 22), (0xfffe7, 20), (0xfffe8, 20), (0x3fffd3, 22), (0x3fffd4, 22), (0x3fffd5, 22),
    (0x7fffd9, 23), (0x3fffd6, 22), (0x7fffda, 23), (0x7fffdb, 23), (0x7fffdc, 23), (0x7fffdd, 23), (0x7fffde, 23),
    (0xffffeb, 24), (0x7fffdf, 23)]"
definition huffman_row9 :: "(nat \<times> nat) list" where
  "huffman_row9 = [(0xffffec, 24), (0xffffed, 24), (0x3fffd7, 22), (0x7fffe0, 23), (0xffffee, 24), (0x7fffe1, 23), (0x7fffe2, 23),
    (0x7fffe3, 23), (0x7fffe4, 23), (0x1fffdc, 21), (0x3fffd8, 22), (0x7fffe5, 23), (0x3fffd9, 22), (0x7fffe6, 23),
    (0x7fffe7, 23), (0xffffef, 24)]"
definition huffman_row10 :: "(nat \<times> nat) list" where
  "huffman_row10 = [(0x3fffda, 22), (0x1fffdd, 21), (0xfffe9, 20), (0x3fffdb, 22), (0x3fffdc, 22), (0x7fffe8, 23), (0x7fffe9, 23),
    (0x1fffde, 21), (0x7fffea, 23), (0x3fffdd, 22), (0x3fffde, 22), (0xfffff0, 24), (0x1fffdf, 21), (0x3fffdf, 22),
    (0x7fffeb, 23), (0x7fffec, 23)]"
definition huffman_row11 :: "(nat \<times> nat) list" where
  "huffman_row11 = [(0x1fffe0, 21), (0x1fffe1, 21), (0x3fffe0, 22), (0x1fffe2, 21), (0x7fffed, 23), (0x3fffe1, 22), (0x7fffee, 23),
    (0x7fffef, 23), (0xfffea, 20), (0x3fffe2, 22), (0x3fffe3, 22), (0x3fffe4, 22), (0x7ffff0, 23), (0x3fffe5, 22),
    (0x3fffe6, 22), (0x7ffff1, 23)]"
definition huffman_row12 :: "(nat \<times> nat) list" where
  "huffman_row12 = [(0x3ffffe0, 26), (0x3ffffe1, 26), (0xfffeb, 20), (0x7fff1, 19), (0x3fffe7, 22), (0x7ffff2, 23), (0x3fffe8, 22),
    (0x1ffffec, 25), (0x3ffffe2, 26), (0x3ffffe3, 26), (0x3ffffe4, 26), (0x7ffffde, 27), (0x7ffffdf, 27), (0x3ffffe5, 26),
    (0xfffff1, 24), (0x1ffffed, 25)]"
definition huffman_row13 :: "(nat \<times> nat) list" where
  "huffman_row13 = [(0x7fff2, 19), (0x1fffe3, 21), (0x3ffffe6, 26), (0x7ffffe0, 27), (0x7ffffe1, 27), (0x3ffffe7, 26), (0x7ffffe2, 27),
    (0xfffff2, 24), (0x1fffe4, 21), (0x1fffe5, 21), (0x3ffffe8, 26), (0x3ffffe9, 26), (0xffffffd, 28), (0x7ffffe3, 27),
    (0x7ffffe4, 27), (0x7ffffe5, 27)]"
definition huffman_row14 :: "(nat \<times> nat) list" where
  "huffman_row14 = [(0xfffec, 20), (0xfffff3, 24), (0xfffed, 20), (0x1fffe6, 21), (0x3fffe9, 22), (0x1fffe7, 21), (0x1fffe8, 21),
    (0x7ffff3, 23), (0x3fffea, 22), (0x3fffeb, 22), (0x1ffffee, 25), (0x1ffffef, 25), (0xfffff4, 24), (0xfffff5, 24),
    (0x3ffffea, 26), (0x7ffff4, 23)]"
definition huffman_row15 :: "(nat \<times> nat) list" where
  "huffman_row15 = [(0x3ffffeb, 26), (0x7ffffe6, 27), (0x3ffffec, 26), (0x3ffffed, 26), (0x7ffffe7, 27), (0x7ffffe8, 27), (0x7ffffe9, 27),
    (0x7ffffea, 27), (0x7ffffeb, 27), (0xffffffe, 28), (0x7ffffec, 27), (0x7ffffed, 27), (0x7ffffee, 27), (0x7ffffef, 27),
    (0x7fffff0, 27), (0x3ffffee, 26)]"
definition huffman_row16 :: "(nat \<times> nat) list" where
  "huffman_row16 = [(0x3fffffff, 30)]"

definition hpack_huffman :: "(nat \<times> nat) list" where
  "hpack_huffman =
   huffman_row0 @ huffman_row1 @ huffman_row2 @ huffman_row3 @ huffman_row4 @ huffman_row5 @ huffman_row6 @ huffman_row7 @
   huffman_row8 @ huffman_row9 @ huffman_row10 @ huffman_row11 @ huffman_row12 @ huffman_row13 @ huffman_row14 @ huffman_row15 @
   huffman_row16"

definition sorted_row0 :: "nat list" where
  "sorted_row0 = [48, 49, 50, 97, 99, 101, 105, 111, 115, 116, 32, 37, 45, 46, 47, 51]"
definition sorted_row1 :: "nat list" where
  "sorted_row1 = [52, 53, 54, 55, 56, 57, 61, 65, 95, 98, 100, 102, 103, 104, 108, 109]"
definition sorted_row2 :: "nat list" where
  "sorted_row2 = [110, 112, 114, 117, 58, 66, 67, 68, 69, 70, 71, 72, 73, 74, 75, 76]"
definition sorted_row3 :: "nat list" where
  "sorted_row3 = [77, 78, 79, 80, 81, 82, 83, 84, 85, 86, 87, 89, 106, 107, 113, 118]"
definition sorted_row4 :: "nat list" where
  "sorted_row4 = [119, 120, 121, 122, 38, 42, 44, 59, 88, 90, 33, 34, 40, 41, 63, 39]"
definition sorted_row5 :: "nat list" where
  "sorted_row5 = [43, 124, 35, 62, 0, 36, 64, 91, 93, 126, 94, 125, 60, 96, 123, 92]"
definition sorted_row6 :: "nat list" where
  "sorted_row6 = [195, 208, 128, 130, 131, 162, 184, 194, 224, 226, 153, 161, 167, 172, 176, 177]"
definition sorted_row7 :: "nat list" where
  "sorted_row7 = [179, 209, 216, 217, 227, 229, 230, 129, 132, 133, 134, 136, 146, 154, 156, 160]"
definition sorted_row8 :: "nat list" where
  "sorted_row8 = [163, 164, 169, 170, 173, 178, 181, 185, 186, 187, 189, 190, 196, 198, 228, 232]"
definition sorted_row9 :: "nat list" where
  "sorted_row9 = [233, 1, 135, 137, 138, 139, 140, 141, 143, 147, 149, 150, 151, 152, 155, 157]"
definition sorted_row10 :: "nat list" where
  "sorted_row10 = [158, 165, 166, 168, 174, 175, 180, 182, 183, 188, 191, 197, 231, 239, 9, 142]"
definition sorted_row11 :: "nat list" where
  "sorted_row11 = [144, 145, 148, 159, 171, 206, 215, 225, 236, 237, 199, 207, 234, 235, 192, 193]"
definition sorted_row12 :: "nat list" where
  "sorted_row12 = [200, 201, 202, 205, 210, 213, 218, 219, 238, 240, 242, 243, 255, 203, 204, 211]"
definition sorted_row13 :: "nat list" where
  "sorted_row13 = [212, 214, 221, 222, 223, 241, 244, 245, 246, 247, 248, 250, 251, 252, 253, 254]"
definition sorted_row14 :: "nat list" where
  "sorted_row14 = [2, 3, 4, 5, 6, 7, 8, 11, 12, 14, 15, 16, 17, 18, 19, 20]"
definition sorted_row15 :: "nat list" where
  "sorted_row15 = [21, 23, 24, 25, 26, 27, 28, 29, 30, 31, 127, 220, 249, 10, 13, 22]"
definition sorted_row16 :: "nat list" where
  "sorted_row16 = [256]"

definition hpack_huffman_sorted :: "nat list" where
  "hpack_huffman_sorted =
   sorted_row0 @ sorted_row1 @ sorted_row2 @ sorted_row3 @ sorted_row4 @ sorted_row5 @ sorted_row6 @ sorted_row7 @ sorted_row8 @
   sorted_row9 @ sorted_row10 @ sorted_row11 @ sorted_row12 @ sorted_row13 @ sorted_row14 @ sorted_row15 @ sorted_row16"

definition hpack_huffman_first :: "nat list" where
  "hpack_huffman_first =
   [0, 0, 0, 0, 0, 0, 0x14, 0x5c, 0xf8, 0, 0x3f8, 0x7fa, 0xffa, 0x1ff8, 0x3ffc, 0x7ffc, 0, 0, 0, 0x7fff0, 0xfffe6, 0x1fffdc,
   0x3fffd2, 0x7fffd8, 0xffffea, 0x1ffffec, 0x3ffffe0, 0x7ffffde, 0xfffffe2, 0, 0x3ffffffc]"

definition hpack_huffman_count :: "nat list" where
  "hpack_huffman_count =
   [0, 0, 0, 0, 0, 10, 26, 32, 6, 0, 5, 3, 2, 6, 2, 3, 0, 0, 0, 3, 8, 13, 26, 29, 12, 4, 15, 19, 29, 0, 4]"

definition hpack_huffman_offset :: "nat list" where
  "hpack_huffman_offset =
   [0, 0, 0, 0, 0, 0, 10, 36, 68, 0, 74, 79, 82, 84, 90, 92, 0, 0, 0, 95, 98, 106, 119, 145, 174, 186, 190, 205, 224, 0, 253]"

definition fast_row0 :: "nat list" where
  "fast_row0 = [0x305, 0x305, 0x305, 0x305, 0x305, 0x305, 0x305, 0x305, 0x315, 0x315, 0x315, 0x315, 0x315, 0x315, 0x315, 0x315]"
definition fast_row1 :: "nat list" where
  "fast_row1 = [0x325, 0x325, 0x325, 0x325, 0x325, 0x325, 0x325, 0x325, 0x615, 0x615, 0x615, 0x615, 0x615, 0x615, 0x615, 0x615]"
definition fast_row2 :: "nat list" where
  "fast_row2 = [0x635, 0x635, 0x635, 0x635, 0x635, 0x635, 0x635, 0x635, 0x655, 0x655, 0x655, 0x655, 0x655, 0x655, 0x655, 0x655]"
definition fast_row3 :: "nat list" where
  "fast_row3 = [0x695, 0x695, 0x695, 0x695, 0x695, 0x695, 0x695, 0x695, 0x6f5, 0x6f5, 0x6f5, 0x6f5, 0x6f5, 0x6f5, 0x6f5, 0x6f5]"
definition fast_row4 :: "nat list" where
  "fast_row4 = [0x735, 0x735, 0x735, 0x735, 0x735, 0x735, 0x735, 0x735, 0x745, 0x745, 0x745, 0x745, 0x745, 0x745, 0x745, 0x745]"
definition fast_row5 :: "nat list" where
  "fast_row5 = [0x206, 0x206, 0x206, 0x206, 0x256, 0x256, 0x256, 0x256, 0x2d6, 0x2d6, 0x2d6, 0x2d6, 0x2e6, 0x2e6, 0x2e6, 0x2e6]"
definition fast_row6 :: "nat list" where
  "fast_row6 = [0x2f6, 0x2f6, 0x2f6, 0x2f6, 0x336, 0x336, 0x336, 0x336, 0x346, 0x346, 0x346, 0x346, 0x356, 0x356, 0x356, 0x356]"
definition fast_row7 :: "nat list" where
  "fast_row7 = [0x366, 0x366, 0x366, 0x366, 0x376, 0x376, 0x376, 0x376, 0x386, 0x386, 0x386, 0x386, 0x396, 0x396, 0x396, 0x396]"
definition fast_row8 :: "nat list" where
  "fast_row8 = [0x3d6, 0x3d6, 0x3d6, 0x3d6, 0x416, 0x416, 0x416, 0x416, 0x5f6, 0x5f6, 0x5f6, 0x5f6, 0x626, 0x626, 0x626, 0x626]"
definition fast_row9 :: "nat list" where
  "fast_row9 = [0x646, 0x646, 0x646, 0x646, 0x666, 0x666, 0x666, 0x666, 0x676, 0x676, 0x676, 0x676, 0x686, 0x686, 0x686, 0x686]"
definition fast_row10 :: "nat list" where
  "fast_row10 = [0x6c6, 0x6c6, 0x6c6, 0x6c6, 0x6d6, 0x6d6, 0x6d6, 0x6d6, 0x6e6, 0x6e6, 0x6e6, 0x6e6, 0x706, 0x706, 0x706, 0x706]"
definition fast_row11 :: "nat list" where
  "fast_row11 = [0x726, 0x726, 0x726, 0x726, 0x756, 0x756, 0x756, 0x756, 0x3a7, 0x3a7, 0x427, 0x427, 0x437, 0x437, 0x447, 0x447]"
definition fast_row12 :: "nat list" where
  "fast_row12 = [0x457, 0x457, 0x467, 0x467, 0x477, 0x477, 0x487, 0x487, 0x497, 0x497, 0x4a7, 0x4a7, 0x4b7, 0x4b7, 0x4c7, 0x4c7]"
definition fast_row13 :: "nat list" where
  "fast_row13 = [0x4d7, 0x4d7, 0x4e7, 0x4e7, 0x4f7, 0x4f7, 0x507, 0x507, 0x517, 0x517, 0x527, 0x527, 0x537, 0x537, 0x547, 0x547]"
definition fast_row14 :: "nat list" where
  "fast_row14 = [0x557, 0x557, 0x567, 0x567, 0x577, 0x577, 0x597, 0x597, 0x6a7, 0x6a7, 0x6b7, 0x6b7, 0x717, 0x717, 0x767, 0x767]"
definition fast_row15 :: "nat list" where
  "fast_row15 = [0x777, 0x777, 0x787, 0x787, 0x797, 0x797, 0x7a7, 0x7a7, 0x268, 0x2a8, 0x2c8, 0x3b8, 0x588, 0x5a8, 0, 0]"

definition hpack_huffman_fast :: "nat list" where
  "hpack_huffman_fast =
   fast_row0 @ fast_row1 @ fast_row2 @ fast_row3 @ fast_row4 @ fast_row5 @ fast_row6 @ fast_row7 @ fast_row8 @ fast_row9 @ fast_row10 @
   fast_row11 @ fast_row12 @ fast_row13 @ fast_row14 @ fast_row15"

definition hpack_static_by_len :: "nat list" where
  "hpack_static_by_len =
   [0, 0, 0, 0, 2, 8, 11, 15, 21, 24, 24, 27, 28, 30, 36, 38, 40, 44, 46, 47, 50, 50, 50, 50, 50, 50, 51, 51, 52]"

definition hpack_static_names :: "(nat \<times> nat) list" where
  "hpack_static_names =
   [(20, 1), (59, 1), (32, 1), (33, 1), (36, 1), (37, 1), (44, 1), (58, 1), (3, 2), (21, 1), (49, 1), (18, 1), (31, 1), (34, 1),
   (53, 1), (1, 2), (5, 2), (7, 7), (35, 1), (50, 1), (51, 1), (38, 1), (41, 1), (45, 1), (0, 1), (54, 1), (57, 1), (52, 1),
   (30, 1), (46, 1), (17, 1), (22, 1), (23, 1), (29, 1), (40, 1), (43, 1), (14, 1), (27, 1), (15, 1), (16, 1), (25, 1),
   (26, 1), (28, 1), (60, 1), (39, 1), (56, 1), (47, 1), (24, 1), (42, 1), (48, 1), (55, 1), (19, 1)]"

end
