(* ===== verification/Hpack_Codes.thy ===== *)
theory Hpack_Codes
  imports Hpack_Tables
begin

text \<open>
  The tables of the Huffman code agree with each other: every code is where the first-eight-bits table or the
  canonical form looks for it, and a prefix of a longer code is never a shorter one.
\<close>

lemmas huffman_rows = huffman_row0_def huffman_row1_def huffman_row2_def huffman_row3_def huffman_row4_def huffman_row5_def
  huffman_row6_def huffman_row7_def huffman_row8_def huffman_row9_def huffman_row10_def huffman_row11_def huffman_row12_def
  huffman_row13_def huffman_row14_def huffman_row15_def huffman_row16_def

lemmas fast_rows = fast_row0_def fast_row1_def fast_row2_def fast_row3_def fast_row4_def fast_row5_def
  fast_row6_def fast_row7_def fast_row8_def fast_row9_def fast_row10_def fast_row11_def fast_row12_def
  fast_row13_def fast_row14_def fast_row15_def

lemmas sorted_rows = sorted_row0_def sorted_row1_def sorted_row2_def sorted_row3_def sorted_row4_def sorted_row5_def
  sorted_row6_def sorted_row7_def sorted_row8_def sorted_row9_def sorted_row10_def sorted_row11_def sorted_row12_def
  sorted_row13_def sorted_row14_def sorted_row15_def sorted_row16_def

lemma fast_row_lengths:
  "length fast_row0 = 16" "length fast_row1 = 16" "length fast_row2 = 16" "length fast_row3 = 16" "length fast_row4 = 16"
  "length fast_row5 = 16" "length fast_row6 = 16" "length fast_row7 = 16" "length fast_row8 = 16" "length fast_row9 = 16"
  "length fast_row10 = 16" "length fast_row11 = 16" "length fast_row12 = 16" "length fast_row13 = 16" "length fast_row14 = 16"
  "length fast_row15 = 16"
  by (simp_all add: fast_rows)

lemma sorted_row_lengths:
  "length sorted_row0 = 16" "length sorted_row1 = 16" "length sorted_row2 = 16" "length sorted_row3 = 16" "length sorted_row4 = 16"
  "length sorted_row5 = 16" "length sorted_row6 = 16" "length sorted_row7 = 16" "length sorted_row8 = 16" "length sorted_row9 = 16"
  "length sorted_row10 = 16" "length sorted_row11 = 16" "length sorted_row12 = 16" "length sorted_row13 = 16" "length sorted_row14 = 16"
  "length sorted_row15 = 16" "length sorted_row16 = 1"
  by (simp_all add: sorted_rows)

lemma huffman_row_lengths:
  "length huffman_row0 = 16" "length huffman_row1 = 16" "length huffman_row2 = 16" "length huffman_row3 = 16" "length huffman_row4 = 16"
  "length huffman_row5 = 16" "length huffman_row6 = 16" "length huffman_row7 = 16" "length huffman_row8 = 16" "length huffman_row9 = 16"
  "length huffman_row10 = 16" "length huffman_row11 = 16" "length huffman_row12 = 16" "length huffman_row13 = 16" "length huffman_row14 = 16"
  "length huffman_row15 = 16" "length huffman_row16 = 1"
  by (simp_all add: huffman_rows)

lemma length_huffman: "length hpack_huffman = 257"
  by (simp add: hpack_huffman_def huffman_row_lengths)

text \<open>A property of every entry with its index.\<close>

fun enum_all :: "(nat \<Rightarrow> 'a \<Rightarrow> bool) \<Rightarrow> nat \<Rightarrow> 'a list \<Rightarrow> bool" where
  "enum_all P i [] = True"
| "enum_all P i (x # xs) = (P i x \<and> enum_all P (Suc i) xs)"

lemma enum_all_append: "enum_all P i (xs @ ys) = (enum_all P i xs \<and> enum_all P (i + length xs) ys)"
  by (induction xs arbitrary: i) auto

lemma enum_all_nth: "enum_all P i xs \<Longrightarrow> n < length xs \<Longrightarrow> P (i + n) (xs ! n)"
proof (induction xs arbitrary: i n)
  case (Cons x xs)
  then show ?case by (cases n) fastforce+
qed simp

definition code_ok :: "nat \<Rightarrow> nat \<times> nat \<Rightarrow> bool" where
  "code_ok s cb = (case cb of (c, b) \<Rightarrow> 5 \<le> b \<and> b \<le> 30 \<and> c < 2 ^ b)"

definition short_ok :: "nat \<Rightarrow> nat \<times> nat \<Rightarrow> bool" where
  "short_ok s cb =
    (case cb of (c, b) \<Rightarrow>
      8 < b \<or> list_all (\<lambda>k. hpack_huffman_fast ! (c * 2 ^ (8 - b) + k) = s * 16 + b) (take (2 ^ (8 - b)) [0, 1, 2, 3, 4, 5, 6, 7]))"

definition long_ok :: "nat \<Rightarrow> nat \<times> nat \<Rightarrow> bool" where
  "long_ok s cb =
    (case cb of (c, b) \<Rightarrow>
      b \<le> 8 \<or> 254 \<le> c div 2 ^ (b - 8) \<and> hpack_huffman_first ! b \<le> c \<and> c < hpack_huffman_first ! b + hpack_huffman_count ! b \<and>
      hpack_huffman_sorted ! (hpack_huffman_offset ! b + (c - hpack_huffman_first ! b)) = s)"

lemma codes_all: "enum_all code_ok 0 hpack_huffman"
  by (simp add: hpack_huffman_def enum_all_append huffman_row_lengths) (simp add: huffman_rows code_ok_def)

lemma short_all: "enum_all short_ok 0 hpack_huffman"
  apply (simp add: hpack_huffman_def enum_all_append huffman_row_lengths)
  apply (simp add: huffman_rows short_ok_def)
  apply (simp add: hpack_huffman_fast_def nth_append fast_row_lengths)
  apply (simp add: fast_rows)
  done

lemma long_all: "enum_all long_ok 0 hpack_huffman"
  apply (simp add: hpack_huffman_def enum_all_append huffman_row_lengths)
  apply (simp add: huffman_rows long_ok_def)
  apply (simp add: hpack_huffman_first_def hpack_huffman_count_def hpack_huffman_offset_def)
  apply (simp add: hpack_huffman_sorted_def nth_append sorted_row_lengths)
  apply (simp add: sorted_rows)
  done

text \<open>A longer code lies above every shorter one, cut to its length.\<close>

definition code_lengths :: "nat list" where "code_lengths = [9..<31]"

lemma canonical_order:
  "list_all (\<lambda>b. list_all (\<lambda>n. b \<le> n \<or> hpack_huffman_count ! b = 0 \<or> hpack_huffman_count ! n = 0 \<or>
    (hpack_huffman_first ! n + hpack_huffman_count ! n) * 2 ^ (b - n) \<le> hpack_huffman_first ! b) code_lengths) code_lengths"
  by (simp add: code_lengths_def) (simp add: hpack_huffman_first_def hpack_huffman_count_def)

lemma fast_end: "hpack_huffman_fast ! 254 = 0" "hpack_huffman_fast ! 255 = 0"
  by (simp_all add: hpack_huffman_fast_def nth_append fast_row_lengths, simp_all add: fast_rows)

lemma fast_used: "enum_all (\<lambda>i f. f = 0 \<or> f mod 16 \<noteq> 0) 0 hpack_huffman_fast"
  by (simp add: hpack_huffman_fast_def enum_all_append fast_row_lengths) (simp add: fast_rows)

lemma length_fast: "length hpack_huffman_fast = 256"
  by (simp add: hpack_huffman_fast_def fast_row_lengths)

section \<open>For a symbol\<close>

definition sym_code :: "nat \<Rightarrow> nat" where "sym_code s = fst (hpack_huffman ! s)"

definition sym_bits :: "nat \<Rightarrow> nat" where "sym_bits s = snd (hpack_huffman ! s)"

lemma sym_ok: "s < 257 \<Longrightarrow> 5 \<le> sym_bits s \<and> sym_bits s \<le> 30 \<and> sym_code s < 2 ^ sym_bits s"
  using enum_all_nth [OF codes_all, of s] by (simp add: length_huffman code_ok_def sym_code_def sym_bits_def case_prod_beta)

lemma sym_short:
  assumes s: "s < 257" and b: "sym_bits s \<le> 8" and v: "v div 2 ^ (8 - sym_bits s) = sym_code s"
  shows "hpack_huffman_fast ! v = s * 16 + sym_bits s"
proof -
  define b where "b = sym_bits s"
  define k where "k = v mod 2 ^ (8 - b)"
  have "b = 5 \<or> b = 6 \<or> b = 7 \<or> b = 8" using sym_ok [OF s] assms(2) unfolding b_def by auto
  then have k: "k \<in> set (take (2 ^ (8 - b)) [0, 1, 2, 3, 4, 5, 6, 7])"
  proof -
    have "k < 2 ^ (8 - b)" unfolding k_def by simp
    moreover have "k < 2 ^ (8 - b) \<Longrightarrow> b = 5 \<or> b = 6 \<or> b = 7 \<or> b = 8 \<Longrightarrow> k \<in> set (take (2 ^ (8 - b)) [0, 1, 2, 3, 4, 5, 6, 7])"
      by (elim disjE) (auto simp: less_Suc_eq numeral_eq_Suc)
    ultimately show ?thesis using \<open>b = 5 \<or> b = 6 \<or> b = 7 \<or> b = 8\<close> by blast
  qed
  have "v = sym_code s * 2 ^ (8 - b) + k" unfolding k_def b_def v [symmetric] by (rule div_mult_mod_eq [symmetric])
  then show ?thesis
    using enum_all_nth [OF short_all, of s] s assms(2) k
    by (auto simp: length_huffman short_ok_def sym_code_def sym_bits_def case_prod_beta list_all_iff b_def)
qed

lemma sym_long:
  assumes s: "s < 257" and b: "8 < sym_bits s"
  shows "254 \<le> sym_code s div 2 ^ (sym_bits s - 8)" "hpack_huffman_first ! sym_bits s \<le> sym_code s"
    and "sym_code s - hpack_huffman_first ! sym_bits s < hpack_huffman_count ! sym_bits s"
    and "hpack_huffman_sorted ! (hpack_huffman_offset ! sym_bits s + (sym_code s - hpack_huffman_first ! sym_bits s)) = s"
  using enum_all_nth [OF long_all, of s] s b
  by (auto simp: length_huffman long_ok_def sym_code_def sym_bits_def case_prod_beta)

lemma sym_not_before:
  assumes s: "s < 257" and n: "8 < n" "n < sym_bits s" and c: "hpack_huffman_count ! n \<noteq> 0"
  shows "hpack_huffman_first ! n + hpack_huffman_count ! n \<le> sym_code s div 2 ^ (sym_bits s - n)"
proof -
  note sl = sym_long [OF s less_trans [OF n]]
  have "n \<in> set code_lengths" "sym_bits s \<in> set code_lengths"
    using n sym_ok [OF s] unfolding code_lengths_def set_upt by auto
  then have "(hpack_huffman_first ! n + hpack_huffman_count ! n) * 2 ^ (sym_bits s - n) \<le> hpack_huffman_first ! sym_bits s"
    using canonical_order n c sl(3) unfolding list_all_iff by fastforce
  then have "(hpack_huffman_first ! n + hpack_huffman_count ! n) * 2 ^ (sym_bits s - n) \<le> sym_code s" using sl(2) by simp
  then show ?thesis by (simp add: less_eq_div_iff_mult_less_eq)
qed

lemma fast_nonzero_used: "v < 256 \<Longrightarrow> hpack_huffman_fast ! v \<noteq> 0 \<Longrightarrow> hpack_huffman_fast ! v mod 16 \<noteq> 0"
  using enum_all_nth [OF fast_used, of v] by (simp add: length_fast)

end
