(* ===== verification/Bits.thy ===== *)
theory Bits
  imports Views Word_Nat
begin

text \<open>
  Strings of bits, the most significant first: the bits of a number of a given width, of bytes, and their
  lemmas. The Huffman coder's accumulators are words whose low bits are such a string.
\<close>

fun to_bits :: "nat \<Rightarrow> nat \<Rightarrow> bool list" where
  "to_bits 0 v = []"
| "to_bits (Suc n) v = odd (v div 2 ^ n) # to_bits n v"

fun from_bits :: "bool list \<Rightarrow> nat" where
  "from_bits [] = 0"
| "from_bits (b # bs) = of_bool b * 2 ^ length bs + from_bits bs"

lemma length_to_bits [simp]: "length (to_bits n v) = n"
  by (induction n) auto

lemma from_bits_less: "from_bits bs < 2 ^ length bs"
  by (induction bs) auto

lemma from_to_bits: "from_bits (to_bits n v) = v mod 2 ^ n"
proof (induction n)
  case (Suc n)
  have "v mod (2 ^ n * 2) = 2 ^ n * (v div 2 ^ n mod 2) + v mod 2 ^ n" by (rule mod_mult2_eq)
  then show ?case using Suc by (simp add: mult.commute odd_iff_mod_2_eq_one of_bool_def)
qed simp

lemma to_bits_mod: "n \<le> m \<Longrightarrow> to_bits n (v mod 2 ^ m) = to_bits n v"
proof (induction n)
  case (Suc n)
  then have m: "m = n + (m - n)" "0 < m - n" by auto
  have "v mod 2 ^ (n + (m - n)) div 2 ^ n = v div 2 ^ n mod 2 ^ (m - n)"
    unfolding power_add by (simp add: mod_mult2_eq)
  then have "v mod 2 ^ m div 2 ^ n = v div 2 ^ n mod 2 ^ (m - n)" using m(1) by simp
  moreover have "odd (w mod 2 ^ (m - n)) = odd w" for w :: nat
  proof -
    have "2 dvd (2 :: nat) ^ (m - n)" using m(2) by simp
    then have "w mod 2 ^ (m - n) mod 2 = w mod 2" by (rule mod_mod_cancel)
    then show ?thesis by (simp add: odd_iff_mod_2_eq_one)
  qed
  ultimately show ?case using Suc by simp
qed simp

lemma to_bits_append: "to_bits (m + n) v = to_bits m (v div 2 ^ n) @ to_bits n v"
proof (induction m)
  case (Suc m)
  have "v div 2 ^ (m + n) = v div 2 ^ n div 2 ^ m" by (metis add.commute div_mult2_eq power_add)
  then show ?case using Suc by simp
qed simp

lemma to_bits_cong: "v mod 2 ^ n = w mod 2 ^ n \<Longrightarrow> to_bits n v = to_bits n w"
  by (metis to_bits_mod order_refl)

lemma to_bits_join: "c < 2 ^ n \<Longrightarrow> to_bits (m + n) (2 ^ n * v + c) = to_bits m v @ to_bits n c"
proof -
  assume c: "c < 2 ^ n"
  have "to_bits n (2 ^ n * v + c) = to_bits n c" by (rule to_bits_cong) simp
  then show ?thesis using c by (simp add: to_bits_append)
qed

lemma to_bits_inj: "to_bits n v = to_bits n w \<Longrightarrow> v mod 2 ^ n = w mod 2 ^ n"
  by (metis from_to_bits)

lemma to_from_bits: "to_bits (length bs) (from_bits bs) = bs"
proof (induction bs)
  case (Cons b bs)
  have "to_bits (Suc (length bs)) (2 ^ length bs * of_bool b + from_bits bs) = to_bits (1 + length bs) (2 ^ length bs * of_bool b + from_bits bs)"
    by simp
  also have "\<dots> = to_bits 1 (of_bool b) @ to_bits (length bs) (from_bits bs)"
    by (rule to_bits_join [OF from_bits_less])
  finally show ?case using Cons by (simp add: mult.commute)
qed simp

lemma to_bits_ones: "to_bits n (2 ^ n - 1) = replicate n True"
proof (induction n)
  case (Suc n)
  have "(2 :: nat) ^ Suc n - 1 = 2 ^ n * 1 + (2 ^ n - 1)" by simp
  then have "to_bits (1 + n) (2 ^ Suc n - 1) = to_bits 1 1 @ to_bits n (2 ^ n - 1)" by (metis to_bits_join diff_less zero_less_numeral zero_less_power zero_less_one)
  then show ?case using Suc by simp
qed simp

lemma take_to_bits: "k \<le> n \<Longrightarrow> take k (to_bits n v) = to_bits k (v div 2 ^ (n - k))"
proof -
  assume "k \<le> n"
  then have "to_bits n v = to_bits k (v div 2 ^ (n - k)) @ to_bits (n - k) v" using to_bits_append [of k "n - k" v] by simp
  then show ?thesis by simp
qed

lemma drop_to_bits: "k \<le> n \<Longrightarrow> drop k (to_bits n v) = to_bits (n - k) v"
proof -
  assume "k \<le> n"
  then have "to_bits n v = to_bits k (v div 2 ^ (n - k)) @ to_bits (n - k) v" using to_bits_append [of k "n - k" v] by simp
  then show ?thesis by simp
qed

section \<open>Bytes\<close>

definition byte_bits :: "byte list \<Rightarrow> bool list" where
  "byte_bits bs = concat (map (\<lambda>b. to_bits 8 (unat b)) bs)"

lemma byte_bits_simps [simp]: "byte_bits [] = []" "byte_bits (b # bs) = to_bits 8 (unat b) @ byte_bits bs"
  "byte_bits (xs @ ys) = byte_bits xs @ byte_bits ys"
  by (simp_all add: byte_bits_def)

lemma length_byte_bits [simp]: "length (byte_bits bs) = 8 * length bs"
  by (induction bs) auto

section \<open>Words whose low bits are a string\<close>

text \<open>Shifting a code in, when the string with it still fits.\<close>

lemma unat_shift_in:
  assumes "c < 2 ^ k" "k \<le> 64"
  shows "unat (push_bit k acc OR of_nat c :: 64 word) mod 2 ^ 64 = 2 ^ k * (unat acc mod 2 ^ (64 - k)) + c"
proof -
  have c: "c < 2 ^ 64" by (rule less_le_trans [OF assms(1)]) (rule power_increasing [OF assms(2)], simp)
  have "unat (push_bit k acc) = 2 ^ k * (unat acc mod 2 ^ (64 - k))"
    using mult_mod_right [of "2 ^ k" "unat acc" "2 ^ (64 - k)"] assms(2) by (simp add: unat_push power_add [symmetric])
  moreover have "unat (of_nat c :: 64 word) = c" using c by (simp add: unat_of_nat)
  ultimately have "unat (push_bit k acc OR of_nat c :: 64 word) = 2 ^ k * (unat acc mod 2 ^ (64 - k)) + c"
    using nat_or_high [OF assms(1), of "unat acc mod 2 ^ (64 - k)"] by (simp add: unsigned_or_eq)
  moreover have "unat (push_bit k acc OR of_nat c :: 64 word) < 2 ^ 64" using unsigned_less [of "push_bit k acc OR of_nat c :: 64 word"] by simp
  ultimately show ?thesis by simp
qed

lemma bits_shift_in:
  assumes "c < 2 ^ k" "n + k \<le> 64"
  shows "to_bits (n + k) (unat (push_bit k acc OR of_nat c :: 64 word)) = to_bits n (unat acc) @ to_bits k c"
proof -
  have "to_bits (n + k) (unat (push_bit k acc OR of_nat c :: 64 word)) =
      to_bits (n + k) (unat (push_bit k acc OR of_nat c :: 64 word) mod 2 ^ 64)"
    using to_bits_mod [OF assms(2), of "unat (push_bit k acc OR of_nat c :: 64 word)"] by (simp only:)
  also have "\<dots> = to_bits (n + k) (2 ^ k * (unat acc mod 2 ^ (64 - k)) + c)"
    using unat_shift_in [OF assms(1), of acc] assms(2) by simp
  also have "\<dots> = to_bits n (unat acc mod 2 ^ (64 - k)) @ to_bits k c" by (rule to_bits_join [OF assms(1)])
  also have "to_bits n (unat acc mod 2 ^ (64 - k)) = to_bits n (unat acc)" using assms(2) by (intro to_bits_mod) simp
  finally show ?thesis .
qed

text \<open>The byte at a place of the accumulator.\<close>

lemma to_bits_byte: "to_bits 8 (unat (ucast (w :: 'a::len word) :: byte)) = to_bits 8 (unat w)"
  by (rule to_bits_cong) (simp add: unat_ucast_smaller)

lemma bits_take_byte: "8 \<le> n \<Longrightarrow> take 8 (to_bits n (unat acc)) = to_bits 8 (unat (ucast (drop_bit (n - 8) (acc :: 'a::len word)) :: byte))"
  by (simp only: take_to_bits to_bits_byte unat_drop)

end
