(* ===== verification/Hpack_Huffman.thy ===== *)
theory Hpack_Huffman
  imports Hpack_Codes Bits
begin

text \<open>
  Huffman coding of HPACK strings (\<^verbatim>\<open>net/src/hpack.c\<close>): the size, the writer that gathers codes in a 64-bit
  accumulator, and the reader that takes the next eight bits to a table and longer codes to the canonical form.
  What is written reads back, for every string.

  An output is the list of the bytes before its length and a capacity; its buffer beyond is not read.
\<close>

section \<open>Writing\<close>

definition proven_hpack_huffman_size :: "byte list \<Rightarrow> nat" where
  "proven_hpack_huffman_size p = (sum_list (map (\<lambda>c. snd (hpack_huffman ! unat c)) p) + 7) div 8"

fun huffman_put_loop :: "byte list \<Rightarrow> nat \<Rightarrow> byte list \<Rightarrow> 64 word \<Rightarrow> nat \<Rightarrow> (byte list \<times> 64 word \<times> nat) option" where
  "huffman_put_loop [] limit out acc held = Some (out, acc, held)"
| "huffman_put_loop (c # p) limit out acc held =
    (let bits = snd (hpack_huffman ! unat c);
         acc = push_bit bits acc OR of_nat (fst (hpack_huffman ! unat c));
         held = held + bits in
     if held \<ge> 32 then
       if limit - length out < 4 then None
       else let held = held - 32; w = ucast (drop_bit held acc) :: 32 word in
         huffman_put_loop p limit (out @ [ucast (drop_bit 24 w), ucast (drop_bit 16 w), ucast (drop_bit 8 w), ucast w]) acc held
     else huffman_put_loop p limit out acc held)"

function huffman_flush :: "64 word \<Rightarrow> nat \<Rightarrow> byte list" where
  "huffman_flush acc held =
    (if held \<ge> 8 then ucast (drop_bit (held - 8) acc) # huffman_flush acc (held - 8)
     else if held > 0 then [ucast (push_bit (8 - held) acc OR drop_bit held 0xff)] else [])"
  by pat_completeness auto
termination by (relation "measure snd") auto

declare huffman_flush.simps [simp del]

definition hp_huffman_put :: "byte list \<Rightarrow> nat \<Rightarrow> byte list" where
  "hp_huffman_put p limit =
    (case huffman_put_loop p limit [] 0 0 of
      None \<Rightarrow> []
    | Some (out, acc, held) \<Rightarrow> if limit - length out < (held + 7) div 8 then [] else out @ huffman_flush acc held)"

text \<open>The output of the public calls: null, or the bytes so far and the capacity; \<open>len\<close> may be null.\<close>

record hp_out =
  out_null :: bool
  out_cap :: nat
  out_bytes :: "byte list"

definition hp_out_bad :: "hp_out \<Rightarrow> bool" where
  "hp_out_bad out \<longleftrightarrow> (out_cap out > 0 \<and> out_null out) \<or> length (out_bytes out) > out_cap out"

definition proven_hpack_huffman_encode :: "byte view \<Rightarrow> hp_out option \<Rightarrow> proven_err \<times> hp_out option" where
  "proven_hpack_huffman_encode txt len =
    (case len of
      None \<Rightarrow> (PROVEN_ERR_INVALID_ARG, None)
    | Some out \<Rightarrow>
        if (view_size txt > 0 \<and> view_null txt) \<or> hp_out_bad out then (PROVEN_ERR_INVALID_ARG, Some out)
        else let need = proven_hpack_huffman_size (view_data txt) in
          if out_cap out - length (out_bytes out) < need then (PROVEN_ERR_OUT_OF_BOUNDS, Some out)
          else (PROVEN_OK, Some (out\<lparr>out_bytes := out_bytes out @ hp_huffman_put (view_data txt) need\<rparr>)))"

section \<open>Reading\<close>

fun huffman_fill :: "byte list \<Rightarrow> 64 word \<Rightarrow> nat \<Rightarrow> byte list \<times> 64 word \<times> nat" where
  "huffman_fill [] acc bits = ([], acc, bits)"
| "huffman_fill (b # rest) acc bits =
    (if bits \<le> 56 then huffman_fill rest (push_bit 8 acc OR ucast b) (bits + 8) else (b # rest, acc, bits))"

definition huffman_next :: "64 word \<Rightarrow> nat \<Rightarrow> 32 word" where
  "huffman_next acc bits =
    (if bits \<ge> 8 then ucast (drop_bit (bits - 8) acc) AND 0xff
     else (push_bit (8 - bits) (ucast acc) OR drop_bit bits 0xff) AND 0xff)"

function huffman_long :: "64 word \<Rightarrow> nat \<Rightarrow> nat \<Rightarrow> (nat \<times> nat) option" where
  "huffman_long acc bits n =
    (if n \<le> 30 \<and> n \<le> bits then
       let code = unat ((ucast (drop_bit (bits - n) acc) :: 32 word) AND (push_bit n 1 - 1)) in
       if hpack_huffman_count ! n \<noteq> 0 \<and> code \<ge> hpack_huffman_first ! n \<and> code - hpack_huffman_first ! n < hpack_huffman_count ! n
       then Some (hpack_huffman_sorted ! (hpack_huffman_offset ! n + (code - hpack_huffman_first ! n)), n)
       else huffman_long acc bits (n + 1)
     else None)"
  by pat_completeness auto
termination by (relation "measure (\<lambda>(acc, bits, n). 31 - n)") auto

declare huffman_long.simps [simp del]

text \<open>The symbol that begins here and the bits of its code.\<close>

definition huffman_symbol :: "64 word \<Rightarrow> nat \<Rightarrow> (nat \<times> nat) option" where
  "huffman_symbol acc bits =
    (let quick = hpack_huffman_fast ! unat (huffman_next acc bits) in
     if quick \<noteq> 0 \<and> quick mod 16 \<le> bits then Some (quick div 16, quick mod 16) else huffman_long acc bits 9)"

lemma huffman_next_less: "unat (huffman_next acc bits) < 256"
proof -
  have "(0xff :: 32 word) = mask 8" by (simp add: mask_eq_exp_minus_1)
  then have "unat (w AND (0xff :: 32 word)) < 256" for w using unat_and_mask_mod [of w 8] by simp
  then show ?thesis unfolding huffman_next_def by simp
qed

lemma huffman_long_used: "huffman_long acc bits n = Some (s, k) \<Longrightarrow> n \<le> k \<and> k \<le> bits"
proof (induction acc bits n rule: huffman_long.induct)
  case (1 acc bits n)
  define code where "code = unat ((ucast (drop_bit (bits - n) acc) :: 32 word) AND (push_bit n 1 - 1))"
  define hit where "hit \<longleftrightarrow> hpack_huffman_count ! n \<noteq> 0 \<and> code \<ge> hpack_huffman_first ! n \<and> code - hpack_huffman_first ! n < hpack_huffman_count ! n"
  have e: "huffman_long acc bits n = (if n \<le> 30 \<and> n \<le> bits then
      if hit then Some (hpack_huffman_sorted ! (hpack_huffman_offset ! n + (code - hpack_huffman_first ! n)), n) else huffman_long acc bits (n + 1)
      else None)"
    by (subst huffman_long.simps) (simp only: Let_def code_def hit_def)
  have n: "n \<le> 30 \<and> n \<le> bits" using 1(2) unfolding e by (cases "n \<le> 30 \<and> n \<le> bits") auto
  show ?case
  proof (cases hit)
    case True
    then show ?thesis using 1(2) n unfolding e by simp
  next
    case False
    then have "huffman_long acc bits (n + 1) = Some (s, k)" using 1(2) n unfolding e by simp
    from 1(1) [OF n refl False [unfolded hit_def code_def] this] show ?thesis by simp
  qed
qed

lemma huffman_symbol_used: "huffman_symbol acc bits = Some (s, k) \<Longrightarrow> 0 < k \<and> k \<le> bits"
  using fast_nonzero_used [OF huffman_next_less, of acc bits] huffman_long_used [of acc bits 9 s k]
  by (auto simp: huffman_symbol_def Let_def split: if_splits)

lemma huffman_fill_bits:
  "huffman_fill rest acc bits = (rest', acc', bits') \<Longrightarrow> bits' + 8 * length rest' = bits + 8 * length rest"
  by (induction rest acc bits rule: huffman_fill.induct) (auto split: if_splits)

function huffman_decode_loop :: "byte list \<Rightarrow> 64 word \<Rightarrow> nat \<Rightarrow> nat \<Rightarrow> byte list \<Rightarrow> proven_err \<times> byte list" where
  "huffman_decode_loop rest acc bits cap out =
    (case huffman_fill rest acc bits of
      (rest, acc, bits) \<Rightarrow>
        if bits = 0 then (PROVEN_OK, out)
        else case huffman_symbol acc bits of
            None \<Rightarrow>
              if bits \<ge> 30 \<or> rest \<noteq> [] then (PROVEN_ERR_INVALID_FORMAT, out)
              else if bits > 7 \<or> acc AND (push_bit bits 1 - 1) \<noteq> push_bit bits 1 - 1 then (PROVEN_ERR_INVALID_FORMAT, out)
              else (PROVEN_OK, out)
          | Some (symbol, used) \<Rightarrow>
              if symbol = 256 then (PROVEN_ERR_INVALID_FORMAT, out)
              else if length out = cap then (PROVEN_ERR_OUT_OF_BOUNDS, out)
              else huffman_decode_loop rest acc (bits - used) cap (out @ [of_nat symbol]))"
  by pat_completeness auto
termination
  by (relation "measure (\<lambda>(rest, acc, bits, cap, out). bits + 8 * length rest)")
     (auto dest!: huffman_fill_bits [OF sym] huffman_symbol_used)

declare huffman_decode_loop.simps [simp del]

definition proven_hpack_huffman_decode :: "byte view \<Rightarrow> hp_out option \<Rightarrow> proven_err \<times> hp_out option" where
  "proven_hpack_huffman_decode coded len =
    (case len of
      None \<Rightarrow> (PROVEN_ERR_INVALID_ARG, None)
    | Some out \<Rightarrow>
        if (view_size coded > 0 \<and> view_null coded) \<or> hp_out_bad out then (PROVEN_ERR_INVALID_ARG, Some out)
        else case huffman_decode_loop (view_data coded) 0 0 (out_cap out) (out_bytes out) of
          (e, bytes) \<Rightarrow> (e, Some (if e = PROVEN_OK then out\<lparr>out_bytes := bytes\<rparr> else out)))"

end
