(* ===== verification/Hpack_Coding.thy ===== *)
theory Hpack_Coding
  imports Hpack_Huffman
begin

text \<open>
  What the Huffman writer puts out, as a string of bits, and that the reader gives the text back.
\<close>

section \<open>The writer\<close>

definition char_code :: "byte \<Rightarrow> bool list" where
  "char_code c = to_bits (sym_bits (unat c)) (sym_code (unat c))"

definition text_bits :: "byte list \<Rightarrow> bool list" where
  "text_bits p = concat (map char_code p)"

lemma text_bits_simps [simp]: "text_bits [] = []" "text_bits (c # p) = char_code c @ text_bits p"
  by (simp_all add: text_bits_def)

lemma char_sym: "unat (c :: byte) < 257"
proof -
  have "unat c < 2 ^ LENGTH(8)" by (rule unsigned_less)
  then show ?thesis by simp
qed

lemma unat_ne_256: "unat (c :: byte) \<noteq> 256"
proof -
  have "unat c < 2 ^ LENGTH(8)" by (rule unsigned_less)
  then show ?thesis by simp
qed

lemma length_char_code: "length (char_code c) = sym_bits (unat c)"
  by (simp add: char_code_def)

lemma size_text_bits: "proven_hpack_huffman_size p = (length (text_bits p) + 7) div 8"
proof -
  have "sum_list (map (\<lambda>c. snd (hpack_huffman ! unat c)) p) = length (text_bits p)"
    by (induction p) (auto simp: length_char_code sym_bits_def)
  then show ?thesis by (simp add: proven_hpack_huffman_size_def)
qed

lemma bytes_of_u32: "byte_bits [ucast (drop_bit 24 w), ucast (drop_bit 16 w), ucast (drop_bit 8 w), ucast w] = to_bits 32 (unat (w :: 32 word))"
proof -
  have "to_bits (8 + (8 + (8 + 8))) (unat w) = to_bits 8 (unat w div 2 ^ (8 + (8 + 8))) @ to_bits 8 (unat w div 2 ^ (8 + 8)) @ to_bits 8 (unat w div 2 ^ 8) @ to_bits 8 (unat w)"
    by (simp only: to_bits_append append_assoc)
  then show ?thesis by (simp add: to_bits_byte unat_drop)
qed

lemma put_loop_bits:
  assumes "held < 32" "length out \<le> limit"
  shows "case huffman_put_loop p limit out acc held of
      None \<Rightarrow> 8 * limit < 8 * length out + held + length (text_bits p)
    | Some (out', acc', held') \<Rightarrow> held' < 32 \<and> length out' \<le> limit \<and>
        byte_bits out' @ to_bits held' (unat acc') = byte_bits out @ to_bits held (unat acc) @ text_bits p"
  using assms
proof (induction p arbitrary: out acc held)
  case (Cons c p)
  define k where "k = sym_bits (unat c)"
  define code where "code = sym_code (unat c)"
  define acc' where "acc' = push_bit k acc OR of_nat code"
  have k: "k \<le> 30" "code < 2 ^ k" "char_code c = to_bits k code"
    using sym_ok [OF char_sym [of c]] by (auto simp: k_def code_def char_code_def)
  have bits: "to_bits (held + k) (unat acc') = to_bits held (unat acc) @ char_code c"
    unfolding acc'_def k(3) by (rule bits_shift_in) (use k Cons.prems in auto)
  have step: "huffman_put_loop (c # p) limit out acc held =
      (if held + k \<ge> 32 then
         if limit - length out < 4 then None
         else let held = held + k - 32; w = ucast (drop_bit held acc') :: 32 word in
           huffman_put_loop p limit (out @ [ucast (drop_bit 24 w), ucast (drop_bit 16 w), ucast (drop_bit 8 w), ucast w]) acc' held
       else huffman_put_loop p limit out acc' (held + k))"
    by (simp add: Let_def acc'_def k_def code_def sym_bits_def sym_code_def)
  show ?case
  proof (cases "held + k \<ge> 32")
    case False
    then show ?thesis
      using Cons.IH [of "held + k" out acc'] Cons.prems unfolding step
      by (auto simp: bits length_char_code k_def [symmetric] split: option.splits prod.splits)
  next
    case True
    define h where "h = held + k - 32"
    have hk: "held + k = 32 + h" using True by (simp add: h_def)
    define w where "w = (ucast (drop_bit h acc') :: 32 word)"
    define out' where "out' = out @ [ucast (drop_bit 24 w), ucast (drop_bit 16 w), ucast (drop_bit 8 w), ucast w]"
    have w: "to_bits 32 (unat w) = to_bits 32 (unat acc' div 2 ^ h)"
      unfolding w_def by (rule to_bits_cong) (simp add: unat_ucast_smaller unat_drop)
    have ob: "byte_bits out' @ to_bits h (unat acc') = byte_bits out @ to_bits held (unat acc) @ char_code c"
      unfolding out'_def byte_bits_simps(3) bytes_of_u32 w bits [symmetric] hk to_bits_append by simp
    show ?thesis
    proof (cases "limit - length out < 4")
      case full: True
      then have "huffman_put_loop (c # p) limit out acc held = None" unfolding step using True by simp
      then show ?thesis using full True Cons.prems by (simp add: length_char_code k_def [symmetric])
    next
      case room: False
      have e: "huffman_put_loop (c # p) limit out acc held = huffman_put_loop p limit out' acc' h"
        unfolding step out'_def w_def h_def using True room by (simp add: Let_def)
      have l: "h < 32" "length out' \<le> limit" "length out' = length out + 4" using hk k(1) Cons.prems room by (auto simp: out'_def)
      have ob': "byte_bits out' @ to_bits h (unat acc') @ text_bits p = byte_bits out @ to_bits held (unat acc) @ text_bits (c # p)"
        using ob by (metis append_assoc text_bits_simps(2))
      have len: "8 * length out' + h = 8 * length out + held + k" using l(3) hk by simp
      show ?thesis
        unfolding e using Cons.IH [OF l(1,2), of acc'] unfolding ob'
        by (cases "huffman_put_loop p limit out' acc' h") (use len in \<open>auto simp: length_char_code k_def [symmetric]\<close>)
    qed
  qed
qed auto

lemma ff_word: "unat (drop_bit h (0xff :: 64 word)) = 2 ^ (8 - h) - 1" if "h \<le> 8"
proof -
  have "h = 0 \<or> h = 1 \<or> h = 2 \<or> h = 3 \<or> h = 4 \<or> h = 5 \<or> h = 6 \<or> h = 7 \<or> h = 8" using that by auto
  then show ?thesis by (elim disjE) (simp_all add: unat_drop)
qed

lemma flush_bits:
  "\<exists>n < 8. byte_bits (huffman_flush acc held) = to_bits held (unat acc) @ replicate n True \<and> length (huffman_flush acc held) = (held + 7) div 8"
proof (induction acc held rule: huffman_flush.induct)
  case (1 acc held)
  show ?case
  proof (cases "held \<ge> 8")
    case True
    obtain n where n: "n < 8" "byte_bits (huffman_flush acc (held - 8)) = to_bits (held - 8) (unat acc) @ replicate n True"
      "length (huffman_flush acc (held - 8)) = (held - 8 + 7) div 8"
      using 1 [OF True] by blast
    have e: "huffman_flush acc held = ucast (drop_bit (held - 8) acc) # huffman_flush acc (held - 8)"
      using True by (subst huffman_flush.simps) simp
    have "to_bits held (unat acc) = to_bits 8 (unat acc div 2 ^ (held - 8)) @ to_bits (held - 8) (unat acc)"
      using to_bits_append [of 8 "held - 8" "unat acc"] True by simp
    then have "byte_bits (huffman_flush acc held) = to_bits held (unat acc) @ replicate n True"
      unfolding e using n(2) by (simp add: to_bits_byte unat_drop)
    moreover have "length (huffman_flush acc held) = (held + 7) div 8"
      unfolding e using n(3) True by (simp add: le_div_geq)
    ultimately show ?thesis using n(1) by blast
  next
    case lo: False
    show ?thesis
    proof (cases "held > 0")
      case True
      define b where "b = push_bit (8 - held) acc OR drop_bit held (0xff :: 64 word)"
      have e: "huffman_flush acc held = [ucast b]" unfolding b_def using lo True by (subst huffman_flush.simps) simp
      have of: "drop_bit held (0xff :: 64 word) = of_nat (2 ^ (8 - held) - 1)"
      proof -
        have "of_nat (unat (drop_bit held (0xff :: 64 word))) = drop_bit held (0xff :: 64 word)" by simp
        then show ?thesis using ff_word [of held] lo by (metis nat_le_linear)
      qed
      have "to_bits (held + (8 - held)) (unat b) = to_bits held (unat acc) @ to_bits (8 - held) (2 ^ (8 - held) - 1)"
        unfolding b_def of by (rule bits_shift_in) (use lo in auto)
      then have "byte_bits [ucast b] = to_bits held (unat acc) @ replicate (8 - held) True"
        using lo by (simp add: to_bits_byte to_bits_ones [unfolded One_nat_def])
      moreover have "(held + 7) div 8 = 1" using True lo by (intro div_nat_eqI) simp_all
      ultimately show ?thesis unfolding e using True by (intro exI [of _ "8 - held"]) simp
    next
      case False
      then have "huffman_flush acc held = []" by (subst huffman_flush.simps) simp
      then show ?thesis using False by (intro exI [of _ 0]) simp
    qed
  qed
qed

text \<open>What is put out: nothing when it does not fit, else the code and its padding of ones.\<close>

lemma put_fits:
  assumes "proven_hpack_huffman_size p \<le> limit"
  shows "\<exists>n < 8. byte_bits (hp_huffman_put p limit) = text_bits p @ replicate n True" (is ?bits)
    and "length (hp_huffman_put p limit) = proven_hpack_huffman_size p" (is ?len)
proof -
  have l: "length (text_bits p) \<le> 8 * limit" using assms unfolding size_text_bits by linarith
  note pl = put_loop_bits [of 0 "[]" limit p 0]
  obtain out acc held where s: "huffman_put_loop p limit [] 0 0 = Some (out, acc, held)"
    using pl l by (cases "huffman_put_loop p limit [] 0 0") auto
  have i: "length out \<le> limit" "byte_bits out @ to_bits held (unat acc) = text_bits p" using pl unfolding s by auto
  have "length (byte_bits out @ to_bits held (unat acc)) = length (text_bits p)" unfolding i(2) ..
  then have len: "8 * length out + held = length (text_bits p)" by simp
  have fit: "\<not> limit - length out < (held + 7) div 8"
    using assms i(1) unfolding size_text_bits len [symmetric] by linarith
  have e: "hp_huffman_put p limit = out @ huffman_flush acc held" unfolding hp_huffman_put_def s using fit by simp
  obtain n where n: "n < 8" "byte_bits (huffman_flush acc held) = to_bits held (unat acc) @ replicate n True"
    "length (huffman_flush acc held) = (held + 7) div 8" using flush_bits [of acc held] by blast
  show ?bits unfolding e using n i(2) by (auto simp: append_assoc [symmetric] simp del: append_assoc)
  show ?len unfolding e size_text_bits len [symmetric] using n(3) by simp
qed

lemma put_too_long: "limit < proven_hpack_huffman_size p \<Longrightarrow> hp_huffman_put p limit = []"
proof -
  assume a: "limit < proven_hpack_huffman_size p"
  show ?thesis
  proof (cases "huffman_put_loop p limit [] 0 0")
    case (Some x)
    obtain out acc held where x: "x = (out, acc, held)" by (cases x)
    have i: "length out \<le> limit" "byte_bits out @ to_bits held (unat acc) = text_bits p"
      using put_loop_bits [of 0 "[]" limit p 0] unfolding Some x by auto
    have "length (byte_bits out @ to_bits held (unat acc)) = length (text_bits p)" unfolding i(2) ..
    then have len: "8 * length out + held = length (text_bits p)" by simp
    have "limit - length out < (held + 7) div 8" using a i(1) unfolding size_text_bits len [symmetric] by linarith
    then show ?thesis unfolding hp_huffman_put_def Some x by simp
  qed (simp add: hp_huffman_put_def)
qed

section \<open>The reader\<close>

lemma fill_stream:
  assumes "huffman_fill rest acc bits = (rest', acc', bits')" "bits \<le> 64"
  shows "to_bits bits' (unat acc') @ byte_bits rest' = to_bits bits (unat acc) @ byte_bits rest \<and> bits' \<le> 64 \<and> (rest' = [] \<or> 56 < bits')"
  using assms
proof (induction rest acc bits rule: huffman_fill.induct)
  case (2 b rest acc bits)
  show ?case
  proof (cases "bits \<le> 56")
    case True
    have u: "(ucast b :: 64 word) = of_nat (unat b)" by simp
    have "unat b < 2 ^ LENGTH(8)" by (rule unsigned_less)
    then have b: "unat b < 2 ^ 8" by simp
    have "to_bits (bits + 8) (unat (push_bit 8 acc OR ucast b :: 64 word)) = to_bits bits (unat acc) @ to_bits 8 (unat b)"
      unfolding u by (rule bits_shift_in [OF b]) (use True in simp)
    then show ?thesis using 2 True by simp
  next
    case False
    then show ?thesis using 2(2,3) by auto
  qed
qed auto

text \<open>The accumulator as a number, and the leading bits of it.\<close>

definition acc_num :: "64 word \<Rightarrow> nat \<Rightarrow> nat" where
  "acc_num acc bits = unat acc mod 2 ^ bits"

lemma acc_num_top: "k \<le> bits \<Longrightarrow> acc_num acc bits div 2 ^ (bits - k) = unat acc div 2 ^ (bits - k) mod 2 ^ k"
proof -
  assume "k \<le> bits"
  then have "unat acc mod 2 ^ bits = unat acc mod (2 ^ (bits - k) * 2 ^ k)" by (simp add: power_add [symmetric])
  then show ?thesis unfolding acc_num_def by (simp add: mod_mult2_eq)
qed

lemma acc_num_bits: "to_bits bits (acc_num acc bits) = to_bits bits (unat acc)"
  unfolding acc_num_def by (rule to_bits_mod) simp

lemma high_div: "y < 2 ^ h \<Longrightarrow> (2 ^ h * x + y) div 2 ^ h = (x :: nat)" and
  high_mod: "y < 2 ^ h \<Longrightarrow> (2 ^ h * x + y) mod (2 ^ h * m) = 2 ^ h * (x mod m) + (y :: nat)"
proof -
  assume y: "y < 2 ^ h"
  show d: "(2 ^ h * x + y) div 2 ^ h = x" using y by simp
  show "(2 ^ h * x + y) mod (2 ^ h * m) = 2 ^ h * (x mod m) + y" unfolding mod_mult2_eq d using y by simp
qed

lemma next_num: "unat (huffman_next acc bits) =
    (if bits \<ge> 8 then acc_num acc bits div 2 ^ (bits - 8) else 2 ^ (8 - bits) * acc_num acc bits + (2 ^ (8 - bits) - 1))"
proof -
  have m: "(0xff :: 32 word) = mask 8" by (simp add: mask_eq_exp_minus_1)
  show ?thesis
  proof (cases "bits \<ge> 8")
    case True
    have "unat (huffman_next acc bits) = unat acc div 2 ^ (bits - 8) mod 2 ^ LENGTH(32) mod 2 ^ 8"
      using True unfolding huffman_next_def m by (simp add: unat_and_mask_mod unat_ucast_smaller unat_drop)
    also have "\<dots> = unat acc div 2 ^ (bits - 8) mod 2 ^ 8" by (simp add: mod_mod_cancel)
    finally show ?thesis using acc_num_top [OF True, of acc] True by simp
  next
    case False
    define h where "h = 8 - bits"
    have h: "h \<le> 8" "8 - h = bits" using False by (auto simp: h_def)
    have "bits = 0 \<or> bits = 1 \<or> bits = 2 \<or> bits = 3 \<or> bits = 4 \<or> bits = 5 \<or> bits = 6 \<or> bits = 7" using False by auto
    then have d: "unat (drop_bit bits (0xff :: 32 word)) = 2 ^ h - 1" unfolding h_def by (elim disjE) (simp_all add: unat_drop)
    have lt: "2 ^ h - 1 < (2 :: nat) ^ h" by simp
    have "unat (push_bit h (ucast acc) :: 32 word) = 2 ^ h * (unat acc mod 2 ^ 32) mod 2 ^ 32"
      by (simp add: unat_push unat_ucast_smaller)
    also have "\<dots> = 2 ^ h * (unat acc mod 2 ^ 32 mod 2 ^ (32 - h))"
      using mult_mod_right [of "2 ^ h" "unat acc mod 2 ^ 32" "2 ^ (32 - h)"] h(1) by (simp add: power_add [symmetric])
    also have "unat acc mod 2 ^ 32 mod 2 ^ (32 - h) = unat acc mod 2 ^ (32 - h)" by (rule mod_mod_cancel) (rule le_imp_power_dvd, simp)
    finally have "unat ((push_bit h (ucast acc) OR drop_bit bits 0xff) AND 0xff :: 32 word) =
        (2 ^ h * (unat acc mod 2 ^ (32 - h)) + (2 ^ h - 1)) mod 2 ^ 8"
      unfolding m unat_and_mask_mod unsigned_or_eq d using nat_or_high [OF lt] unfolding m [symmetric] d by simp
    also have "\<dots> = (2 ^ h - 1) + 2 ^ h * (unat acc mod 2 ^ (32 - h) mod 2 ^ (8 - h))"
    proof -
      have p: "(2 :: nat) ^ 8 = 2 ^ h * 2 ^ (8 - h)" using h(1) by (simp add: power_add [symmetric])
      show ?thesis unfolding p high_mod [OF lt] by (rule add.commute)
    qed
    also have "unat acc mod 2 ^ (32 - h) mod 2 ^ (8 - h) = unat acc mod 2 ^ (8 - h)" by (rule mod_mod_cancel) (simp add: le_imp_power_dvd)
    finally show ?thesis using False unfolding huffman_next_def acc_num_def h(2) h_def [symmetric] by (simp add: add.commute)
  qed
qed

lemma long_code_num:
  assumes "n \<le> 30" "n \<le> bits"
  shows "unat ((ucast (drop_bit (bits - n) acc) :: 32 word) AND (push_bit n 1 - 1)) = acc_num acc bits div 2 ^ (bits - n)"
proof -
  have m: "push_bit n 1 - 1 = (mask n :: 32 word)" by (simp add: mask_eq_exp_minus_1 push_bit_of_1)
  have "unat ((ucast (drop_bit (bits - n) acc) :: 32 word) AND mask n) = unat acc div 2 ^ (bits - n) mod 2 ^ LENGTH(32) mod 2 ^ n"
    by (simp only: unat_and_mask_mod unat_ucast_smaller unat_drop)
  also have "\<dots> = unat acc div 2 ^ (bits - n) mod 2 ^ n" by (rule mod_mod_cancel) (rule le_imp_power_dvd, use assms in simp)
  finally show ?thesis unfolding m using acc_num_top [OF assms(2)] by simp
qed

lemma div_pow_div: "(x :: nat) div 2 ^ a div 2 ^ b = x div 2 ^ (a + b)"
  by (simp add: power_add div_mult2_eq)

lemma long_symbol:
  assumes s: "s < 257" "8 < sym_bits s" "sym_bits s \<le> bits"
    and top: "acc_num acc bits div 2 ^ (bits - sym_bits s) = sym_code s"
    and n: "8 < n" "n \<le> sym_bits s"
  shows "huffman_long acc bits n = Some (s, sym_bits s)"
  using n
proof (induction "sym_bits s - n" arbitrary: n)
  case 0
  then have e: "n = sym_bits s" by simp
  have k: "n \<le> 30 \<and> n \<le> bits" using sym_ok [OF s(1)] s(3) e by simp
  note l = sym_long [OF s(1,2)]
  have c: "unat ((ucast (drop_bit (bits - n) acc) :: 32 word) AND (push_bit n 1 - 1)) = sym_code s"
    using long_code_num [of n bits acc] k top unfolding e by simp
  have "hpack_huffman_count ! sym_bits s \<noteq> 0" using l(3) by auto
  then show ?case
    using k l(2-4) unfolding e by (subst huffman_long.simps) (simp only: c [unfolded e] Let_def if_True simp_thms)
next
  case (Suc d)
  then have n: "8 < n" "n < sym_bits s" by auto
  have k: "n \<le> 30 \<and> n \<le> bits" using sym_ok [OF s(1)] s(3) n by simp
  have "bits - sym_bits s + (sym_bits s - n) = bits - n" using n(2) s(3) by simp
  then have "acc_num acc bits div 2 ^ (bits - n) = sym_code s div 2 ^ (sym_bits s - n)" unfolding top [symmetric] div_pow_div by simp
  then have c: "unat ((ucast (drop_bit (bits - n) acc) :: 32 word) AND (push_bit n 1 - 1)) = sym_code s div 2 ^ (sym_bits s - n)"
    using long_code_num [of n bits acc] k by simp
  define code where "code = sym_code s div 2 ^ (sym_bits s - n)"
  have miss: "\<not> (hpack_huffman_count ! n \<noteq> 0 \<and> code \<ge> hpack_huffman_first ! n \<and> code - hpack_huffman_first ! n < hpack_huffman_count ! n)"
    using sym_not_before [OF s(1) n] unfolding code_def by linarith
  have "huffman_long acc bits n = huffman_long acc bits (n + 1)"
    using k miss by (subst huffman_long.simps) (simp only: c [folded code_def] Let_def if_True if_False simp_thms)
  also have "\<dots> = Some (s, sym_bits s)" by (rule Suc.hyps(1)) (use Suc.hyps(2) n in auto)
  finally show ?case .
qed

lemma code_symbol:
  assumes s: "s < 257" and k: "sym_bits s \<le> bits"
    and top: "take (sym_bits s) (to_bits bits (unat acc)) = to_bits (sym_bits s) (sym_code s)"
  shows "huffman_symbol acc bits = Some (s, sym_bits s)"
proof -
  define b where "b = sym_bits s"
  note ok = sym_ok [OF s, folded b_def]
  have "to_bits b (unat acc div 2 ^ (bits - b)) = to_bits b (sym_code s)"
    using top k unfolding b_def by (simp add: take_to_bits)
  then have "unat acc div 2 ^ (bits - b) mod 2 ^ b = sym_code s" using to_bits_inj ok by fastforce
  then have c: "acc_num acc bits div 2 ^ (bits - b) = sym_code s" using acc_num_top [of b bits acc] k by (simp add: b_def)
  define v where "v = unat (huffman_next acc bits)"
  show ?thesis
  proof (cases "b \<le> 8")
    case True
    have "v div 2 ^ (8 - b) = sym_code s"
    proof (cases "bits \<ge> 8")
      case t: True
      have "bits - 8 + (8 - b) = bits - b" using True t by simp
      then show ?thesis unfolding v_def next_num using t c by (simp add: div_pow_div)
    next
      case f: False
      have e: "8 - b = (8 - bits) + (bits - b)" using f k by (simp add: b_def)
      have "(2 ^ (8 - bits) * acc_num acc bits + (2 ^ (8 - bits) - 1)) div 2 ^ (8 - bits) = acc_num acc bits" by (rule high_div) simp
      then show ?thesis unfolding v_def next_num e div_pow_div [symmetric] using f c by simp
    qed
    then have "hpack_huffman_fast ! v = s * 16 + b" using sym_short [OF s, folded b_def, OF True] by simp
    then show ?thesis using ok True k unfolding huffman_symbol_def v_def [symmetric] b_def [symmetric] by (simp add: Let_def b_def [symmetric])
  next
    case False
    then have l: "8 < sym_bits s" by (simp add: b_def)
    have "bits - b + (b - 8) = bits - 8" using False k by (simp add: b_def)
    then have "v = sym_code s div 2 ^ (b - 8)" unfolding v_def next_num c [symmetric] div_pow_div using False k by (simp add: b_def)
    then have "254 \<le> v" using sym_long(1) [OF s l] by (simp add: b_def)
    moreover have "v < 256" unfolding v_def by (rule huffman_next_less)
    ultimately have "v = 254 \<or> v = 255" by auto
    then have f: "hpack_huffman_fast ! v = 0" using fast_end by auto
    show ?thesis
      unfolding huffman_symbol_def v_def [symmetric] f
      using long_symbol [OF s l k c [unfolded b_def], of 9] l by (simp add: Let_def)
  qed
qed

lemma pad_symbol:
  assumes "bits < 8" "to_bits bits (unat acc) = replicate bits True"
  shows "huffman_symbol acc bits = None" and "acc AND (push_bit bits 1 - 1) = push_bit bits 1 - 1"
proof -
  have "to_bits bits (unat acc) = to_bits bits (2 ^ bits - 1)" using assms(2) by (simp only: to_bits_ones)
  from to_bits_inj [OF this] have a: "acc_num acc bits = 2 ^ bits - 1" unfolding acc_num_def by simp
  have "2 ^ (8 - bits) * (2 ^ bits - 1) + (2 ^ (8 - bits) - 1) = (255 :: nat)"
  proof -
    have "bits = 0 \<or> bits = 1 \<or> bits = 2 \<or> bits = 3 \<or> bits = 4 \<or> bits = 5 \<or> bits = 6 \<or> bits = 7" using assms(1) by auto
    then show ?thesis by (elim disjE) simp_all
  qed
  then have "unat (huffman_next acc bits) = 255" unfolding next_num a using assms(1) by simp
  moreover have "huffman_long acc bits 9 = None" using assms(1) by (subst huffman_long.simps) simp
  ultimately show "huffman_symbol acc bits = None" unfolding huffman_symbol_def by (simp add: fast_end)
  have m: "push_bit bits 1 - 1 = (mask bits :: 64 word)" by (simp add: mask_eq_exp_minus_1 push_bit_of_1)
  have "unat (acc AND mask bits) = unat (mask bits :: 64 word)"
  proof -
    have "bits = 0 \<or> bits = 1 \<or> bits = 2 \<or> bits = 3 \<or> bits = 4 \<or> bits = 5 \<or> bits = 6 \<or> bits = 7" using assms(1) by auto
    then have "unat (mask bits :: 64 word) = 2 ^ bits - 1" by (elim disjE) (simp_all add: mask_eq_exp_minus_1)
    then show ?thesis using a unfolding acc_num_def unat_and_mask_mod by simp
  qed
  then show "acc AND (push_bit bits 1 - 1) = push_bit bits 1 - 1" unfolding m by (rule word_unat_eq_iff [THEN iffD2])
qed

text \<open>A text's code, with a padding of fewer than eight ones, reads back.\<close>

lemma decode_text:
  assumes "to_bits bits (unat acc) @ byte_bits rest = text_bits p @ replicate n True" "n < 8" "bits \<le> 64" "length out \<le> cap"
  shows "huffman_decode_loop rest acc bits cap out =
    (if length out + length p \<le> cap \<or> p = [] then (PROVEN_OK, out @ p) else (PROVEN_ERR_OUT_OF_BOUNDS, out @ take (cap - length out) p))"
  using assms
proof (induction p arbitrary: rest acc bits out)
  case Nil
  obtain rest' acc' bits' where f: "huffman_fill rest acc bits = (rest', acc', bits')" by (cases "huffman_fill rest acc bits")
  note st = fill_stream [OF f Nil(3)]
  have s: "to_bits bits' (unat acc') @ byte_bits rest' = replicate n True" using st Nil(1) by simp
  have "length (to_bits bits' (unat acc') @ byte_bits rest') = n" unfolding s by simp
  then have l: "bits' + 8 * length rest' = n" by simp
  then have "length rest' = 0" using Nil(2) by linarith
  then have r: "rest' = []" and b: "bits' = n" using l by simp_all
  show ?case
  proof (cases "bits' = 0")
    case True
    then show ?thesis by (subst huffman_decode_loop.simps) (simp add: f)
  next
    case False
    have "to_bits bits' (unat acc') = replicate bits' True" using s unfolding r b by simp
    note p = pad_symbol [OF _ this]
    have "bits' < 8" using b Nil(2) by simp
    then show ?thesis using p r by (subst huffman_decode_loop.simps) (simp add: f)
  qed
next
  case (Cons c p)
  obtain rest' acc' bits' where f: "huffman_fill rest acc bits = (rest', acc', bits')" by (cases "huffman_fill rest acc bits")
  note st = fill_stream [OF f Cons.prems(3)]
  define k where "k = sym_bits (unat c)"
  have ok: "5 \<le> k" "k \<le> 30" using sym_ok [OF char_sym [of c]] by (auto simp: k_def)
  have s: "to_bits bits' (unat acc') @ byte_bits rest' = char_code c @ text_bits p @ replicate n True" using st Cons.prems(1) by simp
  have lc: "length (char_code c) = k" by (simp add: length_char_code k_def)
  have kb: "k \<le> bits'"
  proof (cases "rest' = []")
    case True
    have "length (to_bits bits' (unat acc') @ byte_bits rest') = k + length (text_bits p @ replicate n True)" unfolding s using lc by simp
    then show ?thesis using True by simp
  next
    case False
    then show ?thesis using st ok by auto
  qed
  have "take k (to_bits bits' (unat acc') @ byte_bits rest') = char_code c" unfolding s using lc by simp
  then have top: "take k (to_bits bits' (unat acc')) = char_code c" using kb by simp
  then have sym: "huffman_symbol acc' bits' = Some (unat c, k)"
    using code_symbol [OF char_sym, of c bits' acc'] kb by (simp add: k_def char_code_def)
  have "drop k (to_bits bits' (unat acc') @ byte_bits rest') = text_bits p @ replicate n True" unfolding s using lc by simp
  then have next_s: "to_bits (bits' - k) (unat acc') @ byte_bits rest' = text_bits p @ replicate n True" using kb by (simp add: drop_to_bits)
  have c256: "unat c \<noteq> 256" using unat_ne_256 [of c] .
  have step: "huffman_decode_loop rest acc bits cap out =
      (if length out = cap then (PROVEN_ERR_OUT_OF_BOUNDS, out) else huffman_decode_loop rest' acc' (bits' - k) cap (out @ [c]))"
    using kb ok c256 by (subst huffman_decode_loop.simps) (simp add: f sym)
  show ?case
  proof (cases "length out = cap")
    case True
    then show ?thesis unfolding step by simp
  next
    case False
    then have o: "length (out @ [c]) \<le> cap" using Cons.prems(4) by simp
    have b64: "bits' - k \<le> 64" using st by auto
    have d: "cap - length out = Suc (cap - length (out @ [c]))" using False Cons.prems(4) by simp
    show ?thesis
      unfolding step using False Cons.IH [OF next_s Cons.prems(2) b64 o] o d by (cases "p = []") auto
  qed
qed

lemma huffman_roundtrip:
  assumes "length out \<le> cap"
  shows "huffman_decode_loop (hp_huffman_put p (proven_hpack_huffman_size p)) 0 0 cap out =
    (if length out + length p \<le> cap \<or> p = [] then (PROVEN_OK, out @ p) else (PROVEN_ERR_OUT_OF_BOUNDS, out @ take (cap - length out) p))"
proof -
  obtain n where "n < 8" "byte_bits (hp_huffman_put p (proven_hpack_huffman_size p)) = text_bits p @ replicate n True"
    using put_fits(1) [OF order_refl, of p] by blast
  then show ?thesis using decode_text [of 0 0 "hp_huffman_put p (proven_hpack_huffman_size p)" p n out cap] assms by simp
qed

section \<open>The round trip\<close>

text \<open>
  C22: what \<open>proven_hpack_huffman_encode\<close> appends has the length \<open>proven_hpack_huffman_size\<close> announces, and
  \<open>proven_hpack_huffman_decode\<close> appends exactly the text it was made from; where the text does not fit, it says so
  and leaves its output alone.
\<close>

theorem hpack_huffman_roundtrip:
  assumes "length (out_bytes out) + proven_hpack_huffman_size str \<le> out_cap out" "\<not> out_null out"
    and "length (out_bytes res) \<le> out_cap res" "\<not> out_null res"
  shows "\<exists>coded. proven_hpack_huffman_encode (At str) (Some out) = (PROVEN_OK, Some (out\<lparr>out_bytes := out_bytes out @ coded\<rparr>)) \<and>
    length coded = proven_hpack_huffman_size str \<and>
    proven_hpack_huffman_decode (At coded) (Some res) =
      (if length (out_bytes res) + length str \<le> out_cap res then (PROVEN_OK, Some (res\<lparr>out_bytes := out_bytes res @ str\<rparr>))
       else (PROVEN_ERR_OUT_OF_BOUNDS, Some res))"
proof -
  define coded where "coded = hp_huffman_put str (proven_hpack_huffman_size str)"
  have "proven_hpack_huffman_encode (At str) (Some out) = (PROVEN_OK, Some (out\<lparr>out_bytes := out_bytes out @ coded\<rparr>))"
    using assms(1,2) by (simp add: proven_hpack_huffman_encode_def hp_out_bad_def Let_def coded_def)
  moreover have "length coded = proven_hpack_huffman_size str" unfolding coded_def by (rule put_fits(2)) simp
  moreover have "proven_hpack_huffman_decode (At coded) (Some res) =
      (if length (out_bytes res) + length str \<le> out_cap res then (PROVEN_OK, Some (res\<lparr>out_bytes := out_bytes res @ str\<rparr>))
       else (PROVEN_ERR_OUT_OF_BOUNDS, Some res))"
    using assms(3,4) huffman_roundtrip [OF assms(3), of str] by (auto simp: proven_hpack_huffman_decode_def hp_out_bad_def coded_def)
  ultimately show ?thesis by blast
qed

lemma size_ab: "proven_hpack_huffman_size [97, 98] = 2" by (simp add: proven_hpack_huffman_size_def hpack_huffman_def huffman_row0_def huffman_row1_def huffman_row2_def huffman_row3_def huffman_row4_def huffman_row5_def huffman_row6_def)

lemma hpack_huffman_roundtrip_witness:
  "\<exists>coded. proven_hpack_huffman_encode (At [97, 98]) (Some \<lparr>out_null = False, out_cap = 4, out_bytes = [7]\<rparr>) =
      (PROVEN_OK, Some \<lparr>out_null = False, out_cap = 4, out_bytes = 7 # coded\<rparr>) \<and> length coded = 2 \<and>
    proven_hpack_huffman_decode (At coded) (Some \<lparr>out_null = False, out_cap = 2, out_bytes = []\<rparr>) =
      (PROVEN_OK, Some \<lparr>out_null = False, out_cap = 2, out_bytes = [97, 98]\<rparr>)"
  using hpack_huffman_roundtrip [of "\<lparr>out_null = False, out_cap = 4, out_bytes = [7]\<rparr>" "[97, 98]" "\<lparr>out_null = False, out_cap = 2, out_bytes = []\<rparr>"]
  by (simp add: size_ab)

end
