(* ===== verification/Spec2Isabelle.thy ===== *)
theory Spec2Isabelle
  imports Ring Array_Ops Encode Utf_Props Crc32 Hmac_Props Map_Props Sort_Props U8_Props Quic_Props Quic_Header_Props Sse_Props Civil_Time Url_Props Url_Resolve Aead X25519 Hpack_Coding
begin

text \<open>
  A verification development of the C library \<^verbatim>\<open>proven\<close>: its memory foundations, its
  allocators and containers, its strings and codecs, parts of its cryptography, and the codecs of its network
  library (\<^verbatim>\<open>net/\<close>). Paths are given below \<^verbatim>\<open>src/\<close>;
  \<^verbatim>\<open>x.c\<close> is \<^verbatim>\<open>src/proven/x.c\<close> with its header
  \<^verbatim>\<open>include/proven/x.h\<close> unless a directory is named.

  \<^bold>\<open>How the program is put together.\<close> Everything rests on checked arithmetic over sizes and
  addresses (\<^verbatim>\<open>types.h\<close>, \<^verbatim>\<open>align.h\<close>,
  \<^verbatim>\<open>proven_internal_memrange.h\<close>) and on slices of memory
  (\<^verbatim>\<open>memory.h\<close>). A container (array, hash map) obtains memory only through the allocator
  trait (\<^verbatim>\<open>allocator.h\<close>), a struct of three function pointers and a context; the arena
  (\<^verbatim>\<open>arena.c\<close>) provides one. Sorting works in place on the memory of an array and calls
  back a comparator; the hash map calls back hash and equality functions. The codecs, digests and ciphers keep
  no memory: they read views and write to an output the caller sized. The parsers of the network library are
  built the same way, so that a datagram, an event stream or a header block is a view as well; the connections
  that drive them are not part of this development.

  \<^bold>\<open>Conventions.\<close> A reader of the theories should know these first.
  \<^item> \<^verbatim>\<open>size_t\<close> and addresses are natural numbers with \<open>SIZE_MAX\<close> of a
    64-bit target; a sum or product that can wrap is written \<open>wrap (..)\<close>, and the checked
    operations of the library answer \<open>None\<close> where the C ones answer an overflow. Fixed-width
    integers whose bits matter are words.
  \<^item> Memory is a function from addresses to bytes, and address 0 is the null pointer; containers, the
    allocator and the sort work on it, so aliasing (an element pointer into the array that moves) is visible. A
    pointer to a struct that the code tests for null is an option.
  \<^item> Codecs work on \<open>view\<close>s: \<open>Null n\<close> (a null pointer with a size) or \<open>At
    xs\<close>. An output buffer is its capacity and the bytes written so far; what lies behind them is not
    read.
  \<^item> An error is a value of \<open>proven_err\<close>, and every early return of the source is a branch of
    the model. What is passed by pointer is returned.

  \<^bold>\<open>Foundations.\<close>
  \<^item> \<^verbatim>\<open>Prelude\<close>: sizes and addresses with checked and wrapping arithmetic, the
    byte memory. \<^verbatim>\<open>Base\<close>: error codes and alignment. \<^verbatim>\<open>Memory\<close>:
    slices, range checks, copies, comparison (\<^verbatim>\<open>memory.c\<close>,
    \<^verbatim>\<open>platform/proven_sys_mem.h\<close>). \<^verbatim>\<open>Slots\<close>: runs of equally
    sized elements in memory. \<^verbatim>\<open>Views\<close>: views and outputs of the codecs.
    \<^verbatim>\<open>Word_Nat\<close>, \<^verbatim>\<open>Bits\<close>: words read as numbers and as strings
    of bits.
  \<^item> \<^verbatim>\<open>Allocator\<close>: the trait and its contract, the locale
    \<open>allocator_laws\<close>: what a provider promises of blocks, sizes, alignment and other memory, for
    each of the three operations and their failures. \<^verbatim>\<open>Arena\<close>:
    \<^verbatim>\<open>arena.c\<close>, its invariant over the set of live blocks, and the interpretation
    \<open>arena\<close> of the contract.

  \<^bold>\<open>Containers.\<close> Proved once inside the locale \<open>allocator_laws\<close>, and stated
  over the arena through its interpretation.
  \<^item> \<^verbatim>\<open>Ring\<close>: \<^verbatim>\<open>ring.c\<close>, refined to a bounded queue.
  \<^item> \<^verbatim>\<open>Array\<close>, \<^verbatim>\<open>Array_Ops\<close>:
    \<^verbatim>\<open>array.c\<close>, each operation refined to an operation on lists: growth, insertion and
    removal with elements that lie in the array itself, and what is left alone on failure.
  \<^item> \<^verbatim>\<open>Table_Hash\<close>, \<^verbatim>\<open>Probe\<close>,
    \<^verbatim>\<open>Hash_Map\<close>, \<^verbatim>\<open>Map_Table\<close>,
    \<^verbatim>\<open>Map_Laws\<close>, \<^verbatim>\<open>Map_Rehash\<close>,
    \<^verbatim>\<open>Map_Ops\<close>, \<^verbatim>\<open>Map_Refine\<close>,
    \<^verbatim>\<open>Map_Life\<close>, \<^verbatim>\<open>Map_Props\<close>: \<^verbatim>\<open>map.c\<close>
    with its hashes. \<open>Probe\<close> is open addressing on a list of slots (locale
    \<open>home_index\<close>); \<open>Map_Table\<close> shows that the bucket array is such a table over key
    contents; the rest shows that set, get, remove, reserve, iteration, creation and destruction refine a finite
    map, own their keys and free each block once, and that the invariant holds along every interleaving of
    operations with the client's own writes (the relation \<open>map_run\<close>).

  \<^bold>\<open>Sorting and searching.\<close>
  \<^item> \<^verbatim>\<open>Algorithm\<close>: \<^verbatim>\<open>algorithm.c\<close>, the introsort and the
    two searches. \<^verbatim>\<open>Sort_Lists\<close>: the mathematics on lists, with the contract of a
    comparator as the locale \<open>compare_order\<close>, extended by \<open>element_order\<close> and
    interpreted by the string comparator. \<^verbatim>\<open>Sort_Memory\<close>,
    \<^verbatim>\<open>Sort_Heap\<close>, \<^verbatim>\<open>Sort_Partition\<close>,
    \<^verbatim>\<open>Sort_Intro\<close>, \<^verbatim>\<open>Sort_Props\<close>: whatever the comparator
    answers the sort ends, stays in its range and permutes it; with a comparator that keeps its contract the
    result is sorted, and the searches are right.

  \<^bold>\<open>Strings and text.\<close>
  \<^item> \<^verbatim>\<open>U8_View\<close>, \<^verbatim>\<open>Byte_Scan\<close>,
    \<^verbatim>\<open>U8_Search\<close>, \<^verbatim>\<open>U8_Find\<close>,
    \<^verbatim>\<open>U8_Props\<close>: the views of \<^verbatim>\<open>u8str.c\<close>: order, trimming, byte
    scans a word at a time, substring search in both directions (Shift-Or by the invariant of its state word,
    the scan anchored on the rarest sampled byte), splitting.
  \<^item> \<^verbatim>\<open>Utf\<close>, \<^verbatim>\<open>Utf_Convert\<close>,
    \<^verbatim>\<open>Utf_Props\<close>: \<^verbatim>\<open>utf.c\<close>, strict decoding, and conversion in
    both directions, whole, partial, measuring and lossy, against texts of scalar values.
  \<^item> \<^verbatim>\<open>Encode\<close>: \<^verbatim>\<open>encode.c\<close>, hex and Base64, as round
    trips with strict rejection.
  \<^item> \<^verbatim>\<open>Civil_Time\<close>: \<^verbatim>\<open>time.c\<close>, the civil calendar, against
    a calendar counted day by day.
  \<^item> \<^verbatim>\<open>Url\<close>, \<^verbatim>\<open>Url_Path\<close>,
    \<^verbatim>\<open>Url_Safe\<close>, \<^verbatim>\<open>Url_Props\<close>,
    \<^verbatim>\<open>Url_Parse\<close>, \<^verbatim>\<open>Url_Resolve\<close>:
    \<^verbatim>\<open>url.c\<close>: the grammar that parsing accepts, percent-coding, resolution of references
    as RFC 3986 gives it, and the request path that can not leave its root.

  \<^bold>\<open>Digests and ciphers.\<close>
  \<^item> \<^verbatim>\<open>Block_Hash\<close>: the block buffer that every digest shares, and the locale
    \<open>streaming\<close> (any cut of a message into updates gives the digest of the whole), interpreted for
    each digest. \<^verbatim>\<open>Crc32\<close>, \<^verbatim>\<open>Sha2\<close>,
    \<^verbatim>\<open>Hash_Legacy\<close>: \<^verbatim>\<open>hash.c\<close> and
    \<^verbatim>\<open>hash_legacy.c\<close>. \<^verbatim>\<open>Hmac\<close>,
    \<^verbatim>\<open>Hmac_Props\<close>: \<^verbatim>\<open>hmac.c\<close> against RFC 2104, 5869 and 8018.
  \<^item> \<^verbatim>\<open>Chacha\<close>, \<^verbatim>\<open>Poly_Limbs\<close>,
    \<^verbatim>\<open>Poly_Block\<close>, \<^verbatim>\<open>Poly_Tag\<close>,
    \<^verbatim>\<open>Poly1305\<close>, \<^verbatim>\<open>Aead\<close>:
    \<^verbatim>\<open>crypto_chacha.c\<close> against RFC 8439. The limbs of 44, 44 and 42 bits never wrap, a
    block is a step of Horner's rule modulo 2^130 - 5, and the tag is the reduced number; the AEAD opens what it
    sealed and nothing else.
  \<^item> \<^verbatim>\<open>Curve_Field\<close>, \<^verbatim>\<open>Curve_Ops\<close>,
    \<^verbatim>\<open>Curve_Bytes\<close>, \<^verbatim>\<open>X25519\<close>: the field of
    \<^verbatim>\<open>crypto_25519.c\<close> on five limbs of 51 bits, and the ladder against the one RFC 7748
    writes over integers modulo 2^255 - 19.

  \<^bold>\<open>Network codecs.\<close>
  \<^item> \<^verbatim>\<open>Quic_Codec\<close>, \<^verbatim>\<open>Quic_Frame\<close>,
    \<^verbatim>\<open>Quic_Wire\<close>, \<^verbatim>\<open>Quic_Read\<close>,
    \<^verbatim>\<open>Quic_Ack\<close>, \<^verbatim>\<open>Quic_Limits\<close>,
    \<^verbatim>\<open>Quic_Props\<close>, \<^verbatim>\<open>Quic_Header\<close>,
    \<^verbatim>\<open>Quic_Header_Props\<close>: \<^verbatim>\<open>net/src/quic_frame.c\<close> and the reader
    of \<^verbatim>\<open>net/src/quic_crypto.c\<close>. \<open>Quic_Wire\<close> gives every frame as a list of
    integers and runs of bytes, which writing puts out whole or not at all and reading takes apart;
    \<open>Quic_Ack\<close> shows that an ACK frame that was accepted can be walked without an underflow.
  \<^item> \<^verbatim>\<open>Sse\<close>, \<^verbatim>\<open>Sse_Spec\<close>,
    \<^verbatim>\<open>Sse_Props\<close>: \<^verbatim>\<open>net/src/sse.c\<close>, against the event stream of
    the HTML standard read as a whole.
  \<^item> \<^verbatim>\<open>Hpack_Tables\<close>, \<^verbatim>\<open>Hpack_Codes\<close>,
    \<^verbatim>\<open>Hpack_Huffman\<close>, \<^verbatim>\<open>Hpack_Coding\<close>: the Huffman coding of
    \<^verbatim>\<open>net/src/hpack.c\<close> with the tables of
    \<^verbatim>\<open>net/src/hpack_tables.h\<close>: the tables agree with each other (the canonical order,
    the lookup by eight bits), and what is coded decodes to itself.

  \<^bold>\<open>Bounds and fuel.\<close>
  \<^item> Definitions are total and executable. Loops that are not structural are functions with a measure. The
    one exception is Two-Way search (\<open>twoway_loop\<close>, a partial function whose \<open>None\<close> is
    a loop that does not end): no theorem here bounds it, and the search theorems exclude the inputs that reach
    it (\<open>no_twoway\<close>).
  \<^item> Fuel occurs only in clients that a theorem drives: \<open>split_collect\<close> (the length of the
    text and two calls are enough: each call passes a separator or ends the split), \<open>sse_client\<close>
    (one call for each byte and one more: every call that gives an event has taken a byte,
    \<open>sse_feed_progress\<close>), \<open>ack_walk\<close> (the number of ranges the frame announces). In
    each case the theorem says that the result is reached, not only what it is if reached.

  \<^bold>\<open>Not modelled.\<close> What a part of the library would need is given with it.
  \<^item> Operating-system services and what is a thin layer over them: heap, files, console, clocks, sockets,
    threads, random numbers, the event loop. Their behaviour is the host's. The job system
    (\<^verbatim>\<open>job.c\<close>) is a lock-free queue whose correctness is a claim about the memory model
    of C.
  \<^item> Variadic front ends and what writes through them: formatting and scanning
    (\<^verbatim>\<open>fmt.c\<close>, \<^verbatim>\<open>scan.c\<close>), the owned strings that they write to,
    and the pool (\<^verbatim>\<open>pool.c\<close>), the byte buffer and the intrusive list, small containers
    beside those modelled.
  \<^item> Floating-point conversion (\<^verbatim>\<open>float_decimal.c\<close>,
    \<^verbatim>\<open>float_parse.c\<close>, \<^verbatim>\<open>float_format.c\<close>): the theories in use
    have no IEEE numbers.
  \<^item> The compression codecs (\<^verbatim>\<open>deflate.c\<close>, \<^verbatim>\<open>brotli.c\<close>,
    \<^verbatim>\<open>zstd.c\<close>, \<^verbatim>\<open>zstd_encode.c\<close>), AES, RSA and the NIST curves,
    certificates.
  \<^item> The protocol state machines over sockets and handshakes: TLS, QUIC connections, HTTP connections and
    servers, WebSocket. Of these the pure codecs they call are modelled as listed above.
  \<^item> Within a modelled file: vector paths that use processor intrinsics, the layouts for compilers without
    128-bit integers, debug-only checks, and the wiping of local buffers, which has no effect a caller can
    observe.
\<close>

end
